(* ===== verification/C_Prelude.thy ===== *)
theory C_Prelude
  imports Main "HOL-Library.Word"
begin

text \<open>
  What the component theories share: the machine types of the C code, arithmetic on
  \<open>size_t\<close> (natural numbers below \<open>2 ^ 64\<close>, with the wrap-around of the 64-bit targets of
  the application written out), copying into byte arrays, and the little- and big-endian
  readings of byte strings.
\<close>

unbundle bit_operations_syntax

type_synonym u8 = "8 word"
type_synonym u16 = "16 word"
type_synonym u32 = "32 word"
type_synonym u64 = "64 word"

named_theorems c_arith \<open>unfolding size arithmetic on in-range values\<close>

subsection \<open>The arithmetic of size_t\<close>

definition SIZE_LIMIT :: nat where
  "SIZE_LIMIT = 2 ^ 64"

definition size_add :: "nat \<Rightarrow> nat \<Rightarrow> nat" where
  "size_add a b = (a + b) mod SIZE_LIMIT"

definition size_mul :: "nat \<Rightarrow> nat \<Rightarrow> nat" where
  "size_mul a b = (a * b) mod SIZE_LIMIT"

lemma SIZE_LIMIT_pos [simp]: "0 < SIZE_LIMIT"
  by (simp add: SIZE_LIMIT_def)

lemma SIZE_LIMIT_gt [simp]: "Suc 0 < SIZE_LIMIT" "9 < SIZE_LIMIT"
  by (simp_all add: SIZE_LIMIT_def)

lemma size_add_exact [c_arith]: "a + b < SIZE_LIMIT \<Longrightarrow> size_add a b = a + b"
  by (simp add: size_add_def)

lemma size_mul_exact [c_arith]: "a * b < SIZE_LIMIT \<Longrightarrow> size_mul a b = a * b"
  by (simp add: size_mul_def)

text \<open>Evaluation goes through binary integers, since \<open>2 ^ 64\<close> in unary does not.\<close>

lemma size_add_code [code]: "size_add a b = nat ((int a + int b) mod 18446744073709551616)"
  by (simp add: size_add_def SIZE_LIMIT_def nat_mod_distrib nat_add_distrib)

lemma size_mul_code [code]: "size_mul a b = nat ((int a * int b) mod 18446744073709551616)"
  by (simp add: size_mul_def SIZE_LIMIT_def nat_mod_distrib nat_mult_distrib)

lemma size_add_bound [simp, intro]: "size_add a b < SIZE_LIMIT"
  by (simp add: size_add_def)

lemma size_add_0 [simp]: "a < SIZE_LIMIT \<Longrightarrow> size_add a 0 = a"
  by (simp add: size_add_def)

lemma size_add_assoc: "size_add (size_add a b) c = size_add a (b + c)"
  by (simp add: size_add_def mod_add_left_eq add.assoc)

lemma size_add_mod_right [simp]: "size_add a (b mod SIZE_LIMIT) = size_add a b"
  by (simp add: size_add_def mod_add_right_eq)

text \<open>The C idiom \<open>a + b < a\<close> detects exactly the sums that do not fit.\<close>

lemma size_add_overflow_iff:
  assumes "a < SIZE_LIMIT" "b < SIZE_LIMIT"
  shows "size_add a b < a \<longleftrightarrow> SIZE_LIMIT \<le> a + b"
proof (cases "a + b < SIZE_LIMIT")
  case True
  then show ?thesis by (simp add: size_add_def)
next
  case False
  then have "(a + b) mod SIZE_LIMIT = a + b - SIZE_LIMIT"
    using assms by (simp add: le_mod_geq mod_less)
  then show ?thesis using False assms by (simp add: size_add_def)
qed

subsection \<open>Byte arrays\<close>

text \<open>The loop \<open>for (i = 0; i < n; i++) dst[off + i] = src[i]\<close>.\<close>

fun copy_bytes :: "'a list \<Rightarrow> nat \<Rightarrow> 'a list \<Rightarrow> 'a list" where
  "copy_bytes dst off [] = dst"
| "copy_bytes dst off (b # bs) = copy_bytes (dst[off := b]) (Suc off) bs"

lemma length_copy_bytes [simp]: "length (copy_bytes dst off bs) = length dst"
  by (induction dst off bs rule: copy_bytes.induct) simp_all

lemma copy_bytes_splice:
  "off + length bs \<le> length dst \<Longrightarrow>
   copy_bytes dst off bs = take off dst @ bs @ drop (off + length bs) dst"
proof (induction dst off bs rule: copy_bytes.induct)
  case (1 dst off)
  then show ?case by simp
next
  case (2 dst off b bs)
  then show ?case by (simp add: take_Suc_conv_app_nth)
qed

lemma copy_bytes_append:
  "copy_bytes dst off (bs @ cs) = copy_bytes (copy_bytes dst off bs) (off + length bs) cs"
  by (induction dst off bs rule: copy_bytes.induct) simp_all

text \<open>Reading \<open>n\<close> bytes of an array from an offset; a byte outside the array reads as 0.\<close>

definition bytes_at :: "u8 list \<Rightarrow> nat \<Rightarrow> nat \<Rightarrow> u8 list" where
  "bytes_at buf pos n = map (\<lambda>i. if pos + i < length buf then buf ! (pos + i) else 0) [0..<n]"

lemma length_bytes_at [simp]: "length (bytes_at buf pos n) = n"
  by (simp add: bytes_at_def)

lemma bytes_at_in_range:
  "pos + n \<le> length buf \<Longrightarrow> bytes_at buf pos n = take n (drop pos buf)"
  by (rule nth_equalityI) (auto simp: bytes_at_def)

subsection \<open>Byte order\<close>

fun le_word :: "u8 list \<Rightarrow> 'a::len word" where
  "le_word [] = 0"
| "le_word (b # bs) = ucast b OR push_bit 8 (le_word bs)"

fun le_bytes :: "nat \<Rightarrow> 'a::len word \<Rightarrow> u8 list" where
  "le_bytes 0 w = []"
| "le_bytes (Suc n) w = ucast w # le_bytes n (drop_bit 8 w)"

text \<open>The big-endian accumulator loop \<open>v = (v << 8) | b\<close>.\<close>

fun be_acc :: "'a::len word \<Rightarrow> u8 list \<Rightarrow> 'a word" where
  "be_acc acc [] = acc"
| "be_acc acc (b # bs) = be_acc (push_bit 8 acc OR ucast b) bs"

definition be_word :: "u8 list \<Rightarrow> 'a::len word" where
  "be_word bs = be_acc 0 bs"

text \<open>Its abstract reading as a number.\<close>

definition be_nat :: "u8 list \<Rightarrow> nat" where
  "be_nat bs = foldl (\<lambda>n b. n * 256 + unat b) 0 bs"

lemma length_le_bytes [simp]: "length (le_bytes n w) = n"
  by (induction n arbitrary: w) simp_all

lemma foldl_be_nat: "foldl (\<lambda>n b. n * 256 + unat b) a bs = a * 256 ^ length bs + be_nat bs"
  for a :: nat and bs :: "u8 list"
proof (induction bs arbitrary: a)
  case Nil
  then show ?case by (simp add: be_nat_def)
next
  case (Cons b bs)
  have "foldl (\<lambda>n b. n * 256 + unat b) a (b # bs)
      = (a * 256 + unat b) * 256 ^ length bs + be_nat bs"
    by (simp add: Cons.IH)
  moreover have "be_nat (b # bs) = unat b * 256 ^ length bs + be_nat bs"
    using Cons.IH [of "unat b"] by (simp add: be_nat_def)
  ultimately show ?case by (simp add: algebra_simps)
qed

lemma be_nat_simps [simp]:
  "be_nat [] = 0"
  "be_nat (b # bs) = unat b * 256 ^ length bs + be_nat bs"
  "be_nat (bs @ cs) = be_nat bs * 256 ^ length cs + be_nat cs"
  using foldl_be_nat [of "unat b" bs] foldl_be_nat [of "be_nat bs" cs]
  by (simp_all add: be_nat_def)

lemma unat_u8_lt [simp]: "unat (b :: u8) < 256"
  using unsigned_less [of b, where ?'a = nat] by simp

lemma unat_u8_le [simp]: "unat (b :: u8) \<le> 255"
  using unat_u8_lt [of b] by linarith

lemma be_nat_bound: "be_nat bs < 256 ^ length bs"
proof (induction bs)
  case (Cons b bs)
  have "unat b * 256 ^ length bs + be_nat bs < (unat b + 1) * 256 ^ length bs"
    using Cons.IH by simp
  also have "\<dots> \<le> 256 * 256 ^ length bs"
    using unat_u8_lt [of b] by (intro mult_right_mono) simp_all
  finally show ?case by simp
qed simp

text \<open>Reading shifts, unions and casts of words as numbers.\<close>

lemma unat_or_disjoint:
  fixes a b :: "'a::len word"
  assumes "a AND b = 0"
  shows "unat (a OR b) = unat a + unat b"
proof -
  have "unat a AND unat b = 0"
    using assms by (metis unsigned_0 unsigned_and_eq)
  then show ?thesis
    by (simp add: unsigned_or_eq disjunctive_add_eq_or)
qed

lemma unat_push_bit_exact:
  fixes w :: "'a::len word"
  assumes "unat w * 2 ^ n < 2 ^ LENGTH('a)"
  shows "unat (push_bit n w) = unat w * 2 ^ n"
  using assms by (simp only: unsigned_push_bit_eq push_bit_eq_mult [of n "unat w"] take_bit_nat_eq_self)

lemma unat_drop_bit: "unat (drop_bit n w) = unat w div 2 ^ n"
  by (simp only: unat_drop_bit_eq drop_bit_eq_div [of n "unat w"])

lemma unat_ucast_up:
  fixes w :: "'a::len word"
  assumes "LENGTH('a) \<le> LENGTH('b)"
  shows "unat (ucast w :: 'b::len word) = unat w"
proof -
  have "unat w < 2 ^ LENGTH('a)" by simp
  also have "(2::nat) ^ LENGTH('a) \<le> 2 ^ LENGTH('b)"
    using assms by simp
  finally show ?thesis by (simp add: unsigned_ucast_eq take_bit_nat_eq_self)
qed

lemma unat_ucast_mod: "unat (ucast w :: 'b::len word) = unat w mod 2 ^ LENGTH('b)"
  for w :: "'a::len word"
  by (simp add: unsigned_ucast_eq take_bit_eq_mod)

lemma unat_word_of_nat: "n < 2 ^ LENGTH('a) \<Longrightarrow> unat (word_of_nat n :: 'a::len word) = n"
  by (simp only: unat_of_nat mod_less)

lemma unat_and_mask: "unat (w AND mask n) = unat w mod 2 ^ n"
  for w :: "'a::len word"
  by (simp only: unsigned_take_bit_eq take_bit_eq_mod [of n "unat w"] flip: take_bit_eq_mask)

text \<open>Shifting in a byte is multiplication by 256 as long as nothing is lost.\<close>

lemma unat_shift_in_byte:
  fixes acc :: "'a::len word" and b :: u8
  assumes "unat acc * 256 < 2 ^ LENGTH('a)" and "8 \<le> LENGTH('a)"
  shows "unat (push_bit 8 acc OR ucast b) = unat acc * 256 + unat b"
proof -
  have "push_bit 8 acc AND (ucast b :: 'a word) = 0"
    by (rule bit_word_eqI) (auto simp: bit_simps dest: bit_imp_le_length)
  moreover have "unat (push_bit 8 acc) = unat acc * 256"
    using assms(1) unat_push_bit_exact [of acc 8] by simp
  ultimately show ?thesis
    using assms(2) by (simp add: unat_or_disjoint unat_ucast_up)
qed

lemma unat_be_acc:
  fixes acc :: "'a::len word"
  assumes "(unat acc + 1) * 256 ^ length bs \<le> 2 ^ LENGTH('a)" and "8 \<le> LENGTH('a)"
  shows "unat (be_acc acc bs) = unat acc * 256 ^ length bs + be_nat bs"
  using assms
proof (induction bs arbitrary: acc)
  case Nil
  then show ?case by simp
next
  case (Cons b bs)
  have lim: "(unat acc + 1) * 256 * 256 ^ length bs \<le> 2 ^ LENGTH('a)"
    using Cons.prems(1) by (simp add: algebra_simps)
  have "(unat acc + 1) * 256 * 1 \<le> (unat acc + 1) * 256 * 256 ^ length bs"
    by (rule mult_left_mono) simp_all
  also note lim
  finally have sh: "unat (push_bit 8 acc OR ucast b) = unat acc * 256 + unat b"
    using Cons.prems(2) by (intro unat_shift_in_byte) simp_all
  have "(unat acc * 256 + unat b + 1) * 256 ^ length bs \<le> (unat acc + 1) * 256 * 256 ^ length bs"
    by (rule mult_right_mono) (use unat_u8_lt [of b] in simp_all)
  also note lim
  finally have "unat (be_acc (push_bit 8 acc OR ucast b) bs)
      = unat (push_bit 8 acc OR ucast b) * 256 ^ length bs + be_nat bs"
    using Cons.prems(2) by (intro Cons.IH) (simp_all add: sh)
  then show ?case by (simp add: sh algebra_simps)
qed

lemma unat_be_word:
  assumes "256 ^ length bs \<le> (2::nat) ^ LENGTH('a::len)" and "8 \<le> LENGTH('a)"
  shows "unat (be_word bs :: 'a word) = be_nat bs"
  using unat_be_acc [of "0 :: 'a word" bs] assms by (simp add: be_word_def)

lemma and_0x7F: "w AND 0x7F = take_bit 7 w" for w :: "'a::len word"
  by (simp add: take_bit_eq_mask mask_eq_exp_minus_1)

lemma unat_take_bit: "unat (take_bit n w) = unat w mod 2 ^ n"
  by (simp only: unsigned_take_bit_eq take_bit_eq_mod [of n "unat w"])

lemma and_0xFF: "w AND 0xFF = take_bit 8 w" for w :: "'a::len word"
  by (simp add: take_bit_eq_mask mask_eq_exp_minus_1)

lemma le_word_le_bytes: "le_word (le_bytes n w) = take_bit (8 * n) w" for w :: "'a::len word"
proof (induction n arbitrary: w)
  case 0
  then show ?case by simp
next
  case (Suc n)
  have "ucast (ucast w :: u8) OR push_bit 8 (take_bit (8 * n) (drop_bit 8 w)) = take_bit (8 * Suc n) w"
    (is "?l = ?r")
  proof (rule bit_word_eqI)
    fix k assume "k < LENGTH('a)"
    then show "bit ?l k = bit ?r k"
      by (cases "k < 8")
         (auto simp: bit_or_iff bit_push_bit_iff bit_unsigned_iff bit_take_bit_iff bit_drop_bit_eq
           simp del: take_bit_of_nat)
  qed
  then show ?case by (simp add: Suc.IH)
qed

lemma bit_le_word: "bit (le_word bs :: 'a::len word) n \<Longrightarrow> n < 8 * length bs"
proof (induction bs arbitrary: n)
  case (Cons b bs)
  then show ?case
    using bit_imp_le_length [of b n]
    by (auto simp: bit_or_iff bit_push_bit_iff bit_unsigned_iff dest!: Cons.IH)
qed simp

lemma le_bytes_le_word:
  "8 * length bs \<le> LENGTH('a::len) \<Longrightarrow> le_bytes (length bs) (le_word bs :: 'a word) = bs"
proof (induction bs)
  case (Cons b bs)
  let ?w = "ucast b OR push_bit 8 (le_word bs) :: 'a word"
  have "ucast ?w = b"
    using Cons.prems
    by (intro bit_word_eqI) (auto simp: bit_or_iff bit_push_bit_iff bit_unsigned_iff)
  moreover have "drop_bit 8 ?w = le_word bs"
  proof (rule bit_word_eqI)
    fix n assume "n < LENGTH('a)"
    then show "bit (drop_bit 8 ?w) n = bit (le_word bs :: 'a word) n"
      using Cons.prems bit_le_word [of bs n, where ?'a = 'a] bit_imp_le_length [of b "8 + n"]
      by (auto simp: bit_or_iff bit_push_bit_iff bit_unsigned_iff bit_drop_bit_eq)
  qed
  ultimately show ?case using Cons by (simp only: le_word.simps list.size le_bytes.simps add_Suc_right add_0_right) simp
qed simp

lemma le_bytes_numeral [simp]:
  "le_bytes (numeral k) w = ucast w # le_bytes (pred_numeral k) (drop_bit 8 w)"
  by (simp add: numeral_eq_Suc)

lemma u8_top_bit: "(b :: u8) AND 0x80 = 0 \<longleftrightarrow> unat b < 128"
proof -
  have "b AND 0x80 = 0 \<longleftrightarrow> \<not> bit b 7"
    using and_exp_eq_0_iff_not_bit [of b 7] by simp
  also have "bit b 7 = bit (unat b) 7"
    by (simp add: bit_unsigned_iff)
  also have "\<dots> = odd (unat b div 128)"
    by (simp add: bit_iff_odd)
  also have "(\<not> odd (unat b div 128)) = (unat b < 128)"
  proof (cases "unat b < 128")
    case False
    then have "unat b div 128 = 1"
      using unat_u8_lt [of b] by (intro div_nat_eqI) simp_all
    with False show ?thesis by simp
  qed simp
  finally show ?thesis .
qed

subsection \<open>Assertions and limits\<close>

text \<open>An operation whose result is an option has none when an assertion fails or it reads or writes where it may not.\<close>

definition c_assert :: "bool \<Rightarrow> unit option" where
  "c_assert b = (if b then Some () else None)"

lemma c_assert_simps [simp]: "c_assert True = Some ()" "c_assert False = None"
  by (simp_all add: c_assert_def)

definition INT_MAX :: int where
  "INT_MAX = 2147483647"

subsection \<open>C integers\<close>

text \<open>Conversions to \<open>int\<close>, \<open>long\<close> and \<open>size_t\<close>, and subtraction in \<open>size_t\<close>.\<close>

definition c_int :: "int \<Rightarrow> int" where
  "c_int x = (x + 2147483648) mod 4294967296 - 2147483648"

definition c_long :: "int \<Rightarrow> int" where
  "c_long x = (x + 9223372036854775808) mod 18446744073709551616 - 9223372036854775808"

definition to_size :: "int \<Rightarrow> nat" where
  "to_size x = nat (x mod 18446744073709551616)"

definition size_sub :: "nat \<Rightarrow> nat \<Rightarrow> nat" where
  "size_sub a b = to_size (int a - int b)"

lemma c_int_id [c_arith]: "- 2147483648 \<le> x \<Longrightarrow> x < 2147483648 \<Longrightarrow> c_int x = x"
  by (simp add: c_int_def)

lemma c_long_id [c_arith]: "- 9223372036854775808 \<le> x \<Longrightarrow> x < 9223372036854775808 \<Longrightarrow> c_long x = x"
  by (simp add: c_long_def)

lemma to_size_id [c_arith]: "0 \<le> x \<Longrightarrow> x < 18446744073709551616 \<Longrightarrow> to_size x = nat x"
  by (simp add: to_size_def)

lemma to_size_int [simp]: "n < SIZE_LIMIT \<Longrightarrow> to_size (int n) = n"
  by (simp add: to_size_def SIZE_LIMIT_def)

lemma size_sub_exact [c_arith]: "b \<le> a \<Longrightarrow> a < SIZE_LIMIT \<Longrightarrow> size_sub a b = a - b"
  by (simp add: size_sub_def to_size_def SIZE_LIMIT_def of_nat_diff [symmetric] del: of_nat_diff)

end
