(* ===== verification/Pb_Stream.thy ===== *)
theory Pb_Stream
  imports C_Prelude
begin

text \<open>
  The nanopb streams (\<open>pb_encode.h\<close>, \<open>pb_encode.c\<close>, \<open>pb_decode.h\<close>, \<open>pb_decode.c\<close>).
  An output stream is a callback (none for the sizing stream), the callback's state, a limit
  and the count of bytes written; an input stream is a callback, its state and the count of
  bytes left. The state of the buffer callbacks is the buffer with a position; a flag records
  any access outside the buffer, which the C code would perform on foreign memory.
\<close>

subsection \<open>Output streams\<close>

record pb_sink =
  sink_buf :: "u8 list"
  sink_pos :: nat
  sink_fault :: bool

record pb_ostream =
  os_callback :: "(pb_sink \<Rightarrow> u8 list \<Rightarrow> bool \<times> pb_sink) option"
  os_state :: pb_sink
  os_max_size :: nat
  os_bytes_written :: nat
  os_errmsg :: "string option"

definition os_error :: "pb_ostream \<Rightarrow> string \<Rightarrow> bool \<times> pb_ostream" where
  "os_error s msg =
     (False, s\<lparr>os_errmsg := (case os_errmsg s of None \<Rightarrow> Some msg | Some m \<Rightarrow> Some m)\<rparr>)"

definition null_sink :: pb_sink where
  "null_sink = \<lparr>sink_buf = [], sink_pos = 0, sink_fault = False\<rparr>"

definition PB_OSTREAM_SIZING :: pb_ostream where
  "PB_OSTREAM_SIZING = \<lparr>os_callback = None, os_state = null_sink, os_max_size = 0,
     os_bytes_written = 0, os_errmsg = None\<rparr>"

definition buf_write :: "pb_sink \<Rightarrow> u8 list \<Rightarrow> bool \<times> pb_sink" where
  "buf_write st buf =
     (True, \<lparr>sink_buf = copy_bytes (sink_buf st) (sink_pos st) buf,
             sink_pos = sink_pos st + length buf,
             sink_fault = (sink_fault st \<or> length (sink_buf st) < sink_pos st + length buf)\<rparr>)"

definition pb_ostream_from_buffer :: "u8 list \<Rightarrow> nat \<Rightarrow> pb_ostream" where
  "pb_ostream_from_buffer buf bufsize =
     \<lparr>os_callback = Some buf_write,
      os_state = \<lparr>sink_buf = buf, sink_pos = 0, sink_fault = False\<rparr>,
      os_max_size = bufsize, os_bytes_written = 0, os_errmsg = None\<rparr>"

text \<open>\<open>buf\<close> is empty where the code passes NULL, which it does for the sizing stream only.\<close>

definition pb_write :: "pb_ostream \<Rightarrow> u8 list \<Rightarrow> nat \<Rightarrow> bool \<times> pb_ostream" where
  "pb_write s buf count =
     (let written = size_add (os_bytes_written s) count in
      case os_callback s of
        None \<Rightarrow> (True, s\<lparr>os_bytes_written := written\<rparr>)
      | Some cb \<Rightarrow>
          if count > 0 then
            if written < os_bytes_written s \<or> written > os_max_size s
            then os_error s ''stream full''
            else (case cb (os_state s) (take count buf) of (ok, st) \<Rightarrow>
                    let s1 = s\<lparr>os_state := st\<rparr> in
                    if \<not> ok then os_error s1 ''io error''
                    else (True, s1\<lparr>os_bytes_written := written\<rparr>))
          else (True, s\<lparr>os_bytes_written := written\<rparr>))"

subsection \<open>What writing to a stream means\<close>

text \<open>
  A sizing stream only counts. A buffer stream is well formed when its position agrees with
  the count of bytes written since some base, and the limit keeps it inside the buffer.
\<close>

definition sizing :: "pb_ostream \<Rightarrow> bool" where
  "sizing s \<longleftrightarrow> os_callback s = None \<and> os_bytes_written s < SIZE_LIMIT"

definition buffered :: "pb_ostream \<Rightarrow> bool" where
  "buffered s \<longleftrightarrow> os_callback s = Some buf_write \<and> \<not> sink_fault (os_state s) \<and>
     os_bytes_written s \<le> os_max_size s \<and> os_max_size s < SIZE_LIMIT \<and>
     sink_pos (os_state s) + (os_max_size s - os_bytes_written s) \<le> length (sink_buf (os_state s))"

text \<open>The stream after \<open>bs\<close> has been written to it, and the room it has left.\<close>

definition put :: "pb_ostream \<Rightarrow> u8 list \<Rightarrow> pb_ostream" where
  "put s bs = s\<lparr>
     os_state := (case os_callback s of None \<Rightarrow> os_state s
                  | Some cb \<Rightarrow> snd (buf_write (os_state s) bs)),
     os_bytes_written := size_add (os_bytes_written s) (length bs)\<rparr>"

definition room :: "pb_ostream \<Rightarrow> nat" where
  "room s = os_max_size s - os_bytes_written s"

lemma buffered_limit: "buffered s \<Longrightarrow> os_bytes_written s + room s < SIZE_LIMIT"
  by (simp add: buffered_def room_def)

lemma buf_write_append:
  "snd (buf_write (snd (buf_write st bs)) cs) = snd (buf_write st (bs @ cs))"
  by (auto simp: buf_write_def copy_bytes_append add.assoc)

lemma put_append: "put (put s bs) cs = put s (bs @ cs)"
  by (simp add: put_def size_add_assoc buf_write_append split: option.splits)

lemma put_fields [simp]:
  "os_callback (put s bs) = os_callback s" "os_max_size (put s bs) = os_max_size s"
  "os_errmsg (put s bs) = os_errmsg s"
  "os_bytes_written (put s bs) = size_add (os_bytes_written s) (length bs)"
  by (simp_all add: put_def)

lemma put_Nil: "sizing s \<or> buffered s \<Longrightarrow> put s [] = s"
  by (cases s) (auto simp: put_def sizing_def buffered_def buf_write_def)

lemma sizing_put [simp]: "sizing s \<Longrightarrow> sizing (put s bs)"
  by (simp add: sizing_def)

lemma buffered_put_eqs:
  assumes "buffered s" "length bs \<le> room s"
  shows "buffered (put s bs)" "room (put s bs) = room s - length bs"
    "os_bytes_written (put s bs) = os_bytes_written s + length bs"
proof -
  have "os_bytes_written s + length bs < SIZE_LIMIT"
    using buffered_limit [OF assms(1)] assms(2) by simp
  then have bw: "size_add (os_bytes_written s) (length bs) = os_bytes_written s + length bs"
    by (rule size_add_exact)
  show "os_bytes_written (put s bs) = os_bytes_written s + length bs"
    by (simp add: bw)
  show "room (put s bs) = room s - length bs"
    by (simp add: room_def bw)
  show "buffered (put s bs)"
    using assms bw by (auto simp: buffered_def put_def room_def buf_write_def)
qed

text \<open>\<open>pb_write\<close> on either kind of stream, on every branch.\<close>

lemma pb_write_sizing:
  "os_callback s = None \<Longrightarrow> length buf = count \<Longrightarrow> pb_write s buf count = (True, put s buf)"
  by (cases s) (auto simp: pb_write_def put_def)

lemma pb_write_sizing_count:
  "os_callback s = None \<Longrightarrow>
   pb_write s buf count = (True, s\<lparr>os_bytes_written := size_add (os_bytes_written s) count\<rparr>)"
  by (simp add: pb_write_def)

lemma pb_write_buffered_fits:
  assumes "buffered s" "length buf = count" "count \<le> room s"
  shows "pb_write s buf count = (True, put s buf)"
proof -
  have cb: "os_callback s = Some buf_write" and le: "os_bytes_written s \<le> os_max_size s"
    using assms(1) by (simp_all add: buffered_def)
  have "size_add (os_bytes_written s) count = os_bytes_written s + count"
    using buffered_limit [OF assms(1)] assms(3) by (simp add: size_add_exact)
  then show ?thesis
    using cb le assms put_Nil [of s]
    by (cases "count = 0"; cases s) (auto simp: pb_write_def put_def room_def buf_write_def Let_def)
qed

lemma pb_write_buffered_full:
  assumes "buffered s" "count > room s" "count < SIZE_LIMIT"
  shows "pb_write s buf count = os_error s ''stream full''"
proof -
  have cb: "os_callback s = Some buf_write" and le: "os_bytes_written s \<le> os_max_size s"
    and lim: "os_max_size s < SIZE_LIMIT"
    using assms(1) by (simp_all add: buffered_def)
  have "size_add (os_bytes_written s) count < os_bytes_written s
      \<or> size_add (os_bytes_written s) count > os_max_size s"
  proof (cases "os_bytes_written s + count < SIZE_LIMIT")
    case True
    then show ?thesis using assms(2) le by (simp add: size_add_exact room_def)
  next
    case False
    then show ?thesis
      using size_add_overflow_iff [of "os_bytes_written s" count] le lim assms(3) by simp
  qed
  then show ?thesis
    using cb assms(2) by (simp add: pb_write_def Let_def)
qed

subsection \<open>Input streams\<close>

record pb_source =
  src_buf :: "u8 list"
  src_pos :: nat
  src_fault :: bool

text \<open>
  The code compares the callback with \<open>buf_read\<close>; any other callback is a function that
  consumes bytes from its state.
\<close>

datatype pb_reader = BufRead | UserRead "pb_source \<Rightarrow> nat \<Rightarrow> bool \<times> u8 list \<times> pb_source"

record pb_istream =
  is_callback :: pb_reader
  is_state :: pb_source
  is_bytes_left :: nat
  is_errmsg :: "string option"

definition is_error :: "pb_istream \<Rightarrow> string \<Rightarrow> pb_istream" where
  "is_error s msg =
     s\<lparr>is_errmsg := (case is_errmsg s of None \<Rightarrow> Some msg | Some m \<Rightarrow> Some m)\<rparr>"

definition buf_read :: "pb_source \<Rightarrow> nat \<Rightarrow> bool \<times> u8 list \<times> pb_source" where
  "buf_read st count =
     (True, bytes_at (src_buf st) (src_pos st) count,
      st\<lparr>src_pos := src_pos st + count,
         src_fault := (src_fault st \<or> length (src_buf st) < src_pos st + count)\<rparr>)"

definition is_call :: "pb_istream \<Rightarrow> nat \<Rightarrow> bool \<times> u8 list \<times> pb_source" where
  "is_call s count = (case is_callback s of BufRead \<Rightarrow> buf_read (is_state s) count
                      | UserRead f \<Rightarrow> f (is_state s) count)"

definition pb_istream_from_buffer :: "u8 list \<Rightarrow> nat \<Rightarrow> pb_istream" where
  "pb_istream_from_buffer buf bufsize =
     \<lparr>is_callback = BufRead, is_state = \<lparr>src_buf = buf, src_pos = 0, src_fault = False\<rparr>,
      is_bytes_left = bufsize, is_errmsg = None\<rparr>"

text \<open>
  \<open>pb_read\<close> with a destination, its skipping loop for other callbacks (\<open>buf\<close> NULL), and the
  function itself. The bytes read are the result; they are meaningful on success.
\<close>

definition pb_read_buf :: "pb_istream \<Rightarrow> nat \<Rightarrow> bool \<times> u8 list \<times> pb_istream" where
  "pb_read_buf s count =
     (if count = 0 then (True, [], s)
      else if is_bytes_left s < count then (False, [], is_error s ''end-of-stream'')
      else (case is_call s count of (ok, bs, st) \<Rightarrow>
              let s1 = s\<lparr>is_state := st\<rparr> in
              if \<not> ok then (False, [], is_error s1 ''io error'')
              else (True, bs, s1\<lparr>is_bytes_left := is_bytes_left s - count\<rparr>)))"

function pb_skip_loop :: "pb_istream \<Rightarrow> nat \<Rightarrow> bool \<times> pb_istream" where
  "pb_skip_loop s count =
     (if count > 16 then
        (case pb_read_buf s 16 of (ok, _, s') \<Rightarrow>
           if \<not> ok then (False, s') else pb_skip_loop s' (count - 16))
      else (case pb_read_buf s count of (ok, _, s') \<Rightarrow> (ok, s')))"
  by pat_completeness auto
termination by (relation "measure snd") auto

definition pb_read_null :: "pb_istream \<Rightarrow> nat \<Rightarrow> bool \<times> pb_istream" where
  "pb_read_null s count =
     (if count = 0 then (True, s)
      else case is_callback s of
        UserRead _ \<Rightarrow> pb_skip_loop s count
      | BufRead \<Rightarrow> (case pb_read_buf s count of (ok, _, s') \<Rightarrow> (ok, s')))"

definition pb_readbyte :: "pb_istream \<Rightarrow> bool \<times> u8 \<times> pb_istream" where
  "pb_readbyte s =
     (if is_bytes_left s = 0 then (False, 0, is_error s ''end-of-stream'')
      else (case is_call s 1 of (ok, bs, st) \<Rightarrow>
              let s1 = s\<lparr>is_state := st\<rparr> in
              if \<not> ok then (False, 0, is_error s1 ''io error'')
              else (True, (case bs of b # _ \<Rightarrow> b | [] \<Rightarrow> 0),
                    s1\<lparr>is_bytes_left := is_bytes_left s - 1\<rparr>)))"

declare pb_skip_loop.simps [simp del]

subsection \<open>What reading from a buffer means\<close>

definition is_buffered :: "pb_istream \<Rightarrow> bool" where
  "is_buffered s \<longleftrightarrow> is_callback s = BufRead \<and> \<not> src_fault (is_state s) \<and>
     src_pos (is_state s) + is_bytes_left s \<le> length (src_buf (is_state s))"

text \<open>The bytes still to come, and the stream after \<open>n\<close> of them.\<close>

definition pending :: "pb_istream \<Rightarrow> u8 list" where
  "pending s = take (is_bytes_left s) (drop (src_pos (is_state s)) (src_buf (is_state s)))"

definition advance :: "pb_istream \<Rightarrow> nat \<Rightarrow> pb_istream" where
  "advance s n = s\<lparr>is_state := (is_state s)\<lparr>src_pos := src_pos (is_state s) + n\<rparr>,
                   is_bytes_left := is_bytes_left s - n\<rparr>"

lemma length_pending [simp]: "is_buffered s \<Longrightarrow> length (pending s) = is_bytes_left s"
  by (auto simp: pending_def is_buffered_def)

lemma advance_0 [simp]: "advance s 0 = s"
  by (simp add: advance_def)

lemma advance_advance [simp]: "advance (advance s m) n = advance s (m + n)"
  by (simp add: advance_def add.assoc)

lemma advance_fields [simp]:
  "is_callback (advance s n) = is_callback s" "is_errmsg (advance s n) = is_errmsg s"
  "is_bytes_left (advance s n) = is_bytes_left s - n"
  by (simp_all add: advance_def)

lemma advance_buffered [simp]:
  "is_buffered s \<Longrightarrow> n \<le> is_bytes_left s \<Longrightarrow> is_buffered (advance s n)"
  by (simp add: is_buffered_def advance_def)

lemma pending_advance:
  "n \<le> is_bytes_left s \<Longrightarrow> pending (advance s n) = drop n (pending s)"
  by (simp add: pending_def advance_def drop_take add.commute)

lemma pending_advance_append:
  assumes "is_buffered s" "pending s = bs @ rest"
  shows "pending (advance s (length bs)) = rest" "length bs \<le> is_bytes_left s"
proof -
  have "length (bs @ rest) = is_bytes_left s"
    using length_pending [OF assms(1)] assms(2) by simp
  then show le: "length bs \<le> is_bytes_left s" by simp
  show "pending (advance s (length bs)) = rest"
    by (simp add: pending_advance [OF le] assms(2))
qed

lemma pb_read_buf_buffered:
  assumes "is_buffered s" "n \<le> is_bytes_left s"
  shows "pb_read_buf s n = (True, take n (pending s), advance s n)"
  using assms
  by (cases s) (auto simp: pb_read_buf_def is_call_def buf_read_def is_buffered_def pending_def
      advance_def bytes_at_in_range min_def Let_def)

lemma pb_readbyte_buffered:
  assumes "is_buffered s" "pending s = b # bs"
  shows "pb_readbyte s = (True, b, advance s 1)"
proof -
  have left: "0 < is_bytes_left s"
    using length_pending [OF assms(1)] assms(2) by (metis list.size(3) length_greater_0_conv list.distinct(1))
  have "bytes_at (src_buf (is_state s)) (src_pos (is_state s)) 1 = take 1 (pending s)"
    using assms(1) left by (simp add: bytes_at_in_range is_buffered_def pending_def min_def)
  then show ?thesis
    using assms left
    by (cases s) (auto simp: pb_readbyte_def is_call_def buf_read_def is_buffered_def advance_def Let_def)
qed

lemma pb_read_null_buffered:
  "is_buffered s \<Longrightarrow> n \<le> is_bytes_left s \<Longrightarrow> pb_read_null s n = (True, advance s n)"
  by (simp add: pb_read_null_def pb_read_buf_buffered is_buffered_def split: pb_reader.splits)

lemma pb_read_end_of_stream:
  "is_bytes_left s < n \<Longrightarrow> pb_read_buf s n = (False, [], is_error s ''end-of-stream'')"
  by (simp add: pb_read_buf_def)

text \<open>No read takes more than there is; a failed read consumes nothing from a buffer.\<close>

lemma pb_readbyte_left:
  "pb_readbyte s = (ok, b, s') \<Longrightarrow>
   is_bytes_left s' = (if ok then is_bytes_left s - 1 else is_bytes_left s) \<and>
   (ok \<longrightarrow> 0 < is_bytes_left s)"
  by (auto simp: pb_readbyte_def is_error_def Let_def split: if_splits prod.splits)

end
