(* ===== verification/Pb_Wire.thy ===== *)
theory Pb_Wire
  imports Pb_Stream
begin

text \<open>
  The wire format of nanopb (\<open>pb_encode.c\<close> lines 578-715, \<open>pb_decode.c\<close> lines 183-400 and
  1264-1316): varints, zig-zag integers, fixed-width integers, tags, strings, skipping and
  substreams. The configuration is the one of the application's build settings: 64-bit
  integers, \<open>PB_FIELD_32BIT\<close>, \<open>PB_ENABLE_MALLOC\<close>.
\<close>

subsection \<open>Encoding\<close>

text \<open>The loop of \<open>pb_encode_varint\<close>, before the top bit of the last byte is cleared.\<close>

function varint_loop :: "u64 \<Rightarrow> u8 list" where
  "varint_loop v = (if v = 0 then [] else ucast ((v AND 0x7F) OR 0x80) # varint_loop (drop_bit 7 v))"
  by pat_completeness auto
termination
proof (relation "measure unat")
  fix v :: u64
  assume "v \<noteq> 0"
  then have "0 < unat v" by (simp add: unat_gt_0)
  then show "(drop_bit 7 v, v) \<in> measure unat" by (simp add: unat_drop_bit del: drop_bit_numeral_bit0 drop_bit_numeral_bit1)
qed simp

declare varint_loop.simps [simp del]

definition clear_last_top_bit :: "u8 list \<Rightarrow> u8 list" where
  "clear_last_top_bit bs = bs[length bs - 1 := (bs ! (length bs - 1)) AND 0x7F]"

definition pb_encode_varint :: "pb_ostream \<Rightarrow> u64 \<Rightarrow> bool \<times> pb_ostream" where
  "pb_encode_varint s value =
     (if value \<le> 0x7F then pb_write s [ucast value] 1
      else let buffer = clear_last_top_bit (varint_loop value)
           in pb_write s buffer (length buffer))"

definition zigzag :: "u64 \<Rightarrow> u64" where
  "zigzag value = (if value <s 0 then NOT (push_bit 1 value) else push_bit 1 value)"

definition pb_encode_svarint :: "pb_ostream \<Rightarrow> u64 \<Rightarrow> bool \<times> pb_ostream" where
  "pb_encode_svarint s value = pb_encode_varint s (zigzag value)"

definition pb_encode_fixed32 :: "pb_ostream \<Rightarrow> u32 \<Rightarrow> bool \<times> pb_ostream" where
  "pb_encode_fixed32 s val =
     pb_write s [ucast (val AND 0xFF), ucast (drop_bit 8 val AND 0xFF),
                 ucast (drop_bit 16 val AND 0xFF), ucast (drop_bit 24 val AND 0xFF)] 4"

definition pb_encode_fixed64 :: "pb_ostream \<Rightarrow> u64 \<Rightarrow> bool \<times> pb_ostream" where
  "pb_encode_fixed64 s val =
     pb_write s [ucast (val AND 0xFF), ucast (drop_bit 8 val AND 0xFF),
                 ucast (drop_bit 16 val AND 0xFF), ucast (drop_bit 24 val AND 0xFF),
                 ucast (drop_bit 32 val AND 0xFF), ucast (drop_bit 40 val AND 0xFF),
                 ucast (drop_bit 48 val AND 0xFF), ucast (drop_bit 56 val AND 0xFF)] 8"

datatype pb_wire_type = PB_WT_VARINT | PB_WT_64BIT | PB_WT_STRING | PB_WT_32BIT

fun wire_code :: "pb_wire_type \<Rightarrow> u32" where
  "wire_code PB_WT_VARINT = 0"
| "wire_code PB_WT_64BIT = 1"
| "wire_code PB_WT_STRING = 2"
| "wire_code PB_WT_32BIT = 5"

definition pb_encode_tag :: "pb_ostream \<Rightarrow> pb_wire_type \<Rightarrow> u32 \<Rightarrow> bool \<times> pb_ostream" where
  "pb_encode_tag s wiretype field_number =
     pb_encode_varint s (push_bit 3 (ucast field_number) OR ucast (wire_code wiretype))"

definition pb_encode_string :: "pb_ostream \<Rightarrow> u8 list \<Rightarrow> nat \<Rightarrow> bool \<times> pb_ostream" where
  "pb_encode_string s buffer sz =
     (case pb_encode_varint s (word_of_nat sz) of
        (False, s1) \<Rightarrow> (False, s1)
      | (True, s1) \<Rightarrow> pb_write s1 buffer sz)"

subsection \<open>Decoding\<close>

text \<open>
  \<open>pb_decode_varint32_eof\<close>: the result, and the final value of \<open>*eof\<close>. \<open>bitpos\<close> has the type
  \<open>uint_fast8_t\<close>, eight bits wide on the targets of the application. The shift of the C code by \<open>bitpos\<close>
  is reached with \<open>bitpos < 32\<close> only.
\<close>

lemma pb_readbyte_decreases:
  "pb_readbyte s = (True, b, s') \<Longrightarrow> is_bytes_left s' < is_bytes_left s"
  using pb_readbyte_left [of s True b s'] by simp

function varint32_loop :: "pb_istream \<Rightarrow> u8 \<Rightarrow> u32 \<Rightarrow> u32 option \<times> pb_istream" where
  "varint32_loop s bitpos result =
     (case pb_readbyte s of
        (False, _, s') \<Rightarrow> (None, s')
      | (True, byte, s') \<Rightarrow>
          (let sign_extension = (if bitpos < 63 then 0xFF else 0x01 :: u8) in
           if bitpos \<ge> 32 \<and> byte AND 0x7F \<noteq> 0 \<and> (drop_bit 31 result = 0 \<or> byte \<noteq> sign_extension)
           then (None, is_error s' ''varint overflow'')
           else
             (let result' = (if bitpos \<ge> 32 then result
                             else result OR push_bit (unat bitpos) (ucast (byte AND 0x7F)));
                  bitpos' = bitpos + 7 in
              if byte AND 0x80 \<noteq> 0 then varint32_loop s' bitpos' result'
              else if bitpos' = 35 \<and> byte AND 0x70 \<noteq> 0
              then (None, is_error s' ''varint overflow'')
              else (Some result', s'))))"
  by pat_completeness auto
termination
  by (relation "measure (\<lambda>(s, _, _). is_bytes_left s)") (auto dest: sym [THEN pb_readbyte_decreases])

declare varint32_loop.simps [simp del]

definition pb_decode_varint32_eof :: "pb_istream \<Rightarrow> bool \<Rightarrow> u32 option \<times> bool \<times> pb_istream" where
  "pb_decode_varint32_eof s eof =
     (case pb_readbyte s of
        (False, _, s') \<Rightarrow> (None, (if is_bytes_left s' = 0 then True else eof), s')
      | (True, byte, s') \<Rightarrow>
          if byte AND 0x80 = 0 then (Some (ucast byte), eof, s')
          else (case varint32_loop s' 7 (ucast (byte AND 0x7F)) of (r, s'') \<Rightarrow> (r, eof, s'')))"

definition pb_decode_varint32 :: "pb_istream \<Rightarrow> u32 option \<times> pb_istream" where
  "pb_decode_varint32 s = (case pb_decode_varint32_eof s False of (r, _, s') \<Rightarrow> (r, s'))"

function varint_decode_loop :: "pb_istream \<Rightarrow> nat \<Rightarrow> u64 \<Rightarrow> u64 option \<times> pb_istream" where
  "varint_decode_loop s bitpos result =
     (if bitpos \<ge> 64 then (None, is_error s ''varint overflow'')
      else case pb_readbyte s of
        (False, _, s') \<Rightarrow> (None, s')
      | (True, byte, s') \<Rightarrow>
          (let result' = result OR push_bit bitpos (ucast (byte AND 0x7F)) in
           if byte AND 0x80 \<noteq> 0 then varint_decode_loop s' (bitpos + 7) result'
           else (Some result', s')))"
  by pat_completeness auto
termination
  by (relation "measure (\<lambda>(s, bitpos, _). 64 - bitpos)") auto

declare varint_decode_loop.simps [simp del]

definition pb_decode_varint :: "pb_istream \<Rightarrow> u64 option \<times> pb_istream" where
  "pb_decode_varint s = varint_decode_loop s 0 0"

lemma pb_read_buf_left:
  "pb_read_buf s n = (True, bs, s') \<Longrightarrow> is_bytes_left s' + n = is_bytes_left s"
  by (auto simp: pb_read_buf_def Let_def split: if_splits prod.splits)

function pb_skip_varint :: "pb_istream \<Rightarrow> bool \<times> pb_istream" where
  "pb_skip_varint s =
     (case pb_read_buf s 1 of
        (False, _, s') \<Rightarrow> (False, s')
      | (True, bs, s') \<Rightarrow>
          if (case bs of b # _ \<Rightarrow> b AND 0x80 \<noteq> 0 | [] \<Rightarrow> False) then pb_skip_varint s'
          else (True, s'))"
  by pat_completeness auto
termination
  by (relation "measure is_bytes_left") (auto dest!: sym [THEN pb_read_buf_left])

declare pb_skip_varint.simps [simp del]

definition pb_skip_string :: "pb_istream \<Rightarrow> bool \<times> pb_istream" where
  "pb_skip_string s =
     (case pb_decode_varint32 s of
        (None, s') \<Rightarrow> (False, s')
      | (Some len, s') \<Rightarrow> pb_read_null s' (unat len))"

text \<open>\<open>pb_decode_tag\<close>: (success, wire type, tag, eof, stream).\<close>

definition pb_decode_tag :: "pb_istream \<Rightarrow> bool \<times> u32 \<times> u32 \<times> bool \<times> pb_istream" where
  "pb_decode_tag s =
     (case pb_decode_varint32_eof s False of
        (None, eof, s') \<Rightarrow> (False, 0, 0, eof, s')
      | (Some temp, eof, s') \<Rightarrow>
          if temp = 0 then (False, 0, 0, True, s')
          else (True, temp AND 7, drop_bit 3 temp, eof, s'))"

definition pb_skip_field :: "pb_istream \<Rightarrow> u32 \<Rightarrow> bool \<times> pb_istream" where
  "pb_skip_field s wire_type =
     (if wire_type = wire_code PB_WT_VARINT then pb_skip_varint s
      else if wire_type = wire_code PB_WT_64BIT then pb_read_null s 8
      else if wire_type = wire_code PB_WT_STRING then pb_skip_string s
      else if wire_type = wire_code PB_WT_32BIT then pb_read_null s 4
      else (False, is_error s ''invalid wire_type''))"

text \<open>\<open>read_raw_value\<close>: the bytes read into \<open>buf\<close>, whose count is the final \<open>*size\<close>.\<close>

function raw_varint_loop :: "pb_istream \<Rightarrow> u8 list \<Rightarrow> nat \<Rightarrow> u8 list option \<times> pb_istream" where
  "raw_varint_loop s acc max_size =
     (if length acc + 1 > max_size then (None, s)
      else case pb_read_buf s 1 of
        (False, _, s') \<Rightarrow> (None, s')
      | (True, bs, s') \<Rightarrow>
          (let b = (case bs of b # _ \<Rightarrow> b | [] \<Rightarrow> 0) in
           if b AND 0x80 \<noteq> 0 then raw_varint_loop s' (acc @ [b]) max_size
           else (Some (acc @ [b]), s')))"
  by pat_completeness auto
termination
  by (relation "measure (\<lambda>(s, acc, max_size). Suc max_size - length acc)") auto

declare raw_varint_loop.simps [simp del]

definition read_raw_value :: "pb_istream \<Rightarrow> u32 \<Rightarrow> nat \<Rightarrow> u8 list option \<times> pb_istream" where
  "read_raw_value s wire_type max_size =
     (if wire_type = wire_code PB_WT_VARINT then raw_varint_loop s [] max_size
      else if wire_type = wire_code PB_WT_64BIT then
        (case pb_read_buf s 8 of (ok, bs, s') \<Rightarrow> (if ok then Some bs else None, s'))
      else if wire_type = wire_code PB_WT_32BIT then
        (case pb_read_buf s 4 of (ok, bs, s') \<Rightarrow> (if ok then Some bs else None, s'))
      else (None, is_error s ''invalid wire_type''))"

text \<open>Substreams: (substream if it was made, parent stream).\<close>

definition pb_make_string_substream :: "pb_istream \<Rightarrow> pb_istream option \<times> pb_istream" where
  "pb_make_string_substream s =
     (case pb_decode_varint32 s of
        (None, s') \<Rightarrow> (None, s')
      | (Some sz, s') \<Rightarrow>
          if is_bytes_left s' < unat sz then (None, is_error s' ''parent stream too short'')
          else (Some (s'\<lparr>is_bytes_left := unat sz\<rparr>),
                s'\<lparr>is_bytes_left := is_bytes_left s' - unat sz\<rparr>))"

definition pb_close_string_substream :: "pb_istream \<Rightarrow> pb_istream \<Rightarrow> bool \<times> pb_istream" where
  "pb_close_string_substream s sub =
     (let (ok, sub') = (if is_bytes_left sub \<noteq> 0 then pb_read_null sub (is_bytes_left sub)
                        else (True, sub))
      in if \<not> ok then (False, s)
         else (True, s\<lparr>is_state := is_state sub', is_errmsg := is_errmsg sub'\<rparr>))"

definition pb_decode_svarint :: "pb_istream \<Rightarrow> u64 option \<times> pb_istream" where
  "pb_decode_svarint s =
     (case pb_decode_varint s of
        (None, s') \<Rightarrow> (None, s')
      | (Some value, s') \<Rightarrow>
          (Some (if value AND 1 \<noteq> 0 then NOT (drop_bit 1 value) else drop_bit 1 value), s'))"

definition pb_decode_fixed32 :: "pb_istream \<Rightarrow> u32 option \<times> pb_istream" where
  "pb_decode_fixed32 s =
     (case pb_read_buf s 4 of
        (False, _, s') \<Rightarrow> (None, s')
      | (True, b, s') \<Rightarrow>
          (Some (push_bit 0 (ucast (b ! 0)) OR push_bit 8 (ucast (b ! 1)) OR
                 push_bit 16 (ucast (b ! 2)) OR push_bit 24 (ucast (b ! 3))), s'))"

definition pb_decode_fixed64 :: "pb_istream \<Rightarrow> u64 option \<times> pb_istream" where
  "pb_decode_fixed64 s =
     (case pb_read_buf s 8 of
        (False, _, s') \<Rightarrow> (None, s')
      | (True, b, s') \<Rightarrow>
          (Some (push_bit 0 (ucast (b ! 0)) OR push_bit 8 (ucast (b ! 1)) OR
                 push_bit 16 (ucast (b ! 2)) OR push_bit 24 (ucast (b ! 3)) OR
                 push_bit 32 (ucast (b ! 4)) OR push_bit 40 (ucast (b ! 5)) OR
                 push_bit 48 (ucast (b ! 6)) OR push_bit 56 (ucast (b ! 7))), s'))"


subsection \<open>Varints: the abstract encoding\<close>

function leb128 :: "nat \<Rightarrow> u8 list" where
  "leb128 n = (if n < 128 then [word_of_nat n] else word_of_nat (n mod 128 + 128) # leb128 (n div 128))"
  by pat_completeness auto
termination by (relation "measure id") auto

declare leb128.simps [simp del]

fun leb_value :: "u8 list \<Rightarrow> nat" where
  "leb_value [] = 0"
| "leb_value (b # bs) = unat b mod 128 + 128 * leb_value bs"

fun varint_shape :: "u8 list \<Rightarrow> bool" where
  "varint_shape [] = False"
| "varint_shape [b] = (unat b < 128)"
| "varint_shape (b # c # bs) = (128 \<le> unat b \<and> varint_shape (c # bs))"

lemma varint_shape_Cons:
  "varint_shape (b # bs) = (if bs = [] then unat b < 128 else 128 \<le> unat b \<and> varint_shape bs)"
  by (cases bs) auto

lemma leb128_nonempty [simp]: "leb128 n \<noteq> []"
  by (subst leb128.simps) simp

lemma unat_u8_of_nat: "n < 256 \<Longrightarrow> unat (word_of_nat n :: u8) = n"
  by (simp add: unat_of_nat)

lemma unat_u8_cont: "unat (word_of_nat (n mod 128) + 128 :: u8) = n mod 128 + 128"
  using unat_u8_of_nat [of "n mod 128 + 128"] by simp

lemma varint_shape_leb128: "varint_shape (leb128 n)"
proof (induction n rule: leb128.induct)
  case (1 n)
  then show ?case
    by (subst leb128.simps) (simp add: varint_shape_Cons unat_u8_of_nat unat_u8_cont)
qed

lemma leb_value_leb128: "leb_value (leb128 n) = n"
proof (induction n rule: leb128.induct)
  case (1 n)
  then show ?case
    by (subst leb128.simps) (simp add: unat_u8_of_nat unat_u8_cont)
qed

lemma length_leb128: "n < 128 ^ Suc k \<Longrightarrow> length (leb128 n) \<le> Suc k"
proof (induction k arbitrary: n)
  case 0
  then show ?case by (subst leb128.simps) simp
next
  case (Suc k)
  have "n div 128 < 128 ^ Suc k"
    using Suc.prems by (simp add: less_mult_imp_div_less mult.commute)
  then have "length (leb128 (n div 128)) \<le> Suc k" by (rule Suc.IH)
  then show ?case by (subst leb128.simps) simp
qed

lemma length_leb128_u64: "length (leb128 (unat (v :: u64))) \<le> 10"
proof -
  have "unat v < 128 ^ Suc 9"
    using unsigned_less [of v, where ?'a = nat] by simp
  then show ?thesis using length_leb128 [of "unat v" 9] by simp
qed

text \<open>The bit tests of the code, on numbers.\<close>

text \<open>Appending a group of seven bits at a bit position.\<close>

lemma or_group:
  fixes b :: u8
  shows "push_bit p (ucast (b AND 0x7F)) OR push_bit (p + 7) (word_of_nat m)
       = push_bit p (word_of_nat (unat b mod 128 + 128 * m) :: 'a::len word)"
proof -
  have grp: "word_of_nat (unat b mod 128) = (ucast (take_bit 7 b) :: 'a word)"
  proof -
    have "word_of_nat (unat b mod 128) = (word_of_nat (unat (take_bit 7 b)) :: 'a word)"
      by (simp only: unat_take_bit) simp
    then show ?thesis by (simp only: of_nat_unat)
  qed
  have "word_of_nat (unat b mod 128 + 128 * m)
      = (ucast (take_bit 7 b) + push_bit 7 (word_of_nat m) :: 'a word)"
    unfolding grp [symmetric] by (simp add: push_bit_eq_mult mult.commute)
  also have "\<dots> = ucast (take_bit 7 b) OR push_bit 7 (word_of_nat m)"
    by (rule disjunctive_add_eq_or, rule bit_word_eqI)
       (auto simp only: bit_and_iff bit_unsigned_iff bit_take_bit_iff bit_push_bit_iff bit_0_eq bot_apply bot_bool_def)
  finally show ?thesis
    by (simp only: and_0x7F push_bit_or add.commute [of p] push_bit_push_bit)
qed

lemma varint_decode_loop_spec:
  "is_buffered s \<Longrightarrow> pending s = bs @ rest \<Longrightarrow> varint_shape bs \<Longrightarrow> k + length bs \<le> 10 \<Longrightarrow>
   varint_decode_loop s (7 * k) r
     = (Some (r OR push_bit (7 * k) (word_of_nat (leb_value bs))), advance s (length bs))"
proof (induction bs arbitrary: s k r)
  case Nil
  then show ?case by simp
next
  case (Cons b bs)
  have buf: "is_buffered s" and pend: "pending s = b # (bs @ rest)"
    using Cons.prems by simp_all
  note rd = pb_readbyte_buffered [OF buf pend]
  have pend1: "pending (advance s 1) = bs @ rest" and le1: "1 \<le> is_bytes_left s"
    using pending_advance_append [OF buf, of "[b]" "bs @ rest"] pend by simp_all
  have buf1: "is_buffered (advance s 1)" using buf le1 by simp
  have k: "\<not> 64 \<le> 7 * k" using Cons.prems by simp
  have unfold: "varint_decode_loop s (7 * k) r =
      (let result' = r OR push_bit (7 * k) (ucast (b AND 0x7F)) in
       if b AND 0x80 \<noteq> 0 then varint_decode_loop (advance s 1) (7 * k + 7) result'
       else (Some result', advance s 1))"
    by (subst varint_decode_loop.simps) (simp only: k rd if_False prod.case bool.case)
  show ?case
  proof (cases "bs = []")
    case True
    then have "unat b < 128" using Cons.prems by simp
    then show ?thesis
      using True or_group [of "7 * k" b 0, where ?'a = 64]
      by (simp only: unfold u8_top_bit Let_def) simp
  next
    case False
    then have sh: "128 \<le> unat b" "varint_shape bs"
      using Cons.prems by (simp_all add: varint_shape_Cons)
    have "varint_decode_loop (advance s 1) (7 * Suc k) (r OR push_bit (7 * k) (ucast (b AND 0x7F)))
        = (Some ((r OR push_bit (7 * k) (ucast (b AND 0x7F))) OR
                 push_bit (7 * Suc k) (word_of_nat (leb_value bs))), advance (advance s 1) (length bs))"
      using Cons.prems by (intro Cons.IH buf1 pend1 sh) simp
    moreover have "7 * k + 7 = 7 * Suc k" by simp
    moreover have "\<not> unat b < 128" using sh by simp
    ultimately show ?thesis
      using or_group [of "7 * k" b "leb_value bs", where ?'a = 64]
      by (simp only: unfold u8_top_bit Let_def simp_thms if_True advance_advance or.assoc leb_value.simps
          list.size plus_1_eq_Suc add_0_right add_Suc_right)
  qed
qed

lemma varint_decode_loop_overflow:
  "is_buffered s \<Longrightarrow> pending s = bs @ rest \<Longrightarrow> \<forall>b \<in> set bs. 128 \<le> unat b \<Longrightarrow> k + length bs = 10 \<Longrightarrow>
   varint_decode_loop s (7 * k) r = (None, is_error (advance s (length bs)) ''varint overflow'')"
proof (induction bs arbitrary: s k r)
  case Nil
  then show ?case by (subst varint_decode_loop.simps) simp
next
  case (Cons b bs)
  have buf: "is_buffered s" and pend: "pending s = b # (bs @ rest)"
    using Cons.prems by simp_all
  note rd = pb_readbyte_buffered [OF buf pend]
  have pend1: "pending (advance s 1) = bs @ rest" and le1: "1 \<le> is_bytes_left s"
    using pending_advance_append [OF buf, of "[b]" "bs @ rest"] pend by simp_all
  have buf1: "is_buffered (advance s 1)" using buf le1 by simp
  have k: "\<not> 64 \<le> 7 * k" using Cons.prems by simp
  have top: "\<not> unat b < 128" using Cons.prems by simp
  have "varint_decode_loop s (7 * k) r =
      varint_decode_loop (advance s 1) (7 * k + 7) (r OR push_bit (7 * k) (ucast (b AND 0x7F)))"
    by (subst varint_decode_loop.simps)
       (simp only: k rd if_False if_True prod.case bool.case Let_def u8_top_bit top simp_thms)
  also have "7 * k + 7 = 7 * Suc k" by simp
  also have "varint_decode_loop (advance s 1) (7 * Suc k) (r OR push_bit (7 * k) (ucast (b AND 0x7F)))
      = (None, is_error (advance (advance s 1) (length bs)) ''varint overflow'')"
    using Cons.prems by (intro Cons.IH buf1 pend1) simp_all
  finally show ?case by simp
qed

text \<open>What the encoder writes is the abstract encoding.\<close>

lemma clear_last_Cons: "bs \<noteq> [] \<Longrightarrow> clear_last_top_bit (b # bs) = b # clear_last_top_bit bs"
  by (cases bs) (simp_all add: clear_last_top_bit_def)

lemma varint_loop_nonempty: "v \<noteq> 0 \<Longrightarrow> varint_loop v \<noteq> []"
  by (subst varint_loop.simps) simp

lemma unat_set_top_bit: "unat (ucast ((v AND 0x7F) OR 0x80) :: u8) = unat v mod 128 + 128"
  for v :: u64
proof -
  have m: "(0x80 :: u64) = push_bit 7 1" by simp
  have "take_bit 7 v AND push_bit 7 1 = 0"
    by (rule bit_word_eqI)
       (auto simp only: bit_and_iff bit_take_bit_iff bit_push_bit_iff bit_0_eq bot_apply bot_bool_def)
  then have "unat ((v AND 0x7F) OR 0x80) = unat v mod 128 + 128"
    unfolding and_0x7F m by (subst unat_or_disjoint) (simp_all only: unat_take_bit, simp_all)
  then show ?thesis by (simp add: unat_ucast_mod)
qed

lemma clear_varint_loop: "v \<noteq> 0 \<Longrightarrow> clear_last_top_bit (varint_loop v) = leb128 (unat v)"
proof (induction v rule: varint_loop.induct)
  case (1 v)
  let ?b = "ucast ((v AND 0x7F) OR 0x80) :: u8"
  have step: "varint_loop v = ?b # varint_loop (drop_bit 7 v)"
    using "1.prems" by (subst varint_loop.simps) simp
  have dv: "unat (drop_bit 7 v) = unat v div 128"
    by (simp only: unat_drop_bit) simp
  show ?case
  proof (cases "unat v < 128")
    case True
    then have "drop_bit 7 v = 0"
      using dv by (simp add: unat_eq_zero)
    then have "varint_loop v = [?b]"
      using step by (simp add: varint_loop.simps [of 0])
    moreover have "?b AND 0x7F = word_of_nat (unat v)"
    proof (rule word_unat_eq_iff [THEN iffD2])
      have "unat (?b AND 0x7F) = (unat v mod 128 + 128) mod 2 ^ 7"
        by (simp only: and_0x7F [of ?b] unat_take_bit unat_set_top_bit)
      then show "unat (?b AND 0x7F) = unat (word_of_nat (unat v) :: u8)"
        using True by (simp only: unat_of_nat) simp
    qed
    ultimately show ?thesis
      using True by (subst leb128.simps) (simp add: clear_last_top_bit_def)
  next
    case False
    then have nz: "drop_bit 7 v \<noteq> 0"
      using dv by (auto simp: unat_eq_zero [symmetric])
    have "?b = word_of_nat (unat v mod 128 + 128)"
      by (rule word_unat_eq_iff [THEN iffD2]) (simp add: unat_set_top_bit unat_u8_cont)
    moreover have "clear_last_top_bit (varint_loop (drop_bit 7 v)) = leb128 (unat v div 128)"
      using "1.IH" [OF "1.prems" nz] by (simp only: dv)
    ultimately show ?thesis
      using False by (subst leb128.simps)
        (simp only: step clear_last_Cons [OF varint_loop_nonempty [OF nz]] if_False)
  qed
qed

lemma pb_encode_varint_leb128:
  "pb_encode_varint s v = pb_write s (leb128 (unat v)) (length (leb128 (unat v)))"
proof (cases "v \<le> 0x7F")
  case True
  then have lt: "unat v < 128" by (simp add: word_le_nat_alt)
  have "(ucast v :: u8) = word_of_nat (unat v)" by simp
  with True lt show ?thesis
    by (simp add: pb_encode_varint_def leb128.simps [of "unat v"])
next
  case False
  then have "v \<noteq> 0" by auto
  with False show ?thesis
    by (simp add: pb_encode_varint_def clear_varint_loop Let_def)
qed


subsection \<open>32-bit varints\<close>

lemma u8_mid_bits: "unat (b :: u8) < 16 \<Longrightarrow> b AND 0x70 = 0"
proof (rule bit_word_eqI)
  fix n assume lt: "unat b < 16" and "n < LENGTH(8)"
  have "take_bit 4 b = b"
    using lt by (intro word_unat_eq_iff [THEN iffD2]) (simp only: unat_take_bit, simp)
  then have lo: "bit b n \<longrightarrow> n < 4"
    by (metis bit_take_bit_iff)
  have "(0x70 :: u8) = push_bit 4 7" by simp
  then have hi: "bit (0x70 :: u8) n \<longrightarrow> 4 \<le> n"
    by (metis bit_push_bit_iff)
  from lo hi have "\<not> (bit b n \<and> bit (0x70 :: u8) n)" by (auto simp only: not_le)
  then show "bit (b AND 0x70) n = bit (0 :: u8) n"
    by (simp only: bit_and_iff bit_0_eq bot_apply bot_bool_def simp_thms)
qed

lemma varint32_loop_spec:
  "is_buffered s \<Longrightarrow> pending s = bs @ rest \<Longrightarrow> varint_shape bs \<Longrightarrow> k + length bs \<le> 5 \<Longrightarrow>
   leb_value bs * 2 ^ (7 * k) < 2 ^ 32 \<Longrightarrow>
   varint32_loop s (word_of_nat (7 * k)) r
     = (Some (r OR push_bit (7 * k) (word_of_nat (leb_value bs))), advance s (length bs))"
proof (induction bs arbitrary: s k r)
  case Nil
  then show ?case by simp
next
  case (Cons b bs)
  have buf: "is_buffered s" and pend: "pending s = b # (bs @ rest)"
    using Cons.prems by simp_all
  note rd = pb_readbyte_buffered [OF buf pend]
  have pend1: "pending (advance s 1) = bs @ rest" and le1: "1 \<le> is_bytes_left s"
    using pending_advance_append [OF buf, of "[b]" "bs @ rest"] pend by simp_all
  have buf1: "is_buffered (advance s 1)" using buf le1 by simp
  have k4: "k \<le> 4" using Cons.prems by simp
  have un: "unat (word_of_nat (7 * k) :: u8) = 7 * k"
    using k4 by (intro unat_u8_of_nat) simp
  have lt32: "\<not> (32 \<le> (word_of_nat (7 * k) :: u8))"
    using k4 un by (simp only: word_le_nat_alt) simp
  have next_pos: "word_of_nat (7 * k) + 7 = (word_of_nat (7 * Suc k) :: u8)"
    by simp
  have at35: "(word_of_nat (7 * Suc k) :: u8) = 35 \<longleftrightarrow> k = 4"
  proof -
    have "unat (word_of_nat (7 * Suc k) :: u8) = 7 * Suc k"
      using k4 by (intro unat_u8_of_nat) simp
    then have "(word_of_nat (7 * Suc k) :: u8) = 35 \<longleftrightarrow> 7 * Suc k = 35"
      by (simp only: word_unat_eq_iff) simp
    then show ?thesis by simp
  qed
  let ?r = "r OR push_bit (7 * k) (ucast (b AND 0x7F))"
  have unfold: "varint32_loop s (word_of_nat (7 * k)) r =
      (if b AND 0x80 \<noteq> 0 then varint32_loop (advance s 1) (word_of_nat (7 * Suc k)) ?r
       else if k = 4 \<and> b AND 0x70 \<noteq> 0 then (None, is_error (advance s 1) ''varint overflow'')
       else (Some ?r, advance s 1))"
    by (subst varint32_loop.simps)
       (simp only: rd if_False prod.case bool.case Let_def lt32 simp_thms next_pos at35 un)
  show ?case
  proof (cases "bs = []")
    case True
    then have lt: "unat b < 128" using Cons.prems by simp
    have "k = 4 \<Longrightarrow> unat b < 16"
      using Cons.prems(5) True lt by simp
    then have "\<not> (k = 4 \<and> b AND 0x70 \<noteq> 0)" using u8_mid_bits by blast
    then show ?thesis
      using True lt or_group [of "7 * k" b 0, where ?'a = 32]
      by (simp only: unfold u8_top_bit Let_def) simp
  next
    case False
    then have sh: "128 \<le> unat b" "varint_shape bs"
      using Cons.prems by (simp_all add: varint_shape_Cons)
    have "leb_value bs * 2 ^ (7 * Suc k) \<le> leb_value (b # bs) * 2 ^ (7 * k)"
      by (simp add: power_add algebra_simps)
    also have "\<dots> < 2 ^ 32" by (rule Cons.prems(5))
    finally have "varint32_loop (advance s 1) (word_of_nat (7 * Suc k)) ?r
        = (Some (?r OR push_bit (7 * Suc k) (word_of_nat (leb_value bs))),
           advance (advance s 1) (length bs))"
      using Cons.prems by (intro Cons.IH buf1 pend1 sh) simp_all
    moreover have "7 * k + 7 = 7 * Suc k" by simp
    moreover have "\<not> unat b < 128" using sh by simp
    ultimately show ?thesis
      using or_group [of "7 * k" b "leb_value bs", where ?'a = 32]
      by (simp only: unfold u8_top_bit simp_thms if_True advance_advance or.assoc leb_value.simps
          list.size plus_1_eq_Suc add_0_right add_Suc_right)
  qed
qed

lemma pb_decode_varint32_spec:
  assumes "is_buffered s" "pending s = bs @ rest" "varint_shape bs" "length bs \<le> 5"
    and "leb_value bs < 2 ^ 32"
  shows "pb_decode_varint32_eof s eof
     = (Some (word_of_nat (leb_value bs)), eof, advance s (length bs))"
proof (cases bs)
  case Nil
  then show ?thesis using assms by simp
next
  case (Cons b cs)
  have pend: "pending s = b # (cs @ rest)" using assms(2) Cons by simp
  note rd = pb_readbyte_buffered [OF assms(1) pend]
  have pend1: "pending (advance s 1) = cs @ rest" and le1: "1 \<le> is_bytes_left s"
    using pending_advance_append [OF assms(1), of "[b]" "cs @ rest"] pend by simp_all
  have buf1: "is_buffered (advance s 1)" using assms(1) le1 by simp
  show ?thesis
  proof (cases "cs = []")
    case True
    then have "unat b < 128" using assms(3) Cons by simp
    moreover from this have "ucast b = (word_of_nat (unat b mod 128) :: u32)" by simp
    ultimately show ?thesis
      using True Cons by (simp add: pb_decode_varint32_eof_def rd u8_top_bit)
  next
    case False
    then have sh: "\<not> unat b < 128" "varint_shape cs"
      using assms(3) Cons by (simp_all add: varint_shape_Cons)
    have "varint32_loop (advance s 1) (word_of_nat (7 * 1)) (ucast (b AND 0x7F))
        = (Some (ucast (b AND 0x7F) OR push_bit (7 * 1) (word_of_nat (leb_value cs))),
           advance (advance s 1) (length cs))"
      using assms(4,5) Cons by (intro varint32_loop_spec [OF buf1 pend1 sh(2)]) simp_all
    moreover have "ucast (b AND 0x7F) OR push_bit 7 (word_of_nat (leb_value cs))
        = (word_of_nat (leb_value bs) :: u32)"
      using or_group [of 0 b "leb_value cs", where ?'a = 32] Cons by simp
    ultimately show ?thesis
      using sh Cons
      by (simp only: pb_decode_varint32_eof_def rd prod.case bool.case u8_top_bit if_False)
         (simp add: Cons)
  qed
qed



subsection \<open>Zig-zag and fixed-width integers\<close>

lemma sless_0_iff_bit: "v <s 0 \<longleftrightarrow> bit v 63" for v :: u64
  using bit_last_iff [of v] by (simp add: word_sless_alt)

lemma zigzag_inverse:
  "(if zigzag v AND 1 \<noteq> 0 then NOT (drop_bit 1 (zigzag v)) else drop_bit 1 (zigzag v)) = v"
proof (cases "bit v 63")
  case True
  then have z: "zigzag v = NOT (push_bit 1 v)" by (simp add: zigzag_def sless_0_iff_bit)
  have "bit (zigzag v) 0" unfolding z by (simp only: bit_not_iff bit_push_bit_iff) simp
  then have "zigzag v AND 1 \<noteq> 0" by (metis and_one_eq bit_0 odd_iff_mod_2_eq_one zero_neq_one)
  moreover have "NOT (drop_bit 1 (zigzag v)) = v"
  proof (rule bit_word_eqI)
    fix n assume "n < LENGTH(64)"
    then show "bit (NOT (drop_bit 1 (zigzag v))) n = bit v n"
      unfolding z using True
      by (cases "n = 63") (simp_all only: bit_not_iff bit_drop_bit_eq o_apply bit_push_bit_iff
          possible_bit_word, auto)
  qed
  ultimately show ?thesis by simp
next
  case False
  then have z: "zigzag v = push_bit 1 v" by (simp add: zigzag_def sless_0_iff_bit)
  have "\<not> bit (zigzag v) 0" unfolding z by (simp only: bit_push_bit_iff) simp
  then have "zigzag v AND 1 = 0" by (metis and_one_eq bit_0 even_iff_mod_2_eq_zero)
  moreover have "drop_bit 1 (zigzag v) = v"
  proof (rule bit_word_eqI)
    fix n assume "n < LENGTH(64)"
    then show "bit (drop_bit 1 (zigzag v)) n = bit v n"
      unfolding z using False
      by (cases "n = 63") (simp_all only: bit_drop_bit_eq o_apply bit_push_bit_iff possible_bit_word, auto)
  qed
  ultimately show ?thesis by simp
qed

lemma le_word_4: "length bs = 4 \<Longrightarrow> le_word bs = push_bit 0 (ucast (bs ! 0)) OR push_bit 8 (ucast (bs ! 1)) OR
    push_bit 16 (ucast (bs ! 2)) OR push_bit 24 (ucast (bs ! 3))"
  by (auto simp: numeral_eq_Suc length_Suc_conv)

lemma le_word_8: "length bs = 8 \<Longrightarrow> le_word bs = push_bit 0 (ucast (bs ! 0)) OR push_bit 8 (ucast (bs ! 1)) OR
    push_bit 16 (ucast (bs ! 2)) OR push_bit 24 (ucast (bs ! 3)) OR
    push_bit 32 (ucast (bs ! 4)) OR push_bit 40 (ucast (bs ! 5)) OR
    push_bit 48 (ucast (bs ! 6)) OR push_bit 56 (ucast (bs ! 7))"
  by (auto simp: numeral_eq_Suc length_Suc_conv)

lemma pb_encode_fixed32_bytes: "pb_encode_fixed32 s v = pb_write s (le_bytes 4 v) 4"
proof -
  have "ucast (take_bit 8 w) = (ucast w :: u8)" for w :: u32
    by (rule bit_word_eqI) (simp add: bit_unsigned_iff bit_take_bit_iff)
  then show ?thesis
    by (simp add: pb_encode_fixed32_def and_0xFF)
qed

lemma pb_encode_fixed64_bytes: "pb_encode_fixed64 s v = pb_write s (le_bytes 8 v) 8"
proof -
  have "ucast (take_bit 8 w) = (ucast w :: u8)" for w :: u64
    by (rule bit_word_eqI) (simp add: bit_unsigned_iff bit_take_bit_iff)
  then show ?thesis
    by (simp add: pb_encode_fixed64_def and_0xFF)
qed

subsection \<open>Properties of the wire format\<close>

text \<open>The bytes a finished buffer stream holds, as the input stream a reader would open on them.\<close>

definition reader_of :: "pb_ostream \<Rightarrow> pb_istream" where
  "reader_of s = pb_istream_from_buffer (sink_buf (os_state s)) (os_bytes_written s)"

lemma from_buffer_buffered:
  "length buf < SIZE_LIMIT \<Longrightarrow> buffered (pb_ostream_from_buffer buf (length buf))"
  "room (pb_ostream_from_buffer buf (length buf)) = length buf"
  by (simp_all add: buffered_def pb_ostream_from_buffer_def room_def)

lemma reader_of_put:
  assumes "length buf < SIZE_LIMIT" "length bs \<le> length buf"
  shows "is_buffered (reader_of (put (pb_ostream_from_buffer buf (length buf)) bs))"
    "pending (reader_of (put (pb_ostream_from_buffer buf (length buf)) bs)) = bs"
  using assms
  by (simp_all add: reader_of_def put_def pb_ostream_from_buffer_def buf_write_def
      pb_istream_from_buffer_def is_buffered_def pending_def copy_bytes_splice size_add_exact)

lemma pb_write_result:
  assumes "buffered s" "length bs = n" "n < SIZE_LIMIT" "pb_write s bs n = (True, s')"
  shows "s' = put s bs" "n \<le> room s"
  using assms pb_write_buffered_fits [of s bs n] pb_write_buffered_full [of s n bs]
  by (cases "n \<le> room s"; simp add: os_error_def)+

lemma leb128_small: "length (leb128 (unat (v :: u64))) < SIZE_LIMIT"
  using length_leb128_u64 [of v] by (simp add: SIZE_LIMIT_def)

lemma pb_encode_varint_result:
  assumes "length buf < SIZE_LIMIT"
    and "pb_encode_varint (pb_ostream_from_buffer buf (length buf)) v = (True, s)"
  shows "s = put (pb_ostream_from_buffer buf (length buf)) (leb128 (unat v))"
    "length (leb128 (unat v)) \<le> length buf"
  using pb_write_result [OF from_buffer_buffered(1) [OF assms(1)] refl leb128_small] assms(2)
  by (simp_all add: pb_encode_varint_leb128 from_buffer_buffered(2))

lemma pb_decode_varint_spec:
  assumes "is_buffered s" "pending s = bs @ rest" "varint_shape bs" "length bs \<le> 10"
  shows "pb_decode_varint s = (Some (word_of_nat (leb_value bs)), advance s (length bs))"
  using varint_decode_loop_spec [of s bs rest 0 0] assms by (simp add: pb_decode_varint_def)

lemma pb_decode_varint_leb128:
  assumes "is_buffered s" "pending s = leb128 (unat v) @ rest"
  shows "pb_decode_varint s = (Some v, advance s (length (leb128 (unat v))))"
  using pb_decode_varint_spec [OF assms varint_shape_leb128 length_leb128_u64]
  by (simp add: leb_value_leb128)

lemma pb_decode_varint32_leb128:
  assumes "is_buffered s" "pending s = leb128 n @ rest" "n < 2 ^ 32"
  shows "pb_decode_varint32_eof s e = (Some (word_of_nat n), e, advance s (length (leb128 n)))"
proof -
  have "length (leb128 n) \<le> 5" using length_leb128 [of n 4] assms(3) by simp
  then show ?thesis
    using pb_decode_varint32_spec [OF assms(1,2) varint_shape_leb128] assms(3)
    by (simp add: leb_value_leb128)
qed

text \<open>C33: what \<open>pb_encode_varint\<close> writes is the base-128 encoding of the value, least significant
  group first, in at most ten bytes.\<close>

theorem pb_encode_varint_refines:
  "pb_encode_varint s v = pb_write s (leb128 (unat v)) (length (leb128 (unat v))) \<and>
   varint_shape (leb128 (unat v)) \<and> leb_value (leb128 (unat v)) = unat v \<and>
   length (leb128 (unat v)) \<le> 10"
  by (simp only: pb_encode_varint_leb128 varint_shape_leb128 leb_value_leb128 length_leb128_u64 simp_thms)

text \<open>C34: \<open>pb_decode_varint\<close> reads a varint of up to ten bytes, canonical or not, as its base-128
  value modulo \<open>2 ^ 64\<close>, consuming exactly its bytes; ten continuation bytes are an overflow.\<close>

theorem pb_decode_varint_functional:
  assumes "is_buffered s" "pending s = bs @ rest"
  shows "(varint_shape bs \<and> length bs \<le> 10 \<longrightarrow>
            pb_decode_varint s = (Some (word_of_nat (leb_value bs)), advance s (length bs)))
       \<and> (length bs = 10 \<and> (\<forall>b \<in> set bs. 128 \<le> unat b) \<longrightarrow>
            pb_decode_varint s = (None, is_error (advance s 10) ''varint overflow''))"
  using pb_decode_varint_spec [OF assms] varint_decode_loop_overflow [OF assms, of 0 0]
  by (auto simp: pb_decode_varint_def)

lemma buffer_3_buffered:
  "is_buffered (pb_istream_from_buffer [0xAC, 0x02, 0xFF] 3)"
  "pending (pb_istream_from_buffer [0xAC, 0x02, 0xFF] 3) = [0xAC, 0x02] @ [0xFF]"
  by (simp_all add: is_buffered_def pb_istream_from_buffer_def pending_def)

theorem pb_decode_varint_functional_witness:
  "pb_decode_varint (pb_istream_from_buffer [0xAC, 0x02, 0xFF] 3)
     = (Some 300, advance (pb_istream_from_buffer [0xAC, 0x02, 0xFF] 3) (Suc (Suc 0)))"
  using pb_decode_varint_functional [OF buffer_3_buffered, THEN conjunct1] by simp

text \<open>C35: a 64-bit integer written with \<open>pb_encode_varint\<close> or, zig-zag encoded, with
  \<open>pb_encode_svarint\<close> to a buffer that has room is read back unchanged.\<close>

theorem varint_roundtrip:
  assumes "length buf < SIZE_LIMIT"
  shows "(\<forall>s. pb_encode_varint (pb_ostream_from_buffer buf (length buf)) v = (True, s) \<longrightarrow>
            fst (pb_decode_varint (reader_of s)) = Some v)
       \<and> (\<forall>s. pb_encode_svarint (pb_ostream_from_buffer buf (length buf)) v = (True, s) \<longrightarrow>
            fst (pb_decode_svarint (reader_of s)) = Some v)"
proof -
  have dec: "pb_decode_varint (reader_of s) = (Some w, advance (reader_of s) (length (leb128 (unat w))))"
    if enc: "pb_encode_varint (pb_ostream_from_buffer buf (length buf)) w = (True, s)" for w s
  proof -
    note res = pb_encode_varint_result [OF assms enc]
    show ?thesis
      unfolding res(1) using reader_of_put [OF assms res(2)]
      by (intro pb_decode_varint_leb128 [of _ _ "[]"]) simp_all
  qed
  have "fst (pb_decode_svarint (reader_of s)) = Some v"
    if "pb_encode_svarint (pb_ostream_from_buffer buf (length buf)) v = (True, s)" for s
    using dec [of "zigzag v" s] that zigzag_inverse [of v]
    by (simp only: pb_encode_svarint_def pb_decode_svarint_def prod.case option.case fst_conv)
  with dec show ?thesis by simp
qed

theorem varint_roundtrip_witness:
  "\<exists>s. pb_encode_svarint (pb_ostream_from_buffer [0, 0, 0] 3) (- 2) = (True, s) \<and>
       fst (pb_decode_svarint (reader_of s)) = Some (- 2)"
proof -
  have "\<exists>s. pb_encode_svarint (pb_ostream_from_buffer [0, 0, 0] 3) (- 2) = (True, s)"
    by (simp add: pb_encode_svarint_def zigzag_def pb_encode_varint_def pb_write_def
        pb_ostream_from_buffer_def size_add_def SIZE_LIMIT_def buf_write_def word_sless_alt Let_def)
  then show ?thesis
    using varint_roundtrip [of "[0, 0, 0]" "- 2"] by (auto simp: SIZE_LIMIT_def numeral_3_eq_3)
qed

text \<open>Strings, substreams and tags.\<close>

lemma pb_encode_tag_leb128:
  assumes "unat fn < 2 ^ 29"
  shows "pb_encode_tag s wt fn = pb_encode_varint s (word_of_nat (unat fn * 8 + unat (wire_code wt)))"
proof -
  have "push_bit 3 (ucast fn) AND (ucast (wire_code wt) :: u64) = 0"
  proof (rule bit_word_eqI)
    fix n assume "n < LENGTH(64)"
    have "take_bit 3 (ucast (wire_code wt) :: u64) = ucast (wire_code wt)"
      by (cases wt) simp_all
    then have "bit (ucast (wire_code wt) :: u64) n \<longrightarrow> n < 3" by (metis bit_take_bit_iff)
    then show "bit (push_bit 3 (ucast fn) AND (ucast (wire_code wt) :: u64)) n = bit (0 :: u64) n"
      by (auto simp only: bit_and_iff bit_push_bit_iff bit_0_eq bot_apply bot_bool_def)
  qed
  then have "push_bit 3 (ucast fn) OR (ucast (wire_code wt) :: u64)
      = push_bit 3 (ucast fn) + ucast (wire_code wt)"
    by (rule disjunctive_add_eq_or [symmetric])
  also have "\<dots> = word_of_nat (unat fn * 8 + unat (wire_code wt))"
    by (simp add: push_bit_eq_mult mult.commute)
  finally show ?thesis by (simp only: pb_encode_tag_def)
qed

lemma wire_code_bound: "unat (wire_code wt) < 8"
  by (cases wt) simp_all

text \<open>A tag written with \<open>pb_encode_tag\<close> is read back by \<open>pb_decode_tag\<close> as the same field
  number and wire type, for every field number the wire format allows.\<close>

theorem tag_roundtrip:
  assumes "length buf < SIZE_LIMIT" "unat fn < 2 ^ 29" "fn \<noteq> 0"
    and "pb_encode_tag (pb_ostream_from_buffer buf (length buf)) wt fn = (True, s)"
  shows "pb_decode_tag (reader_of s)
       = (True, wire_code wt, fn, False, advance (reader_of s) (os_bytes_written s))"
proof -
  let ?n = "unat fn * 8 + unat (wire_code wt)"
  have n: "?n < 2 ^ 32" using assms(2) wire_code_bound [of wt] by simp
  then have un: "unat (word_of_nat ?n :: u64) = ?n" by (intro unat_word_of_nat) simp
  have enc: "pb_encode_varint (pb_ostream_from_buffer buf (length buf)) (word_of_nat ?n) = (True, s)"
    using assms(4) by (simp only: pb_encode_tag_leb128 [OF assms(2)])
  note res = pb_encode_varint_result [OF assms(1) enc, unfolded un]
  note rd = reader_of_put [OF assms(1) res(2), folded res(1)]
  have bw: "os_bytes_written s = length (leb128 ?n)"
    using length_pending [OF rd(1)] rd(2)
    by (simp add: reader_of_def pb_istream_from_buffer_def)
  have dec: "pb_decode_varint32_eof (reader_of s) False
      = (Some (word_of_nat ?n), False, advance (reader_of s) (length (leb128 ?n)))"
    using rd n by (intro pb_decode_varint32_leb128 [of _ _ "[]"]) simp_all
  have un32: "unat (word_of_nat ?n :: u32) = ?n" using n by (intro unat_word_of_nat) simp
  have "unat fn \<noteq> 0" using assms(3) by (simp add: unat_eq_zero)
  then have nz: "(word_of_nat ?n :: u32) \<noteq> 0" using un32 by (metis add_is_0 mult_is_0 unat_0 zero_neq_numeral)
  have "(word_of_nat ?n :: u32) AND 7 = wire_code wt"
  proof (rule word_unat_eq_iff [THEN iffD2])
    have "(7 :: u32) = mask 3" by (simp add: mask_eq_exp_minus_1)
    then have "unat ((word_of_nat ?n :: u32) AND 7) = ?n mod 2 ^ 3"
      by (simp only: unat_and_mask un32)
    then show "unat ((word_of_nat ?n :: u32) AND 7) = unat (wire_code wt)"
      using wire_code_bound [of wt] by simp
  qed
  moreover have "drop_bit 3 (word_of_nat ?n :: u32) = fn"
    by (rule word_unat_eq_iff [THEN iffD2])
       (use wire_code_bound [of wt] in \<open>simp only: unat_drop_bit un32\<close>, simp)
  ultimately show ?thesis
    using dec nz bw by (simp only: pb_decode_tag_def prod.case option.case if_False)
qed

theorem tag_roundtrip_witness:
  "\<exists>s. pb_encode_tag (pb_ostream_from_buffer [0, 0, 0] 3) PB_WT_STRING 17 = (True, s) \<and>
       fst (snd (snd (pb_decode_tag (reader_of s)))) = 17"
proof -
  have "\<exists>s. pb_encode_tag (pb_ostream_from_buffer [0, 0, 0] 3) PB_WT_STRING 17 = (True, s)"
    by (simp add: pb_encode_tag_def pb_encode_varint_leb128 pb_write_def leb128.simps
        pb_ostream_from_buffer_def size_add_def SIZE_LIMIT_def buf_write_def Let_def)
  then obtain s where "pb_encode_tag (pb_ostream_from_buffer [0, 0, 0] 3) PB_WT_STRING 17 = (True, s)"
    by blast
  then show ?thesis
    using tag_roundtrip [of "[0, 0, 0]" 17 PB_WT_STRING s]
    by (auto simp: SIZE_LIMIT_def numeral_3_eq_3)
qed

lemma pb_skip_varint_buffered:
  "is_buffered s \<Longrightarrow> pending s = bs @ rest \<Longrightarrow> varint_shape bs \<Longrightarrow>
   pb_skip_varint s = (True, advance s (length bs))"
proof (induction bs arbitrary: s)
  case Nil
  then show ?case by simp
next
  case (Cons b bs)
  have buf: "is_buffered s" and pend: "pending s = [b] @ (bs @ rest)"
    using Cons.prems by simp_all
  have pend1: "pending (advance s 1) = bs @ rest" and le1: "1 \<le> is_bytes_left s"
    using pending_advance_append [OF buf pend] by simp_all
  have buf1: "is_buffered (advance s 1)" using buf le1 by simp
  have rd: "pb_read_buf s 1 = (True, [b], advance s 1)"
    using pb_read_buf_buffered [OF buf le1] pend by simp
  have unfold: "pb_skip_varint s
      = (if b AND 0x80 \<noteq> 0 then pb_skip_varint (advance s 1) else (True, advance s 1))"
    by (subst pb_skip_varint.simps) (simp only: rd prod.case bool.case list.case)
  show ?case
  proof (cases "bs = []")
    case True
    then show ?thesis using Cons.prems by (simp add: unfold u8_top_bit)
  next
    case False
    then have sh: "\<not> unat b < 128" "varint_shape bs"
      using Cons.prems by (simp_all add: varint_shape_Cons)
    then show ?thesis
      using Cons.IH [OF buf1 pend1 sh(2)] by (simp add: unfold u8_top_bit)
  qed
qed

lemma pb_skip_string_buffered:
  assumes "is_buffered s" "pending s = leb128 (length bs) @ bs @ rest" "length bs < 2 ^ 32"
  shows "pb_skip_string s = (True, advance s (length (leb128 (length bs)) + length bs))"
proof -
  let ?l = "leb128 (length bs)"
  have dec: "pb_decode_varint32 s = (Some (word_of_nat (length bs)), advance s (length ?l))"
    using pb_decode_varint32_leb128 [OF assms(1,2,3)] by (simp add: pb_decode_varint32_def)
  have pend1: "pending (advance s (length ?l)) = bs @ rest" and le1: "length ?l \<le> is_bytes_left s"
    using pending_advance_append [OF assms(1,2)] by simp_all
  have buf1: "is_buffered (advance s (length ?l))" using assms(1) le1 by simp
  have "length bs \<le> is_bytes_left (advance s (length ?l))"
    using pending_advance_append(2) [OF buf1 pend1] .
  moreover have "unat (word_of_nat (length bs) :: u32) = length bs"
    using assms(3) by (simp add: unat_of_nat)
  ultimately show ?thesis
    using pb_read_null_buffered [OF buf1] dec
    by (simp add: pb_skip_string_def)
qed

text \<open>C36: \<open>pb_skip_field\<close> consumes exactly the value that follows the tag, for each of the four
  wire types, and refuses any other wire type without touching the stream.\<close>

theorem pb_skip_field_exact:
  assumes "is_buffered s"
  shows "(\<forall>bs rest. pending s = bs @ rest \<and> varint_shape bs \<longrightarrow>
            pb_skip_field s (wire_code PB_WT_VARINT) = (True, advance s (length bs)))
       \<and> (\<forall>bs rest. pending s = bs @ rest \<and> length bs = 8 \<longrightarrow>
            pb_skip_field s (wire_code PB_WT_64BIT) = (True, advance s 8))
       \<and> (\<forall>bs rest. pending s = bs @ rest \<and> length bs = 4 \<longrightarrow>
            pb_skip_field s (wire_code PB_WT_32BIT) = (True, advance s 4))
       \<and> (\<forall>bs rest. pending s = leb128 (length bs) @ bs @ rest \<and> length bs < 2 ^ 32 \<longrightarrow>
            pb_skip_field s (wire_code PB_WT_STRING)
              = (True, advance s (length (leb128 (length bs)) + length bs)))
       \<and> (\<forall>wt. wt \<notin> range wire_code \<longrightarrow>
            pb_skip_field s wt = (False, is_error s ''invalid wire_type''))"
  using pb_skip_varint_buffered [OF assms] pb_skip_string_buffered [OF assms]
    pb_read_null_buffered [OF assms] pending_advance_append(2) [OF assms]
  by (auto simp: pb_skip_field_def image_def) (metis wire_code.simps)+


theorem pb_skip_field_exact_witness:
  "pb_skip_field (pb_istream_from_buffer [0xAC, 0x02, 0xFF] 3) (wire_code PB_WT_VARINT)
     = (True, advance (pb_istream_from_buffer [0xAC, 0x02, 0xFF] 3) (Suc (Suc 0)))"
proof -
  have "varint_shape [0xAC, 0x02 :: u8]" by simp
  then show ?thesis
    using pb_skip_field_exact [OF buffer_3_buffered(1), THEN conjunct1, rule_format,
        of "[0xAC, 0x02]" "[0xFF]"] buffer_3_buffered(2)
    by simp
qed

lemma pb_make_string_substream_buffered:
  assumes "is_buffered s" "pending s = leb128 (length bs) @ bs @ rest" "length bs < 2 ^ 32"
  shows "pb_make_string_substream s =
     (Some ((advance s (length (leb128 (length bs))))\<lparr>is_bytes_left := length bs\<rparr>),
      (advance s (length (leb128 (length bs))))
        \<lparr>is_bytes_left := is_bytes_left s - length (leb128 (length bs)) - length bs\<rparr>)"
    "length (leb128 (length bs)) + length bs \<le> is_bytes_left s"
proof -
  let ?l = "leb128 (length bs)"
  have dec: "pb_decode_varint32 s = (Some (word_of_nat (length bs)), advance s (length ?l))"
    using pb_decode_varint32_leb128 [OF assms(1,2,3)] by (simp add: pb_decode_varint32_def)
  have pend1: "pending (advance s (length ?l)) = bs @ rest" and le1: "length ?l \<le> is_bytes_left s"
    using pending_advance_append [OF assms(1,2)] by simp_all
  have buf1: "is_buffered (advance s (length ?l))" using assms(1) le1 by simp
  have le2: "length bs \<le> is_bytes_left (advance s (length ?l))"
    using pending_advance_append(2) [OF buf1 pend1] .
  then show "length ?l + length bs \<le> is_bytes_left s" using le1 by simp
  have "unat (word_of_nat (length bs) :: u32) = length bs"
    using assms(3) by (intro unat_word_of_nat) simp
  then show "pb_make_string_substream s =
     (Some ((advance s (length ?l))\<lparr>is_bytes_left := length bs\<rparr>),
      (advance s (length ?l))\<lparr>is_bytes_left := is_bytes_left s - length ?l - length bs\<rparr>)"
    using dec le2 by (simp add: pb_make_string_substream_def)
qed

text \<open>C37: a length-delimited value opens as a substream that holds exactly its bytes; however much of
  it was read, closing it leaves the parent just behind the value. A length beyond the parent
  is refused.\<close>

theorem string_substream_exact:
  assumes "is_buffered s"
  shows "(\<forall>bs rest. pending s = leb128 (length bs) @ bs @ rest \<and> length bs < 2 ^ 32 \<longrightarrow>
            (\<exists>sub s'. pb_make_string_substream s = (Some sub, s') \<and> is_buffered sub \<and> pending sub = bs \<and>
               (\<forall>n \<le> length bs. pb_close_string_substream s' (advance sub n)
                  = (True, advance s (length (leb128 (length bs)) + length bs)))))
       \<and> (\<forall>n rest. pending s = leb128 n @ rest \<and> length rest < n \<and> n < 2 ^ 32 \<longrightarrow>
            pb_make_string_substream s
              = (None, is_error (advance s (length (leb128 n))) ''parent stream too short''))"
proof (intro conjI allI impI)
  fix bs rest
  assume a: "pending s = leb128 (length bs) @ bs @ rest \<and> length bs < 2 ^ 32"
  let ?l = "leb128 (length bs)"
  let ?sub = "(advance s (length ?l))\<lparr>is_bytes_left := length bs\<rparr>"
  let ?s' = "(advance s (length ?l))\<lparr>is_bytes_left := is_bytes_left s - length ?l - length bs\<rparr>"
  note mk = pb_make_string_substream_buffered [OF assms conjunct1 [OF a] conjunct2 [OF a]]
  have sub: "is_buffered ?sub"
    using assms mk(2) by (simp add: is_buffered_def advance_def)
  have "pending (advance s (length ?l)) = bs @ rest"
    using pending_advance_append(1) [OF assms conjunct1 [OF a]] .
  moreover have "pending ?sub = take (length bs) (pending (advance s (length ?l)))"
    using mk(2) by (simp add: pending_def min_def)
  ultimately have pend: "pending ?sub = bs" by simp
  have close: "pb_close_string_substream ?s' (advance ?sub n) = (True, advance s (length ?l + length bs))"
    if "n \<le> length bs" for n
  proof -
    have buf: "is_buffered (advance ?sub n)" using sub that by simp
    show ?thesis
      using that pb_read_null_buffered [OF buf, of "length bs - n"]
      by (cases "n = length bs") (auto simp: pb_close_string_substream_def advance_def add.assoc)
  qed
  show "\<exists>sub s'. pb_make_string_substream s = (Some sub, s') \<and> is_buffered sub \<and> pending sub = bs \<and>
       (\<forall>n \<le> length bs. pb_close_string_substream s' (advance sub n) = (True, advance s (length ?l + length bs)))"
    using mk(1) sub pend close by blast
next
  fix n rest
  assume a: "pending s = leb128 n @ rest \<and> length rest < n \<and> n < 2 ^ 32"
  have dec: "pb_decode_varint32 s = (Some (word_of_nat n), advance s (length (leb128 n)))"
    using pb_decode_varint32_leb128 [OF assms] a by (simp add: pb_decode_varint32_def)
  have "pending (advance s (length (leb128 n))) = rest" "length (leb128 n) \<le> is_bytes_left s"
    using pending_advance_append [OF assms conjunct1 [OF a]] by simp_all
  then have "is_bytes_left (advance s (length (leb128 n))) = length rest"
    using assms length_pending [of "advance s (length (leb128 n))"] by simp
  moreover have "unat (word_of_nat n :: u32) = n" using a by (intro unat_word_of_nat) simp
  ultimately show "pb_make_string_substream s
      = (None, is_error (advance s (length (leb128 n))) ''parent stream too short'')"
    using dec a by (simp add: pb_make_string_substream_def)
qed

lemma buffer_str_buffered:
  "is_buffered (pb_istream_from_buffer [2, 7, 8, 9] 4)"
  "pending (pb_istream_from_buffer [2, 7, 8, 9] 4) = leb128 (length [7, 8 :: u8]) @ [7, 8] @ [9]"
  by (simp_all add: is_buffered_def pb_istream_from_buffer_def pending_def leb128.simps)

theorem string_substream_exact_witness:
  "\<exists>sub s'. pb_make_string_substream (pb_istream_from_buffer [2, 7, 8, 9] 4) = (Some sub, s') \<and>
     pending sub = [7, 8]"
  using string_substream_exact [OF buffer_str_buffered(1), THEN conjunct1, rule_format,
      of "[7, 8]" "[9]"] buffer_str_buffered(2) by auto

subsection \<open>Where the 32-bit decoder departs from the wire format\<close>

text \<open>
  The 32-bit decoder accepts values that do not fit: bits 32 to 34 of a fifth group that is not the
  last one are dropped, and since its bit position is eight bits wide, a varint of 38 bytes comes back
  to bit position 3. The 64-bit decoder drops the bits of a tenth group beyond bit 63.
\<close>

lemma varint32_fifth_group_dropped:
  "fst (pb_decode_varint32 (pb_istream_from_buffer [0x80, 0x80, 0x80, 0x80, 0xF0, 0x00] 6)) = Some 0"
  by code_simp

lemma varint32_bitpos_wraps:
  "fst (pb_decode_varint32 (pb_istream_from_buffer (replicate 37 0x80 @ [0x01]) 38)) = Some 8"
  by code_simp

lemma varint64_tenth_group_dropped:
  "fst (pb_decode_varint (pb_istream_from_buffer (replicate 9 0x80 @ [0x02]) 10)) = Some 0"
  by code_simp

end
