(* ===== verification/Pb_Iter.thy ===== *)
theory Pb_Iter
  imports C_Prelude
begin

text \<open>
  Message descriptors and the field iterator of nanopb (\<open>pb.h\<close>, \<open>pb_common.c\<close>), and the
  little-endian loads from the memory that holds the message structures. A descriptor table is the
  list of its \<open>pb_field_t\<close> entries up to and including the terminator (tag 0); an index at or beyond
  the end, which no well-formed table reaches, reads as the terminator. Addresses are 64-bit words.
\<close>

subsection \<open>Descriptors\<close>

record pb_field =
  fd_tag :: u32
  fd_type :: u8
  fd_data_offset :: u32
  fd_size_offset :: u32
  fd_data_size :: u32
  fd_array_size :: u32
  fd_ptr :: u64

definition PB_LAST_FIELD :: pb_field where
  "PB_LAST_FIELD = \<lparr>fd_tag = 0, fd_type = 0, fd_data_offset = 0, fd_size_offset = 0,
     fd_data_size = 0, fd_array_size = 0, fd_ptr = 0\<rparr>"

definition PB_ATYPE :: "u8 \<Rightarrow> u8" where "PB_ATYPE x = x AND 0xC0"
definition PB_HTYPE :: "u8 \<Rightarrow> u8" where "PB_HTYPE x = x AND 0x30"
definition PB_LTYPE :: "u8 \<Rightarrow> u8" where "PB_LTYPE x = x AND 0x0F"

abbreviation PB_LTYPE_BOOL :: u8 where "PB_LTYPE_BOOL \<equiv> 0x00"
abbreviation PB_LTYPE_VARINT :: u8 where "PB_LTYPE_VARINT \<equiv> 0x01"
abbreviation PB_LTYPE_UVARINT :: u8 where "PB_LTYPE_UVARINT \<equiv> 0x02"
abbreviation PB_LTYPE_SVARINT :: u8 where "PB_LTYPE_SVARINT \<equiv> 0x03"
abbreviation PB_LTYPE_FIXED32 :: u8 where "PB_LTYPE_FIXED32 \<equiv> 0x04"
abbreviation PB_LTYPE_FIXED64 :: u8 where "PB_LTYPE_FIXED64 \<equiv> 0x05"
abbreviation PB_LTYPE_LAST_PACKABLE :: u8 where "PB_LTYPE_LAST_PACKABLE \<equiv> 0x05"
abbreviation PB_LTYPE_BYTES :: u8 where "PB_LTYPE_BYTES \<equiv> 0x06"
abbreviation PB_LTYPE_STRING :: u8 where "PB_LTYPE_STRING \<equiv> 0x07"
abbreviation PB_LTYPE_SUBMESSAGE :: u8 where "PB_LTYPE_SUBMESSAGE \<equiv> 0x08"
abbreviation PB_LTYPE_EXTENSION :: u8 where "PB_LTYPE_EXTENSION \<equiv> 0x09"
abbreviation PB_LTYPE_FIXED_LENGTH_BYTES :: u8 where "PB_LTYPE_FIXED_LENGTH_BYTES \<equiv> 0x0A"
abbreviation PB_HTYPE_REQUIRED :: u8 where "PB_HTYPE_REQUIRED \<equiv> 0x00"
abbreviation PB_HTYPE_OPTIONAL :: u8 where "PB_HTYPE_OPTIONAL \<equiv> 0x10"
abbreviation PB_HTYPE_REPEATED :: u8 where "PB_HTYPE_REPEATED \<equiv> 0x20"
abbreviation PB_HTYPE_ONEOF :: u8 where "PB_HTYPE_ONEOF \<equiv> 0x30"
abbreviation PB_ATYPE_STATIC :: u8 where "PB_ATYPE_STATIC \<equiv> 0x00"
abbreviation PB_ATYPE_POINTER :: u8 where "PB_ATYPE_POINTER \<equiv> 0x80"
abbreviation PB_ATYPE_CALLBACK :: u8 where "PB_ATYPE_CALLBACK \<equiv> 0x40"

subsection \<open>Loads\<close>

type_synonym memory = "u64 \<Rightarrow> u8"

definition load_bytes :: "memory \<Rightarrow> u64 \<Rightarrow> nat \<Rightarrow> u8 list" where
  "load_bytes mem a n = map (\<lambda>i. mem (a + word_of_nat i)) [0..<n]"

definition load_u16 :: "memory \<Rightarrow> u64 \<Rightarrow> u16" where
  "load_u16 mem a = le_word (load_bytes mem a 2)"

definition load_u32 :: "memory \<Rightarrow> u64 \<Rightarrow> u32" where
  "load_u32 mem a = le_word (load_bytes mem a 4)"

definition load_u64 :: "memory \<Rightarrow> u64 \<Rightarrow> u64" where
  "load_u64 mem a = le_word (load_bytes mem a 8)"

lemma length_load_bytes [simp]: "length (load_bytes mem a n) = n"
  by (simp add: load_bytes_def)

subsection \<open>The iterator\<close>

record pb_field_iter =
  it_start :: "pb_field list"
  it_pos :: nat
  it_required_field_index :: u32
  it_dest_struct :: u64
  it_pData :: u64
  it_pSize :: u64

definition field_at :: "pb_field list \<Rightarrow> nat \<Rightarrow> pb_field" where
  "field_at tbl i = (if i < length tbl then tbl ! i else PB_LAST_FIELD)"

definition it_field :: "pb_field_iter \<Rightarrow> pb_field" where
  "it_field it = field_at (it_start it) (it_pos it)"

definition pb_field_iter_begin :: "pb_field list \<Rightarrow> u64 \<Rightarrow> bool \<times> pb_field_iter" where
  "pb_field_iter_begin tbl dest_struct =
     (let f = field_at tbl 0;
          pData = dest_struct + ucast (fd_data_offset f)
      in (fd_tag f \<noteq> 0,
          \<lparr>it_start = tbl, it_pos = 0, it_required_field_index = 0,
           it_dest_struct = dest_struct, it_pData = pData,
           it_pSize = pData + scast (fd_size_offset f)\<rparr>))"

definition pb_field_iter_next :: "pb_field_iter \<Rightarrow> bool \<times> pb_field_iter" where
  "pb_field_iter_next it =
     (let prev_field = it_field it in
      if fd_tag prev_field = 0 then (False, it)
      else
        let pos = Suc (it_pos it);
            f = field_at (it_start it) pos
        in
          if fd_tag f = 0 then (False, snd (pb_field_iter_begin (it_start it) (it_dest_struct it)))
          else if PB_HTYPE (fd_type prev_field) = PB_HTYPE_ONEOF \<and>
                  PB_HTYPE (fd_type f) = PB_HTYPE_ONEOF \<and> fd_data_offset f = - 1
          then (True, it\<lparr>it_pos := pos\<rparr>)
          else
            let prev_size =
                  (if PB_ATYPE (fd_type prev_field) = PB_ATYPE_STATIC \<and>
                      PB_HTYPE (fd_type prev_field) = PB_HTYPE_REPEATED
                   then ucast (fd_data_size prev_field) * ucast (fd_array_size prev_field)
                   else if PB_ATYPE (fd_type prev_field) = PB_ATYPE_POINTER then 8
                   else ucast (fd_data_size prev_field));
                idx = (if PB_HTYPE (fd_type prev_field) = PB_HTYPE_REQUIRED
                       then it_required_field_index it + 1 else it_required_field_index it);
                pData = it_pData it + prev_size + ucast (fd_data_offset f)
            in (True, it\<lparr>it_pos := pos, it_required_field_index := idx, it_pData := pData,
                         it_pSize := pData + scast (fd_size_offset f)\<rparr>))"

text \<open>The search loop may only fail to return on a table that is not terminated; \<open>None\<close> is that case.\<close>

partial_function (option) find_loop :: "nat \<Rightarrow> u32 \<Rightarrow> pb_field_iter \<Rightarrow> (bool \<times> pb_field_iter) option"
where
  "find_loop start tag it =
     (if fd_tag (it_field it) = tag \<and> PB_LTYPE (fd_type (it_field it)) \<noteq> PB_LTYPE_EXTENSION
      then Some (True, it)
      else let it' = snd (pb_field_iter_next it) in
           if it_pos it' \<noteq> start then find_loop start tag it' else Some (False, it'))"

definition pb_field_iter_find :: "pb_field_iter \<Rightarrow> u32 \<Rightarrow> (bool \<times> pb_field_iter) option" where
  "pb_field_iter_find it tag = find_loop (it_pos it) tag it"

text \<open>
  The loop \<open>do \<dots> while (pb_field_iter_next(&iter))\<close> that the encoder and the decoder run over a
  message: the body returns \<open>None\<close> when it has no result and stops the loop with \<open>False\<close>.
\<close>

lemma pb_field_iter_next_pos:
  "pb_field_iter_next it = (True, it') \<Longrightarrow>
   it_start it' = it_start it \<and> it_pos it' = Suc (it_pos it) \<and> it_pos it < length (it_start it)"
  by (auto simp: pb_field_iter_next_def it_field_def field_at_def PB_LAST_FIELD_def Let_def
      split: if_splits)

function iter_while ::
  "(pb_field_iter \<Rightarrow> 's \<Rightarrow> (bool \<times> 's) option) \<Rightarrow> pb_field_iter \<Rightarrow> 's \<Rightarrow> (bool \<times> 's) option" where
  "iter_while body it s =
     (case body it s of
        None \<Rightarrow> None
      | Some (False, s') \<Rightarrow> Some (False, s')
      | Some (True, s') \<Rightarrow>
          (case pb_field_iter_next it of
             (False, _) \<Rightarrow> Some (True, s')
           | (True, it') \<Rightarrow> iter_while body it' s'))"
  by pat_completeness auto
termination
  by (relation "measure (\<lambda>(_, it, _). length (it_start it) - it_pos it)")
     (auto dest!: sym [THEN pb_field_iter_next_pos])

declare iter_while.simps [simp del]


subsection \<open>Iteration over a terminated table\<close>

definition wf_table :: "pb_field list \<Rightarrow> bool" where
  "wf_table tbl \<longleftrightarrow> tbl \<noteq> [] \<and> fd_tag (last tbl) = 0 \<and> (\<forall>f \<in> set (butlast tbl). fd_tag f \<noteq> 0)"

definition num_fields :: "pb_field list \<Rightarrow> nat" where
  "num_fields tbl = length tbl - 1"

text \<open>Where the descriptors place a field: the abstract layout the iterator steps through.\<close>

definition same_union :: "pb_field \<Rightarrow> pb_field \<Rightarrow> bool" where
  "same_union f g \<longleftrightarrow> PB_HTYPE (fd_type f) = PB_HTYPE_ONEOF \<and> PB_HTYPE (fd_type g) = PB_HTYPE_ONEOF \<and>
     fd_data_offset g = - 1"

definition field_extent :: "pb_field \<Rightarrow> u64" where
  "field_extent f =
     (if PB_ATYPE (fd_type f) = PB_ATYPE_STATIC \<and> PB_HTYPE (fd_type f) = PB_HTYPE_REPEATED
      then ucast (fd_data_size f) * ucast (fd_array_size f)
      else if PB_ATYPE (fd_type f) = PB_ATYPE_POINTER then 8
      else ucast (fd_data_size f))"

fun data_addr :: "pb_field list \<Rightarrow> u64 \<Rightarrow> nat \<Rightarrow> u64" where
  "data_addr tbl dest 0 = dest + ucast (fd_data_offset (tbl ! 0))"
| "data_addr tbl dest (Suc i) =
     (if same_union (tbl ! i) (tbl ! Suc i) then data_addr tbl dest i
      else data_addr tbl dest i + field_extent (tbl ! i) + ucast (fd_data_offset (tbl ! Suc i)))"

fun size_addr :: "pb_field list \<Rightarrow> u64 \<Rightarrow> nat \<Rightarrow> u64" where
  "size_addr tbl dest 0 = data_addr tbl dest 0 + scast (fd_size_offset (tbl ! 0))"
| "size_addr tbl dest (Suc i) =
     (if same_union (tbl ! i) (tbl ! Suc i) then size_addr tbl dest i
      else data_addr tbl dest (Suc i) + scast (fd_size_offset (tbl ! Suc i)))"

definition required_before :: "pb_field list \<Rightarrow> nat \<Rightarrow> nat" where
  "required_before tbl i = length (filter (\<lambda>f. PB_HTYPE (fd_type f) = PB_HTYPE_REQUIRED) (take i tbl))"

definition iter_at :: "pb_field list \<Rightarrow> u64 \<Rightarrow> nat \<Rightarrow> pb_field_iter" where
  "iter_at tbl dest i =
     \<lparr>it_start = tbl, it_pos = i, it_required_field_index = word_of_nat (required_before tbl i),
      it_dest_struct = dest, it_pData = data_addr tbl dest i, it_pSize = size_addr tbl dest i\<rparr>"

lemma iter_at_simps [simp]:
  "it_start (iter_at tbl dest i) = tbl" "it_pos (iter_at tbl dest i) = i"
  "it_dest_struct (iter_at tbl dest i) = dest" "it_pData (iter_at tbl dest i) = data_addr tbl dest i"
  "it_field (iter_at tbl dest i) = field_at tbl i"
  "it_required_field_index (iter_at tbl dest i) = word_of_nat (required_before tbl i)"
  by (simp_all add: iter_at_def it_field_def)

lemma wf_table_tags:
  assumes "wf_table tbl" "i \<le> num_fields tbl"
  shows "field_at tbl i = tbl ! i" "fd_tag (field_at tbl i) = 0 \<longleftrightarrow> i = num_fields tbl"
proof -
  have ne: "tbl \<noteq> []" using assms(1) by (simp add: wf_table_def)
  then have lt: "i < length tbl" using assms(2) by (cases tbl) (auto simp: num_fields_def)
  then show "field_at tbl i = tbl ! i" by (simp add: field_at_def)
  show "fd_tag (field_at tbl i) = 0 \<longleftrightarrow> i = num_fields tbl"
  proof (cases "i = num_fields tbl")
    case True
    then show ?thesis
      using assms(1) lt ne by (simp add: field_at_def wf_table_def last_conv_nth num_fields_def)
  next
    case False
    then have "i < length (butlast tbl)" using assms(2) by (simp add: num_fields_def)
    then have "tbl ! i \<in> set (butlast tbl)" by (metis nth_butlast nth_mem)
    then show ?thesis using assms(1) lt False by (simp add: field_at_def wf_table_def)
  qed
qed

lemma pb_field_iter_begin_at:
  "wf_table tbl \<Longrightarrow> pb_field_iter_begin tbl dest = (num_fields tbl \<noteq> 0, iter_at tbl dest 0)"
  using wf_table_tags [of tbl 0]
  by (auto simp: pb_field_iter_begin_def iter_at_def required_before_def Let_def)

lemma required_before_Suc:
  "i < length tbl \<Longrightarrow> required_before tbl (Suc i)
     = required_before tbl i + (if PB_HTYPE (fd_type (tbl ! i)) = PB_HTYPE_REQUIRED then 1 else 0)"
  by (simp add: required_before_def take_Suc_conv_app_nth)

lemma pb_field_iter_next_step:
  assumes "fd_tag (it_field it) \<noteq> 0" "fd_tag (field_at (it_start it) (Suc (it_pos it))) \<noteq> 0"
    and "f = it_field it" "g = field_at (it_start it) (Suc (it_pos it))"
  shows "pb_field_iter_next it = (True,
     if same_union f g then it\<lparr>it_pos := Suc (it_pos it)\<rparr>
     else it\<lparr>it_pos := Suc (it_pos it),
        it_required_field_index := it_required_field_index it +
          (if PB_HTYPE (fd_type f) = PB_HTYPE_REQUIRED then 1 else 0),
        it_pData := it_pData it + field_extent f + ucast (fd_data_offset g),
        it_pSize := it_pData it + field_extent f + ucast (fd_data_offset g) + scast (fd_size_offset g)\<rparr>)"
  using assms(1,2) unfolding assms(3,4)
  by (simp add: pb_field_iter_next_def same_union_def field_extent_def Let_def)

lemma same_union_not_required: "same_union f g \<Longrightarrow> PB_HTYPE (fd_type f) \<noteq> PB_HTYPE_REQUIRED"
  by (simp add: same_union_def)

lemma pb_field_iter_next_at:
  assumes "wf_table tbl" "i < num_fields tbl"
  shows "pb_field_iter_next (iter_at tbl dest i)
       = (if Suc i < num_fields tbl then (True, iter_at tbl dest (Suc i)) else (False, iter_at tbl dest 0))"
proof -
  have i: "field_at tbl i = tbl ! i" "fd_tag (tbl ! i) \<noteq> 0"
    using wf_table_tags [OF assms(1), of i] assms(2) by auto
  have si: "field_at tbl (Suc i) = tbl ! Suc i" "fd_tag (tbl ! Suc i) = 0 \<longleftrightarrow> Suc i = num_fields tbl"
    using wf_table_tags [OF assms(1), of "Suc i"] assms(2) by auto
  have len: "i < length tbl" using assms(2) by (simp add: num_fields_def)
  show ?thesis
  proof (cases "Suc i = num_fields tbl")
    case True
    then show ?thesis
      using i si by (simp add: pb_field_iter_next_def pb_field_iter_begin_at [OF assms(1)])
  next
    case False
    then have lt: "Suc i < num_fields tbl" using assms(2) by simp
    have step: "pb_field_iter_next (iter_at tbl dest i) = (True,
       if same_union (tbl ! i) (tbl ! Suc i) then (iter_at tbl dest i)\<lparr>it_pos := Suc i\<rparr>
       else (iter_at tbl dest i)\<lparr>it_pos := Suc i,
          it_required_field_index := word_of_nat (required_before tbl i) +
            (if PB_HTYPE (fd_type (tbl ! i)) = PB_HTYPE_REQUIRED then 1 else 0),
          it_pData := data_addr tbl dest i + field_extent (tbl ! i) + ucast (fd_data_offset (tbl ! Suc i)),
          it_pSize := data_addr tbl dest i + field_extent (tbl ! i) + ucast (fd_data_offset (tbl ! Suc i))
            + scast (fd_size_offset (tbl ! Suc i))\<rparr>)"
      by (subst pb_field_iter_next_step [where f = "tbl ! i" and g = "tbl ! Suc i"])
         (use i si False in simp_all)
    have req: "word_of_nat (required_before tbl (Suc i)) = (word_of_nat (required_before tbl i) :: u32)
        + (if PB_HTYPE (fd_type (tbl ! i)) = PB_HTYPE_REQUIRED then 1 else 0)"
      by (simp add: required_before_Suc [OF len])
    show ?thesis
    proof (cases "same_union (tbl ! i) (tbl ! Suc i)")
      case True
      then show ?thesis
        using lt req same_union_not_required [OF True] unfolding step by (simp add: iter_at_def)
    next
      case False
      then show ?thesis
        using lt req unfolding step by (simp add: iter_at_def)
    qed
  qed
qed

definition field_matches :: "pb_field list \<Rightarrow> u32 \<Rightarrow> nat \<Rightarrow> bool" where
  "field_matches tbl tag i \<longleftrightarrow>
     fd_tag (tbl ! i) = tag \<and> PB_LTYPE (fd_type (tbl ! i)) \<noteq> PB_LTYPE_EXTENSION"

text \<open>The fields in the order the search visits them, from a position back round to it.\<close>

definition cyclic_from :: "nat \<Rightarrow> nat \<Rightarrow> nat list" where
  "cyclic_from n i = [i..<n] @ [0..<i]"

lemma find_loop_low:
  assumes "wf_table tbl" "start < num_fields tbl" "j \<le> start" "0 < start"
  shows "j < start \<Longrightarrow> find_loop start tag (iter_at tbl dest j)
       = (case find (field_matches tbl tag) [j..<start] of
            Some k \<Rightarrow> Some (True, iter_at tbl dest k) | None \<Rightarrow> Some (False, iter_at tbl dest start))"
  using assms(3)
proof (induction "start - j" arbitrary: j)
  case (Suc d)
  have lt: "j < num_fields tbl" and slt: "Suc j < num_fields tbl" using assms(2) Suc.prems by auto
  have fa: "field_at tbl j = tbl ! j" using wf_table_tags [OF assms(1)] lt by simp
  have up: "[j..<start] = j # [Suc j..<start]" using Suc.prems by (simp add: upt_rec)
  show ?case
    using Suc.hyps(1) [of "Suc j"] Suc.hyps(2) Suc.prems lt slt
    by (subst find_loop.simps)
       (cases "Suc j = start"; auto simp: fa up field_matches_def pb_field_iter_next_at [OF assms(1) lt])
qed simp

lemma find_loop_high:
  assumes "wf_table tbl" "start \<le> j" "j < num_fields tbl"
  shows "find_loop start tag (iter_at tbl dest j)
       = (case find (field_matches tbl tag) ([j..<num_fields tbl] @ [0..<start]) of
            Some k \<Rightarrow> Some (True, iter_at tbl dest k) | None \<Rightarrow> Some (False, iter_at tbl dest start))"
  using assms(2,3)
proof (induction "num_fields tbl - j" arbitrary: j)
  case (Suc d)
  have fa: "field_at tbl j = tbl ! j" using wf_table_tags [OF assms(1)] Suc.prems by simp
  have up: "[j..<num_fields tbl] = j # [Suc j..<num_fields tbl]" using Suc.prems by (simp add: upt_rec)
  have low: "find_loop start tag (iter_at tbl dest 0)
       = (case find (field_matches tbl tag) [0..<start] of
            Some k \<Rightarrow> Some (True, iter_at tbl dest k) | None \<Rightarrow> Some (False, iter_at tbl dest start))"
    if "0 < start"
    using find_loop_low [OF assms(1), of start 0] Suc.prems that by simp
  show ?case
    using Suc.hyps(1) [of "Suc j"] Suc.hyps(2) Suc.prems low
    by (subst find_loop.simps)
       (cases "Suc j < num_fields tbl"; cases "0 < start";
        auto simp: fa up field_matches_def pb_field_iter_next_at [OF assms(1) Suc.prems(2)])
qed simp

text \<open>On a terminated table the field search always returns, and what it returns is the first
  field with the tag, other than an extension range, in cyclic order from the current position, with
  exactly the data address, size address and required-field index of a straight walk from the first
  field; without such a field the iterator is back where it started.\<close>

theorem pb_field_iter_find_functional:
  assumes "wf_table tbl" "i < num_fields tbl"
  shows "pb_field_iter_find (iter_at tbl dest i) tag
       = (case find (field_matches tbl tag) (cyclic_from (num_fields tbl) i) of
            Some k \<Rightarrow> Some (True, iter_at tbl dest k) | None \<Rightarrow> Some (False, iter_at tbl dest i))"
  using find_loop_high [OF assms(1) order_refl assms(2)]
  by (simp add: pb_field_iter_find_def cyclic_from_def)

definition example_table :: "pb_field list" where
  "example_table =
     [\<lparr>fd_tag = 1, fd_type = 0x02, fd_data_offset = 0, fd_size_offset = 0, fd_data_size = 4,
       fd_array_size = 0, fd_ptr = 0\<rparr>,
      \<lparr>fd_tag = 3, fd_type = 0x12, fd_data_offset = 4, fd_size_offset = - 4, fd_data_size = 4,
       fd_array_size = 0, fd_ptr = 0\<rparr>,
      PB_LAST_FIELD]"

theorem pb_field_iter_find_functional_witness:
  "pb_field_iter_find (iter_at example_table 0x1000 1) 1 = Some (True, iter_at example_table 0x1000 0) \<and>
   pb_field_iter_find (iter_at example_table 0x1000 0) 7 = Some (False, iter_at example_table 0x1000 0)"
proof -
  have wf: "wf_table example_table" "num_fields example_table = 2"
    by (simp_all add: wf_table_def example_table_def PB_LAST_FIELD_def num_fields_def)
  show ?thesis
    using pb_field_iter_find_functional [OF wf(1), of 1 "0x1000" 1]
      pb_field_iter_find_functional [OF wf(1), of 0 "0x1000" 7]
    by (simp add: wf(2) cyclic_from_def upt_rec)
       (simp add: field_matches_def example_table_def PB_LTYPE_def)
qed

text \<open>An empty message type matches tag 0: the search compares with the terminator itself.\<close>

lemma pb_field_iter_find_terminator:
  "pb_field_iter_find (snd (pb_field_iter_begin [PB_LAST_FIELD] dest)) 0
     = Some (True, snd (pb_field_iter_begin [PB_LAST_FIELD] dest))"
  by (simp add: pb_field_iter_find_def find_loop.simps pb_field_iter_begin_def field_at_def it_field_def
      PB_LAST_FIELD_def PB_LTYPE_def Let_def)

end
