(* ===== verification/Pb_Encode.thy ===== *)
theory Pb_Encode
  imports Pb_Wire Pb_Iter
begin

text \<open>
  The message encoder of nanopb (\<open>pb_encode.c\<close>). Message structures are read from a byte memory;
  descriptor tables are found by their address, since message types refer to each other in cycles.
  The user's encoding callbacks and extension handlers are parameters, functions on the stream.
  An encoder returns \<open>None\<close> when the C code has no result: the nesting exceeds the fuel of
  \<open>pb_encode\<close>, an extension chain does not end, a field type has no encoder, or a oneof field has no
  selector, so that the code would read one from a local \<open>bool\<close>.
\<close>

record enc_env =
  env_mem :: memory
  env_tabs :: "u64 \<Rightarrow> pb_field list"
  env_callback :: "u64 \<Rightarrow> pb_field \<Rightarrow> u64 \<Rightarrow> pb_ostream \<Rightarrow> bool \<times> pb_ostream"
  env_extension :: "u64 \<Rightarrow> u64 \<Rightarrow> pb_ostream \<Rightarrow> bool \<times> pb_ostream"

type_synonym enc = "pb_ostream \<Rightarrow> (bool \<times> pb_ostream) option"

text \<open>\<open>if (!f(stream)) return false; g(stream)\<close>, and the loop
  \<open>for (i = 0; i < n; i++) { if (!f(stream, p)) return false; p += step; }\<close>.\<close>

definition enc_then :: "enc \<Rightarrow> enc \<Rightarrow> enc" where
  "enc_then f g s = (case f s of None \<Rightarrow> None | Some (ok, s') \<Rightarrow> if ok then g s' else Some (False, s'))"

fun enc_for :: "(u64 \<Rightarrow> enc) \<Rightarrow> u64 \<Rightarrow> u64 \<Rightarrow> nat \<Rightarrow> enc" where
  "enc_for f p step 0 s = Some (True, s)"
| "enc_for f p step (Suc n) s = enc_then (f p) (enc_for f (p + step) step n) s"

definition enc_ret :: "(pb_ostream \<Rightarrow> bool \<times> pb_ostream) \<Rightarrow> enc" where
  "enc_ret f s = Some (f s)"

definition enc_fail :: "string \<Rightarrow> enc" where
  "enc_fail msg s = Some (os_error s msg)"

definition enc_ok :: enc where
  "enc_ok s = Some (True, s)"

definition enc_none :: enc where
  "enc_none s = None"

subsection \<open>Scalar field encoders\<close>

definition safe_read_bool :: "memory \<Rightarrow> u64 \<Rightarrow> bool" where
  "safe_read_bool mem p = list_ex (\<lambda>i. mem (p + word_of_nat i) \<noteq> 0) [0..<1]"

definition pb_encode_tag_for_field :: "pb_field \<Rightarrow> enc" where
  "pb_encode_tag_for_field f =
     (let t = PB_LTYPE (fd_type f) in
      if t = PB_LTYPE_BOOL \<or> t = PB_LTYPE_VARINT \<or> t = PB_LTYPE_UVARINT \<or> t = PB_LTYPE_SVARINT
      then enc_ret (\<lambda>s. pb_encode_tag s PB_WT_VARINT (fd_tag f))
      else if t = PB_LTYPE_FIXED32 then enc_ret (\<lambda>s. pb_encode_tag s PB_WT_32BIT (fd_tag f))
      else if t = PB_LTYPE_FIXED64 then enc_ret (\<lambda>s. pb_encode_tag s PB_WT_64BIT (fd_tag f))
      else if t = PB_LTYPE_BYTES \<or> t = PB_LTYPE_STRING \<or> t = PB_LTYPE_SUBMESSAGE \<or>
              t = PB_LTYPE_FIXED_LENGTH_BYTES
      then enc_ret (\<lambda>s. pb_encode_tag s PB_WT_STRING (fd_tag f))
      else enc_fail ''invalid field type'')"

definition pb_enc_bool :: "memory \<Rightarrow> pb_field \<Rightarrow> u64 \<Rightarrow> enc" where
  "pb_enc_bool mem f src = enc_ret (\<lambda>s. pb_encode_varint s (if safe_read_bool mem src then 1 else 0))"

definition load_signed :: "memory \<Rightarrow> u64 \<Rightarrow> u32 \<Rightarrow> u64 option" where
  "load_signed mem src sz =
     (if sz = 1 then Some (scast (mem src))
      else if sz = 2 then Some (scast (load_u16 mem src))
      else if sz = 4 then Some (scast (load_u32 mem src))
      else if sz = 8 then Some (load_u64 mem src)
      else None)"

definition load_unsigned :: "memory \<Rightarrow> u64 \<Rightarrow> u32 \<Rightarrow> u64 option" where
  "load_unsigned mem src sz =
     (if sz = 1 then Some (ucast (mem src))
      else if sz = 2 then Some (ucast (load_u16 mem src))
      else if sz = 4 then Some (ucast (load_u32 mem src))
      else if sz = 8 then Some (load_u64 mem src)
      else None)"

definition pb_enc_varint :: "memory \<Rightarrow> pb_field \<Rightarrow> u64 \<Rightarrow> enc" where
  "pb_enc_varint mem f src =
     (case load_signed mem src (fd_data_size f) of
        None \<Rightarrow> enc_fail ''invalid data_size''
      | Some value \<Rightarrow> enc_ret (\<lambda>s. pb_encode_varint s value))"

definition pb_enc_uvarint :: "memory \<Rightarrow> pb_field \<Rightarrow> u64 \<Rightarrow> enc" where
  "pb_enc_uvarint mem f src =
     (case load_unsigned mem src (fd_data_size f) of
        None \<Rightarrow> enc_fail ''invalid data_size''
      | Some value \<Rightarrow> enc_ret (\<lambda>s. pb_encode_varint s value))"

definition pb_enc_svarint :: "memory \<Rightarrow> pb_field \<Rightarrow> u64 \<Rightarrow> enc" where
  "pb_enc_svarint mem f src =
     (case load_signed mem src (fd_data_size f) of
        None \<Rightarrow> enc_fail ''invalid data_size''
      | Some value \<Rightarrow> enc_ret (\<lambda>s. pb_encode_svarint s value))"

definition pb_enc_fixed32 :: "memory \<Rightarrow> pb_field \<Rightarrow> u64 \<Rightarrow> enc" where
  "pb_enc_fixed32 mem f src = enc_ret (\<lambda>s. pb_encode_fixed32 s (load_u32 mem src))"

definition pb_enc_fixed64 :: "memory \<Rightarrow> pb_field \<Rightarrow> u64 \<Rightarrow> enc" where
  "pb_enc_fixed64 mem f src = enc_ret (\<lambda>s. pb_encode_fixed64 s (load_u64 mem src))"

text \<open>A \<open>pb_bytes_array_t\<close> is a 32-bit size followed by the bytes, at offset 4.\<close>

definition pb_enc_bytes :: "memory \<Rightarrow> pb_field \<Rightarrow> u64 \<Rightarrow> enc" where
  "pb_enc_bytes mem f src =
     (if src = 0 then enc_ret (\<lambda>s. pb_encode_string s [] 0)
      else
        let bsize = unat (load_u32 mem src);
            allocsize = size_add bsize 4
        in if allocsize < bsize \<or>
              (PB_ATYPE (fd_type f) = PB_ATYPE_STATIC \<and> allocsize > unat (fd_data_size f))
           then enc_fail ''bytes size exceeded''
           else enc_ret (\<lambda>s. pb_encode_string s (load_bytes mem (src + 4) bsize) bsize))"

function strnlen_loop :: "memory \<Rightarrow> u64 \<Rightarrow> nat \<Rightarrow> nat \<Rightarrow> nat" where
  "strnlen_loop mem p sz max_size =
     (if sz < max_size \<and> mem p \<noteq> 0 then strnlen_loop mem (p + 1) (Suc sz) max_size else sz)"
  by pat_completeness auto
termination by (relation "measure (\<lambda>(_, _, sz, max_size). max_size - sz)") auto

declare strnlen_loop.simps [simp del]

definition pb_enc_string :: "memory \<Rightarrow> pb_field \<Rightarrow> u64 \<Rightarrow> enc" where
  "pb_enc_string mem f src =
     (let max_size = (if PB_ATYPE (fd_type f) = PB_ATYPE_POINTER then SIZE_LIMIT - 1
                      else unat (fd_data_size f));
          sz = (if src = 0 then 0 else strnlen_loop mem src 0 max_size)
      in enc_ret (\<lambda>s. pb_encode_string s (load_bytes mem src sz) sz))"

definition pb_enc_fixed_length_bytes :: "memory \<Rightarrow> pb_field \<Rightarrow> u64 \<Rightarrow> enc" where
  "pb_enc_fixed_length_bytes mem f src =
     enc_ret (\<lambda>s. pb_encode_string s (load_bytes mem src (unat (fd_data_size f))) (unat (fd_data_size f)))"

subsection \<open>Submessages, arrays and fields\<close>

text \<open>\<open>sub\<close> is \<open>pb_encode\<close>, called recursively.\<close>

definition pb_encode_submessage ::
  "(pb_field list \<Rightarrow> u64 \<Rightarrow> enc) \<Rightarrow> pb_field list \<Rightarrow> u64 \<Rightarrow> enc" where
  "pb_encode_submessage sub tbl src s =
     (case sub tbl src PB_OSTREAM_SIZING of
        None \<Rightarrow> None
      | Some (ok, substream) \<Rightarrow>
          if \<not> ok then Some (False, s\<lparr>os_errmsg := os_errmsg substream\<rparr>)
          else
            let sz = os_bytes_written substream in
            case pb_encode_varint s (word_of_nat sz) of (ok1, s1) \<Rightarrow>
              if \<not> ok1 then Some (False, s1)
              else if os_callback s1 = None then Some (pb_write s1 [] sz)
              else if size_add (os_bytes_written s1) sz > os_max_size s1
              then Some (os_error s1 ''stream full'')
              else
                (case sub tbl src \<lparr>os_callback = os_callback s1, os_state = os_state s1,
                        os_max_size = sz, os_bytes_written = 0, os_errmsg = None\<rparr> of
                   None \<Rightarrow> None
                 | Some (status, sub1) \<Rightarrow>
                     let s2 = s1\<lparr>os_bytes_written := size_add (os_bytes_written s1) (os_bytes_written sub1),
                                 os_state := os_state sub1, os_errmsg := os_errmsg sub1\<rparr>
                     in if os_bytes_written sub1 \<noteq> sz then Some (os_error s2 ''submsg size changed'')
                        else Some (status, s2)))"

definition pb_enc_submessage ::
  "enc_env \<Rightarrow> (pb_field list \<Rightarrow> u64 \<Rightarrow> enc) \<Rightarrow> pb_field \<Rightarrow> u64 \<Rightarrow> enc" where
  "pb_enc_submessage env sub f src =
     (if fd_ptr f = 0 then enc_fail ''invalid field descriptor''
      else pb_encode_submessage sub (env_tabs env (fd_ptr f)) src)"

definition PB_ENCODERS ::
  "enc_env \<Rightarrow> (pb_field list \<Rightarrow> u64 \<Rightarrow> enc) \<Rightarrow> pb_field \<Rightarrow> u64 \<Rightarrow> enc" where
  "PB_ENCODERS env sub f src =
     (let t = PB_LTYPE (fd_type f); mem = env_mem env in
      if t = PB_LTYPE_BOOL then pb_enc_bool mem f src
      else if t = PB_LTYPE_VARINT then pb_enc_varint mem f src
      else if t = PB_LTYPE_UVARINT then pb_enc_uvarint mem f src
      else if t = PB_LTYPE_SVARINT then pb_enc_svarint mem f src
      else if t = PB_LTYPE_FIXED32 then pb_enc_fixed32 mem f src
      else if t = PB_LTYPE_FIXED64 then pb_enc_fixed64 mem f src
      else if t = PB_LTYPE_BYTES then pb_enc_bytes mem f src
      else if t = PB_LTYPE_STRING then pb_enc_string mem f src
      else if t = PB_LTYPE_SUBMESSAGE then pb_enc_submessage env sub f src
      else if t = PB_LTYPE_FIXED_LENGTH_BYTES then pb_enc_fixed_length_bytes mem f src
      else enc_none)"

definition encode_array_packed :: "(u64 \<Rightarrow> enc) \<Rightarrow> pb_field \<Rightarrow> u64 \<Rightarrow> nat \<Rightarrow> enc" where
  "encode_array_packed func f pData count =
     enc_then (enc_ret (\<lambda>s. pb_encode_tag s PB_WT_STRING (fd_tag f)))
       (\<lambda>s. case (if PB_LTYPE (fd_type f) = PB_LTYPE_FIXED32 then Some (True, size_mul 4 count)
                  else if PB_LTYPE (fd_type f) = PB_LTYPE_FIXED64 then Some (True, size_mul 8 count)
                  else (case enc_for func pData (ucast (fd_data_size f)) count PB_OSTREAM_SIZING of
                          None \<Rightarrow> None
                        | Some (ok, sizestream) \<Rightarrow> Some (ok, os_bytes_written sizestream))) of
              None \<Rightarrow> None
            | Some (ok, sz) \<Rightarrow>
                if \<not> ok then Some (False, s)
                else enc_then (enc_ret (\<lambda>s. pb_encode_varint s (word_of_nat sz)))
                  (\<lambda>s. if os_callback s = None then Some (pb_write s [] sz)
                       else enc_for func pData (ucast (fd_data_size f)) count s) s)"

definition encode_array_unpacked :: "enc_env \<Rightarrow> (u64 \<Rightarrow> enc) \<Rightarrow> pb_field \<Rightarrow> u64 \<Rightarrow> nat \<Rightarrow> enc" where
  "encode_array_unpacked env func f pData count =
     enc_for (\<lambda>p. enc_then (pb_encode_tag_for_field f)
                (if PB_ATYPE (fd_type f) = PB_ATYPE_POINTER \<and>
                    (PB_LTYPE (fd_type f) = PB_LTYPE_STRING \<or> PB_LTYPE (fd_type f) = PB_LTYPE_BYTES)
                 then func (load_u64 (env_mem env) p) else func p))
       pData (ucast (fd_data_size f)) count"

definition encode_array :: "enc_env \<Rightarrow> (u64 \<Rightarrow> enc) \<Rightarrow> pb_field \<Rightarrow> u64 \<Rightarrow> nat \<Rightarrow> enc" where
  "encode_array env func f pData count =
     (if count = 0 then enc_ok
      else if PB_ATYPE (fd_type f) \<noteq> PB_ATYPE_POINTER \<and> count > unat (fd_array_size f)
      then enc_fail ''array max size exceeded''
      else if PB_LTYPE (fd_type f) \<le> PB_LTYPE_LAST_PACKABLE
      then encode_array_packed func f pData count
      else encode_array_unpacked env func f pData count)"

text \<open>\<open>n\<close> bounds the nesting of static submessages; \<open>None\<close> means it was exceeded.\<close>

fun pb_check_proto3_default_value :: "enc_env \<Rightarrow> nat \<Rightarrow> pb_field \<Rightarrow> u64 \<Rightarrow> bool option" where
  "pb_check_proto3_default_value env 0 f pData = None"
| "pb_check_proto3_default_value env (Suc n) f pData =
     (let type = fd_type f;
          mem = env_mem env;
          pSize = pData + scast (fd_size_offset f)
      in
        if PB_HTYPE type = PB_HTYPE_REQUIRED then Some False
        else if PB_HTYPE type = PB_HTYPE_REPEATED \<and> fd_size_offset f \<noteq> 0
        then Some (load_u32 mem pSize = 0)
        else if PB_HTYPE type = PB_HTYPE_REPEATED \<and> PB_ATYPE type = PB_ATYPE_STATIC then Some False
        else if PB_HTYPE type = PB_HTYPE_ONEOF then Some (load_u32 mem pSize = 0)
        else if PB_HTYPE type = PB_HTYPE_OPTIONAL \<and> fd_size_offset f \<noteq> 0
        then Some (\<not> safe_read_bool mem pSize)
        else if PB_ATYPE type = PB_ATYPE_STATIC \<and> PB_LTYPE type = PB_LTYPE_BYTES
        then Some (load_u32 mem pData = 0)
        else if PB_ATYPE type = PB_ATYPE_STATIC \<and> PB_LTYPE type = PB_LTYPE_STRING
        then Some (mem pData = 0)
        else if PB_ATYPE type = PB_ATYPE_STATIC \<and> PB_LTYPE type = PB_LTYPE_FIXED_LENGTH_BYTES
        then Some (fd_data_size f = 0)
        else if PB_ATYPE type = PB_ATYPE_STATIC \<and> PB_LTYPE type = PB_LTYPE_SUBMESSAGE
        then (case pb_field_iter_begin (env_tabs env (fd_ptr f)) pData of
                (False, _) \<Rightarrow> Some True
              | (True, it) \<Rightarrow>
                  map_option fst (iter_while
                    (\<lambda>it _. map_option (\<lambda>b. (b, ()))
                       (pb_check_proto3_default_value env n (it_field it) (it_pData it))) it ()))
        else if PB_ATYPE type = PB_ATYPE_POINTER \<and> PB_LTYPE type > PB_LTYPE_LAST_PACKABLE
        then Some (load_u64 mem pData = 0)
        else Some (list_all (\<lambda>i. mem (pData + word_of_nat i) = 0) [0..<unat (fd_data_size f)]))"

definition encode_basic_field ::
  "enc_env \<Rightarrow> nat \<Rightarrow> (pb_field list \<Rightarrow> u64 \<Rightarrow> enc) \<Rightarrow> pb_field \<Rightarrow> u64 \<Rightarrow> enc" where
  "encode_basic_field env n sub f pData =
     (let mem = env_mem env;
          htype = PB_HTYPE (fd_type f);
          pointer = (PB_ATYPE (fd_type f) = PB_ATYPE_POINTER);
          func = PB_ENCODERS env sub f;
          pSize = pData + scast (fd_size_offset f);
          has0 = (if fd_size_offset f \<noteq> 0 then Some (safe_read_bool mem pSize)
                  else if htype = PB_HTYPE_OPTIONAL
                  then map_option Not (pb_check_proto3_default_value env n f pData)
                  else Some True);
          pData' = (if pointer then load_u64 mem pData else pData)
      in case has0 of
           None \<Rightarrow> enc_none
         | Some has1 \<Rightarrow>
             let has = (if pointer \<and> fd_size_offset f = 0 then pData' \<noteq> 0 else has1) in
             if htype = PB_HTYPE_REQUIRED then
               (if pData' = 0 then enc_fail ''missing required field''
                else enc_then (pb_encode_tag_for_field f) (func pData'))
             else if htype = PB_HTYPE_OPTIONAL then
               (if has then enc_then (pb_encode_tag_for_field f) (func pData') else enc_ok)
             else if htype = PB_HTYPE_REPEATED then
               encode_array env func f pData'
                 (if fd_size_offset f \<noteq> 0 then unat (load_u32 mem pSize) else unat (fd_array_size f))
             else if fd_size_offset f = 0 then enc_none
             else if load_u32 mem pSize = fd_tag f
             then enc_then (pb_encode_tag_for_field f) (func pData')
             else enc_ok)"

definition encode_callback_field :: "enc_env \<Rightarrow> pb_field \<Rightarrow> u64 \<Rightarrow> enc" where
  "encode_callback_field env f pData s =
     (let fn = load_u64 (env_mem env) pData in
      if fn \<noteq> 0 then
        (case env_callback env fn f (pData + 8) s of (ok, s') \<Rightarrow>
           if \<not> ok then Some (os_error s' ''callback error'') else Some (True, s'))
      else Some (True, s))"

definition encode_field ::
  "enc_env \<Rightarrow> nat \<Rightarrow> (pb_field list \<Rightarrow> u64 \<Rightarrow> enc) \<Rightarrow> pb_field \<Rightarrow> u64 \<Rightarrow> enc" where
  "encode_field env n sub f pData =
     (let t = PB_ATYPE (fd_type f) in
      if t = PB_ATYPE_STATIC \<or> t = PB_ATYPE_POINTER then encode_basic_field env n sub f pData
      else if t = PB_ATYPE_CALLBACK then encode_callback_field env f pData
      else enc_fail ''invalid field type'')"

text \<open>\<open>pb_extension_t\<close>: type at 0, dest at 8, next at 16; \<open>pb_extension_type_t\<close>: encode at 8, arg at 16.\<close>

definition default_extension_encoder ::
  "enc_env \<Rightarrow> nat \<Rightarrow> (pb_field list \<Rightarrow> u64 \<Rightarrow> enc) \<Rightarrow> u64 \<Rightarrow> enc" where
  "default_extension_encoder env n sub extension =
     (let mem = env_mem env;
          f = field_at (env_tabs env (load_u64 mem (load_u64 mem extension + 16))) 0
      in if PB_ATYPE (fd_type f) = PB_ATYPE_POINTER then encode_field env n sub f (extension + 8)
         else encode_field env n sub f (load_u64 mem (extension + 8)))"

fun extension_loop ::
  "enc_env \<Rightarrow> nat \<Rightarrow> (pb_field list \<Rightarrow> u64 \<Rightarrow> enc) \<Rightarrow> nat \<Rightarrow> u64 \<Rightarrow> enc" where
  "extension_loop env n sub 0 extension = (if extension = 0 then enc_ok else enc_none)"
| "extension_loop env n sub (Suc k) extension =
     (if extension = 0 then enc_ok
      else
        let mem = env_mem env; fn = load_u64 mem (load_u64 mem extension + 8) in
        enc_then (if fn \<noteq> 0 then enc_ret (env_extension env fn extension)
                  else default_extension_encoder env n sub extension)
          (extension_loop env n sub k (load_u64 mem (extension + 16))))"

definition encode_extension_field ::
  "enc_env \<Rightarrow> nat \<Rightarrow> (pb_field list \<Rightarrow> u64 \<Rightarrow> enc) \<Rightarrow> u64 \<Rightarrow> enc" where
  "encode_extension_field env n sub pData = extension_loop env n sub n (load_u64 (env_mem env) pData)"

fun pb_encode :: "enc_env \<Rightarrow> nat \<Rightarrow> pb_field list \<Rightarrow> u64 \<Rightarrow> enc" where
  "pb_encode env 0 tbl src s = None"
| "pb_encode env (Suc n) tbl src s =
     (case pb_field_iter_begin tbl src of
        (False, _) \<Rightarrow> Some (True, s)
      | (True, it) \<Rightarrow>
          iter_while (\<lambda>it s.
            if PB_LTYPE (fd_type (it_field it)) = PB_LTYPE_EXTENSION
            then encode_extension_field env n (pb_encode env n) (it_pData it) s
            else encode_field env n (pb_encode env n) (it_field it) (it_pData it) s) it s)"

definition pb_encode_delimited :: "enc_env \<Rightarrow> nat \<Rightarrow> pb_field list \<Rightarrow> u64 \<Rightarrow> enc" where
  "pb_encode_delimited env n tbl src = pb_encode_submessage (pb_encode env n) tbl src"

definition pb_encode_nullterminated :: "enc_env \<Rightarrow> nat \<Rightarrow> pb_field list \<Rightarrow> u64 \<Rightarrow> enc" where
  "pb_encode_nullterminated env n tbl src =
     enc_then (pb_encode env n tbl src) (enc_ret (\<lambda>s. pb_write s [0] 1))"

text \<open>The result: no result, failure, or the size.\<close>

definition pb_get_encoded_size :: "enc_env \<Rightarrow> nat \<Rightarrow> pb_field list \<Rightarrow> u64 \<Rightarrow> nat option option" where
  "pb_get_encoded_size env n tbl src =
     (case pb_encode env n tbl src PB_OSTREAM_SIZING of
        None \<Rightarrow> None
      | Some (ok, s) \<Rightarrow> Some (if ok then Some (os_bytes_written s) else None))"

subsection \<open>What an encoder emits\<close>

text \<open>
  \<open>window s s'\<close>: the buffer of \<open>s'\<close> differs from that of \<open>s\<close> inside the room of \<open>s\<close> only, and no byte was
  written outside the buffer.
\<close>

definition window :: "pb_ostream \<Rightarrow> pb_ostream \<Rightarrow> bool" where
  "window s s' \<longleftrightarrow> \<not> sink_fault (os_state s') \<and>
     length (sink_buf (os_state s')) = length (sink_buf (os_state s)) \<and>
     take (sink_pos (os_state s)) (sink_buf (os_state s')) = take (sink_pos (os_state s)) (sink_buf (os_state s)) \<and>
     drop (sink_pos (os_state s) + room s) (sink_buf (os_state s'))
       = drop (sink_pos (os_state s) + room s) (sink_buf (os_state s))"

definition fits :: "pb_ostream \<Rightarrow> u8 list \<Rightarrow> bool" where
  "fits s bs \<longleftrightarrow> os_errmsg s = None \<and> (sizing s \<or> buffered s \<and> length bs \<le> room s)"

definition too_long :: "pb_ostream \<Rightarrow> u8 list \<Rightarrow> bool" where
  "too_long s bs \<longleftrightarrow> os_errmsg s = None \<and> buffered s \<and> room s < length bs \<and>
     os_bytes_written s + length bs < SIZE_LIMIT"

text \<open>Any stream over a buffer, whatever its limit: it may have written outside the buffer, if the limit was wrong.\<close>

definition over_buffer :: "pb_ostream \<Rightarrow> bool" where
  "over_buffer s \<longleftrightarrow> os_errmsg s = None \<and> os_callback s = Some buf_write \<and> os_bytes_written s < SIZE_LIMIT \<and>
     (sink_fault (os_state s) \<or> sink_pos (os_state s) \<le> length (sink_buf (os_state s)))"

text \<open>
  With room for \<open>bs\<close> the encoder \<open>f\<close> writes them and returns \<open>ok\<close>; without, it fails inside the window; and on no
  stream does it succeed having written anything else.
\<close>

definition emits :: "enc \<Rightarrow> bool \<Rightarrow> u8 list \<Rightarrow> bool" where
  "emits f ok bs \<longleftrightarrow>
     (\<forall>s. fits s bs \<longrightarrow>
        (\<exists>s'. f s = Some (ok, s') \<and> (ok \<longrightarrow> s' = put s bs) \<and> (buffered s \<longrightarrow> window s s'))) \<and>
     (\<forall>s. too_long s bs \<longrightarrow> (\<exists>s'. f s = Some (False, s') \<and> window s s')) \<and>
     (\<forall>s s'. over_buffer s \<and> f s = Some (True, s') \<longrightarrow> ok \<and> s' = put s bs)"

definition stuck :: "enc \<Rightarrow> bool" where
  "stuck f \<longleftrightarrow> (\<forall>s. sizing s \<and> os_errmsg s = None \<longrightarrow> f s = None)"

definition regular :: "enc \<Rightarrow> bool" where
  "regular f \<longleftrightarrow> (\<exists>ok bs. emits f ok bs) \<or> stuck f"

lemma not_sizing_buffered [simp]: "sizing s \<Longrightarrow> \<not> buffered s"
  by (auto simp: sizing_def buffered_def)

lemma window_refl [simp]: "buffered s \<Longrightarrow> window s s"
  by (simp add: window_def buffered_def)

lemma window_error [simp]: "window s (s'\<lparr>os_errmsg := e\<rparr>) = window s s'"
  "window (s\<lparr>os_errmsg := e\<rparr>) s' = window s s'"
  by (simp_all add: window_def room_def)

lemma window_put:
  assumes "buffered s" "length bs \<le> room s"
  shows "window s (put s bs)"
proof -
  have "sink_pos (os_state s) + room s \<le> length (sink_buf (os_state s))"
    using assms(1) unfolding buffered_def room_def by blast
  then show ?thesis
    using assms by (auto simp: window_def put_def buffered_def buf_write_def copy_bytes_splice add.commute)
qed

text \<open>A window inside the window.\<close>

lemma window_sub:
  assumes "window s s1" "window s1' s2"
    and "sink_buf (os_state s1') = sink_buf (os_state s1)"
    and "sink_pos (os_state s) \<le> sink_pos (os_state s1')"
    and "sink_pos (os_state s1') + room s1' \<le> sink_pos (os_state s) + room s"
  shows "window s s2"
proof -
  let ?b = "sink_buf (os_state s2)" and ?p = "sink_pos (os_state s)" and ?q = "sink_pos (os_state s1')"
  let ?e = "?p + room s" and ?d = "?q + room s1'"
  have "take ?p ?b = take ?p (take ?q ?b)" using assms(4) by (simp add: min_def)
  also have "\<dots> = take ?p (sink_buf (os_state s1))"
    using assms(2-4) by (simp add: window_def min_def)
  finally have tk: "take ?p ?b = take ?p (sink_buf (os_state s))"
    using assms(1) by (simp add: window_def)
  have "drop ?e ?b = drop (?e - ?d) (drop ?d ?b)" using assms(5) by simp
  also have "\<dots> = drop (?e - ?d) (drop ?d (sink_buf (os_state s1)))"
    using assms(2,3) by (simp add: window_def)
  also have "\<dots> = drop ?e (sink_buf (os_state s1))" using assms(5) by simp
  finally have "drop ?e ?b = drop ?e (sink_buf (os_state s))"
    using assms(1) by (simp add: window_def)
  then show ?thesis using tk assms(1-3) by (simp add: window_def)
qed

lemma window_after_put:
  assumes "buffered s" "length bs \<le> room s" "window (put s bs) s2"
  shows "window s s2"
proof (rule window_sub [OF window_put [OF assms(1,2)] assms(3) refl])
  show "sink_pos (os_state s) \<le> sink_pos (os_state (put s bs))"
    and "sink_pos (os_state (put s bs)) + room (put s bs) \<le> sink_pos (os_state s) + room s"
    using assms buffered_put_eqs(2) [OF assms(1,2)]
    by (auto simp: put_def buf_write_def buffered_def room_def)
qed

subsection \<open>Composition\<close>

lemma fits_append: "fits s (bs @ cs) \<Longrightarrow> fits s bs \<and> fits (put s bs) cs"
  by (auto simp: fits_def buffered_put_eqs)

lemma too_long_append:
  "too_long s (bs @ cs) \<Longrightarrow> too_long s bs \<or> fits s bs \<and> too_long (put s bs) cs"
  by (auto simp: fits_def too_long_def buffered_put_eqs not_less size_add_exact)

lemma emits_fits: "emits f ok bs \<Longrightarrow> fits s bs \<Longrightarrow>
    \<exists>s'. f s = Some (ok, s') \<and> (ok \<longrightarrow> s' = put s bs) \<and> (buffered s \<longrightarrow> window s s')"
  by (simp add: emits_def)

lemma emits_True: "emits f True bs \<Longrightarrow> fits s bs \<Longrightarrow> f s = Some (True, put s bs)"
  using emits_fits by blast

lemma emits_too_long: "emits f ok bs \<Longrightarrow> too_long s bs \<Longrightarrow> \<exists>s'. f s = Some (False, s') \<and> window s s'"
  by (simp add: emits_def)

lemma emits_success: "emits f ok bs \<Longrightarrow> over_buffer s \<Longrightarrow> f s = Some (True, s') \<Longrightarrow> ok \<and> s' = put s bs"
  by (simp add: emits_def)

lemma over_buffer_put [simp]: "over_buffer s \<Longrightarrow> over_buffer (put s bs)"
  by (auto simp: over_buffer_def put_def buf_write_def)

lemma over_buffer_put_Nil: "over_buffer s \<Longrightarrow> put s [] = s"
  by (cases s; cases "os_state s") (auto simp: over_buffer_def put_def buf_write_def)

lemma emits_then:
  assumes f: "emits f True bs" and g: "emits g ok cs"
  shows "emits (enc_then f g) ok (bs @ cs)"
  unfolding emits_def
proof (intro conjI allI impI)
  fix s assume "fits s (bs @ cs)"
  then have 1: "fits s bs" and 2: "fits (put s bs) cs" using fits_append by auto
  obtain s' where s': "g (put s bs) = Some (ok, s')" "ok \<longrightarrow> s' = put (put s bs) cs"
    "buffered (put s bs) \<longrightarrow> window (put s bs) s'"
    using emits_fits [OF g 2] by blast
  have "window s s'" if "buffered s"
  proof -
    have le: "length bs \<le> room s" using 1 that by (auto simp: fits_def)
    show ?thesis using window_after_put [OF that le] s'(3) buffered_put_eqs(1) [OF that le] by blast
  qed
  then show "\<exists>s'. enc_then f g s = Some (ok, s') \<and> (ok \<longrightarrow> s' = put s (bs @ cs)) \<and> (buffered s \<longrightarrow> window s s')"
    using s' emits_True [OF f 1] by (auto simp: enc_then_def put_append)
next
  fix s assume tl: "too_long s (bs @ cs)"
  then consider "too_long s bs" | "fits s bs" "too_long (put s bs) cs" using too_long_append by blast
  then show "\<exists>s'. enc_then f g s = Some (False, s') \<and> window s s'"
  proof cases
    case 1
    then show ?thesis using emits_too_long [OF f 1] by (auto simp: enc_then_def)
  next
    case 2
    have buf: "buffered s" and le: "length bs \<le> room s" using tl 2 by (auto simp: too_long_def fits_def)
    show ?thesis
      using emits_True [OF f 2(1)] emits_too_long [OF g 2(2)] window_after_put [OF buf le]
      by (auto simp: enc_then_def)
  qed
next
  fix s s' assume a: "over_buffer s \<and> enc_then f g s = Some (True, s')"
  then obtain s1 where 1: "f s = Some (True, s1)" "g s1 = Some (True, s')"
    by (auto simp: enc_then_def split: option.splits prod.splits if_splits bool.splits)
  then have "s1 = put s bs" using emits_success [OF f] a by blast
  moreover have "over_buffer (put s bs)" using a by simp
  ultimately have "ok \<and> s' = put (put s bs) cs" using emits_success [OF g] 1(2) by blast
  then show ok and "s' = put s (bs @ cs)" by (simp_all add: put_append)
qed

lemma emits_then_False: "emits f False bs \<Longrightarrow> emits (enc_then f g) False bs"
proof -
  assume f: "emits f False bs"
  have no: "enc_then f g s \<noteq> Some (True, s')" if "over_buffer s" for s s'
    using emits_success [OF f that] by (auto simp: enc_then_def split: option.splits prod.splits bool.splits if_splits)
  show ?thesis
    using f no unfolding emits_def by (fastforce simp: enc_then_def split: option.splits)
qed

lemma stuck_then: "stuck f \<Longrightarrow> stuck (enc_then f g)"
  by (simp add: stuck_def enc_then_def)

lemma sizing_fits: "sizing s \<Longrightarrow> os_errmsg s = None \<Longrightarrow> fits s bs"
  by (simp add: fits_def)

lemma emits_then_stuck: "emits f True bs \<Longrightarrow> stuck g \<Longrightarrow> stuck (enc_then f g)"
  by (auto simp: stuck_def enc_then_def emits_True sizing_fits)

lemma regular_then: "regular f \<Longrightarrow> regular g \<Longrightarrow> regular (enc_then f g)"
  unfolding regular_def
proof (elim disjE exE)
  fix ok bs ok' cs
  assume "emits f ok bs" "emits g ok' cs"
  then show "(\<exists>ok bs. emits (enc_then f g) ok bs) \<or> stuck (enc_then f g)"
    using emits_then [of f bs g ok' cs] emits_then_False [of f bs g] by (cases ok) auto
next
  fix ok bs
  assume "emits f ok bs" "stuck g"
  then show "(\<exists>ok bs. emits (enc_then f g) ok bs) \<or> stuck (enc_then f g)"
    using emits_then_stuck [of f bs g] emits_then_False [of f bs g] by (cases ok) auto
qed (blast intro: stuck_then)+

lemma emits_ok: "emits enc_ok True []"
  unfolding emits_def enc_ok_def by (simp add: fits_def too_long_def put_Nil over_buffer_put_Nil)

lemma emits_fail: "emits (enc_fail msg) False []"
  unfolding emits_def enc_fail_def os_error_def by (simp add: fits_def too_long_def)

lemma emits_None: "stuck (\<lambda>s. None)"
  by (simp add: stuck_def)

lemma enc_for_0: "enc_for f p step 0 = enc_ok"
  by (rule ext) (simp add: enc_ok_def)

lemma enc_for_Suc: "enc_for f p step (Suc n) = enc_then (f p) (enc_for f (p + step) step n)"
  by (rule ext) simp

lemma emits_for:
  "(\<And>i. i < n \<Longrightarrow> emits (f (p + of_nat i * step)) True (e i)) \<Longrightarrow>
   emits (enc_for f p step n) True (concat (map e [0..<n]))"
proof (induction n arbitrary: p e)
  case 0
  then show ?case using emits_ok by (simp add: enc_for_0)
next
  case (Suc n)
  have "emits (enc_for f (p + step) step n) True (concat (map (\<lambda>i. e (Suc i)) [0..<n]))"
    using Suc.prems [of "Suc i" for i] by (intro Suc.IH) (simp add: algebra_simps)
  moreover have "emits (f p) True (e 0)" using Suc.prems [of 0] by simp
  moreover have "concat (map e [0..<Suc n]) = e 0 @ concat (map (\<lambda>i. e (Suc i)) [0..<n])"
    by (simp add: upt_conv_Cons map_Suc_upt [symmetric] comp_def del: upt_Suc)
  ultimately show ?case
    unfolding enc_for_Suc by (simp only: emits_then)
qed

lemma regular_for: "(\<And>p. regular (f p)) \<Longrightarrow> regular (enc_for f p step n)"
proof (induction n arbitrary: p)
  case 0
  then show ?case using emits_ok unfolding regular_def enc_for_0 by auto
next
  case (Suc n)
  then show ?case unfolding enc_for_Suc by (blast intro: regular_then)
qed

text \<open>The primitive writes.\<close>

lemma emits_write: "length bs < SIZE_LIMIT \<Longrightarrow> emits (enc_ret (\<lambda>s. pb_write s bs (length bs))) True bs"
  unfolding emits_def
proof (intro conjI)
  assume len: "length bs < SIZE_LIMIT"
  show "\<forall>s. fits s bs \<longrightarrow> (\<exists>s'. enc_ret (\<lambda>s. pb_write s bs (length bs)) s = Some (True, s') \<and>
      (True \<longrightarrow> s' = put s bs) \<and> (buffered s \<longrightarrow> window s s'))"
    by (auto simp: enc_ret_def fits_def sizing_def pb_write_sizing pb_write_buffered_fits window_put)
  show "\<forall>s. too_long s bs \<longrightarrow> (\<exists>s'. enc_ret (\<lambda>s. pb_write s bs (length bs)) s = Some (False, s') \<and> window s s')"
    using len by (auto simp: enc_ret_def too_long_def pb_write_buffered_full os_error_def split: option.splits)
  show "\<forall>s s'. over_buffer s \<and> enc_ret (\<lambda>s. pb_write s bs (length bs)) s = Some (True, s') \<longrightarrow> True \<and> s' = put s bs"
  proof (intro allI impI, elim conjE, intro conjI TrueI)
    fix s s' assume s: "over_buffer s" and w: "enc_ret (\<lambda>s. pb_write s bs (length bs)) s = Some (True, s')"
    show "s' = put s bs"
    proof (cases "bs = []")
      case True
      then show ?thesis using w over_buffer_put_Nil [OF s] s
        by (cases s) (auto simp: enc_ret_def pb_write_def over_buffer_def)
    next
      case False
      then show ?thesis
        using w s by (cases s) (auto simp: enc_ret_def pb_write_def over_buffer_def put_def buf_write_def os_error_def Let_def split: if_splits)
    qed
  qed
qed

lemma emits_varint: "emits (enc_ret (\<lambda>s. pb_encode_varint s v)) True (leb128 (unat v))"
  unfolding pb_encode_varint_leb128 by (rule emits_write [OF leb128_small])

lemma sizing_stream [simp]: "sizing PB_OSTREAM_SIZING" "os_errmsg PB_OSTREAM_SIZING = None"
  "os_bytes_written PB_OSTREAM_SIZING = 0"
  by (simp_all add: sizing_def PB_OSTREAM_SIZING_def)

lemma emits_sizing:
  assumes "emits f ok bs"
  shows "\<exists>s'. f PB_OSTREAM_SIZING = Some (ok, s') \<and> (ok \<longrightarrow> os_bytes_written s' = length bs mod SIZE_LIMIT)"
  using emits_fits [OF assms sizing_fits [OF sizing_stream(1,2)]] by (auto simp: size_add_def)

lemma stuck_sizing: "stuck f \<Longrightarrow> f PB_OSTREAM_SIZING = None"
  by (simp add: stuck_def)

text \<open>A sizing stream skips the payload; both streams agree on what \<open>emits\<close> says.\<close>

lemma emits_sizing_shortcut:
  assumes "emits g True bs" "n = length bs mod SIZE_LIMIT"
  shows "emits (\<lambda>s. if os_callback s = None then Some (pb_write s [] n) else g s) True bs"
  unfolding emits_def
proof (intro conjI allI impI)
  fix s assume fit: "fits s bs"
  show "\<exists>s'. (if os_callback s = None then Some (pb_write s [] n) else g s) = Some (True, s') \<and>
       (True \<longrightarrow> s' = put s bs) \<and> (buffered s \<longrightarrow> window s s')"
  proof (cases "os_callback s = None")
    case True
    moreover from this have "\<not> buffered s" by (simp add: buffered_def)
    ultimately show ?thesis
      by (simp add: pb_write_sizing_count put_def assms(2))
  next
    case False
    then show ?thesis using emits_fits [OF assms(1) fit] by auto
  qed
next
  fix s assume tl: "too_long s bs"
  then have "os_callback s \<noteq> None" by (simp add: too_long_def buffered_def)
  then show "\<exists>s'. (if os_callback s = None then Some (pb_write s [] n) else g s) = Some (False, s') \<and> window s s'"
    using emits_too_long [OF assms(1) tl] by auto
next
  fix s s' assume "over_buffer s \<and> (if os_callback s = None then Some (pb_write s [] n) else g s) = Some (True, s')"
  then show True and "s' = put s bs"
    using emits_success [OF assms(1), of s s'] by (auto simp: over_buffer_def)
qed

definition submessage_payload :: "enc \<Rightarrow> nat \<Rightarrow> enc" where
  "submessage_payload f sz s1 =
     (if size_add (os_bytes_written s1) sz > os_max_size s1 then Some (os_error s1 ''stream full'')
      else (case f \<lparr>os_callback = os_callback s1, os_state = os_state s1,
                os_max_size = sz, os_bytes_written = 0, os_errmsg = None\<rparr> of
              None \<Rightarrow> None
            | Some (status, sub1) \<Rightarrow>
                let s2 = s1\<lparr>os_bytes_written := size_add (os_bytes_written s1) (os_bytes_written sub1),
                            os_state := os_state sub1, os_errmsg := os_errmsg sub1\<rparr>
                in if os_bytes_written sub1 \<noteq> sz then Some (os_error s2 ''submsg size changed'')
                   else Some (status, s2)))"

lemma pb_encode_submessage_alt:
  "sub tbl src PB_OSTREAM_SIZING = Some (True, substream) \<Longrightarrow>
   pb_encode_submessage sub tbl src =
     enc_then (enc_ret (\<lambda>s. pb_encode_varint s (word_of_nat (os_bytes_written substream))))
       (\<lambda>s. if os_callback s = None then Some (pb_write s [] (os_bytes_written substream))
            else submessage_payload (sub tbl src) (os_bytes_written substream) s)"
  by (rule ext)
     (auto simp: pb_encode_submessage_def enc_then_def enc_ret_def submessage_payload_def Let_def
        split: prod.splits)

lemma submessage_payload_fits:
  assumes f: "emits f True bs" and s: "os_errmsg s = None" "buffered s" "length bs \<le> room s"
  shows "submessage_payload f (length bs) s = Some (True, put s bs)"
proof -
  let ?sub = "\<lparr>os_callback = os_callback s, os_state = os_state s, os_max_size = length bs,
                os_bytes_written = 0, os_errmsg = None\<rparr>"
  have lim: "os_bytes_written s + length bs < SIZE_LIMIT"
    using buffered_limit [OF s(2)] s(3) by simp
  then have chk: "\<not> size_add (os_bytes_written s) (length bs) > os_max_size s"
    using s(2,3) by (auto simp: size_add_exact buffered_def room_def)
  have "buffered ?sub" "room ?sub = length bs"
    using s lim by (auto simp: buffered_def room_def)
  then have "f ?sub = Some (True, put ?sub bs)"
    using emits_True [OF f, of ?sub] by (simp add: fits_def)
  moreover have "os_state (put ?sub bs) = os_state (put s bs)"
    using s(2) by (simp add: put_def buffered_def)
  moreover have "os_bytes_written (put ?sub bs) = length bs"
    using lim by (simp add: size_add_exact)
  moreover have "s\<lparr>os_bytes_written := size_add (os_bytes_written s) (length bs),
      os_state := os_state (put s bs), os_errmsg := None\<rparr> = put s bs"
    using s(1) by (simp add: put_def)
  ultimately show ?thesis
    using chk by (simp add: submessage_payload_def)
qed

lemma submessage_payload_too_long:
  assumes "too_long s bs"
  shows "submessage_payload f (length bs) s = Some (os_error s ''stream full'')"
proof -
  have "size_add (os_bytes_written s) (length bs) > os_max_size s"
    using assms by (auto simp: too_long_def buffered_def room_def size_add_exact)
  then show ?thesis by (simp add: submessage_payload_def)
qed

text \<open>Success means that the payload was written, even where the count of bytes written wrapped around.\<close>

lemma submessage_payload_success:
  assumes f: "emits f True bs" and s: "over_buffer s"
    and run: "submessage_payload f (length bs mod SIZE_LIMIT) s = Some (True, s')"
  shows "s' = put s bs"
proof -
  let ?sz = "length bs mod SIZE_LIMIT"
  let ?sub = "\<lparr>os_callback = os_callback s, os_state = os_state s, os_max_size = ?sz, os_bytes_written = 0, os_errmsg = None\<rparr>"
  obtain sub1 where sub1: "f ?sub = Some (True, sub1)"
    and s': "s' = s\<lparr>os_bytes_written := size_add (os_bytes_written s) (os_bytes_written sub1), os_state := os_state sub1,
        os_errmsg := os_errmsg sub1\<rparr>"
    using run by (auto simp: submessage_payload_def Let_def os_error_def split: if_splits option.splits prod.splits)
  have "over_buffer ?sub" using s SIZE_LIMIT_pos by (simp add: over_buffer_def)
  then have "sub1 = put ?sub bs" using emits_success [OF f _ sub1] by blast
  then show ?thesis
    unfolding s' using s SIZE_LIMIT_pos by (cases s) (simp add: put_def over_buffer_def size_add_def mod_add_right_eq)
qed

lemma emits_submessage_payload:
  assumes "emits f True bs"
  shows "emits (\<lambda>s. if os_callback s = None then Some (pb_write s [] (length bs mod SIZE_LIMIT))
            else submessage_payload f (length bs mod SIZE_LIMIT) s) True bs"
  unfolding emits_def
proof (intro conjI allI impI)
  fix s assume fit: "fits s bs"
  show "\<exists>s'. (if os_callback s = None then Some (pb_write s [] (length bs mod SIZE_LIMIT))
            else submessage_payload f (length bs mod SIZE_LIMIT) s) = Some (True, s') \<and>
       (True \<longrightarrow> s' = put s bs) \<and> (buffered s \<longrightarrow> window s s')"
  proof (cases "os_callback s = None")
    case True
    moreover from this have "\<not> buffered s" by (simp add: buffered_def)
    ultimately show ?thesis by (simp add: pb_write_sizing_count put_def)
  next
    case False
    then have s: "os_errmsg s = None" "buffered s" "length bs \<le> room s"
      using fit by (auto simp: fits_def sizing_def)
    then have "length bs mod SIZE_LIMIT = length bs" using buffered_limit [OF s(2)] by simp
    then show ?thesis
      using False submessage_payload_fits [OF assms s] window_put [OF s(2,3)] by auto
  qed
next
  fix s assume tl: "too_long s bs"
  then have "os_callback s \<noteq> None" "length bs mod SIZE_LIMIT = length bs" "buffered s"
    by (auto simp: too_long_def buffered_def)
  then show "\<exists>s'. (if os_callback s = None then Some (pb_write s [] (length bs mod SIZE_LIMIT))
            else submessage_payload f (length bs mod SIZE_LIMIT) s) = Some (False, s') \<and> window s s'"
    using submessage_payload_too_long [OF tl, of f] by (auto simp: os_error_def)
next
  fix s s' assume "over_buffer s \<and> (if os_callback s = None then Some (pb_write s [] (length bs mod SIZE_LIMIT))
            else submessage_payload f (length bs mod SIZE_LIMIT) s) = Some (True, s')"
  then show True and "s' = put s bs"
    using submessage_payload_success [OF assms, of s s'] by (auto simp: over_buffer_def)
qed

lemma unat_size_word: "unat (word_of_nat (n mod SIZE_LIMIT) :: u64) = n mod SIZE_LIMIT"
proof (rule unat_word_of_nat)
  show "n mod SIZE_LIMIT < 2 ^ LENGTH(64)"
    using mod_less_divisor [OF SIZE_LIMIT_pos, of n] by (simp add: SIZE_LIMIT_def)
qed

lemma emits_submessage:
  assumes "emits (sub tbl src) True bs"
  shows "emits (pb_encode_submessage sub tbl src) True (leb128 (length bs mod SIZE_LIMIT) @ bs)"
proof -
  obtain ss where ss: "sub tbl src PB_OSTREAM_SIZING = Some (True, ss)"
    "os_bytes_written ss = length bs mod SIZE_LIMIT"
    using emits_sizing [OF assms] by auto
  have "emits (enc_ret (\<lambda>s. pb_encode_varint s (word_of_nat (length bs mod SIZE_LIMIT)))) True
      (leb128 (length bs mod SIZE_LIMIT))"
    using emits_varint [of "word_of_nat (length bs mod SIZE_LIMIT)"] by (simp only: unat_size_word)
  then show ?thesis
    unfolding pb_encode_submessage_alt [of sub tbl src, OF ss(1)] ss(2)
    by (rule emits_then [OF _ emits_submessage_payload [OF assms]])
qed

lemma emits_submessage_False:
  "emits (sub tbl src) False bs \<Longrightarrow> emits (pb_encode_submessage sub tbl src) False []"
  by (drule emits_sizing) (auto simp: emits_def pb_encode_submessage_def fits_def too_long_def)

lemma regular_submessage: "regular (sub tbl src) \<Longrightarrow> regular (pb_encode_submessage sub tbl src)"
  unfolding regular_def
proof (elim disjE exE)
  fix ok bs assume "emits (sub tbl src) ok bs"
  then show "(\<exists>ok bs. emits (pb_encode_submessage sub tbl src) ok bs) \<or> stuck (pb_encode_submessage sub tbl src)"
    using emits_submessage [of sub tbl src bs] emits_submessage_False [of sub tbl src bs] by (cases ok) auto
next
  assume "stuck (sub tbl src)"
  then have "stuck (pb_encode_submessage sub tbl src)"
    by (simp add: stuck_def pb_encode_submessage_def)
  then show "(\<exists>ok bs. emits (pb_encode_submessage sub tbl src) ok bs) \<or> stuck (pb_encode_submessage sub tbl src)" ..
qed

lemma regularI: "emits f ok bs \<Longrightarrow> regular f"
  by (auto simp: regular_def)

lemma regular_none [simp]: "regular enc_none"
  by (auto simp: regular_def stuck_def enc_none_def)

lemma regular_ok [simp]: "regular enc_ok"
  by (rule regularI [OF emits_ok])

lemma regular_fail [simp]: "regular (enc_fail msg)"
  by (rule regularI [OF emits_fail])

lemma regular_varint [simp]: "regular (enc_ret (\<lambda>s. pb_encode_varint s v))"
  by (rule regularI [OF emits_varint])

text \<open>The bytes of a tag and of a length-delimited value.\<close>

definition tag_bytes :: "pb_wire_type \<Rightarrow> u32 \<Rightarrow> u8 list" where
  "tag_bytes wt fn = leb128 (unat (push_bit 3 (ucast fn) OR ucast (wire_code wt) :: u64))"

lemma emits_tag: "emits (enc_ret (\<lambda>s. pb_encode_tag s wt fn)) True (tag_bytes wt fn)"
  unfolding pb_encode_tag_def tag_bytes_def by (rule emits_varint)

lemma regular_tag [simp]: "regular (enc_ret (\<lambda>s. pb_encode_tag s wt fn))"
  by (rule regularI [OF emits_tag])

lemma pb_encode_string_then:
  "enc_ret (\<lambda>s. pb_encode_string s bs n)
     = enc_then (enc_ret (\<lambda>s. pb_encode_varint s (word_of_nat n))) (enc_ret (\<lambda>s. pb_write s bs n))"
  by (rule ext) (auto simp: pb_encode_string_def enc_then_def enc_ret_def split: prod.splits bool.splits)

lemma unat_size_word_lt: "n < SIZE_LIMIT \<Longrightarrow> unat (word_of_nat n :: u64) = n"
  using unat_size_word [of n] by simp

lemma emits_string:
  assumes "length bs = n" "n < SIZE_LIMIT"
  shows "emits (enc_ret (\<lambda>s. pb_encode_string s bs n)) True (leb128 n @ bs)"
  unfolding pb_encode_string_then
proof (rule emits_then)
  show "emits (enc_ret (\<lambda>s. pb_encode_varint s (word_of_nat n))) True (leb128 n)"
    using emits_varint [of "word_of_nat n"] assms(2) by (simp only: unat_size_word_lt)
  show "emits (enc_ret (\<lambda>s. pb_write s bs n)) True bs"
    using emits_write [of bs] assms by simp
qed

lemma regular_string [simp]:
  "length bs = n \<Longrightarrow> n < SIZE_LIMIT \<Longrightarrow> regular (enc_ret (\<lambda>s. pb_encode_string s bs n))"
  by (rule regularI [OF emits_string])

lemma unat_u32_lt [simp]: "unat (w :: u32) < SIZE_LIMIT"
proof -
  have "unat w < 2 ^ LENGTH(32)" by (rule unsigned_less)
  also have "(2::nat) ^ LENGTH(32) \<le> SIZE_LIMIT" by (simp add: SIZE_LIMIT_def)
  finally show ?thesis .
qed

lemma strnlen_loop_le: "sz \<le> max_size \<Longrightarrow> strnlen_loop mem p sz max_size \<le> max_size"
proof (induction mem p sz max_size rule: strnlen_loop.induct)
  case (1 mem p sz max_size)
  then show ?case by (subst strnlen_loop.simps) auto
qed

lemma emits_fixed32: "emits (pb_enc_fixed32 mem f src) True (le_bytes 4 (load_u32 mem src))"
  unfolding pb_enc_fixed32_def pb_encode_fixed32_bytes
  using emits_write [of "le_bytes 4 (load_u32 mem src)"] by (simp add: SIZE_LIMIT_def del: le_bytes_numeral)

lemma emits_fixed64: "emits (pb_enc_fixed64 mem f src) True (le_bytes 8 (load_u64 mem src))"
  unfolding pb_enc_fixed64_def pb_encode_fixed64_bytes
  using emits_write [of "le_bytes 8 (load_u64 mem src)"] by (simp add: SIZE_LIMIT_def del: le_bytes_numeral)

lemma regular_scalars [simp]:
  "regular (pb_enc_bool mem f src)" "regular (pb_enc_varint mem f src)"
  "regular (pb_enc_uvarint mem f src)" "regular (pb_enc_svarint mem f src)"
  "regular (pb_enc_fixed32 mem f src)" "regular (pb_enc_fixed64 mem f src)"
  "regular (pb_enc_fixed_length_bytes mem f src)"
  by (auto simp: pb_enc_bool_def pb_enc_varint_def pb_enc_uvarint_def pb_enc_svarint_def
      pb_encode_svarint_def pb_enc_fixed_length_bytes_def split: option.splits
      intro: regularI [OF emits_fixed32] regularI [OF emits_fixed64])

lemma regular_enc_bytes [simp]: "regular (pb_enc_bytes mem f src)"
  by (auto simp: pb_enc_bytes_def Let_def)

lemma regular_enc_string [simp]: "regular (pb_enc_string mem f src)"
proof -
  let ?m = "if PB_ATYPE (fd_type f) = PB_ATYPE_POINTER then SIZE_LIMIT - 1 else unat (fd_data_size f)"
  have "?m < SIZE_LIMIT" using SIZE_LIMIT_pos by (auto simp: SIZE_LIMIT_def [symmetric])
  then have "(if src = 0 then 0 else strnlen_loop mem src 0 ?m) < SIZE_LIMIT"
    using strnlen_loop_le [of 0 ?m mem src] by (simp split del: if_split) (simp split: if_splits)
  then show ?thesis
    unfolding pb_enc_string_def Let_def by (intro regular_string) simp_all
qed

lemma regular_tag_for_field [simp]: "regular (pb_encode_tag_for_field f)"
  by (simp add: pb_encode_tag_for_field_def Let_def)

lemma regular_encoders:
  assumes "\<And>tbl src. regular (sub tbl src)"
  shows "regular (PB_ENCODERS env sub f src)"
  using regular_submessage [OF assms] by (simp add: PB_ENCODERS_def pb_enc_submessage_def Let_def)

lemma encoders_fixed:
  "PB_LTYPE (fd_type f) = PB_LTYPE_FIXED32 \<Longrightarrow>
     emits (PB_ENCODERS env sub f src) True (le_bytes 4 (load_u32 (env_mem env) src))"
  "PB_LTYPE (fd_type f) = PB_LTYPE_FIXED64 \<Longrightarrow>
     emits (PB_ENCODERS env sub f src) True (le_bytes 8 (load_u64 (env_mem env) src))"
  by (simp_all add: PB_ENCODERS_def emits_fixed32 emits_fixed64 del: le_bytes_numeral)

subsection \<open>Arrays\<close>

definition packed_size :: "(u64 \<Rightarrow> enc) \<Rightarrow> pb_field \<Rightarrow> u64 \<Rightarrow> nat \<Rightarrow> (bool \<times> nat) option" where
  "packed_size func f pData count =
     (if PB_LTYPE (fd_type f) = PB_LTYPE_FIXED32 then Some (True, size_mul 4 count)
      else if PB_LTYPE (fd_type f) = PB_LTYPE_FIXED64 then Some (True, size_mul 8 count)
      else (case enc_for func pData (ucast (fd_data_size f)) count PB_OSTREAM_SIZING of
              None \<Rightarrow> None
            | Some (ok, sizestream) \<Rightarrow> Some (ok, os_bytes_written sizestream)))"

lemma encode_array_packed_alt:
  "encode_array_packed func f pData count =
     enc_then (enc_ret (\<lambda>s. pb_encode_tag s PB_WT_STRING (fd_tag f)))
       (case packed_size func f pData count of
          None \<Rightarrow> enc_none
        | Some (ok, sz) \<Rightarrow>
            if \<not> ok then (\<lambda>s. Some (False, s))
            else enc_then (enc_ret (\<lambda>s. pb_encode_varint s (word_of_nat sz)))
              (\<lambda>s. if os_callback s = None then Some (pb_write s [] sz)
                   else enc_for func pData (ucast (fd_data_size f)) count s))"
  unfolding encode_array_packed_def packed_size_def [symmetric]
  by (rule arg_cong [where f = "enc_then _"], rule ext) (simp add: enc_none_def split: option.splits prod.splits)

lemma emits_packed:
  assumes "emits (enc_for func pData (ucast (fd_data_size f)) count) True payload"
    and "packed_size func f pData count = Some (True, length payload mod SIZE_LIMIT)"
  shows "emits (encode_array_packed func f pData count) True
           (tag_bytes PB_WT_STRING (fd_tag f) @ leb128 (length payload mod SIZE_LIMIT) @ payload)"
proof -
  have "emits (enc_ret (\<lambda>s. pb_encode_varint s (word_of_nat (length payload mod SIZE_LIMIT)))) True
      (leb128 (length payload mod SIZE_LIMIT))"
    using emits_varint [of "word_of_nat (length payload mod SIZE_LIMIT)"] by (simp only: unat_size_word)
  then show ?thesis
    unfolding encode_array_packed_alt assms(2)
    using emits_sizing_shortcut [OF assms(1) refl] by (simp add: emits_then emits_tag)
qed

lemma emits_for_length:
  assumes "\<And>p. \<exists>e. emits (func p) True e \<and> length e = k"
  shows "\<exists>payload. emits (enc_for func p step n) True payload \<and> length payload = k * n"
proof -
  obtain e where e: "\<And>p. emits (func p) True (e p) \<and> length (e p) = k"
    using assms by metis
  have "emits (enc_for func p step n) True (concat (map (\<lambda>i. e (p + of_nat i * step)) [0..<n]))"
    using e by (intro emits_for) simp
  moreover have "length (concat (map (\<lambda>i. e (p + of_nat i * step)) [0..<n])) = k * n"
    using e by (simp add: length_concat comp_def sum_list_triv)
  ultimately show ?thesis by blast
qed

lemma regular_packed:
  assumes func: "\<And>p. regular (func p)"
    and f32: "PB_LTYPE (fd_type f) = PB_LTYPE_FIXED32 \<Longrightarrow> (\<And>p. \<exists>e. emits (func p) True e \<and> length e = 4)"
    and f64: "PB_LTYPE (fd_type f) = PB_LTYPE_FIXED64 \<Longrightarrow> (\<And>p. \<exists>e. emits (func p) True e \<and> length e = 8)"
  shows "regular (encode_array_packed func f pData count)"
proof -
  let ?loop = "enc_for func pData (ucast (fd_data_size f)) count"
  consider payload where "emits ?loop True payload"
      "packed_size func f pData count = Some (True, length payload mod SIZE_LIMIT)"
    | sz where "packed_size func f pData count = Some (False, sz)"
    | "packed_size func f pData count = None"
  proof -
    consider "PB_LTYPE (fd_type f) = PB_LTYPE_FIXED32" | "PB_LTYPE (fd_type f) = PB_LTYPE_FIXED64"
      | "PB_LTYPE (fd_type f) \<noteq> PB_LTYPE_FIXED32 \<and> PB_LTYPE (fd_type f) \<noteq> PB_LTYPE_FIXED64" by blast
    then show ?thesis
    proof cases
      case 1
      then show ?thesis
        using that(1) emits_for_length [OF f32 [OF 1]] by (fastforce simp: packed_size_def size_mul_def)
    next
      case 2
      then show ?thesis
        using that(1) emits_for_length [OF f64 [OF 2]] by (fastforce simp: packed_size_def size_mul_def)
    next
      case 3
      have "regular ?loop" using func by (rule regular_for)
      then consider (e) ok bs where "emits ?loop ok bs" | (s) "stuck ?loop" by (auto simp: regular_def)
      then show ?thesis
      proof cases
        case e
        then show ?thesis
          using that(1,2) emits_sizing [OF e] 3 by (cases ok) (auto simp: packed_size_def)
      next
        case s
        then show ?thesis using that(3) 3 stuck_sizing [OF s] by (simp add: packed_size_def)
      qed
    qed
  qed
  then show ?thesis
  proof cases
    case 1
    then show ?thesis by (rule regularI [OF emits_packed])
  next
    case (2 sz)
    have "emits (\<lambda>s. Some (False, s)) False []"
      by (simp add: emits_def fits_def too_long_def)
    then show ?thesis
      unfolding encode_array_packed_alt 2 using regularI regular_then regular_tag by fastforce
  next
    case 3
    then show ?thesis unfolding encode_array_packed_alt by (simp add: regular_then)
  qed
qed

lemma regular_unpacked:
  "(\<And>p. regular (func p)) \<Longrightarrow> regular (encode_array_unpacked env func f pData count)"
  unfolding encode_array_unpacked_def by (intro regular_for regular_then) simp_all

lemma regular_array:
  assumes "\<And>tbl src. regular (sub tbl src)"
  shows "regular (encode_array env (PB_ENCODERS env sub f) f pData count)"
proof -
  have "regular (encode_array_packed (PB_ENCODERS env sub f) f pData count)"
  proof (rule regular_packed)
    show "regular (PB_ENCODERS env sub f p)" for p by (rule regular_encoders [OF assms])
    show "\<exists>e. emits (PB_ENCODERS env sub f p) True e \<and> length e = 4"
      if "PB_LTYPE (fd_type f) = PB_LTYPE_FIXED32" for p
      using encoders_fixed(1) [OF that] length_le_bytes by blast
    show "\<exists>e. emits (PB_ENCODERS env sub f p) True e \<and> length e = 8"
      if "PB_LTYPE (fd_type f) = PB_LTYPE_FIXED64" for p
      using encoders_fixed(2) [OF that] length_le_bytes by blast
  qed
  moreover have "regular (encode_array_unpacked env (PB_ENCODERS env sub f) f pData count)"
    by (intro regular_unpacked regular_encoders assms)
  ultimately show ?thesis by (simp add: encode_array_def)
qed

subsection \<open>Fields and messages\<close>

text \<open>
  What the encoder needs of the user's callbacks and extension handlers: they write the same bytes on
  every call, through \<open>pb_write\<close>, and report failure when the stream does.
\<close>

definition regular_env :: "enc_env \<Rightarrow> bool" where
  "regular_env env \<longleftrightarrow>
     (\<forall>fn f arg. \<exists>ok bs. emits (enc_ret (env_callback env fn f arg)) ok bs) \<and>
     (\<forall>fn extension. \<exists>ok bs. emits (enc_ret (env_extension env fn extension)) ok bs)"

lemma regular_if: "regular a \<Longrightarrow> regular b \<Longrightarrow> regular (if c then a else b)"
  by simp

lemma regular_case_option: "regular a \<Longrightarrow> (\<And>x. regular (b x)) \<Longrightarrow> regular (case c of None \<Rightarrow> a | Some x \<Rightarrow> b x)"
  by (cases c) simp_all

lemma regular_basic_field:
  assumes "\<And>tbl src. regular (sub tbl src)"
  shows "regular (encode_basic_field env n sub f pData)"
proof -
  have "regular (enc_then (pb_encode_tag_for_field f) (PB_ENCODERS env sub f p))" for p
    by (intro regular_then regular_tag_for_field regular_encoders assms)
  moreover have "regular (encode_array env (PB_ENCODERS env sub f) f p k)" for p k
    by (rule regular_array [OF assms])
  ultimately show ?thesis
    unfolding encode_basic_field_def Let_def
    by (intro regular_if regular_case_option regular_none regular_ok regular_fail)
qed

lemma emits_error:
  assumes "emits f ok bs"
  shows "emits (\<lambda>s. case f s of None \<Rightarrow> None
     | Some (ok, s') \<Rightarrow> if \<not> ok then Some (os_error s' msg) else Some (True, s')) ok bs"
  unfolding emits_def os_error_def
proof (intro conjI allI impI)
  fix s assume "fits s bs"
  then show "\<exists>s'. (case f s of None \<Rightarrow> None | Some (ok, s') \<Rightarrow> if \<not> ok then Some (False, s'\<lparr>os_errmsg :=
       (case os_errmsg s' of None \<Rightarrow> Some msg | Some m \<Rightarrow> Some m)\<rparr>) else Some (True, s')) = Some (ok, s') \<and>
       (ok \<longrightarrow> s' = put s bs) \<and> (buffered s \<longrightarrow> window s s')"
    using emits_fits [OF assms] by fastforce
next
  fix s assume "too_long s bs"
  then show "\<exists>s'. (case f s of None \<Rightarrow> None | Some (ok, s') \<Rightarrow> if \<not> ok then Some (False, s'\<lparr>os_errmsg :=
       (case os_errmsg s' of None \<Rightarrow> Some msg | Some m \<Rightarrow> Some m)\<rparr>) else Some (True, s')) = Some (False, s') \<and>
       window s s'"
    using emits_too_long [OF assms] by fastforce
next
  fix s s' assume "over_buffer s \<and> (case f s of None \<Rightarrow> None | Some (ok, s') \<Rightarrow> if \<not> ok then Some (False, s'\<lparr>os_errmsg :=
       (case os_errmsg s' of None \<Rightarrow> Some msg | Some m \<Rightarrow> Some m)\<rparr>) else Some (True, s')) = Some (True, s')"
  then have "over_buffer s" "f s = Some (True, s')" by (auto split: option.splits prod.splits if_splits)
  then show ok and "s' = put s bs" using emits_success [OF assms] by blast+
qed

lemma encode_callback_field_alt:
  "encode_callback_field env f pData =
     (if load_u64 (env_mem env) pData \<noteq> 0
      then (\<lambda>s. case enc_ret (env_callback env (load_u64 (env_mem env) pData) f (pData + 8)) s of
              None \<Rightarrow> None
            | Some (ok, s') \<Rightarrow> if \<not> ok then Some (os_error s' ''callback error'') else Some (True, s'))
      else enc_ok)"
  by (rule ext) (simp add: encode_callback_field_def enc_ret_def enc_ok_def Let_def)

lemma regular_callback_field: "regular_env env \<Longrightarrow> regular (encode_callback_field env f pData)"
  unfolding encode_callback_field_alt regular_env_def
  by (intro regular_if regular_ok) (blast intro: regularI [OF emits_error])

lemma regular_field:
  "regular_env env \<Longrightarrow> (\<And>tbl src. regular (sub tbl src)) \<Longrightarrow> regular (encode_field env n sub f pData)"
  by (simp add: encode_field_def Let_def regular_basic_field regular_callback_field)

lemma regular_extension_loop:
  assumes "regular_env env" "\<And>tbl src. regular (sub tbl src)"
  shows "regular (extension_loop env n sub k extension)"
proof (induction k arbitrary: extension)
  case (Suc k)
  have "regular (enc_ret (env_extension env fn extension))" for fn
    using assms(1) regularI unfolding regular_env_def by blast
  moreover have "regular (default_extension_encoder env n sub extension)"
    using regular_field [OF assms] by (simp add: default_extension_encoder_def Let_def)
  ultimately show ?case using Suc.IH by (simp add: Let_def regular_then)
qed simp

lemma iter_while_enc:
  "iter_while body it =
     enc_then (body it) (case pb_field_iter_next it of (False, _) \<Rightarrow> enc_ok | (True, it') \<Rightarrow> iter_while body it')"
  by (rule ext)
     (simp add: iter_while.simps [of body it] enc_then_def enc_ok_def split: option.splits prod.splits bool.splits)

lemma regular_iter_while:
  assumes "\<And>it. regular (body it)"
  shows "regular (iter_while body it)"
proof (induction "length (it_start it) - it_pos it" arbitrary: it rule: less_induct)
  case less
  obtain ok it' where nx: "pb_field_iter_next it = (ok, it')" by fastforce
  have "regular (iter_while body it')" if ok
    using pb_field_iter_next_pos [of it it'] nx that by (intro less) auto
  then have "regular (case pb_field_iter_next it of (False, _) \<Rightarrow> enc_ok | (True, it') \<Rightarrow> iter_while body it')"
    by (cases ok) (simp_all add: nx)
  then show ?case by (subst iter_while_enc) (rule regular_then [OF assms])
qed

lemma pb_encode_alt:
  "pb_encode env (Suc n) tbl src =
     (case pb_field_iter_begin tbl src of
        (False, _) \<Rightarrow> enc_ok
      | (True, it) \<Rightarrow> iter_while (\<lambda>it.
            if PB_LTYPE (fd_type (it_field it)) = PB_LTYPE_EXTENSION
            then encode_extension_field env n (pb_encode env n) (it_pData it)
            else encode_field env n (pb_encode env n) (it_field it) (it_pData it)) it)"
  by (rule ext) (simp add: enc_ok_def if_distribR [abs_def] split: prod.splits bool.splits)

lemma regular_pb_encode:
  assumes "regular_env env"
  shows "regular (pb_encode env n tbl src)"
proof (induction n arbitrary: tbl src)
  case 0
  have "pb_encode env 0 tbl src = enc_none" by (rule ext) (simp add: enc_none_def)
  then show ?case by simp
next
  case (Suc n)
  then show ?case
    unfolding pb_encode_alt
    by (auto split: prod.splits bool.splits intro!: regular_iter_while regular_field [OF assms]
        regular_extension_loop [OF assms] simp: encode_extension_field_def)
qed

lemma encoded_size_emits:
  assumes "regular_env env" "pb_get_encoded_size env n tbl src = Some (Some sz)"
  shows "\<exists>bs. emits (pb_encode env n tbl src) True bs \<and> sz = length bs mod SIZE_LIMIT"
proof -
  from regular_pb_encode [OF assms(1), of n tbl src]
  consider (e) ok bs where "emits (pb_encode env n tbl src) ok bs" | (s) "stuck (pb_encode env n tbl src)"
    by (auto simp: regular_def)
  then show ?thesis
  proof cases
    case e
    then show ?thesis
      using emits_sizing [OF e] assms(2) by (cases ok) (auto simp: pb_get_encoded_size_def)
  next
    case s
    then show ?thesis using stuck_sizing [OF s] assms(2) by (simp add: pb_get_encoded_size_def)
  qed
qed

text \<open>C10: the two passes over a message agree. When the callbacks are regular and the sizing pass of
  \<open>pb_get_encoded_size\<close> succeeds, there is one byte string, of the size it reports, that \<open>pb_encode\<close> writes to every buffer
  stream with room for it; on a stream with less room it fails without writing outside that room; and no call on a
  buffer stream reports success having written anything else.\<close>

theorem pb_encode_two_pass:
  assumes "regular_env env" "pb_get_encoded_size env n tbl src = Some (Some sz)"
  shows "\<exists>bs. sz = length bs mod SIZE_LIMIT \<and>
    (\<forall>s. buffered s \<and> os_errmsg s = None \<and> length bs \<le> room s \<longrightarrow>
         pb_encode env n tbl src s = Some (True, put s bs) \<and> window s (put s bs)) \<and>
    (\<forall>s. buffered s \<and> os_errmsg s = None \<and> room s < length bs \<and>
         os_bytes_written s + length bs < SIZE_LIMIT \<longrightarrow>
         (\<exists>s'. pb_encode env n tbl src s = Some (False, s') \<and> window s s')) \<and>
    (\<forall>s s'. over_buffer s \<and> pb_encode env n tbl src s = Some (True, s') \<longrightarrow> s' = put s bs)"
proof -
  obtain bs where bs: "emits (pb_encode env n tbl src) True bs" "sz = length bs mod SIZE_LIMIT"
    using encoded_size_emits [OF assms] by blast
  then show ?thesis
    using emits_success [OF bs(1)] emits_True [OF bs(1)] emits_too_long [OF bs(1)]
    by (intro exI [of _ bs]) (auto simp: fits_def too_long_def window_put)
qed

text \<open>C31: the delimited form is the length of the message as a varint and then the message: the second
  pass inside \<open>pb_encode_submessage\<close> never finds that the size has changed. It writes these bytes where there is room
  for them, and never reports success having written anything else.\<close>

theorem pb_encode_delimited_framing:
  assumes "regular_env env" "pb_get_encoded_size env n tbl src = Some (Some sz)"
  shows "\<exists>bs. sz = length bs mod SIZE_LIMIT \<and>
    (\<forall>s. buffered s \<and> os_errmsg s = None \<and> length (leb128 sz @ bs) \<le> room s \<longrightarrow>
         pb_encode_delimited env n tbl src s = Some (True, put s (leb128 sz @ bs)) \<and>
         pb_encode env n tbl src (put s (leb128 sz)) = Some (True, put s (leb128 sz @ bs))) \<and>
    (\<forall>s s'. over_buffer s \<and> pb_encode_delimited env n tbl src s = Some (True, s') \<longrightarrow> s' = put s (leb128 sz @ bs))"
proof -
  obtain bs where bs: "emits (pb_encode env n tbl src) True bs" "sz = length bs mod SIZE_LIMIT"
    using encoded_size_emits [OF assms] by blast
  have sub: "emits (pb_encode_delimited env n tbl src) True (leb128 sz @ bs)"
    unfolding pb_encode_delimited_def bs(2) by (rule emits_submessage [of "pb_encode env n" tbl src, OF bs(1)])
  show ?thesis
  proof (intro exI conjI allI impI)
    show "sz = length bs mod SIZE_LIMIT" by (rule bs(2))
    fix s assume "buffered s \<and> os_errmsg s = None \<and> length (leb128 sz @ bs) \<le> room s"
    then have fit: "fits s (leb128 sz @ bs)" by (simp add: fits_def)
    show "pb_encode_delimited env n tbl src s = Some (True, put s (leb128 sz @ bs))"
      by (rule emits_True [OF sub fit])
    show "pb_encode env n tbl src (put s (leb128 sz)) = Some (True, put s (leb128 sz @ bs))"
      using emits_True [OF bs(1) conjunct2 [OF fits_append [OF fit]]] by (simp add: put_append)
  next
    fix s s' assume "over_buffer s \<and> pb_encode_delimited env n tbl src s = Some (True, s')"
    then show "s' = put s (leb128 sz @ bs)" using emits_success [OF sub] by blast
  qed
qed

definition example_env :: enc_env where
  "example_env = \<lparr>env_mem = (\<lambda>a. if a = 0x1000 then 0x96 else if a = 0x1001 then 1 else 0),
     env_tabs = (\<lambda>_. example_table),
     env_callback = (\<lambda>_ _ _ s. pb_write s [0] 1), env_extension = (\<lambda>_ _ s. pb_write s [0] 1)\<rparr>"

lemma regular_example_env: "regular_env example_env"
proof -
  have "emits (enc_ret (\<lambda>s. pb_write s [0] 1)) True [0]"
    using emits_write [of "[0]"] by simp
  then show ?thesis by (auto simp: regular_env_def example_env_def)
qed

lemma example_size: "pb_get_encoded_size example_env 2 example_table 0x1000 = Some (Some 3)"
  by code_simp

definition example_stream :: "nat \<Rightarrow> pb_ostream" where
  "example_stream n = pb_ostream_from_buffer (replicate n 0) n"

lemma example_stream [simp]:
  "n < SIZE_LIMIT \<Longrightarrow> buffered (example_stream n)" "room (example_stream n) = n"
  "os_errmsg (example_stream n) = None"
  by (simp_all add: example_stream_def buffered_def pb_ostream_from_buffer_def room_def)

lemma example_stream_over [simp]: "n < SIZE_LIMIT \<Longrightarrow> over_buffer (example_stream n)"
  by (simp add: example_stream_def over_buffer_def pb_ostream_from_buffer_def)

text \<open>A successful run on the stream shows the bytes: what is put there stays in the buffer, or the stream has faulted.\<close>

lemma put_example_stream:
  assumes "\<not> sink_fault (os_state (put (example_stream n) bs))"
  shows "length bs \<le> n" "sink_buf (os_state (put (example_stream n) bs)) = bs @ replicate (n - length bs) 0"
proof -
  show le: "length bs \<le> n"
    using assms by (simp add: put_def example_stream_def pb_ostream_from_buffer_def buf_write_def)
  then show "sink_buf (os_state (put (example_stream n) bs)) = bs @ replicate (n - length bs) 0"
    by (simp add: put_def example_stream_def pb_ostream_from_buffer_def buf_write_def copy_bytes_splice)
qed

lemma example_run:
  "map_option (\<lambda>(ok, s). (ok, sink_buf (os_state s), sink_fault (os_state s)))
     (pb_encode example_env 2 example_table 0x1000 (example_stream 3)) = Some (True, [8, 0x96, 3], False)"
  by code_simp

lemma example_run_delimited:
  "map_option (\<lambda>(ok, s). (ok, sink_buf (os_state s), sink_fault (os_state s)))
     (pb_encode_delimited example_env 2 example_table 0x1000 (example_stream 4)) = Some (True, [3, 8, 0x96, 3], False)"
  by code_simp

theorem pb_encode_two_pass_witness:
  "pb_encode example_env 2 example_table 0x1000 (example_stream 3) = Some (True, put (example_stream 3) [8, 0x96, 3]) \<and>
   (\<exists>s'. pb_encode example_env 2 example_table 0x1000 (example_stream 2) = Some (False, s') \<and> window (example_stream 2) s')"
proof -
  let ?enc = "pb_encode example_env 2 example_table 0x1000"
  have lim: "2 < SIZE_LIMIT" "3 < SIZE_LIMIT" by (simp_all add: SIZE_LIMIT_def)
  obtain bs where size: "3 = length bs mod SIZE_LIMIT"
    and full: "\<forall>s. buffered s \<and> os_errmsg s = None \<and> room s < length bs \<and> os_bytes_written s + length bs < SIZE_LIMIT \<longrightarrow>
         (\<exists>s'. ?enc s = Some (False, s') \<and> window s s')"
    and put: "\<forall>s s'. over_buffer s \<and> ?enc s = Some (True, s') \<longrightarrow> s' = put s bs"
    using pb_encode_two_pass [OF regular_example_env example_size] by blast
  obtain s' where run: "?enc (example_stream 3) = Some (True, s')"
    and out: "sink_buf (os_state s') = [8, 0x96, 3]" "\<not> sink_fault (os_state s')"
    using example_run by auto
  have s': "s' = put (example_stream 3) bs" using put run lim by simp
  have le: "length bs \<le> 3" using put_example_stream [of 3 bs] out(2) unfolding s' by simp
  then have "length bs = 3" using size lim by simp
  then have "bs = [8, 0x96, 3]" using put_example_stream [of 3 bs] out unfolding s' by simp
  moreover have "os_bytes_written (example_stream 2) = 0" by (simp add: example_stream_def pb_ostream_from_buffer_def)
  moreover from this have "\<exists>s'. ?enc (example_stream 2) = Some (False, s') \<and> window (example_stream 2) s'"
    using full lim \<open>length bs = 3\<close> by simp
  ultimately show ?thesis using run s' by simp
qed

theorem pb_encode_delimited_framing_witness:
  "pb_encode_delimited example_env 2 example_table 0x1000 (example_stream 4)
     = Some (True, put (example_stream 4) (leb128 3 @ [8, 0x96, 3]))"
proof -
  let ?enc = "pb_encode_delimited example_env 2 example_table 0x1000"
  have lim: "4 < SIZE_LIMIT" by (simp add: SIZE_LIMIT_def)
  have l3: "leb128 3 = [3]" by (simp add: leb128.simps)
  obtain bs where put: "\<forall>s s'. over_buffer s \<and> ?enc s = Some (True, s') \<longrightarrow> s' = put s (leb128 3 @ bs)"
      and size: "3 = length bs mod SIZE_LIMIT"
    using pb_encode_delimited_framing [OF regular_example_env example_size] by blast
  obtain s' where run: "?enc (example_stream 4) = Some (True, s')"
    and out: "sink_buf (os_state s') = [3, 8, 0x96, 3]" "\<not> sink_fault (os_state s')"
    using example_run_delimited by auto
  have s': "s' = put (example_stream 4) (3 # bs)" using put run lim by (simp add: l3)
  have le: "length bs \<le> 3" using put_example_stream [of 4 "3 # bs"] out(2) unfolding s' by simp
  then have "length bs = 3" using size lim by simp
  then have "bs = [8, 0x96, 3]" using put_example_stream [of 4 "3 # bs"] out unfolding s' by simp
  then show ?thesis using run s' by (simp add: l3)
qed

subsection \<open>The bytes of scalars and packed arrays\<close>

lemma emits_uvarint:
  assumes "PB_LTYPE (fd_type f) = PB_LTYPE_UVARINT" "fd_data_size f = 4"
  shows "emits (PB_ENCODERS env sub f p) True (leb128 (unat (load_u32 (env_mem env) p)))"
proof -
  have "unat (ucast (load_u32 (env_mem env) p) :: u64) = unat (load_u32 (env_mem env) p)"
    by (rule unat_ucast_up) simp
  moreover have "PB_ENCODERS env sub f p = enc_ret (\<lambda>s. pb_encode_varint s (ucast (load_u32 (env_mem env) p)))"
    using assms by (simp add: PB_ENCODERS_def pb_enc_uvarint_def load_unsigned_def)
  ultimately show ?thesis
    using emits_varint [of "ucast (load_u32 (env_mem env) p)"] by (simp only:)
qed

text \<open>The payload of a packed array of \<open>count\<close> 32-bit unsigned integers at \<open>p\<close>.\<close>

definition packed_u32 :: "memory \<Rightarrow> u64 \<Rightarrow> nat \<Rightarrow> u8 list" where
  "packed_u32 mem p count = concat (map (\<lambda>i. leb128 (unat (load_u32 mem (p + of_nat i * 4)))) [0..<count])"

lemma length_concat_le: "(\<And>x. x \<in> set xs \<Longrightarrow> length x \<le> k) \<Longrightarrow> length (concat xs) \<le> k * length xs"
  by (induction xs) (fastforce simp: algebra_simps)+

lemma length_packed_u32: "length (packed_u32 mem p count) \<le> 5 * count"
proof -
  have "length (leb128 (unat (w :: u32))) \<le> 5" for w
    using unsigned_less [of w, where ?'a = nat] length_leb128 [of "unat w" 4] by simp
  then show ?thesis
    unfolding packed_u32_def using length_concat_le [of "map (\<lambda>i. leb128 (unat (load_u32 mem (p + of_nat i * 4)))) [0..<count]" 5]
    by auto
qed

text \<open>C32: a repeated 32-bit unsigned field is written as one length-delimited block: the tag, the number
  of payload bytes, and the varints of the elements in order. A count beyond the array is refused before
  anything is written.\<close>

theorem encode_array_packed_bytes:
  assumes f: "PB_LTYPE (fd_type f) = PB_LTYPE_UVARINT" "fd_data_size f = 4"
    and st: "PB_ATYPE (fd_type f) = PB_ATYPE_STATIC" and count: "0 < count" "count < 2 ^ 32"
  shows "(count \<le> unat (fd_array_size f) \<and>
          fits s (tag_bytes PB_WT_STRING (fd_tag f) @ leb128 (length (packed_u32 (env_mem env) p count))
                  @ packed_u32 (env_mem env) p count) \<longrightarrow>
            encode_array env (PB_ENCODERS env sub f) f p count s
              = Some (True, put s (tag_bytes PB_WT_STRING (fd_tag f)
                  @ leb128 (length (packed_u32 (env_mem env) p count)) @ packed_u32 (env_mem env) p count)))
       \<and> (count > unat (fd_array_size f) \<longrightarrow>
            encode_array env (PB_ENCODERS env sub f) f p count s
              = Some (os_error s ''array max size exceeded''))"
proof -
  let ?func = "PB_ENCODERS env sub f" and ?pl = "packed_u32 (env_mem env) p count"
  have len: "length ?pl mod SIZE_LIMIT = length ?pl"
    using length_packed_u32 [of "env_mem env" p count] count(2) by (simp add: SIZE_LIMIT_def)
  have loop: "emits (enc_for ?func p (ucast (fd_data_size f)) count) True ?pl"
    unfolding packed_u32_def f(2) using emits_uvarint [OF f]
    by (intro emits_for) simp
  have "packed_size ?func f p count = Some (True, length ?pl mod SIZE_LIMIT)"
    using emits_sizing [OF loop] f(1) by (auto simp: packed_size_def)
  then have "emits (encode_array_packed ?func f p count) True
      (tag_bytes PB_WT_STRING (fd_tag f) @ leb128 (length ?pl) @ ?pl)"
    using emits_packed [OF loop] len by simp
  moreover have "encode_array env ?func f p count
      = (if count \<le> unat (fd_array_size f) then encode_array_packed ?func f p count
         else enc_fail ''array max size exceeded'')"
    using f(1) st count(1) by (simp add: encode_array_def)
  ultimately show ?thesis
    using emits_True by (auto simp: enc_fail_def)
qed

definition example_array_field :: pb_field where
  "example_array_field = \<lparr>fd_tag = 2, fd_type = 0x22, fd_data_offset = 0, fd_size_offset = 0,
     fd_data_size = 4, fd_array_size = 2, fd_ptr = 0\<rparr>"

theorem encode_array_packed_bytes_witness:
  "encode_array example_env (PB_ENCODERS example_env (\<lambda>_ _. enc_ok) example_array_field) example_array_field
     0x1000 2 PB_OSTREAM_SIZING
     = Some (True, put PB_OSTREAM_SIZING (tag_bytes PB_WT_STRING 2 @
         leb128 (length (packed_u32 (env_mem example_env) 0x1000 2)) @ packed_u32 (env_mem example_env) 0x1000 2)) \<and>
   length (packed_u32 (env_mem example_env) 0x1000 2) = 3"
proof
  show "length (packed_u32 (env_mem example_env) 0x1000 2) = 3" by code_simp
qed (use encode_array_packed_bytes [of example_array_field 2 PB_OSTREAM_SIZING example_env "0x1000" "\<lambda>_ _. enc_ok"]
  in \<open>simp add: example_array_field_def PB_LTYPE_def PB_ATYPE_def fits_def\<close>)

end
