(* ===== verification/Mem.thy ===== *)
theory Mem
  imports C_Prelude
begin

text \<open>
  Memory and C strings of BoringSSL (\<open>crypto/mem.c\<close>). The C library's \<open>malloc\<close> is a parameter: for a
  size, the bytes of a fresh block, or \<open>None\<close>. A block from \<open>OPENSSL_malloc\<close> is the whole underlying
  block: eight bytes that hold its size, then the bytes the caller sees. A string is the list of the
  bytes from its pointer on; reading past the end of the list reads 0.
\<close>

type_synonym allocator = "nat \<Rightarrow> u8 list option"

definition OPENSSL_MALLOC_PREFIX :: nat where
  "OPENSSL_MALLOC_PREFIX = 8"

text \<open>\<open>*(size_t *)ptr = size\<close>; a byte of the prefix that does not fit the block is lost here.\<close>

definition OPENSSL_malloc :: "allocator \<Rightarrow> nat \<Rightarrow> u8 list option" where
  "OPENSSL_malloc malloc sz =
     (case malloc (size_add sz OPENSSL_MALLOC_PREFIX) of
        None \<Rightarrow> None
      | Some raw \<Rightarrow> Some (copy_bytes raw 0 (le_bytes 8 (word_of_nat sz :: u64))))"

definition user_bytes :: "u8 list \<Rightarrow> u8 list" where
  "user_bytes block = drop OPENSSL_MALLOC_PREFIX block"

definition block_size :: "u8 list \<Rightarrow> nat" where
  "block_size block = unat (le_word (take OPENSSL_MALLOC_PREFIX block) :: u64)"

text \<open>The contents of the underlying block when it is handed back to the C library.\<close>

definition OPENSSL_cleanse :: "u8 list \<Rightarrow> nat \<Rightarrow> u8 list" where
  "OPENSSL_cleanse buf len = copy_bytes buf 0 (replicate len 0)"

definition OPENSSL_free :: "u8 list option \<Rightarrow> u8 list option" where
  "OPENSSL_free ptr =
     (case ptr of None \<Rightarrow> None
      | Some block \<Rightarrow> Some (OPENSSL_cleanse block (size_add (block_size block) OPENSSL_MALLOC_PREFIX)))"

text \<open>(the new block, the released contents of the old one); on failure the old block stays.\<close>

definition OPENSSL_realloc ::
  "allocator \<Rightarrow> u8 list option \<Rightarrow> nat \<Rightarrow> u8 list option \<times> u8 list option" where
  "OPENSSL_realloc malloc orig new_size =
     (case orig of
        None \<Rightarrow> (OPENSSL_malloc malloc new_size, None)
      | Some block \<Rightarrow>
          (let old_size = block_size block in
           case OPENSSL_malloc malloc new_size of
             None \<Rightarrow> (None, None)
           | Some ret \<Rightarrow>
               (let to_copy = (if old_size < new_size then old_size else new_size) in
                (Some (copy_bytes ret OPENSSL_MALLOC_PREFIX (take to_copy (user_bytes block))),
                 OPENSSL_free (Some block)))))"

fun memcmp_loop :: "u8 \<Rightarrow> u8 list \<Rightarrow> u8 list \<Rightarrow> u8" where
  "memcmp_loop x (a # as) (b # bs) = memcmp_loop (x OR (a XOR b)) as bs"
| "memcmp_loop x _ _ = x"

definition CRYPTO_memcmp :: "u8 list \<Rightarrow> u8 list \<Rightarrow> nat \<Rightarrow> int" where
  "CRYPTO_memcmp a b len = uint (memcmp_loop 0 (take len a) (take len b))"

definition OPENSSL_hash32 :: "u8 list \<Rightarrow> u32" where
  "OPENSSL_hash32 bs = foldl (\<lambda>h b. (h XOR ucast b) * 16777619) 2166136261 bs"

fun OPENSSL_strnlen :: "u8 list \<Rightarrow> nat \<Rightarrow> nat" where
  "OPENSSL_strnlen s 0 = 0"
| "OPENSSL_strnlen [] (Suc len) = 0"
| "OPENSSL_strnlen (c # s) (Suc len) = (if c = 0 then 0 else Suc (OPENSSL_strnlen s len))"

definition c_strlen :: "u8 list \<Rightarrow> nat" where
  "c_strlen s = length (takeWhile (\<lambda>c. c \<noteq> 0) s)"

definition OPENSSL_strdup :: "allocator \<Rightarrow> u8 list option \<Rightarrow> u8 list option" where
  "OPENSSL_strdup malloc s =
     (case s of None \<Rightarrow> None
      | Some str \<Rightarrow>
          (let len = size_add (c_strlen str) 1 in
           case OPENSSL_malloc malloc len of
             None \<Rightarrow> None
           | Some ret \<Rightarrow> Some (copy_bytes ret OPENSSL_MALLOC_PREFIX (bytes_at str 0 len))))"

definition OPENSSL_strndup :: "allocator \<Rightarrow> u8 list option \<Rightarrow> nat \<Rightarrow> u8 list option" where
  "OPENSSL_strndup malloc s sz =
     (case s of None \<Rightarrow> None
      | Some str \<Rightarrow>
          (let n = OPENSSL_strnlen str sz;
               alloc_size = size_add n 1
           in if alloc_size < n then None
              else case OPENSSL_malloc malloc alloc_size of
                None \<Rightarrow> None
              | Some ret \<Rightarrow> Some (copy_bytes ret OPENSSL_MALLOC_PREFIX (take n str @ [0]))))"

definition OPENSSL_memdup :: "allocator \<Rightarrow> u8 list \<Rightarrow> u8 list option" where
  "OPENSSL_memdup malloc data =
     (if length data = 0 then None
      else case OPENSSL_malloc malloc (length data) of
        None \<Rightarrow> None
      | Some ret \<Rightarrow> Some (copy_bytes ret OPENSSL_MALLOC_PREFIX data))"

text \<open>\<open>char\<close> is signed on the targets of the application.\<close>

definition OPENSSL_tolower :: "int \<Rightarrow> int" where
  "OPENSSL_tolower c = (if 65 \<le> c \<and> c \<le> 90 then c + (97 - 65) else c)"

definition char_at :: "u8 list \<Rightarrow> int" where
  "char_at s = (case s of [] \<Rightarrow> 0 | c # _ \<Rightarrow> sint c)"

function OPENSSL_strcasecmp :: "u8 list \<Rightarrow> u8 list \<Rightarrow> int" where
  "OPENSSL_strcasecmp a b =
     (let aa = OPENSSL_tolower (char_at a); bb = OPENSSL_tolower (char_at b) in
      if aa < bb then - 1 else if aa > bb then 1 else if aa = 0 then 0
      else OPENSSL_strcasecmp (tl a) (tl b))"
  by pat_completeness auto
termination
  by (relation "measure (\<lambda>(a, _). length a)")
     (auto simp: char_at_def OPENSSL_tolower_def neq_Nil_conv split: list.splits if_splits)

declare OPENSSL_strcasecmp.simps [simp del]

fun OPENSSL_strncasecmp :: "u8 list \<Rightarrow> u8 list \<Rightarrow> nat \<Rightarrow> int" where
  "OPENSSL_strncasecmp a b 0 = 0"
| "OPENSSL_strncasecmp a b (Suc n) =
     (let aa = OPENSSL_tolower (char_at a); bb = OPENSSL_tolower (char_at b) in
      if aa < bb then - 1 else if aa > bb then 1 else if aa = 0 then 0
      else OPENSSL_strncasecmp (tl a) (tl b) n)"

text \<open>(destination, index, room left, count copied, rest of the source) after the copying loop.\<close>

fun strlcpy_loop :: "u8 list \<Rightarrow> nat \<Rightarrow> nat \<Rightarrow> nat \<Rightarrow> u8 list \<Rightarrow> u8 list \<times> nat \<times> nat \<times> nat \<times> u8 list" where
  "strlcpy_loop dst i dst_size l [] = (dst, i, dst_size, l, [])"
| "strlcpy_loop dst i dst_size l (c # src) =
     (if dst_size > 1 \<and> c \<noteq> 0 then strlcpy_loop (dst[i := c]) (Suc i) (dst_size - 1) (Suc l) src
      else (dst, i, dst_size, l, c # src))"

text \<open>\<open>off\<close> is the offset of the destination pointer in its buffer.\<close>

definition OPENSSL_strlcpy :: "u8 list \<Rightarrow> nat \<Rightarrow> u8 list \<Rightarrow> nat \<Rightarrow> u8 list \<times> nat" where
  "OPENSSL_strlcpy dst off src dst_size =
     (case strlcpy_loop dst off dst_size 0 src of (dst', i, sz, l, src') \<Rightarrow>
        ((if sz \<noteq> 0 then dst'[i := 0] else dst'), l + c_strlen src'))"

fun strlcat_loop :: "u8 list \<Rightarrow> nat \<Rightarrow> nat" where
  "strlcat_loop [] dst_size = 0"
| "strlcat_loop (c # dst) dst_size = (if dst_size > 0 \<and> c \<noteq> 0 then Suc (strlcat_loop dst (dst_size - 1)) else 0)"

definition OPENSSL_strlcat :: "u8 list \<Rightarrow> u8 list \<Rightarrow> nat \<Rightarrow> u8 list \<times> nat" where
  "OPENSSL_strlcat dst src dst_size =
     (let l = strlcat_loop dst dst_size in
      case OPENSSL_strlcpy dst l src (dst_size - l) of (dst', n) \<Rightarrow> (dst', l + n))"

subsection \<open>Blocks\<close>

text \<open>What the C library promises: a block of the size asked for.\<close>

definition malloc_ok :: "allocator \<Rightarrow> bool" where
  "malloc_ok malloc \<longleftrightarrow> (\<forall>n raw. malloc n = Some raw \<longrightarrow> length raw = n)"

definition wf_block :: "u8 list \<Rightarrow> bool" where
  "wf_block block \<longleftrightarrow> length block = block_size block + OPENSSL_MALLOC_PREFIX \<and> length block < SIZE_LIMIT"

lemma length_user_bytes: "wf_block block \<Longrightarrow> length (user_bytes block) = block_size block"
  by (simp add: wf_block_def user_bytes_def)

lemma OPENSSL_malloc_block:
  assumes "malloc_ok malloc" "sz + 8 < SIZE_LIMIT" "OPENSSL_malloc malloc sz = Some block"
  shows "wf_block block" "block_size block = sz"
proof -
  obtain raw where raw: "malloc (sz + 8) = Some raw" "block = copy_bytes raw 0 (le_bytes 8 (word_of_nat sz :: u64))"
    using assms(2,3) by (auto simp: OPENSSL_malloc_def OPENSSL_MALLOC_PREFIX_def size_add_exact split: option.splits)
  have len: "length raw = sz + 8" using assms(1) raw(1) by (simp add: malloc_ok_def)
  have "take 8 block = le_bytes 8 (word_of_nat sz :: u64)"
    using copy_bytes_splice [of 0 "le_bytes 8 (word_of_nat sz :: u64)" raw] len
    by (simp add: raw(2) del: le_bytes_numeral)
  moreover have "take_bit 64 (word_of_nat sz :: u64) = word_of_nat sz"
    by (rule take_bit_word_eq_self) simp
  moreover have "sz < 2 ^ LENGTH(64)" using assms(2) by (simp add: SIZE_LIMIT_def)
  ultimately show bs: "block_size block = sz"
    using le_word_le_bytes [of 8 "word_of_nat sz :: u64"]
    by (simp only: block_size_def OPENSSL_MALLOC_PREFIX_def unat_word_of_nat)
       (simp add: unat_word_of_nat del: le_bytes_numeral)
  show "wf_block block"
    using len assms(2) bs by (simp add: wf_block_def raw(2) OPENSSL_MALLOC_PREFIX_def)
qed

lemma block_size_prefix: "take 8 block = take 8 block' \<Longrightarrow> block_size block = block_size block'"
  by (simp add: block_size_def OPENSSL_MALLOC_PREFIX_def)

lemma OPENSSL_cleanse_all: "OPENSSL_cleanse buf (length buf) = replicate (length buf) 0"
  by (simp add: OPENSSL_cleanse_def copy_bytes_splice)

text \<open>Reallocation keeps the bytes that fit the new size, records the new size in front of them, and
  clears every byte of the old block, its size included, before releasing it; when the allocation
  fails nothing is released.\<close>

theorem OPENSSL_realloc_preserves:
  assumes "malloc_ok malloc" "wf_block block" "new_size + 8 < SIZE_LIMIT"
  shows "(\<exists>block'. OPENSSL_realloc malloc (Some block) new_size
            = (Some block', Some (replicate (length block) 0)) \<and>
            wf_block block' \<and> block_size block' = new_size \<and>
            take (min (block_size block) new_size) (user_bytes block')
              = take (min (block_size block) new_size) (user_bytes block))
       \<or> malloc (new_size + 8) = None \<and> OPENSSL_realloc malloc (Some block) new_size = (None, None)"
proof (cases "OPENSSL_malloc malloc new_size")
  case None
  then show ?thesis
    using assms(3) by (auto simp: OPENSSL_realloc_def OPENSSL_malloc_def OPENSSL_MALLOC_PREFIX_def size_add_exact
        split: option.splits)
next
  case (Some ret)
  note new = OPENSSL_malloc_block [OF assms(1,3) Some]
  let ?n = "min (block_size block) new_size"
  let ?kept = "take ?n (user_bytes block)"
  let ?block' = "copy_bytes ret 8 ?kept"
  have lens: "length ret = new_size + 8" "length block = block_size block + 8"
    using new assms(2) by (simp_all add: wf_block_def OPENSSL_MALLOC_PREFIX_def)
  have klen: "length ?kept = ?n"
    using length_user_bytes [OF assms(2)] by simp
  have spl: "?block' = take 8 ret @ ?kept @ drop (8 + ?n) ret"
    using lens(1) klen by (subst copy_bytes_splice) simp_all
  have "take 8 ?block' = take 8 ret" unfolding spl using lens(1) by simp
  then have "block_size ?block' = new_size"
    using block_size_prefix [of ?block' ret] new(2) by simp
  moreover from this have "wf_block ?block'"
    using lens(1) assms(3) by (simp add: wf_block_def OPENSSL_MALLOC_PREFIX_def)
  moreover have ub: "drop 8 ?block' = ?kept @ drop (8 + ?n) ret"
    unfolding spl using lens(1) by simp
  moreover have "take ?n (user_bytes ?block') = ?kept"
    by (simp only: user_bytes_def [of ?block'] OPENSSL_MALLOC_PREFIX_def ub) (use klen in simp)
  moreover have "OPENSSL_free (Some block) = Some (replicate (length block) 0)"
    using OPENSSL_cleanse_all [of block] lens(2) assms(2)
    by (simp add: OPENSSL_free_def OPENSSL_MALLOC_PREFIX_def wf_block_def size_add_exact)
  moreover have "OPENSSL_realloc malloc (Some block) new_size = (Some ?block', OPENSSL_free (Some block))"
    by (simp add: OPENSSL_realloc_def Some OPENSSL_MALLOC_PREFIX_def min_def Let_def)
  ultimately show ?thesis by (intro disjI1 exI [of _ ?block']) simp
qed

definition example_block :: "u8 list" where
  "example_block = [3, 0, 0, 0, 0, 0, 0, 0, 7, 8, 9]"

lemma example_block_wf: "block_size example_block = 3" "wf_block example_block"
    "take 2 (user_bytes example_block) = [7, 8]" "length example_block = 11"
proof -
  show sz: "block_size example_block = 3" by code_simp
  show "take 2 (user_bytes example_block) = [7, 8]" by code_simp
  show len: "length example_block = 11" by code_simp
  show "wf_block example_block" by (simp add: wf_block_def sz len OPENSSL_MALLOC_PREFIX_def SIZE_LIMIT_def)
qed

theorem OPENSSL_realloc_preserves_witness:
  "\<exists>block'. OPENSSL_realloc (\<lambda>n. Some (replicate n 0xFF)) (Some example_block) 2
     = (Some block', Some (replicate 11 0)) \<and> take 2 (user_bytes block') = [7, 8]"
  using OPENSSL_realloc_preserves [of "\<lambda>n. Some (replicate n 0xFF)" example_block 2]
    example_block_wf
  by (auto simp: malloc_ok_def SIZE_LIMIT_def)

text \<open>A size close to the largest \<open>size_t\<close> wraps around and a block of a few bytes is returned for it.\<close>

lemma OPENSSL_malloc_wraps:
  "OPENSSL_malloc (\<lambda>n. Some (replicate n 0xFF)) (SIZE_LIMIT - 1) = Some (replicate 7 0xFF)"
proof -
  have "size_add (SIZE_LIMIT - 1) 8 = 7" by (simp add: size_add_def SIZE_LIMIT_def)
  moreover have "(word_of_nat (SIZE_LIMIT - 1) :: u64) = - 1" by (simp add: SIZE_LIMIT_def)
  moreover have "copy_bytes (replicate 7 0xFF) 0 (le_bytes 8 (- 1 :: u64)) = replicate 7 0xFF" by code_simp
  ultimately show ?thesis
    by (simp only: OPENSSL_malloc_def OPENSSL_MALLOC_PREFIX_def option.case)
qed

subsection \<open>Comparison\<close>

lemma word_or_eq_0: "(x OR y = 0) = (x = 0 \<and> y = (0 :: 'a::len word))"
  by (auto simp: bit_eq_iff bit_or_iff)

lemma word_xor_eq_0: "(x XOR y = 0) = (x = (y :: 'a::len word))"
  by (metis xor.assoc xor.left_neutral xor.right_neutral xor_self_eq)

lemma memcmp_loop_0:
  "length as = length bs \<Longrightarrow> memcmp_loop x as bs = 0 \<longleftrightarrow> x = 0 \<and> as = bs"
proof (induction x as bs rule: memcmp_loop.induct)
  case (1 x a as b bs)
  then show ?case by (auto simp: word_or_eq_0 word_xor_eq_0)
qed auto

text \<open>The constant-time comparison returns 0 exactly when the two strings agree.\<close>

theorem CRYPTO_memcmp_iff:
  assumes "len \<le> length a" "len \<le> length b"
  shows "CRYPTO_memcmp a b len = 0 \<longleftrightarrow> take len a = take len b"
  using memcmp_loop_0 [of "take len a" "take len b" 0] assms by (simp add: CRYPTO_memcmp_def uint_0_iff)

theorem CRYPTO_memcmp_iff_witness:
  "CRYPTO_memcmp [1, 2, 3] [1, 2, 4] 2 = 0 \<and> CRYPTO_memcmp [1, 2, 3] [1, 2, 4] 3 \<noteq> 0"
  using CRYPTO_memcmp_iff [of 2 "[1, 2, 3]" "[1, 2, 4]"] CRYPTO_memcmp_iff [of 3 "[1, 2, 3]" "[1, 2, 4]"]
  by simp

text \<open>Case-insensitive comparison: the bytes up to the terminator, lowered.\<close>

definition lowered :: "u8 list \<Rightarrow> int list" where
  "lowered s = map (\<lambda>c. OPENSSL_tolower (sint c)) (takeWhile (\<lambda>c. c \<noteq> 0) s)"

lemma tolower_0: "OPENSSL_tolower c = 0 \<longleftrightarrow> c = 0"
  by (simp add: OPENSSL_tolower_def)

lemma lowered_Cons: "lowered (c # s) = (if c = 0 then [] else OPENSSL_tolower (sint c) # lowered s)"
  by (simp add: lowered_def)

lemma lowered_head:
  "OPENSSL_tolower (char_at s) = (case lowered s of [] \<Rightarrow> 0 | c # _ \<Rightarrow> c)"
  by (cases s) (simp_all add: char_at_def lowered_Cons lowered_def OPENSSL_tolower_def)

lemma lowered_not_0: "0 \<notin> set (lowered s)"
  by (auto simp: lowered_def tolower_0 dest: set_takeWhileD) (metis (mono_tags) set_takeWhileD signed_0 signed_word_eqI)

lemma lowered_tl:
  "OPENSSL_tolower (char_at s) \<noteq> 0 \<Longrightarrow> lowered (tl s) = tl (lowered s)"
  by (cases s) (auto simp: char_at_def lowered_Cons OPENSSL_tolower_def)

fun int_list_cmp :: "int list \<Rightarrow> int list \<Rightarrow> int" where
  "int_list_cmp [] [] = 0"
| "int_list_cmp [] (b # bs) = (if 0 < b then - 1 else 1)"
| "int_list_cmp (a # as) [] = (if a < 0 then - 1 else 1)"
| "int_list_cmp (a # as) (b # bs) = (if a < b then - 1 else if a > b then 1 else int_list_cmp as bs)"

lemma strcasecmp_lowered: "OPENSSL_strcasecmp a b = int_list_cmp (lowered a) (lowered b)"
proof (induction a b rule: OPENSSL_strcasecmp.induct)
  case (1 a b)
  then show ?case
    using lowered_tl [of a] lowered_tl [of b] lowered_not_0 [of a] lowered_not_0 [of b]
    by (subst OPENSSL_strcasecmp.simps)
       (cases "lowered a"; cases "lowered b"; simp add: lowered_head Let_def; linarith?)
qed

lemma int_list_cmp_eq: "0 \<notin> set as \<Longrightarrow> 0 \<notin> set bs \<Longrightarrow> int_list_cmp as bs = 0 \<longleftrightarrow> as = bs"
  by (induction as bs rule: int_list_cmp.induct) auto

lemma int_list_cmp_swap: "0 \<notin> set as \<Longrightarrow> 0 \<notin> set bs \<Longrightarrow> int_list_cmp bs as = - int_list_cmp as bs"
  by (induction as bs rule: int_list_cmp.induct) auto

text \<open>\<open>OPENSSL_strcasecmp\<close> returns 0 exactly for strings that agree up to the case of ASCII letters, and
  exchanging its arguments negates the result.\<close>

theorem OPENSSL_strcasecmp_order:
  "(OPENSSL_strcasecmp a b = 0 \<longleftrightarrow> lowered a = lowered b) \<and>
   OPENSSL_strcasecmp b a = - OPENSSL_strcasecmp a b"
  using lowered_not_0 by (simp add: strcasecmp_lowered int_list_cmp_eq int_list_cmp_swap [of "lowered a"])

subsection \<open>String copies\<close>

lemma strlcpy_loop_spec:
  "0 < n \<Longrightarrow> off + n \<le> length dst \<Longrightarrow>
   strlcpy_loop dst off n l src =
     (let k = min (n - 1) (c_strlen src) in
      (take off dst @ take k src @ drop (off + k) dst, off + k, n - k, l + k, drop k src))"
proof (induction dst off n l src rule: strlcpy_loop.induct)
  case (2 dst off n l c src)
  show ?case
  proof (cases "n > 1 \<and> c \<noteq> 0")
    case True
    let ?k = "min (n - 1 - 1) (c_strlen src)"
    have len: "c_strlen (c # src) = Suc (c_strlen src)" using True by (simp add: c_strlen_def)
    have k: "min (n - 1) (c_strlen (c # src)) = Suc ?k" using True len by (simp add: min_def) arith
    have IH: "strlcpy_loop (dst[off := c]) (Suc off) (n - 1) (Suc l) src =
      (take (Suc off) (dst[off := c]) @ take ?k src @ drop (Suc off + ?k) (dst[off := c]),
       Suc off + ?k, n - 1 - ?k, Suc l + ?k, drop ?k src)"
      using 2 True by (simp add: Let_def)
    show ?thesis
      using True 2(3) unfolding k by (simp add: IH [simplified] Let_def take_Suc_conv_app_nth)
  next
    case False
    then have "min (n - 1) (c_strlen (c # src)) = 0" using 2(2) by (auto simp: c_strlen_def)
    then show ?thesis using False by (auto simp: Let_def)
  qed
qed (simp add: c_strlen_def)

text \<open>\<open>OPENSSL_strlcpy\<close> into a buffer of \<open>dst_size\<close> bytes writes the longest prefix of the string that
  leaves room for the terminator, terminates it, touches nothing else, and returns the length of the
  source, so that a result of at least \<open>dst_size\<close> means truncation.\<close>

theorem OPENSSL_strlcpy_functional:
  assumes "0 < dst_size" "dst_size \<le> length dst"
  shows "OPENSSL_strlcpy dst 0 src dst_size =
     (let k = min (dst_size - 1) (c_strlen src) in (take k src @ [0] @ drop (Suc k) dst, c_strlen src))"
proof -
  let ?k = "min (dst_size - 1) (c_strlen src)"
  have loop: "strlcpy_loop dst 0 dst_size 0 src
      = (take ?k src @ drop ?k dst, ?k, dst_size - ?k, ?k, drop ?k src)"
    using strlcpy_loop_spec [of dst_size 0 dst 0 src] assms by (simp add: c_strlen_def Let_def)
  have "length (take ?k src) = ?k"
    using length_takeWhile_le [of "\<lambda>c. c \<noteq> 0" src] by (simp add: c_strlen_def)
  moreover have "drop ?k dst = dst ! ?k # drop (Suc ?k) dst"
    using assms by (intro Cons_nth_drop_Suc [symmetric]) simp
  ultimately have "(take ?k src @ drop ?k dst)[?k := 0] = take ?k src @ [0] @ drop (Suc ?k) dst"
    by (simp add: list_update_append)
  moreover have "?k + c_strlen (drop ?k src) = c_strlen src"
  proof -
    have tw: "takeWhile (\<lambda>c. c \<noteq> 0) src = take (c_strlen src) src"
      unfolding c_strlen_def by (rule takeWhile_eq_take)
    have app: "takeWhile (\<lambda>c. c \<noteq> 0) (take ?k src @ drop ?k src)
        = take ?k src @ takeWhile (\<lambda>c. c \<noteq> 0) (drop ?k src)"
    proof (rule takeWhile_append2)
      fix x assume "x \<in> set (take ?k src)"
      moreover have "take ?k src = take ?k (takeWhile (\<lambda>c. c \<noteq> 0) src)"
        unfolding tw by simp
      ultimately show "x \<noteq> 0" by (metis in_set_takeD set_takeWhileD)
    qed
    then have "length (takeWhile (\<lambda>c. c \<noteq> 0) (take ?k src @ drop ?k src))
        = length (take ?k src) + length (takeWhile (\<lambda>c. c \<noteq> 0) (drop ?k src))"
      by (simp only: length_append)
    then have "c_strlen src = length (take ?k src) + c_strlen (drop ?k src)"
      by (simp only: append_take_drop_id c_strlen_def)
    then show ?thesis using \<open>length (take ?k src) = ?k\<close> by (simp only:)
  qed
  moreover have "?k < dst_size" using assms(1) by arith
  ultimately show ?thesis by (simp add: OPENSSL_strlcpy_def loop Let_def)
qed

theorem OPENSSL_strlcpy_functional_witness:
  "OPENSSL_strlcpy [9, 9, 9, 9] 0 [97, 98, 99, 0] 3 = ([97, 98, 0, 9], 3)"
  using OPENSSL_strlcpy_functional [of 3 "[9, 9, 9, 9]" "[97, 98, 99, 0]"] by (simp add: c_strlen_def)

end
