(* ===== verification/Cbs.thy ===== *)
theory Cbs
  imports Mem
begin

text \<open>
  The byte-string parser of BoringSSL (\<open>crypto/bytestring/cbs.c\<close>). A \<open>CBS\<close> is the list of the bytes it
  still covers; an operation returns its result, \<open>None\<close> for failure, and the \<open>CBS\<close> it leaves behind,
  which on some failures has been advanced already.
\<close>

type_synonym cbs = "u8 list"

definition CBS_init :: "u8 list \<Rightarrow> nat \<Rightarrow> cbs" where
  "CBS_init data len = take len data"

definition cbs_get :: "cbs \<Rightarrow> nat \<Rightarrow> u8 list option \<times> cbs" where
  "cbs_get cbs n = (if length cbs < n then (None, cbs) else (Some (take n cbs), drop n cbs))"

definition CBS_skip :: "cbs \<Rightarrow> nat \<Rightarrow> bool \<times> cbs" where
  "CBS_skip cbs len = (case cbs_get cbs len of (r, cbs') \<Rightarrow> (r \<noteq> None, cbs'))"

definition CBS_data :: "cbs \<Rightarrow> u8 list" where
  "CBS_data cbs = cbs"

definition CBS_len :: "cbs \<Rightarrow> nat" where
  "CBS_len cbs = length cbs"

text \<open>(success, the new block, its length).\<close>

definition CBS_stow :: "allocator \<Rightarrow> cbs \<Rightarrow> bool \<times> u8 list option \<times> nat" where
  "CBS_stow malloc cbs =
     (if length cbs = 0 then (True, None, 0)
      else case OPENSSL_memdup malloc cbs of
        None \<Rightarrow> (False, None, 0)
      | Some block \<Rightarrow> (True, Some block, length cbs))"

definition CBS_strdup :: "allocator \<Rightarrow> cbs \<Rightarrow> u8 list option" where
  "CBS_strdup malloc cbs = OPENSSL_strndup malloc (Some cbs) (length cbs)"

definition CBS_contains_zero_byte :: "cbs \<Rightarrow> bool" where
  "CBS_contains_zero_byte cbs = list_ex (\<lambda>b. b = 0) cbs"

definition CBS_mem_equal :: "cbs \<Rightarrow> u8 list \<Rightarrow> nat \<Rightarrow> bool" where
  "CBS_mem_equal cbs data len = (if len \<noteq> length cbs then False else CRYPTO_memcmp cbs data len = 0)"

definition cbs_get_u :: "cbs \<Rightarrow> nat \<Rightarrow> u64 option \<times> cbs" where
  "cbs_get_u cbs len =
     (case cbs_get cbs len of
        (None, cbs') \<Rightarrow> (None, cbs')
      | (Some data, cbs') \<Rightarrow> (Some (be_acc 0 data), cbs'))"

definition CBS_get_u8 :: "cbs \<Rightarrow> u8 option \<times> cbs" where
  "CBS_get_u8 cbs = (case cbs_get cbs 1 of (None, cbs') \<Rightarrow> (None, cbs') | (Some v, cbs') \<Rightarrow> (Some (hd v), cbs'))"

definition CBS_get_u16 :: "cbs \<Rightarrow> u16 option \<times> cbs" where
  "CBS_get_u16 cbs = (case cbs_get_u cbs 2 of (v, cbs') \<Rightarrow> (map_option ucast v, cbs'))"

definition CBS_get_u24 :: "cbs \<Rightarrow> u32 option \<times> cbs" where
  "CBS_get_u24 cbs = (case cbs_get_u cbs 3 of (v, cbs') \<Rightarrow> (map_option ucast v, cbs'))"

definition CBS_get_u32 :: "cbs \<Rightarrow> u32 option \<times> cbs" where
  "CBS_get_u32 cbs = (case cbs_get_u cbs 4 of (v, cbs') \<Rightarrow> (map_option ucast v, cbs'))"

definition CBS_get_u64 :: "cbs \<Rightarrow> u64 option \<times> cbs" where
  "CBS_get_u64 cbs = cbs_get_u cbs 8"

text \<open>\<open>CRYPTO_bswap2/4/8\<close>: the bytes in reverse order.\<close>

definition CRYPTO_bswap :: "nat \<Rightarrow> 'a::len word \<Rightarrow> 'a word" where
  "CRYPTO_bswap n x = le_word (rev (le_bytes n x))"

definition CBS_get_u16le :: "cbs \<Rightarrow> u16 option \<times> cbs" where
  "CBS_get_u16le cbs = (case CBS_get_u16 cbs of (v, cbs') \<Rightarrow> (map_option (CRYPTO_bswap 2) v, cbs'))"

definition CBS_get_u32le :: "cbs \<Rightarrow> u32 option \<times> cbs" where
  "CBS_get_u32le cbs = (case CBS_get_u32 cbs of (v, cbs') \<Rightarrow> (map_option (CRYPTO_bswap 4) v, cbs'))"

definition CBS_get_u64le :: "cbs \<Rightarrow> u64 option \<times> cbs" where
  "CBS_get_u64le cbs = (case cbs_get_u cbs 8 of (v, cbs') \<Rightarrow> (map_option (CRYPTO_bswap 8) v, cbs'))"

definition CBS_get_last_u8 :: "cbs \<Rightarrow> u8 option \<times> cbs" where
  "CBS_get_last_u8 cbs = (if length cbs = 0 then (None, cbs) else (Some (last cbs), butlast cbs))"

definition CBS_get_bytes :: "cbs \<Rightarrow> nat \<Rightarrow> cbs option \<times> cbs" where
  "CBS_get_bytes cbs len =
     (case cbs_get cbs len of (None, cbs') \<Rightarrow> (None, cbs') | (Some v, cbs') \<Rightarrow> (Some (CBS_init v len), cbs'))"

text \<open>The destination array after the copy.\<close>

definition CBS_copy_bytes :: "cbs \<Rightarrow> u8 list \<Rightarrow> nat \<Rightarrow> u8 list option \<times> cbs" where
  "CBS_copy_bytes cbs out len =
     (case cbs_get cbs len of (None, cbs') \<Rightarrow> (None, cbs') | (Some v, cbs') \<Rightarrow> (Some (copy_bytes out 0 v), cbs'))"

definition cbs_get_length_prefixed :: "cbs \<Rightarrow> nat \<Rightarrow> cbs option \<times> cbs" where
  "cbs_get_length_prefixed cbs len_len =
     (case cbs_get_u cbs len_len of
        (None, cbs') \<Rightarrow> (None, cbs')
      | (Some len, cbs') \<Rightarrow> CBS_get_bytes cbs' (unat len))"

definition CBS_get_u8_length_prefixed :: "cbs \<Rightarrow> cbs option \<times> cbs" where
  "CBS_get_u8_length_prefixed cbs = cbs_get_length_prefixed cbs 1"

definition CBS_get_u16_length_prefixed :: "cbs \<Rightarrow> cbs option \<times> cbs" where
  "CBS_get_u16_length_prefixed cbs = cbs_get_length_prefixed cbs 2"

definition CBS_get_u24_length_prefixed :: "cbs \<Rightarrow> cbs option \<times> cbs" where
  "CBS_get_u24_length_prefixed cbs = cbs_get_length_prefixed cbs 3"

subsection \<open>Reading\<close>

lemma cbs_get_append [simp]: "n = length bs \<Longrightarrow> cbs_get (bs @ rest) n = (Some bs, rest)"
  by (simp add: cbs_get_def)

lemma cbs_get_Some: "cbs_get cbs n = (Some bs, rest) \<longleftrightarrow> cbs = bs @ rest \<and> length bs = n"
  by (auto simp: cbs_get_def min_def)

lemma CBS_get_u8_simps [simp]:
  "CBS_get_u8 [] = (None, [])" "CBS_get_u8 (b # bs) = (Some b, bs)"
  by (simp_all add: CBS_get_u8_def cbs_get_def)

lemma CBS_get_bytes_Some: "CBS_get_bytes cbs n = (Some bs, rest) \<longleftrightarrow> cbs = bs @ rest \<and> length bs = n"
  by (auto simp: CBS_get_bytes_def CBS_init_def cbs_get_def split: if_splits)

lemma CBS_get_bytes_append [simp]: "n = length bs \<Longrightarrow> CBS_get_bytes (bs @ rest) n = (Some bs, rest)"
  by (simp add: CBS_get_bytes_Some)

lemma unat_be_acc_u64:
  assumes "length bs \<le> 8"
  shows "unat (be_acc (0 :: u64) bs) = be_nat bs"
proof -
  have "256 ^ length bs \<le> (256 :: nat) ^ 8" using assms by (intro power_increasing) simp_all
  then show ?thesis using unat_be_word [of bs, where 'a = 64] by (simp add: be_word_def)
qed

lemma cbs_get_u_Some:
  assumes "n \<le> 8"
  shows "cbs_get_u cbs n = (Some v, rest) \<longleftrightarrow> (\<exists>bs. cbs = bs @ rest \<and> length bs = n \<and> unat v = be_nat bs)"
proof
  assume "cbs_get_u cbs n = (Some v, rest)"
  then obtain bs where "cbs_get cbs n = (Some bs, rest)" "v = be_acc 0 bs"
    by (auto simp: cbs_get_u_def split: prod.splits option.splits)
  then show "\<exists>bs. cbs = bs @ rest \<and> length bs = n \<and> unat v = be_nat bs"
    using assms unat_be_acc_u64 [of bs] by (auto simp: cbs_get_Some)
next
  assume "\<exists>bs. cbs = bs @ rest \<and> length bs = n \<and> unat v = be_nat bs"
  then obtain bs where bs: "cbs = bs @ rest" "length bs = n" "unat v = be_nat bs" by blast
  then have "v = be_acc 0 bs" using assms unat_be_acc_u64 [of bs] by (simp add: word_unat_eq_iff)
  then show "cbs_get_u cbs n = (Some v, rest)" using bs by (simp add: cbs_get_u_def)
qed

lemma cbs_get_u_append: "length bs \<le> 8 \<Longrightarrow> cbs_get_u (bs @ rest) (length bs) = (Some (be_acc 0 bs), rest)"
  by (simp add: cbs_get_u_def)

lemma cbs_get_u_None: "length cbs < n \<Longrightarrow> cbs_get_u cbs n = (None, cbs)"
  by (simp add: cbs_get_u_def cbs_get_def)

text \<open>The big-endian encoding of a number in a fixed width.\<close>

fun be_fixed :: "nat \<Rightarrow> nat \<Rightarrow> u8 list" where
  "be_fixed 0 n = []"
| "be_fixed (Suc k) n = be_fixed k (n div 256) @ [word_of_nat (n mod 256)]"

lemma length_be_fixed [simp]: "length (be_fixed k n) = k"
  by (induction k arbitrary: n) simp_all

lemma unat_u8_mod [simp]: "unat (word_of_nat (n mod 256) :: u8) = n mod 256"
  by (rule unat_word_of_nat) simp

lemma be_nat_be_fixed: "be_nat (be_fixed k n) = n mod 256 ^ k"
  by (induction k arbitrary: n) (simp_all add: mod_mult2_eq)

lemma be_fixed_be_nat: "be_fixed (length bs) (be_nat bs) = bs"
proof (induction bs rule: rev_induct)
  case (snoc b bs)
  then show ?case by (simp add: unat_u8_mod word_unat_eq_iff)
qed simp

text \<open>A length-prefixed string is read exactly when the input starts with its length, big-endian in
  the width of the prefix, followed by that many bytes; the rest of the input is what is left.\<close>

theorem cbs_get_length_prefixed_iff:
  assumes "k \<in> {1, 2, 3}"
  shows "cbs_get_length_prefixed cbs k = (Some body, rest) \<longleftrightarrow>
     length body < 256 ^ k \<and> cbs = be_fixed k (length body) @ body @ rest"
proof
  assume "cbs_get_length_prefixed cbs k = (Some body, rest)"
  then obtain len cbs' where 1: "cbs_get_u cbs k = (Some len, cbs')"
      and 2: "CBS_get_bytes cbs' (unat len) = (Some body, rest)"
    by (auto simp: cbs_get_length_prefixed_def split: prod.splits option.splits)
  from 1 obtain bs where bs: "cbs = bs @ cbs'" "length bs = k" "unat len = be_nat bs"
    using assms cbs_get_u_Some [of k cbs len cbs'] by auto
  from 2 have "cbs' = body @ rest" "length body = unat len" by (simp_all add: CBS_get_bytes_Some)
  then show "length body < 256 ^ k \<and> cbs = be_fixed k (length body) @ body @ rest"
    using bs be_nat_bound [of bs] be_fixed_be_nat [of bs] by simp
next
  assume a: "length body < 256 ^ k \<and> cbs = be_fixed k (length body) @ body @ rest"
  then have "be_nat (be_fixed k (length body)) = length body" by (simp add: be_nat_be_fixed)
  then have "unat (be_acc (0 :: u64) (be_fixed k (length body))) = length body"
    using unat_be_acc_u64 [of "be_fixed k (length body)"] assms by auto
  moreover have "cbs_get_u cbs k = (Some (be_acc 0 (be_fixed k (length body))), body @ rest)"
    using a by (simp add: cbs_get_u_def)
  ultimately show "cbs_get_length_prefixed cbs k = (Some body, rest)"
    by (simp add: cbs_get_length_prefixed_def)
qed

theorem cbs_get_length_prefixed_iff_witness:
  "cbs_get_length_prefixed [0, 2, 7, 8, 9] 2 = (Some [7, 8], [9])"
  using cbs_get_length_prefixed_iff [of 2 "[0, 2, 7, 8, 9]" "[7, 8]" "[9]"]
  by (simp add: numeral_2_eq_2)

lemma unat_le_word:
  "8 * length bs \<le> LENGTH('a::len) \<Longrightarrow> unat (le_word bs :: 'a word) = be_nat (rev bs)"
proof (induction bs)
  case (Cons b bs)
  have IH: "unat (le_word bs :: 'a word) = be_nat (rev bs)" using Cons by simp
  have "be_nat (rev bs) * 256 < 256 ^ length bs * 256"
    using be_nat_bound [of "rev bs"] by simp
  also have "\<dots> = 2 ^ (8 * length (b # bs))" by (simp add: power_add power_mult)
  also have "(2::nat) ^ (8 * length (b # bs)) \<le> 2 ^ LENGTH('a)" using Cons.prems by (intro power_increasing) simp_all
  finally have "unat (push_bit 8 (le_word bs) OR ucast b :: 'a word) = be_nat (rev bs) * 256 + unat b"
    using Cons.prems unat_shift_in_byte [of "le_word bs :: 'a word" b] by (simp add: IH)
  then show ?case by (simp add: or.commute)
qed simp

lemma word_of_be_nat:
  assumes "8 * length bs \<le> LENGTH('a::len)"
  shows "(word_of_nat (be_nat bs) :: 'a word) = le_word (rev bs)"
    "CRYPTO_bswap (length bs) (word_of_nat (be_nat bs) :: 'a word) = le_word bs"
proof -
  have "unat (le_word (rev bs) :: 'a word) = be_nat bs" using unat_le_word [of "rev bs"] assms by simp
  then show *: "(word_of_nat (be_nat bs) :: 'a word) = le_word (rev bs)" by (metis of_nat_unat ucast_id)
  show "CRYPTO_bswap (length bs) (word_of_nat (be_nat bs) :: 'a word) = le_word bs"
    using le_bytes_le_word [of "rev bs", where 'a = 'a] assms by (simp add: CRYPTO_bswap_def *)
qed

lemma be_acc_word:
  assumes "length bs \<le> 8"
  shows "(ucast (be_acc (0 :: u64) bs) :: 'a::len word) = word_of_nat (be_nat bs)"
  unfolding unat_be_acc_u64 [OF assms, symmetric] by simp

lemma cbs_get_u_if:
  "cbs_get_u cbs n = (if length cbs < n then (None, cbs) else (Some (be_acc 0 (take n cbs)), drop n cbs))"
  by (simp add: cbs_get_u_def cbs_get_def)

text \<open>The fixed-width readers take the value of the next bytes, most significant first, or least
  significant first for the little-endian ones, consume exactly those bytes, and fail without
  consuming anything when there are not enough.\<close>

theorem CBS_get_u_functional:
  "(CBS_get_u16 cbs = (if length cbs < 2 then (None, cbs)
      else (Some (word_of_nat (be_nat (take 2 cbs))), drop 2 cbs))) \<and>
   (CBS_get_u24 cbs = (if length cbs < 3 then (None, cbs)
      else (Some (word_of_nat (be_nat (take 3 cbs))), drop 3 cbs))) \<and>
   (CBS_get_u32 cbs = (if length cbs < 4 then (None, cbs)
      else (Some (word_of_nat (be_nat (take 4 cbs))), drop 4 cbs))) \<and>
   (CBS_get_u64 cbs = (if length cbs < 8 then (None, cbs)
      else (Some (word_of_nat (be_nat (take 8 cbs))), drop 8 cbs))) \<and>
   (CBS_get_u16le cbs = (if length cbs < 2 then (None, cbs) else (Some (le_word (take 2 cbs)), drop 2 cbs))) \<and>
   (CBS_get_u32le cbs = (if length cbs < 4 then (None, cbs) else (Some (le_word (take 4 cbs)), drop 4 cbs))) \<and>
   (CBS_get_u64le cbs = (if length cbs < 8 then (None, cbs) else (Some (le_word (take 8 cbs)), drop 8 cbs)))"
proof -
  have be: "\<not> length cbs < n \<Longrightarrow> n \<le> 8 \<Longrightarrow>
      (ucast (be_acc (0 :: u64) (take n cbs)) :: 'b::len word) = word_of_nat (be_nat (take n cbs))" for n
    by (rule be_acc_word) simp
  have le: "\<not> length cbs < n \<Longrightarrow> 8 * n \<le> LENGTH('b::len) \<Longrightarrow>
      CRYPTO_bswap n (word_of_nat (be_nat (take n cbs)) :: 'b word) = le_word (take n cbs)" for n
    using word_of_be_nat(2) [of "take n cbs", where 'a = 'b] by simp
  have u64: "be_acc 0 (take 8 cbs) = (word_of_nat (be_nat (take 8 cbs)) :: u64)"
    using be_acc_word [of "take 8 cbs", where 'a = 64] by simp
  show ?thesis
    by (simp add: CBS_get_u16_def CBS_get_u24_def CBS_get_u32_def CBS_get_u64_def CBS_get_u16le_def
        CBS_get_u32le_def CBS_get_u64le_def cbs_get_u_if be le u64)
qed

end
