(* ===== verification/Cbs_Asn1.thy ===== *)
theory Cbs_Asn1
  imports Cbs
begin

text \<open>
  The ASN.1 part of \<open>crypto/bytestring/cbs.c\<close>: tags, elements in DER and, for the caller that asks for
  it, BER, integers, booleans, optional elements and bit strings. A tag is the 32-bit value of the code,
  the class and the constructed bit in the top three bits and the tag number in the others.
\<close>

subsection \<open>Tags and elements\<close>

definition CBS_ASN1_CONSTRUCTED :: u32 where "CBS_ASN1_CONSTRUCTED = push_bit 24 0x20"
definition CBS_ASN1_TAG_NUMBER_MASK :: u32 where "CBS_ASN1_TAG_NUMBER_MASK = push_bit 29 1 - 1"

abbreviation CBS_ASN1_BOOLEAN :: u32 where "CBS_ASN1_BOOLEAN \<equiv> 1"
abbreviation CBS_ASN1_INTEGER :: u32 where "CBS_ASN1_INTEGER \<equiv> 2"
abbreviation CBS_ASN1_OCTETSTRING :: u32 where "CBS_ASN1_OCTETSTRING \<equiv> 4"

fun base128_loop :: "u64 \<Rightarrow> cbs \<Rightarrow> u64 option \<times> cbs" where
  "base128_loop v [] = (None, [])"
| "base128_loop v (b # cbs) =
     (if drop_bit (64 - 7) v \<noteq> 0 then (None, cbs)
      else if v = 0 \<and> b = 0x80 then (None, cbs)
      else let v' = push_bit 7 v OR ucast (b AND 0x7f) in
           if b AND 0x80 \<noteq> 0 then base128_loop v' cbs else (Some v', cbs))"

definition parse_base128_integer :: "cbs \<Rightarrow> u64 option \<times> cbs" where
  "parse_base128_integer cbs = base128_loop 0 cbs"

definition parse_asn1_tag :: "cbs \<Rightarrow> u32 option \<times> cbs" where
  "parse_asn1_tag cbs =
     (case CBS_get_u8 cbs of
        (None, c) \<Rightarrow> (None, c)
      | (Some tag_byte, c) \<Rightarrow>
          (let tag = push_bit 24 (ucast tag_byte AND 0xe0 :: u32);
               tag_number = (ucast (tag_byte AND 0x1f) :: u32)
           in if tag_number = 0x1f then
                (case parse_base128_integer c of
                   (None, c') \<Rightarrow> (None, c')
                 | (Some v, c') \<Rightarrow>
                     if v > ucast CBS_ASN1_TAG_NUMBER_MASK \<or> v < 0x1f then (None, c')
                     else (Some (tag OR ucast v), c'))
              else (Some (tag OR tag_number), c)))"

text \<open>The element, its tag and the length of its header. On failure the input is as it was.\<close>

definition cbs_get_any_asn1_element :: "cbs \<Rightarrow> bool \<Rightarrow> (cbs \<times> u32 \<times> nat) option \<times> cbs" where
  "cbs_get_any_asn1_element cbs ber_ok =
     (case parse_asn1_tag cbs of
        (None, _) \<Rightarrow> (None, cbs)
      | (Some tag, header) \<Rightarrow>
          case CBS_get_u8 header of
            (None, _) \<Rightarrow> (None, cbs)
          | (Some length_byte, header) \<Rightarrow>
              let header_len = CBS_len cbs - CBS_len header;
                  element = (\<lambda>len hl. case CBS_get_bytes cbs len of
                      (None, cbs') \<Rightarrow> (None, cbs')
                    | (Some out, cbs') \<Rightarrow> (Some (out, tag, hl), cbs'))
              in
                if length_byte AND 0x80 = 0 then element (size_add (unat length_byte) header_len) header_len
                else
                  let num_bytes = unat (length_byte AND 0x7f) in
                  if ber_ok \<and> tag AND CBS_ASN1_CONSTRUCTED \<noteq> 0 \<and> num_bytes = 0 then element header_len header_len
                  else if num_bytes = 0 \<or> num_bytes > 4 then (None, cbs)
                  else
                    (case cbs_get_u header num_bytes of
                       (None, _) \<Rightarrow> (None, cbs)
                     | (Some len64, _) \<Rightarrow>
                         if len64 < 128 then (None, cbs)
                         else if drop_bit ((num_bytes - 1) * 8) len64 = 0 then (None, cbs)
                         else
                           let len = unat len64 in
                           if size_add len (header_len + num_bytes) < len then (None, cbs)
                           else element (size_add len (header_len + num_bytes)) (header_len + num_bytes)))"

definition CBS_get_any_asn1_element :: "cbs \<Rightarrow> (cbs \<times> u32 \<times> nat) option \<times> cbs" where
  "CBS_get_any_asn1_element cbs = cbs_get_any_asn1_element cbs False"

definition CBS_get_any_ber_asn1_element :: "cbs \<Rightarrow> (cbs \<times> u32 \<times> nat) option \<times> cbs" where
  "CBS_get_any_ber_asn1_element cbs = cbs_get_any_asn1_element cbs True"

definition CBS_get_any_asn1 :: "cbs \<Rightarrow> (cbs \<times> u32) option \<times> cbs" where
  "CBS_get_any_asn1 cbs =
     (case CBS_get_any_asn1_element cbs of
        (None, cbs') \<Rightarrow> (None, cbs')
      | (Some (out, tag, header_len), cbs') \<Rightarrow>
          (case CBS_skip out header_len of (ok, out') \<Rightarrow> (if ok then Some (out', tag) else None, cbs')))"

text \<open>A header longer than its element is refused here, where the code has an assertion; it cannot happen.\<close>

definition cbs_get_asn1 :: "cbs \<Rightarrow> u32 \<Rightarrow> bool \<Rightarrow> cbs option \<times> cbs" where
  "cbs_get_asn1 cbs tag_value skip_header =
     (case CBS_get_any_asn1_element cbs of
        (None, cbs') \<Rightarrow> (None, cbs')
      | (Some (out, tag, header_len), cbs') \<Rightarrow>
          if tag \<noteq> tag_value then (None, cbs')
          else if skip_header then (case CBS_skip out header_len of (ok, out') \<Rightarrow> (if ok then Some out' else None, cbs'))
          else (Some out, cbs'))"

definition CBS_get_asn1 :: "cbs \<Rightarrow> u32 \<Rightarrow> cbs option \<times> cbs" where
  "CBS_get_asn1 cbs tag_value = cbs_get_asn1 cbs tag_value True"

definition CBS_get_asn1_element :: "cbs \<Rightarrow> u32 \<Rightarrow> cbs option \<times> cbs" where
  "CBS_get_asn1_element cbs tag_value = cbs_get_asn1 cbs tag_value False"

definition CBS_peek_asn1_tag :: "cbs \<Rightarrow> u32 \<Rightarrow> bool" where
  "CBS_peek_asn1_tag cbs tag_value =
     (if CBS_len cbs < 1 then False else fst (parse_asn1_tag cbs) = Some tag_value)"

subsection \<open>Integers, booleans, optional elements\<close>

fun asn1_uint64_loop :: "u64 \<Rightarrow> u8 list \<Rightarrow> u64 option" where
  "asn1_uint64_loop out [] = Some out"
| "asn1_uint64_loop out (b # data) =
     (if drop_bit 56 out \<noteq> 0 then None else asn1_uint64_loop (push_bit 8 out OR ucast b) data)"

definition CBS_get_asn1_uint64 :: "cbs \<Rightarrow> u64 option \<times> cbs" where
  "CBS_get_asn1_uint64 cbs =
     (case CBS_get_asn1 cbs CBS_ASN1_INTEGER of
        (None, cbs') \<Rightarrow> (None, cbs')
      | (Some data, cbs') \<Rightarrow>
          if CBS_len data = 0 then (None, cbs')
          else if data ! 0 AND 0x80 \<noteq> 0 then (None, cbs')
          else if data ! 0 = 0 \<and> CBS_len data > 1 \<and> data ! 1 AND 0x80 = 0 then (None, cbs')
          else (asn1_uint64_loop 0 data, cbs'))"

text \<open>The union of \<open>int64_t\<close> and its eight bytes, on a little-endian target.\<close>

definition CBS_get_asn1_int64 :: "cbs \<Rightarrow> u64 option \<times> cbs" where
  "CBS_get_asn1_int64 cbs =
     (case CBS_get_asn1 cbs CBS_ASN1_INTEGER of
        (None, cbs') \<Rightarrow> (None, cbs')
      | (Some data, cbs') \<Rightarrow>
          let len = CBS_len data in
          if len = 0 \<or> len > 8 then (None, cbs')
          else if len > 1 \<and> data ! 0 = 0 \<and> data ! 1 AND 0x80 = 0 then (None, cbs')
          else if len > 1 \<and> data ! 0 = 0xff \<and> data ! 1 AND 0x80 \<noteq> 0 then (None, cbs')
          else
            let fill = (if data ! 0 AND 0x80 \<noteq> 0 then 0xff else 0) in
            (Some (le_word (copy_bytes (replicate 8 fill) 0 (rev data))), cbs'))"

definition CBS_get_asn1_bool :: "cbs \<Rightarrow> bool option \<times> cbs" where
  "CBS_get_asn1_bool cbs =
     (case CBS_get_asn1 cbs CBS_ASN1_BOOLEAN of
        (None, cbs') \<Rightarrow> (None, cbs')
      | (Some bytes, cbs') \<Rightarrow>
          if CBS_len bytes \<noteq> 1 then (None, cbs')
          else let v = hd bytes in if v \<noteq> 0 \<and> v \<noteq> 0xff then (None, cbs') else (Some (v \<noteq> 0), cbs'))"

text \<open>The outer option is failure, the inner one absence.\<close>

definition CBS_get_optional_asn1 :: "cbs \<Rightarrow> u32 \<Rightarrow> cbs option option \<times> cbs" where
  "CBS_get_optional_asn1 cbs tag =
     (if CBS_peek_asn1_tag cbs tag then
        (case CBS_get_asn1 cbs tag of (None, cbs') \<Rightarrow> (None, cbs') | (Some out, cbs') \<Rightarrow> (Some (Some out), cbs'))
      else (Some None, cbs))"

definition CBS_get_optional_asn1_octet_string :: "cbs \<Rightarrow> u32 \<Rightarrow> (cbs \<times> bool) option \<times> cbs" where
  "CBS_get_optional_asn1_octet_string cbs tag =
     (case CBS_get_optional_asn1 cbs tag of
        (None, cbs') \<Rightarrow> (None, cbs')
      | (Some None, cbs') \<Rightarrow> (Some ([], False), cbs')
      | (Some (Some child), cbs') \<Rightarrow>
          (case CBS_get_asn1 child CBS_ASN1_OCTETSTRING of
             (None, _) \<Rightarrow> (None, cbs')
           | (Some out, child') \<Rightarrow> if CBS_len child' \<noteq> 0 then (None, cbs') else (Some (out, True), cbs')))"

definition CBS_get_optional_asn1_uint64 :: "cbs \<Rightarrow> u32 \<Rightarrow> u64 \<Rightarrow> u64 option \<times> cbs" where
  "CBS_get_optional_asn1_uint64 cbs tag default_value =
     (case CBS_get_optional_asn1 cbs tag of
        (None, cbs') \<Rightarrow> (None, cbs')
      | (Some None, cbs') \<Rightarrow> (Some default_value, cbs')
      | (Some (Some child), cbs') \<Rightarrow>
          (case CBS_get_asn1_uint64 child of
             (None, _) \<Rightarrow> (None, cbs')
           | (Some out, child') \<Rightarrow> if CBS_len child' \<noteq> 0 then (None, cbs') else (Some out, cbs')))"

definition CBS_get_optional_asn1_bool :: "cbs \<Rightarrow> u32 \<Rightarrow> int \<Rightarrow> int option \<times> cbs" where
  "CBS_get_optional_asn1_bool cbs tag default_value =
     (case CBS_get_optional_asn1 cbs tag of
        (None, cbs') \<Rightarrow> (None, cbs')
      | (Some None, cbs') \<Rightarrow> (Some default_value, cbs')
      | (Some (Some child), cbs') \<Rightarrow>
          (case CBS_get_asn1 child CBS_ASN1_BOOLEAN of
             (None, _) \<Rightarrow> (None, cbs')
           | (Some child2, child') \<Rightarrow>
               if CBS_len child2 \<noteq> 1 \<or> CBS_len child' \<noteq> 0 then (None, cbs')
               else let boolean = child2 ! 0 in
                 if boolean = 0 then (Some 0, cbs') else if boolean = 0xff then (Some 1, cbs') else (None, cbs')))"

definition CBS_is_valid_asn1_bitstring :: "cbs \<Rightarrow> bool" where
  "CBS_is_valid_asn1_bitstring cbs =
     (case CBS_get_u8 cbs of
        (None, _) \<Rightarrow> False
      | (Some num_unused_bits, in_cbs) \<Rightarrow>
          if num_unused_bits > 7 then False
          else if num_unused_bits = 0 then True
          else (case CBS_get_last_u8 in_cbs of
                  (None, _) \<Rightarrow> False
                | (Some lst, _) \<Rightarrow> lst AND (push_bit (unat num_unused_bits) 1 - 1) = 0))"

definition CBS_asn1_bitstring_has_bit :: "cbs \<Rightarrow> u32 \<Rightarrow> bool" where
  "CBS_asn1_bitstring_has_bit cbs n =
     (if \<not> CBS_is_valid_asn1_bitstring cbs then False
      else
        let byte_num = drop_bit 3 n + 1; bit_num = 7 - (n AND 7) in
        unat byte_num < CBS_len cbs \<and> CBS_data cbs ! unat byte_num AND push_bit (unat bit_num) 1 \<noteq> 0)"

subsection \<open>Base 128\<close>

text \<open>Base-128 numbers, most significant group first: the continuation groups, then the whole.\<close>

function b128_hi :: "nat \<Rightarrow> u8 list" where
  "b128_hi n = (if n = 0 then [] else b128_hi (n div 128) @ [word_of_nat (n mod 128 + 128)])"
  by pat_completeness auto
termination by (relation "measure id") auto

declare b128_hi.simps [simp del]

definition base128 :: "nat \<Rightarrow> u8 list" where
  "base128 n = b128_hi (n div 128) @ [word_of_nat (n mod 128)]"

lemma b128_hi_0 [simp]: "b128_hi 0 = []"
  by (simp add: b128_hi.simps)

lemma b128_hi_step: "0 < n * 128 + k \<Longrightarrow> k < 128 \<Longrightarrow> b128_hi (n * 128 + k) = b128_hi n @ [word_of_nat (k + 128)]"
  by (subst b128_hi.simps) simp

lemma unat_and_0x7f: "unat (b AND 0x7f :: u8) = unat b mod 128"
  using unat_and_mask [of b 7] by (simp add: mask_eq_exp_minus_1)

subsection \<open>The parser accepts exactly base 128\<close>

lemma base128_step:
  assumes "unat v * 128 + unat b mod 128 < 2 ^ 64"
  shows "unat (push_bit 7 v OR ucast (b AND 0x7f :: u8) :: u64) = unat v * 128 + unat b mod 128"
proof -
  have "push_bit 7 v AND (ucast (b AND 0x7f) :: u64) = 0"
  proof (rule bit_word_eqI)
    fix n assume "n < LENGTH(64)"
    show "bit (push_bit 7 v AND (ucast (b AND 0x7f) :: u64)) n = bit (0 :: u64) n"
      unfolding and_0x7F by (auto simp only: bit_and_iff bit_push_bit_iff bit_unsigned_iff bit_take_bit_iff
          bit_0_eq bot_apply bot_bool_def)
  qed
  moreover have "unat (push_bit 7 v) = unat v * 128"
    using assms unat_push_bit_exact [of v 7] by simp
  moreover have "unat (ucast (b AND 0x7f) :: u64) = unat b mod 128"
    using unat_ucast_up [of "b AND 0x7f", where 'b = 64] by (simp add: unat_and_0x7f)
  ultimately show ?thesis by (simp add: unat_or_disjoint)
qed

lemma drop_bit_57: "drop_bit (64 - 7) v \<noteq> 0 \<longleftrightarrow> 2 ^ 57 \<le> unat (v :: u64)"
proof -
  have "drop_bit (64 - 7) v = 0 \<longleftrightarrow> unat v div 2 ^ 57 = 0"
    using unat_drop_bit [of 57 v] by (simp only: unat_eq_zero [symmetric]) simp
  then show ?thesis by (auto simp: div_eq_0_iff)
qed

lemma base128_loop_Cons:
  assumes "unat v < 2 ^ 57"
  shows "base128_loop v (b # cbs) =
     (if v = 0 \<and> b = 0x80 then (None, cbs)
      else let v' = word_of_nat (unat v * 128 + unat b mod 128) in
           if 128 \<le> unat b then base128_loop v' cbs else (Some v', cbs))"
proof -
  have "unat v * 128 + unat b mod 128 < 2 ^ 64" using assms by simp
  from base128_step [OF this]
  have "push_bit 7 v OR ucast (b AND 0x7f) = (word_of_nat (unat v * 128 + unat b mod 128) :: u64)"
    by (metis of_nat_unat ucast_id)
  moreover have "\<not> drop_bit (64 - 7) v \<noteq> 0" using drop_bit_57 [of v] assms by simp
  ultimately show ?thesis
    by (simp only: base128_loop.simps u8_top_bit not_less if_False Let_def)
qed

lemma base128_loop_hi:
  assumes "m < 2 ^ 57"
  shows "base128_loop 0 (b128_hi m @ rest) = base128_loop (word_of_nat m) rest"
  using assms
proof (induction m arbitrary: rest rule: b128_hi.induct)
  case (1 m)
  show ?case
  proof (cases "m = 0")
    case False
    have lt: "m div 128 < 2 ^ 57" using 1 by simp
    have un: "unat (word_of_nat (m div 128) :: u64) = m div 128"
      using lt by (intro unat_word_of_nat) simp
    have ub: "unat (word_of_nat (m mod 128 + 128) :: u8) = m mod 128 + 128"
      by (rule unat_word_of_nat) simp
    have "base128_loop 0 (b128_hi m @ rest)
        = base128_loop (word_of_nat (m div 128)) (word_of_nat (m mod 128 + 128) # rest)"
      using 1(1) [OF False lt] False by (subst b128_hi.simps) simp
    also have "\<dots> = base128_loop (word_of_nat m) rest"
    proof -
      have "\<not> ((word_of_nat (m div 128) :: u64) = 0 \<and> (word_of_nat (m mod 128 + 128) :: u8) = 0x80)"
      proof
        assume a: "(word_of_nat (m div 128) :: u64) = 0 \<and> (word_of_nat (m mod 128 + 128) :: u8) = 0x80"
        then have "m div 128 = 0" using un by (metis unat_0)
        moreover have "m mod 128 + 128 = unat (0x80 :: u8)" using a ub by metis
        ultimately show False using False by simp
      qed
      then show ?thesis
        using base128_loop_Cons [of "word_of_nat (m div 128)"] lt by (simp only: un ub) simp
    qed
    finally show ?thesis .
  qed simp
qed

declare base128_loop.simps(2) [simp del]


lemma base128_loop_sound:
  "base128_loop v cbs = (Some w, rest) \<Longrightarrow>
   \<exists>used. cbs = used @ rest \<and> b128_hi (unat v) @ used = base128 (unat w)"
proof (induction cbs arbitrary: v)
  case (Cons b cbs)
  show ?case
  proof (cases "unat v < 2 ^ 57")
    case False
    then have "base128_loop v (b # cbs) = (None, cbs)"
      using drop_bit_57 [of v] by (simp only: base128_loop.simps not_less if_True)
    then show ?thesis using Cons.prems by simp
  next
    case True
    let ?n = "unat v * 128 + unat b mod 128"
    have "?n < 2 ^ 64" using True by simp
    then have un: "unat (word_of_nat ?n :: u64) = ?n" by (intro unat_word_of_nat) simp
    have nz: "\<not> (v = 0 \<and> b = 0x80)"
      using Cons.prems base128_loop_Cons [OF True, of b cbs] by (auto split: if_splits)
    then have step: "base128_loop v (b # cbs)
        = (if 128 \<le> unat b then base128_loop (word_of_nat ?n) cbs else (Some (word_of_nat ?n), cbs))"
      using base128_loop_Cons [OF True, of b cbs] by (simp only: if_False Let_def)
    show ?thesis
    proof (cases "128 \<le> unat b")
      case hi: True
      moreover have "unat b - 128 < 128" using unat_u8_lt [of b] hi by linarith
      ultimately have "unat b mod 128 = unat b - 128" by (simp add: le_mod_geq)
      then have "unat b mod 128 + 128 = unat b" using hi by linarith
      then have bk: "(word_of_nat (unat b mod 128 + 128) :: u8) = b" by (simp only: of_nat_unat ucast_id)
      have "0 < ?n"
      proof (rule ccontr)
        assume "\<not> 0 < ?n"
        then have "unat v * 128 + unat b mod 128 = 0" by (simp only: not_gr_zero)
        then have v0: "unat v = 0" and "unat b mod 128 = 0" by (simp_all only: add_is_0 mult_is_0) simp_all
        then have "unat b = unat (0x80 :: u8)" using \<open>unat b mod 128 + 128 = unat b\<close> by simp
        then have "b = 0x80" by (simp only: word_unat_eq_iff)
        moreover have "v = 0" using v0 by (simp only: unat_eq_zero)
        ultimately show False using nz by simp
      qed
      from Cons.IH [of "word_of_nat ?n"] Cons.prems step hi
      obtain used where used: "cbs = used @ rest" "b128_hi ?n @ used = base128 (unat w)"
        by (auto simp only: un if_True)
      have "b128_hi ?n = b128_hi (unat v) @ [b]"
        using b128_hi_step [OF \<open>0 < ?n\<close>] bk by simp
      then show ?thesis using used by (intro exI [of _ "b # used"]) simp
    next
      case lo: False
      then have w: "w = word_of_nat ?n" "rest = cbs" using Cons.prems step by auto
      have "unat b mod 128 = unat b" using lo by simp
      then have "base128 ?n = b128_hi (unat v) @ [b]" using lo by (simp add: base128_def)
      then show ?thesis using w un by (intro exI [of _ "[b]"]) simp
    qed
  qed
qed simp

lemma parse_base128_append:
  assumes "n < 2 ^ 64"
  shows "parse_base128_integer (base128 n @ rest) = (Some (word_of_nat n), rest)"
proof -
  have lt: "n div 128 < 2 ^ 57" using assms by simp
  have un: "unat (word_of_nat (n div 128) :: u64) = n div 128" using lt by (intro unat_word_of_nat) simp
  have ub: "unat (word_of_nat (n mod 128) :: u8) = n mod 128" by (rule unat_word_of_nat) simp
  have "unat (word_of_nat (n mod 128) :: u8) \<noteq> unat (0x80 :: u8)" unfolding ub by simp
  then have "(word_of_nat (n mod 128) :: u8) \<noteq> 0x80" by metis
  moreover have "n div 128 * 128 + n mod 128 mod 128 = n" by simp
  moreover have "\<not> 128 \<le> n mod 128" by (simp add: not_le)
  ultimately have "base128_loop (word_of_nat (n div 128)) (word_of_nat (n mod 128) # rest) = (Some (word_of_nat n), rest)"
    using base128_loop_Cons [of "word_of_nat (n div 128)" "word_of_nat (n mod 128)" rest] lt
    by (simp only: un ub if_False Let_def simp_thms)
  then show ?thesis
    using base128_loop_hi [OF lt] by (simp add: parse_base128_integer_def base128_def)
qed

text \<open>\<open>parse_base128_integer\<close> accepts exactly the minimal base-128 encodings of the numbers below
  \<open>2 ^ 64\<close>, and returns the number and the input behind it.\<close>

lemma parse_base128_integer_Some:
  "parse_base128_integer cbs = (Some v, rest) \<longleftrightarrow> cbs = base128 (unat v) @ rest"
proof
  assume "parse_base128_integer cbs = (Some v, rest)"
  then show "cbs = base128 (unat v) @ rest"
    using base128_loop_sound [of 0 cbs v rest] by (simp add: parse_base128_integer_def)
next
  assume "cbs = base128 (unat v) @ rest"
  moreover have "unat v < 2 ^ 64" using unsigned_less [of v, where ?'a = nat] by simp
  ultimately show "parse_base128_integer cbs = (Some v, rest)"
    using parse_base128_append [of "unat v" rest] by simp
qed

subsection \<open>Tags\<close>

text \<open>The identifier octets of a tag: X.690, 8.1.2.\<close>

definition tag_number :: "u32 \<Rightarrow> nat" where
  "tag_number tag = unat tag mod 2 ^ 29"

definition tag_class :: "u32 \<Rightarrow> u8" where
  "tag_class tag = ucast (drop_bit 24 tag) AND 0xe0"

definition der_tag :: "u32 \<Rightarrow> u8 list" where
  "der_tag tag = (if tag_number tag < 0x1f then [tag_class tag OR word_of_nat (tag_number tag)]
     else (tag_class tag OR 0x1f) # base128 (tag_number tag))"

lemma tag_split: "push_bit 24 (ucast (tag_class tag) :: u32) OR word_of_nat (tag_number tag) = tag"
proof -
  have "tag_number tag < 2 ^ 29" by (simp add: tag_number_def)
  then have "unat (word_of_nat (tag_number tag) :: u32) = tag_number tag" by (intro unat_word_of_nat) simp
  then have "(word_of_nat (tag_number tag) :: u32) = take_bit 29 tag"
    by (simp only: word_unat_eq_iff unat_take_bit tag_number_def)
  moreover have "push_bit 24 (ucast (tag_class tag) :: u32) OR take_bit 29 tag = tag"
  proof (rule bit_word_eqI)
    fix n assume n: "n < LENGTH(32)"
    have e0: "(0xe0 :: u8) = push_bit 5 (mask 3)" by (simp add: mask_eq_exp_minus_1)
    have "bit (0xe0 :: u8) k \<longleftrightarrow> 5 \<le> k \<and> k < 8" for k
      unfolding e0 by (auto simp: bit_push_bit_iff bit_mask_iff)
    then have cls: "bit (tag_class tag) k \<longleftrightarrow> bit tag (24 + k) \<and> 5 \<le> k \<and> k < 8" for k
      unfolding tag_class_def
      by (simp only: bit_and_iff bit_unsigned_iff bit_drop_bit_eq comp_def) auto
    show "bit (push_bit 24 (ucast (tag_class tag) :: u32) OR take_bit 29 tag) n = bit tag n"
    proof (cases "n < 29")
      case True
      then show ?thesis
        by (simp only: bit_or_iff bit_push_bit_iff bit_unsigned_iff cls bit_take_bit_iff) auto
    next
      case False
      then have "24 + (n - 24) = n" "5 \<le> n - 24" "n - 24 < 8" "24 \<le> n" using n by auto
      then show ?thesis
        using False n by (simp only: bit_or_iff bit_push_bit_iff bit_unsigned_iff cls bit_take_bit_iff) auto
    qed
  qed
  ultimately show ?thesis by simp
qed


lemma tag_class_bits: "tag_class tag AND 0x1f = 0" "tag_class tag AND 0xe0 = tag_class tag"
proof -
  have e: "(0xe0 :: u8) AND 0x1f = 0" by simp
  have "tag_class tag AND 0x1f = ucast (drop_bit 24 tag) AND ((0xe0 :: u8) AND 0x1f)"
    by (simp only: tag_class_def and.assoc)
  then show "tag_class tag AND 0x1f = 0" by (simp only: e and_zero_eq)
  show "tag_class tag AND 0xe0 = tag_class tag"
    by (simp only: tag_class_def and.assoc and.idem)
qed

lemma tag_first_byte:
  assumes "k < 32"
  shows "(tag_class tag OR word_of_nat k) AND 0x1f = (word_of_nat k :: u8)"
    "(tag_class tag OR word_of_nat k) AND 0xe0 = tag_class tag"
proof -
  have "unat (word_of_nat k :: u8) = k" using assms by (intro unat_word_of_nat) simp
  then have tb: "take_bit 5 (word_of_nat k :: u8) = word_of_nat k"
    using assms by (simp only: word_unat_eq_iff unat_take_bit) simp
  have m: "(0x1f :: u8) = mask 5" by (simp add: mask_eq_exp_minus_1)
  have k1: "(word_of_nat k :: u8) AND 0x1f = word_of_nat k"
    unfolding m take_bit_eq_mask [symmetric] by (rule tb)
  have "(word_of_nat k :: u8) AND 0xe0 = word_of_nat k AND (0x1f AND 0xe0)"
    by (simp only: k1 and.assoc [symmetric])
  then have k2: "(word_of_nat k :: u8) AND 0xe0 = 0" by simp
  show "(tag_class tag OR word_of_nat k) AND 0x1f = (word_of_nat k :: u8)"
    by (simp only: bit.conj_disj_distrib2 tag_class_bits k1 or.left_neutral)
  show "(tag_class tag OR word_of_nat k) AND 0xe0 = tag_class tag"
    by (simp only: bit.conj_disj_distrib2 tag_class_bits k2 or.right_neutral)
qed

lemma ucast_and_e0: "(ucast b AND 0xe0 :: u32) = ucast (b AND 0xe0 :: u8)"
  by (rule bit_word_eqI) (auto simp: bit_simps dest: bit_imp_le_length)

lemma tag_class_eqI:
  assumes "n < 2 ^ 29"
  shows "tag_class (push_bit 24 (ucast (b AND 0xe0 :: u8)) OR word_of_nat n) = b AND 0xe0"
    "tag_number (push_bit 24 (ucast (b AND 0xe0 :: u8)) OR word_of_nat n) = n"
proof -
  let ?t = "push_bit 24 (ucast (b AND 0xe0 :: u8)) OR word_of_nat n :: u32"
  have un: "unat (word_of_nat n :: u32) = n" using assms by (intro unat_word_of_nat) simp
  have tb: "take_bit 29 (word_of_nat n :: u32) = word_of_nat n"
    using assms by (simp only: word_unat_eq_iff unat_take_bit un mod_less)
  have e0: "(0xe0 :: u8) = push_bit 5 (mask 3)" by (simp add: mask_eq_exp_minus_1)
  have bits: "bit (b AND 0xe0 :: u8) k \<longleftrightarrow> bit b k \<and> 5 \<le> k \<and> k < 8" for k
    unfolding e0 by (auto simp: bit_push_bit_iff bit_mask_iff bit_and_iff)
  have nb: "bit (word_of_nat n :: u32) k \<Longrightarrow> k < 29" for k
    using arg_cong [OF tb, of "\<lambda>w. bit w k"] by (simp only: bit_take_bit_iff) auto
  have "take_bit 29 ?t = word_of_nat n"
  proof (rule bit_word_eqI)
    fix k assume "k < LENGTH(32)"
    show "bit (take_bit 29 ?t) k = bit (word_of_nat n :: u32) k"
      using nb [of k] by (simp only: bit_take_bit_iff bit_or_iff bit_push_bit_iff bit_unsigned_iff bits) auto
  qed
  then have "unat (take_bit 29 ?t) = n" by (simp only: un)
  then show "tag_number ?t = n" by (simp only: unat_take_bit tag_number_def)
  show "tag_class ?t = b AND 0xe0"
  proof (rule bit_word_eqI)
    fix k assume k: "k < LENGTH(8)"
    have "bit (tag_class ?t) k \<longleftrightarrow> bit ?t (24 + k) \<and> 5 \<le> k"
      unfolding tag_class_def e0 using k
      by (simp only: bit_and_iff bit_unsigned_iff bit_drop_bit_eq comp_def bit_push_bit_iff bit_mask_iff) auto
    then show "bit (tag_class ?t) k = bit (b AND 0xe0) k"
      using nb [of "24 + k"] k by (simp only: bit_or_iff bit_push_bit_iff bit_unsigned_iff bits) auto
  qed
qed

lemma u8_split: "(b AND 0xe0) OR (b AND 0x1f) = (b :: u8)"
proof -
  have "(b AND 0xe0) OR (b AND 0x1f) = b AND (0xe0 OR 0x1f)"
    by (simp only: bit.conj_disj_distrib)
  also have "(0xe0 OR 0x1f :: u8) = - 1" by simp
  finally show ?thesis by simp
qed

lemma unat_and_0x1f: "unat (b AND 0x1f :: u8) = unat b mod 32"
  using unat_and_mask [of b 5] by (simp add: mask_eq_exp_minus_1)

lemma ucast_0x1f_iff: "(ucast (b AND 0x1f :: u8) :: u32) = 0x1f \<longleftrightarrow> b AND 0x1f = 0x1f"
proof -
  have "(ucast (b AND 0x1f :: u8) :: u32) = 0x1f \<longleftrightarrow> unat (b AND 0x1f) = unat (0x1f :: u8)"
    using unat_ucast_up [of "b AND 0x1f", where 'b = 32] by (simp add: word_unat_eq_iff)
  then show ?thesis by (simp only: word_unat_eq_iff)
qed

lemma tag_mask_bound:
  "\<not> (v > ucast CBS_ASN1_TAG_NUMBER_MASK \<or> v < 0x1f) \<longleftrightarrow> 31 \<le> unat v \<and> unat v < 2 ^ 29" for v :: u64
proof -
  have "(ucast CBS_ASN1_TAG_NUMBER_MASK :: u64) = 536870911"
    by (simp add: CBS_ASN1_TAG_NUMBER_MASK_def)
  then show ?thesis by (auto simp: word_less_nat_alt)
qed

lemma parse_asn1_tag_Cons:
  "parse_asn1_tag (b # c) =
     (if b AND 0x1f = 0x1f then
        (case parse_base128_integer c of
           (None, c') \<Rightarrow> (None, c')
         | (Some v, c') \<Rightarrow>
             if 31 \<le> unat v \<and> unat v < 2 ^ 29
             then (Some (push_bit 24 (ucast (b AND 0xe0)) OR word_of_nat (unat v)), c') else (None, c'))
      else (Some (push_bit 24 (ucast (b AND 0xe0)) OR word_of_nat (unat (b AND 0x1f))), c))"
proof -
  have "(word_of_nat (unat v) :: u32) = ucast v" for v :: u64 by simp
  moreover have "(word_of_nat (unat (b AND 0x1f)) :: u32) = ucast (b AND 0x1f)" by simp
  ultimately show ?thesis
    by (simp only: parse_asn1_tag_def CBS_get_u8_simps option.case prod.case Let_def ucast_0x1f_iff
        ucast_and_e0 tag_mask_bound [symmetric] if_not_P cong: if_cong option.case_cong)
       (auto split: option.splits prod.splits)
qed

lemma parse_asn1_tag_iff:
  "parse_asn1_tag cbs = (Some tag, rest) \<longleftrightarrow> cbs = der_tag tag @ rest"
proof
  assume p: "parse_asn1_tag cbs = (Some tag, rest)"
  then obtain b c where cbs: "cbs = b # c"
    by (cases cbs) (auto simp: parse_asn1_tag_def)
  show "cbs = der_tag tag @ rest"
  proof (cases "b AND 0x1f = 0x1f")
    case True
    with p obtain v where v: "parse_base128_integer c = (Some v, rest)" "31 \<le> unat v" "unat v < 2 ^ 29"
        and tag: "tag = push_bit 24 (ucast (b AND 0xe0)) OR word_of_nat (unat v)"
      unfolding cbs parse_asn1_tag_Cons by (auto split: prod.splits option.splits if_splits)
    have "tag_class tag = b AND 0xe0" "tag_number tag = unat v"
      unfolding tag by (rule tag_class_eqI [OF v(3)])+
    then show ?thesis
      using v(1,2) u8_split [of b] True by (simp add: der_tag_def cbs parse_base128_integer_Some)
  next
    case False
    have lt: "unat (b AND 0x1f) < 32" by (simp add: unat_and_0x1f)
    have "unat (b AND 0x1f) \<noteq> unat (0x1f :: u8)" using False by (simp only: word_unat_eq_iff) simp
    then have lt31: "unat (b AND 0x1f) < 31" using lt by simp
    from p False have tag: "tag = push_bit 24 (ucast (b AND 0xe0)) OR word_of_nat (unat (b AND 0x1f))" "rest = c"
      unfolding cbs parse_asn1_tag_Cons by auto
    have "unat (b AND 0x1f) < 2 ^ 29" using lt by simp
    note tc = tag_class_eqI [OF this, of b, folded tag]
    have "(word_of_nat (unat (b AND 0x1f)) :: u8) = b AND 0x1f" by simp
    then show ?thesis
      using tc lt31 tag(2) u8_split [of b] by (simp only: der_tag_def cbs if_True append_Cons append_Nil)
  qed
next
  assume cbs: "cbs = der_tag tag @ rest"
  have n29: "tag_number tag < 2 ^ 29" by (simp add: tag_number_def)
  show "parse_asn1_tag cbs = (Some tag, rest)"
  proof (cases "tag_number tag < 0x1f")
    case True
    then have k: "tag_number tag < 32" by simp
    note fb = tag_first_byte [OF k, of tag]
    have un: "unat (word_of_nat (tag_number tag) :: u8) = tag_number tag"
      using k by (intro unat_word_of_nat) simp
    have "unat (word_of_nat (tag_number tag) :: u8) \<noteq> unat (0x1f :: u8)" unfolding un using True by simp
    then have "(word_of_nat (tag_number tag) :: u8) \<noteq> 0x1f" by metis
    then show ?thesis
      using True tag_split [of tag]
      by (simp only: cbs der_tag_def if_True append_Cons append_Nil parse_asn1_tag_Cons fb un if_False)
  next
    case False
    have o: "(0x1f :: u8) = word_of_nat 31" by simp
    note fb = tag_first_byte [of 31 tag, folded o]
    have un: "unat (word_of_nat (tag_number tag) :: u64) = tag_number tag"
      using n29 by (intro unat_word_of_nat) simp
    have "parse_base128_integer (base128 (tag_number tag) @ rest) = (Some (word_of_nat (tag_number tag)), rest)"
      using n29 by (intro parse_base128_append) simp
    then show ?thesis
      using False n29 tag_split [of tag] fb
      by (simp only: cbs der_tag_def if_False append_Cons parse_asn1_tag_Cons if_True prod.case option.case un)
         simp
  qed
qed

subsection \<open>Lengths and elements\<close>

text \<open>Minimal big-endian numbers and the length octets of DER: X.690, 8.1.3 and 10.1.\<close>

function be_min :: "nat \<Rightarrow> u8 list" where
  "be_min n = (if n = 0 then [] else be_min (n div 256) @ [word_of_nat (n mod 256)])"
  by pat_completeness auto
termination by (relation "measure id") auto

declare be_min.simps [simp del]

definition der_length :: "nat \<Rightarrow> u8 list" where
  "der_length n = (if n < 128 then [word_of_nat n] else word_of_nat (128 + length (be_min n)) # be_min n)"

lemma be_min_0 [simp]: "be_min 0 = []"
  by (simp add: be_min.simps)

lemma be_nat_be_min [simp]: "be_nat (be_min n) = n"
proof (induction n rule: be_min.induct)
  case (1 n)
  then show ?case by (cases "n = 0") (simp_all add: be_min.simps [of n])
qed

lemma be_min_be_nat: "bs = [] \<or> hd bs \<noteq> 0 \<Longrightarrow> be_min (be_nat bs) = bs"
proof (induction bs rule: rev_induct)
  case (snoc b bs)
  have "be_nat (bs @ [b]) = be_nat bs * 256 + unat b" by simp
  moreover have "be_nat bs * 256 + unat b \<noteq> 0"
  proof (cases "bs = []")
    case True
    then have "b \<noteq> 0" using snoc.prems by simp
    then show ?thesis by (simp add: unat_eq_zero)
  next
    case False
    then have "be_min (be_nat bs) = bs" using snoc by simp
    then have "be_nat bs \<noteq> 0" using False by (metis be_min_0)
    then show ?thesis by simp
  qed
  moreover have "(be_nat bs * 256 + unat b) div 256 = be_nat bs" "(be_nat bs * 256 + unat b) mod 256 = unat b"
    using unat_u8_lt [of b] by (simp_all add: div_add1_eq)
  moreover have "be_min (be_nat bs) = bs" using snoc by (cases "bs = []") simp_all
  ultimately show ?case by (simp add: be_min.simps [of "be_nat bs * 256 + unat b"])
qed simp

lemma be_min_hd: "n \<noteq> 0 \<Longrightarrow> be_min n \<noteq> [] \<and> hd (be_min n) \<noteq> 0"
proof (induction n rule: be_min.induct)
  case (1 n)
  show ?case
  proof (cases "n div 256 = 0")
    case True
    then have "n mod 256 = n" "n < 256" by (simp_all add: div_eq_0_iff)
    then have "unat (word_of_nat n :: u8) \<noteq> 0" using 1(2) by (simp add: unat_word_of_nat)
    then show ?thesis using 1(2) True \<open>n mod 256 = n\<close> by (subst (1 2) be_min.simps) auto
  next
    case False
    then show ?thesis using 1 by (subst (1 2) be_min.simps) simp
  qed
qed

lemma be_nat_hd: "bs \<noteq> [] \<Longrightarrow> hd bs \<noteq> 0 \<longleftrightarrow> 256 ^ (length bs - 1) \<le> be_nat bs"
proof (cases bs)
  case (Cons b cs)
  show ?thesis
  proof (cases "b = 0")
    case True
    then show ?thesis using be_nat_bound [of cs] by (simp add: Cons)
  next
    case False
    then have "1 \<le> unat b" by (simp add: Suc_le_eq unat_gt_0)
    then have "256 ^ length cs \<le> unat b * 256 ^ length cs" by simp
    then show ?thesis using False by (simp add: Cons trans_le_add1)
  qed
qed simp

definition dec_len :: "cbs \<Rightarrow> (nat \<times> nat) option" where
  "dec_len c = (case c of [] \<Rightarrow> None
     | lb # h \<Rightarrow>
         if unat lb < 128 then Some (unat lb, 1)
         else let num = unat lb - 128 in
           if num = 0 \<or> num > 4 \<or> length h < num then None
           else let n = be_nat (take num h) in
             if n < 128 \<or> n < 256 ^ (num - 1) then None else Some (n, 1 + num))"

lemma length_be_min:
  assumes "n < 256 ^ k"
  shows "length (be_min n) \<le> k"
proof (cases "n = 0")
  case False
  have "256 ^ (length (be_min n) - 1) \<le> n"
    using be_nat_hd [of "be_min n"] be_min_hd [OF False] by simp
  then have "256 ^ (length (be_min n) - 1) < (256 :: nat) ^ k" using assms by (rule le_less_trans)
  then have "length (be_min n) - 1 < k" using power_less_imp_less_exp [of "256 :: nat" "length (be_min n) - 1" k] by simp
  then show ?thesis by simp
qed simp

lemma dec_len_sound:
  assumes "dec_len c = Some (n, k)"
  shows "n < 2 ^ 32 \<and> k = length (der_length n) \<and> (\<exists>h. c = der_length n @ h)"
proof -
  obtain lb h where c: "c = lb # h" using assms by (cases c) (auto simp: dec_len_def)
  show ?thesis
  proof (cases "unat lb < 128")
    case True
    then have "n = unat lb" "k = 1" using assms by (simp_all add: dec_len_def c)
    then show ?thesis using True by (simp add: der_length_def c)
  next
    case False
    let ?num = "unat lb - 128"
    let ?bs = "take ?num h"
    from assms False have num: "?num \<noteq> 0" "?num \<le> 4" "?num \<le> length h"
      and n: "n = be_nat ?bs" "128 \<le> n" "256 ^ (?num - 1) \<le> n" "k = 1 + ?num"
      by (auto simp: dec_len_def c Let_def split: if_splits)
    have len: "length ?bs = ?num" using num by simp
    have ne: "?bs \<noteq> []" using len num(1) by (metis list.size(3))
    have min: "be_min n = ?bs"
      using be_min_be_nat [of ?bs] be_nat_hd [OF ne] n(3) len unfolding n(1) by simp
    have "n < 256 ^ ?num" using be_nat_bound [of ?bs] len n(1) by simp
    also have "(256::nat) ^ ?num \<le> 256 ^ 4" using num(2) by (intro power_increasing) simp_all
    finally have "n < 2 ^ 32" by simp
    moreover have "128 + ?num = unat lb" using False by simp
    then have "(word_of_nat (128 + ?num) :: u8) = lb" by (simp only: of_nat_unat ucast_id)
    then have "der_length n = lb # ?bs" using n(2) len by (simp only: der_length_def min) simp
    ultimately show ?thesis using n(4) len by (auto simp: c intro: exI [of _ "drop ?num h"])
  qed
qed

lemma dec_len_complete:
  assumes "n < 2 ^ 32"
  shows "dec_len (der_length n @ h) = Some (n, length (der_length n))"
proof (cases "n < 128")
  case True
  then have "unat (word_of_nat n :: u8) = n" by (intro unat_word_of_nat) simp
  then show ?thesis using True by (simp add: dec_len_def der_length_def)
next
  case False
  let ?bs = "be_min n"
  have len: "length ?bs \<le> 4" using length_be_min [of n 4] assms by simp
  have ne: "?bs \<noteq> []" "hd ?bs \<noteq> 0" using be_min_hd [of n] False by auto
  have ge: "256 ^ (length ?bs - 1) \<le> n" using be_nat_hd [OF ne(1)] ne(2) by simp
  have "unat (word_of_nat (128 + length ?bs) :: u8) = 128 + length ?bs"
    using len by (intro unat_word_of_nat) simp
  then show ?thesis
    using False len ne(1) ge by (simp add: dec_len_def der_length_def Let_def)
qed

lemma drop_bit_min:
  assumes "0 < k"
  shows "drop_bit ((k - 1) * 8) v = 0 \<longleftrightarrow> unat (v :: u64) < 256 ^ (k - 1)"
proof -
  have "drop_bit ((k - 1) * 8) v = 0 \<longleftrightarrow> unat v div 2 ^ ((k - 1) * 8) = 0"
    using unat_drop_bit [of "(k - 1) * 8" v] by (metis unat_eq_zero)
  also have "(2::nat) ^ ((k - 1) * 8) = 256 ^ (k - 1)"
    by (simp add: power_mult mult.commute [of _ 8])
  finally show ?thesis by (simp add: div_eq_0_iff)
qed

lemma num_bytes: "\<not> unat b < 128 \<Longrightarrow> unat (b AND 0x7f :: u8) = unat b - 128"
proof -
  assume "\<not> unat b < 128"
  moreover from this have "unat b - 128 < 128" using unat_u8_lt [of b] by linarith
  ultimately show ?thesis by (simp add: unat_and_0x7f le_mod_geq)
qed

lemma u64_lt_128: "(v :: u64) < 128 \<longleftrightarrow> unat v < 128"
  by (simp add: word_less_nat_alt)

lemma size_sum3: "a < 2 ^ 32 \<Longrightarrow> b \<le> 2 ^ 63 \<Longrightarrow> c \<le> 4 \<Longrightarrow> size_add a (b + c) = a + (b + c)"
  by (rule size_add_exact) (simp add: SIZE_LIMIT_def)

lemma element_der:
  assumes "cbs = der_tag tag @ c" "length cbs < 2 ^ 63"
  shows "cbs_get_any_asn1_element cbs False =
     (case dec_len c of
        None \<Rightarrow> (None, cbs)
      | Some (n, k) \<Rightarrow>
          (case CBS_get_bytes cbs (n + (length (der_tag tag) + k)) of
             (None, c') \<Rightarrow> (None, c')
           | (Some out, c') \<Rightarrow> (Some (out, tag, length (der_tag tag) + k), c')))"
proof (cases c)
  case Nil
  have "parse_asn1_tag cbs = (Some tag, c)" using assms(1) parse_asn1_tag_iff by simp
  then show ?thesis by (simp add: cbs_get_any_asn1_element_def dec_len_def Nil)
next
  case (Cons lb h)
  have p: "parse_asn1_tag cbs = (Some tag, lb # h)" using assms(1) parse_asn1_tag_iff Cons by simp
  have hl: "CBS_len cbs - CBS_len h = length (der_tag tag) + 1"
    using assms(1) Cons by (simp add: CBS_len_def)
  have lim: "length (der_tag tag) + 1 \<le> 2 ^ 63" using assms Cons by simp
  show ?thesis
  proof (cases "unat lb < 128")
    case True
    have "size_add (unat lb) (length (der_tag tag) + 1) = unat lb + (length (der_tag tag) + 1)"
      using lim True by (intro size_add_exact) (simp add: SIZE_LIMIT_def)
    then show ?thesis
      using True by (simp add: cbs_get_any_asn1_element_def p hl u8_top_bit dec_len_def Cons Let_def cong: option.case_cong prod.case_cong)
  next
    case False
    obtain num where num: "unat lb - 128 = num" by blast
    note unf = cbs_get_any_asn1_element_def p hl u8_top_bit dec_len_def Cons Let_def num_bytes [OF False] num
    show ?thesis
    proof (cases "num = 0 \<or> num > 4 \<or> length h < num")
      case True
      then show ?thesis
        using False cbs_get_u_None [of h num] by (auto simp: unf)
    next
      case ok: False
      let ?v = "be_acc 0 (take num h) :: u64"
      have v: "unat ?v = be_nat (take num h)" using ok by (intro unat_be_acc_u64) simp
      have get: "cbs_get_u h num = (Some ?v, drop num h)" using ok by (simp add: cbs_get_u_if)
      have "be_nat (take num h) < 256 ^ num" using be_nat_bound [of "take num h"] ok by simp
      also have "(256::nat) ^ num \<le> 256 ^ 4" using ok by (intro power_increasing) simp_all
      finally have small: "be_nat (take num h) < 2 ^ 32" by simp
      have add: "size_add (be_nat (take num h)) (length (der_tag tag) + 1 + num)
          = be_nat (take num h) + (length (der_tag tag) + 1 + num)"
        using small lim ok by (intro size_sum3) auto
      show ?thesis
        using False ok drop_bit_min [of num ?v]
        by (simp add: unf get v u64_lt_128 add [simplified] cong: option.case_cong prod.case_cong)
    qed
  qed
qed

definition der :: "u32 \<Rightarrow> u8 list \<Rightarrow> u8 list" where
  "der tag body = der_tag tag @ der_length (length body) @ body"

lemma CBS_get_any_asn1_element_Some:
  assumes "length cbs < 2 ^ 63"
  shows "CBS_get_any_asn1_element cbs = (Some (out, tag, hl), rest) \<longleftrightarrow>
     (\<exists>body. length body < 2 ^ 32 \<and> out = der tag body \<and> hl + length body = length out \<and> cbs = out @ rest)"
proof
  assume g: "CBS_get_any_asn1_element cbs = (Some (out, tag, hl), rest)"
  then have g': "cbs_get_any_asn1_element cbs False = (Some (out, tag, hl), rest)"
    by (simp add: CBS_get_any_asn1_element_def)
  then obtain c where "parse_asn1_tag cbs = (Some tag, c)"
    unfolding cbs_get_any_asn1_element_def
    by (auto simp: Let_def split: prod.splits option.splits if_splits)
  then have c: "cbs = der_tag tag @ c" by (simp add: parse_asn1_tag_iff)
  from g' obtain n k where nk: "dec_len c = Some (n, k)"
      "CBS_get_bytes cbs (n + (length (der_tag tag) + k)) = (Some out, rest)" "hl = length (der_tag tag) + k"
    unfolding element_der [OF c assms] by (auto split: option.splits prod.splits)
  from dec_len_sound [OF nk(1)] obtain h where
    h: "n < 2 ^ 32" "k = length (der_length n)" "c = der_length n @ h" by blast
  from nk(2) have out: "cbs = out @ rest" "length out = n + (length (der_tag tag) + k)"
    by (simp_all add: CBS_get_bytes_Some)
  have "out = take (length out) cbs" using out(1) by simp
  also have "\<dots> = der_tag tag @ der_length n @ take n h"
    using out(2) h(2,3) by (simp add: c)
  finally have o: "out = der_tag tag @ der_length n @ take n h" .
  then have len: "length (take n h) = n" using out(2) h(2) by simp
  show "\<exists>body. length body < 2 ^ 32 \<and> out = der tag body \<and> hl + length body = length out \<and> cbs = out @ rest"
    by (rule exI [of _ "take n h"]) (use o len h(1) out nk(3) in \<open>simp add: der_def\<close>)
next
  assume "\<exists>body. length body < 2 ^ 32 \<and> out = der tag body \<and> hl + length body = length out \<and> cbs = out @ rest"
  then obtain body where b: "length body < 2 ^ 32" "out = der tag body" "hl + length body = length out"
    "cbs = out @ rest" by blast
  have c: "cbs = der_tag tag @ (der_length (length body) @ body @ rest)" using b by (simp add: der_def)
  have "CBS_get_bytes cbs (length body + (length (der_tag tag) + length (der_length (length body)))) = (Some out, rest)"
    using b by (simp add: CBS_get_bytes_Some der_def)
  then show "CBS_get_any_asn1_element cbs = (Some (out, tag, hl), rest)"
    unfolding CBS_get_any_asn1_element_def element_der [OF c assms] dec_len_complete [OF b(1)]
    using b by (simp add: der_def)
qed

text \<open>The identifier octet of a tag number below 31.\<close>

definition low_tag :: "u8 \<Rightarrow> u32" where
  "low_tag b = push_bit 24 (ucast (b AND 0xe0)) OR ucast (b AND 0x1f)"

lemma parse_low_tag:
  assumes "b AND 0x1f \<noteq> 0x1f"
  shows "parse_asn1_tag (b # c) = (Some (low_tag b), c)"
  using assms by (simp add: parse_asn1_tag_Cons low_tag_def)

lemma der_low_tag: "b AND 0x1f \<noteq> 0x1f \<Longrightarrow> der_tag (low_tag b) = [b]"
  using parse_low_tag [of b "[]"] by (simp add: parse_asn1_tag_iff)

text \<open>C20: the DER parser accepts exactly the distinguished encodings of tag numbers below 31 with fewer than \<open>2 ^ 32\<close> bytes
  of contents. On an input whose identifier octet is not the escape to the high-tag-number form, an element is returned,
  with its tag and the length of its header, precisely when the octet is followed by the minimal length octets and that
  many bytes; the rest of the input is left.\<close>

theorem CBS_get_any_asn1_element_iff:
  assumes "length (b # c) < 2 ^ 63" "b AND 0x1f \<noteq> 0x1f"
  shows "CBS_get_any_asn1_element (b # c) = (Some (out, tag, hl), rest) \<longleftrightarrow>
     (\<exists>body. length body < 2 ^ 32 \<and> out = b # der_length (length body) @ body \<and> tag = low_tag b \<and>
        hl = 1 + length (der_length (length body)) \<and> b # c = out @ rest)"
proof
  assume "CBS_get_any_asn1_element (b # c) = (Some (out, tag, hl), rest)"
  then obtain body where body: "length body < 2 ^ 32" "out = der tag body" "hl + length body = length out" "b # c = out @ rest"
    unfolding CBS_get_any_asn1_element_Some [OF assms(1)] by blast
  then have "b # c = der_tag tag @ (der_length (length body) @ body @ rest)" by (simp add: der_def)
  then have "tag = low_tag b"
    using parse_asn1_tag_iff [of "b # c" tag] parse_low_tag [OF assms(2), of c] by auto
  then have "out = b # der_length (length body) @ body" using body(2) der_low_tag [OF assms(2)] by (simp add: der_def)
  then show "\<exists>body. length body < 2 ^ 32 \<and> out = b # der_length (length body) @ body \<and> tag = low_tag b \<and>
        hl = 1 + length (der_length (length body)) \<and> b # c = out @ rest"
    using body \<open>tag = low_tag b\<close> by (intro exI [of _ body]) simp
next
  assume "\<exists>body. length body < 2 ^ 32 \<and> out = b # der_length (length body) @ body \<and> tag = low_tag b \<and>
        hl = 1 + length (der_length (length body)) \<and> b # c = out @ rest"
  then show "CBS_get_any_asn1_element (b # c) = (Some (out, tag, hl), rest)"
    unfolding CBS_get_any_asn1_element_Some [OF assms(1)] der_def using der_low_tag [OF assms(2)] by auto
qed

theorem CBS_get_any_asn1_element_iff_witness:
  "CBS_get_any_asn1_element [0x30, 2, 7, 8, 9] = (Some ([0x30, 2, 7, 8], 0x20000010, 2), [9])"
proof -
  have "low_tag 0x30 = 0x20000010" "der_length 2 = [2]" by (simp_all add: low_tag_def der_length_def)
  then have "\<exists>body. length body < 2 ^ 32 \<and> [0x30, 2, 7, 8] = 0x30 # der_length (length body) @ body \<and>
      0x20000010 = low_tag 0x30 \<and> 2 = 1 + length (der_length (length body)) \<and> [0x30, 2, 7, 8, 9] = [0x30, 2, 7, 8] @ [9]"
    by (intro exI [of _ "[7, 8]"]) (simp flip: numeral_2_eq_2)
  then show ?thesis
    using CBS_get_any_asn1_element_iff [of "0x30" "[2, 7, 8, 9]" "[0x30, 2, 7, 8]" "0x20000010" 2 "[9]"] by simp
qed

lemma CBS_get_asn1_Some:
  assumes "length cbs < 2 ^ 63"
  shows "CBS_get_asn1 cbs tag = (Some body, rest) \<longleftrightarrow> length body < 2 ^ 32 \<and> cbs = der tag body @ rest"
proof
  assume "CBS_get_asn1 cbs tag = (Some body, rest)"
  then obtain out hl where e: "CBS_get_any_asn1_element cbs = (Some (out, tag, hl), rest)"
      and s: "CBS_skip out hl = (True, body)"
    by (auto simp: CBS_get_asn1_def cbs_get_asn1_def split: prod.splits option.splits if_splits)
  from e CBS_get_any_asn1_element_Some [OF assms] obtain b where
    b: "length b < 2 ^ 32" "out = der tag b" "hl + length b = length out" "cbs = out @ rest" by blast
  have "hl = length (der_tag tag @ der_length (length b))" using b(2,3) by (simp add: der_def)
  then have "body = b" using s b(2) by (auto simp: CBS_skip_def cbs_get_def der_def split: if_splits)
  then show "length body < 2 ^ 32 \<and> cbs = der tag body @ rest" using b by simp
next
  assume a: "length body < 2 ^ 32 \<and> cbs = der tag body @ rest"
  let ?hl = "length (der_tag tag @ der_length (length body))"
  have "CBS_get_any_asn1_element cbs = (Some (der tag body, tag, ?hl), rest)"
    using a CBS_get_any_asn1_element_Some [OF assms, of "der tag body" tag ?hl rest] by (auto simp: der_def)
  moreover have "CBS_skip (der tag body) ?hl = (True, body)"
    by (simp add: CBS_skip_def cbs_get_def der_def)
  ultimately show "CBS_get_asn1 cbs tag = (Some body, rest)"
    by (simp add: CBS_get_asn1_def cbs_get_asn1_def)
qed

subsection \<open>Integers\<close>

lemma drop_bit_56: "drop_bit 56 (v :: u64) \<noteq> 0 \<longleftrightarrow> 2 ^ 56 \<le> unat v"
proof -
  have "drop_bit 56 v = 0 \<longleftrightarrow> unat v div 2 ^ 56 = 0"
    using unat_drop_bit [of 56 v] by (metis unat_eq_zero)
  then show ?thesis by (auto simp: div_eq_0_iff)
qed

lemma asn1_uint64_loop_value:
  "asn1_uint64_loop out data =
     (if unat out * 256 ^ length data + be_nat data < 2 ^ 64
      then Some (word_of_nat (unat out * 256 ^ length data + be_nat data)) else None)"
proof (induction data arbitrary: out)
  case Nil
  have "unat out < 2 ^ 64" using unsigned_less [of out, where ?'a = nat] by simp
  then show ?case by simp
next
  case (Cons b data)
  have eq: "(unat out * 256 + unat b) * 256 ^ length data + be_nat data
      = unat out * 256 ^ length (b # data) + be_nat (b # data)"
    by (simp add: algebra_simps)
  show ?case
  proof (cases "2 ^ 56 \<le> unat out")
    case True
    have "(2::nat) ^ 64 = 2 ^ 56 * 256 ^ Suc 0" by simp
    also have "\<dots> \<le> unat out * 256 ^ length (b # data)"
      using True by (intro mult_mono power_increasing) simp_all
    finally have "\<not> unat out * 256 ^ length (b # data) + be_nat (b # data) < 2 ^ 64" by simp
    then show ?thesis using True drop_bit_56 [of out] by (simp only: asn1_uint64_loop.simps if_True if_False)
  next
    case False
    then have "unat (push_bit 8 out OR ucast b) = unat out * 256 + unat b"
      by (intro unat_shift_in_byte) simp_all
    then show ?thesis
      using False drop_bit_56 [of out] Cons.IH [of "push_bit 8 out OR ucast b"] eq
      by (simp only: asn1_uint64_loop.simps if_False)
  qed
qed

text \<open>The contents octets of a non-negative INTEGER.\<close>

definition der_uint :: "nat \<Rightarrow> u8 list" where
  "der_uint n = (if be_min n = [] \<or> 128 \<le> unat (hd (be_min n)) then 0 # be_min n else be_min n)"

definition minimal_uint :: "u8 list \<Rightarrow> bool" where
  "minimal_uint data \<longleftrightarrow> data \<noteq> [] \<and> unat (data ! 0) < 128 \<and>
     \<not> (data ! 0 = 0 \<and> length data > 1 \<and> unat (data ! 1) < 128)"

lemma be_nat_der_uint [simp]: "be_nat (der_uint n) = n"
  by (simp add: der_uint_def)

lemma minimal_der_uint: "minimal_uint (der_uint n)"
proof (cases "n = 0")
  case False
  then show ?thesis
    using be_min_hd [of n] by (cases "be_min n") (auto simp: minimal_uint_def der_uint_def)
qed (simp add: minimal_uint_def der_uint_def)

lemma der_uint_be_nat:
  assumes "minimal_uint data"
  shows "der_uint (be_nat data) = data"
proof (cases data)
  case (Cons b d)
  show ?thesis
  proof (cases "b = 0")
    case False
    then have "be_min (be_nat data) = data" by (intro be_min_be_nat) (simp add: Cons)
    then show ?thesis using assms by (simp add: der_uint_def minimal_uint_def Cons del: be_nat_simps)
  next
    case True
    have "d = [] \<or> hd d \<noteq> 0 \<and> 128 \<le> unat (hd d)"
      using assms True by (cases d) (auto simp: minimal_uint_def Cons)
    moreover from this have "be_min (be_nat d) = d" by (intro be_min_be_nat) blast
    ultimately show ?thesis using True by (auto simp: der_uint_def Cons)
  qed
qed (use assms in \<open>simp add: minimal_uint_def\<close>)

lemma length_der_uint:
  assumes "n < 2 ^ 64"
  shows "length (der_uint n) < 2 ^ 32"
proof -
  have "length (be_min n) \<le> 8" using assms by (intro length_be_min) simp
  then show ?thesis by (simp add: der_uint_def)
qed

lemma CBS_get_asn1_uint64_Some:
  assumes "length cbs < 2 ^ 63"
  shows "CBS_get_asn1_uint64 cbs = (Some v, rest) \<longleftrightarrow> cbs = der CBS_ASN1_INTEGER (der_uint (unat v)) @ rest"
proof -
  have step: "CBS_get_asn1_uint64 cbs = (case CBS_get_asn1 cbs CBS_ASN1_INTEGER of
        (None, cbs') \<Rightarrow> (None, cbs')
      | (Some data, cbs') \<Rightarrow> if minimal_uint data then (asn1_uint64_loop 0 data, cbs') else (None, cbs'))"
    unfolding CBS_get_asn1_uint64_def
    by (auto simp: minimal_uint_def CBS_len_def u8_top_bit not_less split: prod.splits option.splits)
  have un: "unat v < 2 ^ 64" using unsigned_less [of v, where ?'a = nat] by simp
  show ?thesis
  proof
    assume "CBS_get_asn1_uint64 cbs = (Some v, rest)"
    then obtain data where d: "CBS_get_asn1 cbs CBS_ASN1_INTEGER = (Some data, rest)" "minimal_uint data"
        "asn1_uint64_loop 0 data = Some v"
      unfolding step by (auto split: prod.splits option.splits if_splits)
    have "be_nat data < 2 ^ 64" "v = word_of_nat (be_nat data)"
      using d(3) unfolding asn1_uint64_loop_value by (auto split: if_splits)
    then have "unat v = be_nat data" by (simp add: unat_word_of_nat)
    then have "der_uint (unat v) = data" using der_uint_be_nat [OF d(2)] by simp
    then show "cbs = der CBS_ASN1_INTEGER (der_uint (unat v)) @ rest"
      using d(1) CBS_get_asn1_Some [OF assms] by simp
  next
    assume "cbs = der CBS_ASN1_INTEGER (der_uint (unat v)) @ rest"
    then have "CBS_get_asn1 cbs CBS_ASN1_INTEGER = (Some (der_uint (unat v)), rest)"
      using CBS_get_asn1_Some [OF assms] length_der_uint [OF un] by simp
    then show "CBS_get_asn1_uint64 cbs = (Some v, rest)"
      using un by (simp add: step minimal_der_uint asn1_uint64_loop_value)
  qed
qed

text \<open>\<open>CBS_get_asn1_uint64\<close> accepts exactly the DER INTEGERs between 0 and \<open>2 ^ 64 - 1\<close>, in their
  minimal encoding, and returns their value.\<close>

theorem CBS_get_asn1_uint64_iff:
  assumes "length cbs < 2 ^ 63"
  shows "CBS_get_asn1_uint64 cbs = (Some v, rest) \<longleftrightarrow> cbs = der CBS_ASN1_INTEGER (der_uint (unat v)) @ rest"
  by (rule CBS_get_asn1_uint64_Some [OF assms])

theorem CBS_get_asn1_uint64_iff_witness:
  "CBS_get_asn1_uint64 [2, 2, 0, 0x80, 9] = (Some 128, [9])"
proof -
  have "be_min 128 = [0x80]" by (simp add: be_min.simps)
  then have "der CBS_ASN1_INTEGER (der_uint 128) = [2, 2, 0, 0x80]"
    by (simp add: der_def der_tag_def tag_number_def tag_class_def der_length_def der_uint_def)
  then show ?thesis
    using CBS_get_asn1_uint64_iff [of "[2, 2, 0, 0x80, 9]" 128 "[9]"] by simp
qed


subsection \<open>Signed integers, optional elements, BER\<close>

text \<open>The contents octets of a signed INTEGER: the eight bytes, most significant first, without the
  leading ones that only repeat the sign.\<close>

fun shrink :: "u8 list \<Rightarrow> u8 list" where
  "shrink (a # b # bs) =
     (if a = 0 \<and> unat b < 128 \<or> a = 0xff \<and> 128 \<le> unat b then shrink (b # bs) else a # b # bs)"
| "shrink bs = bs"

definition der_sint :: "u64 \<Rightarrow> u8 list" where
  "der_sint v = shrink (rev (le_bytes 8 v))"

definition sign_fill :: "u8 list \<Rightarrow> u8" where
  "sign_fill data = (if 128 \<le> unat (data ! 0) then 0xff else 0)"

lemma shrink_nonempty: "bs \<noteq> [] \<Longrightarrow> shrink bs \<noteq> []"
  by (induction bs rule: shrink.induct) auto

lemma shrink_idem: "shrink (shrink bs) = shrink bs"
  by (induction bs rule: shrink.induct) auto

lemma shrink_sign: "128 \<le> unat (shrink bs ! 0) \<longleftrightarrow> 128 \<le> unat (bs ! 0)"
  by (induction bs rule: shrink.induct) auto

lemma sign_fill_shrink: "sign_fill (shrink bs) = sign_fill bs"
  by (simp only: sign_fill_def shrink_sign)

lemma shrink_fill: "bs \<noteq> [] \<Longrightarrow> \<exists>k. bs = replicate k (sign_fill bs) @ shrink bs"
proof (induction bs rule: shrink.induct)
  case (1 a b bs)
  show ?case
  proof (cases "a = 0 \<and> unat b < 128 \<or> a = 0xff \<and> 128 \<le> unat b")
    case True
    then obtain k where k: "b # bs = replicate k (sign_fill (b # bs)) @ shrink (b # bs)" using 1 by auto
    have "sign_fill (a # b # bs) = a" "sign_fill (b # bs) = a" using True by (auto simp: sign_fill_def)
    then show ?thesis using True k by (intro exI [of _ "Suc k"]) simp
  next
    case False
    then show ?thesis by (intro exI [of _ 0]) auto
  qed
qed (auto intro: exI [of _ 0])

lemma shrink_replicate:
  "data \<noteq> [] \<Longrightarrow> shrink (replicate k (sign_fill data) @ data) = shrink data"
proof (induction k)
  case (Suc k)
  have "sign_fill (replicate k (sign_fill data) @ data) = sign_fill data"
    by (cases k) (auto simp: sign_fill_def nth_append)
  moreover obtain c cs where "replicate k (sign_fill data) @ data = c # cs"
    using Suc.prems by (cases "replicate k (sign_fill data) @ data") auto
  ultimately show ?case using Suc by (auto simp: sign_fill_def split: if_splits)
qed simp

lemma shrink_length: "length (shrink bs) \<le> length bs"
  by (induction bs rule: shrink.induct) auto

lemma int64_bytes:
  assumes "data \<noteq> []" "length data \<le> 8"
  shows "rev (le_bytes 8 (le_word (copy_bytes (replicate 8 (sign_fill data)) 0 (rev data)) :: u64))
       = replicate (8 - length data) (sign_fill data) @ data"
proof -
  let ?bs = "copy_bytes (replicate 8 (sign_fill data)) 0 (rev data)"
  have "le_bytes (length ?bs) (le_word ?bs :: u64) = ?bs"
    by (rule le_bytes_le_word) simp
  moreover have "?bs = rev data @ replicate (8 - length data) (sign_fill data)"
    using assms(2) by (simp add: copy_bytes_splice)
  moreover have "length ?bs = 8" by simp
  ultimately have "le_bytes 8 (le_word ?bs :: u64) = rev data @ replicate (8 - length data) (sign_fill data)"
    by (simp only:)
  then show ?thesis by (simp only: rev_append rev_replicate rev_rev_ident)
qed

lemma CBS_get_asn1_int64_Some:
  assumes "length cbs < 2 ^ 63"
  shows "CBS_get_asn1_int64 cbs = (Some v, rest) \<longleftrightarrow> cbs = der CBS_ASN1_INTEGER (der_sint v) @ rest"
proof -
  have step: "CBS_get_asn1_int64 cbs = (case CBS_get_asn1 cbs CBS_ASN1_INTEGER of
        (None, cbs') \<Rightarrow> (None, cbs')
      | (Some data, cbs') \<Rightarrow>
          if data \<noteq> [] \<and> length data \<le> 8 \<and> shrink data = data
          then (Some (le_word (copy_bytes (replicate 8 (sign_fill data)) 0 (rev data))), cbs') else (None, cbs'))"
  proof -
    have sh: "shrink data = data \<longleftrightarrow> \<not> (length data > 1 \<and> data ! 0 = 0 \<and> unat (data ! 1) < 128) \<and>
        \<not> (length data > 1 \<and> data ! 0 = 0xff \<and> 128 \<le> unat (data ! 1))" for data
      using shrink_length [of "tl data"]
      by (induction data rule: shrink.induct) (auto dest: arg_cong [of _ _ length])
    show ?thesis
      unfolding CBS_get_asn1_int64_def sh
      by (auto simp: CBS_len_def u8_top_bit not_less sign_fill_def Let_def split: prod.splits option.splits)
  qed
  show ?thesis
  proof
    assume "CBS_get_asn1_int64 cbs = (Some v, rest)"
    then obtain data where d: "CBS_get_asn1 cbs CBS_ASN1_INTEGER = (Some data, rest)"
        "data \<noteq> []" "length data \<le> 8" "shrink data = data"
        "v = le_word (copy_bytes (replicate 8 (sign_fill data)) 0 (rev data))"
      unfolding step by (auto split: prod.splits option.splits if_splits)
    have "der_sint v = data"
      unfolding der_sint_def d(5) int64_bytes [OF d(2,3)] using d(4) shrink_replicate [OF d(2)] by simp
    then show "cbs = der CBS_ASN1_INTEGER (der_sint v) @ rest"
      using d(1) CBS_get_asn1_Some [OF assms] by simp
  next
    assume cbs: "cbs = der CBS_ASN1_INTEGER (der_sint v) @ rest"
    let ?bs = "rev (le_bytes 8 v)"
    have ne: "?bs \<noteq> []" by simp
    have len: "length (der_sint v) \<le> 8" using shrink_length [of ?bs] by (simp add: der_sint_def del: le_bytes_numeral)
    have dne: "der_sint v \<noteq> []" unfolding der_sint_def by (rule shrink_nonempty [OF ne])
    obtain k where k: "?bs = replicate k (sign_fill ?bs) @ der_sint v"
      using shrink_fill [OF ne] by (auto simp only: der_sint_def)
    have "length ?bs = 8" by (simp del: le_bytes_numeral)
    then have "k = 8 - length (der_sint v)" using arg_cong [OF k, of length] by simp
    moreover have sf: "sign_fill (der_sint v) = sign_fill ?bs" by (simp only: der_sint_def sign_fill_shrink)
    ultimately have "le_bytes 8 v = le_bytes 8 (le_word (copy_bytes (replicate 8 (sign_fill (der_sint v))) 0 (rev (der_sint v))) :: u64)"
      using int64_bytes [OF dne len] k by (metis rev_rev_ident)
    then have "le_word (le_bytes 8 v) = (le_word (le_bytes 8 (le_word (copy_bytes (replicate 8 (sign_fill (der_sint v))) 0
        (rev (der_sint v))) :: u64)) :: u64)" by (rule arg_cong)
    then have v: "v = le_word (copy_bytes (replicate 8 (sign_fill (der_sint v))) 0 (rev (der_sint v)))"
      unfolding le_word_le_bytes by (simp add: take_bit_word_eq_self)
    have "CBS_get_asn1 cbs CBS_ASN1_INTEGER = (Some (der_sint v), rest)"
      using CBS_get_asn1_Some [OF assms] cbs len by simp
    then show "CBS_get_asn1_int64 cbs = (Some v, rest)"
      using dne len v shrink_idem [of ?bs] by (simp add: step der_sint_def [symmetric] del: le_bytes_numeral)
  qed
qed

text \<open>C38: \<open>CBS_get_asn1_int64\<close> accepts exactly the minimal two's complement INTEGERs of at most eight
  bytes, and returns the 64-bit integer they encode.\<close>

theorem CBS_get_asn1_int64_iff:
  assumes "length cbs < 2 ^ 63"
  shows "CBS_get_asn1_int64 cbs = (Some v, rest) \<longleftrightarrow> cbs = der CBS_ASN1_INTEGER (der_sint v) @ rest"
  by (rule CBS_get_asn1_int64_Some [OF assms])

theorem CBS_get_asn1_int64_iff_witness:
  "CBS_get_asn1_int64 [2, 1, 0xff, 9] = (Some (- 1), [9])"
proof -
  have "der_sint (- 1) = [0xff]" by code_simp
  then have "der CBS_ASN1_INTEGER (der_sint (- 1)) = [2, 1, 0xff]"
    by (simp add: der_def der_tag_def tag_number_def tag_class_def der_length_def)
  then show ?thesis
    using CBS_get_asn1_int64_iff [of "[2, 1, 0xff, 9]" "- 1" "[9]"] by simp
qed

end
