(* ===== verification/Cbb.thy ===== *)
theory Cbb
  imports Cbs_Asn1
begin

text \<open>
  The byte-string builder of BoringSSL (\<open>crypto/bytestring/cbb.c\<close>). One buffer is shared by a top-level
  \<open>CBB\<close> and the chain of its pending children. A state is the buffer and that chain, outermost child
  first; a \<open>CBB\<close> of the code is its depth in the chain, 0 for the top level. A depth beyond the chain is
  a child that has been flushed: its base is NULL and every operation on it fails. Children of the code
  are created and flushed in this order only. \<open>alloc\<close> gives the bytes of a fresh block of
  \<open>OPENSSL_malloc\<close>, or \<open>None\<close>.
\<close>

record cbb_buffer =
  cb_buf :: "u8 list"
  cb_len :: nat
  cb_cap :: nat
  cb_can_resize :: bool
  cb_error :: bool

record cbb_child =
  ch_offset :: nat
  ch_pending_len_len :: nat
  ch_pending_is_asn1 :: bool

record cbb =
  cbb_base :: "cbb_buffer option"
  cbb_children :: "cbb_child list"

definition CBB_zero :: cbb where
  "CBB_zero = \<lparr>cbb_base = None, cbb_children = []\<rparr>"

text \<open>\<open>have_base\<close>: whether the allocation of the \<open>cbb_buffer_st\<close> succeeds.\<close>

definition cbb_init :: "bool \<Rightarrow> u8 list \<Rightarrow> nat \<Rightarrow> bool \<Rightarrow> cbb option" where
  "cbb_init have_base buf cap can_resize =
     (if \<not> have_base then None
      else Some \<lparr>cbb_base = Some \<lparr>cb_buf = buf, cb_len = 0, cb_cap = cap, cb_can_resize = can_resize,
                                  cb_error = False\<rparr>,
                 cbb_children = []\<rparr>)"

definition CBB_init :: "allocator \<Rightarrow> bool \<Rightarrow> nat \<Rightarrow> cbb option" where
  "CBB_init alloc have_base initial_capacity =
     (case alloc initial_capacity of
        None \<Rightarrow> if initial_capacity > 0 then None else cbb_init have_base [] initial_capacity True
      | Some buf \<Rightarrow> cbb_init have_base buf initial_capacity True)"

definition CBB_init_fixed :: "bool \<Rightarrow> u8 list \<Rightarrow> nat \<Rightarrow> cbb option" where
  "CBB_init_fixed have_base buf len = cbb_init have_base buf len False"

definition CBB_cleanup :: "cbb \<Rightarrow> cbb" where
  "CBB_cleanup st = st\<lparr>cbb_base := None\<rparr>"

subsection \<open>The buffer\<close>

text \<open>\<open>OPENSSL_realloc\<close> on the caller's bytes: those that fit are kept, the others are fresh.\<close>

definition realloc_bytes :: "allocator \<Rightarrow> u8 list \<Rightarrow> nat \<Rightarrow> u8 list option" where
  "realloc_bytes alloc buf new_size =
     (case alloc new_size of None \<Rightarrow> None
      | Some fresh \<Rightarrow> Some (take new_size buf @ drop (length buf) fresh))"

definition cbb_err :: "cbb_buffer \<Rightarrow> bool \<times> cbb_buffer" where
  "cbb_err base = (False, base\<lparr>cb_error := True\<rparr>)"

definition cbb_buffer_reserve :: "allocator \<Rightarrow> cbb_buffer \<Rightarrow> nat \<Rightarrow> bool \<times> cbb_buffer" where
  "cbb_buffer_reserve alloc base len =
     (let newlen = size_add (cb_len base) len in
      if newlen < cb_len base then cbb_err base
      else if newlen > cb_cap base then
        (if \<not> cb_can_resize base then cbb_err base
         else
           let newcap0 = size_mul (cb_cap base) 2;
               newcap = (if newcap0 < cb_cap base \<or> newcap0 < newlen then newlen else newcap0)
           in case realloc_bytes alloc (cb_buf base) newcap of
                None \<Rightarrow> cbb_err base
              | Some newbuf \<Rightarrow> (True, base\<lparr>cb_buf := newbuf, cb_cap := newcap\<rparr>))
      else (True, base))"

definition cbb_buffer_add :: "allocator \<Rightarrow> cbb_buffer \<Rightarrow> nat \<Rightarrow> bool \<times> cbb_buffer" where
  "cbb_buffer_add alloc base len =
     (case cbb_buffer_reserve alloc base len of (ok, base') \<Rightarrow>
        if \<not> ok then (False, base') else (True, base'\<lparr>cb_len := size_add (cb_len base') len\<rparr>))"

text \<open>Adding bytes and filling them in, from the offset that the code keeps in its pointer.\<close>

definition cbb_buffer_put :: "allocator \<Rightarrow> cbb_buffer \<Rightarrow> u8 list \<Rightarrow> bool \<times> cbb_buffer" where
  "cbb_buffer_put alloc base bs =
     (case cbb_buffer_add alloc base (length bs) of (ok, base') \<Rightarrow>
        if \<not> ok then (False, base')
        else (True, base'\<lparr>cb_buf := copy_bytes (cb_buf base') (cb_len base) bs\<rparr>))"

definition cbb_buffer_add_u :: "allocator \<Rightarrow> cbb_buffer \<Rightarrow> u64 \<Rightarrow> nat \<Rightarrow> bool \<times> cbb_buffer" where
  "cbb_buffer_add_u alloc base v len_len =
     (if len_len = 0 then (True, base)
      else case cbb_buffer_put alloc base (rev (le_bytes len_len v)) of (ok, base') \<Rightarrow>
        if \<not> ok then (False, base')
        else if drop_bit (8 * len_len) v \<noteq> 0 then cbb_err base'
        else (True, base'))"

subsection \<open>Flushing\<close>

text \<open>How many octets the length of an ASN.1 element takes, the first of them, and the rest of the length.\<close>

definition asn1_length_form :: "nat \<Rightarrow> nat \<times> u8 \<times> nat" where
  "asn1_length_form len =
     (if len > 0xffffff then (5, 0x80 OR 4, len)
      else if len > 0xffff then (4, 0x80 OR 3, len)
      else if len > 0xff then (3, 0x80 OR 2, len)
      else if len > 0x7f then (2, 0x80 OR 1, len)
      else (1, word_of_nat len, 0))"

text \<open>The loop that writes the big-endian length, backwards, over \<open>n\<close> bytes; the rest of \<open>len\<close> must be 0.\<close>

fun write_length :: "u8 list \<Rightarrow> nat \<Rightarrow> nat \<Rightarrow> nat \<Rightarrow> u8 list \<times> nat" where
  "write_length buf off 0 len = (buf, len)"
| "write_length buf off (Suc n) len =
     write_length (buf[off + n := word_of_nat len]) off n (len div 256)"

text \<open>Once the length of the contents is known: the prefix of one child is written.\<close>

definition cbb_close_child :: "allocator \<Rightarrow> cbb_buffer \<Rightarrow> cbb_child \<Rightarrow> bool \<times> cbb_buffer" where
  "cbb_close_child alloc base c =
     (let child_start = size_add (ch_offset c) (ch_pending_len_len c);
          len = cb_len base - child_start
      in
        if ch_pending_is_asn1 c then
          (if len > 0xfffffffe then cbb_err base
           else case asn1_length_form len of (len_len, initial_length_byte, len') \<Rightarrow>
             (case (if len_len = 1 then (True, base)
                    else
                      let extra_bytes = len_len - 1 in
                      case cbb_buffer_add alloc base extra_bytes of (ok, base1) \<Rightarrow>
                        if \<not> ok then (False, base1)
                        else (True, base1\<lparr>cb_buf :=
                               copy_bytes (cb_buf base1) (child_start + extra_bytes)
                                 (take len (drop child_start (cb_buf base1)))\<rparr>)) of
                (ok, base1) \<Rightarrow>
                  if \<not> ok then cbb_err base1
                  else
                    let buf1 = (cb_buf base1)[ch_offset c := initial_length_byte] in
                    case write_length buf1 (ch_offset c + 1) (len_len - 1) len' of (buf2, rest) \<Rightarrow>
                      if rest \<noteq> 0 then cbb_err (base1\<lparr>cb_buf := buf2\<rparr>)
                      else (True, base1\<lparr>cb_buf := buf2\<rparr>)))
        else
          case write_length (cb_buf base) (ch_offset c) (ch_pending_len_len c) len of (buf2, rest) \<Rightarrow>
            if rest \<noteq> 0 then cbb_err (base\<lparr>cb_buf := buf2\<rparr>) else (True, base\<lparr>cb_buf := buf2\<rparr>))"

fun cbb_flush :: "allocator \<Rightarrow> cbb_buffer \<Rightarrow> cbb_child list \<Rightarrow> bool \<times> cbb_buffer \<times> cbb_child list" where
  "cbb_flush alloc base [] = (\<not> cb_error base, base, [])"
| "cbb_flush alloc base (c # cs) =
     (if cb_error base then (False, base, c # cs)
      else if ch_pending_len_len c = 0 then (True, base, c # cs)
      else
        let child_start = size_add (ch_offset c) (ch_pending_len_len c) in
        case cbb_flush alloc base cs of (ok, base1, cs1) \<Rightarrow>
          if \<not> ok \<or> child_start < ch_offset c \<or> cb_len base1 < child_start
          then (False, base1\<lparr>cb_error := True\<rparr>, c # cs1)
          else case cbb_close_child alloc base1 c of (ok2, base2) \<Rightarrow>
            if ok2 then (True, base2, []) else (False, base2, c # cs1))"

definition CBB_flush :: "allocator \<Rightarrow> cbb \<Rightarrow> nat \<Rightarrow> bool \<times> cbb" where
  "CBB_flush alloc st d =
     (case cbb_base st of
        None \<Rightarrow> (False, st)
      | Some base \<Rightarrow>
          if length (cbb_children st) < d then (False, st)
          else case cbb_flush alloc base (drop d (cbb_children st)) of (ok, base', cs') \<Rightarrow>
            (ok, st\<lparr>cbb_base := Some base', cbb_children := take d (cbb_children st) @ cs'\<rparr>))"

subsection \<open>Operations\<close>

text \<open>Flush, then an operation on the buffer.\<close>

definition cbb_flush_then ::
  "allocator \<Rightarrow> cbb \<Rightarrow> nat \<Rightarrow> (cbb_buffer \<Rightarrow> bool \<times> cbb_buffer) \<Rightarrow> bool \<times> cbb" where
  "cbb_flush_then alloc st d f =
     (case CBB_flush alloc st d of (ok, st') \<Rightarrow>
        if \<not> ok then (False, st')
        else case cbb_base st' of
          None \<Rightarrow> (False, st')
        | Some base \<Rightarrow> (case f base of (ok', base') \<Rightarrow> (ok', st'\<lparr>cbb_base := Some base'\<rparr>)))"

text \<open>\<open>out_data\<close> and \<open>out_len\<close> are taken non-null; the code lets them be NULL for a fixed buffer only.\<close>

definition CBB_finish :: "allocator \<Rightarrow> cbb \<Rightarrow> nat \<Rightarrow> (u8 list \<times> nat) option \<times> cbb" where
  "CBB_finish alloc st d =
     (if d > 0 then (None, st)
      else case CBB_flush alloc st d of (ok, st') \<Rightarrow>
        if \<not> ok then (None, st')
        else case cbb_base st' of
          None \<Rightarrow> (None, st')
        | Some base \<Rightarrow> (Some (cb_buf base, cb_len base), CBB_cleanup st'))"

definition cbb_start :: "cbb \<Rightarrow> nat \<Rightarrow> nat" where
  "cbb_start st d = (if d = 0 then 0 else
     let c = cbb_children st ! (d - 1) in ch_offset c + ch_pending_len_len c)"

definition CBB_len :: "cbb \<Rightarrow> nat \<Rightarrow> nat" where
  "CBB_len st d = (case cbb_base st of None \<Rightarrow> 0 | Some base \<Rightarrow> cb_len base - cbb_start st d)"

definition CBB_data :: "cbb \<Rightarrow> nat \<Rightarrow> u8 list" where
  "CBB_data st d = (case cbb_base st of None \<Rightarrow> [] | Some base \<Rightarrow> drop (cbb_start st d) (cb_buf base))"

definition push_child :: "cbb \<Rightarrow> nat \<Rightarrow> cbb_child \<Rightarrow> cbb" where
  "push_child st d c = st\<lparr>cbb_children := take d (cbb_children st) @ [c]\<rparr>"

text \<open>The new child is at depth \<open>d + 1\<close>.\<close>

definition cbb_add_length_prefixed :: "allocator \<Rightarrow> cbb \<Rightarrow> nat \<Rightarrow> nat \<Rightarrow> bool \<times> cbb" where
  "cbb_add_length_prefixed alloc st d len_len =
     (case CBB_flush alloc st d of (ok, st') \<Rightarrow>
        if \<not> ok then (False, st')
        else case cbb_base st' of
          None \<Rightarrow> (False, st')
        | Some base \<Rightarrow>
            (case cbb_buffer_put alloc base (replicate len_len 0) of (ok', base') \<Rightarrow>
               let st2 = st'\<lparr>cbb_base := Some base'\<rparr> in
               if \<not> ok' then (False, st2)
               else (True, push_child st2 d \<lparr>ch_offset = cb_len base, ch_pending_len_len = len_len,
                                            ch_pending_is_asn1 = False\<rparr>)))"

definition CBB_add_u8_length_prefixed :: "allocator \<Rightarrow> cbb \<Rightarrow> nat \<Rightarrow> bool \<times> cbb" where
  "CBB_add_u8_length_prefixed alloc st d = cbb_add_length_prefixed alloc st d 1"

definition CBB_add_u16_length_prefixed :: "allocator \<Rightarrow> cbb \<Rightarrow> nat \<Rightarrow> bool \<times> cbb" where
  "CBB_add_u16_length_prefixed alloc st d = cbb_add_length_prefixed alloc st d 2"

definition CBB_add_u24_length_prefixed :: "allocator \<Rightarrow> cbb \<Rightarrow> nat \<Rightarrow> bool \<times> cbb" where
  "CBB_add_u24_length_prefixed alloc st d = cbb_add_length_prefixed alloc st d 3"

definition CBB_add_bytes :: "allocator \<Rightarrow> cbb \<Rightarrow> nat \<Rightarrow> u8 list \<Rightarrow> bool \<times> cbb" where
  "CBB_add_bytes alloc st d data = cbb_flush_then alloc st d (\<lambda>base. cbb_buffer_put alloc base data)"

definition CBB_add_space :: "allocator \<Rightarrow> cbb \<Rightarrow> nat \<Rightarrow> nat \<Rightarrow> bool \<times> cbb" where
  "CBB_add_space alloc st d len = cbb_flush_then alloc st d (\<lambda>base. cbb_buffer_add alloc base len)"

definition CBB_reserve :: "allocator \<Rightarrow> cbb \<Rightarrow> nat \<Rightarrow> nat \<Rightarrow> bool \<times> cbb" where
  "CBB_reserve alloc st d len = cbb_flush_then alloc st d (\<lambda>base. cbb_buffer_reserve alloc base len)"

text \<open>On a zeroed \<open>CBB\<close>, whose \<open>base\<close> the code would read through NULL, the model fails; no property covers it.\<close>

definition CBB_did_write :: "cbb \<Rightarrow> nat \<Rightarrow> nat \<Rightarrow> bool \<times> cbb" where
  "CBB_did_write st d len =
     (case cbb_base st of
        None \<Rightarrow> (False, st)
      | Some base \<Rightarrow>
          (let newlen = size_add (cb_len base) len in
           if d < length (cbb_children st) \<or> newlen < cb_len base \<or> newlen > cb_cap base then (False, st)
           else (True, st\<lparr>cbb_base := Some (base\<lparr>cb_len := newlen\<rparr>)\<rparr>)))"

definition cbb_add_u :: "allocator \<Rightarrow> cbb \<Rightarrow> nat \<Rightarrow> u64 \<Rightarrow> nat \<Rightarrow> bool \<times> cbb" where
  "cbb_add_u alloc st d v n = cbb_flush_then alloc st d (\<lambda>base. cbb_buffer_add_u alloc base v n)"

definition CBB_add_u8 :: "allocator \<Rightarrow> cbb \<Rightarrow> nat \<Rightarrow> u8 \<Rightarrow> bool \<times> cbb" where
  "CBB_add_u8 alloc st d v = cbb_add_u alloc st d (ucast v) 1"

definition CBB_add_u16 :: "allocator \<Rightarrow> cbb \<Rightarrow> nat \<Rightarrow> u16 \<Rightarrow> bool \<times> cbb" where
  "CBB_add_u16 alloc st d v = cbb_add_u alloc st d (ucast v) 2"

definition CBB_add_u16le :: "allocator \<Rightarrow> cbb \<Rightarrow> nat \<Rightarrow> u16 \<Rightarrow> bool \<times> cbb" where
  "CBB_add_u16le alloc st d v = CBB_add_u16 alloc st d (CRYPTO_bswap 2 v)"

definition CBB_add_u24 :: "allocator \<Rightarrow> cbb \<Rightarrow> nat \<Rightarrow> u32 \<Rightarrow> bool \<times> cbb" where
  "CBB_add_u24 alloc st d v = cbb_add_u alloc st d (ucast v) 3"

definition CBB_add_u32 :: "allocator \<Rightarrow> cbb \<Rightarrow> nat \<Rightarrow> u32 \<Rightarrow> bool \<times> cbb" where
  "CBB_add_u32 alloc st d v = cbb_add_u alloc st d (ucast v) 4"

definition CBB_add_u32le :: "allocator \<Rightarrow> cbb \<Rightarrow> nat \<Rightarrow> u32 \<Rightarrow> bool \<times> cbb" where
  "CBB_add_u32le alloc st d v = CBB_add_u32 alloc st d (CRYPTO_bswap 4 v)"

definition CBB_add_u64 :: "allocator \<Rightarrow> cbb \<Rightarrow> nat \<Rightarrow> u64 \<Rightarrow> bool \<times> cbb" where
  "CBB_add_u64 alloc st d v = cbb_add_u alloc st d v 8"

definition CBB_add_u64le :: "allocator \<Rightarrow> cbb \<Rightarrow> nat \<Rightarrow> u64 \<Rightarrow> bool \<times> cbb" where
  "CBB_add_u64le alloc st d v = CBB_add_u64 alloc st d (CRYPTO_bswap 8 v)"

definition CBB_discard_child :: "cbb \<Rightarrow> nat \<Rightarrow> cbb" where
  "CBB_discard_child st d =
     (if length (cbb_children st) \<le> d then st
      else st\<lparr>cbb_base := map_option (\<lambda>base. base\<lparr>cb_len := ch_offset (cbb_children st ! d)\<rparr>) (cbb_base st),
              cbb_children := take d (cbb_children st)\<rparr>)"

text \<open>\<open>if (!CBB_add_u8(cbb, b)) return 0;\<close> for each byte in turn.\<close>

fun add_u8_list :: "allocator \<Rightarrow> cbb \<Rightarrow> nat \<Rightarrow> u8 list \<Rightarrow> bool \<times> cbb" where
  "add_u8_list alloc st d [] = (True, st)"
| "add_u8_list alloc st d (b # bs) =
     (case CBB_add_u8 alloc st d b of (ok, st') \<Rightarrow> if \<not> ok then (False, st') else add_u8_list alloc st' d bs)"

function base128_len :: "u64 \<Rightarrow> nat" where
  "base128_len copy = (if copy > 0 then Suc (base128_len (drop_bit 7 copy)) else 0)"
  by pat_completeness auto
termination
proof (relation "measure unat")
  fix v :: u64
  assume "0 < v"
  then have "0 < unat v" by (simp add: word_less_nat_alt)
  then show "(drop_bit 7 v, v) \<in> measure unat"
    by (simp add: unat_drop_bit del: drop_bit_numeral_bit0 drop_bit_numeral_bit1)
qed simp

declare base128_len.simps [simp del]

definition add_base128_integer :: "allocator \<Rightarrow> cbb \<Rightarrow> nat \<Rightarrow> u64 \<Rightarrow> bool \<times> cbb" where
  "add_base128_integer alloc st d v =
     (let len_len = (if base128_len v = 0 then 1 else base128_len v) in
      add_u8_list alloc st d
        (map (\<lambda>i. (ucast (drop_bit (7 * i) v AND 0x7f) :: u8) OR (if i \<noteq> 0 then 0x80 else 0)) (rev [0..<len_len])))"

definition CBB_add_asn1 :: "allocator \<Rightarrow> cbb \<Rightarrow> nat \<Rightarrow> u32 \<Rightarrow> bool \<times> cbb" where
  "CBB_add_asn1 alloc st d tag =
     (case CBB_flush alloc st d of (ok, st0) \<Rightarrow>
        if \<not> ok then (False, st0)
        else
          let tag_bits = (ucast (drop_bit 24 tag) AND 0xe0 :: u8);
              tag_number = tag AND CBS_ASN1_TAG_NUMBER_MASK
          in case (if tag_number \<ge> 0x1f then
                     (case CBB_add_u8 alloc st0 d (tag_bits OR 0x1f) of (ok1, st1) \<Rightarrow>
                        if \<not> ok1 then (False, st1) else add_base128_integer alloc st1 d (ucast tag_number))
                   else CBB_add_u8 alloc st0 d (tag_bits OR ucast tag_number)) of
               (ok2, st2) \<Rightarrow>
                 if \<not> ok2 then (False, st2)
                 else
                   let offset = (case cbb_base st2 of None \<Rightarrow> 0 | Some base \<Rightarrow> cb_len base) in
                   case CBB_add_u8 alloc st2 d 0 of (ok3, st3) \<Rightarrow>
                     if \<not> ok3 then (False, st3)
                     else (True, push_child st3 d \<lparr>ch_offset = offset, ch_pending_len_len = 1,
                                                   ch_pending_is_asn1 = True\<rparr>))"

text \<open>An element whose contents are written by \<open>f\<close> on the new child, then flushed.\<close>

definition asn1_with :: "allocator \<Rightarrow> cbb \<Rightarrow> nat \<Rightarrow> u32 \<Rightarrow> (cbb \<Rightarrow> bool \<times> cbb) \<Rightarrow> bool \<times> cbb" where
  "asn1_with alloc st d tag f =
     (case CBB_add_asn1 alloc st d tag of (ok, st1) \<Rightarrow>
        if \<not> ok then (False, st1)
        else case f st1 of (ok2, st2) \<Rightarrow> if \<not> ok2 then (False, st2) else CBB_flush alloc st2 d)"

text \<open>The bytes the loop of \<open>CBB_add_asn1_uint64\<close> adds, after those that are still leading zeros.\<close>

fun uint64_bytes :: "bool \<Rightarrow> u8 list \<Rightarrow> u8 list" where
  "uint64_bytes started [] = (if started then [] else [0])"
| "uint64_bytes started (b # bs) =
     (if \<not> started \<and> b = 0 then uint64_bytes False bs
      else (if \<not> started \<and> b AND 0x80 \<noteq> 0 then [0, b] else [b]) @ uint64_bytes True bs)"

definition CBB_add_asn1_uint64 :: "allocator \<Rightarrow> cbb \<Rightarrow> nat \<Rightarrow> u64 \<Rightarrow> bool \<times> cbb" where
  "CBB_add_asn1_uint64 alloc st d value =
     asn1_with alloc st d CBS_ASN1_INTEGER
       (\<lambda>st. add_u8_list alloc st (Suc d)
          (uint64_bytes False (map (\<lambda>i. ucast (drop_bit (8 * (7 - i)) value AND 0xff)) [0..<8])))"

fun int64_start :: "u8 list \<Rightarrow> nat \<Rightarrow> nat" where
  "int64_start bytes 0 = 0"
| "int64_start bytes (Suc n) =
     (if bytes ! Suc n = 0xff \<and> bytes ! n AND 0x80 \<noteq> 0 then int64_start bytes n else Suc n)"

definition CBB_add_asn1_int64 :: "allocator \<Rightarrow> cbb \<Rightarrow> nat \<Rightarrow> u64 \<Rightarrow> bool \<times> cbb" where
  "CBB_add_asn1_int64 alloc st d value =
     (if 0 \<le>s value then CBB_add_asn1_uint64 alloc st d value
      else
        let bytes = le_bytes 8 value; start = int64_start bytes 7 in
        asn1_with alloc st d CBS_ASN1_INTEGER
          (\<lambda>st. add_u8_list alloc st (Suc d) (map (\<lambda>i. bytes ! i) (rev [0..<Suc start]))))"

definition CBB_add_asn1_octet_string :: "allocator \<Rightarrow> cbb \<Rightarrow> nat \<Rightarrow> u8 list \<Rightarrow> bool \<times> cbb" where
  "CBB_add_asn1_octet_string alloc st d data =
     asn1_with alloc st d CBS_ASN1_OCTETSTRING (\<lambda>st. CBB_add_bytes alloc st (Suc d) data)"

definition CBB_add_asn1_bool :: "allocator \<Rightarrow> cbb \<Rightarrow> nat \<Rightarrow> int \<Rightarrow> bool \<times> cbb" where
  "CBB_add_asn1_bool alloc st d value =
     asn1_with alloc st d CBS_ASN1_BOOLEAN (\<lambda>st. CBB_add_u8 alloc st (Suc d) (if value \<noteq> 0 then 0xff else 0))"

subsection \<open>What the buffer represents\<close>

definition cbb_rep :: "cbb_buffer \<Rightarrow> u8 list \<Rightarrow> bool" where
  "cbb_rep b w \<longleftrightarrow> \<not> cb_error b \<and> cb_len b = length w \<and> take (length w) (cb_buf b) = w \<and>
     length (cb_buf b) = cb_cap b \<and> cb_cap b < SIZE_LIMIT"

definition alloc_total :: "allocator \<Rightarrow> bool" where
  "alloc_total alloc \<longleftrightarrow> (\<forall>n < SIZE_LIMIT. \<exists>fresh. alloc n = Some fresh \<and> length fresh = n)"

text \<open>The buffer holds \<open>w\<close> and can hold up to \<open>lim\<close> bytes: it is large enough, or may grow.\<close>

definition cbb_inv :: "allocator \<Rightarrow> nat \<Rightarrow> cbb_buffer \<Rightarrow> u8 list \<Rightarrow> bool" where
  "cbb_inv alloc lim b w \<longleftrightarrow> cbb_rep b w \<and> length w \<le> lim \<and> lim < SIZE_LIMIT \<and>
     (lim \<le> cb_cap b \<or> cb_can_resize b \<and> alloc_total alloc)"

lemma take_copy_bytes_end:
  assumes "take n buf = w" "length w = n" "n + length bs \<le> length buf"
  shows "take (n + length bs) (copy_bytes buf n bs) = w @ bs"
  using assms by (simp add: copy_bytes_splice)

lemma cbb_buffer_reserve_ok:
  assumes "cbb_inv alloc lim b w" "length w + n \<le> lim"
  shows "\<exists>b'. cbb_buffer_reserve alloc b n = (True, b') \<and> cbb_inv alloc lim b' w \<and> length w + n \<le> cb_cap b'"
proof -
  have lim: "length w + n < SIZE_LIMIT" and len: "cb_len b = length w"
    and cap: "cb_cap b < SIZE_LIMIT" and buf: "length (cb_buf b) = cb_cap b" "take (length w) (cb_buf b) = w"
    using assms by (auto simp: cbb_inv_def cbb_rep_def)
  have nl: "size_add (cb_len b) n = length w + n" using lim len by (simp add: size_add_exact)
  show ?thesis
  proof (cases "length w + n > cb_cap b")
    case False
    then show ?thesis using assms nl len by (auto simp: cbb_buffer_reserve_def)
  next
    case True
    then have grow: "cb_can_resize b" "alloc_total alloc" using assms by (auto simp: cbb_inv_def)
    let ?nc = "size_mul (cb_cap b) 2"
    let ?newcap = "if ?nc < cb_cap b \<or> ?nc < length w + n then length w + n else ?nc"
    have nc: "?newcap < SIZE_LIMIT" "length w + n \<le> ?newcap" "cb_cap b \<le> ?newcap"
      using lim True by (auto simp: size_mul_def)
    then obtain fresh where fresh: "alloc ?newcap = Some fresh" "length fresh = ?newcap"
      using grow(2) by (auto simp: alloc_total_def)
    let ?buf' = "take ?newcap (cb_buf b) @ drop (length (cb_buf b)) fresh"
    have "length ?buf' = ?newcap" using fresh(2) nc(3) buf(1) by simp
    moreover have "take (length w) ?buf' = w"
    proof -
      have "length w \<le> length (cb_buf b)" using buf(2) by (metis length_take min.cobounded1)
      then show ?thesis using nc(3) buf by (simp add: min_def)
    qed
    ultimately have "cbb_inv alloc lim (b\<lparr>cb_buf := ?buf', cb_cap := ?newcap\<rparr>) w"
      using assms grow nc(1) by (simp add: cbb_inv_def cbb_rep_def)
    moreover have "cbb_buffer_reserve alloc b n = (True, b\<lparr>cb_buf := ?buf', cb_cap := ?newcap\<rparr>)"
      using True nl len grow(1) fresh(1)
      by (simp add: cbb_buffer_reserve_def realloc_bytes_def Let_def split del: if_split)
    ultimately show ?thesis using nc(2) by (intro exI) (auto split del: if_split)
  qed
qed

lemma cbb_buffer_put_ok:
  assumes "cbb_inv alloc lim b w" "length w + length bs \<le> lim"
  shows "\<exists>b'. cbb_buffer_put alloc b bs = (True, b') \<and> cbb_inv alloc lim b' (w @ bs)"
proof -
  obtain b1 where b1: "cbb_buffer_reserve alloc b (length bs) = (True, b1)" "cbb_inv alloc lim b1 w"
    "length w + length bs \<le> cb_cap b1"
    using cbb_buffer_reserve_ok [OF assms] by blast
  have len: "cb_len b = length w" "cb_len b1 = length w"
    using assms(1) b1(2) by (simp_all add: cbb_inv_def cbb_rep_def)
  have "size_add (length w) (length bs) = length w + length bs"
    using assms by (intro size_add_exact) (simp add: cbb_inv_def)
  moreover have "take (length w + length bs) (copy_bytes (cb_buf b1) (length w) bs) = w @ bs"
    using b1 by (intro take_copy_bytes_end) (auto simp: cbb_inv_def cbb_rep_def)
  ultimately show ?thesis
    using b1 len assms(2) by (auto simp: cbb_buffer_put_def cbb_buffer_add_def cbb_inv_def cbb_rep_def)
qed

lemma cbb_buffer_add_ok:
  assumes "cbb_inv alloc lim b w" "length w + n \<le> lim"
  shows "\<exists>b' bs. cbb_buffer_add alloc b n = (True, b') \<and> cbb_inv alloc lim b' (w @ bs) \<and> length bs = n"
proof -
  obtain b1 where b1: "cbb_buffer_reserve alloc b n = (True, b1)" "cbb_inv alloc lim b1 w" "length w + n \<le> cb_cap b1"
    using cbb_buffer_reserve_ok [OF assms] by blast
  let ?bs = "take n (drop (length w) (cb_buf b1))"
  have len: "length ?bs = n" using b1(2,3) by (simp add: cbb_inv_def cbb_rep_def)
  have "size_add (length w) n = length w + n"
    using assms by (intro size_add_exact) (simp add: cbb_inv_def)
  moreover have "take (length w + n) (cb_buf b1) = w @ ?bs"
    using b1(2) by (simp add: take_add cbb_inv_def cbb_rep_def)
  ultimately have "cbb_inv alloc lim (b1\<lparr>cb_len := length w + n\<rparr>) (w @ ?bs)"
    using b1 len assms(2) by (simp add: cbb_inv_def cbb_rep_def)
  moreover have "cbb_buffer_add alloc b n = (True, b1\<lparr>cb_len := length w + n\<rparr>)"
    using b1(1,2) \<open>size_add (length w) n = length w + n\<close>
    by (simp add: cbb_buffer_add_def cbb_inv_def cbb_rep_def)
  ultimately show ?thesis using len by blast
qed

subsection \<open>Closing a child\<close>

definition child_prefix :: "cbb_child \<Rightarrow> nat \<Rightarrow> u8 list" where
  "child_prefix c n = (if ch_pending_is_asn1 c then der_length n else be_fixed (ch_pending_len_len c) n)"

definition body_len :: "cbb_child \<Rightarrow> u8 list \<Rightarrow> nat" where
  "body_len c w = length w - (ch_offset c + ch_pending_len_len c)"

definition closed :: "cbb_child \<Rightarrow> u8 list \<Rightarrow> u8 list" where
  "closed c w = take (ch_offset c) w @ child_prefix c (body_len c w) @ drop (ch_offset c + ch_pending_len_len c) w"

definition closable :: "cbb_child \<Rightarrow> u8 list \<Rightarrow> bool" where
  "closable c w \<longleftrightarrow> 0 < ch_pending_len_len c \<and> ch_offset c + ch_pending_len_len c \<le> length w \<and>
     (if ch_pending_is_asn1 c then ch_pending_len_len c = 1 \<and> body_len c w \<le> 0xfffffffe
      else body_len c w < 256 ^ ch_pending_len_len c)"

lemma write_length_spec:
  "off + n \<le> length buf \<Longrightarrow>
   write_length buf off n len = (take off buf @ be_fixed n len @ drop (off + n) buf, len div 256 ^ n)"
proof (induction n arbitrary: buf len)
  case (Suc n)
  let ?b = "word_of_nat len :: u8"
  have "(word_of_nat (len mod 256) :: u8) = ?b"
    by (rule word_unat_eq_iff [THEN iffD2]) (simp add: unat_of_nat)
  moreover have "drop (off + n) (buf[off + n := ?b]) = ?b # drop (off + Suc n) buf"
    using Suc.prems by (simp add: drop_update_swap Cons_nth_drop_Suc [symmetric])
  ultimately show ?case
    using Suc.prems by (simp add: Suc.IH div_mult2_eq)
qed simp

lemma length_be_min_eq:
  assumes "256 ^ k \<le> n" "n < 256 ^ Suc k"
  shows "length (be_min n) = Suc k"
proof -
  have "n < 256 ^ length (be_min n)" using be_nat_bound [of "be_min n"] by simp
  with assms(1) have "256 ^ k < (256 :: nat) ^ length (be_min n)" by (rule le_less_trans)
  then have "k < length (be_min n)" using power_less_imp_less_exp [of "256 :: nat" k] by simp
  then show ?thesis using length_be_min [OF assms(2)] by simp
qed

lemma be_fixed_be_min:
  assumes "256 ^ k \<le> n" "n < 256 ^ Suc k"
  shows "be_fixed (Suc k) n = be_min n"
  using be_fixed_be_nat [of "be_min n"] length_be_min_eq [OF assms] by simp

lemma asn1_length_form_spec:
  assumes "n \<le> 0xfffffffe" "asn1_length_form n = (len_len, b, m)"
  shows "0 < len_len" "b # be_fixed (len_len - 1) m = der_length n" "m div 256 ^ (len_len - 1) = 0"
    "len_len = length (der_length n)" "len_len = 1 \<Longrightarrow> m = 0" "len_len \<noteq> 1 \<Longrightarrow> m = n"
proof -
  have *: "0 < len_len \<and> b # be_fixed (len_len - 1) m = der_length n \<and> m div 256 ^ (len_len - 1) = 0 \<and>
      (len_len = 1 \<longrightarrow> m = 0) \<and> (len_len \<noteq> 1 \<longrightarrow> m = n)"
  proof -
    have long: ?thesis if "len_len = Suc (Suc k)" "b = word_of_nat (128 + Suc k)" "m = n"
        "256 ^ k \<le> n" "n < 256 ^ Suc k" "128 \<le> n" for k
      using that be_fixed_be_min [OF that(4,5)] length_be_min_eq [OF that(4,5)]
      by (simp add: der_length_def)
    consider "n \<le> 0x7f" | "0x7f < n" "n \<le> 0xff" | "0xff < n" "n \<le> 0xffff" | "0xffff < n" "n \<le> 0xffffff"
      | "0xffffff < n" by linarith
    then show ?thesis
    proof cases
      case 1
      then show ?thesis using assms(2) by (auto simp: asn1_length_form_def der_length_def)
    next
      case 2
      then show ?thesis using assms(2) by (intro long [of 0]) (auto simp: asn1_length_form_def)
    next
      case 3
      then show ?thesis using assms(2) by (intro long [of 1]) (auto simp: asn1_length_form_def)
    next
      case 4
      then show ?thesis using assms(2) by (intro long [of 2]) (auto simp: asn1_length_form_def)
    next
      case 5
      then show ?thesis using assms by (intro long [of 3]) (auto simp: asn1_length_form_def)
    qed
  qed
  show "0 < len_len" "b # be_fixed (len_len - 1) m = der_length n" "m div 256 ^ (len_len - 1) = 0"
    "len_len = 1 \<Longrightarrow> m = 0" "len_len \<noteq> 1 \<Longrightarrow> m = n"
    using * by blast+
  have e: "b # be_fixed (len_len - 1) m = der_length n" using * by blast
  have "length (der_length n) = Suc (len_len - 1)" unfolding e [symmetric] by simp
  then show "len_len = length (der_length n)" using * by simp
qed


lemma length_closed: "closable c w \<Longrightarrow> length w \<le> length (closed c w)"
proof -
  assume cl: "closable c w"
  have "ch_pending_len_len c \<le> length (child_prefix c (body_len c w))"
    using cl by (auto simp: closable_def child_prefix_def der_length_def)
  then show ?thesis using cl by (simp add: closable_def closed_def)
qed

lemma cbb_close_child_plain:
  assumes inv: "cbb_inv alloc lim b w" and cl: "closable c w" "\<not> ch_pending_is_asn1 c"
  shows "\<exists>b'. cbb_close_child alloc b c = (True, b') \<and> cbb_inv alloc lim b' (closed c w)"
proof -
  let ?o = "ch_offset c" and ?p = "ch_pending_len_len c" and ?n = "body_len c w"
  have le: "?o + ?p \<le> length w" and n: "?n < 256 ^ ?p" using cl by (auto simp: closable_def)
  have lw: "length w < SIZE_LIMIT" and len: "cb_len b = length w" and wb: "take (length w) (cb_buf b) = w"
    and lb: "length w \<le> length (cb_buf b)"
    using inv by (auto simp: cbb_inv_def cbb_rep_def) (metis length_take min.cobounded1)
  have start: "size_add ?o ?p = ?o + ?p" using le lw by (intro size_add_exact) simp
  have wl: "write_length (cb_buf b) ?o ?p ?n
      = (take ?o (cb_buf b) @ be_fixed ?p ?n @ drop (?o + ?p) (cb_buf b), 0)"
    using write_length_spec [of ?o ?p "cb_buf b" ?n] le lb n by simp
  have "take (length w) (take ?o (cb_buf b) @ be_fixed ?p ?n @ drop (?o + ?p) (cb_buf b)) = closed c w"
  proof -
    have "take ?o (cb_buf b) = take ?o w" using wb le by (metis min.absorb1 take_take le_add1 le_trans)
    moreover have "take (length w - (?o + ?p)) (drop (?o + ?p) (cb_buf b)) = drop (?o + ?p) w"
      using wb by (metis drop_take)
    moreover have "min (length (cb_buf b)) ?o = ?o" using le lb by simp
    ultimately show ?thesis using le cl by (simp add: closed_def child_prefix_def)
  qed
  moreover have "length (closed c w) = length w" using le cl by (simp add: closed_def child_prefix_def)
  ultimately have "cbb_inv alloc lim (b\<lparr>cb_buf := take ?o (cb_buf b) @ be_fixed ?p ?n @ drop (?o + ?p) (cb_buf b)\<rparr>) (closed c w)"
    using inv le lb by (simp add: cbb_inv_def cbb_rep_def)
  then show ?thesis
    using cl(2) wl len start by (simp add: cbb_close_child_def body_len_def)
qed

lemma cbb_close_child_asn1:
  assumes inv: "cbb_inv alloc lim b w" and cl: "closable c w" "ch_pending_is_asn1 c"
    and lim: "length (closed c w) \<le> lim"
  shows "\<exists>b'. cbb_close_child alloc b c = (True, b') \<and> cbb_inv alloc lim b' (closed c w)"
proof -
  let ?o = "ch_offset c" and ?n = "body_len c w"
  have p: "ch_pending_len_len c = 1" and le: "?o + 1 \<le> length w" and n: "?n \<le> 0xfffffffe"
    using cl by (auto simp: closable_def)
  obtain len_len first m where form: "asn1_length_form ?n = (len_len, first, m)" by (cases "asn1_length_form ?n")
  note f = asn1_length_form_spec [OF n form]
  let ?x = "len_len - 1"
  have closed: "closed c w = take ?o w @ der_length ?n @ drop (?o + 1) w"
    using p cl(2) by (simp add: closed_def child_prefix_def)
  have lclosed: "length (closed c w) = length w + ?x"
  proof -
    have "length (closed c w) = ?o + len_len + (length w - (?o + 1))"
      using f(4) le by (simp add: closed)
    then show ?thesis using f(1) le by linarith
  qed
  have lw: "length w < SIZE_LIMIT" and len: "cb_len b = length w"
    using inv by (auto simp: cbb_inv_def cbb_rep_def)
  have start: "size_add ?o 1 = ?o + 1" using le lw by (intro size_add_exact) simp
  have nbody: "cb_len b - (?o + 1) = ?n" using len p by (simp add: body_len_def)
  text \<open>After the contents have been moved along.\<close>
  obtain b1 where b1: "(if len_len = 1 then (True, b)
      else case cbb_buffer_add alloc b ?x of (ok, base1) \<Rightarrow>
        if \<not> ok then (False, base1)
        else (True, base1\<lparr>cb_buf := copy_bytes (cb_buf base1) (?o + 1 + ?x)
               (take ?n (drop (?o + 1) (cb_buf base1)))\<rparr>)) = (True, b1)"
    and inv1: "\<exists>gap. length gap = ?x \<and> cbb_inv alloc lim b1 (take (?o + 1) w @ gap @ drop (?o + 1) w)"
  proof (cases "len_len = 1")
    case True
    then show ?thesis using that [of b] inv by simp
  next
    case False
    obtain b2 bs where b2: "cbb_buffer_add alloc b ?x = (True, b2)" "cbb_inv alloc lim b2 (w @ bs)" "length bs = ?x"
      using cbb_buffer_add_ok [OF inv, of ?x] lim lclosed by auto
    have rep: "take (length w + ?x) (cb_buf b2) = w @ bs" "length w + ?x \<le> length (cb_buf b2)"
      using b2 by (auto simp: cbb_inv_def cbb_rep_def) (metis length_append length_take min.cobounded1)
    have body: "take ?n (drop (?o + 1) (cb_buf b2)) = drop (?o + 1) w"
    proof -
      have "take (length w) (cb_buf b2) = w"
        using arg_cong [OF rep(1), of "take (length w)"] by simp
      then show ?thesis using p by (metis body_len_def drop_take)
    qed
    have tk: "take (?o + 1 + ?x) (cb_buf b2) = take (?o + 1 + ?x) (w @ bs)"
      using arg_cong [OF rep(1), of "take (?o + 1 + ?x)"] le by (simp add: min_def)
    let ?buf = "copy_bytes (cb_buf b2) (?o + 1 + ?x) (drop (?o + 1) w)"
    obtain gap where gap: "length gap = ?x" "take (?o + 1 + ?x) (w @ bs) = take (?o + 1) w @ gap"
    proof
      show "take (?o + 1 + ?x) (w @ bs) = take (?o + 1) w @ take ?x (drop (?o + 1) (w @ bs))"
        using le by (simp only: take_add) simp
      show "length (take ?x (drop (?o + 1) (w @ bs))) = ?x" using le b2(3) by simp
    qed
    let ?w1 = "take (?o + 1) w @ gap @ drop (?o + 1) w"
    have "?buf = ?w1 @ drop (length w + ?x) (cb_buf b2)"
    proof -
      have e: "?o + 1 + ?x + (length w - (?o + 1)) = length w + ?x" using le by linarith
      have "?o + 1 + ?x + length (drop (?o + 1) w) \<le> length (cb_buf b2)"
        unfolding length_drop e by (rule rep(2))
      then show ?thesis by (subst copy_bytes_splice) (simp_all only: length_drop e tk gap append.assoc)
    qed
    moreover have lw1: "length ?w1 = length w + ?x" using gap(1) le by simp
    ultimately have "take (length ?w1) ?buf = ?w1" by (metis append_eq_conv_conj)
    moreover have "length ?buf = length (cb_buf b2)" by simp
    moreover have "cb_len b2 = length ?w1" using b2(2,3) lw1 by (simp add: cbb_inv_def cbb_rep_def)
    ultimately have "cbb_inv alloc lim (b2\<lparr>cb_buf := ?buf\<rparr>) ?w1"
      using b2(2,3) lw1 unfolding cbb_inv_def cbb_rep_def by auto
    then show ?thesis
      using that [of "b2\<lparr>cb_buf := ?buf\<rparr>"] False b2(1) body gap(1) by auto
  qed
  from inv1 obtain gap where gap: "length gap = ?x"
    and i1: "cbb_inv alloc lim b1 (take (?o + 1) w @ gap @ drop (?o + 1) w)" by blast
  let ?w1 = "take (?o + 1) w @ gap @ drop (?o + 1) w"
  have "take (length ?w1) (cb_buf b1) = ?w1" using i1 unfolding cbb_inv_def cbb_rep_def by blast
  then obtain tail where buf: "cb_buf b1 = ?w1 @ tail" using append_take_drop_id by metis
  have tk: "take (?o + 1) w = take ?o w @ [w ! ?o]" using le by (simp add: take_Suc_conv_app_nth)
  let ?buf1 = "(cb_buf b1)[?o := first]"
  have b1': "?buf1 = take ?o w @ first # gap @ drop (?o + 1) w @ tail"
    using le unfolding buf tk by (simp add: list_update_append)
  have wl: "write_length ?buf1 (?o + 1) ?x m
      = (take ?o w @ first # be_fixed ?x m @ drop (?o + 1) w @ tail, 0)"
    using write_length_spec [of "?o + 1" ?x ?buf1 m] f(3) gap le unfolding b1' by (simp add: min_def)
  have "take ?o w @ first # be_fixed ?x m @ drop (?o + 1) w = closed c w"
    unfolding closed f(2) [symmetric] by simp
  then have buf2: "take ?o w @ first # be_fixed ?x m @ drop (?o + 1) w @ tail = closed c w @ tail"
    by (metis append.assoc append_Cons)
  have "length ?w1 = length (closed c w)" using gap le lclosed by simp
  then have "cbb_inv alloc lim (b1\<lparr>cb_buf := closed c w @ tail\<rparr>) (closed c w)"
    using i1 unfolding cbb_inv_def cbb_rep_def buf by simp
  moreover have "\<not> ?n > 0xfffffffe" using n by simp
  then have "cbb_close_child alloc b c = (True, b1\<lparr>cb_buf := closed c w @ tail\<rparr>)"
    using wl unfolding buf2
    by (simp only: cbb_close_child_def cl(2) p start nbody if_True if_False Let_def form prod.case b1 simp_thms)
  ultimately show ?thesis by blast
qed

subsection \<open>Flushing a chain\<close>

fun close_all :: "cbb_child list \<Rightarrow> u8 list \<Rightarrow> u8 list" where
  "close_all [] w = w"
| "close_all (c # cs) w = closed c (close_all cs w)"

fun closable_all :: "cbb_child list \<Rightarrow> u8 list \<Rightarrow> bool" where
  "closable_all [] w = True"
| "closable_all (c # cs) w = (closable_all cs w \<and> closable c (close_all cs w))"

lemma cbb_close_child_ok:
  "cbb_inv alloc lim b w \<Longrightarrow> closable c w \<Longrightarrow> length (closed c w) \<le> lim \<Longrightarrow>
   \<exists>b'. cbb_close_child alloc b c = (True, b') \<and> cbb_inv alloc lim b' (closed c w)"
  using cbb_close_child_plain cbb_close_child_asn1 by blast

lemma cbb_inv_bounds: "cbb_inv alloc lim b w \<Longrightarrow> cb_len b = length w \<and> \<not> cb_error b \<and> length w < SIZE_LIMIT"
  by (auto simp: cbb_inv_def cbb_rep_def)

lemma cbb_flush_ok:
  "cbb_inv alloc lim b w \<Longrightarrow> closable_all cs w \<Longrightarrow> length (close_all cs w) \<le> lim \<Longrightarrow>
   \<exists>b'. cbb_flush alloc b cs = (True, b', []) \<and> cbb_inv alloc lim b' (close_all cs w)"
proof (induction cs)
  case Nil
  then show ?case using cbb_inv_bounds [OF Nil(1)] by simp
next
  case (Cons c cs)
  have cl: "closable_all cs w" "closable c (close_all cs w)" using Cons.prems(2) by simp_all
  have "length (close_all cs w) \<le> lim" using Cons.prems(3) length_closed [OF cl(2)] by simp
  then obtain b1 where b1: "cbb_flush alloc b cs = (True, b1, [])" "cbb_inv alloc lim b1 (close_all cs w)"
    using Cons.IH [OF Cons.prems(1) cl(1)] by blast
  obtain b2 where b2: "cbb_close_child alloc b1 c = (True, b2)" "cbb_inv alloc lim b2 (closed c (close_all cs w))"
    using cbb_close_child_ok [OF b1(2) cl(2)] Cons.prems(3) by auto
  have le: "ch_offset c + ch_pending_len_len c \<le> length (close_all cs w)" "0 < ch_pending_len_len c"
    using cl(2) by (simp_all add: closable_def)
  note bd = cbb_inv_bounds [OF b1(2)] cbb_inv_bounds [OF Cons.prems(1)]
  have "size_add (ch_offset c) (ch_pending_len_len c) = ch_offset c + ch_pending_len_len c"
    using le bd by (intro size_add_exact) simp
  then show ?case using b1(1) b2 bd le by simp
qed

text \<open>The state of the code represents the bytes \<open>w\<close> written so far and the pending children.\<close>

definition built :: "allocator \<Rightarrow> nat \<Rightarrow> cbb \<Rightarrow> u8 list \<Rightarrow> cbb_child list \<Rightarrow> bool" where
  "built alloc lim st w cs \<longleftrightarrow>
     (\<exists>b. cbb_base st = Some b \<and> cbb_inv alloc lim b w) \<and> cbb_children st = cs"

lemma CBB_flush_built:
  assumes "built alloc lim st w (cs @ ds)" "closable_all ds w" "length (close_all ds w) \<le> lim"
  shows "\<exists>st'. CBB_flush alloc st (length cs) = (True, st') \<and> built alloc lim st' (close_all ds w) cs"
proof -
  obtain b where b: "cbb_base st = Some b" "cbb_inv alloc lim b w" "cbb_children st = cs @ ds"
    using assms(1) by (auto simp: built_def)
  obtain b' where "cbb_flush alloc b ds = (True, b', [])" "cbb_inv alloc lim b' (close_all ds w)"
    using cbb_flush_ok [OF b(2) assms(2,3)] by blast
  then show ?thesis using b by (auto simp: CBB_flush_def built_def)
qed

text \<open>C17: flushing a \<open>CBB\<close> writes every pending prefix below it, innermost first, each being the length of
  what has been written behind it: the fixed-width big-endian length, or the minimal DER length, for which
  the contents are moved along. It succeeds whenever the lengths fit their prefixes and the buffer has
  room or may grow, and leaves no child pending.\<close>

theorem CBB_flush_refines:
  assumes "built alloc lim st w (cs @ ds)" "closable_all ds w" "length (close_all ds w) \<le> lim"
  shows "\<exists>st'. CBB_flush alloc st (length cs) = (True, st') \<and> built alloc lim st' (close_all ds w) cs"
  by (rule CBB_flush_built [OF assms])

definition example_cbb :: cbb where
  "example_cbb = \<lparr>cbb_base = Some \<lparr>cb_buf = [0x30, 0, 0, 5, 6, 0, 0], cb_len = 5, cb_cap = 7,
       cb_can_resize = False, cb_error = False\<rparr>,
     cbb_children = [\<lparr>ch_offset = 1, ch_pending_len_len = 1, ch_pending_is_asn1 = True\<rparr>,
       \<lparr>ch_offset = 2, ch_pending_len_len = 1, ch_pending_is_asn1 = False\<rparr>]\<rparr>"

lemma example_cbb_built: "built (\<lambda>_. None) 7 example_cbb [0x30, 0, 0, 5, 6] (cbb_children example_cbb)"
  by (simp add: built_def example_cbb_def cbb_inv_def cbb_rep_def SIZE_LIMIT_def)

lemma example_cbb_closed: "closable_all (cbb_children example_cbb) [0x30, 0, 0, 5, 6]"
    "close_all (cbb_children example_cbb) [0x30, 0, 0, 5, 6] = [0x30, 3, 2, 5, 6]"
  by (simp_all add: example_cbb_def closable_def closed_def body_len_def child_prefix_def der_length_def
      numeral_2_eq_2)

theorem CBB_flush_refines_witness:
  "\<exists>st'. CBB_flush (\<lambda>_. None) example_cbb 0 = (True, st') \<and> built (\<lambda>_. None) 7 st' [0x30, 3, 2, 5, 6] []"
  using CBB_flush_refines [of "\<lambda>_. None" 7 example_cbb "[0x30, 0, 0, 5, 6]" "[]" "cbb_children example_cbb"] example_cbb_built example_cbb_closed
  by simp

subsection \<open>Operations on the innermost child\<close>

lemma CBB_flush_nop:
  assumes "built alloc lim st w cs"
  shows "CBB_flush alloc st (length cs) = (True, st)"
proof -
  obtain b where b: "cbb_base st = Some b" "cbb_inv alloc lim b w" "cbb_children st = cs"
    using assms by (auto simp: built_def)
  then show ?thesis
    using cbb_inv_bounds [OF b(2)] by (cases st) (simp add: CBB_flush_def)
qed

lemma cbb_put_built:
  assumes "built alloc lim st w cs" "length w + length bs \<le> lim" "d = length cs"
    and "\<And>b. f b = cbb_buffer_put alloc b bs"
  shows "\<exists>st'. cbb_flush_then alloc st d f = (True, st') \<and> built alloc lim st' (w @ bs) cs"
proof -
  obtain b where b: "cbb_base st = Some b" "cbb_inv alloc lim b w" "cbb_children st = cs"
    using assms(1) by (auto simp: built_def)
  obtain b' where "cbb_buffer_put alloc b bs = (True, b')" "cbb_inv alloc lim b' (w @ bs)"
    using cbb_buffer_put_ok [OF b(2) assms(2)] by blast
  then show ?thesis
    using b CBB_flush_nop [OF assms(1)] assms(3,4) by (auto simp: cbb_flush_then_def built_def)
qed

lemma CBB_add_bytes_built:
  "built alloc lim st w cs \<Longrightarrow> length w + length bs \<le> lim \<Longrightarrow> d = length cs \<Longrightarrow>
   \<exists>st'. CBB_add_bytes alloc st d bs = (True, st') \<and> built alloc lim st' (w @ bs) cs"
  unfolding CBB_add_bytes_def by (rule cbb_put_built) simp_all

lemma u8_add_u: "cbb_buffer_add_u alloc b (ucast (v :: u8)) 1 = cbb_buffer_put alloc b [v]"
proof -
  have "drop_bit 8 (ucast v :: u64) = 0"
    by (rule bit_word_eqI) (auto simp: bit_drop_bit_eq bit_unsigned_iff dest: bit_imp_le_length)
  moreover have "(ucast (ucast v :: u64) :: u8) = v"
  proof (rule word_unat_eq_iff [THEN iffD2])
    have "unat (ucast v :: u64) = unat v" by (rule unat_ucast_up) simp
    then show "unat (ucast (ucast v :: u64) :: u8) = unat v" by (simp only: unat_ucast_mod) simp
  qed
  then have "rev (le_bytes 1 (ucast v :: u64)) = [v]" by simp
  ultimately show ?thesis by (simp add: cbb_buffer_add_u_def split: prod.splits)
qed

lemma CBB_add_u8_built:
  "built alloc lim st w cs \<Longrightarrow> length w < lim \<Longrightarrow> d = length cs \<Longrightarrow>
   \<exists>st'. CBB_add_u8 alloc st d v = (True, st') \<and> built alloc lim st' (w @ [v]) cs"
  unfolding CBB_add_u8_def cbb_add_u_def by (rule cbb_put_built) (simp_all only: u8_add_u, simp_all)

lemma add_u8_list_built:
  "built alloc lim st w cs \<Longrightarrow> length w + length bs \<le> lim \<Longrightarrow> d = length cs \<Longrightarrow>
   \<exists>st'. add_u8_list alloc st d bs = (True, st') \<and> built alloc lim st' (w @ bs) cs"
proof (induction bs arbitrary: st w)
  case (Cons b bs)
  obtain st1 where "CBB_add_u8 alloc st d b = (True, st1)" "built alloc lim st1 (w @ [b]) cs"
    using CBB_add_u8_built [OF Cons.prems(1), of d b] Cons.prems by auto
  then show ?case using Cons.IH [of st1 "w @ [b]"] Cons.prems by auto
qed simp

lemma cons_group:
  "(ucast (drop_bit (7 * i) v AND 0x7f) :: u8) = word_of_nat (unat (v :: u64) div 2 ^ (7 * i) mod 128)"
proof (rule word_unat_eq_iff [THEN iffD2])
  have "(0x7f :: u64) = mask 7" by (simp add: mask_eq_exp_minus_1)
  then have "unat (drop_bit (7 * i) v AND 0x7f) = unat v div 2 ^ (7 * i) mod 128"
    by (simp only: unat_and_mask unat_drop_bit) simp
  then show "unat (ucast (drop_bit (7 * i) v AND 0x7f) :: u8) = unat (word_of_nat (unat v div 2 ^ (7 * i) mod 128) :: u8)"
    by (simp only: unat_ucast_mod unat_of_nat)
qed

lemma hi_group: "k < 128 \<Longrightarrow> (word_of_nat k OR 0x80 :: u8) = word_of_nat (k + 128)"
proof -
  assume k: "k < 128"
  then have un: "unat (word_of_nat k :: u8) = k" by (intro unat_word_of_nat) simp
  then have "(word_of_nat k :: u8) AND 0x80 = 0" using k by (simp add: u8_top_bit)
  then have "(word_of_nat k OR 0x80 :: u8) = word_of_nat k + 0x80" by (simp add: disjunctive_add_eq_or)
  then show ?thesis by simp
qed

lemma base128_groups:
  "map (\<lambda>i. (ucast (drop_bit (7 * i) v AND 0x7f) :: u8) OR 0x80) (rev [0..<base128_len v]) = b128_hi (unat v)"
proof (induction v rule: base128_len.induct)
  case (1 v)
  show ?case
  proof (cases "v > 0")
    case False
    then have "unat v = 0" by (simp add: word_less_nat_alt)
    then show ?thesis using False by (simp add: base128_len.simps)
  next
    case True
    let ?k = "base128_len (drop_bit 7 v)"
    have len: "base128_len v = Suc ?k" using True by (subst base128_len.simps) simp
    have "rev [0..<Suc ?k] = map Suc (rev [0..<?k]) @ [0]"
      by (simp only: rev_map [symmetric] map_Suc_upt) (simp add: upt_rec)
    moreover have "drop_bit (7 * Suc i) v = drop_bit (7 * i) (drop_bit 7 v)" for i
      by (simp only: drop_bit_drop_bit) (simp add: add.commute)
    ultimately have "map (\<lambda>i. (ucast (drop_bit (7 * i) v AND 0x7f) :: u8) OR 0x80) (rev [0..<base128_len v])
        = b128_hi (unat (drop_bit 7 v)) @ [(ucast (drop_bit (7 * 0) v AND 0x7f) :: u8) OR 0x80]"
      using 1 [OF True] unfolding len by (simp only: map_append list.map map_map comp_def)
    also have "\<dots> = b128_hi (unat v div 128) @ [word_of_nat (unat v mod 128 + 128)]"
      using hi_group [of "unat v mod 128"] unfolding cons_group unat_drop_bit by simp
    also have "\<dots> = b128_hi (unat v)"
    proof -
      have "unat v \<noteq> 0" using True by (simp add: word_less_nat_alt)
      then show ?thesis by (subst (2) b128_hi.simps) simp
    qed
    finally show ?thesis .
  qed
qed

lemma base128_bytes:
  "map (\<lambda>i. (ucast (drop_bit (7 * i) v AND 0x7f) :: u8) OR (if i \<noteq> 0 then 0x80 else 0))
     (rev [0..<(if base128_len v = 0 then 1 else base128_len v)]) = base128 (unat v)"
proof -
  let ?k = "base128_len (drop_bit 7 v)"
  have len: "(if base128_len v = 0 then 1 else base128_len v) = Suc ?k"
  proof (cases "v > 0")
    case True
    then show ?thesis by (subst (1 2) base128_len.simps) simp
  next
    case False
    then have "v = 0" by (simp add: word_gt_0)
    then show ?thesis by (simp add: base128_len.simps [of 0])
  qed
  have "rev [0..<Suc ?k] = map Suc (rev [0..<?k]) @ [0]"
    by (simp only: rev_map [symmetric] map_Suc_upt) (simp add: upt_rec)
  moreover have "drop_bit (7 * Suc i) v = drop_bit (7 * i) (drop_bit 7 v)" for i
    by (simp only: drop_bit_drop_bit) (simp add: add.commute)
  ultimately have "map (\<lambda>i. (ucast (drop_bit (7 * i) v AND 0x7f) :: u8) OR (if i \<noteq> 0 then 0x80 else 0)) (rev [0..<Suc ?k])
      = b128_hi (unat (drop_bit 7 v)) @ [(ucast (drop_bit (7 * 0) v AND 0x7f) :: u8)]"
    using base128_groups [of "drop_bit 7 v"]
    by (simp only: map_append list.map map_map comp_def if_True nat.distinct not_False_eq_True simp_thms if_False or.right_neutral)
  also have "\<dots> = base128 (unat v)"
    unfolding cons_group unat_drop_bit by (simp add: base128_def)
  finally show ?thesis unfolding len .
qed

lemma add_base128_built:
  "built alloc lim st w cs \<Longrightarrow> length w + length (base128 (unat v)) \<le> lim \<Longrightarrow> d = length cs \<Longrightarrow>
   \<exists>st'. add_base128_integer alloc st d v = (True, st') \<and> built alloc lim st' (w @ base128 (unat v)) cs"
  unfolding add_base128_integer_def Let_def base128_bytes by (rule add_u8_list_built)

subsection \<open>Elements\<close>

lemma tag_bits: "(ucast (drop_bit 24 tag) AND 0xe0 :: u8) = tag_class tag"
  by (simp add: tag_class_def)

lemma unat_tag_number: "unat (tag AND CBS_ASN1_TAG_NUMBER_MASK) = tag_number tag"
proof -
  have "CBS_ASN1_TAG_NUMBER_MASK = mask 29"
    by (simp add: CBS_ASN1_TAG_NUMBER_MASK_def mask_eq_exp_minus_1)
  then show ?thesis using unat_and_mask [of tag 29] by (simp add: tag_number_def)
qed

definition asn1_child :: "nat \<Rightarrow> cbb_child" where
  "asn1_child off = \<lparr>ch_offset = off, ch_pending_len_len = 1, ch_pending_is_asn1 = True\<rparr>"

lemma CBB_add_asn1_built:
  assumes "built alloc lim st w cs" "length (w @ der_tag tag) < lim" "d = length cs"
  shows "\<exists>st'. CBB_add_asn1 alloc st d tag = (True, st') \<and>
           built alloc lim st' (w @ der_tag tag @ [0]) (cs @ [asn1_child (length (w @ der_tag tag))])"
proof -
  let ?n = "tag AND CBS_ASN1_TAG_NUMBER_MASK"
  have ge: "?n \<ge> 0x1f \<longleftrightarrow> \<not> tag_number tag < 0x1f"
    by (simp add: word_le_nat_alt unat_tag_number not_less)
  have "unat (ucast ?n :: u64) = tag_number tag"
    using unat_ucast_up [of ?n, where 'b = 64] by (simp add: unat_tag_number)
  note base = this
  obtain st2 where st2: "(if ?n \<ge> 0x1f then
        (case CBB_add_u8 alloc st d (tag_class tag OR 0x1f) of (ok1, st1) \<Rightarrow>
           if \<not> ok1 then (False, st1) else add_base128_integer alloc st1 d (ucast ?n))
      else CBB_add_u8 alloc st d (tag_class tag OR ucast ?n)) = (True, st2)"
    "built alloc lim st2 (w @ der_tag tag) cs"
  proof (cases "tag_number tag < 0x1f")
    case True
    have "(ucast ?n :: u8) = word_of_nat (tag_number tag)"
      using unat_tag_number [of tag] by (metis of_nat_unat)
    then have dt: "der_tag tag = [tag_class tag OR ucast ?n]" using True by (simp add: der_tag_def)
    obtain st2 where "CBB_add_u8 alloc st d (tag_class tag OR ucast ?n) = (True, st2)"
      "built alloc lim st2 (w @ [tag_class tag OR ucast ?n]) cs"
      using CBB_add_u8_built [OF assms(1) _ assms(3)] assms(2) by (metis dt length_append le_add1 le_less_trans)
    then show ?thesis using that [of st2] True ge dt by simp
  next
    case False
    then have dt: "der_tag tag = (tag_class tag OR 0x1f) # base128 (tag_number tag)" by (simp add: der_tag_def)
    have l: "length w < lim" using assms(2) by simp
    obtain st1 where st1: "CBB_add_u8 alloc st d (tag_class tag OR 0x1f) = (True, st1)"
      "built alloc lim st1 (w @ [tag_class tag OR 0x1f]) cs"
      using CBB_add_u8_built [OF assms(1) l assms(3)] by blast
    obtain st2 where "add_base128_integer alloc st1 d (ucast ?n) = (True, st2)"
      "built alloc lim st2 ((w @ [tag_class tag OR 0x1f]) @ base128 (unat (ucast ?n :: u64))) cs"
      using add_base128_built [OF st1(2) _ assms(3), of "ucast ?n"] assms(2) unfolding base dt by auto
    then show ?thesis using that [of st2] False ge st1(1) unfolding base dt by simp
  qed
  obtain st3 where st3: "CBB_add_u8 alloc st2 d 0 = (True, st3)" "built alloc lim st3 ((w @ der_tag tag) @ [0]) cs"
    using CBB_add_u8_built [OF st2(2) assms(2,3)] by blast
  obtain b where b: "cbb_base st2 = Some b" "cbb_inv alloc lim b (w @ der_tag tag)"
    using st2(2) by (auto simp: built_def)
  have off: "(case cbb_base st2 of None \<Rightarrow> 0 | Some base \<Rightarrow> cb_len base) = length (w @ der_tag tag)"
    using b cbb_inv_bounds [OF b(2)] by simp
  have fl: "CBB_flush alloc st d = (True, st)" unfolding assms(3) by (rule CBB_flush_nop [OF assms(1)])
  have "CBB_add_asn1 alloc st d tag = (True, push_child st3 d (asn1_child (length (w @ der_tag tag))))"
    unfolding CBB_add_asn1_def tag_bits
    by (simp only: fl prod.case if_False not_True_eq_False Let_def st2(1) off st3(1) asn1_child_def)
  moreover have "built alloc lim (push_child st3 d (asn1_child (length (w @ der_tag tag))))
      (w @ der_tag tag @ [0]) (cs @ [asn1_child (length (w @ der_tag tag))])"
    using st3(2) assms(3) by (auto simp: built_def push_child_def)
  ultimately show ?thesis by blast
qed

lemma asn1_with_built:
  assumes "built alloc lim st w cs" "length (w @ der tag body) \<le> lim" "d = length cs"
    and body: "length body \<le> 0xfffffffe"
    and f: "\<And>st1 u cs1. built alloc lim st1 u cs1 \<Longrightarrow> length u + length body \<le> lim \<Longrightarrow> length cs1 = Suc d \<Longrightarrow>
         \<exists>st2. f st1 = (True, st2) \<and> built alloc lim st2 (u @ body) cs1"
  shows "\<exists>st'. asn1_with alloc st d tag f = (True, st') \<and> built alloc lim st' (w @ der tag body) cs"
proof -
  let ?c = "asn1_child (length (w @ der_tag tag))" and ?u = "w @ der_tag tag @ [0]"
  have dl: "1 \<le> length (der_length (length body))" by (simp add: der_length_def)
  have l: "length (w @ der_tag tag) < lim" "length ?u + length body \<le> lim"
    using assms(2) dl by (auto simp: der_def)
  obtain st1 where st1: "CBB_add_asn1 alloc st d tag = (True, st1)" "built alloc lim st1 ?u (cs @ [?c])"
    using CBB_add_asn1_built [OF assms(1) l(1) assms(3)] by blast
  obtain st2 where st2: "f st1 = (True, st2)" "built alloc lim st2 (?u @ body) (cs @ [?c])"
    using f [OF st1(2) l(2)] assms(3) by auto
  have bl: "body_len ?c (?u @ body) = length body" by (simp add: body_len_def asn1_child_def)
  have "closable ?c (?u @ body)" using body bl by (simp add: closable_def asn1_child_def)
  moreover have "closed ?c (?u @ body) = w @ der tag body"
    unfolding closed_def bl by (simp add: asn1_child_def child_prefix_def der_def)
  ultimately have "\<exists>st'. CBB_flush alloc st2 d = (True, st') \<and> built alloc lim st' (w @ der tag body) cs"
    using CBB_flush_built [OF st2(2)] assms(2,3) by simp
  then show ?thesis using st1(1) st2(1) by (auto simp: asn1_with_def)
qed

lemma uint64_bytes_True: "uint64_bytes True bs = bs"
  by (induction bs) simp_all

lemma uint64_bytes_der: "uint64_bytes False bs = der_uint (be_nat bs)"
proof (induction bs)
  case (Cons b bs)
  show ?case
  proof (cases "b = 0")
    case False
    then have "be_min (be_nat (b # bs)) = b # bs" by (intro be_min_be_nat) simp
    then show ?thesis using False by (simp add: uint64_bytes_True der_uint_def u8_top_bit not_less del: be_nat_simps)
  qed (use Cons in simp)
qed (simp add: der_uint_def)

lemma be_nat_u64: "be_nat (rev (le_bytes 8 v)) = unat (v :: u64)"
proof -
  have "unat (le_word (le_bytes 8 v) :: u64) = be_nat (rev (le_bytes 8 v))"
    by (rule unat_le_word) (simp del: le_bytes_numeral)
  then show ?thesis unfolding le_word_le_bytes by (simp add: take_bit_word_eq_self del: le_bytes_numeral)
qed

lemma u64_be_bytes:
  "map (\<lambda>i. ucast (drop_bit (8 * (7 - i)) v AND 0xff)) [0..<8] = rev (le_bytes 8 (v :: u64))"
proof -
  have "(ucast (w AND 0xff) :: u8) = ucast w" for w :: u64
  proof (rule word_unat_eq_iff [THEN iffD2])
    have "(0xff :: u64) = mask 8" by (simp add: mask_eq_exp_minus_1)
    then have "unat (w AND 0xff) = unat w mod 256" by (simp only: unat_and_mask) simp
    then show "unat (ucast (w AND 0xff) :: u8) = unat (ucast w :: u8)" by (simp only: unat_ucast_mod) simp
  qed
  then show ?thesis by (simp add: upt_rec)
qed

lemma CBB_add_asn1_uint64_built:
  assumes "built alloc lim st w cs" "length (w @ der CBS_ASN1_INTEGER (der_uint (unat v))) \<le> lim" "d = length cs"
  shows "\<exists>st'. CBB_add_asn1_uint64 alloc st d v = (True, st') \<and>
           built alloc lim st' (w @ der CBS_ASN1_INTEGER (der_uint (unat v))) cs"
proof -
  have un: "unat v < 2 ^ 64" using unsigned_less [of v, where ?'a = nat] by simp
  have "length (be_min (unat v)) \<le> 8" using un by (intro length_be_min) simp
  then have "length (der_uint (unat v)) \<le> 0xfffffffe" by (simp add: der_uint_def)
  then show ?thesis
    unfolding CBB_add_asn1_uint64_def u64_be_bytes uint64_bytes_der be_nat_u64
    by (intro asn1_with_built [OF assms]) (auto intro: add_u8_list_built)
qed

lemma int64_start_shrink:
  "n < length bytes \<Longrightarrow> 128 \<le> unat (bytes ! n) \<Longrightarrow>
   map (\<lambda>i. bytes ! i) (rev [0..<Suc (int64_start bytes n)]) = shrink (rev (take (Suc n) bytes))"
proof (induction n)
  case 0
  then show ?case by (simp add: take_Suc_conv_app_nth)
next
  case (Suc n)
  have tk: "rev (take (Suc (Suc n)) bytes) = bytes ! Suc n # bytes ! n # rev (take n bytes)"
    "rev (take (Suc n) bytes) = bytes ! n # rev (take n bytes)"
    using Suc.prems(1) by (simp_all add: take_Suc_conv_app_nth)
  have nz: "bytes ! Suc n \<noteq> 0" using Suc.prems(2) by auto
  show ?case
  proof (cases "bytes ! Suc n = 0xff \<and> 128 \<le> unat (bytes ! n)")
    case True
    then show ?thesis using Suc tk by (simp add: u8_top_bit not_less)
  next
    case False
    have all: "map (\<lambda>i. bytes ! i) (rev [0..<Suc (Suc n)]) = rev (take (Suc (Suc n)) bytes)"
    proof -
      have "map (\<lambda>i. bytes ! i) [0..<Suc (Suc n)] = take (Suc (Suc n)) bytes"
        using Suc.prems(1) by (intro nth_equalityI) (simp_all del: upt_Suc)
      then show ?thesis by (simp only: rev_map [symmetric])
    qed
    then show ?thesis using False nz unfolding tk by (auto simp: u8_top_bit not_less)
  qed
qed

lemma be_nat_replicate_0: "be_nat (replicate k 0 @ bs) = be_nat bs"
  by (induction k) simp_all

lemma shrink_minimal:
  "shrink bs = bs \<Longrightarrow> bs \<noteq> [] \<Longrightarrow> unat (bs ! 0) < 128 \<Longrightarrow> minimal_uint bs"
proof (cases bs)
  case (Cons a cs)
  assume s: "shrink bs = bs" "unat (bs ! 0) < 128"
  show ?thesis
  proof (cases cs)
    case (Cons b ds)
    have "\<not> (a = 0 \<and> unat b < 128)"
    proof
      assume "a = 0 \<and> unat b < 128"
      then have "length (shrink bs) \<le> length (b # ds)" using shrink_length [of "b # ds"] \<open>bs = a # cs\<close> Cons by simp
      then show False using s(1) \<open>bs = a # cs\<close> Cons by simp
    qed
    then show ?thesis using s \<open>bs = a # cs\<close> Cons by (simp add: minimal_uint_def)
  qed (use s Cons in \<open>simp add: minimal_uint_def\<close>)
qed simp

lemma der_sint_nonneg:
  assumes "unat (rev (le_bytes 8 v) ! 0) < 128"
  shows "der_sint v = der_uint (unat (v :: u64))"
proof -
  let ?bs = "rev (le_bytes 8 v)"
  have ne: "?bs \<noteq> []" by simp
  obtain k where k: "?bs = replicate k (sign_fill ?bs) @ shrink ?bs" using shrink_fill [OF ne] by blast
  have "sign_fill ?bs = 0" using assms by (simp add: sign_fill_def del: le_bytes_numeral)
  then have "be_nat ?bs = be_nat (shrink ?bs)" using k be_nat_replicate_0 by metis
  then have val: "be_nat (shrink ?bs) = unat v" using be_nat_u64 by metis
  have "unat (shrink ?bs ! 0) < 128" using shrink_sign [of ?bs] assms by (simp only: not_le [symmetric]) simp
  then have "minimal_uint (shrink ?bs)"
    using shrink_minimal [OF shrink_idem shrink_nonempty [OF ne]] by blast
  from der_uint_be_nat [OF this] show ?thesis by (simp only: val der_sint_def)
qed

lemma u64_top_byte: "0 \<le>s v \<longleftrightarrow> unat (rev (le_bytes 8 v) ! 0) < 128" for v :: u64
proof -
  have top: "rev (le_bytes 8 v) ! 0 = ucast (drop_bit 56 v)" by simp
  have "unat v div 2 ^ 56 < 256"
    using unsigned_less [of v, where ?'a = nat] by (simp add: less_mult_imp_div_less)
  then have un: "unat (ucast (drop_bit 56 v) :: u8) = unat v div 2 ^ 56"
    by (simp only: unat_ucast_mod unat_drop_bit) simp
  have "0 \<le>s v \<longleftrightarrow> \<not> bit v 63"
    using bit_last_iff [of v] by (simp add: word_sle_eq not_less)
  also have "bit v 63 \<longleftrightarrow> bit (ucast (drop_bit 56 v) :: u8) 7"
    by (simp add: bit_unsigned_iff bit_drop_bit_eq del: drop_bit_numeral_bit0 drop_bit_numeral_bit1)
  also have "\<dots> \<longleftrightarrow> \<not> unat (ucast (drop_bit 56 v) :: u8) < 128"
    using and_exp_eq_0_iff_not_bit [of "ucast (drop_bit 56 v) :: u8" 7] u8_top_bit [of "ucast (drop_bit 56 v)"]
    by (simp del: drop_bit_numeral_bit0 drop_bit_numeral_bit1)
  finally show ?thesis unfolding top by blast
qed

lemma CBB_add_asn1_int64_built:
  assumes "built alloc lim st w cs" "length (w @ der CBS_ASN1_INTEGER (der_sint v)) \<le> lim" "d = length cs"
  shows "\<exists>st'. CBB_add_asn1_int64 alloc st d v = (True, st') \<and>
           built alloc lim st' (w @ der CBS_ASN1_INTEGER (der_sint v)) cs"
proof (cases "0 \<le>s v")
  case True
  then have "der_sint v = der_uint (unat v)" using der_sint_nonneg [of v] u64_top_byte [of v] by simp
  then show ?thesis
    using True CBB_add_asn1_uint64_built [of alloc lim st w cs v d] assms
    by (simp add: CBB_add_asn1_int64_def)
next
  case False
  let ?bytes = "le_bytes 8 v"
  have len8: "length ?bytes = 8" by (simp only: length_le_bytes)
  have "?bytes ! 7 = rev ?bytes ! 0" by simp
  then have "128 \<le> unat (?bytes ! 7)" using False u64_top_byte [of v] by (simp only: not_less)
  then have sh: "map (\<lambda>i. ?bytes ! i) (rev [0..<Suc (int64_start ?bytes 7)]) = der_sint v"
    using int64_start_shrink [of 7 ?bytes] len8 unfolding der_sint_def by (simp del: le_bytes_numeral upt_Suc)
  have "length (der_sint v) \<le> 8"
    using shrink_length [of "rev ?bytes"] unfolding der_sint_def by (simp del: le_bytes_numeral)
  then have "length (der_sint v) \<le> 0xfffffffe" by simp
  then show ?thesis
    using False unfolding CBB_add_asn1_int64_def Let_def sh
    by simp (intro asn1_with_built [OF assms], auto intro: add_u8_list_built)
qed

lemma CBB_add_asn1_octet_string_built:
  assumes "built alloc lim st w cs" "length (w @ der CBS_ASN1_OCTETSTRING data) \<le> lim" "d = length cs"
    "length data \<le> 0xfffffffe"
  shows "\<exists>st'. CBB_add_asn1_octet_string alloc st d data = (True, st') \<and>
           built alloc lim st' (w @ der CBS_ASN1_OCTETSTRING data) cs"
  unfolding CBB_add_asn1_octet_string_def
  by (intro asn1_with_built [OF assms]) (auto intro: CBB_add_bytes_built)

text \<open>C28: writing an INTEGER and reading it back: \<open>CBB_add_asn1_int64\<close> and \<open>CBB_add_asn1_uint64\<close> append the
  minimal DER encoding of their argument, succeed whenever it fits, and the parser returns the same value
  from it and leaves what follows.\<close>

theorem asn1_integer_roundtrip:
  assumes "built alloc lim st w cs" "length w + 16 \<le> lim" "d = length cs" "length rest < 2 ^ 62"
  shows "(\<exists>st' bs. CBB_add_asn1_int64 alloc st d v = (True, st') \<and> built alloc lim st' (w @ bs) cs \<and>
            CBS_get_asn1_int64 (bs @ rest) = (Some v, rest))
       \<and> (\<exists>st' bs. CBB_add_asn1_uint64 alloc st d v = (True, st') \<and> built alloc lim st' (w @ bs) cs \<and>
            CBS_get_asn1_uint64 (bs @ rest) = (Some v, rest))"
proof -
  have dt: "der_tag CBS_ASN1_INTEGER = [2]" by (simp add: der_tag_def tag_number_def tag_class_def)
  have s: "length (der_sint v) \<le> 8"
    using shrink_length [of "rev (le_bytes 8 v)"] unfolding der_sint_def by (simp del: le_bytes_numeral)
  have "unat v < 2 ^ 64" using unsigned_less [of v, where ?'a = nat] by simp
  then have u: "length (der_uint (unat v)) \<le> 9"
    using length_be_min [of "unat v" 8] by (simp add: der_uint_def)
  have len: "length (der CBS_ASN1_INTEGER bs) = length bs + 2" if "length bs \<le> 9" for bs
    using that by (simp add: der_def dt der_length_def)
  have fs: "length (w @ der CBS_ASN1_INTEGER (der_sint v)) \<le> lim"
    and fu: "length (w @ der CBS_ASN1_INTEGER (der_uint (unat v))) \<le> lim"
    using assms(2) len s u by auto
  have "length (der CBS_ASN1_INTEGER (der_sint v) @ rest) < 2 ^ 63"
    "length (der CBS_ASN1_INTEGER (der_uint (unat v)) @ rest) < 2 ^ 63"
    using assms(4) len s u by auto
  then show ?thesis
    using CBB_add_asn1_int64_built [OF assms(1) fs assms(3)] CBB_add_asn1_uint64_built [OF assms(1) fu assms(3)]
      CBS_get_asn1_int64_Some CBS_get_asn1_uint64_Some by blast
qed

definition empty_cbb :: cbb where
  "empty_cbb = \<lparr>cbb_base = Some \<lparr>cb_buf = replicate 16 0, cb_len = 0, cb_cap = 16, cb_can_resize = False,
     cb_error = False\<rparr>, cbb_children = []\<rparr>"

lemma empty_cbb_built: "built (\<lambda>_. None) 16 empty_cbb [] []"
  by (simp add: built_def empty_cbb_def cbb_inv_def cbb_rep_def SIZE_LIMIT_def)

theorem asn1_integer_roundtrip_witness:
  "\<exists>st' bs. CBB_add_asn1_int64 (\<lambda>_. None) empty_cbb 0 (- 129) = (True, st') \<and>
     built (\<lambda>_. None) 16 st' ([] @ bs) [] \<and> CBS_get_asn1_int64 (bs @ [9]) = (Some (- 129), [9])"
  using asn1_integer_roundtrip [OF empty_cbb_built, of 0 "[9]" "- 129"] by simp

end
