(* ===== verification/Cbb_Oid.thy ===== *)
theory Cbb_Oid
  imports Cbb "HOL-Library.List_Lexorder" "HOL-Library.Multiset"
begin

text \<open>
  Object identifiers between their dotted text and their DER contents octets, in both directions, and the
  sorting of SET OF contents (\<open>crypto/bytestring/cbs.c\<close>, \<open>crypto/bytestring/cbb.c\<close>).
\<close>

abbreviation dot :: u8 where "dot \<equiv> 0x2e"

definition UINT64_MAX :: u64 where "UINT64_MAX = - 1"

fun dotted_loop :: "u64 \<Rightarrow> bool \<Rightarrow> cbs \<Rightarrow> u64 option \<times> cbs" where
  "dotted_loop out seen [] = ((if seen then Some out else None), [])"
| "dotted_loop out seen (u # cbs) =
     (if u = dot \<and> CBS_len cbs > 0 then ((if seen then Some out else None), cbs)
      else if u < 0x30 \<or> u > 0x39 \<or> seen \<and> out = 0 \<or> out > UINT64_MAX div 10 \<or>
              out * 10 > UINT64_MAX - ucast (u - 0x30)
      then (None, cbs)
      else dotted_loop (out * 10 + ucast (u - 0x30)) True cbs)"

definition parse_dotted_decimal :: "cbs \<Rightarrow> u64 option \<times> cbs" where
  "parse_dotted_decimal cbs = dotted_loop 0 False cbs"

lemma dotted_loop_length: "length (snd (dotted_loop out seen cbs)) \<le> length cbs"
  by (induction out seen cbs rule: dotted_loop.induct) (auto intro: le_SucI)

lemma dotted_loop_progress: "cbs \<noteq> [] \<Longrightarrow> length (snd (dotted_loop out seen cbs)) < length cbs"
  by (cases cbs) (auto simp: less_Suc_eq_le intro: dotted_loop_length)

lemma parse_dotted_decimal_progress:
  "parse_dotted_decimal cbs = (r, cbs') \<Longrightarrow> cbs \<noteq> [] \<Longrightarrow> length cbs' < length cbs"
  using dotted_loop_progress [of cbs 0 False] by (simp add: parse_dotted_decimal_def)

function oid_arcs_loop :: "allocator \<Rightarrow> cbb \<Rightarrow> nat \<Rightarrow> cbs \<Rightarrow> bool \<times> cbb" where
  "oid_arcs_loop alloc st d cbs =
     (if CBS_len cbs > 0 then
        (case parse_dotted_decimal cbs of
           (None, _) \<Rightarrow> (False, st)
         | (Some a, cbs') \<Rightarrow>
             (case add_base128_integer alloc st d a of (ok, st') \<Rightarrow>
                if \<not> ok then (False, st') else oid_arcs_loop alloc st' d cbs'))
      else (True, st))"
  by pat_completeness auto
termination
proof (relation "measure (\<lambda>(_, _, _, cbs). length cbs)", goal_cases)
  case (2 alloc st d cbs r cbs' a ok st')
  then show ?case
    using parse_dotted_decimal_progress [of cbs "Some a" cbs'] by (simp add: CBS_len_def)
qed simp

declare oid_arcs_loop.simps [simp del]

definition CBB_add_asn1_oid_from_text :: "allocator \<Rightarrow> cbb \<Rightarrow> nat \<Rightarrow> u8 list \<Rightarrow> nat \<Rightarrow> bool \<times> cbb" where
  "CBB_add_asn1_oid_from_text alloc st d text len =
     (case CBB_flush alloc st d of (ok, st0) \<Rightarrow>
        if \<not> ok then (False, st0)
        else case parse_dotted_decimal (CBS_init text len) of
          (None, _) \<Rightarrow> (False, st0)
        | (Some a, cbs1) \<Rightarrow>
            (case parse_dotted_decimal cbs1 of
               (None, _) \<Rightarrow> (False, st0)
             | (Some b, cbs2) \<Rightarrow>
                 if a > 2 \<or> a < 2 \<and> b > 39 \<or> b > UINT64_MAX - 80 then (False, st0)
                 else case add_base128_integer alloc st0 d (40 * a + b) of (ok1, st1) \<Rightarrow>
                   if \<not> ok1 then (False, st1) else oid_arcs_loop alloc st1 d cbs2))"

text \<open>The characters of \<open>%\<close>\<open>PRIu64\<close>; 20 digits and a terminator fit the buffer of the code.\<close>

function dec_digits :: "nat \<Rightarrow> u8 list" where
  "dec_digits n = (if n < 10 then [word_of_nat (0x30 + n)] else dec_digits (n div 10) @ [word_of_nat (0x30 + n mod 10)])"
  by pat_completeness auto
termination by (relation "measure id") auto

declare dec_digits.simps [simp del]

definition add_decimal :: "allocator \<Rightarrow> cbb \<Rightarrow> nat \<Rightarrow> u64 \<Rightarrow> bool \<times> cbb" where
  "add_decimal alloc st d v = CBB_add_bytes alloc st d (dec_digits (unat v))"

text \<open>\<open>f(cbb) && g(cbb)\<close> on the builder.\<close>

definition cbb_and :: "(cbb \<Rightarrow> bool \<times> cbb) \<Rightarrow> (cbb \<Rightarrow> bool \<times> cbb) \<Rightarrow> cbb \<Rightarrow> bool \<times> cbb" where
  "cbb_and f g st = (case f st of (ok, st') \<Rightarrow> if \<not> ok then (False, st') else g st')"

lemma base128_loop_length: "length (snd (base128_loop v cbs)) \<le> length cbs"
  by (induction v cbs rule: base128_loop.induct) (auto simp: base128_loop.simps Let_def intro: le_SucI)

lemma base128_progress: "cbs \<noteq> [] \<Longrightarrow> length (snd (parse_base128_integer cbs)) < length cbs"
  by (cases cbs) (auto simp: parse_base128_integer_def base128_loop.simps Let_def less_Suc_eq_le
      intro: base128_loop_length)

lemma parse_base128_integer_progress:
  "parse_base128_integer cbs = (r, cbs') \<Longrightarrow> cbs \<noteq> [] \<Longrightarrow> length cbs' < length cbs"
  using base128_progress [of cbs] by simp

function oid_text_loop :: "allocator \<Rightarrow> cbb \<Rightarrow> cbs \<Rightarrow> bool \<times> cbb" where
  "oid_text_loop alloc st copy =
     (if CBS_len copy \<noteq> 0 then
        (case parse_base128_integer copy of
           (None, _) \<Rightarrow> (False, st)
         | (Some v, copy') \<Rightarrow>
             (case cbb_and (\<lambda>st. CBB_add_u8 alloc st 0 dot) (\<lambda>st. add_decimal alloc st 0 v) st of (ok, st') \<Rightarrow>
                if \<not> ok then (False, st') else oid_text_loop alloc st' copy'))
      else (True, st))"
  by pat_completeness auto
termination
proof (relation "measure (\<lambda>(_, _, cbs). length cbs)", goal_cases)
  case (2 alloc st copy r copy' v ok st')
  then show ?case
    using parse_base128_integer_progress [of copy "Some v" copy'] by (simp add: CBS_len_def)
qed simp

declare oid_text_loop.simps [simp del]

definition add_first_arcs :: "allocator \<Rightarrow> u64 \<Rightarrow> cbb \<Rightarrow> bool \<times> cbb" where
  "add_first_arcs alloc v st =
     (if v \<ge> 80
      then cbb_and (\<lambda>st. CBB_add_bytes alloc st 0 [0x32, dot]) (\<lambda>st. add_decimal alloc st 0 (v - 80)) st
      else cbb_and (\<lambda>st. add_decimal alloc st 0 (v div 40))
             (cbb_and (\<lambda>st. CBB_add_u8 alloc st 0 dot) (\<lambda>st. add_decimal alloc st 0 (v mod 40))) st)"

definition CBS_asn1_oid_to_text :: "allocator \<Rightarrow> bool \<Rightarrow> cbs \<Rightarrow> u8 list option" where
  "CBS_asn1_oid_to_text alloc have_base cbs =
     (case CBB_init alloc have_base 32 of
        None \<Rightarrow> None
      | Some st \<Rightarrow>
          (case parse_base128_integer cbs of
             (None, _) \<Rightarrow> None
           | (Some v, copy) \<Rightarrow>
               (case add_first_arcs alloc v st of
                  (ok, st1) \<Rightarrow>
                    if \<not> ok then None
                    else case oid_text_loop alloc st1 copy of (ok2, st2) \<Rightarrow>
                      if \<not> ok2 then None
                      else case CBB_add_u8 alloc st2 0 0 of (ok3, st3) \<Rightarrow>
                        if \<not> ok3 then None
                        else (case CBB_finish alloc st3 0 of
                                (None, _) \<Rightarrow> None
                              | (Some (txt, txt_len), _) \<Rightarrow> Some (take txt_len txt)))))"

subsection \<open>SET OF\<close>

fun c_memcmp :: "u8 list \<Rightarrow> u8 list \<Rightarrow> nat \<Rightarrow> int" where
  "c_memcmp (a # as) (b # bs) (Suc n) = (if a = b then c_memcmp as bs n else if a < b then - 1 else 1)"
| "c_memcmp _ _ _ = 0"

definition compare_set_of_element :: "cbs \<Rightarrow> cbs \<Rightarrow> int" where
  "compare_set_of_element a b =
     (let a_len = CBS_len a; b_len = CBS_len b;
          min_len = (if a_len < b_len then a_len else b_len);
          ret = c_memcmp (CBS_data a) (CBS_data b) min_len
      in if ret \<noteq> 0 then ret else if a_len = b_len then 0 else if a_len < b_len then - 1 else 1)"

text \<open>\<open>qsort\<close> with this order: elements that compare equal are the same bytes, so that every sorting
  algorithm returns the same list.\<close>

fun insert_by :: "('a \<Rightarrow> 'a \<Rightarrow> int) \<Rightarrow> 'a \<Rightarrow> 'a list \<Rightarrow> 'a list" where
  "insert_by cmp x [] = [x]"
| "insert_by cmp x (y # ys) = (if cmp x y \<le> 0 then x # y # ys else y # insert_by cmp x ys)"

definition qsort_by :: "('a \<Rightarrow> 'a \<Rightarrow> int) \<Rightarrow> 'a list \<Rightarrow> 'a list" where
  "qsort_by cmp xs = foldr (insert_by cmp) xs []"

text \<open>The elements of \<open>cbs\<close>; the loops of the code that count and that store them are the same. An element
  is never empty, the second test only makes that visible to the termination proof.\<close>

function set_children :: "cbs \<Rightarrow> cbs list option" where
  "set_children cbs =
     (if CBS_len cbs = 0 then Some []
      else case CBS_get_any_asn1_element cbs of
        (None, _) \<Rightarrow> None
      | (Some (out, _, _), cbs') \<Rightarrow>
          if length cbs' < length cbs then map_option (Cons out) (set_children cbs') else None)"
  by pat_completeness auto
termination by (relation "measure length") auto

declare set_children.simps [simp del]

fun add_children :: "allocator \<Rightarrow> cbb \<Rightarrow> nat \<Rightarrow> cbs list \<Rightarrow> bool \<times> cbb" where
  "add_children alloc st d [] = (True, st)"
| "add_children alloc st d (c # cs) =
     (case CBB_add_bytes alloc st d c of (ok, st') \<Rightarrow> if \<not> ok then (False, st') else add_children alloc st' d cs)"

text \<open>The assertion after the loop, that the length is what it was, is not part of the definition; the elements written back are
  a permutation of those read.\<close>

definition CBB_flush_asn1_set_of :: "allocator \<Rightarrow> cbb \<Rightarrow> nat \<Rightarrow> bool \<times> cbb" where
  "CBB_flush_asn1_set_of alloc st d =
     (case CBB_flush alloc st d of (ok, st0) \<Rightarrow>
        if \<not> ok then (False, st0)
        else case set_children (take (CBB_len st0 d) (CBB_data st0 d)) of
          None \<Rightarrow> (False, st0)
        | Some children \<Rightarrow>
            (let num_children = length children in
             if num_children < 2 then (True, st0)
             else if num_children > (SIZE_LIMIT - 1) div 16 then (False, st0)
             else if alloc (CBB_len st0 d) = None \<or> alloc (num_children * 16) = None then (False, st0)
             else
               add_children alloc
                 (st0\<lparr>cbb_base := map_option (\<lambda>base. base\<lparr>cb_len := cbb_start st0 d\<rparr>) (cbb_base st0)\<rparr>) d
                 (qsort_by compare_set_of_element children)))"

subsection \<open>The text of an object identifier\<close>

fun dotted :: "nat list \<Rightarrow> u8 list" where
  "dotted [] = []"
| "dotted [n] = dec_digits n"
| "dotted (n # m # ns) = dec_digits n @ dot # dotted (m # ns)"

definition oid_contents :: "nat \<Rightarrow> nat \<Rightarrow> nat list \<Rightarrow> u8 list" where
  "oid_contents a b arcs = concat (map base128 ((40 * a + b) # arcs))"

text \<open>The values that have an encoding: X.660 restricts the first two arcs, the code the others to 64 bits.\<close>

definition oid_arcs_ok :: "nat \<Rightarrow> nat \<Rightarrow> nat list \<Rightarrow> bool" where
  "oid_arcs_ok a b arcs \<longleftrightarrow> a \<le> 2 \<and> (a < 2 \<longrightarrow> b \<le> 39) \<and> b + 80 < 2 ^ 64 \<and> list_all (\<lambda>n. n < 2 ^ 64) arcs"

lemma dec_digits_nonempty [simp]: "dec_digits n \<noteq> []"
  by (subst dec_digits.simps) simp

lemma unat_UINT64_MAX: "unat UINT64_MAX = 2 ^ 64 - 1"
  by (simp add: UINT64_MAX_def unsigned_minus_1_eq_mask mask_eq_exp_minus_1)

lemma dotted_loop_digit:
  assumes k: "k < 10" and v: "unat out * 10 + k < 2 ^ 64" and z: "seen \<longrightarrow> out \<noteq> 0"
  shows "dotted_loop out seen (word_of_nat (0x30 + k) # rest) = dotted_loop (word_of_nat (unat out * 10 + k)) True rest"
proof -
  let ?u = "word_of_nat (0x30 + k) :: u8"
  have u: "unat ?u = 0x30 + k" using k by (intro unat_word_of_nat) simp
  have "unat (?u - 0x30) = k"
    using k by (simp add: unat_word_of_nat)
  then have uk: "unat (ucast (?u - 0x30) :: u64) = k" by (simp add: unat_ucast_up)
  then have kw: "(ucast (?u - 0x30) :: u64) = word_of_nat k" by (metis of_nat_unat ucast_id)
  have nd: "?u \<noteq> dot"
  proof
    assume "?u = dot"
    then have "0x30 + k = unat dot" using u by metis
    then show False by simp
  qed
  have rng: "\<not> ?u < 0x30" "\<not> 0x39 < ?u" using u k by (simp_all add: word_less_nat_alt)
  have m10: "unat (out * 10) = unat out * 10" using v by (simp add: unat_mult_lem [THEN iffD1])
  have "unat out \<le> (2 ^ 64 - 1) div 10" using v by simp
  then have d: "\<not> UINT64_MAX div 10 < out"
    by (simp add: word_less_nat_alt unat_div unat_UINT64_MAX not_less)
  have "unat (UINT64_MAX - word_of_nat k :: u64) = 2 ^ 64 - 1 - k"
  proof -
    have "(word_of_nat k :: u64) \<le> UINT64_MAX" by (simp add: UINT64_MAX_def)
    then show ?thesis using uk by (simp only: unat_sub kw unat_UINT64_MAX)
  qed
  then have s: "\<not> UINT64_MAX - word_of_nat k < out * 10" using v by (simp add: word_less_nat_alt m10 not_less)
  have "out * 10 + word_of_nat k = (word_of_nat (unat out * 10 + k) :: u64)" by simp
  moreover have "\<not> (seen \<and> out = 0)" using z by simp
  ultimately show ?thesis using nd rng d s
    by (simp only: dotted_loop.simps kw simp_thms if_False not_True_eq_False de_Morgan_disj if_cancel)
qed


lemma dotted_loop_digits:
  "n < 2 ^ 64 \<Longrightarrow> dotted_loop 0 False (dec_digits n @ rest) = dotted_loop (word_of_nat n) True rest"
proof (induction n arbitrary: rest rule: dec_digits.induct)
  case (1 n)
  show ?case
  proof (cases "n < 10")
    case True
    then show ?thesis using dotted_loop_digit [of n 0 False rest] by (simp add: dec_digits.simps [of n])
  next
    case False
    have lt: "n div 10 < 2 ^ 64" using 1(2) by simp
    have un: "unat (word_of_nat (n div 10) :: u64) = n div 10" using lt by (intro unat_word_of_nat) simp
    have "(word_of_nat (n div 10) :: u64) \<noteq> 0"
    proof
      assume "(word_of_nat (n div 10) :: u64) = 0"
      then have "n div 10 = 0" using un by (metis unat_0)
      then show False using False by simp
    qed
    moreover have "unat (word_of_nat (n div 10) :: u64) * 10 + n mod 10 < 2 ^ 64"
      unfolding un using 1(2) by (simp only: div_mult_mod_eq)
    ultimately have "dotted_loop (word_of_nat (n div 10)) True (word_of_nat (0x30 + n mod 10) # rest)
        = dotted_loop (word_of_nat (unat (word_of_nat (n div 10) :: u64) * 10 + n mod 10)) True rest"
      by (intro dotted_loop_digit) simp_all
    then show ?thesis
      using 1(1) [OF False lt, of "word_of_nat (0x30 + n mod 10) # rest"] False
      by (subst dec_digits.simps) (simp only: un div_mult_mod_eq if_False append_assoc append.simps)
  qed
qed

lemma parse_dotted_last: "n < 2 ^ 64 \<Longrightarrow> parse_dotted_decimal (dec_digits n) = (Some (word_of_nat n), [])"
  using dotted_loop_digits [of n "[]"] by (simp add: parse_dotted_decimal_def)

lemma parse_dotted_dot:
  "n < 2 ^ 64 \<Longrightarrow> rest \<noteq> [] \<Longrightarrow> parse_dotted_decimal (dec_digits n @ dot # rest) = (Some (word_of_nat n), rest)"
  using dotted_loop_digits [of n "dot # rest"] by (simp add: parse_dotted_decimal_def CBS_len_def)

lemma dotted_nonempty [simp]: "ns \<noteq> [] \<Longrightarrow> dotted ns \<noteq> []"
  by (cases ns rule: dotted.cases) simp_all

lemma parse_dotted_cons:
  "n < 2 ^ 64 \<Longrightarrow> parse_dotted_decimal (dotted (n # ns)) = (Some (word_of_nat n), dotted ns)"
  by (cases ns) (simp_all add: parse_dotted_last parse_dotted_dot)

lemma oid_arcs_loop_built:
  "built alloc lim st w cs \<Longrightarrow> list_all (\<lambda>n. n < 2 ^ 64) arcs \<Longrightarrow>
   length w + length (concat (map base128 arcs)) \<le> lim \<Longrightarrow> d = length cs \<Longrightarrow>
   \<exists>st'. oid_arcs_loop alloc st d (dotted arcs) = (True, st') \<and> built alloc lim st' (w @ concat (map base128 arcs)) cs"
proof (induction arcs arbitrary: st w)
  case Nil
  then show ?case by (simp add: oid_arcs_loop.simps CBS_len_def)
next
  case (Cons n ns)
  have n: "n < 2 ^ 64" using Cons.prems(2) by simp
  then have un: "unat (word_of_nat n :: u64) = n" by (intro unat_word_of_nat) simp
  obtain st1 where st1: "add_base128_integer alloc st d (word_of_nat n) = (True, st1)"
    "built alloc lim st1 (w @ base128 n) cs"
    using add_base128_built [OF Cons.prems(1) _ Cons.prems(4), of "word_of_nat n"] Cons.prems(3) unfolding un by auto
  obtain st2 where "oid_arcs_loop alloc st1 d (dotted ns) = (True, st2)"
    "built alloc lim st2 ((w @ base128 n) @ concat (map base128 ns)) cs"
    using Cons.IH [OF st1(2)] Cons.prems by auto
  then show ?case
    using st1(1) parse_dotted_cons [OF n, of ns]
    by (subst oid_arcs_loop.simps) (simp add: CBS_len_def)
qed

lemma unat_first_arc: "oid_arcs_ok a b arcs \<Longrightarrow> unat (40 * word_of_nat a + word_of_nat b :: u64) = 40 * a + b"
proof -
  assume "oid_arcs_ok a b arcs"
  then have "40 * a + b < 2 ^ 64" by (auto simp: oid_arcs_ok_def)
  moreover have "(40 * word_of_nat a + word_of_nat b :: u64) = word_of_nat (40 * a + b)" by simp
  ultimately show ?thesis using unat_word_of_nat [of "40 * a + b", where ?'a = 64] by (simp del: of_nat_add of_nat_mult)
qed

lemma CBB_add_asn1_oid_from_text_built:
  assumes b: "built alloc lim st w cs" and ok: "oid_arcs_ok a b arcs"
    and lim: "length w + length (oid_contents a b arcs) \<le> lim" and d: "d = length cs"
  shows "\<exists>st'. CBB_add_asn1_oid_from_text alloc st d (dotted (a # b # arcs)) (length (dotted (a # b # arcs)))
             = (True, st') \<and> built alloc lim st' (w @ oid_contents a b arcs) cs"
proof -
  have fl: "CBB_flush alloc st d = (True, st)" unfolding d by (rule CBB_flush_nop [OF b])
  have bd: "a < 2 ^ 64" "b < 2 ^ 64" "a \<le> 2" "a < 2 \<longrightarrow> b \<le> 39" "b + 80 < 2 ^ 64" "list_all (\<lambda>n. n < 2 ^ 64) arcs"
    using ok by (auto simp: oid_arcs_ok_def)
  have un: "unat (word_of_nat a :: u64) = a" "unat (word_of_nat b :: u64) = b"
    using bd(1,2) by (auto intro!: unat_word_of_nat)
  have guards: "\<not> (word_of_nat a :: u64) > 2" "(word_of_nat a :: u64) < 2 \<longrightarrow> \<not> (word_of_nat b :: u64) > 39"
    "\<not> UINT64_MAX - 80 < word_of_nat b"
    using bd by (auto simp: word_less_nat_alt un unat_sub word_le_nat_alt unat_UINT64_MAX)
  obtain st1 where st1: "add_base128_integer alloc st d (40 * word_of_nat a + word_of_nat b) = (True, st1)"
    "built alloc lim st1 (w @ base128 (40 * a + b)) cs"
    using add_base128_built [OF b _ d, of "40 * word_of_nat a + word_of_nat b"] lim
    unfolding unat_first_arc [OF ok] oid_contents_def by auto
  obtain st2 where st2: "oid_arcs_loop alloc st1 d (dotted arcs) = (True, st2)"
    "built alloc lim st2 ((w @ base128 (40 * a + b)) @ concat (map base128 arcs)) cs"
    using oid_arcs_loop_built [OF st1(2) bd(6) _ d] lim unfolding oid_contents_def by auto
  have init: "CBS_init (dotted (a # b # arcs)) (length (dotted (a # b # arcs))) = dotted (a # b # arcs)"
    by (simp add: CBS_init_def)
  show ?thesis
    unfolding CBB_add_asn1_oid_from_text_def init
    using guards st1(1) st2 parse_dotted_cons [OF bd(1), of "b # arcs"] parse_dotted_cons [OF bd(2), of arcs]
    by (simp add: fl oid_contents_def del: dotted.simps) (metis linorder_neqE)
qed


text \<open>And back.\<close>

abbreviation dot_digits :: "nat \<Rightarrow> u8 list" where
  "dot_digits n \<equiv> dot # dec_digits n"

lemma dotted_Cons: "dotted (n # ns) = dec_digits n @ concat (map dot_digits ns)"
  by (induction ns arbitrary: n) simp_all

lemma cbb_and_built:
  assumes "\<exists>st1. f st = (True, st1) \<and> built alloc lim st1 w1 cs"
    and "\<And>st1. built alloc lim st1 w1 cs \<Longrightarrow> \<exists>st2. g st1 = (True, st2) \<and> built alloc lim st2 w2 cs"
  shows "\<exists>st2. cbb_and f g st = (True, st2) \<and> built alloc lim st2 w2 cs"
  using assms by (fastforce simp: cbb_and_def)

lemma add_decimal_built:
  "built alloc lim st w [] \<Longrightarrow> length w + length (dec_digits (unat v)) \<le> lim \<Longrightarrow>
   \<exists>st'. add_decimal alloc st 0 v = (True, st') \<and> built alloc lim st' (w @ dec_digits (unat v)) []"
  unfolding add_decimal_def by (rule CBB_add_bytes_built) simp_all

lemma dot_digits_built:
  assumes "built alloc lim st w []" "length w + length (dot_digits (unat v)) \<le> lim"
  shows "\<exists>st'. cbb_and (\<lambda>st. CBB_add_u8 alloc st 0 dot) (\<lambda>st. add_decimal alloc st 0 v) st = (True, st') \<and>
     built alloc lim st' (w @ dot_digits (unat v)) []"
proof (rule cbb_and_built)
  show "\<exists>st1. CBB_add_u8 alloc st 0 dot = (True, st1) \<and> built alloc lim st1 (w @ [dot]) []"
    using assms by (intro CBB_add_u8_built) simp_all
  fix st1 assume "built alloc lim st1 (w @ [dot]) []"
  from add_decimal_built [OF this, of v]
  show "\<exists>st2. add_decimal alloc st1 0 v = (True, st2) \<and> built alloc lim st2 (w @ dot_digits (unat v)) []"
    using assms(2) by simp
qed

lemma oid_text_loop_built:
  "built alloc lim st w [] \<Longrightarrow> list_all (\<lambda>n. n < 2 ^ 64) arcs \<Longrightarrow>
   length w + length (concat (map dot_digits arcs)) \<le> lim \<Longrightarrow>
   \<exists>st'. oid_text_loop alloc st (concat (map base128 arcs)) = (True, st') \<and>
         built alloc lim st' (w @ concat (map dot_digits arcs)) []"
proof (induction arcs arbitrary: st w)
  case Nil
  then show ?case by (simp add: oid_text_loop.simps CBS_len_def)
next
  case (Cons n ns)
  have n: "n < 2 ^ 64" using Cons.prems(2) by simp
  then have un: "unat (word_of_nat n :: u64) = n" by (intro unat_word_of_nat) simp
  obtain st1 where st1: "cbb_and (\<lambda>st. CBB_add_u8 alloc st 0 dot) (\<lambda>st. add_decimal alloc st 0 (word_of_nat n)) st = (True, st1)"
    "built alloc lim st1 (w @ dot_digits n) []"
    using dot_digits_built [OF Cons.prems(1), of "word_of_nat n"] Cons.prems(3) unfolding un by auto
  obtain st2 where "oid_text_loop alloc st1 (concat (map base128 ns)) = (True, st2)"
    "built alloc lim st2 ((w @ dot_digits n) @ concat (map dot_digits ns)) []"
    using Cons.IH [OF st1(2)] Cons.prems by auto
  moreover have "base128 n \<noteq> []" by (simp add: base128_def)
  ultimately show ?case
    using st1(1) parse_base128_append [OF n, of "concat (map base128 ns)"]
    by (subst oid_text_loop.simps) (simp add: CBS_len_def)
qed

lemma CBB_init_built:
  assumes "alloc_total alloc" "lim < SIZE_LIMIT" "n < SIZE_LIMIT"
  shows "\<exists>st. CBB_init alloc True n = Some st \<and> built alloc lim st [] []"
  using assms by (auto simp: CBB_init_def cbb_init_def alloc_total_def built_def cbb_inv_def cbb_rep_def)

lemma CBB_finish_built:
  "built alloc lim st w [] \<Longrightarrow> \<exists>buf st'. CBB_finish alloc st 0 = (Some (buf, length w), st') \<and> take (length w) buf = w"
  using CBB_flush_nop [of alloc lim st w "[]"] by (auto simp: CBB_finish_def built_def cbb_inv_def cbb_rep_def)

lemma add_first_arcs_built:
  assumes b: "built alloc lim st [] []" and ok: "oid_arcs_ok a b arcs" and v: "unat v = 40 * a + b"
    and lim: "length (dec_digits a @ dot_digits b) \<le> lim"
  shows "\<exists>st'. add_first_arcs alloc v st = (True, st') \<and> built alloc lim st' (dec_digits a @ dot_digits b) []"
proof (cases "a = 2")
  case True
  have v80: "v \<ge> 80" using v True by (simp add: word_le_nat_alt)
  then have sub: "unat (v - 80) = b" using v True by (simp add: unat_sub)
  have dd: "dec_digits a = [0x32]" using True by (simp add: dec_digits.simps)
  have "\<exists>st'. cbb_and (\<lambda>st. CBB_add_bytes alloc st 0 [0x32, dot]) (\<lambda>st. add_decimal alloc st 0 (v - 80)) st = (True, st')
      \<and> built alloc lim st' (dec_digits a @ dot_digits b) []"
  proof (rule cbb_and_built)
    show "\<exists>st1. CBB_add_bytes alloc st 0 [0x32, dot] = (True, st1) \<and> built alloc lim st1 ([] @ [0x32, dot]) []"
      using b lim dd by (intro CBB_add_bytes_built) simp_all
    fix st1 assume "built alloc lim st1 ([] @ [0x32, dot]) []"
    from add_decimal_built [OF this, of "v - 80"]
    show "\<exists>st2. add_decimal alloc st1 0 (v - 80) = (True, st2) \<and> built alloc lim st2 (dec_digits a @ dot_digits b) []"
      using lim by (simp add: sub dd)
  qed
  then show ?thesis using v80 by (simp add: add_first_arcs_def)
next
  case False
  then have a: "a < 2" "b \<le> 39" using ok by (auto simp: oid_arcs_ok_def)
  then have v80: "\<not> v \<ge> 80" using v by (auto simp: word_le_nat_alt)
  have dm: "unat (v div 40) = a" "unat (v mod 40) = b" using v a by (simp_all add: unat_div unat_mod)
  have "\<exists>st'. cbb_and (\<lambda>st. add_decimal alloc st 0 (v div 40))
             (cbb_and (\<lambda>st. CBB_add_u8 alloc st 0 dot) (\<lambda>st. add_decimal alloc st 0 (v mod 40))) st = (True, st')
      \<and> built alloc lim st' (dec_digits a @ dot_digits b) []"
  proof (rule cbb_and_built)
    show "\<exists>st1. add_decimal alloc st 0 (v div 40) = (True, st1) \<and> built alloc lim st1 ([] @ dec_digits a) []"
      using add_decimal_built [OF b, of "v div 40"] lim by (simp add: dm)
    fix st1 assume "built alloc lim st1 ([] @ dec_digits a) []"
    from dot_digits_built [OF this, of "v mod 40"]
    show "\<exists>st2. cbb_and (\<lambda>st. CBB_add_u8 alloc st 0 dot) (\<lambda>st. add_decimal alloc st 0 (v mod 40)) st1 = (True, st2)
        \<and> built alloc lim st2 (dec_digits a @ dot_digits b) []"
      using lim by (simp add: dm)
  qed
  then show ?thesis using v80 by (simp add: add_first_arcs_def)
qed

lemma CBS_asn1_oid_to_text_contents:
  assumes al: "alloc_total alloc" and ok: "oid_arcs_ok a b arcs"
    and len: "length (dotted (a # b # arcs)) + 1 < SIZE_LIMIT"
  shows "CBS_asn1_oid_to_text alloc True (oid_contents a b arcs) = Some (dotted (a # b # arcs) @ [0])"
proof -
  let ?t = "dotted (a # b # arcs)" and ?v = "40 * word_of_nat a + word_of_nat b :: u64"
  let ?lim = "length ?t + 1"
  have t: "?t = (dec_digits a @ dot_digits b) @ concat (map dot_digits arcs)" by (simp add: dotted_Cons del: dotted.simps)
  have arcs: "list_all (\<lambda>n. n < 2 ^ 64) arcs" "40 * a + b < 2 ^ 64" using ok by (auto simp: oid_arcs_ok_def)
  obtain st0 where st0: "CBB_init alloc True 32 = Some st0" "built alloc ?lim st0 [] []"
    using CBB_init_built [OF al len, of 32] by (auto simp: SIZE_LIMIT_def)
  have "length (dec_digits a @ dot_digits b) \<le> ?lim" unfolding t by (simp del: dotted.simps)
  from add_first_arcs_built [OF st0(2) ok unat_first_arc [OF ok] this]
  obtain st1 where st1: "add_first_arcs alloc ?v st0 = (True, st1)" "built alloc ?lim st1 (dec_digits a @ dot_digits b) []"
    by blast
  have "length (dec_digits a @ dot_digits b) + length (concat (map dot_digits arcs)) \<le> ?lim"
    unfolding t by (simp del: dotted.simps)
  from oid_text_loop_built [OF st1(2) arcs(1) this]
  obtain st2 where st2: "oid_text_loop alloc st1 (concat (map base128 arcs)) = (True, st2)" "built alloc ?lim st2 ?t []"
    by (metis t)
  obtain st3 where st3: "CBB_add_u8 alloc st2 0 0 = (True, st3)" "built alloc ?lim st3 (?t @ [0]) []"
    using CBB_add_u8_built [OF st2(2), of 0 0] by auto
  from CBB_finish_built [OF st3(2)] obtain buf st4 where
    fin: "CBB_finish alloc st3 0 = (Some (buf, length (?t @ [0])), st4)" "take (length (?t @ [0])) buf = ?t @ [0]" by blast
  have first: "parse_base128_integer (oid_contents a b arcs) = (Some ?v, concat (map base128 arcs))"
    using parse_base128_append [OF arcs(2), of "concat (map base128 arcs)"] by (simp add: oid_contents_def)
  show ?thesis
    unfolding CBS_asn1_oid_to_text_def
    by (simp only: st0(1) option.case first prod.case st1(1) st2(1) st3(1) fin
        not_True_eq_False if_False)
qed

text \<open>C21: object identifiers round-trip between text and DER. For arcs the encoding can represent,
  \<open>CBB_add_asn1_oid_from_text\<close> parses the dotted text and appends exactly the base-128 contents octets (the first
  two arcs merged), and \<open>CBS_asn1_oid_to_text\<close> of these octets allocates the same text with its terminator.\<close>

theorem oid_text_roundtrip:
  assumes "built alloc lim st w cs" "d = length cs" "length w + length (oid_contents a b arcs) \<le> lim"
    and "oid_arcs_ok a b arcs" "alloc_total alloc'" "length (dotted (a # b # arcs)) + 1 < SIZE_LIMIT"
  shows "(\<exists>st'. CBB_add_asn1_oid_from_text alloc st d (dotted (a # b # arcs)) (length (dotted (a # b # arcs)))
             = (True, st') \<and> built alloc lim st' (w @ oid_contents a b arcs) cs)
       \<and> CBS_asn1_oid_to_text alloc' True (oid_contents a b arcs) = Some (dotted (a # b # arcs) @ [0])"
  using CBB_add_asn1_oid_from_text_built [OF assms(1,4,3,2)] CBS_asn1_oid_to_text_contents [OF assms(5,4,6)] by blast

lemma example_alloc: "alloc_total (\<lambda>n. Some (replicate n 0))"
  by (simp add: alloc_total_def)

lemma example_oid: "dotted [Suc 0, 2, 840] = [0x31, 0x2e, 0x32, 0x2e, 0x38, 0x34, 0x30]" "oid_contents (Suc 0) 2 [840] = [42, 134, 72]"
  by (simp_all add: dec_digits.simps oid_contents_def base128_def b128_hi.simps)

theorem oid_text_roundtrip_witness:
  "\<exists>st'. CBB_add_asn1_oid_from_text (\<lambda>_. None) empty_cbb 0 [0x31, 0x2e, 0x32, 0x2e, 0x38, 0x34, 0x30]
       (length [0x31 :: u8, 0x2e, 0x32, 0x2e, 0x38, 0x34, 0x30]) = (True, st') \<and>
     built (\<lambda>_. None) 16 st' ([] @ [42, 134, 72]) []"
  using oid_text_roundtrip [OF empty_cbb_built, of 0 "Suc 0" 2 "[840]" "\<lambda>n. Some (replicate n 0)"]
  by (simp add: example_oid example_alloc oid_arcs_ok_def SIZE_LIMIT_def del: dotted.simps)

subsection \<open>Flushing a SET OF sorts it\<close>

text \<open>The comparison is the lexicographic order, so that the sorted list is that of the library.\<close>

lemma c_memcmp_self: "length bs = n \<Longrightarrow> c_memcmp bs (bs @ cs) n = 0" "length bs = n \<Longrightarrow> c_memcmp (bs @ cs) bs n = 0"
  by (induction bs arbitrary: n) auto

lemma compare_set_of_element_Cons:
  "compare_set_of_element (a # as) (b # bs) = (if a = b then compare_set_of_element as bs else if a < b then - 1 else 1)"
  by (auto simp: compare_set_of_element_def CBS_len_def CBS_data_def Let_def)

lemma compare_set_of_element_Nil: "compare_set_of_element [] bs \<le> 0" "compare_set_of_element (a # as) [] = 1"
  by (auto simp: compare_set_of_element_def CBS_len_def CBS_data_def)

lemma compare_set_of_element_le: "compare_set_of_element a b \<le> 0 \<longleftrightarrow> a \<le> b"
proof (induction a arbitrary: b)
  case (Cons x a)
  then show ?case by (cases b) (auto simp: compare_set_of_element_Cons compare_set_of_element_Nil)
qed (simp add: compare_set_of_element_Nil)

lemma insert_by_insort: "insert_by compare_set_of_element x ys = insort x ys"
  by (induction ys) (simp_all add: compare_set_of_element_le)

lemma qsort_by_sort: "qsort_by compare_set_of_element xs = sort xs"
  unfolding qsort_by_def sort_key_def by (induction xs) (simp_all add: insert_by_insort)

definition der_element :: "u8 list \<Rightarrow> bool" where
  "der_element e \<longleftrightarrow> (\<exists>tag body. length body < 2 ^ 32 \<and> e = der tag body)"

lemma der_element_nonempty: "der_element e \<Longrightarrow> 2 \<le> length e"
proof -
  assume "der_element e"
  then obtain tag body where e: "e = der tag body" by (auto simp: der_element_def)
  have "0 < length (der_tag tag)" by (simp add: der_tag_def)
  moreover have "0 < length (der_length (length body))" by (simp add: der_length_def)
  ultimately show ?thesis unfolding e der_def by (simp only: length_append)
qed

lemma set_children_concat:
  "list_all der_element es \<Longrightarrow> length (concat es) < 2 ^ 63 \<Longrightarrow> set_children (concat es) = Some es"
proof (induction es)
  case Nil
  then show ?case by (simp add: set_children.simps CBS_len_def)
next
  case (Cons e es)
  then obtain tag body where e: "length body < 2 ^ 32" "e = der tag body" by (auto simp: der_element_def)
  have ne: "2 \<le> length e" using Cons.prems(1) by (intro der_element_nonempty) simp
  have "\<exists>hl. hl + length body = length e" unfolding e(2) der_def by (metis append_assoc length_append)
  then obtain hl where "CBS_get_any_asn1_element (concat (e # es)) = (Some (e, tag, hl), concat es)"
    using CBS_get_any_asn1_element_Some [OF Cons.prems(2), of e tag _ "concat es"] e by auto
  moreover have "e \<noteq> []" using ne by auto
  ultimately show ?case using Cons ne by (subst set_children.simps) (simp add: CBS_len_def)
qed

lemma add_children_built:
  "built alloc lim st w cs \<Longrightarrow> length w + length (concat es) \<le> lim \<Longrightarrow> d = length cs \<Longrightarrow>
   \<exists>st'. add_children alloc st d es = (True, st') \<and> built alloc lim st' (w @ concat es) cs"
proof (induction es arbitrary: st w)
  case (Cons e es)
  obtain st1 where "CBB_add_bytes alloc st d e = (True, st1)" "built alloc lim st1 (w @ e) cs"
    using CBB_add_bytes_built [OF Cons.prems(1), of e d] Cons.prems by auto
  then show ?case using Cons.IH [of st1 "w @ e"] Cons.prems by auto
qed simp

lemma cbb_rewind_built:
  assumes "built alloc lim st w cs" "n \<le> length w"
  shows "built alloc lim (st\<lparr>cbb_base := map_option (\<lambda>base. base\<lparr>cb_len := n\<rparr>) (cbb_base st)\<rparr>) (take n w) cs"
proof -
  obtain b where b: "cbb_base st = Some b" "cbb_inv alloc lim b w" "cbb_children st = cs"
    using assms(1) by (auto simp: built_def)
  have "take n (cb_buf b) = take n (take (length w) (cb_buf b))" using assms(2) by (simp add: min_def)
  also have "\<dots> = take n w" using b(2) by (simp add: cbb_inv_def cbb_rep_def)
  finally show ?thesis using b assms(2) by (auto simp: built_def cbb_inv_def cbb_rep_def min_def)
qed

lemma built_contents:
  assumes "built alloc lim st w cs"
  shows "take (CBB_len st d) (CBB_data st d) = drop (cbb_start st d) w"
proof -
  obtain b where b: "cbb_base st = Some b" "cb_len b = length w" "take (length w) (cb_buf b) = w"
    using assms by (auto simp: built_def cbb_inv_def cbb_rep_def)
  then show ?thesis by (simp add: CBB_len_def CBB_data_def) (metis b(3) drop_take)
qed

lemma length_concat_ge: "list_all der_element es \<Longrightarrow> 2 * length es \<le> length (concat es)"
proof (induction es)
  case (Cons e es)
  then show ?case using der_element_nonempty [of e] by simp
qed simp

text \<open>C27: flushing a SET OF sorts it. When what has been written to the \<open>CBB\<close> at depth \<open>d\<close> is a series of DER
  elements, \<open>CBB_flush_asn1_set_of\<close> replaces it by the same elements in ascending lexicographic order of their
  encodings (X.690, 11.6), leaves everything in front of it as it was, and never fails if memory is available.\<close>

theorem CBB_flush_asn1_set_of_sorts:
  assumes b: "built alloc lim st w cs" and d: "d = length cs" and al: "alloc_total alloc"
    and w: "w = before @ concat es" "length before = cbb_start st d"
    and es: "list_all der_element es" "length (concat es) < 2 ^ 60"
  shows "\<exists>st'. CBB_flush_asn1_set_of alloc st d = (True, st') \<and> built alloc lim st' (before @ concat (sort es)) cs"
proof -
  have fl: "CBB_flush alloc st d = (True, st)" unfolding d by (rule CBB_flush_nop [OF b])
  have cont: "take (CBB_len st d) (CBB_data st d) = concat es"
    unfolding built_contents [OF b] w(1) by (simp add: w(2))
  have ch: "set_children (concat es) = Some es" using es by (intro set_children_concat) simp_all
  have small: "length es * 16 < SIZE_LIMIT" using length_concat_ge [OF es(1)] es(2) by (simp add: SIZE_LIMIT_def)
  have tot: "CBB_len st d < SIZE_LIMIT"
    using cbb_inv_bounds b by (fastforce simp: built_def CBB_len_def)
  have lw: "length w \<le> lim" using b by (auto simp: built_def cbb_inv_def)
  show ?thesis
  proof (cases "length es < 2")
    case True
    then have "sort es = es" by (cases es) auto
    then show ?thesis using b True by (auto simp: CBB_flush_asn1_set_of_def fl cont ch w(1))
  next
    case False
    let ?st = "st\<lparr>cbb_base := map_option (\<lambda>base. base\<lparr>cb_len := cbb_start st d\<rparr>) (cbb_base st)\<rparr>"
    have "built alloc lim ?st (take (cbb_start st d) w) cs" by (rule cbb_rewind_built [OF b]) (simp add: w)
    then have r: "built alloc lim ?st before cs" by (simp add: w)
    have lc: "length (concat (sort es)) = length (concat es)"
      by (metis length_concat mset_map mset_sort sum_mset_sum_list)
    have "length before + length (concat (sort es)) \<le> lim" using lw w(1) lc by simp
    from add_children_built [OF r this d]
    obtain st' where "add_children alloc ?st d (sort es) = (True, st')"
      "built alloc lim st' (before @ concat (sort es)) cs" by blast
    moreover have "\<not> length es > (SIZE_LIMIT - 1) div 16" using small by (simp add: not_less SIZE_LIMIT_def)
    moreover have "alloc (CBB_len st d) \<noteq> None" "alloc (length es * 16) \<noteq> None"
      using al small tot by (auto simp: alloc_total_def)
    ultimately show ?thesis
      using False by (simp add: CBB_flush_asn1_set_of_def fl cont ch Let_def qsort_by_sort)
  qed
qed

definition set_cbb :: cbb where
  "set_cbb = \<lparr>cbb_base = Some \<lparr>cb_buf = [2, 1, 7, 2, 1, 5], cb_len = 6, cb_cap = 6, cb_can_resize = False,
     cb_error = False\<rparr>, cbb_children = []\<rparr>"

theorem CBB_flush_asn1_set_of_sorts_witness:
  "\<exists>st'. CBB_flush_asn1_set_of (\<lambda>n. Some (replicate n 0)) set_cbb 0 = (True, st') \<and>
     built (\<lambda>n. Some (replicate n 0)) 6 st' [2, 1, 5, 2, 1, 7] []"
proof -
  let ?a = "\<lambda>n. Some (replicate n (0 :: u8))" and ?es = "[[2, 1, 7], [2, 1, 5]] :: u8 list list"
  have e: "[2, 1, 7] = der 2 [7]" "[2, 1, 5] = der 2 [5]"
    by (simp_all add: der_def der_tag_def tag_number_def tag_class_def der_length_def)
  have es: "list_all der_element ?es" unfolding e by (auto simp: der_element_def intro!: exI)
  have b: "built ?a 6 set_cbb [2, 1, 7, 2, 1, 5] []"
    by (simp add: built_def set_cbb_def cbb_inv_def cbb_rep_def SIZE_LIMIT_def)
  have s: "sort ?es = [[2, 1, 5], [2, 1, 7]]" by simp
  have "\<exists>st'. CBB_flush_asn1_set_of ?a set_cbb 0 = (True, st') \<and> built ?a 6 st' ([] @ concat (sort ?es)) []"
    by (rule CBB_flush_asn1_set_of_sorts [OF b _ example_alloc _ _ es]) (simp_all add: cbb_start_def)
  then show ?thesis unfolding s by simp
qed

end
