(* ===== verification/Digest.thy ===== *)
theory Digest
  imports C_Prelude
begin

text \<open>
  The collector shared by the 32-bit message digests (\<open>crypto/fipsmodule/digest/md32_common.h\<close>): the macros
  of the header are parameters here, the block function of the digest (\<open>HASH_BLOCK_DATA_ORDER\<close>) and its byte
  order. The contract of a block function is the locale \<open>md_block\<close>; in it the collector is shown to
  hash the concatenation of what it was given, whatever the sizes of the pieces.
\<close>

record md32_ctx =
  c_h :: "u32 list"
  c_Nl :: u32
  c_Nh :: u32
  c_data :: "u8 list"
  c_num :: nat
  c_md_len :: nat

definition HASH_CBLOCK :: nat where
  "HASH_CBLOCK = 64"

text \<open>The byte orders: \<open>True\<close> is big-endian.\<close>

fun HOST_c2l :: "bool \<Rightarrow> u8 list \<Rightarrow> u32" where
  "HOST_c2l True [a, b, c, d] = ((push_bit 24 (ucast a) OR push_bit 16 (ucast b)) OR push_bit 8 (ucast c)) OR ucast d"
| "HOST_c2l False [a, b, c, d] = ((ucast a OR push_bit 8 (ucast b)) OR push_bit 16 (ucast c)) OR push_bit 24 (ucast d)"
| "HOST_c2l _ _ = 0"

definition HOST_l2c :: "bool \<Rightarrow> u32 \<Rightarrow> u8 list" where
  "HOST_l2c big l =
     (if big then [ucast (drop_bit 24 l AND 0xff), ucast (drop_bit 16 l AND 0xff), ucast (drop_bit 8 l AND 0xff), ucast (l AND 0xff)]
      else [ucast (l AND 0xff), ucast (drop_bit 8 l AND 0xff), ucast (drop_bit 16 l AND 0xff), ucast (drop_bit 24 l AND 0xff)])"

text \<open>The 16 words of a block, read one after the other.\<close>

definition block_words :: "bool \<Rightarrow> u8 list \<Rightarrow> u32 list" where
  "block_words big d = map (\<lambda>i. HOST_c2l big (take 4 (drop (4 * i) d))) [0..<16]"

text \<open>The byte count, the completion of a started block, and the whole blocks and the rest.\<close>

definition hash_count :: "md32_ctx \<Rightarrow> nat \<Rightarrow> md32_ctx" where
  "hash_count c len =
     (let l = c_Nl c + push_bit 3 (word_of_nat len) in
      c\<lparr>c_Nh := (if l < c_Nl c then c_Nh c + 1 else c_Nh c) + ucast (drop_bit 29 (word_of_nat len :: u64)), c_Nl := l\<rparr>)"

definition hash_rest :: "(u32 list \<Rightarrow> u8 list \<Rightarrow> nat \<Rightarrow> u32 list) \<Rightarrow> md32_ctx \<Rightarrow> u8 list \<Rightarrow> md32_ctx" where
  "hash_rest block c data =
     (let n = length data div HASH_CBLOCK;
          c1 = (if n > 0 then c\<lparr>c_h := block (c_h c) data n\<rparr> else c);
          data1 = (if n > 0 then drop (n * HASH_CBLOCK) data else data)
      in if length data1 \<noteq> 0 then c1\<lparr>c_num := length data1, c_data := copy_bytes (c_data c1) 0 data1\<rparr> else c1)"

definition HASH_UPDATE :: "(u32 list \<Rightarrow> u8 list \<Rightarrow> nat \<Rightarrow> u32 list) \<Rightarrow> md32_ctx \<Rightarrow> u8 list \<Rightarrow> md32_ctx" where
  "HASH_UPDATE block c data =
     (let len = length data in
      if len = 0 then c
      else
        let c1 = hash_count c len; n = c_num c1 in
        if n \<noteq> 0 then
          (if len \<ge> HASH_CBLOCK \<or> size_add len n \<ge> HASH_CBLOCK then
             hash_rest block
               (c1\<lparr>c_h := block (c_h c1) (copy_bytes (c_data c1) n (take (HASH_CBLOCK - n) data)) 1,
                   c_num := 0, c_data := replicate HASH_CBLOCK 0\<rparr>)
               (drop (HASH_CBLOCK - n) data)
           else c1\<lparr>c_data := copy_bytes (c_data c1) n data, c_num := n + len\<rparr>)
        else hash_rest block c1 data)"

definition HASH_TRANSFORM :: "(u32 list \<Rightarrow> u8 list \<Rightarrow> nat \<Rightarrow> u32 list) \<Rightarrow> md32_ctx \<Rightarrow> u8 list \<Rightarrow> md32_ctx" where
  "HASH_TRANSFORM block c data = c\<lparr>c_h := block (c_h c) data 1\<rparr>"

text \<open>\<open>HASH_FINAL\<close> up to \<open>HASH_MAKE_STRING\<close>, which reads the chaining value from the result. Its assertion
  \<open>n < HASH_CBLOCK\<close> holds on every context that represents a message (\<open>md32_rep_num\<close>).\<close>

definition HASH_FINAL :: "(u32 list \<Rightarrow> u8 list \<Rightarrow> nat \<Rightarrow> u32 list) \<Rightarrow> bool \<Rightarrow> md32_ctx \<Rightarrow> md32_ctx" where
  "HASH_FINAL block big c =
     (let data0 = (c_data c)[c_num c := 0x80]; n = c_num c + 1;
          full = n > HASH_CBLOCK - 8;
          data1 = (if full then copy_bytes data0 n (replicate (HASH_CBLOCK - n) 0) else data0);
          h1 = (if full then block (c_h c) data1 1 else c_h c);
          n1 = (if full then 0 else n);
          data2 = copy_bytes data1 n1 (replicate (HASH_CBLOCK - 8 - n1) 0);
          data3 = copy_bytes data2 (HASH_CBLOCK - 8)
            (if big then HOST_l2c big (c_Nh c) @ HOST_l2c big (c_Nl c) else HOST_l2c big (c_Nl c) @ HOST_l2c big (c_Nh c))
      in c\<lparr>c_h := block h1 data3 1, c_num := 0, c_data := replicate HASH_CBLOCK 0\<rparr>)"

definition hash_init :: "u32 list \<Rightarrow> nat \<Rightarrow> md32_ctx" where
  "hash_init h md_len = \<lparr>c_h = h, c_Nl = 0, c_Nh = 0, c_data = replicate HASH_CBLOCK 0, c_num = 0, c_md_len = md_len\<rparr>"

text \<open>Calling the body of the block function \<open>num\<close> times along the data.\<close>

fun each_block :: "nat \<Rightarrow> ('h \<Rightarrow> u8 list \<Rightarrow> 'h) \<Rightarrow> 'h \<Rightarrow> u8 list \<Rightarrow> nat \<Rightarrow> 'h" where
  "each_block len f h d 0 = h"
| "each_block len f h d (Suc n) = each_block len f (f h (take len d)) (drop len d) n"

subsection \<open>The contract of a block function\<close>

definition absorbed :: "nat \<Rightarrow> ('h \<Rightarrow> u8 list \<Rightarrow> nat \<Rightarrow> 'h) \<Rightarrow> 'h \<Rightarrow> u8 list \<Rightarrow> 'h" where
  "absorbed len block h msg = block h msg (length msg div len)"

definition pending :: "nat \<Rightarrow> u8 list \<Rightarrow> u8 list" where
  "pending len msg = drop (len * (length msg div len)) msg"

locale md_block =
  fixes len :: nat and block :: "'h \<Rightarrow> u8 list \<Rightarrow> nat \<Rightarrow> 'h"
  assumes len_pos: "0 < len"
    and block_0: "block h d 0 = h"
    and block_add: "block h d (m + n) = block (block h d m) (drop (len * m) d) n"
    and block_prefix: "len * n \<le> length d \<Longrightarrow> block h (d @ e) n = block h d n"
begin

lemma pending_length: "length (pending len msg) = length msg mod len"
  by (simp add: pending_def minus_mult_div_eq_mod)

lemma split_blocks: "length (msg @ d) div len = length msg div len + length (pending len msg @ d) div len"
proof -
  have "length msg + length d = (length msg mod len + length d) + len * (length msg div len)" by simp
  moreover have "(n + len * k) div len = k + n div len" for n k using len_pos by simp
  ultimately show ?thesis by (simp only: length_append pending_length)
qed

lemma drop_whole: "drop (len * (length msg div len)) (msg @ d) = pending len msg @ d"
  by (simp add: pending_def)

lemma absorbed_append:
  "absorbed len block h (msg @ d) = absorbed len block (absorbed len block h msg) (pending len msg @ d)"
proof -
  have "block h (msg @ d) (length msg div len) = block h msg (length msg div len)" by (rule block_prefix) simp
  then show ?thesis unfolding absorbed_def split_blocks [of msg d] by (simp only: block_add drop_whole)
qed

lemma pending_append: "pending len (msg @ d) = pending len (pending len msg @ d)"
proof -
  have "pending len (msg @ d) = drop (len * (length msg div len) + len * (length (pending len msg @ d) div len)) (msg @ d)"
    unfolding pending_def [of len "msg @ d"] split_blocks [of msg d] by (simp only: distrib_left)
  also have "\<dots> = drop (len * (length (pending len msg @ d) div len)) (pending len msg @ d)"
    by (metis add.commute drop_drop drop_whole)
  finally show ?thesis unfolding pending_def [of len "pending len msg @ d"] .
qed

lemma absorbed_short: "length d < len \<Longrightarrow> absorbed len block h d = h"
  by (simp add: absorbed_def block_0)

lemma pending_short: "length d < len \<Longrightarrow> pending len d = d"
  by (simp add: pending_def)

lemma absorbed_block: "length b = len \<Longrightarrow> absorbed len block h (b @ d) = absorbed len block (block h b 1) d"
proof -
  assume b: "length b = len"
  then have "length b div len = 1" "pending len b = []" using len_pos by (simp_all add: pending_def)
  then show ?thesis using absorbed_append [of h b d] by (simp add: absorbed_def)
qed

lemma pending_block: "length b = len \<Longrightarrow> pending len (b @ d) = pending len d"
  using pending_append [of b d] len_pos by (simp add: pending_def)

end

lemma each_block_md: "0 < len \<Longrightarrow> md_block len (each_block len f)"
proof
  fix h :: 'a and d e :: "u8 list" and m n :: nat
  show "each_block len f h d (m + n) = each_block len f (each_block len f h d m) (drop (len * m) d) n"
    by (induction m arbitrary: h d) (simp_all add: add.commute)
  show "len * n \<le> length d \<Longrightarrow> each_block len f h (d @ e) n = each_block len f h d n"
    by (induction n arbitrary: h d) simp_all
qed simp_all

subsection \<open>Counting the bits\<close>

lemma two_limb_add:
  "0 < N \<Longrightarrow> (a0 + b0) mod N + N * ((a1 + (a0 + b0) div N + b1) mod N) = (a0 + N * a1 + (b0 + N * b1)) mod (N * N)"
  for N :: nat
proof -
  assume N: "0 < N"
  let ?x = "a0 + N * a1 + (b0 + N * b1)"
  have x: "?x = a0 + b0 + N * (a1 + b1)" by (simp add: algebra_simps)
  have "?x div N = a1 + (a0 + b0) div N + b1" "?x mod N = (a0 + b0) mod N"
    unfolding x using N by simp_all
  then show ?thesis by (simp add: mod_mult2_eq)
qed

lemma word_add_carry:
  fixes a b :: "'a::len word"
  shows "unat (a + b) = (unat a + unat b) mod 2 ^ LENGTH('a)"
    and "(if a + b < a then 1 else 0) = (unat a + unat b) div 2 ^ LENGTH('a)"
proof -
  let ?N = "(2::nat) ^ LENGTH('a)"
  show s: "unat (a + b) = (unat a + unat b) mod ?N" by (rule unat_word_ariths)
  have bd: "unat a < ?N" "unat b < ?N" by simp_all
  show "(if a + b < a then 1 else 0) = (unat a + unat b) div ?N"
  proof (cases "unat a + unat b < ?N")
    case True
    then show ?thesis by (simp add: word_less_nat_alt s)
  next
    case False
    have lt: "unat a + unat b - ?N < ?N" using bd by linarith
    have "(unat a + unat b) mod ?N = unat a + unat b - ?N"
      using False lt by (simp only: le_mod_geq mod_less not_less)
    moreover have "(unat a + unat b) div ?N = 1"
      using False lt by (simp only: le_div_geq div_less not_less)
    ultimately show ?thesis using False bd by (simp only: word_less_nat_alt s split: if_split) linarith
  qed
qed

lemma word_bit_count:
  assumes "3 < LENGTH('a::len)"
  shows "8 * n = unat (push_bit 3 (word_of_nat n :: 'a word)) + 2 ^ LENGTH('a) * (n div 2 ^ (LENGTH('a) - 3))"
proof -
  have "(2::nat) ^ LENGTH('a) = 8 * 2 ^ (LENGTH('a) - 3)"
    using assms power_add [of "2::nat" 3 "LENGTH('a) - 3"] by simp
  moreover have "(push_bit 3 (word_of_nat n) :: 'a word) = word_of_nat (8 * n)"
    by (simp add: push_bit_eq_mult mult.commute)
  then have "unat (push_bit 3 (word_of_nat n :: 'a word)) = (8 * n) mod 2 ^ LENGTH('a)" by (simp only: unat_of_nat)
  moreover have "(8 * n) div (8 * k) = n div k" "(8 * n) mod (8 * k) = 8 * (n mod k)" for k :: nat by simp_all
  ultimately have "unat (push_bit 3 (word_of_nat n :: 'a word)) + 2 ^ LENGTH('a) * (n div 2 ^ (LENGTH('a) - 3))
      = 8 * (n mod 2 ^ (LENGTH('a) - 3)) + 8 * 2 ^ (LENGTH('a) - 3) * (n div 2 ^ (LENGTH('a) - 3))" by simp
  then show ?thesis by (simp flip: distrib_left mult.assoc) (simp add: mult.assoc flip: distrib_left)
qed

lemma unat_add3: "unat (a + b + c) = (unat a + unat b + unat c) mod 2 ^ LENGTH('a)" for a b c :: "'a::len word"
  by (simp add: unat_word_ariths mod_add_left_eq)

lemma limb_count:
  fixes nl nh w k :: "'a::len word"
  assumes "unat k = m mod 2 ^ LENGTH('a)"
  shows "unat (nl + w) + 2 ^ LENGTH('a) * unat ((if nl + w < nl then nh + 1 else nh) + k)
       = (unat nl + 2 ^ LENGTH('a) * unat nh + (unat w + 2 ^ LENGTH('a) * m)) mod (2 ^ LENGTH('a) * 2 ^ LENGTH('a))"
proof -
  let ?c = "if nl + w < nl then 1 else 0 :: 'a word"
  have "unat ?c = (unat nl + unat w) div 2 ^ LENGTH('a)"
    using word_add_carry(2) [of nl w] by (simp split: if_splits)
  moreover have "(if nl + w < nl then nh + 1 else nh) + k = nh + ?c + k" by simp
  ultimately have "unat ((if nl + w < nl then nh + 1 else nh) + k)
      = (unat nh + (unat nl + unat w) div 2 ^ LENGTH('a) + m) mod 2 ^ LENGTH('a)"
    by (simp only: unat_add3 assms mod_add_right_eq)
  then show ?thesis by (simp only: word_add_carry(1) two_limb_add zero_less_power zero_less_numeral)
qed

definition bit_count :: "md32_ctx \<Rightarrow> nat" where
  "bit_count c = unat (c_Nl c) + 2 ^ 32 * unat (c_Nh c)"

lemma bit_count_hash_count:
  assumes "n < SIZE_LIMIT"
  shows "bit_count (hash_count c n) = (bit_count c + 8 * n) mod 2 ^ 64"
proof -
  let ?w = "push_bit 3 (word_of_nat n) :: u32" and ?k = "ucast (drop_bit 29 (word_of_nat n :: u64)) :: u32"
  let ?N = "(2::nat) ^ 32"
  have un: "unat (word_of_nat n :: u64) = n" using assms by (intro unat_word_of_nat) (simp add: SIZE_LIMIT_def)
  have k: "unat ?k = (n div 2 ^ 29) mod ?N"
    by (simp only: unat_ucast_mod unat_drop_bit un) simp
  have "bit_count (hash_count c n)
      = (unat (c_Nl c) + ?N * unat (c_Nh c) + (unat ?w + ?N * (n div 2 ^ 29))) mod (?N * ?N)"
    using limb_count [of ?k "n div 2 ^ 29" "c_Nl c" ?w "c_Nh c"] k
    unfolding bit_count_def hash_count_def Let_def by simp
  also have "unat ?w + ?N * (n div 2 ^ 29) = 8 * n"
    using word_bit_count [of n, where 'a = 32] by simp
  finally show ?thesis by (simp add: bit_count_def)
qed

subsection \<open>The length bytes\<close>

lemma nth_le_bytes: "i < n \<Longrightarrow> le_bytes n w ! i = ucast (drop_bit (8 * i) w)"
proof (induction n arbitrary: w i)
  case (Suc n)
  then show ?case by (cases i) (simp_all add: drop_bit_drop_bit add.commute)
qed simp

lemma le_bytes_ucast:
  assumes "8 * n \<le> LENGTH('b::len)" "LENGTH('b) \<le> LENGTH('a::len)"
  shows "le_bytes n (ucast w :: 'b word) = le_bytes n (w :: 'a word)"
proof (rule nth_equalityI)
  fix i assume "i < length (le_bytes n (ucast w :: 'b word))"
  then have i: "i < n" "8 * i + 8 \<le> LENGTH('b)" using assms(1) by auto
  have "(ucast (drop_bit (8 * i) (ucast w :: 'b word)) :: u8) = ucast (drop_bit (8 * i) w)"
    by (rule bit_word_eqI) (use i assms in \<open>auto simp: bit_unsigned_iff bit_drop_bit_eq\<close>)
  then show "le_bytes n (ucast w :: 'b word) ! i = le_bytes n w ! i" using i by (simp add: nth_le_bytes)
qed simp

lemma le_bytes_add: "le_bytes (m + n) w = le_bytes m w @ le_bytes n (drop_bit (8 * m) w)"
  by (induction m arbitrary: w) (simp_all add: drop_bit_drop_bit add.commute)

lemma HOST_l2c_le_bytes: "HOST_l2c big l = (if big then rev (le_bytes 4 l) else le_bytes 4 l)"
proof -
  have "(ucast (w AND 0xff) :: u8) = ucast w" for w :: u32
    unfolding and_0xFF by (rule bit_word_eqI) (simp add: bit_unsigned_iff bit_take_bit_iff)
  then show ?thesis by (simp add: HOST_l2c_def drop_bit_drop_bit)
qed

definition md_length_bytes :: "bool \<Rightarrow> nat \<Rightarrow> u8 list" where
  "md_length_bytes big bits = (let l = le_bytes 8 (word_of_nat bits :: u64) in if big then rev l else l)"

lemma HOST_l2c_length:
  "(if big then HOST_l2c big nh @ HOST_l2c big nl else HOST_l2c big nl @ HOST_l2c big nh)
   = md_length_bytes big (unat nl + 2 ^ 32 * unat nh)"
proof -
  let ?n = "unat nl + 2 ^ 32 * unat nh" and ?w = "word_of_nat (unat nl + 2 ^ 32 * unat nh) :: u64"
  have bd: "unat nl < 2 ^ 32" "unat nh < 2 ^ 32"
    using unsigned_less [of nl, where ?'a = nat] unsigned_less [of nh, where ?'a = nat] by simp_all
  then have un: "unat ?w = ?n" by (intro unat_word_of_nat) simp
  have "(ucast ?w :: u32) = nl"
  proof (rule word_unat_eq_iff [THEN iffD2])
    have "unat (ucast ?w :: u32) = ?n mod 2 ^ 32" by (simp only: unat_ucast_mod un) simp
    then show "unat (ucast ?w :: u32) = unat nl" using bd by simp
  qed
  moreover have "(ucast (drop_bit 32 ?w) :: u32) = nh"
  proof (rule word_unat_eq_iff [THEN iffD2])
    have "unat (drop_bit 32 ?w) = unat nh" using bd by (simp only: unat_drop_bit un) simp
    then show "unat (ucast (drop_bit 32 ?w) :: u32) = unat nh" using bd by (simp add: unat_ucast_mod del: of_nat_add of_nat_mult)
  qed
  ultimately have "le_bytes 8 ?w = le_bytes 4 nl @ le_bytes 4 nh"
    using le_bytes_add [of 4 4 ?w] le_bytes_ucast [of 4 ?w, where 'b = 32] le_bytes_ucast [of 4 "drop_bit 32 ?w", where 'b = 32]
    by (simp del: le_bytes_numeral of_nat_add of_nat_mult)
  then show ?thesis by (simp add: md_length_bytes_def HOST_l2c_le_bytes Let_def del: le_bytes_numeral of_nat_add of_nat_mult)
qed

text \<open>The padding of RFC 1320, RFC 1321 and FIPS 180-4: a one bit, zeros, and the length in bits.\<close>

definition md_pad :: "bool \<Rightarrow> u8 list \<Rightarrow> u8 list" where
  "md_pad big msg =
     msg @ 0x80 # replicate ((if length msg mod 64 < 56 then 55 else 119) - length msg mod 64) 0 @
       md_length_bytes big (8 * length msg)"

lemma length_md_length_bytes [simp]: "length (md_length_bytes big n) = 8"
  by (simp add: md_length_bytes_def Let_def)

lemma md_length_bytes_mod: "md_length_bytes big (n mod 2 ^ 64) = md_length_bytes big n"
proof -
  have "(word_of_nat (n mod 2 ^ 64) :: u64) = word_of_nat n"
    by (rule word_unat_eq_iff [THEN iffD2]) (simp only: unat_of_nat, simp)
  then show ?thesis by (simp only: md_length_bytes_def)
qed

subsection \<open>The collector\<close>

text \<open>A context represents the message absorbed so far.\<close>

definition md32_holds :: "md32_ctx \<Rightarrow> u32 list \<Rightarrow> u8 list \<Rightarrow> nat \<Rightarrow> nat \<Rightarrow> bool" where
  "md32_holds c h rest bits md_len \<longleftrightarrow>
     c_h c = h \<and> c_num c = length rest \<and> length (c_data c) = HASH_CBLOCK \<and> take (length rest) (c_data c) = rest \<and>
     bit_count c = bits \<and> c_md_len c = md_len"

definition md32_rep :: "(u32 list \<Rightarrow> u8 list \<Rightarrow> nat \<Rightarrow> u32 list) \<Rightarrow> u32 list \<Rightarrow> nat \<Rightarrow> md32_ctx \<Rightarrow> u8 list \<Rightarrow> bool" where
  "md32_rep block iv md_len c msg \<longleftrightarrow>
     md32_holds c (absorbed HASH_CBLOCK block iv msg) (pending HASH_CBLOCK msg) ((8 * length msg) mod 2 ^ 64) md_len"

text \<open>The assertion of \<open>HASH_FINAL\<close>.\<close>

lemma md32_rep_num: "md32_rep block iv md_len c msg \<Longrightarrow> c_num c < HASH_CBLOCK"
  by (simp add: md32_rep_def md32_holds_def pending_def HASH_CBLOCK_def)

lemma HASH_CBLOCK_pos [simp]: "0 < HASH_CBLOCK"
  by (simp add: HASH_CBLOCK_def)

lemma hash_count_frame [simp]:
  "c_h (hash_count c n) = c_h c" "c_num (hash_count c n) = c_num c" "c_data (hash_count c n) = c_data c"
  "c_md_len (hash_count c n) = c_md_len c"
  by (simp_all add: hash_count_def Let_def)

lemma copy_bytes_take: "off + length bs \<le> length dst \<Longrightarrow> take (off + length bs) (copy_bytes dst off bs) = take off dst @ bs"
  by (simp add: copy_bytes_splice)

locale md32 = md_block HASH_CBLOCK block for block :: "u32 list \<Rightarrow> u8 list \<Rightarrow> nat \<Rightarrow> u32 list"
begin

lemma hash_rest_absorbs:
  assumes "c_num c = 0" "length (c_data c) = HASH_CBLOCK"
  shows "md32_holds (hash_rest block c d) (absorbed HASH_CBLOCK block (c_h c) d) (pending HASH_CBLOCK d) (bit_count c) (c_md_len c)"
proof -
  have p: "(if length d div HASH_CBLOCK > 0 then drop (length d div HASH_CBLOCK * HASH_CBLOCK) d else d)
      = pending HASH_CBLOCK d"
    by (simp add: pending_def mult.commute)
  have h: "c_h (if length d div HASH_CBLOCK > 0 then c\<lparr>c_h := block (c_h c) d (length d div HASH_CBLOCK)\<rparr> else c)
      = absorbed HASH_CBLOCK block (c_h c) d"
    by (simp add: absorbed_def block_0)
  have "length (pending HASH_CBLOCK d) < HASH_CBLOCK" by (simp add: pending_length)
  then have "take (length (pending HASH_CBLOCK d)) (copy_bytes (c_data c) 0 (pending HASH_CBLOCK d)) = pending HASH_CBLOCK d"
    using copy_bytes_take [of 0 "pending HASH_CBLOCK d" "c_data c"] assms(2) by simp
  then show ?thesis
    using assms h unfolding hash_rest_def Let_def p by (auto simp: md32_holds_def bit_count_def)
qed

lemma HASH_UPDATE_absorbs:
  assumes r: "md32_rep block iv n c msg" and len: "length d < SIZE_LIMIT"
  shows "md32_rep block iv n (HASH_UPDATE block c d) (msg @ d)"
proof -
  let ?p = "pending HASH_CBLOCK msg" and ?c1 = "hash_count c (length d)"
  let ?H = "absorbed HASH_CBLOCK block iv msg"
  have c: "c_h c = ?H" "c_num c = length ?p" "length (c_data c) = HASH_CBLOCK" "take (length ?p) (c_data c) = ?p"
    "bit_count c = (8 * length msg) mod 2 ^ 64"
    and ml: "c_md_len c = n"
    using r by (auto simp: md32_rep_def md32_holds_def)
  have pl: "length ?p < HASH_CBLOCK" by (simp add: pending_length)
  have bits: "bit_count ?c1 = (8 * length (msg @ d)) mod 2 ^ 64"
    unfolding bit_count_hash_count [OF len] c(5) by (simp add: mod_add_left_eq distrib_left)
  consider (empty) "d = []" | (fits) "d \<noteq> []" "?p \<noteq> []" "length d + length ?p < HASH_CBLOCK"
    | (completes) "d \<noteq> []" "?p \<noteq> []" "HASH_CBLOCK \<le> length d + length ?p" | (aligned) "d \<noteq> []" "?p = []"
    by fastforce
  then show ?thesis
  proof cases
    case empty
    then show ?thesis using r by (simp add: HASH_UPDATE_def)
  next
    case fits
    have "size_add (length d) (length ?p) = length d + length ?p"
      using fits len by (intro size_add_exact) (simp add: HASH_CBLOCK_def SIZE_LIMIT_def)
    then have u: "HASH_UPDATE block c d = ?c1\<lparr>c_data := copy_bytes (c_data c) (length ?p) d, c_num := length ?p + length d\<rparr>"
      using fits c(2) by (simp add: HASH_UPDATE_def Let_def)
    have sh: "length (?p @ d) < HASH_CBLOCK" using fits by simp
    have "take (length ?p + length d) (copy_bytes (c_data c) (length ?p) d) = ?p @ d"
      using copy_bytes_take [of "length ?p" d "c_data c"] fits c(3,4) by simp
    then show ?thesis
      using c bits ml unfolding u md32_rep_def md32_holds_def absorbed_append [of iv msg d] pending_append [of msg d]
        absorbed_short [OF sh] pending_short [OF sh] by (simp add: bit_count_def)
  next
    case completes
    let ?k = "HASH_CBLOCK - length ?p"
    let ?b = "?p @ take ?k d"
    have k: "?k \<le> length d" "length ?b = HASH_CBLOCK" using completes pl by auto
    have blk: "copy_bytes (c_data c) (length ?p) (take ?k d) = ?b"
      using copy_bytes_take [of "length ?p" "take ?k d" "c_data c"] k c(3,4) pl by simp
    have guard: "length d \<ge> HASH_CBLOCK \<or> size_add (length d) (length ?p) \<ge> HASH_CBLOCK"
    proof (cases "length d \<ge> HASH_CBLOCK")
      case False
      then have "size_add (length d) (length ?p) = length d + length ?p"
        using pl by (intro size_add_exact) (simp add: HASH_CBLOCK_def SIZE_LIMIT_def)
      then show ?thesis using completes by simp
    qed simp
    let ?c2 = "?c1\<lparr>c_h := block ?H ?b 1, c_num := 0, c_data := replicate HASH_CBLOCK 0\<rparr>"
    have u: "HASH_UPDATE block c d = hash_rest block ?c2 (drop ?k d)"
      using completes guard c(1,2) blk by (simp add: HASH_UPDATE_def Let_def)
    have split: "?p @ d = ?b @ drop ?k d" by simp
    have "absorbed HASH_CBLOCK block iv (msg @ d) = absorbed HASH_CBLOCK block (block ?H ?b 1) (drop ?k d)"
      unfolding absorbed_append [of iv msg d] split by (rule absorbed_block [OF k(2)])
    moreover have "pending HASH_CBLOCK (msg @ d) = pending HASH_CBLOCK (drop ?k d)"
      unfolding pending_append [of msg d] split by (rule pending_block [OF k(2)])
    moreover have "bit_count ?c2 = bit_count ?c1" by (simp add: bit_count_def)
    ultimately show ?thesis
      using hash_rest_absorbs [of ?c2 "drop ?k d"] bits ml unfolding u md32_rep_def by simp
  next
    case aligned
    have u: "HASH_UPDATE block c d = hash_rest block ?c1 d"
      using aligned c(2) by (simp add: HASH_UPDATE_def Let_def)
    have "absorbed HASH_CBLOCK block iv (msg @ d) = absorbed HASH_CBLOCK block ?H d"
      "pending HASH_CBLOCK (msg @ d) = pending HASH_CBLOCK d"
      using absorbed_append [of iv msg d] pending_append [of msg d] aligned(2) by simp_all
    then show ?thesis
      using hash_rest_absorbs [of ?c1 d] bits c ml aligned(2) unfolding u md32_rep_def by simp
  qed
qed


lemma HASH_FINAL_absorbs:
  assumes r: "md32_rep block iv n c msg"
  shows "c_h (HASH_FINAL block big c) = absorbed HASH_CBLOCK block iv (md_pad big msg)"
proof -
  let ?p = "pending HASH_CBLOCK msg" and ?H = "absorbed HASH_CBLOCK block iv msg"
  let ?k = "length ?p" and ?l = "md_length_bytes big (8 * length msg)"
  have c: "c_h c = ?H" "c_num c = ?k" "length (c_data c) = 64" "take ?k (c_data c) = ?p"
    using r by (auto simp: md32_rep_def md32_holds_def HASH_CBLOCK_def)
  have k: "?k = length msg mod 64" "?k < 64" by (simp_all only: pending_length) (simp_all add: HASH_CBLOCK_def)
  have lb: "(if big then HOST_l2c big (c_Nh c) @ HOST_l2c big (c_Nl c) else HOST_l2c big (c_Nl c) @ HOST_l2c big (c_Nh c)) = ?l"
    unfolding HOST_l2c_length using r md_length_bytes_mod [of big "8 * length msg"]
    by (simp add: md32_rep_def md32_holds_def bit_count_def)
  let ?data0 = "(c_data c)[?k := 0x80]"
  have d0: "take (Suc ?k) ?data0 = ?p @ [0x80]" "length ?data0 = 64"
    using c k(2) by (simp_all add: take_Suc_conv_app_nth)
  have close: "block h (copy_bytes (copy_bytes d n (replicate (56 - n) 0)) 56 ?l) 1
      = block h (take n d @ replicate (56 - n) 0 @ ?l) 1" if "length d = 64" "n \<le> 56" for h d n
    using that copy_bytes_take [of n "replicate (56 - n) 0" d]
      copy_bytes_take [of 56 ?l "copy_bytes d n (replicate (56 - n) 0)"] by simp
  have one: "absorbed HASH_CBLOCK block h b = block h b 1" if "length b = 64" for h b
    using that by (simp add: absorbed_def HASH_CBLOCK_def)
  show ?thesis
  proof (cases "?k < 56")
    case True
    have "c_h (HASH_FINAL block big c) = block ?H (copy_bytes (copy_bytes ?data0 (Suc ?k) (replicate (56 - Suc ?k) 0)) 56 ?l) 1"
      unfolding HASH_FINAL_def lb using True by (simp add: c HASH_CBLOCK_def Let_def)
    also have "\<dots> = block ?H (?p @ 0x80 # replicate (55 - ?k) 0 @ ?l) 1"
      using close [OF d0(2), of "Suc ?k"] d0(1) True by simp
    also have "\<dots> = absorbed HASH_CBLOCK block ?H (?p @ 0x80 # replicate (55 - ?k) 0 @ ?l)"
      by (rule one [symmetric]) (use True in simp)
    also have "\<dots> = absorbed HASH_CBLOCK block iv (md_pad big msg)"
      unfolding md_pad_def absorbed_append [of iv msg] using True k by simp
    finally show ?thesis .
  next
    case False
    let ?b = "?p @ 0x80 # replicate (63 - ?k) 0"
    have b: "length ?b = HASH_CBLOCK" using k(2) by (simp add: HASH_CBLOCK_def)
    have cb: "copy_bytes ?data0 (Suc ?k) (replicate (63 - ?k) 0) = ?b"
      using copy_bytes_take [of "Suc ?k" "replicate (63 - ?k) 0" ?data0] d0 k(2) by simp
    have "c_h (HASH_FINAL block big c) = block (block ?H ?b 1) (copy_bytes (copy_bytes ?b 0 (replicate (56 - 0) 0)) 56 ?l) 1"
      unfolding HASH_FINAL_def lb using False cb k(2) by (simp add: c HASH_CBLOCK_def Let_def)
    also have "\<dots> = block (block ?H ?b 1) (replicate 56 0 @ ?l) 1"
      using close [of ?b 0] b by (simp add: HASH_CBLOCK_def)
    also have "\<dots> = absorbed HASH_CBLOCK block (block ?H ?b 1) (replicate 56 0 @ ?l)"
      by (rule one [symmetric]) simp
    also have "\<dots> = absorbed HASH_CBLOCK block ?H (?b @ replicate 56 0 @ ?l)"
      by (rule absorbed_block [OF b, symmetric])
    also have "\<dots> = absorbed HASH_CBLOCK block iv (md_pad big msg)"
    proof -
      have "(119 - ?k) = (63 - ?k) + 56" using k(2) by simp
      then have "replicate (119 - ?k) (0 :: u8) = replicate (63 - ?k) 0 @ replicate 56 0" by (simp only: replicate_add)
      then show ?thesis unfolding md_pad_def absorbed_append [of iv msg] using False k(1) by simp
    qed
    finally show ?thesis .
  qed
qed

lemma hash_init_rep: "md32_rep block iv n (hash_init iv n) []"
  by (simp add: md32_rep_def md32_holds_def hash_init_def absorbed_def pending_def block_0 bit_count_def)

text \<open>Any number of updates, then the final step: the digest of the concatenation.\<close>

lemma updates_absorb:
  "md32_rep block iv n c msg \<Longrightarrow> list_all (\<lambda>d. length d < SIZE_LIMIT) ds \<Longrightarrow>
   md32_rep block iv n (foldl (HASH_UPDATE block) c ds) (msg @ concat ds)"
proof (induction ds arbitrary: c msg)
  case (Cons d ds)
  then show ?case
    using HASH_UPDATE_absorbs [OF Cons.prems(1), of d] Cons.IH [of "HASH_UPDATE block c d" "msg @ d"] by simp
qed simp

lemma hash_of_pieces:
  assumes "list_all (\<lambda>d. length d < SIZE_LIMIT) ds"
  shows "c_h (HASH_FINAL block big (foldl (HASH_UPDATE block) (hash_init iv n) ds))
      = absorbed HASH_CBLOCK block iv (md_pad big (concat ds))"
    and "c_md_len (HASH_FINAL block big (foldl (HASH_UPDATE block) (hash_init iv n) ds)) = n"
  using HASH_FINAL_absorbs updates_absorb [OF hash_init_rep assms, of iv n]
  by (simp_all add: md32_rep_def md32_holds_def HASH_FINAL_def Let_def)

end

lemma each_block_md32: "md32 (each_block HASH_CBLOCK f)"
  by (rule md32.intro [OF each_block_md]) simp

subsection \<open>Rotations, words and blocks of the specifications\<close>

definition ROTATE :: "u32 \<Rightarrow> nat \<Rightarrow> u32" where
  "ROTATE a n = push_bit n a OR drop_bit (32 - n) a"

lemma rotate_or_rotl:
  fixes w :: "'a::len word"
  assumes "0 < n" "n < LENGTH('a)"
  shows "push_bit n w OR drop_bit (LENGTH('a) - n) w = word_rotl n w"
proof (rule bit_word_eqI)
  fix k assume k: "k < LENGTH('a)"
  show "bit (push_bit n w OR drop_bit (LENGTH('a) - n) w) k = bit (word_rotl n w) k"
  proof (cases "k < n")
    case True
    then have "(k + (LENGTH('a) - n)) mod LENGTH('a) = LENGTH('a) - n + k" using assms by simp
    then show ?thesis
      using True k assms by (simp add: bit_word_rotl_iff bit_or_iff bit_push_bit_iff bit_drop_bit_eq)
  next
    case False
    have "k + (LENGTH('a) - n) = k - n + LENGTH('a)" using False assms by simp
    then have "(k + (LENGTH('a) - n)) mod LENGTH('a) = (k - n + LENGTH('a)) mod LENGTH('a)" by (simp only:)
    also have "\<dots> = k - n" using k by simp
    finally have "(k + (LENGTH('a) - n)) mod LENGTH('a) = k - n" .
    moreover have "\<not> bit w (LENGTH('a) - n + k)" using False assms bit_imp_le_length [of w "LENGTH('a) - n + k"] by auto
    ultimately show ?thesis
      using False k assms by (simp add: bit_word_rotl_iff bit_or_iff bit_push_bit_iff bit_drop_bit_eq)
  qed
qed

lemma ROTATE_rotl: "0 < n \<Longrightarrow> n < 32 \<Longrightarrow> ROTATE a n = word_rotl n a"
  using rotate_or_rotl [of n a] by (simp add: ROTATE_def)

lemma each_block_cong:
  "(\<And>h d. length d = len \<Longrightarrow> f h d = g h d) \<Longrightarrow> len * n \<le> length d \<Longrightarrow> each_block len f h d n = each_block len g h d n"
  by (induction n arbitrary: h d) simp_all

text \<open>Hashing a padded message block by block.\<close>

definition md_hash :: "nat \<Rightarrow> ('h \<Rightarrow> u8 list \<Rightarrow> 'h) \<Rightarrow> 'h \<Rightarrow> u8 list \<Rightarrow> 'h" where
  "md_hash len f iv padded = each_block len f iv padded (length padded div len)"

lemma absorbed_md_hash:
  assumes "\<And>h d. length d = len \<Longrightarrow> f h d = g h d"
  shows "absorbed len (each_block len f) iv msg = md_hash len g iv msg"
  unfolding absorbed_def md_hash_def by (rule each_block_cong [OF assms]) simp_all

text \<open>The words of a block as the specifications read them.\<close>

definition le_words :: "u8 list \<Rightarrow> u32 list" where
  "le_words d = map (\<lambda>i. le_word (take 4 (drop (4 * i) d))) [0..<16]"

definition be_words :: "nat \<Rightarrow> u8 list \<Rightarrow> 'a::len word list" where
  "be_words k d = map (\<lambda>i. be_word (take k (drop (k * i) d))) [0..<16]"

lemma HOST_c2l_le: "length bs = 4 \<Longrightarrow> HOST_c2l False bs = le_word bs"
proof -
  assume "length bs = 4"
  then obtain a b c d where bs: "bs = [a, b, c, d]"
    by (auto simp: length_Suc_conv numeral_eq_Suc)
  show ?thesis unfolding bs by (simp add: push_bit_or ac_simps)
qed

lemma HOST_c2l_be: "length bs = 4 \<Longrightarrow> HOST_c2l True bs = be_word bs"
proof -
  assume "length bs = 4"
  then obtain a b c d where bs: "bs = [a, b, c, d]"
    by (auto simp: length_Suc_conv numeral_eq_Suc)
  show ?thesis unfolding bs by (simp add: be_word_def push_bit_or ac_simps)
qed

lemma block_words_le: "length d = 64 \<Longrightarrow> block_words False d = le_words d"
  unfolding block_words_def le_words_def by (intro map_cong refl HOST_c2l_le) auto

lemma block_words_be: "length d = 64 \<Longrightarrow> block_words True d = be_words 4 d"
  unfolding block_words_def be_words_def by (intro map_cong refl HOST_c2l_be) auto

lemma upt_split: "i \<le> j \<Longrightarrow> j \<le> k \<Longrightarrow> [i..<j] @ [j..<k] = [i..<k]"
  by (metis le_Suc_ex upt_add_eq_append)

lemma foldl_map_cong:
  "(\<And>r i. i \<in> set xs \<Longrightarrow> f r (h i) = g r i) \<Longrightarrow> foldl f r (map h xs) = foldl g r xs"
  by (induction xs arbitrary: r) simp_all

subsection \<open>Message schedules in a circular buffer\<close>

text \<open>The 16 words from position \<open>i\<close> on, and the schedule as the specifications have it: every new word is a
  function of the 16 before it.\<close>

definition window :: "nat \<Rightarrow> 'w list \<Rightarrow> 'w list" where
  "window i X = map (\<lambda>j. X ! ((i + j) mod 16)) [0..<16]"

fun schedule :: "('w list \<Rightarrow> 'w) \<Rightarrow> nat \<Rightarrow> 'w list \<Rightarrow> 'w list" where
  "schedule f 0 W = W"
| "schedule f (Suc n) W = schedule f n (W @ [f (drop (length W - 16) W)])"

definition circ_step :: "('w list \<Rightarrow> 'w) \<Rightarrow> (nat \<Rightarrow> 'w \<Rightarrow> 'r \<Rightarrow> 'r) \<Rightarrow> 'w list \<times> 'r \<Rightarrow> nat \<Rightarrow> 'w list \<times> 'r" where
  "circ_step f rnd s i = (let v = f (window i (fst s)) in ((fst s)[i mod 16 := v], rnd i v (snd s)))"

lemma length_window [simp]: "length (window i X) = 16"
  by (simp add: window_def)

lemma nth_window: "j < 16 \<Longrightarrow> window i X ! j = X ! ((i + j) mod 16)"
  by (simp add: window_def)

lemma window_16: "length X = 16 \<Longrightarrow> window 16 X = X"
  by (rule nth_equalityI) (simp_all add: nth_window)

lemma window_step:
  assumes "length X = 16"
  shows "window (Suc i) (X[i mod 16 := v]) = tl (window i X) @ [v]"
proof (rule nth_equalityI)
  fix j assume "j < length (window (Suc i) (X[i mod 16 := v]))"
  then have j: "j < 16" by simp
  show "window (Suc i) (X[i mod 16 := v]) ! j = (tl (window i X) @ [v]) ! j"
  proof (cases "j < 15")
    case True
    have r: "(Suc i + j) mod 16 = (i mod 16 + Suc j) mod 16" by (simp only: mod_add_left_eq add_Suc_shift)
    have "(i mod 16 + Suc j) mod 16 = (if i mod 16 + Suc j < 16 then i mod 16 + Suc j else i mod 16 + Suc j - 16)"
      using True by (simp add: le_mod_geq)
    then have "(Suc i + j) mod 16 \<noteq> i mod 16" unfolding r using True by (simp split: if_splits)
    then show ?thesis using True by (simp add: nth_window nth_append nth_tl)
  next
    case False
    then have "j = 15" using j by simp
    moreover have "(Suc i + 15) mod 16 = i mod 16" by (simp add: mod_add_self2)
    ultimately show ?thesis using assms by (simp add: nth_window nth_append)
  qed
qed simp

lemma nth_schedule: "t < length W \<Longrightarrow> schedule f n W ! t = W ! t"
  by (induction n arbitrary: W) (simp_all add: nth_append)

lemma circ_schedule:
  "length X = 16 \<Longrightarrow> length W = i \<Longrightarrow> 16 \<le> i \<Longrightarrow> window i X = drop (i - 16) W \<Longrightarrow>
   snd (foldl (circ_step f rnd) (X, r) [i..<i + n]) = foldl (\<lambda>r t. rnd t (schedule f n W ! t) r) r [i..<i + n]"
proof (induction n arbitrary: i X W r)
  case (Suc n)
  let ?v = "f (drop (i - 16) W)" and ?W = "W @ [f (drop (i - 16) W)]"
  have up: "[i..<i + Suc n] = i # [Suc i..<Suc i + n]" by (simp add: upt_conv_Cons del: upt_Suc)
  have "drop (i - 15) W = tl (drop (i - 16) W)"
  proof -
    obtain k where "i = k + 16" using Suc.prems(3) le_iff_add [of 16 i] by (metis add.commute)
    then have "i - 15 = Suc k" "i - 16 = k" by simp_all
    then show ?thesis by (simp only: drop_Suc tl_drop)
  qed
  then have w: "window (Suc i) (X[i mod 16 := ?v]) = drop (Suc i - 16) ?W"
    unfolding window_step [OF Suc.prems(1)] Suc.prems(4) using Suc.prems(2,3) by simp
  have "snd (foldl (circ_step f rnd) (X, r) [i..<i + Suc n])
      = snd (foldl (circ_step f rnd) (X[i mod 16 := ?v], rnd i ?v r) [Suc i..<Suc i + n])"
    unfolding up by (simp add: circ_step_def Suc.prems(4) Let_def)
  also have "\<dots> = foldl (\<lambda>r t. rnd t (schedule f n ?W ! t) r) (rnd i ?v r) [Suc i..<Suc i + n]"
    using Suc.prems by (intro Suc.IH w) simp_all
  also have "\<dots> = foldl (\<lambda>r t. rnd t (schedule f (Suc n) W ! t) r) r [i..<i + Suc n]"
    unfolding up using Suc.prems(2) by (simp add: nth_schedule nth_append)
  finally show ?case .
qed simp

lemma circ_schedule_16:
  assumes "length X = 16"
  shows "snd (foldl (circ_step f rnd) (X, r) [16..<16 + n]) = foldl (\<lambda>r t. rnd t (schedule f n X ! t) r) r [16..<16 + n]"
  by (rule circ_schedule) (simp_all add: assms window_16)

end
