(* ===== verification/Md5.thy ===== *)
theory Md5
  imports Digest
begin

text \<open>
  MD4 and MD5 (\<open>crypto/fipsmodule/md4/md4.c\<close>, \<open>crypto/fipsmodule/md5/md5.c\<close>), shown to compute the digests of
  RFC 1320 and RFC 1321. A step of the block function takes the four registers in the order of the macro call
  and returns them in the order of the next call; the tables are the word, the rotation and the constant of
  each call.
\<close>

type_synonym regs4 = "u32 \<times> u32 \<times> u32 \<times> u32"

definition md5_F :: "u32 \<Rightarrow> u32 \<Rightarrow> u32 \<Rightarrow> u32" where "md5_F b c d = ((c XOR d) AND b) XOR d"
definition md5_G :: "u32 \<Rightarrow> u32 \<Rightarrow> u32 \<Rightarrow> u32" where "md5_G b c d = ((b XOR c) AND d) XOR c"
definition md5_H :: "u32 \<Rightarrow> u32 \<Rightarrow> u32 \<Rightarrow> u32" where "md5_H b c d = (b XOR c) XOR d"
definition md5_I :: "u32 \<Rightarrow> u32 \<Rightarrow> u32 \<Rightarrow> u32" where "md5_I b c d = (NOT d OR b) XOR c"
definition md4_G :: "u32 \<Rightarrow> u32 \<Rightarrow> u32 \<Rightarrow> u32" where "md4_G b c d = ((b AND c) OR (b AND d)) OR (c AND d)"

definition md5_R0 :: "(nat \<times> nat \<times> u32) list" where
  "md5_R0 =
    [(0, 7, 0xd76aa478), (1, 12, 0xe8c7b756), (2, 17, 0x242070db), (3, 22, 0xc1bdceee),
     (4, 7, 0xf57c0faf), (5, 12, 0x4787c62a), (6, 17, 0xa8304613), (7, 22, 0xfd469501),
     (8, 7, 0x698098d8), (9, 12, 0x8b44f7af), (10, 17, 0xffff5bb1), (11, 22, 0x895cd7be),
     (12, 7, 0x6b901122), (13, 12, 0xfd987193), (14, 17, 0xa679438e), (15, 22, 0x49b40821)]"

definition md5_R1 :: "(nat \<times> nat \<times> u32) list" where
  "md5_R1 =
    [(1, 5, 0xf61e2562), (6, 9, 0xc040b340), (11, 14, 0x265e5a51), (0, 20, 0xe9b6c7aa),
     (5, 5, 0xd62f105d), (10, 9, 0x02441453), (15, 14, 0xd8a1e681), (4, 20, 0xe7d3fbc8),
     (9, 5, 0x21e1cde6), (14, 9, 0xc33707d6), (3, 14, 0xf4d50d87), (8, 20, 0x455a14ed),
     (13, 5, 0xa9e3e905), (2, 9, 0xfcefa3f8), (7, 14, 0x676f02d9), (12, 20, 0x8d2a4c8a)]"

definition md5_R2 :: "(nat \<times> nat \<times> u32) list" where
  "md5_R2 =
    [(5, 4, 0xfffa3942), (8, 11, 0x8771f681), (11, 16, 0x6d9d6122), (14, 23, 0xfde5380c),
     (1, 4, 0xa4beea44), (4, 11, 0x4bdecfa9), (7, 16, 0xf6bb4b60), (10, 23, 0xbebfbc70),
     (13, 4, 0x289b7ec6), (0, 11, 0xeaa127fa), (3, 16, 0xd4ef3085), (6, 23, 0x04881d05),
     (9, 4, 0xd9d4d039), (12, 11, 0xe6db99e5), (15, 16, 0x1fa27cf8), (2, 23, 0xc4ac5665)]"

definition md5_R3 :: "(nat \<times> nat \<times> u32) list" where
  "md5_R3 =
    [(0, 6, 0xf4292244), (7, 10, 0x432aff97), (14, 15, 0xab9423a7), (5, 21, 0xfc93a039),
     (12, 6, 0x655b59c3), (3, 10, 0x8f0ccc92), (10, 15, 0xffeff47d), (1, 21, 0x85845dd1),
     (8, 6, 0x6fa87e4f), (15, 10, 0xfe2ce6e0), (6, 15, 0xa3014314), (13, 21, 0x4e0811a1),
     (4, 6, 0xf7537e82), (11, 10, 0xbd3af235), (2, 15, 0x2ad7d2bb), (9, 21, 0xeb86d391)]"

fun md5_step :: "(u32 \<Rightarrow> u32 \<Rightarrow> u32 \<Rightarrow> u32) \<Rightarrow> u32 list \<Rightarrow> regs4 \<Rightarrow> nat \<times> nat \<times> u32 \<Rightarrow> regs4" where
  "md5_step f X (a, b, c, d) (k, s, t) = (d, ROTATE (a + ((X ! k + t) + f b c d)) s + b, b, c)"

fun add_state4 :: "u32 list \<Rightarrow> regs4 \<Rightarrow> u32 list" where
  "add_state4 state (a, b, c, d) = [state ! 0 + a, state ! 1 + b, state ! 2 + c, state ! 3 + d]"

definition regs4_of :: "u32 list \<Rightarrow> regs4" where
  "regs4_of state = (state ! 0, state ! 1, state ! 2, state ! 3)"

definition md5_one :: "u32 list \<Rightarrow> u8 list \<Rightarrow> u32 list" where
  "md5_one state data =
     (let X = block_words False data;
          r0 = foldl (md5_step md5_F X) (regs4_of state) md5_R0;
          r1 = foldl (md5_step md5_G X) r0 md5_R1;
          r2 = foldl (md5_step md5_H X) r1 md5_R2;
          r3 = foldl (md5_step md5_I X) r2 md5_R3
      in add_state4 state r3)"

definition md5_block_data_order :: "u32 list \<Rightarrow> u8 list \<Rightarrow> nat \<Rightarrow> u32 list" where
  "md5_block_data_order = each_block HASH_CBLOCK md5_one"

definition MD5_Init :: md32_ctx where
  "MD5_Init = hash_init [0x67452301, 0xefcdab89, 0x98badcfe, 0x10325476] 0"

definition MD5_Update :: "md32_ctx \<Rightarrow> u8 list \<Rightarrow> md32_ctx" where
  "MD5_Update = HASH_UPDATE md5_block_data_order"

definition MD5_Transform :: "md32_ctx \<Rightarrow> u8 list \<Rightarrow> md32_ctx" where
  "MD5_Transform = HASH_TRANSFORM md5_block_data_order"

definition MD5_Final :: "md32_ctx \<Rightarrow> u8 list \<times> md32_ctx" where
  "MD5_Final c = (let c' = HASH_FINAL md5_block_data_order False c in
     (concat (map (\<lambda>i. HOST_l2c False (c_h c' ! i)) [0..<4]), c'))"

definition MD5 :: "u8 list \<Rightarrow> u8 list" where
  "MD5 data = fst (MD5_Final (MD5_Update MD5_Init data))"

definition md4_R0 :: "(nat \<times> nat \<times> u32) list" where
  "md4_R0 =
    [(0, 3, 0), (1, 7, 0), (2, 11, 0), (3, 19, 0),
     (4, 3, 0), (5, 7, 0), (6, 11, 0), (7, 19, 0),
     (8, 3, 0), (9, 7, 0), (10, 11, 0), (11, 19, 0),
     (12, 3, 0), (13, 7, 0), (14, 11, 0), (15, 19, 0)]"

definition md4_R1 :: "(nat \<times> nat \<times> u32) list" where
  "md4_R1 =
    [(0, 3, 0x5a827999), (4, 5, 0x5a827999), (8, 9, 0x5a827999), (12, 13, 0x5a827999),
     (1, 3, 0x5a827999), (5, 5, 0x5a827999), (9, 9, 0x5a827999), (13, 13, 0x5a827999),
     (2, 3, 0x5a827999), (6, 5, 0x5a827999), (10, 9, 0x5a827999), (14, 13, 0x5a827999),
     (3, 3, 0x5a827999), (7, 5, 0x5a827999), (11, 9, 0x5a827999), (15, 13, 0x5a827999)]"

definition md4_R2 :: "(nat \<times> nat \<times> u32) list" where
  "md4_R2 =
    [(0, 3, 0x6ed9eba1), (8, 9, 0x6ed9eba1), (4, 11, 0x6ed9eba1), (12, 15, 0x6ed9eba1),
     (2, 3, 0x6ed9eba1), (10, 9, 0x6ed9eba1), (6, 11, 0x6ed9eba1), (14, 15, 0x6ed9eba1),
     (1, 3, 0x6ed9eba1), (9, 9, 0x6ed9eba1), (5, 11, 0x6ed9eba1), (13, 15, 0x6ed9eba1),
     (3, 3, 0x6ed9eba1), (11, 9, 0x6ed9eba1), (7, 11, 0x6ed9eba1), (15, 15, 0x6ed9eba1)]"

fun md4_step :: "(u32 \<Rightarrow> u32 \<Rightarrow> u32 \<Rightarrow> u32) \<Rightarrow> u32 list \<Rightarrow> regs4 \<Rightarrow> nat \<times> nat \<times> u32 \<Rightarrow> regs4" where
  "md4_step f X (a, b, c, d) (k, s, t) = (d, ROTATE (a + ((X ! k + t) + f b c d)) s, b, c)"

definition md4_one :: "u32 list \<Rightarrow> u8 list \<Rightarrow> u32 list" where
  "md4_one state data =
     (let X = block_words False data;
          r0 = foldl (md4_step md5_F X) (regs4_of state) md4_R0;
          r1 = foldl (md4_step md4_G X) r0 md4_R1;
          r2 = foldl (md4_step md5_H X) r1 md4_R2
      in add_state4 state r2)"

definition md4_block_data_order :: "u32 list \<Rightarrow> u8 list \<Rightarrow> nat \<Rightarrow> u32 list" where
  "md4_block_data_order = each_block HASH_CBLOCK md4_one"

definition MD4_Init :: md32_ctx where
  "MD4_Init = hash_init [0x67452301, 0xefcdab89, 0x98badcfe, 0x10325476] 0"

definition MD4_Update :: "md32_ctx \<Rightarrow> u8 list \<Rightarrow> md32_ctx" where
  "MD4_Update = HASH_UPDATE md4_block_data_order"

definition MD4_Transform :: "md32_ctx \<Rightarrow> u8 list \<Rightarrow> md32_ctx" where
  "MD4_Transform = HASH_TRANSFORM md4_block_data_order"

definition MD4_Final :: "md32_ctx \<Rightarrow> u8 list \<times> md32_ctx" where
  "MD4_Final c = (let c' = HASH_FINAL md4_block_data_order False c in
     (concat (map (\<lambda>i. HOST_l2c False (c_h c' ! i)) [0..<4]), c'))"

definition MD4 :: "u8 list \<Rightarrow> u8 list" where
  "MD4 data = fst (MD4_Final (MD4_Update MD4_Init data))"

interpretation md5: md32 md5_block_data_order
  unfolding md5_block_data_order_def by (rule each_block_md32)

interpretation md4: md32 md4_block_data_order
  unfolding md4_block_data_order_def by (rule each_block_md32)

subsection \<open>The algorithms of the RFCs\<close>

fun rfc1321_op :: "nat \<Rightarrow> u32 \<Rightarrow> u32 \<Rightarrow> u32 \<Rightarrow> u32" where
  "rfc1321_op i x y z =
     (if i < 16 then (x AND y) OR (NOT x AND z)
      else if i < 32 then (x AND z) OR (y AND NOT z)
      else if i < 48 then x XOR y XOR z
      else y XOR (x OR NOT z))"

text \<open>\<open>floor (2 ^ 32 * abs (sin (i + 1)))\<close>.\<close>

definition rfc1321_T :: "u32 list" where
  "rfc1321_T =
    [0xd76aa478, 0xe8c7b756, 0x242070db, 0xc1bdceee, 0xf57c0faf, 0x4787c62a, 0xa8304613, 0xfd469501,
     0x698098d8, 0x8b44f7af, 0xffff5bb1, 0x895cd7be, 0x6b901122, 0xfd987193, 0xa679438e, 0x49b40821,
     0xf61e2562, 0xc040b340, 0x265e5a51, 0xe9b6c7aa, 0xd62f105d, 0x02441453, 0xd8a1e681, 0xe7d3fbc8,
     0x21e1cde6, 0xc33707d6, 0xf4d50d87, 0x455a14ed, 0xa9e3e905, 0xfcefa3f8, 0x676f02d9, 0x8d2a4c8a,
     0xfffa3942, 0x8771f681, 0x6d9d6122, 0xfde5380c, 0xa4beea44, 0x4bdecfa9, 0xf6bb4b60, 0xbebfbc70,
     0x289b7ec6, 0xeaa127fa, 0xd4ef3085, 0x04881d05, 0xd9d4d039, 0xe6db99e5, 0x1fa27cf8, 0xc4ac5665,
     0xf4292244, 0x432aff97, 0xab9423a7, 0xfc93a039, 0x655b59c3, 0x8f0ccc92, 0xffeff47d, 0x85845dd1,
     0x6fa87e4f, 0xfe2ce6e0, 0xa3014314, 0x4e0811a1, 0xf7537e82, 0xbd3af235, 0x2ad7d2bb, 0xeb86d391]"

definition rfc1321_word :: "nat \<Rightarrow> nat" where
  "rfc1321_word i = (if i < 16 then i else if i < 32 then (1 + 5 * i) mod 16 else if i < 48 then (5 + 3 * i) mod 16 else (7 * i) mod 16)"

definition rfc1321_shift :: "nat \<Rightarrow> nat" where
  "rfc1321_shift i = [[7, 12, 17, 22], [5, 9, 14, 20], [4, 11, 16, 23], [6, 10, 15, 21]] ! (i div 16) ! (i mod 4)"

fun rfc1321_step :: "u32 list \<Rightarrow> regs4 \<Rightarrow> nat \<Rightarrow> regs4" where
  "rfc1321_step M (a, b, c, d) i =
     (d, b + word_rotl (rfc1321_shift i) (a + rfc1321_op i b c d + M ! rfc1321_word i + rfc1321_T ! i), b, c)"

definition rfc1321_compress :: "u32 list \<Rightarrow> u8 list \<Rightarrow> u32 list" where
  "rfc1321_compress h block = add_state4 h (foldl (rfc1321_step (le_words block)) (regs4_of h) [0..<64])"

definition rfc1321_md5 :: "u8 list \<Rightarrow> u8 list" where
  "rfc1321_md5 msg = concat (map (\<lambda>i. le_bytes 4
     (md_hash 64 rfc1321_compress [0x67452301, 0xefcdab89, 0x98badcfe, 0x10325476] (md_pad False msg) ! i)) [0..<4])"

fun rfc1320_step :: "u32 list \<Rightarrow> regs4 \<Rightarrow> nat \<Rightarrow> regs4" where
  "rfc1320_step M (a, b, c, d) i = (d, word_rotl ([[3, 7, 11, 19], [3, 5, 9, 13], [3, 9, 11, 15]] ! (i div 16) ! (i mod 4))
     (if i < 16 then a + ((b AND c) OR (NOT b AND d)) + M ! i
      else if i < 32 then a + ((b AND c) OR (b AND d) OR (c AND d)) + M ! (i mod 4 * 4 + i div 4 mod 4) + 0x5a827999
      else a + (b XOR c XOR d) + M ! (i mod 2 * 8 + i div 2 mod 2 * 4 + i div 4 mod 2 * 2 + i div 8 mod 2) + 0x6ed9eba1), b, c)"

definition rfc1320_compress :: "u32 list \<Rightarrow> u8 list \<Rightarrow> u32 list" where
  "rfc1320_compress h block = add_state4 h (foldl (rfc1320_step (le_words block)) (regs4_of h) [0..<48])"

definition rfc1320_md4 :: "u8 list \<Rightarrow> u8 list" where
  "rfc1320_md4 msg = concat (map (\<lambda>i. le_bytes 4
     (md_hash 64 rfc1320_compress [0x67452301, 0xefcdab89, 0x98badcfe, 0x10325476] (md_pad False msg) ! i)) [0..<4])"

subsection \<open>The code computes them\<close>

text \<open>The simplifications by Wei Dai in the code are the functions of the RFCs.\<close>

lemma md5_ops:
  "md5_F b c d = (b AND c) OR (NOT b AND d)" "md5_G b c d = (b AND d) OR (c AND NOT d)"
  "md5_H b c d = b XOR c XOR d" "md5_I b c d = c XOR (b OR NOT d)"
  unfolding md5_F_def md5_G_def md5_H_def md5_I_def
  by (rule bit_word_eqI, auto simp: bit_and_iff bit_or_iff bit_xor_iff bit_not_iff)+

lemma md5_tables:
  "md5_R0 = map (\<lambda>i. (rfc1321_word i, rfc1321_shift i, rfc1321_T ! i)) [0..<16]"
  "md5_R1 = map (\<lambda>i. (rfc1321_word i, rfc1321_shift i, rfc1321_T ! i)) [16..<32]"
  "md5_R2 = map (\<lambda>i. (rfc1321_word i, rfc1321_shift i, rfc1321_T ! i)) [32..<48]"
  "md5_R3 = map (\<lambda>i. (rfc1321_word i, rfc1321_shift i, rfc1321_T ! i)) [48..<64]"
  by code_simp+

lemma rfc1321_shift_range: "i < 64 \<Longrightarrow> 0 < rfc1321_shift i \<and> rfc1321_shift i < 32"
proof -
  have "list_all (\<lambda>i. 0 < rfc1321_shift i \<and> rfc1321_shift i < 32) [0..<64]" by code_simp
  then show "i < 64 \<Longrightarrow> 0 < rfc1321_shift i \<and> rfc1321_shift i < 32" by (simp add: list_all_iff)
qed

lemma md5_step_rfc:
  assumes "i < 64" "f = rfc1321_op i"
  shows "md5_step f X r (rfc1321_word i, rfc1321_shift i, rfc1321_T ! i) = rfc1321_step X r i"
  using rfc1321_shift_range [OF assms(1)] assms(2) by (cases r) (simp add: ROTATE_rotl algebra_simps del: rfc1321_op.simps)

lemma md5_one_rfc: "length d = 64 \<Longrightarrow> md5_one h d = rfc1321_compress h d"
proof -
  assume d: "length d = 64"
  let ?X = "le_words d"
  have part: "foldl (md5_step f ?X) r (map (\<lambda>i. (rfc1321_word i, rfc1321_shift i, rfc1321_T ! i)) [m..<n])
      = foldl (rfc1321_step ?X) r [m..<n]" if "n \<le> 64" "\<And>i. m \<le> i \<Longrightarrow> i < n \<Longrightarrow> f = rfc1321_op i" for f r m n
    using that by (intro foldl_map_cong md5_step_rfc) auto
  have ops: "i < 16 \<Longrightarrow> md5_F = rfc1321_op i" "16 \<le> i \<Longrightarrow> i < 32 \<Longrightarrow> md5_G = rfc1321_op i"
    "32 \<le> i \<Longrightarrow> i < 48 \<Longrightarrow> md5_H = rfc1321_op i" "48 \<le> i \<Longrightarrow> i < 64 \<Longrightarrow> md5_I = rfc1321_op i" for i
    by (intro ext, simp add: md5_ops)+
  have range: "[0..<64] = (([0..<16] @ [16..<32]) @ [32..<48]) @ [48..<64]"
    by code_simp
  show ?thesis
    unfolding md5_one_def Let_def rfc1321_compress_def block_words_le [OF d] md5_tables range foldl_append
    by (simp only: part ops order_refl numeral_le_iff semiring_norm)
qed

text \<open>MD5 is the digest of RFC 1321. However a message is cut into pieces, updating a fresh context with
  them and finishing it yields the RFC's digest of the concatenation: padding, the count of bits modulo
  \<open>2 ^ 64\<close>, and the unrolled block function agree with the algorithm of the RFC.\<close>

theorem MD5_correct:
  assumes "list_all (\<lambda>d. length d < SIZE_LIMIT) ds"
  shows "fst (MD5_Final (foldl MD5_Update MD5_Init ds)) = rfc1321_md5 (concat ds)"
proof -
  have "c_h (HASH_FINAL md5_block_data_order False (foldl MD5_Update MD5_Init ds))
      = md_hash 64 rfc1321_compress [0x67452301, 0xefcdab89, 0x98badcfe, 0x10325476] (md_pad False (concat ds))"
    unfolding MD5_Update_def MD5_Init_def md5.hash_of_pieces(1) [OF assms]
    unfolding md5_block_data_order_def HASH_CBLOCK_def by (intro absorbed_md_hash md5_one_rfc)
  then show ?thesis by (simp add: MD5_Final_def rfc1321_md5_def Let_def HOST_l2c_le_bytes del: le_bytes_numeral)
qed

theorem MD5_correct_witness:
  "fst (MD5_Final (foldl MD5_Update MD5_Init [[0x61], [0x62, 0x63]])) =
     [0x90, 0x01, 0x50, 0x98, 0x3c, 0xd2, 0x4f, 0xb0, 0xd6, 0x96, 0x3f, 0x7d, 0x28, 0xe1, 0x7f, 0x72]"
proof -
  have "rfc1321_md5 (concat [[0x61], [0x62, 0x63]]) =
     [0x90, 0x01, 0x50, 0x98, 0x3c, 0xd2, 0x4f, 0xb0, 0xd6, 0x96, 0x3f, 0x7d, 0x28, 0xe1, 0x7f, 0x72]" by code_simp
  then show ?thesis using MD5_correct [of "[[0x61], [0x62, 0x63]]"] by (simp only:) (simp add: SIZE_LIMIT_def)
qed

lemma md4_ops: "md4_G b c d = (b AND c) OR (b AND d) OR (c AND d)"
  unfolding md4_G_def by (simp add: or.assoc)

definition rfc1320_row :: "nat \<Rightarrow> nat \<times> nat \<times> u32" where
  "rfc1320_row i =
     (if i < 16 then i else if i < 32 then i mod 4 * 4 + i div 4 mod 4
      else i mod 2 * 8 + i div 2 mod 2 * 4 + i div 4 mod 2 * 2 + i div 8 mod 2,
      [[3, 7, 11, 19], [3, 5, 9, 13], [3, 9, 11, 15]] ! (i div 16) ! (i mod 4),
      if i < 16 then 0 else if i < 32 then 0x5a827999 else 0x6ed9eba1)"

lemma md4_tables:
  "md4_R0 = map rfc1320_row [0..<16]" "md4_R1 = map rfc1320_row [16..<32]" "md4_R2 = map rfc1320_row [32..<48]"
  by code_simp+

lemma rfc1320_shift_range: "i < 48 \<Longrightarrow> 0 < fst (snd (rfc1320_row i)) \<and> fst (snd (rfc1320_row i)) < 32"
proof -
  have "list_all (\<lambda>i. 0 < fst (snd (rfc1320_row i)) \<and> fst (snd (rfc1320_row i)) < 32) [0..<48]" by code_simp
  then show "i < 48 \<Longrightarrow> 0 < fst (snd (rfc1320_row i)) \<and> fst (snd (rfc1320_row i)) < 32" by (simp add: list_all_iff)
qed

lemma md4_step_rfc:
  assumes "i < 48"
    and "f = (if i < 16 then md5_F else if i < 32 then md4_G else md5_H)"
  shows "md4_step f X r (rfc1320_row i) = rfc1320_step X r i"
  using rfc1320_shift_range [OF assms(1)] assms(2)
  by (cases r) (auto simp: ROTATE_rotl rfc1320_row_def md5_ops md4_ops algebra_simps)

lemma md4_one_rfc: "length d = 64 \<Longrightarrow> md4_one h d = rfc1320_compress h d"
proof -
  assume d: "length d = 64"
  let ?X = "le_words d"
  have part: "foldl (md4_step f ?X) r (map rfc1320_row [m..<n]) = foldl (rfc1320_step ?X) r [m..<n]"
    if "n \<le> 48" "\<And>i. m \<le> i \<Longrightarrow> i < n \<Longrightarrow> f = (if i < 16 then md5_F else if i < 32 then md4_G else md5_H)" for f r m n
    using that by (intro foldl_map_cong md4_step_rfc) auto
  have p: "foldl (md4_step md5_F ?X) r (map rfc1320_row [0..<16]) = foldl (rfc1320_step ?X) r [0..<16]"
    "foldl (md4_step md4_G ?X) r (map rfc1320_row [16..<32]) = foldl (rfc1320_step ?X) r [16..<32]"
    "foldl (md4_step md5_H ?X) r (map rfc1320_row [32..<48]) = foldl (rfc1320_step ?X) r [32..<48]" for r
    by (rule part; simp)+
  have range: "[0..<48] = ([0..<16] @ [16..<32]) @ [32..<48]" by code_simp
  show ?thesis
    unfolding md4_one_def Let_def rfc1320_compress_def block_words_le [OF d] md4_tables range foldl_append
    by (simp only: p)
qed

text \<open>MD4 is the digest of RFC 1320, over any division of the message into updates.\<close>

theorem MD4_correct:
  assumes "list_all (\<lambda>d. length d < SIZE_LIMIT) ds"
  shows "fst (MD4_Final (foldl MD4_Update MD4_Init ds)) = rfc1320_md4 (concat ds)"
proof -
  have "c_h (HASH_FINAL md4_block_data_order False (foldl MD4_Update MD4_Init ds))
      = md_hash 64 rfc1320_compress [0x67452301, 0xefcdab89, 0x98badcfe, 0x10325476] (md_pad False (concat ds))"
    unfolding MD4_Update_def MD4_Init_def md4.hash_of_pieces(1) [OF assms]
    unfolding md4_block_data_order_def HASH_CBLOCK_def by (intro absorbed_md_hash md4_one_rfc)
  then show ?thesis by (simp add: MD4_Final_def rfc1320_md4_def Let_def HOST_l2c_le_bytes del: le_bytes_numeral)
qed

theorem MD4_correct_witness:
  "fst (MD4_Final (foldl MD4_Update MD4_Init [[0x61], [0x62, 0x63]])) =
     [164, 72, 1, 122, 175, 33, 216, 82, 95, 193, 10, 232, 122, 166, 114, 157]"
proof -
  have "rfc1320_md4 (concat [[0x61], [0x62, 0x63]]) =
     [164, 72, 1, 122, 175, 33, 216, 82, 95, 193, 10, 232, 122, 166, 114, 157]" by code_simp
  then show ?thesis using MD4_correct [of "[[0x61], [0x62, 0x63]]"] by (simp only:) (simp add: SIZE_LIMIT_def)
qed

end
