(* ===== verification/Sha.thy ===== *)
theory Sha
  imports Digest
begin

text \<open>
  SHA-1, SHA-224 and SHA-256 (\<open>crypto/fipsmodule/sha/sha1.c\<close>, \<open>sha256.c\<close>), shown to compute the digests of
  FIPS 180-4. As in MD5, a round takes the registers in the order of the macro call and returns them in the
  order of the next call; the message schedule of the code is the circular buffer of 16 words.
\<close>

subsection \<open>SHA-1\<close>

type_synonym regs5 = "u32 \<times> u32 \<times> u32 \<times> u32 \<times> u32"

definition F_00_19 :: "u32 \<Rightarrow> u32 \<Rightarrow> u32 \<Rightarrow> u32" where "F_00_19 b c d = ((c XOR d) AND b) XOR d"
definition F_20_39 :: "u32 \<Rightarrow> u32 \<Rightarrow> u32 \<Rightarrow> u32" where "F_20_39 b c d = (b XOR c) XOR d"
definition F_40_59 :: "u32 \<Rightarrow> u32 \<Rightarrow> u32 \<Rightarrow> u32" where "F_40_59 b c d = (b AND c) OR ((b OR c) AND d)"

definition K_00_19 :: u32 where "K_00_19 = 0x5a827999"
definition K_20_39 :: u32 where "K_20_39 = 0x6ed9eba1"
definition K_40_59 :: u32 where "K_40_59 = 0x8f1bbcdc"
definition K_60_79 :: u32 where "K_60_79 = 0xca62c1d6"

text \<open>The bodies of the rounds, with the function and the constant of the round.\<close>

fun sha1_body :: "(u32 \<Rightarrow> u32 \<Rightarrow> u32 \<Rightarrow> u32) \<Rightarrow> u32 \<Rightarrow> u32 \<Rightarrow> regs5 \<Rightarrow> regs5" where
  "sha1_body F K x (a, b, c, d, e) = ((((x + e) + K) + ROTATE a 5) + F b c d, a, ROTATE b 30, c, d)"

definition Xupdate :: "nat \<Rightarrow> u32 list \<Rightarrow> u32" where
  "Xupdate i X = ROTATE (((X ! (i mod 16) XOR X ! ((i + 2) mod 16)) XOR X ! ((i + 8) mod 16)) XOR X ! ((i + 13) mod 16)) 1"

definition sha1_rounds ::
  "(u32 \<Rightarrow> u32 \<Rightarrow> u32 \<Rightarrow> u32) \<Rightarrow> u32 \<Rightarrow> nat \<Rightarrow> nat \<Rightarrow> u32 list \<times> regs5 \<Rightarrow> u32 list \<times> regs5" where
  "sha1_rounds F K m n s =
     foldl (\<lambda>(X, r) i. let x = Xupdate i X in (X[i mod 16 := x], sha1_body F K x r)) s [m..<n]"

fun add_state5 :: "u32 list \<Rightarrow> regs5 \<Rightarrow> u32 list" where
  "add_state5 state (a, b, c, d, e) =
     [state ! 0 + a, state ! 1 + b, state ! 2 + c, state ! 3 + d, state ! 4 + e]"

definition regs5_of :: "u32 list \<Rightarrow> regs5" where
  "regs5_of state = (state ! 0, state ! 1, state ! 2, state ! 3, state ! 4)"

definition sha1_one :: "u32 list \<Rightarrow> u8 list \<Rightarrow> u32 list" where
  "sha1_one state data =
     (let X = block_words True data;
          r = foldl (\<lambda>r i. sha1_body F_00_19 K_00_19 (X ! i) r) (regs5_of state) [0..<16];
          s0 = sha1_rounds F_00_19 K_00_19 16 20 (X, r);
          s1 = sha1_rounds F_20_39 K_20_39 20 32 s0;
          s2 = sha1_rounds F_20_39 K_20_39 32 40 s1;
          s3 = sha1_rounds F_40_59 K_40_59 40 60 s2;
          s4 = sha1_rounds F_20_39 K_60_79 60 80 s3
      in add_state5 state (snd s4))"

text \<open>The loop of the code tests the number of blocks behind its body; it is called with at least one.\<close>

definition sha1_block_data_order :: "u32 list \<Rightarrow> u8 list \<Rightarrow> nat \<Rightarrow> u32 list" where
  "sha1_block_data_order = each_block HASH_CBLOCK sha1_one"

definition SHA1_Init :: md32_ctx where
  "SHA1_Init = hash_init [0x67452301, 0xefcdab89, 0x98badcfe, 0x10325476, 0xc3d2e1f0] 0"

definition SHA1_Update :: "md32_ctx \<Rightarrow> u8 list \<Rightarrow> md32_ctx" where
  "SHA1_Update = HASH_UPDATE sha1_block_data_order"

definition SHA1_Transform :: "md32_ctx \<Rightarrow> u8 list \<Rightarrow> md32_ctx" where
  "SHA1_Transform = HASH_TRANSFORM sha1_block_data_order"

definition SHA1_Final :: "md32_ctx \<Rightarrow> u8 list \<times> md32_ctx" where
  "SHA1_Final c = (let c' = HASH_FINAL sha1_block_data_order True c in
     (concat (map (\<lambda>i. HOST_l2c True (c_h c' ! i)) [0..<5]), c'))"

definition SHA1 :: "u8 list \<Rightarrow> u8 list" where
  "SHA1 data = fst (SHA1_Final (SHA1_Update SHA1_Init data))"

interpretation sha1: md32 sha1_block_data_order
  unfolding sha1_block_data_order_def by (rule each_block_md32)

subsection \<open>SHA-224 and SHA-256\<close>

type_synonym 'w regs8 = "'w \<times> 'w \<times> 'w \<times> 'w \<times> 'w \<times> 'w \<times> 'w \<times> 'w"

definition K256 :: "u32 list" where
  "K256 =
    concat
    [[0x428a2f98, 0x71374491, 0xb5c0fbcf, 0xe9b5dba5], [0x3956c25b, 0x59f111f1, 0x923f82a4, 0xab1c5ed5],
     [0xd807aa98, 0x12835b01, 0x243185be, 0x550c7dc3], [0x72be5d74, 0x80deb1fe, 0x9bdc06a7, 0xc19bf174],
     [0xe49b69c1, 0xefbe4786, 0x0fc19dc6, 0x240ca1cc], [0x2de92c6f, 0x4a7484aa, 0x5cb0a9dc, 0x76f988da],
     [0x983e5152, 0xa831c66d, 0xb00327c8, 0xbf597fc7], [0xc6e00bf3, 0xd5a79147, 0x06ca6351, 0x14292967],
     [0x27b70a85, 0x2e1b2138, 0x4d2c6dfc, 0x53380d13], [0x650a7354, 0x766a0abb, 0x81c2c92e, 0x92722c85],
     [0xa2bfe8a1, 0xa81a664b, 0xc24b8b70, 0xc76c51a3], [0xd192e819, 0xd6990624, 0xf40e3585, 0x106aa070],
     [0x19a4c116, 0x1e376c08, 0x2748774c, 0x34b0bcb5], [0x391c0cb3, 0x4ed8aa4a, 0x5b9cca4f, 0x682e6ff3],
     [0x748f82ee, 0x78a5636f, 0x84c87814, 0x8cc70208], [0x90befffa, 0xa4506ceb, 0xbef9a3f7, 0xc67178f2]]"

definition Sigma0 :: "u32 \<Rightarrow> u32" where "Sigma0 x = (ROTATE x 30 XOR ROTATE x 19) XOR ROTATE x 10"
definition Sigma1 :: "u32 \<Rightarrow> u32" where "Sigma1 x = (ROTATE x 26 XOR ROTATE x 21) XOR ROTATE x 7"
definition sigma0 :: "u32 \<Rightarrow> u32" where "sigma0 x = (ROTATE x 25 XOR ROTATE x 14) XOR drop_bit 3 x"
definition sigma1 :: "u32 \<Rightarrow> u32" where "sigma1 x = (ROTATE x 15 XOR ROTATE x 13) XOR drop_bit 10 x"

definition Ch :: "'a::len word \<Rightarrow> 'a word \<Rightarrow> 'a word \<Rightarrow> 'a word" where
  "Ch x y z = (x AND y) XOR (NOT x AND z)"
definition Maj :: "'a::len word \<Rightarrow> 'a word \<Rightarrow> 'a word \<Rightarrow> 'a word" where
  "Maj x y z = ((x AND y) XOR (x AND z)) XOR (y AND z)"

fun ROUND_00_15 :: "nat \<Rightarrow> u32 \<Rightarrow> u32 regs8 \<Rightarrow> u32 regs8" where
  "ROUND_00_15 i T0 (a, b, c, d, e, f, g, h) =
     (let T1 = T0 + (((h + Sigma1 e) + Ch e f g) + K256 ! i);
          h1 = Sigma0 a + Maj a b c
      in (h1 + T1, a, b, c, d + T1, e, f, g))"

fun ROUND_16_63 :: "u32 list \<times> u32 regs8 \<Rightarrow> nat \<Rightarrow> u32 list \<times> u32 regs8" where
  "ROUND_16_63 (X, r) i =
     (let s0 = sigma0 (X ! ((i + 1) mod 16));
          s1 = sigma1 (X ! ((i + 14) mod 16));
          T1 = X ! (i mod 16) + ((s0 + s1) + X ! ((i + 9) mod 16))
      in (X[i mod 16 := T1], ROUND_00_15 i T1 r))"

fun add_state8 :: "'a::len word list \<Rightarrow> 'a word regs8 \<Rightarrow> 'a word list" where
  "add_state8 s (a, b, c, d, e, f, g, h) =
     [s ! 0 + a, s ! 1 + b, s ! 2 + c, s ! 3 + d, s ! 4 + e, s ! 5 + f, s ! 6 + g, s ! 7 + h]"

definition regs8_of :: "'w list \<Rightarrow> 'w regs8" where
  "regs8_of s = (s ! 0, s ! 1, s ! 2, s ! 3, s ! 4, s ! 5, s ! 6, s ! 7)"

definition sha256_one :: "u32 list \<Rightarrow> u8 list \<Rightarrow> u32 list" where
  "sha256_one state data =
     (let X = block_words True data;
          r = foldl (\<lambda>r i. ROUND_00_15 i (X ! i) r) (regs8_of state) [0..<16];
          s = foldl ROUND_16_63 (X, r) [16..<64]
      in add_state8 state (snd s))"

definition sha256_block_data_order :: "u32 list \<Rightarrow> u8 list \<Rightarrow> nat \<Rightarrow> u32 list" where
  "sha256_block_data_order = each_block HASH_CBLOCK sha256_one"

definition SHA224_DIGEST_LENGTH :: nat where "SHA224_DIGEST_LENGTH = 28"
definition SHA256_DIGEST_LENGTH :: nat where "SHA256_DIGEST_LENGTH = 32"

definition SHA224_Init :: md32_ctx where
  "SHA224_Init = hash_init [0xc1059ed8, 0x367cd507, 0x3070dd17, 0xf70e5939, 0xffc00b31, 0x68581511, 0x64f98fa7, 0xbefa4fa4]
     SHA224_DIGEST_LENGTH"

definition SHA256_Init :: md32_ctx where
  "SHA256_Init = hash_init [0x6a09e667, 0xbb67ae85, 0x3c6ef372, 0xa54ff53a, 0x510e527f, 0x9b05688c, 0x1f83d9ab, 0x5be0cd19]
     SHA256_DIGEST_LENGTH"

definition SHA256_Update :: "md32_ctx \<Rightarrow> u8 list \<Rightarrow> md32_ctx" where
  "SHA256_Update = HASH_UPDATE sha256_block_data_order"

definition SHA224_Update :: "md32_ctx \<Rightarrow> u8 list \<Rightarrow> md32_ctx" where
  "SHA224_Update ctx data = SHA256_Update ctx data"

definition SHA256_Transform :: "md32_ctx \<Rightarrow> u8 list \<Rightarrow> md32_ctx" where
  "SHA256_Transform = HASH_TRANSFORM sha256_block_data_order"

definition SHA256_TransformBlocks :: "u32 list \<Rightarrow> u8 list \<Rightarrow> nat \<Rightarrow> u32 list" where
  "SHA256_TransformBlocks state data num_blocks = sha256_block_data_order state data num_blocks"

text \<open>\<open>HASH_MAKE_STRING\<close> fails for a digest length that no \<open>Init\<close> function sets.\<close>

definition SHA256_Final :: "md32_ctx \<Rightarrow> u8 list option \<times> md32_ctx" where
  "SHA256_Final c =
     (let c' = HASH_FINAL sha256_block_data_order True c;
          words = (\<lambda>n. concat (map (\<lambda>nn. HOST_l2c True (c_h c' ! nn)) [0..<n]))
      in if c_md_len c' = SHA224_DIGEST_LENGTH then (Some (words (SHA224_DIGEST_LENGTH div 4)), c')
         else if c_md_len c' = SHA256_DIGEST_LENGTH then (Some (words (SHA256_DIGEST_LENGTH div 4)), c')
         else if c_md_len c' > SHA256_DIGEST_LENGTH then (None, c')
         else (Some (words (c_md_len c' div 4)), c'))"

definition SHA224_Final :: "md32_ctx \<Rightarrow> u8 list option \<times> md32_ctx" where
  "SHA224_Final c = SHA256_Final c"

definition SHA224 :: "u8 list \<Rightarrow> u8 list option" where
  "SHA224 data = fst (SHA224_Final (SHA224_Update SHA224_Init data))"

definition SHA256 :: "u8 list \<Rightarrow> u8 list option" where
  "SHA256 data = fst (SHA256_Final (SHA256_Update SHA256_Init data))"

interpretation sha256: md32 sha256_block_data_order
  unfolding sha256_block_data_order_def by (rule each_block_md32)

subsection \<open>The algorithms of FIPS 180-4\<close>

text \<open>SHA-1: 6.1.2, with the functions of 4.1.1 and the constants of 4.2.1.\<close>

definition fips_sha1_f :: "nat \<Rightarrow> u32 \<Rightarrow> u32 \<Rightarrow> u32 \<Rightarrow> u32" where
  "fips_sha1_f t x y z =
     (if t < 20 then (x AND y) XOR (NOT x AND z)
      else if t < 40 then x XOR y XOR z
      else if t < 60 then (x AND y) XOR (x AND z) XOR (y AND z)
      else x XOR y XOR z)"

definition fips_sha1_K :: "nat \<Rightarrow> u32" where
  "fips_sha1_K t = (if t < 20 then 0x5a827999 else if t < 40 then 0x6ed9eba1 else if t < 60 then 0x8f1bbcdc else 0xca62c1d6)"

text \<open>\<open>W ! t\<close> from the 16 words before it: \<open>ROTL 1 (W (t - 3) XOR W (t - 8) XOR W (t - 14) XOR W (t - 16))\<close>.\<close>

definition fips_sha1_next :: "u32 list \<Rightarrow> u32" where
  "fips_sha1_next w = word_rotl 1 (w ! 13 XOR w ! 8 XOR w ! 2 XOR w ! 0)"

fun fips_sha1_round :: "nat \<Rightarrow> u32 \<Rightarrow> regs5 \<Rightarrow> regs5" where
  "fips_sha1_round t w (a, b, c, d, e) =
     (word_rotl 5 a + fips_sha1_f t b c d + e + fips_sha1_K t + w, a, word_rotl 30 b, c, d)"

definition fips_sha1_compress :: "u32 list \<Rightarrow> u8 list \<Rightarrow> u32 list" where
  "fips_sha1_compress h block =
     (let W = schedule fips_sha1_next 64 (be_words 4 block) in
      add_state5 h (foldl (\<lambda>r t. fips_sha1_round t (W ! t) r) (regs5_of h) [0..<80]))"

definition fips_sha1 :: "u8 list \<Rightarrow> u8 list" where
  "fips_sha1 msg = concat (map (\<lambda>i. rev (le_bytes 4
     (md_hash 64 fips_sha1_compress [0x67452301, 0xefcdab89, 0x98badcfe, 0x10325476, 0xc3d2e1f0] (md_pad True msg) ! i))) [0..<5])"

text \<open>SHA-256: 6.2.2, with the functions of 4.1.2.\<close>

definition fips_Sigma0 :: "u32 \<Rightarrow> u32" where "fips_Sigma0 x = word_rotr 2 x XOR word_rotr 13 x XOR word_rotr 22 x"
definition fips_Sigma1 :: "u32 \<Rightarrow> u32" where "fips_Sigma1 x = word_rotr 6 x XOR word_rotr 11 x XOR word_rotr 25 x"
definition fips_sigma0 :: "u32 \<Rightarrow> u32" where "fips_sigma0 x = word_rotr 7 x XOR word_rotr 18 x XOR drop_bit 3 x"
definition fips_sigma1 :: "u32 \<Rightarrow> u32" where "fips_sigma1 x = word_rotr 17 x XOR word_rotr 19 x XOR drop_bit 10 x"

definition fips_sha256_next :: "u32 list \<Rightarrow> u32" where
  "fips_sha256_next w = fips_sigma1 (w ! 14) + w ! 9 + fips_sigma0 (w ! 1) + w ! 0"

fun fips_sha256_round :: "nat \<Rightarrow> u32 \<Rightarrow> u32 regs8 \<Rightarrow> u32 regs8" where
  "fips_sha256_round t w (a, b, c, d, e, f, g, h) =
     (let T1 = h + fips_Sigma1 e + Ch e f g + K256 ! t + w; T2 = fips_Sigma0 a + Maj a b c
      in (T1 + T2, a, b, c, d + T1, e, f, g))"

definition fips_sha256_compress :: "u32 list \<Rightarrow> u8 list \<Rightarrow> u32 list" where
  "fips_sha256_compress h block =
     (let W = schedule fips_sha256_next 48 (be_words 4 block) in
      add_state8 h (foldl (\<lambda>r t. fips_sha256_round t (W ! t) r) (regs8_of h) [0..<64]))"

definition fips_sha256 :: "u32 list \<Rightarrow> nat \<Rightarrow> u8 list \<Rightarrow> u8 list" where
  "fips_sha256 iv len msg =
     concat (map (\<lambda>i. rev (le_bytes 4 (md_hash 64 fips_sha256_compress iv (md_pad True msg) ! i))) [0..<len div 4])"

subsection \<open>The code computes SHA-1\<close>

lemma fold_sub: "foldl f (foldl f s [i..<j]) [j..<k] = foldl f s [i..<k]" if "i \<le> j" "j \<le> k"
  using upt_split [OF that] by (metis foldl_append)

lemma sha1_functions:
  "F_00_19 b c d = (b AND c) XOR (NOT b AND d)" "F_20_39 b c d = b XOR c XOR d"
  "F_40_59 b c d = (b AND c) XOR (b AND d) XOR (c AND d)"
  unfolding F_00_19_def F_20_39_def F_40_59_def
  by (rule bit_word_eqI, auto simp: bit_and_iff bit_or_iff bit_xor_iff bit_not_iff)+

lemma Xupdate_window: "Xupdate i X = fips_sha1_next (window i X)"
  by (simp add: Xupdate_def fips_sha1_next_def nth_window ROTATE_rotl ac_simps)

definition sha1_of_round :: "(u32 \<Rightarrow> u32 \<Rightarrow> u32 \<Rightarrow> u32) \<Rightarrow> u32 \<Rightarrow> nat \<Rightarrow> bool" where
  "sha1_of_round F K t \<longleftrightarrow> F = fips_sha1_f t \<and> K = fips_sha1_K t"

lemma sha1_of_rounds:
  "t < 20 \<Longrightarrow> sha1_of_round F_00_19 K_00_19 t" "20 \<le> t \<Longrightarrow> t < 40 \<Longrightarrow> sha1_of_round F_20_39 K_20_39 t"
  "40 \<le> t \<Longrightarrow> t < 60 \<Longrightarrow> sha1_of_round F_40_59 K_40_59 t" "60 \<le> t \<Longrightarrow> sha1_of_round F_20_39 K_60_79 t"
  by (auto simp: sha1_of_round_def fips_sha1_f_def fips_sha1_K_def K_00_19_def K_20_39_def K_40_59_def K_60_79_def
      sha1_functions fun_eq_iff)

lemma sha1_body_round: "sha1_of_round F K t \<Longrightarrow> sha1_body F K x r = fips_sha1_round t x r"
  by (cases r) (simp add: sha1_of_round_def ROTATE_rotl ac_simps)

lemma sha1_rounds_circ:
  assumes "\<And>t. m \<le> t \<Longrightarrow> t < n \<Longrightarrow> sha1_of_round F K t"
  shows "sha1_rounds F K m n s = foldl (circ_step fips_sha1_next fips_sha1_round) s [m..<n]"
  unfolding sha1_rounds_def
  by (intro foldl_cong refl) (auto simp: circ_step_def Xupdate_window sha1_body_round [OF assms] Let_def split: prod.splits)

lemma sha1_one_fips: "length d = 64 \<Longrightarrow> sha1_one h d = fips_sha1_compress h d"
proof -
  assume d: "length d = 64"
  let ?X = "be_words 4 d" and ?W = "schedule fips_sha1_next 64 (be_words 4 d)"
  let ?step = "circ_step fips_sha1_next fips_sha1_round" and ?spec = "\<lambda>r t. fips_sha1_round t (?W ! t) r"
  have X: "length ?X = 16" by (simp add: be_words_def)
  have first: "foldl (\<lambda>r i. sha1_body F_00_19 K_00_19 (?X ! i) r) r [0..<16] = foldl ?spec r [0..<16]" for r
    by (intro foldl_cong refl) (simp add: sha1_body_round [OF sha1_of_rounds(1)] nth_schedule X)
  have rounds: "sha1_rounds F_00_19 K_00_19 16 20 s = foldl ?step s [16..<20]"
    "sha1_rounds F_20_39 K_20_39 20 32 s = foldl ?step s [20..<32]"
    "sha1_rounds F_20_39 K_20_39 32 40 s = foldl ?step s [32..<40]"
    "sha1_rounds F_40_59 K_40_59 40 60 s = foldl ?step s [40..<60]"
    "sha1_rounds F_20_39 K_60_79 60 80 s = foldl ?step s [60..<80]" for s
    by (rule sha1_rounds_circ; simp add: sha1_of_rounds)+
  have chain: "foldl ?step (foldl ?step (foldl ?step (foldl ?step (foldl ?step s [16..<20]) [20..<32]) [32..<40]) [40..<60]) [60..<80]
      = foldl ?step s [16..<80]" for s
    by (simp only: fold_sub numeral_le_iff semiring_norm)
  have "snd (foldl ?step (?X, r) [16..<80]) = foldl ?spec r [16..<80]" for r
    using circ_schedule_16 [OF X, of fips_sha1_next fips_sha1_round r 64] by (simp del: upt_Suc upt_conv_Cons_Cons)
  then show ?thesis
    unfolding sha1_one_def fips_sha1_compress_def Let_def block_words_be [OF d] first rounds chain
    by (simp only: fold_sub numeral_le_iff semiring_norm zero_le_numeral)
qed

text \<open>SHA-1 is the digest of FIPS 180-4. However a message is cut into updates, the code yields the
  digest of the concatenation: its circular message schedule, its rewritten round functions and its rotating
  registers compute the rounds of the standard, and the padding and the bit count are those of the standard.\<close>

theorem SHA1_correct:
  assumes "list_all (\<lambda>d. length d < SIZE_LIMIT) ds"
  shows "fst (SHA1_Final (foldl SHA1_Update SHA1_Init ds)) = fips_sha1 (concat ds)"
proof -
  have "c_h (HASH_FINAL sha1_block_data_order True (foldl SHA1_Update SHA1_Init ds))
      = md_hash 64 fips_sha1_compress [0x67452301, 0xefcdab89, 0x98badcfe, 0x10325476, 0xc3d2e1f0] (md_pad True (concat ds))"
    unfolding SHA1_Update_def SHA1_Init_def sha1.hash_of_pieces(1) [OF assms]
    unfolding sha1_block_data_order_def HASH_CBLOCK_def by (intro absorbed_md_hash sha1_one_fips)
  then show ?thesis by (simp add: SHA1_Final_def fips_sha1_def Let_def HOST_l2c_le_bytes del: le_bytes_numeral)
qed

theorem SHA1_correct_witness:
  "fst (SHA1_Final (foldl SHA1_Update SHA1_Init [[0x61], [0x62, 0x63]])) = fips_sha1 [0x61, 0x62, 0x63]"
  using SHA1_correct [of "[[0x61], [0x62, 0x63]]"] by (simp add: SIZE_LIMIT_def)

subsection \<open>The code computes SHA-224 and SHA-256\<close>

lemma sha256_functions:
  "Sigma0 x = fips_Sigma0 x" "Sigma1 x = fips_Sigma1 x" "sigma0 x = fips_sigma0 x" "sigma1 x = fips_sigma1 x"
  by (simp_all add: Sigma0_def Sigma1_def sigma0_def sigma1_def fips_Sigma0_def fips_Sigma1_def fips_sigma0_def
      fips_sigma1_def ROTATE_rotl word_rotl_eq_word_rotr xor.assoc)

lemma ROUND_00_15_fips: "ROUND_00_15 t w r = fips_sha256_round t w r"
  by (cases "(t, w, r)" rule: ROUND_00_15.cases) (simp add: sha256_functions Let_def ac_simps)

lemma ROUND_16_63_circ: "ROUND_16_63 s i = circ_step fips_sha256_next fips_sha256_round s i"
  by (cases s) (simp add: circ_step_def fips_sha256_next_def nth_window sha256_functions ROUND_00_15_fips Let_def ac_simps
      del: ROUND_00_15.simps fips_sha256_round.simps)

lemma sha256_one_fips: "length d = 64 \<Longrightarrow> sha256_one h d = fips_sha256_compress h d"
proof -
  assume d: "length d = 64"
  let ?X = "be_words 4 d" and ?W = "schedule fips_sha256_next 48 (be_words 4 d)"
  let ?spec = "\<lambda>r t. fips_sha256_round t (?W ! t) r"
  have X: "length ?X = 16" by (simp add: be_words_def)
  have first: "foldl (\<lambda>r i. ROUND_00_15 i (?X ! i) r) r [0..<16] = foldl ?spec r [0..<16]" for r
    by (intro foldl_cong refl) (simp add: ROUND_00_15_fips nth_schedule X del: ROUND_00_15.simps fips_sha256_round.simps)
  have step: "ROUND_16_63 = circ_step fips_sha256_next fips_sha256_round"
    by (intro ext ROUND_16_63_circ)
  have "snd (foldl ROUND_16_63 (?X, r) [16..<64]) = foldl ?spec r [16..<64]" for r
    unfolding step using circ_schedule_16 [OF X, of fips_sha256_next fips_sha256_round r 48]
    by (simp del: upt_Suc upt_conv_Cons_Cons)
  then show ?thesis
    unfolding sha256_one_def fips_sha256_compress_def Let_def block_words_be [OF d] first
    by (simp only: fold_sub numeral_le_iff semiring_norm zero_le_numeral)
qed

lemma SHA256_Final_words:
  assumes "list_all (\<lambda>d. length d < SIZE_LIMIT) ds"
  shows "c_h (HASH_FINAL sha256_block_data_order True (foldl SHA256_Update (hash_init iv n) ds))
      = md_hash 64 fips_sha256_compress iv (md_pad True (concat ds))"
    and "c_md_len (HASH_FINAL sha256_block_data_order True (foldl SHA256_Update (hash_init iv n) ds)) = n"
  unfolding SHA256_Update_def sha256.hash_of_pieces [OF assms]
  unfolding sha256_block_data_order_def HASH_CBLOCK_def by (auto intro: absorbed_md_hash sha256_one_fips)

lemma SHA256_digests:
  assumes "list_all (\<lambda>d. length d < SIZE_LIMIT) ds"
  shows "fst (SHA256_Final (foldl SHA256_Update SHA256_Init ds))
      = Some (fips_sha256 [0x6a09e667, 0xbb67ae85, 0x3c6ef372, 0xa54ff53a, 0x510e527f, 0x9b05688c, 0x1f83d9ab, 0x5be0cd19]
          32 (concat ds))"
    and "fst (SHA224_Final (foldl SHA224_Update SHA224_Init ds))
      = Some (fips_sha256 [0xc1059ed8, 0x367cd507, 0x3070dd17, 0xf70e5939, 0xffc00b31, 0x68581511, 0x64f98fa7, 0xbefa4fa4]
          28 (concat ds))"
proof -
  have u: "SHA224_Update = SHA256_Update" by (intro ext) (simp add: SHA224_Update_def)
  show "fst (SHA256_Final (foldl SHA256_Update SHA256_Init ds))
      = Some (fips_sha256 [0x6a09e667, 0xbb67ae85, 0x3c6ef372, 0xa54ff53a, 0x510e527f, 0x9b05688c, 0x1f83d9ab, 0x5be0cd19]
          32 (concat ds))"
    unfolding SHA256_Final_def SHA256_Init_def Let_def SHA256_Final_words [OF assms]
    by (simp add: fips_sha256_def HOST_l2c_le_bytes SHA256_DIGEST_LENGTH_def SHA224_DIGEST_LENGTH_def del: le_bytes_numeral)
  show "fst (SHA224_Final (foldl SHA224_Update SHA224_Init ds))
      = Some (fips_sha256 [0xc1059ed8, 0x367cd507, 0x3070dd17, 0xf70e5939, 0xffc00b31, 0x68581511, 0x64f98fa7, 0xbefa4fa4]
          28 (concat ds))"
    unfolding SHA224_Final_def SHA256_Final_def SHA224_Init_def u Let_def SHA256_Final_words [OF assms]
    by (simp add: fips_sha256_def HOST_l2c_le_bytes SHA256_DIGEST_LENGTH_def SHA224_DIGEST_LENGTH_def del: le_bytes_numeral)
qed

text \<open>C12: SHA-256 and SHA-224 are the digests of FIPS 180-4, over any division of the message into updates:
  the 16-word circular schedule gives the 64-word schedule of the standard, and SHA-224 is the first 28 bytes
  of the same computation from its own initial value.\<close>

theorem SHA256_correct:
  assumes "list_all (\<lambda>d. length d < SIZE_LIMIT) ds"
  shows "fst (SHA256_Final (foldl SHA256_Update SHA256_Init ds))
      = Some (fips_sha256 [0x6a09e667, 0xbb67ae85, 0x3c6ef372, 0xa54ff53a, 0x510e527f, 0x9b05688c, 0x1f83d9ab, 0x5be0cd19]
          32 (concat ds)) \<and>
    fst (SHA224_Final (foldl SHA224_Update SHA224_Init ds))
      = Some (fips_sha256 [0xc1059ed8, 0x367cd507, 0x3070dd17, 0xf70e5939, 0xffc00b31, 0x68581511, 0x64f98fa7, 0xbefa4fa4]
          28 (concat ds))"
  by (intro conjI SHA256_digests assms)

theorem SHA256_correct_witness:
  "fst (SHA224_Final (foldl SHA224_Update SHA224_Init [[0x61], [0x62, 0x63]])) =
     Some [35, 9, 125, 34, 52, 5, 216, 34, 134, 66, 164, 119, 189, 162, 85, 179, 42,
       173, 188, 228, 189, 160, 179, 247, 227, 108, 157, 167]"
proof -
  have "fips_sha256 [0xc1059ed8, 0x367cd507, 0x3070dd17, 0xf70e5939, 0xffc00b31, 0x68581511, 0x64f98fa7, 0xbefa4fa4]
          28 (concat [[0x61], [0x62, 0x63]]) =
      [35, 9, 125, 34, 52, 5, 216, 34, 134, 66, 164, 119, 189, 162, 85, 179, 42,
       173, 188, 228, 189, 160, 179, 247, 227, 108, 157, 167]" by code_simp
  then show ?thesis using SHA256_correct [of "[[0x61], [0x62, 0x63]]"] by (simp only:) (simp add: SIZE_LIMIT_def)
qed

end
