(* ===== verification/Sha512.thy ===== *)
theory Sha512
  imports Cbs Sha
begin

text \<open>
  SHA-384 and SHA-512 (\<open>crypto/fipsmodule/sha/sha512.c\<close>), which have a collector of their own: blocks of
  128 bytes, a count of 128 bits, and a buffer that \<open>Init\<close> does not clear. The state before \<open>Init\<close> is
  therefore an argument.
\<close>

record sha512_ctx =
  s_h :: "u64 list"
  s_Nl :: u64
  s_Nh :: u64
  s_p :: "u8 list"
  s_num :: nat
  s_md_len :: nat

definition SHA512_CBLOCK :: nat where "SHA512_CBLOCK = 128"
definition SHA384_DIGEST_LENGTH :: nat where "SHA384_DIGEST_LENGTH = 48"
definition SHA512_DIGEST_LENGTH :: nat where "SHA512_DIGEST_LENGTH = 64"

definition SHA384_Init :: "sha512_ctx \<Rightarrow> sha512_ctx" where
  "SHA384_Init sha = sha\<lparr>s_h :=
     [0xcbbb9d5dc1059ed8, 0x629a292a367cd507, 0x9159015a3070dd17, 0x152fecd8f70e5939,
      0x67332667ffc00b31, 0x8eb44a8768581511, 0xdb0c2e0d64f98fa7, 0x47b5481dbefa4fa4],
     s_Nl := 0, s_Nh := 0, s_num := 0, s_md_len := SHA384_DIGEST_LENGTH\<rparr>"

definition SHA512_Init :: "sha512_ctx \<Rightarrow> sha512_ctx" where
  "SHA512_Init sha = sha\<lparr>s_h :=
     [0x6a09e667f3bcc908, 0xbb67ae8584caa73b, 0x3c6ef372fe94f82b, 0xa54ff53a5f1d36f1,
      0x510e527fade682d1, 0x9b05688c2b3e6c1f, 0x1f83d9abfb41bd6b, 0x5be0cd19137e2179],
     s_Nl := 0, s_Nh := 0, s_num := 0, s_md_len := SHA512_DIGEST_LENGTH\<rparr>"

definition K512 :: "u64 list" where
  "K512 = concat
    [[0x428a2f98d728ae22, 0x7137449123ef65cd], [0xb5c0fbcfec4d3b2f, 0xe9b5dba58189dbbc],
     [0x3956c25bf348b538, 0x59f111f1b605d019], [0x923f82a4af194f9b, 0xab1c5ed5da6d8118],
     [0xd807aa98a3030242, 0x12835b0145706fbe], [0x243185be4ee4b28c, 0x550c7dc3d5ffb4e2],
     [0x72be5d74f27b896f, 0x80deb1fe3b1696b1], [0x9bdc06a725c71235, 0xc19bf174cf692694],
     [0xe49b69c19ef14ad2, 0xefbe4786384f25e3], [0x0fc19dc68b8cd5b5, 0x240ca1cc77ac9c65],
     [0x2de92c6f592b0275, 0x4a7484aa6ea6e483], [0x5cb0a9dcbd41fbd4, 0x76f988da831153b5],
     [0x983e5152ee66dfab, 0xa831c66d2db43210], [0xb00327c898fb213f, 0xbf597fc7beef0ee4],
     [0xc6e00bf33da88fc2, 0xd5a79147930aa725], [0x06ca6351e003826f, 0x142929670a0e6e70],
     [0x27b70a8546d22ffc, 0x2e1b21385c26c926], [0x4d2c6dfc5ac42aed, 0x53380d139d95b3df],
     [0x650a73548baf63de, 0x766a0abb3c77b2a8], [0x81c2c92e47edaee6, 0x92722c851482353b],
     [0xa2bfe8a14cf10364, 0xa81a664bbc423001], [0xc24b8b70d0f89791, 0xc76c51a30654be30],
     [0xd192e819d6ef5218, 0xd69906245565a910], [0xf40e35855771202a, 0x106aa07032bbd1b8],
     [0x19a4c116b8d2d0c8, 0x1e376c085141ab53], [0x2748774cdf8eeb99, 0x34b0bcb5e19b48a8],
     [0x391c0cb3c5c95a63, 0x4ed8aa4ae3418acb], [0x5b9cca4f7763e373, 0x682e6ff3d6b2b8a3],
     [0x748f82ee5defb2fc, 0x78a5636f43172f60], [0x84c87814a1f0ab72, 0x8cc702081a6439ec],
     [0x90befffa23631e28, 0xa4506cebde82bde9], [0xbef9a3f7b2c67915, 0xc67178f2e372532b],
     [0xca273eceea26619c, 0xd186b8c721c0c207], [0xeada7dd6cde0eb1e, 0xf57d4f7fee6ed178],
     [0x06f067aa72176fba, 0x0a637dc5a2c898a6], [0x113f9804bef90dae, 0x1b710b35131c471b],
     [0x28db77f523047d84, 0x32caab7b40c72493], [0x3c9ebe0a15c9bebc, 0x431d67c49c100d4c],
     [0x4cc5d4becb3e42b6, 0x597f299cfc657e2a], [0x5fcb6fab3ad6faec, 0x6c44198c4a475817]]"

definition ROTR :: "u64 \<Rightarrow> nat \<Rightarrow> u64" where
  "ROTR x s = drop_bit s x OR push_bit (64 - s) x"

definition load_u64_be :: "u8 list \<Rightarrow> u64" where
  "load_u64_be ptr = CRYPTO_bswap 8 (le_word ptr)"

definition Sigma0_512 :: "u64 \<Rightarrow> u64" where "Sigma0_512 x = (ROTR x 28 XOR ROTR x 34) XOR ROTR x 39"
definition Sigma1_512 :: "u64 \<Rightarrow> u64" where "Sigma1_512 x = (ROTR x 14 XOR ROTR x 18) XOR ROTR x 41"
definition sigma0_512 :: "u64 \<Rightarrow> u64" where "sigma0_512 x = (ROTR x 1 XOR ROTR x 8) XOR drop_bit 7 x"
definition sigma1_512 :: "u64 \<Rightarrow> u64" where "sigma1_512 x = (ROTR x 19 XOR ROTR x 61) XOR drop_bit 6 x"

fun ROUND512_00_15 :: "nat \<Rightarrow> u64 \<Rightarrow> u64 regs8 \<Rightarrow> u64 regs8" where
  "ROUND512_00_15 i T0 (a, b, c, d, e, f, g, h) =
     (let T1 = T0 + (((h + Sigma1_512 e) + Ch e f g) + K512 ! i);
          h1 = Sigma0_512 a + Maj a b c
      in (h1 + T1, a, b, c, d + T1, e, f, g))"

text \<open>The index \<open>i + j\<close> of the code, whose \<open>i\<close> is a multiple of 16: \<open>j\<close> is the index into the buffer.\<close>

fun ROUND_16_80 :: "u64 list \<times> u64 regs8 \<Rightarrow> nat \<Rightarrow> u64 list \<times> u64 regs8" where
  "ROUND_16_80 (X, r) ij =
     (let j = ij mod 16;
          s0 = sigma0_512 (X ! ((j + 1) mod 16));
          s1 = sigma1_512 (X ! ((j + 14) mod 16));
          T1 = X ! (j mod 16) + ((s0 + s1) + X ! ((j + 9) mod 16))
      in (X[j mod 16 := T1], ROUND512_00_15 ij T1 r))"

definition sha512_one :: "u64 list \<Rightarrow> u8 list \<Rightarrow> u64 list" where
  "sha512_one state data =
     (let X = map (\<lambda>i. load_u64_be (take 8 (drop (8 * i) data))) [0..<16];
          r = foldl (\<lambda>r i. ROUND512_00_15 i (X ! i) r) (regs8_of state) [0..<16];
          s = foldl ROUND_16_80 (X, r) [16..<80]
      in add_state8 state (snd s))"

definition sha512_block_data_order :: "u64 list \<Rightarrow> u8 list \<Rightarrow> nat \<Rightarrow> u64 list" where
  "sha512_block_data_order = each_block SHA512_CBLOCK sha512_one"

definition SHA512_Transform :: "sha512_ctx \<Rightarrow> u8 list \<Rightarrow> sha512_ctx" where
  "SHA512_Transform c block = c\<lparr>s_h := sha512_block_data_order (s_h c) block 1\<rparr>"

definition sha512_count :: "sha512_ctx \<Rightarrow> nat \<Rightarrow> sha512_ctx" where
  "sha512_count c len =
     (let l = s_Nl c + push_bit 3 (word_of_nat len) in
      c\<lparr>s_Nh := (if l < s_Nl c then s_Nh c + 1 else s_Nh c) + drop_bit 61 (word_of_nat len), s_Nl := l\<rparr>)"

definition sha512_rest :: "sha512_ctx \<Rightarrow> u8 list \<Rightarrow> sha512_ctx" where
  "sha512_rest c data =
     (let whole = length data \<ge> SHA512_CBLOCK;
          c1 = (if whole then c\<lparr>s_h := sha512_block_data_order (s_h c) data (length data div SHA512_CBLOCK)\<rparr> else c);
          data1 = (if whole then drop (length data - length data mod SHA512_CBLOCK) data else data)
      in if length data1 \<noteq> 0 then c1\<lparr>s_p := copy_bytes (s_p c1) 0 data1, s_num := length data1\<rparr> else c1)"

definition SHA512_Update :: "sha512_ctx \<Rightarrow> u8 list \<Rightarrow> sha512_ctx" where
  "SHA512_Update c data =
     (let len = length data in
      if len = 0 then c
      else
        let c1 = sha512_count c len in
        if s_num c1 \<noteq> 0 then
          (let n = SHA512_CBLOCK - s_num c1 in
           if len < n then c1\<lparr>s_p := copy_bytes (s_p c1) (s_num c1) data, s_num := s_num c1 + len\<rparr>
           else
             let p = copy_bytes (s_p c1) (s_num c1) (take n data) in
             sha512_rest (c1\<lparr>s_p := p, s_num := 0, s_h := sha512_block_data_order (s_h c1) p 1\<rparr>) (drop n data))
        else sha512_rest c1 data)"

definition SHA384_Update :: "sha512_ctx \<Rightarrow> u8 list \<Rightarrow> sha512_ctx" where
  "SHA384_Update sha data = SHA512_Update sha data"

definition u64_be_bytes_of :: "u64 \<Rightarrow> u8 list" where
  "u64_be_bytes_of t = [ucast (drop_bit 56 t), ucast (drop_bit 48 t), ucast (drop_bit 40 t), ucast (drop_bit 32 t),
     ucast (drop_bit 24 t), ucast (drop_bit 16 t), ucast (drop_bit 8 t), ucast t]"

text \<open>The stores \<open>p[sizeof(p) - 1] = (uint8_t)Nl\<close> up to \<open>p[sizeof(p) - 16] = (uint8_t)(Nh >> 56)\<close> are written in
  ascending order of the address.\<close>

definition sha512_pad :: "sha512_ctx \<Rightarrow> sha512_ctx" where
  "sha512_pad sha =
     (let p0 = (s_p sha)[s_num sha := 0x80]; n = s_num sha + 1;
          full = n > SHA512_CBLOCK - 16;
          p1 = (if full then copy_bytes p0 n (replicate (SHA512_CBLOCK - n) 0) else p0);
          h1 = (if full then sha512_block_data_order (s_h sha) p1 1 else s_h sha);
          n1 = (if full then 0 else n);
          p2 = copy_bytes p1 n1 (replicate (SHA512_CBLOCK - 16 - n1) 0);
          p3 = copy_bytes p2 (SHA512_CBLOCK - 16) (u64_be_bytes_of (s_Nh sha) @ u64_be_bytes_of (s_Nl sha))
      in sha\<lparr>s_p := p3, s_h := sha512_block_data_order h1 p3 1\<rparr>)"

text \<open>\<open>out_null\<close>: the caller passes no buffer.\<close>

definition SHA512_Final :: "bool \<Rightarrow> sha512_ctx \<Rightarrow> u8 list option \<times> sha512_ctx" where
  "SHA512_Final out_null sha =
     (let sha' = sha512_pad sha;
          words = (\<lambda>n. concat (map (\<lambda>n. u64_be_bytes_of (s_h sha' ! n)) [0..<n]))
      in if out_null then (None, sha')
         else if s_md_len sha' = SHA384_DIGEST_LENGTH then (Some (words (SHA384_DIGEST_LENGTH div 8)), sha')
         else if s_md_len sha' = SHA512_DIGEST_LENGTH then (Some (words (SHA512_DIGEST_LENGTH div 8)), sha')
         else (None, sha'))"

definition SHA384_Final :: "bool \<Rightarrow> sha512_ctx \<Rightarrow> u8 list option \<times> sha512_ctx" where
  "SHA384_Final out_null sha = SHA512_Final out_null sha"

definition SHA384 :: "sha512_ctx \<Rightarrow> u8 list \<Rightarrow> u8 list option" where
  "SHA384 ctx data = fst (SHA384_Final False (SHA384_Update (SHA384_Init ctx) data))"

definition SHA512 :: "sha512_ctx \<Rightarrow> u8 list \<Rightarrow> u8 list option" where
  "SHA512 ctx data = fst (SHA512_Final False (SHA512_Update (SHA512_Init ctx) data))"

interpretation sha512: md_block SHA512_CBLOCK sha512_block_data_order
  unfolding sha512_block_data_order_def by (rule each_block_md) (simp add: SHA512_CBLOCK_def)

subsection \<open>The algorithm of FIPS 180-4\<close>

definition fips512_Sigma0 :: "u64 \<Rightarrow> u64" where "fips512_Sigma0 x = word_rotr 28 x XOR word_rotr 34 x XOR word_rotr 39 x"
definition fips512_Sigma1 :: "u64 \<Rightarrow> u64" where "fips512_Sigma1 x = word_rotr 14 x XOR word_rotr 18 x XOR word_rotr 41 x"
definition fips512_sigma0 :: "u64 \<Rightarrow> u64" where "fips512_sigma0 x = word_rotr 1 x XOR word_rotr 8 x XOR drop_bit 7 x"
definition fips512_sigma1 :: "u64 \<Rightarrow> u64" where "fips512_sigma1 x = word_rotr 19 x XOR word_rotr 61 x XOR drop_bit 6 x"

definition fips_sha512_next :: "u64 list \<Rightarrow> u64" where
  "fips_sha512_next w = fips512_sigma1 (w ! 14) + w ! 9 + fips512_sigma0 (w ! 1) + w ! 0"

fun fips_sha512_round :: "nat \<Rightarrow> u64 \<Rightarrow> u64 regs8 \<Rightarrow> u64 regs8" where
  "fips_sha512_round t w (a, b, c, d, e, f, g, h) =
     (let T1 = h + fips512_Sigma1 e + Ch e f g + K512 ! t + w; T2 = fips512_Sigma0 a + Maj a b c
      in (T1 + T2, a, b, c, d + T1, e, f, g))"

definition fips_sha512_compress :: "u64 list \<Rightarrow> u8 list \<Rightarrow> u64 list" where
  "fips_sha512_compress h block =
     (let W = schedule fips_sha512_next 64 (be_words 8 block) in
      add_state8 h (foldl (\<lambda>r t. fips_sha512_round t (W ! t) r) (regs8_of h) [0..<80]))"

text \<open>5.1.2: the length in bits is a 128-bit number.\<close>

definition sha512_length_bytes :: "nat \<Rightarrow> u8 list" where
  "sha512_length_bytes bits = rev (le_bytes 16 (word_of_nat bits :: 128 word))"

definition fips_pad_128 :: "u8 list \<Rightarrow> u8 list" where
  "fips_pad_128 msg =
     msg @ 0x80 # replicate ((if length msg mod 128 < 112 then 111 else 239) - length msg mod 128) 0 @
       sha512_length_bytes (8 * length msg)"

definition fips_sha512 :: "u64 list \<Rightarrow> nat \<Rightarrow> u8 list \<Rightarrow> u8 list" where
  "fips_sha512 iv len msg =
     concat (map (\<lambda>i. rev (le_bytes 8 (md_hash 128 fips_sha512_compress iv (fips_pad_128 msg) ! i))) [0..<len div 8])"

subsection \<open>The collector\<close>

definition bit_count512 :: "sha512_ctx \<Rightarrow> nat" where
  "bit_count512 c = unat (s_Nl c) + 2 ^ 64 * unat (s_Nh c)"

definition sha512_holds :: "sha512_ctx \<Rightarrow> u64 list \<Rightarrow> u8 list \<Rightarrow> nat \<Rightarrow> nat \<Rightarrow> bool" where
  "sha512_holds c h rest bits md_len \<longleftrightarrow>
     s_h c = h \<and> s_num c = length rest \<and> length (s_p c) = SHA512_CBLOCK \<and> take (length rest) (s_p c) = rest \<and>
     bit_count512 c = bits \<and> s_md_len c = md_len"

definition sha512_rep :: "u64 list \<Rightarrow> nat \<Rightarrow> sha512_ctx \<Rightarrow> u8 list \<Rightarrow> bool" where
  "sha512_rep iv md_len c msg \<longleftrightarrow>
     sha512_holds c (absorbed SHA512_CBLOCK sha512_block_data_order iv msg) (pending SHA512_CBLOCK msg)
       ((8 * length msg) mod 2 ^ 128) md_len"

lemma SHA512_CBLOCK_pos [simp]: "0 < SHA512_CBLOCK"
  by (simp add: SHA512_CBLOCK_def)

lemma sha512_count_frame [simp]:
  "s_h (sha512_count c n) = s_h c" "s_num (sha512_count c n) = s_num c" "s_p (sha512_count c n) = s_p c"
  "s_md_len (sha512_count c n) = s_md_len c"
  by (simp_all add: sha512_count_def Let_def)

lemma bit_count_sha512_count:
  assumes "n < SIZE_LIMIT"
  shows "bit_count512 (sha512_count c n) = (bit_count512 c + 8 * n) mod 2 ^ 128"
proof -
  let ?w = "push_bit 3 (word_of_nat n) :: u64" and ?k = "drop_bit 61 (word_of_nat n :: u64)"
  let ?N = "(2::nat) ^ 64"
  have un: "unat (word_of_nat n :: u64) = n" using assms by (intro unat_word_of_nat) (simp add: SIZE_LIMIT_def)
  have "n div 2 ^ 61 \<le> n" by (rule div_le_dividend)
  also have "n < ?N" using assms by (simp add: SIZE_LIMIT_def)
  finally have "unat ?k = (n div 2 ^ 61) mod ?N" by (simp only: unat_drop_bit un mod_less)
  then have "bit_count512 (sha512_count c n)
      = (unat (s_Nl c) + ?N * unat (s_Nh c) + (unat ?w + ?N * (n div 2 ^ 61))) mod (?N * ?N)"
    using limb_count [of ?k "n div 2 ^ 61" "s_Nl c" ?w "s_Nh c"]
    unfolding bit_count512_def sha512_count_def Let_def by simp
  also have "unat ?w + ?N * (n div 2 ^ 61) = 8 * n"
    using word_bit_count [of n, where 'a = 64] by simp
  finally show ?thesis by (simp add: bit_count512_def)
qed

lemma sha512_rest_absorbs:
  assumes "s_num c = 0" "length (s_p c) = SHA512_CBLOCK"
  shows "sha512_holds (sha512_rest c d) (absorbed SHA512_CBLOCK sha512_block_data_order (s_h c) d)
           (pending SHA512_CBLOCK d) (bit_count512 c) (s_md_len c)"
proof -
  have p: "(if length d \<ge> SHA512_CBLOCK then drop (length d - length d mod SHA512_CBLOCK) d else d) = pending SHA512_CBLOCK d"
    by (simp add: pending_def minus_mod_eq_mult_div)
  have h: "s_h (if length d \<ge> SHA512_CBLOCK then c\<lparr>s_h := sha512_block_data_order (s_h c) d (length d div SHA512_CBLOCK)\<rparr> else c)
      = absorbed SHA512_CBLOCK sha512_block_data_order (s_h c) d"
    by (simp add: absorbed_def sha512.block_0)
  have "length (pending SHA512_CBLOCK d) < SHA512_CBLOCK" by (simp add: sha512.pending_length)
  then have "take (length (pending SHA512_CBLOCK d)) (copy_bytes (s_p c) 0 (pending SHA512_CBLOCK d)) = pending SHA512_CBLOCK d"
    using copy_bytes_take [of 0 "pending SHA512_CBLOCK d" "s_p c"] assms(2) by simp
  then show ?thesis
    using assms h unfolding sha512_rest_def Let_def p by (auto simp: sha512_holds_def bit_count512_def)
qed

lemma SHA512_Update_absorbs:
  assumes r: "sha512_rep iv n c msg" and len: "length d < SIZE_LIMIT"
  shows "sha512_rep iv n (SHA512_Update c d) (msg @ d)"
proof -
  let ?p = "pending SHA512_CBLOCK msg" and ?c1 = "sha512_count c (length d)"
  let ?H = "absorbed SHA512_CBLOCK sha512_block_data_order iv msg"
  have c: "s_h c = ?H" "s_num c = length ?p" "length (s_p c) = SHA512_CBLOCK" "take (length ?p) (s_p c) = ?p"
    "bit_count512 c = (8 * length msg) mod 2 ^ 128" and ml: "s_md_len c = n"
    using r by (auto simp: sha512_rep_def sha512_holds_def)
  have pl: "length ?p < SHA512_CBLOCK" by (simp add: sha512.pending_length)
  have bits: "bit_count512 ?c1 = (8 * length (msg @ d)) mod 2 ^ 128"
    unfolding bit_count_sha512_count [OF len] c(5) by (simp add: mod_add_left_eq distrib_left)
  consider (empty) "d = []" | (fits) "d \<noteq> []" "?p \<noteq> []" "length d < SHA512_CBLOCK - length ?p"
    | (completes) "d \<noteq> []" "?p \<noteq> []" "SHA512_CBLOCK - length ?p \<le> length d" | (aligned) "d \<noteq> []" "?p = []"
    by fastforce
  then show ?thesis
  proof cases
    case empty
    then show ?thesis using r by (simp add: SHA512_Update_def)
  next
    case fits
    have u: "SHA512_Update c d = ?c1\<lparr>s_p := copy_bytes (s_p c) (length ?p) d, s_num := length ?p + length d\<rparr>"
      using fits c(2) by (simp add: SHA512_Update_def Let_def)
    have sh: "length (?p @ d) < SHA512_CBLOCK" using fits by simp
    have "take (length ?p + length d) (copy_bytes (s_p c) (length ?p) d) = ?p @ d"
      using copy_bytes_take [of "length ?p" d "s_p c"] fits c(3,4) by simp
    then show ?thesis
      using c bits ml unfolding u sha512_rep_def sha512_holds_def sha512.absorbed_append [of iv msg d]
        sha512.pending_append [of msg d] sha512.absorbed_short [OF sh] sha512.pending_short [OF sh]
      by (simp add: bit_count512_def)
  next
    case completes
    let ?k = "SHA512_CBLOCK - length ?p"
    let ?b = "?p @ take ?k d"
    have k: "length ?b = SHA512_CBLOCK" using completes pl by auto
    have blk: "copy_bytes (s_p c) (length ?p) (take ?k d) = ?b"
      using copy_bytes_take [of "length ?p" "take ?k d" "s_p c"] k c(3,4) pl by simp
    let ?c2 = "?c1\<lparr>s_p := ?b, s_num := 0, s_h := sha512_block_data_order ?H ?b 1\<rparr>"
    have u: "SHA512_Update c d = sha512_rest ?c2 (drop ?k d)"
      using completes c(1,2) blk by (simp add: SHA512_Update_def Let_def)
    have split: "?p @ d = ?b @ drop ?k d" by simp
    have "absorbed SHA512_CBLOCK sha512_block_data_order iv (msg @ d)
        = absorbed SHA512_CBLOCK sha512_block_data_order (sha512_block_data_order ?H ?b 1) (drop ?k d)"
      unfolding sha512.absorbed_append [of iv msg d] split by (rule sha512.absorbed_block [OF k])
    moreover have "pending SHA512_CBLOCK (msg @ d) = pending SHA512_CBLOCK (drop ?k d)"
      unfolding sha512.pending_append [of msg d] split by (rule sha512.pending_block [OF k])
    moreover have "bit_count512 ?c2 = bit_count512 ?c1" by (simp add: bit_count512_def)
    moreover have "sha512_holds (sha512_rest ?c2 (drop ?k d))
        (absorbed SHA512_CBLOCK sha512_block_data_order (s_h ?c2) (drop ?k d)) (pending SHA512_CBLOCK (drop ?k d))
        (bit_count512 ?c2) (s_md_len ?c2)"
      by (rule sha512_rest_absorbs) (use k in simp_all)
    ultimately show ?thesis using bits ml unfolding u sha512_rep_def by simp
  next
    case aligned
    have u: "SHA512_Update c d = sha512_rest ?c1 d"
      using aligned c(2) by (simp add: SHA512_Update_def Let_def)
    have "absorbed SHA512_CBLOCK sha512_block_data_order iv (msg @ d) = absorbed SHA512_CBLOCK sha512_block_data_order ?H d"
      "pending SHA512_CBLOCK (msg @ d) = pending SHA512_CBLOCK d"
      using sha512.absorbed_append [of iv msg d] sha512.pending_append [of msg d] aligned(2) by simp_all
    then show ?thesis
      using sha512_rest_absorbs [of ?c1 d] bits c ml aligned(2) unfolding u sha512_rep_def by simp
  qed
qed

lemma sha512_updates_absorb:
  "sha512_rep iv n c msg \<Longrightarrow> list_all (\<lambda>d. length d < SIZE_LIMIT) ds \<Longrightarrow>
   sha512_rep iv n (foldl SHA512_Update c ds) (msg @ concat ds)"
proof (induction ds arbitrary: c msg)
  case (Cons d ds)
  then show ?case
    using SHA512_Update_absorbs [OF Cons.prems(1), of d] Cons.IH [of "SHA512_Update c d" "msg @ d"] by simp
qed simp

subsection \<open>Finishing\<close>

lemma u64_be_bytes_of: "u64_be_bytes_of t = rev (le_bytes 8 t)"
  by (simp add: u64_be_bytes_of_def drop_bit_drop_bit)

lemma sha512_length_limbs:
  "u64_be_bytes_of nh @ u64_be_bytes_of nl = sha512_length_bytes (unat nl + 2 ^ 64 * unat nh)"
proof -
  let ?n = "unat nl + 2 ^ 64 * unat nh" and ?w = "word_of_nat (unat nl + 2 ^ 64 * unat nh) :: 128 word"
  have bd: "unat nl < 2 ^ 64" "unat nh < 2 ^ 64"
    using unsigned_less [of nl, where ?'a = nat] unsigned_less [of nh, where ?'a = nat] by simp_all
  then have un: "unat ?w = ?n" by (intro unat_word_of_nat) simp
  have "(ucast ?w :: u64) = nl"
  proof (rule word_unat_eq_iff [THEN iffD2])
    have "unat (ucast ?w :: u64) = ?n mod 2 ^ 64" by (simp only: unat_ucast_mod un) simp
    then show "unat (ucast ?w :: u64) = unat nl" using bd by simp
  qed
  moreover have "(ucast (drop_bit 64 ?w) :: u64) = nh"
  proof (rule word_unat_eq_iff [THEN iffD2])
    have "unat (drop_bit 64 ?w) = unat nh" using bd by (simp only: unat_drop_bit un) simp
    then show "unat (ucast (drop_bit 64 ?w) :: u64) = unat nh" using bd by (simp add: unat_ucast_mod del: of_nat_add of_nat_mult)
  qed
  ultimately have "le_bytes 16 ?w = le_bytes 8 nl @ le_bytes 8 nh"
    using le_bytes_add [of 8 8 ?w] le_bytes_ucast [of 8 ?w, where 'b = 64] le_bytes_ucast [of 8 "drop_bit 64 ?w", where 'b = 64]
    by (simp del: le_bytes_numeral of_nat_add of_nat_mult)
  then show ?thesis
    by (simp add: sha512_length_bytes_def u64_be_bytes_of del: le_bytes_numeral of_nat_add of_nat_mult)
qed

lemma length_sha512_length_bytes [simp]: "length (sha512_length_bytes n) = 16"
  by (simp add: sha512_length_bytes_def)

lemma sha512_length_bytes_mod: "sha512_length_bytes (n mod 2 ^ 128) = sha512_length_bytes n"
proof -
  have "(word_of_nat (n mod 2 ^ 128) :: 128 word) = word_of_nat n"
    by (rule word_unat_eq_iff [THEN iffD2]) (simp only: unat_of_nat, simp)
  then show ?thesis by (simp only: sha512_length_bytes_def)
qed

lemma sha512_pad_absorbs:
  assumes r: "sha512_rep iv n c msg"
  shows "s_h (sha512_pad c) = absorbed SHA512_CBLOCK sha512_block_data_order iv (fips_pad_128 msg)"
proof -
  let ?block = sha512_block_data_order
  let ?p = "pending SHA512_CBLOCK msg" and ?H = "absorbed SHA512_CBLOCK ?block iv msg"
  let ?k = "length ?p" and ?l = "sha512_length_bytes (8 * length msg)"
  have c: "s_h c = ?H" "s_num c = ?k" "length (s_p c) = 128" "take ?k (s_p c) = ?p"
    using r by (auto simp: sha512_rep_def sha512_holds_def SHA512_CBLOCK_def)
  have k: "?k = length msg mod 128" "?k < 128" by (simp_all only: sha512.pending_length) (simp_all add: SHA512_CBLOCK_def)
  have lb: "u64_be_bytes_of (s_Nh c) @ u64_be_bytes_of (s_Nl c) = ?l"
    unfolding sha512_length_limbs using r sha512_length_bytes_mod [of "8 * length msg"]
    by (simp add: sha512_rep_def sha512_holds_def bit_count512_def)
  let ?data0 = "(s_p c)[?k := 0x80]"
  have d0: "take (Suc ?k) ?data0 = ?p @ [0x80]" "length ?data0 = 128"
    using c k(2) by (simp_all add: take_Suc_conv_app_nth)
  have close: "?block h (copy_bytes (copy_bytes d n (replicate (112 - n) 0)) 112 ?l) 1
      = ?block h (take n d @ replicate (112 - n) 0 @ ?l) 1" if "length d = 128" "n \<le> 112" for h d n
    using that copy_bytes_take [of n "replicate (112 - n) 0" d]
      copy_bytes_take [of 112 ?l "copy_bytes d n (replicate (112 - n) 0)"] by simp
  have one: "absorbed SHA512_CBLOCK ?block h b = ?block h b 1" if "length b = 128" for h b
    using that by (simp add: absorbed_def SHA512_CBLOCK_def)
  show ?thesis
  proof (cases "?k < 112")
    case True
    have "s_h (sha512_pad c) = ?block ?H (copy_bytes (copy_bytes ?data0 (Suc ?k) (replicate (112 - Suc ?k) 0)) 112 ?l) 1"
      unfolding sha512_pad_def lb using True by (simp add: c SHA512_CBLOCK_def Let_def)
    also have "\<dots> = ?block ?H (?p @ 0x80 # replicate (111 - ?k) 0 @ ?l) 1"
      using close [OF d0(2), of "Suc ?k"] d0(1) True by simp
    also have "\<dots> = absorbed SHA512_CBLOCK ?block ?H (?p @ 0x80 # replicate (111 - ?k) 0 @ ?l)"
      by (rule one [symmetric]) (use True in simp)
    also have "\<dots> = absorbed SHA512_CBLOCK ?block iv (fips_pad_128 msg)"
      unfolding fips_pad_128_def sha512.absorbed_append [of iv msg] using True k by simp
    finally show ?thesis .
  next
    case False
    let ?b = "?p @ 0x80 # replicate (127 - ?k) 0"
    have b: "length ?b = SHA512_CBLOCK" using k(2) by (simp add: SHA512_CBLOCK_def)
    have cb: "copy_bytes ?data0 (Suc ?k) (replicate (127 - ?k) 0) = ?b"
      using copy_bytes_take [of "Suc ?k" "replicate (127 - ?k) 0" ?data0] d0 k(2) by simp
    have "s_h (sha512_pad c) = ?block (?block ?H ?b 1) (copy_bytes (copy_bytes ?b 0 (replicate (112 - 0) 0)) 112 ?l) 1"
      unfolding sha512_pad_def lb using False cb k(2) by (simp add: c SHA512_CBLOCK_def Let_def)
    also have "\<dots> = ?block (?block ?H ?b 1) (replicate 112 0 @ ?l) 1"
      using close [of ?b 0] b by (simp add: SHA512_CBLOCK_def)
    also have "\<dots> = absorbed SHA512_CBLOCK ?block (?block ?H ?b 1) (replicate 112 0 @ ?l)"
      by (rule one [symmetric]) simp
    also have "\<dots> = absorbed SHA512_CBLOCK ?block ?H (?b @ replicate 112 0 @ ?l)"
      by (rule sha512.absorbed_block [OF b, symmetric])
    also have "\<dots> = absorbed SHA512_CBLOCK ?block iv (fips_pad_128 msg)"
    proof -
      have "(239 - ?k) = (127 - ?k) + 112" using k(2) by simp
      then have "replicate (239 - ?k) (0 :: u8) = replicate (127 - ?k) 0 @ replicate 112 0" by (simp only: replicate_add)
      then show ?thesis unfolding fips_pad_128_def sha512.absorbed_append [of iv msg] using False k(1) by simp
    qed
    finally show ?thesis .
  qed
qed

subsection \<open>The code computes SHA-384 and SHA-512\<close>

lemma ROTR_rotr: "0 < n \<Longrightarrow> n < 64 \<Longrightarrow> ROTR x n = word_rotr n x"
  using rotate_or_rotl [of "64 - n" x] by (simp add: ROTR_def word_rotl_eq_word_rotr or.commute)

lemma sha512_functions:
  "Sigma0_512 x = fips512_Sigma0 x" "Sigma1_512 x = fips512_Sigma1 x" "sigma0_512 x = fips512_sigma0 x"
  "sigma1_512 x = fips512_sigma1 x"
  by (simp_all add: Sigma0_512_def Sigma1_512_def sigma0_512_def sigma1_512_def fips512_Sigma0_def fips512_Sigma1_def
      fips512_sigma0_def fips512_sigma1_def ROTR_rotr xor.assoc)

lemma load_u64_be: "length bs = 8 \<Longrightarrow> load_u64_be bs = be_word bs"
proof -
  assume bs: "length bs = 8"
  have "le_bytes 8 (le_word bs :: u64) = bs"
    using le_bytes_le_word [of bs, where 'a = 64] bs by simp
  then have "load_u64_be bs = le_word (rev bs)" by (simp add: load_u64_be_def CRYPTO_bswap_def del: le_bytes_numeral)
  moreover have "unat (le_word (rev bs) :: u64) = be_nat bs"
    using unat_le_word [of "rev bs", where 'a = 64] bs by simp
  moreover have "unat (be_word bs :: u64) = be_nat bs"
    using bs by (intro unat_be_word) simp_all
  ultimately show ?thesis by (simp only: word_unat_eq_iff)
qed

lemma block_words_512: "length d = 128 \<Longrightarrow> map (\<lambda>i. load_u64_be (take 8 (drop (8 * i) d))) [0..<16] = be_words 8 d"
  unfolding be_words_def by (intro map_cong refl load_u64_be) auto

lemma ROUND512_00_15_fips: "ROUND512_00_15 t w r = fips_sha512_round t w r"
  by (cases "(t, w, r)" rule: ROUND512_00_15.cases) (simp add: sha512_functions Let_def ac_simps)

lemma ROUND_16_80_circ: "ROUND_16_80 s i = circ_step fips_sha512_next fips_sha512_round s i"
proof -
  have "(i mod 16 + k) mod 16 = (i + k) mod 16" for k by (rule mod_add_left_eq)
  then show ?thesis
    by (cases s) (simp add: circ_step_def fips_sha512_next_def nth_window sha512_functions ROUND512_00_15_fips Let_def mod_Suc_eq ac_simps
      del: ROUND512_00_15.simps fips_sha512_round.simps)
qed

lemma sha512_one_fips: "length d = 128 \<Longrightarrow> sha512_one h d = fips_sha512_compress h d"
proof -
  assume d: "length d = 128"
  let ?X = "be_words 8 d" and ?W = "schedule fips_sha512_next 64 (be_words 8 d)"
  let ?spec = "\<lambda>r t. fips_sha512_round t (?W ! t) r"
  have X: "length ?X = 16" by (simp add: be_words_def)
  have first: "foldl (\<lambda>r i. ROUND512_00_15 i (?X ! i) r) r [0..<16] = foldl ?spec r [0..<16]" for r
    by (intro foldl_cong refl) (simp add: ROUND512_00_15_fips nth_schedule X del: ROUND512_00_15.simps fips_sha512_round.simps)
  have step: "ROUND_16_80 = circ_step fips_sha512_next fips_sha512_round"
    by (intro ext ROUND_16_80_circ)
  have "snd (foldl ROUND_16_80 (?X, r) [16..<80]) = foldl ?spec r [16..<80]" for r
    unfolding step using circ_schedule_16 [OF X, of fips_sha512_next fips_sha512_round r 64]
    by (simp del: upt_Suc upt_conv_Cons_Cons)
  then show ?thesis
    unfolding sha512_one_def fips_sha512_compress_def Let_def block_words_512 [OF d] first
    by (simp only: fold_sub numeral_le_iff semiring_norm zero_le_numeral)
qed

lemma sha512_hash_words:
  assumes "sha512_rep iv n c []" "list_all (\<lambda>d. length d < SIZE_LIMIT) ds"
  shows "s_h (sha512_pad (foldl SHA512_Update c ds)) = md_hash 128 fips_sha512_compress iv (fips_pad_128 (concat ds))"
    and "s_md_len (sha512_pad (foldl SHA512_Update c ds)) = n"
proof -
  have r: "sha512_rep iv n (foldl SHA512_Update c ds) (concat ds)"
    using sha512_updates_absorb [OF assms] by simp
  show "s_h (sha512_pad (foldl SHA512_Update c ds)) = md_hash 128 fips_sha512_compress iv (fips_pad_128 (concat ds))"
    unfolding sha512_pad_absorbs [OF r]
    unfolding sha512_block_data_order_def SHA512_CBLOCK_def by (intro absorbed_md_hash sha512_one_fips)
  show "s_md_len (sha512_pad (foldl SHA512_Update c ds)) = n"
    using r by (simp add: sha512_pad_def Let_def sha512_rep_def sha512_holds_def)
qed

lemma sha512_init_rep:
  assumes "length (s_p c) = 128"
  shows "sha512_rep (s_h (SHA512_Init c)) 64 (SHA512_Init c) []" "sha512_rep (s_h (SHA384_Init c)) 48 (SHA384_Init c) []"
  using assms by (simp_all add: sha512_rep_def sha512_holds_def SHA512_Init_def SHA384_Init_def absorbed_def pending_def
      sha512.block_0 bit_count512_def SHA512_CBLOCK_def SHA512_DIGEST_LENGTH_def SHA384_DIGEST_LENGTH_def)

lemma SHA512_digests:
  assumes "length (s_p ctx) = 128" "list_all (\<lambda>d. length d < SIZE_LIMIT) ds"
  shows "fst (SHA512_Final out_null (foldl SHA512_Update (SHA512_Init ctx) ds))
      = (if out_null then None else Some (fips_sha512 [0x6a09e667f3bcc908, 0xbb67ae8584caa73b, 0x3c6ef372fe94f82b,
          0xa54ff53a5f1d36f1, 0x510e527fade682d1, 0x9b05688c2b3e6c1f, 0x1f83d9abfb41bd6b, 0x5be0cd19137e2179] 64 (concat ds)))"
    and "fst (SHA384_Final out_null (foldl SHA384_Update (SHA384_Init ctx) ds))
      = (if out_null then None else Some (fips_sha512 [0xcbbb9d5dc1059ed8, 0x629a292a367cd507, 0x9159015a3070dd17,
          0x152fecd8f70e5939, 0x67332667ffc00b31, 0x8eb44a8768581511, 0xdb0c2e0d64f98fa7, 0x47b5481dbefa4fa4] 48 (concat ds)))"
proof -
  have u: "SHA384_Update = SHA512_Update" by (intro ext) (simp add: SHA384_Update_def)
  note w = sha512_hash_words [OF sha512_init_rep(1) [OF assms(1)] assms(2)]
    sha512_hash_words [OF sha512_init_rep(2) [OF assms(1)] assms(2)]
  show "fst (SHA512_Final out_null (foldl SHA512_Update (SHA512_Init ctx) ds))
      = (if out_null then None else Some (fips_sha512 [0x6a09e667f3bcc908, 0xbb67ae8584caa73b, 0x3c6ef372fe94f82b,
          0xa54ff53a5f1d36f1, 0x510e527fade682d1, 0x9b05688c2b3e6c1f, 0x1f83d9abfb41bd6b, 0x5be0cd19137e2179] 64 (concat ds)))"
    unfolding SHA512_Final_def Let_def w
    by (simp add: fips_sha512_def u64_be_bytes_of SHA512_DIGEST_LENGTH_def SHA384_DIGEST_LENGTH_def SHA512_Init_def
        del: le_bytes_numeral)
  show "fst (SHA384_Final out_null (foldl SHA384_Update (SHA384_Init ctx) ds))
      = (if out_null then None else Some (fips_sha512 [0xcbbb9d5dc1059ed8, 0x629a292a367cd507, 0x9159015a3070dd17,
          0x152fecd8f70e5939, 0x67332667ffc00b31, 0x8eb44a8768581511, 0xdb0c2e0d64f98fa7, 0x47b5481dbefa4fa4] 48 (concat ds)))"
    unfolding SHA384_Final_def SHA512_Final_def u Let_def w
    by (simp add: fips_sha512_def u64_be_bytes_of SHA512_DIGEST_LENGTH_def SHA384_DIGEST_LENGTH_def SHA384_Init_def
        del: le_bytes_numeral)
qed

text \<open>C29: SHA-512 and SHA-384 are the digests of FIPS 180-4, from any prior contents of the context and over
  any division of the message into updates, with the bit count of 128 bits; finishing with no output buffer
  reports failure.\<close>

theorem SHA512_correct:
  assumes "length (s_p ctx) = 128" "list_all (\<lambda>d. length d < SIZE_LIMIT) ds"
  shows "(fst (SHA512_Final out_null (foldl SHA512_Update (SHA512_Init ctx) ds))
      = (if out_null then None else Some (fips_sha512 [0x6a09e667f3bcc908, 0xbb67ae8584caa73b, 0x3c6ef372fe94f82b,
          0xa54ff53a5f1d36f1, 0x510e527fade682d1, 0x9b05688c2b3e6c1f, 0x1f83d9abfb41bd6b, 0x5be0cd19137e2179] 64 (concat ds)))) \<and>
    (fst (SHA384_Final out_null (foldl SHA384_Update (SHA384_Init ctx) ds))
      = (if out_null then None else Some (fips_sha512 [0xcbbb9d5dc1059ed8, 0x629a292a367cd507, 0x9159015a3070dd17,
          0x152fecd8f70e5939, 0x67332667ffc00b31, 0x8eb44a8768581511, 0xdb0c2e0d64f98fa7, 0x47b5481dbefa4fa4] 48 (concat ds))))"
  by (intro conjI SHA512_digests assms)

definition uninitialised_ctx :: sha512_ctx where
  "uninitialised_ctx = \<lparr>s_h = [], s_Nl = 7, s_Nh = 8, s_p = replicate 128 9, s_num = 3, s_md_len = 0\<rparr>"

theorem SHA512_correct_witness:
  "fst (SHA512_Final False (foldl SHA512_Update (SHA512_Init uninitialised_ctx) [[0x61], [0x62, 0x63]]))
      = Some (fips_sha512 [0x6a09e667f3bcc908, 0xbb67ae8584caa73b, 0x3c6ef372fe94f82b,
          0xa54ff53a5f1d36f1, 0x510e527fade682d1, 0x9b05688c2b3e6c1f, 0x1f83d9abfb41bd6b, 0x5be0cd19137e2179] 64 [0x61, 0x62, 0x63])"
  using SHA512_correct [of uninitialised_ctx "[[0x61], [0x62, 0x63]]" False]
  by (simp add: SIZE_LIMIT_def uninitialised_ctx_def)

end
