(* ===== verification/Pb_Decode.thy ===== *)
theory Pb_Decode
  imports Pb_Wire Pb_Iter
begin

text \<open>
  The message decoder of nanopb (\<open>pb_decode.c\<close>). Message structures live in a byte memory that the
  decoder writes; descriptor tables are found by their address. The allocator, the decoding callbacks and
  the extension handlers are parameters that act on the stream and on the memory. A decoder returns \<open>None\<close>
  when the C code has no result: the nesting exceeds the fuel, a loop does not end, a field type has no
  decoder, a callback pointer has become NULL or a division by zero is reached.
\<close>

record dstate =
  dm_mem :: memory
  dm_heap :: "(u64 \<times> nat) list"

text \<open>
  \<open>de_local\<close> is the address of the local \<open>fixed_count_size\<close> of \<open>pb_decode_noinit\<close> at a nesting level,
  and \<open>dm_heap\<close> the state of the allocator.
\<close>

record dec_env =
  de_tabs :: "u64 \<Rightarrow> pb_field list"
  de_local :: "nat \<Rightarrow> u64"
  de_realloc :: "u64 \<Rightarrow> nat \<Rightarrow> dstate \<Rightarrow> u64 \<times> dstate"
  de_free :: "u64 \<Rightarrow> dstate \<Rightarrow> dstate"
  de_callback :: "u64 \<Rightarrow> pb_field \<Rightarrow> u64 \<Rightarrow> pb_istream \<Rightarrow> dstate \<Rightarrow> bool \<times> pb_istream \<times> dstate"
  de_extension ::
    "u64 \<Rightarrow> u64 \<Rightarrow> u32 \<Rightarrow> u32 \<Rightarrow> pb_istream \<Rightarrow> dstate \<Rightarrow> bool \<times> pb_istream \<times> dstate"

type_synonym dec = "pb_istream \<Rightarrow> dstate \<Rightarrow> (bool \<times> pb_istream \<times> dstate) option"

definition dec_fail :: "string \<Rightarrow> dec" where
  "dec_fail msg s d = Some (False, is_error s msg, d)"

subsection \<open>Stores\<close>

fun store_bytes :: "memory \<Rightarrow> u64 \<Rightarrow> u8 list \<Rightarrow> memory" where
  "store_bytes mem a [] = mem"
| "store_bytes mem a (b # bs) = store_bytes (mem(a := b)) (a + 1) bs"

definition put_bytes :: "u64 \<Rightarrow> u8 list \<Rightarrow> dstate \<Rightarrow> dstate" where
  "put_bytes a bs d = d\<lparr>dm_mem := store_bytes (dm_mem d) a bs\<rparr>"

definition put_bool :: "u64 \<Rightarrow> bool \<Rightarrow> dstate \<Rightarrow> dstate" where
  "put_bool a b = put_bytes a [if b then 1 else 0]"

definition put_u32 :: "u64 \<Rightarrow> u32 \<Rightarrow> dstate \<Rightarrow> dstate" where
  "put_u32 a w = put_bytes a (le_bytes 4 w)"

definition put_u64 :: "u64 \<Rightarrow> u64 \<Rightarrow> dstate \<Rightarrow> dstate" where
  "put_u64 a w = put_bytes a (le_bytes 8 w)"

abbreviation get_u32 :: "dstate \<Rightarrow> u64 \<Rightarrow> u32" where
  "get_u32 d a \<equiv> load_u32 (dm_mem d) a"

abbreviation get_u64 :: "dstate \<Rightarrow> u64 \<Rightarrow> u64" where
  "get_u64 d a \<equiv> load_u64 (dm_mem d) a"

subsection \<open>Scalar field decoders\<close>

definition pb_dec_bool :: "pb_field \<Rightarrow> u64 \<Rightarrow> dec" where
  "pb_dec_bool f dest s d =
     (case pb_decode_varint32 s of
        (None, s') \<Rightarrow> Some (False, s', d)
      | (Some value, s') \<Rightarrow> Some (True, s', put_bool dest (value \<noteq> 0) d))"

text \<open>
  \<open>clamped = *(T*)dest = (T)svalue\<close> for the width of the field: the stored bytes and the value read back,
  sign-extended or zero-extended to 64 bits.
\<close>

definition clamp_signed :: "u32 \<Rightarrow> u64 \<Rightarrow> (u8 list \<times> u64) option" where
  "clamp_signed sz v =
     (if sz = 8 then Some (le_bytes 8 v, v)
      else if sz = 4 then Some (le_bytes 4 v, scast (ucast v :: u32))
      else if sz = 2 then Some (le_bytes 2 v, scast (ucast v :: u16))
      else if sz = 1 then Some (le_bytes 1 v, scast (ucast v :: u8))
      else None)"

definition clamp_unsigned :: "u32 \<Rightarrow> u64 \<Rightarrow> (u8 list \<times> u64) option" where
  "clamp_unsigned sz v =
     (if sz = 8 then Some (le_bytes 8 v, v)
      else if sz = 4 then Some (le_bytes 4 v, ucast (ucast v :: u32))
      else if sz = 2 then Some (le_bytes 2 v, ucast (ucast v :: u16))
      else if sz = 1 then Some (le_bytes 1 v, ucast (ucast v :: u8))
      else None)"

definition store_clamped :: "(u8 list \<times> u64) option \<Rightarrow> u64 \<Rightarrow> u64 \<Rightarrow> dec" where
  "store_clamped c dest v s d =
     (case c of
        None \<Rightarrow> dec_fail ''invalid data_size'' s d
      | Some (bs, clamped) \<Rightarrow>
          if clamped \<noteq> v then dec_fail ''integer too large'' s (put_bytes dest bs d)
          else Some (True, s, put_bytes dest bs d))"

definition pb_dec_varint :: "pb_field \<Rightarrow> u64 \<Rightarrow> dec" where
  "pb_dec_varint f dest s d =
     (case pb_decode_varint s of
        (None, s') \<Rightarrow> Some (False, s', d)
      | (Some value, s') \<Rightarrow>
          let svalue = (if fd_data_size f = 8 then value else scast (ucast value :: u32))
          in store_clamped (clamp_signed (fd_data_size f) svalue) dest svalue s' d)"

definition pb_dec_uvarint :: "pb_field \<Rightarrow> u64 \<Rightarrow> dec" where
  "pb_dec_uvarint f dest s d =
     (case pb_decode_varint s of
        (None, s') \<Rightarrow> Some (False, s', d)
      | (Some value, s') \<Rightarrow> store_clamped (clamp_unsigned (fd_data_size f) value) dest value s' d)"

definition pb_dec_svarint :: "pb_field \<Rightarrow> u64 \<Rightarrow> dec" where
  "pb_dec_svarint f dest s d =
     (case pb_decode_svarint s of
        (None, s') \<Rightarrow> Some (False, s', d)
      | (Some value, s') \<Rightarrow> store_clamped (clamp_signed (fd_data_size f) value) dest value s' d)"

definition pb_dec_fixed32 :: "pb_field \<Rightarrow> u64 \<Rightarrow> dec" where
  "pb_dec_fixed32 f dest s d =
     (case pb_decode_fixed32 s of
        (None, s') \<Rightarrow> Some (False, s', d)
      | (Some w, s') \<Rightarrow> Some (True, s', put_u32 dest w d))"

definition pb_dec_fixed64 :: "pb_field \<Rightarrow> u64 \<Rightarrow> dec" where
  "pb_dec_fixed64 f dest s d =
     (case pb_decode_fixed64 s of
        (None, s') \<Rightarrow> Some (False, s', d)
      | (Some w, s') \<Rightarrow> Some (True, s', put_u64 dest w d))"

text \<open>\<open>pb_read\<close> into the memory. A failed read stores nothing: what a failing user callback leaves in
  the destination is not modelled.\<close>

definition pb_read_mem :: "u64 \<Rightarrow> nat \<Rightarrow> dec" where
  "pb_read_mem dest n s d =
     (case pb_read_buf s n of
        (ok, bs, s') \<Rightarrow> Some (ok, s', if ok then put_bytes dest (take n bs) d else d))"

definition allocate_field :: "dec_env \<Rightarrow> u64 \<Rightarrow> nat \<Rightarrow> nat \<Rightarrow> pb_istream \<Rightarrow> dstate
    \<Rightarrow> bool \<times> pb_istream \<times> dstate" where
  "allocate_field env pData data_size array_size s d =
     (let ptr = get_u64 d pData in
      if data_size = 0 \<or> array_size = 0 then (False, is_error s ''invalid size'', d)
      else if (data_size \<ge> 2 ^ 32 \<or> array_size \<ge> 2 ^ 32) \<and> (SIZE_LIMIT - 1) div array_size < data_size
      then (False, is_error s ''size too large'', d)
      else case de_realloc env ptr (size_mul array_size data_size) d of (p, d') \<Rightarrow>
        if p = 0 then (False, is_error s ''realloc failed'', d')
        else (True, s, put_u64 pData p d'))"

text \<open>A \<open>pb_bytes_array_t\<close> has its 32-bit size at 0 and its bytes at 4.\<close>

definition pb_dec_bytes :: "dec_env \<Rightarrow> pb_field \<Rightarrow> u64 \<Rightarrow> dec" where
  "pb_dec_bytes env f dest s d =
     (case pb_decode_varint32 s of
        (None, s') \<Rightarrow> Some (False, s', d)
      | (Some sz, s') \<Rightarrow>
          let alloc_size = size_add (unat sz) 4 in
          if unat sz > alloc_size then dec_fail ''size too large'' s' d
          else if PB_ATYPE (fd_type f) = PB_ATYPE_POINTER then
            (case allocate_field env dest alloc_size 1 s' d of (ok, s1, d1) \<Rightarrow>
               if \<not> ok then Some (False, s1, d1)
               else let bdest = get_u64 d1 dest
                    in pb_read_mem (bdest + 4) (unat sz) s1 (put_u32 bdest sz d1))
          else if alloc_size > unat (fd_data_size f) then dec_fail ''bytes overflow'' s' d
          else pb_read_mem (dest + 4) (unat sz) s' (put_u32 dest sz d))"

definition string_tail :: "u64 \<Rightarrow> u32 \<Rightarrow> dec" where
  "string_tail dest sz s d =
     (case pb_read_mem dest (unat sz) s d of
        None \<Rightarrow> None
      | Some (status, s', d') \<Rightarrow> Some (status, s', put_bytes (dest + ucast sz) [0] d'))"

definition pb_dec_string :: "dec_env \<Rightarrow> pb_field \<Rightarrow> u64 \<Rightarrow> dec" where
  "pb_dec_string env f dest s d =
     (case pb_decode_varint32 s of
        (None, s') \<Rightarrow> Some (False, s', d)
      | (Some sz, s') \<Rightarrow>
          let alloc_size = unat (sz + 1) in
          if alloc_size < unat sz then dec_fail ''size too large'' s' d
          else if PB_ATYPE (fd_type f) = PB_ATYPE_POINTER then
            (case allocate_field env dest alloc_size 1 s' d of (ok, s1, d1) \<Rightarrow>
               if \<not> ok then Some (False, s1, d1)
               else string_tail (get_u64 d1 dest) sz s1 d1)
          else if alloc_size > unat (fd_data_size f) then dec_fail ''string overflow'' s' d
          else string_tail dest sz s' d)"

definition pb_dec_fixed_length_bytes :: "pb_field \<Rightarrow> u64 \<Rightarrow> dec" where
  "pb_dec_fixed_length_bytes f dest s d =
     (case pb_decode_varint32 s of
        (None, s') \<Rightarrow> Some (False, s', d)
      | (Some sz, s') \<Rightarrow>
          if sz = 0 then Some (True, s', put_bytes dest (replicate (unat (fd_data_size f)) 0) d)
          else if sz \<noteq> fd_data_size f then dec_fail ''incorrect fixed length bytes size'' s' d
          else pb_read_mem dest (unat (fd_data_size f)) s' d)"

text \<open>\<open>pbd init\<close> is \<open>pb_decode\<close> (\<open>init\<close>) or \<open>pb_decode_noinit\<close>, called recursively.\<close>

definition pb_dec_submessage ::
  "dec_env \<Rightarrow> (bool \<Rightarrow> pb_field list \<Rightarrow> u64 \<Rightarrow> dec) \<Rightarrow> pb_field \<Rightarrow> u64 \<Rightarrow> dec" where
  "pb_dec_submessage env pbd f dest s d =
     (case pb_make_string_substream s of
        (None, s') \<Rightarrow> Some (False, s', d)
      | (Some sub, s') \<Rightarrow>
          if fd_ptr f = 0 then dec_fail ''invalid field descriptor'' s' d
          else (case pbd (PB_HTYPE (fd_type f) = PB_HTYPE_REPEATED) (de_tabs env (fd_ptr f)) dest sub d of
                  None \<Rightarrow> None
                | Some (status, sub', d') \<Rightarrow>
                    (case pb_close_string_substream s' sub' of
                       (ok, s'') \<Rightarrow> Some (ok \<and> status, s'', d'))))"

definition PB_DECODERS ::
  "dec_env \<Rightarrow> (bool \<Rightarrow> pb_field list \<Rightarrow> u64 \<Rightarrow> dec) \<Rightarrow> pb_field \<Rightarrow> u64 \<Rightarrow> dec" where
  "PB_DECODERS env pbd f dest =
     (let t = PB_LTYPE (fd_type f) in
      if t = PB_LTYPE_BOOL then pb_dec_bool f dest
      else if t = PB_LTYPE_VARINT then pb_dec_varint f dest
      else if t = PB_LTYPE_UVARINT then pb_dec_uvarint f dest
      else if t = PB_LTYPE_SVARINT then pb_dec_svarint f dest
      else if t = PB_LTYPE_FIXED32 then pb_dec_fixed32 f dest
      else if t = PB_LTYPE_FIXED64 then pb_dec_fixed64 f dest
      else if t = PB_LTYPE_BYTES then pb_dec_bytes env f dest
      else if t = PB_LTYPE_STRING then pb_dec_string env f dest
      else if t = PB_LTYPE_SUBMESSAGE then pb_dec_submessage env pbd f dest
      else if t = PB_LTYPE_FIXED_LENGTH_BYTES then pb_dec_fixed_length_bytes f dest
      else (\<lambda>s d. None))"

subsection \<open>Extensions, defaults and release\<close>

text \<open>\<open>pb_extension_t\<close>: type at 0, dest at 8, next at 16, found at 24; \<open>pb_extension_type_t\<close>: decode
  at 0, encode at 8, arg at 16. The loop over an extension list:\<close>

partial_function (option) extension_walk ::
  "(u64 \<Rightarrow> dstate \<Rightarrow> dstate option) \<Rightarrow> u64 \<Rightarrow> dstate \<Rightarrow> dstate option" where
  "extension_walk body ext d =
     (if ext = 0 then Some d
      else case body ext d of
        None \<Rightarrow> None
      | Some d' \<Rightarrow> extension_walk body (load_u64 (dm_mem d') (ext + 16)) d')"

definition extension_field :: "dec_env \<Rightarrow> u64 \<Rightarrow> dstate \<Rightarrow> pb_field list" where
  "extension_field env ext d = de_tabs env (get_u64 d (get_u64 d ext + 16))"

definition iter_from_extension :: "dec_env \<Rightarrow> u64 \<Rightarrow> dstate \<Rightarrow> pb_field_iter" where
  "iter_from_extension env ext d =
     (let tbl = extension_field env ext d;
          it = snd (pb_field_iter_begin tbl (get_u64 d (ext + 8)));
          it1 = it\<lparr>it_pData := get_u64 d (ext + 8), it_pSize := ext + 24\<rparr>
      in if PB_ATYPE (fd_type (field_at tbl 0)) = PB_ATYPE_POINTER then it1\<lparr>it_pData := ext + 8\<rparr> else it1)"

definition message_walk ::
  "(pb_field_iter \<Rightarrow> dstate \<Rightarrow> dstate option) \<Rightarrow> pb_field list \<Rightarrow> u64 \<Rightarrow> dstate \<Rightarrow> dstate option" where
  "message_walk body tbl dest d =
     (case pb_field_iter_begin tbl dest of
        (False, _) \<Rightarrow> Some d
      | (True, it) \<Rightarrow>
          map_option snd (iter_while (\<lambda>it d. map_option (\<lambda>d'. (True, d')) (body it d)) it d))"

fun pb_field_set_to_default :: "dec_env \<Rightarrow> nat \<Rightarrow> pb_field_iter \<Rightarrow> dstate \<Rightarrow> dstate option" where
  "pb_field_set_to_default env 0 it d = None"
| "pb_field_set_to_default env (Suc n) it d =
     (let f = it_field it; type = fd_type f; pData = it_pData it; pSize = it_pSize it in
      if PB_LTYPE type = PB_LTYPE_EXTENSION then
        extension_walk (\<lambda>ext d.
            let d1 = put_bool (ext + 24) False d
            in pb_field_set_to_default env n (iter_from_extension env ext d1) d1)
          (get_u64 d pData) d
      else if PB_ATYPE type = PB_ATYPE_STATIC then
        (if PB_HTYPE type = PB_HTYPE_REPEATED \<or> PB_HTYPE type = PB_HTYPE_ONEOF
         then Some (put_u32 pSize 0 d)
         else
           let d1 = (if PB_HTYPE type = PB_HTYPE_OPTIONAL \<and> pSize \<noteq> pData then put_bool pSize False d else d)
           in if PB_LTYPE type = PB_LTYPE_SUBMESSAGE
              then message_walk (pb_field_set_to_default env n) (de_tabs env (fd_ptr f)) pData d1
              else if fd_ptr f \<noteq> 0
              then Some (put_bytes pData (load_bytes (dm_mem d1) (fd_ptr f) (unat (fd_data_size f))) d1)
              else Some (put_bytes pData (replicate (unat (fd_data_size f)) 0) d1))
      else if PB_ATYPE type = PB_ATYPE_POINTER then
        (let d1 = put_u64 pData 0 d
         in Some (if PB_HTYPE type = PB_HTYPE_REPEATED \<or> PB_HTYPE type = PB_HTYPE_ONEOF
                  then put_u32 pSize 0 d1 else d1))
      else Some d)"

definition pb_message_set_to_defaults ::
  "dec_env \<Rightarrow> nat \<Rightarrow> pb_field list \<Rightarrow> u64 \<Rightarrow> dstate \<Rightarrow> dstate option" where
  "pb_message_set_to_defaults env n = message_walk (pb_field_set_to_default env n)"

text \<open>The loops \<open>while (count--)\<close> of the release functions.\<close>

fun release_items :: "(u64 \<Rightarrow> dstate \<Rightarrow> dstate option) \<Rightarrow> u64 \<Rightarrow> u64 \<Rightarrow> nat \<Rightarrow> dstate \<Rightarrow> dstate option"
where
  "release_items rel p step 0 d = Some d"
| "release_items rel p step (Suc k) d =
     (case rel p d of None \<Rightarrow> None | Some d' \<Rightarrow> release_items rel (p + step) step k d')"

definition free_entry :: "dec_env \<Rightarrow> u64 \<Rightarrow> dstate \<Rightarrow> dstate option" where
  "free_entry env p d = Some (put_u64 p 0 (de_free env (get_u64 d p) d))"

definition release_count :: "pb_field_iter \<Rightarrow> dstate \<Rightarrow> u32" where
  "release_count it d =
     (let f = it_field it; type = fd_type f;
          static = (PB_ATYPE type = PB_ATYPE_STATIC)
      in if PB_HTYPE type = PB_HTYPE_REPEATED then
           (let count = (if static \<and> it_pSize it = it_pData it then fd_array_size f
                         else get_u32 d (it_pSize it))
            in if static \<and> count > fd_array_size f then fd_array_size f else count)
         else 1)"

definition release_pointer :: "dec_env \<Rightarrow> pb_field_iter \<Rightarrow> dstate \<Rightarrow> dstate option" where
  "release_pointer env it d =
     (let type = fd_type (it_field it); pData = it_pData it; pSize = it_pSize it in
      case (if PB_HTYPE type = PB_HTYPE_REPEATED \<and>
               (PB_LTYPE type = PB_LTYPE_STRING \<or> PB_LTYPE type = PB_LTYPE_BYTES)
            then release_items (free_entry env) (get_u64 d pData) 8 (unat (get_u32 d pSize)) d
            else Some d) of
        None \<Rightarrow> None
      | Some d1 \<Rightarrow>
          let d2 = (if PB_HTYPE type = PB_HTYPE_REPEATED then put_u32 pSize 0 d1 else d1)
          in Some (put_u64 pData 0 (de_free env (get_u64 d2 pData) d2)))"

definition pb_release_with ::
  "(pb_field_iter \<Rightarrow> dstate \<Rightarrow> dstate option) \<Rightarrow> pb_field list \<Rightarrow> u64 \<Rightarrow> dstate \<Rightarrow> dstate option" where
  "pb_release_with single tbl dest d = (if dest = 0 then Some d else message_walk single tbl dest d)"

fun pb_release_single_field :: "dec_env \<Rightarrow> nat \<Rightarrow> pb_field_iter \<Rightarrow> dstate \<Rightarrow> dstate option" where
  "pb_release_single_field env 0 it d = None"
| "pb_release_single_field env (Suc n) it d =
     (let f = it_field it; type = fd_type f; pData = it_pData it; pSize = it_pSize it in
      if PB_HTYPE type = PB_HTYPE_ONEOF \<and> get_u32 d pSize \<noteq> fd_tag f then Some d
      else
        case (if PB_LTYPE type = PB_LTYPE_EXTENSION then
                extension_walk (\<lambda>ext d. pb_release_single_field env n (iter_from_extension env ext d) d)
                  (get_u64 d pData) d
              else if PB_LTYPE type = PB_LTYPE_SUBMESSAGE \<and> PB_ATYPE type \<noteq> PB_ATYPE_CALLBACK then
                (let pItem = (if PB_ATYPE type = PB_ATYPE_POINTER then get_u64 d pData else pData) in
                 if pItem = 0 then Some d
                 else release_items
                        (pb_release_with (pb_release_single_field env n) (de_tabs env (fd_ptr f)))
                        pItem (ucast (fd_data_size f)) (unat (release_count it d)) d)
              else Some d) of
          None \<Rightarrow> None
        | Some d1 \<Rightarrow> if PB_ATYPE type = PB_ATYPE_POINTER then release_pointer env it d1 else Some d1)"

definition pb_release :: "dec_env \<Rightarrow> nat \<Rightarrow> pb_field list \<Rightarrow> u64 \<Rightarrow> dstate \<Rightarrow> dstate option" where
  "pb_release env n = pb_release_with (pb_release_single_field env n)"

text \<open>The iterator is moved to the old field and back.\<close>

definition pb_release_union_field ::
  "dec_env \<Rightarrow> nat \<Rightarrow> pb_field_iter \<Rightarrow> pb_istream \<Rightarrow> dstate
     \<Rightarrow> (bool \<times> pb_field_iter \<times> pb_istream \<times> dstate) option" where
  "pb_release_union_field env n it s d =
     (let old_tag = get_u32 d (it_pSize it); new_tag = fd_tag (it_field it) in
      if old_tag = 0 \<or> old_tag = new_tag then Some (True, it, s, d)
      else case pb_field_iter_find it old_tag of
        None \<Rightarrow> None
      | Some (False, it1) \<Rightarrow> Some (False, it1, is_error s ''invalid union tag'', d)
      | Some (True, it1) \<Rightarrow>
          (case pb_release_single_field env n it1 d of
             None \<Rightarrow> None
           | Some d1 \<Rightarrow>
               (case pb_field_iter_find it1 new_tag of
                  None \<Rightarrow> None
                | Some (False, it2) \<Rightarrow> Some (False, it2, is_error s ''iterator error'', d1)
                | Some (True, it2) \<Rightarrow> Some (True, it2, s, d1))))"

subsection \<open>One field\<close>

type_synonym pbd = "bool \<Rightarrow> pb_field list \<Rightarrow> u64 \<Rightarrow> dec"

definition array_item :: "pb_field \<Rightarrow> u64 \<Rightarrow> u32 \<Rightarrow> u64" where
  "array_item f pData i = pData + ucast (fd_data_size f * i)"

text \<open>The loop over a packed static array: (status, substream, memory).\<close>

partial_function (option) static_packed_loop :: "(u64 \<Rightarrow> dec) \<Rightarrow> pb_field \<Rightarrow> u64 \<Rightarrow> u64 \<Rightarrow> dec" where
  "static_packed_loop func f pData count_p sub d =
     (if is_bytes_left sub > 0 \<and> get_u32 d count_p < fd_array_size f then
        (case func (array_item f pData (get_u32 d count_p)) sub d of
           None \<Rightarrow> None
         | Some (ok, sub', d') \<Rightarrow>
             if \<not> ok then Some (False, sub', d')
             else static_packed_loop func f pData count_p sub' (put_u32 count_p (get_u32 d' count_p + 1) d'))
      else Some (True, sub, d))"

definition decode_static_field :: "dec_env \<Rightarrow> nat \<Rightarrow> pbd \<Rightarrow> u32 \<Rightarrow> pb_field_iter \<Rightarrow> dec" where
  "decode_static_field env n pbd wire_type it s d =
     (let f = it_field it; type = fd_type f; func = PB_DECODERS env pbd f;
          pData = it_pData it; pSize = it_pSize it
      in
      if PB_HTYPE type = PB_HTYPE_REQUIRED then func pData s d
      else if PB_HTYPE type = PB_HTYPE_OPTIONAL then
        func pData s (if pSize \<noteq> pData then put_bool pSize True d else d)
      else if PB_HTYPE type = PB_HTYPE_REPEATED then
        (if wire_type = wire_code PB_WT_STRING \<and> PB_LTYPE type \<le> PB_LTYPE_LAST_PACKABLE then
           (case pb_make_string_substream s of
              (None, s1) \<Rightarrow> Some (False, s1, d)
            | (Some sub, s1) \<Rightarrow>
                (case static_packed_loop func f pData pSize sub d of
                   None \<Rightarrow> None
                 | Some (status, sub1, d1) \<Rightarrow>
                     if is_bytes_left sub1 \<noteq> 0 then dec_fail ''array overflow'' s1 d1
                     else (case pb_close_string_substream s1 sub1 of
                             (ok, s2) \<Rightarrow> Some (ok \<and> status, s2, d1))))
         else
           (let count = get_u32 d pSize;
                d1 = put_u32 pSize (count + 1) d
            in if count \<ge> fd_array_size f then dec_fail ''array overflow'' s d1
               else func (array_item f pData count) s d1))
      else
        (let d1 = put_u32 pSize (fd_tag f) d in
         case (if PB_LTYPE type = PB_LTYPE_SUBMESSAGE
               then pb_message_set_to_defaults env n (de_tabs env (fd_ptr f)) pData
                      (put_bytes pData (replicate (unat (fd_data_size f)) 0) d1)
               else Some d1) of
           None \<Rightarrow> None
         | Some d2 \<Rightarrow> func pData s d2))"

definition initialize_pointer_field ::
  "dec_env \<Rightarrow> nat \<Rightarrow> u64 \<Rightarrow> pb_field \<Rightarrow> dstate \<Rightarrow> dstate option" where
  "initialize_pointer_field env n pItem f d =
     (let t = PB_LTYPE (fd_type f) in
      if t = PB_LTYPE_STRING \<or> t = PB_LTYPE_BYTES then Some (put_u64 pItem 0 d)
      else if t = PB_LTYPE_SUBMESSAGE
      then pb_message_set_to_defaults env n (de_tabs env (fd_ptr f)) pItem
             (put_bytes pItem (replicate (unat (fd_data_size f)) 0) d)
      else Some d)"

text \<open>
  The loop over a packed allocated array: (status, parent stream, substream, memory). The parent stream
  receives the error text of an array that is too long; \<open>allocated_size\<close> never exceeds \<open>PB_SIZE_MAX\<close>
  when more is needed, so that the subtraction is exact.
\<close>

partial_function (option) pointer_packed_loop ::
  "dec_env \<Rightarrow> nat \<Rightarrow> (u64 \<Rightarrow> dec) \<Rightarrow> pb_field \<Rightarrow> u64 \<Rightarrow> u64 \<Rightarrow> nat \<Rightarrow> pb_istream \<Rightarrow> pb_istream \<Rightarrow> dstate
     \<Rightarrow> (bool \<times> pb_istream \<times> pb_istream \<times> dstate) option" where
  "pointer_packed_loop env n func f pData count_p allocated s sub d =
     (if is_bytes_left sub = 0 then Some (True, s, sub, d)
      else if get_u32 d count_p = - 1
      then Some (False, s\<lparr>is_errmsg := Some ''too many array entries''\<rparr>, sub, d)
      else
        let grow = (unat (get_u32 d count_p) + 1 > allocated);
            remain = (is_bytes_left sub - 1) div unat (fd_data_size f) + 1;
            allocated1 = (if grow then allocated + (if remain < 2 ^ 32 - 1 - allocated then remain else 1)
                          else allocated)
        in if grow \<and> fd_data_size f = 0 then None
        else
          case (if grow then allocate_field env pData (unat (fd_data_size f)) allocated1 sub d
                else (True, sub, d)) of
            (ok, sub1, d1) \<Rightarrow>
              if \<not> ok then Some (False, s, sub1, d1)
              else
                let pItem = array_item f (get_u64 d1 pData) (get_u32 d1 count_p) in
                case initialize_pointer_field env n pItem f d1 of
                  None \<Rightarrow> None
                | Some d2 \<Rightarrow>
                    (case func pItem sub1 d2 of
                       None \<Rightarrow> None
                     | Some (ok2, sub2, d3) \<Rightarrow>
                         if \<not> ok2 then Some (False, s, sub2, d3)
                         else pointer_packed_loop env n func f pData count_p allocated1 s sub2
                                (put_u32 count_p (get_u32 d3 count_p + 1) d3)))"

definition decode_pointer_single :: "dec_env \<Rightarrow> nat \<Rightarrow> pbd \<Rightarrow> pb_field_iter \<Rightarrow> dec" where
  "decode_pointer_single env n pbd it s d =
     (let f = it_field it; type = fd_type f; func = PB_DECODERS env pbd f; pData = it_pData it in
      case (if PB_LTYPE type = PB_LTYPE_SUBMESSAGE \<and> get_u64 d pData \<noteq> 0
            then pb_release_single_field env n it d else Some d) of
        None \<Rightarrow> None
      | Some d1 \<Rightarrow>
          let d2 = (if PB_HTYPE type = PB_HTYPE_ONEOF then put_u32 (it_pSize it) (fd_tag f) d1 else d1) in
          if PB_LTYPE type = PB_LTYPE_STRING \<or> PB_LTYPE type = PB_LTYPE_BYTES then func pData s d2
          else (case allocate_field env pData (unat (fd_data_size f)) 1 s d2 of (ok, s1, d3) \<Rightarrow>
                  if \<not> ok then Some (False, s1, d3)
                  else case initialize_pointer_field env n (get_u64 d3 pData) f d3 of
                    None \<Rightarrow> None
                  | Some d4 \<Rightarrow> func (get_u64 d4 pData) s1 d4))"

definition decode_pointer_field :: "dec_env \<Rightarrow> nat \<Rightarrow> pbd \<Rightarrow> u32 \<Rightarrow> pb_field_iter \<Rightarrow> dec" where
  "decode_pointer_field env n pbd wire_type it s d =
     (let f = it_field it; type = fd_type f; func = PB_DECODERS env pbd f;
          pData = it_pData it; pSize = it_pSize it
      in
      if PB_HTYPE type \<noteq> PB_HTYPE_REPEATED then decode_pointer_single env n pbd it s d
      else if wire_type = wire_code PB_WT_STRING \<and> PB_LTYPE type \<le> PB_LTYPE_LAST_PACKABLE then
        (let allocated = unat (get_u32 d pSize) in
         case pb_make_string_substream s of
           (None, s1) \<Rightarrow> Some (False, s1, d)
         | (Some sub, s1) \<Rightarrow>
             (case pointer_packed_loop env n func f pData pSize allocated s1 sub d of
                None \<Rightarrow> None
              | Some (status, s2, sub1, d1) \<Rightarrow>
                  (case pb_close_string_substream s2 sub1 of
                     (ok, s3) \<Rightarrow> Some (ok \<and> status, s3, d1))))
      else if get_u32 d pSize = - 1 then dec_fail ''too many array entries'' s d
      else
        (case allocate_field env pData (unat (fd_data_size f)) (unat (get_u32 d pSize + 1)) s d of
           (ok, s1, d1) \<Rightarrow>
             if \<not> ok then Some (False, s1, d1)
             else
               let count = get_u32 d1 pSize;
                   pItem = array_item f (get_u64 d1 pData) count;
                   d2 = put_u32 pSize (count + 1) d1
               in case initialize_pointer_field env n pItem f d2 of
                    None \<Rightarrow> None
                  | Some d3 \<Rightarrow> func pItem s1 d3))"

text \<open>\<open>pb_callback_t\<close>: the function at 0, its argument at 8. The loop reloads the function.\<close>

partial_function (option) callback_loop ::
  "dec_env \<Rightarrow> pb_field \<Rightarrow> u64 \<Rightarrow> dec" where
  "callback_loop env f pData sub d =
     (if get_u64 d pData = 0 then None
      else case de_callback env (get_u64 d pData) f (pData + 8) sub d of
        (ok, sub', d') \<Rightarrow>
          if \<not> ok then Some (False, sub', d')
          else if is_bytes_left sub' > 0 then callback_loop env f pData sub' d'
          else Some (True, sub', d'))"

definition decode_callback_field :: "dec_env \<Rightarrow> u32 \<Rightarrow> pb_field_iter \<Rightarrow> dec" where
  "decode_callback_field env wire_type it s d =
     (let f = it_field it; pData = it_pData it in
      if pData = 0 \<or> get_u64 d pData = 0
      then (case pb_skip_field s wire_type of (ok, s1) \<Rightarrow> Some (ok, s1, d))
      else if wire_type = wire_code PB_WT_STRING then
        (case pb_make_string_substream s of
           (None, s1) \<Rightarrow> Some (False, s1, d)
         | (Some sub, s1) \<Rightarrow>
             (case callback_loop env f pData sub d of
                None \<Rightarrow> None
              | Some (ok, sub1, d1) \<Rightarrow>
                  if \<not> ok then dec_fail ''callback failed'' s1 d1
                  else (case pb_close_string_substream s1 sub1 of (ok2, s2) \<Rightarrow> Some (ok2, s2, d1))))
      else
        (case read_raw_value s wire_type 10 of
           (None, s1) \<Rightarrow> Some (False, s1, d)
         | (Some buffer, s1) \<Rightarrow>
             (case de_callback env (get_u64 d pData) f (pData + 8)
                     (pb_istream_from_buffer buffer (length buffer)) d of
                (ok, _, d1) \<Rightarrow> Some (ok, s1, d1))))"

text \<open>\<open>decode_field\<close> also returns the iterator, which releasing a union moves and restores.\<close>

definition decode_field :: "dec_env \<Rightarrow> nat \<Rightarrow> pbd \<Rightarrow> u32 \<Rightarrow> pb_field_iter \<Rightarrow> pb_istream \<Rightarrow> dstate
    \<Rightarrow> (bool \<times> pb_field_iter \<times> pb_istream \<times> dstate) option" where
  "decode_field env n pbd wire_type it s d =
     (case (if PB_HTYPE (fd_type (it_field it)) = PB_HTYPE_ONEOF then pb_release_union_field env n it s d
            else Some (True, it, s, d)) of
        None \<Rightarrow> None
      | Some (False, it1, s1, d1) \<Rightarrow> Some (False, it1, s1, d1)
      | Some (True, it1, s1, d1) \<Rightarrow>
          let atype = PB_ATYPE (fd_type (it_field it1)) in
          map_option (\<lambda>(ok, s2, d2). (ok, it1, s2, d2))
            (if atype = PB_ATYPE_STATIC then decode_static_field env n pbd wire_type it1 s1 d1
             else if atype = PB_ATYPE_POINTER then decode_pointer_field env n pbd wire_type it1 s1 d1
             else if atype = PB_ATYPE_CALLBACK then decode_callback_field env wire_type it1 s1 d1
             else dec_fail ''invalid field type'' s1 d1))"

definition default_extension_decoder :: "dec_env \<Rightarrow> nat \<Rightarrow> pbd \<Rightarrow> u64 \<Rightarrow> u32 \<Rightarrow> u32 \<Rightarrow> dec" where
  "default_extension_decoder env n pbd ext tag wire_type s d =
     (if fd_tag (field_at (extension_field env ext d) 0) \<noteq> tag then Some (True, s, d)
      else map_option (\<lambda>(ok, _, s1, d1). (ok, s1, d1))
             (decode_field env n pbd wire_type (iter_from_extension env ext d) s (put_bool (ext + 24) True d)))"

partial_function (option) extension_decode_loop ::
  "dec_env \<Rightarrow> nat \<Rightarrow> pbd \<Rightarrow> u32 \<Rightarrow> u32 \<Rightarrow> nat \<Rightarrow> u64 \<Rightarrow> dec" where
  "extension_decode_loop env n pbd tag wire_type pos ext s d =
     (if ext \<noteq> 0 \<and> pos = is_bytes_left s then
        (let fn = get_u64 d (get_u64 d ext) in
         case (if fn \<noteq> 0 then Some (de_extension env fn ext tag wire_type s d)
               else default_extension_decoder env n pbd ext tag wire_type s d) of
           None \<Rightarrow> None
         | Some (ok, s1, d1) \<Rightarrow>
             if \<not> ok then Some (False, s1, d1)
             else extension_decode_loop env n pbd tag wire_type pos (load_u64 (dm_mem d1) (ext + 16)) s1 d1)
      else Some (True, s, d))"

definition decode_extension :: "dec_env \<Rightarrow> nat \<Rightarrow> pbd \<Rightarrow> u32 \<Rightarrow> u32 \<Rightarrow> pb_field_iter \<Rightarrow> dec" where
  "decode_extension env n pbd tag wire_type it s d =
     extension_decode_loop env n pbd tag wire_type (is_bytes_left s) (get_u64 d (it_pData it)) s d"

partial_function (option) find_extension_loop :: "nat \<Rightarrow> pb_field_iter \<Rightarrow> (bool \<times> pb_field_iter) option"
where
  "find_extension_loop start it =
     (if PB_LTYPE (fd_type (it_field it)) = PB_LTYPE_EXTENSION then Some (True, it)
      else let it' = snd (pb_field_iter_next it) in
           if it_pos it' \<noteq> start then find_extension_loop start it' else Some (False, it'))"

definition find_extension_field :: "pb_field_iter \<Rightarrow> (bool \<times> pb_field_iter) option" where
  "find_extension_field it = find_extension_loop (it_pos it) it"

subsection \<open>The message loop\<close>

text \<open>The locals of \<open>pb_decode_noinit\<close>; \<open>ms_fixed\<close> is the position of \<open>fixed_count_field\<close>.\<close>

record msg_state =
  ms_stream :: pb_istream
  ms_dm :: dstate
  ms_iter :: pb_field_iter
  ms_seen :: "u32 list"
  ms_ext_start :: u32
  ms_fixed :: "nat option"

datatype msg_control = Continue | Break | Return_false

definition fixed_count_ok :: "u64 \<Rightarrow> msg_state \<Rightarrow> bool" where
  "fixed_count_ok count m =
     (case ms_fixed m of None \<Rightarrow> True
      | Some i \<Rightarrow> get_u32 (ms_dm m) count = fd_array_size (field_at (it_start (ms_iter m)) i))"

definition msg_fail :: "string \<Rightarrow> msg_state \<Rightarrow> (msg_control \<times> msg_state) option" where
  "msg_fail msg m = Some (Return_false, m\<lparr>ms_stream := is_error (ms_stream m) msg\<rparr>)"

text \<open>A tag that no field has: the extension fields, then skipping.\<close>

definition msg_skip :: "u32 \<Rightarrow> msg_state \<Rightarrow> (msg_control \<times> msg_state) option" where
  "msg_skip wire_type m =
     (case pb_skip_field (ms_stream m) wire_type of
        (ok, s1) \<Rightarrow> Some (if ok then Continue else Return_false, m\<lparr>ms_stream := s1\<rparr>))"

definition msg_unknown :: "dec_env \<Rightarrow> nat \<Rightarrow> pbd \<Rightarrow> u32 \<Rightarrow> u32 \<Rightarrow> msg_state
    \<Rightarrow> (msg_control \<times> msg_state) option" where
  "msg_unknown env n pbd tag wire_type m =
     (if tag \<ge> ms_ext_start m then
        (case find_extension_field (ms_iter m) of
           None \<Rightarrow> None
         | Some (found, it1) \<Rightarrow>
             let m1 = m\<lparr>ms_iter := it1,
                        ms_ext_start := (if found then fd_tag (it_field it1) else - 1)\<rparr>
             in if tag \<ge> ms_ext_start m1 then
                  (case decode_extension env n pbd tag wire_type it1 (ms_stream m1) (ms_dm m1) of
                     None \<Rightarrow> None
                   | Some (ok, s2, d2) \<Rightarrow>
                       let m2 = m1\<lparr>ms_stream := s2, ms_dm := d2\<rparr> in
                       if \<not> ok then Some (Return_false, m2)
                       else if is_bytes_left s2 \<noteq> is_bytes_left (ms_stream m1) then Some (Continue, m2)
                       else msg_skip wire_type m2)
                else msg_skip wire_type m1)
      else msg_skip wire_type m)"

text \<open>The bookkeeping of fixed-count arrays: \<open>False\<close> when the previous one is incomplete.\<close>

definition msg_fixed_count :: "u64 \<Rightarrow> msg_state \<Rightarrow> bool \<times> msg_state" where
  "msg_fixed_count count m =
     (let it = ms_iter m in
      if PB_HTYPE (fd_type (it_field it)) = PB_HTYPE_REPEATED \<and> it_pSize it = it_pData it then
        (if ms_fixed m \<noteq> Some (it_pos it) then
           (if \<not> fixed_count_ok count m then (False, m)
            else (True, m\<lparr>ms_fixed := Some (it_pos it), ms_dm := put_u32 count 0 (ms_dm m),
                          ms_iter := it\<lparr>it_pSize := count\<rparr>\<rparr>))
         else (True, m\<lparr>ms_iter := it\<lparr>it_pSize := count\<rparr>\<rparr>))
      else (True, m))"

definition PB_MAX_REQUIRED_FIELDS :: nat where
  "PB_MAX_REQUIRED_FIELDS = 64"

definition mark_seen :: "u32 \<Rightarrow> u32 list \<Rightarrow> u32 list" where
  "mark_seen i seen =
     seen[unat (drop_bit 5 i) := (seen ! unat (drop_bit 5 i)) OR push_bit (unat (i AND 31)) 1]"

definition msg_mark :: "msg_state \<Rightarrow> msg_state" where
  "msg_mark m =
     (let it = ms_iter m in
      if PB_HTYPE (fd_type (it_field it)) = PB_HTYPE_REQUIRED \<and>
         unat (it_required_field_index it) < PB_MAX_REQUIRED_FIELDS
      then m\<lparr>ms_seen := mark_seen (it_required_field_index it) (ms_seen m)\<rparr> else m)"

definition msg_step :: "dec_env \<Rightarrow> nat \<Rightarrow> pbd \<Rightarrow> msg_state \<Rightarrow> (msg_control \<times> msg_state) option" where
  "msg_step env n pbd m =
     (case pb_decode_tag (ms_stream m) of
        (False, _, _, eof, s1) \<Rightarrow> Some (if eof then Break else Return_false, m\<lparr>ms_stream := s1\<rparr>)
      | (True, wire_type, tag, _, s1) \<Rightarrow>
          let m1 = m\<lparr>ms_stream := s1\<rparr> in
          (case pb_field_iter_find (ms_iter m1) tag of
             None \<Rightarrow> None
           | Some (False, it1) \<Rightarrow> msg_unknown env n pbd tag wire_type (m1\<lparr>ms_iter := it1\<rparr>)
           | Some (True, it1) \<Rightarrow>
               (case msg_fixed_count (de_local env n) (m1\<lparr>ms_iter := it1\<rparr>) of
                  (False, m2) \<Rightarrow> msg_fail ''wrong size for fixed count field'' m2
                | (True, m2) \<Rightarrow>
                    let m3 = msg_mark m2 in
                    (case decode_field env n pbd wire_type (ms_iter m3) (ms_stream m3) (ms_dm m3) of
                       None \<Rightarrow> None
                     | Some (ok, it4, s4, d4) \<Rightarrow>
                         Some (if ok then Continue else Return_false,
                               m3\<lparr>ms_iter := it4, ms_stream := s4, ms_dm := d4\<rparr>)))))"

partial_function (option) msg_loop ::
  "dec_env \<Rightarrow> nat \<Rightarrow> pbd \<Rightarrow> msg_state \<Rightarrow> (bool \<times> msg_state) option" where
  "msg_loop env n pbd m =
     (if is_bytes_left (ms_stream m) = 0 then Some (True, m)
      else case msg_step env n pbd m of
        None \<Rightarrow> None
      | Some (c, m1) \<Rightarrow>
          (case c of
             Continue \<Rightarrow> msg_loop env n pbd m1
           | Break \<Rightarrow> Some (True, m1)
           | Return_false \<Rightarrow> Some (False, m1)))"

text \<open>Seeking to the end of the field array: the last index and type before the iterator wraps, and it.\<close>

function seek_end :: "pb_field_iter \<Rightarrow> u32 \<times> u8 \<times> pb_field_iter" where
  "seek_end it =
     (case pb_field_iter_next it of
        (True, it') \<Rightarrow> seek_end it'
      | (False, it') \<Rightarrow> (it_required_field_index it, fd_type (it_field it), it'))"
  by pat_completeness auto
termination
  by (relation "measure (\<lambda>it. length (it_start it) - it_pos it)")
     (auto dest!: sym [THEN pb_field_iter_next_pos])

declare seek_end.simps [simp del]

definition required_field_count :: "pb_field_iter \<Rightarrow> nat" where
  "required_field_count it =
     (case seek_end it of (idx, last_type, it') \<Rightarrow>
        min PB_MAX_REQUIRED_FIELDS
          (unat (if PB_HTYPE last_type = PB_HTYPE_REQUIRED \<and> fd_tag (it_field it') \<noteq> 0
                 then idx + 1 else idx)))"

definition required_fields_seen :: "u32 list \<Rightarrow> nat \<Rightarrow> bool" where
  "required_fields_seen seen count \<longleftrightarrow>
     list_all (\<lambda>i. seen ! i = NOT 0) [0..<count div 32] \<and>
     (count mod 32 = 0 \<or> seen ! (count div 32) = drop_bit (32 - count mod 32) (NOT 0))"

definition msg_finish :: "u64 \<Rightarrow> msg_state \<Rightarrow> bool \<times> pb_istream \<times> dstate" where
  "msg_finish count m =
     (if \<not> fixed_count_ok count m
      then (False, is_error (ms_stream m) ''wrong size for fixed count field'', ms_dm m)
      else if \<not> required_fields_seen (ms_seen m) (required_field_count (ms_iter m))
      then (False, is_error (ms_stream m) ''missing required field'', ms_dm m)
      else (True, ms_stream m, ms_dm m))"

definition msg_init :: "dec_env \<Rightarrow> nat \<Rightarrow> pb_field list \<Rightarrow> u64 \<Rightarrow> pb_istream \<Rightarrow> dstate \<Rightarrow> msg_state" where
  "msg_init env n tbl dest s d =
     \<lparr>ms_stream = s, ms_dm = put_u32 (de_local env n) 0 d, ms_iter = snd (pb_field_iter_begin tbl dest),
      ms_seen = [0, 0], ms_ext_start = 0, ms_fixed = None\<rparr>"

definition pb_decode_noinit_with :: "dec_env \<Rightarrow> nat \<Rightarrow> pbd \<Rightarrow> pb_field list \<Rightarrow> u64 \<Rightarrow> dec" where
  "pb_decode_noinit_with env n pbd tbl dest s d =
     (case msg_loop env n pbd (msg_init env n tbl dest s d) of
        None \<Rightarrow> None
      | Some (False, m) \<Rightarrow> Some (False, ms_stream m, ms_dm m)
      | Some (True, m) \<Rightarrow> Some (msg_finish (de_local env n) m))"

text \<open>\<open>decode_message init\<close> is \<open>pb_decode\<close> or \<open>pb_decode_noinit\<close>, at a nesting depth below the fuel.\<close>

fun decode_message :: "dec_env \<Rightarrow> nat \<Rightarrow> bool \<Rightarrow> pb_field list \<Rightarrow> u64 \<Rightarrow> dec" where
  "decode_message env 0 init tbl dest s d = None"
| "decode_message env (Suc n) init tbl dest s d =
     (if \<not> init then pb_decode_noinit_with env n (decode_message env n) tbl dest s d
      else case pb_message_set_to_defaults env n tbl dest d of
        None \<Rightarrow> None
      | Some d1 \<Rightarrow>
          (case pb_decode_noinit_with env n (decode_message env n) tbl dest s d1 of
             None \<Rightarrow> None
           | Some (status, s1, d2) \<Rightarrow>
               if status then Some (True, s1, d2)
               else map_option (\<lambda>d3. (False, s1, d3)) (pb_release env n tbl dest d2)))"

definition pb_decode :: "dec_env \<Rightarrow> nat \<Rightarrow> pb_field list \<Rightarrow> u64 \<Rightarrow> dec" where
  "pb_decode env n tbl dest = decode_message env n True tbl dest"

definition pb_decode_noinit :: "dec_env \<Rightarrow> nat \<Rightarrow> pb_field list \<Rightarrow> u64 \<Rightarrow> dec" where
  "pb_decode_noinit env n tbl dest = decode_message env n False tbl dest"

definition delimited :: "dec \<Rightarrow> dec" where
  "delimited body s d =
     (case pb_make_string_substream s of
        (None, s1) \<Rightarrow> Some (False, s1, d)
      | (Some sub, s1) \<Rightarrow>
          (case body sub d of
             None \<Rightarrow> None
           | Some (status, sub1, d1) \<Rightarrow>
               (case pb_close_string_substream s1 sub1 of (ok, s2) \<Rightarrow> Some (ok \<and> status, s2, d1))))"

definition pb_decode_delimited_noinit :: "dec_env \<Rightarrow> nat \<Rightarrow> pb_field list \<Rightarrow> u64 \<Rightarrow> dec" where
  "pb_decode_delimited_noinit env n tbl dest = delimited (pb_decode_noinit env n tbl dest)"

definition pb_decode_delimited :: "dec_env \<Rightarrow> nat \<Rightarrow> pb_field list \<Rightarrow> u64 \<Rightarrow> dec" where
  "pb_decode_delimited env n tbl dest = delimited (pb_decode env n tbl dest)"

definition pb_decode_nullterminated :: "dec_env \<Rightarrow> nat \<Rightarrow> pb_field list \<Rightarrow> u64 \<Rightarrow> dec" where
  "pb_decode_nullterminated env n tbl dest = pb_decode env n tbl dest"

text \<open>The loops evaluate by their equations.\<close>

declare find_loop.simps [code] extension_walk.simps [code] static_packed_loop.simps [code]
  pointer_packed_loop.simps [code] callback_loop.simps [code] extension_decode_loop.simps [code]
  find_extension_loop.simps [code] msg_loop.simps [code]

end
