(* ===== verification/Pb_Decode_Safe.thy ===== *)
theory Pb_Decode_Safe
  imports Pb_Decode
begin

text \<open>
  The safety of the message decoder of \<open>Pb_Decode\<close>, for message types without pointers and callbacks: whatever the input is,
  every operation returns, reads only the window of its stream and changes only the bytes of the message and the
  local size variables of the decoder.
\<close>

subsection \<open>Streams: what a reader may do\<close>

text \<open>\<open>s'\<close> is \<open>s\<close> after some of its bytes, up to the error text: the window never grows.\<close>

definition reads :: "pb_istream \<Rightarrow> pb_istream \<Rightarrow> bool" where
  "reads s s' \<longleftrightarrow> is_callback s' = is_callback s \<and> src_buf (is_state s') = src_buf (is_state s) \<and>
     src_fault (is_state s') = src_fault (is_state s) \<and>
     src_pos (is_state s') + is_bytes_left s' \<le> src_pos (is_state s) + is_bytes_left s \<and>
     is_bytes_left s' \<le> is_bytes_left s"

lemma reads_refl [simp, intro]: "reads s s"
  by (simp add: reads_def)

lemma reads_trans: "reads s s1 \<Longrightarrow> reads s1 s2 \<Longrightarrow> reads s s2"
  by (simp add: reads_def)

lemma reads_left: "reads s s' \<Longrightarrow> is_bytes_left s' \<le> is_bytes_left s"
  by (simp add: reads_def)

lemma reads_buffered: "is_buffered s \<Longrightarrow> reads s s' \<Longrightarrow> is_buffered s'"
  by (simp add: reads_def is_buffered_def)

lemma reads_error [simp]: "reads s (is_error s' msg) \<longleftrightarrow> reads s s'"
  by (simp add: reads_def is_error_def)

lemma left_error [simp]: "is_bytes_left (is_error s msg) = is_bytes_left s"
  by (simp add: is_error_def)

lemma buffered_error [simp]: "is_buffered (is_error s msg) = is_buffered s"
  by (simp add: is_buffered_def is_error_def)

lemma reads_advance: "n \<le> is_bytes_left s \<Longrightarrow> reads s (advance s n)"
  by (simp add: reads_def advance_def)

text \<open>The readers of the wire format. On success at least one byte has gone where the code reads one.\<close>

lemma pb_read_buf_reads:
  assumes "is_buffered s" "pb_read_buf s n = (ok, bs, s')"
  shows "reads s s' \<and> (ok \<longrightarrow> is_bytes_left s' + n = is_bytes_left s \<and> length bs = n)"
proof (cases "n \<le> is_bytes_left s")
  case True
  then show ?thesis
    using assms pb_read_buf_buffered [OF assms(1) True] by (auto simp: reads_advance)
next
  case False
  then show ?thesis using assms pb_read_end_of_stream [of s n] by auto
qed

lemma pb_read_null_reads:
  assumes "is_buffered s" "pb_read_null s n = (ok, s')"
  shows "reads s s' \<and> (ok \<longrightarrow> is_bytes_left s' + n = is_bytes_left s)"
proof (cases "n = 0")
  case True
  then show ?thesis using assms by (simp add: pb_read_null_def)
next
  case False
  then obtain bs where "pb_read_buf s n = (ok, bs, s')"
    using assms by (auto simp: pb_read_null_def is_buffered_def split: prod.splits)
  then show ?thesis using pb_read_buf_reads [OF assms(1)] by blast
qed

lemma pb_readbyte_reads:
  assumes "is_buffered s" "pb_readbyte s = (ok, b, s')"
  shows "reads s s' \<and> (ok \<longrightarrow> is_bytes_left s' < is_bytes_left s)"
proof (cases "pending s")
  case Nil
  then have "is_bytes_left s = 0" using length_pending [OF assms(1)] by simp
  then show ?thesis using assms(2) by (auto simp: pb_readbyte_def)
next
  case (Cons c cs)
  then have "0 < is_bytes_left s" using length_pending [OF assms(1)] by simp
  then show ?thesis
    using assms(2) pb_readbyte_buffered [OF assms(1) Cons] by (auto simp: reads_advance)
qed

lemma eq_True_of: "P \<Longrightarrow> P = True"
  by simp

lemma reads_lt: "reads s s1 \<Longrightarrow> reads s1 s2 \<Longrightarrow> is_bytes_left s1 < is_bytes_left s \<Longrightarrow> is_bytes_left s2 < is_bytes_left s"
  by (simp add: reads_def)

lemma varint32_loop_reads:
  "is_buffered s \<Longrightarrow> varint32_loop s bitpos r = (v, s') \<Longrightarrow>
   reads s s' \<and> (v \<noteq> None \<longrightarrow> is_bytes_left s' < is_bytes_left s)"
proof (induction s bitpos r arbitrary: v s' rule: varint32_loop.induct)
  case (1 s bitpos r)
  obtain ok b s1 where rd: "pb_readbyte s = (ok, b, s1)" by (cases "pb_readbyte s")
  note r1 = pb_readbyte_reads [OF 1(2) rd]
  show ?case
  proof (cases ok)
    case False
    then show ?thesis using 1(3) rd r1 by (subst (asm) varint32_loop.simps) auto
  next
    case True
    then have rdT: "pb_readbyte s = (True, b, s1)" using rd by simp
    note ih = 1(1) [OF rd [symmetric] eq_True_of [OF True] refl refl _ refl refl]
    show ?thesis
      using 1(3) r1 True ih reads_buffered [OF 1(2), of s1] unfolding varint32_loop.simps [of s bitpos r] rdT prod.case bool.case
      by (auto simp: Let_def split: if_splits dest: reads_trans reads_lt)
  qed
qed


lemma varint_decode_loop_reads:
  "is_buffered s \<Longrightarrow> varint_decode_loop s bitpos r = (v, s') \<Longrightarrow>
   reads s s' \<and> (v \<noteq> None \<longrightarrow> is_bytes_left s' < is_bytes_left s)"
proof (induction s bitpos r arbitrary: v s' rule: varint_decode_loop.induct)
  case (1 s bitpos r)
  obtain ok b s1 where rd: "pb_readbyte s = (ok, b, s1)" by (cases "pb_readbyte s")
  note r1 = pb_readbyte_reads [OF 1(2) rd]
  show ?case
  proof (cases "\<not> ok \<or> 64 \<le> bitpos")
    case True
    then show ?thesis using 1(3) rd r1 by (subst (asm) varint_decode_loop.simps) (auto split: if_splits)
  next
    case False
    then have okT: ok by simp
    note ih = 1(1) [OF _ rd [symmetric] eq_True_of [OF okT] refl refl]
    show ?thesis
      using 1(3) r1 ih reads_buffered [OF 1(2), of s1] False unfolding varint_decode_loop.simps [of s bitpos r] rd
      by (auto simp: Let_def split: if_splits dest: reads_trans reads_lt)
  qed
qed

lemma raw_varint_loop_reads:
  "is_buffered s \<Longrightarrow> raw_varint_loop s acc n = (v, s') \<Longrightarrow>
   reads s s' \<and> (v \<noteq> None \<longrightarrow> is_bytes_left s' < is_bytes_left s)"
proof (induction s acc n arbitrary: v s' rule: raw_varint_loop.induct)
  case (1 s acc n)
  obtain ok b s1 where rd: "pb_read_buf s 1 = (ok, b, s1)" by (cases "pb_read_buf s 1")
  note r1 = pb_read_buf_reads [OF 1(2) rd]
  show ?case
  proof (cases "\<not> ok \<or> n < length acc + 1")
    case True
    then show ?thesis using 1(3) rd r1 by (subst (asm) raw_varint_loop.simps) (auto split: if_splits)
  next
    case False
    then have okT: ok by simp
    note ih = 1(1) [OF _ rd [symmetric] eq_True_of [OF okT] refl refl]
    show ?thesis
      using 1(3) r1 ih reads_buffered [OF 1(2), of s1] False unfolding raw_varint_loop.simps [of s acc n] rd
      by (auto simp: Let_def split: if_splits dest: reads_trans)
  qed
qed

lemma pb_skip_varint_reads:
  "is_buffered s \<Longrightarrow> pb_skip_varint s = (ok, s') \<Longrightarrow> reads s s'"
proof (induction s arbitrary: ok s' rule: pb_skip_varint.induct)
  case (1 s)
  obtain ok1 b s1 where rd: "pb_read_buf s 1 = (ok1, b, s1)" by (cases "pb_read_buf s 1")
  note r1 = pb_read_buf_reads [OF 1(2) rd]
  show ?case
  proof (cases ok1)
    case False
    then show ?thesis using 1(3) rd r1 by (subst (asm) pb_skip_varint.simps) auto
  next
    case True
    note ih = 1(1) [OF rd [symmetric] eq_True_of [OF True] refl]
    show ?thesis
      using 1(3) r1 ih reads_buffered [OF 1(2), of s1] True unfolding pb_skip_varint.simps [of s] rd
      by (auto split: if_splits dest: reads_trans)
  qed
qed

lemma pb_decode_varint32_eof_reads:
  assumes "is_buffered s" "pb_decode_varint32_eof s eof = (v, eof', s')"
  shows "reads s s' \<and> (v \<noteq> None \<longrightarrow> is_bytes_left s' < is_bytes_left s)"
proof -
  obtain ok b s1 where rd: "pb_readbyte s = (ok, b, s1)" by (cases "pb_readbyte s")
  note r1 = pb_readbyte_reads [OF assms(1) rd]
  obtain v2 s2 where l: "varint32_loop s1 7 (ucast (b AND 0x7F)) = (v2, s2)" by fastforce
  have "reads s1 s2" using varint32_loop_reads [OF reads_buffered [OF assms(1)] l] r1 by blast
  then show ?thesis
    using assms(2) rd r1 l unfolding pb_decode_varint32_eof_def
    by (auto split: bool.splits if_splits dest: reads_trans reads_lt)
qed

lemma pb_decode_varint32_reads:
  assumes "is_buffered s" "pb_decode_varint32 s = (v, s')"
  shows "reads s s' \<and> (v \<noteq> None \<longrightarrow> is_bytes_left s' < is_bytes_left s)"
  using pb_decode_varint32_eof_reads [OF assms(1)] assms(2)
  by (fastforce simp: pb_decode_varint32_def split: prod.splits)

lemma pb_decode_varint_reads:
  assumes "is_buffered s" "pb_decode_varint s = (v, s')"
  shows "reads s s' \<and> (v \<noteq> None \<longrightarrow> is_bytes_left s' < is_bytes_left s)"
  using varint_decode_loop_reads [OF assms(1)] assms(2) by (simp add: pb_decode_varint_def)

lemma pb_decode_svarint_reads:
  assumes "is_buffered s" "pb_decode_svarint s = (v, s')"
  shows "reads s s' \<and> (v \<noteq> None \<longrightarrow> is_bytes_left s' < is_bytes_left s)"
  using pb_decode_varint_reads [OF assms(1)] assms(2)
  by (fastforce simp: pb_decode_svarint_def split: prod.splits option.splits)

lemma pb_decode_fixed32_reads:
  assumes "is_buffered s" "pb_decode_fixed32 s = (v, s')"
  shows "reads s s' \<and> (v \<noteq> None \<longrightarrow> is_bytes_left s' < is_bytes_left s)"
  using pb_read_buf_reads [OF assms(1), of 4] assms(2)
  by (fastforce simp: pb_decode_fixed32_def split: prod.splits bool.splits)

lemma pb_decode_fixed64_reads:
  assumes "is_buffered s" "pb_decode_fixed64 s = (v, s')"
  shows "reads s s' \<and> (v \<noteq> None \<longrightarrow> is_bytes_left s' < is_bytes_left s)"
  using pb_read_buf_reads [OF assms(1), of 8] assms(2)
  by (fastforce simp: pb_decode_fixed64_def split: prod.splits bool.splits)

lemma pb_decode_tag_reads:
  assumes "is_buffered s" "pb_decode_tag s = (ok, wt, tag, eof, s')"
  shows "reads s s' \<and> (ok \<longrightarrow> is_bytes_left s' < is_bytes_left s)"
proof -
  obtain v e s1 where r: "pb_decode_varint32_eof s False = (v, e, s1)" by (cases "pb_decode_varint32_eof s False")
  show ?thesis
    using assms(2) r pb_decode_varint32_eof_reads [OF assms(1) r]
    by (cases v) (auto simp: pb_decode_tag_def split: if_splits)
qed

lemma pb_skip_string_reads:
  assumes "is_buffered s" "pb_skip_string s = (ok, s')"
  shows "reads s s'"
proof -
  obtain v s1 where r: "pb_decode_varint32 s = (v, s1)" by fastforce
  note r1 = pb_decode_varint32_reads [OF assms(1) r]
  show ?thesis
    using assms(2) r r1 pb_read_null_reads [OF reads_buffered [OF assms(1)], of s1]
    by (cases v) (fastforce simp: pb_skip_string_def dest: reads_trans)+
qed

lemma pb_skip_field_reads:
  assumes "is_buffered s" "pb_skip_field s wt = (ok, s')"
  shows "reads s s'"
  using assms(2) pb_skip_varint_reads [OF assms(1)] pb_skip_string_reads [OF assms(1)] pb_read_null_reads [OF assms(1)]
  by (auto simp: pb_skip_field_def split: if_splits)

lemma read_raw_value_reads:
  assumes "is_buffered s" "read_raw_value s wt n = (v, s')"
  shows "reads s s'"
proof -
  obtain o8 b8 s8 o4 b4 s4 where "pb_read_buf s 8 = (o8, b8, s8)" "pb_read_buf s 4 = (o4, b4, s4)"
    by (cases "pb_read_buf s 8"; cases "pb_read_buf s 4")
  then show ?thesis
    using assms(2) raw_varint_loop_reads [OF assms(1)] pb_read_buf_reads [OF assms(1)]
    by (auto simp: read_raw_value_def split: if_splits)
qed

text \<open>A substream is a window into its parent, and closing it leaves the parent behind the window.\<close>

lemma pb_make_string_substream_reads:
  assumes "is_buffered s" "pb_make_string_substream s = (r, s1)"
  shows "reads s s1" "r = Some sub \<Longrightarrow> is_buffered sub"
    "r = Some sub \<Longrightarrow> reads sub sub' \<Longrightarrow> pb_close_string_substream s1 sub' = (ok, s2) \<Longrightarrow> reads s s2"
proof -
  obtain v s0 where dec: "pb_decode_varint32 s = (v, s0)" by fastforce
  note r0 = pb_decode_varint32_reads [OF assms(1) dec]
  note b0 = reads_buffered [OF assms(1) conjunct1 [OF r0]]
  show "reads s s1"
    using assms(2) dec r0 by (cases v) (auto simp: pb_make_string_substream_def reads_def is_error_def split: if_splits)
  show "is_buffered sub" if "r = Some sub"
    using that assms(2) dec b0
    by (cases v) (auto simp: pb_make_string_substream_def is_buffered_def split: if_splits)
  show "reads s s2" if sub: "r = Some sub" and sub': "reads sub sub'"
    and close: "pb_close_string_substream s1 sub' = (ok, s2)"
  proof -
    obtain k where s1: "s1 = s0\<lparr>is_bytes_left := is_bytes_left s0 - k\<rparr>" "sub = s0\<lparr>is_bytes_left := k\<rparr>"
      "k \<le> is_bytes_left s0"
      using sub assms(2) dec
      by (cases v) (auto simp: pb_make_string_substream_def split: if_splits)
    have "is_buffered sub" using b0 s1 by (simp add: is_buffered_def)
    from reads_buffered [OF this sub'] have "is_buffered sub'" .
    then obtain ok1 sub1 where n: "pb_read_null sub' (is_bytes_left sub') = (ok1, sub1)" "reads sub' sub1"
      "ok1 \<longrightarrow> is_bytes_left sub1 = 0"
      using pb_read_null_reads [of sub' "is_bytes_left sub'"] by (cases "pb_read_null sub' (is_bytes_left sub')") auto
    show ?thesis
      using close n sub' s1 r0
      by (auto simp: pb_close_string_substream_def reads_def Let_def split: if_splits)
  qed
qed


subsection \<open>Memory: what a decoder may change\<close>

definition region :: "u64 \<Rightarrow> nat \<Rightarrow> u64 set" where
  "region a n = (\<lambda>i. a + word_of_nat i) ` {..<n}"

definition frame :: "u64 set \<Rightarrow> dstate \<Rightarrow> dstate \<Rightarrow> bool" where
  "frame R d d' \<longleftrightarrow> dm_heap d' = dm_heap d \<and> (\<forall>p. p \<notin> R \<longrightarrow> dm_mem d' p = dm_mem d p)"

lemma frame_refl [simp, intro]: "frame R d d"
  by (simp add: frame_def)

lemma frame_trans: "frame R d d1 \<Longrightarrow> frame R d1 d2 \<Longrightarrow> frame R d d2"
  by (simp add: frame_def)

lemma frame_mono: "frame R d d' \<Longrightarrow> R \<subseteq> R' \<Longrightarrow> frame R' d d'"
  by (auto simp: frame_def)

lemma region_Suc: "region a (Suc n) = insert a (region (a + 1) n)"
  by (auto simp: region_def lessThan_Suc_eq_insert_0 image_image algebra_simps)

lemma region_mono: "m \<le> n \<Longrightarrow> region a m \<subseteq> region a n"
  by (auto simp: region_def)

lemma region_offset:
  assumes "unat k + m \<le> n"
  shows "region (a + k) m \<subseteq> region a n"
proof
  fix p assume "p \<in> region (a + k) m"
  then obtain i where i: "i < m" "p = a + k + word_of_nat i" by (auto simp: region_def)
  have "a + k + word_of_nat i = a + word_of_nat (unat k + i)"
    by (simp add: add.assoc)
  moreover have "unat k + i < n" using assms i by simp
  ultimately show "p \<in> region a n"
    unfolding region_def i(2) by (intro image_eqI [where x = "unat k + i"]) simp_all
qed

lemma store_bytes_outside: "p \<notin> region a (length bs) \<Longrightarrow> store_bytes mem a bs p = mem p"
  by (induction mem a bs rule: store_bytes.induct) (auto simp: region_Suc)

lemma frame_put_bytes: "length bs \<le> n \<Longrightarrow> frame (region a n) d (put_bytes a bs d)"
  using region_mono [of "length bs" n a] by (auto simp: frame_def put_bytes_def intro!: store_bytes_outside)

lemma frame_put_bool: "1 \<le> n \<Longrightarrow> frame (region a n) d (put_bool a b d)"
  by (simp add: put_bool_def frame_put_bytes)

lemma frame_put_u32: "4 \<le> n \<Longrightarrow> frame (region a n) d (put_u32 a w d)"
  by (simp add: put_u32_def frame_put_bytes del: le_bytes_numeral)

lemma frame_put_u64: "8 \<le> n \<Longrightarrow> frame (region a n) d (put_u64 a w d)"
  by (simp add: put_u64_def frame_put_bytes del: le_bytes_numeral)

text \<open>A run of a decoder that returns, stays in its stream and writes inside \<open>R\<close>.\<close>

definition safe_run :: "u64 set \<Rightarrow> pb_istream \<Rightarrow> dstate \<Rightarrow> (bool \<times> pb_istream \<times> dstate) option \<Rightarrow> bool" where
  "safe_run R s d r \<longleftrightarrow> (\<exists>ok s' d'. r = Some (ok, s', d') \<and> reads s s' \<and> frame R d d')"

lemma safe_run_Some [simp]: "safe_run R s d (Some (ok, s', d')) \<longleftrightarrow> reads s s' \<and> frame R d d'"
  by (simp add: safe_run_def)

lemma safe_run_mono: "safe_run R s d r \<Longrightarrow> R \<subseteq> R' \<Longrightarrow> safe_run R' s d r"
  by (auto simp: safe_run_def dest: frame_mono)

lemma safe_run_later: "safe_run R s1 d1 r \<Longrightarrow> reads s s1 \<Longrightarrow> frame R d d1 \<Longrightarrow> safe_run R s d r"
  by (auto simp: safe_run_def dest: reads_trans frame_trans)

lemma safe_run_fail: "safe_run R s d (dec_fail msg s' d') \<longleftrightarrow> reads s s' \<and> frame R d d'"
  by (simp add: dec_fail_def)

lemma length_clamp_signed: "clamp_signed sz v = Some (bs, c) \<Longrightarrow> length bs = unat sz"
  by (auto simp: clamp_signed_def simp del: le_bytes_numeral split: if_splits)

lemma length_clamp_unsigned: "clamp_unsigned sz v = Some (bs, c) \<Longrightarrow> length bs = unat sz"
  by (auto simp: clamp_unsigned_def simp del: le_bytes_numeral split: if_splits)

lemma store_clamped_safe:
  assumes "\<And>bs c. r = Some (bs, c) \<Longrightarrow> length bs \<le> n"
  shows "safe_run (region dest n) s d (store_clamped r dest v s d)"
  using assms by (auto simp: store_clamped_def safe_run_fail frame_put_bytes split: option.splits)

text \<open>The bytes a decoder needs at its destination.\<close>

definition scalar_width :: "pb_field \<Rightarrow> nat" where
  "scalar_width f =
     (let t = PB_LTYPE (fd_type f) in
      if t = PB_LTYPE_BOOL then 1 else if t = PB_LTYPE_FIXED32 then 4
      else if t = PB_LTYPE_FIXED64 then 8 else 0)"

definition item_extent :: "pb_field \<Rightarrow> nat" where
  "item_extent f = max (unat (fd_data_size f)) (scalar_width f)"

lemma item_extent_size: "unat (fd_data_size f) \<le> item_extent f"
  by (simp add: item_extent_def)

lemma pb_dec_bool_safe:
  assumes "is_buffered s" "1 \<le> n"
  shows "safe_run (region dest n) s d (pb_dec_bool f dest s d)"
  using pb_decode_varint32_reads [OF assms(1)] frame_put_bool [OF assms(2)]
  by (fastforce simp: pb_dec_bool_def split: prod.splits option.splits)

lemma pb_dec_varint_safe:
  assumes "is_buffered s"
  shows "safe_run (region dest (unat (fd_data_size f))) s d (pb_dec_varint f dest s d)"
  using pb_decode_varint_reads [OF assms]
  by (auto simp: pb_dec_varint_def Let_def length_clamp_signed split: prod.splits option.splits
      intro!: safe_run_later [OF store_clamped_safe])

lemma pb_dec_uvarint_safe:
  assumes "is_buffered s"
  shows "safe_run (region dest (unat (fd_data_size f))) s d (pb_dec_uvarint f dest s d)"
  using pb_decode_varint_reads [OF assms]
  by (auto simp: pb_dec_uvarint_def Let_def length_clamp_unsigned split: prod.splits option.splits
      intro!: safe_run_later [OF store_clamped_safe])

lemma pb_dec_svarint_safe:
  assumes "is_buffered s"
  shows "safe_run (region dest (unat (fd_data_size f))) s d (pb_dec_svarint f dest s d)"
  using pb_decode_svarint_reads [OF assms]
  by (auto simp: pb_dec_svarint_def Let_def length_clamp_signed split: prod.splits option.splits
      intro!: safe_run_later [OF store_clamped_safe])

lemma pb_dec_fixed32_safe:
  assumes "is_buffered s" "4 \<le> n"
  shows "safe_run (region dest n) s d (pb_dec_fixed32 f dest s d)"
  using pb_decode_fixed32_reads [OF assms(1)] frame_put_u32 [OF assms(2)]
  by (fastforce simp: pb_dec_fixed32_def split: prod.splits option.splits)

lemma pb_dec_fixed64_safe:
  assumes "is_buffered s" "8 \<le> n"
  shows "safe_run (region dest n) s d (pb_dec_fixed64 f dest s d)"
  using pb_decode_fixed64_reads [OF assms(1)] frame_put_u64 [OF assms(2)]
  by (fastforce simp: pb_dec_fixed64_def split: prod.splits option.splits)

lemma pb_read_mem_safe:
  assumes "is_buffered s" "n \<le> m"
  shows "safe_run (region dest m) s d (pb_read_mem dest n s d)"
  using pb_read_buf_reads [OF assms(1)] assms(2)
  by (fastforce simp: pb_read_mem_def frame_put_bytes split: prod.splits)

lemma LTYPE_cases:
  assumes "PB_LTYPE t \<le> PB_LTYPE_FIXED_LENGTH_BYTES" "PB_LTYPE t \<noteq> PB_LTYPE_EXTENSION"
  shows "PB_LTYPE t = PB_LTYPE_BOOL \<or> PB_LTYPE t = PB_LTYPE_VARINT \<or> PB_LTYPE t = PB_LTYPE_UVARINT \<or>
    PB_LTYPE t = PB_LTYPE_SVARINT \<or> PB_LTYPE t = PB_LTYPE_FIXED32 \<or> PB_LTYPE t = PB_LTYPE_FIXED64 \<or>
    PB_LTYPE t = PB_LTYPE_BYTES \<or> PB_LTYPE t = PB_LTYPE_STRING \<or> PB_LTYPE t = PB_LTYPE_SUBMESSAGE \<or>
    PB_LTYPE t = PB_LTYPE_FIXED_LENGTH_BYTES"
proof -
  have "unat (PB_LTYPE t) \<le> 10" using assms(1) by (simp add: word_le_nat_alt)
  moreover have "x \<le> 10 \<Longrightarrow> x \<in> {0,1,2,3,4,5,6,7,8,9,10}" for x :: nat
    by (simp only: insert_iff empty_iff) presburger
  ultimately have "unat (PB_LTYPE t) \<in> {0,1,2,3,4,5,6,7,8,9,10}" by blast
  then have "PB_LTYPE t \<in> word_of_nat ` {0,1,2,3,4,5,6,7,8,9,10}"
    by (intro image_eqI [where x = "unat (PB_LTYPE t)"]) simp_all
  then show ?thesis using assms(2) by auto
qed

lemma pb_dec_bytes_static_safe:
  assumes "is_buffered s" "PB_ATYPE (fd_type f) = PB_ATYPE_STATIC"
  shows "safe_run (region dest (unat (fd_data_size f))) s d (pb_dec_bytes env f dest s d)"
proof -
  obtain v s1 where r: "pb_decode_varint32 s = (v, s1)" by fastforce
  note r1 = pb_decode_varint32_reads [OF assms(1) r]
  note b1 = reads_buffered [OF assms(1) conjunct1 [OF r1]]
  show ?thesis
  proof (cases v)
    case None
    then show ?thesis using r r1 by (simp add: pb_dec_bytes_def)
  next
    case (Some sz)
    have "unat sz < 2 ^ 32" using unsigned_less [of sz, where ?'a = nat] by simp
    then have add: "size_add (unat sz) 4 = unat sz + 4" by (intro size_add_exact) (simp add: SIZE_LIMIT_def)
    show ?thesis
    proof (cases "unat sz + 4 \<le> unat (fd_data_size f)")
      case True
      have "safe_run (region (dest + 4) (unat sz)) s1 (put_u32 dest sz d) (pb_read_mem (dest + 4) (unat sz) s1 (put_u32 dest sz d))"
        by (rule pb_read_mem_safe [OF b1 order_refl])
      moreover have "region (dest + 4) (unat sz) \<subseteq> region dest (unat (fd_data_size f))"
        using True by (intro region_offset) simp
      moreover have "frame (region dest (unat (fd_data_size f))) d (put_u32 dest sz d)"
        using True by (intro frame_put_u32) simp
      ultimately show ?thesis
        using Some r r1 assms(2) True
        by (auto simp: pb_dec_bytes_def add intro: safe_run_later safe_run_mono)
    next
      case False
      then show ?thesis
        using Some r r1 assms(2) by (simp add: pb_dec_bytes_def add safe_run_fail)
    qed
  qed
qed

lemma string_tail_safe:
  assumes "is_buffered s" "unat sz + 1 \<le> n"
  shows "safe_run (region dest n) s d (string_tail dest sz s d)"
proof -
  have "safe_run (region dest n) s d (pb_read_mem dest (unat sz) s d)"
    using assms by (intro pb_read_mem_safe) simp_all
  then obtain ok s1 d1 where r: "pb_read_mem dest (unat sz) s d = Some (ok, s1, d1)" "reads s s1"
    "frame (region dest n) d d1" by (auto simp: safe_run_def)
  have "region (dest + ucast sz) 1 \<subseteq> region dest n"
    using assms(2) by (intro region_offset) (simp add: unat_ucast_up)
  then have "frame (region dest n) d1 (put_bytes (dest + ucast sz) [0] d1)"
    using frame_put_bytes [of "[0]" 1] by (auto intro: frame_mono)
  then show ?thesis using r by (auto simp: string_tail_def intro: frame_trans)
qed

lemma unat_add_1_le:
  fixes w :: u32
  assumes "unat w \<le> unat (w + 1)"
  shows "unat w + 1 \<le> unat (w + 1)"
proof -
  have lt: "unat w < 2 ^ 32" using unsigned_less [of w, where ?'a = nat] by simp
  have m: "unat (w + 1) = (unat w + 1) mod 2 ^ 32" by (simp only: unat_word_ariths unat_1 len_of_numeral_defs word_size) simp
  show ?thesis
  proof (cases "unat w + 1 < 2 ^ 32")
    case True
    then show ?thesis unfolding m by (simp only: mod_less)
  next
    case False
    then have "unat w + 1 = 2 ^ 32" using lt by linarith
    then have "unat (w + 1) = 0" unfolding m by (simp only: mod_self)
    then have "unat w = 0" using assms by simp
    with False show ?thesis by simp
  qed
qed

lemma pb_dec_string_static_safe:
  assumes "is_buffered s" "PB_ATYPE (fd_type f) = PB_ATYPE_STATIC"
  shows "safe_run (region dest (unat (fd_data_size f))) s d (pb_dec_string env f dest s d)"
proof -
  obtain v s1 where r: "pb_decode_varint32 s = (v, s1)" by fastforce
  note r1 = pb_decode_varint32_reads [OF assms(1) r]
  note b1 = reads_buffered [OF assms(1) conjunct1 [OF r1]]
  show ?thesis
  proof (cases v)
    case None
    then show ?thesis using r r1 by (simp add: pb_dec_string_def)
  next
    case (Some sz)
    show ?thesis
    proof (cases "unat sz \<le> unat (sz + 1) \<and> unat (sz + 1) \<le> unat (fd_data_size f)")
      case True
      then have "unat sz + 1 \<le> unat (fd_data_size f)"
        using unat_add_1_le [of sz] by linarith
      from safe_run_later [OF string_tail_safe [OF b1 this, of dest d] conjunct1 [OF r1] frame_refl]
      show ?thesis using Some r assms(2) True by (simp add: pb_dec_string_def Let_def)
    next
      case False
      then show ?thesis
        using Some r r1 assms(2) by (auto simp: pb_dec_string_def Let_def safe_run_fail)
    qed
  qed
qed

lemma pb_dec_fixed_length_bytes_safe:
  assumes "is_buffered s"
  shows "safe_run (region dest (unat (fd_data_size f))) s d (pb_dec_fixed_length_bytes f dest s d)"
proof -
  obtain v s1 where r: "pb_decode_varint32 s = (v, s1)" by fastforce
  note r1 = pb_decode_varint32_reads [OF assms(1) r]
  note b1 = reads_buffered [OF assms(1) conjunct1 [OF r1]]
  note m = safe_run_later [OF pb_read_mem_safe [OF b1 order_refl] conjunct1 [OF r1] frame_refl]
  show ?thesis
    using r r1 m by (auto simp: pb_dec_fixed_length_bytes_def safe_run_fail frame_put_bytes split: option.splits)
qed

lemma pb_dec_submessage_safe:
  assumes "is_buffered s"
    and "\<And>init s d. is_buffered s \<Longrightarrow> safe_run R s d (pbd init (de_tabs env (fd_ptr f)) dest s d)"
  shows "safe_run R s d (pb_dec_submessage env pbd f dest s d)"
proof -
  obtain v s1 where mk: "pb_make_string_substream s = (v, s1)" by fastforce
  note r1 = pb_make_string_substream_reads [OF assms(1) mk]
  show ?thesis
  proof (cases v)
    case None
    then show ?thesis using mk r1 by (simp add: pb_dec_submessage_def)
  next
    case (Some sub)
    then have "is_buffered sub" using r1(2) by simp
    then have "safe_run R sub d (pbd (PB_HTYPE (fd_type f) = PB_HTYPE_REPEATED) (de_tabs env (fd_ptr f)) dest sub d)"
      by (rule assms(2))
    then obtain ok sub1 d1 where b: "pbd (PB_HTYPE (fd_type f) = PB_HTYPE_REPEATED) (de_tabs env (fd_ptr f)) dest sub d = Some (ok, sub1, d1)"
      "reads sub sub1" "frame R d d1" by (auto simp: safe_run_def)
    obtain ok2 s2 where c: "pb_close_string_substream s1 sub1 = (ok2, s2)" by fastforce
    show ?thesis
      using mk Some b c r1(1) r1(3) [OF Some b(2) c] by (simp add: pb_dec_submessage_def safe_run_fail)
  qed
qed

lemma PB_DECODERS_safe:
  assumes "is_buffered s" "PB_ATYPE (fd_type f) = PB_ATYPE_STATIC"
    "PB_LTYPE (fd_type f) \<le> PB_LTYPE_FIXED_LENGTH_BYTES" "PB_LTYPE (fd_type f) \<noteq> PB_LTYPE_EXTENSION"
    and sub: "\<And>init s d. PB_LTYPE (fd_type f) = PB_LTYPE_SUBMESSAGE \<Longrightarrow> is_buffered s \<Longrightarrow>
      safe_run (region dest (unat (fd_data_size f)) \<union> L) s d (pbd init (de_tabs env (fd_ptr f)) dest s d)"
  shows "safe_run (region dest (item_extent f) \<union> L) s d (PB_DECODERS env pbd f dest s d)"
proof -
  let ?t = "PB_LTYPE (fd_type f)"
  have sz: "region dest (unat (fd_data_size f)) \<subseteq> region dest (item_extent f) \<union> L"
    using region_mono [OF item_extent_size] by blast
  have w: "region dest (scalar_width f) \<subseteq> region dest (item_extent f) \<union> L"
    using region_mono [of "scalar_width f" "item_extent f" dest] by (auto simp: item_extent_def)
  have sub': "?t = PB_LTYPE_SUBMESSAGE \<Longrightarrow>
      safe_run (region dest (unat (fd_data_size f)) \<union> L) s d (pb_dec_submessage env pbd f dest s d)"
    using pb_dec_submessage_safe [where R = "region dest (unat (fd_data_size f)) \<union> L", OF assms(1)] sub by blast
  show ?thesis
    using LTYPE_cases [OF assms(3,4)]
    apply (elim disjE)
             apply (simp add: PB_DECODERS_def, rule safe_run_mono [OF pb_dec_bool_safe [OF assms(1)] w], simp add: scalar_width_def)
            apply (simp add: PB_DECODERS_def, rule safe_run_mono [OF pb_dec_varint_safe [OF assms(1)] sz])
           apply (simp add: PB_DECODERS_def, rule safe_run_mono [OF pb_dec_uvarint_safe [OF assms(1)] sz])
          apply (simp add: PB_DECODERS_def, rule safe_run_mono [OF pb_dec_svarint_safe [OF assms(1)] sz])
         apply (simp add: PB_DECODERS_def, rule safe_run_mono [OF pb_dec_fixed32_safe [OF assms(1)] w], simp add: scalar_width_def)
        apply (simp add: PB_DECODERS_def, rule safe_run_mono [OF pb_dec_fixed64_safe [OF assms(1)] w], simp add: scalar_width_def)
       apply (simp add: PB_DECODERS_def, rule safe_run_mono [OF pb_dec_bytes_static_safe [OF assms(1,2)] sz])
      apply (simp add: PB_DECODERS_def, rule safe_run_mono [OF pb_dec_string_static_safe [OF assms(1,2)] sz])
     apply (simp add: PB_DECODERS_def, rule safe_run_mono [OF sub'], simp)
    using sz apply blast
    apply (simp add: PB_DECODERS_def, rule safe_run_mono [OF pb_dec_fixed_length_bytes_safe [OF assms(1)] sz])
    done
qed

text \<open>A packable decoder that succeeds has consumed at least one byte.\<close>

lemma store_clamped_stream: "store_clamped r dest v s d = Some (ok, s', d') \<Longrightarrow> is_bytes_left s' = is_bytes_left s"
  by (auto simp: store_clamped_def dec_fail_def split: option.splits if_splits)

lemma PB_DECODERS_progress:
  assumes "is_buffered s" "PB_LTYPE (fd_type f) \<le> PB_LTYPE_LAST_PACKABLE"
    "PB_DECODERS env pbd f dest s d = Some (True, s', d')"
  shows "is_bytes_left s' < is_bytes_left s"
proof -
  let ?t = "PB_LTYPE (fd_type f)"
  have "unat ?t \<le> 5" using assms(2) by (simp add: word_le_nat_alt)
  then have "unat ?t \<in> {0,1,2,3,4,5}" by auto
  then have "?t \<in> word_of_nat ` {0,1,2,3,4,5}"
    by (intro image_eqI [where x = "unat ?t"]) simp_all
  then consider "?t = PB_LTYPE_BOOL" | "?t = PB_LTYPE_VARINT" | "?t = PB_LTYPE_UVARINT" | "?t = PB_LTYPE_SVARINT"
    | "?t = PB_LTYPE_FIXED32" | "?t = PB_LTYPE_FIXED64" by auto
  then show ?thesis
    using assms(3) pb_decode_varint32_reads [OF assms(1)] pb_decode_varint_reads [OF assms(1)]
      pb_decode_svarint_reads [OF assms(1)] pb_decode_fixed32_reads [OF assms(1)] pb_decode_fixed64_reads [OF assms(1)]
    by cases (fastforce simp: PB_DECODERS_def pb_dec_bool_def pb_dec_varint_def pb_dec_uvarint_def pb_dec_svarint_def
        pb_dec_fixed32_def pb_dec_fixed64_def Let_def split: prod.splits option.splits dest: store_clamped_stream)+
qed

subsection \<open>Message layouts without pointers\<close>

text \<open>
  \<open>static_msg tabs n tbl sz\<close>: the table describes a structure of \<open>sz\<close> bytes with static fields only,
  submessages included, nested at most \<open>n\<close> deep; every field, its counter, presence flag or selector lies
  inside the structure.
\<close>

definition static_field ::
  "(pb_field list \<Rightarrow> nat \<Rightarrow> bool) \<Rightarrow> (u64 \<Rightarrow> pb_field list) \<Rightarrow> pb_field list \<Rightarrow> nat \<Rightarrow> nat \<Rightarrow> bool" where
  "static_field sub tabs tbl sz i =
     (let f = field_at tbl i; type = fd_type f; n = unat (fd_data_size f);
          pos = data_addr tbl 0 i; p = size_addr tbl 0 i
      in PB_ATYPE type = PB_ATYPE_STATIC \<and>
         PB_LTYPE type \<le> PB_LTYPE_FIXED_LENGTH_BYTES \<and> PB_LTYPE type \<noteq> PB_LTYPE_EXTENSION \<and>
         (if PB_HTYPE type = PB_HTYPE_REPEATED
          then unat pos + n * unat (fd_array_size f) \<le> sz \<and> n * unat (fd_array_size f) < 2 ^ 32 \<and>
               scalar_width f \<le> n
          else unat pos + item_extent f \<le> sz) \<and>
         (PB_HTYPE type = PB_HTYPE_OPTIONAL \<and> p \<noteq> pos \<longrightarrow> unat p + 1 \<le> sz) \<and>
         (PB_HTYPE type = PB_HTYPE_REPEATED \<or> PB_HTYPE type = PB_HTYPE_ONEOF \<longrightarrow> unat p + 4 \<le> sz) \<and>
         (PB_LTYPE type = PB_LTYPE_SUBMESSAGE \<longrightarrow> sub (tabs (fd_ptr f)) n))"

fun static_msg :: "(u64 \<Rightarrow> pb_field list) \<Rightarrow> nat \<Rightarrow> pb_field list \<Rightarrow> nat \<Rightarrow> bool" where
  "static_msg tabs 0 tbl sz = False"
| "static_msg tabs (Suc n) tbl sz =
     (wf_table tbl \<and> list_all (static_field (static_msg tabs n) tabs tbl sz) [0..<max 1 (num_fields tbl)])"

lemma data_addr_shift: "data_addr tbl dest i = dest + data_addr tbl 0 i"
  by (induction i) (simp_all add: add.assoc)

lemma size_addr_shift: "size_addr tbl dest i = dest + size_addr tbl 0 i"
  by (induction i) (simp_all add: add.assoc data_addr_shift [of tbl dest] data_addr_shift [of tbl dest "Suc _"]
      del: data_addr.simps)

subsection \<open>The iterator inside a message\<close>

text \<open>The iterator stands on a field; the size pointer of a fixed-count array may point to the local counter.\<close>

definition on_field :: "pb_field list \<Rightarrow> u64 \<Rightarrow> u64 \<Rightarrow> nat \<Rightarrow> pb_field_iter \<Rightarrow> bool" where
  "on_field tbl dest count i it \<longleftrightarrow> i < max 1 (num_fields tbl) \<and>
     (it = iter_at tbl dest i \<or>
      (PB_HTYPE (fd_type (field_at tbl i)) = PB_HTYPE_REPEATED \<and> it = (iter_at tbl dest i)\<lparr>it_pSize := count\<rparr>))"

lemma iter_at_field_size: "it_field ((iter_at tbl dest i)\<lparr>it_pSize := p\<rparr>) = field_at tbl i"
  by (simp add: it_field_def)

lemma on_field_simps:
  assumes "on_field tbl dest count i it"
  shows "it_field it = field_at tbl i" "it_pData it = data_addr tbl dest i" "it_pos it = i" "it_start it = tbl"
    "it_pSize it = size_addr tbl dest i \<or> (PB_HTYPE (fd_type (field_at tbl i)) = PB_HTYPE_REPEATED \<and> it_pSize it = count)"
  using assms by (auto simp: on_field_def iter_at_field_size) (auto simp: iter_at_def)

lemma on_field_begin: "wf_table tbl \<Longrightarrow> on_field tbl dest count 0 (snd (pb_field_iter_begin tbl dest))"
  by (simp add: pb_field_iter_begin_at on_field_def)

lemma next_ignores_size:
  assumes "PB_HTYPE (fd_type (it_field it)) = PB_HTYPE_REPEATED" "fst (pb_field_iter_next it)"
  shows "pb_field_iter_next (it\<lparr>it_pSize := p\<rparr>) = pb_field_iter_next it"
  using assms by (auto simp: pb_field_iter_next_def it_field_def Let_def split: if_splits)

lemma next_wraps:
  assumes "wf_table tbl" "i < max 1 (num_fields tbl)" "num_fields tbl \<noteq> 0" "\<not> Suc i < num_fields tbl"
  shows "pb_field_iter_next ((iter_at tbl dest i)\<lparr>it_pSize := p\<rparr>) = (False, iter_at tbl dest 0)"
proof -
  have i: "i < num_fields tbl" "Suc i = num_fields tbl" using assms by auto
  have "fd_tag (field_at tbl i) \<noteq> 0" "fd_tag (field_at tbl (Suc i)) = 0"
    using wf_table_tags [OF assms(1), of i] wf_table_tags [OF assms(1), of "Suc i"] i by auto
  then show ?thesis
    by (simp add: pb_field_iter_next_def iter_at_field_size pb_field_iter_begin_at [OF assms(1)])
qed

text \<open>One step of the iterator stays on the fields of the message.\<close>

lemma on_field_next:
  assumes "wf_table tbl" "on_field tbl dest count i it"
  shows "if Suc i < num_fields tbl then pb_field_iter_next it = (True, iter_at tbl dest (Suc i))
    else if num_fields tbl = 0 then pb_field_iter_next it = (False, it)
    else pb_field_iter_next it = (False, iter_at tbl dest 0)"
proof (cases "num_fields tbl = 0")
  case True
  have i0: "i = 0" using assms(2) True by (simp add: on_field_def)
  have "fd_tag (field_at tbl 0) = 0" using wf_table_tags(2) [OF assms(1), of 0] True by simp
  then have "pb_field_iter_next it = (False, it)"
    using on_field_simps(1) [OF assms(2)] i0 by (simp add: pb_field_iter_next_def)
  then show ?thesis using True by simp
next
  case False
  then have i: "i < num_fields tbl" using assms(2) by (simp add: on_field_def)
  note n = pb_field_iter_next_at [OF assms(1) i, of dest]
  show ?thesis
  proof (cases "Suc i < num_fields tbl")
    case True
    then show ?thesis
      using assms(2) n next_ignores_size [of "iter_at tbl dest i" count] by (auto simp: on_field_def)
  next
    case last: False
    then show ?thesis
      using assms(2) n next_wraps [OF assms(1) _ False last, where p = count and dest = dest] False by (auto simp: on_field_def)
  qed
qed

lemma on_field_iter_at: "i < max 1 (num_fields tbl) \<Longrightarrow> on_field tbl dest count i (iter_at tbl dest i)"
  by (simp add: on_field_def)

text \<open>Both searches return, on a field of the message. The measure is the cyclic distance to the start.\<close>

definition cyclic_distance :: "pb_field list \<Rightarrow> nat \<Rightarrow> nat \<Rightarrow> nat" where
  "cyclic_distance tbl start i = (if i < start then start - i else max 1 (num_fields tbl) - i + start)"

lemma on_field_step:
  assumes "wf_table tbl" "on_field tbl dest count i it" "start < max 1 (num_fields tbl)"
    "it_pos (snd (pb_field_iter_next it)) \<noteq> start"
  obtains j where "on_field tbl dest count j (snd (pb_field_iter_next it))"
    "cyclic_distance tbl start j < cyclic_distance tbl start i"
proof -
  note n = on_field_next [OF assms(1,2)]
  have i: "i < max 1 (num_fields tbl)" using assms(2) by (simp add: on_field_def)
  consider "Suc i < num_fields tbl" | "num_fields tbl = 0" | "\<not> Suc i < num_fields tbl" "num_fields tbl \<noteq> 0" by blast
  then show thesis
  proof cases
    case 1
    then have "snd (pb_field_iter_next it) = iter_at tbl dest (Suc i)" using n by simp
    then show thesis
      using 1 assms(3,4) on_field_iter_at [of "Suc i" tbl dest count]
      by (intro that [of "Suc i"]) (auto simp: cyclic_distance_def)
  next
    case 2
    then have "snd (pb_field_iter_next it) = it" using n by simp
    then show thesis using 2 assms(3,4) i on_field_simps(3) [OF assms(2)] by simp
  next
    case 3
    then have "snd (pb_field_iter_next it) = iter_at tbl dest 0" using n by simp
    then show thesis
      using 3 assms(3,4) i on_field_iter_at [of 0 tbl dest count]
      by (intro that [of 0]) (auto simp: cyclic_distance_def)
  qed
qed

lemma on_field_step_pos:
  assumes "wf_table tbl" "on_field tbl dest count i it"
  obtains j where "on_field tbl dest count j (snd (pb_field_iter_next it))"
  using on_field_next [OF assms] assms(2) on_field_iter_at [of "Suc i" tbl dest count]
    on_field_iter_at [of 0 tbl dest count]
  by (auto split: if_splits)

lemma find_loop_on_field:
  assumes "wf_table tbl" "start < max 1 (num_fields tbl)"
  shows "on_field tbl dest count i it \<Longrightarrow>
    \<exists>b j it'. find_loop start tag it = Some (b, it') \<and> on_field tbl dest count j it'"
proof (induction "cyclic_distance tbl start i" arbitrary: i it rule: less_induct)
  case less
  show ?case
  proof (cases "fd_tag (it_field it) = tag \<and> PB_LTYPE (fd_type (it_field it)) \<noteq> PB_LTYPE_EXTENSION")
    case True
    then show ?thesis using less.prems by (subst find_loop.simps) auto
  next
    case False
    show ?thesis
    proof (cases "it_pos (snd (pb_field_iter_next it)) = start")
      case True
      then show ?thesis
        using False on_field_step_pos [OF assms(1) less.prems] by (subst find_loop.simps) (auto simp: Let_def)
    next
      case go: False
      obtain j where "on_field tbl dest count j (snd (pb_field_iter_next it))"
        "cyclic_distance tbl start j < cyclic_distance tbl start i"
        using on_field_step [OF assms(1) less.prems assms(2) go] .
      from less.hyps [OF this(2,1)] show ?thesis
        using False go by (subst find_loop.simps) (auto simp: Let_def)
    qed
  qed
qed

lemma pb_field_iter_find_on_field:
  assumes "wf_table tbl" "on_field tbl dest count i it"
  obtains b j it' where "pb_field_iter_find it tag = Some (b, it')" "on_field tbl dest count j it'"
  using find_loop_on_field [OF assms(1) _ assms(2), of i tag] assms(2)
  by (auto simp: pb_field_iter_find_def on_field_simps(3) [OF assms(2)] on_field_def)

lemma find_extension_loop_on_field:
  assumes "wf_table tbl" "start < max 1 (num_fields tbl)"
    "\<And>i. i < max 1 (num_fields tbl) \<Longrightarrow> PB_LTYPE (fd_type (field_at tbl i)) \<noteq> PB_LTYPE_EXTENSION"
  shows "on_field tbl dest count i it \<Longrightarrow>
    \<exists>j it'. find_extension_loop start it = Some (False, it') \<and> on_field tbl dest count j it'"
proof (induction "cyclic_distance tbl start i" arbitrary: i it rule: less_induct)
  case less
  have ne: "PB_LTYPE (fd_type (it_field it)) \<noteq> PB_LTYPE_EXTENSION"
    using less.prems assms(3) by (simp add: on_field_simps(1) [OF less.prems] on_field_def)
  show ?case
  proof (cases "it_pos (snd (pb_field_iter_next it)) = start")
    case True
    then show ?thesis
      using ne on_field_step_pos [OF assms(1) less.prems] by (subst find_extension_loop.simps) (auto simp: Let_def)
  next
    case go: False
    obtain j where "on_field tbl dest count j (snd (pb_field_iter_next it))"
      "cyclic_distance tbl start j < cyclic_distance tbl start i"
      using on_field_step [OF assms(1) less.prems assms(2) go] .
    from less.hyps [OF this(2,1)] show ?thesis
      using ne go by (subst find_extension_loop.simps) (auto simp: Let_def)
  qed
qed

lemma find_extension_field_on_field:
  assumes "wf_table tbl" "on_field tbl dest count i it"
    "\<And>i. i < max 1 (num_fields tbl) \<Longrightarrow> PB_LTYPE (fd_type (field_at tbl i)) \<noteq> PB_LTYPE_EXTENSION"
  obtains j it' where "find_extension_field it = Some (False, it')" "on_field tbl dest count j it'"
  using find_extension_loop_on_field [OF assms(1) _ assms(3) assms(2), of i] assms(2)
  by (auto simp: find_extension_field_def on_field_simps(3) [OF assms(2)] on_field_def)

text \<open>A walk over all fields keeps an invariant that each field keeps.\<close>

lemma iter_while_invariant:
  assumes "wf_table tbl"
    and body: "\<And>j s. j < num_fields tbl \<Longrightarrow> P s \<Longrightarrow> \<exists>s'. body (iter_at tbl dest j) s = Some (True, s') \<and> P s'"
  shows "i < num_fields tbl \<Longrightarrow> P s \<Longrightarrow> \<exists>s'. iter_while body (iter_at tbl dest i) s = Some (True, s') \<and> P s'"
proof (induction "num_fields tbl - i" arbitrary: i s)
  case (Suc k)
  obtain s1 where b: "body (iter_at tbl dest i) s = Some (True, s1)" "P s1" using body Suc.prems by blast
  show ?case
  proof (cases "Suc i < num_fields tbl")
    case True
    then show ?thesis
      using Suc.hyps(1) [of "Suc i" s1] Suc.hyps(2) b pb_field_iter_next_at [OF assms(1) Suc.prems(1)]
      by (subst iter_while.simps) simp
  next
    case False
    then show ?thesis
      using b pb_field_iter_next_at [OF assms(1) Suc.prems(1)] by (subst iter_while.simps) simp
  qed
qed simp

lemma message_walk_invariant:
  assumes "wf_table tbl" "P d"
    and body: "\<And>j d. j < num_fields tbl \<Longrightarrow> P d \<Longrightarrow> \<exists>d'. body (iter_at tbl dest j) d = Some d' \<and> P d'"
  shows "\<exists>d'. message_walk body tbl dest d = Some d' \<and> P d'"
proof (cases "num_fields tbl = 0")
  case True
  then show ?thesis using assms by (simp add: message_walk_def pb_field_iter_begin_at)
next
  case False
  have "\<exists>d'. iter_while (\<lambda>it d. map_option (\<lambda>d'. (True, d')) (body it d)) (iter_at tbl dest 0) d = Some (True, d') \<and> P d'"
    using False assms(2) by (intro iter_while_invariant assms(1)) (auto dest: body)
  then show ?thesis using False assms(1) by (auto simp: message_walk_def pb_field_iter_begin_at)
qed

subsection \<open>Where the fields of a static message lie\<close>

lemma unat_add_le: "unat (a + b) \<le> unat a + unat b" for a b :: "'a::len word"
  by (simp add: unat_word_ariths)

lemma static_msg_field:
  assumes "static_msg tabs (Suc n) tbl sz" "i < max 1 (num_fields tbl)"
  shows "static_field (static_msg tabs n) tabs tbl sz i"
  using assms by (auto simp: list_all_iff)

lemma static_field_data:
  assumes "static_field sub tabs tbl sz i" "PB_HTYPE (fd_type (field_at tbl i)) \<noteq> PB_HTYPE_REPEATED"
  shows "region (data_addr tbl dest i) (item_extent (field_at tbl i)) \<subseteq> region dest sz"
  unfolding data_addr_shift [of tbl dest]
  using assms by (intro region_offset) (simp add: static_field_def Let_def)

lemma static_field_item:
  assumes "static_field sub tabs tbl sz i" "PB_HTYPE (fd_type (field_at tbl i)) = PB_HTYPE_REPEATED"
    "k < fd_array_size (field_at tbl i)"
  shows "region (array_item (field_at tbl i) (data_addr tbl dest i) k) (item_extent (field_at tbl i)) \<subseteq> region dest sz"
proof -
  let ?f = "field_at tbl i"
  let ?n = "unat (fd_data_size ?f)"
  have sf: "unat (data_addr tbl 0 i) + ?n * unat (fd_array_size ?f) \<le> sz"
    "?n * unat (fd_array_size ?f) < 2 ^ 32" "scalar_width ?f \<le> ?n"
    using assms(1,2) by (simp_all add: static_field_def Let_def)
  have ext: "item_extent ?f = ?n" using sf(3) by (simp add: item_extent_def)
  have k: "unat k < unat (fd_array_size ?f)" using assms(3) by (simp add: word_less_nat_alt)
  have nk: "?n * unat k + ?n \<le> ?n * unat (fd_array_size ?f)"
    using mult_le_mono2 [of "Suc (unat k)" "unat (fd_array_size ?f)" ?n] k by (simp add: add.commute)
  have "unat (fd_data_size ?f * k) = ?n * unat k"
    using nk sf(2) by (subst unat_mult_lem [THEN iffD1]) simp_all
  then have "unat (ucast (fd_data_size ?f * k) :: u64) = ?n * unat k"
    by (simp add: unat_ucast_up)
  then have "unat (data_addr tbl 0 i + ucast (fd_data_size ?f * k)) \<le> unat (data_addr tbl 0 i) + ?n * unat k"
    using unat_add_le [of "data_addr tbl 0 i" "ucast (fd_data_size ?f * k)"] by simp
  then have "unat (data_addr tbl 0 i + ucast (fd_data_size ?f * k)) + ?n \<le> sz"
    using nk sf(1) by linarith
  then show ?thesis
    unfolding array_item_def ext data_addr_shift [of tbl dest] add.assoc by (rule region_offset)
qed

lemma static_field_flag:
  assumes "static_field sub tabs tbl sz i" "PB_HTYPE (fd_type (field_at tbl i)) = PB_HTYPE_OPTIONAL"
    "size_addr tbl dest i \<noteq> data_addr tbl dest i"
  shows "region (size_addr tbl dest i) 1 \<subseteq> region dest sz"
  unfolding size_addr_shift [of tbl dest]
  using assms by (intro region_offset)
    (simp add: static_field_def Let_def size_addr_shift [of tbl dest] data_addr_shift [of tbl dest])

lemma static_field_counter:
  assumes "static_field sub tabs tbl sz i"
    "PB_HTYPE (fd_type (field_at tbl i)) = PB_HTYPE_REPEATED \<or> PB_HTYPE (fd_type (field_at tbl i)) = PB_HTYPE_ONEOF"
  shows "region (size_addr tbl dest i) 4 \<subseteq> region dest sz"
  unfolding size_addr_shift [of tbl dest]
  using assms by (intro region_offset) (auto simp: static_field_def Let_def)

lemma static_field_type:
  assumes "static_field sub tabs tbl sz i"
  shows "PB_ATYPE (fd_type (field_at tbl i)) = PB_ATYPE_STATIC"
    "PB_LTYPE (fd_type (field_at tbl i)) \<le> PB_LTYPE_FIXED_LENGTH_BYTES"
    "PB_LTYPE (fd_type (field_at tbl i)) \<noteq> PB_LTYPE_EXTENSION"
    "PB_LTYPE (fd_type (field_at tbl i)) = PB_LTYPE_SUBMESSAGE \<Longrightarrow>
      sub (tabs (fd_ptr (field_at tbl i))) (unat (fd_data_size (field_at tbl i)))"
  using assms by (simp_all add: static_field_def Let_def)

subsection \<open>Defaults and release in a static message\<close>

lemma static_set_to_default:
  assumes sf: "static_field sub (de_tabs env) tbl sz i" and i: "i < num_fields tbl"
    and sub: "\<And>t n p d. sub t n \<Longrightarrow>
      \<exists>d'. message_walk (pb_field_set_to_default env k) t p d = Some d' \<and> frame (region p n) d d'"
  shows "\<exists>d'. pb_field_set_to_default env (Suc k) (iter_at tbl dest i) d = Some d' \<and> frame (region dest sz) d d'"
proof -
  let ?f = "field_at tbl i"
  let ?d1 = "if PB_HTYPE (fd_type ?f) = PB_HTYPE_OPTIONAL \<and> size_addr tbl dest i \<noteq> data_addr tbl dest i
    then put_bool (size_addr tbl dest i) False d else d"
  have ps: "it_pSize (iter_at tbl dest i) = size_addr tbl dest i" by (simp add: iter_at_def)
  have d1: "frame (region dest sz) d ?d1"
    using frame_mono [OF frame_put_bool [OF order_refl] static_field_flag [OF sf]] by simp
  show ?thesis
  proof (cases "PB_HTYPE (fd_type ?f) = PB_HTYPE_REPEATED \<or> PB_HTYPE (fd_type ?f) = PB_HTYPE_ONEOF")
    case True
    then show ?thesis
      using static_field_type [OF sf] frame_mono [OF frame_put_u32 [OF order_refl] static_field_counter [OF sf]]
      by (simp add: ps Let_def)
  next
    case False
    have "region (data_addr tbl dest i) (unat (fd_data_size ?f)) \<subseteq> region dest sz"
      using static_field_data [OF sf, of dest] region_mono [OF item_extent_size] False by blast
    then have fr: "frame (region (data_addr tbl dest i) (unat (fd_data_size ?f))) ?d1 d' \<Longrightarrow> frame (region dest sz) d d'" for d'
      using d1 by (blast intro: frame_trans frame_mono)
    obtain d2 where "PB_LTYPE (fd_type ?f) = PB_LTYPE_SUBMESSAGE \<longrightarrow>
        message_walk (pb_field_set_to_default env k) (de_tabs env (fd_ptr ?f)) (data_addr tbl dest i) ?d1 = Some d2 \<and>
        frame (region (data_addr tbl dest i) (unat (fd_data_size ?f))) ?d1 d2"
      using sub [OF static_field_type(4) [OF sf]] by blast
    then show ?thesis
      using False static_field_type [OF sf] fr frame_put_bytes [OF order_refl]
      by (simp add: ps Let_def frame_put_bytes)
  qed
qed

lemma static_set_to_defaults:
  "static_msg (de_tabs env) n tbl sz \<Longrightarrow> n \<le> k \<Longrightarrow>
   \<exists>d'. pb_message_set_to_defaults env k tbl dest d = Some d' \<and> frame (region dest sz) d d'"
proof (induction n arbitrary: k tbl sz dest d)
  case (Suc n)
  then obtain k' where k: "k = Suc k'" "n \<le> k'" by (cases k) auto
  have wf: "wf_table tbl" using Suc.prems by simp
  have "\<exists>d'. message_walk (pb_field_set_to_default env k) tbl dest d = Some d' \<and> frame (region dest sz) d d'"
  proof (rule message_walk_invariant [OF wf, where P = "frame (region dest sz) d"])
    fix j d1 assume j: "j < num_fields tbl" "frame (region dest sz) d d1"
    have "static_field (static_msg (de_tabs env) n) (de_tabs env) tbl sz j"
      using j by (intro static_msg_field [OF Suc.prems(1)]) simp
    from static_set_to_default [OF this j(1), of k' dest d1] Suc.IH [OF _ k(2)]
    obtain d2 where "pb_field_set_to_default env (Suc k') (iter_at tbl dest j) d1 = Some d2"
      "frame (region dest sz) d1 d2" by (auto simp: pb_message_set_to_defaults_def)
    then show "\<exists>d'. pb_field_set_to_default env k (iter_at tbl dest j) d1 = Some d' \<and> frame (region dest sz) d d'"
      using j(2) k by (blast intro: frame_trans)
  qed simp
  then show ?case by (simp add: pb_message_set_to_defaults_def)
qed simp

lemma release_items_id: "(\<And>p d. rel p d = Some d) \<Longrightarrow> release_items rel p step n d = Some d"
  by (induction n arbitrary: p) simp_all

lemma static_release_single:
  assumes "static_field sub (de_tabs env) tbl sz i" "on_field tbl dest count i it"
    and sub: "\<And>t n p d. sub t n \<Longrightarrow> pb_release env k t p d = Some d"
  shows "pb_release_single_field env (Suc k) it d = Some d"
proof -
  let ?f = "field_at tbl i"
  have "PB_LTYPE (fd_type ?f) = PB_LTYPE_SUBMESSAGE \<Longrightarrow>
      release_items (pb_release_with (pb_release_single_field env k) (de_tabs env (fd_ptr ?f))) p st n d = Some d" for p st n
    using sub [OF static_field_type(4) [OF assms(1)]] by (intro release_items_id) (simp add: pb_release_def)
  then show ?thesis
    using static_field_type [OF assms(1)] by (simp add: on_field_simps(1) [OF assms(2)] Let_def)
qed

lemma static_release:
  "static_msg (de_tabs env) n tbl sz \<Longrightarrow> n \<le> k \<Longrightarrow> pb_release env k tbl dest d = Some d"
proof (induction n arbitrary: k tbl sz dest d)
  case (Suc n)
  then obtain k' where k: "k = Suc k'" "n \<le> k'" by (cases k) auto
  have wf: "wf_table tbl" using Suc.prems by simp
  have "\<exists>d'. message_walk (pb_release_single_field env k) tbl dest d = Some d' \<and> d' = d"
  proof (rule message_walk_invariant [OF wf])
    fix j d1 assume j: "j < num_fields tbl" "d1 = d"
    have "static_field (static_msg (de_tabs env) n) (de_tabs env) tbl sz j"
      using j by (intro static_msg_field [OF Suc.prems(1)]) simp
    from static_release_single [OF this, of dest 0 "iter_at tbl dest j" k' d1] Suc.IH [OF _ k(2)]
    show "\<exists>d'. pb_release_single_field env k (iter_at tbl dest j) d1 = Some d' \<and> d' = d"
      using j k by (auto simp: on_field_def)
  qed simp
  then show ?case by (simp add: pb_release_def pb_release_with_def)
qed simp

lemma static_release_union:
  assumes st: "static_msg (de_tabs env) n tbl sz" "n \<le> k" and on: "on_field tbl dest count i it" and s: "is_buffered s"
  shows "\<exists>ok j it' s'. pb_release_union_field env k it s d = Some (ok, it', s', d) \<and>
    on_field tbl dest count j it' \<and> reads s s'"
proof -
  have wf: "wf_table tbl" using st by (cases n) auto
  obtain n' where n: "n = Suc n'" using st by (cases n) auto
  obtain k' where k: "k = Suc k'" "n' \<le> k'" using st n by (cases k) auto
  have rel: "pb_release_single_field env k it1 d = Some d" if "on_field tbl dest count j it1" for j it1
    unfolding k(1) using that st(1) static_release [OF _ k(2)]
    by (intro static_release_single [OF static_msg_field that]) (auto simp: n on_field_def)
  obtain b j it1 where f1: "pb_field_iter_find it (get_u32 d (it_pSize it)) = Some (b, it1)" "on_field tbl dest count j it1"
    using pb_field_iter_find_on_field [OF wf on] .
  obtain b2 j2 it2 where f2: "pb_field_iter_find it1 (fd_tag (it_field it)) = Some (b2, it2)" "on_field tbl dest count j2 it2"
    using pb_field_iter_find_on_field [OF wf f1(2)] .
  show ?thesis
    using on f1 f2 rel [OF f1(2)] by (cases b; cases b2) (auto simp: pb_release_union_field_def Let_def)
qed

subsection \<open>Decoding a field of a static message\<close>

lemma HTYPE_cases:
  "PB_HTYPE t = PB_HTYPE_REQUIRED \<or> PB_HTYPE t = PB_HTYPE_OPTIONAL \<or> PB_HTYPE t = PB_HTYPE_REPEATED \<or>
   PB_HTYPE t = PB_HTYPE_ONEOF"
proof -
  have "PB_HTYPE t = (if bit t 4 then 0x10 else 0) OR (if bit t 5 then 0x20 else 0)" (is "_ = ?r")
  proof (rule bit_word_eqI)
    fix n assume "n < LENGTH(8)"
    then have "n \<in> {0, 1, 2, 3, 4, 5, 6, 7}" by auto
    then show "bit (PB_HTYPE t) n = bit ?r n"
      by (auto simp: PB_HTYPE_def bit_simps)
  qed
  then show ?thesis by (cases "bit t 4"; cases "bit t 5") simp_all
qed

lemma static_packed_loop_safe:
  assumes func: "\<And>s d k. is_buffered s \<Longrightarrow> k < fd_array_size f \<Longrightarrow> safe_run R s d (func (array_item f pData k) s d)"
    and progress: "\<And>p s d s' d'. is_buffered s \<Longrightarrow> func p s d = Some (True, s', d') \<Longrightarrow> is_bytes_left s' < is_bytes_left s"
    and count: "region count_p 4 \<subseteq> R"
  shows "is_buffered s \<Longrightarrow> safe_run R s d (static_packed_loop func f pData count_p s d)"
proof (induction "is_bytes_left s" arbitrary: s d rule: less_induct)
  case less
  show ?case
  proof (cases "is_bytes_left s > 0 \<and> get_u32 d count_p < fd_array_size f")
    case False
    then show ?thesis by (subst static_packed_loop.simps) auto
  next
    case True
    obtain ok s1 d1 where f: "func (array_item f pData (get_u32 d count_p)) s d = Some (ok, s1, d1)"
      "reads s s1" "frame R d d1"
      using func [OF less.prems conjunct2 [OF True], of d] by (auto simp: safe_run_def)
    let ?d2 = "put_u32 count_p (get_u32 d1 count_p + 1) d1"
    have fr: "frame R d ?d2"
      using frame_mono [OF frame_put_u32 [OF order_refl] count] f(3) by (blast intro: frame_trans)
    show ?thesis
    proof (cases ok)
      case False
      then show ?thesis using True f by (subst static_packed_loop.simps) simp
    next
      case ok: True
      have "safe_run R s1 ?d2 (static_packed_loop func f pData count_p s1 ?d2)"
        using ok f by (intro less.hyps progress [OF less.prems] reads_buffered [OF less.prems]) auto
      then have "safe_run R s d (static_packed_loop func f pData count_p s1 ?d2)"
        using f(2) fr by (rule safe_run_later)
      then show ?thesis using True f ok by (subst static_packed_loop.simps) simp
    qed
  qed
qed

text \<open>What the recursive calls of a decoder on the submessages of a message do, and the decoder of one item.\<close>

definition static_calls ::
  "(pb_field list \<Rightarrow> nat \<Rightarrow> bool) \<Rightarrow> dec_env \<Rightarrow> nat \<Rightarrow> pbd \<Rightarrow> u64 set \<Rightarrow> bool" where
  "static_calls sub env k pbd L \<longleftrightarrow>
     (\<forall>init t n p s d. sub t n \<longrightarrow> is_buffered s \<longrightarrow> safe_run (region p n \<union> L) s d (pbd init t p s d)) \<and>
     (\<forall>t n p d. sub t n \<longrightarrow>
        (\<exists>d'. pb_message_set_to_defaults env k t p d = Some d' \<and> frame (region p n) d d'))"

lemma static_item_safe:
  assumes "static_field sub (de_tabs env) tbl sz i" "static_calls sub env k pbd L" "is_buffered s"
    "region p (item_extent (field_at tbl i)) \<subseteq> region dest sz"
  shows "safe_run (region dest sz \<union> L) s d (PB_DECODERS env pbd (field_at tbl i) p s d)"
proof -
  have "safe_run (region p (item_extent (field_at tbl i)) \<union> L) s d (PB_DECODERS env pbd (field_at tbl i) p s d)"
    using static_field_type [OF assms(1)] assms(2,3) by (intro PB_DECODERS_safe) (simp_all add: static_calls_def)
  then show ?thesis by (rule safe_run_mono) (use assms(4) in blast)
qed

lemma frame_region: "region p n \<subseteq> R \<Longrightarrow> length bs \<le> n \<Longrightarrow> frame R d (put_bytes p bs d)"
  by (rule frame_mono [OF frame_put_bytes])

lemma frame_counter: "region p 4 \<subseteq> R \<Longrightarrow> frame R d (put_u32 p w d)"
  by (rule frame_mono [OF frame_put_u32 [OF order_refl]])

lemma frame_flag: "region p 1 \<subseteq> R \<Longrightarrow> frame R d (put_bool p b d)"
  by (rule frame_mono [OF frame_put_bool [OF order_refl]])

lemma static_optional_safe:
  assumes sf: "static_field sub (de_tabs env) tbl sz i" and on: "on_field tbl dest count i it" and s: "is_buffered s"
    and calls: "static_calls sub env k pbd L"
    and opt: "PB_HTYPE (fd_type (field_at tbl i)) = PB_HTYPE_REQUIRED \<or> PB_HTYPE (fd_type (field_at tbl i)) = PB_HTYPE_OPTIONAL"
  shows "safe_run (region dest sz \<union> L) s d (decode_static_field env k pbd wt it s d)"
proof -
  note it = on_field_simps(1,2) [OF on]
  have ps: "it_pSize it = size_addr tbl dest i" using on_field_simps(5) [OF on] opt by auto
  have nr: "PB_HTYPE (fd_type (field_at tbl i)) \<noteq> PB_HTYPE_REPEATED" using opt by auto
  note run = static_item_safe [OF sf calls s static_field_data [OF sf nr]]
  let ?d1 = "put_bool (size_addr tbl dest i) True d"
  have fr: "frame (region dest sz \<union> L) d ?d1"
    if "PB_HTYPE (fd_type (field_at tbl i)) = PB_HTYPE_OPTIONAL" "size_addr tbl dest i \<noteq> data_addr tbl dest i"
    by (rule frame_flag) (use static_field_flag [OF sf that] in blast)
  show ?thesis
    using opt run [where d = d] safe_run_later [OF run [where d = ?d1] reads_refl fr]
    by (auto simp: decode_static_field_def it ps Let_def)
qed

lemma static_repeated_safe:
  assumes sf: "static_field sub (de_tabs env) tbl sz i" and on: "on_field tbl dest count i it" and s: "is_buffered s"
    and calls: "static_calls sub env k pbd L" and count: "region count 4 \<subseteq> L"
    and rep: "PB_HTYPE (fd_type (field_at tbl i)) = PB_HTYPE_REPEATED"
  shows "safe_run (region dest sz \<union> L) s d (decode_static_field env k pbd wt it s d)"
proof -
  let ?f = "field_at tbl i" and ?R = "region dest sz \<union> L" and ?pD = "data_addr tbl dest i"
  let ?func = "PB_DECODERS env pbd ?f"
  note it = on_field_simps(1,2) [OF on]
  have "region (size_addr tbl dest i) 4 \<subseteq> region dest sz" using static_field_counter [OF sf] rep by blast
  then have "region p 4 \<subseteq> ?R" if "p = size_addr tbl dest i \<or> p = count" for p
    using that count by blast
  then have ps: "region (it_pSize it) 4 \<subseteq> ?R" using on_field_simps(5) [OF on] by blast
  have item: "safe_run ?R s d (?func (array_item ?f ?pD j) s d)" if "is_buffered s" "j < fd_array_size ?f" for s d j
    using static_item_safe [OF sf calls that(1) static_field_item [OF sf rep that(2)]] .
  show ?thesis
  proof (cases "wt = wire_code PB_WT_STRING \<and> PB_LTYPE (fd_type ?f) \<le> PB_LTYPE_LAST_PACKABLE")
    case True
    obtain v s1 where mk: "pb_make_string_substream s = (v, s1)" by fastforce
    note r1 = pb_make_string_substream_reads [OF s mk]
    show ?thesis
    proof (cases v)
      case None
      then show ?thesis using rep True mk r1(1) by (simp add: decode_static_field_def it)
    next
      case (Some sub)
      have "safe_run ?R sub d (static_packed_loop ?func ?f ?pD (it_pSize it) sub d)"
        using True by (intro static_packed_loop_safe item ps r1(2) [OF Some] PB_DECODERS_progress) blast+
      then obtain ok sub1 d1 where l: "static_packed_loop ?func ?f ?pD (it_pSize it) sub d = Some (ok, sub1, d1)"
        "reads sub sub1" "frame ?R d d1" by (auto simp: safe_run_def)
      obtain ok2 s2 where c: "pb_close_string_substream s1 sub1 = (ok2, s2)" by fastforce
      show ?thesis
        using rep True mk Some l c r1(1) r1(3) [OF Some l(2) c]
        by (simp add: decode_static_field_def it safe_run_fail)
    qed
  next
    case False
    have un: "decode_static_field env k pbd wt it s d =
      (let n = get_u32 d (it_pSize it); d1 = put_u32 (it_pSize it) (n + 1) d
       in if n \<ge> fd_array_size ?f then dec_fail ''array overflow'' s d1 else ?func (array_item ?f ?pD n) s d1)"
      using rep False by (auto simp: decode_static_field_def it Let_def)
    show ?thesis
      using item [OF s, THEN safe_run_later, OF _ reads_refl frame_counter [OF ps]] frame_counter [OF ps]
      by (simp add: un Let_def safe_run_fail not_le)
  qed
qed

lemma static_oneof_safe:
  assumes sf: "static_field sub (de_tabs env) tbl sz i" and on: "on_field tbl dest count i it" and s: "is_buffered s"
    and calls: "static_calls sub env k pbd L" and one: "PB_HTYPE (fd_type (field_at tbl i)) = PB_HTYPE_ONEOF"
  shows "safe_run (region dest sz \<union> L) s d (decode_static_field env k pbd wt it s d)"
proof -
  let ?f = "field_at tbl i" and ?R = "region dest sz \<union> L" and ?pD = "data_addr tbl dest i"
  note it = on_field_simps(1,2) [OF on]
  have ps: "it_pSize it = size_addr tbl dest i" using on_field_simps(5) [OF on] one by auto
  have nr: "PB_HTYPE (fd_type ?f) \<noteq> PB_HTYPE_REPEATED" using one by simp
  note run = static_item_safe [OF sf calls s static_field_data [OF sf nr]]
  let ?d1 = "put_u32 (size_addr tbl dest i) (fd_tag ?f) d"
  let ?d2 = "put_bytes ?pD (replicate (unat (fd_data_size ?f)) 0) ?d1"
  have c: "region (size_addr tbl dest i) 4 \<subseteq> region dest sz" using static_field_counter [OF sf] one by blast
  have dr: "region ?pD (unat (fd_data_size ?f)) \<subseteq> ?R"
    using static_field_data [OF sf nr, of dest] region_mono [OF item_extent_size] by blast
  have f1: "frame ?R d ?d1" by (rule frame_counter) (use c in blast)
  have f2: "frame ?R ?d1 ?d2" using dr by (rule frame_region) simp
  show ?thesis
  proof (cases "PB_LTYPE (fd_type ?f) = PB_LTYPE_SUBMESSAGE")
    case True
    then obtain d3 where d3: "pb_message_set_to_defaults env k (de_tabs env (fd_ptr ?f)) ?pD ?d2 = Some d3"
        "frame (region ?pD (unat (fd_data_size ?f))) ?d2 d3"
      using calls static_field_type(4) [OF sf] unfolding static_calls_def by blast
    have "frame ?R d d3"
      using frame_trans [OF frame_trans [OF f1 f2] frame_mono [OF d3(2) dr]] .
    from safe_run_later [OF run reads_refl this] show ?thesis
      using one True d3(1) by (simp add: decode_static_field_def it ps Let_def)
  next
    case False
    from safe_run_later [OF run reads_refl f1] show ?thesis
      using one False by (simp add: decode_static_field_def it ps Let_def)
  qed
qed

lemma decode_static_field_safe:
  assumes "static_field sub (de_tabs env) tbl sz i" "on_field tbl dest count i it" "is_buffered s"
    "static_calls sub env k pbd L" "region count 4 \<subseteq> L"
  shows "safe_run (region dest sz \<union> L) s d (decode_static_field env k pbd wt it s d)"
  using HTYPE_cases [of "fd_type (field_at tbl i)"] static_optional_safe [OF assms(1-4)]
    static_repeated_safe [OF assms] static_oneof_safe [OF assms(1-4)] by blast

lemma decode_field_safe:
  assumes st: "static_msg (de_tabs env) (Suc n) tbl sz" "Suc n \<le> k" and on: "on_field tbl dest count i it" and s: "is_buffered s"
    and calls: "static_calls (static_msg (de_tabs env) n) env k pbd L" and count: "region count 4 \<subseteq> L"
  shows "\<exists>ok j it' s' d'. decode_field env k pbd wt it s d = Some (ok, it', s', d') \<and>
    on_field tbl dest count j it' \<and> reads s s' \<and> frame (region dest sz \<union> L) d d'"
proof -
  obtain ok1 j it1 s1 where u: "(if PB_HTYPE (fd_type (it_field it)) = PB_HTYPE_ONEOF then pb_release_union_field env k it s d
      else Some (True, it, s, d)) = Some (ok1, it1, s1, d)" "on_field tbl dest count j it1" "reads s s1"
    using static_release_union [OF st on s, of d] on by (cases "PB_HTYPE (fd_type (it_field it)) = PB_HTYPE_ONEOF") auto
  have j: "j < max 1 (num_fields tbl)" using u(2) by (simp add: on_field_def)
  note sf = static_msg_field [OF st(1) j]
  have "safe_run (region dest sz \<union> L) s1 d (decode_static_field env k pbd wt it1 s1 d)"
    by (rule decode_static_field_safe [OF sf u(2) reads_buffered [OF s u(3)] calls count])
  then obtain ok2 s2 d2 where f: "decode_static_field env k pbd wt it1 s1 d = Some (ok2, s2, d2)" "reads s1 s2"
    "frame (region dest sz \<union> L) d d2" by (auto simp: safe_run_def)
  show ?thesis
  proof (cases ok1)
    case False
    then show ?thesis using u by (auto simp: decode_field_def)
  next
    case True
    have "decode_field env k pbd wt it s d = Some (ok2, it1, s2, d2)"
      using u(1) f(1) True static_field_type(1) [OF sf] on_field_simps(1) [OF u(2)]
      by (simp add: decode_field_def)
    then show ?thesis using u(2) f reads_trans [OF u(3) f(2)] by blast
  qed
qed

subsection \<open>The message loop on a static message\<close>

definition msg_ok :: "pb_field list \<Rightarrow> u64 \<Rightarrow> u64 \<Rightarrow> u64 set \<Rightarrow> msg_state \<Rightarrow> msg_state \<Rightarrow> bool" where
  "msg_ok tbl dest count R m m' \<longleftrightarrow> reads (ms_stream m) (ms_stream m') \<and> frame R (ms_dm m) (ms_dm m') \<and>
     (\<exists>i. on_field tbl dest count i (ms_iter m'))"

lemma msg_ok_trans: "msg_ok tbl dest count R m m1 \<Longrightarrow> msg_ok tbl dest count R m1 m2 \<Longrightarrow> msg_ok tbl dest count R m m2"
  by (auto simp: msg_ok_def dest: reads_trans frame_trans)

lemma msg_skip_ok:
  assumes "is_buffered (ms_stream m)" "on_field tbl dest count i (ms_iter m)"
  shows "\<exists>c m'. msg_skip wt m = Some (c, m') \<and> msg_ok tbl dest count R m m'"
  using pb_skip_field_reads [OF assms(1)] assms(2)
  by (cases "pb_skip_field (ms_stream m) wt") (auto simp: msg_skip_def msg_ok_def)

lemma msg_unknown_ok:
  assumes "static_msg tabs (Suc n) tbl sz" "is_buffered (ms_stream m)" "on_field tbl dest count i (ms_iter m)"
    "tag \<noteq> - 1"
  shows "\<exists>c m'. msg_unknown env k pbd tag wt m = Some (c, m') \<and> msg_ok tbl dest count R m m'"
proof (cases "tag \<ge> ms_ext_start m")
  case False
  then show ?thesis using msg_skip_ok [OF assms(2,3)] by (simp add: msg_unknown_def)
next
  case True
  have wf: "wf_table tbl" using assms(1) by simp
  obtain j it1 where f: "find_extension_field (ms_iter m) = Some (False, it1)" "on_field tbl dest count j it1"
    using find_extension_field_on_field [OF wf assms(3) static_field_type(3) [OF static_msg_field [OF assms(1)]]] .
  let ?m1 = "m\<lparr>ms_iter := it1, ms_ext_start := - 1\<rparr>"
  have "\<not> - 1 \<le> tag" using assms(4) word_order.extremum_unique [of tag] by simp
  then have "msg_unknown env k pbd tag wt m = msg_skip wt ?m1"
    using True f(1) by (simp add: msg_unknown_def Let_def)
  moreover obtain c m' where "msg_skip wt ?m1 = Some (c, m')" "msg_ok tbl dest count R ?m1 m'"
    using msg_skip_ok [of ?m1 tbl dest count j wt R] assms(2) f(2) by auto
  ultimately show ?thesis by (auto simp: msg_ok_def)
qed

lemma msg_fixed_count_ok:
  assumes "on_field tbl dest count i (ms_iter m)" "region count 4 \<subseteq> R" "msg_fixed_count count m = (ok, m')"
  shows "msg_ok tbl dest count R m m' \<and> ms_stream m' = ms_stream m \<and> on_field tbl dest count i (ms_iter m')"
proof -
  have "on_field tbl dest count i ((ms_iter m)\<lparr>it_pSize := count\<rparr>)"
    if "PB_HTYPE (fd_type (it_field (ms_iter m))) = PB_HTYPE_REPEATED"
    using assms(1) that on_field_simps(1) [OF assms(1)] by (auto simp: on_field_def)
  then show ?thesis
    using assms frame_counter [OF assms(2)]
    by (auto simp: msg_fixed_count_def Let_def msg_ok_def split: if_splits)
qed

lemma msg_mark_simps [simp]:
  "ms_stream (msg_mark m) = ms_stream m" "ms_dm (msg_mark m) = ms_dm m" "ms_iter (msg_mark m) = ms_iter m"
  by (simp_all add: msg_mark_def Let_def)

lemma pb_decode_tag_small: "pb_decode_tag s = (True, wt, tag, eof, s') \<Longrightarrow> tag \<noteq> - 1"
proof -
  assume "pb_decode_tag s = (True, wt, tag, eof, s')"
  then obtain v where "tag = drop_bit 3 v"
    by (auto simp: pb_decode_tag_def split: prod.splits option.splits if_splits)
  then have "unat tag = unat v div 2 ^ 3" by (simp only: unat_drop_bit)
  then have "unat tag < 2 ^ 32 - 1"
    using unsigned_less [of v, where ?'a = nat] by simp
  moreover have "unat (- 1 :: u32) = 2 ^ 32 - 1"
    using unsigned_minus_1_eq_mask [where ?'a = nat and ?'b = 32] by (simp add: mask_eq_exp_minus_1)
  ultimately show ?thesis by auto
qed

lemma msg_step_ok:
  assumes st: "static_msg (de_tabs env) (Suc n) tbl sz" "Suc n \<le> k" and s: "is_buffered (ms_stream m)"
    and on: "on_field tbl dest (de_local env k) i (ms_iter m)"
    and calls: "static_calls (static_msg (de_tabs env) n) env k pbd L" and count: "region (de_local env k) 4 \<subseteq> L"
  shows "\<exists>c m'. msg_step env k pbd m = Some (c, m') \<and> msg_ok tbl dest (de_local env k) (region dest sz \<union> L) m m' \<and>
    (c = Continue \<longrightarrow> is_bytes_left (ms_stream m') < is_bytes_left (ms_stream m))"
proof -
  let ?R = "region dest sz \<union> L" and ?count = "de_local env k"
  have wf: "wf_table tbl" using st by simp
  obtain ok wt tag eof s1 where t: "pb_decode_tag (ms_stream m) = (ok, wt, tag, eof, s1)"
    by (cases "pb_decode_tag (ms_stream m)")
  note r1 = pb_decode_tag_reads [OF s t]
  show ?thesis
  proof (cases ok)
    case False
    then show ?thesis using t r1 on by (auto simp: msg_step_def msg_ok_def)
  next
    case True
    note r1 = conjunct1 [OF r1] mp [OF conjunct2 [OF r1] True]
    note b1 = reads_buffered [OF s r1(1)]
    have tag: "tag \<noteq> - 1" using pb_decode_tag_small [of "ms_stream m" wt tag eof s1] t True by simp
    have adv: ?thesis if "msg_step env k pbd m = Some (c, m')" "msg_ok tbl dest ?count ?R m1 m'"
      "ms_stream m1 = s1" "ms_dm m1 = ms_dm m" for c m' m1
      using that r1 by (auto simp: msg_ok_def dest: reads_trans reads_lt)
    obtain b j it1 where f: "pb_field_iter_find (ms_iter m) tag = Some (b, it1)" "on_field tbl dest ?count j it1"
      using pb_field_iter_find_on_field [OF wf on] .
    let ?m1 = "m\<lparr>ms_stream := s1, ms_iter := it1\<rparr>"
    show ?thesis
    proof (cases b)
      case False
      obtain c m' where "msg_unknown env k pbd tag wt ?m1 = Some (c, m')" "msg_ok tbl dest ?count ?R ?m1 m'"
        using msg_unknown_ok [OF st(1), of ?m1 dest ?count j tag env k pbd wt ?R] b1 f(2) tag by auto
      then show ?thesis using t True f(1) False by (intro adv [of c m' ?m1]) (simp_all add: msg_step_def)
    next
      case found: True
      obtain okf m2 where c: "msg_fixed_count ?count ?m1 = (okf, m2)" by fastforce
      have c2: "msg_ok tbl dest ?count ?R ?m1 m2" "ms_stream m2 = s1" "on_field tbl dest ?count j (ms_iter m2)"
        using msg_fixed_count_ok [OF _ _ c, of tbl dest j ?R] f(2) count by auto
      obtain okd j4 it4 s4 d4 where d: "decode_field env k pbd wt (ms_iter m2) s1 (ms_dm m2) = Some (okd, it4, s4, d4)"
        "on_field tbl dest ?count j4 it4" "reads s1 s4" "frame ?R (ms_dm m2) d4"
        using decode_field_safe [OF st c2(3) b1 calls count] by blast
      show ?thesis
      proof (cases okf)
        case False
        have "msg_ok tbl dest ?count ?R ?m1 (m2\<lparr>ms_stream := is_error s1 ''wrong size for fixed count field''\<rparr>)"
          using c2 by (auto simp: msg_ok_def)
        then show ?thesis
          using t True f(1) found c c2(2) False by (intro adv [of _ _ ?m1]) (simp_all add: msg_step_def msg_fail_def)
      next
        case okT: True
        have "msg_ok tbl dest ?count ?R ?m1 ((msg_mark m2)\<lparr>ms_iter := it4, ms_stream := s4, ms_dm := d4\<rparr>)"
          using c2 d by (auto simp: msg_ok_def intro: frame_trans)
        then show ?thesis
          using t True f(1) found c c2(2) okT d(1) by (intro adv [of _ _ ?m1]) (simp_all add: msg_step_def Let_def)
      qed
    qed
  qed
qed

lemma msg_loop_ok:
  assumes st: "static_msg (de_tabs env) (Suc n) tbl sz" "Suc n \<le> k"
    and calls: "static_calls (static_msg (de_tabs env) n) env k pbd L" and count: "region (de_local env k) 4 \<subseteq> L"
  shows "is_buffered (ms_stream m) \<Longrightarrow> on_field tbl dest (de_local env k) i (ms_iter m) \<Longrightarrow>
    \<exists>ok m'. msg_loop env k pbd m = Some (ok, m') \<and> msg_ok tbl dest (de_local env k) (region dest sz \<union> L) m m'"
proof (induction "is_bytes_left (ms_stream m)" arbitrary: m i rule: less_induct)
  case less
  obtain c m1 where step: "msg_step env k pbd m = Some (c, m1)"
    "msg_ok tbl dest (de_local env k) (region dest sz \<union> L) m m1"
    "c = Continue \<longrightarrow> is_bytes_left (ms_stream m1) < is_bytes_left (ms_stream m)"
    using msg_step_ok [OF st less.prems calls count] by blast
  show ?case
  proof (cases "is_bytes_left (ms_stream m) = 0 \<or> c \<noteq> Continue")
    case True
    then show ?thesis
      using step(1,2) less.prems(2) by (subst msg_loop.simps) (cases c; auto simp: msg_ok_def)
  next
    case False
    obtain j where "is_buffered (ms_stream m1)" "on_field tbl dest (de_local env k) j (ms_iter m1)"
      using step(2) reads_buffered [OF less.prems(1)] by (auto simp: msg_ok_def)
    from less.hyps [OF _ this] False step(3)
    obtain ok m2 where "msg_loop env k pbd m1 = Some (ok, m2)"
      "msg_ok tbl dest (de_local env k) (region dest sz \<union> L) m1 m2" by auto
    then show ?thesis
      using False step(1) msg_ok_trans [OF step(2)] by (subst msg_loop.simps) auto
  qed
qed

lemma pb_decode_noinit_with_safe:
  assumes st: "static_msg (de_tabs env) (Suc n) tbl sz" "Suc n \<le> k" and s: "is_buffered s"
    and calls: "static_calls (static_msg (de_tabs env) n) env k pbd L" and count: "region (de_local env k) 4 \<subseteq> L"
  shows "safe_run (region dest sz \<union> L) s d (pb_decode_noinit_with env k pbd tbl dest s d)"
proof -
  let ?m = "msg_init env k tbl dest s d"
  have wf: "wf_table tbl" using st by simp
  have fr: "frame (region dest sz \<union> L) d (ms_dm ?m)"
    unfolding msg_init_def msg_state.simps by (rule frame_counter) (use count in blast)
  obtain ok m' where l: "msg_loop env k pbd ?m = Some (ok, m')"
    "msg_ok tbl dest (de_local env k) (region dest sz \<union> L) ?m m'"
    using msg_loop_ok [OF st calls count, of ?m dest 0] s on_field_begin [OF wf] by (auto simp: msg_init_def)
  have "reads s (ms_stream m')" "frame (region dest sz \<union> L) d (ms_dm m')"
    using l(2) fr by (auto simp: msg_ok_def msg_init_def intro: frame_trans)
  then show ?thesis
    using l(1) by (cases ok) (auto simp: pb_decode_noinit_with_def msg_finish_def)
qed

text \<open>The counters of the nested calls, and the whole decoder.\<close>

definition locals_of :: "dec_env \<Rightarrow> nat \<Rightarrow> u64 set" where
  "locals_of env n = (\<Union>k < n. region (de_local env k) 4)"

lemma decode_message_safe:
  "static_msg (de_tabs env) n tbl sz \<Longrightarrow> n \<le> k \<Longrightarrow> is_buffered s \<Longrightarrow>
   safe_run (region dest sz \<union> locals_of env (Suc k)) s d (decode_message env (Suc k) init tbl dest s d)"
proof (induction n arbitrary: k tbl sz dest init s d)
  case (Suc n)
  then obtain k' where k: "k = Suc k'" "n \<le> k'" by (cases k) auto
  let ?L = "locals_of env (Suc k)"
  have sub: "locals_of env k \<subseteq> ?L" "region (de_local env k) 4 \<subseteq> ?L" by (auto simp: locals_of_def lessThan_Suc)
  have calls: "static_calls (static_msg (de_tabs env) n) env k (decode_message env k) ?L"
    unfolding static_calls_def
  proof (intro conjI allI impI)
    fix init t m p s d assume "static_msg (de_tabs env) n t m" "is_buffered s"
    from Suc.IH [OF this(1) k(2) this(2)]
    show "safe_run (region p m \<union> ?L) s d (decode_message env k init t p s d)"
      unfolding k(1) [symmetric] by (rule safe_run_mono) (use sub(1) in blast)
  next
    fix t m p d assume "static_msg (de_tabs env) n t m"
    then show "\<exists>d'. pb_message_set_to_defaults env k t p d = Some d' \<and> frame (region p m) d d'"
      using static_set_to_defaults [OF _ le_SucI [OF k(2)]] unfolding k(1) by blast
  qed
  note noinit = pb_decode_noinit_with_safe [OF Suc.prems calls sub(2), of dest]
  show ?case
  proof (cases init)
    case False
    then show ?thesis using noinit by simp
  next
    case True
    obtain d1 where d1: "pb_message_set_to_defaults env k tbl dest d = Some d1" "frame (region dest sz) d d1"
      using static_set_to_defaults [OF Suc.prems(1,2)] by blast
    have fr: "frame (region dest sz \<union> ?L) d d1" using d1(2) by (rule frame_mono) blast
    obtain ok s2 d2 where r: "pb_decode_noinit_with env k (decode_message env k) tbl dest s d1 = Some (ok, s2, d2)"
      "reads s s2" "frame (region dest sz \<union> ?L) d1 d2"
      using noinit [of d1] by (auto simp: safe_run_def)
    show ?thesis
      using True d1(1) r static_release [OF Suc.prems(1,2)] frame_trans [OF fr r(3)] by simp
  qed
qed simp

subsection \<open>The decoder is safe on static messages\<close>

lemma pb_decode_safe_run:
  "static_msg (de_tabs env) n tbl sz \<Longrightarrow> n \<le> k \<Longrightarrow> is_buffered s \<Longrightarrow>
   safe_run (region dest sz \<union> locals_of env (Suc k)) s d (pb_decode env (Suc k) tbl dest s d)"
  unfolding pb_decode_def by (rule decode_message_safe)

lemma delimited_safe:
  assumes "is_buffered s" "\<And>s. is_buffered s \<Longrightarrow> safe_run R s d (body s d)"
  shows "safe_run R s d (delimited body s d)"
proof -
  obtain v s1 where mk: "pb_make_string_substream s = (v, s1)" by fastforce
  note r1 = pb_make_string_substream_reads [OF assms(1) mk]
  show ?thesis
  proof (cases v)
    case None
    then show ?thesis using mk r1(1) by (simp add: delimited_def)
  next
    case (Some sub)
    obtain ok sub1 d1 where b: "body sub d = Some (ok, sub1, d1)" "reads sub sub1" "frame R d d1"
      using assms(2) [OF r1(2) [OF Some]] by (auto simp: safe_run_def)
    obtain ok2 s2 where c: "pb_close_string_substream s1 sub1 = (ok2, s2)" by fastforce
    show ?thesis using mk Some b c r1(3) [OF Some b(2) c] by (simp add: delimited_def)
  qed
qed

lemma pb_decode_delimited_safe_run:
  "static_msg (de_tabs env) n tbl sz \<Longrightarrow> n \<le> k \<Longrightarrow> is_buffered s \<Longrightarrow>
   safe_run (region dest sz \<union> locals_of env (Suc k)) s d (pb_decode_delimited env (Suc k) tbl dest s d)"
  unfolding pb_decode_delimited_def by (intro delimited_safe pb_decode_safe_run)

text \<open>C22: on a message type without pointers and callbacks, nested at most as deep as the fuel, both decoders
  return on every input: each round of the message loop takes a tag off the stream, each round of a packed
  array takes an item, and the searches of the iterator come round.\<close>

theorem pb_decode_terminates:
  assumes "static_msg (de_tabs env) n tbl sz" "n \<le> k" "is_buffered s"
  shows "pb_decode env (Suc k) tbl dest s d \<noteq> None \<and> pb_decode_delimited env (Suc k) tbl dest s d \<noteq> None"
  using pb_decode_safe_run [OF assms, of dest d] pb_decode_delimited_safe_run [OF assms, of dest d]
  by (auto simp: safe_run_def)

definition dec_example_env :: dec_env where
  "dec_example_env = \<lparr>de_tabs = (\<lambda>_. example_table), de_local = (\<lambda>n. 0x8000 + 4 * word_of_nat n),
     de_realloc = (\<lambda>p n d. (0, d)), de_free = (\<lambda>p d. d),
     de_callback = (\<lambda>fn f arg s d. (True, s, d)), de_extension = (\<lambda>fn ext tag wt s d. (True, s, d))\<rparr>"

lemma dec_example_static: "static_msg (de_tabs dec_example_env) 1 example_table 12"
  by code_simp

lemma dec_example_stream: "is_buffered (pb_istream_from_buffer [0x08, 0x2A, 0x1B] 3)"
  by (simp add: is_buffered_def pb_istream_from_buffer_def)

theorem pb_decode_terminates_witness:
  "pb_decode dec_example_env 2 example_table 0x1000 (pb_istream_from_buffer [0x08, 0x2A, 0x1B] 3)
     \<lparr>dm_mem = (\<lambda>_. 0), dm_heap = []\<rparr> \<noteq> None"
  using pb_decode_terminates [OF dec_example_static, of 1 "pb_istream_from_buffer [0x08, 0x2A, 0x1B] 3" "0x1000"
      "\<lparr>dm_mem = (\<lambda>_. 0), dm_heap = []\<rparr>"] dec_example_stream
  by (simp add: numeral_2_eq_2)

text \<open>C1: whatever the input, decoding a message type without pointers and callbacks writes only inside the
  message structure and the counters of the nested calls, and does not touch the allocator: no input makes
  it write past an array, a string, a bytes field or a submessage.\<close>

theorem pb_decode_memory_safe:
  assumes "static_msg (de_tabs env) n tbl sz" "n \<le> k" "is_buffered s"
    and "pb_decode env (Suc k) tbl dest s d = Some (ok, s', d')"
    and "p \<notin> region dest sz" "p \<notin> locals_of env (Suc k)"
  shows "dm_mem d' p = dm_mem d p \<and> dm_heap d' = dm_heap d"
  using pb_decode_safe_run [OF assms(1-3), of dest d] assms(4-6) by (auto simp: frame_def)

theorem pb_decode_memory_safe_witness:
  "map_option (\<lambda>(ok, s', d'). dm_mem d' 0x100C) (pb_decode dec_example_env 2 example_table 0x1000
     (pb_istream_from_buffer [0x08, 0x2A, 0x1B] 3) \<lparr>dm_mem = (\<lambda>_. 7), dm_heap = []\<rparr>) = Some 7"
proof -
  let ?d = "\<lparr>dm_mem = (\<lambda>_. 7), dm_heap = []\<rparr>" and ?s = "pb_istream_from_buffer [0x08, 0x2A, 0x1B] 3"
  obtain ok s' d' where r: "pb_decode dec_example_env (Suc 1) example_table 0x1000 ?s ?d = Some (ok, s', d')"
    using pb_decode_safe_run [OF dec_example_static order_refl dec_example_stream, of "0x1000" ?d] by (auto simp: safe_run_def)
  have out: "0x100C \<notin> region 0x1000 12" "0x100C \<notin> locals_of dec_example_env (Suc 1)"
    by (simp_all add: region_def locals_of_def dec_example_env_def lessThan_nat_numeral lessThan_Suc)
  show ?thesis
    using pb_decode_memory_safe [OF dec_example_static order_refl dec_example_stream r out] r
    by (simp add: numeral_2_eq_2)
qed

text \<open>C25: the decoder never reads outside the window of its stream, whatever lengths the input announces:
  the stream it leaves is over the same buffer, has not faulted, and its window lies inside the one it got.\<close>

theorem pb_decode_stream_bounds:
  assumes "static_msg (de_tabs env) n tbl sz" "n \<le> k" "is_buffered s"
    and "pb_decode env (Suc k) tbl dest s d = Some (ok, s', d')"
  shows "\<not> src_fault (is_state s') \<and> src_buf (is_state s') = src_buf (is_state s) \<and>
    src_pos (is_state s') + is_bytes_left s' \<le> src_pos (is_state s) + is_bytes_left s \<and>
    is_bytes_left s' \<le> is_bytes_left s"
  using pb_decode_safe_run [OF assms(1-3), of dest d] assms(3,4) by (auto simp: reads_def is_buffered_def)

theorem pb_decode_stream_bounds_witness:
  "map_option (\<lambda>(ok, s', d'). src_fault (is_state s')) (pb_decode dec_example_env 2 example_table 0x1000
     (pb_istream_from_buffer [0x08, 0x2A, 0x1B] 3) \<lparr>dm_mem = (\<lambda>_. 7), dm_heap = []\<rparr>) = Some False"
proof -
  let ?d = "\<lparr>dm_mem = (\<lambda>_. 7), dm_heap = []\<rparr>" and ?s = "pb_istream_from_buffer [0x08, 0x2A, 0x1B] 3"
  obtain ok s' d' where r: "pb_decode dec_example_env (Suc 1) example_table 0x1000 ?s ?d = Some (ok, s', d')"
    using pb_decode_safe_run [OF dec_example_static order_refl dec_example_stream, of "0x1000" ?d] by (auto simp: safe_run_def)
  show ?thesis
    using pb_decode_stream_bounds [OF dec_example_static order_refl dec_example_stream r] r by (simp add: numeral_2_eq_2)
qed

text \<open>
  The layout must give a fixed-count array at least four bytes. Without a counter its size pointer is
  its data pointer, and \<open>pb_field_set_to_default\<close> clears a 32-bit count there: a fixed-count array of one
  \<open>bool\<close> has three bytes after it overwritten.
\<close>

definition fixed_bool_table :: "pb_field list" where
  "fixed_bool_table =
     [\<lparr>fd_tag = 1, fd_type = 0x20, fd_data_offset = 0, fd_size_offset = 0, fd_data_size = 1,
       fd_array_size = 1, fd_ptr = 0\<rparr>, PB_LAST_FIELD]"

lemma fixed_count_default_overruns:
  "map_option (\<lambda>d. map (dm_mem d) [0x1000, 0x1001, 0x1003, 0x1004])
     (pb_message_set_to_defaults dec_example_env 1 fixed_bool_table 0x1000 \<lparr>dm_mem = (\<lambda>_. 7), dm_heap = []\<rparr>)
   = Some [0, 0, 0, 7]"
  by (simp add: pb_message_set_to_defaults_def message_walk_def pb_field_iter_begin_def fixed_bool_table_def
      field_at_def iter_while.simps pb_field_iter_next_def it_field_def PB_LAST_FIELD_def PB_LTYPE_def PB_ATYPE_def
      PB_HTYPE_def put_u32_def put_bytes_def Let_def)

end
