(* ===== verification/Pb_Required.thy ===== *)
theory Pb_Required
  imports Pb_Decode_Safe
begin

text \<open>
  The required-field check of \<open>pb_decode_noinit\<close>: the bit set \<open>fields_seen\<close> that the message loop fills and
  the comparison at its end, for every message type, whatever its fields are. Runs of the loop are an
  inductive relation that records the positions of the fields it decoded.
\<close>

subsection \<open>Runs of the message loop\<close>

text \<open>The position of the field that the next round decodes.\<close>

definition msg_field :: "msg_state \<Rightarrow> nat option" where
  "msg_field m =
     (case pb_decode_tag (ms_stream m) of
        (False, _) \<Rightarrow> None
      | (True, _, tag, _, _) \<Rightarrow>
          (case pb_field_iter_find (ms_iter m) tag of
             Some (True, it1) \<Rightarrow> Some (it_pos it1)
           | _ \<Rightarrow> None))"

inductive msg_run :: "dec_env \<Rightarrow> nat \<Rightarrow> pbd \<Rightarrow> msg_state \<Rightarrow> nat list \<Rightarrow> msg_state \<Rightarrow> bool"
  for env n pbd m where
  start: "msg_run env n pbd m [] m"
| round: "msg_run env n pbd m fs m1 \<Longrightarrow> is_bytes_left (ms_stream m1) \<noteq> 0 \<Longrightarrow>
    msg_step env n pbd m1 = Some (Continue, m2) \<Longrightarrow>
    msg_run env n pbd m (fs @ (case msg_field m1 of None \<Rightarrow> [] | Some p \<Rightarrow> [p])) m2"

inductive_cases msg_run_snocE: "msg_run env n pbd m (fs @ [p]) m'"

lemma msg_run_front:
  assumes "msg_run env n pbd m1 fs m2" "is_bytes_left (ms_stream m) \<noteq> 0" "msg_step env n pbd m = Some (Continue, m1)"
  shows "msg_run env n pbd m ((case msg_field m of None \<Rightarrow> [] | Some p \<Rightarrow> [p]) @ fs) m2"
  using assms(1)
proof induction
  case start
  then show ?case using msg_run.round [OF msg_run.start assms(2,3)] by simp
next
  case (round fs m1' m2)
  from msg_run.round [OF round.IH round.hyps(2,3)] show ?case by simp
qed

text \<open>How the loop ends: after a run, at the end of the input, at a break or at a failure.\<close>

definition msg_end :: "dec_env \<Rightarrow> nat \<Rightarrow> pbd \<Rightarrow> msg_state \<Rightarrow> bool \<Rightarrow> msg_state \<Rightarrow> bool" where
  "msg_end env n pbd m ok m' \<longleftrightarrow>
     (if is_bytes_left (ms_stream m) = 0 then ok \<and> m' = m
      else msg_step env n pbd m = Some (if ok then Break else Return_false, m'))"

lemma msg_loop_run_aux:
  "msg_loop env n pbd m = Some r \<Longrightarrow>
   \<exists>fs m1. msg_run env n pbd m fs m1 \<and> msg_end env n pbd m1 (fst r) (snd r)"
proof (rule msg_loop.raw_induct [where P = "\<lambda>env n pbd m r.
    \<exists>fs m1. msg_run env n pbd m fs m1 \<and> msg_end env n pbd m1 (fst r) (snd r)"])
  fix lp :: "dec_env \<Rightarrow> nat \<Rightarrow> pbd \<Rightarrow> msg_state \<Rightarrow> (bool \<times> msg_state) option"
  fix env n m r and pbd :: pbd
  assume ih: "\<And>env n (pbd :: pbd) m r. lp env n pbd m = Some r \<Longrightarrow>
      \<exists>fs m1. msg_run env n pbd m fs m1 \<and> msg_end env n pbd m1 (fst r) (snd r)"
    and body: "(if is_bytes_left (ms_stream m) = 0 then Some (True, m)
       else case msg_step env n pbd m of None \<Rightarrow> None
         | Some (c, m1) \<Rightarrow> (case c of Continue \<Rightarrow> lp env n pbd m1 | Break \<Rightarrow> Some (True, m1)
                             | Return_false \<Rightarrow> Some (False, m1))) = Some r"
  show "\<exists>fs m1. msg_run env n pbd m fs m1 \<and> msg_end env n pbd m1 (fst r) (snd r)"
  proof (cases "is_bytes_left (ms_stream m) = 0")
    case True
    then show ?thesis
      using body msg_run.start by (intro exI [of _ "[]"] exI [of _ m]) (auto simp: msg_end_def)
  next
    case False
    then obtain c m1 where step: "msg_step env n pbd m = Some (c, m1)" using body by (auto split: option.splits)
    show ?thesis
    proof (cases c)
      case Continue
      then have "lp env n pbd m1 = Some r" using False step body by simp
      from ih [OF this] msg_run_front [OF _ False] step Continue show ?thesis by blast
    next
      case Break
      then show ?thesis
        using False step body msg_run.start by (intro exI [of _ "[]"] exI [of _ m]) (auto simp: msg_end_def)
    next
      case Return_false
      then show ?thesis
        using False step body msg_run.start by (intro exI [of _ "[]"] exI [of _ m]) (auto simp: msg_end_def)
    qed
  qed
qed

lemma msg_loop_run:
  assumes "msg_loop env n pbd m = Some (ok, m')"
  obtains fs m1 where "msg_run env n pbd m fs m1" "msg_end env n pbd m1 ok m'"
  using msg_loop_run_aux [OF assms] by auto

subsection \<open>What one round does to the bit set\<close>

lemma find_extension_loop_stays:
  assumes "wf_table tbl" "start < max 1 (num_fields tbl)"
  shows "on_field tbl dest count i it \<Longrightarrow>
    \<exists>b j it'. find_extension_loop start it = Some (b, it') \<and> on_field tbl dest count j it'"
proof (induction "cyclic_distance tbl start i" arbitrary: i it rule: less_induct)
  case less
  show ?case
  proof (cases "PB_LTYPE (fd_type (it_field it)) = PB_LTYPE_EXTENSION \<or> it_pos (snd (pb_field_iter_next it)) = start")
    case True
    then show ?thesis
      using less.prems on_field_step_pos [OF assms(1) less.prems] by (subst find_extension_loop.simps) (auto simp: Let_def)
  next
    case go: False
    obtain j where "on_field tbl dest count j (snd (pb_field_iter_next it))"
      "cyclic_distance tbl start j < cyclic_distance tbl start i"
      using on_field_step [OF assms(1) less.prems assms(2)] go by blast
    from less.hyps [OF this(2,1)] show ?thesis
      using go by (subst find_extension_loop.simps) (auto simp: Let_def)
  qed
qed

lemma find_extension_field_stays:
  assumes "wf_table tbl" "on_field tbl dest count i it" "find_extension_field it = Some (b, it')"
  obtains j where "on_field tbl dest count j it'"
  using find_extension_loop_stays [OF assms(1) _ assms(2), of i] assms
  by (auto simp: find_extension_field_def on_field_simps(3) [OF assms(2)] on_field_def)

lemma msg_unknown_stays:
  assumes "wf_table tbl" "on_field tbl dest count i (ms_iter m)" "msg_unknown env n pbd tag wt m = Some (c, m')"
  obtains j where "on_field tbl dest count j (ms_iter m')" "ms_seen m' = ms_seen m"
proof -
  have skip: "ms_iter m' = ms_iter m1 \<and> ms_seen m' = ms_seen m1" if "msg_skip wt m1 = Some (c, m')" for m1
    using that by (auto simp: msg_skip_def split: prod.splits)
  show thesis
  proof (cases "tag \<ge> ms_ext_start m")
    case False
    then show thesis using that assms skip by (auto simp: msg_unknown_def)
  next
    case True
    then obtain b it1 where f: "find_extension_field (ms_iter m) = Some (b, it1)"
      using assms(3) by (auto simp: msg_unknown_def split: option.splits)
    obtain j where "on_field tbl dest count j it1" using find_extension_field_stays [OF assms(1,2) f] .
    moreover have "ms_iter m' = it1 \<and> ms_seen m' = ms_seen m"
      using assms(3) True f skip
      by (auto simp: msg_unknown_def Let_def split: if_splits option.splits prod.splits)
    ultimately show thesis using that by simp
  qed
qed

lemma decode_field_stays:
  assumes "wf_table tbl" "on_field tbl dest count i it" "decode_field env n pbd wt it s d = Some (ok, it', s', d')"
  obtains j where "on_field tbl dest count j it'"
proof -
  obtain ok1 it1 s1 d1 where u: "(if PB_HTYPE (fd_type (it_field it)) = PB_HTYPE_ONEOF then pb_release_union_field env n it s d
      else Some (True, it, s, d)) = Some (ok1, it1, s1, d1)" "it' = it1"
    using assms(3) by (fastforce simp: decode_field_def Let_def split: option.splits prod.splits bool.splits)
  obtain b2 j2 it2 where f: "pb_field_iter_find it (get_u32 d (it_pSize it)) = Some (b2, it2)" "on_field tbl dest count j2 it2"
    using pb_field_iter_find_on_field [OF assms(1,2)] .
  obtain b3 j3 it3 where f3: "pb_field_iter_find it2 (fd_tag (it_field it)) = Some (b3, it3)" "on_field tbl dest count j3 it3"
    using pb_field_iter_find_on_field [OF assms(1) f(2)] .
  have "it1 = it \<or> it1 = it2 \<or> it1 = it3"
    using u(1) f(1) f3(1)
    by (auto simp: pb_release_union_field_def Let_def split: if_splits option.splits prod.splits bool.splits)
  then show thesis using that u(2) assms(2) f(2) f3(2) by blast
qed

definition required_at :: "pb_field list \<Rightarrow> nat \<Rightarrow> bool" where
  "required_at tbl p \<longleftrightarrow> p < num_fields tbl \<and> PB_HTYPE (fd_type (tbl ! p)) = PB_HTYPE_REQUIRED"

definition mark_field :: "pb_field list \<Rightarrow> nat \<Rightarrow> u32 list \<Rightarrow> u32 list" where
  "mark_field tbl p seen =
     (if required_at tbl p \<and> required_before tbl p < 64
      then mark_seen (word_of_nat (required_before tbl p)) seen else seen)"

lemma required_before_le: "required_before tbl p \<le> p"
  using length_filter_le [of "\<lambda>f. PB_HTYPE (fd_type f) = PB_HTYPE_REQUIRED" "take p tbl"] by (simp add: required_before_def)

lemma on_field_index:
  assumes "on_field tbl dest count p it"
  shows "it_required_field_index it = word_of_nat (required_before tbl p)"
  using assms by (auto simp: on_field_def iter_at_def)

lemma msg_mark_seen:
  assumes "wf_table tbl" "num_fields tbl \<noteq> 0" "num_fields tbl < 2 ^ 32" "on_field tbl dest count p (ms_iter m)"
  shows "ms_seen (msg_mark m) = mark_field tbl p (ms_seen m)"
proof -
  have p: "p < num_fields tbl" using assms(2,4) by (auto simp: on_field_def)
  have f: "field_at tbl p = tbl ! p" using wf_table_tags(1) [OF assms(1)] p by simp
  have "required_before tbl p < 2 ^ 32" using required_before_le [of tbl p] p assms(3) by linarith
  then have "unat (word_of_nat (required_before tbl p) :: u32) = required_before tbl p"
    by (intro unat_word_of_nat) simp
  then show ?thesis
    using p f by (simp add: msg_mark_def mark_field_def required_at_def PB_MAX_REQUIRED_FIELDS_def Let_def
        on_field_simps(1) [OF assms(4)] on_field_index [OF assms(4)])
qed

lemma msg_fixed_count_stays:
  assumes "on_field tbl dest count i (ms_iter m)" "msg_fixed_count count m = (ok, m')"
  shows "on_field tbl dest count i (ms_iter m') \<and> ms_seen m' = ms_seen m"
  using assms msg_fixed_count_ok [OF assms(1) subset_UNIV assms(2)]
  by (auto simp: msg_fixed_count_def Let_def split: if_splits)

text \<open>A round that goes on marks the field it decoded, if that is a required one of the first 64.\<close>

lemma msg_step_seen:
  assumes wf: "wf_table tbl" "num_fields tbl \<noteq> 0" "num_fields tbl < 2 ^ 32"
    and on: "on_field tbl dest (de_local env n) i (ms_iter m)" and step: "msg_step env n pbd m = Some (c, m')"
  shows "(\<exists>j. on_field tbl dest (de_local env n) j (ms_iter m')) \<and>
    (c = Continue \<longrightarrow> ms_seen m' = (case msg_field m of None \<Rightarrow> ms_seen m | Some p \<Rightarrow> mark_field tbl p (ms_seen m))) \<and>
    (c = Break \<longrightarrow> ms_seen m' = ms_seen m)"
proof -
  obtain ok wt tag eof s1 where t: "pb_decode_tag (ms_stream m) = (ok, wt, tag, eof, s1)"
    by (cases "pb_decode_tag (ms_stream m)")
  show ?thesis
  proof (cases ok)
    case False
    then show ?thesis using t step on by (auto simp: msg_step_def msg_field_def split: if_splits)
  next
    case True
    obtain b p it1 where f: "pb_field_iter_find (ms_iter m) tag = Some (b, it1)" "on_field tbl dest (de_local env n) p it1"
      using pb_field_iter_find_on_field [OF wf(1) on] .
    let ?m1 = "m\<lparr>ms_stream := s1, ms_iter := it1\<rparr>"
    show ?thesis
    proof (cases b)
      case False
      then have u: "msg_unknown env n pbd tag wt ?m1 = Some (c, m')" using t True f(1) step by (simp add: msg_step_def)
      have fl: "msg_field m = None" using t True f(1) False by (simp add: msg_field_def)
      obtain j where "on_field tbl dest (de_local env n) j (ms_iter m')" "ms_seen m' = ms_seen ?m1"
        by (rule msg_unknown_stays [OF wf(1) _ u]) (use f(2) in simp_all)
      then show ?thesis using fl by auto
    next
      case found: True
      have fl: "msg_field m = Some p" using t True f found by (simp add: msg_field_def on_field_simps(3))
      obtain okf m2 where fc: "msg_fixed_count (de_local env n) ?m1 = (okf, m2)" by fastforce
      have m2: "on_field tbl dest (de_local env n) p (ms_iter m2)" "ms_seen m2 = ms_seen m"
        using msg_fixed_count_stays [OF _ fc] f(2) by auto
      show ?thesis
      proof (cases okf)
        case False
        then show ?thesis using t True f(1) found fc step m2(1) by (auto simp: msg_step_def msg_fail_def)
      next
        case okT: True
        obtain okd it4 s4 d4 where d: "decode_field env n pbd wt (ms_iter m2) (ms_stream m2) (ms_dm m2) = Some (okd, it4, s4, d4)"
          "c = (if okd then Continue else Return_false)"
          "m' = (msg_mark m2)\<lparr>ms_iter := it4, ms_stream := s4, ms_dm := d4\<rparr>"
          using t True f(1) found fc okT step by (auto simp: msg_step_def Let_def split: option.splits)
        obtain j where "on_field tbl dest (de_local env n) j it4" using decode_field_stays [OF wf(1) m2(1) d(1)] .
        then show ?thesis
          using d(2,3) fl msg_mark_seen [OF wf m2(1)] m2(2) by auto
      qed
    qed
  qed
qed

subsection \<open>The bit set\<close>

definition seen_bit :: "u32 list \<Rightarrow> nat \<Rightarrow> bool" where
  "seen_bit seen i = bit (seen ! (i div 32)) (i mod 32)"

lemma mark_seen_bit:
  assumes "length seen = 2" "r < 64" "i < 64"
  shows "seen_bit (mark_seen (word_of_nat r) seen) i \<longleftrightarrow> seen_bit seen i \<or> i = r"
proof -
  have r: "unat (word_of_nat r :: u32) = r" using assms(2) by (intro unat_word_of_nat) simp
  have d: "unat (drop_bit 5 (word_of_nat r :: u32)) = r div 32"
    by (simp only: unat_drop_bit r) simp
  have m: "unat ((word_of_nat r :: u32) AND 31) = r mod 32"
    using unat_and_mask [of "word_of_nat r :: u32" 5] by (simp add: mask_eq_exp_minus_1 r)
  have lt: "r div 32 < 2" "i div 32 < 2" using assms by auto
  have iff: "i = r \<longleftrightarrow> i div 32 = r div 32 \<and> i mod 32 = r mod 32"
    by (metis div_mult_mod_eq)
  have "bit (push_bit (r mod 32) (1 :: u32)) (i mod 32) \<longleftrightarrow> i mod 32 = r mod 32"
    by (simp only: bit_push_bit_iff bit_1_iff) auto
  then show ?thesis
    using lt assms(1) by (auto simp: seen_bit_def mark_seen_def d m iff nth_list_update bit_or_iff)
qed

lemma length_mark_seen [simp]: "length (mark_seen r seen) = length seen"
  by (simp add: mark_seen_def)

lemma length_mark_field [simp]: "length (mark_field tbl p seen) = length seen"
  by (simp add: mark_field_def)

lemma ones_iff: "w = mask n \<longleftrightarrow> (\<forall>i<32. bit w i \<longleftrightarrow> i < n)" for w :: u32
  by (auto simp: bit_eq_iff bit_mask_iff dest: bit_imp_le_length)

lemma all_ones_iff: "w = NOT 0 \<longleftrightarrow> (\<forall>i<32. bit w i)" for w :: u32
  by (auto simp: bit_eq_iff bit_not_iff dest: bit_imp_le_length)

lemma remaining_bits: "0 < c \<Longrightarrow> c < 32 \<Longrightarrow> drop_bit (32 - c) (NOT 0 :: u32) = mask c"
  by (rule bit_word_eqI) (auto simp: bit_drop_bit_eq bit_mask_iff bit_not_iff)

lemma all_below_64: "(\<forall>i<64. P i) \<longleftrightarrow> (\<forall>i<32. P i) \<and> (\<forall>i<32. P (32 + i))" for P :: "nat \<Rightarrow> bool"
proof
  assume h: "(\<forall>i<32. P i) \<and> (\<forall>i<32. P (32 + i))"
  show "\<forall>i<64. P i"
  proof (intro allI impI)
    fix i :: nat assume "i < 64"
    then show "P i" using h le_add_diff_inverse [of 32 i] by (cases "i < 32") (metis, auto dest!: spec [of _ "i - 32"])
  qed
qed auto

text \<open>The word comparison at the end of the loop is the test of the single bits.\<close>

lemma low_ones_iff:
  fixes w :: u32
  assumes "\<forall>i<32. c \<le> i \<longrightarrow> \<not> bit w i"
  shows "w = mask c \<longleftrightarrow> (\<forall>i<32. i < c \<longrightarrow> bit w i)"
proof -
  have "(\<forall>i<32. bit w i \<longleftrightarrow> i < c) \<longleftrightarrow> (\<forall>i<32. i < c \<longrightarrow> bit w i)"
    using assms not_less by blast
  then show ?thesis by (simp only: ones_iff)
qed

lemma required_fields_seen_two:
  assumes "count \<le> 64" "\<forall>i<32. count \<le> i \<longrightarrow> \<not> bit a i" "\<forall>i<32. count \<le> 32 + i \<longrightarrow> \<not> bit b i"
  shows "required_fields_seen [a, b] count \<longleftrightarrow>
    (\<forall>i<32. i < count \<longrightarrow> bit a i) \<and> (\<forall>i<32. 32 + i < count \<longrightarrow> bit b i)"
proof -
  consider "count = 0" | "0 < count" "count < 32" | "count = 32" | "32 < count" "count < 64" | "count = 64"
    using assms(1) by linarith
  then show ?thesis
  proof cases
    case 1
    then show ?thesis by (simp add: required_fields_seen_def)
  next
    case 2
    then have "required_fields_seen [a, b] count \<longleftrightarrow> a = mask count"
      using remaining_bits [of count] by (simp add: required_fields_seen_def)
    then show ?thesis using 2 low_ones_iff [OF assms(2)] by simp
  next
    case 3
    have "(\<forall>i<32. i < count \<longrightarrow> bit a i) \<longleftrightarrow> a = NOT 0" unfolding 3 all_ones_iff by blast
    moreover have "required_fields_seen [a, b] count \<longleftrightarrow> a = NOT 0" unfolding 3 by (simp add: required_fields_seen_def)
    ultimately show ?thesis using 3 by simp
  next
    case 4
    have a: "(\<forall>i<32. i < count \<longrightarrow> bit a i) \<longleftrightarrow> a = NOT 0"
      unfolding all_ones_iff using 4 by auto
    have "\<forall>i<32. count - 32 \<le> i \<longrightarrow> \<not> bit b i" using assms(3) 4 by auto
    from low_ones_iff [OF this] have b: "b = mask (count - 32) \<longleftrightarrow> (\<forall>i<32. 32 + i < count \<longrightarrow> bit b i)"
      by (simp add: less_diff_conv add.commute)
    have "count div 32 = 1" "count mod 32 = count - 32"
      using 4 by (simp_all add: div_nat_eqI le_mod_geq)
    then have "required_fields_seen [a, b] count \<longleftrightarrow> a = NOT 0 \<and> b = mask (count - 32)"
      using remaining_bits [of "count - 32"] 4 by (simp add: required_fields_seen_def)
    then show ?thesis by (simp only: a b)
  next
    case 5
    have u: "[0..<count div 32] = [0, 1]" unfolding 5 by code_simp
    have "(\<forall>i<32. i < count \<longrightarrow> bit a i) \<longleftrightarrow> a = NOT 0" "(\<forall>i<32. 32 + i < count \<longrightarrow> bit b i) \<longleftrightarrow> b = NOT 0"
      unfolding all_ones_iff 5 by auto
    moreover have "required_fields_seen [a, b] count \<longleftrightarrow> a = NOT 0 \<and> b = NOT 0"
      unfolding required_fields_seen_def u by (simp add: 5)
    ultimately show ?thesis by simp
  qed
qed

lemma required_fields_seen_iff:
  assumes "length seen = 2" "count \<le> 64" "\<forall>i<64. count \<le> i \<longrightarrow> \<not> seen_bit seen i"
  shows "required_fields_seen seen count \<longleftrightarrow> (\<forall>i<count. seen_bit seen i)"
proof -
  obtain a b where seen: "seen = [a, b]" using assms(1) by (auto simp: length_Suc_conv numeral_2_eq_2)
  have sb: "seen_bit seen i = bit a i" "seen_bit seen (32 + i) = bit b i" if "i < 32" for i
    using that by (simp_all add: seen_bit_def seen)
  have out: "\<forall>i<32. count \<le> i \<longrightarrow> \<not> bit a i" "\<forall>i<32. count \<le> 32 + i \<longrightarrow> \<not> bit b i"
    using assms(3) unfolding all_below_64 by (simp_all add: sb)
  have "(\<forall>i<count. seen_bit seen i) \<longleftrightarrow> (\<forall>i<64. i < count \<longrightarrow> seen_bit seen i)"
    using assms(2) by auto
  also have "\<dots> \<longleftrightarrow> (\<forall>i<32. i < count \<longrightarrow> bit a i) \<and> (\<forall>i<32. 32 + i < count \<longrightarrow> bit b i)"
    unfolding all_below_64 by (simp add: sb)
  finally show ?thesis using required_fields_seen_two [OF assms(2) out] by (simp add: seen)
qed

subsection \<open>The invariant of the loop\<close>

definition seen_inv :: "pb_field list \<Rightarrow> nat list \<Rightarrow> u32 list \<Rightarrow> bool" where
  "seen_inv tbl fs seen \<longleftrightarrow> length seen = 2 \<and>
     (\<forall>i<64. seen_bit seen i \<longleftrightarrow> (\<exists>p \<in> set fs. required_at tbl p \<and> required_before tbl p = i))"

lemma seen_inv_mark: "seen_inv tbl fs seen \<Longrightarrow> seen_inv tbl (fs @ [p]) (mark_field tbl p seen)"
  by (auto simp: seen_inv_def mark_field_def mark_seen_bit)

lemma msg_run_invariant:
  assumes "wf_table tbl" "num_fields tbl \<noteq> 0" "num_fields tbl < 2 ^ 32"
    "on_field tbl dest (de_local env n) i (ms_iter m)" "seen_inv tbl [] (ms_seen m)"
  shows "msg_run env n pbd m fs m' \<Longrightarrow>
    (\<exists>j. on_field tbl dest (de_local env n) j (ms_iter m')) \<and> seen_inv tbl fs (ms_seen m')"
proof (induction rule: msg_run.induct)
  case start
  then show ?case using assms(4,5) by auto
next
  case (round fs m1 m2)
  then obtain j where j: "on_field tbl dest (de_local env n) j (ms_iter m1)" by blast
  show ?case
    using msg_step_seen [OF assms(1-3) j round.hyps(3)] round.IH
    by (cases "msg_field m1") (auto simp: seen_inv_mark)
qed

lemma msg_end_stays:
  assumes "wf_table tbl" "num_fields tbl \<noteq> 0" "num_fields tbl < 2 ^ 32"
    "on_field tbl dest (de_local env n) i (ms_iter m)" "msg_end env n pbd m True m'"
  shows "(\<exists>j. on_field tbl dest (de_local env n) j (ms_iter m')) \<and> ms_seen m' = ms_seen m"
  using assms(4,5) msg_step_seen [OF assms(1-4), of pbd Break m'] by (auto simp: msg_end_def split: if_splits)

subsection \<open>Counting the required fields\<close>

lemma seek_end_on_field:
  assumes "wf_table tbl"
  shows "on_field tbl dest count i it \<Longrightarrow> num_fields tbl \<noteq> 0 \<Longrightarrow>
    seek_end it = (word_of_nat (required_before tbl (num_fields tbl - 1)), fd_type (tbl ! (num_fields tbl - 1)), iter_at tbl dest 0)"
proof (induction "num_fields tbl - i" arbitrary: i it rule: less_induct)
  case less
  have i: "i < num_fields tbl" using less.prems by (auto simp: on_field_def)
  show ?case
  proof (cases "Suc i < num_fields tbl")
    case True
    then have "pb_field_iter_next it = (True, iter_at tbl dest (Suc i))"
      using on_field_next [OF assms less.prems(1)] by simp
    then show ?thesis
      using less.hyps [of "Suc i" "iter_at tbl dest (Suc i)"] True i less.prems(2)
      by (subst seek_end.simps) (simp add: on_field_iter_at)
  next
    case False
    then have "pb_field_iter_next it = (False, iter_at tbl dest 0)"
      using on_field_next [OF assms less.prems(1)] less.prems(2) by simp
    moreover have "i = num_fields tbl - 1" using False i by simp
    ultimately show ?thesis
      using on_field_simps(1) [OF less.prems(1)] on_field_index [OF less.prems(1)] wf_table_tags(1) [OF assms, of i] i
      by (subst seek_end.simps) simp
  qed
qed

lemma required_field_count_on_field:
  assumes "wf_table tbl" "num_fields tbl \<noteq> 0" "num_fields tbl < 2 ^ 32" "on_field tbl dest count i it"
  shows "required_field_count it = min 64 (required_before tbl (num_fields tbl))"
proof -
  let ?l = "num_fields tbl - 1"
  have l: "num_fields tbl = Suc ?l" "?l < length tbl" using assms(2) by (auto simp: num_fields_def)
  have tag: "fd_tag (field_at tbl 0) \<noteq> 0" using wf_table_tags(2) [OF assms(1), of 0] assms(2) by simp
  have w: "unat (word_of_nat k :: u32) = k" if "k < 2 ^ 32" for k
    using that by (intro unat_word_of_nat) simp
  have "required_before tbl ?l \<le> ?l" by (rule required_before_le)
  then have lt: "required_before tbl ?l + 1 < 2 ^ 32" using assms(2,3) by linarith
  have u: "unat (word_of_nat (required_before tbl ?l) + 1 :: u32) = required_before tbl ?l + 1"
    using w [OF lt] by (simp add: add.commute)
  have "required_before tbl (num_fields tbl) = required_before tbl ?l
      + (if PB_HTYPE (fd_type (tbl ! ?l)) = PB_HTYPE_REQUIRED then 1 else 0)"
    using required_before_Suc [OF l(2)] l(1) by simp
  moreover have "required_before tbl ?l < 2 ^ 32" using lt by simp
  ultimately show ?thesis
    using seek_end_on_field [OF assms(1,4,2)] tag w [of "required_before tbl ?l"] u
    by (simp add: required_field_count_def PB_MAX_REQUIRED_FIELDS_def)
qed

lemma required_before_mono: "p \<le> q \<Longrightarrow> required_before tbl p \<le> required_before tbl q"
proof -
  assume "p \<le> q"
  then have "take q tbl = take p tbl @ take (q - p) (drop p tbl)"
    by (metis le_add_diff_inverse take_add)
  then show ?thesis by (simp add: required_before_def)
qed

lemma required_at_before:
  assumes "required_at tbl p" "p < q" "q \<le> num_fields tbl"
  shows "required_before tbl p < required_before tbl q"
proof -
  have "p < length tbl" using assms(2,3) by (simp add: num_fields_def)
  then have "required_before tbl (Suc p) = Suc (required_before tbl p)"
    using assms(1) by (simp add: required_before_Suc required_at_def)
  then show ?thesis using required_before_mono [of "Suc p" q tbl] assms(2) by simp
qed

lemma required_at_inj:
  assumes "required_at tbl p" "required_at tbl q" "required_before tbl p = required_before tbl q"
  shows "p = q"
  using required_at_before [OF assms(1), of q] required_at_before [OF assms(2), of p] assms
  by (cases p q rule: linorder_cases) (auto simp: required_at_def)

lemma required_index:
  "r < required_before tbl n \<Longrightarrow> n \<le> num_fields tbl \<Longrightarrow> \<exists>p. required_at tbl p \<and> required_before tbl p = r"
proof (induction n)
  case 0
  then show ?case by (simp add: required_before_def)
next
  case (Suc n)
  then have n: "n < num_fields tbl" "n < length tbl" by (simp_all add: num_fields_def)
  show ?case
  proof (cases "r < required_before tbl n")
    case True
    then show ?thesis using Suc by simp
  next
    case False
    then have "required_at tbl n" "required_before tbl n = r"
      using Suc.prems n by (auto simp: required_before_Suc required_at_def split: if_splits)
    then show ?thesis by blast
  qed
qed

text \<open>The bits of a run, compared as the code does, are exactly the required fields of the run.\<close>

lemma required_check:
  assumes "wf_table tbl" "num_fields tbl \<noteq> 0" "num_fields tbl < 2 ^ 32" "on_field tbl dest count i it"
    and inv: "seen_inv tbl fs seen"
  shows "required_fields_seen seen (required_field_count it) \<longleftrightarrow>
    (\<forall>p. required_at tbl p \<and> required_before tbl p < 64 \<longrightarrow> p \<in> set fs)"
proof -
  let ?c = "min 64 (required_before tbl (num_fields tbl))"
  have bits: "seen_bit seen i \<longleftrightarrow> (\<exists>p \<in> set fs. required_at tbl p \<and> required_before tbl p = i)" if "i < 64" for i
    using inv that by (simp add: seen_inv_def)
  have "\<forall>i<64. ?c \<le> i \<longrightarrow> \<not> seen_bit seen i"
    using required_at_before [of tbl _ "num_fields tbl"] bits by (fastforce simp: required_at_def)
  then have "required_fields_seen seen ?c \<longleftrightarrow> (\<forall>i<?c. seen_bit seen i)"
    using inv by (intro required_fields_seen_iff) (simp_all add: seen_inv_def)
  also have "\<dots> \<longleftrightarrow> (\<forall>p. required_at tbl p \<and> required_before tbl p < 64 \<longrightarrow> p \<in> set fs)"
  proof (intro iffI allI impI; (elim conjE)?)
    fix p assume "\<forall>i<?c. seen_bit seen i" "required_at tbl p" "required_before tbl p < 64"
    moreover from this have "required_before tbl p < ?c"
      using required_at_before [of tbl p "num_fields tbl"] by (simp add: required_at_def)
    ultimately obtain q where "q \<in> set fs" "required_at tbl q" "required_before tbl q = required_before tbl p"
      using bits by auto
    then show "p \<in> set fs" using required_at_inj \<open>required_at tbl p\<close> by blast
  next
    fix i assume "\<forall>p. required_at tbl p \<and> required_before tbl p < 64 \<longrightarrow> p \<in> set fs" "i < ?c"
    then show "seen_bit seen i" using required_index [of i tbl "num_fields tbl"] bits by auto
  qed
  finally show ?thesis using required_field_count_on_field [OF assms(1-4)] by simp
qed

lemma msg_init_inv: "seen_inv tbl [] (ms_seen (msg_init env n tbl dest s d))"
proof -
  have "\<not> seen_bit [0, 0] i" if "i < 64" for i
  proof -
    have "i div 32 = 0 \<or> i div 32 = 1" using that by auto
    then show ?thesis by (auto simp: seen_bit_def)
  qed
  then show ?thesis by (simp add: msg_init_def seen_inv_def)
qed

lemma msg_loop_required:
  assumes "wf_table tbl" "num_fields tbl \<noteq> 0" "num_fields tbl < 2 ^ 32"
    and "msg_run env n pbd (msg_init env n tbl dest s d) fs m" "msg_end env n pbd m True m'"
  shows "required_fields_seen (ms_seen m') (required_field_count (ms_iter m')) \<longleftrightarrow>
    (\<forall>p. required_at tbl p \<and> required_before tbl p < 64 \<longrightarrow> p \<in> set fs)"
proof -
  have on: "on_field tbl dest (de_local env n) 0 (ms_iter (msg_init env n tbl dest s d))"
    using on_field_begin [OF assms(1)] by (simp add: msg_init_def)
  obtain j where j: "on_field tbl dest (de_local env n) j (ms_iter m)" "seen_inv tbl fs (ms_seen m)"
    using msg_run_invariant [OF assms(1-3) on msg_init_inv assms(4)] by blast
  obtain j' where "on_field tbl dest (de_local env n) j' (ms_iter m')" "ms_seen m' = ms_seen m"
    using msg_end_stays [OF assms(1-3) j(1) assms(5)] by blast
  then show ?thesis using required_check [OF assms(1-3)] j(2) by simp
qed

text \<open>C11: when \<open>pb_decode_noinit\<close> succeeds, its message loop has decoded every required field of the message type
  (every one of the first 64, the capacity of the bit set), for every kind of message type and every input:
  the bit set of the loop holds exactly the required fields of the run, and the word comparison at the end tests
  exactly them.\<close>

theorem pb_decode_required_fields:
  assumes "wf_table tbl" "num_fields tbl \<noteq> 0" "num_fields tbl < 2 ^ 32"
    and "pb_decode_noinit env (Suc n) tbl dest s d = Some (True, s', d')"
  shows "\<exists>fs m. msg_run env n (decode_message env n) (msg_init env n tbl dest s d) fs m \<and>
    (\<forall>p. required_at tbl p \<and> required_before tbl p < 64 \<longrightarrow> p \<in> set fs)"
proof -
  obtain ok m' where l: "msg_loop env n (decode_message env n) (msg_init env n tbl dest s d) = Some (ok, m')"
    "ok" "fst (msg_finish (de_local env n) m')"
    using assms(4) by (auto simp: pb_decode_noinit_def pb_decode_noinit_with_def split: option.splits prod.splits bool.splits)
  then obtain fs m where r: "msg_run env n (decode_message env n) (msg_init env n tbl dest s d) fs m"
    "msg_end env n (decode_message env n) m True m'"
    using msg_loop_run [OF l(1)] by auto
  have "required_fields_seen (ms_seen m') (required_field_count (ms_iter m'))"
    using l(3) by (simp add: msg_finish_def split: if_splits)
  then show ?thesis using msg_loop_required [OF assms(1-3) r] r(1) by blast
qed

text \<open>C26: on an empty input the decoder reports \<open>missing required field\<close> exactly when the message type has a
  required field, and otherwise succeeds with only its local counter written.\<close>

theorem pb_decode_empty_input:
  assumes "wf_table tbl" "num_fields tbl \<noteq> 0" "num_fields tbl < 2 ^ 32" "is_bytes_left s = 0"
  shows "pb_decode_noinit env (Suc n) tbl dest s d =
    Some (if \<exists>p. required_at tbl p then (False, is_error s ''missing required field'', put_u32 (de_local env n) 0 d)
          else (True, s, put_u32 (de_local env n) 0 d))"
proof -
  let ?m = "msg_init env n tbl dest s d"
  have m: "is_bytes_left (ms_stream ?m) = 0" "ms_stream ?m = s" "ms_dm ?m = put_u32 (de_local env n) 0 d"
    "ms_fixed ?m = None" using assms(4) by (simp_all add: msg_init_def)
  have loop: "msg_loop env n (decode_message env n) ?m = Some (True, ?m)"
    using m(1) by (subst msg_loop.simps) simp
  have "msg_end env n (decode_message env n) ?m True ?m" by (simp add: msg_end_def m(1))
  note chk = msg_loop_required [OF assms(1-3) msg_run.start this]
  have "(\<exists>p. required_at tbl p \<and> required_before tbl p < 64) \<longleftrightarrow> (\<exists>p. required_at tbl p)"
  proof
    assume "\<exists>p. required_at tbl p"
    then obtain p where "required_at tbl p" by blast
    then have "0 < required_before tbl (num_fields tbl)"
      using required_at_before [of tbl p "num_fields tbl"] by (auto simp: required_at_def)
    from required_index [OF this] show "\<exists>p. required_at tbl p \<and> required_before tbl p < 64" by auto
  qed blast
  then show ?thesis
    using chk m(2-4) by (auto simp: pb_decode_noinit_def pb_decode_noinit_with_def loop msg_finish_def fixed_count_ok_def)
qed

lemma example_table_wf: "wf_table example_table" "num_fields example_table = 2"
  by (simp_all add: wf_table_def example_table_def PB_LAST_FIELD_def num_fields_def)

theorem pb_decode_empty_input_witness:
  "map_option fst (pb_decode_noinit dec_example_env 1 example_table 0x1000 (pb_istream_from_buffer [] 0)
     \<lparr>dm_mem = (\<lambda>_. 0), dm_heap = []\<rparr>) = Some False"
proof -
  have "required_at example_table 0"
    by (simp add: required_at_def example_table_def num_fields_def PB_HTYPE_def)
  then show ?thesis
    using pb_decode_empty_input [OF example_table_wf(1), of "pb_istream_from_buffer [] 0" dec_example_env 0 "0x1000"
        "\<lparr>dm_mem = (\<lambda>_. 0), dm_heap = []\<rparr>"]
    by (auto simp: example_table_wf(2) pb_istream_from_buffer_def)
qed


theorem pb_decode_required_fields_witness:
  "\<exists>fs m. msg_run dec_example_env 0 (decode_message dec_example_env 0)
     (msg_init dec_example_env 0 example_table 0x1000 (pb_istream_from_buffer [0x08, 0x2A] 2) \<lparr>dm_mem = (\<lambda>_. 0), dm_heap = []\<rparr>) fs m \<and>
     0 \<in> set fs"
proof -
  let ?s = "pb_istream_from_buffer [0x08, 0x2A] 2" and ?d = "\<lparr>dm_mem = (\<lambda>_. 0), dm_heap = []\<rparr>"
  have "map_option fst (pb_decode_noinit dec_example_env (Suc 0) example_table 0x1000 ?s ?d) = Some True"
    by code_simp
  then obtain s' d' where "pb_decode_noinit dec_example_env (Suc 0) example_table 0x1000 ?s ?d = Some (True, s', d')"
    by auto
  from pb_decode_required_fields [OF example_table_wf(1) _ _ this]
  obtain fs m where "msg_run dec_example_env 0 (decode_message dec_example_env 0) (msg_init dec_example_env 0 example_table 0x1000 ?s ?d) fs m"
    "\<forall>p. required_at example_table p \<and> required_before example_table p < 64 \<longrightarrow> p \<in> set fs"
    by (auto simp: example_table_wf(2))
  moreover have "required_at example_table 0" "required_before example_table 0 = 0"
    by (simp_all add: required_at_def example_table_def num_fields_def PB_HTYPE_def required_before_def)
  ultimately show ?thesis by auto
qed

end
