(* ===== verification/Pb_Roundtrip.thy ===== *)
theory Pb_Roundtrip
  imports Pb_Encode Pb_Required
begin

text \<open>
  The encoder and the decoder of each kind of field against each other: what the encoder of a field writes
  for the bytes at a source address, the decoder of the same field stores at its destination.
\<close>

subsection \<open>Memory\<close>

lemma load_bytes_Suc: "load_bytes mem a (Suc n) = mem a # load_bytes mem (a + 1) n"
proof (rule nth_equalityI)
  fix i assume "i < length (load_bytes mem a (Suc n))"
  then show "load_bytes mem a (Suc n) ! i = (mem a # load_bytes mem (a + 1) n) ! i"
    by (cases i) (simp_all add: load_bytes_def algebra_simps del: upt_Suc)
qed simp

lemma region_out: "n < 2 ^ 64 \<Longrightarrow> a \<notin> region (a + 1) n"
proof
  assume n: "n < 2 ^ 64" and "a \<in> region (a + 1) n"
  then obtain i where i: "i < n" "a = a + 1 + word_of_nat i" by (auto simp: region_def)
  then have "word_of_nat (Suc i) = (0 :: u64)" by (simp add: add.assoc)
  then have "2 ^ 64 dvd Suc i" by (simp add: word_of_nat_eq_0_iff del: of_nat_Suc)
  then show False using i n dvd_imp_le [of "2 ^ 64" "Suc i"] by simp
qed

lemma load_store: "length bs < 2 ^ 64 \<Longrightarrow> load_bytes (store_bytes mem a bs) a (length bs) = bs"
proof (induction mem a bs rule: store_bytes.induct)
  case (1 mem a)
  then show ?case by (simp add: load_bytes_def)
next
  case (2 mem a b bs)
  have "a \<notin> region (a + 1) (length bs)" using 2 by (intro region_out) simp
  then show ?case using 2 store_bytes_outside [of a "a + 1" bs "mem(a := b)"] by (simp add: load_bytes_Suc del: fun_upd_apply) (simp add: fun_upd_def)
qed

lemma load_put: "length bs = n \<Longrightarrow> n < 2 ^ 64 \<Longrightarrow> load_bytes (dm_mem (put_bytes a bs d)) a n = bs"
  using load_store [of bs "dm_mem d" a] by (simp add: put_bytes_def)

lemma le_bytes_low: "8 * n \<le> LENGTH('b) \<Longrightarrow> 8 * n \<le> LENGTH('a) \<Longrightarrow>
    le_bytes n (v :: 'a::len word) = le_bytes n (ucast v :: 'b::len word)"
proof -
  have nth: "i < n \<Longrightarrow> le_bytes n w ! i = ucast (drop_bit (8 * i) w)" for i n and w :: "'c::len word"
  proof (induction n arbitrary: i w)
    case (Suc n)
    then show ?case by (cases i) (simp_all add: add.commute)
  qed simp
  assume "8 * n \<le> LENGTH('b)" "8 * n \<le> LENGTH('a)"
  then show ?thesis
    by (intro nth_equalityI bit_word_eqI)
       (auto simp: nth bit_unsigned_iff bit_drop_bit_eq simp del: le_bytes_numeral)
qed

lemma le_bytes_load: "8 * n \<le> LENGTH('a::len) \<Longrightarrow> le_bytes n (le_word (load_bytes mem a n) :: 'a word) = load_bytes mem a n"
  using le_bytes_le_word [of "load_bytes mem a n", where ?'a = 'a] by simp


subsection \<open>What the field encoders write\<close>

definition string_length :: "memory \<Rightarrow> pb_field \<Rightarrow> u64 \<Rightarrow> nat" where
  "string_length mem f src = strnlen_loop mem src 0 (unat (fd_data_size f))"

text \<open>The bytes of a static field that carry its value, and their encoding.\<close>

definition value_extent :: "memory \<Rightarrow> pb_field \<Rightarrow> u64 \<Rightarrow> nat" where
  "value_extent mem f src =
     (let t = PB_LTYPE (fd_type f) in
      if t = PB_LTYPE_BYTES then 4 + unat (load_u32 mem src)
      else if t = PB_LTYPE_STRING then string_length mem f src + 1
      else unat (fd_data_size f))"

definition field_bytes :: "memory \<Rightarrow> pb_field \<Rightarrow> u64 \<Rightarrow> u8 list" where
  "field_bytes mem f src =
     (let t = PB_LTYPE (fd_type f); sz = fd_data_size f in
      if t = PB_LTYPE_BOOL then leb128 (if mem src \<noteq> 0 then 1 else 0)
      else if t = PB_LTYPE_VARINT then leb128 (unat (the (load_signed mem src sz)))
      else if t = PB_LTYPE_UVARINT then leb128 (unat (the (load_unsigned mem src sz)))
      else if t = PB_LTYPE_SVARINT then leb128 (unat (zigzag (the (load_signed mem src sz))))
      else if t = PB_LTYPE_FIXED32 then load_bytes mem src 4
      else if t = PB_LTYPE_FIXED64 then load_bytes mem src 8
      else if t = PB_LTYPE_BYTES then leb128 (unat (load_u32 mem src)) @ load_bytes mem (src + 4) (unat (load_u32 mem src))
      else if t = PB_LTYPE_STRING then leb128 (string_length mem f src) @ load_bytes mem src (string_length mem f src)
      else leb128 (unat sz) @ load_bytes mem src (unat sz))"

text \<open>Which static fields hold a value that is read back: integers have one of the four widths, a
  \<open>bool\<close> is 0 or 1, a bytes field fits its array, a string ends inside its array.\<close>

definition representable :: "memory \<Rightarrow> pb_field \<Rightarrow> u64 \<Rightarrow> bool" where
  "representable mem f src \<longleftrightarrow>
     (let t = PB_LTYPE (fd_type f); sz = fd_data_size f in
      PB_ATYPE (fd_type f) = PB_ATYPE_STATIC \<and> src \<noteq> 0 \<and>
      (if t = PB_LTYPE_BOOL then sz = 1 \<and> (mem src = 0 \<or> mem src = 1)
       else if t = PB_LTYPE_VARINT \<or> t = PB_LTYPE_UVARINT \<or> t = PB_LTYPE_SVARINT
       then sz = 1 \<or> sz = 2 \<or> sz = 4 \<or> sz = 8
       else if t = PB_LTYPE_FIXED32 then sz = 4
       else if t = PB_LTYPE_FIXED64 then sz = 8
       else if t = PB_LTYPE_BYTES then 4 + unat (load_u32 mem src) \<le> unat sz
       else if t = PB_LTYPE_STRING then string_length mem f src < unat sz
       else t = PB_LTYPE_FIXED_LENGTH_BYTES))"

lemma representable_ltype:
  "representable mem f src \<Longrightarrow> PB_LTYPE (fd_type f) \<in> {PB_LTYPE_BOOL, PB_LTYPE_VARINT, PB_LTYPE_UVARINT,
     PB_LTYPE_SVARINT, PB_LTYPE_FIXED32, PB_LTYPE_FIXED64, PB_LTYPE_BYTES, PB_LTYPE_STRING, PB_LTYPE_FIXED_LENGTH_BYTES}"
  by (auto simp: representable_def Let_def split: if_splits)

lemma le_bytes_load_u32: "le_bytes 4 (load_u32 mem a) = load_bytes mem a 4"
  unfolding load_u32_def by (rule le_bytes_load) simp

lemma le_bytes_load_u64: "le_bytes 8 (load_u64 mem a) = load_bytes mem a 8"
  unfolding load_u64_def by (rule le_bytes_load) simp

lemma representable_loads:
  assumes "representable mem f src" "PB_LTYPE (fd_type f) = PB_LTYPE_VARINT \<or> PB_LTYPE (fd_type f) = PB_LTYPE_UVARINT \<or>
    PB_LTYPE (fd_type f) = PB_LTYPE_SVARINT"
  obtains v u where "load_signed mem src (fd_data_size f) = Some v" "load_unsigned mem src (fd_data_size f) = Some u"
  using assms by (auto simp: representable_def load_signed_def load_unsigned_def Let_def split: if_splits)

lemma encoder_emits:
  assumes "representable (env_mem env) f src"
  shows "emits (PB_ENCODERS env sub f src) True (field_bytes (env_mem env) f src)"
proof -
  let ?mem = "env_mem env" and ?t = "PB_LTYPE (fd_type f)"
  have size32: "size_add (unat w) 4 = unat w + 4" for w :: u32
    using unsigned_less [of w, where ?'a = nat] by (intro size_add_exact) (simp add: SIZE_LIMIT_def)
  have str: "string_length ?mem f src < SIZE_LIMIT"
    unfolding string_length_def by (rule le_less_trans [OF strnlen_loop_le unat_u32_lt]) simp
  consider "?t = PB_LTYPE_BOOL" | "?t = PB_LTYPE_VARINT \<or> ?t = PB_LTYPE_UVARINT \<or> ?t = PB_LTYPE_SVARINT"
    | "?t = PB_LTYPE_FIXED32" | "?t = PB_LTYPE_FIXED64" | "?t = PB_LTYPE_BYTES" | "?t = PB_LTYPE_STRING"
    | "?t = PB_LTYPE_FIXED_LENGTH_BYTES" using representable_ltype [OF assms] by auto
  then show ?thesis
  proof cases
    case 1
    then show ?thesis
      using emits_varint [of "if ?mem src \<noteq> 0 then 1 else 0"]
      by (auto simp: PB_ENCODERS_def field_bytes_def pb_enc_bool_def safe_read_bool_def Let_def)
  next
    case 2
    then obtain v u where "load_signed ?mem src (fd_data_size f) = Some v" "load_unsigned ?mem src (fd_data_size f) = Some u"
      using representable_loads [OF assms] by blast
    then show ?thesis
      using 2 emits_varint [of v] emits_varint [of u] emits_varint [of "zigzag v"]
      by (auto simp: PB_ENCODERS_def field_bytes_def pb_enc_varint_def pb_enc_uvarint_def pb_enc_svarint_def
          pb_encode_svarint_def Let_def)
  next
    case 3
    then show ?thesis
      using emits_fixed32 [of ?mem f src] by (simp add: PB_ENCODERS_def field_bytes_def le_bytes_load_u32 Let_def del: le_bytes_numeral)
  next
    case 4
    then show ?thesis
      using emits_fixed64 [of ?mem f src] by (simp add: PB_ENCODERS_def field_bytes_def le_bytes_load_u64 Let_def del: le_bytes_numeral)
  next
    case 5
    then show ?thesis
      using assms emits_string [of "load_bytes ?mem (src + 4) (unat (load_u32 ?mem src))" "unat (load_u32 ?mem src)"]
      by (auto simp: PB_ENCODERS_def field_bytes_def pb_enc_bytes_def size32 representable_def Let_def)
  next
    case 6
    then show ?thesis
      using assms emits_string [of "load_bytes ?mem src (string_length ?mem f src)", OF _ str]
      by (auto simp: PB_ENCODERS_def field_bytes_def pb_enc_string_def representable_def string_length_def Let_def)
  next
    case 7
    then show ?thesis
      using assms emits_string [of "load_bytes ?mem src (unat (fd_data_size f))" "unat (fd_data_size f)"]
      by (auto simp: PB_ENCODERS_def field_bytes_def pb_enc_fixed_length_bytes_def Let_def)
  qed
qed

subsection \<open>What the field decoders store\<close>

lemma sign_extend_twice:
  "scast (ucast (scast (b :: u8) :: u64) :: u32) = (scast b :: u64)"
  "scast (ucast (scast (h :: u16) :: u64) :: u32) = (scast h :: u64)"
  by (rule bit_word_eqI, auto simp: bit_signed_iff bit_unsigned_iff min_def)+

lemma truncate_extended:
  "ucast (scast (b :: u8) :: u64) = b" "ucast (scast (h :: u16) :: u64) = h" "ucast (scast (w :: u32) :: u64) = w"
  "ucast (ucast (b :: u8) :: u64) = b" "ucast (ucast (h :: u16) :: u64) = h" "ucast (ucast (w :: u32) :: u64) = w"
  by (rule bit_word_eqI, auto simp: bit_signed_iff bit_unsigned_iff min_absorb2)+

lemma le_bytes_load_u16: "le_bytes 2 (load_u16 mem a) = load_bytes mem a 2"
  unfolding load_u16_def by (rule le_bytes_load) simp

lemma load_bytes_1: "load_bytes mem a 1 = [mem a]"
  by (simp add: load_bytes_def)

lemma signed_stores:
  assumes "load_signed mem src sz = Some v"
  shows "clamp_signed sz v = Some (load_bytes mem src (unat sz), v)"
    "(if sz = 8 then v else scast (ucast v :: u32)) = v"
proof -
  consider "sz = 1" "v = scast (mem src)" | "sz = 2" "v = scast (load_u16 mem src)"
    | "sz = 4" "v = scast (load_u32 mem src)" | "sz = 8" "v = load_u64 mem src"
    using assms by (auto simp: load_signed_def split: if_splits)
  then have "clamp_signed sz v = Some (load_bytes mem src (unat sz), v) \<and>
      (if sz = 8 then v else scast (ucast v :: u32)) = v"
  proof cases
    case 1
    then show ?thesis
      using load_bytes_1 [of mem src] by (simp add: clamp_signed_def truncate_extended sign_extend_twice)
  next
    case 2
    have "le_bytes 2 v = load_bytes mem src 2"
      unfolding 2 using le_bytes_low [of 2, where ?'a = 64 and ?'b = 16] by (simp add: truncate_extended le_bytes_load_u16 del: le_bytes_numeral)
    then show ?thesis using 2 by (simp add: clamp_signed_def truncate_extended sign_extend_twice del: le_bytes_numeral)
  next
    case 3
    have "le_bytes 4 v = load_bytes mem src 4"
      unfolding 3 using le_bytes_low [of 4, where ?'a = 64 and ?'b = 32] by (simp add: truncate_extended le_bytes_load_u32 del: le_bytes_numeral)
    then show ?thesis using 3 by (simp add: clamp_signed_def truncate_extended del: le_bytes_numeral)
  next
    case 4
    then show ?thesis by (simp add: clamp_signed_def le_bytes_load_u64 del: le_bytes_numeral)
  qed
  then show "clamp_signed sz v = Some (load_bytes mem src (unat sz), v)"
    "(if sz = 8 then v else scast (ucast v :: u32)) = v" by blast+
qed

lemma unsigned_stores:
  assumes "load_unsigned mem src sz = Some v"
  shows "clamp_unsigned sz v = Some (load_bytes mem src (unat sz), v)"
proof -
  consider "sz = 1" "v = ucast (mem src)" | "sz = 2" "v = ucast (load_u16 mem src)"
    | "sz = 4" "v = ucast (load_u32 mem src)" | "sz = 8" "v = load_u64 mem src"
    using assms by (auto simp: load_unsigned_def split: if_splits)
  then show ?thesis
  proof cases
    case 1
    then show ?thesis using load_bytes_1 [of mem src] by (simp add: clamp_unsigned_def truncate_extended)
  next
    case 2
    have "le_bytes 2 v = load_bytes mem src 2"
      unfolding 2 using le_bytes_low [of 2, where ?'a = 64 and ?'b = 16] by (simp add: truncate_extended le_bytes_load_u16 del: le_bytes_numeral)
    then show ?thesis using 2 by (simp add: clamp_unsigned_def truncate_extended del: le_bytes_numeral)
  next
    case 3
    have "le_bytes 4 v = load_bytes mem src 4"
      unfolding 3 using le_bytes_low [of 4, where ?'a = 64 and ?'b = 32] by (simp add: truncate_extended le_bytes_load_u32 del: le_bytes_numeral)
    then show ?thesis using 3 by (simp add: clamp_unsigned_def truncate_extended del: le_bytes_numeral)
  next
    case 4
    then show ?thesis by (simp add: clamp_unsigned_def le_bytes_load_u64 del: le_bytes_numeral)
  qed
qed

text \<open>A decoder reads back a value when it consumes its bytes and stores the value's bytes.\<close>

definition reads_back :: "dec \<Rightarrow> memory \<Rightarrow> u64 \<Rightarrow> nat \<Rightarrow> u8 list \<Rightarrow> u64 \<Rightarrow> bool" where
  "reads_back dec mem src n bs dest \<longleftrightarrow>
     (\<forall>s d. is_buffered s \<longrightarrow> pending s = bs \<longrightarrow>
        (\<exists>d'. dec s d = Some (True, advance s (length bs), d') \<and>
              load_bytes (dm_mem d') dest n = load_bytes mem src n))"

lemma reads_back_put:
  assumes "\<And>s d. is_buffered s \<Longrightarrow> pending s = bs \<Longrightarrow>
      dec s d = Some (True, advance s (length bs), put_bytes dest (load_bytes mem src n) d)" "n < 2 ^ 64"
  shows "reads_back dec mem src n bs dest"
  using assms load_put [of "load_bytes mem src n" n] by (simp add: reads_back_def)

lemma u32_small: "unat (w :: u32) < 2 ^ 64"
  using unat_u32_lt [of w] unfolding SIZE_LIMIT_def .

lemma reads_back_varint:
  assumes "load_signed mem src (fd_data_size f) = Some v"
  shows "reads_back (pb_dec_varint f dest) mem src (unat (fd_data_size f)) (leb128 (unat v)) dest"
proof (rule reads_back_put [OF _ u32_small])
  fix s d assume s: "is_buffered s" "pending s = leb128 (unat v)"
  have dec: "pb_decode_varint s = (Some v, advance s (length (leb128 (unat v))))"
    using pb_decode_varint_leb128 [OF s(1), of v "[]"] s(2) by simp
  show "pb_dec_varint f dest s d
      = Some (True, advance s (length (leb128 (unat v))), put_bytes dest (load_bytes mem src (unat (fd_data_size f))) d)"
    unfolding pb_dec_varint_def dec prod.case option.case signed_stores(2) [OF assms] Let_def
    by (simp add: signed_stores(1) [OF assms] store_clamped_def)
qed

lemma reads_back_uvarint:
  assumes "load_unsigned mem src (fd_data_size f) = Some v"
  shows "reads_back (pb_dec_uvarint f dest) mem src (unat (fd_data_size f)) (leb128 (unat v)) dest"
proof (rule reads_back_put [OF _ u32_small])
  fix s d assume s: "is_buffered s" "pending s = leb128 (unat v)"
  have "pb_decode_varint s = (Some v, advance s (length (leb128 (unat v))))"
    using pb_decode_varint_leb128 [OF s(1), of v "[]"] s(2) by simp
  then show "pb_dec_uvarint f dest s d
      = Some (True, advance s (length (leb128 (unat v))), put_bytes dest (load_bytes mem src (unat (fd_data_size f))) d)"
    by (simp add: pb_dec_uvarint_def unsigned_stores [OF assms] store_clamped_def)
qed

lemma reads_back_svarint:
  assumes "load_signed mem src (fd_data_size f) = Some v"
  shows "reads_back (pb_dec_svarint f dest) mem src (unat (fd_data_size f)) (leb128 (unat (zigzag v))) dest"
proof (rule reads_back_put [OF _ u32_small])
  fix s d assume s: "is_buffered s" "pending s = leb128 (unat (zigzag v))"
  have "pb_decode_varint s = (Some (zigzag v), advance s (length (leb128 (unat (zigzag v)))))"
    using pb_decode_varint_leb128 [OF s(1), of "zigzag v" "[]"] s(2) by simp
  then have "pb_decode_svarint s = (Some v, advance s (length (leb128 (unat (zigzag v)))))"
    unfolding pb_decode_svarint_def by (simp only: prod.case option.case zigzag_inverse)
  then show "pb_dec_svarint f dest s d
      = Some (True, advance s (length (leb128 (unat (zigzag v)))), put_bytes dest (load_bytes mem src (unat (fd_data_size f))) d)"
    by (simp add: pb_dec_svarint_def signed_stores [OF assms] store_clamped_def)
qed

lemma varint32_back:
  assumes "is_buffered s" "pending s = leb128 n @ rest" "n < 2 ^ 32"
  shows "pb_decode_varint32 s = (Some (word_of_nat n), advance s (length (leb128 n)))"
  using pb_decode_varint32_leb128 [OF assms] by (simp add: pb_decode_varint32_def)

lemma reads_back_bool:
  assumes "mem src = 0 \<or> mem src = 1"
  shows "reads_back (pb_dec_bool f dest) mem src 1 (leb128 (if mem src \<noteq> 0 then 1 else 0)) dest"
proof (rule reads_back_put)
  let ?n = "if mem src \<noteq> 0 then 1 else 0 :: nat"
  fix s d assume s: "is_buffered s" "pending s = leb128 ?n"
  have "pb_decode_varint32 s = (Some (word_of_nat ?n), advance s (length (leb128 ?n)))"
    using s by (intro varint32_back [of s ?n "[]"]) auto
  then show "pb_dec_bool f dest s d = Some (True, advance s (length (leb128 ?n)), put_bytes dest (load_bytes mem src 1) d)"
    unfolding load_bytes_1 using assms by (auto simp: pb_dec_bool_def put_bool_def)
qed simp

lemma reads_back_fixed32: "reads_back (pb_dec_fixed32 f dest) mem src 4 (load_bytes mem src 4) dest"
proof (rule reads_back_put)
  fix s d assume s: "is_buffered s" "pending s = load_bytes mem src 4"
  have left: "is_bytes_left s = 4" using length_pending [OF s(1)] s(2) by simp
  have "pb_decode_fixed32 s = (Some (load_u32 mem src), advance s 4)"
    using pb_read_buf_buffered [OF s(1), of 4] left s(2) by (simp add: pb_decode_fixed32_def load_u32_def le_word_4)
  then show "pb_dec_fixed32 f dest s d
      = Some (True, advance s (length (load_bytes mem src 4)), put_bytes dest (load_bytes mem src 4) d)"
    by (simp add: pb_dec_fixed32_def put_u32_def le_bytes_load_u32 del: le_bytes_numeral)
qed simp

lemma reads_back_fixed64: "reads_back (pb_dec_fixed64 f dest) mem src 8 (load_bytes mem src 8) dest"
proof (rule reads_back_put)
  fix s d assume s: "is_buffered s" "pending s = load_bytes mem src 8"
  have left: "is_bytes_left s = 8" using length_pending [OF s(1)] s(2) by simp
  have "pb_decode_fixed64 s = (Some (load_u64 mem src), advance s 8)"
    using pb_read_buf_buffered [OF s(1), of 8] left s(2) by (simp add: pb_decode_fixed64_def load_u64_def le_word_8)
  then show "pb_dec_fixed64 f dest s d
      = Some (True, advance s (length (load_bytes mem src 8)), put_bytes dest (load_bytes mem src 8) d)"
    by (simp add: pb_dec_fixed64_def put_u64_def le_bytes_load_u64 del: le_bytes_numeral)
qed simp

text \<open>Length-delimited values: the length, then the bytes.\<close>

lemma delimited_read:
  assumes "is_buffered s" "pending s = leb128 n @ bs" "length bs = n" "n < 2 ^ 32"
  obtains s1 where "pb_decode_varint32 s = (Some (word_of_nat n), s1)"
    "pb_read_buf s1 n = (True, bs, advance s (length (leb128 n @ bs)))"
proof -
  let ?s1 = "advance s (length (leb128 n))"
  have v: "pb_decode_varint32 s = (Some (word_of_nat n), ?s1)" by (rule varint32_back [OF assms(1,2,4)])
  have p: "pending ?s1 = bs" "length (leb128 n) \<le> is_bytes_left s"
    using pending_advance_append [OF assms(1,2)] by simp_all
  have b: "is_buffered ?s1" using assms(1) p(2) by simp
  have "is_bytes_left ?s1 = n" using length_pending [OF b] p(1) assms(3) by simp
  then have "pb_read_buf ?s1 n = (True, bs, advance s (length (leb128 n @ bs)))"
    using pb_read_buf_buffered [OF b, of n] p(1) assms(3) by simp
  with v show thesis by (rule that)
qed

lemma put_bytes_append: "put_bytes (a + word_of_nat (length bs)) cs (put_bytes a bs d) = put_bytes a (bs @ cs) d"
proof -
  have "store_bytes (store_bytes m a bs) (a + word_of_nat (length bs)) cs = store_bytes m a (bs @ cs)" for m
    by (induction m a bs rule: store_bytes.induct) (simp_all add: add.assoc del: fun_upd_apply)
  then show ?thesis by (simp add: put_bytes_def)
qed

lemma load_bytes_add: "load_bytes mem a (m + n) = load_bytes mem a m @ load_bytes mem (a + word_of_nat m) n"
  by (induction m arbitrary: a) (simp_all add: load_bytes_Suc add.assoc, simp_all add: load_bytes_def)

lemma u32_of_unat [simp]: "word_of_nat (unat w) = w" for w :: u32
  by simp

lemma reads_back_bytes:
  assumes "PB_ATYPE (fd_type f) = PB_ATYPE_STATIC" "4 + unat (load_u32 mem src) \<le> unat (fd_data_size f)"
  shows "reads_back (pb_dec_bytes env f dest) mem src (4 + unat (load_u32 mem src))
    (leb128 (unat (load_u32 mem src)) @ load_bytes mem (src + 4) (unat (load_u32 mem src))) dest"
proof (rule reads_back_put)
  let ?w = "load_u32 mem src"
  fix s d assume s: "is_buffered s" "pending s = leb128 (unat ?w) @ load_bytes mem (src + 4) (unat ?w)"
  have lt: "unat ?w < 2 ^ 32" using unsigned_less [of ?w, where ?'a = nat] by simp
  have add: "size_add (unat ?w) 4 = unat ?w + 4" using lt by (intro size_add_exact) (simp add: SIZE_LIMIT_def)
  have put: "put_bytes (dest + 4) (load_bytes mem (src + 4) (unat ?w)) (put_u32 dest ?w d)
      = put_bytes dest (load_bytes mem src (4 + unat ?w)) d"
    using put_bytes_append [of dest "load_bytes mem src 4"] load_bytes_add [of mem src 4]
    by (simp add: put_u32_def le_bytes_load_u32 del: le_bytes_numeral)
  obtain s1 where "pb_decode_varint32 s = (Some ?w, s1)"
    "pb_read_buf s1 (unat ?w) = (True, load_bytes mem (src + 4) (unat ?w),
       advance s (length (leb128 (unat ?w) @ load_bytes mem (src + 4) (unat ?w))))"
    using delimited_read [OF s _ lt] by auto
  then show "pb_dec_bytes env f dest s d = Some (True,
      advance s (length (leb128 (unat ?w) @ load_bytes mem (src + 4) (unat ?w))),
      put_bytes dest (load_bytes mem src (4 + unat ?w)) d)"
    using assms put by (simp add: pb_dec_bytes_def add pb_read_mem_def)
next
  show "4 + unat (load_u32 mem src) < 2 ^ 64" using unsigned_less [of "load_u32 mem src", where ?'a = nat] by simp
qed

lemma strnlen_loop_ge: "sz \<le> strnlen_loop mem p sz n"
proof (induction mem p sz n rule: strnlen_loop.induct)
  case (1 mem p sz n)
  then show ?case by (subst strnlen_loop.simps) auto
qed

lemma strnlen_loop_stops:
  "sz \<le> n \<Longrightarrow> strnlen_loop mem p sz n < n \<Longrightarrow> mem (p + word_of_nat (strnlen_loop mem p sz n - sz)) = 0"
proof (induction mem p sz n rule: strnlen_loop.induct)
  case (1 mem p sz n)
  show ?case
  proof (cases "sz < n \<and> mem p \<noteq> 0")
    case True
    have u: "strnlen_loop mem p sz n = strnlen_loop mem (p + 1) (Suc sz) n"
      using True by (subst strnlen_loop.simps) simp
    have "Suc sz \<le> strnlen_loop mem (p + 1) (Suc sz) n"
      using strnlen_loop_ge by blast
    then obtain k where k: "strnlen_loop mem (p + 1) (Suc sz) n = Suc sz + k" using le_Suc_ex by blast
    have "mem (p + 1 + word_of_nat (strnlen_loop mem (p + 1) (Suc sz) n - Suc sz)) = 0"
      using 1(1) [OF True] 1(3) True u by simp
    then have "mem (p + 1 + word_of_nat k) = 0" unfolding k by simp
    moreover have "strnlen_loop mem p sz n - sz = Suc k" unfolding u k by simp
    ultimately show ?thesis by (simp add: add.assoc)
  next
    case False
    then have "strnlen_loop mem p sz n = sz" by (subst strnlen_loop.simps) auto
    then show ?thesis using False 1(3) by simp
  qed
qed

lemma pb_dec_string_static:
  assumes "is_buffered s" "pending s = leb128 n @ bs" "length bs = n" "n < unat (fd_data_size f)"
    "PB_ATYPE (fd_type f) = PB_ATYPE_STATIC"
  shows "pb_dec_string env f dest s d
    = Some (True, advance s (length (leb128 n @ bs)), put_bytes dest (bs @ [0]) d)"
proof -
  let ?w = "word_of_nat n :: u32"
  have "unat (fd_data_size f) < 2 ^ 32" using unsigned_less [of "fd_data_size f", where ?'a = nat] by simp
  then have n: "n < 2 ^ 32" "n + 1 < 2 ^ 32" using assms(4) by linarith+
  have un: "unat ?w = n" using n(1) by (intro unat_word_of_nat) simp
  have "unat (word_of_nat (n + 1) :: u32) = n + 1" using n(2) by (intro unat_word_of_nat) simp
  then have un1: "unat (?w + 1) = n + 1" by (simp only: of_nat_add of_nat_1)
  have "word_of_nat (unat ?w) = (ucast ?w :: u64)" by (simp only: of_nat_unat)
  then have uc: "ucast ?w = (word_of_nat n :: u64)" unfolding un ..
  have put: "put_bytes (dest + word_of_nat n) [0] (put_bytes dest bs d) = put_bytes dest (bs @ [0]) d"
    using put_bytes_append [of dest bs "[0]" d] assms(3) by (simp only:)
  obtain s1 where r: "pb_decode_varint32 s = (Some ?w, s1)"
    "pb_read_buf s1 n = (True, bs, advance s (length (leb128 n @ bs)))"
    using delimited_read [OF assms(1-3) n(1)] by blast
  have tail: "string_tail dest ?w s1 d = Some (True, advance s (length (leb128 n @ bs)), put_bytes dest (bs @ [0]) d)"
    unfolding string_tail_def pb_read_mem_def un r(2) using put assms(3) by (simp add: uc del: of_nat_unat)
  show ?thesis
    unfolding pb_dec_string_def r(1) prod.case option.case Let_def un un1 using assms(4,5) tail by simp
qed

lemma reads_back_string:
  assumes "PB_ATYPE (fd_type f) = PB_ATYPE_STATIC" "string_length mem f src < unat (fd_data_size f)"
  shows "reads_back (pb_dec_string env f dest) mem src (string_length mem f src + 1)
    (leb128 (string_length mem f src) @ load_bytes mem src (string_length mem f src)) dest"
proof -
  obtain n where n: "string_length mem f src = n" by blast
  have nul: "mem (src + word_of_nat n) = 0"
    using strnlen_loop_stops [of 0 "unat (fd_data_size f)" mem src] assms(2) n by (simp add: string_length_def)
  have ext: "load_bytes mem src (n + 1) = load_bytes mem src n @ [0]"
    unfolding load_bytes_add load_bytes_1 nul ..
  have "n + 1 < 2 ^ 64"
    using assms(2) n unsigned_less [of "fd_data_size f", where ?'a = nat] by simp
  then show ?thesis
    unfolding n using pb_dec_string_static [OF _ _ length_load_bytes _ assms(1)] assms(2) n
    by (intro reads_back_put) (simp_all only: ext)
qed

lemma reads_back_fixed_length:
  "reads_back (pb_dec_fixed_length_bytes f dest) mem src (unat (fd_data_size f))
    (leb128 (unat (fd_data_size f)) @ load_bytes mem src (unat (fd_data_size f))) dest"
proof (rule reads_back_put [OF _ u32_small])
  let ?n = "unat (fd_data_size f)"
  fix s d assume s: "is_buffered s" "pending s = leb128 ?n @ load_bytes mem src ?n"
  have n: "?n < 2 ^ 32" using unsigned_less [of "fd_data_size f", where ?'a = nat] by simp
  obtain s1 where r: "pb_decode_varint32 s = (Some (fd_data_size f), s1)"
    "pb_read_buf s1 ?n = (True, load_bytes mem src ?n, advance s (length (leb128 ?n @ load_bytes mem src ?n)))"
    using delimited_read [OF s _ n] by auto
  show "pb_dec_fixed_length_bytes f dest s d = Some (True, advance s (length (leb128 ?n @ load_bytes mem src ?n)),
      put_bytes dest (load_bytes mem src ?n) d)"
  proof (cases "fd_data_size f = 0")
    case True
    then show ?thesis using r by (simp add: pb_dec_fixed_length_bytes_def pb_read_buf_def load_bytes_def)
  next
    case False
    then show ?thesis using r by (simp add: pb_dec_fixed_length_bytes_def pb_read_mem_def)
  qed
qed

lemma decoder_reads_back:
  assumes "representable mem f src"
  shows "reads_back (PB_DECODERS env pbd f dest) mem src (value_extent mem f src) (field_bytes mem f src) dest"
proof -
  let ?t = "PB_LTYPE (fd_type f)"
  note defs = PB_DECODERS_def field_bytes_def value_extent_def Let_def
  consider "?t = PB_LTYPE_BOOL" | "?t = PB_LTYPE_VARINT \<or> ?t = PB_LTYPE_UVARINT \<or> ?t = PB_LTYPE_SVARINT"
    | "?t = PB_LTYPE_FIXED32" | "?t = PB_LTYPE_FIXED64" | "?t = PB_LTYPE_BYTES" | "?t = PB_LTYPE_STRING"
    | "?t = PB_LTYPE_FIXED_LENGTH_BYTES" using representable_ltype [OF assms] by auto
  then show ?thesis
  proof cases
    case 1
    then show ?thesis using assms reads_back_bool [of mem src f dest] by (auto simp: defs representable_def)
  next
    case 2
    then obtain v u where "load_signed mem src (fd_data_size f) = Some v" "load_unsigned mem src (fd_data_size f) = Some u"
      using representable_loads [OF assms] by blast
    then show ?thesis using 2 reads_back_varint reads_back_uvarint reads_back_svarint by (auto simp: defs)
  next
    case 3
    then show ?thesis using assms reads_back_fixed32 by (auto simp: defs representable_def)
  next
    case 4
    then show ?thesis using assms reads_back_fixed64 by (auto simp: defs representable_def)
  next
    case 5
    then show ?thesis using assms reads_back_bytes by (auto simp: defs representable_def)
  next
    case 6
    then show ?thesis using assms reads_back_string [of f mem src env dest] by (auto simp: defs representable_def)
  next
    case 7
    then show ?thesis using reads_back_fixed_length by (auto simp: defs)
  qed
qed

lemma length_field_bytes:
  assumes "representable mem f src"
  shows "length (field_bytes mem f src) < SIZE_LIMIT"
proof -
  have small: "length (leb128 (unat w)) \<le> 10" for w :: u64 by (rule length_leb128_u64)
  have u32: "length (leb128 n) \<le> 10" if "n < 2 ^ 32" for n
    using small [of "word_of_nat n"] that by (simp add: unat_word_of_nat)
  have lim: "10 + (2 ^ 32 :: nat) < SIZE_LIMIT" by (simp add: SIZE_LIMIT_def)
  have w32: "unat (w :: u32) < 2 ^ 32" for w using unsigned_less [of w, where ?'a = nat] by simp
  have "string_length mem f src \<le> unat (fd_data_size f)"
    unfolding string_length_def by (rule strnlen_loop_le) simp
  then have str: "string_length mem f src < 2 ^ 32" using w32 [of "fd_data_size f"] by linarith
  have "length (field_bytes mem f src) \<le> 10 + 2 ^ 32"
    using small [of "the (load_signed mem src (fd_data_size f))"] small [of "the (load_unsigned mem src (fd_data_size f))"]
      small [of "zigzag (the (load_signed mem src (fd_data_size f)))"] u32 [of 0] u32 [of "Suc 0"]
      u32 [OF w32 [of "load_u32 mem src"]] u32 [OF w32 [of "fd_data_size f"]] u32 [OF str]
      w32 [of "load_u32 mem src"] w32 [of "fd_data_size f"] str
    unfolding field_bytes_def Let_def by (simp split del: if_split) (simp split: if_split)
  then show ?thesis using lim by linarith
qed

text \<open>C2: encoding a static field and decoding the bytes written restores the field: for integers of every width
  and encoding, booleans, fixed-width values, bytes, strings with their terminator and fixed-length bytes, the decoder
  succeeds, consumes exactly what was written and stores the bytes of the value at its destination.\<close>

theorem field_roundtrip:
  assumes "representable (env_mem eenv) f src" "length buf < SIZE_LIMIT"
    and "PB_ENCODERS eenv sub f src (pb_ostream_from_buffer buf (length buf)) = Some (True, os)"
  shows "\<exists>s' d'. PB_DECODERS denv pbd f dest (reader_of os) d = Some (True, s', d') \<and> is_bytes_left s' = 0 \<and>
    load_bytes (dm_mem d') dest (value_extent (env_mem eenv) f src)
      = load_bytes (env_mem eenv) src (value_extent (env_mem eenv) f src)"
proof -
  let ?bs = "field_bytes (env_mem eenv) f src" and ?o = "pb_ostream_from_buffer buf (length buf)"
  note e = encoder_emits [OF assms(1), of sub]
  have o: "buffered ?o" "room ?o = length buf" using from_buffer_buffered [of buf] assms(2) by simp_all
  have z: "os_errmsg ?o = None" "os_bytes_written ?o = 0" by (simp_all add: pb_ostream_from_buffer_def)
  have "\<not> too_long ?o ?bs" using emits_too_long [OF e, of ?o] assms(3) by auto
  then have le: "length ?bs \<le> length buf" using o z length_field_bytes [OF assms(1)] by (auto simp: too_long_def)
  then have "fits ?o ?bs" using o z by (simp add: fits_def)
  then have os: "os = put ?o ?bs" using emits_True [OF e] assms(3) by simp
  have r: "is_buffered (reader_of os)" "pending (reader_of os) = ?bs"
    unfolding os using reader_of_put [OF assms(2) le] by simp_all
  have "is_bytes_left (reader_of os) = length ?bs" using length_pending [OF r(1)] r(2) by simp
  moreover obtain d' where "PB_DECODERS denv pbd f dest (reader_of os) d = Some (True, advance (reader_of os) (length ?bs), d')"
    "load_bytes (dm_mem d') dest (value_extent (env_mem eenv) f src)
      = load_bytes (env_mem eenv) src (value_extent (env_mem eenv) f src)"
    using decoder_reads_back [OF assms(1), of denv pbd dest] r unfolding reads_back_def by blast
  ultimately show ?thesis by simp
qed

definition field_mem :: memory where
  "field_mem p = (if p = 0x1000 then 0x2A else if p = 0x1001 then 0x01 else 0)"

theorem field_roundtrip_witness:
  "\<exists>s' d'. PB_DECODERS dec_example_env (decode_message dec_example_env 0) (example_table ! 0) 0x2000
       (reader_of (put (pb_ostream_from_buffer [0, 0, 0] 3) [0xAA, 0x02])) \<lparr>dm_mem = (\<lambda>_. 0), dm_heap = []\<rparr>
     = Some (True, s', d') \<and> load_bytes (dm_mem d') 0x2000 4 = [0x2A, 0x01, 0, 0]"
proof -
  let ?env = "Pb_Encode.example_env\<lparr>env_mem := field_mem\<rparr>" and ?f = "example_table ! 0"
    and ?o = "pb_ostream_from_buffer [0, 0, 0] 3"
  have rep: "representable (env_mem ?env) ?f 0x1000"
    by (simp add: representable_def example_table_def PB_LTYPE_def PB_ATYPE_def)
  have bytes: "field_bytes (env_mem ?env) ?f 0x1000 = [0xAA, 0x02]" "value_extent (env_mem ?env) ?f 0x1000 = 4"
    "load_bytes (env_mem ?env) 0x1000 4 = [0x2A, 0x01, 0, 0]"
    by code_simp+
  have "fits ?o [0xAA, 0x02]"
    using from_buffer_buffered [of "[0, 0, 0]"]
    by (simp add: fits_def SIZE_LIMIT_def numeral_3_eq_3) (simp add: pb_ostream_from_buffer_def)
  then have "PB_ENCODERS ?env (\<lambda>tbl src s. None) ?f 0x1000 ?o = Some (True, put ?o [0xAA, 0x02])"
    using emits_True [OF encoder_emits [OF rep]] bytes(1) by simp
  from field_roundtrip [OF rep, of "[0, 0, 0]" "\<lambda>tbl src s. None" "put ?o [0xAA, 0x02]" dec_example_env
      "decode_message dec_example_env 0" "0x2000" "\<lparr>dm_mem = (\<lambda>_. 0), dm_heap = []\<rparr>"] this
  show ?thesis unfolding bytes(2,3) by (auto simp: SIZE_LIMIT_def numeral_3_eq_3)
qed

end
