(* ===== verification/Bio.thy ===== *)
theory Bio
  imports Mem "HOL-Library.Monad_Syntax"
begin

text \<open>
  The generic I/O layer of BoringSSL (\<open>crypto/bio/bio.c\<close>): a heap of \<open>BIO\<close> records, each with a pointer to
  a table of methods, and the operations that dispatch to them. An operation on the heap is a partial
  function: \<open>None\<close> stands for a failed assertion, an access outside a buffer, a dead or mistyped
  pointer, or a loop that does not end, so that a theorem with result \<open>Some\<close> excludes all of these.
\<close>

subsection \<open>The heap\<close>

text \<open>\<open>struct bio_bio_st\<close>, one end of a pair.\<close>

record bio_bio_st =
  bb_peer :: "nat option"
  bb_closed :: int
  bb_len :: nat
  bb_offset :: nat
  bb_size :: nat
  bb_buf :: "u8 list option"
  bb_request :: nat

text \<open>\<open>BUF_MEM\<close>: \<open>data\<close> is a block and the index in it of the byte it points to.\<close>

record buf_mem =
  bm_length :: nat
  bm_data :: "(u8 list \<times> nat) option"
  bm_max :: nat

text \<open>What the untyped \<open>ptr\<close> of a \<open>BIO\<close> points to: nothing, the structure of a pair (which no other
  \<open>BIO\<close> refers to), or a \<open>BUF_MEM\<close>, by its address.\<close>

datatype bio_ptr = PNull | PPair bio_bio_st | PMem nat

record BIO =
  bio_method :: "nat option"
  bio_init :: int
  bio_shutdown :: int
  bio_flags :: u32
  bio_retry_reason :: int
  bio_num :: int
  bio_references :: u32
  bio_ptr :: bio_ptr
  bio_next_bio :: "nat option"
  bio_num_read :: nat
  bio_num_write :: nat

text \<open>The \<open>i\<close>-th call of \<open>malloc\<close> in a run is served by \<open>wd_malloc i\<close>, and \<open>i\<close> is the address of the block:
  the results of the C library are a parameter. Errors are the library and reason of each
  \<open>OPENSSL_PUT_ERROR\<close>, in order.\<close>

record world =
  wd_bios :: "nat \<Rightarrow> BIO option"
  wd_bufs :: "nat \<Rightarrow> buf_mem option"
  wd_malloc :: "nat \<Rightarrow> allocator"
  wd_count :: nat
  wd_errors :: "(string \<times> string) list"

definition bio_malloc :: "nat \<Rightarrow> world \<Rightarrow> u8 list option \<times> nat \<times> world" where
  "bio_malloc sz w = (OPENSSL_malloc (wd_malloc w (wd_count w)) sz, wd_count w, w\<lparr>wd_count := Suc (wd_count w)\<rparr>)"

definition PUT_ERROR :: "string \<Rightarrow> string \<Rightarrow> world \<Rightarrow> world" where
  "PUT_ERROR lib reason w = w\<lparr>wd_errors := wd_errors w @ [(lib, reason)]\<rparr>"

definition bio_set :: "nat \<Rightarrow> (BIO \<Rightarrow> BIO) \<Rightarrow> world \<Rightarrow> world option" where
  "bio_set a f w = map_option (\<lambda>b. w\<lparr>wd_bios := (wd_bios w)(a := Some (f b))\<rparr>) (wd_bios w a)"

subsection \<open>Reference counts\<close>

definition CRYPTO_REFCOUNT_MAX :: u32 where
  "CRYPTO_REFCOUNT_MAX = 0xffffffff"

definition CRYPTO_refcount_inc :: "u32 \<Rightarrow> u32" where
  "CRYPTO_refcount_inc count = (if count < CRYPTO_REFCOUNT_MAX then count + 1 else count)"

text \<open>Decrementing 0 aborts; a saturated count stays.\<close>

definition CRYPTO_refcount_dec_and_test_zero :: "u32 \<Rightarrow> (u32 \<times> bool) option" where
  "CRYPTO_refcount_dec_and_test_zero count =
     (if count = 0 then None
      else let count' = (if count < CRYPTO_REFCOUNT_MAX then count - 1 else count)
           in Some (count', count' = 0))"

subsection \<open>Methods\<close>

text \<open>The last argument of \<open>BIO_ctrl\<close> is untyped: a null pointer, a \<open>BIO\<close>, a \<open>BUF_MEM\<close>, an \<open>int\<close>, or the
  address of a cell that receives a pointer.\<close>

datatype out_cell = OUnset | OData "(u8 list \<times> nat) option" | OBufMem nat

datatype ctrl_ptr = CNull | CBio nat | CBufMem nat | CInt int | COut out_cell

text \<open>Reading takes the caller's buffer (\<open>None\<close> for a null pointer) and returns it updated.\<close>

record BIO_METHOD =
  m_type :: u32
  m_name :: string
  m_bwrite :: "(nat \<Rightarrow> u8 list option \<Rightarrow> int \<Rightarrow> world \<Rightarrow> (int \<times> world) option) option"
  m_bread :: "(nat \<Rightarrow> u8 list option \<Rightarrow> int \<Rightarrow> world \<Rightarrow> (int \<times> u8 list option \<times> world) option) option"
  m_bgets :: "(nat \<Rightarrow> u8 list option \<Rightarrow> int \<Rightarrow> world \<Rightarrow> (int \<times> u8 list option \<times> world) option) option"
  m_ctrl :: "(nat \<Rightarrow> int \<Rightarrow> int \<Rightarrow> ctrl_ptr \<Rightarrow> world \<Rightarrow> (int \<times> ctrl_ptr \<times> world) option) option"
  m_create :: "(nat \<Rightarrow> world \<Rightarrow> (int \<times> world) option) option"
  m_destroy :: "(nat \<Rightarrow> world \<Rightarrow> (int \<times> world) option) option"
  m_callback_ctrl :: "(nat \<Rightarrow> int \<Rightarrow> nat \<Rightarrow> world \<Rightarrow> (int \<times> world) option) option"

type_synonym methods = "nat \<Rightarrow> BIO_METHOD option"

definition BIO_meth_new :: "u32 \<Rightarrow> string \<Rightarrow> BIO_METHOD" where
  "BIO_meth_new type name = \<lparr>m_type = type, m_name = name, m_bwrite = None, m_bread = None, m_bgets = None,
     m_ctrl = None, m_create = None, m_destroy = None, m_callback_ctrl = None\<rparr>"

definition BIO_meth_set_create where "BIO_meth_set_create method create = method\<lparr>m_create := create\<rparr>"
definition BIO_meth_set_destroy where "BIO_meth_set_destroy method destroy = method\<lparr>m_destroy := destroy\<rparr>"
definition BIO_meth_set_write where "BIO_meth_set_write method write = method\<lparr>m_bwrite := write\<rparr>"
definition BIO_meth_set_read where "BIO_meth_set_read method read = method\<lparr>m_bread := read\<rparr>"
definition BIO_meth_set_gets where "BIO_meth_set_gets method gets = method\<lparr>m_bgets := gets\<rparr>"
definition BIO_meth_set_ctrl where "BIO_meth_set_ctrl method ctrl = method\<lparr>m_ctrl := ctrl\<rparr>"

text \<open>A method table of \<open>T\<close>, when the pointer is not null and the table has been set up.\<close>

definition method_of :: "methods \<Rightarrow> nat option \<Rightarrow> BIO_METHOD option" where
  "method_of T p = Option.bind p T"

subsection \<open>Flags\<close>

definition BIO_FLAGS_READ :: u32 where "BIO_FLAGS_READ = 0x01"
definition BIO_FLAGS_WRITE :: u32 where "BIO_FLAGS_WRITE = 0x02"
definition BIO_FLAGS_IO_SPECIAL :: u32 where "BIO_FLAGS_IO_SPECIAL = 0x04"
definition BIO_FLAGS_RWS :: u32 where
  "BIO_FLAGS_RWS = BIO_FLAGS_READ OR BIO_FLAGS_WRITE OR BIO_FLAGS_IO_SPECIAL"
definition BIO_FLAGS_SHOULD_RETRY :: u32 where "BIO_FLAGS_SHOULD_RETRY = 0x08"
definition BIO_FLAGS_MEM_RDONLY :: u32 where "BIO_FLAGS_MEM_RDONLY = 0x200"

definition kRetryFlags :: u32 where
  "kRetryFlags = BIO_FLAGS_RWS OR BIO_FLAGS_SHOULD_RETRY"

lemmas bio_flag_defs = BIO_FLAGS_READ_def BIO_FLAGS_WRITE_def BIO_FLAGS_IO_SPECIAL_def BIO_FLAGS_RWS_def
  BIO_FLAGS_SHOULD_RETRY_def BIO_FLAGS_MEM_RDONLY_def kRetryFlags_def

definition BIO_set_flags :: "nat \<Rightarrow> u32 \<Rightarrow> world \<Rightarrow> world option" where
  "BIO_set_flags bio flags = bio_set bio (\<lambda>b. b\<lparr>bio_flags := bio_flags b OR flags\<rparr>)"

definition BIO_clear_flags :: "nat \<Rightarrow> u32 \<Rightarrow> world \<Rightarrow> world option" where
  "BIO_clear_flags bio flags = bio_set bio (\<lambda>b. b\<lparr>bio_flags := bio_flags b AND NOT flags\<rparr>)"

definition BIO_test_flags :: "BIO \<Rightarrow> u32 \<Rightarrow> u32" where
  "BIO_test_flags bio flags = bio_flags bio AND flags"

definition BIO_should_read :: "BIO \<Rightarrow> u32" where
  "BIO_should_read bio = BIO_test_flags bio BIO_FLAGS_READ"

definition BIO_should_write :: "BIO \<Rightarrow> u32" where
  "BIO_should_write bio = BIO_test_flags bio BIO_FLAGS_WRITE"

definition BIO_should_retry :: "BIO \<Rightarrow> u32" where
  "BIO_should_retry bio = BIO_test_flags bio BIO_FLAGS_SHOULD_RETRY"

definition BIO_should_io_special :: "BIO \<Rightarrow> u32" where
  "BIO_should_io_special bio = BIO_test_flags bio BIO_FLAGS_IO_SPECIAL"

definition BIO_set_retry_read :: "nat \<Rightarrow> world \<Rightarrow> world option" where
  "BIO_set_retry_read bio =
     bio_set bio (\<lambda>b. b\<lparr>bio_flags := bio_flags b OR (BIO_FLAGS_READ OR BIO_FLAGS_SHOULD_RETRY)\<rparr>)"

definition BIO_set_retry_write :: "nat \<Rightarrow> world \<Rightarrow> world option" where
  "BIO_set_retry_write bio =
     bio_set bio (\<lambda>b. b\<lparr>bio_flags := bio_flags b OR (BIO_FLAGS_WRITE OR BIO_FLAGS_SHOULD_RETRY)\<rparr>)"

definition BIO_set_retry_special :: "nat \<Rightarrow> world \<Rightarrow> world option" where
  "BIO_set_retry_special bio =
     bio_set bio (\<lambda>b. b\<lparr>bio_flags := bio_flags b OR (BIO_FLAGS_READ OR BIO_FLAGS_IO_SPECIAL)\<rparr>)"

definition BIO_get_retry_flags :: "BIO \<Rightarrow> u32" where
  "BIO_get_retry_flags bio = bio_flags bio AND kRetryFlags"

definition BIO_clear_retry_flags :: "nat \<Rightarrow> world \<Rightarrow> world option" where
  "BIO_clear_retry_flags bio =
     bio_set bio (\<lambda>b. b\<lparr>bio_flags := bio_flags b AND NOT kRetryFlags, bio_retry_reason := 0\<rparr>)"

definition BIO_copy_next_retry :: "nat \<Rightarrow> world \<Rightarrow> world option" where
  "BIO_copy_next_retry bio w = do {
     w \<leftarrow> BIO_clear_retry_flags bio w;
     b \<leftarrow> wd_bios w bio;
     nx \<leftarrow> bio_next_bio b;
     n \<leftarrow> wd_bios w nx;
     w \<leftarrow> BIO_set_flags bio (BIO_get_retry_flags n) w;
     bio_set bio (\<lambda>b. b\<lparr>bio_retry_reason := bio_retry_reason n\<rparr>) w }"

subsection \<open>Creation, chains and release\<close>

definition zero_BIO :: BIO where
  "zero_BIO = \<lparr>bio_method = None, bio_init = 0, bio_shutdown = 0, bio_flags = 0, bio_retry_reason = 0,
     bio_num = 0, bio_references = 0, bio_ptr = PNull, bio_next_bio = None, bio_num_read = 0, bio_num_write = 0\<rparr>"

definition sizeof_BIO :: nat where "sizeof_BIO = 64"

text \<open>\<open>OPENSSL_free\<close> of a \<open>BIO\<close>: its address is dead from now on.\<close>

definition bio_release :: "nat \<Rightarrow> world \<Rightarrow> world" where
  "bio_release a w = w\<lparr>wd_bios := (wd_bios w)(a := None)\<rparr>"

definition BIO_new :: "methods \<Rightarrow> nat \<Rightarrow> world \<Rightarrow> (nat option \<times> world) option" where
  "BIO_new T method w =
     (case bio_malloc sizeof_BIO w of
        (None, _, w) \<Rightarrow> Some (None, PUT_ERROR ''BIO'' ''MALLOC_FAILURE'' w)
      | (Some _, ret, w) \<Rightarrow> do {
          let w = w\<lparr>wd_bios := (wd_bios w)(ret :=
            Some (zero_BIO\<lparr>bio_method := Some method, bio_shutdown := 1, bio_references := 1\<rparr>))\<rparr>;
          m \<leftarrow> T method;
          case m_create m of
            None \<Rightarrow> Some (Some ret, w)
          | Some create \<Rightarrow> do {
              (ok, w) \<leftarrow> create ret w;
              if ok = 0 then Some (None, bio_release ret w) else Some (Some ret, w) } })"

partial_function (option) bio_last :: "nat \<Rightarrow> world \<Rightarrow> nat option" where
  "bio_last last_bio w = do {
     b \<leftarrow> wd_bios w last_bio;
     case bio_next_bio b of None \<Rightarrow> Some last_bio | Some nx \<Rightarrow> bio_last nx w }"

definition BIO_push :: "nat option \<Rightarrow> nat option \<Rightarrow> world \<Rightarrow> (nat option \<times> world) option" where
  "BIO_push bio appended_bio w =
     (case bio of
        None \<Rightarrow> Some (None, w)
      | Some a \<Rightarrow> do {
          l \<leftarrow> bio_last a w;
          w \<leftarrow> bio_set l (\<lambda>b. b\<lparr>bio_next_bio := appended_bio\<rparr>) w;
          Some (bio, w) })"

definition BIO_pop :: "nat option \<Rightarrow> world \<Rightarrow> (nat option \<times> world) option" where
  "BIO_pop bio w =
     (case bio of
        None \<Rightarrow> Some (None, w)
      | Some a \<Rightarrow> do {
          b \<leftarrow> wd_bios w a;
          w \<leftarrow> bio_set a (\<lambda>b. b\<lparr>bio_next_bio := None\<rparr>) w;
          Some (bio_next_bio b, w) })"

definition BIO_next :: "nat option \<Rightarrow> world \<Rightarrow> nat option option" where
  "BIO_next bio w = (case bio of None \<Rightarrow> Some None | Some a \<Rightarrow> map_option bio_next_bio (wd_bios w a))"

text \<open>\<open>method->type\<close> through a method pointer that may be null.\<close>

partial_function (option) bio_find_loop :: "methods \<Rightarrow> nat \<Rightarrow> u32 \<Rightarrow> world \<Rightarrow> nat option option" where
  "bio_find_loop T bio type w = do {
     b \<leftarrow> wd_bios w bio;
     hit \<leftarrow> (case bio_method b of
              None \<Rightarrow> Some False
            | Some p \<Rightarrow> do {
                m \<leftarrow> T p;
                if type AND 0xff = 0 then Some (m_type m AND type \<noteq> 0) else Some (m_type m = type) });
     if hit then Some (Some bio)
     else case bio_next_bio b of None \<Rightarrow> Some None | Some nx \<Rightarrow> bio_find_loop T nx type w }"

definition BIO_find_type :: "methods \<Rightarrow> nat option \<Rightarrow> u32 \<Rightarrow> world \<Rightarrow> nat option option" where
  "BIO_find_type T bio type w = (case bio of None \<Rightarrow> Some None | Some a \<Rightarrow> bio_find_loop T a type w)"

partial_function (option) BIO_free :: "methods \<Rightarrow> nat option \<Rightarrow> world \<Rightarrow> (int \<times> world) option" where
  "BIO_free T bio w =
     (case bio of
        None \<Rightarrow> Some (1, w)
      | Some a \<Rightarrow> do {
          b \<leftarrow> wd_bios w a;
          (refs, zero) \<leftarrow> CRYPTO_refcount_dec_and_test_zero (bio_references b);
          w \<leftarrow> bio_set a (\<lambda>b. b\<lparr>bio_references := refs\<rparr>) w;
          if \<not> zero then Some (0, w)
          else do {
            (next_bio, w) \<leftarrow> BIO_pop bio w;
            w \<leftarrow> (case method_of T (bio_method b) of
                    None \<Rightarrow> Some w
                  | Some m \<Rightarrow> (case m_destroy m of
                      None \<Rightarrow> Some w
                    | Some destroy \<Rightarrow> map_option snd (destroy a w)));
            BIO_free T next_bio (bio_release a w) } })"

definition BIO_up_ref :: "nat \<Rightarrow> world \<Rightarrow> (int \<times> world) option" where
  "BIO_up_ref bio w = do {
     w \<leftarrow> bio_set bio (\<lambda>b. b\<lparr>bio_references := CRYPTO_refcount_inc (bio_references b)\<rparr>) w;
     Some (1, w) }"

definition BIO_vfree :: "methods \<Rightarrow> nat option \<Rightarrow> world \<Rightarrow> world option" where
  "BIO_vfree T bio w = map_option snd (BIO_free T bio w)"

definition BIO_free_all :: "methods \<Rightarrow> nat option \<Rightarrow> world \<Rightarrow> world option" where
  "BIO_free_all T bio w = map_option snd (BIO_free T bio w)"

subsection \<open>Reading and writing\<close>

text \<open>\<open>bio->num_read += ret\<close>, the \<open>int\<close> converted to \<open>size_t\<close>.\<close>

definition count_read :: "nat \<Rightarrow> int \<Rightarrow> world \<Rightarrow> world option" where
  "count_read bio ret w =
     (if ret > 0 then bio_set bio (\<lambda>b. b\<lparr>bio_num_read := size_add (bio_num_read b) (nat ret)\<rparr>) w else Some w)"

definition count_write :: "nat \<Rightarrow> int \<Rightarrow> world \<Rightarrow> world option" where
  "count_write bio ret w =
     (if ret > 0 then bio_set bio (\<lambda>b. b\<lparr>bio_num_write := size_add (bio_num_write b) (nat ret)\<rparr>) w else Some w)"

definition UNSUPPORTED :: "world \<Rightarrow> world" where
  "UNSUPPORTED = PUT_ERROR ''BIO'' ''UNSUPPORTED_METHOD''"

definition UNINITIALIZED :: "world \<Rightarrow> world" where
  "UNINITIALIZED = PUT_ERROR ''BIO'' ''UNINITIALIZED''"

definition BIO_read ::
  "methods \<Rightarrow> nat option \<Rightarrow> u8 list option \<Rightarrow> int \<Rightarrow> world \<Rightarrow> (int \<times> u8 list option \<times> world) option" where
  "BIO_read T bio buf len w =
     (case bio of
        None \<Rightarrow> Some (-2, buf, UNSUPPORTED w)
      | Some a \<Rightarrow> do {
          b \<leftarrow> wd_bios w a;
          case Option.bind (method_of T (bio_method b)) m_bread of
            None \<Rightarrow> Some (-2, buf, UNSUPPORTED w)
          | Some bread \<Rightarrow>
              if bio_init b = 0 then Some (-2, buf, UNINITIALIZED w)
              else if len \<le> 0 then Some (0, buf, w)
              else do {
                (ret, buf, w) \<leftarrow> bread a buf len w;
                w \<leftarrow> count_read a ret w;
                Some (ret, buf, w) } })"

definition BIO_gets ::
  "methods \<Rightarrow> nat option \<Rightarrow> u8 list option \<Rightarrow> int \<Rightarrow> world \<Rightarrow> (int \<times> u8 list option \<times> world) option" where
  "BIO_gets T bio buf len w =
     (case bio of
        None \<Rightarrow> Some (-2, buf, UNSUPPORTED w)
      | Some a \<Rightarrow> do {
          b \<leftarrow> wd_bios w a;
          case Option.bind (method_of T (bio_method b)) m_bgets of
            None \<Rightarrow> Some (-2, buf, UNSUPPORTED w)
          | Some bgets \<Rightarrow>
              if bio_init b = 0 then Some (-2, buf, UNINITIALIZED w)
              else if len \<le> 0 then Some (0, buf, w)
              else do {
                (ret, buf, w) \<leftarrow> bgets a buf len w;
                w \<leftarrow> count_read a ret w;
                Some (ret, buf, w) } })"

definition BIO_write ::
  "methods \<Rightarrow> nat option \<Rightarrow> u8 list option \<Rightarrow> int \<Rightarrow> world \<Rightarrow> (int \<times> world) option" where
  "BIO_write T bio src inl w =
     (case bio of
        None \<Rightarrow> Some (-2, UNSUPPORTED w)
      | Some a \<Rightarrow> do {
          b \<leftarrow> wd_bios w a;
          case Option.bind (method_of T (bio_method b)) m_bwrite of
            None \<Rightarrow> Some (-2, UNSUPPORTED w)
          | Some bwrite \<Rightarrow>
              if bio_init b = 0 then Some (-2, UNINITIALIZED w)
              else if inl \<le> 0 then Some (0, w)
              else do {
                (ret, w) \<leftarrow> bwrite a src inl w;
                w \<leftarrow> count_write a ret w;
                Some (ret, w) } })"

text \<open>The bytes not yet written are the list \<open>data\<close>; \<open>len\<close> counts them.\<close>

partial_function (option) BIO_write_all ::
  "methods \<Rightarrow> nat option \<Rightarrow> u8 list \<Rightarrow> nat \<Rightarrow> world \<Rightarrow> (int \<times> world) option" where
  "BIO_write_all T bio data len w =
     (if len = 0 then Some (1, w)
      else do {
        (ret, w) \<leftarrow> BIO_write T bio (Some data) (if int len > INT_MAX then INT_MAX else int len) w;
        if ret \<le> 0 then Some (0, w)
        else BIO_write_all T bio (drop (nat ret) data) (size_sub len (nat ret)) w })"

text \<open>\<open>strlen\<close> is converted to the \<open>int\<close> parameter of \<open>BIO_write\<close>.\<close>

definition BIO_puts :: "methods \<Rightarrow> nat option \<Rightarrow> u8 list \<Rightarrow> world \<Rightarrow> (int \<times> world) option" where
  "BIO_puts T bio s w = BIO_write T bio (Some s) (c_int (int (c_strlen s))) w"

fun bio_indent_loop :: "methods \<Rightarrow> nat option \<Rightarrow> nat \<Rightarrow> world \<Rightarrow> (int \<times> world) option" where
  "bio_indent_loop T bio 0 w = Some (1, w)"
| "bio_indent_loop T bio (Suc indent) w = do {
     (ret, w) \<leftarrow> BIO_puts T bio [0x20, 0] w;
     if ret \<noteq> 1 then Some (0, w) else bio_indent_loop T bio indent w }"

definition BIO_indent :: "methods \<Rightarrow> nat option \<Rightarrow> u32 \<Rightarrow> u32 \<Rightarrow> world \<Rightarrow> (int \<times> world) option" where
  "BIO_indent T bio indent max_indent w =
     bio_indent_loop T bio (unat (if indent > max_indent then max_indent else indent)) w"

subsection \<open>Control operations\<close>

definition BIO_ctrl ::
  "methods \<Rightarrow> nat option \<Rightarrow> int \<Rightarrow> int \<Rightarrow> ctrl_ptr \<Rightarrow> world \<Rightarrow> (int \<times> ctrl_ptr \<times> world) option" where
  "BIO_ctrl T bio cmd larg parg w =
     (case bio of
        None \<Rightarrow> Some (0, parg, w)
      | Some a \<Rightarrow> do {
          b \<leftarrow> wd_bios w a;
          case Option.bind (method_of T (bio_method b)) m_ctrl of
            None \<Rightarrow> Some (-2, parg, UNSUPPORTED w)
          | Some ctrl \<Rightarrow> ctrl a cmd larg parg w })"

definition BIO_callback_ctrl ::
  "methods \<Rightarrow> nat option \<Rightarrow> int \<Rightarrow> nat \<Rightarrow> world \<Rightarrow> (int \<times> world) option" where
  "BIO_callback_ctrl T bio cmd fp w =
     (case bio of
        None \<Rightarrow> Some (0, w)
      | Some a \<Rightarrow> do {
          b \<leftarrow> wd_bios w a;
          case Option.bind (method_of T (bio_method b)) m_callback_ctrl of
            None \<Rightarrow> Some (0, UNSUPPORTED w)
          | Some cb \<Rightarrow> cb a cmd fp w })"

definition BIO_CTRL_RESET :: int where "BIO_CTRL_RESET = 1"
definition BIO_CTRL_EOF :: int where "BIO_CTRL_EOF = 2"
definition BIO_CTRL_INFO :: int where "BIO_CTRL_INFO = 3"
definition BIO_CTRL_GET_CLOSE :: int where "BIO_CTRL_GET_CLOSE = 8"
definition BIO_CTRL_SET_CLOSE :: int where "BIO_CTRL_SET_CLOSE = 9"
definition BIO_CTRL_PENDING :: int where "BIO_CTRL_PENDING = 10"
definition BIO_CTRL_FLUSH :: int where "BIO_CTRL_FLUSH = 11"
definition BIO_CTRL_WPENDING :: int where "BIO_CTRL_WPENDING = 13"
definition BIO_C_SET_BUF_MEM :: int where "BIO_C_SET_BUF_MEM = 114"
definition BIO_C_GET_BUF_MEM_PTR :: int where "BIO_C_GET_BUF_MEM_PTR = 115"
definition BIO_C_SET_BUF_MEM_EOF_RETURN :: int where "BIO_C_SET_BUF_MEM_EOF_RETURN = 130"
definition BIO_C_GET_WRITE_BUF_SIZE :: int where "BIO_C_GET_WRITE_BUF_SIZE = 137"
definition BIO_C_GET_WRITE_GUARANTEE :: int where "BIO_C_GET_WRITE_GUARANTEE = 140"
definition BIO_C_GET_READ_REQUEST :: int where "BIO_C_GET_READ_REQUEST = 141"
definition BIO_C_SHUTDOWN_WR :: int where "BIO_C_SHUTDOWN_WR = 142"
definition BIO_C_RESET_READ_REQUEST :: int where "BIO_C_RESET_READ_REQUEST = 147"

lemmas bio_ctrl_codes = BIO_CTRL_RESET_def BIO_CTRL_EOF_def BIO_CTRL_INFO_def BIO_CTRL_GET_CLOSE_def
  BIO_CTRL_SET_CLOSE_def BIO_CTRL_PENDING_def BIO_CTRL_FLUSH_def BIO_CTRL_WPENDING_def
  BIO_C_SET_BUF_MEM_def BIO_C_GET_BUF_MEM_PTR_def BIO_C_SET_BUF_MEM_EOF_RETURN_def
  BIO_C_GET_WRITE_BUF_SIZE_def BIO_C_GET_WRITE_GUARANTEE_def BIO_C_GET_READ_REQUEST_def
  BIO_C_SHUTDOWN_WR_def BIO_C_RESET_READ_REQUEST_def

text \<open>The wrappers return the \<open>long\<close> of \<open>BIO_ctrl\<close> as an \<open>int\<close>.\<close>

definition int_ctrl :: "methods \<Rightarrow> nat option \<Rightarrow> int \<Rightarrow> int \<Rightarrow> world \<Rightarrow> (int \<times> world) option" where
  "int_ctrl T bio cmd larg w = do { (r, _, w) \<leftarrow> BIO_ctrl T bio cmd larg CNull w; Some (c_int r, w) }"

definition BIO_flush where "BIO_flush T bio w = int_ctrl T bio BIO_CTRL_FLUSH 0 w"
definition BIO_reset where "BIO_reset T bio w = int_ctrl T bio BIO_CTRL_RESET 0 w"
definition BIO_eof where "BIO_eof T bio w = int_ctrl T bio BIO_CTRL_EOF 0 w"
definition BIO_set_close where "BIO_set_close T bio close_flag w = int_ctrl T bio BIO_CTRL_SET_CLOSE close_flag w"

definition BIO_ptr_ctrl :: "methods \<Rightarrow> nat option \<Rightarrow> int \<Rightarrow> int \<Rightarrow> world \<Rightarrow> (out_cell \<times> world) option" where
  "BIO_ptr_ctrl T b cmd larg w = do {
     (r, p, w) \<leftarrow> BIO_ctrl T b cmd larg (COut OUnset) w;
     if r \<le> 0 then Some (OUnset, w)
     else case p of COut c \<Rightarrow> Some (c, w) | _ \<Rightarrow> None }"

definition BIO_int_ctrl :: "methods \<Rightarrow> nat option \<Rightarrow> int \<Rightarrow> int \<Rightarrow> int \<Rightarrow> world \<Rightarrow> (int \<times> world) option" where
  "BIO_int_ctrl T b cmd larg iarg w = do { (r, _, w) \<leftarrow> BIO_ctrl T b cmd larg (CInt iarg) w; Some (r, w) }"

definition BIO_pending :: "methods \<Rightarrow> nat option \<Rightarrow> world \<Rightarrow> (nat \<times> world) option" where
  "BIO_pending T bio w = do {
     (r, _, w) \<leftarrow> BIO_ctrl T bio BIO_CTRL_PENDING 0 CNull w;
     _ \<leftarrow> c_assert (r \<ge> 0);
     Some (nat r, w) }"

definition BIO_wpending :: "methods \<Rightarrow> nat option \<Rightarrow> world \<Rightarrow> (nat \<times> world) option" where
  "BIO_wpending T bio w = do {
     (r, _, w) \<leftarrow> BIO_ctrl T bio BIO_CTRL_WPENDING 0 CNull w;
     _ \<leftarrow> c_assert (r \<ge> 0);
     Some (nat r, w) }"

subsection \<open>Reading everything, and reading an ASN.1 element\<close>

text \<open>\<open>bio_read_full\<close> writes at \<open>out + pos\<close>. The result says whether it succeeded and whether it failed
  at the end of the input on the first read.\<close>

partial_function (option) bio_read_full ::
  "methods \<Rightarrow> nat option \<Rightarrow> u8 list \<Rightarrow> nat \<Rightarrow> nat \<Rightarrow> bool \<Rightarrow> world \<Rightarrow> (bool \<times> bool \<times> u8 list \<times> world) option" where
  "bio_read_full T bio out pos len first_read w =
     (if len = 0 then Some (True, False, out, w)
      else do {
        (ret, dst, w) \<leftarrow> BIO_read T bio (Some (drop pos out)) (if int len \<le> INT_MAX then int len else INT_MAX) w;
        bytes \<leftarrow> dst;
        let out = take pos out @ bytes;
        if ret \<le> 0 then Some (False, first_read \<and> ret = 0, out, w)
        else bio_read_full T bio out (pos + nat ret) (size_sub len (nat ret)) False w })"

definition kChunkSize :: nat where
  "kChunkSize = 4096"

text \<open>The loop of \<open>bio_read_all\<close>: \<open>out\<close> is the block of \<open>len\<close> bytes (its header in front), \<open>done\<close> the bytes in use.\<close>

partial_function (option) bio_read_all_loop ::
  "methods \<Rightarrow> nat option \<Rightarrow> u8 list \<Rightarrow> nat \<Rightarrow> nat \<Rightarrow> nat \<Rightarrow> world \<Rightarrow> ((u8 list \<times> nat) option \<times> world) option" where
  "bio_read_all_loop T bio out len done max_len w =
     (if done = len then Some (None, w)
      else do {
        let todo = size_sub len done;
        _ \<leftarrow> c_assert (int todo < INT_MAX);
        (n, dst, w) \<leftarrow> BIO_read T bio (Some (drop (OPENSSL_MALLOC_PREFIX + done) out)) (int todo) w;
        bytes \<leftarrow> dst;
        let out = take (OPENSSL_MALLOC_PREFIX + done) out @ bytes;
        if n = 0 then Some (Some (out, done), w)
        else if n = -1 then Some (None, w)
        else let done = to_size (int done + n) in
          if len < max_len \<and> size_sub len done < kChunkSize div 2 then
            let len' = size_add len kChunkSize;
                len' = (if len' < kChunkSize \<or> len' > max_len then max_len else len')
            in case OPENSSL_realloc (wd_malloc w (wd_count w)) (Some out) len' of
                 (None, _) \<Rightarrow> Some (None, w\<lparr>wd_count := Suc (wd_count w)\<rparr>)
               | (Some new_buf, _) \<Rightarrow>
                   bio_read_all_loop T bio new_buf len' done max_len (w\<lparr>wd_count := Suc (wd_count w)\<rparr>)
          else bio_read_all_loop T bio out len done max_len w })"

definition bio_read_all ::
  "methods \<Rightarrow> nat option \<Rightarrow> u8 list \<Rightarrow> nat \<Rightarrow> world \<Rightarrow> ((u8 list \<times> nat) option \<times> world) option" where
  "bio_read_all T bio prefix max_len w =
     (let prefix_len = length prefix;
          len = size_add prefix_len kChunkSize;
          len = (if len > max_len then max_len else len)
      in if len < prefix_len then Some (None, w)
         else case bio_malloc len w of
           (None, _, w) \<Rightarrow> Some (None, w)
         | (Some out, _, w) \<Rightarrow>
             bio_read_all_loop T bio (copy_bytes out OPENSSL_MALLOC_PREFIX prefix) len prefix_len max_len w)"

definition ASN1_ERR :: "string \<Rightarrow> world \<Rightarrow> ((u8 list \<times> nat) option \<times> world) option" where
  "ASN1_ERR reason w = Some (None, PUT_ERROR ''ASN1'' reason w)"

text \<open>The last part: the length is known, header and contents go into one block.\<close>

definition read_asn1_body ::
  "methods \<Rightarrow> nat option \<Rightarrow> u8 list \<Rightarrow> nat \<Rightarrow> nat \<Rightarrow> nat \<Rightarrow> world \<Rightarrow> ((u8 list \<times> nat) option \<times> world) option" where
  "read_asn1_body T bio header header_len len max_len w =
     (if size_add len header_len < len \<or> size_add len header_len > max_len \<or> int len > INT_MAX
      then ASN1_ERR ''TOO_LONG'' w
      else let len = size_add len header_len in
        case bio_malloc len w of
          (None, _, w) \<Rightarrow> ASN1_ERR ''MALLOC_FAILURE'' w
        | (Some out, _, w) \<Rightarrow> do {
            let out = copy_bytes out OPENSSL_MALLOC_PREFIX (take header_len header);
            (ok, _, out, w) \<leftarrow> bio_read_full T bio out (OPENSSL_MALLOC_PREFIX + header_len) (size_sub len header_len) True w;
            if \<not> ok then ASN1_ERR ''NOT_ENOUGH_DATA'' w else Some (Some (out, len), w) })"

definition BIO_read_asn1 ::
  "methods \<Rightarrow> nat option \<Rightarrow> nat \<Rightarrow> world \<Rightarrow> ((u8 list \<times> nat) option \<times> world) option" where
  "BIO_read_asn1 T bio max_len w = do {
     (ok, eof_on_first_read, header, w) \<leftarrow> bio_read_full T bio (replicate 6 0) 0 2 True w;
     if \<not> ok then ASN1_ERR (if eof_on_first_read then ''HEADER_TOO_LONG'' else ''NOT_ENOUGH_DATA'') w
     else let tag = header ! 0; length_byte = header ! 1 in
       if tag AND 0x1f = 0x1f then ASN1_ERR ''DECODE_ERROR'' w
       else if length_byte AND 0x80 = 0 then read_asn1_body T bio header 2 (unat length_byte) max_len w
       else let num_bytes = unat (length_byte AND 0x7f) in
         if tag AND 0x20 \<noteq> 0 \<and> num_bytes = 0 then do {
           (res, w) \<leftarrow> bio_read_all T bio (take 2 header) max_len w;
           if res = None then ASN1_ERR ''NOT_ENOUGH_DATA'' w else Some (res, w) }
         else if num_bytes = 0 \<or> num_bytes > 4 then ASN1_ERR ''DECODE_ERROR'' w
         else do {
           (ok, _, header, w) \<leftarrow> bio_read_full T bio header 2 num_bytes True w;
           if \<not> ok then ASN1_ERR ''NOT_ENOUGH_DATA'' w
           else let len32 = be_word (take num_bytes (drop 2 header)) :: u32 in
             if len32 < 128 then ASN1_ERR ''DECODE_ERROR'' w
             else if drop_bit ((num_bytes - 1) * 8) len32 = 0 then ASN1_ERR ''DECODE_ERROR'' w
             else read_asn1_body T bio header (2 + num_bytes) (unat len32) max_len w } }"

text \<open>\<open>BIO_get_new_index\<close> on the counter \<open>g_index\<close>.\<close>

definition BIO_get_new_index :: "int \<Rightarrow> int \<times> int" where
  "BIO_get_new_index g_index = (if g_index > 255 then (-1, g_index) else (g_index, g_index + 1))"

declare bio_last.simps [code] bio_find_loop.simps [code] BIO_free.simps [code] BIO_write_all.simps [code]
  bio_read_full.simps [code] bio_read_all_loop.simps [code]

end
