(* ===== verification/Bio_Mem.thy ===== *)
theory Bio_Mem
  imports Bio
begin

text \<open>
  Growable buffers (\<open>crypto/buf/buf.c\<close>) and the memory \<open>BIO\<close> on top of them
  (\<open>crypto/bio/bio_mem.c\<close>): its method table, its constructor for read-only data, and its queries.
\<close>

subsection \<open>BUF_MEM\<close>

definition sizeof_BUF_MEM :: nat where "sizeof_BUF_MEM = 24"

definition buf_set :: "nat \<Rightarrow> buf_mem \<Rightarrow> world \<Rightarrow> world" where
  "buf_set a b w = w\<lparr>wd_bufs := (wd_bufs w)(a := Some b)\<rparr>"

definition BUF_MEM_new :: "world \<Rightarrow> nat option \<times> world" where
  "BUF_MEM_new w =
     (case bio_malloc sizeof_BUF_MEM w of
        (None, _, w) \<Rightarrow> (None, PUT_ERROR ''BUF'' ''MALLOC_FAILURE'' w)
      | (Some _, ret, w) \<Rightarrow> (Some ret, buf_set ret \<lparr>bm_length = 0, bm_data = None, bm_max = 0\<rparr> w))"

text \<open>The block of a buffer, when \<open>data\<close> is what \<open>OPENSSL_malloc\<close> returned.\<close>

definition owned_block :: "(u8 list \<times> nat) option \<Rightarrow> u8 list option option" where
  "owned_block data =
     (case data of None \<Rightarrow> Some None
      | Some (block, i) \<Rightarrow> if i = OPENSSL_MALLOC_PREFIX then Some (Some block) else None)"

definition BUF_MEM_free :: "nat option \<Rightarrow> world \<Rightarrow> world option" where
  "BUF_MEM_free buf w =
     (case buf of None \<Rightarrow> Some w
      | Some a \<Rightarrow> do {
          b \<leftarrow> wd_bufs w a;
          _ \<leftarrow> owned_block (bm_data b);
          Some (w\<lparr>wd_bufs := (wd_bufs w)(a := None)\<rparr>) })"

definition BUF_MEM_reserve :: "nat \<Rightarrow> nat \<Rightarrow> world \<Rightarrow> (bool \<times> world) option" where
  "BUF_MEM_reserve buf cap w = do {
     b \<leftarrow> wd_bufs w buf;
     if bm_max b \<ge> cap then Some (True, w)
     else let n = size_add cap 3 in
       if n < cap then Some (False, PUT_ERROR ''BUF'' ''MALLOC_FAILURE'' w)
       else let n = n div 3; alloc_size = size_mul n 4 in
         if alloc_size div 4 \<noteq> n then Some (False, PUT_ERROR ''BUF'' ''MALLOC_FAILURE'' w)
         else do {
           orig \<leftarrow> owned_block (bm_data b);
           case OPENSSL_realloc (wd_malloc w (wd_count w)) orig alloc_size of
             (None, _) \<Rightarrow>
               Some (False, PUT_ERROR ''BUF'' ''MALLOC_FAILURE'' (w\<lparr>wd_count := Suc (wd_count w)\<rparr>))
           | (Some new_buf, _) \<Rightarrow>
               Some (True, buf_set buf (b\<lparr>bm_data := Some (new_buf, OPENSSL_MALLOC_PREFIX), bm_max := alloc_size\<rparr>)
                       (w\<lparr>wd_count := Suc (wd_count w)\<rparr>)) } }"

text \<open>Writing \<open>bs\<close> at \<open>&data[pos]\<close>; outside the block it is not defined.\<close>

definition data_write :: "(u8 list \<times> nat) option \<Rightarrow> nat \<Rightarrow> u8 list \<Rightarrow> (u8 list \<times> nat) option option" where
  "data_write data pos bs =
     (case data of
        None \<Rightarrow> if bs = [] then Some None else None
      | Some (block, i) \<Rightarrow>
          if i + pos + length bs \<le> length block then Some (Some (copy_bytes block (i + pos) bs, i)) else None)"

definition data_read :: "(u8 list \<times> nat) option \<Rightarrow> nat \<Rightarrow> nat \<Rightarrow> u8 list option" where
  "data_read data pos n =
     (case data of
        None \<Rightarrow> if n = 0 then Some [] else None
      | Some (block, i) \<Rightarrow> if i + pos + n \<le> length block then Some (take n (drop (i + pos) block)) else None)"

definition BUF_MEM_grow :: "nat \<Rightarrow> nat \<Rightarrow> world \<Rightarrow> (nat \<times> world) option" where
  "BUF_MEM_grow buf len w = do {
     (ok, w) \<leftarrow> BUF_MEM_reserve buf len w;
     if \<not> ok then Some (0, w)
     else do {
       b \<leftarrow> wd_bufs w buf;
       data \<leftarrow> (if bm_length b < len then data_write (bm_data b) (bm_length b) (replicate (len - bm_length b) 0)
                else Some (bm_data b));
       Some (len, buf_set buf (b\<lparr>bm_data := data, bm_length := len\<rparr>) w) } }"

definition BUF_MEM_grow_clean :: "nat \<Rightarrow> nat \<Rightarrow> world \<Rightarrow> (nat \<times> world) option" where
  "BUF_MEM_grow_clean buf len w = BUF_MEM_grow buf len w"

definition BUF_MEM_append :: "nat \<Rightarrow> u8 list \<Rightarrow> world \<Rightarrow> (bool \<times> world) option" where
  "BUF_MEM_append buf bs w =
     (if length bs = 0 then Some (True, w)
      else do {
        b \<leftarrow> wd_bufs w buf;
        let new_len = size_add (bm_length b) (length bs);
        if new_len < length bs then Some (False, PUT_ERROR ''BUF'' ''OVERFLOW'' w)
        else do {
          (ok, w) \<leftarrow> BUF_MEM_reserve buf new_len w;
          if \<not> ok then Some (False, w)
          else do {
            b \<leftarrow> wd_bufs w buf;
            data \<leftarrow> data_write (bm_data b) (bm_length b) bs;
            Some (True, buf_set buf (b\<lparr>bm_data := data, bm_length := new_len\<rparr>) w) } } })"

text \<open>The string helpers of \<open>buf.c\<close> are those of \<open>mem.c\<close>.\<close>

definition BUF_strdup where "BUF_strdup malloc str = OPENSSL_strdup malloc str"
definition BUF_strnlen where "BUF_strnlen str max_len = OPENSSL_strnlen str max_len"
definition BUF_strndup where "BUF_strndup malloc str sz = OPENSSL_strndup malloc str sz"
definition BUF_strlcpy where "BUF_strlcpy dst src dst_size = OPENSSL_strlcpy dst 0 src dst_size"
definition BUF_strlcat where "BUF_strlcat dst src dst_size = OPENSSL_strlcat dst src dst_size"
definition BUF_memdup where "BUF_memdup malloc data = OPENSSL_memdup malloc data"

subsection \<open>The methods of the memory BIO\<close>

definition mem_ptr :: "nat \<Rightarrow> world \<Rightarrow> nat option" where
  "mem_ptr bio w = do {
     b \<leftarrow> wd_bios w bio;
     case bio_ptr b of PMem m \<Rightarrow> Some m | _ \<Rightarrow> None }"

definition mem_new :: "nat \<Rightarrow> world \<Rightarrow> (int \<times> world) option" where
  "mem_new bio w =
     (case BUF_MEM_new w of
        (None, w) \<Rightarrow> Some (0, w)
      | (Some b, w) \<Rightarrow> do {
          w \<leftarrow> bio_set bio (\<lambda>x. x\<lparr>bio_shutdown := 1, bio_init := 1, bio_num := -1, bio_ptr := PMem b\<rparr>) w;
          Some (1, w) })"

definition mem_free :: "nat \<Rightarrow> world \<Rightarrow> (int \<times> world) option" where
  "mem_free bio w = do {
     x \<leftarrow> wd_bios w bio;
     if bio_shutdown x = 0 \<or> bio_init x = 0 \<or> bio_ptr x = PNull then Some (1, w)
     else do {
       m \<leftarrow> mem_ptr bio w;
       b \<leftarrow> wd_bufs w m;
       let w = (if bio_flags x AND BIO_FLAGS_MEM_RDONLY \<noteq> 0 then buf_set m (b\<lparr>bm_data := None\<rparr>) w else w);
       w \<leftarrow> BUF_MEM_free (Some m) w;
       w \<leftarrow> bio_set bio (\<lambda>x. x\<lparr>bio_ptr := PNull\<rparr>) w;
       Some (1, w) } }"

text \<open>\<open>memcpy(dst, src, n)\<close> into the caller's buffer.\<close>

definition copy_out :: "u8 list option \<Rightarrow> u8 list \<Rightarrow> u8 list option option" where
  "copy_out dst bs =
     (case dst of None \<Rightarrow> if bs = [] then Some None else None
      | Some buf \<Rightarrow> if length bs \<le> length buf then Some (Some (copy_bytes buf 0 bs)) else None)"

definition mem_read :: "nat \<Rightarrow> u8 list option \<Rightarrow> int \<Rightarrow> world \<Rightarrow> (int \<times> u8 list option \<times> world) option" where
  "mem_read bio out outl w = do {
     m \<leftarrow> mem_ptr bio w;
     w \<leftarrow> BIO_clear_retry_flags bio w;
     b \<leftarrow> wd_bufs w m;
     let ret = (if int (bm_length b) < INT_MAX \<and> outl > int (bm_length b) then int (bm_length b) else outl);
     if ret > 0 then do {
       bs \<leftarrow> data_read (bm_data b) 0 (nat ret);
       out \<leftarrow> copy_out out bs;
       let len = size_sub (bm_length b) (nat ret);
       x \<leftarrow> wd_bios w bio;
       data \<leftarrow> (if bio_flags x AND BIO_FLAGS_MEM_RDONLY \<noteq> 0
                then Some (map_option (\<lambda>(block, i). (block, i + nat ret)) (bm_data b))
                else do { rest \<leftarrow> data_read (bm_data b) (nat ret) len; data_write (bm_data b) 0 rest });
       Some (ret, out, buf_set m (b\<lparr>bm_length := len, bm_data := data\<rparr>) w) }
     else if bm_length b = 0 then do {
       x \<leftarrow> wd_bios w bio;
       let ret = bio_num x;
       w \<leftarrow> (if ret \<noteq> 0 then BIO_set_retry_read bio w else Some w);
       Some (ret, out, w) }
     else Some (ret, out, w) }"

definition take_src :: "u8 list option \<Rightarrow> nat \<Rightarrow> u8 list option" where
  "take_src src n =
     (case src of None \<Rightarrow> if n = 0 then Some [] else None
      | Some bs \<Rightarrow> if n \<le> length bs then Some (take n bs) else None)"

text \<open>\<open>blen\<close> is an \<open>int\<close>; \<open>INT_MAX - blen\<close> and the sums that follow are evaluated in \<open>int\<close>, where leaving the range
  is not defined.\<close>

definition mem_write :: "nat \<Rightarrow> u8 list option \<Rightarrow> int \<Rightarrow> world \<Rightarrow> (int \<times> world) option" where
  "mem_write bio src inl w = do {
     m \<leftarrow> mem_ptr bio w;
     x \<leftarrow> wd_bios w bio;
     if bio_flags x AND BIO_FLAGS_MEM_RDONLY \<noteq> 0
     then Some (-1, PUT_ERROR ''BIO'' ''WRITE_TO_READ_ONLY_BIO'' w)
     else do {
       w \<leftarrow> BIO_clear_retry_flags bio w;
       b \<leftarrow> wd_bufs w m;
       let blen = c_int (int (bm_length b));
       _ \<leftarrow> c_assert (INT_MAX - blen \<le> INT_MAX);
       if INT_MAX - blen < inl then Some (-1, w)
       else do {
         (n, w) \<leftarrow> BUF_MEM_grow_clean m (to_size (blen + inl)) w;
         if n \<noteq> size_add (to_size blen) (to_size inl) then Some (-1, w)
         else do {
           b \<leftarrow> wd_bufs w m;
           bs \<leftarrow> take_src src (to_size inl);
           data \<leftarrow> data_write (bm_data b) (nat blen) bs;
           Some (inl, buf_set m (b\<lparr>bm_data := data\<rparr>) w) } } } }"

text \<open>The position after the first newline, or the number of bytes when there is none.\<close>

fun line_length :: "u8 list \<Rightarrow> nat" where
  "line_length [] = 0"
| "line_length (c # cs) = (if c = 0x0A then 1 else Suc (line_length cs))"

definition mem_gets :: "nat \<Rightarrow> u8 list option \<Rightarrow> int \<Rightarrow> world \<Rightarrow> (int \<times> u8 list option \<times> world) option" where
  "mem_gets bio buf sz w = do {
     m \<leftarrow> mem_ptr bio w;
     w \<leftarrow> BIO_clear_retry_flags bio w;
     b \<leftarrow> wd_bufs w m;
     let j = c_int (int (bm_length b));
     let j = (if sz - 1 < j then sz - 1 else j);
     if j \<le> 0 then
       (if sz > 0 then do {
          dst \<leftarrow> buf;
          _ \<leftarrow> c_assert (dst \<noteq> []);
          Some (0, Some (dst[0 := 0]), w) }
        else Some (0, buf, w))
     else do {
       p \<leftarrow> data_read (bm_data b) 0 (nat j);
       (i, buf, w) \<leftarrow> mem_read bio buf (int (line_length p)) w;
       if i > 0 then do {
         dst \<leftarrow> buf;
         _ \<leftarrow> c_assert (nat i < length dst);
         Some (i, Some (dst[nat i := 0]), w) }
       else Some (i, buf, w) } }"

definition mem_buf :: "nat \<Rightarrow> world \<Rightarrow> (nat \<times> buf_mem) option" where
  "mem_buf bio w = do { m \<leftarrow> mem_ptr bio w; b \<leftarrow> wd_bufs w m; Some (m, b) }"

definition mem_ctrl :: "nat \<Rightarrow> int \<Rightarrow> int \<Rightarrow> ctrl_ptr \<Rightarrow> world \<Rightarrow> (int \<times> ctrl_ptr \<times> world) option" where
  "mem_ctrl bio cmd num ptr w = do {
     x \<leftarrow> wd_bios w bio;
     if cmd = BIO_CTRL_RESET then do {
       (m, b) \<leftarrow> mem_buf bio w;
       case bm_data b of
          None \<Rightarrow> Some (1, ptr, w)
        | Some (block, i) \<Rightarrow>
            if bio_flags x AND BIO_FLAGS_MEM_RDONLY \<noteq> 0
            then Some (1, ptr, buf_set m (b\<lparr>bm_data := Some (block, i - size_sub (bm_max b) (bm_length b)),
                                           bm_length := bm_max b\<rparr>) w)
            else do {
              data \<leftarrow> data_write (bm_data b) 0 (replicate (bm_max b) 0);
              Some (1, ptr, buf_set m (b\<lparr>bm_data := data, bm_length := 0\<rparr>) w) } }
     else if cmd = BIO_CTRL_EOF then do {
       (_, b) \<leftarrow> mem_buf bio w;
       Some (if bm_length b = 0 then 1 else 0, ptr, w) }
     else if cmd = BIO_C_SET_BUF_MEM_EOF_RETURN then do {
       w \<leftarrow> bio_set bio (\<lambda>x. x\<lparr>bio_num := c_int num\<rparr>) w;
       Some (1, ptr, w) }
     else if cmd = BIO_CTRL_INFO then do {
       (_, b) \<leftarrow> mem_buf bio w;
       case ptr of
          CNull \<Rightarrow> Some (c_long (int (bm_length b)), ptr, w)
        | COut _ \<Rightarrow> Some (c_long (int (bm_length b)), COut (OData (bm_data b)), w)
        | _ \<Rightarrow> None }
     else if cmd = BIO_C_SET_BUF_MEM then do {
       (_, w) \<leftarrow> mem_free bio w;
       p \<leftarrow> (case ptr of CNull \<Rightarrow> Some PNull | CBufMem a \<Rightarrow> Some (PMem a) | _ \<Rightarrow> None);
       w \<leftarrow> bio_set bio (\<lambda>x. x\<lparr>bio_shutdown := c_int num, bio_ptr := p\<rparr>) w;
       Some (1, ptr, w) }
     else if cmd = BIO_C_GET_BUF_MEM_PTR then
       (case ptr of
          CNull \<Rightarrow> Some (1, ptr, w)
        | COut _ \<Rightarrow> (case bio_ptr x of
            PMem m \<Rightarrow> Some (1, COut (OBufMem m), w)
          | PNull \<Rightarrow> Some (1, COut OUnset, w)
          | PPair _ \<Rightarrow> None)
        | _ \<Rightarrow> None)
     else if cmd = BIO_CTRL_GET_CLOSE then Some (bio_shutdown x, ptr, w)
     else if cmd = BIO_CTRL_SET_CLOSE then do {
       w \<leftarrow> bio_set bio (\<lambda>x. x\<lparr>bio_shutdown := c_int num\<rparr>) w;
       Some (1, ptr, w) }
     else if cmd = BIO_CTRL_WPENDING then Some (0, ptr, w)
     else if cmd = BIO_CTRL_PENDING then do {
       (_, b) \<leftarrow> mem_buf bio w;
       Some (c_long (int (bm_length b)), ptr, w) }
     else if cmd = BIO_CTRL_FLUSH then Some (1, ptr, w)
     else Some (0, ptr, w) }"

definition BIO_TYPE_MEM :: u32 where "BIO_TYPE_MEM = 0x401"

definition mem_method :: BIO_METHOD where
  "mem_method = \<lparr>m_type = BIO_TYPE_MEM, m_name = ''memory buffer'', m_bwrite = Some mem_write, m_bread = Some mem_read,
     m_bgets = Some mem_gets, m_ctrl = Some mem_ctrl, m_create = Some mem_new, m_destroy = Some mem_free,
     m_callback_ctrl = None\<rparr>"

text \<open>The address of the table, in the methods \<open>T\<close> of a run.\<close>

definition BIO_s_mem :: nat where
  "BIO_s_mem = 1"

text \<open>\<open>buf\<close> is the caller's memory from the pointer on.\<close>

definition BIO_new_mem_buf :: "methods \<Rightarrow> u8 list option \<Rightarrow> int \<Rightarrow> world \<Rightarrow> (nat option \<times> world) option" where
  "BIO_new_mem_buf T buf len w = do {
     size \<leftarrow> (if len < 0 then map_option c_strlen buf else Some (to_size len));
     if buf = None \<and> len \<noteq> 0 then Some (None, PUT_ERROR ''BIO'' ''NULL_PARAMETER'' w)
     else do {
       (ret, w) \<leftarrow> BIO_new T BIO_s_mem w;
       case ret of
         None \<Rightarrow> Some (None, w)
       | Some a \<Rightarrow> do {
           m \<leftarrow> mem_ptr a w;
           let w = buf_set m \<lparr>bm_length = size, bm_data = map_option (\<lambda>bs. (bs, 0)) buf, bm_max = size\<rparr> w;
           w \<leftarrow> bio_set a (\<lambda>x. x\<lparr>bio_flags := bio_flags x OR BIO_FLAGS_MEM_RDONLY, bio_num := 0\<rparr>) w;
           Some (Some a, w) } } }"

definition BIO_mem_contents :: "nat \<Rightarrow> world \<Rightarrow> (bool \<times> (u8 list \<times> nat) option \<times> nat) option" where
  "BIO_mem_contents bio w = do {
     x \<leftarrow> wd_bios w bio;
     if bio_method x \<noteq> Some BIO_s_mem then Some (False, None, 0)
     else do {
       m \<leftarrow> mem_ptr bio w;
       b \<leftarrow> wd_bufs w m;
       Some (True, bm_data b, bm_length b) } }"

definition BIO_get_mem_data :: "methods \<Rightarrow> nat option \<Rightarrow> world \<Rightarrow> (int \<times> ctrl_ptr \<times> world) option" where
  "BIO_get_mem_data T bio w = BIO_ctrl T bio BIO_CTRL_INFO 0 (COut OUnset) w"

definition BIO_get_mem_ptr :: "methods \<Rightarrow> nat option \<Rightarrow> world \<Rightarrow> (int \<times> ctrl_ptr \<times> world) option" where
  "BIO_get_mem_ptr T bio w = BIO_ctrl T bio BIO_C_GET_BUF_MEM_PTR 0 (COut OUnset) w"

definition BIO_set_mem_buf :: "methods \<Rightarrow> nat option \<Rightarrow> nat \<Rightarrow> int \<Rightarrow> world \<Rightarrow> (int \<times> ctrl_ptr \<times> world) option" where
  "BIO_set_mem_buf T bio b take_ownership w = BIO_ctrl T bio BIO_C_SET_BUF_MEM take_ownership (CBufMem b) w"

definition BIO_set_mem_eof_return :: "methods \<Rightarrow> nat option \<Rightarrow> int \<Rightarrow> world \<Rightarrow> (int \<times> world) option" where
  "BIO_set_mem_eof_return T bio eof_value w = int_ctrl T bio BIO_C_SET_BUF_MEM_EOF_RETURN eof_value w"

end
