(* ===== verification/Bio_Pair.thy ===== *)
theory Bio_Pair
  imports Bio_Mem
begin

text \<open>
  The \<open>BIO\<close> pair (\<open>crypto/bio/pair.c\<close>): two \<open>BIO\<close>s, each with a ring buffer for what is written to it, which
  the other one reads.
\<close>

subsection \<open>Operations\<close>

text \<open>\<open>bio->ptr\<close> as a \<open>struct bio_bio_st\<close>; the pointer may be null before \<open>bio_new\<close>.\<close>

definition pair_ptr :: "nat \<Rightarrow> world \<Rightarrow> bio_bio_st option" where
  "pair_ptr bio w = do {
     x \<leftarrow> wd_bios w bio;
     case bio_ptr x of PPair b \<Rightarrow> Some b | _ \<Rightarrow> None }"

definition pair_set :: "nat \<Rightarrow> (bio_bio_st \<Rightarrow> bio_bio_st) \<Rightarrow> world \<Rightarrow> world option" where
  "pair_set bio f w = do {
     b \<leftarrow> pair_ptr bio w;
     bio_set bio (\<lambda>x. x\<lparr>bio_ptr := PPair (f b)\<rparr>) w }"

definition sizeof_bio_bio_st :: nat where "sizeof_bio_bio_st = 56"

definition bio_new :: "nat \<Rightarrow> world \<Rightarrow> (int \<times> world) option" where
  "bio_new bio w =
     (case bio_malloc sizeof_bio_bio_st w of
        (None, _, w) \<Rightarrow> Some (0, w)
      | (Some _, _, w) \<Rightarrow> do {
          w \<leftarrow> bio_set bio (\<lambda>x. x\<lparr>bio_ptr := PPair \<lparr>bb_peer = None, bb_closed = 0, bb_len = 0, bb_offset = 0,
                 bb_size = 17 * 1024, bb_buf = None, bb_request = 0\<rparr>\<rparr>) w;
          Some (1, w) })"

definition bio_destroy_pair :: "nat \<Rightarrow> world \<Rightarrow> world option" where
  "bio_destroy_pair bio w = do {
     x \<leftarrow> wd_bios w bio;
     if bio_ptr x = PNull then Some w
     else do {
       b \<leftarrow> pair_ptr bio w;
       case bb_peer b of
         None \<Rightarrow> Some w
       | Some peer_bio \<Rightarrow> do {
           peer_b \<leftarrow> pair_ptr peer_bio w;
           _ \<leftarrow> c_assert (bb_peer peer_b = Some bio);
           w \<leftarrow> pair_set peer_bio (\<lambda>b. b\<lparr>bb_peer := None\<rparr>) w;
           w \<leftarrow> bio_set peer_bio (\<lambda>x. x\<lparr>bio_init := 0\<rparr>) w;
           peer_b \<leftarrow> pair_ptr peer_bio w;
           _ \<leftarrow> c_assert (bb_buf peer_b \<noteq> None);
           w \<leftarrow> pair_set peer_bio (\<lambda>b. b\<lparr>bb_len := 0, bb_offset := 0\<rparr>) w;
           w \<leftarrow> pair_set bio (\<lambda>b. b\<lparr>bb_peer := None\<rparr>) w;
           w \<leftarrow> bio_set bio (\<lambda>x. x\<lparr>bio_init := 0\<rparr>) w;
           b \<leftarrow> pair_ptr bio w;
           _ \<leftarrow> c_assert (bb_buf b \<noteq> None);
           pair_set bio (\<lambda>b. b\<lparr>bb_len := 0, bb_offset := 0\<rparr>) w } } }"

definition bio_free :: "nat \<Rightarrow> world \<Rightarrow> (int \<times> world) option" where
  "bio_free bio w = do {
     b \<leftarrow> pair_ptr bio w;
     w \<leftarrow> (if bb_peer b \<noteq> None then bio_destroy_pair bio w else Some w);
     Some (1, w) }"

text \<open>The loop of \<open>bio_read\<close> on the peer's structure: \<open>pos\<close> is how far \<open>buf\<close> has advanced.\<close>

partial_function (option) bio_read_loop ::
  "bio_bio_st \<Rightarrow> u8 list \<Rightarrow> nat \<Rightarrow> nat \<Rightarrow> (bio_bio_st \<times> u8 list) option" where
  "bio_read_loop b dst pos rest = do {
     _ \<leftarrow> c_assert (rest \<le> bb_len b);
     let chunk = (if size_add (bb_offset b) rest \<le> bb_size b then rest else size_sub (bb_size b) (bb_offset b));
     _ \<leftarrow> c_assert (size_add (bb_offset b) chunk \<le> bb_size b);
     ring \<leftarrow> bb_buf b;
     _ \<leftarrow> c_assert (bb_offset b + chunk \<le> length ring \<and> pos + chunk \<le> length dst);
     let dst = copy_bytes dst pos (take chunk (drop (bb_offset b) ring));
     let len = size_sub (bb_len b) chunk;
     b \<leftarrow> (if len \<noteq> 0 then do {
             let offset = size_add (bb_offset b) chunk;
             _ \<leftarrow> c_assert (offset \<le> bb_size b);
             Some (b\<lparr>bb_len := len, bb_offset := (if offset = bb_size b then 0 else offset)\<rparr>) }
           else do {
             _ \<leftarrow> c_assert (chunk = rest);
             Some (b\<lparr>bb_len := len, bb_offset := 0\<rparr>) });
     let rest = size_sub rest chunk;
     if rest = 0 then Some (b, dst) else bio_read_loop b dst (pos + chunk) rest }"

definition bio_read :: "nat \<Rightarrow> u8 list option \<Rightarrow> int \<Rightarrow> world \<Rightarrow> (int \<times> u8 list option \<times> world) option" where
  "bio_read bio buf size0 w = do {
     let size = to_size size0;
     w \<leftarrow> BIO_clear_retry_flags bio w;
     x \<leftarrow> wd_bios w bio;
     if bio_init x = 0 then Some (0, buf, w)
     else do {
       b \<leftarrow> pair_ptr bio w;
       peer \<leftarrow> bb_peer b;
       peer_b \<leftarrow> pair_ptr peer w;
       _ \<leftarrow> c_assert (bb_buf peer_b \<noteq> None);
       w \<leftarrow> pair_set peer (\<lambda>b. b\<lparr>bb_request := 0\<rparr>) w;
       peer_b \<leftarrow> pair_ptr peer w;
       if buf = None \<or> size = 0 then Some (0, buf, w)
       else if bb_len peer_b = 0 then
         (if bb_closed peer_b \<noteq> 0 then Some (0, buf, w)
          else do {
            w \<leftarrow> BIO_set_retry_read bio w;
            w \<leftarrow> pair_set peer (\<lambda>b. b\<lparr>bb_request := (if size \<le> bb_size b then size else bb_size b)\<rparr>) w;
            Some (-1, buf, w) })
       else do {
         let size = (if bb_len peer_b < size then bb_len peer_b else size);
         dst \<leftarrow> buf;
         _ \<leftarrow> c_assert (size > 0);
         (peer_b, dst) \<leftarrow> bio_read_loop peer_b dst 0 size;
         w \<leftarrow> pair_set peer (\<lambda>_. peer_b) w;
         Some (c_int (int size), Some dst, w) } } }"

text \<open>The loop of \<open>bio_write\<close>: \<open>data\<close> are the bytes from \<open>buf\<close> on.\<close>

partial_function (option) bio_write_loop :: "bio_bio_st \<Rightarrow> u8 list \<Rightarrow> nat \<Rightarrow> bio_bio_st option" where
  "bio_write_loop b data rest = do {
     _ \<leftarrow> c_assert (size_add (bb_len b) rest \<le> bb_size b);
     let write_offset = size_add (bb_offset b) (bb_len b);
     let write_offset = (if write_offset \<ge> bb_size b then size_sub write_offset (bb_size b) else write_offset);
     let chunk = (if size_add write_offset rest \<le> bb_size b then rest else size_sub (bb_size b) write_offset);
     ring \<leftarrow> bb_buf b;
     _ \<leftarrow> c_assert (write_offset + chunk \<le> length ring \<and> chunk \<le> length data);
     let b = b\<lparr>bb_buf := Some (copy_bytes ring write_offset (take chunk data)), bb_len := size_add (bb_len b) chunk\<rparr>;
     _ \<leftarrow> c_assert (bb_len b \<le> bb_size b);
     let rest = size_sub rest chunk;
     if rest = 0 then Some b else bio_write_loop b (drop chunk data) rest }"

definition bio_write :: "nat \<Rightarrow> u8 list option \<Rightarrow> int \<Rightarrow> world \<Rightarrow> (int \<times> world) option" where
  "bio_write bio buf num0 w = do {
     let num = to_size num0;
     w \<leftarrow> BIO_clear_retry_flags bio w;
     x \<leftarrow> wd_bios w bio;
     if bio_init x = 0 \<or> buf = None \<or> num = 0 then Some (0, w)
     else do {
       b \<leftarrow> pair_ptr bio w;
       _ \<leftarrow> c_assert (bb_peer b \<noteq> None);
       _ \<leftarrow> c_assert (bb_buf b \<noteq> None);
       w \<leftarrow> pair_set bio (\<lambda>b. b\<lparr>bb_request := 0\<rparr>) w;
       b \<leftarrow> pair_ptr bio w;
       if bb_closed b \<noteq> 0 then Some (-1, PUT_ERROR ''BIO'' ''BROKEN_PIPE'' w)
       else do {
         _ \<leftarrow> c_assert (bb_len b \<le> bb_size b);
         if bb_len b = bb_size b then do { w \<leftarrow> BIO_set_retry_write bio w; Some (-1, w) }
         else do {
           let num = (if num > size_sub (bb_size b) (bb_len b) then size_sub (bb_size b) (bb_len b) else num);
           data \<leftarrow> buf;
           _ \<leftarrow> c_assert (num > 0);
           b \<leftarrow> bio_write_loop b data num;
           w \<leftarrow> pair_set bio (\<lambda>_. b) w;
           Some (c_int (int num), w) } } } }"

text \<open>One half of \<open>bio_make_pair\<close>: a ring buffer of its own for a \<open>BIO\<close> that has none.\<close>

definition make_ring :: "nat \<Rightarrow> nat \<Rightarrow> world \<Rightarrow> (bool \<times> world) option" where
  "make_ring bio writebuf_len w = do {
     b \<leftarrow> pair_ptr bio w;
     if bb_buf b = None then do {
       w \<leftarrow> (if writebuf_len \<noteq> 0 then pair_set bio (\<lambda>b. b\<lparr>bb_size := writebuf_len\<rparr>) w else Some w);
       b \<leftarrow> pair_ptr bio w;
       case bio_malloc (bb_size b) w of
         (None, _, w) \<Rightarrow> Some (False, PUT_ERROR ''BIO'' ''MALLOC_FAILURE'' w)
       | (Some block, _, w) \<Rightarrow> do {
           w \<leftarrow> pair_set bio (\<lambda>b. b\<lparr>bb_buf := Some (user_bytes block), bb_len := 0, bb_offset := 0\<rparr>) w;
           Some (True, w) } }
     else Some (True, w) }"

definition bio_make_pair :: "nat \<Rightarrow> nat \<Rightarrow> nat \<Rightarrow> nat \<Rightarrow> world \<Rightarrow> (int \<times> world) option" where
  "bio_make_pair bio1 bio2 writebuf1_len writebuf2_len w = do {
     b1 \<leftarrow> pair_ptr bio1 w;
     b2 \<leftarrow> pair_ptr bio2 w;
     if bb_peer b1 \<noteq> None \<or> bb_peer b2 \<noteq> None then Some (0, PUT_ERROR ''BIO'' ''IN_USE'' w)
     else do {
       (ok, w) \<leftarrow> make_ring bio1 writebuf1_len w;
       if \<not> ok then Some (0, w)
       else do {
         (ok, w) \<leftarrow> make_ring bio2 writebuf2_len w;
         if \<not> ok then Some (0, w)
         else do {
           w \<leftarrow> pair_set bio1 (\<lambda>b. b\<lparr>bb_peer := Some bio2, bb_closed := 0, bb_request := 0\<rparr>) w;
           w \<leftarrow> pair_set bio2 (\<lambda>b. b\<lparr>bb_peer := Some bio1, bb_closed := 0, bb_request := 0\<rparr>) w;
           w \<leftarrow> bio_set bio1 (\<lambda>x. x\<lparr>bio_init := 1\<rparr>) w;
           w \<leftarrow> bio_set bio2 (\<lambda>x. x\<lparr>bio_init := 1\<rparr>) w;
           Some (1, w) } } } }"

definition bio_ctrl :: "nat \<Rightarrow> int \<Rightarrow> int \<Rightarrow> ctrl_ptr \<Rightarrow> world \<Rightarrow> (int \<times> ctrl_ptr \<times> world) option" where
  "bio_ctrl bio cmd num ptr w = do {
     x \<leftarrow> wd_bios w bio;
     b \<leftarrow> pair_ptr bio w;
     if cmd = BIO_C_GET_WRITE_BUF_SIZE then Some (c_long (int (bb_size b)), ptr, w)
     else if cmd = BIO_C_GET_WRITE_GUARANTEE then
       Some (if bb_peer b = None \<or> bb_closed b \<noteq> 0 then 0 else c_long (int (size_sub (bb_size b) (bb_len b))), ptr, w)
     else if cmd = BIO_C_GET_READ_REQUEST then Some (c_long (int (bb_request b)), ptr, w)
     else if cmd = BIO_C_RESET_READ_REQUEST then do {
       w \<leftarrow> pair_set bio (\<lambda>b. b\<lparr>bb_request := 0\<rparr>) w; Some (1, ptr, w) }
     else if cmd = BIO_C_SHUTDOWN_WR then do {
       w \<leftarrow> pair_set bio (\<lambda>b. b\<lparr>bb_closed := 1\<rparr>) w; Some (1, ptr, w) }
     else if cmd = BIO_CTRL_GET_CLOSE then Some (bio_shutdown x, ptr, w)
     else if cmd = BIO_CTRL_SET_CLOSE then do {
       w \<leftarrow> bio_set bio (\<lambda>x. x\<lparr>bio_shutdown := c_int num\<rparr>) w; Some (1, ptr, w) }
     else if cmd = BIO_CTRL_PENDING then
       (case bb_peer b of
          None \<Rightarrow> Some (0, ptr, w)
        | Some p \<Rightarrow> do { peer_b \<leftarrow> pair_ptr p w; Some (c_long (int (bb_len peer_b)), ptr, w) })
     else if cmd = BIO_CTRL_WPENDING then Some (if bb_buf b \<noteq> None then c_long (int (bb_len b)) else 0, ptr, w)
     else if cmd = BIO_CTRL_FLUSH then Some (1, ptr, w)
     else if cmd = BIO_CTRL_EOF then
       (case ptr of
          CNull \<Rightarrow> Some (1, ptr, w)
        | CBio other \<Rightarrow> do {
            other_b \<leftarrow> pair_ptr other w;
            Some (if bb_len other_b = 0 \<and> bb_closed other_b \<noteq> 0 then 1 else 0, ptr, w) }
        | _ \<Rightarrow> None)
     else Some (0, ptr, w) }"

definition BIO_TYPE_BIO :: u32 where "BIO_TYPE_BIO = 0x413"

definition methods_biop :: BIO_METHOD where
  "methods_biop = \<lparr>m_type = BIO_TYPE_BIO, m_name = ''BIO pair'', m_bwrite = Some bio_write, m_bread = Some bio_read,
     m_bgets = None, m_ctrl = Some bio_ctrl, m_create = Some bio_new, m_destroy = Some bio_free,
     m_callback_ctrl = None\<rparr>"

definition bio_s_bio :: nat where
  "bio_s_bio = 2"

definition BIO_new_bio_pair ::
  "methods \<Rightarrow> nat \<Rightarrow> nat \<Rightarrow> world \<Rightarrow> (int \<times> nat option \<times> nat option \<times> world) option" where
  "BIO_new_bio_pair T writebuf1_len writebuf2_len w = do {
     (bio1, w) \<leftarrow> BIO_new T bio_s_bio w;
     (bio2, w) \<leftarrow> BIO_new T bio_s_bio w;
     (ok, w) \<leftarrow> (case (bio1, bio2) of
                  (Some a, Some b) \<Rightarrow> bio_make_pair a b writebuf1_len writebuf2_len w
                | _ \<Rightarrow> Some (0, w));
     if ok = 0 then do {
       (_, w) \<leftarrow> BIO_free T bio1 w;
       (_, w) \<leftarrow> BIO_free T bio2 w;
       Some (0, None, None, w) }
     else Some (1, bio1, bio2, w) }"

text \<open>\<open>long\<close> results returned as \<open>size_t\<close> and \<open>int\<close>.\<close>

definition BIO_ctrl_get_read_request :: "methods \<Rightarrow> nat option \<Rightarrow> world \<Rightarrow> (nat \<times> world) option" where
  "BIO_ctrl_get_read_request T bio w = do {
     (r, _, w) \<leftarrow> BIO_ctrl T bio BIO_C_GET_READ_REQUEST 0 CNull w; Some (to_size r, w) }"

definition BIO_ctrl_get_write_guarantee :: "methods \<Rightarrow> nat option \<Rightarrow> world \<Rightarrow> (nat \<times> world) option" where
  "BIO_ctrl_get_write_guarantee T bio w = do {
     (r, _, w) \<leftarrow> BIO_ctrl T bio BIO_C_GET_WRITE_GUARANTEE 0 CNull w; Some (to_size r, w) }"

definition BIO_shutdown_wr :: "methods \<Rightarrow> nat option \<Rightarrow> world \<Rightarrow> (int \<times> world) option" where
  "BIO_shutdown_wr T bio w = int_ctrl T bio BIO_C_SHUTDOWN_WR 0 w"

text \<open>The method tables of the library.\<close>

definition bio_methods :: methods where
  "bio_methods = [BIO_s_mem \<mapsto> mem_method, bio_s_bio \<mapsto> methods_biop]"

declare bio_read_loop.simps [code] bio_write_loop.simps [code]

end
