(* ===== verification/Bio_Ring.thy ===== *)
theory Bio_Ring
  imports Bio_Pair
begin

text \<open>
  The ring buffer of a \<open>BIO\<close> pair as a queue of bytes: what it holds, its invariant, and what the loops
  of \<open>bio_read\<close> and \<open>bio_write\<close> do to it.
\<close>

definition ring_data :: "bio_bio_st \<Rightarrow> u8 list" where
  "ring_data b = (case bb_buf b of None \<Rightarrow> []
     | Some ring \<Rightarrow> take (bb_len b) (drop (bb_offset b) ring @ take (bb_offset b) ring))"

definition wf_ring :: "bio_bio_st \<Rightarrow> bool" where
  "wf_ring b \<longleftrightarrow> (case bb_buf b of None \<Rightarrow> False
     | Some ring \<Rightarrow> length ring = bb_size b \<and> 0 < bb_size b \<and> bb_size b < 2 ^ 63 \<and>
         bb_len b \<le> bb_size b \<and> bb_offset b < bb_size b)"

lemma wf_ringE:
  assumes "wf_ring b"
  obtains ring where "bb_buf b = Some ring" "length ring = bb_size b" "0 < bb_size b" "bb_size b < 2 ^ 63"
    "bb_len b \<le> bb_size b" "bb_offset b < bb_size b"
  using assms by (auto simp: wf_ring_def split: option.splits)

lemma length_ring_data [simp]: "wf_ring b \<Longrightarrow> length (ring_data b) = bb_len b"
  by (auto simp: ring_data_def elim!: wf_ringE)

lemma nth_ring_data:
  assumes "bb_buf b = Some ring" "length ring = bb_size b" "bb_len b \<le> bb_size b" "bb_offset b < bb_size b"
    and "i < bb_len b"
  shows "ring_data b ! i
      = ring ! (if bb_offset b + i < bb_size b then bb_offset b + i else bb_offset b + i - bb_size b)"
  using assms by (auto simp: ring_data_def nth_append intro: arg_cong [of _ _ "(!) ring"])

lemma ring_data_request [simp]: "ring_data (b\<lparr>bb_request := r\<rparr>) = ring_data b" "wf_ring (b\<lparr>bb_request := r\<rparr>) = wf_ring b"
  by (simp_all add: ring_data_def wf_ring_def split: option.split)

lemma ring_data_closed [simp]: "ring_data (b\<lparr>bb_closed := r\<rparr>) = ring_data b" "wf_ring (b\<lparr>bb_closed := r\<rparr>) = wf_ring b"
  by (simp_all add: ring_data_def wf_ring_def split: option.split)

text \<open>\<open>size_t\<close> arithmetic inside a ring does not wrap.\<close>

lemma ring_add: "wf_ring b \<Longrightarrow> x \<le> bb_size b \<Longrightarrow> y \<le> bb_size b \<Longrightarrow> size_add x y = x + y"
  by (auto simp: SIZE_LIMIT_def size_add_exact elim!: wf_ringE)

lemma ring_sub: "wf_ring b \<Longrightarrow> x \<le> 2 * bb_size b \<Longrightarrow> y \<le> x \<Longrightarrow> size_sub x y = x - y"
  by (rule size_sub_exact) (auto simp: SIZE_LIMIT_def elim!: wf_ringE)

subsection \<open>Reading\<close>

text \<open>One round of the loop: \<open>n\<close> bytes that do not wrap around.\<close>

definition read_chunk :: "bio_bio_st \<Rightarrow> nat \<Rightarrow> bio_bio_st" where
  "read_chunk b n = b\<lparr>bb_len := bb_len b - n,
     bb_offset := (if bb_len b = n \<or> bb_offset b + n = bb_size b then 0 else bb_offset b + n)\<rparr>"

lemma read_chunk_sel [simp]:
  "bb_buf (read_chunk b n) = bb_buf b" "bb_size (read_chunk b n) = bb_size b" "bb_peer (read_chunk b n) = bb_peer b"
  "bb_closed (read_chunk b n) = bb_closed b" "bb_request (read_chunk b n) = bb_request b"
  "bb_len (read_chunk b n) = bb_len b - n"
  by (simp_all add: read_chunk_def)

lemma read_chunk:
  assumes "wf_ring b" "n \<le> bb_len b" "bb_offset b + n \<le> bb_size b"
  shows "wf_ring (read_chunk b n)" "ring_data (read_chunk b n) = drop n (ring_data b)"
    "take n (drop (bb_offset b) (the (bb_buf b))) = take n (ring_data b)"
proof -
  obtain ring where r: "bb_buf b = Some ring" "length ring = bb_size b" "0 < bb_size b" "bb_size b < 2 ^ 63"
    "bb_len b \<le> bb_size b" "bb_offset b < bb_size b"
    using assms(1) by (rule wf_ringE)
  show wf: "wf_ring (read_chunk b n)"
    using r assms by (auto simp: wf_ring_def read_chunk_def)
  show "ring_data (read_chunk b n) = drop n (ring_data b)"
  proof (rule nth_equalityI)
    show "length (ring_data (read_chunk b n)) = length (drop n (ring_data b))"
      using assms wf by simp
  next
    fix i assume "i < length (ring_data (read_chunk b n))"
    then have i: "i < bb_len b - n" using wf by simp
    have off: "bb_offset (read_chunk b n) < bb_size b"
      using r assms by (auto simp: read_chunk_def)
    have "ring_data (read_chunk b n) ! i = ring ! (if bb_offset (read_chunk b n) + i < bb_size b
        then bb_offset (read_chunk b n) + i else bb_offset (read_chunk b n) + i - bb_size b)"
      using nth_ring_data [of "read_chunk b n" ring i] r off i by simp
    moreover have "ring_data b ! (n + i) = ring ! (if bb_offset b + (n + i) < bb_size b
        then bb_offset b + (n + i) else bb_offset b + (n + i) - bb_size b)"
      using nth_ring_data [of b ring "n + i"] r i by simp
    moreover have "length (ring_data b) = bb_len b" using assms(1) by simp
    ultimately show "ring_data (read_chunk b n) ! i = drop n (ring_data b) ! i"
      using i r(5,6) assms(2,3) by (auto simp: read_chunk_def add.assoc intro: arg_cong [of _ _ "(!) ring"])
  qed
  show "take n (drop (bb_offset b) (the (bb_buf b))) = take n (ring_data b)"
  proof -
    have "take n (ring_data b) = take n (drop (bb_offset b) ring @ take (bb_offset b) ring)"
      using r(1) assms(2) by (simp add: ring_data_def min_def del: take_append)
    moreover have "n \<le> length (drop (bb_offset b) ring)" using r(2) assms(3) by simp
    ultimately show ?thesis by (simp only: r(1) option.sel take_append) simp
  qed
qed

text \<open>The round as the loop performs it.\<close>

lemma bio_read_loop_round:
  assumes wf: "wf_ring b" and n: "0 < rest" "rest \<le> bb_len b" and fit: "pos + rest \<le> length dst"
    and c: "c = (if bb_offset b + rest \<le> bb_size b then rest else bb_size b - bb_offset b)"
  shows "bio_read_loop b dst pos rest =
    (let dst' = copy_bytes dst pos (take c (ring_data b)) in
     if rest = c then Some (read_chunk b c, dst') else bio_read_loop (read_chunk b c) dst' (pos + c) (rest - c))"
proof -
  obtain ring where r: "bb_buf b = Some ring" "length ring = bb_size b" "0 < bb_size b" "bb_size b < 2 ^ 63"
    "bb_len b \<le> bb_size b" "bb_offset b < bb_size b"
    using wf by (rule wf_ringE)
  have cle: "c \<le> rest" "bb_offset b + c \<le> bb_size b" "0 < c" using n r c by auto
  have sums: "size_add (bb_offset b) rest = bb_offset b + rest" "size_add (bb_offset b) c = bb_offset b + c"
    "size_sub (bb_size b) (bb_offset b) = bb_size b - bb_offset b"
    "size_sub (bb_len b) c = bb_len b - c" "size_sub rest c = rest - c"
    using wf r n cle by (auto intro!: ring_add ring_sub)
  have chunk: "(if bb_offset b + rest \<le> bb_size b then rest else bb_size b - bb_offset b) = c"
    by (simp add: c)
  have tk: "take c (drop (bb_offset b) ring) = take c (ring_data b)"
    using read_chunk(3) [OF wf, of c] cle n r by simp
  have all: "bb_len b - c = 0 \<longleftrightarrow> bb_len b = c" "bb_len b = c \<Longrightarrow> c = rest"
    using cle n by auto
  have asserts: "c_assert (rest \<le> bb_len b) = Some ()" "c_assert (bb_offset b + c \<le> bb_size b) = Some ()"
    "c_assert (bb_offset b + c \<le> length ring \<and> pos + c \<le> length dst) = Some ()"
    using n cle fit r(2) by simp_all
  have upd: "(if bb_len b - c \<noteq> 0 then
        Some (b\<lparr>bb_len := bb_len b - c, bb_offset := if bb_offset b + c = bb_size b then 0 else bb_offset b + c\<rparr>)
      else Option.bind (c_assert (c = rest)) (\<lambda>_. Some (b\<lparr>bb_len := bb_len b - c, bb_offset := 0\<rparr>)))
      = Some (read_chunk b c)"
    using all asserts(2) by (auto simp: read_chunk_def)
  have fin: "rest - c = 0 \<longleftrightarrow> rest = c" using cle(1) by auto
  show ?thesis
    by (subst bio_read_loop.simps)
       (simp only: sums chunk r(1) tk Let_def asserts bind.bind_lunit, simp only: upd fin bind.bind_lunit)
qed

lemma bio_read_loop_correct:
  assumes wf: "wf_ring b" and n: "0 < rest" "rest \<le> bb_len b" and fit: "pos + rest \<le> length dst"
  obtains b' where "bio_read_loop b dst pos rest = Some (b', copy_bytes dst pos (take rest (ring_data b)))"
    "wf_ring b'" "ring_data b' = drop rest (ring_data b)"
    "bb_peer b' = bb_peer b" "bb_closed b' = bb_closed b" "bb_size b' = bb_size b" "bb_request b' = bb_request b"
proof -
  obtain ring where r: "bb_buf b = Some ring" "length ring = bb_size b" "0 < bb_size b" "bb_size b < 2 ^ 63"
    "bb_len b \<le> bb_size b" "bb_offset b < bb_size b"
    using wf by (rule wf_ringE)
  show thesis
  proof (cases "bb_offset b + rest \<le> bb_size b")
    case True
    then have "bio_read_loop b dst pos rest = Some (read_chunk b rest, copy_bytes dst pos (take rest (ring_data b)))"
      using bio_read_loop_round [OF assms, of rest] by simp
    then show thesis
      using that read_chunk(1,2) [OF wf n(2) True] by simp
  next
    case False
    obtain c where c: "c = bb_size b - bb_offset b" by blast
    have cle: "bb_offset b + c \<le> bb_size b" "c < rest" "c \<le> bb_len b" "0 < c" using False r n c by auto
    note one = read_chunk(1,2) [OF wf cle(3,1)]
    have "bb_offset (read_chunk b c) = 0" using c r by (simp add: read_chunk_def)
    then have le: "bb_offset (read_chunk b c) + (rest - c) \<le> bb_size (read_chunk b c)"
      and n': "0 < rest - c" "rest - c \<le> bb_len (read_chunk b c)"
      using cle n r by auto
    note two = read_chunk(1,2) [OF one(1) n'(2) le]
    obtain dst' where dst': "dst' = copy_bytes dst pos (take c (ring_data b))" by blast
    have lc: "length (take c (ring_data b)) = c" using cle(3) wf by simp
    have "bio_read_loop b dst pos rest = bio_read_loop (read_chunk b c) dst' (pos + c) (rest - c)"
      using bio_read_loop_round [OF assms, of c] False c cle(2) by (simp add: dst')
    also have "\<dots> = Some (read_chunk (read_chunk b c) (rest - c),
        copy_bytes dst' (pos + c) (take (rest - c) (drop c (ring_data b))))"
      using bio_read_loop_round [OF one(1) n', of "pos + c" dst' "rest - c"] le fit cle(2)
      by (simp add: one(2) dst')
    also have "copy_bytes dst' (pos + c) (take (rest - c) (drop c (ring_data b)))
        = copy_bytes dst pos (take c (ring_data b) @ take (rest - c) (drop c (ring_data b)))"
      by (simp only: copy_bytes_append lc dst')
    also have "take c (ring_data b) @ take (rest - c) (drop c (ring_data b)) = take rest (ring_data b)"
      using cle(2) by (simp add: take_drop) (metis append_take_drop_id le_add_diff_inverse less_imp_le_nat min.absorb1 take_take)
    finally show thesis
      using that two cle(2) by (simp add: one(2))
  qed
qed

subsection \<open>Writing\<close>

text \<open>The first free byte, and one round of the loop: \<open>bs\<close> is written there without wrapping around.\<close>

definition write_pos :: "bio_bio_st \<Rightarrow> nat" where
  "write_pos b = (if bb_offset b + bb_len b \<ge> bb_size b then bb_offset b + bb_len b - bb_size b
                  else bb_offset b + bb_len b)"

definition write_chunk :: "bio_bio_st \<Rightarrow> u8 list \<Rightarrow> bio_bio_st" where
  "write_chunk b bs = b\<lparr>bb_buf := map_option (\<lambda>ring. copy_bytes ring (write_pos b) bs) (bb_buf b),
     bb_len := bb_len b + length bs\<rparr>"

lemma write_chunk_sel [simp]:
  "bb_offset (write_chunk b bs) = bb_offset b" "bb_size (write_chunk b bs) = bb_size b" "bb_peer (write_chunk b bs) = bb_peer b"
  "bb_closed (write_chunk b bs) = bb_closed b" "bb_request (write_chunk b bs) = bb_request b"
  "bb_len (write_chunk b bs) = bb_len b + length bs"
  "bb_buf (write_chunk b bs) = map_option (\<lambda>ring. copy_bytes ring (write_pos b) bs) (bb_buf b)"
  by (simp_all add: write_chunk_def)

lemma nth_copy_bytes:
  "off + length bs \<le> length dst \<Longrightarrow> i < length dst \<Longrightarrow>
   copy_bytes dst off bs ! i = (if off \<le> i \<and> i < off + length bs then bs ! (i - off) else dst ! i)"
  by (auto simp: copy_bytes_splice nth_append)

lemma write_chunk:
  assumes "wf_ring b" "bb_len b + length bs \<le> bb_size b" "write_pos b + length bs \<le> bb_size b"
  shows "wf_ring (write_chunk b bs)" "ring_data (write_chunk b bs) = ring_data b @ bs"
proof -
  obtain ring where r: "bb_buf b = Some ring" "length ring = bb_size b" "0 < bb_size b" "bb_size b < 2 ^ 63"
    "bb_len b \<le> bb_size b" "bb_offset b < bb_size b"
    using assms(1) by (rule wf_ringE)
  show wf: "wf_ring (write_chunk b bs)"
    using r assms by (auto simp: wf_ring_def)
  show "ring_data (write_chunk b bs) = ring_data b @ bs"
  proof (rule nth_equalityI)
    show "length (ring_data (write_chunk b bs)) = length (ring_data b @ bs)"
      using assms(1) wf by simp
  next
    fix i assume "i < length (ring_data (write_chunk b bs))"
    then have i: "i < bb_len b + length bs" using wf by simp
    obtain k where k: "k = (if bb_offset b + i < bb_size b then bb_offset b + i else bb_offset b + i - bb_size b)"
      by blast
    have "k < bb_size b" using k i r(6) assms(2) by (auto split: if_splits)
    then have "ring_data (write_chunk b bs) ! i
        = (if write_pos b \<le> k \<and> k < write_pos b + length bs then bs ! (k - write_pos b) else ring ! k)"
      using nth_ring_data [of "write_chunk b bs" "copy_bytes ring (write_pos b) bs" i] r i assms(2,3)
        nth_copy_bytes [of "write_pos b" bs ring k]
      by (simp only: k [symmetric] write_chunk_sel length_copy_bytes option.map)
    moreover have "ring_data b ! i = ring ! k" if "i < bb_len b"
      using nth_ring_data [OF r(1,2,5,6) that] by (simp add: k)
    moreover have "\<not> (write_pos b \<le> k \<and> k < write_pos b + length bs)" if "i < bb_len b"
      using that r(5,6) assms(2,3) by (auto simp: k write_pos_def split: if_splits)
    moreover have "write_pos b \<le> k \<and> k < write_pos b + length bs \<and> k - write_pos b = i - bb_len b" if "\<not> i < bb_len b"
      using that i r(5,6) assms(2,3) by (auto simp: k write_pos_def split: if_splits)
    moreover have "length (ring_data b) = bb_len b" using assms(1) by simp
    ultimately show "ring_data (write_chunk b bs) ! i = (ring_data b @ bs) ! i"
      by (auto simp: nth_append)
  qed
qed

lemma bio_write_loop_round:
  assumes wf: "wf_ring b" and n: "0 < rest" "bb_len b + rest \<le> bb_size b" and src: "rest \<le> length data"
    and c: "c = (if write_pos b + rest \<le> bb_size b then rest else bb_size b - write_pos b)"
  shows "bio_write_loop b data rest =
    (if rest = c then Some (write_chunk b (take c data))
     else bio_write_loop (write_chunk b (take c data)) (drop c data) (rest - c))"
proof -
  obtain ring where r: "bb_buf b = Some ring" "length ring = bb_size b" "0 < bb_size b" "bb_size b < 2 ^ 63"
    "bb_len b \<le> bb_size b" "bb_offset b < bb_size b"
    using wf by (rule wf_ringE)
  have wp: "write_pos b < bb_size b" using r n by (auto simp: write_pos_def)
  have cle: "c \<le> rest" "write_pos b + c \<le> bb_size b" "0 < c" using n r c wp by auto
  have sums: "size_add (bb_len b) rest = bb_len b + rest" "size_add (bb_offset b) (bb_len b) = bb_offset b + bb_len b"
    "size_add (write_pos b) rest = write_pos b + rest" "size_sub (bb_size b) (write_pos b) = bb_size b - write_pos b"
    "size_sub (bb_offset b + bb_len b) (bb_size b) = bb_offset b + bb_len b - bb_size b \<or> \<not> bb_size b \<le> bb_offset b + bb_len b"
    "size_add (bb_len b) c = bb_len b + c" "size_sub rest c = rest - c"
    using wf r n cle wp by (auto intro!: ring_add ring_sub)
  have pos: "(if bb_size b \<le> bb_offset b + bb_len b then size_sub (bb_offset b + bb_len b) (bb_size b)
      else bb_offset b + bb_len b) = write_pos b"
    using sums(5) by (auto simp: write_pos_def)
  have chunk: "(if write_pos b + rest \<le> bb_size b then rest else bb_size b - write_pos b) = c"
    by (simp add: c)
  have asserts: "c_assert (bb_len b + rest \<le> bb_size b) = Some ()"
    "c_assert (write_pos b + c \<le> length ring \<and> c \<le> length data) = Some ()" "c_assert (bb_len b + c \<le> bb_size b) = Some ()"
    using n cle src r(2) by simp_all
  have upd: "b\<lparr>bb_buf := Some (copy_bytes ring (write_pos b) (take c data)), bb_len := bb_len b + c\<rparr> = write_chunk b (take c data)"
    using cle(1) src by (simp add: write_chunk_def r(1))
  have len: "bb_len (write_chunk b (take c data)) = bb_len b + c" "bb_size (write_chunk b (take c data)) = bb_size b"
    using cle(1) src by simp_all
  have fin: "rest - c = 0 \<longleftrightarrow> rest = c" using cle(1) by auto
  show ?thesis
    by (subst bio_write_loop.simps)
       (simp only: sums(1-4,6,7) pos chunk r(1) Let_def asserts bind.bind_lunit upd len fin)
qed

lemma bio_write_loop_correct:
  assumes wf: "wf_ring b" and n: "0 < rest" "bb_len b + rest \<le> bb_size b" and src: "rest \<le> length data"
  obtains b' where "bio_write_loop b data rest = Some b'" "wf_ring b'" "ring_data b' = ring_data b @ take rest data"
    "bb_peer b' = bb_peer b" "bb_closed b' = bb_closed b" "bb_size b' = bb_size b" "bb_request b' = bb_request b"
proof (cases "write_pos b + rest \<le> bb_size b")
  case True
  have "bio_write_loop b data rest = Some (write_chunk b (take rest data))"
    using bio_write_loop_round [OF assms, of rest] True by simp
  then show thesis
    using that write_chunk [OF wf, of "take rest data"] True n src by simp
next
  case False
  obtain c where c: "c = bb_size b - write_pos b" by blast
  have wp: "write_pos b < bb_size b" using wf n by (auto simp: write_pos_def elim!: wf_ringE)
  have cle: "c < rest" "0 < c" "write_pos b + c \<le> bb_size b" using False c wp by auto
  have one: "wf_ring (write_chunk b (take c data))" "ring_data (write_chunk b (take c data)) = ring_data b @ take c data"
    using write_chunk [OF wf, of "take c data"] cle n src by auto
  let ?b = "write_chunk b (take c data)"
  have lens: "bb_len ?b = bb_len b + c" "bb_size ?b = bb_size b" using cle src by simp_all
  have "write_pos b = bb_offset b + bb_len b - bb_size b \<or> write_pos b = bb_offset b + bb_len b"
    "bb_offset b < bb_size b"
    using wf by (auto simp: write_pos_def elim!: wf_ringE)
  then have "bb_offset b + (bb_len b + c) = bb_size b"
    using c cle n wp by linarith
  then have "write_pos ?b = 0"
    by (simp only: write_pos_def lens write_chunk_sel(1)) simp
  then have fit: "write_pos ?b + (rest - c) \<le> bb_size b"
    using n by simp
  have n': "0 < rest - c" "bb_len ?b + (rest - c) \<le> bb_size ?b" "rest - c \<le> length (drop c data)"
    using cle n src lens by auto
  have "bio_write_loop b data rest = bio_write_loop ?b (drop c data) (rest - c)"
    using bio_write_loop_round [OF assms, of c] False c cle(1) by simp
  also have "\<dots> = Some (write_chunk ?b (take (rest - c) (drop c data)))"
    using bio_write_loop_round [OF one(1) n', of "rest - c"] fit lens by simp
  finally have run: "bio_write_loop b data rest = Some (write_chunk ?b (take (rest - c) (drop c data)))" .
  have two: "wf_ring (write_chunk ?b (take (rest - c) (drop c data)))"
    "ring_data (write_chunk ?b (take (rest - c) (drop c data))) = (ring_data b @ take c data) @ take (rest - c) (drop c data)"
    using write_chunk [OF one(1), of "take (rest - c) (drop c data)"] fit n' lens one(2) by simp_all
  have "take c data @ take (rest - c) (drop c data) = take rest data"
    using cle(1) take_add [of c "rest - c" data] by simp
  then show thesis using that run two by simp
qed

end
