(* ===== verification/Bio_Duplex.thy ===== *)
theory Bio_Duplex
  imports Bio_Ring
begin

text \<open>
  A connected \<open>BIO\<close> pair as two channels: the contract of each end, and the proof that the calls of the
  generic layer on the two ends keep it.
\<close>

subsection \<open>Channels\<close>

text \<open>What one end writes and the other reads: the bytes in transit, whether the writer has shut down, the
  capacity, and how much the reader asked for in vain.\<close>

record chan =
  ch_data :: "u8 list"
  ch_closed :: bool
  ch_size :: nat
  ch_request :: nat

text \<open>The abstract operations: the result, the bytes read, and the channel afterwards.\<close>

definition chan_read :: "nat \<Rightarrow> chan \<Rightarrow> int \<times> u8 list \<times> chan" where
  "chan_read n ch =
     (if ch_data ch = [] then
        (if ch_closed ch then (0, [], ch\<lparr>ch_request := 0\<rparr>) else (-1, [], ch\<lparr>ch_request := min n (ch_size ch)\<rparr>))
      else let k = min n (length (ch_data ch)) in
        (int k, take k (ch_data ch), ch\<lparr>ch_data := drop k (ch_data ch), ch_request := 0\<rparr>))"

definition chan_write :: "u8 list \<Rightarrow> chan \<Rightarrow> int \<times> chan" where
  "chan_write bs ch =
     (if ch_closed ch \<or> length (ch_data ch) = ch_size ch then (-1, ch\<lparr>ch_request := 0\<rparr>)
      else let k = min (length bs) (ch_size ch - length (ch_data ch)) in
        (int k, ch\<lparr>ch_data := ch_data ch @ take k bs, ch_request := 0\<rparr>))"

definition chan_of :: "bio_bio_st \<Rightarrow> chan" where
  "chan_of b = \<lparr>ch_data = ring_data b, ch_closed = (bb_closed b \<noteq> 0), ch_size = bb_size b, ch_request = bb_request b\<rparr>"

subsection \<open>Connected ends\<close>

definition pair_end :: "world \<Rightarrow> nat \<Rightarrow> nat \<Rightarrow> bio_bio_st \<Rightarrow> bool" where
  "pair_end w a c b \<longleftrightarrow> (case wd_bios w a of None \<Rightarrow> False
     | Some x \<Rightarrow> bio_method x = Some bio_s_bio \<and> bio_init x \<noteq> 0 \<and> bio_ptr x = PPair b \<and>
         bb_peer b = Some c \<and> wf_ring b)"

text \<open>\<open>connected w a c p q\<close>: \<open>a\<close> and \<open>c\<close> are the ends of a pair; what is written to \<open>a\<close> goes through channel \<open>p\<close>, what
  is written to \<open>c\<close> through \<open>q\<close>.\<close>

definition connected :: "world \<Rightarrow> nat \<Rightarrow> nat \<Rightarrow> chan \<Rightarrow> chan \<Rightarrow> bool" where
  "connected w a c p q \<longleftrightarrow> a \<noteq> c \<and> (\<exists>b. pair_end w a c b \<and> chan_of b = p) \<and> (\<exists>d. pair_end w c a d \<and> chan_of d = q)"

lemma connected_sym: "connected w a c p q \<longleftrightarrow> connected w c a q p"
  by (auto simp: connected_def)

lemma connectedE:
  assumes "connected w a c p q"
  obtains x b y d where "a \<noteq> c"
    "wd_bios w a = Some x" "bio_method x = Some bio_s_bio" "bio_init x \<noteq> 0" "bio_ptr x = PPair b" "bb_peer b = Some c"
    "wf_ring b" "chan_of b = p"
    "wd_bios w c = Some y" "bio_method y = Some bio_s_bio" "bio_init y \<noteq> 0" "bio_ptr y = PPair d" "bb_peer d = Some a"
    "wf_ring d" "chan_of d = q"
  using assms by (auto simp: connected_def pair_end_def split: option.splits)

lemma connectedI:
  assumes "a \<noteq> c"
    "wd_bios w a = Some x" "bio_method x = Some bio_s_bio" "bio_init x \<noteq> 0" "bio_ptr x = PPair b" "bb_peer b = Some c"
    "wf_ring b" "chan_of b = p"
    "wd_bios w c = Some y" "bio_method y = Some bio_s_bio" "bio_init y \<noteq> 0" "bio_ptr y = PPair d" "bb_peer d = Some a"
    "wf_ring d" "chan_of d = q"
  shows "connected w a c p q"
  using assms by (auto simp: connected_def pair_end_def)

lemma wf_ring_buf: "wf_ring b \<Longrightarrow> bb_buf b \<noteq> None"
  by (auto elim!: wf_ringE)

lemma wf_ring_len: "wf_ring b \<Longrightarrow> bb_len b \<le> bb_size b" "wf_ring b \<Longrightarrow> bb_size b < SIZE_LIMIT"
  by (auto elim!: wf_ringE simp: SIZE_LIMIT_def)

lemma ring_data_Nil: "wf_ring b \<Longrightarrow> ring_data b = [] \<longleftrightarrow> bb_len b = 0"
  using length_ring_data [of b] by (metis length_0_conv)

lemma method_tables [simp]: "method_of bio_methods (Some bio_s_bio) = Some methods_biop"
  "bio_methods bio_s_bio = Some methods_biop" "bio_methods BIO_s_mem = Some mem_method"
  "method_of bio_methods (Some BIO_s_mem) = Some mem_method"
  by (simp_all add: method_of_def bio_methods_def bio_s_bio_def BIO_s_mem_def)

lemma methods_biop_sel [simp]: "m_bread methods_biop = Some bio_read" "m_bwrite methods_biop = Some bio_write"
  "m_ctrl methods_biop = Some bio_ctrl" "m_create methods_biop = Some bio_new" "m_destroy methods_biop = Some bio_free"
  by (simp_all add: methods_biop_def)

lemmas pair_heap = bio_set_def pair_set_def pair_ptr_def BIO_clear_retry_flags_def BIO_set_retry_read_def
  BIO_set_retry_write_def

lemma INT_MAX_size: "0 < len \<Longrightarrow> len \<le> INT_MAX \<Longrightarrow> to_size len = nat len"
  "n \<le> nat INT_MAX \<Longrightarrow> c_int (int n) = int n"
  by (simp_all add: to_size_id INT_MAX_def c_int_id)

text \<open>Reading at \<open>c\<close>: the call returns, without a failed assertion, what the channel of \<open>a\<close> gives, puts the bytes at
  the front of the buffer, and leaves both ends connected.\<close>

lemma BIO_read_connected:
  assumes "connected w a c p q" and len: "0 < len" "len \<le> INT_MAX" "nat len \<le> length buf"
    and op: "chan_read (nat len) p = (ret, bs, p')"
  shows "\<exists>w'. BIO_read bio_methods (Some c) (Some buf) len w = Some (ret, Some (bs @ drop (length bs) buf), w') \<and>
    connected w' a c p' q"
proof -
  obtain x b y d where r: "a \<noteq> c"
    "wd_bios w a = Some x" "bio_method x = Some bio_s_bio" "bio_init x \<noteq> 0" "bio_ptr x = PPair b" "bb_peer b = Some c"
    "wf_ring b" "chan_of b = p"
    "wd_bios w c = Some y" "bio_method y = Some bio_s_bio" "bio_init y \<noteq> 0" "bio_ptr y = PPair d" "bb_peer d = Some a"
    "wf_ring d" "chan_of d = q"
    using assms(1) by (rule connectedE)
  note sz = INT_MAX_size(1) [OF len(1,2)]
  obtain ring where ring: "bb_buf b = Some ring" using r(7) by (auto elim: wf_ringE)
  have ca: "(c = a) = False" "(a = c) = False" using r(1) by auto
  have step: ?thesis if ex: "\<exists>v. bio_read c (Some buf) len w = Some (ret, Some (bs @ drop (length bs) buf), v) \<and>
      wd_bios v a = Some (x\<lparr>bio_ptr := PPair b'\<rparr>) \<and>
      (\<exists>y'. wd_bios v c = Some y' \<and> bio_method y' = Some bio_s_bio \<and> bio_init y' \<noteq> 0 \<and> bio_ptr y' = PPair d)"
    and b': "bb_peer b' = Some c" "wf_ring b'" "chan_of b' = p'" for b'
  proof -
    obtain v y' where v: "bio_read c (Some buf) len w = Some (ret, Some (bs @ drop (length bs) buf), v)"
      "wd_bios v a = Some (x\<lparr>bio_ptr := PPair b'\<rparr>)"
      "wd_bios v c = Some y'" "bio_method y' = Some bio_s_bio" "bio_init y' \<noteq> 0" "bio_ptr y' = PPair d"
      using ex by blast
    obtain u where u: "count_read c ret v = Some u" "wd_bios u a = Some (x\<lparr>bio_ptr := PPair b'\<rparr>)"
      "\<exists>z. wd_bios u c = Some z \<and> bio_method z = Some bio_s_bio \<and> bio_init z \<noteq> 0 \<and> bio_ptr z = PPair d"
      using v ca by (cases "ret > 0") (simp_all add: count_read_def bio_set_def)
    then obtain z where z: "wd_bios u c = Some z" "bio_method z = Some bio_s_bio" "bio_init z \<noteq> 0" "bio_ptr z = PPair d"
      by blast
    have "BIO_read bio_methods (Some c) (Some buf) len w = Some (ret, Some (bs @ drop (length bs) buf), u)"
      using len r v(1) u(1) by (simp add: BIO_read_def)
    moreover have "connected u a c p' q"
      by (rule connectedI [OF r(1) u(2) _ _ _ b' z r(13-15)]) (simp_all add: r(3,4))
    ultimately show ?thesis by blast
  qed
  show ?thesis
  proof (cases "bb_len b = 0")
    case True
    then have q: "ring_data b = []" using r(7) by (simp add: ring_data_Nil)
    show ?thesis
    proof (cases "bb_closed b = 0")
      case opn: True
      have "ret = -1" "bs = []" "p' = chan_of (b\<lparr>bb_request := min (nat len) (bb_size b)\<rparr>)"
        using op q opn by (simp_all add: chan_read_def r(8) [symmetric] chan_of_def)
      then show ?thesis
        using r(1-7) r(9-13) len(1) True opn ring
        by (intro step [where b' = "b\<lparr>bb_request := min (nat len) (bb_size b)\<rparr>"])
           (simp_all add: bio_read_def pair_heap sz ca min_def Let_def)
    next
      case closed: False
      have "ret = 0" "bs = []" "p' = chan_of (b\<lparr>bb_request := 0\<rparr>)"
        using op q closed by (simp_all add: chan_read_def r(8) [symmetric] chan_of_def)
      then show ?thesis
        using r(1-7) r(9-13) len(1) True closed ring
        by (intro step [where b' = "b\<lparr>bb_request := 0\<rparr>"])
           (simp_all add: bio_read_def pair_heap sz ca Let_def)
    qed
  next
    case False
    let ?b = "b\<lparr>bb_request := 0\<rparr>"
    obtain k where k: "k = (if bb_len b < nat len then bb_len b else nat len)" by blast
    have kn: "0 < k" "k \<le> bb_len ?b" "k \<le> nat len" "k \<le> nat INT_MAX"
      using False len(1,2) by (auto simp: k)
    obtain b' where b': "bio_read_loop ?b buf 0 k = Some (b', copy_bytes buf 0 (take k (ring_data b)))"
      "wf_ring b'" "ring_data b' = drop k (ring_data b)" "bb_peer b' = bb_peer b" "bb_closed b' = bb_closed b"
      "bb_size b' = bb_size b" "bb_request b' = 0"
      using bio_read_loop_correct [of ?b k 0 buf] r(7) kn len(3) by auto
    have q: "ring_data b \<noteq> []" "length (ring_data b) = bb_len b" using False r(7) by (simp_all add: ring_data_Nil)
    have k': "(if bb_len b < nat len then bb_len ?b else nat len) = k" by (simp add: k)
    have mk: "min (nat len) (bb_len b) = k" by (simp add: k min_def)
    have op': "ret = int k" "bs = take k (ring_data b)" "p' = chan_of b'"
      using op q mk by (simp_all add: chan_read_def r(8) [symmetric] chan_of_def b' Let_def)
    have "copy_bytes buf 0 (take k (ring_data b)) = bs @ drop (length bs) buf"
      using kn len(3) q by (simp add: copy_bytes_splice op'(2))
    then show ?thesis
      using r(1-7) r(9-13) len(1) False ring b' kn op'(1,3)
      by (intro step [where b' = b'])
         (simp_all add: bio_read_def pair_heap sz ca Let_def k' INT_MAX_size(2) split del: if_split)
  qed
qed

text \<open>Writing at \<open>a\<close>.\<close>

lemma BIO_write_connected:
  assumes "connected w a c p q" and len: "0 < len" "len \<le> INT_MAX" "nat len \<le> length data"
    and op: "chan_write (take (nat len) data) p = (ret, p')"
  shows "\<exists>w'. BIO_write bio_methods (Some a) (Some data) len w = Some (ret, w') \<and> connected w' a c p' q"
proof -
  obtain x b y d where r: "a \<noteq> c"
    "wd_bios w a = Some x" "bio_method x = Some bio_s_bio" "bio_init x \<noteq> 0" "bio_ptr x = PPair b" "bb_peer b = Some c"
    "wf_ring b" "chan_of b = p"
    "wd_bios w c = Some y" "bio_method y = Some bio_s_bio" "bio_init y \<noteq> 0" "bio_ptr y = PPair d" "bb_peer d = Some a"
    "wf_ring d" "chan_of d = q"
    using assms(1) by (rule connectedE)
  note sz = INT_MAX_size(1) [OF len(1,2)]
  obtain ring where ring: "bb_buf b = Some ring" using r(7) by (auto elim: wf_ringE)
  have ca: "(c = a) = False" "(a = c) = False" using r(1) by auto
  note lens = wf_ring_len [OF r(7)]
  have step: ?thesis if ex: "\<exists>v. bio_write a (Some data) len w = Some (ret, v) \<and> wd_bios v c = Some y \<and>
      (\<exists>x'. wd_bios v a = Some x' \<and> bio_method x' = Some bio_s_bio \<and> bio_init x' \<noteq> 0 \<and> bio_ptr x' = PPair b')"
    and b': "bb_peer b' = Some c" "wf_ring b'" "chan_of b' = p'" for b'
  proof -
    obtain v x' where v: "bio_write a (Some data) len w = Some (ret, v)" "wd_bios v c = Some y"
      "wd_bios v a = Some x'" "bio_method x' = Some bio_s_bio" "bio_init x' \<noteq> 0" "bio_ptr x' = PPair b'"
      using ex by blast
    obtain u where u: "count_write a ret v = Some u" "wd_bios u c = Some y"
      "\<exists>z. wd_bios u a = Some z \<and> bio_method z = Some bio_s_bio \<and> bio_init z \<noteq> 0 \<and> bio_ptr z = PPair b'"
      using v ca by (cases "ret > 0") (simp_all add: count_write_def bio_set_def)
    then obtain z where z: "wd_bios u a = Some z" "bio_method z = Some bio_s_bio" "bio_init z \<noteq> 0" "bio_ptr z = PPair b'"
      by blast
    have "BIO_write bio_methods (Some a) (Some data) len w = Some (ret, u)"
      using len r v(1) u(1) by (simp add: BIO_write_def)
    moreover have "connected u a c p' q"
      by (rule connectedI [OF r(1) z b' u(2) r(10-15)])
    ultimately show ?thesis by blast
  qed
  let ?b = "b\<lparr>bb_request := 0\<rparr>"
  have room: "size_sub (bb_size b) (bb_len b) = bb_size b - bb_len b"
    using lens by (simp add: size_sub_exact)
  show ?thesis
  proof (cases "bb_closed b \<noteq> 0 \<or> bb_len b = bb_size b")
    case True
    then have "ret = -1" "p' = chan_of ?b"
      using op r(7) by (simp_all add: chan_write_def r(8) [symmetric] chan_of_def)
    then show ?thesis
      using r(1-7) r(9-13) len(1) True ring lens
      by (cases "bb_closed b = 0"; intro step [where b' = ?b])
         (simp_all add: bio_write_def pair_heap sz ca PUT_ERROR_def)
  next
    case False
    obtain k where k: "k = (if nat len > bb_size b - bb_len b then bb_size b - bb_len b else nat len)" by blast
    have kn: "0 < k" "bb_len ?b + k \<le> bb_size ?b" "k \<le> length data" "k \<le> nat INT_MAX" "k \<le> nat len"
      using False len lens by (auto simp: k)
    obtain b' where b': "bio_write_loop ?b data k = Some b'"
      "wf_ring b'" "ring_data b' = ring_data b @ take k data" "bb_peer b' = bb_peer b" "bb_closed b' = bb_closed b"
      "bb_size b' = bb_size b" "bb_request b' = 0"
      using bio_write_loop_correct [of ?b k data] r(7) kn by auto
    have k': "(if bb_size b - bb_len b < nat len then size_sub (bb_size ?b) (bb_len ?b) else nat len) = k"
      by (simp add: k room)
    have "min (length (take (nat len) data)) (bb_size b - length (ring_data b)) = k"
      using len(3) r(7) by (auto simp: k min_def)
    then have op': "ret = int k" "p' = chan_of b'"
      using op False r(7) kn(5) by (simp_all add: chan_write_def r(8) [symmetric] chan_of_def b' min_def Let_def)
    then show ?thesis
      using r(1-7) r(9-13) len(1) False ring b' kn lens
      by (intro step [where b' = b'])
         (simp_all add: bio_write_def pair_heap sz ca Let_def room k' INT_MAX_size(2) split del: if_split)
  qed
qed

text \<open>Control calls at \<open>a\<close>: the result as a function of the two channels, and the new channel.\<close>

definition chan_ctrl :: "int \<Rightarrow> chan \<Rightarrow> chan \<Rightarrow> int \<times> chan" where
  "chan_ctrl cmd p q =
     (if cmd = BIO_C_GET_WRITE_BUF_SIZE then (int (ch_size p), p)
      else if cmd = BIO_C_GET_WRITE_GUARANTEE then
        (if ch_closed p then 0 else int (ch_size p) - int (length (ch_data p)), p)
      else if cmd = BIO_C_GET_READ_REQUEST then (int (ch_request p), p)
      else if cmd = BIO_C_RESET_READ_REQUEST then (1, p\<lparr>ch_request := 0\<rparr>)
      else if cmd = BIO_C_SHUTDOWN_WR then (1, p\<lparr>ch_closed := True\<rparr>)
      else if cmd = BIO_CTRL_SET_CLOSE \<or> cmd = BIO_CTRL_FLUSH \<or> cmd = BIO_CTRL_EOF then (1, p)
      else if cmd = BIO_CTRL_PENDING then (int (length (ch_data q)), p)
      else if cmd = BIO_CTRL_WPENDING then (int (length (ch_data p)), p)
      else (0, p))"

lemma ring_long: "wf_ring b \<Longrightarrow> n \<le> bb_size b \<Longrightarrow> c_long (int n) = int n"
  by (rule c_long_id) (auto elim!: wf_ringE)

lemma BIO_ctrl_connected:
  assumes "connected w a c p q" and req: "ch_request p \<le> ch_size p"
  shows "\<exists>r w'. BIO_ctrl bio_methods (Some a) cmd num CNull w = Some (r, CNull, w') \<and>
    connected w' a c (snd (chan_ctrl cmd p q)) q \<and> (cmd \<noteq> BIO_CTRL_GET_CLOSE \<longrightarrow> r = fst (chan_ctrl cmd p q))"
proof -
  obtain x b y d where r: "a \<noteq> c"
    "wd_bios w a = Some x" "bio_method x = Some bio_s_bio" "bio_init x \<noteq> 0" "bio_ptr x = PPair b" "bb_peer b = Some c"
    "wf_ring b" "chan_of b = p"
    "wd_bios w c = Some y" "bio_method y = Some bio_s_bio" "bio_init y \<noteq> 0" "bio_ptr y = PPair d" "bb_peer d = Some a"
    "wf_ring d" "chan_of d = q"
    using assms(1) by (rule connectedE)
  note lens = wf_ring_len [OF r(7)] wf_ring_len [OF r(14)]
  have ca: "(c = a) = False" "(a = c) = False" using r(1) by auto
  have p: "ch_data p = ring_data b" "ch_closed p = (bb_closed b \<noteq> 0)" "ch_size p = bb_size b" "ch_request p = bb_request b"
    "ch_data q = ring_data d" and len: "length (ring_data b) = bb_len b" "length (ring_data d) = bb_len d"
    using r(7,14) by (simp_all add: r(8,15) [symmetric] chan_of_def)
  have longs: "c_long (int (bb_size b)) = int (bb_size b)" "c_long (int (bb_len b)) = int (bb_len b)"
    "c_long (int (bb_request b)) = int (bb_request b)" "c_long (int (bb_len d)) = int (bb_len d)"
    using lens req p by (simp_all add: ring_long [OF r(7)] ring_long [OF r(14)])
  have diff: "c_long (int (bb_size b) - int (bb_len b)) = int (bb_size b) - int (bb_len b)"
    using ring_long [OF r(7), of "bb_size b - bb_len b"] lens by simp
  have buf: "bb_buf b \<noteq> None" by (rule wf_ring_buf [OF r(7)])
  consider "cmd = BIO_C_RESET_READ_REQUEST" | "cmd = BIO_C_SHUTDOWN_WR" | "cmd = BIO_CTRL_SET_CLOSE"
    | "cmd \<noteq> BIO_C_RESET_READ_REQUEST" "cmd \<noteq> BIO_C_SHUTDOWN_WR" "cmd \<noteq> BIO_CTRL_SET_CLOSE" by blast
  then show ?thesis
  proof cases
    case 1
    then show ?thesis
      using r by (intro exI) (auto simp: BIO_ctrl_def bio_ctrl_def pair_heap chan_ctrl_def bio_ctrl_codes chan_of_def
          connected_def pair_end_def)
  next
    case 2
    then show ?thesis
      using r by (intro exI) (auto simp: BIO_ctrl_def bio_ctrl_def pair_heap chan_ctrl_def bio_ctrl_codes chan_of_def
          connected_def pair_end_def)
  next
    case 3
    then show ?thesis
      using r by (intro exI) (auto simp: BIO_ctrl_def bio_ctrl_def pair_heap chan_ctrl_def bio_ctrl_codes chan_of_def
          connected_def pair_end_def)
  next
    case 4
    have "\<exists>v. BIO_ctrl bio_methods (Some a) cmd num CNull w = Some (v, CNull, w) \<and>
      (cmd \<noteq> BIO_CTRL_GET_CLOSE \<longrightarrow> v = fst (chan_ctrl cmd p q))"
      using 4 r(2-7) r(9-14) buf ca
      by (simp add: BIO_ctrl_def bio_ctrl_def pair_heap chan_ctrl_def p len longs diff lens size_sub_exact bio_ctrl_codes)
    moreover have "snd (chan_ctrl cmd p q) = p"
      using 4 by (simp add: chan_ctrl_def bio_ctrl_codes)
    ultimately show ?thesis using assms(1) by auto
  qed
qed

subsection \<open>Creating a pair\<close>

lemma bio_malloc_cases:
  assumes "malloc_ok (wd_malloc w (wd_count w))" "sz + 8 < SIZE_LIMIT"
  obtains "bio_malloc sz w = (None, wd_count w, w\<lparr>wd_count := Suc (wd_count w)\<rparr>)"
  | block where "bio_malloc sz w = (Some block, wd_count w, w\<lparr>wd_count := Suc (wd_count w)\<rparr>)"
      "length (user_bytes block) = sz"
proof (cases "OPENSSL_malloc (wd_malloc w (wd_count w)) sz")
  case None
  then show thesis by (intro that(1)) (simp add: bio_malloc_def)
next
  case (Some block)
  then show thesis
    using OPENSSL_malloc_block [OF assms Some] length_user_bytes [of block]
    by (intro that(2)) (simp_all add: bio_malloc_def)
qed

text \<open>A heap is fresh from \<open>n\<close> on when no \<open>BIO\<close> has an address the allocator has still to give out.\<close>

definition fresh_heap :: "world \<Rightarrow> bool" where
  "fresh_heap w \<longleftrightarrow> (\<forall>i \<ge> wd_count w. wd_bios w i = None)"

definition mallocs_ok :: "world \<Rightarrow> bool" where
  "mallocs_ok w \<longleftrightarrow> (\<forall>i. malloc_ok (wd_malloc w i))"

definition alloc_fails :: "world \<Rightarrow> bool" where
  "alloc_fails w \<longleftrightarrow> (\<exists>i n. wd_malloc w i n = None)"

lemma bio_malloc_fails: "bio_malloc sz w = (None, i, w') \<Longrightarrow> alloc_fails w"
  by (auto simp: bio_malloc_def OPENSSL_malloc_def alloc_fails_def split: option.splits)

lemma alloc_fails_cong: "wd_malloc w = wd_malloc v \<Longrightarrow> alloc_fails w = alloc_fails v"
  by (simp add: alloc_fails_def)

definition new_pair_BIO :: BIO where
  "new_pair_BIO = zero_BIO\<lparr>bio_method := Some bio_s_bio, bio_shutdown := 1, bio_references := 1,
     bio_ptr := PPair \<lparr>bb_peer = None, bb_closed = 0, bb_len = 0, bb_offset = 0, bb_size = 17 * 1024,
       bb_buf = None, bb_request = 0\<rparr>\<rparr>"

lemma BIO_new_pair_cases:
  assumes "mallocs_ok w" "fresh_heap w"
  shows "\<exists>w'. (BIO_new bio_methods bio_s_bio w = Some (None, w') \<and> wd_bios w' = wd_bios w \<and> alloc_fails w \<or>
      BIO_new bio_methods bio_s_bio w = Some (Some (wd_count w), w') \<and>
        wd_bios w' = (wd_bios w)(wd_count w := Some new_pair_BIO)) \<and>
    wd_malloc w' = wd_malloc w \<and> wd_count w < wd_count w'"
proof -
  have ok: "malloc_ok (wd_malloc w i)" for i using assms by (simp add: mallocs_ok_def)
  have fresh: "(wd_bios w)(wd_count w := None) = wd_bios w"
    using assms(2) by (auto simp: fresh_heap_def)
  have sizes: "sizeof_BIO + 8 < SIZE_LIMIT" "sizeof_bio_bio_st + 8 < SIZE_LIMIT"
    by (simp_all add: sizeof_BIO_def sizeof_bio_bio_st_def SIZE_LIMIT_def)
  show ?thesis
  proof (cases rule: bio_malloc_cases [OF ok sizes(1)])
    case 1
    then show ?thesis using bio_malloc_fails [OF 1] by (simp add: BIO_new_def PUT_ERROR_def)
  next
    case (2 block)
    obtain w1 where w1: "w1 = w\<lparr>wd_count := Suc (wd_count w),
        wd_bios := (wd_bios w)(wd_count w \<mapsto> zero_BIO\<lparr>bio_method := Some bio_s_bio, bio_shutdown := 1, bio_references := 1\<rparr>)\<rparr>"
      by blast
    have "malloc_ok (wd_malloc w1 (wd_count w1))" using ok by (simp add: w1)
    then show ?thesis
    proof (cases rule: bio_malloc_cases [OF _ sizes(2), of w1, case_names A none some])
      case none
      then have "bio_new (wd_count w) w1 = Some (0, w1\<lparr>wd_count := Suc (wd_count w1)\<rparr>)"
        by (simp add: bio_new_def)
      then show ?thesis
        using 2 fresh bio_malloc_fails [OF none] by (simp add: BIO_new_def w1 bio_release_def alloc_fails_def)
    next
      case (some block')
      then have "bio_new (wd_count w) w1 = Some (1, w1\<lparr>wd_count := Suc (wd_count w1),
          wd_bios := (wd_bios w)(wd_count w \<mapsto> new_pair_BIO)\<rparr>)"
        by (simp add: bio_new_def bio_set_def w1 new_pair_BIO_def)
      then show ?thesis
        using 2 by (simp add: BIO_new_def w1)
    qed
  qed
qed

lemma BIO_free_unpaired:
  assumes "wd_bios w a = Some x" "bio_method x = Some bio_s_bio" "bio_references x = 1" "bio_next_bio x = None"
    and "bio_ptr x = PPair b" "bb_peer b = None"
  shows "\<exists>w'. BIO_free bio_methods (Some a) w = Some (1, w') \<and> wd_bios w' = (wd_bios w)(a := None)"
  using assms
  by (simp add: BIO_free.simps [of _ "Some a"] BIO_free.simps [of _ None] CRYPTO_refcount_dec_and_test_zero_def
      CRYPTO_REFCOUNT_MAX_def BIO_pop_def pair_heap bio_free_def bio_release_def)

definition empty_chan :: "nat \<Rightarrow> chan" where
  "empty_chan s = \<lparr>ch_data = [], ch_closed = False, ch_size = (if s = 0 then 17 * 1024 else s), ch_request = 0\<rparr>"

text \<open>An end with a ring of its own and no peer yet.\<close>

definition ring_end :: "world \<Rightarrow> nat \<Rightarrow> nat \<Rightarrow> bool" where
  "ring_end w a s \<longleftrightarrow> (\<exists>x b. wd_bios w a = Some x \<and> bio_method x = Some bio_s_bio \<and> bio_references x = 1 \<and>
     bio_next_bio x = None \<and> bio_ptr x = PPair b \<and> bb_peer b = None \<and> wf_ring b \<and> ring_data b = [] \<and>
     bb_size b = (if s = 0 then 17 * 1024 else s))"

definition plain_end :: "world \<Rightarrow> nat \<Rightarrow> bool" where
  "plain_end w a \<longleftrightarrow> (\<exists>x b. wd_bios w a = Some x \<and> bio_method x = Some bio_s_bio \<and> bio_references x = 1 \<and>
     bio_next_bio x = None \<and> bio_ptr x = PPair b \<and> bb_peer b = None)"

lemma make_ring_cases:
  assumes ok: "mallocs_ok w" and a: "wd_bios w a = Some new_pair_BIO" and s: "s < 2 ^ 63"
  shows "\<exists>r w'. make_ring a s w = Some (r, w') \<and> wd_malloc w' = wd_malloc w \<and>
    (\<forall>z. z \<noteq> a \<longrightarrow> wd_bios w' z = wd_bios w z) \<and> (if r then ring_end w' a s else plain_end w' a \<and> alloc_fails w)"
proof -
  obtain n where n: "n = (if s = 0 then 17 * 1024 else s)" by blast
  have nlim: "n + 8 < SIZE_LIMIT" "0 < n" "n < 2 ^ 63" using s by (auto simp: n SIZE_LIMIT_def)
  obtain x b where x: "wd_bios w a = Some x" "bio_method x = Some bio_s_bio" "bio_references x = 1"
     "bio_next_bio x = None" "bio_ptr x = PPair b" "bb_peer b = None" "bb_buf b = None" "bb_size b = 17 * 1024"
    using a by (auto simp: new_pair_BIO_def zero_BIO_def)
  obtain w1 where w1: "(if s \<noteq> 0 then pair_set a (\<lambda>b. b\<lparr>bb_size := s\<rparr>) w else Some w) = Some w1"
    "w1 = w\<lparr>wd_bios := (wd_bios w)(a := Some (x\<lparr>bio_ptr := PPair (b\<lparr>bb_size := n\<rparr>)\<rparr>))\<rparr>"
    using x by (cases "s = 0") (auto simp: pair_heap n fun_upd_idem)
  have ok1: "malloc_ok (wd_malloc w1 (wd_count w1))" using ok by (simp add: mallocs_ok_def w1(2))
  have m: "make_ring a s w = (case bio_malloc n w1 of
         (None, _, w) \<Rightarrow> Some (False, PUT_ERROR ''BIO'' ''MALLOC_FAILURE'' w)
       | (Some block, _, w) \<Rightarrow> do {
           w \<leftarrow> pair_set a (\<lambda>b. b\<lparr>bb_buf := Some (user_bytes block), bb_len := 0, bb_offset := 0\<rparr>) w;
           Some (True, w) })"
    using x w1(1) by (simp add: make_ring_def pair_ptr_def) (simp add: w1(2))
  show ?thesis
  proof (cases rule: bio_malloc_cases [OF ok1 nlim(1), case_names none some])
    case none
    then show ?thesis
      using x bio_malloc_fails [OF none] alloc_fails_cong [of w1 w]
      by (intro exI [of _ False]) (simp add: m PUT_ERROR_def plain_end_def w1(2))
  next
    case (some block)
    then show ?thesis
      using x nlim by (intro exI [of _ True]) (simp add: m pair_heap w1(2) ring_end_def wf_ring_def ring_data_def n)
  qed
qed

lemma ring_end_plain: "ring_end w a s \<Longrightarrow> plain_end w a"
  by (auto simp: ring_end_def plain_end_def)

lemma ring_end_cong: "wd_bios w a = wd_bios v a \<Longrightarrow> ring_end w a s = ring_end v a s"
  "wd_bios w a = wd_bios v a \<Longrightarrow> plain_end w a = plain_end v a"
  by (simp_all add: ring_end_def plain_end_def)

lemma set_peers:
  assumes "ring_end w a s1" "ring_end w c s2" "a \<noteq> c"
  shows "\<exists>w'. do {
       w \<leftarrow> pair_set a (\<lambda>b. b\<lparr>bb_peer := Some c, bb_closed := 0, bb_request := 0\<rparr>) w;
       w \<leftarrow> pair_set c (\<lambda>b. b\<lparr>bb_peer := Some a, bb_closed := 0, bb_request := 0\<rparr>) w;
       w \<leftarrow> bio_set a (\<lambda>x. x\<lparr>bio_init := 1\<rparr>) w;
       w \<leftarrow> bio_set c (\<lambda>x. x\<lparr>bio_init := 1\<rparr>) w;
       Some (1 :: int, w) } = Some (1, w') \<and> connected w' a c (empty_chan s1) (empty_chan s2) \<and>
    (\<forall>z. z \<noteq> a \<longrightarrow> z \<noteq> c \<longrightarrow> wd_bios w' z = wd_bios w z)"
proof -
  obtain x b where x: "wd_bios w a = Some x" "bio_method x = Some bio_s_bio" "bio_ptr x = PPair b"
    "wf_ring b" "ring_data b = []" "bb_size b = (if s1 = 0 then 17 * 1024 else s1)"
    using assms(1) by (auto simp: ring_end_def)
  obtain y d where y: "wd_bios w c = Some y" "bio_method y = Some bio_s_bio" "bio_ptr y = PPair d"
    "wf_ring d" "ring_data d = []" "bb_size d = (if s2 = 0 then 17 * 1024 else s2)"
    using assms(2) by (auto simp: ring_end_def)
  have ring: "wf_ring (b\<lparr>bb_peer := p\<rparr>) = wf_ring b" "ring_data (b\<lparr>bb_peer := p\<rparr>) = ring_data b" for b p
    by (simp_all add: wf_ring_def ring_data_def split: option.split)
  show ?thesis
    using x y assms(3) by (simp add: pair_heap connected_def pair_end_def chan_of_def empty_chan_def ring)
qed

lemma bio_make_pair_cases:
  assumes ok: "mallocs_ok w" and a: "wd_bios w a = Some new_pair_BIO" "wd_bios w c = Some new_pair_BIO" "a \<noteq> c"
    and s: "s1 < 2 ^ 63" "s2 < 2 ^ 63"
  shows "\<exists>r w'. bio_make_pair a c s1 s2 w = Some (r, w') \<and> (\<forall>z. z \<noteq> a \<longrightarrow> z \<noteq> c \<longrightarrow> wd_bios w' z = wd_bios w z) \<and>
    (r = 0 \<and> plain_end w' a \<and> plain_end w' c \<and> alloc_fails w \<or> r = 1 \<and> connected w' a c (empty_chan s1) (empty_chan s2))"
proof -
  have ptr: "pair_ptr z w = Some \<lparr>bb_peer = None, bb_closed = 0, bb_len = 0, bb_offset = 0, bb_size = 17 * 1024,
      bb_buf = None, bb_request = 0\<rparr>" if "wd_bios w z = Some new_pair_BIO" for z
    using that by (simp add: pair_ptr_def new_pair_BIO_def)
  obtain r1 w1 where w1: "make_ring a s1 w = Some (r1, w1)" "wd_malloc w1 = wd_malloc w"
    "\<forall>z. z \<noteq> a \<longrightarrow> wd_bios w1 z = wd_bios w z" "if r1 then ring_end w1 a s1 else plain_end w1 a \<and> alloc_fails w"
    using make_ring_cases [OF ok a(1) s(1)] by blast
  have c1: "wd_bios w1 c = Some new_pair_BIO" using w1(3) a(2,3) by auto
  have plain: "plain_end v z" if "wd_bios v z = Some new_pair_BIO" for v z
    using that by (auto simp: plain_end_def new_pair_BIO_def zero_BIO_def)
  show ?thesis
  proof (cases r1)
    case False
    then show ?thesis
      using w1 c1 a plain by (intro exI [of _ 0] exI [of _ w1]) (simp add: bio_make_pair_def ptr)
  next
    case True
    have "mallocs_ok w1" using ok w1(2) by (simp add: mallocs_ok_def)
    then obtain r2 w2 where w2: "make_ring c s2 w1 = Some (r2, w2)"
      "\<forall>z. z \<noteq> c \<longrightarrow> wd_bios w2 z = wd_bios w1 z" "if r2 then ring_end w2 c s2 else plain_end w2 c \<and> alloc_fails w1"
      using make_ring_cases [OF _ c1 s(2)] by blast
    have a2: "ring_end w2 a s1" using w1(4) True w2(2) a(3) ring_end_cong(1) [of w2 a w1] by auto
    show ?thesis
    proof (cases r2)
      case False
      then show ?thesis
        using w1 w2 True a2 ring_end_plain [OF a2] a alloc_fails_cong [OF w1(2)] by (intro exI [of _ 0] exI [of _ w2]) (simp add: bio_make_pair_def ptr)
    next
      case r2: True
      obtain w3 where w3: "do {
         w \<leftarrow> pair_set a (\<lambda>b. b\<lparr>bb_peer := Some c, bb_closed := 0, bb_request := 0\<rparr>) w2;
         w \<leftarrow> pair_set c (\<lambda>b. b\<lparr>bb_peer := Some a, bb_closed := 0, bb_request := 0\<rparr>) w;
         w \<leftarrow> bio_set a (\<lambda>x. x\<lparr>bio_init := 1\<rparr>) w;
         w \<leftarrow> bio_set c (\<lambda>x. x\<lparr>bio_init := 1\<rparr>) w;
         Some (1 :: int, w) } = Some (1, w3)" "connected w3 a c (empty_chan s1) (empty_chan s2)"
        "\<forall>z. z \<noteq> a \<longrightarrow> z \<noteq> c \<longrightarrow> wd_bios w3 z = wd_bios w2 z"
        using set_peers [OF a2 _ a(3), of s2] w2(3) r2 by (simp only: if_True) blast
      have "bio_make_pair a c s1 s2 w = Some (1, w3)"
        using w1(1) w2(1) w3(1) True r2 a by (simp add: bio_make_pair_def ptr)
      then show ?thesis using w1(3) w2(2) w3(2,3) by (intro exI [of _ 1] exI [of _ w3]) simp
    qed
  qed
qed

text \<open>Freeing an end that is not connected.\<close>

lemma BIO_free_plain:
  assumes "plain_end w a"
  shows "\<exists>w'. BIO_free bio_methods (Some a) w = Some (1, w') \<and> wd_bios w' = (wd_bios w)(a := None)"
  using assms BIO_free_unpaired by (auto simp: plain_end_def)

lemma BIO_free_null [simp]: "BIO_free T None w = Some (1, w)"
  by (simp add: BIO_free.simps [of _ None])

lemma BIO_new_bio_pair_cases:
  assumes ok: "mallocs_ok w" and fresh: "fresh_heap w" and s: "s1 < 2 ^ 63" "s2 < 2 ^ 63"
  shows "(\<exists>w'. BIO_new_bio_pair bio_methods s1 s2 w = Some (0, None, None, w') \<and> wd_bios w' = wd_bios w \<and>
      alloc_fails w) \<or>
    (\<exists>a c w'. BIO_new_bio_pair bio_methods s1 s2 w = Some (1, Some a, Some c, w') \<and>
       connected w' a c (empty_chan s1) (empty_chan s2) \<and> wd_bios w a = None \<and> wd_bios w c = None \<and>
       (\<forall>z. z \<noteq> a \<longrightarrow> z \<noteq> c \<longrightarrow> wd_bios w' z = wd_bios w z))"
proof -
  obtain w1 where w1: "BIO_new bio_methods bio_s_bio w = Some (None, w1) \<and> wd_bios w1 = wd_bios w \<and> alloc_fails w \<or>
      BIO_new bio_methods bio_s_bio w = Some (Some (wd_count w), w1) \<and>
        wd_bios w1 = (wd_bios w)(wd_count w := Some new_pair_BIO)"
      "wd_malloc w1 = wd_malloc w" "wd_count w < wd_count w1"
    using BIO_new_pair_cases [OF ok fresh] by blast
  have ok1: "mallocs_ok w1" using ok w1(2) by (simp add: mallocs_ok_def)
  have fresh1: "fresh_heap w1" using fresh w1 by (auto simp: fresh_heap_def)
  obtain w2 where w2: "BIO_new bio_methods bio_s_bio w1 = Some (None, w2) \<and> wd_bios w2 = wd_bios w1 \<and> alloc_fails w \<or>
      BIO_new bio_methods bio_s_bio w1 = Some (Some (wd_count w1), w2) \<and>
        wd_bios w2 = (wd_bios w1)(wd_count w1 := Some new_pair_BIO)"
      "wd_malloc w2 = wd_malloc w1" "wd_count w1 < wd_count w2"
    using BIO_new_pair_cases [OF ok1 fresh1] alloc_fails_cong [OF w1(2)] by auto
  let ?a = "wd_count w" and ?c = "wd_count w1"
  have none: "wd_bios w ?a = None" "wd_bios w ?c = None" using fresh w1(3) by (simp_all add: fresh_heap_def)
  have plain: "plain_end v z" if "wd_bios v z = Some new_pair_BIO" for v z
    using that by (auto simp: plain_end_def new_pair_BIO_def zero_BIO_def)
  consider "BIO_new bio_methods bio_s_bio w = Some (None, w1)" "wd_bios w1 = wd_bios w" "alloc_fails w"
      "BIO_new bio_methods bio_s_bio w1 = Some (None, w2)" "wd_bios w2 = wd_bios w"
    | "BIO_new bio_methods bio_s_bio w = Some (None, w1)" "BIO_new bio_methods bio_s_bio w1 = Some (Some ?c, w2)"
      "wd_bios w2 = (wd_bios w)(?c := Some new_pair_BIO)" "alloc_fails w"
    | "BIO_new bio_methods bio_s_bio w = Some (Some ?a, w1)" "BIO_new bio_methods bio_s_bio w1 = Some (None, w2)"
      "wd_bios w2 = (wd_bios w)(?a := Some new_pair_BIO)" "alloc_fails w"
    | "BIO_new bio_methods bio_s_bio w = Some (Some ?a, w1)" "BIO_new bio_methods bio_s_bio w1 = Some (Some ?c, w2)"
      "wd_bios w2 = (wd_bios w)(?a := Some new_pair_BIO, ?c := Some new_pair_BIO)"
    using w1(1) w2(1) by auto
  then show ?thesis
  proof cases
    case 1
    then show ?thesis by (simp add: BIO_new_bio_pair_def)
  next
    case 2
    obtain w3 where "BIO_free bio_methods (Some ?c) w2 = Some (1, w3)" "wd_bios w3 = (wd_bios w2)(?c := None)"
      using BIO_free_plain [OF plain, of w2 ?c] 2 by auto
    then show ?thesis using 2 none by (simp add: BIO_new_bio_pair_def fun_upd_idem)
  next
    case 3
    obtain w3 where "BIO_free bio_methods (Some ?a) w2 = Some (1, w3)" "wd_bios w3 = (wd_bios w2)(?a := None)"
      using BIO_free_plain [OF plain, of w2 ?a] 3 by auto
    then show ?thesis using 3 none by (simp add: BIO_new_bio_pair_def fun_upd_idem)
  next
    case 4
    have ne: "?a \<noteq> ?c" using w1(3) by simp
    have ok2: "mallocs_ok w2" using ok1 w2(2) by (simp add: mallocs_ok_def)
    have new: "wd_bios w2 ?a = Some new_pair_BIO" "wd_bios w2 ?c = Some new_pair_BIO" using 4(3) ne by simp_all
    obtain r w3 where w3: "bio_make_pair ?a ?c s1 s2 w2 = Some (r, w3)" "\<forall>z. z \<noteq> ?a \<longrightarrow> z \<noteq> ?c \<longrightarrow> wd_bios w3 z = wd_bios w2 z"
      "r = 0 \<and> plain_end w3 ?a \<and> plain_end w3 ?c \<and> alloc_fails w \<or> r = 1 \<and> connected w3 ?a ?c (empty_chan s1) (empty_chan s2)"
      using bio_make_pair_cases [OF ok2 new ne s] alloc_fails_cong [OF w2(2)] alloc_fails_cong [OF w1(2)] by auto
    from w3(3) show ?thesis
    proof (elim disjE conjE)
      assume r: "r = 0" and ends: "plain_end w3 ?a" "plain_end w3 ?c" and fails: "alloc_fails w"
      obtain w4 where w4: "BIO_free bio_methods (Some ?a) w3 = Some (1, w4)" "wd_bios w4 = (wd_bios w3)(?a := None)"
        using BIO_free_plain [OF ends(1)] by blast
      have "plain_end w4 ?c" using ends(2) ring_end_cong(2) [of w4 ?c w3] w4(2) ne by simp
      then obtain w5 where w5: "BIO_free bio_methods (Some ?c) w4 = Some (1, w5)" "wd_bios w5 = (wd_bios w4)(?c := None)"
        using BIO_free_plain by blast
      have "wd_bios w5 = wd_bios w"
        using w3(2) 4(3) none by (auto simp: w5(2) w4(2) fun_eq_iff)
      then show ?thesis using 4(1,2) w3(1) r w4(1) w5(1) fails by (simp add: BIO_new_bio_pair_def)
    next
      assume r: "r = 1" and con: "connected w3 ?a ?c (empty_chan s1) (empty_chan s2)"
      have "BIO_new_bio_pair bio_methods s1 s2 w = Some (1, Some ?a, Some ?c, w3)"
        using 4(1,2) w3(1) r by (simp add: BIO_new_bio_pair_def)
      then show ?thesis using con none w3(2) 4(3) by (intro disjI2 exI [of _ ?a] exI [of _ ?c] exI [of _ w3]) simp
    qed
  qed
qed

end
