(* ===== verification/Pipe.thy ===== *)
theory Pipe
  imports C_Prelude "HOL-Library.Sublist"
begin

text \<open>
  The contract of a byte pipe: a client puts bytes in and gets bytes out, possibly fewer than it asks for, and
  other operations happen in between. Under the contract every run of such operations succeeds, the
  bytes come out in the order they went in with none lost or made up, and under a fair schedule every byte
  that went in comes out.
\<close>

datatype 'o pipe_op = Put "u8 list" | Get nat | Other 'o

text \<open>A run from a state: the bytes accepted, the bytes delivered, and the state at the end.\<close>

fun pipe_run ::
  "(u8 list \<Rightarrow> 's \<Rightarrow> (nat \<times> 's) option) \<Rightarrow> (nat \<Rightarrow> 's \<Rightarrow> (u8 list \<times> 's) option) \<Rightarrow> ('o \<Rightarrow> 's \<Rightarrow> 's option) \<Rightarrow>
   'o pipe_op list \<Rightarrow> 's \<Rightarrow> (u8 list \<times> u8 list \<times> 's) option" where
  "pipe_run put get other [] s = Some ([], [], s)"
| "pipe_run put get other (Put bs # ops) s =
     (case put bs s of None \<Rightarrow> None
      | Some (n, s) \<Rightarrow> map_option (\<lambda>(acc, del, s). (take n bs @ acc, del, s)) (pipe_run put get other ops s))"
| "pipe_run put get other (Get n # ops) s =
     (case get n s of None \<Rightarrow> None
      | Some (out, s) \<Rightarrow> map_option (\<lambda>(acc, del, s). (acc, out @ del, s)) (pipe_run put get other ops s))"
| "pipe_run put get other (Other e # ops) s =
     (case other e s of None \<Rightarrow> None | Some s \<Rightarrow> pipe_run put get other ops s)"

lemma pipe_run_append:
  "pipe_run put get other (ops @ ops') s =
     (case pipe_run put get other ops s of None \<Rightarrow> None
      | Some (acc, del, s) \<Rightarrow>
          map_option (\<lambda>(acc', del', s). (acc @ acc', del @ del', s)) (pipe_run put get other ops' s))"
proof (induction ops arbitrary: s)
  case Nil
  then show ?case by (cases "pipe_run put get other ops' s") auto
next
  case (Cons op ops)
  then show ?case
    by (cases op) (auto split: option.splits simp: option.map_comp comp_def case_prod_unfold)
qed

text \<open>A schedule reads from the pipe again and again.\<close>

definition keeps_getting :: "(nat \<Rightarrow> 'o pipe_op) \<Rightarrow> bool" where
  "keeps_getting sched \<longleftrightarrow> (\<forall>k. \<exists>j \<ge> k. \<exists>n > 0. sched j = Get n)"

locale byte_pipe =
  fixes inv :: "'s \<Rightarrow> bool"
    and queue :: "'s \<Rightarrow> u8 list"
    and put :: "u8 list \<Rightarrow> 's \<Rightarrow> (nat \<times> 's) option"
    and get :: "nat \<Rightarrow> 's \<Rightarrow> (u8 list \<times> 's) option"
    and other :: "'o \<Rightarrow> 's \<Rightarrow> 's option"
  assumes put_law: "inv s \<Longrightarrow> \<exists>n s'. put bs s = Some (n, s') \<and> inv s' \<and> n \<le> length bs \<and> queue s' = queue s @ take n bs"
    and get_law: "inv s \<Longrightarrow> \<exists>out s'. get n s = Some (out, s') \<and> inv s' \<and> length out \<le> n \<and> queue s = out @ queue s'"
    and get_progress: "inv s \<Longrightarrow> 0 < n \<Longrightarrow> queue s \<noteq> [] \<Longrightarrow> get n s = Some (out, s') \<Longrightarrow> out \<noteq> []"
    and other_law: "inv s \<Longrightarrow> \<exists>s'. other e s = Some s' \<and> inv s' \<and> queue s' = queue s"
begin

lemma run_fifo:
  assumes "inv s"
  shows "\<exists>acc del s'. pipe_run put get other ops s = Some (acc, del, s') \<and> inv s' \<and> queue s @ acc = del @ queue s'"
  using assms
proof (induction ops arbitrary: s)
  case Nil
  then show ?case by simp
next
  case (Cons op ops)
  show ?case
  proof (cases op)
    case (Put bs)
    then show ?thesis using put_law [OF Cons.prems, of bs] Cons.IH by fastforce
  next
    case (Get n)
    then show ?thesis using get_law [OF Cons.prems, of n] Cons.IH by fastforce
  next
    case (Other e)
    then show ?thesis using other_law [OF Cons.prems, of e] Cons.IH by fastforce
  qed
qed

text \<open>The first \<open>k\<close> operations of a schedule.\<close>

abbreviation sched_run :: "(nat \<Rightarrow> 'o pipe_op) \<Rightarrow> nat \<Rightarrow> 's \<Rightarrow> (u8 list \<times> u8 list \<times> 's) option" where
  "sched_run sched k s \<equiv> pipe_run put get other (map sched [0..<k]) s"

text \<open>The output after more operations extends the output before, by at least one byte when one of them
  is a read of a nonempty pipe.\<close>

lemma sched_run_extends:
  assumes "inv s" "k \<le> k'" "sched_run sched k s = Some (acc, del, s1)"
  shows "\<exists>acc' del' s2. sched_run sched k' s = Some (acc @ acc', del @ del', s2)"
proof -
  have "map sched [0..<k'] = map sched [0..<k] @ map sched [k..<k']"
    using upt_add_eq_append [of 0 k "k' - k"] assms(2) by simp
  moreover obtain acc0 del0 s1' where "pipe_run put get other (map sched [0..<k]) s = Some (acc0, del0, s1')" "inv s1'"
    using run_fifo [OF assms(1)] by blast
  moreover obtain acc' del' s2 where "pipe_run put get other (map sched [k..<k']) s1' = Some (acc', del', s2)"
    using run_fifo [OF calculation(3)] by blast
  ultimately show ?thesis using assms(3) by (auto simp: pipe_run_append)
qed

lemma sched_run_Suc:
  "sched_run sched (Suc k) s = (case sched_run sched k s of None \<Rightarrow> None
     | Some (acc, del, s) \<Rightarrow> map_option (\<lambda>(acc', del', s). (acc @ acc', del @ del', s)) (pipe_run put get other [sched k] s))"
  by (simp add: pipe_run_append)

lemma delivered_grows:
  assumes s: "inv s" and fair: "keeps_getting sched" and m: "m \<le> length (queue s @ acc)"
    and acc: "sched_run sched k s = Some (acc, del, s1)"
  shows "\<exists>k' \<ge> k. \<exists>acc' del' s2. sched_run sched k' s = Some (acc @ acc', del', s2) \<and> m \<le> length del'"
  using m
proof (induction m)
  case 0
  then show ?case using acc by (intro exI [of _ k]) auto
next
  case (Suc m)
  then obtain k1 acc1 del1 s2 where k1: "k \<le> k1" "sched_run sched k1 s = Some (acc @ acc1, del1, s2)" "m \<le> length del1"
    by auto
  show ?case
  proof (cases "Suc m \<le> length del1")
    case True
    then show ?thesis using k1 by blast
  next
    case False
    obtain j n where j: "k1 \<le> j" "0 < n" "sched j = Get n"
      using fair unfolding keeps_getting_def by blast
    obtain acc2 del2 s3 where r: "sched_run sched j s = Some ((acc @ acc1) @ acc2, del1 @ del2, s3)"
      using sched_run_extends [OF s j(1) k1(2)] by blast
    have inv3: "inv s3" and q: "queue s @ acc @ acc1 @ acc2 = (del1 @ del2) @ queue s3"
      using run_fifo [OF s, of "map sched [0..<j]"] r by auto
    obtain out s4 where g: "get n s3 = Some (out, s4)" using get_law [OF inv3] by blast
    have run: "sched_run sched (Suc j) s = Some (acc @ acc1 @ acc2, del1 @ del2 @ out, s4)"
      using r j(3) g by (simp only: sched_run_Suc) simp
    have "Suc m \<le> length (del1 @ del2 @ out)"
    proof (cases "queue s3 = []")
      case True
      then have "length (del1 @ del2) = length (queue s @ acc @ acc1 @ acc2)" using q by simp
      then show ?thesis using Suc.prems by simp
    next
      case False
      then have "out \<noteq> []" using get_progress [OF inv3 j(2) _ g] by blast
      then have "0 < length out" by simp
      then show ?thesis using k1(3) unfolding length_append by linarith
    qed
    then show ?thesis using run k1(1) j(1) by (intro exI [of _ "Suc j"]) auto
  qed
qed

lemma eventually_delivered:
  assumes s: "inv s" and fair: "keeps_getting sched"
  shows "\<exists>acc del s1. sched_run sched k s = Some (acc, del, s1) \<and>
    (\<exists>k' \<ge> k. \<exists>acc' del' s2. sched_run sched k' s = Some (acc', del', s2) \<and> prefix (queue s @ acc) del')"
proof -
  obtain acc del s1 where r: "sched_run sched k s = Some (acc, del, s1)"
    using run_fifo [OF s] by blast
  obtain k' acc' del' s2 where k': "k \<le> k'" "sched_run sched k' s = Some (acc @ acc', del', s2)"
    "length (queue s @ acc) \<le> length del'"
    using delivered_grows [OF s fair order.refl r] by blast
  have "(queue s @ acc) @ acc' = del' @ queue s2"
    using run_fifo [OF s, of "map sched [0..<k']"] k'(2) by auto
  then have "prefix (queue s @ acc) del'"
    using k'(3) by (metis prefixI prefix_length_prefix)
  then show ?thesis using r k' by blast
qed

end

end
