(* ===== verification/Bio_Fifo.thy ===== *)
theory Bio_Fifo
  imports Bio_Duplex Pipe
begin

text \<open>
  The guarantees of a \<open>BIO\<close> pair: its ends refine two abstract channels, each direction is a byte pipe in
  the sense of \<open>Pipe\<close>, so that bytes come out in order and, if the reader keeps reading, all of them do.
\<close>

subsection \<open>Requests stay within the capacity\<close>

definition chan_ok :: "chan \<Rightarrow> bool" where
  "chan_ok ch \<longleftrightarrow> ch_request ch \<le> ch_size ch \<and> length (ch_data ch) \<le> ch_size ch"

lemma chan_read_ok: "chan_ok ch \<Longrightarrow> chan_read n ch = (ret, bs, ch') \<Longrightarrow> chan_ok ch'"
  by (auto simp: chan_ok_def chan_read_def Let_def split: if_splits)

lemma chan_write_ok: "chan_ok ch \<Longrightarrow> chan_write bs ch = (ret, ch') \<Longrightarrow> chan_ok ch'"
  by (auto simp: chan_ok_def chan_write_def Let_def split: if_splits)

lemma chan_ctrl_ok: "chan_ok p \<Longrightarrow> chan_ok (snd (chan_ctrl cmd p q))"
  by (auto simp: chan_ok_def chan_ctrl_def)

lemma chan_ctrl_data: "ch_data (snd (chan_ctrl cmd p q)) = ch_data p"
  by (auto simp: chan_ctrl_def)

lemma chan_write_data:
  "chan_write bs ch = (ret, ch') \<Longrightarrow> chan_ok ch \<Longrightarrow>
     nat ret \<le> length bs \<and> ch_data ch' = ch_data ch @ take (nat ret) bs"
  by (auto simp: chan_ok_def chan_write_def Let_def split: if_splits)

lemma chan_read_data:
  "chan_read n ch = (ret, bs, ch') \<Longrightarrow>
     ch_data ch = bs @ ch_data ch' \<and> length bs \<le> n \<and> nat ret = length bs \<and> (0 < n \<longrightarrow> ch_data ch \<noteq> [] \<longrightarrow> bs \<noteq> [])"
  by (auto simp: chan_read_def Let_def min_def split: if_splits)

text \<open>C23: the two ends of a connected pair implement two channels. A read at one end, a write at the other, and a
  control call return exactly what the abstract operation on the channels returns, with no failed assertion
  and no access outside the ring or the caller's buffer, and leave the ends connected by the
  channels after that operation: the wrap-around of the ring buffer, the closing of the write side, the
  retry results and the recorded read request are those of the abstract channel.\<close>

theorem bio_pair_refines:
  assumes "connected w a c p q" "chan_ok p"
  shows "(\<forall>buf n. 0 < n \<longrightarrow> n \<le> length buf \<longrightarrow> int n \<le> INT_MAX \<longrightarrow>
      (\<exists>w'. BIO_read bio_methods (Some c) (Some buf) (int n) w
          = (case chan_read n p of (ret, bs, p') \<Rightarrow> Some (ret, Some (bs @ drop (length bs) buf), w')) \<and>
        connected w' a c (snd (snd (chan_read n p))) q)) \<and>
    (\<forall>data n. 0 < n \<longrightarrow> n \<le> length data \<longrightarrow> int n \<le> INT_MAX \<longrightarrow>
      (\<exists>w'. BIO_write bio_methods (Some a) (Some data) (int n) w = Some (fst (chan_write (take n data) p), w') \<and>
        connected w' a c (snd (chan_write (take n data) p)) q)) \<and>
    (\<forall>cmd num. \<exists>r w'. BIO_ctrl bio_methods (Some a) cmd num CNull w = Some (r, CNull, w') \<and>
        (cmd \<noteq> BIO_CTRL_GET_CLOSE \<longrightarrow> r = fst (chan_ctrl cmd p q)) \<and>
        connected w' a c (snd (chan_ctrl cmd p q)) q)"
proof (intro conjI allI impI)
  fix buf :: "u8 list" and n :: nat
  assume n: "0 < n" "n \<le> length buf" "int n \<le> INT_MAX"
  obtain ret bs p' where op: "chan_read n p = (ret, bs, p')" by (rule prod_cases3)
  show "\<exists>w'. BIO_read bio_methods (Some c) (Some buf) (int n) w
          = (case chan_read n p of (ret, bs, p') \<Rightarrow> Some (ret, Some (bs @ drop (length bs) buf), w')) \<and>
        connected w' a c (snd (snd (chan_read n p))) q"
    using BIO_read_connected [OF assms(1), of "int n" buf ret bs p'] n op by simp
next
  fix data :: "u8 list" and n :: nat
  assume n: "0 < n" "n \<le> length data" "int n \<le> INT_MAX"
  show "\<exists>w'. BIO_write bio_methods (Some a) (Some data) (int n) w = Some (fst (chan_write (take n data) p), w') \<and>
        connected w' a c (snd (chan_write (take n data) p)) q"
    using BIO_write_connected [OF assms(1), of "int n" data] n by simp
next
  fix cmd num
  show "\<exists>r w'. BIO_ctrl bio_methods (Some a) cmd num CNull w = Some (r, CNull, w') \<and>
        (cmd \<noteq> BIO_CTRL_GET_CLOSE \<longrightarrow> r = fst (chan_ctrl cmd p q)) \<and>
        connected w' a c (snd (chan_ctrl cmd p q)) q"
    using BIO_ctrl_connected [OF assms(1), of cmd num] assms(2) by (auto simp: chan_ok_def)
qed

subsection \<open>One direction of a pair as a byte pipe\<close>

text \<open>A client's put and get, by one call each of \<open>BIO_write\<close> and \<open>BIO_read\<close>; what happens in between: traffic in
  the other direction, and control calls at either end.\<close>

definition pair_put :: "nat \<Rightarrow> u8 list \<Rightarrow> world \<Rightarrow> (nat \<times> world) option" where
  "pair_put a bs w = do {
     (ret, w) \<leftarrow> BIO_write bio_methods (Some a) (Some bs) (min (int (length bs)) INT_MAX) w;
     Some (nat ret, w) }"

definition pair_get :: "nat \<Rightarrow> nat \<Rightarrow> world \<Rightarrow> (u8 list \<times> world) option" where
  "pair_get c n w = do {
     (ret, buf, w) \<leftarrow> BIO_read bio_methods (Some c) (Some (replicate n 0)) (min (int n) INT_MAX) w;
     bytes \<leftarrow> buf;
     Some (take (nat ret) bytes, w) }"

datatype pair_event = Reverse_put "u8 list" | Reverse_get nat | Writer_ctrl int int | Reader_ctrl int int

fun pair_other :: "nat \<Rightarrow> nat \<Rightarrow> pair_event \<Rightarrow> world \<Rightarrow> world option" where
  "pair_other a c (Reverse_put bs) w = map_option snd (pair_put c bs w)"
| "pair_other a c (Reverse_get n) w = map_option snd (pair_get a n w)"
| "pair_other a c (Writer_ctrl cmd num) w = map_option (snd \<circ> snd) (BIO_ctrl bio_methods (Some a) cmd num CNull w)"
| "pair_other a c (Reader_ctrl cmd num) w = map_option (snd \<circ> snd) (BIO_ctrl bio_methods (Some c) cmd num CNull w)"

definition pair_inv :: "nat \<Rightarrow> nat \<Rightarrow> world \<Rightarrow> bool" where
  "pair_inv a c w \<longleftrightarrow> (\<exists>p q. connected w a c p q \<and> chan_ok p \<and> chan_ok q)"

definition pair_queue :: "nat \<Rightarrow> world \<Rightarrow> u8 list" where
  "pair_queue a w = (case pair_ptr a w of None \<Rightarrow> [] | Some b \<Rightarrow> ring_data b)"

lemma pair_queue_connected: "connected w a c p q \<Longrightarrow> pair_queue a w = ch_data p"
  by (auto simp: pair_queue_def pair_ptr_def chan_of_def elim!: connectedE)

lemma connected_init:
  assumes "connected w a c p q"
  shows "BIO_write bio_methods (Some a) (Some []) 0 w = Some (0, w)" "BIO_read bio_methods (Some a) (Some buf) 0 w = Some (0, Some buf, w)"
  using assms by (auto simp: BIO_write_def BIO_read_def elim!: connectedE)

lemma pair_put_connected:
  assumes "connected w a c p q" "chan_ok p"
  shows "\<exists>n w' p'. pair_put a bs w = Some (n, w') \<and> connected w' a c p' q \<and> chan_ok p' \<and> n \<le> length bs \<and>
    ch_data p' = ch_data p @ take n bs"
proof (cases "bs = []")
  case True
  then show ?thesis using assms connected_init(1) [OF assms(1)] by (auto simp: pair_put_def INT_MAX_def)
next
  case False
  obtain len where len: "len = min (int (length bs)) INT_MAX" by blast
  have l: "0 < len" "len \<le> INT_MAX" "nat len \<le> length bs" using False by (auto simp: len INT_MAX_def)
  obtain ret p' where op: "chan_write (take (nat len) bs) p = (ret, p')" by (cases "chan_write (take (nat len) bs) p")
  obtain w' where "BIO_write bio_methods (Some a) (Some bs) len w = Some (ret, w')" "connected w' a c p' q"
    using BIO_write_connected [OF assms(1) l op] by blast
  moreover have r: "nat ret \<le> nat len" "ch_data p' = ch_data p @ take (nat ret) (take (nat len) bs)"
    using chan_write_data [OF op assms(2)] l(3) by simp_all
  moreover have "take (nat ret) (take (nat len) bs) = take (nat ret) bs" using r(1) by (simp add: min_def)
  ultimately show ?thesis
    using chan_write_ok [OF assms(2) op] l(3)
    by (intro exI [of _ "nat ret"] exI [of _ w'] exI [of _ p']) (simp add: pair_put_def len [symmetric])
qed

lemma pair_get_connected:
  assumes "connected w a c p q" "chan_ok p"
  shows "\<exists>out w' p'. pair_get c n w = Some (out, w') \<and> connected w' a c p' q \<and> chan_ok p' \<and> length out \<le> n \<and>
    ch_data p = out @ ch_data p' \<and> (0 < n \<longrightarrow> ch_data p \<noteq> [] \<longrightarrow> out \<noteq> [])"
proof (cases "n = 0")
  case True
  have "connected w c a q p" using assms(1) by (rule connected_sym [THEN iffD1])
  then have "pair_get c n w = Some ([], w)"
    using True connected_init(2) [of w c a q p "[]"] by (simp add: pair_get_def INT_MAX_def)
  then show ?thesis using True assms by (intro exI [of _ "[]"] exI [of _ w] exI [of _ p]) simp
next
  case False
  obtain len where len: "len = min (int n) INT_MAX" by blast
  have l: "0 < len" "len \<le> INT_MAX" "nat len \<le> length (replicate n (0 :: u8))" "nat len \<le> n"
    using False by (auto simp: len INT_MAX_def)
  obtain ret bs p' where op: "chan_read (nat len) p = (ret, bs, p')" by (rule prod_cases3)
  obtain w' where "BIO_read bio_methods (Some c) (Some (replicate n 0)) len w
      = Some (ret, Some (bs @ drop (length bs) (replicate n 0)), w')" "connected w' a c p' q"
    using BIO_read_connected [OF assms(1) l(1-3) op] by blast
  note read = this
  have data: "ch_data p = bs @ ch_data p'" "length bs \<le> nat len" "nat ret = length bs"
    "0 < nat len \<longrightarrow> ch_data p \<noteq> [] \<longrightarrow> bs \<noteq> []"
    using chan_read_data [OF op] by blast+
  have "0 < nat len" using l(1) by simp
  then have prog: "ch_data p \<noteq> [] \<longrightarrow> bs \<noteq> []" using data(4) by blast
  have "take (nat ret) (bs @ drop (length bs) (replicate n 0)) = bs" by (simp add: data(3))
  then have "pair_get c n w = Some (bs, w')" by (simp add: pair_get_def len [symmetric] read(1))
  moreover have "length bs \<le> n" using data(2) l(4) by linarith
  ultimately show ?thesis
    using chan_read_ok [OF assms(2) op] read(2) data(1) prog by blast
qed

lemma pair_ctrl_connected:
  assumes "connected w a c p q" "chan_ok p"
  shows "\<exists>r w' p'. BIO_ctrl bio_methods (Some a) cmd num CNull w = Some (r, CNull, w') \<and> connected w' a c p' q \<and>
    chan_ok p' \<and> ch_data p' = ch_data p"
  using BIO_ctrl_connected [OF assms(1), of cmd num] assms(2) chan_ctrl_ok [OF assms(2), of cmd q] chan_ctrl_data [of cmd p q]
  unfolding chan_ok_def by blast

lemma pair_other_inv:
  assumes "pair_inv a c w"
  shows "\<exists>w'. pair_other a c e w = Some w' \<and> pair_inv a c w' \<and> pair_queue a w' = pair_queue a w"
proof -
  obtain p q where con: "connected w a c p q" "chan_ok p" "chan_ok q" using assms by (auto simp: pair_inv_def)
  have rev: "connected w c a q p" using con(1) by (rule connected_sym [THEN iffD1])
  have keeps: "pair_inv a c w' \<and> pair_queue a w' = pair_queue a w"
    if "connected w' a c p' q'" "chan_ok p'" "chan_ok q'" "ch_data p' = ch_data p" for w' p' q'
    using that con(1) by (auto simp: pair_inv_def pair_queue_connected)
  show ?thesis
  proof (cases e)
    case (Reverse_put bs)
    obtain n w' q' where r: "pair_put c bs w = Some (n, w')" "connected w' c a q' p" "chan_ok q'"
      using pair_put_connected [OF rev con(3), of bs] by blast
    show ?thesis
      using keeps [OF connected_sym [THEN iffD1, OF r(2)] con(2) r(3) refl] r(1) Reverse_put by simp
  next
    case (Reverse_get n)
    obtain out w' q' where r: "pair_get a n w = Some (out, w')" "connected w' c a q' p" "chan_ok q'"
      using pair_get_connected [OF rev con(3), of n] by blast
    show ?thesis
      using keeps [OF connected_sym [THEN iffD1, OF r(2)] con(2) r(3) refl] r(1) Reverse_get by simp
  next
    case (Writer_ctrl cmd num)
    obtain r w' p' where r: "BIO_ctrl bio_methods (Some a) cmd num CNull w = Some (r, CNull, w')" "connected w' a c p' q"
      "chan_ok p'" "ch_data p' = ch_data p"
      using pair_ctrl_connected [OF con(1,2), of cmd num] by blast
    show ?thesis using keeps [OF r(2,3) con(3) r(4)] r(1) Writer_ctrl by simp
  next
    case (Reader_ctrl cmd num)
    obtain r w' q' where r: "BIO_ctrl bio_methods (Some c) cmd num CNull w = Some (r, CNull, w')" "connected w' c a q' p"
      "chan_ok q'"
      using pair_ctrl_connected [OF rev con(3), of cmd num] by blast
    show ?thesis
      using keeps [OF connected_sym [THEN iffD1, OF r(2)] con(2) r(3) refl] r(1) Reader_ctrl by simp
  qed
qed

interpretation pair: byte_pipe "pair_inv a c" "pair_queue a" "pair_put a" "pair_get c" "pair_other a c" for a c
proof
  fix w bs
  assume "pair_inv a c w"
  then obtain p q where con: "connected w a c p q" "chan_ok p" "chan_ok q" by (auto simp: pair_inv_def)
  obtain n w' p' where r: "pair_put a bs w = Some (n, w')" "connected w' a c p' q" "chan_ok p'" "n \<le> length bs"
    "ch_data p' = ch_data p @ take n bs"
    using pair_put_connected [OF con(1,2), of bs] by blast
  then show "\<exists>n w'. pair_put a bs w = Some (n, w') \<and> pair_inv a c w' \<and> n \<le> length bs \<and>
      pair_queue a w' = pair_queue a w @ take n bs"
    using con(3) pair_queue_connected [OF con(1)] pair_queue_connected [OF r(2)] by (auto simp: pair_inv_def)
next
  fix w n
  assume "pair_inv a c w"
  then obtain p q where con: "connected w a c p q" "chan_ok p" "chan_ok q" by (auto simp: pair_inv_def)
  obtain out w' p' where r: "pair_get c n w = Some (out, w')" "connected w' a c p' q" "chan_ok p'" "length out \<le> n"
    "ch_data p = out @ ch_data p'"
    using pair_get_connected [OF con(1,2), of n] by blast
  then show "\<exists>out w'. pair_get c n w = Some (out, w') \<and> pair_inv a c w' \<and> length out \<le> n \<and>
      pair_queue a w = out @ pair_queue a w'"
    using con(3) pair_queue_connected [OF con(1)] pair_queue_connected [OF r(2)] by (auto simp: pair_inv_def)
next
  fix w n out w'
  assume inv: "pair_inv a c w" and n: "0 < n" "pair_queue a w \<noteq> []" and g: "pair_get c n w = Some (out, w')"
  obtain p q where con: "connected w a c p q" "chan_ok p" "chan_ok q" using inv by (auto simp: pair_inv_def)
  show "out \<noteq> []"
    using pair_get_connected [OF con(1,2), of n] g n pair_queue_connected [OF con(1)] by auto
next
  fix e w
  assume "pair_inv a c w"
  then show "\<exists>w'. pair_other a c e w = Some w' \<and> pair_inv a c w' \<and> pair_queue a w' = pair_queue a w"
    by (rule pair_other_inv)
qed

text \<open>C3: a pair delivers every byte in order. \<open>BIO_new_bio_pair\<close> on a heap whose coming addresses are
  free either fails, every \<open>BIO\<close> it had made released and only if an allocation can fail, or returns a pair of fresh \<open>BIO\<close>s. Whatever calls the
  owners of the two ends then make, in any order and with any sizes, each one returns with no failed assertion and
  no access outside a buffer, and in each direction what has been delivered is a prefix of what has
  been accepted, the rest being in the ring buffer, never more than its size.\<close>

theorem bio_pair_fifo:
  assumes "mallocs_ok w" "fresh_heap w" "s1 < 2 ^ 63" "s2 < 2 ^ 63"
  shows "(\<exists>w'. BIO_new_bio_pair bio_methods s1 s2 w = Some (0, None, None, w') \<and> wd_bios w' = wd_bios w \<and>
      alloc_fails w) \<or>
    (\<exists>a c w'. BIO_new_bio_pair bio_methods s1 s2 w = Some (1, Some a, Some c, w') \<and>
       wd_bios w a = None \<and> wd_bios w c = None \<and> (\<forall>z. z \<noteq> a \<longrightarrow> z \<noteq> c \<longrightarrow> wd_bios w' z = wd_bios w z) \<and>
       (\<forall>ops. \<exists>acc del v. pipe_run (pair_put a) (pair_get c) (pair_other a c) ops w' = Some (acc, del, v) \<and>
          acc = del @ pair_queue a v) \<and>
       (\<forall>ops. \<exists>acc del v. pipe_run (pair_put c) (pair_get a) (pair_other c a) ops w' = Some (acc, del, v) \<and>
          acc = del @ pair_queue c v))"
proof -
  have run: "\<exists>acc del v. pipe_run (pair_put a) (pair_get c) (pair_other a c) ops w' = Some (acc, del, v) \<and>
      acc = del @ pair_queue a v" if "connected w' a c (empty_chan s) (empty_chan t)" for a c w' s t ops
  proof -
    have "chan_ok (empty_chan s)" for s by (simp add: chan_ok_def empty_chan_def)
    then have "pair_inv a c w'" using that by (auto simp: pair_inv_def)
    moreover have "pair_queue a w' = []" using pair_queue_connected [OF that] by (simp add: empty_chan_def)
    ultimately show ?thesis using pair.run_fifo [of a c w' ops] by auto
  qed
  show ?thesis
    using BIO_new_bio_pair_cases [OF assms] run connected_sym by metis
qed

text \<open>C24: if the reader of a connected pair keeps calling \<open>BIO_read\<close>, in any interleaving with the writer, with
  traffic the other way and with control calls, every byte that \<open>BIO_write\<close> has accepted by some point is delivered by
  some later point: no byte is stuck in the ring.\<close>

theorem bio_pair_liveness:
  assumes "connected w a c p q" "chan_ok p" "chan_ok q" "keeps_getting sched"
  shows "\<exists>acc del v. pipe_run (pair_put a) (pair_get c) (pair_other a c) (map sched [0..<k]) w = Some (acc, del, v) \<and>
    (\<exists>k' \<ge> k. \<exists>acc' del' v'. pipe_run (pair_put a) (pair_get c) (pair_other a c) (map sched [0..<k']) w
        = Some (acc', del', v') \<and> prefix (ch_data p @ acc) del')"
proof -
  have "pair_inv a c w" using assms(1-3) by (auto simp: pair_inv_def)
  then show ?thesis
    using pair.eventually_delivered [of a c w sched k] assms(4) by (simp add: pair_queue_connected [OF assms(1)])
qed

subsection \<open>Examples\<close>

definition demo_world :: world where
  "demo_world = \<lparr>wd_bios = (\<lambda>_. None), wd_bufs = (\<lambda>_. None), wd_malloc = (\<lambda>_ n. Some (replicate n 7)),
     wd_count = 0, wd_errors = []\<rparr>"

lemma demo_world_ok: "mallocs_ok demo_world" "fresh_heap demo_world"
  by (simp_all add: demo_world_def mallocs_ok_def malloc_ok_def fresh_heap_def)

lemma demo_world_memory: "\<not> alloc_fails demo_world"
  by (simp add: demo_world_def alloc_fails_def)

lemma demo_connected: "\<exists>a c w. connected w a c (empty_chan 4) (empty_chan 5)"
  using BIO_new_bio_pair_cases [OF demo_world_ok, of 4 5] demo_world_memory by auto

lemma demo_chan_ok: "chan_ok (empty_chan n)"
  by (simp add: chan_ok_def empty_chan_def)

theorem bio_pair_refines_witness:
  "\<exists>a c w w'. BIO_write bio_methods (Some a) (Some [1, 2, 3, 4, 5, 6]) 6 w = Some (4, w') \<and>
     connected w' a c \<lparr>ch_data = [1, 2, 3, 4], ch_closed = False, ch_size = 4, ch_request = 0\<rparr> (empty_chan 5)"
proof -
  obtain a c w where con: "connected w a c (empty_chan 4) (empty_chan 5)" using demo_connected by blast
  have op: "chan_write (take 6 [1, 2, 3, 4, 5, 6]) (empty_chan 4) = (4, \<lparr>ch_data = [1, 2, 3, 4], ch_closed = False, ch_size = 4, ch_request = 0\<rparr>)"
    by (simp add: chan_write_def empty_chan_def)
  show ?thesis
    using bio_pair_refines [OF con demo_chan_ok, THEN conjunct2, THEN conjunct1, rule_format, of 6 "[1, 2, 3, 4, 5, 6]"]
    unfolding op by (auto simp: INT_MAX_def)
qed

theorem bio_pair_fifo_witness:
  "\<exists>a c w. BIO_new_bio_pair bio_methods 4 5 demo_world = Some (1, Some a, Some c, w) \<and>
     (\<exists>acc del v. pipe_run (pair_put a) (pair_get c) (pair_other a c) [Put [1, 2, 3, 4, 5, 6], Get 3, Put [7, 8]] w
        = Some (acc, del, v) \<and> acc = del @ pair_queue a v)"
  using bio_pair_fifo [OF demo_world_ok, of 4 5] demo_world_memory by (simp del: pipe_run.simps) blast

theorem bio_pair_liveness_witness:
  "\<exists>a c w. \<exists>acc del v. pipe_run (pair_put a) (pair_get c) (pair_other a c)
        (map (\<lambda>i. if even i then Put [1, 2] else Get 1) [0..<3]) w = Some (acc, del, v) \<and>
    (\<exists>k' \<ge> 3. \<exists>acc' del' v'. pipe_run (pair_put a) (pair_get c) (pair_other a c)
        (map (\<lambda>i. if even i then Put [1, 2] else Get 1) [0..<k']) w = Some (acc', del', v') \<and> prefix acc del')"
proof -
  obtain a c w where con: "connected w a c (empty_chan 4) (empty_chan 5)" using demo_connected by blast
  have "keeps_getting (\<lambda>i. if even i then Put [1, 2] else Get 1 :: pair_event pipe_op)"
    unfolding keeps_getting_def
  proof
    fix k :: nat
    show "\<exists>j \<ge> k. \<exists>n > 0. (if even j then Put [1, 2] else Get 1) = (Get n :: pair_event pipe_op)"
      by (rule exI [of _ "Suc (2 * k)"]) simp
  qed
  from bio_pair_liveness [OF con demo_chan_ok demo_chan_ok this, of 3]
  show ?thesis by (intro exI [of _ a] exI [of _ c] exI [of _ w]) (simp only: empty_chan_def chan.select_convs append_Nil)
qed

end
