(* ===== verification/Lhash.thy ===== *)
theory Lhash
  imports Mem "HOL-Library.Monad_Syntax" "HOL-Library.Multiset"
begin

text \<open>
  The hash table of BoringSSL (\<open>crypto/lhash/lhash.c\<close>): chained buckets, grown and shrunk by the average
  length of the chains, over a hash and a comparison function that the creator of the table supplies.
\<close>

subsection \<open>Operations\<close>

text \<open>A chain is the list of its items, in the order of the \<open>next\<close> pointers; items belong to one chain only.\<close>

record 'a lhash_item =
  it_data :: 'a
  it_hash :: u32

record 'a lhash =
  num_items :: nat
  buckets :: "'a lhash_item list list"
  num_buckets :: nat
  callback_depth :: u32
  lh_comp :: "'a \<Rightarrow> 'a \<Rightarrow> int"
  lh_hash :: "'a \<Rightarrow> u32"

definition kMinNumBuckets :: nat where "kMinNumBuckets = 16"
definition kMaxAverageChainLength :: nat where "kMaxAverageChainLength = 2"
definition kMinAverageChainLength :: nat where "kMinAverageChainLength = 1"

lemmas lhash_limits = kMinNumBuckets_def kMaxAverageChainLength_def kMinAverageChainLength_def

definition sizeof_pointer :: nat where "sizeof_pointer = 8"
definition sizeof_LHASH :: nat where "sizeof_LHASH = 48"
definition sizeof_LHASH_ITEM :: nat where "sizeof_LHASH_ITEM = 24"

text \<open>The successive allocations of a call are served by \<open>malloc 0\<close> and \<open>malloc 1\<close>.\<close>

definition lh_new :: "(nat \<Rightarrow> allocator) \<Rightarrow> ('a \<Rightarrow> u32) \<Rightarrow> ('a \<Rightarrow> 'a \<Rightarrow> int) \<Rightarrow> 'a lhash option" where
  "lh_new malloc hash cmp =
     (if OPENSSL_malloc (malloc 0) sizeof_LHASH = None then None
      else if OPENSSL_malloc (malloc 1) (sizeof_pointer * kMinNumBuckets) = None then None
      else Some \<lparr>num_items = 0, buckets = replicate kMinNumBuckets [], num_buckets = kMinNumBuckets,
             callback_depth = 0, lh_comp = cmp, lh_hash = hash\<rparr>)"

text \<open>Releasing a table: the items given back to the allocator, in order; the elements stay with their owner.\<close>

definition lh_free :: "'a lhash option \<Rightarrow> 'a lhash_item list" where
  "lh_free lh = (case lh of None \<Rightarrow> [] | Some lh \<Rightarrow> concat (take (num_buckets lh) (buckets lh)))"

definition lh_num_items :: "'a lhash \<Rightarrow> nat" where
  "lh_num_items lh = num_items lh"

text \<open>The pointer the C code returns is the place in a chain: the index of the first item that satisfies
  the test, or the length of the chain for the null pointer at its end.\<close>

fun chain_pos :: "('a \<Rightarrow> bool) \<Rightarrow> 'a lhash_item list \<Rightarrow> nat" where
  "chain_pos p [] = 0"
| "chain_pos p (cur # ret) = (if p (it_data cur) then 0 else Suc (chain_pos p ret))"

definition bucket_of :: "'a lhash \<Rightarrow> u32 \<Rightarrow> nat" where
  "bucket_of lh hash = unat hash mod num_buckets lh"

text \<open>The hash, the bucket and the place in its chain; \<open>None\<close> when there is no such bucket.\<close>

definition get_next_ptr_and_hash :: "'a lhash \<Rightarrow> 'a \<Rightarrow> (u32 \<times> nat \<times> nat) option" where
  "get_next_ptr_and_hash lh data =
     (let hash = lh_hash lh data; b = bucket_of lh hash in
      if num_buckets lh \<noteq> 0 \<and> b < length (buckets lh)
      then Some (hash, b, chain_pos (\<lambda>cur. lh_comp lh cur data = 0) (buckets lh ! b)) else None)"

definition get_next_ptr_by_key :: "'a lhash \<Rightarrow> 'k \<Rightarrow> u32 \<Rightarrow> ('k \<Rightarrow> 'a \<Rightarrow> int) \<Rightarrow> (nat \<times> nat) option" where
  "get_next_ptr_by_key lh key key_hash cmp_key =
     (let b = bucket_of lh key_hash in
      if num_buckets lh \<noteq> 0 \<and> b < length (buckets lh)
      then Some (b, chain_pos (\<lambda>cur. cmp_key key cur = 0) (buckets lh ! b)) else None)"

definition chain_data :: "'a lhash_item list \<Rightarrow> nat \<Rightarrow> 'a option" where
  "chain_data chain i = (if i < length chain then Some (it_data (chain ! i)) else None)"

definition lh_retrieve :: "'a lhash \<Rightarrow> 'a \<Rightarrow> 'a option option" where
  "lh_retrieve lh data = do {
     (_, b, i) \<leftarrow> get_next_ptr_and_hash lh data;
     Some (chain_data (buckets lh ! b) i) }"

definition lh_retrieve_key :: "'a lhash \<Rightarrow> 'k \<Rightarrow> u32 \<Rightarrow> ('k \<Rightarrow> 'a \<Rightarrow> int) \<Rightarrow> 'a option option" where
  "lh_retrieve_key lh key key_hash cmp_key = do {
     (b, i) \<leftarrow> get_next_ptr_by_key lh key key_hash cmp_key;
     Some (chain_data (buckets lh ! b) i) }"

text \<open>The loops of \<open>lh_rebucket\<close>: each item goes to the front of its new chain.\<close>

definition push_item :: "nat \<Rightarrow> 'a lhash_item list list \<Rightarrow> 'a lhash_item \<Rightarrow> 'a lhash_item list list" where
  "push_item n new_buckets cur =
     (let b = unat (it_hash cur) mod n in new_buckets[b := cur # new_buckets ! b])"

definition redistribute :: "nat \<Rightarrow> 'a lhash_item list list \<Rightarrow> 'a lhash_item list list" where
  "redistribute n old = foldl (foldl (push_item n)) (replicate n []) old"

definition lh_rebucket :: "allocator \<Rightarrow> 'a lhash \<Rightarrow> nat \<Rightarrow> 'a lhash" where
  "lh_rebucket malloc lh new_num_buckets =
     (let alloc_size = size_mul sizeof_pointer new_num_buckets in
      if alloc_size div sizeof_pointer \<noteq> new_num_buckets then lh
      else if OPENSSL_malloc malloc alloc_size = None then lh
      else lh\<lparr>num_buckets := new_num_buckets,
             buckets := redistribute new_num_buckets (take (num_buckets lh) (buckets lh))\<rparr>)"

text \<open>\<open>None\<close> is the failed assertion.\<close>

definition lh_maybe_resize :: "allocator \<Rightarrow> 'a lhash \<Rightarrow> 'a lhash option" where
  "lh_maybe_resize malloc lh =
     (if callback_depth lh > 0 then Some lh
      else if \<not> num_buckets lh \<ge> kMinNumBuckets then None
      else let avg_chain_length = num_items lh div num_buckets lh in
        if avg_chain_length > kMaxAverageChainLength then
          let new_num_buckets = size_mul (num_buckets lh) 2 in
          if new_num_buckets > num_buckets lh then Some (lh_rebucket malloc lh new_num_buckets) else Some lh
        else if avg_chain_length < kMinAverageChainLength \<and> num_buckets lh > kMinNumBuckets then
          let new_num_buckets = num_buckets lh div 2;
              new_num_buckets = (if new_num_buckets < kMinNumBuckets then kMinNumBuckets else new_num_buckets)
          in Some (lh_rebucket malloc lh new_num_buckets)
        else Some lh)"

text \<open>(success, the element replaced, the table)\<close>

definition lh_insert :: "(nat \<Rightarrow> allocator) \<Rightarrow> 'a lhash \<Rightarrow> 'a \<Rightarrow> (bool \<times> 'a option \<times> 'a lhash) option" where
  "lh_insert malloc lh data = do {
     (hash, b, i) \<leftarrow> get_next_ptr_and_hash lh data;
     let chain = buckets lh ! b;
     if i < length chain then
       Some (True, Some (it_data (chain ! i)),
             lh\<lparr>buckets := (buckets lh)[b := chain[i := (chain ! i)\<lparr>it_data := data\<rparr>]]\<rparr>)
     else if OPENSSL_malloc (malloc 0) sizeof_LHASH_ITEM = None then Some (False, None, lh)
     else do {
       lh \<leftarrow> lh_maybe_resize (malloc 1)
              (lh\<lparr>buckets := (buckets lh)[b := chain @ [\<lparr>it_data = data, it_hash = hash\<rparr>]],
                  num_items := size_add (num_items lh) 1\<rparr>);
       Some (True, None, lh) } }"

definition lh_delete :: "(nat \<Rightarrow> allocator) \<Rightarrow> 'a lhash \<Rightarrow> 'a \<Rightarrow> ('a option \<times> 'a lhash) option" where
  "lh_delete malloc lh data = do {
     (_, b, i) \<leftarrow> get_next_ptr_and_hash lh data;
     let chain = buckets lh ! b;
     if \<not> i < length chain then Some (None, lh)
     else do {
       lh' \<leftarrow> lh_maybe_resize (malloc 0)
               (lh\<lparr>buckets := (buckets lh)[b := take i chain @ drop (Suc i) chain],
                   num_items := nat ((int (num_items lh) - 1) mod int SIZE_LIMIT)\<rparr>);
       Some (Some (it_data (chain ! i)), lh') } }"

text \<open>\<open>lh_doall_arg\<close> with a callback that changes its argument and not the table.\<close>

definition lh_doall_arg :: "allocator \<Rightarrow> 'a lhash option \<Rightarrow> ('a \<Rightarrow> 's \<Rightarrow> 's) \<Rightarrow> 's \<Rightarrow> ('s \<times> 'a lhash option) option" where
  "lh_doall_arg malloc lh func arg =
     (case lh of
        None \<Rightarrow> Some (arg, None)
      | Some lh \<Rightarrow>
          (let lh = (if callback_depth lh < -1 then lh\<lparr>callback_depth := callback_depth lh + 1\<rparr> else lh);
               arg = foldl (foldl (\<lambda>s cur. func (it_data cur) s)) arg (take (num_buckets lh) (buckets lh));
               lh = (if callback_depth lh < -1 then lh\<lparr>callback_depth := callback_depth lh - 1\<rparr> else lh)
           in map_option (\<lambda>lh. (arg, Some lh)) (lh_maybe_resize malloc lh)))"

definition lh_strhash :: "u8 list option \<Rightarrow> u32" where
  "lh_strhash c = (case c of None \<Rightarrow> 0 | Some s \<Rightarrow> OPENSSL_hash32 (take (c_strlen s) s))"

subsection \<open>The invariant\<close>

text \<open>What the creator of a table promises: the comparison decides equality of some key, and the hash depends on
  the key only.\<close>

definition keyed :: "('a \<Rightarrow> 'k) \<Rightarrow> 'a lhash \<Rightarrow> bool" where
  "keyed key lh \<longleftrightarrow> (\<forall>a b. lh_comp lh a b = 0 \<longleftrightarrow> key a = key b) \<and>
     (\<forall>a b. key a = key b \<longrightarrow> lh_hash lh a = lh_hash lh b)"

lemma keyed_cong: "lh_comp lh' = lh_comp lh \<Longrightarrow> lh_hash lh' = lh_hash lh \<Longrightarrow> keyed key lh' = keyed key lh"
  by (simp add: keyed_def)

definition placed :: "nat \<Rightarrow> 'a lhash_item list list \<Rightarrow> bool" where
  "placed n bs \<longleftrightarrow> length bs = n \<and> (\<forall>b < n. \<forall>it \<in> set (bs ! b). unat (it_hash it) mod n = b)"

abbreviation item_key :: "('a \<Rightarrow> 'k) \<Rightarrow> 'a lhash_item \<Rightarrow> 'k" where
  "item_key key it \<equiv> key (it_data it)"

definition lhash_ok :: "('a \<Rightarrow> 'k) \<Rightarrow> 'a lhash \<Rightarrow> bool" where
  "lhash_ok key lh \<longleftrightarrow> keyed key lh \<and> placed (num_buckets lh) (buckets lh) \<and> kMinNumBuckets \<le> num_buckets lh \<and>
     sizeof_pointer * num_buckets lh < SIZE_LIMIT \<and>
     (\<forall>it \<in> set (concat (buckets lh)). it_hash it = lh_hash lh (it_data it)) \<and>
     distinct (map (item_key key) (concat (buckets lh))) \<and> num_items lh = length (concat (buckets lh))"

text \<open>The finite map a table stands for.\<close>

definition lh_map :: "('a \<Rightarrow> 'k) \<Rightarrow> 'a lhash \<Rightarrow> 'k \<Rightarrow> 'a option" where
  "lh_map key lh = map_of (map (\<lambda>it. (item_key key it, it_data it)) (concat (buckets lh)))"

subsection \<open>Chains and multisets of items\<close>

lemma chain_pos_le: "chain_pos p c \<le> length c"
  by (induction p c rule: chain_pos.induct) auto

lemma chain_pos_less: "chain_pos p c < length c \<longleftrightarrow> (\<exists>it \<in> set c. p (it_data it))"
  by (induction p c rule: chain_pos.induct) auto

lemma chain_pos_nth: "chain_pos p c < length c \<Longrightarrow> p (it_data (c ! chain_pos p c))"
  by (induction p c rule: chain_pos.induct) (auto split: if_splits)

lemma mset_concat_update:
  "b < length bs \<Longrightarrow> mset (concat (bs[b := c])) + mset (bs ! b) = mset (concat bs) + mset c"
proof (induction bs arbitrary: b)
  case (Cons x bs)
  show ?case
  proof (cases b)
    case (Suc j)
    then show ?thesis using Cons.IH [of j] Cons.prems by (simp add: ac_simps)
  qed simp
qed simp

lemma placed_push:
  assumes "placed n bs" "0 < n"
  shows "placed n (push_item n bs it)" "mset (concat (push_item n bs it)) = add_mset it (mset (concat bs))"
proof -
  let ?b = "unat (it_hash it) mod n"
  have b: "?b < length bs" using assms by (simp add: placed_def)
  show "placed n (push_item n bs it)"
    using assms b by (auto simp: placed_def push_item_def Let_def nth_list_update)
  have "mset (concat (bs[?b := it # bs ! ?b])) + mset (bs ! ?b) = mset (concat bs) + mset (it # bs ! ?b)"
    by (rule mset_concat_update [OF b])
  then have "mset (concat (bs[?b := it # bs ! ?b])) + mset (bs ! ?b) = add_mset it (mset (concat bs)) + mset (bs ! ?b)"
    by simp
  then show "mset (concat (push_item n bs it)) = add_mset it (mset (concat bs))"
    by (simp only: push_item_def Let_def add_right_cancel)
qed

lemma placed_push_list:
  assumes "placed n bs" "0 < n"
  shows "placed n (foldl (push_item n) bs its) \<and> mset (concat (foldl (push_item n) bs its)) = mset its + mset (concat bs)"
  using assms(1) by (induction its arbitrary: bs) (simp_all add: placed_push [OF _ assms(2)])

lemma redistribute_placed:
  assumes "0 < n"
  shows "placed n (redistribute n old)" "mset (concat (redistribute n old)) = mset (concat old)"
proof -
  have "placed n (foldl (foldl (push_item n)) bs old) \<and>
      mset (concat (foldl (foldl (push_item n)) bs old)) = mset (concat old) + mset (concat bs)" if "placed n bs" for bs
    using that by (induction old arbitrary: bs) (simp_all add: placed_push_list [OF _ assms] ac_simps)
  moreover have "placed n (replicate n [])" by (simp add: placed_def)
  moreover have "concat (replicate n []) = ([] :: 'a lhash_item list)" by simp
  ultimately show "placed n (redistribute n old)" "mset (concat (redistribute n old)) = mset (concat old)"
    unfolding redistribute_def by (metis add.right_neutral mset.simps(1))+
qed

text \<open>The map depends on the multiset of items only.\<close>

lemma map_of_mset_cong:
  assumes "mset xs = mset ys" "distinct (map fst xs)"
  shows "map_of xs = map_of ys"
proof
  fix k
  have "distinct (map fst ys)"
    using assms by (metis mset_eq_imp_distinct_iff mset_map)
  moreover have "set xs = set ys" using assms(1) by (rule mset_eq_setD)
  ultimately show "map_of xs k = map_of ys k"
    using assms(2) by (metis map_of_eq_Some_iff not_Some_eq)
qed

lemma items_cong:
  assumes "mset xs = mset ys"
  shows "distinct (map (item_key key) xs) = distinct (map (item_key key) ys)"
    "distinct (map (item_key key) xs) \<Longrightarrow> map_of (map (\<lambda>it. (item_key key it, it_data it)) xs)
       = map_of (map (\<lambda>it. (item_key key it, it_data it)) ys)"
    "length xs = length ys" "set xs = set ys"
proof -
  show "distinct (map (item_key key) xs) = distinct (map (item_key key) ys)"
    using assms by (metis mset_eq_imp_distinct_iff mset_map)
  show "map_of (map (\<lambda>it. (item_key key it, it_data it)) xs) = map_of (map (\<lambda>it. (item_key key it, it_data it)) ys)"
    if "distinct (map (item_key key) xs)"
    using that assms by (intro map_of_mset_cong) (simp_all add: comp_def)
  show "length xs = length ys" "set xs = set ys"
    using assms mset_eq_length mset_eq_setD by blast+
qed

subsection \<open>Resizing\<close>

lemma kMin_pos: "kMinNumBuckets \<le> n \<Longrightarrow> 0 < n"
  by (simp add: kMinNumBuckets_def)

lemma lh_rebucket_ok:
  assumes "lhash_ok key lh" "kMinNumBuckets \<le> n" "n < SIZE_LIMIT"
  shows "lhash_ok key (lh_rebucket malloc lh n)" "lh_map key (lh_rebucket malloc lh n) = lh_map key lh"
    "num_items (lh_rebucket malloc lh n) = num_items lh" "callback_depth (lh_rebucket malloc lh n) = callback_depth lh"
proof -
  have tk: "take (num_buckets lh) (buckets lh) = buckets lh"
    using assms(1) by (simp add: lhash_ok_def placed_def)
  note re = redistribute_placed [OF kMin_pos [OF assms(2)], of "buckets lh"]
  note same = items_cong [OF re(2)]
  show "num_items (lh_rebucket malloc lh n) = num_items lh" "callback_depth (lh_rebucket malloc lh n) = callback_depth lh"
    by (simp_all add: lh_rebucket_def Let_def)
  have d: "distinct (map (item_key key) (concat (redistribute n (buckets lh))))"
    using assms(1) same(1) [of key] by (simp add: lhash_ok_def)
  have lim: "sizeof_pointer * n < SIZE_LIMIT" if "size_mul sizeof_pointer n div sizeof_pointer = n"
  proof (rule ccontr)
    assume big: "\<not> ?thesis"
    have "size_mul sizeof_pointer n < SIZE_LIMIT" by (simp add: size_mul_def)
    then have "size_mul sizeof_pointer n < sizeof_pointer * n" using big by linarith
    then have "size_mul sizeof_pointer n div sizeof_pointer < n"
      by (simp add: less_mult_imp_div_less mult.commute)
    then show False using that by simp
  qed
  have ok: "lhash_ok key (lh\<lparr>num_buckets := n, buckets := redistribute n (buckets lh)\<rparr>)"
    if "sizeof_pointer * n < SIZE_LIMIT"
    unfolding lhash_ok_def
  proof (intro conjI)
    show "keyed key (lh\<lparr>num_buckets := n, buckets := redistribute n (buckets lh)\<rparr>)"
      using assms(1) keyed_cong [of "lh\<lparr>num_buckets := n, buckets := redistribute n (buckets lh)\<rparr>" lh key]
      by (simp add: lhash_ok_def)
    show "\<forall>it\<in>set (concat (buckets (lh\<lparr>num_buckets := n, buckets := redistribute n (buckets lh)\<rparr>))).
        it_hash it = lh_hash (lh\<lparr>num_buckets := n, buckets := redistribute n (buckets lh)\<rparr>) (it_data it)"
      using assms(1) same(4) by (simp add: lhash_ok_def)
    show "num_items (lh\<lparr>num_buckets := n, buckets := redistribute n (buckets lh)\<rparr>)
        = length (concat (buckets (lh\<lparr>num_buckets := n, buckets := redistribute n (buckets lh)\<rparr>)))"
      using assms(1) same(3) by (simp add: lhash_ok_def)
  qed (use re(1) d assms(2) that in simp_all)
  show "lhash_ok key (lh_rebucket malloc lh n)"
    using assms(1) ok lim by (simp add: lh_rebucket_def Let_def tk)
  show "lh_map key (lh_rebucket malloc lh n) = lh_map key lh"
    using same(2) [of key, OF d] by (simp add: lh_rebucket_def Let_def tk lh_map_def)
qed

lemma lh_maybe_resize_ok:
  assumes "lhash_ok key lh"
  shows "\<exists>lh'. lh_maybe_resize malloc lh = Some lh' \<and> lhash_ok key lh' \<and> lh_map key lh' = lh_map key lh \<and>
    num_items lh' = num_items lh \<and> callback_depth lh' = callback_depth lh"
proof -
  have nb: "kMinNumBuckets \<le> num_buckets lh" "num_buckets lh < SIZE_LIMIT"
    "sizeof_pointer * num_buckets lh < SIZE_LIMIT"
    using assms by (auto simp: lhash_ok_def sizeof_pointer_def)
  note re = lh_rebucket_ok [OF assms]
  have grow: "\<exists>lh'. (if num_buckets lh < size_mul (num_buckets lh) 2 then Some (lh_rebucket malloc lh (size_mul (num_buckets lh) 2))
      else Some lh) = Some lh' \<and> lhash_ok key lh' \<and> lh_map key lh' = lh_map key lh \<and>
      num_items lh' = num_items lh \<and> callback_depth lh' = callback_depth lh"
    using re [of "size_mul (num_buckets lh) 2" malloc] assms nb by (auto simp: size_mul_def)
  obtain m where m: "m = (if num_buckets lh div 2 < kMinNumBuckets then kMinNumBuckets else num_buckets lh div 2)"
    by blast
  have shrink: "kMinNumBuckets \<le> m" "m < SIZE_LIMIT"
    using nb by (auto simp: m)
  consider "callback_depth lh > 0" | "\<not> callback_depth lh > 0" "num_items lh div num_buckets lh > kMaxAverageChainLength"
    | "\<not> callback_depth lh > 0" "\<not> num_items lh div num_buckets lh > kMaxAverageChainLength" by blast
  then show ?thesis
  proof cases
    case 1
    then show ?thesis using assms by (simp add: lh_maybe_resize_def)
  next
    case 2
    then show ?thesis using grow nb(1) by (simp only: lh_maybe_resize_def Let_def if_True if_False not_True_eq_False)
  next
    case 3
    then have "lh_maybe_resize malloc lh = Some (if num_items lh div num_buckets lh < kMinAverageChainLength \<and>
        num_buckets lh > kMinNumBuckets then lh_rebucket malloc lh m else lh)"
      using nb(1) by (simp add: lh_maybe_resize_def Let_def m)
    then show ?thesis using re [OF shrink, of malloc] assms by (auto split: if_splits)
  qed
qed

subsection \<open>Looking up\<close>

lemma in_concat_iff: "it \<in> set (concat bs) \<longleftrightarrow> (\<exists>c < length bs. it \<in> set (bs ! c))"
proof
  assume "it \<in> set (concat bs)"
  then obtain x where "x \<in> set bs" "it \<in> set x" by auto
  then show "\<exists>c < length bs. it \<in> set (bs ! c)" using in_set_conv_nth [of x bs] by auto
next
  assume "\<exists>c < length bs. it \<in> set (bs ! c)"
  then show "it \<in> set (concat bs)" using nth_mem [of _ bs] by auto
qed

lemma lh_map_iff:
  assumes "lhash_ok key lh"
  shows "lh_map key lh k = Some d \<longleftrightarrow> (\<exists>it \<in> set (concat (buckets lh)). it_data it = d \<and> key d = k)"
proof -
  have "distinct (map fst (map (\<lambda>it. (item_key key it, it_data it)) (concat (buckets lh))))"
    using assms by (simp add: lhash_ok_def comp_def)
  then show ?thesis unfolding lh_map_def map_of_eq_Some_iff by auto
qed

lemma lhash_ok_hash: "lhash_ok key lh \<Longrightarrow> it \<in> set (concat (buckets lh)) \<Longrightarrow> it_hash it = lh_hash lh (it_data it)"
  unfolding lhash_ok_def by blast

lemma lhash_ok_keyed:
  assumes "lhash_ok key lh"
  shows "lh_comp lh a b = 0 \<longleftrightarrow> key a = key b" "key a = key b \<Longrightarrow> lh_hash lh a = lh_hash lh b"
  using assms unfolding lhash_ok_def keyed_def by blast+

lemma lhash_ok_buckets:
  assumes "lhash_ok key lh"
  shows "0 < num_buckets lh" "length (buckets lh) = num_buckets lh"
    "b < num_buckets lh \<Longrightarrow> it \<in> set (buckets lh ! b) \<Longrightarrow> unat (it_hash it) mod num_buckets lh = b"
  using assms kMin_pos unfolding lhash_ok_def placed_def by blast+

text \<open>The bucket of an element, and what its chain says of it.\<close>

lemma lookup_chain:
  assumes ok: "lhash_ok key lh"
  obtains b i where "get_next_ptr_and_hash lh data = Some (lh_hash lh data, b, i)" "b < length (buckets lh)"
    "b = unat (lh_hash lh data) mod num_buckets lh" "i \<le> length (buckets lh ! b)"
    "i < length (buckets lh ! b) \<Longrightarrow> key (it_data (buckets lh ! b ! i)) = key data"
    "i = length (buckets lh ! b) \<Longrightarrow> \<forall>it \<in> set (concat (buckets lh)). key (it_data it) \<noteq> key data"
proof -
  obtain b where b: "b = unat (lh_hash lh data) mod num_buckets lh" by blast
  obtain i where i: "i = chain_pos (\<lambda>cur. lh_comp lh cur data = 0) (buckets lh ! b)" by blast
  note nb = lhash_ok_buckets(1,2) [OF ok] and cmp = lhash_ok_keyed(1) [OF ok]
  have bl: "b < length (buckets lh)" using nb by (simp add: b)
  have none: "\<forall>it \<in> set (concat (buckets lh)). key (it_data it) \<noteq> key data" if "i = length (buckets lh ! b)"
  proof (intro ballI notI)
    fix it assume it: "it \<in> set (concat (buckets lh))" and k: "key (it_data it) = key data"
    then obtain c where c: "c < length (buckets lh)" "it \<in> set (buckets lh ! c)" unfolding in_concat_iff by blast
    have "it_hash it = lh_hash lh (it_data it)" by (rule lhash_ok_hash [OF ok it])
    also have "\<dots> = lh_hash lh data" by (rule lhash_ok_keyed(2) [OF ok k])
    finally have "c = b" using lhash_ok_buckets(3) [OF ok _ c(2)] c(1) nb(2) by (simp add: b)
    then have "i < length (buckets lh ! b)"
      using c(2) k unfolding i chain_pos_less by (auto simp: cmp)
    then show False using that by simp
  qed
  show thesis
  proof (rule that [of b i])
    show "get_next_ptr_and_hash lh data = Some (lh_hash lh data, b, i)"
      using nb bl by (simp add: get_next_ptr_and_hash_def bucket_of_def Let_def b [symmetric] i)
    show "key (it_data (buckets lh ! b ! i)) = key data" if "i < length (buckets lh ! b)"
      using that chain_pos_nth unfolding i by (fastforce simp: cmp)
  qed (use bl b none i chain_pos_le in auto)
qed

lemma lh_retrieve_map:
  assumes "lhash_ok key lh"
  shows "lh_retrieve lh data = Some (lh_map key lh (key data))"
proof -
  obtain b i where r: "get_next_ptr_and_hash lh data = Some (lh_hash lh data, b, i)" "b < length (buckets lh)"
    "i \<le> length (buckets lh ! b)" "i < length (buckets lh ! b) \<Longrightarrow> key (it_data (buckets lh ! b ! i)) = key data"
    "i = length (buckets lh ! b) \<Longrightarrow> \<forall>it \<in> set (concat (buckets lh)). key (it_data it) \<noteq> key data"
    using lookup_chain [OF assms, of data] by metis
  show ?thesis
  proof (cases "i < length (buckets lh ! b)")
    case True
    have "buckets lh ! b ! i \<in> set (concat (buckets lh))" using True r(2) nth_mem unfolding in_concat_iff by blast
    then have "lh_map key lh (key data) = Some (it_data (buckets lh ! b ! i))"
      using lh_map_iff [OF assms] r(4) [OF True] by blast
    then show ?thesis using True r(1) by (simp add: lh_retrieve_def chain_data_def)
  next
    case False
    then have "lh_map key lh (key data) = None"
      using lh_map_iff [OF assms] r(3,5) by (metis le_neq_implies_less not_Some_eq)
    then show ?thesis using False r(1) by (simp add: lh_retrieve_def chain_data_def)
  qed
qed

subsection \<open>Updating\<close>

text \<open>A chain that changes: what the invariant needs of the new chain, and the map in terms of the other items.\<close>

lemma bucket_update:
  assumes ok: "lhash_ok key lh" and b: "b < length (buckets lh)"
    and old: "mset (buckets lh ! b) = mset olds + mset rest" and new: "mset c = mset news + mset rest"
    and news: "\<forall>it \<in> set news. it_hash it = lh_hash lh (it_data it) \<and> unat (it_hash it) mod num_buckets lh = b"
  obtains others where "mset (concat (buckets lh)) = mset (olds @ others)"
    "mset (concat ((buckets lh)[b := c])) = mset (news @ others)"
    "placed (num_buckets lh) ((buckets lh)[b := c])"
    "\<forall>it \<in> set (concat ((buckets lh)[b := c])). it_hash it = lh_hash lh (it_data it)"
proof -
  obtain R where R: "mset (concat (buckets lh)) = mset (buckets lh ! b) + R"
    using mset_concat_update [OF b, of "[]"] by (metis add.right_neutral mset.simps(1) add.commute)
  obtain others where others: "mset others = mset rest + R" using ex_mset by blast
  have m1: "mset (concat (buckets lh)) = mset (olds @ others)"
    by (simp add: R old others ac_simps)
  have "mset (concat ((buckets lh)[b := c])) + mset (buckets lh ! b) = mset (concat (buckets lh)) + mset c"
    by (rule mset_concat_update [OF b])
  then have "mset (concat ((buckets lh)[b := c])) = R + mset c"
    by (simp add: R ac_simps)
  then have m2: "mset (concat ((buckets lh)[b := c])) = mset (news @ others)"
    by (simp add: new others ac_simps)
  have csub: "set c \<subseteq> set news \<union> set (buckets lh ! b)"
    using arg_cong [OF new, of set_mset] arg_cong [OF old, of set_mset] by auto
  have placed: "placed (num_buckets lh) ((buckets lh)[b := c])"
    using ok csub news b by (auto simp: lhash_ok_def placed_def nth_list_update)
  have "set (concat ((buckets lh)[b := c])) \<subseteq> set news \<union> set (concat (buckets lh))"
    using arg_cong [OF m1, of set_mset] arg_cong [OF m2, of set_mset] by auto
  then have "\<forall>it \<in> set (concat ((buckets lh)[b := c])). it_hash it = lh_hash lh (it_data it)"
    using ok news by (auto simp: lhash_ok_def)
  then show thesis using that m1 m2 placed by blast
qed

lemma bucket_update_ok:
  assumes ok: "lhash_ok key lh" and b: "b < length (buckets lh)"
    and old: "mset (buckets lh ! b) = mset olds + mset rest" and new: "mset c = mset news + mset rest"
    and news: "\<forall>it \<in> set news. it_hash it = lh_hash lh (it_data it) \<and> unat (it_hash it) mod num_buckets lh = b"
    and keys: "\<forall>k \<in> item_key key ` set news. (\<forall>it \<in> set (concat (buckets lh)). key (it_data it) = k \<longrightarrow> it \<in> set olds)"
    and one: "length news \<le> 1" and n: "n + length olds = num_items lh + length news"
  shows "lhash_ok key (lh\<lparr>buckets := (buckets lh)[b := c], num_items := n\<rparr>)"
    "lh_map key (lh\<lparr>buckets := (buckets lh)[b := c], num_items := n\<rparr>)
      = (\<lambda>k. case map_of (map (\<lambda>it. (item_key key it, it_data it)) news) k of
               Some d \<Rightarrow> Some d
             | None \<Rightarrow> if k \<in> item_key key ` set olds then None else lh_map key lh k)"
proof -
  obtain others where r: "mset (concat (buckets lh)) = mset (olds @ others)"
    "mset (concat ((buckets lh)[b := c])) = mset (news @ others)"
    "placed (num_buckets lh) ((buckets lh)[b := c])"
    "\<forall>it \<in> set (concat ((buckets lh)[b := c])). it_hash it = lh_hash lh (it_data it)"
    using bucket_update [OF ok b old new news] by blast
  have d0: "distinct (map (item_key key) (concat (buckets lh)))" using ok by (simp add: lhash_ok_def)
  then have d: "distinct (map (item_key key) (olds @ others))" using items_cong(1) [OF r(1)] by blast
  have disj: "item_key key ` set news \<inter> item_key key ` set others = {}"
  proof (rule ccontr)
    assume "\<not> ?thesis"
    then obtain x y where xy: "x \<in> set news" "y \<in> set others" "item_key key x = item_key key y" by auto
    have "y \<in> set (concat (buckets lh))" using items_cong(4) [OF r(1)] xy(2) by auto
    then have "y \<in> set olds" using keys xy by auto
    then show False using d xy(2) by auto
  qed
  have "distinct (map (item_key key) news)" using one by (cases news) auto
  then have d2: "distinct (map (item_key key) (news @ others))" using d disj by auto
  let ?lh = "lh\<lparr>buckets := (buckets lh)[b := c], num_items := n\<rparr>"
  have d3: "distinct (map (item_key key) (concat ((buckets lh)[b := c])))" using d2 items_cong(1) [OF r(2)] by blast
  have len: "n = length (concat ((buckets lh)[b := c]))"
    using n ok items_cong(3) [OF r(1)] items_cong(3) [OF r(2)] by (simp add: lhash_ok_def)
  show "lhash_ok key ?lh"
    unfolding lhash_ok_def
  proof (intro conjI)
    show "keyed key ?lh" using ok keyed_cong [of ?lh lh key] by (simp add: lhash_ok_def)
    show "num_items ?lh = length (concat (buckets ?lh))" using len by simp
    show "\<forall>it\<in>set (concat (buckets ?lh)). it_hash it = lh_hash ?lh (it_data it)" using r(4) by simp
  qed (use r(3) d3 ok in \<open>simp_all add: lhash_ok_def\<close>)
  have m: "lh_map key ?lh = map_of (map (\<lambda>it. (item_key key it, it_data it)) (news @ others))"
    unfolding lh_map_def using items_cong(2) [OF r(2) d3] by simp
  have m0: "lh_map key lh = map_of (map (\<lambda>it. (item_key key it, it_data it)) (olds @ others))"
    unfolding lh_map_def using items_cong(2) [OF r(1) d0] by simp
  show "lh_map key ?lh = (\<lambda>k. case map_of (map (\<lambda>it. (item_key key it, it_data it)) news) k of
               Some d \<Rightarrow> Some d
             | None \<Rightarrow> if k \<in> item_key key ` set olds then None else lh_map key lh k)"
  proof
    fix k
    have no: "map_of (map (\<lambda>it. (item_key key it, it_data it)) others) k = None" if "k \<in> item_key key ` set olds"
      using that d by (force simp: map_of_eq_None_iff image_image)
    have "map_of (map (\<lambda>it. (item_key key it, it_data it)) olds) k = None" if "k \<notin> item_key key ` set olds"
      using that by (auto simp: map_of_eq_None_iff image_image)
    then show "lh_map key ?lh k = (case map_of (map (\<lambda>it. (item_key key it, it_data it)) news) k of
               Some d \<Rightarrow> Some d
             | None \<Rightarrow> if k \<in> item_key key ` set olds then None else lh_map key lh k)"
      using no unfolding m m0 by (simp add: map_add_def split: option.split)
  qed
qed

lemma chain_split:
  assumes "i < length c"
  shows "mset c = mset [c ! i] + mset (take i c @ drop (Suc i) c)"
    "mset (c[i := x]) = mset [x] + mset (take i c @ drop (Suc i) c)"
  using arg_cong [OF id_take_nth_drop [OF assms], of mset] arg_cong [OF upd_conv_take_nth_drop [OF assms, of x], of mset]
  by simp_all

lemma lhash_ok_same_key:
  assumes ok: "lhash_ok key lh" and x: "x \<in> set (concat (buckets lh))" "y \<in> set (concat (buckets lh))"
    and k: "item_key key x = item_key key y"
  shows "x = y"
  using ok x k unfolding lhash_ok_def distinct_map by (meson inj_onD)

lemma lh_insert_map:
  assumes ok: "lhash_ok key lh" and n: "num_items lh + 1 < SIZE_LIMIT"
  shows "\<exists>b lh'. lhash_ok key lh' \<and> num_items lh' \<le> Suc (num_items lh) \<and>
    lh_insert malloc lh data = Some (b, lh_map key lh (key data), lh') \<and>
    b = (lh_map key lh (key data) \<noteq> None \<or> OPENSSL_malloc (malloc 0) sizeof_LHASH_ITEM \<noteq> None) \<and>
    lh_map key lh' = (if b then (lh_map key lh)(key data \<mapsto> data) else lh_map key lh)"
proof -
  obtain b i where r: "get_next_ptr_and_hash lh data = Some (lh_hash lh data, b, i)" "b < length (buckets lh)"
    "b = unat (lh_hash lh data) mod num_buckets lh" "i \<le> length (buckets lh ! b)"
    "i < length (buckets lh ! b) \<Longrightarrow> key (it_data (buckets lh ! b ! i)) = key data"
    "i = length (buckets lh ! b) \<Longrightarrow> \<forall>it \<in> set (concat (buckets lh)). key (it_data it) \<noteq> key data"
    using lookup_chain [OF ok, of data] by metis
  let ?c = "buckets lh ! b"
  have map0: "lh_map key lh (key data) = chain_data ?c i"
    using lh_retrieve_map [OF ok, of data] r(1) by (simp add: lh_retrieve_def)
  show ?thesis
  proof (cases "i < length ?c")
    case True
    let ?old = "?c ! i" and ?new = "(?c ! i)\<lparr>it_data := data\<rparr>"
    have mem: "?old \<in> set (concat (buckets lh))" using True r(2) nth_mem unfolding in_concat_iff by blast
    have hash: "it_hash ?old = lh_hash lh data"
      using lhash_ok_hash [OF ok mem] lhash_ok_keyed(2) [OF ok r(5) [OF True]] by simp
    have new: "\<forall>it \<in> set [?new]. it_hash it = lh_hash lh (it_data it) \<and> unat (it_hash it) mod num_buckets lh = b"
      by (simp add: hash r(3) [symmetric])
    have uniq: "\<forall>k \<in> item_key key ` set [?new]. \<forall>it \<in> set (concat (buckets lh)). key (it_data it) = k \<longrightarrow> it \<in> set [?old]"
      using lhash_ok_same_key [OF ok _ mem] r(5) [OF True] by auto
    note up = bucket_update_ok [OF ok r(2) chain_split(1) [OF True] chain_split(2) [OF True, of ?new] new uniq,
        of "num_items lh", simplified]
    have "lhash_ok key (lh\<lparr>buckets := (buckets lh)[b := ?c[i := ?new]]\<rparr>) \<and>
      lh_map key (lh\<lparr>buckets := (buckets lh)[b := ?c[i := ?new]]\<rparr>) = (lh_map key lh)(key data \<mapsto> data)"
      using up r(5) [OF True] by (auto simp: fun_eq_iff)
    then show ?thesis
      using True r(1) map0 by (intro exI [of _ True]) (simp add: lh_insert_def chain_data_def Let_def)
  next
    case False
    then have none: "lh_map key lh (key data) = None" by (simp add: map0 chain_data_def)
    show ?thesis
    proof (cases "OPENSSL_malloc (malloc 0) sizeof_LHASH_ITEM")
      case None
      then show ?thesis using ok False r(1) none by (intro exI [of _ False]) (simp add: lh_insert_def)
    next
      case (Some blk)
      let ?it = "\<lparr>it_data = data, it_hash = lh_hash lh data\<rparr>"
      let ?lh = "lh\<lparr>buckets := (buckets lh)[b := ?c @ [?it]], num_items := num_items lh + 1\<rparr>"
      have absent: "\<forall>it \<in> set (concat (buckets lh)). key (it_data it) \<noteq> key data" using False r(4,6) by auto
      have up: "lhash_ok key ?lh" "lh_map key ?lh = (lh_map key lh)(key data \<mapsto> data)"
        using bucket_update_ok [OF ok r(2), of "[]" ?c "?c @ [?it]" "[?it]" "num_items lh + 1"] absent r(3)
        by (auto simp: fun_eq_iff)
      obtain lh' where lh': "lh_maybe_resize (malloc 1) ?lh = Some lh'" "lhash_ok key lh'" "lh_map key lh' = lh_map key ?lh"
        "num_items lh' = num_items ?lh"
        using lh_maybe_resize_ok [OF up(1)] by blast
      then show ?thesis
        using False Some r(1) none up(2) n by (intro exI [of _ True]) (simp add: lh_insert_def size_add_exact)
    qed
  qed
qed

lemma lh_delete_map:
  assumes ok: "lhash_ok key lh" and n: "num_items lh < SIZE_LIMIT"
  shows "\<exists>lh'. lh_delete malloc lh data = Some (lh_map key lh (key data), lh') \<and> lhash_ok key lh' \<and>
    num_items lh' \<le> num_items lh \<and> lh_map key lh' = (lh_map key lh)(key data := None)"
proof -
  obtain b i where r: "get_next_ptr_and_hash lh data = Some (lh_hash lh data, b, i)" "b < length (buckets lh)"
    "i \<le> length (buckets lh ! b)" "i < length (buckets lh ! b) \<Longrightarrow> key (it_data (buckets lh ! b ! i)) = key data"
    using lookup_chain [OF ok, of data] by metis
  let ?c = "buckets lh ! b"
  have map0: "lh_map key lh (key data) = chain_data ?c i"
    using lh_retrieve_map [OF ok, of data] r(1) by (simp add: lh_retrieve_def)
  show ?thesis
  proof (cases "i < length ?c")
    case False
    then have "lh_map key lh (key data) = None" by (simp add: map0 chain_data_def)
    then show ?thesis using ok False r(1) by (simp add: lh_delete_def fun_upd_idem)
  next
    case True
    have mem: "?c ! i \<in> set (concat (buckets lh))" using True r(2) nth_mem unfolding in_concat_iff by blast
    then have pos: "0 < num_items lh" using ok by (cases "concat (buckets lh)") (auto simp: lhash_ok_def)
    let ?rest = "take i ?c @ drop (Suc i) ?c"
    let ?lh = "lh\<lparr>buckets := (buckets lh)[b := ?rest], num_items := num_items lh - 1\<rparr>"
    have up: "lhash_ok key ?lh" "lh_map key ?lh = (lh_map key lh)(key data := None)"
      using bucket_update_ok [OF ok r(2) chain_split(1) [OF True], of ?rest "[]" "num_items lh - 1"] pos r(4) [OF True]
      by (auto simp: fun_eq_iff)
    obtain lh' where lh': "lh_maybe_resize (malloc 0) ?lh = Some lh'" "lhash_ok key lh'" "lh_map key lh' = lh_map key ?lh"
      "num_items lh' = num_items ?lh"
      using lh_maybe_resize_ok [OF up(1)] by blast
    have "nat ((int (num_items lh) - 1) mod int SIZE_LIMIT) = num_items lh - 1"
      using pos n by (simp add: nat_diff_distrib')
    then show ?thesis
      using True r(1) lh' up(2) by (simp add: lh_delete_def map0 chain_data_def)
  qed
qed

end
