(* ===== verification/Lhash_Map.thy ===== *)
theory Lhash_Map
  imports Lhash
begin

text \<open>
  What a hash table promises its clients: it is a finite map, whatever sequence of calls is made, and its chains
  stay short. The contract of a table is a locale; its client lemma is about sequences of calls.
\<close>

subsection \<open>Sessions\<close>

datatype 'v table_op = Insert 'v | Delete 'v | Retrieve 'v

text \<open>The answer to an operation: success, and the element replaced, removed or found.\<close>

type_synonym 'v answer = "bool \<times> 'v option"

text \<open>A session on a finite map. The \<open>j\<close>-th operation can allocate when \<open>avail j\<close>; an insertion that needs
  memory and gets none changes nothing.\<close>

fun map_session :: "('v \<Rightarrow> 'k) \<Rightarrow> (nat \<Rightarrow> bool) \<Rightarrow> nat \<Rightarrow> 'v table_op list \<Rightarrow> ('k \<Rightarrow> 'v option) \<Rightarrow>
    'v answer list \<times> ('k \<Rightarrow> 'v option)" where
  "map_session key avail j [] m = ([], m)"
| "map_session key avail j (Insert v # ops) m =
     (if m (key v) = None \<and> \<not> avail j
      then let (as, m') = map_session key avail (Suc j) ops m in ((False, None) # as, m')
      else let (as, m') = map_session key avail (Suc j) ops (m(key v \<mapsto> v)) in ((True, m (key v)) # as, m'))"
| "map_session key avail j (Delete v # ops) m =
     (let (as, m') = map_session key avail (Suc j) ops (m(key v := None)) in ((True, m (key v)) # as, m'))"
| "map_session key avail j (Retrieve v # ops) m =
     (let (as, m') = map_session key avail (Suc j) ops m in ((True, m (key v)) # as, m'))"

text \<open>The same session on an implementation; \<open>mem j\<close> is the memory the \<open>j\<close>-th operation works with.\<close>

fun table_session ::
  "('m \<Rightarrow> 's \<Rightarrow> 'v \<Rightarrow> (bool \<times> 'v option \<times> 's) option) \<Rightarrow> ('m \<Rightarrow> 's \<Rightarrow> 'v \<Rightarrow> ('v option \<times> 's) option) \<Rightarrow>
   ('s \<Rightarrow> 'v \<Rightarrow> 'v option option) \<Rightarrow> (nat \<Rightarrow> 'm) \<Rightarrow> nat \<Rightarrow> 'v table_op list \<Rightarrow> 's \<Rightarrow> ('v answer list \<times> 's) option" where
  "table_session ins del ret mem j [] s = Some ([], s)"
| "table_session ins del ret mem j (Insert v # ops) s = do {
     (ok, old, s) \<leftarrow> ins (mem j) s v;
     (as, s) \<leftarrow> table_session ins del ret mem (Suc j) ops s;
     Some ((ok, old) # as, s) }"
| "table_session ins del ret mem j (Delete v # ops) s = do {
     (old, s) \<leftarrow> del (mem j) s v;
     (as, s) \<leftarrow> table_session ins del ret mem (Suc j) ops s;
     Some ((True, old) # as, s) }"
| "table_session ins del ret mem j (Retrieve v # ops) s = do {
     found \<leftarrow> ret s v;
     (as, s) \<leftarrow> table_session ins del ret mem (Suc j) ops s;
     Some ((True, found) # as, s) }"

locale map_table =
  fixes ok :: "'s \<Rightarrow> bool"
    and count :: "'s \<Rightarrow> nat"
    and limit :: nat
    and content :: "'s \<Rightarrow> 'k \<Rightarrow> 'v option"
    and key :: "'v \<Rightarrow> 'k"
    and has_room :: "'m \<Rightarrow> bool"
    and ins :: "'m \<Rightarrow> 's \<Rightarrow> 'v \<Rightarrow> (bool \<times> 'v option \<times> 's) option"
    and del :: "'m \<Rightarrow> 's \<Rightarrow> 'v \<Rightarrow> ('v option \<times> 's) option"
    and ret :: "'s \<Rightarrow> 'v \<Rightarrow> 'v option option"
  assumes ins_law: "ok s \<Longrightarrow> count s < limit \<Longrightarrow> \<exists>b s'. ok s' \<and> count s' \<le> Suc (count s) \<and>
      ins m s v = Some (b, content s (key v), s') \<and> b = (content s (key v) \<noteq> None \<or> has_room m) \<and>
      content s' = (if b then (content s)(key v \<mapsto> v) else content s)"
    and del_law: "ok s \<Longrightarrow> count s \<le> limit \<Longrightarrow> \<exists>s'. ok s' \<and> count s' \<le> count s \<and>
      del m s v = Some (content s (key v), s') \<and> content s' = (content s)(key v := None)"
    and ret_law: "ok s \<Longrightarrow> ret s v = Some (content s (key v))"
begin

lemma session:
  assumes "ok s" "count s + length ops \<le> limit"
  shows "\<exists>s'. table_session ins del ret mem j ops s
      = Some (fst (map_session key (\<lambda>j. has_room (mem j)) j ops (content s)), s') \<and> ok s' \<and>
    content s' = snd (map_session key (\<lambda>j. has_room (mem j)) j ops (content s))"
  using assms
proof (induction ops arbitrary: s j)
  case Nil
  then show ?case by simp
next
  case (Cons op ops)
  show ?case
  proof (cases op)
    case (Insert v)
    have lt: "count s < limit" using Cons.prems(2) by simp
    obtain b s1 where s1: "ok s1" "count s1 \<le> Suc (count s)" "ins (mem j) s v = Some (b, content s (key v), s1)"
      "b = (content s (key v) \<noteq> None \<or> has_room (mem j))"
      "content s1 = (if b then (content s)(key v \<mapsto> v) else content s)"
      using ins_law [OF Cons.prems(1) lt, of "mem j" v] by blast
    have le: "count s1 + length ops \<le> limit" using Cons.prems(2) s1(2) by simp
    show ?thesis
      using Cons.IH [OF s1(1) le, of "Suc j"] s1(3-5) Insert by (auto simp: case_prod_unfold Let_def simp del: fun_upd_apply)
  next
    case (Delete v)
    have lt: "count s \<le> limit" using Cons.prems(2) by simp
    obtain s1 where s1: "ok s1" "count s1 \<le> count s" "del (mem j) s v = Some (content s (key v), s1)"
      "content s1 = (content s)(key v := None)"
      using del_law [OF Cons.prems(1) lt, of "mem j" v] by blast
    have le: "count s1 + length ops \<le> limit" using Cons.prems(2) s1(2) by simp
    show ?thesis
      using Cons.IH [OF s1(1) le, of "Suc j"] s1(3,4) Delete by (auto simp: case_prod_unfold Let_def simp del: fun_upd_apply)
  next
    case (Retrieve v)
    have le: "count s + length ops \<le> limit" using Cons.prems(2) by simp
    show ?thesis
      using Cons.IH [OF Cons.prems(1) le, of "Suc j"] ret_law [OF Cons.prems(1), of v] Retrieve
      by (auto simp: case_prod_unfold Let_def simp del: fun_upd_apply)
  qed
qed

end

subsection \<open>Hash tables keep the contract\<close>

definition item_room :: "(nat \<Rightarrow> allocator) \<Rightarrow> bool" where
  "item_room malloc \<longleftrightarrow> OPENSSL_malloc (malloc 0) sizeof_LHASH_ITEM \<noteq> None"

interpretation lh: map_table "lhash_ok key" num_items "SIZE_LIMIT - 1" "lh_map key" key item_room lh_insert lh_delete lh_retrieve
  for key :: "'v \<Rightarrow> 'k"
proof
  fix lh :: "'v lhash" and malloc v
  assume "lhash_ok key lh" "num_items lh < SIZE_LIMIT - 1"
  then show "\<exists>b lh'. lhash_ok key lh' \<and> num_items lh' \<le> Suc (num_items lh) \<and>
      lh_insert malloc lh v = Some (b, lh_map key lh (key v), lh') \<and> b = (lh_map key lh (key v) \<noteq> None \<or> item_room malloc) \<and>
      lh_map key lh' = (if b then (lh_map key lh)(key v \<mapsto> v) else lh_map key lh)"
    unfolding item_room_def by (intro lh_insert_map) simp_all
next
  fix lh :: "'v lhash" and malloc v
  assume ok: "lhash_ok key lh" and "num_items lh \<le> SIZE_LIMIT - 1"
  then have "num_items lh < SIZE_LIMIT" using SIZE_LIMIT_pos by linarith
  from lh_delete_map [OF ok this, of malloc v]
  show "\<exists>lh'. lhash_ok key lh' \<and> num_items lh' \<le> num_items lh \<and>
      lh_delete malloc lh v = Some (lh_map key lh (key v), lh') \<and> lh_map key lh' = (lh_map key lh)(key v := None)"
    by blast
next
  fix lh :: "'v lhash" and v
  assume "lhash_ok key lh"
  then show "lh_retrieve lh v = Some (lh_map key lh (key v))" by (rule lh_retrieve_map)
qed

text \<open>A table just created.\<close>

definition good_functions :: "('v \<Rightarrow> 'k) \<Rightarrow> ('v \<Rightarrow> u32) \<Rightarrow> ('v \<Rightarrow> 'v \<Rightarrow> int) \<Rightarrow> bool" where
  "good_functions key hash cmp \<longleftrightarrow> (\<forall>a b. cmp a b = 0 \<longleftrightarrow> key a = key b) \<and> (\<forall>a b. key a = key b \<longrightarrow> hash a = hash b)"

lemma lh_new_ok:
  assumes "good_functions key hash cmp" "lh_new malloc hash cmp = Some lh"
  shows "lhash_ok key lh" "lh_map key lh = Map.empty" "num_items lh = 0"
proof -
  have lh: "num_items lh = 0" "buckets lh = replicate kMinNumBuckets []" "num_buckets lh = kMinNumBuckets"
    "lh_comp lh = cmp" "lh_hash lh = hash"
    using assms(2) by (auto simp: lh_new_def split: if_splits)
  have "keyed key lh" using assms(1) unfolding good_functions_def keyed_def lh .
  moreover have "placed kMinNumBuckets (replicate kMinNumBuckets [])" by (simp add: placed_def)
  moreover have "sizeof_pointer * kMinNumBuckets < SIZE_LIMIT"
    by (simp add: kMinNumBuckets_def sizeof_pointer_def SIZE_LIMIT_def)
  moreover have "concat (replicate kMinNumBuckets []) = ([] :: 'a lhash_item list)" by simp
  ultimately show "lhash_ok key lh" "lh_map key lh = Map.empty" "num_items lh = 0"
    unfolding lhash_ok_def lh_map_def lh by simp_all
qed

text \<open>C4: a hash table is a finite map. If the comparison decides equality of some key and equal keys hash
  alike, then in any session of fewer than \<open>2 ^ 64\<close> operations on a table from \<open>lh_new\<close>, whatever allocations fail, no
  operation fails an assertion or leaves its bucket array, and each one answers what it answers on the
  finite map: what is replaced, removed or found, and failure exactly for an insertion of a new key
  without memory. Growing and shrinking the bucket array never shows.\<close>

theorem lhash_refines_map:
  assumes "good_functions key hash cmp" "lh_new malloc hash cmp = Some lh" "length ops < SIZE_LIMIT"
  shows "map_option fst (table_session lh_insert lh_delete lh_retrieve mem 0 ops lh)
    = Some (fst (map_session key (\<lambda>j. item_room (mem j)) 0 ops Map.empty))"
proof -
  note new = lh_new_ok [OF assms(1,2)]
  have "num_items lh + length ops \<le> SIZE_LIMIT - 1" using new(3) assms(3) by simp
  then show ?thesis using lh.session [OF new(1)] new(2) by fastforce
qed

subsection \<open>Tables of strings\<close>

text \<open>The usual client: C strings, hashed by \<open>lh_strhash\<close> and compared by the C library's \<open>strcmp\<close>.\<close>

definition c_str :: "u8 list \<Rightarrow> u8 list" where
  "c_str s = take (c_strlen s) s"

fun strcmp_loop :: "u8 list \<Rightarrow> u8 list \<Rightarrow> int" where
  "strcmp_loop [] [] = 0"
| "strcmp_loop [] (b # bs) = - uint b"
| "strcmp_loop (a # as) [] = uint a"
| "strcmp_loop (a # as) (b # bs) = (if a = b then strcmp_loop as bs else uint a - uint b)"

definition c_strcmp :: "u8 list \<Rightarrow> u8 list \<Rightarrow> int" where
  "c_strcmp a b = strcmp_loop (c_str a) (c_str b)"

lemma c_str_takeWhile: "c_str s = takeWhile (\<lambda>c. c \<noteq> 0) s"
  unfolding c_str_def c_strlen_def by (rule takeWhile_eq_take [symmetric])

lemma strcmp_loop_eq: "0 \<notin> set as \<Longrightarrow> 0 \<notin> set bs \<Longrightarrow> strcmp_loop as bs = 0 \<longleftrightarrow> as = bs"
  by (induction as bs rule: strcmp_loop.induct) (auto simp: uint_0_iff simp flip: word_uint_eq_iff)

lemma string_functions: "good_functions c_str (\<lambda>s. lh_strhash (Some s)) c_strcmp"
proof -
  have "0 \<notin> set (c_str s)" for s by (auto simp: c_str_takeWhile dest: set_takeWhileD)
  then show ?thesis
    by (simp add: good_functions_def c_strcmp_def strcmp_loop_eq) (simp add: lh_strhash_def c_str_def)
qed

theorem lhash_refines_map_witness:
  "map_option fst (table_session lh_insert lh_delete lh_retrieve (\<lambda>j i n. if j = 2 then None else Some (replicate n 0)) 0
      [Insert [0x61, 0x62, 0], Insert [0x61, 0x62, 0, 0x63], Insert [0x63, 0], Retrieve [0x61, 0x62], Delete [0x63, 0]]
      (the (lh_new (\<lambda>_ n. Some (replicate n 0)) (\<lambda>s. lh_strhash (Some s)) c_strcmp)))
   = Some [(True, None), (True, Some [0x61, 0x62, 0]), (False, None), (True, Some [0x61, 0x62, 0, 0x63]), (True, None)]"
proof -
  have new: "lh_new (\<lambda>_ n. Some (replicate n 0)) (\<lambda>s. lh_strhash (Some s)) c_strcmp
      = Some (the (lh_new (\<lambda>_ n. Some (replicate n 0)) (\<lambda>s. lh_strhash (Some s)) c_strcmp))"
    by (simp add: lh_new_def OPENSSL_malloc_def)
  show ?thesis
    by (subst lhash_refines_map [OF string_functions new])
       (simp_all add: SIZE_LIMIT_def item_room_def OPENSSL_malloc_def c_str_takeWhile)
qed

subsection \<open>Chains stay short\<close>

text \<open>The average chain is shorter than 3, and the bucket array, unless it is minimal, is no longer than the number of items.\<close>

definition balanced :: "'v lhash \<Rightarrow> bool" where
  "balanced lh \<longleftrightarrow> num_items lh < 3 * num_buckets lh \<and>
     (num_buckets lh = kMinNumBuckets \<or> num_buckets lh \<le> num_items lh)"

lemma OPENSSL_malloc_succeeds: "\<forall>n. malloc n \<noteq> None \<Longrightarrow> OPENSSL_malloc malloc n \<noteq> None"
  by (auto simp: OPENSSL_malloc_def split: option.split)

lemma lh_rebucket_succeeds:
  assumes "\<forall>n. malloc n \<noteq> None" "sizeof_pointer * n < SIZE_LIMIT"
  shows "num_buckets (lh_rebucket malloc lh n) = n" "num_items (lh_rebucket malloc lh n) = num_items lh"
    "callback_depth (lh_rebucket malloc lh n) = callback_depth lh"
  using not_None_eq [THEN iffD1, OF OPENSSL_malloc_succeeds [OF assms(1), of "sizeof_pointer * n"]] assms(2)
  by (auto simp: lh_rebucket_def size_mul_exact Let_def sizeof_pointer_def)

lemma lh_maybe_resize_balanced:
  assumes "callback_depth lh = 0" "kMinNumBuckets \<le> num_buckets lh" "2 * (sizeof_pointer * num_buckets lh) < SIZE_LIMIT"
    and n: "num_items lh \<le> 3 * num_buckets lh" "num_buckets lh = kMinNumBuckets \<or> num_buckets lh \<le> Suc (num_items lh)"
    and mem: "\<forall>n. malloc n \<noteq> None"
  shows "\<exists>lh'. lh_maybe_resize malloc lh = Some lh' \<and> balanced lh' \<and> callback_depth lh' = 0"
proof -
  let ?n = "num_items lh" and ?b = "num_buckets lh"
  have b: "0 < ?b" "16 \<le> ?b" using assms(2) by (simp_all add: kMinNumBuckets_def)
  have lims: "sizeof_pointer * (?b * 2) < SIZE_LIMIT" "size_mul ?b 2 = ?b * 2" "?b < ?b * 2"
    using assms(3) b by (auto simp: size_mul_exact sizeof_pointer_def)
  have avg: "?n div ?b > 2 \<longleftrightarrow> ?n \<ge> 3 * ?b" "?n div ?b < 1 \<longleftrightarrow> ?n < ?b"
  proof -
    have "?n div ?b > 2 \<longleftrightarrow> 3 \<le> ?n div ?b" by linarith
    then show "?n div ?b > 2 \<longleftrightarrow> ?n \<ge> 3 * ?b" using b by (simp add: less_eq_div_iff_mult_less_eq)
    show "?n div ?b < 1 \<longleftrightarrow> ?n < ?b" using b by (simp add: div_eq_0_iff)
  qed
  show ?thesis
  proof (cases "?n div ?b > 2")
    case True
    then have "?n = 3 * ?b" using avg n(1) by simp
    then show ?thesis
      using True assms(1,2) lims lh_rebucket_succeeds [OF mem lims(1), of lh] b
      by (simp add: lh_maybe_resize_def lhash_limits balanced_def)
  next
    case False
    show ?thesis
    proof (cases "?n < ?b \<and> ?b > 16")
      case True
      obtain m where m: "m = (if ?b div 2 < 16 then 16 else ?b div 2)" by blast
      have m': "sizeof_pointer * m < SIZE_LIMIT" "?n < 3 * m" "m = 16 \<or> m \<le> ?n"
        using True assms(3) n(2) b by (auto simp: m sizeof_pointer_def kMinNumBuckets_def)
      have "lh_maybe_resize malloc lh = Some (lh_rebucket malloc lh m)"
        using True False assms(1,2) avg by (simp add: lh_maybe_resize_def lhash_limits Let_def m)
      then show ?thesis
        using lh_rebucket_succeeds [OF mem m'(1), of lh] assms(1) m'(2,3) by (simp add: balanced_def kMinNumBuckets_def)
    next
      case small: False
      then have "lh_maybe_resize malloc lh = Some lh"
        using False assms(1,2) avg by (auto simp: lh_maybe_resize_def lhash_limits Let_def)
      then show ?thesis
        using False avg small assms(1,2) by (auto simp: balanced_def kMinNumBuckets_def)
    qed
  qed
qed

lemma balanced_insert:
  assumes ok: "lhash_ok key lh" and b: "balanced lh" "callback_depth lh = 0" and lim: "2 * (sizeof_pointer * num_buckets lh) < SIZE_LIMIT"
    and mem: "\<forall>i n. malloc i n \<noteq> None"
  shows "\<exists>old lh'. lh_insert malloc lh v = Some (True, old, lh') \<and> balanced lh' \<and> callback_depth lh' = 0"
proof -
  obtain b i where r: "get_next_ptr_and_hash lh v = Some (lh_hash lh v, b, i)" "b < length (buckets lh)"
    using lookup_chain [OF ok, of v] by metis
  obtain blk where blk: "OPENSSL_malloc (malloc 0) sizeof_LHASH_ITEM = Some blk"
    using OPENSSL_malloc_succeeds [of "malloc 0"] mem by fastforce
  have nb: "kMinNumBuckets \<le> num_buckets lh" using ok by (simp add: lhash_ok_def)
  have n: "size_add (num_items lh) 1 = num_items lh + 1"
    using b(1) lim by (intro size_add_exact) (simp add: balanced_def sizeof_pointer_def)
  let ?lh = "lh\<lparr>buckets := (buckets lh)[b := buckets lh ! b @ [\<lparr>it_data = v, it_hash = lh_hash lh v\<rparr>]],
      num_items := num_items lh + 1\<rparr>"
  obtain lh' where lh': "lh_maybe_resize (malloc 1) ?lh = Some lh'" "balanced lh'" "callback_depth lh' = 0"
    using lh_maybe_resize_balanced [of ?lh "malloc 1"] b lim nb mem by (auto simp: balanced_def)
  show ?thesis
  proof (cases "i < length (buckets lh ! b)")
    case True
    then show ?thesis using r(1) b by (simp add: lh_insert_def Let_def balanced_def)
  next
    case False
    then show ?thesis using r(1) blk lh' n by (simp add: lh_insert_def)
  qed
qed

lemma balanced_delete:
  assumes ok: "lhash_ok key lh" and b: "balanced lh" "callback_depth lh = 0" and lim: "2 * (sizeof_pointer * num_buckets lh) < SIZE_LIMIT"
    and mem: "\<forall>i n. malloc i n \<noteq> None"
  shows "\<exists>old lh'. lh_delete malloc lh v = Some (old, lh') \<and> balanced lh' \<and> callback_depth lh' = 0"
proof -
  obtain b i where r: "get_next_ptr_and_hash lh v = Some (lh_hash lh v, b, i)" "b < length (buckets lh)"
    using lookup_chain [OF ok, of v] by metis
  have nb: "kMinNumBuckets \<le> num_buckets lh" using ok by (simp add: lhash_ok_def)
  show ?thesis
  proof (cases "i < length (buckets lh ! b)")
    case False
    then show ?thesis using r(1) b by (simp add: lh_delete_def)
  next
    case True
    have mem_it: "buckets lh ! b ! i \<in> set (concat (buckets lh))" using True r(2) nth_mem unfolding in_concat_iff by blast
    then have pos: "0 < num_items lh" using ok by (cases "concat (buckets lh)") (auto simp: lhash_ok_def)
    have n: "nat ((int (num_items lh) - 1) mod int SIZE_LIMIT) = num_items lh - 1"
      using b(1) lim pos by (simp add: nat_diff_distrib' balanced_def sizeof_pointer_def)
    let ?lh = "lh\<lparr>buckets := (buckets lh)[b := take i (buckets lh ! b) @ drop (Suc i) (buckets lh ! b)],
        num_items := num_items lh - 1\<rparr>"
    have bd: "num_items lh - 1 \<le> 3 * num_buckets lh"
      "num_buckets lh = kMinNumBuckets \<or> num_buckets lh \<le> Suc (num_items lh - 1)"
      using b(1) pos by (auto simp: balanced_def)
    obtain lh' where lh': "lh_maybe_resize (malloc 0) ?lh = Some lh'" "balanced lh'" "callback_depth lh' = 0"
      using lh_maybe_resize_balanced [of ?lh "malloc 0"] b(2) lim nb mem bd by auto
    then show ?thesis using True r(1) n by (simp add: lh_delete_def)
  qed
qed

text \<open>C30: the chains of a hash table stay short. Starting from a table whose chains hold fewer than 3 items on
  average and whose bucket array has its minimal size or no more buckets than items, outside iterations and
  with memory at hand, insertion and deletion keep both bounds: the table grows before its average chain reaches
  3 and shrinks as soon as it has more buckets than items.\<close>

theorem lhash_load_factor:
  assumes "lhash_ok key lh" "balanced lh" "callback_depth lh = 0" "2 * (sizeof_pointer * num_buckets lh) < SIZE_LIMIT"
    and "\<forall>i n. malloc i n \<noteq> None"
  shows "(\<exists>old lh'. lh_insert malloc lh v = Some (True, old, lh') \<and> balanced lh' \<and> callback_depth lh' = 0) \<and>
    (\<exists>old lh'. lh_delete malloc lh v = Some (old, lh') \<and> balanced lh' \<and> callback_depth lh' = 0)"
  by (intro conjI balanced_insert [OF assms] balanced_delete [OF assms])

theorem lhash_load_factor_witness:
  "\<exists>lh old lh'. lh_new (\<lambda>_ n. Some (replicate n 0)) (\<lambda>s. lh_strhash (Some s)) c_strcmp = Some lh \<and>
     lh_insert (\<lambda>_ n. Some (replicate n 0)) lh [0x61, 0] = Some (True, old, lh') \<and> balanced lh'"
proof -
  obtain lh where lh: "lh_new (\<lambda>_ n. Some (replicate n 0)) (\<lambda>s. lh_strhash (Some s)) c_strcmp = Some lh"
    by (simp add: lh_new_def OPENSSL_malloc_def)
  have sel: "num_buckets lh = kMinNumBuckets" "callback_depth lh = 0"
    using lh by (auto simp: lh_new_def split: if_splits)
  have "balanced lh" using lh_new_ok(3) [OF string_functions lh] by (simp add: balanced_def sel kMinNumBuckets_def)
  moreover have "2 * (sizeof_pointer * num_buckets lh) < SIZE_LIMIT"
    by (simp add: sel kMinNumBuckets_def sizeof_pointer_def SIZE_LIMIT_def)
  ultimately show ?thesis
    using lhash_load_factor [OF lh_new_ok(1) [OF string_functions lh] _ sel(2),
        of "\<lambda>_ n. Some (replicate n 0)" "[0x61, 0]"] lh by blast
qed

end
