(* ===== verification/Const_Time.thy ===== *)
theory Const_Time
  imports C_Prelude
begin

text \<open>
  The constant-time comparisons and selections of \<open>crypto/internal.h\<close>, which compute the answer of a branch
  with arithmetic on whole words, and the lemmas that give each of them its branching meaning. The
  collection \<open>ct\<close> holds those lemmas; the users of these functions (base64, the CBC records of
  TLS, the RSA paddings) rest on it.
\<close>

named_theorems ct \<open>the branching meaning of the constant-time functions\<close>

text \<open>\<open>crypto_word_t\<close> has 64 bits and a C \<open>int\<close> 32; \<open>value_barrier_w\<close> returns its argument (the assembler
  statement in it is empty).\<close>

definition value_barrier_w :: "u64 \<Rightarrow> u64" where
  "value_barrier_w a = a"

definition constant_time_msb_w :: "u64 \<Rightarrow> u64" where
  "constant_time_msb_w a = 0 - drop_bit (8 * 8 - 1) a"

definition constant_time_lt_w :: "u64 \<Rightarrow> u64 \<Rightarrow> u64" where
  "constant_time_lt_w a b = constant_time_msb_w (a XOR ((a XOR b) OR ((a - b) XOR a)))"

definition constant_time_lt_8 :: "u64 \<Rightarrow> u64 \<Rightarrow> u8" where
  "constant_time_lt_8 a b = ucast (constant_time_lt_w a b)"

definition constant_time_ge_w :: "u64 \<Rightarrow> u64 \<Rightarrow> u64" where
  "constant_time_ge_w a b = NOT (constant_time_lt_w a b)"

definition constant_time_ge_8 :: "u64 \<Rightarrow> u64 \<Rightarrow> u8" where
  "constant_time_ge_8 a b = ucast (constant_time_ge_w a b)"

definition constant_time_is_zero_w :: "u64 \<Rightarrow> u64" where
  "constant_time_is_zero_w a = constant_time_msb_w (NOT a AND (a - 1))"

definition constant_time_is_zero_8 :: "u64 \<Rightarrow> u8" where
  "constant_time_is_zero_8 a = ucast (constant_time_is_zero_w a)"

definition constant_time_eq_w :: "u64 \<Rightarrow> u64 \<Rightarrow> u64" where
  "constant_time_eq_w a b = constant_time_is_zero_w (a XOR b)"

definition constant_time_eq_8 :: "u64 \<Rightarrow> u64 \<Rightarrow> u8" where
  "constant_time_eq_8 a b = ucast (constant_time_eq_w a b)"

definition constant_time_eq_int :: "32 word \<Rightarrow> 32 word \<Rightarrow> u64" where
  "constant_time_eq_int a b = constant_time_eq_w (scast a) (scast b)"

definition constant_time_eq_int_8 :: "32 word \<Rightarrow> 32 word \<Rightarrow> u8" where
  "constant_time_eq_int_8 a b = constant_time_eq_8 (scast a) (scast b)"

definition constant_time_select_w :: "u64 \<Rightarrow> u64 \<Rightarrow> u64 \<Rightarrow> u64" where
  "constant_time_select_w msk a b = (value_barrier_w msk AND a) OR (value_barrier_w (NOT msk) AND b)"

definition constant_time_select_8 :: "u8 \<Rightarrow> u8 \<Rightarrow> u8 \<Rightarrow> u8" where
  "constant_time_select_8 msk a b = ucast (constant_time_select_w (ucast msk) (ucast a) (ucast b))"

definition constant_time_select_int :: "u64 \<Rightarrow> 32 word \<Rightarrow> 32 word \<Rightarrow> 32 word" where
  "constant_time_select_int msk a b = ucast (constant_time_select_w msk (scast a) (scast b))"

subsection \<open>Masks\<close>

text \<open>The value that stands for a truth value: all ones or all zeros.\<close>

abbreviation word_of_truth :: "bool \<Rightarrow> 'a::len word" where
  "word_of_truth p \<equiv> (if p then - 1 else 0)"

lemma word64_lt: "unat (a :: u64) < 2 ^ 64"
  by transfer (simp add: take_bit_eq_mod nat_less_iff)

lemma bit_63: "bit (a :: u64) 63 \<longleftrightarrow> 2 ^ 63 \<le> unat a"
proof -
  have "bit a 63 \<longleftrightarrow> bit (unat a) 63" by (simp add: bit_unsigned_iff)
  moreover have "unat a < 2 ^ 64" using word64_lt [of a] by simp
  then have "unat a div 2 ^ 63 = (if 2 ^ 63 \<le> unat a then 1 else 0)" by (simp add: div_nat_eqI)
  ultimately show ?thesis by (simp add: bit_iff_odd)
qed

lemma msb_w [ct]: "constant_time_msb_w a = word_of_truth (bit a 63)"
proof -
  have "drop_bit 63 a = (if bit a 63 then 1 else 0)"
  proof (rule bit_word_eqI)
    fix n assume "n < LENGTH(64)"
    show "bit (drop_bit 63 a) n = bit (if bit a 63 then 1 else 0 :: u64) n"
      using bit_imp_le_length [of a "63 + n"] by (cases n) (auto simp: bit_simps)
  qed
  then show ?thesis by (simp add: constant_time_msb_w_def)
qed

lemma unat_minus_wrap: "unat (a - b :: u64) = (if unat b \<le> unat a then unat a - unat b else unat a + 2 ^ 64 - unat b)"
  using unat_sub_if' [of a b] by simp

lemma lt_w [ct]: "constant_time_lt_w a b = word_of_truth (a < b)"
proof -
  have "bit (a XOR ((a XOR b) OR ((a - b) XOR a))) 63 \<longleftrightarrow> a < b"
    using word64_lt [of a] word64_lt [of b]
    by (simp add: bit_or_iff bit_xor_iff) (auto simp: bit_63 unat_minus_wrap word_less_nat_alt split: if_splits)
  then show ?thesis by (simp add: constant_time_lt_w_def msb_w)
qed

lemma ge_w [ct]: "constant_time_ge_w a b = word_of_truth (b \<le> a)"
  by (auto simp: constant_time_ge_w_def lt_w)

lemma is_zero_w [ct]: "constant_time_is_zero_w a = word_of_truth (a = 0)"
proof -
  have "bit (NOT a AND (a - 1)) 63 \<longleftrightarrow> a = 0"
    using word64_lt [of a]
    by (simp add: bit_and_iff bit_not_iff) (auto simp: bit_63 unat_minus_wrap word_unat_eq_iff split: if_splits)
  then show ?thesis by (simp add: constant_time_is_zero_w_def msb_w)
qed

lemma xor_zero_iff: "a XOR b = 0 \<longleftrightarrow> a = b" for a b :: "'a::len word"
proof
  assume "a XOR b = 0"
  then have "a XOR (a XOR b) = a" by simp
  then show "a = b" by (simp add: xor.assoc [symmetric])
qed simp

lemma eq_w [ct]: "constant_time_eq_w a b = word_of_truth (a = b)"
  by (simp add: constant_time_eq_w_def is_zero_w xor_zero_iff)

lemma ucast_truth [simp]: "LENGTH('b) \<le> LENGTH('a) \<Longrightarrow> (ucast (- 1 :: 'a::len word) :: 'b::len word) = - 1"
  by (rule bit_word_eqI) (simp add: bit_unsigned_iff)

lemma ct_8 [ct]:
  "constant_time_lt_8 a b = word_of_truth (a < b)" "constant_time_ge_8 a b = word_of_truth (b \<le> a)"
  "constant_time_is_zero_8 a = word_of_truth (a = 0)" "constant_time_eq_8 a b = word_of_truth (a = b)"
  by (auto simp: constant_time_lt_8_def constant_time_ge_8_def constant_time_is_zero_8_def constant_time_eq_8_def ct)

lemma ucast_scast_int: "(ucast (scast a :: u64) :: 32 word) = a" for a :: "32 word"
  by (rule bit_word_eqI) (auto simp: bit_simps)

lemma scast_int_inject: "(scast a :: u64) = scast b \<longleftrightarrow> a = b" for a b :: "32 word"
  by (metis ucast_scast_int)

lemma ct_int [ct]:
  "constant_time_eq_int a b = word_of_truth (a = b)" "constant_time_eq_int_8 a b = word_of_truth (a = b)"
  by (auto simp: constant_time_eq_int_def constant_time_eq_int_8_def ct scast_int_inject)

lemma select_w [ct]: "constant_time_select_w (word_of_truth p) a b = (if p then a else b)"
  by (simp add: constant_time_select_w_def value_barrier_w_def)

lemma select_8 [ct]: "constant_time_select_8 (word_of_truth p) a b = (if p then a else b)"
proof -
  have "ucast ((ucast (- 1 :: u8) :: u64) AND ucast a OR NOT (ucast (- 1 :: u8)) AND ucast b) = a"
    by (rule bit_word_eqI) (auto simp: bit_simps)
  moreover have "ucast (ucast b :: u64) = b" by (rule bit_word_eqI) (auto simp: bit_simps)
  ultimately show ?thesis by (simp add: constant_time_select_8_def constant_time_select_w_def value_barrier_w_def)
qed

lemma select_int [ct]: "constant_time_select_int (word_of_truth p) a b = (if p then a else b)"
  by (simp add: constant_time_select_int_def ct ucast_scast_int)

end
