(* ===== verification/Base64.thy ===== *)
theory Base64
  imports Const_Time
begin

text \<open>
  Base64 (\<open>crypto/base64/base64.c\<close>): the constant-time alphabet, the one-shot and the
  streaming encoder, the streaming decoder with its whitespace and padding rules, and the strict
  one-shot decoders.
\<close>

subsection \<open>The alphabet\<close>

definition constant_time_lt_args_8 :: "u8 \<Rightarrow> u8 \<Rightarrow> u8" where
  "constant_time_lt_args_8 a b = ucast (constant_time_msb_w (ucast a - ucast b))"

text \<open>\<open>hi - lo + 1\<close> is computed in \<open>int\<close> and converted to the \<open>uint8_t\<close> parameter.\<close>

definition constant_time_in_range_8 :: "u8 \<Rightarrow> u8 \<Rightarrow> u8 \<Rightarrow> u8" where
  "constant_time_in_range_8 a lo hi = constant_time_lt_args_8 (a - lo) (hi - lo + 1)"

lemma lt_args_8 [ct]: "constant_time_lt_args_8 a b = word_of_truth (a < b)"
proof -
  have "unat (ucast a :: u64) = unat a" "unat (ucast b :: u64) = unat b" by (simp_all add: unat_ucast_up)
  then have "bit (ucast a - ucast b :: u64) 63 \<longleftrightarrow> a < b"
    by (auto simp: bit_63 unat_minus_wrap word_less_nat_alt) (use unat_u8_lt [of a] unat_u8_lt [of b] in linarith)+
  then show ?thesis by (simp add: constant_time_lt_args_8_def ct)
qed

lemma ucast_u8_eq: "(ucast a :: u64) = ucast b \<longleftrightarrow> a = b" for a b :: u8
  by (simp add: word_unat_eq_iff unat_ucast_up)

subsection \<open>Encoding\<close>

definition conv_bin2ascii :: "u8 \<Rightarrow> u8" where
  "conv_bin2ascii a0 =
     (let a = a0 AND 0x3f;
          ret = constant_time_select_8 (constant_time_eq_8 (ucast a) 62) 0x2B 0x2F;
          ret = constant_time_select_8 (constant_time_lt_args_8 a 62) (a - 52 + 0x30) ret;
          ret = constant_time_select_8 (constant_time_lt_args_8 a 52) (a - 26 + 0x61) ret;
          ret = constant_time_select_8 (constant_time_lt_args_8 a 26) (a + 0x41) ret
      in ret)"

definition EVP_EncodedLength :: "nat \<Rightarrow> nat option" where
  "EVP_EncodedLength len0 =
     (if size_add len0 2 < len0 then None
      else let len = size_add len0 2 div 3 in
        if size_mul len 4 div 4 \<noteq> len then None
        else let len = size_mul len 4 in
          if size_add len 1 < len then None else Some (size_add len 1))"

text \<open>The characters written at \<open>dst\<close>, without the null byte after them; their number is the result.\<close>

definition quad3 :: "u32 \<Rightarrow> u8 list" where
  "quad3 l = [conv_bin2ascii (ucast (drop_bit 18 l)), conv_bin2ascii (ucast (drop_bit 12 l)),
     conv_bin2ascii (ucast (drop_bit 6 l)), conv_bin2ascii (ucast l)]"

fun EVP_EncodeBlock :: "u8 list \<Rightarrow> u8 list" where
  "EVP_EncodeBlock (a # b # c # src) =
     quad3 (push_bit 16 (ucast a) OR push_bit 8 (ucast b) OR ucast c) @ EVP_EncodeBlock src"
| "EVP_EncodeBlock [a, b] =
     (let l = push_bit 16 (ucast a) OR push_bit 8 (ucast b) :: u32 in
      [conv_bin2ascii (ucast (drop_bit 18 l)), conv_bin2ascii (ucast (drop_bit 12 l)),
       conv_bin2ascii (ucast (drop_bit 6 l)), 0x3D])"
| "EVP_EncodeBlock [a] =
     (let l = push_bit 16 (ucast a) :: u32 in
      [conv_bin2ascii (ucast (drop_bit 18 l)), conv_bin2ascii (ucast (drop_bit 12 l)), 0x3D, 0x3D])"
| "EVP_EncodeBlock [] = []"

text \<open>\<open>data\<close> has \<open>sizeof_data\<close> bytes. A context of the decoder keeps \<open>data_used\<close> below 4 between the turns of its
  loop (\<open>decode_char_used\<close>), so its writes at \<open>data_used\<close> stay inside.\<close>

record EVP_ENCODE_CTX =
  data_used :: nat
  b64_data :: "u8 list"
  eof_seen :: bool
  error_encountered :: bool

definition sizeof_data :: nat where "sizeof_data = 48"

definition EVP_EncodeInit :: EVP_ENCODE_CTX where
  "EVP_EncodeInit = \<lparr>data_used = 0, b64_data = replicate sizeof_data 0, eof_seen = False, error_encountered = False\<rparr>"

text \<open>The loop over whole lines: \<open>tot\<close> and the characters written so far (each null byte is overwritten by
  what follows it, up to the last); \<open>False\<close> is the early return when the counter would wrap around.\<close>

function encode_lines :: "u8 list \<Rightarrow> nat \<Rightarrow> u8 list \<Rightarrow> bool \<times> u8 list \<times> nat \<times> u8 list" where
  "encode_lines src tot out =
     (if length src \<ge> sizeof_data then
        let block = EVP_EncodeBlock (take sizeof_data src); encoded = length block in
        if size_add (size_add tot encoded) 1 < tot then (False, drop sizeof_data src, tot, out @ block @ [0x0A])
        else encode_lines (drop sizeof_data src) (size_add (size_add tot encoded) 1) (out @ block @ [0x0A])
      else (True, src, tot, out))"
  by auto
termination
  by (relation "measure (\<lambda>(src, tot, out). length src)") (auto simp: sizeof_data_def)

declare encode_lines.simps [simp del]

text \<open>The characters written, \<open>*out_len\<close>, and the context. \<open>None\<close> is the failed assertion.\<close>

definition EVP_EncodeUpdate :: "EVP_ENCODE_CTX \<Rightarrow> u8 list \<Rightarrow> (u8 list \<times> int \<times> EVP_ENCODE_CTX) option" where
  "EVP_EncodeUpdate ctx src =
     (if length src = 0 then Some ([], 0, ctx)
      else if \<not> data_used ctx < sizeof_data then None
      else if sizeof_data - data_used ctx > length src then
        Some ([], 0, ctx\<lparr>b64_data := copy_bytes (b64_data ctx) (data_used ctx) src, data_used := data_used ctx + length src\<rparr>)
      else
        let (src, tot, out, ctx) =
              (if data_used ctx \<noteq> 0 then
                 let todo = sizeof_data - data_used ctx;
                     data = copy_bytes (b64_data ctx) (data_used ctx) (take todo src);
                     block = EVP_EncodeBlock data
                 in (drop todo src, length block + 1, block @ [0x0A], ctx\<lparr>b64_data := data, data_used := 0\<rparr>)
               else (src, 0, [], ctx))
        in case encode_lines src tot out of
             (False, _, _, out) \<Rightarrow> Some (out, 0, ctx)
           | (True, src, tot, out) \<Rightarrow>
               Some (out, if int tot > INT_MAX then 0 else int tot,
                     ctx\<lparr>b64_data := copy_bytes (b64_data ctx) 0 src, data_used := length src\<rparr>))"

definition EVP_EncodeFinal :: "EVP_ENCODE_CTX \<Rightarrow> u8 list \<times> int \<times> EVP_ENCODE_CTX" where
  "EVP_EncodeFinal ctx =
     (if data_used ctx = 0 then ([], 0, ctx)
      else let out = EVP_EncodeBlock (take (data_used ctx) (b64_data ctx)) @ [0x0A]
           in (out, int (length out), ctx\<lparr>data_used := 0\<rparr>))"

subsection \<open>Decoding\<close>

definition EVP_DecodedLength :: "nat \<Rightarrow> nat option" where
  "EVP_DecodedLength len = (if len mod 4 \<noteq> 0 then None else Some (len div 4 * 3))"

definition EVP_DecodeInit :: EVP_ENCODE_CTX where
  "EVP_DecodeInit = \<lparr>data_used = 0, b64_data = replicate sizeof_data 0, eof_seen = False, error_encountered = False\<rparr>"

definition base64_ascii_to_bin :: "u8 \<Rightarrow> u8" where
  "base64_ascii_to_bin a =
     (let is_upper = constant_time_in_range_8 a 0x41 0x5A;
          is_lower = constant_time_in_range_8 a 0x61 0x7A;
          is_digit = constant_time_in_range_8 a 0x30 0x39;
          is_plus = constant_time_eq_8 (ucast a) 0x2B;
          is_slash = constant_time_eq_8 (ucast a) 0x2F;
          is_equals = constant_time_eq_8 (ucast a) 0x3D;
          ret = 0xff;
          ret = constant_time_select_8 is_upper (a - 0x41) ret;
          ret = constant_time_select_8 is_lower (a - 0x61 + 26) ret;
          ret = constant_time_select_8 is_digit (a - 0x30 + 52) ret;
          ret = constant_time_select_8 is_plus 62 ret;
          ret = constant_time_select_8 is_slash 63 ret;
          ret = constant_time_select_8 is_equals 0 ret
      in ret)"

text \<open>The bytes written for the four characters, or failure.\<close>

definition base64_decode_quad :: "u8 \<Rightarrow> u8 \<Rightarrow> u8 \<Rightarrow> u8 \<Rightarrow> u8 list option" where
  "base64_decode_quad in0 in1 in2 in3 =
     (let a = base64_ascii_to_bin in0; b = base64_ascii_to_bin in1;
          c = base64_ascii_to_bin in2; d = base64_ascii_to_bin in3 in
      if a = 0xff \<or> b = 0xff \<or> c = 0xff \<or> d = 0xff then None
      else let v = push_bit 18 (ucast a) OR push_bit 12 (ucast b) OR push_bit 6 (ucast c) OR ucast d :: u32 in
        case (in0 = 0x3D, in1 = 0x3D, in2 = 0x3D, in3 = 0x3D) of
          (False, False, False, False) \<Rightarrow> Some [ucast (drop_bit 16 v), ucast (drop_bit 8 v), ucast v]
        | (False, False, False, True) \<Rightarrow> Some [ucast (drop_bit 16 v), ucast (drop_bit 8 v)]
        | (False, False, True, True) \<Rightarrow> Some [ucast (drop_bit 16 v)]
        | _ \<Rightarrow> None)"

definition is_b64_space :: "u8 \<Rightarrow> bool" where
  "is_b64_space c \<longleftrightarrow> c = 0x20 \<or> c = 0x09 \<or> c = 0x0D \<or> c = 0x0A"

text \<open>One turn of the loop of \<open>EVP_DecodeUpdate\<close>: whether to go on, and the bytes written.\<close>

definition decode_char :: "EVP_ENCODE_CTX \<Rightarrow> u8 \<Rightarrow> bool \<times> u8 list \<times> EVP_ENCODE_CTX" where
  "decode_char ctx c =
     (if is_b64_space c then (True, [], ctx)
      else if eof_seen ctx then (False, [], ctx\<lparr>error_encountered := True\<rparr>)
      else let ctx = ctx\<lparr>b64_data := (b64_data ctx)[data_used ctx := c], data_used := data_used ctx + 1\<rparr> in
        if data_used ctx = 4 then
          (case base64_decode_quad (b64_data ctx ! 0) (b64_data ctx ! 1) (b64_data ctx ! 2) (b64_data ctx ! 3) of
             None \<Rightarrow> (False, [], ctx\<lparr>error_encountered := True\<rparr>)
           | Some bs \<Rightarrow> (True, bs, ctx\<lparr>data_used := 0, eof_seen := (eof_seen ctx \<or> length bs < 3)\<rparr>))
        else (True, [], ctx))"

fun decode_loop :: "EVP_ENCODE_CTX \<Rightarrow> u8 list \<Rightarrow> bool \<times> u8 list \<times> EVP_ENCODE_CTX" where
  "decode_loop ctx [] = (True, [], ctx)"
| "decode_loop ctx (c # cs) =
     (case decode_char ctx c of
        (False, bs, ctx) \<Rightarrow> (False, bs, ctx)
      | (True, bs, ctx) \<Rightarrow> (case decode_loop ctx cs of (ok, bs', ctx) \<Rightarrow> (ok, bs @ bs', ctx)))"

text \<open>(result, the bytes written, \<open>*out_len\<close>, the context)\<close>

definition EVP_DecodeUpdate :: "EVP_ENCODE_CTX \<Rightarrow> u8 list \<Rightarrow> int \<times> u8 list \<times> int \<times> EVP_ENCODE_CTX" where
  "EVP_DecodeUpdate ctx src =
     (if error_encountered ctx then (-1, [], 0, ctx)
      else case decode_loop ctx src of
        (False, bs, ctx) \<Rightarrow> (-1, bs, 0, ctx)
      | (True, bs, ctx) \<Rightarrow>
          if int (length bs) > INT_MAX then (-1, bs, 0, ctx\<lparr>error_encountered := True\<rparr>)
          else (if eof_seen ctx then 0 else 1, bs, int (length bs), ctx))"

definition EVP_DecodeFinal :: "EVP_ENCODE_CTX \<Rightarrow> int \<times> int" where
  "EVP_DecodeFinal ctx = (if error_encountered ctx \<or> data_used ctx \<noteq> 0 then (-1, 0) else (1, 0))"

text \<open>The loop of \<open>EVP_DecodeBase64\<close> over the quads of \<open>src\<close>.\<close>

fun decode_quads :: "u8 list \<Rightarrow> u8 list option" where
  "decode_quads (a # b # c # d # src) =
     (case base64_decode_quad a b c d of
        None \<Rightarrow> None
      | Some bs \<Rightarrow>
          if length bs \<noteq> 3 \<and> src \<noteq> [] then None
          else map_option (\<lambda>r. bs @ r) (decode_quads src))"
| "decode_quads _ = Some []"

definition EVP_DecodeBase64 :: "nat \<Rightarrow> u8 list \<Rightarrow> u8 list option" where
  "EVP_DecodeBase64 max_out src =
     (if length src mod 4 \<noteq> 0 then None
      else case EVP_DecodedLength (length src) of
        None \<Rightarrow> None
      | Some max_len \<Rightarrow> if max_out < max_len then None else decode_quads src)"

definition trim_start :: "u8 list \<Rightarrow> u8 list" where
  "trim_start src = dropWhile (\<lambda>c. c = 0x20 \<or> c = 0x09) src"

definition trim_end :: "u8 list \<Rightarrow> u8 list" where
  "trim_end src = rev (dropWhile is_b64_space (rev src))"

text \<open>The bytes written, their number being the result; \<open>None\<close> for \<open>-1\<close>.\<close>

definition EVP_DecodeBlock :: "u8 list \<Rightarrow> u8 list option" where
  "EVP_DecodeBlock src0 =
     (let src = trim_end (trim_start src0) in
      case EVP_DecodedLength (length src) of
        None \<Rightarrow> None
      | Some dst_len \<Rightarrow>
          if int dst_len > INT_MAX then None
          else map_option (\<lambda>dst. dst @ replicate ((3 - length dst mod 3) mod 3) 0) (EVP_DecodeBase64 dst_len src))"

subsection \<open>The alphabet and its inverse\<close>

lemma conv_bin2ascii_cases:
  "conv_bin2ascii a0 =
     (let a = a0 AND 0x3F in
      if a < 26 then a + 0x41 else if a < 52 then a - 26 + 0x61 else if a < 62 then a - 52 + 0x30
      else if a = 62 then 0x2B else 0x2F)"
proof -
  have "ucast x = (62 :: u64) \<longleftrightarrow> x = 62" for x :: u8
    using ucast_u8_eq [of x 62] by simp
  then show ?thesis by (simp add: conv_bin2ascii_def ct Let_def)
qed

lemma in_range_8 [ct]: "lo \<le> hi \<Longrightarrow> hi - lo < 255 \<Longrightarrow> constant_time_in_range_8 a lo hi = word_of_truth (lo \<le> a \<and> a \<le> hi)"
  by (auto simp: constant_time_in_range_8_def ct word_less_nat_alt word_le_nat_alt unat_sub_if' unat_plus_if' split: if_splits)
    (use unat_u8_lt [of hi] in linarith)+

lemma base64_ascii_to_bin_cases:
  "base64_ascii_to_bin a =
     (if a = 0x3D then 0 else if a = 0x2F then 63 else if a = 0x2B then 62
      else if 0x30 \<le> a \<and> a \<le> 0x39 then a - 0x30 + 52
      else if 0x61 \<le> a \<and> a \<le> 0x7A then a - 0x61 + 26
      else if 0x41 \<le> a \<and> a \<le> 0x5A then a - 0x41 else 0xFF)"
proof -
  have "ucast a = (0x2B :: u64) \<longleftrightarrow> a = 0x2B" "ucast a = (0x2F :: u64) \<longleftrightarrow> a = 0x2F" "ucast a = (0x3D :: u64) \<longleftrightarrow> a = 0x3D"
    using ucast_u8_eq [of a "0x2B"] ucast_u8_eq [of a "0x2F"] ucast_u8_eq [of a "0x3D"] by simp_all
  then show ?thesis by (simp add: base64_ascii_to_bin_def ct Let_def)
qed

lemma alphabet:
  "base64_ascii_to_bin (conv_bin2ascii a) = a AND 0x3F" "conv_bin2ascii a \<noteq> 0x3D" "\<not> is_b64_space (conv_bin2ascii a)"
proof -
  obtain s where s: "s = a AND 0x3F" by blast
  have "unat (a AND 0x3F) = unat a mod 2 ^ 6"
    using unat_and_mask [of a 6] by (simp add: mask_eq_exp_minus_1)
  then have lt: "unat s < 64" by (simp add: s)
  consider "unat s < 26" | "26 \<le> unat s" "unat s < 52" | "52 \<le> unat s" "unat s < 62" | "s = 62" | "s = 63"
    using lt by (force simp: word_unat_eq_iff)
  then have "base64_ascii_to_bin (conv_bin2ascii a) = s \<and> conv_bin2ascii a \<noteq> 0x3D \<and> \<not> is_b64_space (conv_bin2ascii a)"
    by cases (auto simp: conv_bin2ascii_cases base64_ascii_to_bin_cases is_b64_space_def Let_def s [symmetric]
      word_less_nat_alt word_le_nat_alt word_unat_eq_iff unat_sub_if' unat_plus_if')
  then show "base64_ascii_to_bin (conv_bin2ascii a) = a AND 0x3F" "conv_bin2ascii a \<noteq> 0x3D" "\<not> is_b64_space (conv_bin2ascii a)"
    by (simp_all add: s)
qed

lemma sextet_not_ff: "a AND 0x3F \<noteq> (0xFF :: u8)"
proof
  assume "a AND 0x3F = 0xFF"
  then have "bit (a AND 0x3F) 7 = bit (0xFF :: u8) 7" by simp
  then show False by (simp add: bit_and_iff bit_numeral_simps)
qed

subsection \<open>Quads\<close>

lemma unpack3:
  fixes a b c :: u8
  defines "l \<equiv> push_bit 16 (ucast a) OR push_bit 8 (ucast b) OR ucast c :: u32"
  defines "v \<equiv> push_bit 18 (ucast ((ucast (drop_bit 18 l) :: u8) AND 0x3F)) OR push_bit 12 (ucast ((ucast (drop_bit 12 l) :: u8) AND 0x3F))
      OR push_bit 6 (ucast ((ucast (drop_bit 6 l) :: u8) AND 0x3F)) OR ucast ((ucast l :: u8) AND 0x3F) :: u32"
  shows "v = l"
proof -
  have l24: "bit l i \<Longrightarrow> i < 24" for i
    unfolding l_def by (auto simp: bit_simps dest: bit_imp_le_length)
  show ?thesis
  proof (rule bit_word_eqI)
    fix i assume "i < LENGTH(32)"
    have m: "bit (0x3F :: u8) k \<longleftrightarrow> k < 6" for k
      using bit_mask_iff [of 6 k, where 'a = "8 word"] by (auto simp: mask_eq_exp_minus_1)
    have m': "bit (0x3F :: int) k \<longleftrightarrow> k < 6" for k
      using bit_mask_iff [of 6 k, where 'a = int] by (simp add: mask_eq_exp_minus_1)
    consider "i < 6" | "6 \<le> i" "i < 12" | "12 \<le> i" "i < 18" | "18 \<le> i" "i < 24" | "24 \<le> i" "i < 32" "\<not> bit l i"
      using l24 [of i] \<open>i < LENGTH(32)\<close> by fastforce
    then show "bit v i = bit l i"
      unfolding v_def by cases (auto simp: bit_simps m m')
  qed
qed

end
