(* ===== verification/Base64_Stream.thy ===== *)
theory Base64_Stream
  imports Base64
begin

text \<open>
  What the base64 functions of \<open>Base64\<close> achieve together: the decoder undoes the encoder on a quad, on a block and on
  a stream, however the message and the text are cut into pieces.
\<close>

subsection \<open>One quad\<close>

lemma decode_quad3:
  assumes l: "l = (push_bit 16 (ucast a) OR push_bit 8 (ucast b) OR ucast c :: u32)"
  shows "base64_decode_quad (conv_bin2ascii (ucast (drop_bit 18 l))) (conv_bin2ascii (ucast (drop_bit 12 l)))
     (conv_bin2ascii (ucast (drop_bit 6 l))) (conv_bin2ascii (ucast l)) = Some [a, b, c]"
proof -
  have "ucast (drop_bit 16 l) = a" "ucast (drop_bit 8 l) = b" "ucast l = c"
    by (rule bit_word_eqI; auto simp: l bit_simps dest: bit_imp_le_length)+
  then show ?thesis
    using unpack3 [of a b c] by (simp add: base64_decode_quad_def alphabet sextet_not_ff l)
qed

lemma low_sextet: "ucast (push_bit 16 (ucast a) OR push_bit 8 (ucast b) :: u32) AND (0x3F :: u8) = 0"
  "ucast (drop_bit 6 (push_bit 16 (ucast a) :: u32)) AND (0x3F :: u8) = 0"
  "ucast (push_bit 16 (ucast a) :: u32) AND (0x3F :: u8) = 0" for a b :: u8
proof -
  have m: "bit (0x3F :: u8) k \<longleftrightarrow> k < 6" for k
    using bit_mask_iff [of 6 k, where 'a = "8 word"] by (auto simp: mask_eq_exp_minus_1)
  show "ucast (push_bit 16 (ucast a) OR push_bit 8 (ucast b) :: u32) AND (0x3F :: u8) = 0"
    "ucast (drop_bit 6 (push_bit 16 (ucast a) :: u32)) AND (0x3F :: u8) = 0"
    "ucast (push_bit 16 (ucast a) :: u32) AND (0x3F :: u8) = 0"
    by (rule bit_word_eqI; auto simp: bit_simps m)+
qed

lemma base64_equals: "base64_ascii_to_bin 0x3D = 0"
  by (simp add: base64_ascii_to_bin_cases)

lemma decode_quad2:
  assumes l: "l = (push_bit 16 (ucast a) OR push_bit 8 (ucast b) :: u32)"
  shows "base64_decode_quad (conv_bin2ascii (ucast (drop_bit 18 l))) (conv_bin2ascii (ucast (drop_bit 12 l)))
     (conv_bin2ascii (ucast (drop_bit 6 l))) 0x3D = Some [a, b]"
proof -
  have "ucast (drop_bit 16 l) = a" "ucast (drop_bit 8 l) = b"
    by (rule bit_word_eqI; auto simp: l bit_simps dest: bit_imp_le_length)+
  then show ?thesis
    using unpack3 [of a b 0] low_sextet(1) [of a b]
    by (simp add: base64_decode_quad_def alphabet sextet_not_ff base64_equals l)
qed

lemma decode_quad1:
  assumes l: "l = (push_bit 16 (ucast a) :: u32)"
  shows "base64_decode_quad (conv_bin2ascii (ucast (drop_bit 18 l))) (conv_bin2ascii (ucast (drop_bit 12 l))) 0x3D 0x3D = Some [a]"
proof -
  have "ucast (drop_bit 16 l) = a"
    by (rule bit_word_eqI; auto simp: l bit_simps dest: bit_imp_le_length)+
  then show ?thesis
    using unpack3 [of a 0 0] low_sextet(2,3) [of a]
    by (simp add: base64_decode_quad_def alphabet sextet_not_ff base64_equals l)
qed

text \<open>A quad of the encoder: four characters that are not whitespace and decode to the bytes.\<close>

definition quad_of :: "u8 list \<Rightarrow> u8 list \<Rightarrow> bool" where
  "quad_of q bs \<longleftrightarrow> length q = 4 \<and> base64_decode_quad (q ! 0) (q ! 1) (q ! 2) (q ! 3) = Some bs \<and> (\<forall>c \<in> set q. \<not> is_b64_space c)"

lemma equals_not_space: "\<not> is_b64_space 0x3D"
  by (simp add: is_b64_space_def)

lemma quad_3: "quad_of (quad3 (push_bit 16 (ucast a) OR push_bit 8 (ucast b) OR ucast c)) [a, b, c]"
  using decode_quad3 [OF refl, of a b c] by (simp only: quad_of_def quad3_def) (simp add: alphabet del: drop_bit_or)

lemma quad_2: "quad_of (EVP_EncodeBlock [a, b]) [a, b]"
  using decode_quad2 [OF refl, of a b]
  by (simp only: quad_of_def EVP_EncodeBlock.simps Let_def) (simp add: alphabet equals_not_space del: drop_bit_or)

lemma quad_1: "quad_of (EVP_EncodeBlock [a]) [a]"
  using decode_quad1 [OF refl, of a]
  by (simp only: quad_of_def EVP_EncodeBlock.simps Let_def) (simp add: alphabet equals_not_space)

lemma quad_of_list:
  assumes "quad_of q bs"
  obtains w x y z where "q = [w, x, y, z]" "base64_decode_quad w x y z = Some bs"
    "\<not> is_b64_space w" "\<not> is_b64_space x" "\<not> is_b64_space y" "\<not> is_b64_space z"
proof -
  from assms have l: "length q = Suc (Suc (Suc (Suc 0)))" by (simp add: quad_of_def)
  then obtain w x y z where "q = [w, x, y, z]" by (auto simp: length_Suc_conv)
  then show ?thesis using that assms by (simp add: quad_of_def)
qed

lemma decode_quads_quad: "quad_of q bs \<Longrightarrow> length bs = 3 \<or> src = [] \<Longrightarrow> decode_quads (q @ src) = map_option ((@) bs) (decode_quads src)"
  by (erule quad_of_list) auto

lemma decode_quads_encode: "decode_quads (EVP_EncodeBlock bs) = Some bs"
proof (induction bs rule: EVP_EncodeBlock.induct)
  case (2 a b)
  show ?case using decode_quads_quad [OF quad_2 [of a b], of "[]"] by simp
next
  case (3 a)
  show ?case using decode_quads_quad [OF quad_1 [of a], of "[]"] by simp
qed (simp_all add: decode_quads_quad [OF quad_3])

lemma length_EVP_EncodeBlock: "length (EVP_EncodeBlock bs) = (length bs + 2) div 3 * 4"
proof (induction bs rule: EVP_EncodeBlock.induct)
  case (1 a b c src)
  have "(length (a # b # c # src) + 2) div 3 = (length src + 2) div 3 + 1" by simp
  then show ?case using 1 by (simp add: quad3_def)
qed (simp_all add: Let_def)

subsection \<open>The streaming decoder\<close>

text \<open>Between two quads, without an error.\<close>

definition idle :: "EVP_ENCODE_CTX \<Rightarrow> bool" where
  "idle ctx \<longleftrightarrow> data_used ctx = 0 \<and> \<not> error_encountered ctx \<and> 4 \<le> length (b64_data ctx)"

lemma decode_char_used:
  "data_used ctx < 4 \<Longrightarrow> decode_char ctx c = (True, bs, ctx') \<Longrightarrow> data_used ctx' < 4"
  by (auto simp: decode_char_def Let_def split: if_splits option.splits)

lemma decode_loop_append:
  "decode_loop ctx (xs @ ys) =
     (case decode_loop ctx xs of
        (False, bs, c) \<Rightarrow> (False, bs, c)
      | (True, bs, c) \<Rightarrow> (case decode_loop c ys of (ok, bs', c') \<Rightarrow> (ok, bs @ bs', c')))"
  by (induction xs arbitrary: ctx) (auto split: prod.splits bool.splits)

lemma decode_loop_ok: "decode_loop ctx cs = (True, bs, ctx') \<Longrightarrow> error_encountered ctx' = error_encountered ctx"
proof (induction cs arbitrary: ctx bs)
  case (Cons c cs)
  obtain b1 c1 b2 where d: "decode_char ctx c = (True, b1, c1)" "decode_loop c1 cs = (True, b2, ctx')"
    using Cons.prems by (auto split: prod.splits bool.splits)
  have "error_encountered c1 = error_encountered ctx"
    using d(1) by (auto simp: decode_char_def Let_def split: if_splits option.splits)
  then show ?case using Cons.IH [OF d(2)] by simp
qed simp

lemma decode_newline: "decode_loop ctx [0x0A] = (True, [], ctx)"
  by (simp add: decode_char_def is_b64_space_def)

lemma decode_quad:
  assumes "idle ctx" "\<not> eof_seen ctx" "quad_of q bs"
  shows "\<exists>ctx'. decode_loop ctx q = (True, bs, ctx') \<and> idle ctx' \<and> (eof_seen ctx' \<longleftrightarrow> length bs < 3)"
proof -
  obtain w x y z where q: "q = [w, x, y, z]" "base64_decode_quad w x y z = Some bs"
    "\<not> is_b64_space w" "\<not> is_b64_space x" "\<not> is_b64_space y" "\<not> is_b64_space z"
    using assms(3) by (rule quad_of_list)
  have "Suc (Suc (Suc (Suc 0))) \<le> length (b64_data ctx)" using assms(1) by (simp add: idle_def)
  then obtain a b c d ds where "b64_data ctx = a # b # c # d # ds" by (auto simp: Suc_le_length_iff)
  then show ?thesis using assms q by (simp add: idle_def decode_char_def numeral_2_eq_2 numeral_3_eq_3)
qed

lemma decode_block:
  "idle ctx \<Longrightarrow> \<not> eof_seen ctx \<Longrightarrow>
     \<exists>ctx'. decode_loop ctx (EVP_EncodeBlock bs) = (True, bs, ctx') \<and> idle ctx' \<and> (eof_seen ctx' \<longleftrightarrow> length bs mod 3 \<noteq> 0)"
proof (induction bs arbitrary: ctx rule: EVP_EncodeBlock.induct)
  case (1 a b c src)
  obtain c1 where c1: "decode_loop ctx (quad3 (push_bit 16 (ucast a) OR push_bit 8 (ucast b) OR ucast c)) = (True, [a, b, c], c1)"
    "idle c1" "\<not> eof_seen c1"
    using decode_quad [OF 1(2,3) quad_3, of a b c] by auto
  obtain c2 where "decode_loop c1 (EVP_EncodeBlock src) = (True, src, c2)" "idle c2" "eof_seen c2 \<longleftrightarrow> length src mod 3 \<noteq> 0"
    using 1(1) [OF c1(2,3)] by blast
  moreover have "length (a # b # c # src) mod 3 = length src mod 3"
    unfolding list.size by presburger
  ultimately show ?case
    by (intro exI [of _ c2]) (simp add: decode_loop_append c1(1))
next
  case (2 a b)
  show ?case using decode_quad [OF 2 quad_2, of a b] by simp
next
  case (3 a)
  show ?case using decode_quad [OF 3 quad_1, of a] by simp
qed auto

subsection \<open>The text of the streaming encoder\<close>

text \<open>Lines of \<open>sizeof_data\<close> bytes, the last possibly shorter, each followed by a newline.\<close>

function b64_lines :: "u8 list \<Rightarrow> u8 list" where
  "b64_lines bs =
     (if bs = [] then []
      else EVP_EncodeBlock (take sizeof_data bs) @ [0x0A] @ b64_lines (drop sizeof_data bs))"
  by auto
termination by (relation "measure length") (auto simp: sizeof_data_def)

declare b64_lines.simps [simp del]

lemma b64_lines_Nil [simp]: "b64_lines [] = []"
  by (simp add: b64_lines.simps)

lemma b64_lines_append: "sizeof_data dvd length bs \<Longrightarrow> b64_lines (bs @ cs) = b64_lines bs @ b64_lines cs"
proof (induction bs rule: b64_lines.induct)
  case (1 bs)
  show ?case
  proof (cases "bs = []")
    case False
    then have l: "sizeof_data \<le> length bs" using 1(2) by (simp add: dvd_imp_le)
    have "b64_lines (drop sizeof_data bs @ cs) = b64_lines (drop sizeof_data bs) @ b64_lines cs"
      using 1 False l by (simp add: dvd_diff_nat)
    then show ?thesis using False l by (simp add: b64_lines.simps [of "bs @ cs"] b64_lines.simps [of bs])
  qed simp
qed

lemma b64_lines_short: "bs \<noteq> [] \<Longrightarrow> length bs \<le> sizeof_data \<Longrightarrow> b64_lines bs = EVP_EncodeBlock bs @ [0x0A]"
  by (simp add: b64_lines.simps [of bs])

lemma length_b64_lines: "sizeof_data dvd length bs \<Longrightarrow> length (b64_lines bs) = length bs div sizeof_data * 65"
proof (induction bs rule: b64_lines.induct)
  case (1 bs)
  show ?case
  proof (cases "bs = []")
    case False
    then have l: "sizeof_data \<le> length bs" using 1(2) by (simp add: dvd_imp_le)
    have "length (b64_lines (drop sizeof_data bs)) = (length bs - sizeof_data) div sizeof_data * 65"
      using 1 False l by (simp add: dvd_diff_nat)
    moreover have "length (EVP_EncodeBlock (take sizeof_data bs)) = 64"
      using l by (simp add: length_EVP_EncodeBlock sizeof_data_def)
    moreover have "length bs div sizeof_data = Suc ((length bs - sizeof_data) div sizeof_data)"
      using l by (simp add: le_div_geq sizeof_data_def)
    ultimately show ?thesis using False by (simp add: b64_lines.simps [of bs])
  qed simp
qed

lemma decode_lines:
  "idle ctx \<Longrightarrow> \<not> eof_seen ctx \<Longrightarrow> \<exists>ctx'. decode_loop ctx (b64_lines bs) = (True, bs, ctx') \<and> idle ctx'"
proof (induction bs arbitrary: ctx rule: b64_lines.induct)
  case (1 bs)
  show ?case
  proof (cases "bs = []")
    case True
    then show ?thesis using 1 by simp
  next
    case False
    let ?a = "take sizeof_data bs" and ?b = "drop sizeof_data bs"
    obtain c1 where c1: "decode_loop ctx (EVP_EncodeBlock ?a) = (True, ?a, c1)" "idle c1"
      "eof_seen c1 \<longleftrightarrow> length ?a mod 3 \<noteq> 0"
      using decode_block [OF 1(2,3)] by blast
    obtain c2 where c2: "decode_loop c1 (b64_lines ?b) = (True, ?b, c2)" "idle c2"
    proof (cases "?b = []")
      case True
      then show ?thesis using that c1 by simp
    next
      case b: False
      then have "\<not> eof_seen c1" using c1(3) by (simp add: sizeof_data_def)
      then show ?thesis using 1(1) [OF False c1(2)] that by blast
    qed
    then show ?thesis
      using False by (simp add: b64_lines.simps [of bs] decode_loop_append c1(1) decode_newline)
        (simp add: decode_char_def is_b64_space_def)
  qed
qed

lemma encode_lines_eq:
  "tot + length src div sizeof_data * 65 + 1 < SIZE_LIMIT \<Longrightarrow>
     encode_lines src tot out =
       (let k = length src div sizeof_data * sizeof_data in
        (True, drop k src, tot + length src div sizeof_data * 65, out @ b64_lines (take k src)))"
proof (induction src tot out rule: encode_lines.induct)
  case (1 src tot out)
  show ?case
  proof (cases "length src \<ge> sizeof_data")
    case True
    obtain n where n_def: "n = (length src - sizeof_data) div sizeof_data" by blast
    have n: "length src div sizeof_data = Suc n"
      using True by (simp add: n_def le_div_geq sizeof_data_def)
    have e: "length (EVP_EncodeBlock (take sizeof_data src)) = 64"
      using True by (simp add: length_EVP_EncodeBlock sizeof_data_def)
    have s: "size_add (size_add tot 64) 1 = tot + 65"
      using 1(2) n by (simp add: c_arith)
    then have s': "size_add (size_add tot 64) (Suc 0) = tot + 65" by simp
    have ih: "encode_lines (drop sizeof_data src) (tot + 65) (out @ EVP_EncodeBlock (take sizeof_data src) @ [0x0A]) =
       (True, drop (n * sizeof_data) (drop sizeof_data src), tot + 65 + n * 65,
        (out @ EVP_EncodeBlock (take sizeof_data src) @ [0x0A]) @ b64_lines (take (n * sizeof_data) (drop sizeof_data src)))"
      using 1(1) [OF True refl refl] 1(2) n by (simp add: e s s' Let_def n_def)
    have "b64_lines (take (sizeof_data + n * sizeof_data) src) =
       EVP_EncodeBlock (take sizeof_data src) @ [0x0A] @ b64_lines (take (n * sizeof_data) (drop sizeof_data src))"
      using True by (subst b64_lines.simps) (auto simp: min_def drop_take sizeof_data_def)
    then show ?thesis
      using True ih by (subst encode_lines.simps) (simp add: Let_def e s s' n add.commute)
  next
    case False
    then show ?thesis by (simp add: encode_lines.simps [of src] Let_def)
  qed
qed

subsection \<open>Whole streams\<close>

text \<open>A run of the encoder over the pieces of a message: what the caller keeps of each output is its first
  \<open>*out_len\<close> characters. \<open>None\<close> is a failed assertion.\<close>

fun encode_updates :: "EVP_ENCODE_CTX \<Rightarrow> u8 list list \<Rightarrow> (u8 list \<times> EVP_ENCODE_CTX) option" where
  "encode_updates ctx [] = Some ([], ctx)"
| "encode_updates ctx (p # ps) =
     (case EVP_EncodeUpdate ctx p of
        None \<Rightarrow> None
      | Some (out, n, ctx) \<Rightarrow> map_option (\<lambda>(txt, ctx). (take (nat n) out @ txt, ctx)) (encode_updates ctx ps))"

definition encode_stream :: "u8 list list \<Rightarrow> u8 list option" where
  "encode_stream ps =
     map_option (\<lambda>(txt, ctx). case EVP_EncodeFinal ctx of (out, n, _) \<Rightarrow> txt @ take (nat n) out)
       (encode_updates EVP_EncodeInit ps)"

text \<open>A run of the decoder over the pieces of a text; \<open>None\<close> when a call reports an error.\<close>

fun decode_updates :: "EVP_ENCODE_CTX \<Rightarrow> u8 list list \<Rightarrow> (u8 list \<times> EVP_ENCODE_CTX) option" where
  "decode_updates ctx [] = Some ([], ctx)"
| "decode_updates ctx (p # ps) =
     (case EVP_DecodeUpdate ctx p of (r, out, n, ctx) \<Rightarrow>
        if r < 0 then None
        else map_option (\<lambda>(bs, ctx). (take (nat n) out @ bs, ctx)) (decode_updates ctx ps))"

definition decode_stream :: "u8 list list \<Rightarrow> u8 list option" where
  "decode_stream ps =
     (case decode_updates EVP_DecodeInit ps of
        None \<Rightarrow> None
      | Some (bs, ctx) \<Rightarrow> if fst (EVP_DecodeFinal ctx) = 1 then Some bs else None)"

definition enc_holds :: "EVP_ENCODE_CTX \<Rightarrow> u8 list \<Rightarrow> bool" where
  "enc_holds ctx r \<longleftrightarrow> data_used ctx = length r \<and> length r < sizeof_data \<and>
     length (b64_data ctx) = sizeof_data \<and> take (length r) (b64_data ctx) = r"

lemma copy_over: "take (length bs) (copy_bytes dst 0 bs) = bs" if "length bs \<le> length dst"
  using that by (simp add: copy_bytes_splice)

lemma copy_over_drop: "k \<le> length bs \<Longrightarrow> length bs - k \<le> length dst \<Longrightarrow>
    take (length bs - k) (copy_bytes dst 0 (drop k bs)) = drop k bs"
  using copy_over [of "drop k bs" dst] by simp

lemma copy_behind: "take (length a + length bs) (copy_bytes dst (length a) bs) = a @ bs"
  if "take (length a) dst = a" "length a + length bs \<le> length dst"
  using that by (simp add: copy_bytes_splice)

lemma whole_lines:
  assumes "length src \<le> 2 ^ 30"
  defines "m \<equiv> length src div sizeof_data"
  shows "m * 65 + 65 < 2 ^ 31" "m * sizeof_data \<le> length src" "length src - m * sizeof_data < sizeof_data"
    "length (b64_lines (take (m * sizeof_data) src)) = m * 65"
    "65 + m * 65 < 2 ^ 31 \<Longrightarrow> tot \<le> 65 \<Longrightarrow> encode_lines src tot out =
       (True, drop (m * sizeof_data) src, tot + m * 65, out @ b64_lines (take (m * sizeof_data) src))"
proof -
  show m: "m * 65 + 65 < 2 ^ 31" "m * sizeof_data \<le> length src" "length src - m * sizeof_data < sizeof_data"
    using assms(1) by (auto simp: m_def sizeof_data_def minus_div_mult_eq_mod)
  show "length (b64_lines (take (m * sizeof_data) src)) = m * 65"
    using m(2) by (subst length_b64_lines) (simp_all add: sizeof_data_def)
  show "encode_lines src tot out =
       (True, drop (m * sizeof_data) src, tot + m * 65, out @ b64_lines (take (m * sizeof_data) src))"
    if "65 + m * 65 < 2 ^ 31" "tot \<le> 65"
    using encode_lines_eq [of tot src out] that by (simp add: SIZE_LIMIT_def Let_def m_def)
qed

lemma enc_holds_rest:
  assumes "length src - k < sizeof_data" "k \<le> length src" "length d = sizeof_data"
  shows "enc_holds (ctx\<lparr>b64_data := copy_bytes d 0 (drop k src), data_used := length (drop k src)\<rparr>) (drop k src)"
  using assms copy_over_drop [of k src d] by (simp add: enc_holds_def)

lemma EVP_EncodeUpdate_aligned:
  assumes "enc_holds ctx []" "length src \<le> 2 ^ 30" "sizeof_data \<le> length src"
  defines "m \<equiv> length src div sizeof_data"
  shows "EVP_EncodeUpdate ctx src = Some (b64_lines (take (m * sizeof_data) src), int (m * 65),
     ctx\<lparr>b64_data := copy_bytes (b64_data ctx) 0 (drop (m * sizeof_data) src), data_used := length (drop (m * sizeof_data) src)\<rparr>)"
proof -
  have s: "0 < length src" using assms(3) by (auto simp: sizeof_data_def)
  have i: "\<not> int (m * 65) > INT_MAX" using whole_lines(1) [OF assms(2)] by (simp add: INT_MAX_def m_def)
  have e: "encode_lines src 0 [] = (True, drop (m * sizeof_data) src, m * 65, b64_lines (take (m * sizeof_data) src))"
    using whole_lines(1) [OF assms(2)] whole_lines(5) [OF assms(2), of 0 "[]"] by (simp add: m_def)
  show ?thesis
    using assms(1,3) s i by (simp add: EVP_EncodeUpdate_def e enc_holds_def del: of_nat_mult)
qed

lemma EVP_EncodeUpdate_split:
  assumes "enc_holds ctx r" "r \<noteq> []" "length src \<le> 2 ^ 30" "sizeof_data - length r \<le> length src"
  defines "s \<equiv> drop (sizeof_data - length r) src"
  defines "m \<equiv> length s div sizeof_data"
  defines "line \<equiv> r @ take (sizeof_data - length r) src"
  shows "EVP_EncodeUpdate ctx src = Some (b64_lines (line @ take (m * sizeof_data) s), int (65 + m * 65),
     ctx\<lparr>b64_data := copy_bytes line 0 (drop (m * sizeof_data) s), data_used := length (drop (m * sizeof_data) s)\<rparr>)"
    "length (b64_lines (line @ take (m * sizeof_data) s)) = 65 + m * 65" "length line = sizeof_data"
proof -
  have d: "data_used ctx = length r" "length r < sizeof_data" "length (b64_data ctx) = sizeof_data" "take (length r) (b64_data ctx) = r"
    using assms(1) by (auto simp: enc_holds_def)
  have sl: "length s \<le> 2 ^ 30" using assms(3) by (simp add: s_def)
  note w = whole_lines [OF sl, folded m_def]
  show ll: "length line = sizeof_data" using assms(4) d(2) by (simp add: line_def)
  have c: "copy_bytes (b64_data ctx) (length r) (take (sizeof_data - length r) src) = line"
    using copy_behind [of r "b64_data ctx" "take (sizeof_data - length r) src"] d assms(4) by (simp add: line_def)
  have l: "length (EVP_EncodeBlock line) = 64"
    by (simp add: length_EVP_EncodeBlock ll) (simp add: sizeof_data_def)
  have ne: "line \<noteq> []" using assms(2) by (simp add: line_def)
  have lines: "b64_lines line = EVP_EncodeBlock line @ [0x0A]"
    using ne ll by (simp add: b64_lines_short)
  have app: "b64_lines (line @ take (m * sizeof_data) s) = b64_lines line @ b64_lines (take (m * sizeof_data) s)"
    by (simp add: b64_lines_append ll)
  have e: "encode_lines s 65 (b64_lines line) = (True, drop (m * sizeof_data) s, 65 + m * 65, b64_lines line @ b64_lines (take (m * sizeof_data) s))"
    using w(1) w(5) [of 65 "b64_lines line"] by simp
  have i: "\<not> int (65 + m * 65) > INT_MAX" using w(1) by (simp add: INT_MAX_def)
  show "length (b64_lines (line @ take (m * sizeof_data) s)) = 65 + m * 65"
    by (simp add: app lines l w(4))
  have p: "0 < length src" "length r \<noteq> 0" using assms(2,4) d(2) by auto
  have n: "\<not> sizeof_data - data_used ctx > length src" using assms(4) d(1) by simp
  show "EVP_EncodeUpdate ctx src = Some (b64_lines (line @ take (m * sizeof_data) s), int (65 + m * 65),
     ctx\<lparr>b64_data := copy_bytes line 0 (drop (m * sizeof_data) s), data_used := length (drop (m * sizeof_data) s)\<rparr>)"
    using p n d(1,2) i
    by (simp add: EVP_EncodeUpdate_def Let_def c l app e [unfolded lines] lines s_def [symmetric] del: of_nat_mult of_nat_add)
qed

text \<open>The whole lines of what is held and what is new are written, the rest is held.\<close>

lemma EVP_EncodeUpdate_eq:
  assumes "enc_holds ctx r" "length src \<le> 2 ^ 30"
  shows "\<exists>out n ctx' k. EVP_EncodeUpdate ctx src = Some (out, n, ctx') \<and> sizeof_data dvd k \<and> k \<le> length (r @ src) \<and>
     take (nat n) out = b64_lines (take k (r @ src)) \<and> enc_holds ctx' (drop k (r @ src))"
proof -
  have d: "data_used ctx = length r" "length (b64_data ctx) = sizeof_data" using assms(1) by (auto simp: enc_holds_def)
  consider "src = [] \<or> sizeof_data - data_used ctx > length src"
    | "r = []" "sizeof_data \<le> length src" | "r \<noteq> []" "sizeof_data - length r \<le> length src"
    using d by fastforce
  then show ?thesis
  proof cases
    case 1
    then show ?thesis
      using assms by (auto simp: EVP_EncodeUpdate_def enc_holds_def copy_behind copy_over intro!: exI [of _ 0])
  next
    case 2
    let ?k = "length src div sizeof_data * sizeof_data"
    note w = whole_lines [OF assms(2)]
    have "enc_holds (ctx\<lparr>b64_data := copy_bytes (b64_data ctx) 0 (drop ?k src), data_used := length (drop ?k src)\<rparr>) (drop ?k src)"
      using w(2,3) d(2) by (intro enc_holds_rest) auto
    then show ?thesis
      using EVP_EncodeUpdate_aligned [OF _ assms(2) 2(2), of ctx] assms(1) 2(1) w(2,4)
      by (intro exI [of _ "b64_lines (take ?k src)"] exI [of _ "int (length src div sizeof_data * 65)"] exI [of _ ?k] exI)
        (auto simp del: of_nat_mult)
  next
    case 3
    let ?s = "drop (sizeof_data - length r) src"
    let ?line = "r @ take (sizeof_data - length r) src"
    let ?k = "length ?s div sizeof_data * sizeof_data"
    have sl: "length ?s \<le> 2 ^ 30" using assms(2) by simp
    note u = EVP_EncodeUpdate_split [OF assms(1) 3(1) assms(2) 3(2)]
    note w = whole_lines [OF sl]
    have s: "r @ src = ?line @ ?s" by simp
    have tk: "take (sizeof_data + ?k) (r @ src) = ?line @ take ?k ?s" "drop (sizeof_data + ?k) (r @ src) = drop ?k ?s"
      unfolding s take_append drop_append u(3) using assms(1) by (simp_all add: enc_holds_def)
    have h: "enc_holds (ctx\<lparr>b64_data := copy_bytes ?line 0 (drop ?k ?s), data_used := length (drop ?k ?s)\<rparr>) (drop ?k ?s)"
      using w(2,3) u(3) by (intro enc_holds_rest) auto
    have le: "sizeof_data + ?k \<le> length (r @ src)" 
    proof -
      have "length (r @ src) = sizeof_data + length ?s" using 3(2) assms(1) by (simp add: enc_holds_def)
      then show ?thesis using w(2) by linarith
    qed
    have dv: "sizeof_data dvd sizeof_data + ?k" by simp
    have out: "take (nat (int (65 + length ?s div sizeof_data * 65))) (b64_lines (?line @ take ?k ?s)) = b64_lines (?line @ take ?k ?s)"
      using u(2) by (simp only: nat_int) simp
    show ?thesis
      using u(1) dv le out [folded tk(1)] h [folded tk(2)] unfolding tk(1) [symmetric] tk(2) [symmetric] by blast
  qed
qed

lemma encode_updates_eq:
  "enc_holds ctx r \<Longrightarrow> length (concat ps) \<le> 2 ^ 30 \<Longrightarrow>
     \<exists>tx ctx' k. encode_updates ctx ps = Some (tx, ctx') \<and> sizeof_data dvd k \<and> k \<le> length (r @ concat ps) \<and>
       tx = b64_lines (take k (r @ concat ps)) \<and> enc_holds ctx' (drop k (r @ concat ps))"
proof (induction ps arbitrary: ctx r)
  case Nil
  then show ?case by (auto intro: exI [of _ 0])
next
  case (Cons p ps)
  let ?rp = "r @ p"
  have "length p \<le> 2 ^ 30" using Cons.prems(2) by simp
  then obtain out n c1 k where k: "EVP_EncodeUpdate ctx p = Some (out, n, c1)" "sizeof_data dvd k" "k \<le> length ?rp"
    "take (nat n) out = b64_lines (take k ?rp)" "enc_holds c1 (drop k ?rp)"
    using EVP_EncodeUpdate_eq [OF Cons.prems(1)] by blast
  have "length (concat ps) \<le> 2 ^ 30" using Cons.prems(2) by simp
  then obtain tx c2 j where j: "encode_updates c1 ps = Some (tx, c2)" "sizeof_data dvd j"
    "j \<le> length (drop k ?rp @ concat ps)" "tx = b64_lines (take j (drop k ?rp @ concat ps))"
    "enc_holds c2 (drop j (drop k ?rp @ concat ps))"
    using Cons.IH [OF k(5)] by blast
  have d: "drop k ?rp @ concat ps = drop k (r @ concat (p # ps))" using k(3) by simp
  have "b64_lines (take (k + j) (r @ concat (p # ps))) = b64_lines (take k ?rp) @ tx"
  proof -
    have "take (k + j) (r @ concat (p # ps)) = take k ?rp @ take j (drop k ?rp @ concat ps)"
      unfolding take_add d [symmetric] using k(3) by simp
    then show ?thesis using k(2,3) j(4) by (simp add: b64_lines_append del: take_append)
  qed
  then have "encode_updates ctx (p # ps) = Some (b64_lines (take (k + j) (r @ concat (p # ps))), c2)"
    using k(1,4) j(1) by simp
  moreover have "enc_holds c2 (drop (k + j) (r @ concat (p # ps)))"
    using j(5) unfolding d drop_drop by (simp only: add.commute)
  moreover have "k + j \<le> length (r @ concat (p # ps))"
    using j(3) k(3) unfolding d by simp
  ultimately show ?case using dvd_add [OF k(2) j(2)] by blast
qed

lemma encode_stream_eq:
  assumes "length (concat ps) \<le> 2 ^ 30"
  shows "encode_stream ps = Some (b64_lines (concat ps))"
proof -
  have "enc_holds EVP_EncodeInit []" by (simp add: enc_holds_def EVP_EncodeInit_def sizeof_data_def)
  from encode_updates_eq [OF this assms]
  obtain ctx k where k: "encode_updates EVP_EncodeInit ps = Some (b64_lines (take k (concat ps)), ctx)" "sizeof_data dvd k"
    "k \<le> length (concat ps)" "enc_holds ctx (drop k (concat ps))"
    by auto
  have "b64_lines (concat ps) = b64_lines (take k (concat ps)) @ b64_lines (drop k (concat ps))"
    using b64_lines_append [of "take k (concat ps)" "drop k (concat ps)"] k(2,3) by (simp add: min_absorb2)
  moreover have "(case EVP_EncodeFinal ctx of (out, n, _) \<Rightarrow> take (nat n) out) = b64_lines (drop k (concat ps))"
    using k(4) by (auto simp: EVP_EncodeFinal_def enc_holds_def Let_def b64_lines_short)
  ultimately show ?thesis using k(1) by (auto simp: encode_stream_def split: prod.splits)
qed

lemma decode_updates_eq:
  "\<not> error_encountered ctx \<Longrightarrow> decode_loop ctx (concat ps) = (True, bs, ctx') \<Longrightarrow> int (length bs) \<le> INT_MAX \<Longrightarrow>
     decode_updates ctx ps = Some (bs, ctx')"
proof (induction ps arbitrary: ctx bs)
  case (Cons p ps)
  obtain b1 c1 b2 where d: "decode_loop ctx p = (True, b1, c1)" "decode_loop c1 (concat ps) = (True, b2, ctx')" "bs = b1 @ b2"
    using Cons.prems(2) by (auto simp: decode_loop_append split: prod.splits bool.splits)
  have "\<not> error_encountered c1" using decode_loop_ok [OF d(1)] Cons.prems(1) by simp
  then have "decode_updates c1 ps = Some (b2, ctx')"
    using Cons.IH [OF _ d(2)] Cons.prems(3) d(3) by simp
  then show ?case using Cons.prems(1,3) d by (simp add: EVP_DecodeUpdate_def)
qed simp

text \<open>C6: base64 text is a faithful transport. Encoding a message of up to \<open>2 ^ 30\<close> bytes with \<open>EVP_EncodeInit\<close>,
  \<open>EVP_EncodeUpdate\<close> and \<open>EVP_EncodeFinal\<close>, in any division into pieces, gives one text, with no assertion failing; and
  decoding that text with \<open>EVP_DecodeInit\<close>, \<open>EVP_DecodeUpdate\<close> and \<open>EVP_DecodeFinal\<close>, in any division into pieces, however it
  cuts lines and quads, succeeds with the message.\<close>

theorem base64_roundtrip:
  assumes "length (concat ps) \<le> 2 ^ 30"
  shows "\<exists>tx. encode_stream ps = Some tx \<and>
    (\<forall>ts. concat ts = tx \<longrightarrow> decode_stream ts = Some (concat ps))"
proof -
  have "idle EVP_DecodeInit" "\<not> eof_seen EVP_DecodeInit" by (simp_all add: idle_def EVP_DecodeInit_def sizeof_data_def)
  then obtain ctx where ctx: "decode_loop EVP_DecodeInit (b64_lines (concat ps)) = (True, concat ps, ctx)" "idle ctx"
    using decode_lines by blast
  have "decode_stream ts = Some (concat ps)" if "concat ts = b64_lines (concat ps)" for ts
  proof -
    have "decode_updates EVP_DecodeInit ts = Some (concat ps, ctx)"
      using decode_updates_eq [of EVP_DecodeInit ts] ctx that assms by (simp add: EVP_DecodeInit_def INT_MAX_def)
    then show ?thesis using ctx(2) by (simp add: decode_stream_def EVP_DecodeFinal_def idle_def)
  qed
  then show ?thesis using encode_stream_eq [OF assms] by blast
qed

theorem base64_roundtrip_witness:
  "\<exists>tx. encode_stream [[0x66, 0x6F], [0x6F, 0x62]] = Some tx \<and>
    (\<forall>ts. concat ts = tx \<longrightarrow> decode_stream ts = Some [0x66, 0x6F, 0x6F, 0x62])"
  using base64_roundtrip [of "[[0x66, 0x6F], [0x6F, 0x62]]"] by simp

end
