(* ===== verification/Evp_Digest.thy ===== *)
theory Evp_Digest
  imports Md5 Sha512 "HOL-Library.Monad_Syntax"
begin

text \<open>
  The generic digests of BoringSSL: the method tables of \<open>fipsmodule/digest/digests.c\<close> over the hash functions of
  \<open>Md5\<close>, \<open>Sha\<close> and \<open>Sha512\<close>, and the digest contexts of \<open>fipsmodule/digest/digest.c\<close>. The contract of a method table is
  the locale \<open>digest_algorithm\<close>, interpreted on the table of every algorithm; on it rests that a context
  computes the digest of the concatenation of what it is given, through initialisation, copying and reuse, and
  that only a failed allocation makes a call fail. Contexts of the signing layer (\<open>pctx\<close> not null) are not modelled.
\<close>

subsection \<open>Method tables\<close>

text \<open>What \<open>md_data\<close> points to: the bytes of a block that no \<open>init\<close> function has filled, or the context of a hash
  function. Using a context of another kind is an undefined result.\<close>

datatype hash_state = Hash_Raw "u8 list" | Md32 md32_ctx | Sha512_State sha512_ctx | Md5_Sha1 md32_ctx md32_ctx

record EVP_MD =
  md_type :: int
  md_size :: nat
  md_flags :: u32
  md_init :: "hash_state \<Rightarrow> hash_state"
  md_update :: "hash_state \<Rightarrow> u8 list \<Rightarrow> hash_state option"
  md_final :: "hash_state \<Rightarrow> (u8 list \<times> hash_state) option"
  md_block_size :: nat
  md_ctx_size :: nat

text \<open>\<open>SHA384_Init\<close> and \<open>SHA512_Init\<close> leave the \<open>p\<close> array of the block as it is; it starts behind ten 64-bit words.\<close>

definition as_sha512_ctx :: "hash_state \<Rightarrow> sha512_ctx" where
  "as_sha512_ctx st =
     (case st of
        Sha512_State c \<Rightarrow> c
      | Hash_Raw bs \<Rightarrow> \<lparr>s_h = map (\<lambda>i. le_word (bytes_at bs (8 * i) 8)) [0..<8], s_Nl = le_word (bytes_at bs 64 8),
          s_Nh = le_word (bytes_at bs 72 8), s_p = bytes_at bs 80 128,
          s_num = unat (le_word (bytes_at bs 208 4) :: u32), s_md_len = unat (le_word (bytes_at bs 212 4) :: u32)\<rparr>
      | _ \<Rightarrow> \<lparr>s_h = replicate 8 0, s_Nl = 0, s_Nh = 0, s_p = replicate 128 0, s_num = 0, s_md_len = 0\<rparr>)"

definition md4_init :: "hash_state \<Rightarrow> hash_state" where
  "md4_init _ = Md32 MD4_Init"

definition md4_update :: "hash_state \<Rightarrow> u8 list \<Rightarrow> hash_state option" where
  "md4_update st data = (case st of Md32 c \<Rightarrow> Some (Md32 (MD4_Update c data)) | _ \<Rightarrow> None)"

definition md4_final :: "hash_state \<Rightarrow> (u8 list \<times> hash_state) option" where
  "md4_final st = (case st of Md32 c \<Rightarrow> (case MD4_Final c of (out, c) \<Rightarrow> Some (out, Md32 c)) | _ \<Rightarrow> None)"

definition md4_method :: EVP_MD where
  "md4_method = \<lparr>md_type = 257, md_size = 16, md_flags = 0, md_init = md4_init, md_update = md4_update,
     md_final = md4_final, md_block_size = 64, md_ctx_size = 92\<rparr>"

definition md5_init :: "hash_state \<Rightarrow> hash_state" where
  "md5_init _ = Md32 MD5_Init"

definition md5_update :: "hash_state \<Rightarrow> u8 list \<Rightarrow> hash_state option" where
  "md5_update st data = (case st of Md32 c \<Rightarrow> Some (Md32 (MD5_Update c data)) | _ \<Rightarrow> None)"

definition md5_final :: "hash_state \<Rightarrow> (u8 list \<times> hash_state) option" where
  "md5_final st = (case st of Md32 c \<Rightarrow> (case MD5_Final c of (out, c) \<Rightarrow> Some (out, Md32 c)) | _ \<Rightarrow> None)"

definition md5_method :: EVP_MD where
  "md5_method = \<lparr>md_type = 4, md_size = 16, md_flags = 0, md_init = md5_init, md_update = md5_update,
     md_final = md5_final, md_block_size = 64, md_ctx_size = 92\<rparr>"

definition sha1_init :: "hash_state \<Rightarrow> hash_state" where
  "sha1_init _ = Md32 SHA1_Init"

definition sha1_update :: "hash_state \<Rightarrow> u8 list \<Rightarrow> hash_state option" where
  "sha1_update st data = (case st of Md32 c \<Rightarrow> Some (Md32 (SHA1_Update c data)) | _ \<Rightarrow> None)"

definition sha1_final :: "hash_state \<Rightarrow> (u8 list \<times> hash_state) option" where
  "sha1_final st = (case st of Md32 c \<Rightarrow> (case SHA1_Final c of (out, c) \<Rightarrow> Some (out, Md32 c)) | _ \<Rightarrow> None)"

definition sha1_method :: EVP_MD where
  "sha1_method = \<lparr>md_type = 64, md_size = 20, md_flags = 0, md_init = sha1_init, md_update = sha1_update,
     md_final = sha1_final, md_block_size = 64, md_ctx_size = 96\<rparr>"

definition sha224_init :: "hash_state \<Rightarrow> hash_state" where
  "sha224_init _ = Md32 SHA224_Init"

definition sha224_update :: "hash_state \<Rightarrow> u8 list \<Rightarrow> hash_state option" where
  "sha224_update st data = (case st of Md32 c \<Rightarrow> Some (Md32 (SHA224_Update c data)) | _ \<Rightarrow> None)"

definition sha224_final :: "hash_state \<Rightarrow> (u8 list \<times> hash_state) option" where
  "sha224_final st =
     (case st of Md32 c \<Rightarrow> (case SHA224_Final c of (Some out, c) \<Rightarrow> Some (out, Md32 c) | (None, _) \<Rightarrow> None) | _ \<Rightarrow> None)"

definition sha224_method :: EVP_MD where
  "sha224_method = \<lparr>md_type = 675, md_size = 28, md_flags = 0, md_init = sha224_init, md_update = sha224_update,
     md_final = sha224_final, md_block_size = 64, md_ctx_size = 112\<rparr>"

definition sha256_init :: "hash_state \<Rightarrow> hash_state" where
  "sha256_init _ = Md32 SHA256_Init"

definition sha256_update :: "hash_state \<Rightarrow> u8 list \<Rightarrow> hash_state option" where
  "sha256_update st data = (case st of Md32 c \<Rightarrow> Some (Md32 (SHA256_Update c data)) | _ \<Rightarrow> None)"

definition sha256_final :: "hash_state \<Rightarrow> (u8 list \<times> hash_state) option" where
  "sha256_final st =
     (case st of Md32 c \<Rightarrow> (case SHA256_Final c of (Some out, c) \<Rightarrow> Some (out, Md32 c) | (None, _) \<Rightarrow> None) | _ \<Rightarrow> None)"

definition sha256_method :: EVP_MD where
  "sha256_method = \<lparr>md_type = 672, md_size = 32, md_flags = 0, md_init = sha256_init, md_update = sha256_update,
     md_final = sha256_final, md_block_size = 64, md_ctx_size = 112\<rparr>"

definition sha384_init :: "hash_state \<Rightarrow> hash_state" where
  "sha384_init st = Sha512_State (SHA384_Init (as_sha512_ctx st))"

definition sha384_update :: "hash_state \<Rightarrow> u8 list \<Rightarrow> hash_state option" where
  "sha384_update st data = (case st of Sha512_State c \<Rightarrow> Some (Sha512_State (SHA384_Update c data)) | _ \<Rightarrow> None)"

definition sha384_final :: "hash_state \<Rightarrow> (u8 list \<times> hash_state) option" where
  "sha384_final st =
     (case st of Sha512_State c \<Rightarrow> (case SHA384_Final False c of (Some out, c) \<Rightarrow> Some (out, Sha512_State c) | (None, _) \<Rightarrow> None) | _ \<Rightarrow> None)"

definition sha384_method :: EVP_MD where
  "sha384_method = \<lparr>md_type = 673, md_size = 48, md_flags = 0, md_init = sha384_init, md_update = sha384_update,
     md_final = sha384_final, md_block_size = 128, md_ctx_size = 216\<rparr>"

definition sha512_init :: "hash_state \<Rightarrow> hash_state" where
  "sha512_init st = Sha512_State (SHA512_Init (as_sha512_ctx st))"

definition sha512_update :: "hash_state \<Rightarrow> u8 list \<Rightarrow> hash_state option" where
  "sha512_update st data = (case st of Sha512_State c \<Rightarrow> Some (Sha512_State (SHA512_Update c data)) | _ \<Rightarrow> None)"

definition sha512_final :: "hash_state \<Rightarrow> (u8 list \<times> hash_state) option" where
  "sha512_final st =
     (case st of Sha512_State c \<Rightarrow> (case SHA512_Final False c of (Some out, c) \<Rightarrow> Some (out, Sha512_State c) | (None, _) \<Rightarrow> None) | _ \<Rightarrow> None)"

definition sha512_method :: EVP_MD where
  "sha512_method = \<lparr>md_type = 674, md_size = 64, md_flags = 0, md_init = sha512_init, md_update = sha512_update,
     md_final = sha512_final, md_block_size = 128, md_ctx_size = 216\<rparr>"

definition md5_sha1_init :: "hash_state \<Rightarrow> hash_state" where
  "md5_sha1_init _ = Md5_Sha1 MD5_Init SHA1_Init"

definition md5_sha1_update :: "hash_state \<Rightarrow> u8 list \<Rightarrow> hash_state option" where
  "md5_sha1_update st data =
     (case st of Md5_Sha1 c d \<Rightarrow> Some (Md5_Sha1 (MD5_Update c data) (SHA1_Update d data)) | _ \<Rightarrow> None)"

definition md5_sha1_final :: "hash_state \<Rightarrow> (u8 list \<times> hash_state) option" where
  "md5_sha1_final st =
     (case st of
        Md5_Sha1 c d \<Rightarrow>
          (case MD5_Final c of (out, c) \<Rightarrow> case SHA1_Final d of (out', d) \<Rightarrow> Some (out @ out', Md5_Sha1 c d))
      | _ \<Rightarrow> None)"

definition md5_sha1_method :: EVP_MD where
  "md5_sha1_method = \<lparr>md_type = 114, md_size = 36, md_flags = 0, md_init = md5_sha1_init,
     md_update = md5_sha1_update, md_final = md5_sha1_final, md_block_size = 64, md_ctx_size = 188\<rparr>"

text \<open>The addresses of the tables: a digest is identified by the table that its function returns.\<close>

datatype md = EVP_md4 | EVP_md5 | EVP_sha1 | EVP_sha224 | EVP_sha256 | EVP_sha384 | EVP_sha512 | EVP_md5_sha1

fun md_table :: "md \<Rightarrow> EVP_MD" where
  "md_table EVP_md4 = md4_method"
| "md_table EVP_md5 = md5_method"
| "md_table EVP_sha1 = sha1_method"
| "md_table EVP_sha224 = sha224_method"
| "md_table EVP_sha256 = sha256_method"
| "md_table EVP_sha384 = sha384_method"
| "md_table EVP_sha512 = sha512_method"
| "md_table EVP_md5_sha1 = md5_sha1_method"

subsection \<open>Digest contexts\<close>

definition EVP_MAX_MD_SIZE :: nat where "EVP_MAX_MD_SIZE = 64"
definition EVP_MAX_MD_BLOCK_SIZE :: nat where "EVP_MAX_MD_BLOCK_SIZE = 128"

record EVP_MD_CTX =
  ctx_digest :: "md option"
  md_data :: "hash_state option"

definition EVP_MD_type :: "md \<Rightarrow> int" where "EVP_MD_type t = md_type (md_table t)"
definition EVP_MD_flags :: "md \<Rightarrow> u32" where "EVP_MD_flags t = md_flags (md_table t)"
definition EVP_MD_size :: "md \<Rightarrow> nat" where "EVP_MD_size t = md_size (md_table t)"
definition EVP_MD_block_size :: "md \<Rightarrow> nat" where "EVP_MD_block_size t = md_block_size (md_table t)"

definition EVP_MD_CTX_init :: EVP_MD_CTX where
  "EVP_MD_CTX_init = \<lparr>ctx_digest = None, md_data = None\<rparr>"

definition EVP_MD_CTX_new :: "allocator \<Rightarrow> EVP_MD_CTX option" where
  "EVP_MD_CTX_new malloc = map_option (\<lambda>_. EVP_MD_CTX_init) (OPENSSL_malloc malloc 32)"

text \<open>The result is what remains of the context; its hash state is freed.\<close>

definition EVP_MD_CTX_cleanup :: "EVP_MD_CTX \<Rightarrow> EVP_MD_CTX" where
  "EVP_MD_CTX_cleanup ctx = EVP_MD_CTX_init"

definition EVP_MD_CTX_reset :: "EVP_MD_CTX \<Rightarrow> EVP_MD_CTX" where
  "EVP_MD_CTX_reset ctx = (let ctx = EVP_MD_CTX_cleanup ctx in EVP_MD_CTX_init)"

definition EVP_MD_CTX_copy_ex :: "allocator \<Rightarrow> EVP_MD_CTX \<Rightarrow> EVP_MD_CTX option \<Rightarrow> (bool \<times> EVP_MD_CTX) option" where
  "EVP_MD_CTX_copy_ex malloc out src =
     (case src of
        None \<Rightarrow> Some (False, out)
      | Some src \<Rightarrow>
          (case ctx_digest src of
             None \<Rightarrow> Some (False, out)
           | Some t \<Rightarrow>
               if ctx_digest out \<noteq> Some t then do {
                 _ \<leftarrow> c_assert (md_ctx_size (md_table t) \<noteq> 0);
                 if OPENSSL_malloc malloc (md_ctx_size (md_table t)) = None then Some (False, out)
                 else do {
                   let out = EVP_MD_CTX_cleanup out;
                   st \<leftarrow> md_data src;
                   Some (True, out\<lparr>ctx_digest := Some t, md_data := Some st\<rparr>) } }
               else do {
                 tmp_buf \<leftarrow> md_data out;
                 let out = EVP_MD_CTX_cleanup (out\<lparr>md_data := None\<rparr>);
                 st \<leftarrow> md_data src;
                 Some (True, out\<lparr>ctx_digest := Some t, md_data := Some st\<rparr>) }))"

definition EVP_MD_CTX_copy :: "allocator \<Rightarrow> EVP_MD_CTX option \<Rightarrow> (bool \<times> EVP_MD_CTX) option" where
  "EVP_MD_CTX_copy malloc src = EVP_MD_CTX_copy_ex malloc EVP_MD_CTX_init src"

definition EVP_DigestInit_ex :: "allocator \<Rightarrow> EVP_MD_CTX \<Rightarrow> md option \<Rightarrow> (bool \<times> EVP_MD_CTX) option" where
  "EVP_DigestInit_ex malloc ctx ty = do {
     (ok, ctx) \<leftarrow>
       (if ctx_digest ctx \<noteq> ty then do {
          t \<leftarrow> ty;
          _ \<leftarrow> c_assert (md_ctx_size (md_table t) \<noteq> 0);
          case OPENSSL_malloc malloc (md_ctx_size (md_table t)) of
            None \<Rightarrow> Some (False, ctx)
          | Some block \<Rightarrow> Some (True, ctx\<lparr>md_data := Some (Hash_Raw (user_bytes block)), ctx_digest := Some t\<rparr>) }
        else Some (True, ctx));
     if \<not> ok then Some (False, ctx)
     else do {
       t \<leftarrow> ctx_digest ctx;
       st \<leftarrow> md_data ctx;
       Some (True, ctx\<lparr>md_data := Some (md_init (md_table t) st)\<rparr>) } }"

definition EVP_DigestInit :: "allocator \<Rightarrow> md option \<Rightarrow> (bool \<times> EVP_MD_CTX) option" where
  "EVP_DigestInit malloc ty = EVP_DigestInit_ex malloc EVP_MD_CTX_init ty"

text \<open>Updating and finishing always return one; the results are the context, and the digest and its size.\<close>

definition EVP_DigestUpdate :: "EVP_MD_CTX \<Rightarrow> u8 list \<Rightarrow> EVP_MD_CTX option" where
  "EVP_DigestUpdate ctx data = do {
     t \<leftarrow> ctx_digest ctx;
     st \<leftarrow> md_data ctx;
     st \<leftarrow> md_update (md_table t) st data;
     Some (ctx\<lparr>md_data := Some st\<rparr>) }"

definition EVP_DigestFinal_ex :: "EVP_MD_CTX \<Rightarrow> (u8 list \<times> nat \<times> EVP_MD_CTX) option" where
  "EVP_DigestFinal_ex ctx = do {
     t \<leftarrow> ctx_digest ctx;
     _ \<leftarrow> c_assert (md_size (md_table t) \<le> EVP_MAX_MD_SIZE);
     st \<leftarrow> md_data ctx;
     (md_out, _) \<leftarrow> md_final (md_table t) st;
     Some (md_out, md_size (md_table t), ctx\<lparr>md_data := Some (Hash_Raw (replicate (md_ctx_size (md_table t)) 0))\<rparr>) }"

definition EVP_DigestFinal :: "EVP_MD_CTX \<Rightarrow> (u8 list \<times> nat \<times> EVP_MD_CTX) option" where
  "EVP_DigestFinal ctx = do {
     (md, size, ctx) \<leftarrow> EVP_DigestFinal_ex ctx;
     Some (md, size, EVP_MD_CTX_cleanup ctx) }"

text \<open>The digest and its size, or \<open>None\<close> inside for the result zero.\<close>

definition EVP_Digest :: "allocator \<Rightarrow> u8 list \<Rightarrow> md option \<Rightarrow> (u8 list \<times> nat) option option" where
  "EVP_Digest malloc data ty = do {
     (ret, ctx) \<leftarrow> EVP_DigestInit_ex malloc EVP_MD_CTX_init ty;
     if \<not> ret then Some None
     else do {
       ctx \<leftarrow> EVP_DigestUpdate ctx data;
       (out, size, ctx) \<leftarrow> EVP_DigestFinal_ex ctx;
       Some (Some (out, size)) } }"

definition EVP_MD_CTX_md :: "EVP_MD_CTX option \<Rightarrow> md option" where
  "EVP_MD_CTX_md ctx = (case ctx of None \<Rightarrow> None | Some ctx \<Rightarrow> ctx_digest ctx)"

definition EVP_MD_CTX_size :: "EVP_MD_CTX option \<Rightarrow> nat option" where
  "EVP_MD_CTX_size ctx = map_option EVP_MD_size (EVP_MD_CTX_md ctx)"

definition EVP_MD_CTX_block_size :: "EVP_MD_CTX option \<Rightarrow> nat option" where
  "EVP_MD_CTX_block_size ctx = map_option EVP_MD_block_size (EVP_MD_CTX_md ctx)"

definition EVP_MD_CTX_type :: "EVP_MD_CTX option \<Rightarrow> int option" where
  "EVP_MD_CTX_type ctx = map_option EVP_MD_type (EVP_MD_CTX_md ctx)"

subsection \<open>The contract of a method table\<close>

text \<open>\<open>rep st msg\<close>: the state has absorbed \<open>msg\<close>; \<open>owned st\<close>: a block that this algorithm may use; \<open>H\<close>: the digest.\<close>

locale digest_algorithm =
  fixes T :: EVP_MD and rep :: "hash_state \<Rightarrow> u8 list \<Rightarrow> bool" and owned :: "hash_state \<Rightarrow> bool" and H :: "u8 list \<Rightarrow> u8 list"
  assumes raw_owned: "md_ctx_size T \<le> length bs \<Longrightarrow> owned (Hash_Raw bs)"
    and rep_owned: "rep st msg \<Longrightarrow> owned st"
    and init_rep: "owned st \<Longrightarrow> rep (md_init T st) []"
    and update_rep: "rep st msg \<Longrightarrow> length d < SIZE_LIMIT \<Longrightarrow> \<exists>st'. md_update T st d = Some st' \<and> rep st' (msg @ d)"
    and final_digest: "rep st msg \<Longrightarrow> \<exists>st'. md_final T st = Some (H msg, st')"
    and length_H: "length (H msg) = md_size T"
    and sizes: "0 < md_size T" "md_size T \<le> EVP_MAX_MD_SIZE" "md_size T \<le> md_block_size T"
      "md_block_size T \<le> EVP_MAX_MD_BLOCK_SIZE" "md_ctx_size T \<noteq> 0" "md_ctx_size T < 2 ^ 32"
begin

lemma block_pos: "0 < md_block_size T"
  using sizes by linarith

lemma length_H_bound: "length (H msg) \<le> EVP_MAX_MD_SIZE" "length (H msg) < SIZE_LIMIT"
  using sizes by (simp_all add: length_H EVP_MAX_MD_SIZE_def SIZE_LIMIT_def)

end

subsection \<open>Every table keeps the contract\<close>

abbreviation "iv128 \<equiv> [0x67452301, 0xefcdab89, 0x98badcfe, 0x10325476] :: u32 list"
abbreviation "iv160 \<equiv> [0x67452301, 0xefcdab89, 0x98badcfe, 0x10325476, 0xc3d2e1f0] :: u32 list"
abbreviation "iv224 \<equiv> [0xc1059ed8, 0x367cd507, 0x3070dd17, 0xf70e5939, 0xffc00b31, 0x68581511, 0x64f98fa7, 0xbefa4fa4] :: u32 list"
abbreviation "iv256 \<equiv> [0x6a09e667, 0xbb67ae85, 0x3c6ef372, 0xa54ff53a, 0x510e527f, 0x9b05688c, 0x1f83d9ab, 0x5be0cd19] :: u32 list"
abbreviation "iv384 \<equiv> [0xcbbb9d5dc1059ed8, 0x629a292a367cd507, 0x9159015a3070dd17, 0x152fecd8f70e5939,
  0x67332667ffc00b31, 0x8eb44a8768581511, 0xdb0c2e0d64f98fa7, 0x47b5481dbefa4fa4] :: u64 list"
abbreviation "iv512 \<equiv> [0x6a09e667f3bcc908, 0xbb67ae8584caa73b, 0x3c6ef372fe94f82b, 0xa54ff53a5f1d36f1,
  0x510e527fade682d1, 0x9b05688c2b3e6c1f, 0x1f83d9abfb41bd6b, 0x5be0cd19137e2179] :: u64 list"

fun md_rep :: "md \<Rightarrow> hash_state \<Rightarrow> u8 list \<Rightarrow> bool" where
  "md_rep EVP_md4 (Md32 c) msg = md32_rep md4_block_data_order iv128 0 c msg"
| "md_rep EVP_md5 (Md32 c) msg = md32_rep md5_block_data_order iv128 0 c msg"
| "md_rep EVP_sha1 (Md32 c) msg = md32_rep sha1_block_data_order iv160 0 c msg"
| "md_rep EVP_sha224 (Md32 c) msg = md32_rep sha256_block_data_order iv224 28 c msg"
| "md_rep EVP_sha256 (Md32 c) msg = md32_rep sha256_block_data_order iv256 32 c msg"
| "md_rep EVP_sha384 (Sha512_State c) msg = sha512_rep iv384 48 c msg"
| "md_rep EVP_sha512 (Sha512_State c) msg = sha512_rep iv512 64 c msg"
| "md_rep EVP_md5_sha1 (Md5_Sha1 c d) msg =
     (md32_rep md5_block_data_order iv128 0 c msg \<and> md32_rep sha1_block_data_order iv160 0 d msg)"
| "md_rep _ _ _ = False"

fun md_owned :: "md \<Rightarrow> hash_state \<Rightarrow> bool" where
  "md_owned t (Hash_Raw bs) = (md_ctx_size (md_table t) \<le> length bs)"
| "md_owned EVP_sha384 (Sha512_State c) = (length (s_p c) = 128)"
| "md_owned EVP_sha512 (Sha512_State c) = (length (s_p c) = 128)"
| "md_owned EVP_md5_sha1 (Md5_Sha1 c d) = True"
| "md_owned EVP_md4 (Md32 c) = True"
| "md_owned EVP_md5 (Md32 c) = True"
| "md_owned EVP_sha1 (Md32 c) = True"
| "md_owned EVP_sha224 (Md32 c) = True"
| "md_owned EVP_sha256 (Md32 c) = True"
| "md_owned _ _ = False"

fun md_digest :: "md \<Rightarrow> u8 list \<Rightarrow> u8 list" where
  "md_digest EVP_md4 msg = rfc1320_md4 msg"
| "md_digest EVP_md5 msg = rfc1321_md5 msg"
| "md_digest EVP_sha1 msg = fips_sha1 msg"
| "md_digest EVP_sha224 msg = fips_sha256 iv224 28 msg"
| "md_digest EVP_sha256 msg = fips_sha256 iv256 32 msg"
| "md_digest EVP_sha384 msg = fips_sha512 iv384 48 msg"
| "md_digest EVP_sha512 msg = fips_sha512 iv512 64 msg"
| "md_digest EVP_md5_sha1 msg = rfc1321_md5 msg @ fips_sha1 msg"

lemmas method_defs = md4_method_def md5_method_def sha1_method_def sha224_method_def sha256_method_def
  sha384_method_def sha512_method_def md5_sha1_method_def

lemmas update_defs = md4_update_def md5_update_def sha1_update_def sha224_update_def sha256_update_def
  sha384_update_def sha512_update_def md5_sha1_update_def

lemmas hash_update_defs = MD4_Update_def MD5_Update_def SHA1_Update_def SHA224_Update_def SHA256_Update_def SHA384_Update_def

lemmas init_defs = md4_init_def md5_init_def sha1_init_def sha224_init_def sha256_init_def
  sha384_init_def sha512_init_def md5_sha1_init_def

lemmas hash_init_defs = MD4_Init_def MD5_Init_def SHA1_Init_def SHA224_Init_def SHA256_Init_def
  SHA224_DIGEST_LENGTH_def SHA256_DIGEST_LENGTH_def

lemma md5_final_rep: "md32_rep md5_block_data_order iv128 n c msg \<Longrightarrow> fst (MD5_Final c) = rfc1321_md5 msg"
proof -
  assume r: "md32_rep md5_block_data_order iv128 n c msg"
  have "c_h (HASH_FINAL md5_block_data_order False c) = md_hash 64 rfc1321_compress iv128 (md_pad False msg)"
    unfolding md5.HASH_FINAL_absorbs [OF r]
    unfolding md5_block_data_order_def HASH_CBLOCK_def by (intro absorbed_md_hash md5_one_rfc)
  then show ?thesis by (simp add: MD5_Final_def rfc1321_md5_def Let_def HOST_l2c_le_bytes del: le_bytes_numeral)
qed

lemma md4_final_rep: "md32_rep md4_block_data_order iv128 n c msg \<Longrightarrow> fst (MD4_Final c) = rfc1320_md4 msg"
proof -
  assume r: "md32_rep md4_block_data_order iv128 n c msg"
  have "c_h (HASH_FINAL md4_block_data_order False c) = md_hash 64 rfc1320_compress iv128 (md_pad False msg)"
    unfolding md4.HASH_FINAL_absorbs [OF r]
    unfolding md4_block_data_order_def HASH_CBLOCK_def by (intro absorbed_md_hash md4_one_rfc)
  then show ?thesis by (simp add: MD4_Final_def rfc1320_md4_def Let_def HOST_l2c_le_bytes del: le_bytes_numeral)
qed

lemma sha1_final_rep: "md32_rep sha1_block_data_order iv160 n c msg \<Longrightarrow> fst (SHA1_Final c) = fips_sha1 msg"
proof -
  assume r: "md32_rep sha1_block_data_order iv160 n c msg"
  have "c_h (HASH_FINAL sha1_block_data_order True c) = md_hash 64 fips_sha1_compress iv160 (md_pad True msg)"
    unfolding sha1.HASH_FINAL_absorbs [OF r]
    unfolding sha1_block_data_order_def HASH_CBLOCK_def by (intro absorbed_md_hash sha1_one_fips)
  then show ?thesis by (simp add: SHA1_Final_def fips_sha1_def Let_def HOST_l2c_le_bytes del: le_bytes_numeral)
qed

lemma sha256_final_rep:
  assumes r: "md32_rep sha256_block_data_order iv n c msg" and n: "n = 28 \<or> n = 32"
  shows "fst (SHA256_Final c) = Some (fips_sha256 iv n msg)"
proof -
  have h: "c_h (HASH_FINAL sha256_block_data_order True c) = md_hash 64 fips_sha256_compress iv (md_pad True msg)"
    unfolding sha256.HASH_FINAL_absorbs [OF r]
    unfolding sha256_block_data_order_def HASH_CBLOCK_def by (intro absorbed_md_hash sha256_one_fips)
  have "c_md_len (HASH_FINAL sha256_block_data_order True c) = n"
    using r by (simp add: md32_rep_def md32_holds_def HASH_FINAL_def Let_def)
  then show ?thesis
    using n by (auto simp: SHA256_Final_def Let_def h fips_sha256_def HOST_l2c_le_bytes SHA256_DIGEST_LENGTH_def
        SHA224_DIGEST_LENGTH_def simp del: le_bytes_numeral)
qed

lemma sha512_final_rep:
  assumes r: "sha512_rep iv n c msg" and n: "n = 48 \<or> n = 64"
  shows "fst (SHA512_Final False c) = Some (fips_sha512 iv n msg)"
proof -
  have h: "s_h (sha512_pad c) = md_hash 128 fips_sha512_compress iv (fips_pad_128 msg)"
    unfolding sha512_pad_absorbs [OF r]
    unfolding sha512_block_data_order_def SHA512_CBLOCK_def by (intro absorbed_md_hash sha512_one_fips)
  have "s_md_len (sha512_pad c) = n"
    using r by (simp add: sha512_pad_def Let_def sha512_rep_def sha512_holds_def)
  then show ?thesis
    using n by (auto simp: SHA512_Final_def Let_def h fips_sha512_def u64_be_bytes_of SHA512_DIGEST_LENGTH_def
        SHA384_DIGEST_LENGTH_def simp del: le_bytes_numeral)
qed

lemma length_specs [simp]: "length (rfc1320_md4 m) = 16" "length (rfc1321_md5 m) = 16" "length (fips_sha1 m) = 20"
    "length (fips_sha256 iv 28 m) = 28" "length (fips_sha256 iv 32 m) = 32"
    "length (fips_sha512 iv512' 48 m) = 48" "length (fips_sha512 iv512' 64 m) = 64"
  by (simp_all add: rfc1320_md4_def rfc1321_md5_def fips_sha1_def fips_sha256_def fips_sha512_def length_concat
      sum_list_triv o_def)

lemma md_init_rep: "md_owned t st \<Longrightarrow> md_rep t (md_init (md_table t) st) []"
proof -
  assume o: "md_owned t st"
  have p: "length (s_p (as_sha512_ctx st)) = 128" if "t = EVP_sha384 \<or> t = EVP_sha512"
    using o that by (cases st) (auto simp: as_sha512_ctx_def)
  show ?thesis
    using sha512_init_rep [of "as_sha512_ctx st"] p
    by (cases t) (simp_all add: method_defs init_defs hash_init_defs md5.hash_init_rep md4.hash_init_rep sha1.hash_init_rep
        sha256.hash_init_rep SHA512_Init_def SHA384_Init_def)
qed

lemma md_update_rep:
  assumes "md_rep t st msg" "length d < SIZE_LIMIT"
  shows "\<exists>st'. md_update (md_table t) st d = Some st' \<and> md_rep t st' (msg @ d)"
  using assms md4.HASH_UPDATE_absorbs [OF _ assms(2)] md5.HASH_UPDATE_absorbs [OF _ assms(2)]
    sha1.HASH_UPDATE_absorbs [OF _ assms(2)] sha256.HASH_UPDATE_absorbs [OF _ assms(2)] SHA512_Update_absorbs [OF _ assms(2)]
  by (cases t; cases st) (auto simp: method_defs update_defs hash_update_defs)

lemma md_final_digest: "md_rep t st msg \<Longrightarrow> \<exists>st'. md_final (md_table t) st = Some (md_digest t msg, st')"
proof (cases t; cases st)
  assume r: "md_rep t st msg"
  note m = method_defs
  fix c assume st: "st = Md32 c"
  { assume t: "t = EVP_md4"
    then show ?thesis using md4_final_rep [of 0 c msg] r st by (cases "MD4_Final c") (simp add: m md4_final_def) }
  { assume t: "t = EVP_md5"
    then show ?thesis using md5_final_rep [of 0 c msg] r st by (cases "MD5_Final c") (simp add: m md5_final_def) }
  { assume t: "t = EVP_sha1"
    then show ?thesis using sha1_final_rep [of 0 c msg] r st by (cases "SHA1_Final c") (simp add: m sha1_final_def) }
  { assume t: "t = EVP_sha224"
    then show ?thesis using sha256_final_rep [of iv224 28 c msg] r st
      by (cases "SHA256_Final c") (simp add: m sha224_final_def SHA224_Final_def) }
  { assume t: "t = EVP_sha256"
    then show ?thesis using sha256_final_rep [of iv256 32 c msg] r st
      by (cases "SHA256_Final c") (simp add: m sha256_final_def) }
next
  assume r: "md_rep t st msg"
  fix c assume st: "st = Sha512_State c"
  { assume t: "t = EVP_sha384"
    then show ?thesis using sha512_final_rep [of iv384 48 c msg] r st
      by (cases "SHA512_Final False c") (simp add: method_defs sha384_final_def SHA384_Final_def) }
  { assume t: "t = EVP_sha512"
    then show ?thesis using sha512_final_rep [of iv512 64 c msg] r st
      by (cases "SHA512_Final False c") (simp add: method_defs sha512_final_def) }
next
  assume r: "md_rep t st msg"
  fix c d assume st: "st = Md5_Sha1 c d" and t: "t = EVP_md5_sha1"
  then show ?thesis using md5_final_rep [of 0 c msg] sha1_final_rep [of 0 d msg] r
    by (cases "MD5_Final c"; cases "SHA1_Final d") (simp add: method_defs md5_sha1_final_def)
qed simp_all

interpretation dg: digest_algorithm "md_table t" "md_rep t" "md_owned t" "md_digest t" for t
proof
  show "md_rep t st msg \<Longrightarrow> md_owned t st" for st msg
    by (cases t; cases st) (auto simp: sha512_rep_def sha512_holds_def SHA512_CBLOCK_def)
  show "length (md_digest t msg) = md_size (md_table t)" for msg
    by (cases t) (simp_all add: method_defs)
qed (auto intro: md_init_rep md_update_rep md_final_digest, (cases t; simp add: method_defs EVP_MAX_MD_SIZE_def EVP_MAX_MD_BLOCK_SIZE_def)+)

subsection \<open>Contexts\<close>

definition ctx_ok :: "EVP_MD_CTX \<Rightarrow> bool" where
  "ctx_ok ctx \<longleftrightarrow> (\<forall>t. ctx_digest ctx = Some t \<longrightarrow> (\<exists>st. md_data ctx = Some st \<and> md_owned t st))"

definition ctx_absorbed :: "md \<Rightarrow> EVP_MD_CTX \<Rightarrow> u8 list \<Rightarrow> bool" where
  "ctx_absorbed t ctx msg \<longleftrightarrow> ctx_digest ctx = Some t \<and> (\<exists>st. md_data ctx = Some st \<and> md_rep t st msg)"

definition md_alloc_fails :: "allocator \<Rightarrow> md \<Rightarrow> bool" where
  "md_alloc_fails malloc t \<longleftrightarrow> OPENSSL_malloc malloc (md_ctx_size (md_table t)) = None"

lemma ctx_ok_init [simp]: "ctx_ok EVP_MD_CTX_init"
  by (simp add: ctx_ok_def EVP_MD_CTX_init_def)

lemma ctx_absorbed_ok: "ctx_absorbed t ctx msg \<Longrightarrow> ctx_ok ctx"
  using dg.rep_owned by (auto simp: ctx_absorbed_def ctx_ok_def)

lemma ctx_absorbed_digest: "ctx_absorbed t ctx msg \<Longrightarrow> ctx_digest ctx = Some t"
  by (simp add: ctx_absorbed_def)

text \<open>A call that needs a state of kind \<open>t\<close> in a context gets one: it has one already, or the allocation succeeds.\<close>

definition md_available :: "allocator \<Rightarrow> EVP_MD_CTX \<Rightarrow> md \<Rightarrow> bool" where
  "md_available malloc ctx t \<longleftrightarrow> ctx_digest ctx = Some t \<or> \<not> md_alloc_fails malloc t"

lemma EVP_DigestInit_ex_rep:
  assumes "ctx_ok ctx" "malloc_ok malloc"
  shows "\<exists>ctx'. EVP_DigestInit_ex malloc ctx (Some t) = Some (md_available malloc ctx t, ctx') \<and>
     (if md_available malloc ctx t then ctx_absorbed t ctx' [] else ctx' = ctx)"
proof (cases "ctx_digest ctx = Some t")
  case True
  then obtain st where "md_data ctx = Some st" "md_owned t st" using assms(1) by (auto simp: ctx_ok_def)
  then show ?thesis using True dg.init_rep by (auto simp: EVP_DigestInit_ex_def ctx_absorbed_def md_available_def)
next
  case False
  have sz: "md_ctx_size (md_table t) \<noteq> 0" "md_ctx_size (md_table t) + 8 < SIZE_LIMIT"
    using dg.sizes(5) [of t] dg.sizes(6) [of t] by (simp_all add: SIZE_LIMIT_def)
  show ?thesis
  proof (cases "OPENSSL_malloc malloc (md_ctx_size (md_table t))")
    case None
    then show ?thesis
      using False sz by (simp add: EVP_DigestInit_ex_def md_alloc_fails_def md_available_def)
  next
    case (Some block)
    have "length (user_bytes block) = md_ctx_size (md_table t)"
      using OPENSSL_malloc_block [OF assms(2) sz(2) Some] by (simp add: length_user_bytes)
    then have "md_owned t (Hash_Raw (user_bytes block))" by (simp add: dg.raw_owned)
    then show ?thesis
      using False sz Some dg.init_rep
      by (simp add: EVP_DigestInit_ex_def ctx_absorbed_def md_alloc_fails_def md_available_def)
  qed
qed

lemma EVP_DigestUpdate_rep:
  assumes "ctx_absorbed t ctx msg" "length d < SIZE_LIMIT"
  shows "\<exists>ctx'. EVP_DigestUpdate ctx d = Some ctx' \<and> ctx_absorbed t ctx' (msg @ d)"
  using assms dg.update_rep [of t _ msg d] by (fastforce simp: ctx_absorbed_def EVP_DigestUpdate_def)

lemma EVP_DigestFinal_ex_rep:
  assumes "ctx_absorbed t ctx msg"
  shows "\<exists>ctx'. EVP_DigestFinal_ex ctx = Some (md_digest t msg, EVP_MD_size t, ctx') \<and> ctx_ok ctx' \<and> ctx_digest ctx' = Some t"
proof -
  obtain st where st: "ctx_digest ctx = Some t" "md_data ctx = Some st" "md_rep t st msg"
    using assms by (auto simp: ctx_absorbed_def)
  obtain st' where "md_final (md_table t) st = Some (md_digest t msg, st')" using dg.final_digest [OF st(3)] by blast
  then show ?thesis
    using st dg.sizes(2) [of t] dg.raw_owned [of t "replicate (md_ctx_size (md_table t)) 0"]
    by (simp add: EVP_DigestFinal_ex_def ctx_ok_def EVP_MD_size_def)
qed

lemma EVP_MD_CTX_copy_ex_rep:
  assumes "ctx_absorbed t src msg" "ctx_ok out"
  shows "\<exists>out'. EVP_MD_CTX_copy_ex malloc out (Some src) = Some (md_available malloc out t, out') \<and>
     (if md_available malloc out t then ctx_absorbed t out' msg else out' = out)"
proof -
  obtain st where st: "ctx_digest src = Some t" "md_data src = Some st" "md_rep t st msg"
    using assms(1) by (auto simp: ctx_absorbed_def)
  let ?out = "\<lparr>ctx_digest = Some t, md_data = Some st\<rparr>"
  have rep: "ctx_absorbed t ?out msg" using st(3) by (simp add: ctx_absorbed_def)
  consider "ctx_digest out = Some t" | "ctx_digest out \<noteq> Some t" "\<not> md_alloc_fails malloc t"
    | "ctx_digest out \<noteq> Some t" "md_alloc_fails malloc t" by blast
  then show ?thesis
  proof cases
    case 1
    then obtain old where "md_data out = Some old" using assms(2) by (auto simp: ctx_ok_def)
    then have "EVP_MD_CTX_copy_ex malloc out (Some src) = Some (True, ?out)"
      using 1 st by (simp add: EVP_MD_CTX_copy_ex_def EVP_MD_CTX_cleanup_def EVP_MD_CTX_init_def)
    then show ?thesis using 1 rep by (simp add: md_available_def)
  next
    case 2
    then have "EVP_MD_CTX_copy_ex malloc out (Some src) = Some (True, ?out)"
      using st dg.sizes(5) [of t]
      by (simp add: EVP_MD_CTX_copy_ex_def EVP_MD_CTX_cleanup_def EVP_MD_CTX_init_def md_alloc_fails_def)
    then show ?thesis using 2 rep by (simp add: md_available_def)
  next
    case 3
    then have "EVP_MD_CTX_copy_ex malloc out (Some src) = Some (False, out)"
      using st dg.sizes(5) [of t] by (simp add: EVP_MD_CTX_copy_ex_def md_alloc_fails_def)
    then show ?thesis using 3 by (simp add: md_available_def)
  qed
qed

lemma EVP_Digest_eq:
  assumes "malloc_ok malloc" "length data < SIZE_LIMIT"
  shows "EVP_Digest malloc data (Some t) =
     Some (if md_alloc_fails malloc t then None else Some (md_digest t data, EVP_MD_size t))"
proof -
  have a: "md_available malloc EVP_MD_CTX_init t \<longleftrightarrow> \<not> md_alloc_fails malloc t"
    by (simp add: md_available_def EVP_MD_CTX_init_def)
  obtain ctx where i: "EVP_DigestInit_ex malloc EVP_MD_CTX_init (Some t) = Some (\<not> md_alloc_fails malloc t, ctx)"
    "\<not> md_alloc_fails malloc t \<Longrightarrow> ctx_absorbed t ctx []"
    using EVP_DigestInit_ex_rep [OF ctx_ok_init assms(1), of t] unfolding a by auto
  show ?thesis
  proof (cases "md_alloc_fails malloc t")
    case False
    then obtain ctx1 where u: "EVP_DigestUpdate ctx data = Some ctx1" "ctx_absorbed t ctx1 data"
      using EVP_DigestUpdate_rep [of t ctx "[]" data] i(2) assms(2) by auto
    then obtain ctx2 where "EVP_DigestFinal_ex ctx1 = Some (md_digest t data, EVP_MD_size t, ctx2)"
      using EVP_DigestFinal_ex_rep by blast
    then show ?thesis using False i(1) u(1) by (simp add: EVP_Digest_def)
  qed (simp add: EVP_Digest_def i(1))
qed

end
