(* ===== verification/Hmac.thy ===== *)
theory Hmac
  imports Evp_Digest
begin

text \<open>
  HMAC (\<open>fipsmodule/hmac/hmac.c\<close>) over the generic digests: the keyed contexts, their reuse and their copies. The
  reference is the function of RFC 2104.
\<close>

subsection \<open>Operations\<close>

record HMAC_CTX =
  hm_md :: "md option"
  hm_md_ctx :: EVP_MD_CTX
  hm_i_ctx :: EVP_MD_CTX
  hm_o_ctx :: EVP_MD_CTX

definition HMAC_CTX_init :: HMAC_CTX where
  "HMAC_CTX_init = \<lparr>hm_md = None, hm_md_ctx = EVP_MD_CTX_init, hm_i_ctx = EVP_MD_CTX_init, hm_o_ctx = EVP_MD_CTX_init\<rparr>"

definition HMAC_CTX_new :: "allocator \<Rightarrow> HMAC_CTX option" where
  "HMAC_CTX_new malloc = map_option (\<lambda>_. HMAC_CTX_init) (OPENSSL_malloc malloc 104)"

text \<open>The context is overwritten with zeros, which are null pointers.\<close>

definition HMAC_CTX_cleanup :: "HMAC_CTX \<Rightarrow> HMAC_CTX" where
  "HMAC_CTX_cleanup ctx =
     (let ctx = ctx\<lparr>hm_i_ctx := EVP_MD_CTX_cleanup (hm_i_ctx ctx), hm_o_ctx := EVP_MD_CTX_cleanup (hm_o_ctx ctx),
          hm_md_ctx := EVP_MD_CTX_cleanup (hm_md_ctx ctx)\<rparr>
      in HMAC_CTX_init)"

definition HMAC_CTX_reset :: "HMAC_CTX \<Rightarrow> HMAC_CTX" where
  "HMAC_CTX_reset ctx = (let ctx = HMAC_CTX_cleanup ctx in HMAC_CTX_init)"

text \<open>\<open>malloc k\<close> is the allocator at the k-th call site that may allocate. The first step: the key block.\<close>

definition hmac_key_block :: "(nat \<Rightarrow> allocator) \<Rightarrow> HMAC_CTX \<Rightarrow> u8 list \<Rightarrow> md \<Rightarrow> (bool \<times> u8 list \<times> HMAC_CTX) option" where
  "hmac_key_block malloc ctx key md = do {
     (ok, key_block, ctx) \<leftarrow>
       (if EVP_MD_block_size md < length key then do {
          (ok, c) \<leftarrow> EVP_DigestInit_ex (malloc 0) (hm_md_ctx ctx) (Some md);
          if \<not> ok then Some (False, [], ctx\<lparr>hm_md_ctx := c\<rparr>)
          else do {
            c \<leftarrow> EVP_DigestUpdate c key;
            (key_block, _, c) \<leftarrow> EVP_DigestFinal_ex c;
            Some (True, key_block, ctx\<lparr>hm_md_ctx := c\<rparr>) } }
        else do {
          _ \<leftarrow> c_assert (length key \<le> EVP_MAX_MD_BLOCK_SIZE);
          Some (True, key, ctx) });
     Some (ok, key_block @ replicate (EVP_MAX_MD_BLOCK_SIZE - length key_block) 0, ctx) }"

definition hmac_set_key :: "(nat \<Rightarrow> allocator) \<Rightarrow> HMAC_CTX \<Rightarrow> u8 list \<Rightarrow> md option \<Rightarrow> (bool \<times> HMAC_CTX) option" where
  "hmac_set_key malloc ctx key md = do {
     t \<leftarrow> md;
     let block_size = EVP_MD_block_size t;
     _ \<leftarrow> c_assert (block_size \<le> EVP_MAX_MD_BLOCK_SIZE);
     (ok, key_block, ctx) \<leftarrow> hmac_key_block malloc ctx key t;
     if \<not> ok then Some (False, ctx)
     else do {
       let pad = map ((XOR) 0x36) key_block;
       (ok, c) \<leftarrow> EVP_DigestInit_ex (malloc 1) (hm_i_ctx ctx) md;
       if \<not> ok then Some (False, ctx\<lparr>hm_i_ctx := c\<rparr>)
       else do {
         c \<leftarrow> EVP_DigestUpdate c (take block_size pad);
         let ctx = ctx\<lparr>hm_i_ctx := c\<rparr>;
         let pad = map ((XOR) 0x5C) key_block;
         (ok, c) \<leftarrow> EVP_DigestInit_ex (malloc 2) (hm_o_ctx ctx) md;
         if \<not> ok then Some (False, ctx\<lparr>hm_o_ctx := c\<rparr>)
         else do {
           c \<leftarrow> EVP_DigestUpdate c (take block_size pad);
           Some (True, ctx\<lparr>hm_o_ctx := c, hm_md := md\<rparr>) } } } }"

text \<open>A null key has no bytes.\<close>

definition HMAC_Init_ex ::
  "(nat \<Rightarrow> allocator) \<Rightarrow> HMAC_CTX \<Rightarrow> u8 list option \<Rightarrow> md option \<Rightarrow> (bool \<times> HMAC_CTX) option" where
  "HMAC_Init_ex malloc ctx key md0 = do {
     let md = (if md0 = None then hm_md ctx else md0);
     (ok, ctx) \<leftarrow>
       (if md \<noteq> hm_md ctx \<or> key \<noteq> None
        then hmac_set_key malloc ctx (case key of None \<Rightarrow> [] | Some k \<Rightarrow> k) md
        else Some (True, ctx));
     if \<not> ok then Some (False, ctx)
     else do {
       (ok, c) \<leftarrow> EVP_MD_CTX_copy_ex (malloc 3) (hm_md_ctx ctx) (Some (hm_i_ctx ctx));
       Some (ok, ctx\<lparr>hm_md_ctx := c\<rparr>) } }"

definition HMAC_Init :: "(nat \<Rightarrow> allocator) \<Rightarrow> HMAC_CTX \<Rightarrow> u8 list option \<Rightarrow> md option \<Rightarrow> (bool \<times> HMAC_CTX) option" where
  "HMAC_Init malloc ctx key md =
     HMAC_Init_ex malloc (if key \<noteq> None \<and> md \<noteq> None then HMAC_CTX_init else ctx) key md"

definition HMAC_Update :: "HMAC_CTX \<Rightarrow> u8 list \<Rightarrow> HMAC_CTX option" where
  "HMAC_Update ctx data = do {
     c \<leftarrow> EVP_DigestUpdate (hm_md_ctx ctx) data;
     Some (ctx\<lparr>hm_md_ctx := c\<rparr>) }"

text \<open>The digest and its size, or \<open>None\<close> inside for the result zero. A failure is stored through \<open>out_len\<close>, success only
  when it is not null.\<close>

definition HMAC_Final :: "allocator \<Rightarrow> bool \<Rightarrow> HMAC_CTX \<Rightarrow> ((u8 list \<times> nat) option \<times> HMAC_CTX) option" where
  "HMAC_Final malloc out_len_null ctx = do {
     (buf, i, c) \<leftarrow> EVP_DigestFinal_ex (hm_md_ctx ctx);
     (ok, c) \<leftarrow> EVP_MD_CTX_copy_ex malloc c (Some (hm_o_ctx ctx));
     if \<not> ok then do {
       _ \<leftarrow> c_assert (\<not> out_len_null);
       Some (None, ctx\<lparr>hm_md_ctx := c\<rparr>) }
     else do {
       c \<leftarrow> EVP_DigestUpdate c (take i buf);
       (out, out_len, c) \<leftarrow> EVP_DigestFinal_ex c;
       Some (Some (out, out_len), ctx\<lparr>hm_md_ctx := c\<rparr>) } }"

definition HMAC ::
  "(nat \<Rightarrow> allocator) \<Rightarrow> bool \<Rightarrow> md option \<Rightarrow> u8 list option \<Rightarrow> u8 list \<Rightarrow> (u8 list \<times> nat) option option" where
  "HMAC malloc out_len_null evp_md key data = do {
     (ok, ctx) \<leftarrow> HMAC_Init_ex malloc HMAC_CTX_init key evp_md;
     if \<not> ok then Some None
     else do {
       ctx \<leftarrow> HMAC_Update ctx data;
       (out, ctx) \<leftarrow> HMAC_Final (malloc 4) out_len_null ctx;
       let ctx = HMAC_CTX_cleanup ctx;
       Some out } }"

definition HMAC_size :: "HMAC_CTX \<Rightarrow> nat option" where
  "HMAC_size ctx = map_option EVP_MD_size (hm_md ctx)"

definition HMAC_CTX_copy_ex :: "(nat \<Rightarrow> allocator) \<Rightarrow> HMAC_CTX \<Rightarrow> HMAC_CTX \<Rightarrow> (bool \<times> HMAC_CTX) option" where
  "HMAC_CTX_copy_ex malloc dest src = do {
     (ok, c) \<leftarrow> EVP_MD_CTX_copy_ex (malloc 0) (hm_i_ctx dest) (Some (hm_i_ctx src));
     let dest = dest\<lparr>hm_i_ctx := c\<rparr>;
     if \<not> ok then Some (False, dest)
     else do {
       (ok, c) \<leftarrow> EVP_MD_CTX_copy_ex (malloc 1) (hm_o_ctx dest) (Some (hm_o_ctx src));
       let dest = dest\<lparr>hm_o_ctx := c\<rparr>;
       if \<not> ok then Some (False, dest)
       else do {
         (ok, c) \<leftarrow> EVP_MD_CTX_copy_ex (malloc 2) (hm_md_ctx dest) (Some (hm_md_ctx src));
         let dest = dest\<lparr>hm_md_ctx := c\<rparr>;
         if \<not> ok then Some (False, dest)
         else Some (True, dest\<lparr>hm_md := hm_md src\<rparr>) } } }"

definition HMAC_CTX_copy :: "(nat \<Rightarrow> allocator) \<Rightarrow> HMAC_CTX \<Rightarrow> (bool \<times> HMAC_CTX) option" where
  "HMAC_CTX_copy malloc src = HMAC_CTX_copy_ex malloc HMAC_CTX_init src"

subsection \<open>RFC 2104\<close>

definition hmac_key :: "md \<Rightarrow> u8 list \<Rightarrow> u8 list" where
  "hmac_key t key =
     (let k = (if length key > EVP_MD_block_size t then md_digest t key else key)
      in k @ replicate (EVP_MD_block_size t - length k) 0)"

definition ipad :: "md \<Rightarrow> u8 list \<Rightarrow> u8 list" where "ipad t key = map ((XOR) 0x36) (hmac_key t key)"
definition opad :: "md \<Rightarrow> u8 list \<Rightarrow> u8 list" where "opad t key = map ((XOR) 0x5C) (hmac_key t key)"

definition rfc2104 :: "md \<Rightarrow> u8 list \<Rightarrow> u8 list \<Rightarrow> u8 list" where
  "rfc2104 t key msg = md_digest t (opad t key @ md_digest t (ipad t key @ msg))"

lemma length_rfc2104 [simp]: "length (rfc2104 t key msg) = EVP_MD_size t"
  by (simp add: rfc2104_def dg.length_H EVP_MD_size_def)

lemma length_hmac_key [simp]: "length (hmac_key t key) = EVP_MD_block_size t"
  using dg.sizes(3) [of t] by (auto simp: hmac_key_def Let_def EVP_MD_block_size_def dg.length_H)

lemma length_pads [simp]: "length (ipad t key) = EVP_MD_block_size t" "length (opad t key) = EVP_MD_block_size t"
  by (simp_all add: ipad_def opad_def)

lemma block_size_bound: "EVP_MD_block_size t \<le> EVP_MAX_MD_BLOCK_SIZE" "EVP_MD_block_size t < SIZE_LIMIT"
  using dg.sizes(4) [of t] by (simp_all add: EVP_MD_block_size_def EVP_MAX_MD_BLOCK_SIZE_def SIZE_LIMIT_def)

text \<open>A context with a key, and one that has absorbed a message under it.\<close>

definition hmac_keyed :: "md \<Rightarrow> u8 list \<Rightarrow> HMAC_CTX \<Rightarrow> bool" where
  "hmac_keyed t key ctx \<longleftrightarrow> hm_md ctx = Some t \<and> ctx_absorbed t (hm_i_ctx ctx) (ipad t key) \<and>
     ctx_absorbed t (hm_o_ctx ctx) (opad t key) \<and> ctx_ok (hm_md_ctx ctx)"

definition hmac_absorbed :: "md \<Rightarrow> u8 list \<Rightarrow> HMAC_CTX \<Rightarrow> u8 list \<Rightarrow> bool" where
  "hmac_absorbed t key ctx msg \<longleftrightarrow> hmac_keyed t key ctx \<and> ctx_absorbed t (hm_md_ctx ctx) (ipad t key @ msg)"

subsection \<open>Correctness\<close>

lemma take_key_block:
  "length k \<le> EVP_MD_block_size t \<Longrightarrow>
     take (EVP_MD_block_size t) (k @ replicate (EVP_MAX_MD_BLOCK_SIZE - length k) 0) = k @ replicate (EVP_MD_block_size t - length k) 0"
  using block_size_bound(1) [of t] by (simp add: min_def)

text \<open>Only a key longer than a block is hashed, and only that may fail.\<close>

lemma hmac_key_block_rep:
  fixes t :: md
  assumes "ctx_ok (hm_md_ctx ctx)" "malloc_ok (malloc 0)" "length key < SIZE_LIMIT"
  defines "long \<equiv> EVP_MD_block_size t < length key"
  shows "\<exists>kb c. hmac_key_block malloc ctx key t =
       Some (long \<longrightarrow> md_available (malloc 0) (hm_md_ctx ctx) t, kb, ctx\<lparr>hm_md_ctx := c\<rparr>) \<and> ctx_ok c \<and>
     (if long then md_available (malloc 0) (hm_md_ctx ctx) t \<longrightarrow> ctx_digest c = Some t else c = hm_md_ctx ctx) \<and>
     ((long \<longrightarrow> md_available (malloc 0) (hm_md_ctx ctx) t) \<longrightarrow> take (EVP_MD_block_size t) kb = hmac_key t key)"
proof (cases long)
  case False
  then have "length key \<le> EVP_MAX_MD_BLOCK_SIZE" using block_size_bound(1) [of t] by (simp add: long_def)
  then have "hmac_key_block malloc ctx key t = Some (True, key @ replicate (EVP_MAX_MD_BLOCK_SIZE - length key) 0, ctx)"
    using False by (simp add: hmac_key_block_def long_def)
  then show ?thesis
    using False assms(1) by (intro exI [of _ "key @ replicate (EVP_MAX_MD_BLOCK_SIZE - length key) 0"] exI [of _ "hm_md_ctx ctx"])
      (use take_key_block [of key t] in \<open>simp add: hmac_key_def long_def\<close>)
next
  case True
  let ?av = "md_available (malloc 0) (hm_md_ctx ctx) t"
  obtain c where c: "EVP_DigestInit_ex (malloc 0) (hm_md_ctx ctx) (Some t) = Some (?av, c)"
    "if ?av then ctx_absorbed t c [] else c = hm_md_ctx ctx"
    using EVP_DigestInit_ex_rep [OF assms(1,2)] by blast
  show ?thesis
  proof (cases ?av)
    case False
    then show ?thesis
      using True c assms(1) by (intro exI [of _ "replicate EVP_MAX_MD_BLOCK_SIZE 0"] exI [of _ c]) (simp add: hmac_key_block_def long_def)
  next
    case av: True
    obtain c1 where c1: "EVP_DigestUpdate c key = Some c1" "ctx_absorbed t c1 key"
      using EVP_DigestUpdate_rep [of t c "[]" key] c(2) av assms(3) by auto
    obtain c2 where c2: "EVP_DigestFinal_ex c1 = Some (md_digest t key, EVP_MD_size t, c2)" "ctx_ok c2" "ctx_digest c2 = Some t"
      using EVP_DigestFinal_ex_rep [OF c1(2)] by blast
    have "length (md_digest t key) \<le> EVP_MD_block_size t"
      using dg.sizes(3) [of t] by (simp add: dg.length_H EVP_MD_block_size_def)
    then show ?thesis
      using True av c(1) c1(1) c2 by (intro exI [of _ "md_digest t key @ replicate (EVP_MAX_MD_BLOCK_SIZE - length (md_digest t key)) 0"] exI [of _ c2])
        (use take_key_block [of "md_digest t key" t] in \<open>simp add: hmac_key_block_def long_def hmac_key_def Let_def\<close>)
  qed
qed

text \<open>The inner or the outer context: initialised, and given the first block.\<close>

lemma pad_ctx:
  assumes "ctx_ok c" "malloc_ok m" "take (EVP_MD_block_size t) kb = hmac_key t key" "md_available m c t"
  shows "\<exists>c1 c2. EVP_DigestInit_ex m c (Some t) = Some (True, c1) \<and>
     EVP_DigestUpdate c1 (take (EVP_MD_block_size t) (map ((XOR) x) kb)) = Some c2 \<and>
     ctx_absorbed t c2 (map ((XOR) x) (hmac_key t key))"
proof -
  obtain c1 where c1: "EVP_DigestInit_ex m c (Some t) = Some (True, c1)" "ctx_absorbed t c1 []"
    using EVP_DigestInit_ex_rep [OF assms(1,2), of t] assms(4) by auto
  have "take (EVP_MD_block_size t) (map ((XOR) x) kb) = map ((XOR) x) (hmac_key t key)"
    by (simp add: take_map assms(3))
  then show ?thesis
    using EVP_DigestUpdate_rep [OF c1(2), of "map ((XOR) x) (hmac_key t key)"] block_size_bound(2) [of t] c1(1) by simp
qed

definition hmac_ok :: "HMAC_CTX \<Rightarrow> bool" where
  "hmac_ok ctx \<longleftrightarrow> ctx_ok (hm_md_ctx ctx) \<and> ctx_ok (hm_i_ctx ctx) \<and> ctx_ok (hm_o_ctx ctx)"

definition hmac_key_available :: "(nat \<Rightarrow> allocator) \<Rightarrow> HMAC_CTX \<Rightarrow> md \<Rightarrow> u8 list \<Rightarrow> bool" where
  "hmac_key_available malloc ctx t key \<longleftrightarrow>
     (EVP_MD_block_size t < length key \<longrightarrow> md_available (malloc 0) (hm_md_ctx ctx) t) \<and>
     md_available (malloc 1) (hm_i_ctx ctx) t \<and> md_available (malloc 2) (hm_o_ctx ctx) t"

lemma hmac_set_key_rep:
  assumes "hmac_ok ctx" "\<forall>k. malloc_ok (malloc k)" "length key < SIZE_LIMIT"
  shows "\<exists>ctx'. hmac_set_key malloc ctx key (Some t) = Some (hmac_key_available malloc ctx t key, ctx') \<and>
     (hmac_key_available malloc ctx t key \<longrightarrow> hmac_keyed t key ctx' \<and>
        (if EVP_MD_block_size t < length key then ctx_digest (hm_md_ctx ctx') = Some t else hm_md_ctx ctx' = hm_md_ctx ctx))"
proof -
  let ?long = "EVP_MD_block_size t < length key" and ?b = "EVP_MD_block_size t"
  let ?a0 = "?long \<longrightarrow> md_available (malloc 0) (hm_md_ctx ctx) t"
    and ?a1 = "md_available (malloc 1) (hm_i_ctx ctx) t" and ?a2 = "md_available (malloc 2) (hm_o_ctx ctx) t"
  have ok: "ctx_ok (hm_md_ctx ctx)" "ctx_ok (hm_i_ctx ctx)" "ctx_ok (hm_o_ctx ctx)"
    and m: "malloc_ok (malloc k)" for k
    using assms(1,2) by (auto simp: hmac_ok_def)
  obtain kb c where k: "hmac_key_block malloc ctx key t = Some (?a0, kb, ctx\<lparr>hm_md_ctx := c\<rparr>)" "ctx_ok c"
    "if ?long then md_available (malloc 0) (hm_md_ctx ctx) t \<longrightarrow> ctx_digest c = Some t else c = hm_md_ctx ctx"
    "?a0 \<longrightarrow> take ?b kb = hmac_key t key"
    using hmac_key_block_rep [of ctx malloc key t, OF ok(1) m assms(3)] by blast
  consider "\<not> ?a0" | "?a0" "\<not> ?a1" | "?a0" "?a1" "\<not> ?a2" | "?a0" "?a1" "?a2" by blast
  then show ?thesis
  proof cases
    case 1
    then show ?thesis using k(1) block_size_bound(1) [of t] by (auto simp: hmac_set_key_def hmac_key_available_def)
  next
    case 2
    obtain ci where "EVP_DigestInit_ex (malloc 1) (hm_i_ctx ctx) (Some t) = Some (False, ci)"
      using EVP_DigestInit_ex_rep [OF ok(2) m, of 1 t] 2(2) by auto
    then show ?thesis
      using 2 k(1) block_size_bound(1) [of t] by (simp add: hmac_set_key_def hmac_key_available_def)
  next
    case 3
    obtain c1 c2 where i: "EVP_DigestInit_ex (malloc 1) (hm_i_ctx ctx) (Some t) = Some (True, c1)"
      "EVP_DigestUpdate c1 (take ?b (map ((XOR) 0x36) kb)) = Some c2"
      using pad_ctx [OF ok(2) m, of t kb key 1 "0x36"] k(4) 3 by blast
    obtain co where "EVP_DigestInit_ex (malloc 2) (hm_o_ctx ctx) (Some t) = Some (False, co)"
      using EVP_DigestInit_ex_rep [OF ok(3) m, of 2 t] 3(3) by auto
    then show ?thesis
      using 3 k(1) i block_size_bound(1) [of t] by (simp add: hmac_set_key_def hmac_key_available_def)
  next
    case 4
    obtain c1 c2 where i: "EVP_DigestInit_ex (malloc 1) (hm_i_ctx ctx) (Some t) = Some (True, c1)"
      "EVP_DigestUpdate c1 (take ?b (map ((XOR) 0x36) kb)) = Some c2" "ctx_absorbed t c2 (ipad t key)"
      using pad_ctx [OF ok(2) m, of t kb key 1 "0x36"] k(4) 4 unfolding ipad_def by blast
    obtain d1 d2 where o: "EVP_DigestInit_ex (malloc 2) (hm_o_ctx ctx) (Some t) = Some (True, d1)"
      "EVP_DigestUpdate d1 (take ?b (map ((XOR) 0x5C) kb)) = Some d2" "ctx_absorbed t d2 (opad t key)"
      using pad_ctx [OF ok(3) m, of t kb key 2 "0x5C"] k(4) 4 unfolding opad_def by blast
    let ?ctx = "ctx\<lparr>hm_md_ctx := c, hm_i_ctx := c2, hm_o_ctx := d2, hm_md := Some t\<rparr>"
    have "hmac_set_key malloc ctx key (Some t) = Some (True, ?ctx)"
      using 4 k(1) i(1,2) o(1,2) block_size_bound(1) [of t] by (simp add: hmac_set_key_def)
    moreover have "hmac_keyed t key ?ctx" using i(3) o(3) k(2) by (simp add: hmac_keyed_def)
    ultimately show ?thesis using 4 k(3) by (auto simp: hmac_key_available_def)
  qed
qed

lemma HMAC_Init_ex_key:
  assumes "hmac_ok ctx" "\<forall>k. malloc_ok (malloc k)" "length key < SIZE_LIMIT"
  shows "\<exists>ok ctx'. HMAC_Init_ex malloc ctx (Some key) (Some t) = Some (ok, ctx') \<and>
     (ok \<longrightarrow> hmac_absorbed t key ctx' []) \<and>
     (ok \<longleftrightarrow> hmac_key_available malloc ctx t key \<and>
        (EVP_MD_block_size t < length key \<or> md_available (malloc 3) (hm_md_ctx ctx) t))"
proof -
  obtain c1 where c1: "hmac_set_key malloc ctx key (Some t) = Some (hmac_key_available malloc ctx t key, c1)"
    "hmac_key_available malloc ctx t key \<longrightarrow> hmac_keyed t key c1 \<and>
        (if EVP_MD_block_size t < length key then ctx_digest (hm_md_ctx c1) = Some t else hm_md_ctx c1 = hm_md_ctx ctx)"
    using hmac_set_key_rep [OF assms] by blast
  show ?thesis
  proof (cases "hmac_key_available malloc ctx t key")
    case True
    then have k: "hmac_keyed t key c1" "ctx_absorbed t (hm_i_ctx c1) (ipad t key)" "ctx_ok (hm_md_ctx c1)"
      and d: "if EVP_MD_block_size t < length key then ctx_digest (hm_md_ctx c1) = Some t else hm_md_ctx c1 = hm_md_ctx ctx"
      using c1(2) by (auto simp: hmac_keyed_def)
    let ?av = "md_available (malloc 3) (hm_md_ctx c1) t"
    obtain c where c: "EVP_MD_CTX_copy_ex (malloc 3) (hm_md_ctx c1) (Some (hm_i_ctx c1)) = Some (?av, c)"
      "if ?av then ctx_absorbed t c (ipad t key) else c = hm_md_ctx c1"
      using EVP_MD_CTX_copy_ex_rep [OF k(2,3)] by blast
    have "?av \<longleftrightarrow> EVP_MD_block_size t < length key \<or> md_available (malloc 3) (hm_md_ctx ctx) t"
      using d by (auto simp: md_available_def split: if_splits)
    moreover have "HMAC_Init_ex malloc ctx (Some key) (Some t) = Some (?av, c1\<lparr>hm_md_ctx := c\<rparr>)"
      using True c1(1) c(1) by (simp add: HMAC_Init_ex_def)
    moreover have "hmac_absorbed t key (c1\<lparr>hm_md_ctx := c\<rparr>) []" if ?av
      using that k(1) c(2) ctx_absorbed_ok by (auto simp: hmac_absorbed_def hmac_keyed_def)
    ultimately show ?thesis using True by auto
  next
    case False
    then show ?thesis using c1(1) by (auto simp: HMAC_Init_ex_def)
  qed
qed

text \<open>Rewinding: no key, no digest. A context of the right kind is there already, so this cannot fail.\<close>

lemma HMAC_Init_ex_rewind:
  assumes "hmac_keyed t key ctx" "ctx_digest (hm_md_ctx ctx) = Some t" "md = None \<or> md = Some t"
  shows "\<exists>ctx'. HMAC_Init_ex malloc ctx None md = Some (True, ctx') \<and> hmac_absorbed t key ctx' []"
proof -
  have k: "hm_md ctx = Some t" "ctx_absorbed t (hm_i_ctx ctx) (ipad t key)" "ctx_ok (hm_md_ctx ctx)"
    using assms(1) by (auto simp: hmac_keyed_def)
  obtain c where c: "EVP_MD_CTX_copy_ex (malloc 3) (hm_md_ctx ctx) (Some (hm_i_ctx ctx)) = Some (True, c)"
    "ctx_absorbed t c (ipad t key)"
    using EVP_MD_CTX_copy_ex_rep [OF k(2,3), of "malloc 3"] assms(2) by (auto simp: md_available_def)
  have "HMAC_Init_ex malloc ctx None md = Some (True, ctx\<lparr>hm_md_ctx := c\<rparr>)"
    using k(1) c(1) assms(3) by (auto simp: HMAC_Init_ex_def)
  then show ?thesis using assms(1) c(2) ctx_absorbed_ok by (auto simp: hmac_absorbed_def hmac_keyed_def)
qed

lemma HMAC_Update_rep:
  assumes "hmac_absorbed t key ctx msg" "length d < SIZE_LIMIT"
  shows "\<exists>ctx'. HMAC_Update ctx d = Some ctx' \<and> hmac_absorbed t key ctx' (msg @ d)"
proof -
  obtain c where "EVP_DigestUpdate (hm_md_ctx ctx) d = Some c" "ctx_absorbed t c ((ipad t key @ msg) @ d)"
    using EVP_DigestUpdate_rep assms by (metis hmac_absorbed_def)
  then show ?thesis
    using assms(1) ctx_absorbed_ok by (auto simp: HMAC_Update_def hmac_absorbed_def hmac_keyed_def)
qed

text \<open>Finishing cannot fail: the context that the outer one is copied into has the right kind already.\<close>

lemma HMAC_Final_rep:
  assumes "hmac_absorbed t key ctx msg"
  shows "\<exists>ctx'. HMAC_Final malloc out_len_null ctx = Some (Some (rfc2104 t key msg, EVP_MD_size t), ctx') \<and>
     hmac_keyed t key ctx' \<and> ctx_digest (hm_md_ctx ctx') = Some t"
proof -
  have o: "ctx_absorbed t (hm_o_ctx ctx) (opad t key)" and a: "ctx_absorbed t (hm_md_ctx ctx) (ipad t key @ msg)"
    using assms by (auto simp: hmac_absorbed_def hmac_keyed_def)
  let ?inner = "md_digest t (ipad t key @ msg)"
  obtain c1 where c1: "EVP_DigestFinal_ex (hm_md_ctx ctx) = Some (?inner, EVP_MD_size t, c1)" "ctx_ok c1" "ctx_digest c1 = Some t"
    using EVP_DigestFinal_ex_rep [OF a] by blast
  obtain c2 where c2: "EVP_MD_CTX_copy_ex malloc c1 (Some (hm_o_ctx ctx)) = Some (True, c2)" "ctx_absorbed t c2 (opad t key)"
    using EVP_MD_CTX_copy_ex_rep [OF o c1(2), of malloc] c1(3) by (auto simp: md_available_def)
  have i: "take (EVP_MD_size t) ?inner = ?inner" by (simp add: dg.length_H EVP_MD_size_def)
  obtain c3 where c3: "EVP_DigestUpdate c2 ?inner = Some c3" "ctx_absorbed t c3 (opad t key @ ?inner)"
    using EVP_DigestUpdate_rep [OF c2(2)] dg.length_H_bound(2) [of t] by blast
  obtain c4 where c4: "EVP_DigestFinal_ex c3 = Some (rfc2104 t key msg, EVP_MD_size t, c4)" "ctx_ok c4" "ctx_digest c4 = Some t"
    using EVP_DigestFinal_ex_rep [OF c3(2)] unfolding rfc2104_def by blast
  have "HMAC_Final malloc out_len_null ctx = Some (Some (rfc2104 t key msg, EVP_MD_size t), ctx\<lparr>hm_md_ctx := c4\<rparr>)"
    using c1(1) c2(1) c3(1) c4(1) i by (simp add: HMAC_Final_def)
  then show ?thesis using assms c4(2,3) by (auto simp: hmac_absorbed_def hmac_keyed_def)
qed

lemma HMAC_null_key: "HMAC malloc out_len_null (Some t) None data = HMAC malloc out_len_null (Some t) (Some []) data"
  by (simp add: HMAC_def HMAC_Init_ex_def HMAC_CTX_init_def)

lemma HMAC_eq:
  assumes "\<forall>k. malloc_ok (malloc k)" "length key < SIZE_LIMIT" "length data < SIZE_LIMIT"
  shows "HMAC malloc out_len_null (Some t) (Some key) data =
     Some (if (if length key > EVP_MD_block_size t then md_alloc_fails (malloc 0) t else md_alloc_fails (malloc 3) t) \<or>
              md_alloc_fails (malloc 1) t \<or> md_alloc_fails (malloc 2) t
           then None else Some (rfc2104 t key data, EVP_MD_size t))"
proof -
  have ok: "hmac_ok HMAC_CTX_init" by (simp add: hmac_ok_def HMAC_CTX_init_def)
  have fresh: "md_available m (hm_md_ctx HMAC_CTX_init) t \<longleftrightarrow> \<not> md_alloc_fails m t"
    "md_available m (hm_i_ctx HMAC_CTX_init) t \<longleftrightarrow> \<not> md_alloc_fails m t"
    "md_available m (hm_o_ctx HMAC_CTX_init) t \<longleftrightarrow> \<not> md_alloc_fails m t" for m
    by (simp_all add: md_available_def HMAC_CTX_init_def EVP_MD_CTX_init_def)
  obtain ok ctx where i: "HMAC_Init_ex malloc HMAC_CTX_init (Some key) (Some t) = Some (ok, ctx)"
    "ok \<longrightarrow> hmac_absorbed t key ctx []"
    "ok \<longleftrightarrow> hmac_key_available malloc HMAC_CTX_init t key \<and>
        (EVP_MD_block_size t < length key \<or> md_available (malloc 3) (hm_md_ctx HMAC_CTX_init) t)"
    using HMAC_Init_ex_key [OF ok assms(1,2)] by blast
  show ?thesis
  proof (cases ok)
    case True
    then obtain c1 where c1: "HMAC_Update ctx data = Some c1" "hmac_absorbed t key c1 data"
      using HMAC_Update_rep [of t key ctx "[]" data] i(2) assms(3) by auto
    obtain c2 where "HMAC_Final (malloc 4) out_len_null c1 = Some (Some (rfc2104 t key data, EVP_MD_size t), c2)"
      using HMAC_Final_rep [OF c1(2)] by blast
    then show ?thesis using True i(1,3) c1(1) by (auto simp: HMAC_def hmac_key_available_def fresh)
  next
    case False
    then show ?thesis using i(1,3) by (auto simp: HMAC_def hmac_key_available_def fresh)
  qed
qed

text \<open>C9: the one-shot \<open>HMAC\<close> is the function of RFC 2104, for every digest of the library and keys of every
  length. It fails exactly when an allocation that it needs fails, never past the initialisation, and no use of
  its contexts is undefined.\<close>

theorem HMAC_correct:
  assumes "\<forall>k. malloc_ok (malloc k)" "length key < SIZE_LIMIT" "length data < SIZE_LIMIT"
  shows "HMAC malloc out_len_null (Some t) (Some key) data =
     Some (if (if length key > EVP_MD_block_size t then md_alloc_fails (malloc 0) t else md_alloc_fails (malloc 3) t) \<or>
              md_alloc_fails (malloc 1) t \<or> md_alloc_fails (malloc 2) t
           then None else Some (rfc2104 t key data, EVP_MD_size t))"
  by (rule HMAC_eq [OF assms])

theorem HMAC_correct_witness:
  "HMAC (\<lambda>k n. Some (replicate n 0)) True (Some EVP_sha256) (Some [1, 2]) [3] = Some (Some (rfc2104 EVP_sha256 [1, 2] [3], 32)) \<and>
   HMAC (\<lambda>k n. if k = 1 then None else Some (replicate n 0)) True (Some EVP_sha256) (Some [1, 2]) [3] = Some None"
  using HMAC_correct [of "\<lambda>k n. if k = 1 then None else Some (replicate n 0)" "[1, 2]" "[3]" True EVP_sha256]
    HMAC_correct [of "\<lambda>k n. Some (replicate n 0)" "[1, 2]" "[3]" True EVP_sha256]
  by (simp add: malloc_ok_def SIZE_LIMIT_def md_alloc_fails_def OPENSSL_malloc_def EVP_MD_block_size_def EVP_MD_size_def
      method_defs)

end
