(* ===== verification/Kdf.thy ===== *)
theory Kdf
  imports Hmac
begin

text \<open>
  Key derivation over HMAC: HKDF (\<open>crypto/hkdf/hkdf.c\<close>) and the pseudorandom function of TLS
  (\<open>fipsmodule/tls/kdf.c\<close>), with the functions of RFC 5869 and RFC 5246 as references.
\<close>

subsection \<open>HKDF\<close>

text \<open>The key and its length, or \<open>None\<close> inside for the result zero. The allocation sites are counted as in \<open>Hmac\<close>.\<close>

definition HKDF_extract ::
  "(nat \<Rightarrow> allocator) \<Rightarrow> md \<Rightarrow> u8 list \<Rightarrow> u8 list option \<Rightarrow> (u8 list \<times> nat) option option" where
  "HKDF_extract malloc digest secret salt = do {
     r \<leftarrow> HMAC malloc False (Some digest) salt secret;
     case r of
       None \<Rightarrow> Some None
     | Some (out_key, len) \<Rightarrow> do {
         _ \<leftarrow> c_assert (len = EVP_MD_size digest);
         Some (Some (out_key, len)) } }"

text \<open>The loop, with the number of turns left, the counter \<open>i\<close>, the previous block and what has been written.\<close>

primrec hkdf_loop ::
  "nat \<Rightarrow> (nat \<Rightarrow> allocator) \<Rightarrow> md \<Rightarrow> u8 list \<Rightarrow> nat \<Rightarrow> nat \<Rightarrow> HMAC_CTX \<Rightarrow> u8 list \<Rightarrow> u8 list \<Rightarrow> u8 list option option" where
  "hkdf_loop 0 malloc digest info out_len i hmac previous out_key = Some (Some out_key)"
| "hkdf_loop (Suc left) malloc digest info out_len i hmac previous out_key = do {
     let digest_len = EVP_MD_size digest;
     let ctr = (word_of_nat (i + 1) :: u8);
     (ok, hmac) \<leftarrow>
       (if i \<noteq> 0 then do {
          (ok, hmac) \<leftarrow> HMAC_Init_ex (\<lambda>k. malloc (5 * i + k)) hmac None None;
          if \<not> ok then Some (False, hmac)
          else do {
            hmac \<leftarrow> HMAC_Update hmac (take digest_len previous);
            Some (True, hmac) } }
        else Some (True, hmac));
     if \<not> ok then Some None
     else do {
       hmac \<leftarrow> HMAC_Update hmac info;
       hmac \<leftarrow> HMAC_Update hmac [ctr];
       (r, hmac) \<leftarrow> HMAC_Final (malloc (5 * i + 4)) True hmac;
       case r of
         None \<Rightarrow> Some None
       | Some (previous, _) \<Rightarrow>
           let so_far = length out_key;
               todo = digest_len;
               todo = (if size_add so_far todo > out_len then size_sub out_len so_far else todo)
           in hkdf_loop left malloc digest info out_len (i + 1) hmac previous (out_key @ take todo previous) } }"

definition HKDF_expand ::
  "(nat \<Rightarrow> allocator) \<Rightarrow> nat \<Rightarrow> md \<Rightarrow> u8 list \<Rightarrow> u8 list \<Rightarrow> u8 list option option" where
  "HKDF_expand malloc out_len digest prk info =
     (let digest_len = EVP_MD_size digest;
          n = size_sub (size_add out_len digest_len) 1 div digest_len
      in if size_add out_len digest_len < out_len \<or> n > 255 then Some None
         else do {
           (ok, hmac) \<leftarrow> HMAC_Init_ex malloc HMAC_CTX_init (Some prk) (Some digest);
           if \<not> ok then Some None else hkdf_loop n malloc digest info out_len 0 hmac [] [] })"

definition HKDF ::
  "(nat \<Rightarrow> allocator) \<Rightarrow> nat \<Rightarrow> md \<Rightarrow> u8 list \<Rightarrow> u8 list option \<Rightarrow> u8 list \<Rightarrow> u8 list option option" where
  "HKDF malloc out_len digest secret salt info = do {
     r \<leftarrow> HKDF_extract malloc digest secret salt;
     case r of
       None \<Rightarrow> Some None
     | Some (prk, prk_len) \<Rightarrow> HKDF_expand (\<lambda>k. malloc (5 + k)) out_len digest (take prk_len prk) info }"

text \<open>RFC 5869, section 2: the blocks \<open>T(0)\<close>, \<open>T(1)\<close>, \<dots> of the expansion.\<close>

fun hkdf_T :: "md \<Rightarrow> u8 list \<Rightarrow> u8 list \<Rightarrow> nat \<Rightarrow> u8 list" where
  "hkdf_T t prk info 0 = []"
| "hkdf_T t prk info (Suc i) = rfc2104 t prk (hkdf_T t prk info i @ info @ [word_of_nat (Suc i)])"

definition hkdf_blocks :: "md \<Rightarrow> u8 list \<Rightarrow> u8 list \<Rightarrow> nat \<Rightarrow> u8 list" where
  "hkdf_blocks t prk info n = concat (map (\<lambda>i. hkdf_T t prk info (Suc i)) [0..<n])"

definition rfc5869 :: "md \<Rightarrow> u8 list \<Rightarrow> u8 list \<Rightarrow> u8 list \<Rightarrow> nat \<Rightarrow> u8 list" where
  "rfc5869 t salt secret info L =
     take L (hkdf_blocks t (rfc2104 t salt secret) info ((L + EVP_MD_size t - 1) div EVP_MD_size t))"

definition allocs_succeed :: "(nat \<Rightarrow> allocator) \<Rightarrow> md \<Rightarrow> bool" where
  "allocs_succeed malloc t \<longleftrightarrow> (\<forall>k. \<not> md_alloc_fails (malloc k) t)"

lemma md_size_bounds: "0 < EVP_MD_size t" "EVP_MD_size t \<le> 64"
  using dg.sizes(1,2) [of t] by (simp_all add: EVP_MD_size_def EVP_MAX_MD_SIZE_def)

lemma length_hkdf_T: "length (hkdf_T t prk info (Suc i)) = EVP_MD_size t"
  by simp

lemma length_hkdf_blocks: "length (hkdf_blocks t prk info n) = n * EVP_MD_size t"
  by (induction n) (simp_all add: hkdf_blocks_def)

lemma hkdf_blocks_Suc: "hkdf_blocks t prk info (Suc i) = hkdf_blocks t prk info i @ hkdf_T t prk info (Suc i)"
  by (simp add: hkdf_blocks_def)

lemma hkdf_chunk:
  assumes "length previous = len" "0 < len" "out = take out_len blocks" "length blocks = i * len" "i * len < out_len"
    "out_len + len < SIZE_LIMIT"
  shows "out @ take (if size_add (length out) len > out_len then size_sub out_len (length out) else len) previous =
     take out_len (blocks @ previous)"
proof -
  have l: "length out = i * len" using assms by simp
  have "size_add (length out) len = i * len + len" using assms l by (simp add: c_arith)
  then show ?thesis using assms l by (auto simp: c_arith)
qed

text \<open>The loop never fails, and writes the blocks that remain.\<close>

lemma hkdf_loop_rep:
  assumes len: "EVP_MD_size t = len" "length info < SIZE_LIMIT" "out_len + len < SIZE_LIMIT"
  shows "left + i = (out_len + len - 1) div len \<Longrightarrow>
     (if i = 0 then hmac_absorbed t prk hmac [] else hmac_keyed t prk hmac \<and> ctx_digest (hm_md_ctx hmac) = Some t) \<Longrightarrow>
     previous = hkdf_T t prk info i \<Longrightarrow> out = take out_len (hkdf_blocks t prk info i) \<Longrightarrow>
     hkdf_loop left malloc t info out_len i hmac previous out =
       Some (Some (take out_len (hkdf_blocks t prk info (left + i))))"
proof (induction left arbitrary: i hmac previous out)
  case (Suc left)
  have pos: "0 < len" "len \<le> 64" using md_size_bounds [of t] len by auto
  have lt: "i * len < out_len"
  proof -
    have "Suc i * len \<le> (left + Suc i) * len" by simp
    also have "\<dots> \<le> out_len + len - 1" using Suc.prems(1) by (metis add_Suc_shift div_times_less_eq_dividend)
    finally show ?thesis using pos by simp
  qed
  have start: "\<exists>h. (if i \<noteq> 0 then do {
          (ok, hmac) \<leftarrow> HMAC_Init_ex (\<lambda>k. malloc (5 * i + k)) hmac None None;
          if \<not> ok then Some (False, hmac)
          else do { hmac \<leftarrow> HMAC_Update hmac (take len previous); Some (True, hmac) } }
        else Some (True, hmac)) = Some (True, h) \<and> hmac_absorbed t prk h previous"
  proof (cases i)
    case 0
    then show ?thesis using Suc.prems(2,3) by simp
  next
    case (Suc j)
    obtain h1 where h1: "HMAC_Init_ex (\<lambda>k. malloc (5 * i + k)) hmac None None = Some (True, h1)" "hmac_absorbed t prk h1 []"
      using HMAC_Init_ex_rewind [of t prk hmac None] Suc.prems(2) Suc by auto
    have p: "take len previous = previous" "length previous < SIZE_LIMIT"
      using Suc.prems(3) Suc len(1) pos by (simp_all add: SIZE_LIMIT_def)
    obtain h2 where "HMAC_Update h1 previous = Some h2" "hmac_absorbed t prk h2 ([] @ previous)"
      using HMAC_Update_rep [OF h1(2) p(2)] by blast
    then show ?thesis using h1(1) p(1) Suc by simp
  qed
  obtain h where h: "(if i \<noteq> 0 then do {
          (ok, hmac) \<leftarrow> HMAC_Init_ex (\<lambda>k. malloc (5 * i + k)) hmac None None;
          if \<not> ok then Some (False, hmac)
          else do { hmac \<leftarrow> HMAC_Update hmac (take len previous); Some (True, hmac) } }
        else Some (True, hmac)) = Some (True, h)" "hmac_absorbed t prk h previous"
    using start by blast
  let ?ctr = "word_of_nat (i + 1) :: u8"
  obtain h3 where h3: "HMAC_Update h info = Some h3" "hmac_absorbed t prk h3 (previous @ info)"
    using HMAC_Update_rep [OF h(2) len(2)] by blast
  obtain h4 where h4: "HMAC_Update h3 [?ctr] = Some h4" "hmac_absorbed t prk h4 ((previous @ info) @ [?ctr])"
    using HMAC_Update_rep [OF h3(2), of "[?ctr]"] by (auto simp: SIZE_LIMIT_def)
  let ?T = "hkdf_T t prk info (Suc i)"
  have T: "rfc2104 t prk ((previous @ info) @ [?ctr]) = ?T" using Suc.prems(3) by simp
  obtain h5 where h5: "HMAC_Final (malloc (5 * i + 4)) True h4 = Some (Some (?T, len), h5)"
    "hmac_keyed t prk h5" "ctx_digest (hm_md_ctx h5) = Some t"
    using HMAC_Final_rep [OF h4(2), of "malloc (5 * i + 4)" True] unfolding T len(1) by blast
  have lT: "length ?T = len" using len(1) by simp
  have out: "out @ take (if size_add (length out) len > out_len then size_sub out_len (length out) else len) ?T =
     take out_len (hkdf_blocks t prk info (Suc i))"
    unfolding hkdf_blocks_Suc
    by (rule hkdf_chunk [OF lT pos(1) Suc.prems(4) _ lt len(3)]) (simp add: length_hkdf_blocks len(1))
  have "hkdf_loop (Suc left) malloc t info out_len i hmac previous out =
     hkdf_loop left malloc t info out_len (i + 1) h5 ?T (take out_len (hkdf_blocks t prk info (Suc i)))"
    unfolding hkdf_loop.simps Let_def len(1) h(1) out [symmetric] using h3(1) h4(1) h5(1) by simp
  also have "\<dots> = Some (Some (take out_len (hkdf_blocks t prk info (left + (i + 1)))))"
    by (rule Suc.IH) (use Suc.prems(1) h5(2,3) in simp_all)
  finally show ?case by simp
qed simp

lemma hmac_ok_init [simp]: "hmac_ok HMAC_CTX_init"
  by (simp add: hmac_ok_def HMAC_CTX_init_def)

lemma HKDF_expand_eq:
  assumes "\<forall>k. malloc_ok (malloc k)" "length prk < SIZE_LIMIT" "length info < SIZE_LIMIT" "out_len < SIZE_LIMIT"
  shows "\<exists>r. HKDF_expand malloc out_len t prk info = Some r \<and>
     (r = None \<or> r = Some (take out_len (hkdf_blocks t prk info ((out_len + EVP_MD_size t - 1) div EVP_MD_size t)))) \<and>
     (out_len > 255 * EVP_MD_size t \<longrightarrow> r = None) \<and>
     (out_len \<le> 255 * EVP_MD_size t \<and> allocs_succeed malloc t \<longrightarrow> r \<noteq> None)"
proof -
  let ?len = "EVP_MD_size t"
  have pos: "0 < ?len" "?len \<le> 64" using md_size_bounds by auto
  show ?thesis
  proof (cases "out_len + ?len < SIZE_LIMIT")
    case False
    then have "size_add out_len ?len = out_len + ?len - SIZE_LIMIT"
      using assms(4) pos by (simp add: size_add_def SIZE_LIMIT_def mod_if)
    then have "size_add out_len ?len < out_len" using False assms(4) pos by (simp add: SIZE_LIMIT_def)
    moreover have "out_len > 255 * ?len" using False pos by (simp add: SIZE_LIMIT_def)
    ultimately show ?thesis by (simp add: HKDF_expand_def Let_def)
  next
    case True
    let ?n = "(out_len + ?len - 1) div ?len"
    have n: "size_sub (size_add out_len ?len) 1 div ?len = ?n"
      using True pos by (simp add: c_arith)
    have big: "?n > 255 \<longleftrightarrow> out_len > 255 * ?len"
    proof -
      have "?n > 255 \<longleftrightarrow> 256 * ?len \<le> out_len + ?len - 1" using pos by (simp add: less_eq_div_iff_mult_less_eq Suc_le_eq [symmetric])
      then show ?thesis using pos by auto
    qed
    have no: "\<not> size_add out_len ?len < out_len" using True by (simp add: c_arith)
    obtain ok h where i: "HMAC_Init_ex malloc HMAC_CTX_init (Some prk) (Some t) = Some (ok, h)" "ok \<longrightarrow> hmac_absorbed t prk h []"
      "ok \<longleftrightarrow> hmac_key_available malloc HMAC_CTX_init t prk \<and>
        (EVP_MD_block_size t < length prk \<or> md_available (malloc 3) (hm_md_ctx HMAC_CTX_init) t)"
      using HMAC_Init_ex_key [OF hmac_ok_init assms(1,2)] by blast
    have al: "allocs_succeed malloc t \<Longrightarrow> ok"
      using i(3) by (simp add: allocs_succeed_def hmac_key_available_def md_available_def)
    have loop: "hkdf_loop ?n malloc t info out_len 0 h [] [] = Some (Some (take out_len (hkdf_blocks t prk info ?n)))" if ok
      using hkdf_loop_rep [OF refl assms(3) True, of ?n 0 prk h "[]" "[]" malloc] i(2) that by (simp add: hkdf_blocks_def)
    show ?thesis
      using i(1) loop al big no by (cases ok) (auto simp: HKDF_expand_def n n [simplified] Let_def)
  qed
qed

lemma HKDF_null_salt: "HKDF malloc out_len t secret None info = HKDF malloc out_len t secret (Some []) info"
  by (simp add: HKDF_def HKDF_extract_def HMAC_null_key)

text \<open>C16: \<open>HKDF\<close> is the function of RFC 5869 for every digest: extraction, then the blocks of the expansion, chained
  through one HMAC context, cut to the length asked for. It refuses exactly the lengths beyond 255 blocks, also those
  whose rounding would wrap around, can fail otherwise only for want of memory while it sets up its keys, and never
  stores through the null length pointer that it passes to \<open>HMAC_Final\<close>.\<close>

theorem HKDF_correct:
  assumes "\<forall>k. malloc_ok (malloc k)" "length secret < SIZE_LIMIT" "length salt < SIZE_LIMIT" "length info < SIZE_LIMIT"
    "out_len < SIZE_LIMIT"
  shows "\<exists>r. HKDF malloc out_len t secret (Some salt) info = Some r \<and>
     (r = None \<or> r = Some (rfc5869 t salt secret info out_len)) \<and>
     (out_len > 255 * EVP_MD_size t \<longrightarrow> r = None) \<and>
     (out_len \<le> 255 * EVP_MD_size t \<and> allocs_succeed malloc t \<longrightarrow> r \<noteq> None)"
proof -
  let ?m = "\<lambda>k. malloc (5 + k)" and ?prk = "rfc2104 t salt secret"
  have prk: "length ?prk < SIZE_LIMIT" using md_size_bounds(2) [of t] by (simp add: SIZE_LIMIT_def)
  obtain r where e: "HKDF_expand ?m out_len t ?prk info = Some r"
    "r = None \<or> r = Some (take out_len (hkdf_blocks t ?prk info ((out_len + EVP_MD_size t - 1) div EVP_MD_size t)))"
    "out_len > 255 * EVP_MD_size t \<longrightarrow> r = None"
    "out_len \<le> 255 * EVP_MD_size t \<and> allocs_succeed ?m t \<longrightarrow> r \<noteq> None"
    using HKDF_expand_eq [of ?m ?prk info out_len t] assms(1,4,5) prk by blast
  have "allocs_succeed malloc t \<Longrightarrow> allocs_succeed ?m t" by (simp add: allocs_succeed_def)
  then show ?thesis
    using HMAC_eq [OF assms(1,3,2), of False t] e
    by (auto simp: HKDF_def HKDF_extract_def rfc5869_def allocs_succeed_def split: if_splits)
qed

theorem HKDF_correct_witness:
  "\<exists>r. HKDF (\<lambda>k n. Some (replicate n 0)) 42 EVP_sha256 [1] (Some [2]) [3] = Some r \<and>
     r = Some (rfc5869 EVP_sha256 [2] [1] [3] 42)"
  using HKDF_correct [of "\<lambda>k n. Some (replicate n 0)" "[1]" "[2]" "[3]" 42 EVP_sha256]
  by (auto simp: malloc_ok_def SIZE_LIMIT_def allocs_succeed_def md_alloc_fails_def OPENSSL_malloc_def EVP_MD_size_def method_defs)

subsection \<open>The TLS pseudorandom function\<close>

text \<open>The body of the loop of \<open>tls1_P_hash\<close>, with \<open>out\<close> the bytes from the output pointer on and \<open>acc\<close> those before it;
  the loop has no bound of its own. The result is the return value and the buffer.\<close>

partial_function (option) p_hash_loop ::
  "(nat \<Rightarrow> allocator) \<Rightarrow> md \<Rightarrow> HMAC_CTX \<Rightarrow> u8 list \<Rightarrow> u8 list \<Rightarrow> u8 list \<Rightarrow> HMAC_CTX \<Rightarrow> HMAC_CTX \<Rightarrow> u8 list \<Rightarrow>
     u8 list \<Rightarrow> u8 list \<Rightarrow> (bool \<times> u8 list) option" where
  "p_hash_loop malloc md ctx_init label seed1 seed2 ctx ctx_tmp A1 acc out = do {
     let chunk = EVP_MD_size md;
     (ok, ctx) \<leftarrow> HMAC_CTX_copy_ex malloc ctx ctx_init;
     if \<not> ok then Some (False, acc @ out)
     else do {
       ctx \<leftarrow> HMAC_Update ctx A1;
       (ok, ctx_tmp) \<leftarrow> (if length out > chunk then HMAC_CTX_copy_ex (\<lambda>k. malloc (3 + k)) ctx_tmp ctx else Some (True, ctx_tmp));
       if \<not> ok then Some (False, acc @ out)
       else do {
         ctx \<leftarrow> HMAC_Update ctx label;
         ctx \<leftarrow> HMAC_Update ctx seed1;
         ctx \<leftarrow> HMAC_Update ctx seed2;
         (r, ctx) \<leftarrow> HMAC_Final (malloc 6) False ctx;
         case r of
           None \<Rightarrow> Some (False, acc @ out)
         | Some (hmac, len) \<Rightarrow> do {
             _ \<leftarrow> c_assert (len = chunk);
             let len = (if len > length out then length out else len);
             let acc = acc @ map2 (XOR) (take len out) (take len hmac);
             let out = drop len out;
             if length out = 0 then Some (True, acc)
             else do {
               (r, ctx_tmp) \<leftarrow> HMAC_Final (malloc 7) False ctx_tmp;
               case r of
                 None \<Rightarrow> Some (False, acc @ out)
               | Some (A1, A1_len) \<Rightarrow>
                   p_hash_loop (\<lambda>k. malloc (8 + k)) md ctx_init label seed1 seed2 ctx ctx_tmp (take A1_len A1) acc out } } } } }"

definition tls1_P_hash ::
  "(nat \<Rightarrow> allocator) \<Rightarrow> u8 list \<Rightarrow> md \<Rightarrow> u8 list \<Rightarrow> u8 list \<Rightarrow> u8 list \<Rightarrow> u8 list \<Rightarrow> (bool \<times> u8 list) option" where
  "tls1_P_hash malloc out md secret label seed1 seed2 = do {
     (ok, ctx_init) \<leftarrow> HMAC_Init_ex malloc HMAC_CTX_init (Some secret) (Some md);
     if \<not> ok then Some (False, out)
     else do {
       (ok, ctx) \<leftarrow> HMAC_CTX_copy_ex (\<lambda>k. malloc (4 + k)) HMAC_CTX_init ctx_init;
       if \<not> ok then Some (False, out)
       else do {
         ctx \<leftarrow> HMAC_Update ctx label;
         ctx \<leftarrow> HMAC_Update ctx seed1;
         ctx \<leftarrow> HMAC_Update ctx seed2;
         (r, ctx) \<leftarrow> HMAC_Final (malloc 7) False ctx;
         case r of
           None \<Rightarrow> Some (False, out)
         | Some (A1, A1_len) \<Rightarrow>
             p_hash_loop (\<lambda>k. malloc (8 + k)) md ctx_init label seed1 seed2 ctx HMAC_CTX_init (take A1_len A1) [] out } } }"

text \<open>The second hash of the older versions allocates behind the first one; \<open>malloc'\<close> counts its sites.\<close>

definition CRYPTO_tls1_prf ::
  "(nat \<Rightarrow> allocator) \<Rightarrow> (nat \<Rightarrow> allocator) \<Rightarrow> md \<Rightarrow> nat \<Rightarrow> u8 list \<Rightarrow> u8 list \<Rightarrow> u8 list \<Rightarrow> u8 list \<Rightarrow> (bool \<times> u8 list) option" where
  "CRYPTO_tls1_prf malloc malloc' digest out_len secret label seed1 seed2 =
     (if out_len = 0 then Some (True, [])
      else do {
        let out = replicate out_len 0;
        (ok, out, secret, digest) \<leftarrow>
          (if digest = EVP_md5_sha1 then do {
             let secret_half = length secret - length secret div 2;
             (ok, out) \<leftarrow> tls1_P_hash malloc out EVP_md5 (take secret_half secret) label seed1 seed2;
             Some (ok, out, take secret_half (drop (length secret - secret_half) secret), EVP_sha1) }
           else Some (True, out, secret, digest));
        if \<not> ok then Some (False, out)
        else tls1_P_hash malloc' out digest secret label seed1 seed2 })"

subsection \<open>RFC 5246, section 5\<close>

fun prf_A :: "md \<Rightarrow> u8 list \<Rightarrow> u8 list \<Rightarrow> nat \<Rightarrow> u8 list" where
  "prf_A t secret seed 0 = seed"
| "prf_A t secret seed (Suc i) = rfc2104 t secret (prf_A t secret seed i)"

definition prf_block :: "md \<Rightarrow> u8 list \<Rightarrow> u8 list \<Rightarrow> nat \<Rightarrow> u8 list" where
  "prf_block t secret seed i = rfc2104 t secret (prf_A t secret seed (Suc i) @ seed)"

text \<open>The first \<open>n\<close> bytes of the blocks, which are enough.\<close>

definition rfc5246_P_hash :: "md \<Rightarrow> u8 list \<Rightarrow> u8 list \<Rightarrow> nat \<Rightarrow> u8 list" where
  "rfc5246_P_hash t secret seed n = take n (concat (map (prf_block t secret seed) [0..<Suc (n div EVP_MD_size t)]))"

text \<open>RFC 2246: the two halves of the secret, which share a byte when its length is odd, under MD5 and SHA-1.\<close>

definition rfc5246_prf :: "md \<Rightarrow> u8 list \<Rightarrow> u8 list \<Rightarrow> u8 list \<Rightarrow> nat \<Rightarrow> u8 list" where
  "rfc5246_prf t secret label seed n =
     (if t = EVP_md5_sha1 then
        let h = (length secret + 1) div 2 in
        map2 (XOR) (rfc5246_P_hash EVP_md5 (take h secret) (label @ seed) n)
          (rfc5246_P_hash EVP_sha1 (drop (length secret - h) secret) (label @ seed) n)
      else rfc5246_P_hash t secret (label @ seed) n)"

lemma HMAC_CTX_copy_ex_rep:
  assumes "hmac_absorbed t key src msg" "hmac_ok dest"
  shows "\<exists>ok dest'. HMAC_CTX_copy_ex malloc dest src = Some (ok, dest') \<and> (ok \<longrightarrow> hmac_absorbed t key dest' msg) \<and>
     (allocs_succeed malloc t \<longrightarrow> ok)"
proof -
  have s: "ctx_absorbed t (hm_i_ctx src) (ipad t key)" "ctx_absorbed t (hm_o_ctx src) (opad t key)"
    "ctx_absorbed t (hm_md_ctx src) (ipad t key @ msg)" "hm_md src = Some t"
    and d: "ctx_ok (hm_i_ctx dest)" "ctx_ok (hm_o_ctx dest)" "ctx_ok (hm_md_ctx dest)"
    using assms by (auto simp: hmac_absorbed_def hmac_keyed_def hmac_ok_def)
  let ?a1 = "md_available (malloc 0) (hm_i_ctx dest) t" and ?a2 = "md_available (malloc 1) (hm_o_ctx dest) t"
    and ?a3 = "md_available (malloc 2) (hm_md_ctx dest) t"
  obtain c1 where c1: "EVP_MD_CTX_copy_ex (malloc 0) (hm_i_ctx dest) (Some (hm_i_ctx src)) = Some (?a1, c1)"
    "?a1 \<longrightarrow> ctx_absorbed t c1 (ipad t key)"
    using EVP_MD_CTX_copy_ex_rep [OF s(1) d(1), of "malloc 0"] by metis
  obtain c2 where c2: "EVP_MD_CTX_copy_ex (malloc 1) (hm_o_ctx dest) (Some (hm_o_ctx src)) = Some (?a2, c2)"
    "?a2 \<longrightarrow> ctx_absorbed t c2 (opad t key)"
    using EVP_MD_CTX_copy_ex_rep [OF s(2) d(2), of "malloc 1"] by metis
  obtain c3 where c3: "EVP_MD_CTX_copy_ex (malloc 2) (hm_md_ctx dest) (Some (hm_md_ctx src)) = Some (?a3, c3)"
    "?a3 \<longrightarrow> ctx_absorbed t c3 (ipad t key @ msg)"
    using EVP_MD_CTX_copy_ex_rep [OF s(3) d(3), of "malloc 2"] by metis
  show ?thesis
  proof (cases "?a1 \<and> ?a2 \<and> ?a3")
    case True
    let ?d = "dest\<lparr>hm_i_ctx := c1, hm_o_ctx := c2, hm_md_ctx := c3, hm_md := Some t\<rparr>"
    have "HMAC_CTX_copy_ex malloc dest src = Some (True, ?d)"
      using True c1(1) c2(1) c3(1) s(4) by (simp add: HMAC_CTX_copy_ex_def)
    moreover have "hmac_absorbed t key ?d msg"
      using True c1(2) c2(2) c3(2) ctx_absorbed_ok by (auto simp: hmac_absorbed_def hmac_keyed_def)
    ultimately show ?thesis by blast
  next
    case False
    then have "\<not> allocs_succeed malloc t" by (auto simp: allocs_succeed_def md_available_def)
    moreover have "\<exists>dest'. HMAC_CTX_copy_ex malloc dest src = Some (False, dest')"
      using False c1(1) c2(1) c3(1) by (cases ?a1; cases ?a2) (simp_all add: HMAC_CTX_copy_ex_def)
    ultimately show ?thesis by auto
  qed
qed

text \<open>The bytes from block \<open>i\<close> on.\<close>

definition prf_from :: "md \<Rightarrow> u8 list \<Rightarrow> u8 list \<Rightarrow> nat \<Rightarrow> nat \<Rightarrow> u8 list" where
  "prf_from t secret seed i n = take n (concat (map (prf_block t secret seed) [i..<i + Suc (n div EVP_MD_size t)]))"

lemma length_prf_block [simp]: "length (prf_block t secret seed i) = EVP_MD_size t"
  by (simp add: prf_block_def)

lemma prf_from_last: "n \<le> EVP_MD_size t \<Longrightarrow> prf_from t secret seed i n = take n (prf_block t secret seed i)"
  using upt_conv_Cons [of i "i + Suc (n div EVP_MD_size t)"] by (simp add: prf_from_def del: upt_Suc)

lemma prf_from_more:
  assumes "EVP_MD_size t < n"
  shows "prf_from t secret seed i n = prf_block t secret seed i @ prf_from t secret seed (Suc i) (n - EVP_MD_size t)"
proof -
  have "n div EVP_MD_size t = Suc ((n - EVP_MD_size t) div EVP_MD_size t)"
    using assms md_size_bounds(1) [of t] by (simp add: le_div_geq)
  then show ?thesis
    using assms upt_conv_Cons [of i "i + Suc (n div EVP_MD_size t)"] by (simp add: prf_from_def del: upt_Suc)
qed

lemma length_prf_from: "length (prf_from t secret seed i n) = n"
proof (induction n arbitrary: i rule: less_induct)
  case (less n)
  then show ?case
    using md_size_bounds(1) [of t] by (cases "n \<le> EVP_MD_size t") (simp_all add: prf_from_last prf_from_more)
qed

lemma map2_split:
  "length a = length x \<Longrightarrow> map2 f (a @ b) (x @ y) = map2 f a x @ map2 f b y"
  by simp

lemma hmac_absorbed_ok: "hmac_absorbed t key ctx msg \<Longrightarrow> hmac_ok ctx"
  using ctx_absorbed_ok by (auto simp: hmac_absorbed_def hmac_keyed_def hmac_ok_def)

lemma hmac_keyed_ok: "hmac_keyed t key ctx \<Longrightarrow> hmac_ok ctx"
  using ctx_absorbed_ok by (auto simp: hmac_keyed_def hmac_ok_def)

text \<open>The seed is given to the context in three parts.\<close>

lemma seed_updates:
  assumes "hmac_absorbed t key ctx msg" "length label < SIZE_LIMIT" "length seed1 < SIZE_LIMIT" "length seed2 < SIZE_LIMIT"
  shows "\<exists>c1 c2 c3 c4. HMAC_Update ctx label = Some c1 \<and> HMAC_Update c1 seed1 = Some c2 \<and> HMAC_Update c2 seed2 = Some c3 \<and>
     HMAC_Final m False c3 = Some (Some (rfc2104 t key (msg @ label @ seed1 @ seed2), EVP_MD_size t), c4) \<and> hmac_ok c4"
proof -
  obtain c1 where c1: "HMAC_Update ctx label = Some c1" "hmac_absorbed t key c1 (msg @ label)"
    using HMAC_Update_rep [OF assms(1,2)] by blast
  obtain c2 where c2: "HMAC_Update c1 seed1 = Some c2" "hmac_absorbed t key c2 ((msg @ label) @ seed1)"
    using HMAC_Update_rep [OF c1(2) assms(3)] by blast
  obtain c3 where c3: "HMAC_Update c2 seed2 = Some c3" "hmac_absorbed t key c3 (((msg @ label) @ seed1) @ seed2)"
    using HMAC_Update_rep [OF c2(2) assms(4)] by blast
  obtain c4 where "HMAC_Final m False c3 = Some (Some (rfc2104 t key (((msg @ label) @ seed1) @ seed2), EVP_MD_size t), c4)"
    "hmac_keyed t key c4"
    using HMAC_Final_rep [OF c3(2)] by blast
  then show ?thesis using c1(1) c2(1) c3(1) hmac_keyed_ok by (metis append_assoc)
qed

lemma p_hash_loop_rep:
  assumes "hmac_absorbed t secret ctx_init []" "length label < SIZE_LIMIT" "length seed1 < SIZE_LIMIT" "length seed2 < SIZE_LIMIT"
  defines "seed \<equiv> label @ seed1 @ seed2"
  shows "hmac_ok ctx \<Longrightarrow> hmac_ok ctx_tmp \<Longrightarrow> A1 = prf_A t secret seed (Suc i) \<Longrightarrow>
     \<exists>ok res. p_hash_loop malloc t ctx_init label seed1 seed2 ctx ctx_tmp A1 acc out = Some (ok, res) \<and>
       (ok \<longrightarrow> res = acc @ map2 (XOR) out (prf_from t secret seed i (length out))) \<and> (allocs_succeed malloc t \<longrightarrow> ok)"
proof (induction "length out" arbitrary: malloc ctx ctx_tmp A1 acc out i rule: less_induct)
  case less
  let ?c = "EVP_MD_size t" and ?loop = "p_hash_loop malloc t ctx_init label seed1 seed2 ctx ctx_tmp A1 acc out"
  have pos: "0 < ?c" "?c \<le> 64" using md_size_bounds by auto
  have la: "length A1 = ?c" "length A1 < SIZE_LIMIT" using less.prems(3) pos by (simp_all add: SIZE_LIMIT_def)
  obtain ok1 c1 where c1: "HMAC_CTX_copy_ex malloc ctx ctx_init = Some (ok1, c1)" "ok1 \<longrightarrow> hmac_absorbed t secret c1 []"
    "allocs_succeed malloc t \<longrightarrow> ok1"
    using HMAC_CTX_copy_ex_rep [OF assms(1) less.prems(1)] by blast
  show ?case
  proof (cases ok1)
    case False
    then show ?thesis using c1 by (subst p_hash_loop.simps) (auto simp: Let_def)
  next
    case ok1: True
    obtain c2 where c2: "HMAC_Update c1 A1 = Some c2" "hmac_absorbed t secret c2 A1"
      using HMAC_Update_rep [of t secret c1 "[]" A1] c1(2) ok1 la(2) by auto
    let ?m = "\<lambda>k. malloc (3 + k)"
    let ?copy = "if length out > ?c then HMAC_CTX_copy_ex ?m ctx_tmp c2 else Some (True, ctx_tmp)"
    obtain ok2 tmp where tmp: "?copy = Some (ok2, tmp)"
      "ok2 \<and> length out > ?c \<longrightarrow> hmac_absorbed t secret tmp A1" "allocs_succeed malloc t \<longrightarrow> ok2"
    proof (cases "length out > ?c")
      case True
      obtain o2 t2 where "HMAC_CTX_copy_ex ?m ctx_tmp c2 = Some (o2, t2)" "o2 \<longrightarrow> hmac_absorbed t secret t2 A1"
        "allocs_succeed ?m t \<longrightarrow> o2"
        using HMAC_CTX_copy_ex_rep [OF c2(2) less.prems(2)] by blast
      then show ?thesis using True that by (simp add: allocs_succeed_def)
    qed (use that in simp)
    show ?thesis
    proof (cases ok2)
      case False
      then show ?thesis using c1(1) ok1 c2(1) tmp by (subst p_hash_loop.simps) (auto simp: Let_def)
    next
      case ok2: True
      let ?block = "prf_block t secret seed i"
      have bl: "rfc2104 t secret (A1 @ label @ seed1 @ seed2) = ?block" using less.prems(3) by (simp add: prf_block_def seed_def)
      obtain d1 d2 d3 d4 where d: "HMAC_Update c2 label = Some d1" "HMAC_Update d1 seed1 = Some d2" "HMAC_Update d2 seed2 = Some d3"
        "HMAC_Final (malloc 6) False d3 = Some (Some (?block, ?c), d4)" "hmac_ok d4"
        using seed_updates [OF c2(2) assms(2-4), of "malloc 6"] unfolding bl by blast
      show ?thesis
      proof (cases "length out \<le> ?c")
        case True
        have "?loop = Some (True, acc @ map2 (XOR) out (take (length out) ?block))"
          using c1(1) ok1 c2(1) tmp(1) ok2 d True by (subst p_hash_loop.simps) (auto simp: Let_def)
        then show ?thesis using True by (auto simp: prf_from_last)
      next
        case False
        let ?A = "prf_A t secret seed (Suc (Suc i))"
        have t: "hmac_absorbed t secret tmp A1" using tmp(2) ok2 False by simp
        have A: "rfc2104 t secret A1 = ?A" using less.prems(3) by simp
        obtain t5 where t5: "HMAC_Final (malloc 7) False tmp = Some (Some (?A, ?c), t5)" "hmac_keyed t secret t5"
          using HMAC_Final_rep [OF t, of "malloc 7" False] unfolding A by blast
        let ?acc = "acc @ map2 (XOR) (take ?c out) ?block" and ?rest = "drop ?c out" and ?m8 = "\<lambda>k. malloc (8 + k)"
        have step: "?loop = p_hash_loop ?m8 t ctx_init label seed1 seed2 d4 t5 ?A ?acc ?rest"
          using c1(1) ok1 c2(1) tmp(1) ok2 d False t5(1)
          by (subst p_hash_loop.simps) (simp add: Let_def not_le)
        have "length ?rest < length out" using False pos by simp
        from less.hyps [OF this d(5) hmac_keyed_ok [OF t5(2)] refl, of ?m8 "Suc i" ?acc]
        obtain ok res where r: "p_hash_loop ?m8 t ctx_init label seed1 seed2 d4 t5 ?A ?acc ?rest = Some (ok, res)"
          "ok \<longrightarrow> res = ?acc @ map2 (XOR) ?rest (prf_from t secret seed (Suc i) (length ?rest))"
          "allocs_succeed ?m8 t \<longrightarrow> ok" by blast
        have "map2 (XOR) out (prf_from t secret seed i (length out)) =
           map2 (XOR) (take ?c out) ?block @ map2 (XOR) ?rest (prf_from t secret seed (Suc i) (length ?rest))"
          using False map2_split [of "take ?c out" ?block "(XOR)" ?rest] by (simp add: prf_from_more)
        then show ?thesis using r step by (simp add: allocs_succeed_def)
      qed
    qed
  qed
qed

lemma tls1_P_hash_eq:
  assumes "\<forall>k. malloc_ok (malloc k)" "length secret < SIZE_LIMIT" "length label < SIZE_LIMIT" "length seed1 < SIZE_LIMIT"
    "length seed2 < SIZE_LIMIT"
  shows "\<exists>ok res. tls1_P_hash malloc out t secret label seed1 seed2 = Some (ok, res) \<and>
     (ok \<longrightarrow> res = map2 (XOR) out (rfc5246_P_hash t secret (label @ seed1 @ seed2) (length out))) \<and>
     (allocs_succeed malloc t \<longrightarrow> ok)"
proof -
  let ?seed = "label @ seed1 @ seed2"
  obtain ok0 c0 where c0: "HMAC_Init_ex malloc HMAC_CTX_init (Some secret) (Some t) = Some (ok0, c0)"
    "ok0 \<longrightarrow> hmac_absorbed t secret c0 []"
    "ok0 \<longleftrightarrow> hmac_key_available malloc HMAC_CTX_init t secret \<and>
        (EVP_MD_block_size t < length secret \<or> md_available (malloc 3) (hm_md_ctx HMAC_CTX_init) t)"
    using HMAC_Init_ex_key [OF hmac_ok_init assms(1,2)] by blast
  have al: "allocs_succeed malloc t \<Longrightarrow> ok0"
    using c0(3) by (simp add: allocs_succeed_def hmac_key_available_def md_available_def)
  show ?thesis
  proof (cases ok0)
    case False
    then show ?thesis using c0(1) al by (auto simp: tls1_P_hash_def)
  next
    case ok0: True
    let ?m4 = "\<lambda>k. malloc (4 + k)"
    obtain ok1 c1 where c1: "HMAC_CTX_copy_ex ?m4 HMAC_CTX_init c0 = Some (ok1, c1)" "ok1 \<longrightarrow> hmac_absorbed t secret c1 []"
      "allocs_succeed ?m4 t \<longrightarrow> ok1"
      using HMAC_CTX_copy_ex_rep [of t secret c0 "[]" HMAC_CTX_init ?m4] c0(2) ok0 by auto
    show ?thesis
    proof (cases ok1)
      case False
      then show ?thesis using c0(1) ok0 c1 by (auto simp: tls1_P_hash_def allocs_succeed_def)
    next
      case ok1: True
      obtain d1 d2 d3 d4 where d: "HMAC_Update c1 label = Some d1" "HMAC_Update d1 seed1 = Some d2" "HMAC_Update d2 seed2 = Some d3"
        "HMAC_Final (malloc 7) False d3 = Some (Some (rfc2104 t secret ([] @ ?seed), EVP_MD_size t), d4)" "hmac_ok d4"
        using seed_updates [OF _ assms(3-5), of t secret c1 "[]" "malloc 7"] c1(2) ok1 by blast
      have A: "rfc2104 t secret ([] @ ?seed) = prf_A t secret ?seed (Suc 0)" by simp
      obtain ok res where r: "p_hash_loop (\<lambda>k. malloc (8 + k)) t c0 label seed1 seed2 d4 HMAC_CTX_init (prf_A t secret ?seed (Suc 0)) [] out = Some (ok, res)"
        "ok \<longrightarrow> res = [] @ map2 (XOR) out (prf_from t secret ?seed 0 (length out))" "allocs_succeed (\<lambda>k. malloc (8 + k)) t \<longrightarrow> ok"
        using p_hash_loop_rep [OF _ assms(3-5) d(5) hmac_ok_init refl, of t secret c0 "\<lambda>k. malloc (8 + k)" 0 "[]" out] c0(2) ok0 by blast
      have "tls1_P_hash malloc out t secret label seed1 seed2 = Some (ok, res)"
        using c0(1) ok0 c1(1) ok1 d(1-4) r(1) unfolding A by (simp add: tls1_P_hash_def)
      then show ?thesis using r(2,3) by (simp add: prf_from_def rfc5246_P_hash_def allocs_succeed_def)
    qed
  qed
qed

lemma map2_xor_zeros: "length xs = n \<Longrightarrow> map2 (XOR) (replicate n 0) xs = (xs :: u8 list)"
  by (induction n arbitrary: xs) (auto simp: length_Suc_conv)

lemma length_P_hash [simp]: "length (rfc5246_P_hash t secret seed n) = n"
  using length_prf_from [of t secret seed 0 n] by (simp add: prf_from_def rfc5246_P_hash_def)

text \<open>C15: the pseudorandom function of TLS. For every digest \<open>CRYPTO_tls1_prf\<close> computes the PRF of RFC 5246, and for the
  pair of MD5 and SHA-1 that of RFC 2246, where the two halves of a secret of odd length share a byte. Its loop, which
  has no bound of its own, ends for every length; it fails only for want of memory, and no use of its three contexts
  is undefined.\<close>

theorem tls1_prf_correct:
  assumes "\<forall>k. malloc_ok (malloc k) \<and> malloc_ok (malloc' k)" "length secret < SIZE_LIMIT" "length label < SIZE_LIMIT"
    "length seed1 < SIZE_LIMIT" "length seed2 < SIZE_LIMIT"
  shows "\<exists>ok out. CRYPTO_tls1_prf malloc malloc' t out_len secret label seed1 seed2 = Some (ok, out) \<and>
     (ok \<longrightarrow> out = rfc5246_prf t secret label (seed1 @ seed2) out_len) \<and>
     ((\<forall>t. allocs_succeed malloc t \<and> allocs_succeed malloc' t) \<longrightarrow> ok)"
proof -
  let ?seed = "label @ seed1 @ seed2"
  have m: "\<forall>k. malloc_ok (malloc k)" "\<forall>k. malloc_ok (malloc' k)" using assms(1) by auto
  consider "out_len = 0" | "out_len \<noteq> 0" "t \<noteq> EVP_md5_sha1" | "out_len \<noteq> 0" "t = EVP_md5_sha1" by blast
  then show ?thesis
  proof cases
    case 1
    then have "rfc5246_prf t secret label (seed1 @ seed2) out_len = []"
      using length_P_hash by (simp add: rfc5246_prf_def Let_def rfc5246_P_hash_def)
    then show ?thesis using 1 by (auto simp: CRYPTO_tls1_prf_def)
  next
    case 2
    obtain ok res where r: "tls1_P_hash malloc' (replicate out_len 0) t secret label seed1 seed2 = Some (ok, res)"
      "ok \<longrightarrow> res = map2 (XOR) (replicate out_len 0) (rfc5246_P_hash t secret ?seed (length (replicate out_len (0 :: u8))))"
      "allocs_succeed malloc' t \<longrightarrow> ok"
      using tls1_P_hash_eq [OF m(2) assms(2-5)] by blast
    then show ?thesis using 2 by (auto simp: CRYPTO_tls1_prf_def rfc5246_prf_def map2_xor_zeros)
  next
    case 3
    let ?h = "length secret - length secret div 2"
    let ?s1 = "take ?h secret" and ?s2 = "drop (length secret - ?h) secret"
    have l: "length ?s1 < SIZE_LIMIT" "length ?s2 < SIZE_LIMIT" using assms(2) by auto
    obtain ok1 r1 where r1: "tls1_P_hash malloc (replicate out_len 0) EVP_md5 ?s1 label seed1 seed2 = Some (ok1, r1)"
      "ok1 \<longrightarrow> r1 = map2 (XOR) (replicate out_len 0) (rfc5246_P_hash EVP_md5 ?s1 ?seed (length (replicate out_len (0 :: u8))))"
      "allocs_succeed malloc EVP_md5 \<longrightarrow> ok1"
      using tls1_P_hash_eq [OF m(1) l(1) assms(3-5)] by blast
    obtain ok2 r2 where r2: "tls1_P_hash malloc' r1 EVP_sha1 ?s2 label seed1 seed2 = Some (ok2, r2)"
      "ok2 \<longrightarrow> r2 = map2 (XOR) r1 (rfc5246_P_hash EVP_sha1 ?s2 ?seed (length r1))"
      "allocs_succeed malloc' EVP_sha1 \<longrightarrow> ok2"
      using tls1_P_hash_eq [OF m(2) l(2) assms(3-5)] by blast
    have h: "(length secret + 1) div 2 = ?h" by presburger
    have t2: "take ?h ?s2 = ?s2" by simp
    have e: "CRYPTO_tls1_prf malloc malloc' t out_len secret label seed1 seed2 = (if \<not> ok1 then Some (False, r1) else Some (ok2, r2))"
      using 3 r1(1) r2(1) unfolding CRYPTO_tls1_prf_def t2 Let_def by simp
    show ?thesis
    proof (cases ok1)
      case True
      then have "r1 = rfc5246_P_hash EVP_md5 ?s1 ?seed out_len" using r1(2) by (simp add: map2_xor_zeros)
      then show ?thesis using True 3 e r2(2,3) unfolding rfc5246_prf_def h Let_def by (auto simp: append_assoc)
    next
      case False
      then show ?thesis using e r1(3) by auto
    qed
  qed
qed

theorem tls1_prf_correct_witness:
  "\<exists>out. CRYPTO_tls1_prf (\<lambda>k n. Some (replicate n 0)) (\<lambda>k n. Some (replicate n 0)) EVP_md5_sha1 48 [1, 2, 3] [4] [5] [6] = Some (True, out) \<and>
     out = rfc5246_prf EVP_md5_sha1 [1, 2, 3] [4] [5, 6] 48"
  using tls1_prf_correct [of "\<lambda>k n. Some (replicate n 0)" "\<lambda>k n. Some (replicate n 0)" "[1, 2, 3]" "[4]" "[5]" "[6]" EVP_md5_sha1 48]
  by (auto simp: malloc_ok_def SIZE_LIMIT_def allocs_succeed_def md_alloc_fails_def OPENSSL_malloc_def)

end
