(* ===== verification/Tls_Cbc.thy ===== *)
theory Tls_Cbc
  imports Hmac Const_Time
begin

text \<open>
  The CBC records of TLS (\<open>crypto/cipher_extra/tls_cbc.c\<close>), first part: removing the padding and extracting the MAC, with
  memory accesses and branches that do not depend on the length of the padding. They are shown to compute what the
  obvious branching code would: the padding check of TLS and the bytes of the MAC.
\<close>

subsection \<open>Removing the padding\<close>

text \<open>One turn of the loop: byte \<open>i\<close> from the end is compared with the padding length if it belongs to the padding.\<close>

definition padding_step :: "u8 list \<Rightarrow> u64 \<Rightarrow> u64 \<Rightarrow> nat \<Rightarrow> u64" where
  "padding_step inp padding_length good i =
     (let msk = constant_time_ge_8 padding_length (word_of_nat i);
          b = inp ! (length inp - 1 - i)
      in good AND NOT (ucast msk AND (padding_length XOR ucast b)))"

text \<open>\<open>*out_padding_ok\<close> and \<open>*out_len\<close>, or \<open>None\<close> for the result zero.\<close>

definition EVP_tls_cbc_remove_padding :: "u8 list \<Rightarrow> nat \<Rightarrow> nat \<Rightarrow> (u64 \<times> nat) option" where
  "EVP_tls_cbc_remove_padding inp block_sz mac_size =
     (let overhead = size_add 1 mac_size; in_len = length inp in
      if overhead > in_len then None
      else
        let padding_length = ucast (inp ! (in_len - 1)) :: u64;
            good = constant_time_ge_w (word_of_nat in_len) (word_of_nat overhead + padding_length);
            to_check = (if 256 > in_len then in_len else 256);
            good = foldl (padding_step inp padding_length) good [0..<to_check];
            good = constant_time_eq_w 0xff (good AND 0xff);
            padding_length = good AND (padding_length + 1)
        in Some (good, unat (word_of_nat in_len - padding_length)))"

subsection \<open>Copying the MAC\<close>

text \<open>The state of the scan: \<open>rotated_mac\<close>, \<open>rotate_offset\<close>, \<open>mac_started\<close> and \<open>j\<close>.\<close>

definition scan_step :: "u8 list \<Rightarrow> nat \<Rightarrow> nat \<Rightarrow> nat \<Rightarrow> u8 list \<times> u64 \<times> u8 \<times> nat \<Rightarrow> nat \<Rightarrow> u8 list \<times> u64 \<times> u8 \<times> nat" where
  "scan_step inp md_sz mac_start mac_end st i =
     (case st of (rotated_mac, rotate_offset, mac_started, j) \<Rightarrow>
       let j = (if j \<ge> md_sz then j - md_sz else j);
           is_mac_start = constant_time_eq_w (word_of_nat i) (word_of_nat mac_start);
           mac_started = ucast (ucast mac_started OR is_mac_start);
           mac_ended = constant_time_ge_8 (word_of_nat i) (word_of_nat mac_end);
           rotated_mac = rotated_mac[j := rotated_mac ! j OR (inp ! i AND mac_started AND NOT mac_ended)];
           rotate_offset = rotate_offset OR (word_of_nat j AND is_mac_start)
       in (rotated_mac, rotate_offset, mac_started, j + 1))"

text \<open>The rotation by the bits of \<open>rotate_offset\<close>, in the order of the loop.\<close>

function rotate_loop :: "nat \<Rightarrow> nat \<Rightarrow> u64 \<Rightarrow> u8 list \<Rightarrow> u8 list" where
  "rotate_loop md_sz offset rotate_offset rotated_mac =
     (if offset = 0 then rotated_mac
      else if offset < md_sz then
        let skip_rotate = ucast ((rotate_offset AND 1) - 1) :: u8;
            tmp = map (\<lambda>i. let j = offset + i; j = (if j \<ge> md_sz then j - md_sz else j)
                           in constant_time_select_8 skip_rotate (rotated_mac ! i) (rotated_mac ! j)) [0..<md_sz]
        in rotate_loop md_sz (offset * 2) (drop_bit 1 rotate_offset) tmp
      else rotated_mac)"
  by auto
termination
  by (relation "measure (\<lambda>(md_sz, offset, _, _). md_sz - offset)") auto

declare rotate_loop.simps [simp del]

definition EVP_tls_cbc_copy_mac :: "nat \<Rightarrow> u8 list \<Rightarrow> nat \<Rightarrow> nat \<Rightarrow> u8 list option" where
  "EVP_tls_cbc_copy_mac md_sz inp in_len orig_len = do {
     let mac_end = in_len;
     let mac_start = size_sub mac_end md_sz;
     _ \<leftarrow> c_assert (orig_len \<ge> in_len);
     _ \<leftarrow> c_assert (in_len \<ge> md_sz);
     _ \<leftarrow> c_assert (md_sz \<le> EVP_MAX_MD_SIZE);
     let scan_start = (if orig_len > md_sz + 255 + 1 then orig_len - (md_sz + 255 + 1) else 0);
     let (rotated_mac, rotate_offset, _, _) =
       foldl (scan_step inp md_sz mac_start mac_end) (replicate md_sz 0, 0, 0, 0) [scan_start..<orig_len];
     Some (rotate_loop md_sz 1 rotate_offset rotated_mac) }"

subsection \<open>Correctness of the padding check\<close>

lemma word_all_ones: "x AND NOT y = - 1 \<longleftrightarrow> x = - 1 \<and> y = 0" for x y :: "'a::len word"
proof
  assume a: "x AND NOT y = - 1"
  have x: "x = - 1"
  proof (rule bit_word_eqI)
    fix n assume "n < LENGTH('a)"
    moreover from a have "bit (x AND NOT y) n = bit (- 1 :: 'a word) n" by simp
    ultimately show "bit x n = bit (- 1 :: 'a word) n" by (simp add: bit_simps)
  qed
  moreover have "y = 0"
    using a x by (metis and.left_neutral bit.compl_one bit.double_compl)
  ultimately show "x = - 1 \<and> y = 0" by simp
qed simp

lemma ucast8_step:
  "(ucast (good AND NOT (ucast msk AND (pl XOR ucast b))) :: u8) = ucast good AND NOT (msk AND (ucast pl XOR b))"
  for good pl :: u64 and msk b :: u8
  by (rule bit_word_eqI) (auto simp: bit_simps)

lemma padding_fold:
  "(ucast (foldl (padding_step inp (ucast p)) good is) :: u8) = - 1 \<longleftrightarrow>
     (ucast good :: u8) = - 1 \<and> (\<forall>i \<in> set is. i < 256 \<longrightarrow> i \<le> unat p \<longrightarrow> inp ! (length inp - 1 - i) = p)"
  if "\<forall>i \<in> set is. i < 256"
  using that
proof (induction "is" arbitrary: good)
  case (Cons i "is")
  have u: "(ucast (ucast p :: u64) :: u8) = p" by (rule bit_word_eqI) (auto simp: bit_simps)
  have le: "word_of_nat i \<le> (ucast p :: u64) \<longleftrightarrow> i \<le> unat p"
    using Cons.prems by (simp add: word_le_nat_alt unat_ucast_up unat_word_of_nat)
  have s: "(ucast (padding_step inp (ucast p) good i) :: u8) = - 1 \<longleftrightarrow>
      (ucast good :: u8) = - 1 \<and> (i \<le> unat p \<longrightarrow> inp ! (length inp - 1 - i) = p)"
    unfolding padding_step_def Let_def ucast8_step word_all_ones u ct_8 le
    by (auto simp: xor_zero_iff)
  show ?case using Cons s by (simp add: Cons.IH)
qed simp

lemma low_byte_ones: "(0xFF :: u64) = good AND 0xFF \<longleftrightarrow> (ucast good :: u8) = - 1"
proof -
  have "(good AND 0xFF) = ucast (ucast good :: u8)"
    unfolding and_0xFF by (rule bit_word_eqI) (auto simp: bit_simps)
  moreover have "(0xFF :: u64) = ucast (- 1 :: u8)"
    by (simp add: unsigned_minus_1_eq_mask mask_eq_exp_minus_1)
  moreover have "ucast a = (ucast b :: u64) \<longleftrightarrow> a = b" for a b :: u8
    by (simp add: word_unat_eq_iff unat_ucast_up)
  ultimately show ?thesis by metis
qed

text \<open>The padding check as one would write it: the last byte gives a length, and so many bytes before it repeat it.\<close>

definition padding_ok :: "u8 list \<Rightarrow> nat \<Rightarrow> bool" where
  "padding_ok inp mac_size \<longleftrightarrow>
     (let p = last inp in
      1 + mac_size + unat p \<le> length inp \<and> drop (length inp - (unat p + 1)) inp = replicate (unat p + 1) p)"

lemma suffix_replicate:
  assumes "n < length xs"
  shows "drop (length xs - Suc n) xs = replicate (Suc n) p \<longleftrightarrow> (\<forall>i \<le> n. xs ! (length xs - 1 - i) = p)"
proof -
  have "drop (length xs - Suc n) xs = replicate (Suc n) p \<longleftrightarrow> (\<forall>k < Suc n. xs ! (length xs - Suc n + k) = p)"
    using assms by (subst list_eq_iff_nth_eq) (auto simp del: replicate_Suc simp: nth_replicate)
  also have "\<dots> \<longleftrightarrow> (\<forall>i \<le> n. xs ! (length xs - 1 - i) = p)"
  proof safe
    fix i assume a: "\<forall>k < Suc n. xs ! (length xs - Suc n + k) = p" and i: "i \<le> n"
    have "length xs - Suc n + (n - i) = length xs - 1 - i" using i assms by simp
    then show "xs ! (length xs - 1 - i) = p" using a i by (metis diff_le_self le_imp_less_Suc)
  next
    fix k assume a: "\<forall>i \<le> n. xs ! (length xs - 1 - i) = p" and k: "k < Suc n"
    have "length xs - 1 - (n - k) = length xs - Suc n + k" using k assms by simp
    then show "xs ! (length xs - Suc n + k) = p" using a by (metis diff_le_self)
  qed
  finally show ?thesis .
qed

text \<open>C19: \<open>EVP_tls_cbc_remove_padding\<close> decides the padding rule of TLS without looking at how long the padding is. It
  fails for records too short for a MAC and a length byte; otherwise the mask is all ones and the padding and its length
  byte are taken off when the rule holds, and the mask is zero and the length unchanged when it does not, also when the
  length byte points before the MAC.\<close>

theorem tls_remove_padding_iff:
  assumes "length inp + 257 < SIZE_LIMIT" "mac_size + 1 < SIZE_LIMIT"
  shows "EVP_tls_cbc_remove_padding inp block_sz mac_size =
     (if 1 + mac_size > length inp then None
      else if padding_ok inp mac_size then Some (- 1, length inp - (unat (last inp) + 1))
      else Some (0, length inp))"
proof (cases "1 + mac_size > length inp")
  case True
  then show ?thesis using assms(2) by (simp add: EVP_tls_cbc_remove_padding_def c_arith)
next
  case False
  let ?p = "last inp" and ?n = "length inp" and ?m = "if 256 > length inp then length inp else 256"
  let ?pl = "ucast ?p :: u64"
  let ?good = "constant_time_ge_w (word_of_nat ?n) (word_of_nat (1 + mac_size) + ?pl)"
  let ?f = "foldl (padding_step inp ?pl) ?good [0..<?m]"
  have ne: "inp \<noteq> []" using False by auto
  have p: "inp ! (?n - 1) = ?p" using ne by (simp add: last_conv_nth)
  have up: "unat ?p < 256" by simp
  have sum: "unat (word_of_nat (1 + mac_size) + ?pl) = 1 + mac_size + unat ?p"
  proof -
    have "word_of_nat (1 + mac_size) + ?pl = (word_of_nat (1 + mac_size + unat ?p) :: u64)"
      by (simp add: ac_simps)
    moreover have "1 + mac_size + unat ?p < 2 ^ 64"
      using False assms(1) unat_u8_lt [of ?p] unfolding SIZE_LIMIT_def by linarith
    ultimately show ?thesis using unat_word_of_nat [of "1 + mac_size + unat ?p", where 'a = 64] by (simp add: add.assoc)
  qed
  have n: "unat (word_of_nat ?n :: u64) = ?n" using assms(1) by (intro unat_word_of_nat) (simp add: SIZE_LIMIT_def)
  have good: "?good = word_of_truth (1 + mac_size + unat ?p \<le> ?n)"
    by (simp only: ge_w word_le_nat_alt sum n)
  have iff: "(ucast ?f :: u8) = - 1 \<longleftrightarrow> padding_ok inp mac_size"
  proof -
    have "(ucast ?f :: u8) = - 1 \<longleftrightarrow> 1 + mac_size + unat ?p \<le> ?n \<and> (\<forall>i < ?m. i \<le> unat ?p \<longrightarrow> inp ! (?n - 1 - i) = ?p)"
    proof -
      have g: "(ucast ?good :: u8) = - 1 \<longleftrightarrow> 1 + mac_size + unat ?p \<le> ?n" unfolding good by simp
      have "(ucast ?f :: u8) = - 1 \<longleftrightarrow>
         (ucast ?good :: u8) = - 1 \<and> (\<forall>i \<in> set [0..<?m]. i < 256 \<longrightarrow> i \<le> unat ?p \<longrightarrow> inp ! (?n - 1 - i) = ?p)"
        by (rule padding_fold) auto
      then show ?thesis unfolding g by auto
    qed
    also have "\<dots> \<longleftrightarrow> padding_ok inp mac_size"
    proof (cases "1 + mac_size + unat ?p \<le> ?n")
      case True
      then have "(\<forall>i < ?m. i \<le> unat ?p \<longrightarrow> inp ! (?n - 1 - i) = ?p) \<longleftrightarrow> (\<forall>i \<le> unat ?p. inp ! (?n - 1 - i) = ?p)"
      proof -
        have "i < ?m" if "i \<le> unat ?p" for i
        proof -
          have "i < 256" using that unat_u8_lt [of ?p] by linarith
          then show ?thesis using True that by auto
        qed
        then show ?thesis by blast
      qed
      then show ?thesis using True suffix_replicate [of "unat ?p" inp ?p] by (simp add: padding_ok_def Let_def)
    qed (simp add: padding_ok_def Let_def)
    finally show ?thesis .
  qed
  have o: "size_add 1 mac_size = 1 + mac_size" using assms(2) by (simp add: c_arith)
  have e: "EVP_tls_cbc_remove_padding inp block_sz mac_size =
     (let g = word_of_truth (padding_ok inp mac_size) in Some (g, unat (word_of_nat ?n - (g AND (?pl + 1)))))"
    unfolding EVP_tls_cbc_remove_padding_def Let_def o p eq_w low_byte_ones iff using False by simp
  have "unat (word_of_nat ?n - (?pl + 1)) = ?n - (unat ?p + 1)" if "padding_ok inp mac_size"
  proof -
    have "unat ?p + 1 < 2 ^ 64" by (rule le_less_trans [of _ 256]) (use unat_u8_le [of ?p] in linarith, simp)
    then have "unat (?pl + 1) = unat ?p + 1" by (simp add: unat_word_ariths unat_ucast_up)
    moreover have "unat ?p + 1 \<le> ?n" using that by (simp add: padding_ok_def Let_def)
    ultimately show ?thesis using n by (simp add: unat_sub_if')
  qed
  then show ?thesis using False unfolding e Let_def by (simp add: n)
qed

theorem tls_remove_padding_iff_witness:
  "EVP_tls_cbc_remove_padding [9, 8, 7, 2, 2, 2] 16 2 = Some (- 1, 3) \<and>
   EVP_tls_cbc_remove_padding [9, 8, 7, 2, 3, 2] 16 2 = Some (0, 6)"
proof -
  have "padding_ok [9, 8, 7, 2, 2, 2] 2 \<and> \<not> padding_ok [9, 8, 7, 2, 3, 2] 2" by code_simp
  then show ?thesis
    using tls_remove_padding_iff [of "[9, 8, 7, 2, 2, 2]" 2 16] tls_remove_padding_iff [of "[9, 8, 7, 2, 3, 2]" 2 16]
    by (simp add: SIZE_LIMIT_def)
qed

subsection \<open>Correctness of the MAC copy\<close>

text \<open>Slot \<open>k\<close> of the circular buffer belongs to the byte of the MAC that is \<open>(k - r) mod md\<close> bytes from its start, where
  \<open>r\<close> is the slot of its first byte.\<close>

definition slot_pos :: "nat \<Rightarrow> nat \<Rightarrow> nat \<Rightarrow> nat \<Rightarrow> nat" where
  "slot_pos md start r k = start + (k + md - r) mod md"

definition slots :: "u8 list \<Rightarrow> nat \<Rightarrow> nat \<Rightarrow> nat \<Rightarrow> nat \<Rightarrow> u8 list" where
  "slots inp md start r n = map (\<lambda>k. if slot_pos md start r k < n then inp ! slot_pos md start r k else 0) [0..<md]"

lemma slot_pos_range: "0 < md \<Longrightarrow> slot_pos md start r k \<in> {start..<start + md}"
  by (simp add: slot_pos_def)

lemma slot_pos_at:
  assumes "s \<le> start" "start \<le> n" "n < start + md" "r = (start - s) mod md"
  shows "slot_pos md start r ((n - s) mod md) = n"
proof -
  have md: "0 < md" using assms by simp
  have r: "r < md" using md assms(4) by simp
  have d: "x + md - r = x + (md - r)" for x using r by simp
  have "((n - s) mod md + md - r) mod md = (n - s + (md - r)) mod md"
    unfolding d by (rule mod_add_left_eq)
  also have "n - s + (md - r) = (n - start) + (start - s) + (md - r)" using assms by simp
  also have "((n - start) + (start - s) + (md - r)) mod md = ((n - start) + (r + (md - r))) mod md"
    unfolding assms(4) by (simp add: add.assoc mod_add_left_eq mod_add_right_eq) (metis mod_add_left_eq mod_add_right_eq)
  also have "\<dots> = (n - start) mod md" using r by (simp only: le_add_diff_inverse less_imp_le mod_add_self2)
  also have "\<dots> = n - start" using assms by simp
  finally show ?thesis using assms by (simp add: slot_pos_def)
qed

lemma slot_pos_inj:
  assumes "s \<le> start" "start \<le> n" "n < start + md" "r = (start - s) mod md" "k < md" "slot_pos md start r k = n"
  shows "k = (n - s) mod md"
proof -
  have r: "r < md" using assms by simp
  have "(k + md - r) mod md = n - start" using assms by (simp add: slot_pos_def)
  then have "((k + md - r) + r) mod md = (n - start + r) mod md" by (metis mod_add_left_eq)
  moreover have "(k + md - r) + r = k + md" using r by simp
  moreover have "(n - start + r) mod md = (n - start + (start - s)) mod md" unfolding assms(4) by (simp add: mod_add_right_eq)
  moreover have "n - start + (start - s) = n - s" using assms by simp
  ultimately show ?thesis using assms(5) by simp
qed

lemma slots_step:
  assumes "s \<le> start" "s \<le> n" "r = (start - s) mod md" "0 < md"
    and x: "x = (if start \<le> n \<and> n < start + md then inp ! n else 0)"
  shows "(slots inp md start r n)[(n - s) mod md := slots inp md start r n ! ((n - s) mod md) OR x] = slots inp md start r (Suc n)"
    (is "?l = ?r")
proof (rule nth_equalityI)
  let ?j = "(n - s) mod md"
  show "length ?l = length ?r" by (simp add: slots_def)
  fix k assume "k < length ?l"
  then have k: "k < md" by (simp add: slots_def)
  have j: "?j < md" using assms(4) by simp
  let ?p = "slot_pos md start r k"
  show "?l ! k = ?r ! k"
  proof (cases "start \<le> n \<and> n < start + md")
    case True
    show ?thesis
    proof (cases "k = ?j")
      case True
      then have "?p = n" using slot_pos_at [OF assms(1) _ _ assms(3)] \<open>start \<le> n \<and> n < start + md\<close> by simp
      then show ?thesis using True k j x \<open>start \<le> n \<and> n < start + md\<close> by (simp add: slots_def)
    next
      case False
      then have "?p \<noteq> n" using slot_pos_inj [OF assms(1) _ _ assms(3) k] True by blast
      then show ?thesis using False k by (simp add: slots_def less_Suc_eq)
    qed
  next
    case False
    then have "?p \<noteq> n" using slot_pos_range [OF assms(4), of start r k] by auto
    moreover have "x = 0" using x False by auto
    ultimately show ?thesis using k j by (cases "k = ?j") (simp_all add: slots_def less_Suc_eq)
  qed
qed

text \<open>The state of the scan before it looks at \<open>n\<close>.\<close>

definition scan_inv :: "u8 list \<Rightarrow> nat \<Rightarrow> nat \<Rightarrow> nat \<Rightarrow> nat \<Rightarrow> u8 list \<times> u64 \<times> u8 \<times> nat \<Rightarrow> bool" where
  "scan_inv inp md start s n st \<longleftrightarrow>
     (case st of (rm, off, started, j) \<Rightarrow>
        let r = (start - s) mod md in
        rm = slots inp md start r n \<and> off = (if start < n then word_of_nat r else 0) \<and>
        started = word_of_truth (start < n) \<and> j \<le> md \<and> j mod md = (n - s) mod md)"

lemma scan_step_inv:
  assumes "scan_inv inp md start s n st" "s \<le> start" "s \<le> n" "0 < md" "md \<le> 64" "n < 2 ^ 63" "start + md < 2 ^ 63"
  shows "scan_inv inp md start s (Suc n) (scan_step inp md start (start + md) st n)"
proof -
  let ?r = "(start - s) mod md" and ?j = "(n - s) mod md"
  obtain rm off started j where st: "st = (rm, off, started, j)" by (cases st) auto
  have inv: "rm = slots inp md start ?r n" "off = (if start < n then word_of_nat ?r else 0)"
    "started = word_of_truth (start < n)" "j \<le> md" "j mod md = ?j"
    using assms(1) by (auto simp: scan_inv_def st Let_def)
  have j: "(if j \<ge> md then j - md else j) = ?j" using inv(4,5) assms(4) by (auto simp: not_le)
  have un: "unat (word_of_nat n :: u64) = n" "unat (word_of_nat start :: u64) = start"
    "unat (word_of_nat (start + md) :: u64) = start + md"
    using assms(6,7) by (auto intro!: unat_word_of_nat simp del: of_nat_add)
  have eq: "constant_time_eq_w (word_of_nat n) (word_of_nat start) = word_of_truth (n = start)"
    by (simp only: eq_w word_unat_eq_iff un)
  have ge: "constant_time_ge_8 (word_of_nat n) (word_of_nat (start + md)) = word_of_truth (start + md \<le> n)"
    by (simp only: ct_8 word_le_nat_alt un)
  have u8_id: "(ucast (ucast a :: u64) :: u8) = a" for a :: u8
    by (rule bit_word_eqI) (auto simp: bit_simps)
  have started: "(ucast (ucast started OR word_of_truth (n = start) :: u64) :: u8) = word_of_truth (start < Suc n)"
    unfolding inv(3) by (auto simp: less_Suc_eq u8_id)
  have off: "off OR (word_of_nat ?j AND word_of_truth (n = start)) = (if start < Suc n then word_of_nat ?r else 0)"
    unfolding inv(2) by (auto simp: less_Suc_eq)
  let ?x = "inp ! n AND word_of_truth (start < Suc n) AND NOT (word_of_truth (start + md \<le> n))"
  have x: "?x = (if start \<le> n \<and> n < start + md then inp ! n else 0)"
    by auto
  have step: "scan_step inp md start (start + md) st n =
     (rm[?j := rm ! ?j OR ?x], (if start < Suc n then word_of_nat ?r else 0), word_of_truth (start < Suc n), ?j + 1)"
    unfolding st scan_step_def prod.case Let_def j eq ge started off by (rule refl)
  have "?j < md" using assms(4) by simp
  then have "?j + 1 \<le> md" "(?j + 1) mod md = (Suc n - s) mod md"
    using assms(3) by (auto simp: Suc_diff_le mod_Suc_eq)
  then show ?thesis
    unfolding step scan_inv_def prod.case Let_def inv(1) x slots_step [OF assms(2,3) refl assms(4) refl, of inp]
    by simp
qed

lemma scan_loop_inv:
  assumes "s \<le> start" "0 < md" "md \<le> 64" "start + md \<le> n" "n < 2 ^ 63"
  shows "scan_inv inp md start s n (foldl (scan_step inp md start (start + md)) (replicate md 0, 0, 0, 0) [s..<n])"
proof -
  have "s + k \<le> n \<Longrightarrow> scan_inv inp md start s (s + k) (foldl (scan_step inp md start (start + md)) (replicate md 0, 0, 0, 0) [s..<s + k])" for k
  proof (induction k)
    case 0
    have "slots inp md start ((start - s) mod md) s = replicate md 0"
      using slot_pos_range [OF assms(2), of start "(start - s) mod md"] assms(1)
      by (auto simp: slots_def intro!: nth_equalityI) (meson atLeastLessThan_iff leD le_trans)
    then show ?case using assms(1) by (simp add: scan_inv_def Let_def)
  next
    case (Suc k)
    then show ?case
      using scan_step_inv [of inp md start s "s + k", OF _ assms(1) _ assms(2,3)] assms(4,5) by simp
  qed
  from this [of "n - s"] show ?thesis using assms(1,4) by simp
qed

text \<open>The rotation: bit by bit, it rotates by the number that the bits make.\<close>

lemma nth_rotate_less: "i < length xs \<Longrightarrow> k \<le> length xs \<Longrightarrow> rotate k xs ! i = xs ! ((i + k) mod length xs)"
  by (simp add: nth_rotate add.commute)

lemma rotate_step:
  assumes "length xs = md" "offset < md"
  shows "map (\<lambda>i. let j = offset + i; j = (if j \<ge> md then j - md else j) in constant_time_select_8 (word_of_truth p) (xs ! i) (xs ! j)) [0..<md] =
     (if p then xs else rotate offset xs)"
proof (rule nth_equalityI)
  fix i assume "i < length (map (\<lambda>i. let j = offset + i; j = (if j \<ge> md then j - md else j)
       in constant_time_select_8 (word_of_truth p) (xs ! i) (xs ! j)) [0..<md])"
  then have i: "i < md" by simp
  have j: "(if offset + i \<ge> md then offset + i - md else offset + i) = (i + offset) mod md"
    using i assms(2) by (simp add: mod_if add.commute)
  show "map (\<lambda>i. let j = offset + i; j = (if j \<ge> md then j - md else j)
       in constant_time_select_8 (word_of_truth p) (xs ! i) (xs ! j)) [0..<md] ! i = (if p then xs else rotate offset xs) ! i"
    using i assms nth_rotate_less [of i xs offset] unfolding Let_def select_8 by (simp add: j [symmetric] add.commute)
qed (use assms in auto)

lemma rotate_loop_eq:
  "length xs = md \<Longrightarrow> 0 < offset \<Longrightarrow> offset * n < md \<or> n = 0 \<Longrightarrow> n < 2 ^ 64 \<Longrightarrow>
     rotate_loop md offset (word_of_nat n) xs = rotate (offset * n) xs"
proof (induction "md - offset" arbitrary: offset n xs rule: less_induct)
  case less
  note 1 = less.hyps less.prems
  have un: "unat (word_of_nat n :: u64) = n" using 1(5) by (intro unat_word_of_nat) simp
  have odd: "(word_of_nat n AND 1 :: u64) = (if odd n then 1 else 0)"
    by (rule bit_word_eqI) (auto simp: bit_simps bit_0)
  show ?case
  proof (cases "offset < md")
    case False
    then have "n = 0" using 1(4) by (cases n) auto
    then show ?thesis using False by (simp add: rotate_loop.simps [of md offset])
  next
    case True
    let ?skip = "(ucast ((word_of_nat n AND 1 :: u64) - 1)) :: u8"
    have skip: "?skip = word_of_truth (even n)" unfolding odd by auto
    let ?xs = "if even n then xs else rotate offset xs"
    have h: "(drop_bit 1 (word_of_nat n) :: u64) = word_of_nat (n div 2)"
    proof -
      have "unat (word_of_nat (n div 2) :: u64) = n div 2" using 1(5) by (intro unat_word_of_nat) simp
      then show ?thesis using un by (simp add: word_unat_eq_iff unat_drop_bit)
    qed
    have "rotate_loop md offset (word_of_nat n) xs = rotate_loop md (offset * 2) (word_of_nat (n div 2)) ?xs"
      using True 1(3) rotate_step [OF 1(2) True, of "even n"]
      by (subst rotate_loop.simps) (simp add: Let_def skip h h [simplified])
    also have "\<dots> = rotate (offset * 2 * (n div 2)) ?xs"
    proof -
      have "offset * 2 * (n div 2) < md \<or> n div 2 = 0"
      proof (cases "n = 0")
        case False
        have "offset * 2 * (n div 2) \<le> offset * n" by simp
        then show ?thesis using 1(4) False by linarith
      qed simp
      then show ?thesis
        using less.hyps [of "offset * 2" ?xs "n div 2"] 1(2,3,5) True by simp
    qed
    also have "\<dots> = rotate (offset * n) xs"
    proof (cases "even n")
      case False
      then have "offset * n = offset * 2 * (n div 2) + offset" by (metis distrib_left mult.assoc mult.right_neutral odd_two_times_div_two_succ)
      then show ?thesis using False by (simp add: rotate_rotate)
    qed (simp add: mult.assoc)
    finally show ?thesis .
  qed
qed

lemma rotate_slots:
  assumes "s \<le> start" "0 < md" "start + md \<le> n" "r = (start - s) mod md" "start + md \<le> length inp"
  shows "rotate r (slots inp md start r n) = take md (drop start inp)"
proof (rule nth_equalityI)
  show "length (rotate r (slots inp md start r n)) = length (take md (drop start inp))"
    using assms(5) by (simp add: slots_def)
  fix i assume "i < length (rotate r (slots inp md start r n))"
  then have i: "i < md" by (simp add: slots_def)
  have r: "r < md" using assms(2,4) by simp
  have "slot_pos md start r ((i + r) mod md) = start + i"
  proof -
    have "((i + r) mod md + md - r) mod md = ((i + r) mod md + (md - r)) mod md" using r by simp
    also have "\<dots> = (i + r + (md - r)) mod md" by (rule mod_add_left_eq)
    also have "\<dots> = i" using r i by simp
    finally show ?thesis by (simp add: slot_pos_def)
  qed
  then show "rotate r (slots inp md start r n) ! i = take md (drop start inp) ! i"
    using i r assms(3,5) nth_rotate_less [of i "slots inp md start r n" r] by (simp add: slots_def)
qed

text \<open>C18: \<open>EVP_tls_cbc_copy_mac\<close> returns the bytes of the MAC, that is the last \<open>md_sz\<close> bytes before \<open>in_len\<close>, wherever the
  padding of up to 256 bytes puts it: a scan of all positions it can have, collecting into a circular buffer, and a
  rotation by the bits of the offset, whose accesses do not depend on it.\<close>

theorem tls_copy_mac_correct:
  assumes "0 < md_sz" "md_sz \<le> 64" "md_sz \<le> in_len" "in_len \<le> length inp" "length inp \<le> in_len + 256" "length inp < 2 ^ 63"
  shows "EVP_tls_cbc_copy_mac md_sz inp in_len (length inp) = Some (take md_sz (drop (in_len - md_sz) inp))"
proof -
  let ?start = "in_len - md_sz" and ?n = "length inp"
  let ?s = "if ?n > md_sz + 255 + 1 then ?n - (md_sz + 255 + 1) else 0" and ?init = "(replicate md_sz 0, 0, 0, 0) :: u8 list \<times> u64 \<times> u8 \<times> nat"
  let ?r = "(?start - ?s) mod md_sz"
  have s: "?s \<le> ?start" "?start + md_sz = in_len" using assms by auto
  obtain rm off started j where f: "foldl (scan_step inp md_sz ?start in_len) ?init [?s..<?n] = (rm, off, started, j)"
    by (metis prod_cases4)
  have "scan_inv inp md_sz ?start ?s ?n (rm, off, started, j)"
    using scan_loop_inv [OF s(1) assms(1,2), of ?n inp] assms(4,6) unfolding s(2) f by simp
  then have inv: "rm = slots inp md_sz ?start ?r ?n" "off = word_of_nat ?r"
    using assms(1,3,4) by (auto simp: scan_inv_def Let_def)
  have r: "?r < md_sz" using assms(1) by simp
  have "rotate_loop md_sz 1 off rm = rotate ?r rm"
    using rotate_loop_eq [of rm md_sz 1 ?r] r assms(2) unfolding inv by (simp add: slots_def)
  also have "\<dots> = take md_sz (drop ?start inp)"
    unfolding inv(1) by (rule rotate_slots [OF s(1) assms(1) _ refl]) (use assms s(2) in auto)
  finally have m: "rotate_loop md_sz 1 off rm = take md_sz (drop ?start inp)" .
  have ss: "size_sub in_len md_sz = ?start" using assms by (simp add: c_arith SIZE_LIMIT_def)
  show ?thesis
    unfolding EVP_tls_cbc_copy_mac_def Let_def ss f prod.case m using assms by (simp add: EVP_MAX_MD_SIZE_def)
qed

theorem tls_copy_mac_correct_witness:
  "EVP_tls_cbc_copy_mac 3 [1, 2, 3, 4, 5, 1, 1] 5 7 = Some [3, 4, 5]"
proof -
  have "length [1, 2, 3, 4, 5, 1, 1 :: u8] = 7" by simp
  from tls_copy_mac_correct [of 3 5 "[1, 2, 3, 4, 5, 1, 1]", unfolded this] show ?thesis by simp
qed

end
