(* ===== verification/Tls_Cbc_Digest.thy ===== *)
theory Tls_Cbc_Digest
  imports Tls_Cbc
begin

text \<open>
  The CBC records of TLS (\<open>crypto/cipher_extra/tls_cbc.c\<close>), second part: the MAC of a record, computed over blocks that are
  built without looking at where the message ends. The contract of the hash functions it drives block by block is
  the locale \<open>tls_digest\<close>, interpreted on SHA-1, SHA-256 and SHA-384 in \<open>Tls_Cbc_Mac\<close>.
\<close>

subsection \<open>The MAC of a record\<close>

definition MAX_HASH_BIT_COUNT_BYTES :: nat where "MAX_HASH_BIT_COUNT_BYTES = 16"
definition MAX_HASH_BLOCK_SIZE :: nat where "MAX_HASH_BLOCK_SIZE = 128"

definition u32toBE :: "u32 \<Rightarrow> u8 list" where
  "u32toBE n = [ucast (drop_bit 24 n), ucast (drop_bit 16 n), ucast (drop_bit 8 n), ucast n]"

definition u64toBE :: "u64 \<Rightarrow> u8 list" where
  "u64toBE n = [ucast (drop_bit 56 n), ucast (drop_bit 48 n), ucast (drop_bit 40 n), ucast (drop_bit 32 n),
     ucast (drop_bit 24 n), ucast (drop_bit 16 n), ucast (drop_bit 8 n), ucast n]"

text \<open>\<open>HASH_CTX\<close> is a union; each of these functions is called only while the union holds the context it reads, and is the
  identity, or empty, on the others.\<close>

definition tls1_sha1_transform :: "hash_state \<Rightarrow> u8 list \<Rightarrow> hash_state" where
  "tls1_sha1_transform ctx block = (case ctx of Md32 c \<Rightarrow> Md32 (SHA1_Transform c block) | _ \<Rightarrow> ctx)"

definition tls1_sha256_transform :: "hash_state \<Rightarrow> u8 list \<Rightarrow> hash_state" where
  "tls1_sha256_transform ctx block = (case ctx of Md32 c \<Rightarrow> Md32 (SHA256_Transform c block) | _ \<Rightarrow> ctx)"

definition tls1_sha512_transform :: "hash_state \<Rightarrow> u8 list \<Rightarrow> hash_state" where
  "tls1_sha512_transform ctx block = (case ctx of Sha512_State c \<Rightarrow> Sha512_State (SHA512_Transform c block) | _ \<Rightarrow> ctx)"

definition tls1_sha1_final_raw :: "hash_state \<Rightarrow> u8 list" where
  "tls1_sha1_final_raw ctx =
     (case ctx of
        Md32 c \<Rightarrow> u32toBE (c_h c ! 0) @ u32toBE (c_h c ! 1) @ u32toBE (c_h c ! 2) @ u32toBE (c_h c ! 3) @ u32toBE (c_h c ! 4)
      | _ \<Rightarrow> [])"

definition tls1_sha256_final_raw :: "hash_state \<Rightarrow> u8 list" where
  "tls1_sha256_final_raw ctx = (case ctx of Md32 c \<Rightarrow> concat (map (\<lambda>i. u32toBE (c_h c ! i)) [0..<8]) | _ \<Rightarrow> [])"

definition tls1_sha512_final_raw :: "hash_state \<Rightarrow> u8 list" where
  "tls1_sha512_final_raw ctx = (case ctx of Sha512_State c \<Rightarrow> concat (map (\<lambda>i. u64toBE (s_h c ! i)) [0..<8]) | _ \<Rightarrow> [])"

definition EVP_tls_cbc_record_digest_supported :: "md \<Rightarrow> bool" where
  "EVP_tls_cbc_record_digest_supported md \<longleftrightarrow> EVP_MD_type md = 64 \<or> EVP_MD_type md = 672 \<or> EVP_MD_type md = 673"

text \<open>What the \<open>switch\<close> sets: the initial state, the two functions, and the sizes.\<close>

record tls_hash =
  th_state :: hash_state
  th_transform :: "hash_state \<Rightarrow> u8 list \<Rightarrow> hash_state"
  th_final_raw :: "hash_state \<Rightarrow> u8 list"
  th_md_size :: nat
  th_block_size :: nat
  th_block_shift :: nat
  th_length_size :: nat

definition tls_hash_of :: "hash_state \<Rightarrow> md \<Rightarrow> tls_hash option" where
  "tls_hash_of md_state md =
     (if EVP_MD_type md = 64 then
        Some \<lparr>th_state = Md32 SHA1_Init, th_transform = tls1_sha1_transform, th_final_raw = tls1_sha1_final_raw,
          th_md_size = 20, th_block_size = 64, th_block_shift = 6, th_length_size = 8\<rparr>
      else if EVP_MD_type md = 672 then
        Some \<lparr>th_state = Md32 SHA256_Init, th_transform = tls1_sha256_transform, th_final_raw = tls1_sha256_final_raw,
          th_md_size = SHA256_DIGEST_LENGTH, th_block_size = 64, th_block_shift = 6, th_length_size = 8\<rparr>
      else if EVP_MD_type md = 673 then
        Some \<lparr>th_state = Sha512_State (SHA384_Init (as_sha512_ctx md_state)), th_transform = tls1_sha512_transform,
          th_final_raw = tls1_sha512_final_raw,
          th_md_size = SHA384_DIGEST_LENGTH, th_block_size = 128, th_block_shift = 7, th_length_size = 16\<rparr>
      else None)"

definition kHeaderLength :: nat where "kHeaderLength = 13"

definition kVarianceBlocks :: "tls_hash \<Rightarrow> nat" where
  "kVarianceBlocks T = (255 + 1 + th_md_size T + th_block_size T - 1) div th_block_size T + 1"

text \<open>Byte \<open>j\<close> of block \<open>i\<close>, with \<open>k\<close> its place in the header and the data.\<close>

definition tls_block_byte ::
  "tls_hash \<Rightarrow> u8 list \<Rightarrow> u8 list \<Rightarrow> nat \<Rightarrow> nat \<Rightarrow> u8 list \<Rightarrow> u8 \<Rightarrow> u8 \<Rightarrow> nat \<Rightarrow> nat \<Rightarrow> u8" where
  "tls_block_byte T header data sz c length_bytes is_block_a is_block_b k j =
     (let b = (if k < kHeaderLength then header ! k
               else if k < sz + kHeaderLength then data ! (k - kHeaderLength) else 0);
          is_past_c = is_block_a AND constant_time_ge_8 (word_of_nat j) (word_of_nat c);
          is_past_cp1 = is_block_a AND constant_time_ge_8 (word_of_nat j) (word_of_nat (c + 1));
          b = constant_time_select_8 is_past_c 0x80 b;
          b = b AND NOT is_past_cp1;
          b = b AND (NOT is_block_b OR is_block_a)
      in if j \<ge> th_block_size T - th_length_size T
         then constant_time_select_8 is_block_b (length_bytes ! (j - (th_block_size T - th_length_size T))) b
         else b)"

text \<open>One turn of the loop over the last blocks, on the hash state, \<open>k\<close> and \<open>mac_out\<close>.\<close>

definition tls_block_step ::
  "tls_hash \<Rightarrow> u8 list \<Rightarrow> u8 list \<Rightarrow> nat \<Rightarrow> nat \<Rightarrow> nat \<Rightarrow> nat \<Rightarrow> u8 list \<Rightarrow> hash_state \<times> nat \<times> u8 list \<Rightarrow> nat
     \<Rightarrow> hash_state \<times> nat \<times> u8 list" where
  "tls_block_step T header data sz c index_a index_b length_bytes st i =
     (case st of (md_state, k, mac_out) \<Rightarrow>
       let is_block_a = constant_time_eq_8 (word_of_nat i) (word_of_nat index_a);
           is_block_b = constant_time_eq_8 (word_of_nat i) (word_of_nat index_b);
           block = map (\<lambda>j. tls_block_byte T header data sz c length_bytes is_block_a is_block_b (k + j) j) [0..<th_block_size T];
           md_state = th_transform T md_state block;
           block = copy_bytes block 0 (th_final_raw T md_state);
           mac_out = map (\<lambda>j. if j < th_md_size T then mac_out ! j OR (block ! j AND is_block_b) else mac_out ! j) [0..<length mac_out]
       in (md_state, k + th_block_size T, mac_out))"

text \<open>The blocks that no padding can reach.\<close>

definition tls_first_blocks :: "tls_hash \<Rightarrow> u8 list \<Rightarrow> u8 list \<Rightarrow> nat \<Rightarrow> hash_state \<Rightarrow> hash_state" where
  "tls_first_blocks T header data k md_state =
     (if k > 0 then
        let first_block = header @ take (th_block_size T - 13) data;
            md_state = th_transform T md_state first_block
        in foldl (\<lambda>st i. th_transform T st (take (th_block_size T) (drop (th_block_size T * i - 13) data))) md_state
             [1..<k div th_block_size T]
      else md_state)"

text \<open>The inner hash; \<open>sz\<close> is \<open>data_plus_mac_plus_padding_size\<close>.\<close>

definition tls_inner_hash :: "tls_hash \<Rightarrow> u8 list \<Rightarrow> u8 list \<Rightarrow> nat \<Rightarrow> nat \<Rightarrow> u8 list \<Rightarrow> u8 list" where
  "tls_inner_hash T header data data_plus_mac_size sz hmac_pad =
     (let bs = th_block_size T; ls = th_length_size T;
          len = sz + kHeaderLength;
          max_mac_bytes = size_sub (size_sub len (th_md_size T)) 1;
          num_blocks = size_sub (size_add max_mac_bytes (1 + ls + bs)) 1 div bs;
          mac_end_offset = size_sub (data_plus_mac_size + kHeaderLength) (th_md_size T);
          c = mac_end_offset AND (bs - 1);
          index_a = drop_bit (th_block_shift T) mac_end_offset;
          index_b = drop_bit (th_block_shift T) (size_add mac_end_offset ls);
          num_starting_blocks = (if num_blocks > kVarianceBlocks T then num_blocks - kVarianceBlocks T else 0);
          k = bs * num_starting_blocks;
          bits = size_add (size_mul 8 mac_end_offset) (8 * bs);
          md_state = th_transform T (th_state T) hmac_pad;
          length_bytes = replicate (ls - 4) 0 @ u32toBE (word_of_nat bits);
          md_state = tls_first_blocks T header data k md_state
      in snd (snd (foldl (tls_block_step T header data sz c index_a index_b length_bytes)
           (md_state, k, replicate EVP_MAX_MD_SIZE 0) [num_starting_blocks..<num_starting_blocks + kVarianceBlocks T + 1])))"

text \<open>\<open>md_out\<close> and its size, or \<open>None\<close> inside for the result zero; \<open>md_state\<close> is the uninitialised local variable.\<close>

definition EVP_tls_cbc_digest_record ::
  "allocator \<Rightarrow> hash_state \<Rightarrow> md \<Rightarrow> u8 list \<Rightarrow> u8 list \<Rightarrow> nat \<Rightarrow> nat \<Rightarrow> u8 list \<Rightarrow> (u8 list \<times> nat) option option" where
  "EVP_tls_cbc_digest_record malloc md_state md header data data_plus_mac_size sz mac_secret = do {
     _ \<leftarrow> c_assert (sz < 1024 * 1024);
     T \<leftarrow> tls_hash_of md_state md;
     let bs = th_block_size T;
     _ \<leftarrow> c_assert (th_length_size T \<le> MAX_HASH_BIT_COUNT_BYTES);
     _ \<leftarrow> c_assert (bs \<le> MAX_HASH_BLOCK_SIZE);
     _ \<leftarrow> c_assert (bs = push_bit (th_block_shift T) 1);
     _ \<leftarrow> c_assert (th_md_size T \<le> EVP_MAX_MD_SIZE);
     _ \<leftarrow> c_assert (length mac_secret \<le> MAX_HASH_BLOCK_SIZE);
     let hmac_pad = copy_bytes (replicate MAX_HASH_BLOCK_SIZE 0) 0 mac_secret;
     let hmac_pad = map ((XOR) 0x36) (take bs hmac_pad);
     let mac_out = tls_inner_hash T header data data_plus_mac_size sz hmac_pad;
     (ok, md_ctx) \<leftarrow> EVP_DigestInit_ex malloc EVP_MD_CTX_init (Some md);
     if \<not> ok then Some None
     else do {
       let hmac_pad = map ((XOR) 0x6A) hmac_pad;
       md_ctx \<leftarrow> EVP_DigestUpdate md_ctx hmac_pad;
       md_ctx \<leftarrow> EVP_DigestUpdate md_ctx (take (th_md_size T) mac_out);
       (md_out, md_out_size, md_ctx) \<leftarrow> EVP_DigestFinal md_ctx;
       Some (Some (md_out, md_out_size)) } }"

subsection \<open>The contract of the hash functions\<close>

definition chunk :: "nat \<Rightarrow> u8 list \<Rightarrow> nat \<Rightarrow> u8 list" where
  "chunk bs d i = take bs (drop (bs * i) d)"

text \<open>The padding that ends a message of \<open>n\<close> bytes, with a length below \<open>2 ^ 32\<close> bits.\<close>

definition md_zeros :: "nat \<Rightarrow> nat \<Rightarrow> nat \<Rightarrow> nat" where
  "md_zeros bs ls n = (if n mod bs < bs - ls then bs - ls - 1 else 2 * bs - ls - 1) - n mod bs"

definition md_tail :: "nat \<Rightarrow> nat \<Rightarrow> nat \<Rightarrow> u8 list" where
  "md_tail bs ls n =
     0x80 # replicate (md_zeros bs ls n) 0 @ replicate (ls - 4) 0 @ u32toBE (word_of_nat (8 * n))"

definition tls_chain :: "tls_hash \<Rightarrow> u8 list \<Rightarrow> nat \<Rightarrow> hash_state" where
  "tls_chain T d n = foldl (\<lambda>st i. th_transform T st (chunk (th_block_size T) d i)) (th_state T) [0..<n]"

locale tls_digest =
  fixes T :: tls_hash and t :: md
  assumes hash_sizes: "th_md_size T = EVP_MD_size t" "th_block_size T = EVP_MD_block_size t"
    "th_block_size T = 2 ^ th_block_shift T" "4 \<le> th_length_size T" "th_length_size T \<le> th_md_size T"
    "th_length_size T < th_block_size T" "13 \<le> th_block_size T" "th_block_size T \<le> 128" "th_md_size T \<le> 64"
    "th_md_size T \<le> th_block_size T"
    and raw_length: "th_md_size T \<le> length (th_final_raw T (tls_chain T d n))" "length (th_final_raw T (tls_chain T d n)) \<le> th_block_size T"
    and digest_chain: "length msg < 2 ^ 29 \<Longrightarrow>
      md_digest t msg = take (th_md_size T)
        (th_final_raw T (tls_chain T (msg @ md_tail (th_block_size T) (th_length_size T) (length msg))
           (length (msg @ md_tail (th_block_size T) (th_length_size T) (length msg)) div th_block_size T)))"
begin

abbreviation "bs \<equiv> th_block_size T"
abbreviation "ls \<equiv> th_length_size T"

lemma bs_pos: "0 < bs"
  using hash_sizes(7) by linarith

text \<open>The message behind the first block, with its padding.\<close>

definition padded :: "u8 list \<Rightarrow> u8 list" where
  "padded M = M @ md_tail bs ls (bs + length M)"

definition last_block :: "nat \<Rightarrow> nat" where
  "last_block m = (m + ls) div bs"

lemma last_block_cases:
  "last_block m = (if m mod bs < bs - ls then m div bs else m div bs + 1)"
proof -
  let ?q = "m div bs" and ?c = "m mod bs"
  have m: "bs * ?q + ?c = m" by simp
  have c: "?c < bs" using bs_pos by simp
  have d: "bs * Suc n = bs + bs * n" for n by simp
  have "(m + ls) div bs = ?q" if "?c < bs - ls"
  proof (rule div_nat_eqI)
    show "bs * ?q \<le> m + ls" using m by linarith
    show "m + ls < bs * Suc ?q" using m that unfolding d by linarith
  qed
  moreover have "(m + ls) div bs = ?q + 1" if "\<not> ?c < bs - ls"
  proof (rule div_nat_eqI)
    have q: "?q + 1 = Suc ?q" by simp
    show "bs * (?q + 1) \<le> m + ls" unfolding q d using m that hash_sizes(6) by linarith
    show "m + ls < bs * Suc (?q + 1)" unfolding q d using m c hash_sizes(6) by linarith
  qed
  ultimately show ?thesis by (simp add: last_block_def)
qed

lemma length_md_tail: "length (md_tail bs ls n) = md_zeros bs ls n + 1 + ls"
  using hash_sizes(4) by (simp add: md_tail_def u32toBE_def)

lemma zeros_length: "m + (md_zeros bs ls (bs + m) + 1 + ls) = bs * (last_block m + 1)"
proof -
  let ?q = "m div bs" and ?c = "m mod bs"
  have m: "bs * ?q + ?c = m" by simp
  have c: "?c < bs" using bs_pos by simp
  have mm: "(bs + m) mod bs = ?c" by simp
  have d: "bs * (n + 1) = bs * n + bs" for n by simp
  show ?thesis
  proof (cases "?c < bs - ls")
    case True
    then have e: "md_zeros bs ls (bs + m) = bs - ls - 1 - ?c" "last_block m = ?q"
      by (simp_all add: md_zeros_def last_block_cases)
    show ?thesis unfolding e d using True m by linarith
  next
    case False
    then have e: "md_zeros bs ls (bs + m) = 2 * bs - ls - 1 - ?c" "last_block m = Suc ?q"
      by (simp_all add: md_zeros_def last_block_cases)
    have s: "bs * Suc ?q = bs * ?q + bs" by simp
    show ?thesis unfolding e d s using m c hash_sizes(6) by linarith
  qed
qed

lemma length_padded: "length (padded M) = bs * (last_block (length M) + 1)"
  using zeros_length [of "length M"] by (simp add: padded_def length_md_tail)

definition length_bytes :: "nat \<Rightarrow> u8 list" where
  "length_bytes m = replicate (ls - 4) 0 @ u32toBE (word_of_nat (8 * (bs + m)))"

lemma nth_padded:
  assumes "q < bs * (last_block (length M) + 1)"
  shows "padded M ! q =
     (if q < length M then M ! q else if q = length M then 0x80
      else if q < bs * (last_block (length M) + 1) - ls then 0
      else length_bytes (length M) ! (q - (bs * (last_block (length M) + 1) - ls)))"
proof -
  let ?m = "length M"
  let ?z = "md_zeros bs ls (bs + ?m)"
  have p: "padded M = M @ 0x80 # replicate ?z 0 @ length_bytes ?m"
    by (simp add: padded_def md_tail_def length_bytes_def)
  have z: "bs * (last_block ?m + 1) - ls = ?m + 1 + ?z"
    using zeros_length [of ?m] by linarith
  consider "q < ?m" | "q = ?m" | "?m < q" "q < ?m + 1 + ?z" | "?m + 1 + ?z \<le> q" by linarith
  then show ?thesis
  proof cases
    case 3
    then obtain r where r: "q - ?m = Suc r" "r < ?z" by (cases "q - ?m") auto
    have "(0x80 # replicate ?z 0 @ length_bytes ?m) ! (q - ?m) = 0"
      using r(2) unfolding r(1) by (simp add: nth_append)
    then show ?thesis using 3 unfolding p z by (simp add: nth_append)
  next
    case 4
    then have r: "q = ?m + Suc (q - ?m - 1)" "?z \<le> q - ?m - 1" by linarith+
    have "(0x80 # replicate ?z 0 @ length_bytes ?m) ! (q - ?m) = length_bytes ?m ! (q - (?m + 1 + ?z))"
      using r(2) by (subst r(1), subst r(1)) (simp add: nth_append)
    then show ?thesis using 4 unfolding p z by (simp add: nth_append)
  qed (simp_all add: p nth_append)
qed

lemma nth_chunk: "j < bs \<Longrightarrow> bs * i + j < length d \<Longrightarrow> chunk bs d i ! j = d ! (bs * i + j)"
  by (simp add: chunk_def)

lemma length_chunk: "bs * (i + 1) \<le> length d \<Longrightarrow> length (chunk bs d i) = bs"
  by (simp add: chunk_def)

end

lemma tls_block_byte_truth:
  "tls_block_byte T header data sz c lb (word_of_truth A) (word_of_truth B) k j =
     (let ls = th_length_size T; bs = th_block_size T in
      if bs - ls \<le> j \<and> B then lb ! (j - (bs - ls))
      else if A \<and> c < j then 0 else if A \<and> j = c then 0x80 else if B \<and> \<not> A then 0
      else if k < 13 then header ! k else if k < sz + 13 then data ! (k - 13) else 0)"
  if "j < 2 ^ 63" "c < 2 ^ 63"
proof -
  have u: "unat (word_of_nat j :: u64) = j" "unat (word_of_nat c :: u64) = c" "unat (word_of_nat (c + 1) :: u64) = c + 1"
    using that by (auto intro!: unat_word_of_nat simp del: of_nat_add of_nat_Suc)
  have g: "constant_time_ge_8 (word_of_nat j) (word_of_nat c) = word_of_truth (c \<le> j)"
    "constant_time_ge_8 (word_of_nat j) (word_of_nat (c + 1)) = word_of_truth (c < j)"
    by (simp_all only: ct_8 word_le_nat_alt u) (simp_all add: Suc_le_eq)
  have a: "word_of_truth A AND word_of_truth p = (word_of_truth (A \<and> p) :: u8)" for p by simp
  show ?thesis
    unfolding tls_block_byte_def Let_def g a select_8 kHeaderLength_def by auto
qed

lemma eq_8_index: "i < 2 ^ 64 \<Longrightarrow> n < 2 ^ 64 \<Longrightarrow> constant_time_eq_8 (word_of_nat i) (word_of_nat n) = word_of_truth (i = n)"
proof -
  assume "i < 2 ^ 64" "n < 2 ^ 64"
  then have "unat (word_of_nat i :: u64) = i" "unat (word_of_nat n :: u64) = n"
    by (auto intro: unat_word_of_nat)
  then have "(word_of_nat i :: u64) = word_of_nat n \<longleftrightarrow> i = n" by metis
  then show ?thesis by (simp only: ct_8)
qed

context tls_digest begin

lemma tls_block_is_chunk:
  fixes i :: nat
  assumes M: "M = header @ take n data" "length header = 13" "n \<le> sz" "sz \<le> length data"
    and i: "i \<le> last_block (length M)"
  defines "A \<equiv> i = length M div bs" and "B \<equiv> i = last_block (length M)"
  shows "map (\<lambda>j. tls_block_byte T header data sz (length M mod bs) (length_bytes (length M)) (word_of_truth A) (word_of_truth B) (bs * i + j) j)
      [0..<bs] = chunk bs (padded M) i"
proof (rule nth_equalityI)
  let ?m = "length M" and ?L = "last_block (length M)"
  have fits: "bs * (i + 1) \<le> length (padded M)"
    unfolding length_padded using i by simp
  show "length (map (\<lambda>j. tls_block_byte T header data sz (?m mod bs) (length_bytes ?m) (word_of_truth A) (word_of_truth B) (bs * i + j) j) [0..<bs]) =
      length (chunk bs (padded M) i)"
    using length_chunk [OF fits] by simp
  fix j assume "j < length (map (\<lambda>j. tls_block_byte T header data sz (?m mod bs) (length_bytes ?m) (word_of_truth A) (word_of_truth B) (bs * i + j) j) [0..<bs])"
  then have j: "j < bs" by simp
  let ?q = "bs * i + j"
  have q: "?q < bs * (i + 1)" using j by simp
  have le: "bs * (i + 1) \<le> bs * (?L + 1)" using i by simp
  have m: "bs * (?m div bs) + ?m mod bs = ?m" by simp
  have m': "bs * i + ?m mod bs = ?m" if "i = ?m div bs" using m by (simp only: that)
  have c: "?m mod bs < bs" using bs_pos by simp
  have b63: "j < 2 ^ 63" "?m mod bs < 2 ^ 63"
    by (rule less_le_trans [of _ 128], use j c hash_sizes(8) in linarith, simp)+
  have small: "?m \<le> sz + 13" using M by simp
  have raw: "(if k < 13 then header ! k else if k < sz + 13 then data ! (k - 13) else 0) = M ! k" if "k < ?m" for k
    using that M by (auto simp: nth_append)
  have P: "chunk bs (padded M) i ! j = padded M ! ?q"
    using nth_chunk [OF j, of i "padded M"] fits q by linarith
  have pad: "padded M ! ?q = (if ?q < ?m then M ! ?q else if ?q = ?m then 0x80
      else if ?q < bs * (?L + 1) - ls then 0 else length_bytes ?m ! (?q - (bs * (?L + 1) - ls)))"
    by (rule nth_padded) (use q le in linarith)
  have byte: "tls_block_byte T header data sz (?m mod bs) (length_bytes ?m) (word_of_truth A) (word_of_truth B) ?q j =
     padded M ! ?q"
  proof -
    consider "i < ?m div bs" | "i = ?m div bs" "?L = i" | "i = ?m div bs" "?L = i + 1" | "i = ?m div bs + 1" "?L = i"
      using i last_block_cases [of ?m] by (auto split: if_splits) (metis le_Suc_eq le_neq_implies_less)+
    then show ?thesis
    proof cases
      case 1
      then have "bs * (i + 1) \<le> bs * (?m div bs)" by (intro mult_le_mono2) simp
      then have q': "?q < ?m" using q m by linarith
      have "\<not> A" "\<not> B" using 1 last_block_cases [of ?m] by (auto simp: A_def B_def)
      then show ?thesis unfolding tls_block_byte_truth [OF b63] pad using q' raw [OF q'] by (simp add: Let_def)
    next
      case 2
      have cl: "?m mod bs < bs - ls" using 2 last_block_cases [of ?m] by (auto split: if_splits)
      have AB: "A" "B" using 2 by (auto simp: A_def B_def)
      have d: "bs * (i + 1) = bs * i + bs" by simp
      have qm: "?q < ?m \<longleftrightarrow> j < ?m mod bs" "?q = ?m \<longleftrightarrow> j = ?m mod bs" using m' [OF 2(1)] by linarith+
      have ql: "?q < bs * (?L + 1) - ls \<longleftrightarrow> j < bs - ls" "?q - (bs * (?L + 1) - ls) = j - (bs - ls)"
        unfolding 2(2) d using hash_sizes(6) by auto
      show ?thesis unfolding tls_block_byte_truth [OF b63] pad qm ql Let_def
        using AB cl raw [of ?q] qm by auto
    next
      case 3
      have AB: "A" "\<not> B" using 3 by (auto simp: A_def B_def)
      have d: "bs * (i + 1 + 1) = bs * i + bs + bs" by simp
      have qm: "?q < ?m \<longleftrightarrow> j < ?m mod bs" "?q = ?m \<longleftrightarrow> j = ?m mod bs" using m' [OF 3(1)] by linarith+
      have ql: "?q < bs * (?L + 1) - ls" unfolding 3(2) d using j hash_sizes(6) by linarith
      show ?thesis unfolding tls_block_byte_truth [OF b63] pad qm Let_def
        using AB raw [of ?q] qm ql by auto
    next
      case 4
      have AB: "\<not> A" "B" using 4 by (auto simp: A_def B_def)
      have d: "bs * (i + 1) = bs * i + bs" by simp
      have e: "bs * i = bs * (?m div bs) + bs" using 4 by simp
      have qm: "\<not> ?q < ?m" "?q \<noteq> ?m" using m c e by linarith+
      have ql: "?q < bs * (?L + 1) - ls \<longleftrightarrow> j < bs - ls" "?q - (bs * (?L + 1) - ls) = j - (bs - ls)"
        unfolding 4(2) d using hash_sizes(6) by auto
      show ?thesis unfolding tls_block_byte_truth [OF b63] pad ql Let_def
        using AB qm by auto
    qed
  qed
  then show "map (\<lambda>j. tls_block_byte T header data sz (?m mod bs) (length_bytes ?m) (word_of_truth A) (word_of_truth B) (bs * i + j) j) [0..<bs] ! j =
      chunk bs (padded M) i ! j"
    using j P by simp
qed

text \<open>The hash state behind \<open>n\<close> blocks of the padded message.\<close>

definition chain_from :: "hash_state \<Rightarrow> u8 list \<Rightarrow> nat \<Rightarrow> hash_state" where
  "chain_from h d n = foldl (\<lambda>st i. th_transform T st (chunk bs d i)) h [0..<n]"

lemma chain_from_Suc: "chain_from h d (Suc n) = th_transform T (chain_from h d n) (chunk bs d n)"
  by (simp add: chain_from_def)

lemma tls_chain_cons:
  assumes "length b = bs"
  shows "tls_chain T (b @ d) (Suc n) = chain_from (th_transform T (th_state T) b) d n"
proof (induction n)
  case 0
  show ?case using assms by (simp add: tls_chain_def chain_from_def chunk_def)
next
  case (Suc n)
  have "chunk bs (b @ d) (Suc n) = chunk bs d n" using assms by (simp add: chunk_def)
  then show ?case using Suc by (simp add: tls_chain_def chain_from_Suc)
qed

lemma chain_from_prefix:
  assumes "\<And>i. i < n \<Longrightarrow> chunk bs d i = chunk bs e i"
  shows "chain_from h d n = chain_from h e n"
  using assms by (induction n) (simp_all add: chain_from_Suc, simp add: chain_from_def)

lemma tls_first_blocks_eq:
  assumes M: "M = header @ take n data" "length header = 13" and k: "bs * nsb \<le> length M"
  shows "tls_first_blocks T header data (bs * nsb) h = chain_from h (padded M) nsb"
proof (cases nsb)
  case 0
  then show ?thesis by (simp add: tls_first_blocks_def chain_from_def)
next
  case (Suc r)
  have 1: "chunk bs (padded M) i = chunk bs (header @ data) i" if "i < nsb" for i
  proof -
    have "bs * (i + 1) \<le> length M" using k mult_le_mono2 [of "i + 1" nsb bs] that by linarith
    then have l: "bs * i + bs \<le> length M" by simp
    have a: "chunk bs (padded M) i = take bs (drop (bs * i) M)"
      using l unfolding padded_def chunk_def by simp
    have b: "M = take (length M) (header @ data)" unfolding M(1) by (auto simp: min_def)
    have "take bs (drop (bs * i) M) = take bs (drop (bs * i) (header @ data))"
      by (subst b) (use l in \<open>simp only: drop_take take_take min_absorb1 le_diff_conv2 le_add1 add_leD1\<close>)
    then show ?thesis using a by (simp only: chunk_def)
  qed
  have f: "chunk bs (header @ data) 0 = header @ take (bs - 13) data"
    using M(2) hash_sizes(7) by (simp add: chunk_def)
  have g: "chunk bs (header @ data) i = take bs (drop (bs * i - 13) data)" if "0 < i" for i
  proof -
    have "bs * 1 \<le> bs * i" using that by (intro mult_le_mono2) simp
    then have "13 \<le> bs * i" using hash_sizes(7) by linarith
    then show ?thesis using M(2) by (simp add: chunk_def)
  qed
  have u: "[0..<nsb] = 0 # [1..<nsb]" using Suc by (simp add: upt_conv_Cons)
  have "chain_from h (padded M) nsb = chain_from h (header @ data) nsb"
    by (rule chain_from_prefix) (rule 1)
  also have "\<dots> = foldl (\<lambda>st i. th_transform T st (chunk bs (header @ data) i))
      (th_transform T h (header @ take (bs - 13) data)) [1..<nsb]"
    by (simp add: chain_from_def u f)
  also have "\<dots> = foldl (\<lambda>st i. th_transform T st (take bs (drop (bs * i - 13) data)))
      (th_transform T h (header @ take (bs - 13) data)) [1..<nsb]"
    by (rule foldl_cong) (auto simp: g)
  finally show ?thesis using Suc bs_pos by (simp add: tls_first_blocks_def Let_def)
qed

text \<open>The state of the last loop before block \<open>n\<close>: what has been hashed, as long as the end of the message has not been
  passed, and the saved hash, once it has.\<close>

definition last_inv :: "u8 list \<Rightarrow> hash_state \<Rightarrow> nat \<Rightarrow> hash_state \<times> nat \<times> u8 list \<Rightarrow> bool" where
  "last_inv M h n st \<longleftrightarrow>
     (case st of (md_state, k, mac_out) \<Rightarrow>
        k = bs * n \<and> (n \<le> last_block (length M) + 1 \<longrightarrow> md_state = chain_from h (padded M) n) \<and>
        mac_out = (if n \<le> last_block (length M) then replicate 64 0
                   else take (th_md_size T) (th_final_raw T (chain_from h (padded M) (last_block (length M) + 1))) @
                     replicate (64 - th_md_size T) 0))"

lemma mac_out_step:
  fixes raw block :: "u8 list"
  assumes "th_md_size T \<le> length raw" "length raw \<le> bs" "length block = bs"
  shows "map (\<lambda>j. if j < th_md_size T then replicate 64 (0 :: u8) ! j OR (copy_bytes block 0 raw ! j AND - 1) else replicate 64 0 ! j)
      [0..<length (replicate 64 (0 :: u8))] = take (th_md_size T) raw @ replicate (64 - th_md_size T) 0"
  using assms hash_sizes(9) by (intro nth_equalityI) (auto simp: nth_append copy_bytes_splice)

lemma mac_out_keep:
  "map (\<lambda>j. if j < n then xs ! j OR (b j AND 0) else xs ! j) [0..<length xs] = (xs :: u8 list)"
  by (intro nth_equalityI) auto

lemma tls_block_step_inv:
  assumes M: "M = header @ take d data" "length header = 13" "d \<le> sz" "sz \<le> length data" "sz < 2 ^ 20"
    and n: "n < 2 ^ 30"
    and h: "h = th_transform T (th_state T) pad" "length pad = bs"
    and inv: "last_inv M h n st"
  shows "last_inv M h (Suc n) (tls_block_step T header data sz (length M mod bs) (length M div bs) (last_block (length M))
    (length_bytes (length M)) st n)"
proof -
  let ?m = "length M" and ?L = "last_block (length M)" and ?md = "th_md_size T"
  obtain s k mac where st: "st = (s, k, mac)" by (cases st) auto
  have m: "?m < 2 ^ 21" using M by simp
  have L: "?L \<le> ?m + ls" by (simp add: last_block_def)
  have lim: "n < 2 ^ 64" "?m div bs < 2 ^ 64" "?L < 2 ^ 64"
  proof -
    show "n < 2 ^ 64" using n by simp
    have "?m div bs \<le> ?m" by simp
    then have "?m div bs < 2 ^ 21" using m by (rule le_less_trans)
    then show "?m div bs < 2 ^ 64" by (rule less_trans) simp
    have "?L < 2 ^ 22" using L m hash_sizes(6,8) by simp
    then show "?L < 2 ^ 64" by simp
  qed
  let ?block = "map (\<lambda>j. tls_block_byte T header data sz (?m mod bs) (length_bytes ?m) (word_of_truth (n = ?m div bs))
     (word_of_truth (n = ?L)) (bs * n + j) j) [0..<bs]"
  let ?raw = "th_final_raw T (th_transform T s ?block)"
  let ?mac = "map (\<lambda>j. if j < ?md then mac ! j OR (copy_bytes ?block 0 ?raw ! j AND word_of_truth (n = ?L)) else mac ! j) [0..<length mac]"
  have k: "k = bs * n" using inv by (simp add: st last_inv_def)
  have step: "tls_block_step T header data sz (?m mod bs) (?m div bs) ?L (length_bytes ?m) st n =
      (th_transform T s ?block, bs * Suc n, ?mac)"
    unfolding st tls_block_step_def prod.case Let_def eq_8_index [OF lim(1,2)] eq_8_index [OF lim(1,3)] k
    by (simp only: mult_Suc_right add.commute)
  have state: "th_transform T s ?block = chain_from h (padded M) (Suc n)" if "n \<le> ?L"
    using tls_block_is_chunk [OF M(1-4) that] inv that by (simp add: st last_inv_def chain_from_Suc)
  have raw: "?md \<le> length (th_final_raw T (chain_from h (padded M) i))" "length (th_final_raw T (chain_from h (padded M) i)) \<le> bs" for i
    using raw_length [of "pad @ padded M" "Suc i"] tls_chain_cons [OF h(2), of "padded M" i] h(1) by simp_all
  have "?mac = (if Suc n \<le> ?L then replicate 64 0
      else take ?md (th_final_raw T (chain_from h (padded M) (?L + 1))) @ replicate (64 - ?md) 0)"
  proof -
    consider "n < ?L" | "n = ?L" | "?L < n" by linarith
    then show ?thesis
    proof cases
      case 1
      then have "mac = replicate 64 0" using inv by (simp add: st last_inv_def)
      then show ?thesis using 1 mac_out_keep [of ?md mac] by simp
    next
      case 2
      then have mac: "mac = replicate 64 0" using inv by (simp add: st last_inv_def)
      have s: "th_transform T s ?block = chain_from h (padded M) (?L + 1)" using state 2 by simp
      have w: "(word_of_truth (n = ?L) :: u8) = - 1" using 2 by simp
      have "?mac = take ?md ?raw @ replicate (64 - ?md) 0"
        unfolding mac s unfolding w by (rule mac_out_step [OF raw]) simp
      then show ?thesis using 2 s by simp
    next
      case 3
      then show ?thesis using mac_out_keep [of ?md mac] inv by (simp add: st last_inv_def)
    qed
  qed
  then show ?thesis
    unfolding step last_inv_def prod.case using state by simp
qed

lemma tls_loop_inv:
  assumes M: "M = header @ take d data" "length header = 13" "d \<le> sz" "sz \<le> length data" "sz < 2 ^ 20"
    and h: "h = th_transform T (th_state T) pad" "length pad = bs"
    and b: "a \<le> b" "b < 2 ^ 30" and inv: "last_inv M h a st"
  shows "last_inv M h b (foldl (tls_block_step T header data sz (length M mod bs) (length M div bs) (last_block (length M))
    (length_bytes (length M))) st [a..<b])"
proof -
  have "a + r \<le> b \<Longrightarrow> last_inv M h (a + r) (foldl (tls_block_step T header data sz (length M mod bs) (length M div bs)
      (last_block (length M)) (length_bytes (length M))) st [a..<a + r])" for r
  proof (induction r)
    case (Suc r)
    then show ?case using tls_block_step_inv [OF M _ h, of "a + r"] b by simp
  qed (use inv in simp)
  from this [of "b - a"] show ?thesis using b by simp
qed

text \<open>The hash of a padded message, from its inner state.\<close>

lemma md_digest_chain:
  assumes "length pad = bs" "length M < 2 ^ 28"
  shows "md_digest t (pad @ M) =
     take (th_md_size T) (th_final_raw T (chain_from (th_transform T (th_state T) pad) (padded M) (last_block (length M) + 1)))"
proof -
  let ?P = "pad @ padded M"
  have l: "length (pad @ M) < 2 ^ 29" using assms hash_sizes(8) by simp
  have P: "(pad @ M) @ md_tail bs ls (length (pad @ M)) = ?P"
    using assms(1) by (simp add: padded_def)
  have "length ?P div bs = Suc (last_block (length M) + 1)"
    using assms(1) bs_pos by (simp add: length_padded)
  then show ?thesis
    using digest_chain [OF l] unfolding P by (simp only: tls_chain_cons [OF assms(1)])
qed

lemma last_inv_out:
  "last_inv M h n st \<Longrightarrow> \<not> n \<le> last_block (length M) \<Longrightarrow>
     snd (snd st) = take (th_md_size T) (th_final_raw T (chain_from h (padded M) (last_block (length M) + 1))) @
       replicate (64 - th_md_size T) 0"
  by (cases st) (simp add: last_inv_def)

lemma blocks_bounds:
  assumes sz: "sz < 2 ^ 20" "th_md_size T \<le> dpm" "dpm \<le> sz" "sz \<le> dpm + 256"
  defines "num \<equiv> (sz + 12 - th_md_size T + ls + bs) div bs"
  defines "nsb \<equiv> if num > kVarianceBlocks T then num - kVarianceBlocks T else 0"
  shows "bs * nsb \<le> dpm + 13 - th_md_size T" "nsb \<le> last_block (dpm + 13 - th_md_size T)"
    "last_block (dpm + 13 - th_md_size T) < nsb + kVarianceBlocks T + 1" "nsb + kVarianceBlocks T + 1 < 2 ^ 30"
proof -
  let ?md = "th_md_size T" and ?kV = "kVarianceBlocks T" and ?m = "dpm + 13 - th_md_size T"
  let ?v = "(255 + 1 + ?md + bs - 1) div bs"
  have v: "255 + 1 + ?md + bs - 1 < bs * (?v + 1)" using dividend_less_times_div [OF bs_pos, of "255 + 1 + ?md + bs - 1"] by simp
  have kV: "bs * ?kV = bs * (?v + 1)" by (simp only: kVarianceBlocks_def)
  have n: "bs * num \<le> sz + 12 - ?md + ls + bs" by (simp add: num_def)
  show 1: "bs * nsb \<le> ?m"
  proof (cases "num > ?kV")
    case True
    then have "bs * nsb = bs * num - bs * ?kV" by (simp add: nsb_def diff_mult_distrib2)
    moreover have "256 + ?md + bs \<le> bs * ?kV" using v kV bs_pos by (simp add: kVarianceBlocks_def)
    ultimately show ?thesis using n sz hash_sizes(5) by linarith
  qed (simp add: nsb_def)
  have "nsb \<le> ?m div bs" using 1 bs_pos by (simp add: less_eq_div_iff_mult_less_eq mult.commute)
  then show "nsb \<le> last_block ?m" by (auto simp: last_block_cases)
  have "?m + ls \<le> sz + 12 - ?md + ls + bs" using sz bs_pos by simp
  then have "last_block ?m \<le> num" unfolding last_block_def num_def by (rule div_le_mono)
  also have "num \<le> nsb + ?kV" by (simp add: nsb_def)
  finally show "last_block ?m < nsb + ?kV + 1" by simp
  have "nsb \<le> bs * nsb" using bs_pos by simp
  moreover have "bs * nsb < 2 ^ 21" using 1 sz(1,3) by simp
  ultimately have "nsb < 2 ^ 21" by (rule le_less_trans)
  moreover have "?v \<le> 255 + 1 + ?md + bs - 1" by (rule div_le_dividend)
  then have "?kV < 1000" using hash_sizes(8,9) by (simp only: kVarianceBlocks_def)
  ultimately show "nsb + ?kV + 1 < 2 ^ 30" by simp
qed

lemma tls_inner_hash_eq:
  assumes "length header = 13" "length data = sz" "sz < 2 ^ 20" "th_md_size T \<le> dpm" "dpm \<le> sz" "sz \<le> dpm + 256" "length pad = bs"
  shows "take (th_md_size T) (tls_inner_hash T header data dpm sz pad) = md_digest t (pad @ header @ take (dpm - th_md_size T) data)"
proof -
  let ?md = "th_md_size T" and ?kV = "kVarianceBlocks T"
  let ?m = "dpm + 13 - ?md" and ?num = "(sz + 12 - ?md + ls + bs) div bs"
  let ?nsb = "if ?num > ?kV then ?num - ?kV else 0"
  let ?d = "dpm - ?md" and ?h = "th_transform T (th_state T) pad"
  let ?M = "header @ take ?d data"
  have len: "length ?M = ?m" using assms by simp
  have lim: "x < SIZE_LIMIT" if "x < 2 ^ 40" for x using that by (simp add: SIZE_LIMIT_def)
  have s1: "size_sub (size_sub (sz + kHeaderLength) ?md) 1 = sz + 12 - ?md"
    using assms by (simp add: c_arith kHeaderLength_def SIZE_LIMIT_def)
  have s2: "size_sub (size_add (sz + 12 - ?md) (1 + ls + bs)) 1 = sz + 12 - ?md + ls + bs"
    using assms hash_sizes(6,8) by (simp add: c_arith SIZE_LIMIT_def)
  have s3: "size_sub (dpm + kHeaderLength) ?md = ?m" using assms by (simp add: c_arith kHeaderLength_def SIZE_LIMIT_def)
  have s4: "?m AND (bs - 1) = ?m mod bs"
    unfolding hash_sizes(3) by (simp only: mask_eq_exp_minus_1 [symmetric] take_bit_eq_mask [symmetric] take_bit_eq_mod)
  have s5: "drop_bit (th_block_shift T) n = n div bs" for n :: nat
    unfolding hash_sizes(3) by (simp add: drop_bit_eq_div)
  have s6: "size_add ?m ls = ?m + ls" using assms hash_sizes(6,8) by (simp add: c_arith SIZE_LIMIT_def)
  have s7: "size_add (size_mul 8 ?m) (8 * bs) = 8 * (bs + ?m)" using assms hash_sizes(8) by (simp add: c_arith SIZE_LIMIT_def)
  note bb = blocks_bounds [OF assms(3-6)]
  have first: "tls_first_blocks T header data (bs * ?nsb) ?h = chain_from ?h (padded ?M) ?nsb"
    by (rule tls_first_blocks_eq [OF refl assms(1)]) (use bb(1) in \<open>simp only: len\<close>)
  have inv0: "last_inv ?M ?h ?nsb (chain_from ?h (padded ?M) ?nsb, bs * ?nsb, replicate EVP_MAX_MD_SIZE 0)"
    unfolding last_inv_def prod.case len if_P [OF bb(2)] EVP_MAX_MD_SIZE_def by simp
  let ?b = "?nsb + ?kV + 1"
  let ?step = "tls_block_step T header data sz (?m mod bs) (?m div bs) ((?m + ls) div bs) (replicate (ls - 4) 0 @ u32toBE (word_of_nat (8 * (bs + ?m))))"
  let ?s = "foldl ?step (chain_from ?h (padded ?M) ?nsb, bs * ?nsb, replicate EVP_MAX_MD_SIZE 0) [?nsb..<?b]"
  have "last_inv ?M ?h ?b (foldl (tls_block_step T header data sz (length ?M mod bs) (length ?M div bs) (last_block (length ?M))
      (length_bytes (length ?M))) (chain_from ?h (padded ?M) ?nsb, bs * ?nsb, replicate EVP_MAX_MD_SIZE 0) [?nsb..<?b])"
    by (rule tls_loop_inv [OF refl assms(1) _ _ assms(3) refl assms(7) _ bb(4) inv0]) (use assms in auto)
  then have inv: "last_inv ?M ?h ?b ?s" by (simp only: len last_block_def length_bytes_def)
  have "snd (snd ?s) = take ?md (th_final_raw T (chain_from ?h (padded ?M) (last_block ?m + 1))) @ replicate (64 - ?md) 0"
    using last_inv_out [OF inv] bb(3) by (simp only: len not_le)
  moreover have "tls_inner_hash T header data dpm sz pad = snd (snd ?s)"
    unfolding tls_inner_hash_def Let_def s1 s2 s3 s4 s5 s6 s7 first by (rule refl)
  moreover have "?md \<le> length (th_final_raw T (chain_from ?h (padded ?M) (last_block ?m + 1)))"
    using raw_length(1) [of "pad @ padded ?M" "Suc (last_block ?m + 1)"] by (simp only: tls_chain_cons [OF assms(7)])
  moreover have "md_digest t (pad @ ?M) = take ?md (th_final_raw T (chain_from ?h (padded ?M) (last_block ?m + 1)))"
  proof -
    have "length ?M < 2 ^ 28" unfolding len using assms(3,4,5) by simp
    then show ?thesis using md_digest_chain [OF assms(7), of ?M] by (simp only: len)
  qed
  ultimately show ?thesis by simp
qed

end

end
