(* ===== verification/Tls_Cbc_Mac.thy ===== *)
theory Tls_Cbc_Mac
  imports Tls_Cbc_Digest
begin

text \<open>
  The contract of \<open>Tls_Cbc_Digest\<close> on the three hash functions of \<open>EVP_tls_cbc_digest_record\<close>, and its result: the MAC of a
  record is HMAC over the header and the data.
\<close>

subsection \<open>The hash functions, block by block\<close>

lemma each_block_foldl:
  "each_block bs f h d n = foldl (\<lambda>st i. f st (take bs (drop (bs * i) d))) h [0..<n]"
proof (induction n arbitrary: h d)
  case (Suc n)
  have "[0..<Suc n] = 0 # map Suc [0..<n]" by (simp add: upt_conv_Cons map_Suc_upt del: upt_Suc)
  then show ?case by (simp add: Suc foldl_map add.commute del: upt_Suc)
qed simp

lemma u32toBE_le_bytes: "u32toBE n = rev (le_bytes 4 n)"
  by (simp add: u32toBE_def)

lemma u64toBE_le_bytes: "u64toBE n = rev (le_bytes 8 n)"
  by (simp add: u64toBE_def)

lemma small_length_bytes:
  fixes w :: "'a::len word"
  assumes "n < 2 ^ 32" "w = word_of_nat n" "32 < LENGTH('a)"
  shows "rev (le_bytes (k + 4) w) = replicate k 0 @ u32toBE (word_of_nat n)"
proof -
  have un: "unat w = n"
  proof -
    have "n < 2 ^ LENGTH('a)" using assms(1,3) by (meson less_trans one_less_numeral_iff power_strict_increasing_iff semiring_norm(76))
    then show ?thesis unfolding assms(2) by (rule unat_word_of_nat)
  qed
  have z: "drop_bit 32 w = 0"
    using assms(1) un by (simp add: word_unat_eq_iff unat_drop_bit)
  have "le_bytes (4 + k) w = le_bytes 4 w @ le_bytes k (drop_bit 32 w)"
    using le_bytes_add [of 4 k w] by (simp del: le_bytes_numeral)
  also have "le_bytes k (drop_bit 32 w) = replicate k 0"
    unfolding z by (intro nth_equalityI) (simp_all add: nth_le_bytes)
  also have "le_bytes 4 w = le_bytes 4 (word_of_nat n :: u32)"
  proof -
    have "(word_of_nat n :: u32) = ucast w"
      using un assms(1) by (simp add: word_unat_eq_iff unat_ucast_mod unat_of_nat)
    then show ?thesis using le_bytes_ucast [of 4 w, where 'b = 32] assms(3) by (simp del: le_bytes_numeral)
  qed
  finally show ?thesis by (simp add: add.commute u32toBE_le_bytes del: le_bytes_numeral)
qed

lemma md_pad_tail: "length msg < 2 ^ 29 \<Longrightarrow> md_pad True msg = msg @ md_tail 64 8 (length msg)"
  using small_length_bytes [of "8 * length msg" "word_of_nat (8 * length msg) :: u64" 4]
  by (simp add: md_pad_def md_tail_def md_zeros_def md_length_bytes_def Let_def del: le_bytes_numeral)

lemma fips_pad_tail: "length msg < 2 ^ 29 \<Longrightarrow> fips_pad_128 msg = msg @ md_tail 128 16 (length msg)"
  using small_length_bytes [of "8 * length msg" "word_of_nat (8 * length msg) :: 128 word" 12]
  by (simp add: fips_pad_128_def md_tail_def md_zeros_def sha512_length_bytes_def del: le_bytes_numeral)

lemma foldl_md32:
  "foldl (\<lambda>st i. case st of Md32 c \<Rightarrow> Md32 (HASH_TRANSFORM block c (B i)) | _ \<Rightarrow> st) (Md32 c) is =
     Md32 (c\<lparr>c_h := foldl (\<lambda>h i. block h (B i) 1) (c_h c) is\<rparr>)"
  by (induction "is" arbitrary: c) (simp_all add: HASH_TRANSFORM_def)

lemma foldl_sha512:
  "foldl (\<lambda>st i. tls1_sha512_transform st (B i)) (Sha512_State c) is =
     Sha512_State (c\<lparr>s_h := foldl (\<lambda>h i. sha512_block_data_order h (B i) 1) (s_h c) is\<rparr>)"
  by (induction "is" arbitrary: c) (simp_all add: tls1_sha512_transform_def SHA512_Transform_def)

lemma foldl_each_block:
  "foldl (\<lambda>h i. each_block bs f h (chunk bs d i) 1) h [0..<n] = each_block bs f h d n"
  by (simp add: each_block_foldl chunk_def)

text \<open>The three hash functions of the \<open>switch\<close>; for SHA-384, \<open>st\<close> is what the local variable held.\<close>

abbreviation "T_sha1 st \<equiv> the (tls_hash_of st EVP_sha1)"
abbreviation "T_sha256 st \<equiv> the (tls_hash_of st EVP_sha256)"
abbreviation "T_sha384 st \<equiv> the (tls_hash_of st EVP_sha384)"

lemma tls_hash_of_simps:
  "tls_hash_of st EVP_sha1 = Some \<lparr>th_state = Md32 SHA1_Init, th_transform = tls1_sha1_transform, th_final_raw = tls1_sha1_final_raw,
          th_md_size = 20, th_block_size = 64, th_block_shift = 6, th_length_size = 8\<rparr>"
  "tls_hash_of st EVP_sha256 = Some \<lparr>th_state = Md32 SHA256_Init, th_transform = tls1_sha256_transform, th_final_raw = tls1_sha256_final_raw,
          th_md_size = 32, th_block_size = 64, th_block_shift = 6, th_length_size = 8\<rparr>"
  "tls_hash_of st EVP_sha384 = Some \<lparr>th_state = Sha512_State (SHA384_Init (as_sha512_ctx st)), th_transform = tls1_sha512_transform,
          th_final_raw = tls1_sha512_final_raw, th_md_size = 48, th_block_size = 128, th_block_shift = 7, th_length_size = 16\<rparr>"
  by (simp_all add: tls_hash_of_def EVP_MD_type_def method_defs SHA256_DIGEST_LENGTH_def SHA384_DIGEST_LENGTH_def)

lemma sha1_chain: "tls_chain (T_sha1 st) d n = Md32 (SHA1_Init\<lparr>c_h := each_block 64 sha1_one (c_h SHA1_Init) d n\<rparr>)"
  using foldl_md32 [of sha1_block_data_order "chunk 64 d" SHA1_Init "[0..<n]"] foldl_each_block [of 64 sha1_one d "c_h SHA1_Init" n]
  by (simp add: tls_chain_def tls_hash_of_simps tls1_sha1_transform_def SHA1_Transform_def sha1_block_data_order_def HASH_CBLOCK_def cong: hash_state.case_cong)

lemma sha256_chain: "tls_chain (T_sha256 st) d n = Md32 (SHA256_Init\<lparr>c_h := each_block 64 sha256_one (c_h SHA256_Init) d n\<rparr>)"
  using foldl_md32 [of sha256_block_data_order "chunk 64 d" SHA256_Init "[0..<n]"] foldl_each_block [of 64 sha256_one d "c_h SHA256_Init" n]
  by (simp add: tls_chain_def tls_hash_of_simps tls1_sha256_transform_def SHA256_Transform_def sha256_block_data_order_def HASH_CBLOCK_def cong: hash_state.case_cong)

lemma sha384_chain: "tls_chain (T_sha384 st) d n =
   Sha512_State ((SHA384_Init (as_sha512_ctx st))\<lparr>s_h := each_block 128 sha512_one (s_h (SHA384_Init (as_sha512_ctx st))) d n\<rparr>)"
  using foldl_sha512 [of "chunk 128 d" "SHA384_Init (as_sha512_ctx st)" "[0..<n]"] foldl_each_block [of 128 sha512_one d "s_h (SHA384_Init (as_sha512_ctx st))" n]
  by (simp add: tls_chain_def tls_hash_of_simps sha512_block_data_order_def SHA512_CBLOCK_def)

lemma length_to_BE [simp]: "length (u32toBE n) = 4" "length (u64toBE w) = 8"
  by (simp_all add: u32toBE_def u64toBE_def)

lemma concat_upt_take:
  assumes "\<And>i. length (f i) = k" "m \<le> n"
  shows "take (k * m) (concat (map f [0..<n])) = concat (map f [0..<m])"
proof -
  have "[0..<n] = [0..<m] @ [m..<n]" using assms(2) upt_add_eq_append [of 0 m "n - m"] by simp
  moreover have "length (concat (map f [0..<m])) = k * m"
    using assms(1) by (simp add: length_concat o_def sum_list_triv mult.commute)
  ultimately show ?thesis by simp
qed

lemma length_final_raw [simp]: "length (tls1_sha1_final_raw (Md32 c)) = 20" "length (tls1_sha256_final_raw (Md32 c)) = 32"
    "length (tls1_sha512_final_raw (Sha512_State s)) = 64"
  by (simp_all add: tls1_sha1_final_raw_def tls1_sha256_final_raw_def tls1_sha512_final_raw_def length_concat o_def sum_list_triv)

lemma final_raw_concat:
  "tls1_sha1_final_raw (Md32 c) = concat (map (\<lambda>i. u32toBE (c_h c ! i)) [0..<5])"
  "tls1_sha256_final_raw (Md32 c) = concat (map (\<lambda>i. u32toBE (c_h c ! i)) [0..<8])"
  "tls1_sha512_final_raw (Sha512_State s) = concat (map (\<lambda>i. u64toBE (s_h s ! i)) [0..<8])"
  by (simp_all add: tls1_sha1_final_raw_def tls1_sha256_final_raw_def tls1_sha512_final_raw_def upt_rec) (simp add: eval_nat_numeral)

lemma sha1_digest_chain:
  assumes "length msg < 2 ^ 29"
  defines "p \<equiv> msg @ md_tail 64 8 (length msg)"
  shows "md_digest EVP_sha1 msg = take 20 (tls1_sha1_final_raw (tls_chain (T_sha1 st) p (length p div 64)))"
proof -
  let ?H = "each_block 64 sha1_one iv160 p (length p div 64)"
  have "md_hash 64 fips_sha1_compress iv160 p = ?H"
    unfolding md_hash_def by (rule each_block_cong [symmetric]) (simp_all only: sha1_one_fips times_div_less_eq_dividend)
  then have "md_digest EVP_sha1 msg = concat (map (\<lambda>i. u32toBE (?H ! i)) [0..<5])"
    unfolding md_digest.simps fips_sha1_def md_pad_tail [OF assms(1)] p_def u32toBE_le_bytes by simp
  also have "\<dots> = tls1_sha1_final_raw (tls_chain (T_sha1 st) p (length p div 64))"
    unfolding sha1_chain final_raw_concat by (simp add: SHA1_Init_def hash_init_def)
  also have "\<dots> = take 20 \<dots>"
    unfolding sha1_chain by simp
  finally show ?thesis .
qed

lemma sha256_digest_chain:
  assumes "length msg < 2 ^ 29"
  defines "p \<equiv> msg @ md_tail 64 8 (length msg)"
  shows "md_digest EVP_sha256 msg = take 32 (tls1_sha256_final_raw (tls_chain (T_sha256 st) p (length p div 64)))"
proof -
  let ?H = "each_block 64 sha256_one iv256 p (length p div 64)"
  have "md_hash 64 fips_sha256_compress iv256 p = ?H"
    unfolding md_hash_def by (rule each_block_cong [symmetric]) (simp_all only: sha256_one_fips times_div_less_eq_dividend)
  then have "md_digest EVP_sha256 msg = concat (map (\<lambda>i. u32toBE (?H ! i)) [0..<8])"
    unfolding md_digest.simps fips_sha256_def md_pad_tail [OF assms(1)] p_def u32toBE_le_bytes by simp
  also have "\<dots> = tls1_sha256_final_raw (tls_chain (T_sha256 st) p (length p div 64))"
    unfolding sha256_chain final_raw_concat by (simp add: SHA256_Init_def hash_init_def)
  also have "\<dots> = take 32 \<dots>"
    unfolding sha256_chain by simp
  finally show ?thesis .
qed

lemma sha384_digest_chain:
  assumes "length msg < 2 ^ 29"
  defines "p \<equiv> msg @ md_tail 128 16 (length msg)"
  shows "md_digest EVP_sha384 msg = take 48 (tls1_sha512_final_raw (tls_chain (T_sha384 st) p (length p div 128)))"
proof -
  let ?H = "each_block 128 sha512_one iv384 p (length p div 128)"
  have "md_hash 128 fips_sha512_compress iv384 p = ?H"
    unfolding md_hash_def by (rule each_block_cong [symmetric]) (simp_all only: sha512_one_fips times_div_less_eq_dividend)
  then have "md_digest EVP_sha384 msg = concat (map (\<lambda>i. u64toBE (?H ! i)) [0..<6])"
    unfolding md_digest.simps fips_sha512_def fips_pad_tail [OF assms(1)] p_def u64toBE_le_bytes by simp
  also have "\<dots> = take (8 * 6) (concat (map (\<lambda>i. u64toBE (?H ! i)) [0..<8]))"
    by (rule concat_upt_take [symmetric]) simp_all
  also have "\<dots> = take 48 (tls1_sha512_final_raw (tls_chain (T_sha384 st) p (length p div 128)))"
    unfolding sha384_chain final_raw_concat by (simp add: SHA384_Init_def)
  finally show ?thesis .
qed

lemmas tls_sizes = tls_hash_of_simps EVP_MD_size_def EVP_MD_block_size_def method_defs

interpretation tls_sha1: tls_digest "T_sha1 st" EVP_sha1 for st
proof (unfold_locales, goal_cases)
  case (11 d n) show ?case unfolding sha1_chain by (simp add: tls_hash_of_simps)
next
  case (12 d n) show ?case unfolding sha1_chain by (simp add: tls_hash_of_simps)
next
  case (13 msg) then show ?case using sha1_digest_chain [of msg st] by (simp add: tls_hash_of_simps)
qed (simp_all add: tls_sizes)

interpretation tls_sha256: tls_digest "T_sha256 st" EVP_sha256 for st
proof (unfold_locales, goal_cases)
  case (11 d n) show ?case unfolding sha256_chain by (simp add: tls_hash_of_simps)
next
  case (12 d n) show ?case unfolding sha256_chain by (simp add: tls_hash_of_simps)
next
  case (13 msg) then show ?case using sha256_digest_chain [of msg st] by (simp add: tls_hash_of_simps)
qed (simp_all add: tls_sizes)

interpretation tls_sha384: tls_digest "T_sha384 st" EVP_sha384 for st
proof (unfold_locales, goal_cases)
  case (11 d n) show ?case unfolding sha384_chain by (simp add: tls_hash_of_simps)
next
  case (12 d n) show ?case unfolding sha384_chain by (simp add: tls_hash_of_simps)
next
  case (13 msg) then show ?case using sha384_digest_chain [of msg st] by (simp add: tls_hash_of_simps)
qed (simp_all add: tls_sizes)

subsection \<open>The record MAC is HMAC\<close>

lemma pad_36_6A: "map ((XOR) 0x6A) (ipad t key) = opad t key"
proof -
  have "(0x6A :: u8) XOR (0x36 XOR b) = 0x5C XOR b" for b
    unfolding xor.assoc [symmetric] by simp
  then show ?thesis by (simp add: ipad_def opad_def)
qed

lemma hmac_pad_eq:
  assumes "length key \<le> EVP_MD_block_size t"
  shows "map ((XOR) 0x36) (take (EVP_MD_block_size t) (copy_bytes (replicate MAX_HASH_BLOCK_SIZE 0) 0 key)) = ipad t key"
proof -
  have b: "EVP_MD_block_size t \<le> 128" using block_size_bound(1) [of t] by (simp add: EVP_MAX_MD_BLOCK_SIZE_def)
  then have "take (EVP_MD_block_size t) (copy_bytes (replicate MAX_HASH_BLOCK_SIZE 0) 0 key) = hmac_key t key"
    using assms by (simp add: copy_bytes_splice MAX_HASH_BLOCK_SIZE_def hmac_key_def min_def)
  then show ?thesis by (simp add: ipad_def)
qed

text \<open>The outer hash, over the contexts of \<open>Evp_Digest\<close>.\<close>

lemma outer_digest:
  assumes "malloc_ok malloc" "length a < SIZE_LIMIT" "length b < SIZE_LIMIT"
  shows "(do {
     (ok, ctx) \<leftarrow> EVP_DigestInit_ex malloc EVP_MD_CTX_init (Some t);
     if \<not> ok then Some None
     else do {
       ctx \<leftarrow> EVP_DigestUpdate ctx a;
       ctx \<leftarrow> EVP_DigestUpdate ctx b;
       (out, n, ctx) \<leftarrow> EVP_DigestFinal ctx;
       Some (Some (out, n)) } }) =
     Some (if md_alloc_fails malloc t then None else Some (md_digest t (a @ b), EVP_MD_size t))"
proof -
  have av: "md_available malloc EVP_MD_CTX_init t \<longleftrightarrow> \<not> md_alloc_fails malloc t"
    by (simp add: md_available_def EVP_MD_CTX_init_def)
  obtain c where c: "EVP_DigestInit_ex malloc EVP_MD_CTX_init (Some t) = Some (\<not> md_alloc_fails malloc t, c)"
    "if \<not> md_alloc_fails malloc t then ctx_absorbed t c [] else c = EVP_MD_CTX_init"
    using EVP_DigestInit_ex_rep [OF ctx_ok_init assms(1), of t] unfolding av by blast
  show ?thesis
  proof (cases "md_alloc_fails malloc t")
    case False
    obtain d where d: "EVP_DigestUpdate c a = Some d" "ctx_absorbed t d ([] @ a)"
      using EVP_DigestUpdate_rep [of t c "[]" a] c(2) False assms(2) by auto
    obtain e where e: "EVP_DigestUpdate d b = Some e" "ctx_absorbed t e (([] @ a) @ b)"
      using EVP_DigestUpdate_rep [OF d(2) assms(3)] by blast
    obtain f where "EVP_DigestFinal_ex e = Some (md_digest t (([] @ a) @ b), EVP_MD_size t, f)"
      using EVP_DigestFinal_ex_rep [OF e(2)] by blast
    then show ?thesis using c(1) d(1) e(1) False by (simp add: EVP_DigestFinal_def)
  qed (use c in simp)
qed

context tls_digest begin

lemma digest_record_eq:
  assumes T: "tls_hash_of st t = Some T" and "malloc_ok malloc" "length header = 13" "length data = sz" "sz < 2 ^ 20"
    "EVP_MD_size t \<le> dpm" "dpm \<le> sz" "sz \<le> dpm + 256" "length key \<le> EVP_MD_block_size t"
  shows "EVP_tls_cbc_digest_record malloc st t header data dpm sz key =
     Some (if md_alloc_fails malloc t then None
           else Some (rfc2104 t key (header @ take (dpm - EVP_MD_size t) data), EVP_MD_size t))"
proof -
  let ?h = "tls_inner_hash T header data dpm sz (ipad t key)"
  have c: "c_assert (sz < 1024 * 1024) = Some ()" "c_assert (th_length_size T \<le> MAX_HASH_BIT_COUNT_BYTES) = Some ()"
    "c_assert (th_block_size T \<le> MAX_HASH_BLOCK_SIZE) = Some ()" "c_assert (th_block_size T = push_bit (th_block_shift T) 1) = Some ()"
    "c_assert (th_md_size T \<le> EVP_MAX_MD_SIZE) = Some ()" "c_assert (length key \<le> MAX_HASH_BLOCK_SIZE) = Some ()"
    using T assms(5,9) hash_sizes(2,8) by (auto simp: tls_hash_of_def MAX_HASH_BIT_COUNT_BYTES_def MAX_HASH_BLOCK_SIZE_def EVP_MAX_MD_SIZE_def
        SHA256_DIGEST_LENGTH_def SHA384_DIGEST_LENGTH_def split: if_splits)
  have inner: "take (th_md_size T) ?h = md_digest t (ipad t key @ header @ take (dpm - EVP_MD_size t) data)"
    using tls_inner_hash_eq [of header data sz dpm "ipad t key"] assms hash_sizes(1,2) by simp
  have pad: "map ((XOR) 0x36) (take (th_block_size T) (copy_bytes (replicate MAX_HASH_BLOCK_SIZE 0) 0 key)) = ipad t key"
    using hmac_pad_eq [OF assms(9)] by (simp only: hash_sizes(2))
  have l: "length (opad t key) < SIZE_LIMIT" "length (take (th_md_size T) ?h) < SIZE_LIMIT"
    using block_size_bound(2) [of t] dg.length_H_bound(2) [of t] by (simp_all add: inner)
  show ?thesis
    using outer_digest [OF assms(2) l, of t]
    unfolding EVP_tls_cbc_digest_record_def T Let_def c Option.bind.bind_lunit pad pad_36_6A inner rfc2104_def
    by simp
qed

end

lemma supported_digests: "EVP_tls_cbc_record_digest_supported t \<longleftrightarrow> t \<in> {EVP_sha1, EVP_sha256, EVP_sha384}"
  by (cases t) (simp_all add: EVP_tls_cbc_record_digest_supported_def EVP_MD_type_def method_defs)

text \<open>C5: the constant-time MAC of a CBC record is HMAC. For every supported digest, every key of at most a block and every
  record whose padding has at most 256 bytes, \<open>EVP_tls_cbc_digest_record\<close> returns the HMAC (RFC 2104) of the header and
  the data in front of the MAC, although the blocks it hashes and the order in which it hashes them depend only on the
  length of the whole record. It fails only when the allocation of the outer context does.\<close>

theorem tls_digest_record_correct:
  assumes "EVP_tls_cbc_record_digest_supported t" "malloc_ok malloc" "length header = 13" "length data = sz" "sz < 2 ^ 20"
    "EVP_MD_size t \<le> dpm" "dpm \<le> sz" "sz \<le> dpm + 256" "length key \<le> EVP_MD_block_size t"
  shows "EVP_tls_cbc_digest_record malloc st t header data dpm sz key =
     Some (if md_alloc_fails malloc t then None
           else Some (rfc2104 t key (header @ take (dpm - EVP_MD_size t) data), EVP_MD_size t))"
proof -
  have S: "tls_hash_of st u = Some (the (tls_hash_of st u))" if "u \<in> {EVP_sha1, EVP_sha256, EVP_sha384}" for u
    using that by (auto simp: tls_hash_of_simps)
  from assms(1) consider "t = EVP_sha1" | "t = EVP_sha256" | "t = EVP_sha384" by (auto simp: supported_digests)
  then show ?thesis
  proof cases
    case 1
    show ?thesis using tls_sha1.digest_record_eq [OF S] assms(2-) unfolding 1 by blast
  next
    case 2
    show ?thesis using tls_sha256.digest_record_eq [OF S] assms(2-) unfolding 2 by blast
  next
    case 3
    show ?thesis using tls_sha384.digest_record_eq [OF S] assms(2-) unfolding 3 by blast
  qed
qed

theorem tls_digest_record_correct_witness:
  "EVP_tls_cbc_digest_record (\<lambda>n. Some (replicate n 0)) (Hash_Raw []) EVP_sha1 (replicate 13 1) (replicate 300 2) 120 300 [3, 4, 5] =
     Some (Some (rfc2104 EVP_sha1 [3, 4, 5] (replicate 13 1 @ replicate 100 2), 20))"
proof -
  have "malloc_ok (\<lambda>n. Some (replicate n 0))" "\<not> md_alloc_fails (\<lambda>n. Some (replicate n 0)) EVP_sha1"
    "EVP_MD_size EVP_sha1 = 20" "EVP_MD_block_size EVP_sha1 = 64"
    by (simp_all add: malloc_ok_def md_alloc_fails_def OPENSSL_malloc_def EVP_MD_size_def EVP_MD_block_size_def method_defs)
  then show ?thesis
    using tls_digest_record_correct [of EVP_sha1 "\<lambda>n. Some (replicate n 0)" "replicate 13 1" "replicate 300 2" 300 120 "[3, 4, 5]" "Hash_Raw []"]
    by (simp add: supported_digests)
qed

end
