(* ===== verification/Bn_Words.thy ===== *)
theory Bn_Words
  imports Const_Time
begin

text \<open>
  The word arrays of the big-number code: \<open>fipsmodule/bn/generic.c\<close>, with the comparison of \<open>cmp.c\<close>, the selection
  of \<open>bn.c\<close> and the reductions of \<open>div.c\<close>. An array of \<open>n\<close> words is a list; \<open>bn_val\<close> is the number it stands for, least
  significant word first. The loops of the source are unrolled four times; here a turn handles one word.
\<close>

subsection \<open>Numbers\<close>

type_synonym limb = u64
type_synonym dlimb = "128 word"

abbreviation "B64 \<equiv> (18446744073709551616 :: nat)"

primrec bn_val :: "limb list \<Rightarrow> nat" where
  "bn_val [] = 0"
| "bn_val (w # ws) = unat w + B64 * bn_val ws"

definition Lw :: "dlimb \<Rightarrow> limb" where "Lw t = ucast t"
definition Hw :: "dlimb \<Rightarrow> limb" where "Hw t = ucast (drop_bit 64 t)"

subsection \<open>Operations\<close>

text \<open>The macros \<open>mul_add\<close>, \<open>mul\<close> and \<open>sqr\<close>: the low word and the carry.\<close>

definition mul_add :: "limb \<Rightarrow> limb \<Rightarrow> limb \<Rightarrow> limb \<Rightarrow> limb \<times> limb" where
  "mul_add r a w c = (let t = ucast w * ucast a + ucast r + ucast c in (Lw t, Hw t))"

definition mul_word :: "limb \<Rightarrow> limb \<Rightarrow> limb \<Rightarrow> limb \<times> limb" where
  "mul_word a w c = (let t = ucast w * ucast a + ucast c in (Lw t, Hw t))"

definition sqr_word :: "limb \<Rightarrow> limb \<times> limb" where
  "sqr_word a = (let t = ucast a * ucast a in (Lw t, Hw t))"

fun mul_add_loop :: "limb list \<Rightarrow> limb list \<Rightarrow> limb \<Rightarrow> limb \<Rightarrow> limb list \<times> limb" where
  "mul_add_loop (r # rp) (a # ap) w c1 =
     (case mul_add r a w c1 of (r, c1) \<Rightarrow> case mul_add_loop rp ap w c1 of (rp, c) \<Rightarrow> (r # rp, c))"
| "mul_add_loop rp ap w c1 = (rp, c1)"

text \<open>The arrays have \<open>num\<close> words; the results are the new \<open>rp\<close> and the carry.\<close>

definition bn_mul_add_words :: "limb list \<Rightarrow> limb list \<Rightarrow> limb \<Rightarrow> limb list \<times> limb" where
  "bn_mul_add_words rp ap w = mul_add_loop rp ap w 0"

fun mul_loop :: "limb list \<Rightarrow> limb \<Rightarrow> limb \<Rightarrow> limb list \<times> limb" where
  "mul_loop (a # ap) w c1 =
     (case mul_word a w c1 of (r, c1) \<Rightarrow> case mul_loop ap w c1 of (rp, c) \<Rightarrow> (r # rp, c))"
| "mul_loop [] w c1 = ([], c1)"

definition bn_mul_words :: "limb list \<Rightarrow> limb \<Rightarrow> limb list \<times> limb" where
  "bn_mul_words ap w = mul_loop ap w 0"

fun bn_sqr_words :: "limb list \<Rightarrow> limb list" where
  "bn_sqr_words (a # ap) = (case sqr_word a of (r0, r1) \<Rightarrow> r0 # r1 # bn_sqr_words ap)"
| "bn_sqr_words [] = []"

fun add_loop :: "dlimb \<Rightarrow> limb list \<Rightarrow> limb list \<Rightarrow> limb list \<times> limb" where
  "add_loop ll (a # ap) (b # bp) =
     (let ll = ll + (ucast a + ucast b) in
      case add_loop (drop_bit 64 ll) ap bp of (rp, c) \<Rightarrow> (ucast ll # rp, c))"
| "add_loop ll ap bp = ([], ucast ll)"

definition bn_add_words :: "limb list \<Rightarrow> limb list \<Rightarrow> limb list \<times> limb" where
  "bn_add_words a b = add_loop 0 a b"

fun sub_loop :: "limb \<Rightarrow> limb list \<Rightarrow> limb list \<Rightarrow> limb list \<times> limb" where
  "sub_loop c (t1 # ap) (t2 # bp) =
     (let r = t1 - t2 - c;
          c = (if t1 \<noteq> t2 then if t1 < t2 then 1 else 0 else c)
      in case sub_loop c ap bp of (rp, c) \<Rightarrow> (r # rp, c))"
| "sub_loop c ap bp = ([], c)"

definition bn_sub_words :: "limb list \<Rightarrow> limb list \<Rightarrow> limb list \<times> limb" where
  "bn_sub_words a b = sub_loop 0 a b"

definition bn_select_words :: "limb \<Rightarrow> limb list \<Rightarrow> limb list \<Rightarrow> limb list" where
  "bn_select_words msk a b = map2 (constant_time_select_w msk) a b"

text \<open>\<open>cmp.c\<close>: the common words, then the words that only one number has.\<close>

definition cmp_words_step :: "limb list \<Rightarrow> limb list \<Rightarrow> u32 \<Rightarrow> nat \<Rightarrow> u32" where
  "cmp_words_step a b ret i =
     (let eq = constant_time_eq_w (a ! i) (b ! i);
          lt = constant_time_lt_w (a ! i) (b ! i)
      in constant_time_select_int eq ret (constant_time_select_int lt (- 1) 1))"

definition bn_cmp_words_consttime :: "limb list \<Rightarrow> limb list \<Rightarrow> u32" where
  "bn_cmp_words_consttime a b =
     (let a_len = length a; b_len = length b; n = (if a_len < b_len then a_len else b_len);
          ret = foldl (cmp_words_step a b) 0 [0..<n]
      in if a_len < b_len then
           let msk = foldl (\<lambda>m i. m OR b ! i) 0 [a_len..<b_len]
           in constant_time_select_int (constant_time_is_zero_w msk) ret (- 1)
         else if b_len < a_len then
           let msk = foldl (\<lambda>m i. m OR a ! i) 0 [b_len..<a_len]
           in constant_time_select_int (constant_time_is_zero_w msk) ret 1
         else ret)"

definition bn_less_than_words :: "limb list \<Rightarrow> limb list \<Rightarrow> bool" where
  "bn_less_than_words a b \<longleftrightarrow> sint (bn_cmp_words_consttime a b) < 0"

text \<open>\<open>div.c\<close>: the reductions of a number below twice the modulus.\<close>

definition bn_reduce_once :: "limb list \<Rightarrow> limb \<Rightarrow> limb list \<Rightarrow> (limb list \<times> limb) option" where
  "bn_reduce_once a carry m =
     (case bn_sub_words a m of (r, borrow) \<Rightarrow>
        let carry = carry - borrow in
        if carry = 0 \<or> carry = - 1 then Some (bn_select_words carry a r, carry) else None)"

definition bn_reduce_once_in_place :: "limb list \<Rightarrow> limb \<Rightarrow> limb list \<Rightarrow> (limb list \<times> limb) option" where
  "bn_reduce_once_in_place r carry m =
     (case bn_sub_words r m of (tmp, borrow) \<Rightarrow>
        let carry = carry - borrow in
        if carry = 0 \<or> carry = - 1 then Some (bn_select_words carry r tmp, carry) else None)"

definition bn_mod_sub_words :: "limb list \<Rightarrow> limb list \<Rightarrow> limb list \<Rightarrow> limb list" where
  "bn_mod_sub_words a b m =
     (case bn_sub_words a b of (r, borrow) \<Rightarrow>
        case bn_add_words r m of (tmp, _) \<Rightarrow> bn_select_words (0 - borrow) tmp r)"

definition bn_mod_add_words :: "limb list \<Rightarrow> limb list \<Rightarrow> limb list \<Rightarrow> limb list option" where
  "bn_mod_add_words a b m =
     (case bn_add_words a b of (r, carry) \<Rightarrow> map_option fst (bn_reduce_once_in_place r carry m))"

subsection \<open>Values\<close>

lemma bn_val_append: "bn_val (xs @ ys) = bn_val xs + B64 ^ length xs * bn_val ys"
  by (induction xs) (simp_all add: algebra_simps)

lemma unat_limb: "unat (w :: limb) < B64"
  using unsigned_less [of w, where ?'a = nat] by simp

lemma bn_val_bound: "bn_val xs < B64 ^ length xs"
proof (induction xs)
  case (Cons x xs)
  have "bn_val xs + 1 \<le> B64 ^ length xs" using Cons by simp
  then have "B64 * (bn_val xs + 1) \<le> B64 * B64 ^ length xs" by (rule mult_le_mono2)
  then show ?case using unat_limb [of x] by (simp add: algebra_simps)
qed simp

lemma bn_val_replicate_0 [simp]: "bn_val (replicate n 0) = 0"
  by (induction n) simp_all

lemma bn_val_0_iff: "bn_val xs = 0 \<longleftrightarrow> (\<forall>x \<in> set xs. x = 0)"
  by (induction xs) (auto simp: unat_eq_0)

lemma bn_val_inject: "length xs = length ys \<Longrightarrow> bn_val xs = bn_val ys \<longleftrightarrow> xs = ys"
proof (induction xs ys rule: list_induct2)
  case (Cons x xs y ys)
  have "unat x + B64 * bn_val xs = unat y + B64 * bn_val ys \<longleftrightarrow> unat x = unat y \<and> bn_val xs = bn_val ys"
  proof
    assume a: "unat x + B64 * bn_val xs = unat y + B64 * bn_val ys"
    have "unat x = (unat x + B64 * bn_val xs) mod B64" "unat y = (unat y + B64 * bn_val ys) mod B64"
      using unat_limb [of x] unat_limb [of y] by simp_all
    then show "unat x = unat y \<and> bn_val xs = bn_val ys" using a by simp
  qed simp
  then show ?case using Cons by (simp add: word_unat_eq_iff)
qed simp

lemma double_words: "unat (t :: dlimb) = unat (ucast t :: limb) + B64 * unat (ucast (drop_bit 64 t) :: limb)"
proof -
  have b: "unat t < 2 ^ 128" using unsigned_less [of t, where ?'a = nat] by simp
  have l: "unat (ucast t :: limb) = unat t mod B64" by (simp add: unat_ucast_mod)
  have "unat (drop_bit 64 t) = unat t div B64" by (simp add: unat_drop_bit)
  moreover have "unat t div B64 < B64" using b by (simp add: div_less_iff_less_mult)
  ultimately have "unat (ucast (drop_bit 64 t) :: limb) = unat t div B64" by (simp add: unat_ucast_mod)
  then show ?thesis using l by simp
qed

lemma unat_double [simp]: "unat (ucast (w :: limb) :: dlimb) = unat w"
  by (simp add: unat_ucast_up)

lemma Lw_Hw: "unat (Lw t) + B64 * unat (Hw t) = unat t"
  by (simp only: Lw_def Hw_def double_words [of t])

lemma unat_dadd: "unat x + unat y < 2 ^ 128 \<Longrightarrow> unat (x + y) = unat x + unat y" for x y :: dlimb
  by (simp add: unat_word_ariths)

lemma unat_dmul: "unat x * unat y < 2 ^ 128 \<Longrightarrow> unat (x * y) = unat x * unat y" for x y :: dlimb
  by (simp add: unat_word_ariths)

lemma product_bound: "unat x * unat y \<le> (B64 - 1) * (B64 - 1)" for x y :: limb
  using unat_limb [of x] unat_limb [of y] by (intro mult_le_mono) simp_all

lemma mul_add_val:
  assumes "mul_add r a w c = (l, h)"
  shows "unat l + B64 * unat h = unat r + unat a * unat w + unat c"
proof -
  let ?t = "ucast w * ucast a + ucast r + ucast c :: dlimb"
  have p: "unat w * unat a \<le> (B64 - 1) * (B64 - 1)" by (rule product_bound)
  have b: "unat r < B64" "unat c < B64" by (rule unat_limb)+
  have 1: "unat (ucast w * ucast a :: dlimb) = unat w * unat a" using p by (subst unat_dmul) simp_all
  have 2: "unat (ucast w * ucast a + ucast r :: dlimb) = unat w * unat a + unat r"
    using p b by (subst unat_dadd) (simp_all add: 1)
  have "unat ?t = unat w * unat a + unat r + unat c"
    using p b by (subst unat_dadd) (simp_all add: 2)
  then show ?thesis using Lw_Hw [of ?t] assms by (auto simp: mul_add_def Let_def mult.commute)
qed

lemma mul_word_val: "mul_word a w c = (l, h) \<Longrightarrow> unat l + B64 * unat h = unat a * unat w + unat c"
  using mul_add_val [of 0 a w c l h] by (simp add: mul_add_def mul_word_def)

lemma sqr_word_val: "sqr_word a = (l, h) \<Longrightarrow> unat l + B64 * unat h = unat a * unat a"
  using mul_add_val [of 0 a a 0 l h] by (simp add: mul_add_def sqr_word_def)

lemma mul_add_loop_val:
  "length rp = length ap \<Longrightarrow> mul_add_loop rp ap w c1 = (rp', c) \<Longrightarrow>
     length rp' = length rp \<and> bn_val rp' + B64 ^ length rp * unat c = bn_val rp + bn_val ap * unat w + unat c1"
proof (induction rp ap arbitrary: c1 rp' c rule: list_induct2)
  case (Cons r rp a ap)
  obtain l h where m: "mul_add r a w c1 = (l, h)" by (cases "mul_add r a w c1")
  obtain rs where rs: "mul_add_loop rp ap w h = (rs, c)" "rp' = l # rs"
    using Cons.prems m by (auto split: prod.splits)
  have "B64 * (bn_val rs + B64 ^ length rp * unat c) = B64 * (bn_val rp + bn_val ap * unat w + unat h)"
    using Cons.IH [OF rs(1)] by simp
  then show ?case using Cons.IH [OF rs(1)] mul_add_val [OF m] rs(2) by (simp add: algebra_simps)
qed simp

lemma bn_mul_add_words_val:
  "length rp = length ap \<Longrightarrow> bn_mul_add_words rp ap w = (rp', c) \<Longrightarrow>
     length rp' = length rp \<and> bn_val rp' + B64 ^ length rp * unat c = bn_val rp + bn_val ap * unat w"
  using mul_add_loop_val [of rp ap w 0 rp' c] by (simp add: bn_mul_add_words_def)

lemma mul_loop_add: "mul_loop ap w c1 = mul_add_loop (replicate (length ap) 0) ap w c1"
  by (induction ap arbitrary: c1) (simp_all add: mul_add_def mul_word_def)

lemma bn_mul_words_val:
  "bn_mul_words ap w = (rp, c) \<Longrightarrow> length rp = length ap \<and> bn_val rp + B64 ^ length ap * unat c = bn_val ap * unat w"
  using mul_add_loop_val [of "replicate (length ap) 0" ap w 0 rp c] by (simp add: bn_mul_words_def mul_loop_add)

lemma add_loop_val:
  "length a = length b \<Longrightarrow> unat ll \<le> 1 \<Longrightarrow> add_loop ll a b = (r, c) \<Longrightarrow>
     length r = length a \<and> bn_val r + B64 ^ length a * unat c = bn_val a + bn_val b + unat ll \<and> unat c \<le> 1"
proof (induction a b arbitrary: ll r c rule: list_induct2)
  case Nil
  have "unat (ucast ll :: limb) = unat ll" using Nil(1) by (simp add: unat_ucast_mod)
  then show ?case using Nil by auto
next
  case (Cons x a y b)
  let ?t = "ll + (ucast x + ucast y)"
  have b: "unat x < B64" "unat y < B64" by (rule unat_limb)+
  have 1: "unat (ucast x + ucast y :: dlimb) = unat x + unat y" using b by (subst unat_dadd) simp_all
  have t: "unat ?t = unat ll + unat x + unat y" using b Cons.prems(1) by (subst unat_dadd) (simp_all add: 1)
  have h: "unat (drop_bit 64 ?t) = unat (ucast (drop_bit 64 ?t) :: limb)"
    using b Cons.prems(1) t by (simp add: unat_ucast_mod unat_drop_bit del: unat_plus_if')
  have "unat (drop_bit 64 ?t) \<le> 1" using b Cons.prems(1) by (simp add: unat_drop_bit t del: unat_plus_if')
  moreover obtain rs where rs: "add_loop (drop_bit 64 ?t) a b = (rs, c)" "r = ucast ?t # rs"
    using Cons.prems(2) by (auto simp: Let_def split: prod.splits)
  ultimately have IH: "length rs = length a" "bn_val rs + B64 ^ length a * unat c = bn_val a + bn_val b + unat (drop_bit 64 ?t)"
    "unat c \<le> 1" using Cons.IH by blast+
  have "B64 * (bn_val rs + B64 ^ length a * unat c) = B64 * (bn_val a + bn_val b + unat (drop_bit 64 ?t))"
    using IH(2) by simp
  moreover have "unat (ucast ?t :: limb) + B64 * unat (drop_bit 64 ?t) = unat ll + unat x + unat y"
    using double_words [of ?t] t h by simp
  ultimately show ?case using IH(1,3) rs(2) by (simp add: algebra_simps)
qed

lemma bn_add_words_val:
  "length a = length b \<Longrightarrow> bn_add_words a b = (r, c) \<Longrightarrow>
     length r = length a \<and> bn_val r + B64 ^ length a * unat c = bn_val a + bn_val b \<and> unat c \<le> 1"
  using add_loop_val [of a b 0 r c] by (simp add: bn_add_words_def)

lemma sub_word_val:
  fixes x y c :: limb
  assumes "unat c \<le> 1"
  shows "unat (x - y - c) + unat y + unat c = unat x + B64 * (if x \<noteq> y then if x < y then 1 else 0 else unat c)"
proof -
  have b: "unat x < B64" "unat y < B64" by (rule unat_limb)+
  have u: "unat (x - y) = (if unat y \<le> unat x then unat x - unat y else B64 + unat x - unat y)"
    using b by (auto simp: unat_sub_if' )
  show ?thesis
  proof (cases "x = y")
    case True
    have "unat c = 0 \<or> unat c = 1" using assms by linarith
    then have "c = 0 \<or> c = 1" by (simp add: word_unat_eq_iff)
    then show ?thesis using True by (auto simp: unsigned_minus_1_eq_mask mask_eq_exp_minus_1)
  next
    case False
    then have ne: "unat x \<noteq> unat y" by (simp add: word_unat_eq_iff)
    have lt: "x < y \<longleftrightarrow> unat x < unat y" by (simp add: word_less_nat_alt)
    have "unat (x - y - c) = unat (x - y) - unat c"
      using u ne b assms by (subst unat_sub) (auto simp: word_le_nat_alt)
    then show ?thesis using False u ne lt b assms by auto
  qed
qed

lemma sub_loop_val:
  "length a = length b \<Longrightarrow> unat c1 \<le> 1 \<Longrightarrow> sub_loop c1 a b = (r, c) \<Longrightarrow>
     length r = length a \<and> bn_val r + bn_val b + unat c1 = bn_val a + B64 ^ length a * unat c \<and> unat c \<le> 1"
proof (induction a b arbitrary: c1 r c rule: list_induct2)
  case (Cons x a y b)
  let ?c = "(if x \<noteq> y then if x < y then 1 else 0 else c1) :: limb"
  obtain rs where rs: "sub_loop ?c a b = (rs, c)" "r = (x - y - c1) # rs"
    using Cons.prems(2) by (simp add: Let_def split: prod.splits)
  have c: "unat ?c \<le> 1" using Cons.prems(1) by simp
  have IH: "length rs = length a" "bn_val rs + bn_val b + unat ?c = bn_val a + B64 ^ length a * unat c" "unat c \<le> 1"
    using Cons.IH [OF c rs(1)] by blast+
  have "B64 * (bn_val rs + bn_val b + unat ?c) = B64 * (bn_val a + B64 ^ length a * unat c)"
    using IH(2) by simp
  moreover have "unat (x - y - c1) + unat y + unat c1 = unat x + B64 * unat ?c"
    using sub_word_val [OF Cons.prems(1), of x y] by (auto split: if_splits)
  ultimately show ?case using IH(1,3) rs(2) by (simp add: algebra_simps)
qed simp

lemma bn_sub_words_val:
  "length a = length b \<Longrightarrow> bn_sub_words a b = (r, c) \<Longrightarrow>
     length r = length a \<and> bn_val r + bn_val b = bn_val a + B64 ^ length a * unat c \<and> unat c \<le> 1"
  using sub_loop_val [of a b 0 r c] by (simp add: bn_sub_words_def)

lemma or_foldl_0: "foldl (\<lambda>m i. m OR f i) (m :: limb) is = 0 \<longleftrightarrow> m = 0 \<and> (\<forall>i \<in> set is. f i = 0)"
  by (induction "is" arbitrary: m) (auto simp: or_eq_0_iff)

lemma bn_val_drop: "bn_val xs = bn_val (take n xs) + B64 ^ min n (length xs) * bn_val (drop n xs)"
  using bn_val_append [of "take n xs" "drop n xs"] by (simp add: min.commute)

text \<open>The comparison of the first \<open>n\<close> words decides their order.\<close>

definition sign_of :: "nat \<Rightarrow> nat \<Rightarrow> u32" where
  "sign_of m n = (if m < n then - 1 else if m = n then 0 else 1)"

lemma bn_val_snoc: "bn_val (xs @ [x]) = bn_val xs + B64 ^ length xs * unat x"
  by (simp add: bn_val_append)

lemma limb_dominates:
  assumes "x < y" "m < (N :: nat)"
  shows "m + N * x < N * y"
proof -
  have "N * (x + 1) \<le> N * y" using assms(1) by (intro mult_le_mono2) simp
  then show ?thesis using assms(2) by (simp add: algebra_simps)
qed

lemma cmp_words_prefix:
  assumes "n \<le> length a" "n \<le> length b"
  shows "foldl (cmp_words_step a b) 0 [0..<n] = sign_of (bn_val (take n a)) (bn_val (take n b))"
  using assms
proof (induction n)
  case (Suc n)
  let ?x = "a ! n" and ?y = "b ! n" and ?p = "bn_val (take n a)" and ?q = "bn_val (take n b)" and ?N = "B64 ^ n"
  have IH: "foldl (cmp_words_step a b) 0 [0..<n] = sign_of ?p ?q" using Suc by simp
  have v: "bn_val (take (Suc n) a) = ?p + ?N * unat ?x" "bn_val (take (Suc n) b) = ?q + ?N * unat ?y"
    using Suc.prems bn_val_snoc [of "take n a" ?x] bn_val_snoc [of "take n b" ?y] by (simp_all add: take_Suc_conv_app_nth)
  have b: "?p < ?N" "?q < ?N" using bn_val_bound [of "take n a"] bn_val_bound [of "take n b"] Suc.prems by simp_all
  have "cmp_words_step a b r n = (if ?x = ?y then r else if ?x < ?y then - 1 else 1)" for r
    unfolding cmp_words_step_def Let_def eq_w lt_w select_int by simp
  then have s: "foldl (cmp_words_step a b) 0 [0..<Suc n] =
      (if ?x = ?y then sign_of ?p ?q else if ?x < ?y then - 1 else 1)"
    using IH by simp
  consider "?x = ?y" | "unat ?x < unat ?y" | "unat ?y < unat ?x"
    by (metis linorder_neqE_nat word_unat_eq_iff)
  then show ?case
  proof cases
    case 1
    then show ?thesis unfolding s v by (simp add: sign_of_def)
  next
    case 2
    then have "?x < ?y" "?x \<noteq> ?y" by (auto simp: word_less_nat_alt)
    then show ?thesis using limb_dominates [OF 2 b(1)] unfolding s v by (simp add: sign_of_def)
  next
    case 3
    then have "\<not> ?x < ?y" "?x \<noteq> ?y" by (auto simp: word_less_nat_alt)
    then show ?thesis using limb_dominates [OF 3 b(2)] unfolding s v by (simp add: sign_of_def)
  qed
qed (simp add: sign_of_def)

lemma bn_cmp_words_val: "bn_cmp_words_consttime a b = sign_of (bn_val a) (bn_val b)"
proof -
  let ?n = "if length a < length b then length a else length b"
  let ?ret = "foldl (cmp_words_step a b) 0 [0..<?n]"
  have r: "?ret = sign_of (bn_val (take ?n a)) (bn_val (take ?n b))" by (rule cmp_words_prefix) auto
  have z: "foldl (\<lambda>m i. m OR xs ! i) (0 :: limb) [k..<length xs] = 0 \<longleftrightarrow> bn_val (drop k xs) = 0" for xs k
  proof -
    have "drop k xs = map ((!) xs) [k..<length xs]" by (rule nth_equalityI) simp_all
    then show ?thesis unfolding or_foldl_0 bn_val_0_iff by simp
  qed
  consider "length a < length b" | "length b < length a" | "length a = length b" by linarith
  then show ?thesis
  proof cases
    case 1
    let ?h = "bn_val (drop (length a) b)"
    have b: "bn_val b = bn_val (take (length a) b) + B64 ^ length a * ?h" using bn_val_drop [of b "length a"] 1 by simp
    have e: "bn_cmp_words_consttime a b = (if ?h = 0 then ?ret else - 1)"
      unfolding bn_cmp_words_consttime_def Let_def is_zero_w select_int z using 1 by simp
    show ?thesis
    proof (cases "?h = 0")
      case False
      then have "bn_val a < B64 ^ length a * ?h" using bn_val_bound [of a] by (cases ?h) (simp_all)
      then show ?thesis using e b False by (simp add: sign_of_def)
    qed (use e r b 1 in simp)
  next
    case 2
    let ?h = "bn_val (drop (length b) a)"
    have b: "bn_val a = bn_val (take (length b) a) + B64 ^ length b * ?h" using bn_val_drop [of a "length b"] 2 by simp
    have e: "bn_cmp_words_consttime a b = (if ?h = 0 then ?ret else 1)"
      unfolding bn_cmp_words_consttime_def Let_def is_zero_w select_int z using 2 by simp
    show ?thesis
    proof (cases "?h = 0")
      case False
      then have "bn_val b < B64 ^ length b * ?h" using bn_val_bound [of b] by (cases ?h) (simp_all)
      then show ?thesis using e b False by (simp add: sign_of_def)
    qed (use e r b 2 in simp)
  next
    case 3
    then show ?thesis using r by (simp add: bn_cmp_words_consttime_def Let_def)
  qed
qed

lemma sint_sign_of: "sint (sign_of m n) = (if m < n then - 1 else if m = n then 0 else 1)"
  by (simp add: sign_of_def)

lemma bn_less_than_words_val: "bn_less_than_words a b \<longleftrightarrow> bn_val a < bn_val b"
  by (simp add: bn_less_than_words_def bn_cmp_words_val sint_sign_of)

lemma bn_select_words_truth:
  "length a = length b \<Longrightarrow> bn_select_words (word_of_truth p) a b = (if p then a else b)"
  by (induction a b rule: list_induct2) (auto simp: bn_select_words_def ct)

text \<open>The reductions.\<close>

lemma minus_limb_cases: "unat b \<le> 1 \<Longrightarrow> 0 - b = word_of_truth (b = 1)" for b :: limb
proof -
  assume "unat b \<le> 1"
  then have "unat b = 0 \<or> unat b = 1" by linarith
  then have "b = 0 \<or> b = 1" by (simp add: word_unat_eq_iff)
  then show ?thesis by auto
qed

lemma reduce_step:
  assumes len: "length a = length m" and lt: "bn_val a + B64 ^ length m * unat carry < 2 * bn_val m"
    and s: "bn_sub_words a m = (r, borrow)"
  shows "carry - borrow = word_of_truth (bn_val a + B64 ^ length m * unat carry < bn_val m) \<and> length r = length m \<and>
     bn_val (if bn_val a + B64 ^ length m * unat carry < bn_val m then a else r) = (bn_val a + B64 ^ length m * unat carry) mod bn_val m"
proof -
  let ?N = "B64 ^ length m" and ?A = "bn_val a" and ?M = "bn_val m"
  have v: "length r = length m" "bn_val r + ?M = ?A + ?N * unat borrow" "unat borrow \<le> 1"
    using bn_sub_words_val [OF len s] len by auto
  have b: "?A < ?N" "?M < ?N" "bn_val r < ?N" using bn_val_bound [of a] bn_val_bound [of m] bn_val_bound [of r] len v(1) by simp_all
  have "unat carry \<le> 1"
  proof (rule ccontr)
    assume "\<not> unat carry \<le> 1"
    then have "?N * 2 \<le> ?N * unat carry" by (intro mult_le_mono2) simp
    then show False using lt b by linarith
  qed
  then have c: "carry = 0 \<or> carry = 1" "borrow = 0 \<or> borrow = 1"
    using v(3) by (auto simp: word_unat_eq_iff)
  then show ?thesis
    using v b lt by (auto simp: mod_if)
qed

lemma bn_reduce_once_val:
  assumes "length a = length m" "bn_val a + B64 ^ length m * unat carry < 2 * bn_val m"
  shows "\<exists>r c. bn_reduce_once a carry m = Some (r, c) \<and> length r = length m \<and>
     bn_val r = (bn_val a + B64 ^ length m * unat carry) mod bn_val m \<and>
     c = word_of_truth (bn_val a + B64 ^ length m * unat carry < bn_val m)"
proof -
  obtain r b where s: "bn_sub_words a m = (r, b)" by (cases "bn_sub_words a m")
  note st = reduce_step [OF assms s]
  have l: "length a = length r" using st assms(1) by simp
  show ?thesis
    using st assms(1) by (auto simp: bn_reduce_once_def s Let_def bn_select_words_truth [OF l])
qed

lemma bn_reduce_once_in_place_val:
  assumes "length a = length m" "bn_val a + B64 ^ length m * unat carry < 2 * bn_val m"
  shows "\<exists>r c. bn_reduce_once_in_place a carry m = Some (r, c) \<and> length r = length m \<and>
     bn_val r = (bn_val a + B64 ^ length m * unat carry) mod bn_val m \<and>
     c = word_of_truth (bn_val a + B64 ^ length m * unat carry < bn_val m)"
  using bn_reduce_once_val [OF assms] by (simp add: bn_reduce_once_def bn_reduce_once_in_place_def)

lemma bn_mod_add_words_val:
  assumes "length a = length m" "length b = length m" "bn_val a < bn_val m" "bn_val b < bn_val m"
  shows "\<exists>r. bn_mod_add_words a b m = Some r \<and> length r = length m \<and> bn_val r = (bn_val a + bn_val b) mod bn_val m"
proof -
  obtain s c where s: "bn_add_words a b = (s, c)" by (cases "bn_add_words a b")
  have v: "length s = length m" "bn_val s + B64 ^ length m * unat c = bn_val a + bn_val b"
    using bn_add_words_val [OF _ s] assms by auto
  then show ?thesis
    using bn_reduce_once_in_place_val [of s m c] assms s by (auto simp: bn_mod_add_words_def)
qed

lemma bn_mod_sub_words_val:
  assumes "length a = length m" "length b = length m" "bn_val a < bn_val m" "bn_val b < bn_val m"
  shows "length (bn_mod_sub_words a b m) = length m \<and>
     int (bn_val (bn_mod_sub_words a b m)) = (int (bn_val a) - int (bn_val b)) mod int (bn_val m)"
proof -
  obtain r c where r: "bn_sub_words a b = (r, c)" by (cases "bn_sub_words a b")
  obtain s d where s: "bn_add_words r m = (s, d)" by (cases "bn_add_words r m")
  let ?N = "B64 ^ length m"
  have v: "length r = length m" "bn_val r + bn_val b = bn_val a + ?N * unat c" "unat c \<le> 1"
    using bn_sub_words_val [OF _ r] assms by auto
  have w: "length s = length m" "bn_val s + ?N * unat d = bn_val r + bn_val m" "unat d \<le> 1"
    using bn_add_words_val [OF _ s] v assms by auto
  have b: "bn_val s < ?N" "bn_val r < ?N" "bn_val m < ?N"
    using bn_val_bound [of s] bn_val_bound [of r] bn_val_bound [of m] v w by simp_all
  have e: "bn_mod_sub_words a b m = (if c = 1 then s else r)"
    unfolding bn_mod_sub_words_def r s prod.case minus_limb_cases [OF v(3)]
    using v(1) w(1) by (simp add: bn_select_words_truth)
  have cd: "c = 0 \<or> c = 1" "d = 0 \<or> d = 1" using v(3) w(3) by (auto simp: word_unat_eq_iff)
  show ?thesis
  proof (cases "c = 1")
    case True
    then have "d = 1" using cd(2) v w b assms by auto
    then have "int (bn_val s) = int (bn_val a) - int (bn_val b) + int (bn_val m)" using True v w by simp
    moreover have "bn_val s < bn_val m" using calculation True v w \<open>d = 1\<close> b assms by simp
    ultimately have "(int (bn_val a) - int (bn_val b)) mod int (bn_val m) = int (bn_val s)"
      by (metis mod_add_self2 mod_pos_pos_trivial of_nat_0_le_iff of_nat_less_iff)
    then show ?thesis using e True w(1) by simp
  next
    case False
    then have "bn_val r + bn_val b = bn_val a" using cd v by simp
    moreover have "bn_val r < bn_val m" using calculation assms by simp
    ultimately have "(int (bn_val a) - int (bn_val b)) mod int (bn_val m) = int (bn_val r)"
      by simp
    then show ?thesis using e False v(1) by simp
  qed
qed

end
