(* ===== verification/Bn_Mul.thy ===== *)
theory Bn_Mul
  imports Bn_Words
begin

text \<open>
  Multiplication and squaring of word arrays: the column-wise routines of \<open>generic.c\<close>, and the schoolbook
  routines of \<open>mul.c\<close>.
\<close>

subsection \<open>Three-word columns\<close>

type_synonym column = "limb \<times> limb \<times> limb"

definition mul_add_c :: "limb \<Rightarrow> limb \<Rightarrow> column \<Rightarrow> column" where
  "mul_add_c a b c =
     (case c of (c0, c1, c2) \<Rightarrow>
        let t = ucast a * ucast b;
            t = t + ucast c0;
            c0 = Lw t;
            hi = Hw t;
            c1 = c1 + hi
        in (c0, c1, if c1 < hi then c2 + 1 else c2))"

definition mul_add_c2 :: "limb \<Rightarrow> limb \<Rightarrow> column \<Rightarrow> column" where
  "mul_add_c2 a b c =
     (case c of (c0, c1, c2) \<Rightarrow>
        let t = ucast a * ucast b;
            tt = t + ucast c0;
            c0 = Lw tt;
            hi = Hw tt;
            c1 = c1 + hi;
            c2 = (if c1 < hi then c2 + 1 else c2);
            t = t + ucast c0;
            c0 = Lw t;
            hi = Hw t;
            c1 = c1 + hi
        in (c0, c1, if c1 < hi then c2 + 1 else c2))"

text \<open>The calls of \<open>mul_add_c\<close> in each column, in the order of the source, and what follows a column: its low word is stored
  and cleared, and becomes the high word of the next one.\<close>

definition comba8_columns :: "(nat \<times> nat) list list" where
  "comba8_columns =
    [[(0, 0)],
     [(0, 1), (1, 0)],
     [(2, 0), (1, 1), (0, 2)],
     [(0, 3), (1, 2), (2, 1), (3, 0)],
     [(4, 0), (3, 1), (2, 2), (1, 3), (0, 4)],
     [(0, 5), (1, 4), (2, 3), (3, 2), (4, 1), (5, 0)],
     [(6, 0), (5, 1), (4, 2), (3, 3), (2, 4), (1, 5), (0, 6)],
     [(0, 7), (1, 6), (2, 5), (3, 4), (4, 3), (5, 2), (6, 1), (7, 0)],
     [(7, 1), (6, 2), (5, 3), (4, 4), (3, 5), (2, 6), (1, 7)],
     [(2, 7), (3, 6), (4, 5), (5, 4), (6, 3), (7, 2)],
     [(7, 3), (6, 4), (5, 5), (4, 6), (3, 7)],
     [(4, 7), (5, 6), (6, 5), (7, 4)],
     [(7, 5), (6, 6), (5, 7)],
     [(6, 7), (7, 6)],
     [(7, 7)]]"

definition comba4_columns :: "(nat \<times> nat) list list" where
  "comba4_columns =
    [[(0, 0)],
     [(0, 1), (1, 0)],
     [(2, 0), (1, 1), (0, 2)],
     [(0, 3), (1, 2), (2, 1), (3, 0)],
     [(3, 1), (2, 2), (1, 3)],
     [(2, 3), (3, 2)],
     [(3, 3)]]"

fun comba :: "('t \<Rightarrow> column \<Rightarrow> column) \<Rightarrow> 't list list \<Rightarrow> column \<Rightarrow> limb list" where
  "comba f [] (c0, c1, c2) = [c0]"
| "comba f (ts # cols) c = (case foldl (\<lambda>c t. f t c) c ts of (c0, c1, c2) \<Rightarrow> c0 # comba f cols (c1, c2, 0))"

definition bn_mul_comba8 :: "limb list \<Rightarrow> limb list \<Rightarrow> limb list" where
  "bn_mul_comba8 a b = comba (\<lambda>(i, j). mul_add_c (a ! i) (b ! j)) comba8_columns (0, 0, 0)"

definition bn_mul_comba4 :: "limb list \<Rightarrow> limb list \<Rightarrow> limb list" where
  "bn_mul_comba4 a b = comba (\<lambda>(i, j). mul_add_c (a ! i) (b ! j)) comba4_columns (0, 0, 0)"

text \<open>The calls of \<open>sqr_add_c(a, i, ...)\<close> and \<open>sqr_add_c2(a, i, j, ...)\<close>.\<close>

datatype sqr_term = Sqr nat | Sqr2 nat nat

definition sqr_columns8 :: "sqr_term list list" where
  "sqr_columns8 =
    [[Sqr 0],
     [Sqr2 1 0],
     [Sqr 1, Sqr2 2 0],
     [Sqr2 3 0, Sqr2 2 1],
     [Sqr 2, Sqr2 3 1, Sqr2 4 0],
     [Sqr2 5 0, Sqr2 4 1, Sqr2 3 2],
     [Sqr 3, Sqr2 4 2, Sqr2 5 1, Sqr2 6 0],
     [Sqr2 7 0, Sqr2 6 1, Sqr2 5 2, Sqr2 4 3],
     [Sqr 4, Sqr2 5 3, Sqr2 6 2, Sqr2 7 1],
     [Sqr2 7 2, Sqr2 6 3, Sqr2 5 4],
     [Sqr 5, Sqr2 6 4, Sqr2 7 3],
     [Sqr2 7 4, Sqr2 6 5],
     [Sqr 6, Sqr2 7 5],
     [Sqr2 7 6],
     [Sqr 7]]"

definition sqr_columns4 :: "sqr_term list list" where
  "sqr_columns4 =
    [[Sqr 0],
     [Sqr2 1 0],
     [Sqr 1, Sqr2 2 0],
     [Sqr2 3 0, Sqr2 2 1],
     [Sqr 2, Sqr2 3 1],
     [Sqr2 3 2],
     [Sqr 3]]"

fun sqr_add :: "limb list \<Rightarrow> sqr_term \<Rightarrow> column \<Rightarrow> column" where
  "sqr_add a (Sqr i) c = mul_add_c (a ! i) (a ! i) c"
| "sqr_add a (Sqr2 i j) c = mul_add_c2 (a ! i) (a ! j) c"

definition bn_sqr_comba8 :: "limb list \<Rightarrow> limb list" where
  "bn_sqr_comba8 a = comba (sqr_add a) sqr_columns8 (0, 0, 0)"

definition bn_sqr_comba4 :: "limb list \<Rightarrow> limb list" where
  "bn_sqr_comba4 a = comba (sqr_add a) sqr_columns4 (0, 0, 0)"

fun column_val :: "column \<Rightarrow> nat" where
  "column_val (c0, c1, c2) = unat c0 + B64 * unat c1 + B64 * B64 * unat c2"

lemma limb_add_carry: "unat (x + y) + B64 * (if x + y < y then 1 else 0) = unat x + unat y" for x y :: limb
  using unat_limb [of x] unat_limb [of y] by (auto simp: word_less_nat_alt unat_word_ariths mod_if)

lemma mul_add_c_val:
  assumes "column_val c + unat a * unat b < B64 * B64 * B64"
  shows "column_val (mul_add_c a b c) = column_val c + unat a * unat b"
proof -
  obtain c0 c1 c2 where c: "c = (c0, c1, c2)" by (cases c)
  obtain l h where m: "mul_add c0 b a 0 = (l, h)" by (cases "mul_add c0 b a 0")
  obtain p where p: "unat a * unat b = p" by simp
  have v: "unat l + B64 * unat h = unat c0 + p" using mul_add_val [OF m] by (simp add: mult.commute flip: p)
  have cv: "column_val c = unat c0 + B64 * unat c1 + B64 * B64 * unat c2" by (simp add: c)
  have e: "mul_add_c a b c = (l, c1 + h, if c1 + h < h then c2 + 1 else c2)"
    using m by (auto simp: c mul_add_c_def mul_add_def Let_def)
  have k: "unat (c1 + h) + B64 * (if c1 + h < h then 1 else 0) = unat c1 + unat h" by (rule limb_add_carry)
  show ?thesis
  proof (cases "c1 + h < h")
    case True
    have "unat l + B64 * (unat c1 + unat h) + B64 * B64 * unat c2 < B64 * B64 * B64"
      using assms v cv unfolding p by simp
    moreover have "B64 \<le> unat c1 + unat h" using k True by simp
    ultimately have "unat c2 + 1 < B64" by simp
    then have "unat (c2 + 1) = unat c2 + 1" by (simp add: unat_word_ariths)
    then have "column_val (mul_add_c a b c) = unat l + B64 * unat (c1 + h) + B64 * B64 * (unat c2 + 1)"
      using True by (simp add: e)
    moreover have "unat (c1 + h) + B64 = unat c1 + unat h" using k True by simp
    ultimately show ?thesis using v cv unfolding p by simp
  next
    case False
    then have "column_val (mul_add_c a b c) = unat l + B64 * unat (c1 + h) + B64 * B64 * unat c2"
      by (simp add: e)
    moreover have "unat (c1 + h) = unat c1 + unat h" using k False by simp
    ultimately show ?thesis using v cv unfolding p by simp
  qed
qed

lemma mul_add_c2_twice: "mul_add_c2 a b c = mul_add_c a b (mul_add_c a b c)"
  by (cases c) (simp add: mul_add_c2_def mul_add_c_def Let_def)

lemma mul_add_c_commute: "mul_add_c a b c = mul_add_c b a c"
  by (simp add: mul_add_c_def mult.commute)

definition pairs_val :: "limb list \<Rightarrow> limb list \<Rightarrow> (nat \<times> nat) list \<Rightarrow> nat" where
  "pairs_val a b ps = sum_list (map (\<lambda>(i, j). unat (a ! i) * unat (b ! j)) ps)"

primrec columns_val :: "limb list \<Rightarrow> limb list \<Rightarrow> (nat \<times> nat) list list \<Rightarrow> nat" where
  "columns_val a b [] = 0"
| "columns_val a b (ps # cols) = pairs_val a b ps + B64 * columns_val a b cols"

lemma pairs_val_bound: "pairs_val a b ps \<le> length ps * ((B64 - 1) * (B64 - 1))"
proof (induction ps)
  case (Cons p ps)
  then show ?case using product_bound [of "a ! fst p" "b ! snd p"] by (cases p) (simp add: pairs_val_def)
qed (simp add: pairs_val_def)

lemma column_fold:
  "column_val c + pairs_val a b ps < B64 * B64 * B64 \<Longrightarrow>
     column_val (foldl (\<lambda>c (i, j). mul_add_c (a ! i) (b ! j) c) c ps) = column_val c + pairs_val a b ps"
proof (induction ps arbitrary: c)
  case (Cons p ps)
  have b: "column_val c + unat (a ! fst p) * unat (b ! snd p) < B64 * B64 * B64"
    using Cons.prems by (cases p) (simp add: pairs_val_def)
  show ?case
    using Cons.IH [of "mul_add_c (a ! fst p) (b ! snd p) c"] Cons.prems mul_add_c_val [OF b]
    by (cases p) (simp add: pairs_val_def)
qed (simp add: pairs_val_def)

lemma comba_val:
  "list_all (\<lambda>ps. length ps \<le> 8) cols \<Longrightarrow> column_val c < B64 * B64 \<Longrightarrow>
     length (comba (\<lambda>(i, j). mul_add_c (a ! i) (b ! j)) cols c) = length cols + 1 \<and>
     (\<exists>k. bn_val (comba (\<lambda>(i, j). mul_add_c (a ! i) (b ! j)) cols c) + B64 ^ (length cols + 1) * k =
        column_val c + columns_val a b cols)"
proof (induction cols arbitrary: c)
  case Nil
  then show ?case by (cases c) (auto intro!: exI [of _ "unat (fst (snd c)) + B64 * unat (snd (snd c))"] simp: algebra_simps)
next
  case (Cons ps cols)
  let ?f = "\<lambda>(i, j). mul_add_c (a ! i) (b ! j)"
  obtain c0 c1 c2 where f: "foldl (\<lambda>c t. ?f t c) c ps = (c0, c1, c2)" by (metis prod_cases3)
  have e: "foldl (\<lambda>c t. ?f t c) c ps = foldl (\<lambda>c (i, j). mul_add_c (a ! i) (b ! j) c) c ps"
    by (rule foldl_cong) auto
  have "pairs_val a b ps \<le> 8 * ((B64 - 1) * (B64 - 1))"
    using pairs_val_bound [of a b ps] Cons.prems(1) mult_le_mono1 [of "length ps" 8 "(B64 - 1) * (B64 - 1)"] by simp
  then have "column_val c + pairs_val a b ps < B64 * B64 * B64" using Cons.prems(2) by simp
  then have v: "column_val (c0, c1, c2) = column_val c + pairs_val a b ps"
    using column_fold [of c a b ps] unfolding e [symmetric] f by simp
  have "column_val (c1, c2, 0) < B64 * B64" using unat_limb [of c1] unat_limb [of c2] by simp
  from Cons.IH [OF _ this] Cons.prems(1)
  obtain k where IH: "length (comba ?f cols (c1, c2, 0)) = length cols + 1"
    "bn_val (comba ?f cols (c1, c2, 0)) + B64 ^ (length cols + 1) * k = column_val (c1, c2, 0) + columns_val a b cols"
    by auto
  have "B64 * (bn_val (comba ?f cols (c1, c2, 0)) + B64 ^ (length cols + 1) * k) =
      B64 * (column_val (c1, c2, 0) + columns_val a b cols)"
    using IH(2) by simp
  then show ?case using f v IH(1) by (auto intro!: exI [of _ k] simp: algebra_simps)
qed

text \<open>The columns hold every product of two words once, each where its weight is.\<close>

primrec aligned :: "nat \<Rightarrow> (nat \<times> nat) list list \<Rightarrow> bool" where
  "aligned k [] = True"
| "aligned k (ps # cols) = (list_all (\<lambda>(i, j). i + j = k) ps \<and> aligned (Suc k) cols)"

definition covers :: "nat \<Rightarrow> (nat \<times> nat) list list \<Rightarrow> bool" where
  "covers n cols \<longleftrightarrow> aligned 0 cols \<and> distinct (concat cols) \<and> set (concat cols) = set (List.product [0..<n] [0..<n])"

lemma bn_val_sum: "bn_val xs = (\<Sum>i < length xs. unat (xs ! i) * B64 ^ i)"
proof (induction xs rule: rev_induct)
  case (snoc x xs)
  have "(\<Sum>i < length xs. unat ((xs @ [x]) ! i) * B64 ^ i) = (\<Sum>i < length xs. unat (xs ! i) * B64 ^ i)"
    by (rule sum.cong) (auto simp: nth_append)
  then show ?case using snoc by (simp add: bn_val_append mult.commute)
qed simp

lemma aligned_pairs:
  "list_all (\<lambda>(i, j). i + j = k) ps \<Longrightarrow>
     B64 ^ k * pairs_val a b ps = sum_list (map (\<lambda>(i, j). (unat (a ! i) * B64 ^ i) * (unat (b ! j) * B64 ^ j)) ps)"
  by (induction ps) (auto simp: pairs_val_def algebra_simps power_add)

lemma aligned_columns:
  "aligned k cols \<Longrightarrow>
     B64 ^ k * columns_val a b cols =
       sum_list (map (\<lambda>(i, j). (unat (a ! i) * B64 ^ i) * (unat (b ! j) * B64 ^ j)) (concat cols))"
proof (induction cols arbitrary: k)
  case (Cons ps cols)
  have "B64 ^ k * columns_val a b (ps # cols) = B64 ^ k * pairs_val a b ps + B64 ^ Suc k * columns_val a b cols"
    by (simp add: algebra_simps)
  then show ?case using Cons.IH [of "Suc k"] Cons.prems aligned_pairs [of k ps a b] by simp
qed simp

lemma covers_val:
  assumes "covers n cols" "length a = n" "length b = n"
  shows "columns_val a b cols = bn_val a * bn_val b"
proof -
  let ?f = "\<lambda>(i, j). (unat (a ! i) * B64 ^ i) * (unat (b ! j) * B64 ^ j)"
  have "columns_val a b cols = sum_list (map ?f (concat cols))"
    using aligned_columns [of 0 cols a b] assms(1) by (simp add: covers_def)
  also have "\<dots> = sum ?f (set (concat cols))"
    by (rule sum.distinct_set_conv_list [symmetric]) (use assms(1) in \<open>simp only: covers_def\<close>)
  also have "set (concat cols) = {..<n} \<times> {..<n}"
    using assms(1) by (auto simp: covers_def)
  also have "sum ?f ({..<n} \<times> {..<n}) = (\<Sum>i < n. unat (a ! i) * B64 ^ i) * (\<Sum>j < n. unat (b ! j) * B64 ^ j)"
    by (simp add: sum_product sum.cartesian_product)
  finally show ?thesis using assms(2,3) by (simp add: bn_val_sum)
qed

lemma comba_product:
  assumes "covers n cols" "list_all (\<lambda>ps. length ps \<le> 8) cols" "length cols + 1 = 2 * n" "length a = n" "length b = n"
  shows "length (comba (\<lambda>(i, j). mul_add_c (a ! i) (b ! j)) cols (0, 0, 0)) = 2 * n \<and>
     bn_val (comba (\<lambda>(i, j). mul_add_c (a ! i) (b ! j)) cols (0, 0, 0)) = bn_val a * bn_val b"
proof -
  let ?r = "comba (\<lambda>(i, j). mul_add_c (a ! i) (b ! j)) cols (0, 0, 0)"
  obtain k where k: "length ?r = 2 * n" "bn_val ?r + B64 ^ (2 * n) * k = bn_val a * bn_val b"
    using comba_val [OF assms(2), of "(0, 0, 0)" a b, unfolded assms(3) covers_val [OF assms(1,4,5)]] by auto
  have "bn_val a * bn_val b < B64 ^ n * B64 ^ n"
    using bn_val_bound [of a] bn_val_bound [of b] assms(4,5) by (intro mult_strict_mono) auto
  then have "k = 0" using k(2) by (cases k) (simp_all add: mult_2 power_add)
  then show ?thesis using k by simp
qed

lemma covers_comba8: "covers 8 comba8_columns" unfolding covers_def comba8_columns_def by code_simp
lemma covers_comba4: "covers 4 comba4_columns" unfolding covers_def comba4_columns_def by code_simp

lemma bn_mul_comba8_val:
  "length a = 8 \<Longrightarrow> length b = 8 \<Longrightarrow> length (bn_mul_comba8 a b) = 16 \<and> bn_val (bn_mul_comba8 a b) = bn_val a * bn_val b"
  using comba_product [OF covers_comba8, of a b] by (simp add: bn_mul_comba8_def) (simp add: comba8_columns_def)

lemma bn_mul_comba4_val:
  "length a = 4 \<Longrightarrow> length b = 4 \<Longrightarrow> length (bn_mul_comba4 a b) = 8 \<and> bn_val (bn_mul_comba4 a b) = bn_val a * bn_val b"
  using comba_product [OF covers_comba4, of a b] by (simp add: bn_mul_comba4_def) (simp add: comba4_columns_def)

text \<open>Squaring makes the same additions, in twos.\<close>

fun sqr_pairs :: "sqr_term \<Rightarrow> (nat \<times> nat) list" where
  "sqr_pairs (Sqr i) = [(i, i)]"
| "sqr_pairs (Sqr2 i j) = [(i, j), (j, i)]"

definition sqr_columns_pairs :: "sqr_term list list \<Rightarrow> (nat \<times> nat) list list" where
  "sqr_columns_pairs cols = map (\<lambda>ts. concat (map sqr_pairs ts)) cols"

lemma sqr_add_pairs: "sqr_add a t c = foldl (\<lambda>c p. (case p of (i, j) \<Rightarrow> mul_add_c (a ! i) (a ! j)) c) c (sqr_pairs t)"
  by (cases t) (simp_all add: mul_add_c2_twice mul_add_c_commute)

lemma sqr_column: "foldl (\<lambda>c t. sqr_add a t c) c ts =
    foldl (\<lambda>c p. (case p of (i, j) \<Rightarrow> mul_add_c (a ! i) (a ! j)) c) c (concat (map sqr_pairs ts))"
  by (induction ts arbitrary: c) (simp_all add: sqr_add_pairs)

lemma comba_sqr: "comba (sqr_add a) cols c = comba (\<lambda>(i, j). mul_add_c (a ! i) (a ! j)) (sqr_columns_pairs cols) c"
proof (induction cols arbitrary: c)
  case Nil
  then show ?case by (cases c) (simp add: sqr_columns_pairs_def)
next
  case (Cons ts cols)
  then show ?case unfolding sqr_columns_pairs_def by (simp add: sqr_column split: prod.splits)
qed

lemma covers_sqr8: "covers 8 (sqr_columns_pairs sqr_columns8)"
  unfolding covers_def sqr_columns8_def sqr_columns_pairs_def by code_simp

lemma covers_sqr4: "covers 4 (sqr_columns_pairs sqr_columns4)"
  unfolding covers_def sqr_columns4_def sqr_columns_pairs_def by code_simp

lemma bn_sqr_comba8_val:
  "length a = 8 \<Longrightarrow> length (bn_sqr_comba8 a) = 16 \<and> bn_val (bn_sqr_comba8 a) = bn_val a * bn_val a"
  using comba_product [OF covers_sqr8, of a a] by (simp add: bn_sqr_comba8_def comba_sqr) (simp add: sqr_columns8_def sqr_columns_pairs_def)

lemma bn_sqr_comba4_val:
  "length a = 4 \<Longrightarrow> length (bn_sqr_comba4 a) = 8 \<and> bn_val (bn_sqr_comba4 a) = bn_val a * bn_val a"
  using comba_product [OF covers_sqr4, of a a] by (simp add: bn_sqr_comba4_def comba_sqr) (simp add: sqr_columns4_def sqr_columns_pairs_def)

subsection \<open>Schoolbook multiplication\<close>

text \<open>Row \<open>i\<close> adds \<open>a\<close> times \<open>b[i]\<close> at position \<open>i\<close> and stores the carry behind it; the array has \<open>na + i\<close> words by then.\<close>

definition mul_row :: "limb list \<Rightarrow> limb list \<Rightarrow> limb list \<Rightarrow> nat \<Rightarrow> limb list" where
  "mul_row a b r i = (case bn_mul_add_words (drop i r) a (b ! i) of (rp, c) \<Rightarrow> take i r @ rp @ [c])"

definition bn_mul_normal :: "limb list \<Rightarrow> limb list \<Rightarrow> limb list" where
  "bn_mul_normal a b =
     (let (a, b) = (if length a < length b then (b, a) else (a, b)) in
      if length b = 0 then replicate (length a) 0
      else case bn_mul_words a (b ! 0) of (r, c) \<Rightarrow> foldl (mul_row a b) (r @ [c]) [1..<length b])"

definition bn_mul_small :: "nat \<Rightarrow> limb list \<Rightarrow> limb list \<Rightarrow> limb list option" where
  "bn_mul_small num_r a b =
     (if num_r \<noteq> length a + length b then None
      else if length a = 8 \<and> length b = 8 then Some (bn_mul_comba8 a b)
      else Some (bn_mul_normal a b))"

lemma mul_row_val:
  assumes "length r = length a + i" "bn_val r = bn_val a * bn_val (take i b)" "i < length b"
  shows "length (mul_row a b r i) = length a + Suc i \<and> bn_val (mul_row a b r i) = bn_val a * bn_val (take (Suc i) b)"
proof -
  obtain rp c where m: "bn_mul_add_words (drop i r) a (b ! i) = (rp, c)" by (cases "bn_mul_add_words (drop i r) a (b ! i)")
  have l: "length (drop i r) = length a" using assms(1) by simp
  have v: "length rp = length a" "bn_val rp + B64 ^ length a * unat c = bn_val (drop i r) + bn_val a * unat (b ! i)"
    using bn_mul_add_words_val [OF l m] l by auto
  have e: "mul_row a b r i = take i r @ rp @ [c]" by (simp add: mul_row_def m)
  have "bn_val (take i r @ rp @ [c]) = bn_val (take i r) + B64 ^ i * (bn_val rp + B64 ^ length a * unat c)"
    using v(1) assms(1) by (simp add: bn_val_append)
  also have "\<dots> = bn_val r + B64 ^ i * (bn_val a * unat (b ! i))"
    using bn_val_drop [of r i] assms(1) unfolding v(2) by (simp add: algebra_simps)
  also have "\<dots> = bn_val a * bn_val (take (Suc i) b)"
    using assms(2,3) by (simp add: take_Suc_conv_app_nth bn_val_append algebra_simps)
  finally show ?thesis using e v(1) assms(1) by simp
qed

lemma mul_rows_val:
  assumes "length r = length a + 1" "bn_val r = bn_val a * bn_val (take 1 b)" "1 \<le> n" "n \<le> length b"
  shows "length (foldl (mul_row a b) r [1..<n]) = length a + n \<and>
     bn_val (foldl (mul_row a b) r [1..<n]) = bn_val a * bn_val (take n b)"
  using assms(3,4)
proof (induction n rule: dec_induct)
  case (step n)
  then show ?case using mul_row_val [of "foldl (mul_row a b) r [1..<n]" a n b] by simp
qed (use assms(1,2) in simp)

lemma bn_mul_normal_val:
  "length (bn_mul_normal a b) = length a + length b \<and> bn_val (bn_mul_normal a b) = bn_val a * bn_val b"
proof -
  have *: "length (if length b = 0 then replicate (length a) 0
      else case bn_mul_words a (b ! 0) of (r, c) \<Rightarrow> foldl (mul_row a b) (r @ [c]) [1..<length b]) = length a + length b \<and>
    bn_val (if length b = 0 then replicate (length a) 0
      else case bn_mul_words a (b ! 0) of (r, c) \<Rightarrow> foldl (mul_row a b) (r @ [c]) [1..<length b]) = bn_val a * bn_val b"
    for a b :: "limb list"
  proof (cases b)
    case (Cons w ws)
    obtain r c where m: "bn_mul_words a w = (r, c)" by (cases "bn_mul_words a w")
    have "length (r @ [c]) = length a + 1" "bn_val (r @ [c]) = bn_val a * bn_val (take 1 b)"
      using bn_mul_words_val [OF m] Cons by (simp_all add: bn_val_append)
    from mul_rows_val [OF this, of "length b"] show ?thesis using Cons m by simp
  qed simp
  show ?thesis
  proof (cases "length a < length b")
    case True
    then show ?thesis using * [of a b] * [of b a] by (simp add: bn_mul_normal_def mult.commute add.commute)
  next
    case False
    then show ?thesis using * [of b a] * [of a b] by (simp add: bn_mul_normal_def)
  qed
qed

lemma bn_mul_small_val:
  "num_r = length a + length b \<Longrightarrow>
     \<exists>r. bn_mul_small num_r a b = Some r \<and> length r = num_r \<and> bn_val r = bn_val a * bn_val b"
  using bn_mul_normal_val [of a b] bn_mul_comba8_val [of a b] by (auto simp: bn_mul_small_def)

subsection \<open>Schoolbook squaring\<close>

text \<open>Row \<open>t\<close> adds the words behind \<open>a[t]\<close> times \<open>a[t]\<close> at position \<open>2 * t + 1\<close>.\<close>

definition sqr_row :: "limb list \<Rightarrow> limb list \<Rightarrow> nat \<Rightarrow> limb list" where
  "sqr_row a r t =
     (case bn_mul_add_words (drop (2 * t + 1) r) (drop (t + 1) a) (a ! t) of (rp, c) \<Rightarrow> take (2 * t + 1) r @ rp @ [c])"

definition bn_sqr_normal :: "limb list \<Rightarrow> limb list" where
  "bn_sqr_normal a =
     (let n = length a in
      if n = 0 then []
      else
        let r = (if n > 1 then case bn_mul_words (drop 1 a) (a ! 0) of (rp, c) \<Rightarrow> 0 # rp @ [c] else [0]);
            r = foldl (sqr_row a) r [1..<n - 1];
            r = r @ [0];
            r = fst (bn_add_words r r);
            tmp = bn_sqr_words a
        in fst (bn_add_words r tmp))"

definition BN_SMALL_MAX_WORDS :: nat where "BN_SMALL_MAX_WORDS = 9"

definition bn_sqr_small :: "nat \<Rightarrow> limb list \<Rightarrow> limb list option" where
  "bn_sqr_small num_r a =
     (if num_r \<noteq> 2 * length a \<or> length a > BN_SMALL_MAX_WORDS then None
      else if length a = 4 then Some (bn_sqr_comba4 a)
      else if length a = 8 then Some (bn_sqr_comba8 a)
      else Some (bn_sqr_normal a))"

definition cross :: "limb list \<Rightarrow> nat \<Rightarrow> nat" where
  "cross a t = (\<Sum>s < t. B64 ^ (2 * s + 1) * (unat (a ! s) * bn_val (drop (s + 1) a)))"

lemma sqr_row_val:
  assumes "length r = length a + t" "bn_val r = cross a t" "1 \<le> t" "t + 1 < length a"
  shows "length (sqr_row a r t) = length a + Suc t \<and> bn_val (sqr_row a r t) = cross a (Suc t)"
proof -
  let ?p = "2 * t + 1"
  obtain rp c where m: "bn_mul_add_words (drop ?p r) (drop (t + 1) a) (a ! t) = (rp, c)"
    by (cases "bn_mul_add_words (drop ?p r) (drop (t + 1) a) (a ! t)")
  have l: "length (drop ?p r) = length (drop (t + 1) a)" using assms by simp
  have v: "length rp = length a - (t + 1)"
    "bn_val rp + B64 ^ (length a - (t + 1)) * unat c = bn_val (drop ?p r) + bn_val (drop (t + 1) a) * unat (a ! t)"
    using bn_mul_add_words_val [OF l m] l by auto
  have e: "sqr_row a r t = take ?p r @ rp @ [c]" by (simp only: sqr_row_def m prod.case)
  have tp: "length (take ?p r) = ?p" using assms by simp
  have "bn_val (take ?p r @ rp @ [c]) = bn_val (take ?p r) + B64 ^ ?p * (bn_val rp + B64 ^ (length a - (t + 1)) * unat c)"
    unfolding bn_val_append tp v(1) by simp
  also have "\<dots> = bn_val r + B64 ^ ?p * (unat (a ! t) * bn_val (drop (t + 1) a))"
    using bn_val_drop [of r ?p] tp unfolding v(2) by (simp add: algebra_simps min_def)
  also have "\<dots> = cross a (Suc t)" using assms(2) by (simp add: cross_def)
  finally show ?thesis using e v(1) assms by simp
qed

lemma cross_Suc: "cross (x # xs) (Suc t) = B64 * (unat x * bn_val xs) + B64 * B64 * cross xs t"
  unfolding cross_def sum.lessThan_Suc_shift by (simp add: sum_distrib_left algebra_simps)

lemma bn_sqr_words_cross:
  "length (bn_sqr_words a) = 2 * length a \<and> bn_val (bn_sqr_words a) + 2 * cross a (length a) = bn_val a * bn_val a"
proof (induction a)
  case (Cons x xs)
  obtain l h where s: "sqr_word x = (l, h)" by (cases "sqr_word x")
  have v: "unat l + B64 * unat h = unat x * unat x" by (rule sqr_word_val [OF s])
  have "bn_val (bn_sqr_words (x # xs)) = (unat l + B64 * unat h) + B64 * B64 * bn_val (bn_sqr_words xs)"
    by (simp add: s algebra_simps)
  moreover have "B64 * B64 * (bn_val (bn_sqr_words xs) + 2 * cross xs (length xs)) = B64 * B64 * (bn_val xs * bn_val xs)"
    using Cons by simp
  ultimately show ?case using Cons unfolding v by (simp add: s cross_Suc algebra_simps)
qed (simp add: cross_def)

lemma bn_add_words_exact:
  assumes "length a = length b" "bn_val a + bn_val b < B64 ^ length a"
  shows "length (fst (bn_add_words a b)) = length a \<and> bn_val (fst (bn_add_words a b)) = bn_val a + bn_val b"
proof -
  obtain r c where s: "bn_add_words a b = (r, c)" by (cases "bn_add_words a b")
  have v: "length r = length a" "bn_val r + B64 ^ length a * unat c = bn_val a + bn_val b"
    using bn_add_words_val [OF assms(1) s] by auto
  then have "unat c = 0" using assms(2) by (cases "unat c") simp_all
  then show ?thesis using v s by simp
qed

lemma bn_sqr_normal_val: "length (bn_sqr_normal a) = 2 * length a \<and> bn_val (bn_sqr_normal a) = bn_val a * bn_val a"
proof (cases "a = []")
  case False
  let ?n = "length a"
  let ?r0 = "if ?n > 1 then case bn_mul_words (drop 1 a) (a ! 0) of (rp, c) \<Rightarrow> 0 # rp @ [c] else [0]"
  let ?r1 = "foldl (sqr_row a) ?r0 [1..<?n - 1]" and ?m = "if ?n > 1 then ?n - 1 else 0"
  have n: "0 < ?n" using False by simp
  have r1: "length ?r1 = ?n + ?m \<and> bn_val ?r1 = cross a ?m"
  proof (cases "?n > 1")
    case True
    obtain x xs where a: "a = x # xs" using False by (cases a) auto
    obtain rp c where m: "bn_mul_words xs x = (rp, c)" by (cases "bn_mul_words xs x")
    have r0: "length ?r0 = ?n + 1" "bn_val ?r0 = cross a 1"
      using bn_mul_words_val [OF m] True m by (simp_all add: a cross_def bn_val_append mult.commute)
    have "k \<le> ?n - 1 \<Longrightarrow> 1 \<le> k \<Longrightarrow> length (foldl (sqr_row a) ?r0 [1..<k]) = ?n + k \<and> bn_val (foldl (sqr_row a) ?r0 [1..<k]) = cross a k" for k
    proof (induction k rule: nat_induct)
      case (Suc k)
      show ?case
      proof (cases "k = 0")
        case False
        then have "length (foldl (sqr_row a) ?r0 [1..<k]) = ?n + k" "bn_val (foldl (sqr_row a) ?r0 [1..<k]) = cross a k"
          using Suc by auto
        from sqr_row_val [OF this] show ?thesis using False Suc.prems True by simp
      qed (use r0 in simp)
    qed simp
    from this [of "?n - 1"] show ?thesis using True by simp
  next
    case False
    then have "?n = 1" using n by linarith
    then show ?thesis by (simp add: cross_def)
  qed
  have cr: "cross a ?m = cross a ?n"
  proof (cases "?n > 1")
    case True
    then have "cross a (Suc (?n - 1)) = cross a (?n - 1)" by (simp add: cross_def)
    then show ?thesis using True unfolding Suc_diff_1 [OF n] by simp
  next
    case False
    then have "?n = 1" using n by linarith
    then show ?thesis by (simp add: cross_def)
  qed
  have m2: "?n + ?m + 1 = 2 * ?n" using n by (auto simp del: length_greater_0_conv)
  have r2: "length (?r1 @ [0]) = 2 * ?n" "bn_val (?r1 @ [0]) = cross a ?n"
    using r1 cr m2 by (simp_all add: bn_val_append)
  note sq = bn_sqr_words_cross [of a]
  have b: "bn_val a * bn_val a < B64 ^ (2 * ?n)"
    using mult_strict_mono [OF bn_val_bound [of a] bn_val_bound [of a]] by (simp add: mult_2 power_add)
  let ?r3 = "fst (bn_add_words (?r1 @ [0]) (?r1 @ [0]))"
  have "cross a ?n + cross a ?n < B64 ^ (2 * ?n)" using sq b by linarith
  then have x3: "bn_val (?r1 @ [0]) + bn_val (?r1 @ [0]) < B64 ^ length (?r1 @ [0])" unfolding r2 .
  have r3: "length ?r3 = 2 * ?n" "bn_val ?r3 = cross a ?n + cross a ?n"
    using bn_add_words_exact [OF refl x3] unfolding r2 by blast+
  have "bn_sqr_normal a = fst (bn_add_words ?r3 (bn_sqr_words a))"
    using n by (simp add: bn_sqr_normal_def Let_def)
  moreover have "length (fst (bn_add_words ?r3 (bn_sqr_words a))) = 2 * ?n \<and>
      bn_val (fst (bn_add_words ?r3 (bn_sqr_words a))) = bn_val ?r3 + bn_val (bn_sqr_words a)"
  proof -
    have "length ?r3 = length (bn_sqr_words a)" "bn_val ?r3 + bn_val (bn_sqr_words a) < B64 ^ length ?r3"
      using r3 sq b by (simp_all only:, linarith+)
    from bn_add_words_exact [OF this] show ?thesis unfolding r3 .
  qed
  ultimately show ?thesis using r3 sq by simp
qed (simp add: bn_sqr_normal_def)

lemma bn_sqr_small_val:
  "num_r = 2 * length a \<Longrightarrow> length a \<le> BN_SMALL_MAX_WORDS \<Longrightarrow>
     \<exists>r. bn_sqr_small num_r a = Some r \<and> length r = num_r \<and> bn_val r = bn_val a * bn_val a"
  using bn_sqr_normal_val [of a] bn_sqr_comba4_val [of a] bn_sqr_comba8_val [of a] by (auto simp: bn_sqr_small_def)

end
