(* ===== verification/Bn_Karatsuba.thy ===== *)
theory Bn_Karatsuba
  imports Bn_Mul "HOL-Library.Monad_Syntax"
begin

text \<open>
  The Karatsuba routines of \<open>fipsmodule/bn/mul.c\<close>. The scratch array \<open>t\<close> of the source is not part of the model: its parts
  are the intermediate results. The lengths come with the arrays: \<open>dna = length a - n2\<close>, \<open>tna = length a - n\<close>. An assertion
  that fails is \<open>None\<close>; the theorems at the end show that none does, and that the results are the products.
\<close>

subsection \<open>Karatsuba multiplication\<close>

abbreviation BN_MUL_RECURSIVE_SIZE_NORMAL :: nat where "BN_MUL_RECURSIVE_SIZE_NORMAL \<equiv> 16"

definition bn_abs_sub_words :: "limb list \<Rightarrow> limb list \<Rightarrow> limb list" where
  "bn_abs_sub_words a b =
     (case bn_sub_words a b of (tmp, borrow) \<Rightarrow>
        case bn_sub_words b a of (r, _) \<Rightarrow> bn_select_words (0 - borrow) r tmp)"

text \<open>The words that only one of the arrays has: \<open>dl < 0\<close> and \<open>dl > 0\<close>.\<close>

fun sub_rest_b :: "limb \<Rightarrow> limb list \<Rightarrow> limb list \<times> limb" where
  "sub_rest_b c (t # ts) = (case sub_rest_b (if t \<noteq> 0 then 1 else c) ts of (r, c') \<Rightarrow> ((0 - t - c) # r, c'))"
| "sub_rest_b c [] = ([], c)"

fun sub_rest_a :: "limb \<Rightarrow> limb list \<Rightarrow> limb list \<times> limb" where
  "sub_rest_a c (t # ts) =
     (if c = 0 then (t # ts, c)
      else case sub_rest_a (if t \<noteq> 0 then 0 else c) ts of (r, c') \<Rightarrow> ((t - c) # r, c'))"
| "sub_rest_a c [] = ([], c)"

definition bn_sub_part_words :: "limb list \<Rightarrow> limb list \<Rightarrow> limb list \<times> limb" where
  "bn_sub_part_words a b =
     (let cl = (if length a < length b then length a else length b) in
      case bn_sub_words (take cl a) (take cl b) of (r, c) \<Rightarrow>
        if length a = length b then (r, c)
        else case (if length a < length b then sub_rest_b c (drop cl b) else sub_rest_a c (drop cl a)) of
               (r', c) \<Rightarrow> (r @ r', c))"

definition bn_abs_sub_part_words :: "limb list \<Rightarrow> limb list \<Rightarrow> limb list \<times> limb" where
  "bn_abs_sub_part_words a b =
     (case bn_sub_part_words a b of (tmp, borrow) \<Rightarrow>
        case bn_sub_part_words b a of (r, _) \<Rightarrow>
          let borrow = 0 - borrow in (bn_select_words borrow r tmp, borrow))"

lemma sub_rest_b_eq: "sub_rest_b c ts = sub_loop c (replicate (length ts) 0) ts"
proof (induction ts arbitrary: c)
  case (Cons t ts)
  have "(0 \<noteq> t) = (t \<noteq> 0)" "(0 < t) = (t \<noteq> 0)" by (auto simp: word_greater_zero_iff)
  then show ?case using Cons by simp
qed simp

lemma sub_loop_0: "sub_loop 0 ts (replicate (length ts) 0) = (ts, 0)"
  by (induction ts) auto

lemma sub_rest_a_eq: "sub_rest_a c ts = sub_loop c ts (replicate (length ts) 0)"
proof (induction ts arbitrary: c)
  case (Cons t ts)
  show ?case
  proof (cases "c = 0")
    case True
    then show ?thesis using sub_loop_0 [of "t # ts"] by simp
  next
    case False
    have "(if t \<noteq> 0 then if t < 0 then 1 else 0 else c) = (if t \<noteq> 0 then 0 else c)" by simp
    then show ?thesis using Cons False by simp
  qed
qed simp

lemma sub_loop_append:
  "length a = length b \<Longrightarrow>
     sub_loop c (a @ a') (b @ b') =
       (case sub_loop c a b of (r, c1) \<Rightarrow> case sub_loop c1 a' b' of (r', c2) \<Rightarrow> (r @ r', c2))"
  by (induction a b arbitrary: c rule: list_induct2) (simp_all add: Let_def split: prod.splits)

definition pad_to :: "nat \<Rightarrow> limb list \<Rightarrow> limb list" where
  "pad_to n xs = xs @ replicate (n - length xs) 0"

lemma pad_to_simps [simp]: "length xs \<le> n \<Longrightarrow> length (pad_to n xs) = n" "bn_val (pad_to n xs) = bn_val xs"
  by (simp_all add: pad_to_def bn_val_append)

lemma bn_sub_part_words_pad:
  "bn_sub_part_words a b = bn_sub_words (pad_to (max (length a) (length b)) a) (pad_to (max (length a) (length b)) b)"
proof -
  consider "length a = length b" | "length a < length b" | "length b < length a" by linarith
  then show ?thesis
  proof cases
    case 2
    have "sub_loop 0 (a @ replicate (length b - length a) 0) (take (length a) b @ drop (length a) b) =
        (case sub_loop 0 a (take (length a) b) of (r, c1) \<Rightarrow>
          case sub_loop c1 (replicate (length b - length a) 0) (drop (length a) b) of (r', c2) \<Rightarrow> (r @ r', c2))"
      by (rule sub_loop_append) (use 2 in simp)
    then show ?thesis using 2 by (simp add: bn_sub_part_words_def bn_sub_words_def pad_to_def sub_rest_b_eq max_def Let_def)
  next
    case 3
    have "sub_loop 0 (take (length b) a @ drop (length b) a) (b @ replicate (length a - length b) 0) =
        (case sub_loop 0 (take (length b) a) b of (r, c1) \<Rightarrow>
          case sub_loop c1 (drop (length b) a) (replicate (length a - length b) 0) of (r', c2) \<Rightarrow> (r @ r', c2))"
      by (rule sub_loop_append) (use 3 in simp)
    then show ?thesis using 3 by (simp add: bn_sub_part_words_def bn_sub_words_def pad_to_def sub_rest_a_eq max_def Let_def)
  qed (simp add: bn_sub_part_words_def pad_to_def Let_def)
qed

lemma sub_both_ways:
  assumes "length a = length b" "bn_sub_words a b = (s, c)" "bn_sub_words b a = (r, d)"
  shows "length (bn_select_words (0 - c) r s) = length a \<and> 0 - c = word_of_truth (bn_val a < bn_val b) \<and>
     bn_val (bn_select_words (0 - c) r s) = (if bn_val a < bn_val b then bn_val b - bn_val a else bn_val a - bn_val b)"
proof -
  have v: "length s = length a" "bn_val s + bn_val b = bn_val a + B64 ^ length a * unat c" "unat c \<le> 1"
    using bn_sub_words_val [OF assms(1,2)] by auto
  have w: "length r = length a" "bn_val r + bn_val a = bn_val b + B64 ^ length a * unat d" "unat d \<le> 1"
    using bn_sub_words_val [OF assms(1) [symmetric] assms(3)] assms(1) by auto
  have bd: "bn_val s < B64 ^ length a" "bn_val r < B64 ^ length a" "bn_val a < B64 ^ length a" "bn_val b < B64 ^ length a"
    using bn_val_bound [of s] bn_val_bound [of r] bn_val_bound [of a] bn_val_bound [of b] v(1) w(1) assms(1) by simp_all
  have cd: "c = 0 \<or> c = 1" "d = 0 \<or> d = 1" using v(3) w(3) by (auto simp: word_unat_eq_iff)
  have c: "c = 1 \<longleftrightarrow> bn_val a < bn_val b" using cd(1) v bd by auto
  have d: "d = 1 \<longleftrightarrow> bn_val b < bn_val a" using cd(2) w bd by auto
  show ?thesis
    unfolding minus_limb_cases [OF v(3)] using v w cd c d
    by (auto simp: bn_select_words_truth)
qed

lemma bn_abs_sub_part_words_val:
  "bn_abs_sub_part_words a b = (r, m) \<Longrightarrow>
     length r = max (length a) (length b) \<and> m = word_of_truth (bn_val a < bn_val b) \<and>
     bn_val r = (if bn_val a < bn_val b then bn_val b - bn_val a else bn_val a - bn_val b)"
proof -
  assume a: "bn_abs_sub_part_words a b = (r, m)"
  let ?n = "max (length a) (length b)"
  obtain s c where s: "bn_sub_words (pad_to ?n a) (pad_to ?n b) = (s, c)" by (cases "bn_sub_words (pad_to ?n a) (pad_to ?n b)")
  obtain t d where t: "bn_sub_words (pad_to ?n b) (pad_to ?n a) = (t, d)" by (cases "bn_sub_words (pad_to ?n b) (pad_to ?n a)")
  have "r = bn_select_words (0 - c) t s" "m = 0 - c"
    using a s t by (auto simp: bn_abs_sub_part_words_def bn_sub_part_words_pad max.commute Let_def)
  moreover have l: "length (pad_to ?n a) = ?n" "length (pad_to ?n b) = ?n" "bn_val (pad_to ?n a) = bn_val a"
    "bn_val (pad_to ?n b) = bn_val b" by simp_all
  ultimately show ?thesis using sub_both_ways [OF _ s t] unfolding l by blast
qed

lemma bn_abs_sub_words_val:
  assumes "length a = length b"
  shows "length (bn_abs_sub_words a b) = length a \<and>
     bn_val (bn_abs_sub_words a b) = (if bn_val a < bn_val b then bn_val b - bn_val a else bn_val a - bn_val b)"
proof -
  obtain s c where s: "bn_sub_words a b = (s, c)" by (cases "bn_sub_words a b")
  obtain t d where t: "bn_sub_words b a = (t, d)" by (cases "bn_sub_words b a")
  show ?thesis using sub_both_ways [OF assms s t] unfolding bn_abs_sub_words_def s t prod.case by blast
qed

text \<open>The end of the Karatsuba routines: from the outer products in \<open>r\<close> and the middle one in \<open>t23\<close>, with its sign.\<close>

fun carry_loop :: "limb \<Rightarrow> limb list \<Rightarrow> limb list \<times> limb" where
  "carry_loop c (old # rs) = (let r = old + c in case carry_loop (if r < old then 1 else 0) rs of (rs, c) \<Rightarrow> (r # rs, c))"
| "carry_loop c [] = ([], c)"

definition karatsuba_combine :: "nat \<Rightarrow> limb list \<Rightarrow> limb list \<Rightarrow> limb \<Rightarrow> limb list option" where
  "karatsuba_combine n r t23 neg =
     (let n2 = 2 * n in
      case bn_add_words (take n2 r) (drop n2 r) of (t01, c) \<Rightarrow>
      case bn_sub_words t01 t23 of (t45, borrow) \<Rightarrow>
      case bn_add_words t01 t23 of (t67, carry) \<Rightarrow>
        let c_neg = c - borrow;
            c_pos = c + carry;
            t23 = bn_select_words neg t45 t67;
            c = constant_time_select_w neg c_neg c_pos
        in case bn_add_words (take n2 (drop n r)) t23 of (r12, carry) \<Rightarrow>
             case carry_loop (c + carry) (drop (n + n2) r) of (r3, c) \<Rightarrow>
               if c = 0 then Some (take n r @ r12 @ r3) else None)"

lemma carry_loop_val:
  "carry_loop c rs = (rs', c') \<Longrightarrow> length rs' = length rs \<and> bn_val rs' + B64 ^ length rs * unat c' = bn_val rs + unat c"
proof (induction rs arbitrary: c rs')
  case (Cons x rs)
  let ?k = "(if x + c < x then 1 else 0) :: limb"
  obtain ss where ss: "carry_loop ?k rs = (ss, c')" "rs' = (x + c) # ss"
    using Cons.prems by (auto simp: Let_def split: prod.splits)
  have IH: "length ss = length rs" "bn_val ss + B64 ^ length rs * unat c' = bn_val rs + unat ?k"
    using Cons.IH [OF ss(1)] by auto
  have "B64 * (bn_val ss + B64 ^ length rs * unat c') = B64 * (bn_val rs + unat ?k)" using IH(2) by simp
  moreover have "unat (x + c) + B64 * unat ?k = unat x + unat c"
    using limb_add_carry [of c x] by (auto simp: add.commute split: if_splits)
  ultimately show ?case using IH(1) ss(2) by (simp add: algebra_simps)
qed simp

lemma small_limb_add: "unat (x + y) = unat x + unat y" if "unat x + unat y < B64" for x y :: limb
  using that by (simp add: unat_word_ariths)

lemma karatsuba_combine_val:
  assumes len: "length r = 4 * n" "length t23 = 2 * n"
  defines "P \<equiv> bn_val (take (2 * n) r)" and "Q \<equiv> bn_val (drop (2 * n) r)" and "D \<equiv> bn_val t23"
  assumes D: "neg \<Longrightarrow> D \<le> P + Q"
  defines "M \<equiv> if neg then P + Q - D else P + Q + D"
  assumes total: "bn_val r + B64 ^ n * M < B64 ^ (4 * n)"
  shows "\<exists>s. karatsuba_combine n r t23 (word_of_truth neg) = Some s \<and> length s = 4 * n \<and> bn_val s = bn_val r + B64 ^ n * M"
proof -
  let ?N = "B64 ^ (2 * n)"
  obtain t01 c where t01: "bn_add_words (take (2 * n) r) (drop (2 * n) r) = (t01, c)" by (metis surj_pair)
  obtain t45 bo where t45: "bn_sub_words t01 t23 = (t45, bo)" by (metis surj_pair)
  obtain t67 ca where t67: "bn_add_words t01 t23 = (t67, ca)" by (metis surj_pair)
  have v1: "length t01 = 2 * n" "bn_val t01 + ?N * unat c = P + Q" "unat c \<le> 1"
    using bn_add_words_val [OF _ t01] len by (auto simp: P_def Q_def)
  have v2: "length t45 = 2 * n" "bn_val t45 + D = bn_val t01 + ?N * unat bo" "unat bo \<le> 1"
    using bn_sub_words_val [OF _ t45] v1(1) len by (auto simp: D_def)
  have v3: "length t67 = 2 * n" "bn_val t67 + ?N * unat ca = bn_val t01 + D" "unat ca \<le> 1"
    using bn_add_words_val [OF _ t67] v1(1) len by (auto simp: D_def)
  let ?t = "if neg then t45 else t67" and ?c = "if neg then c - bo else c + ca"
  have t: "bn_val ?t + ?N * unat ?c = M \<and> unat ?c \<le> 2 \<and> length ?t = 2 * n"
  proof (cases neg)
    case True
    have "unat bo \<le> unat c"
    proof (rule ccontr)
      assume "\<not> unat bo \<le> unat c"
      then have "unat c = 0" "unat bo = 1" using v1(3) v2(3) by linarith+
      then have "bn_val t45 + D = P + Q + ?N" using v1(2) v2(2) by simp
      moreover have "bn_val t45 < ?N" using bn_val_bound [of t45] v2(1) by simp
      ultimately show False using D [OF True] by linarith
    qed
    then have u: "unat (c - bo) = unat c - unat bo" by (simp add: unat_sub word_le_nat_alt)
    have "?N * (unat c - unat bo) + ?N * unat bo = ?N * unat c" using \<open>unat bo \<le> unat c\<close> by (simp add: diff_mult_distrib2)
    then have "bn_val t45 + ?N * (unat c - unat bo) + D = P + Q" using v1(2) v2(2) by linarith
    then have "bn_val t45 + ?N * (unat c - unat bo) = P + Q - D" by linarith
    then show ?thesis using True u v1(3) v2(1) by (auto simp: M_def)
  next
    case False
    have u: "unat (c + ca) = unat c + unat ca" using v1(3) v3(3) by (intro small_limb_add) simp
    have "bn_val t67 + ?N * (unat c + unat ca) = P + Q + D" using v1(2) v3(2) by (simp add: algebra_simps)
    then show ?thesis using False u v1(3) v3(1,3) by (simp add: M_def)
  qed
  obtain r12 cb where r12: "bn_add_words (take (2 * n) (drop n r)) ?t = (r12, cb)" by (metis surj_pair)
  have v4: "length r12 = 2 * n" "bn_val r12 + ?N * unat cb = bn_val (take (2 * n) (drop n r)) + bn_val ?t" "unat cb \<le> 1"
    using bn_add_words_val [OF _ r12] t len by auto
  obtain r3 cc where r3: "carry_loop (?c + cb) (drop (n + 2 * n) r) = (r3, cc)" by (metis surj_pair)
  have u: "unat (?c + cb) = unat ?c + unat cb" using t v4(3) by (intro small_limb_add) simp
  have v5: "length r3 = n" "bn_val r3 + B64 ^ n * unat cc = bn_val (drop (3 * n) r) + (unat ?c + unat cb)"
    using carry_loop_val [OF r3] len unfolding u by auto
  have split: "bn_val r = bn_val (take n r) + B64 ^ n * (bn_val (take (2 * n) (drop n r)) + ?N * bn_val (drop (3 * n) r))"
    using bn_val_drop [of r n] bn_val_drop [of "drop n r" "2 * n"] len by (simp add: min_def add.commute)
  have pn: "B64 ^ (4 * n) = B64 ^ n * ?N * B64 ^ n" by (simp flip: power_add)
  have eq: "bn_val (take n r @ r12 @ r3) + B64 ^ (4 * n) * unat cc = bn_val r + B64 ^ n * M"
  proof -
    have "bn_val (take n r @ r12 @ r3) + B64 ^ (4 * n) * unat cc =
        bn_val (take n r) + B64 ^ n * (bn_val r12 + ?N * (bn_val r3 + B64 ^ n * unat cc))"
      unfolding pn using len v4(1) by (simp add: bn_val_append min_def algebra_simps)
    also have "\<dots> = bn_val (take n r) + B64 ^ n * ((bn_val r12 + ?N * unat cb) + ?N * (bn_val (drop (3 * n) r) + unat ?c))"
      unfolding v5(2) by (simp add: algebra_simps)
    also have "\<dots> = bn_val r + B64 ^ n * (bn_val ?t + ?N * unat ?c)"
      unfolding v4(2) split by (simp add: algebra_simps)
    finally show ?thesis using t by simp
  qed
  then have "unat cc = 0" using total by (cases "unat cc") simp_all
  then have "cc = 0" by (simp add: unat_eq_0)
  moreover have sel: "bn_select_words (word_of_truth neg) t45 t67 = ?t"
    using v2(1) v3(1) by (simp add: bn_select_words_truth)
  ultimately have "karatsuba_combine n r t23 (word_of_truth neg) = Some (take n r @ r12 @ r3)"
    unfolding karatsuba_combine_def Let_def t01 t45 t67 prod.case sel select_w r12 r3 by simp
  then show ?thesis using eq \<open>unat cc = 0\<close> len v4(1) v5(1) by simp
qed

definition is_pow2 :: "nat \<Rightarrow> bool" where
  "is_pow2 n \<longleftrightarrow> n \<noteq> 0 \<and> n AND (n - 1) = 0"

text \<open>\<open>n2 + dna\<close> and \<open>n2 + dnb\<close> are the lengths of \<open>a\<close> and \<open>b\<close>; the result has \<open>2 * n2\<close> words.\<close>

function bn_mul_recursive :: "nat \<Rightarrow> limb list \<Rightarrow> limb list \<Rightarrow> limb list option" where
  "bn_mul_recursive n2 a b = do {
     let dna = int (length a) - int n2;
     let dnb = int (length b) - int n2;
     _ \<leftarrow> c_assert (is_pow2 n2);
     _ \<leftarrow> c_assert (- (int BN_MUL_RECURSIVE_SIZE_NORMAL div 2) \<le> dna \<and> dna \<le> 0);
     _ \<leftarrow> c_assert (- (int BN_MUL_RECURSIVE_SIZE_NORMAL div 2) \<le> dnb \<and> dnb \<le> 0);
     if n2 = 8 \<and> dna = 0 \<and> dnb = 0 then Some (bn_mul_comba8 a b)
     else if n2 < BN_MUL_RECURSIVE_SIZE_NORMAL then
       Some (bn_mul_normal a b @ replicate (2 * n2 - length a - length b) 0)
     else do {
       let n = n2 div 2;
       let (t0, neg_a) = bn_abs_sub_part_words (take n a) (drop n a);
       let (t1, neg_b) = bn_abs_sub_part_words (drop n b) (take n b);
       let neg = neg_a XOR neg_b;
       (t23, r01, r23) \<leftarrow>
         (if n = 4 \<and> dna = 0 \<and> dnb = 0 then
            Some (bn_mul_comba4 t0 t1, bn_mul_comba4 (take n a) (take n b), bn_mul_comba4 (drop n a) (drop n b))
          else if n = 8 \<and> dna = 0 \<and> dnb = 0 then
            Some (bn_mul_comba8 t0 t1, bn_mul_comba8 (take n a) (take n b), bn_mul_comba8 (drop n a) (drop n b))
          else do {
            t23 \<leftarrow> bn_mul_recursive n t0 t1;
            r01 \<leftarrow> bn_mul_recursive n (take n a) (take n b);
            r23 \<leftarrow> bn_mul_recursive n (drop n a) (drop n b);
            Some (t23, r01, r23) });
       karatsuba_combine n (r01 @ r23) t23 neg } }"
  by auto
termination
  by (relation "measure (\<lambda>(n2, _). n2)") auto

declare bn_mul_recursive.simps [simp del]

text \<open>The search for the size of the upper parts.\<close>

datatype upper_part = Upper_Part nat | Upper_Half nat

function upper_split :: "nat \<Rightarrow> nat \<Rightarrow> nat \<Rightarrow> upper_part" where
  "upper_split tna tnb i =
     (let i' = i div 2 in
      if i' < tna \<or> i' < tnb then Upper_Part i'
      else if i' = tna \<or> i' = tnb then Upper_Half i'
      else upper_split tna tnb i')"
  by auto
termination
  by (relation "measure (\<lambda>(_, _, i). i)") (auto intro: Nat.gr0I)

declare upper_split.simps [simp del]

lemma upper_split_less: "upper_split tna tnb i = Upper_Part k \<Longrightarrow> k = 0 \<or> k < i"
proof (induction tna tnb i rule: upper_split.induct)
  case (1 tna tnb i)
  show ?case
  proof (cases "i div 2 < tna \<or> i div 2 < tnb \<or> i div 2 = tna \<or> i div 2 = tnb")
    case True
    then show ?thesis using "1.prems" upper_split.simps [of tna tnb i] by (auto simp: Let_def split: if_splits)
  next
    case False
    then have "upper_split tna tnb (i div 2) = Upper_Part k"
      using "1.prems" upper_split.simps [of tna tnb i] by (simp add: Let_def)
    then have "k = 0 \<or> k < i div 2" using "1.IH" [OF refl] False by blast
    then show ?thesis by auto
  qed
qed

text \<open>\<open>memset\<close> of the first \<open>k\<close> bytes of an array of words, on a little-endian machine.\<close>

fun zero_bytes :: "nat \<Rightarrow> limb list \<Rightarrow> limb list" where
  "zero_bytes k [] = []"
| "zero_bytes k (w # ws) = (if 8 \<le> k then 0 # zero_bytes (k - 8) ws else push_bit (8 * k) (drop_bit (8 * k) w) # ws)"

text \<open>
  \<open>n + tna\<close> and \<open>n + tnb\<close> are the lengths of \<open>a\<close> and \<open>b\<close>; \<open>r\<close> holds what was in the \<open>4 * n\<close> words of the result:
  below 8 words the routine leaves some of it.
\<close>

function bn_mul_part_recursive :: "limb list \<Rightarrow> nat \<Rightarrow> limb list \<Rightarrow> limb list \<Rightarrow> limb list option" where
  "bn_mul_part_recursive r n a b = do {
     let tna = int (length a) - int n;
     let tnb = int (length b) - int n;
     _ \<leftarrow> c_assert (is_pow2 n);
     _ \<leftarrow> c_assert (0 \<le> tna \<and> tna < int n);
     _ \<leftarrow> c_assert (0 \<le> tnb \<and> tnb < int n);
     _ \<leftarrow> c_assert (-1 \<le> tna - tnb \<and> tna - tnb \<le> 1);
     let tna = nat tna;
     let tnb = nat tnb;
     let n2 = n * 2;
     if n < 8 then
       Some (bn_mul_normal a b @ zero_bytes (n2 - tna - tnb) (drop (n2 + tna + tnb) r))
     else do {
       let (t0, neg_a) = bn_abs_sub_part_words (take n a) (drop n a);
       let (t1, neg_b) = bn_abs_sub_part_words (drop n b) (take n b);
       let neg = neg_a XOR neg_b;
       (t23, r01, r23) \<leftarrow>
         (if n = 8 then
            Some (bn_mul_comba8 t0 t1, bn_mul_comba8 (take n a) (take n b),
                  bn_mul_normal (drop n a) (drop n b) @ replicate (n2 - tna - tnb) 0)
          else do {
            t23 \<leftarrow> bn_mul_recursive n t0 t1;
            r01 \<leftarrow> bn_mul_recursive n (take n a) (take n b);
            r23 \<leftarrow>
              (if tna < BN_MUL_RECURSIVE_SIZE_NORMAL \<and> tnb < BN_MUL_RECURSIVE_SIZE_NORMAL then
                 Some (bn_mul_normal (drop n a) (drop n b))
               else case upper_split tna tnb n of
                   Upper_Part i \<Rightarrow> bn_mul_part_recursive (replicate (4 * i) 0) i (drop n a) (drop n b)
                 | Upper_Half i \<Rightarrow> bn_mul_recursive i (drop n a) (drop n b));
            Some (t23, r01, r23 @ replicate (n2 - length r23) 0) });
       karatsuba_combine n (r01 @ r23) t23 neg } }"
  by auto
termination
  by (relation "measure (\<lambda>(_, n, _). n)") (auto dest!: upper_split_less)

declare bn_mul_part_recursive.simps [simp del]

abbreviation BN_SQR_RECURSIVE_SIZE_NORMAL :: nat where "BN_SQR_RECURSIVE_SIZE_NORMAL \<equiv> 16"

function bn_sqr_recursive :: "nat \<Rightarrow> limb list \<Rightarrow> limb list option" where
  "bn_sqr_recursive n2 a = do {
     _ \<leftarrow> c_assert (is_pow2 n2);
     if n2 = 4 then Some (bn_sqr_comba4 a)
     else if n2 = 8 then Some (bn_sqr_comba8 a)
     else if n2 < BN_SQR_RECURSIVE_SIZE_NORMAL then Some (bn_sqr_normal a)
     else do {
       let n = n2 div 2;
       let t0 = bn_abs_sub_words (take n a) (drop n a);
       t23 \<leftarrow> bn_sqr_recursive n t0;
       r01 \<leftarrow> bn_sqr_recursive n (take n a);
       r23 \<leftarrow> bn_sqr_recursive n (drop n a);
       let (t01, c) = bn_add_words r01 r23;
       let (t23, borrow) = bn_sub_words t01 t23;
       let c = c - borrow;
       let r = r01 @ r23;
       let (r12, carry) = bn_add_words (take n2 (drop n r)) t23;
       let (r3, c) = carry_loop (c + carry) (drop (n + n2) r);
       _ \<leftarrow> c_assert (c = 0);
       Some (take n r @ r12 @ r3) } }"
  by auto
termination
  by (relation "measure (\<lambda>(n2, _). n2)") auto

declare bn_sqr_recursive.simps [simp del]

text \<open>The middle term has the sign of \<open>(a0 - a1) * (b1 - b0)\<close>.\<close>

lemma karatsuba_middle:
  fixes a0 a1 b0 b1 :: nat
  defines "d1 \<equiv> if a0 < a1 then a1 - a0 else a0 - a1" and "d2 \<equiv> if b1 < b0 then b0 - b1 else b1 - b0"
  shows "if (a0 < a1) \<noteq> (b1 < b0) then d1 * d2 + (a0 * b1 + a1 * b0) = a0 * b0 + a1 * b1
     else a0 * b0 + a1 * b1 + d1 * d2 = a0 * b1 + a1 * b0"
proof -
  consider i j where "a1 = a0 + i" "b0 = b1 + j" "0 < i" "0 < j" | i j where "a1 = a0 + i" "b1 = b0 + j" "0 < i"
    | i j where "a0 = a1 + i" "b0 = b1 + j" "0 < j" | i j where "a0 = a1 + i" "b1 = b0 + j"
    by (metis less_imp_add_positive le_Suc_ex not_less)
  then show ?thesis by cases (simp_all add: d1_def d2_def algebra_simps)
qed

lemma word_of_truth_xor: "(word_of_truth p XOR word_of_truth q :: limb) = word_of_truth (p \<noteq> q)"
  by simp

lemma karatsuba_step:
  assumes len: "length a0 = n" "length b0 = n" "length r01 = 2 * n" "length r23 = 2 * n" "length t23 = 2 * n"
    and la: "length a1 \<le> n" "length b1 \<le> n"
    and t0: "bn_abs_sub_part_words a0 a1 = (t0, neg_a)" and t1: "bn_abs_sub_part_words b1 b0 = (t1, neg_b)"
    and v: "bn_val r01 = bn_val a0 * bn_val b0" "bn_val r23 = bn_val a1 * bn_val b1" "bn_val t23 = bn_val t0 * bn_val t1"
  shows "\<exists>s. karatsuba_combine n (r01 @ r23) t23 (neg_a XOR neg_b) = Some s \<and> length s = 4 * n \<and>
     bn_val s = bn_val (a0 @ a1) * bn_val (b0 @ b1)"
proof -
  let ?neg = "(bn_val a0 < bn_val a1) \<noteq> (bn_val b1 < bn_val b0)"
  have w0: "neg_a = word_of_truth (bn_val a0 < bn_val a1)"
    "bn_val t0 = (if bn_val a0 < bn_val a1 then bn_val a1 - bn_val a0 else bn_val a0 - bn_val a1)"
    using bn_abs_sub_part_words_val [OF t0] by blast+
  have w1: "neg_b = word_of_truth (bn_val b1 < bn_val b0)"
    "bn_val t1 = (if bn_val b1 < bn_val b0 then bn_val b0 - bn_val b1 else bn_val b1 - bn_val b0)"
    using bn_abs_sub_part_words_val [OF t1] by blast+
  note mid = karatsuba_middle [of "bn_val a0" "bn_val a1" "bn_val b1" "bn_val b0", folded w0(2) w1(2) v]
  have neg: "neg_a XOR neg_b = word_of_truth ?neg" unfolding w0(1) w1(1) by (rule word_of_truth_xor)
  let ?M = "bn_val a0 * bn_val b1 + bn_val a1 * bn_val b0"
  have M: "(if ?neg then bn_val r01 + bn_val r23 - bn_val t23 else bn_val r01 + bn_val r23 + bn_val t23) = ?M"
    and D: "?neg \<Longrightarrow> bn_val t23 \<le> bn_val r01 + bn_val r23"
    using mid by (auto split: if_splits)
  have val: "bn_val (r01 @ r23) + B64 ^ n * ?M = bn_val (a0 @ a1) * bn_val (b0 @ b1)"
    unfolding bn_val_append len v mult_2 power_add by (simp add: algebra_simps)
  have "bn_val (a0 @ a1) < B64 ^ (2 * n)" "bn_val (b0 @ b1) < B64 ^ (2 * n)"
    using bn_val_bound [of "a0 @ a1"] bn_val_bound [of "b0 @ b1"] len la
    by (auto elim!: less_le_trans intro!: power_increasing)
  then have "bn_val (a0 @ a1) * bn_val (b0 @ b1) < B64 ^ (2 * n) * B64 ^ (2 * n)"
    by (intro mult_strict_mono) auto
  then have total: "bn_val (r01 @ r23) + B64 ^ n * ?M < B64 ^ (4 * n)" unfolding val by (simp flip: power_add)
  have tk: "take (2 * n) (r01 @ r23) = r01" "drop (2 * n) (r01 @ r23) = r23" using len by simp_all
  show ?thesis
    using karatsuba_combine_val [of "r01 @ r23" n t23 ?neg, unfolded tk M, OF _ _ D total] len
    unfolding neg val by simp
qed

lemma is_pow2_half: "is_pow2 n \<Longrightarrow> 2 \<le> n \<Longrightarrow> is_pow2 (n div 2) \<and> 2 * (n div 2) = n"
proof -
  assume n: "is_pow2 n" "2 \<le> n"
  have "even n"
  proof (rule ccontr)
    assume "odd n"
    then have "bit n (m::nat) = bit (n - 1) m" if "0 < m" for m using that by (cases m) (auto simp: bit_Suc elim!: oddE)
    then have "n AND (n - 1) = n - 1" using \<open>odd n\<close> by (intro bit_eqI) (auto simp: bit_and_iff, metis bit_0 even_diff_nat gr0I not_less_eq odd_one less_one)
    then show False using n by (simp add: is_pow2_def)
  qed
  then obtain m where m: "n = 2 * m" by blast
  have "m AND (m - 1) = 0"
  proof (rule bit_eqI)
    fix k
    have "\<not> bit (n AND (n - 1)) (Suc k)" using n by (simp add: is_pow2_def)
    then have "\<not> (bit n (Suc k) \<and> bit (n - 1) (Suc k))" by (simp only: bit_and_iff) simp
    moreover have "(n - 1) div 2 = m - 1" "n div 2 = m" using m by arith+
    ultimately show "bit (m AND (m - 1)) k = bit (0::nat) k" by (simp only: bit_and_iff bit_Suc) simp
  qed
  then show ?thesis using m n by (simp add: is_pow2_def)
qed

lemma is_pow2_table: "list_all (\<lambda>n. is_pow2 n \<longrightarrow> n = 1 \<or> n = 2 \<or> n = 4 \<or> n = 8) [0..<16]"
  by code_simp

lemma is_pow2_less_16: "is_pow2 n \<Longrightarrow> n < 16 \<Longrightarrow> n = 1 \<or> n = 2 \<or> n = 4 \<or> n = 8"
  using is_pow2_table by (simp only: list_all_iff set_upt) simp

theorem bn_mul_recursive_val:
  "is_pow2 n2 \<Longrightarrow> n2 \<le> length a + 8 \<Longrightarrow> length a \<le> n2 \<Longrightarrow> n2 \<le> length b + 8 \<Longrightarrow> length b \<le> n2 \<Longrightarrow>
     \<exists>r. bn_mul_recursive n2 a b = Some r \<and> length r = 2 * n2 \<and> bn_val r = bn_val a * bn_val b"
proof (induction n2 arbitrary: a b rule: less_induct)
  case (less n2)
  note IH = less.IH and prems = less.prems
  have d: "- 8 \<le> int (length a) - int n2" "- 8 \<le> int (length b) - int n2" using prems by linarith+
  note eq = bn_mul_recursive.simps [of n2 a b]
  show ?case
  proof (cases "n2 < 16")
    case True
    then show ?thesis
      unfolding eq using prems d bn_mul_comba8_val [of a b] bn_mul_normal_val [of a b]
      by (auto simp: bn_val_append Let_def)
  next
    case False
    let ?n = "n2 div 2"
    have n: "is_pow2 ?n" "2 * ?n = n2" using is_pow2_half [OF prems(1)] False by auto
    let ?a0 = "take ?n a" and ?a1 = "drop ?n a" and ?b0 = "take ?n b" and ?b1 = "drop ?n b"
    have len: "length ?a0 = ?n" "length ?b0 = ?n" "length ?a1 \<le> ?n" "length ?b1 \<le> ?n" "?n \<le> length ?a1 + 8" "?n \<le> length ?b1 + 8"
      using prems False n(2) by auto
    obtain t0 na where t0: "bn_abs_sub_part_words ?a0 ?a1 = (t0, na)" by (metis surj_pair)
    obtain t1 nb where t1: "bn_abs_sub_part_words ?b1 ?b0 = (t1, nb)" by (metis surj_pair)
    have lt: "length t0 = ?n" "length t1 = ?n"
      using bn_abs_sub_part_words_val [OF t0] bn_abs_sub_part_words_val [OF t1] len by (auto simp: max_def)
    let ?P = "\<lambda>r a b. length r = n2 \<and> bn_val r = bn_val a * bn_val b"
    let ?parts = "if ?n = 4 \<and> int (length a) - int n2 = 0 \<and> int (length b) - int n2 = 0 then
            Some (bn_mul_comba4 t0 t1, bn_mul_comba4 ?a0 ?b0, bn_mul_comba4 ?a1 ?b1)
          else if ?n = 8 \<and> int (length a) - int n2 = 0 \<and> int (length b) - int n2 = 0 then
            Some (bn_mul_comba8 t0 t1, bn_mul_comba8 ?a0 ?b0, bn_mul_comba8 ?a1 ?b1)
          else do {
            t23 \<leftarrow> bn_mul_recursive ?n t0 t1;
            r01 \<leftarrow> bn_mul_recursive ?n ?a0 ?b0;
            r23 \<leftarrow> bn_mul_recursive ?n ?a1 ?b1;
            Some (t23, r01, r23) }"
    have "\<exists>t23 r01 r23. ?parts = Some (t23, r01, r23) \<and> ?P t23 t0 t1 \<and> ?P r01 ?a0 ?b0 \<and> ?P r23 ?a1 ?b1"
    proof (cases "?n = 8 \<and> length a = n2 \<and> length b = n2")
      case True
      then show ?thesis
        using bn_mul_comba8_val [of t0 t1] bn_mul_comba8_val [of ?a0 ?b0] bn_mul_comba8_val [of ?a1 ?b1] lt len n(2) by auto
    next
      case no: False
      have s: "?n < n2" using False by simp
      have full: "\<exists>r. bn_mul_recursive ?n x y = Some r \<and> ?P r x y" if "length x = ?n" "length y = ?n" for x y
        using IH [OF s n(1), of x y] that n(2) by simp
      obtain t23 where t23: "bn_mul_recursive ?n t0 t1 = Some t23" "?P t23 t0 t1" using full [OF lt] by blast
      obtain r01 where r01: "bn_mul_recursive ?n ?a0 ?b0 = Some r01" "?P r01 ?a0 ?b0" using full [OF len(1,2)] by blast
      obtain r23 where r23: "bn_mul_recursive ?n ?a1 ?b1 = Some r23" "?P r23 ?a1 ?b1"
        using IH [OF s n(1) len(5,3,6,4)] unfolding n(2) by blast
      have "?n \<noteq> 4" using False by simp
      moreover have "\<not> (?n = 8 \<and> int (length a) - int n2 = 0 \<and> int (length b) - int n2 = 0)" using no by auto
      ultimately have "?parts = Some (t23, r01, r23)"
        unfolding t23(1) r01(1) r23(1) by (simp only: simp_thms if_False Option.bind.bind_lunit)
      then show ?thesis using t23(2) r01(2) r23(2) by blast
    qed
    then obtain t23 r01 r23 where p: "?parts = Some (t23, r01, r23)" "?P t23 t0 t1" "?P r01 ?a0 ?b0" "?P r23 ?a1 ?b1"
      by blast
    have "bn_mul_recursive n2 a b = karatsuba_combine ?n (r01 @ r23) t23 (na XOR nb)"
      unfolding eq Let_def t0 t1 prod.case p(1) using False d prems by simp
    moreover have "\<exists>s. karatsuba_combine ?n (r01 @ r23) t23 (na XOR nb) = Some s \<and> length s = 4 * ?n \<and>
       bn_val s = bn_val (?a0 @ ?a1) * bn_val (?b0 @ ?b1)"
      by (rule karatsuba_step [OF len(1,2) _ _ _ len(3,4) t0 t1]) (use p(2-4) n(2) in auto)
    ultimately show ?thesis using n(2) by auto
  qed
qed

lemma upper_split_spec:
  "is_pow2 i \<Longrightarrow> 16 \<le> tna \<or> 16 \<le> tnb \<Longrightarrow> tna < i \<Longrightarrow> tnb < i \<Longrightarrow> tna \<le> tnb + 1 \<Longrightarrow> tnb \<le> tna + 1 \<Longrightarrow>
     case upper_split tna tnb i of
       Upper_Part k \<Rightarrow> is_pow2 k \<and> 8 \<le> k \<and> 2 * k \<le> i \<and> k \<le> tna \<and> tna < 2 * k \<and> k \<le> tnb \<and> tnb < 2 * k
     | Upper_Half k \<Rightarrow> is_pow2 k \<and> 2 * k \<le> i \<and> tna \<le> k \<and> k \<le> tna + 1 \<and> tnb \<le> k \<and> k \<le> tnb + 1"
proof (induction tna tnb i rule: upper_split.induct)
  case (1 tna tnb i)
  have h: "is_pow2 (i div 2)" "2 * (i div 2) = i" using is_pow2_half [OF "1.prems"(1)] "1.prems" by linarith+
  show ?case
  proof (cases "i div 2 < tna \<or> i div 2 < tnb \<or> i div 2 = tna \<or> i div 2 = tnb")
    case True
    then show ?thesis using "1.prems" h upper_split.simps [of tna tnb i] by (auto simp: Let_def)
  next
    case False
    then have "upper_split tna tnb i = upper_split tna tnb (i div 2)"
      using upper_split.simps [of tna tnb i] by (simp add: Let_def)
    moreover have "tna < i div 2" "tnb < i div 2" using False by linarith+
    ultimately show ?thesis
      using "1.IH" [OF refl _ _ h(1) "1.prems"(2) _ _ "1.prems"(5,6)] False h
      by (auto split: upper_part.splits)
  qed
qed

lemma bn_val_pad: "length r \<le> n \<Longrightarrow> length (r @ replicate (n - length r) 0) = n \<and> bn_val (r @ replicate (n - length r) 0) = bn_val r"
  by (simp add: bn_val_append)

theorem bn_mul_part_recursive_val:
  "is_pow2 n \<Longrightarrow> 8 \<le> n \<Longrightarrow> n \<le> length a \<Longrightarrow> length a < 2 * n \<Longrightarrow> n \<le> length b \<Longrightarrow> length b < 2 * n \<Longrightarrow>
   length a \<le> length b + 1 \<Longrightarrow> length b \<le> length a + 1 \<Longrightarrow>
     \<exists>s. bn_mul_part_recursive r n a b = Some s \<and> length s = 4 * n \<and> bn_val s = bn_val a * bn_val b"
proof (induction n arbitrary: r a b rule: less_induct)
  case (less n)
  note IH = less.IH and prems = less.prems
  note eq = bn_mul_part_recursive.simps [of r n a b]
  let ?a0 = "take n a" and ?a1 = "drop n a" and ?b0 = "take n b" and ?b1 = "drop n b"
  let ?ta = "nat (int (length a) - int n)" and ?tb = "nat (int (length b) - int n)"
  have len: "length ?a0 = n" "length ?b0 = n" "length ?a1 \<le> n" "length ?b1 \<le> n" using prems by auto
  have ta: "?ta = length ?a1" "?tb = length ?b1" by simp_all
  obtain t0 na where t0: "bn_abs_sub_part_words ?a0 ?a1 = (t0, na)" by (metis surj_pair)
  obtain t1 nb where t1: "bn_abs_sub_part_words ?b1 ?b0 = (t1, nb)" by (metis surj_pair)
  have lt: "length t0 = n" "length t1 = n"
    using bn_abs_sub_part_words_val [OF t0] bn_abs_sub_part_words_val [OF t1] len by (auto simp: max_def)
  let ?P = "\<lambda>r a b. length r = 2 * n \<and> bn_val r = bn_val a * bn_val b"
  let ?upper = "if ?ta < 16 \<and> ?tb < 16 then Some (bn_mul_normal ?a1 ?b1)
      else case upper_split ?ta ?tb n of
          Upper_Part i \<Rightarrow> bn_mul_part_recursive (replicate (4 * i) 0) i ?a1 ?b1
        | Upper_Half i \<Rightarrow> bn_mul_recursive i ?a1 ?b1"
  let ?parts = "if n = 8 then
         Some (bn_mul_comba8 t0 t1, bn_mul_comba8 ?a0 ?b0, bn_mul_normal ?a1 ?b1 @ replicate (n * 2 - ?ta - ?tb) 0)
       else do {
         t23 \<leftarrow> bn_mul_recursive n t0 t1;
         r01 \<leftarrow> bn_mul_recursive n ?a0 ?b0;
         r23 \<leftarrow> ?upper;
         Some (t23, r01, r23 @ replicate (n * 2 - length r23) 0) }"
  have "\<exists>t23 r01 r23. ?parts = Some (t23, r01, r23) \<and> ?P t23 t0 t1 \<and> ?P r01 ?a0 ?b0 \<and> ?P r23 ?a1 ?b1"
  proof (cases "n = 8")
    case True
    then show ?thesis
      using bn_mul_comba8_val [of t0 t1] bn_mul_comba8_val [of ?a0 ?b0] bn_mul_normal_val [of ?a1 ?b1] lt len prems
      by (auto simp: bn_val_append)
  next
    case False
    have full: "\<exists>r. bn_mul_recursive n x y = Some r \<and> ?P r x y" if "length x = n" "length y = n" for x y
      using bn_mul_recursive_val [OF prems(1), of x y] that by simp
    obtain t23 where t23: "bn_mul_recursive n t0 t1 = Some t23" "?P t23 t0 t1" using full [OF lt] by blast
    obtain r01 where r01: "bn_mul_recursive n ?a0 ?b0 = Some r01" "?P r01 ?a0 ?b0" using full [OF len(1,2)] by blast
    have "\<exists>r. ?upper = Some r \<and> length r \<le> n * 2 \<and> bn_val r = bn_val ?a1 * bn_val ?b1"
    proof (cases "?ta < 16 \<and> ?tb < 16")
      case True
      then show ?thesis using bn_mul_normal_val [of ?a1 ?b1] len by simp
    next
      case big: False
      have "length ?a1 < n" "length ?b1 < n" "length ?a1 \<le> length ?b1 + 1" "length ?b1 \<le> length ?a1 + 1"
        using prems by auto
      with upper_split_spec [OF prems(1), of ?ta ?tb] big have sp: "case upper_split ?ta ?tb n of
          Upper_Part k \<Rightarrow> is_pow2 k \<and> 8 \<le> k \<and> 2 * k \<le> n \<and> k \<le> ?ta \<and> ?ta < 2 * k \<and> k \<le> ?tb \<and> ?tb < 2 * k
        | Upper_Half k \<Rightarrow> is_pow2 k \<and> 2 * k \<le> n \<and> ?ta \<le> k \<and> k \<le> ?ta + 1 \<and> ?tb \<le> k \<and> k \<le> ?tb + 1"
        unfolding ta by linarith
      show ?thesis
      proof (cases "upper_split ?ta ?tb n")
        case (Upper_Part k)
        then have k: "is_pow2 k" "8 \<le> k" "2 * k \<le> n" "k \<le> length ?a1" "length ?a1 < 2 * k" "k \<le> length ?b1" "length ?b1 < 2 * k"
          using sp unfolding ta by simp_all
        have "k < n" using k(2,3) by linarith
        from IH [OF this k(1,2,4-7)] show ?thesis using prems k(3) Upper_Part big by fastforce
      next
        case (Upper_Half k)
        then have k: "is_pow2 k" "2 * k \<le> n" "length ?a1 \<le> k" "k \<le> length ?a1 + 1" "length ?b1 \<le> k" "k \<le> length ?b1 + 1"
          using sp unfolding ta by simp_all
        then show ?thesis using bn_mul_recursive_val [of k ?a1 ?b1] Upper_Half big by fastforce
      qed
    qed
    then obtain r23 where r23: "?upper = Some r23" "length r23 \<le> n * 2" "bn_val r23 = bn_val ?a1 * bn_val ?b1" by blast
    have "?parts = Some (t23, r01, r23 @ replicate (n * 2 - length r23) 0)"
      unfolding t23(1) r01(1) r23(1) using False by simp
    then show ?thesis using t23(2) r01(2) bn_val_pad [OF r23(2)] r23(3) by auto
  qed
  then obtain t23 r01 r23 where p: "?parts = Some (t23, r01, r23)" "?P t23 t0 t1" "?P r01 ?a0 ?b0" "?P r23 ?a1 ?b1"
    by blast
  have "bn_mul_part_recursive r n a b = karatsuba_combine n (r01 @ r23) t23 (na XOR nb)"
    unfolding eq Let_def t0 t1 prod.case p(1) using prems by simp
  moreover have "\<exists>s. karatsuba_combine n (r01 @ r23) t23 (na XOR nb) = Some s \<and> length s = 4 * n \<and>
     bn_val s = bn_val (?a0 @ ?a1) * bn_val (?b0 @ ?b1)"
    by (rule karatsuba_step [OF len(1,2) _ _ _ len(3,4) t0 t1]) (use p(2-4) in auto)
  ultimately show ?case by simp
qed

lemma karatsuba_combine_neg:
  assumes "length r01 = 2 * n" "length r23 = 2 * n" "length t23 = 2 * n"
  shows "karatsuba_combine n (r01 @ r23) t23 (- 1) =
     (case bn_add_words r01 r23 of (t01, c) \<Rightarrow> case bn_sub_words t01 t23 of (t23, borrow) \<Rightarrow>
      case bn_add_words (take (2 * n) (drop n (r01 @ r23))) t23 of (r12, carry) \<Rightarrow>
      case carry_loop (c - borrow + carry) (drop (n + 2 * n) (r01 @ r23)) of (r3, c) \<Rightarrow>
        if c = 0 then Some (take n (r01 @ r23) @ r12 @ r3) else None)"
proof -
  obtain t01 c where t01: "bn_add_words r01 r23 = (t01, c)" by (metis surj_pair)
  obtain t45 bo where t45: "bn_sub_words t01 t23 = (t45, bo)" by (metis surj_pair)
  obtain t67 ca where t67: "bn_add_words t01 t23 = (t67, ca)" by (metis surj_pair)
  have "length t01 = 2 * n" using bn_add_words_val [OF _ t01] assms by simp
  then have l: "length t45 = length t67" using bn_sub_words_val [OF _ t45] bn_add_words_val [OF _ t67] assms by simp
  have "bn_select_words (- 1) t45 t67 = t45" "constant_time_select_w (- 1) x y = x" for x y
    using bn_select_words_truth [OF l, of True] select_w [of True] by simp_all
  then show ?thesis
    using t45 t67 assms by (simp add: karatsuba_combine_def Let_def t01)
qed

lemma square_of_difference:
  fixes a0 a1 :: nat
  defines "d \<equiv> if a0 < a1 then a1 - a0 else a0 - a1"
  shows "d * d + 2 * (a0 * a1) = a0 * a0 + a1 * a1"
proof -
  consider i where "a1 = a0 + i" "0 < i" | i where "a0 = a1 + i" by (metis less_imp_add_positive le_Suc_ex not_less)
  then show ?thesis by cases (simp_all add: d_def algebra_simps)
qed

theorem bn_sqr_recursive_val:
  "is_pow2 n2 \<Longrightarrow> length a = n2 \<Longrightarrow>
     \<exists>r. bn_sqr_recursive n2 a = Some r \<and> length r = 2 * n2 \<and> bn_val r = bn_val a * bn_val a"
proof (induction n2 arbitrary: a rule: less_induct)
  case (less n2)
  note eq = bn_sqr_recursive.simps [of n2 a]
  show ?case
  proof (cases "n2 < 16")
    case True
    then show ?thesis
      unfolding eq using less.prems bn_sqr_comba4_val [of a] bn_sqr_comba8_val [of a] bn_sqr_normal_val [of a] by auto
  next
    case False
    let ?n = "n2 div 2"
    have n: "is_pow2 ?n" "2 * ?n = n2" "?n < n2" using is_pow2_half [OF less.prems(1)] False by auto
    let ?a0 = "take ?n a" and ?a1 = "drop ?n a"
    let ?t0 = "bn_abs_sub_words ?a0 ?a1"
    have len: "length ?a0 = ?n" "length ?a1 = ?n" using less.prems n(2) by auto
    have t0: "length ?t0 = ?n"
      "bn_val ?t0 = (if bn_val ?a0 < bn_val ?a1 then bn_val ?a1 - bn_val ?a0 else bn_val ?a0 - bn_val ?a1)"
      using bn_abs_sub_words_val [of ?a0 ?a1] len by simp_all
    have rec: "\<exists>r. bn_sqr_recursive ?n x = Some r \<and> length r = n2 \<and> bn_val r = bn_val x * bn_val x" if "length x = ?n" for x
      using less.IH [OF n(3,1) that] n(2) by simp
    obtain t23 where t23: "bn_sqr_recursive ?n ?t0 = Some t23" "length t23 = n2" "bn_val t23 = bn_val ?t0 * bn_val ?t0"
      using rec [OF t0(1)] by blast
    obtain r01 where r01: "bn_sqr_recursive ?n ?a0 = Some r01" "length r01 = n2" "bn_val r01 = bn_val ?a0 * bn_val ?a0"
      using rec [OF len(1)] by blast
    obtain r23 where r23: "bn_sqr_recursive ?n ?a1 = Some r23" "length r23 = n2" "bn_val r23 = bn_val ?a1 * bn_val ?a1"
      using rec [OF len(2)] by blast
    have l: "length r01 = 2 * ?n" "length r23 = 2 * ?n" "length t23 = 2 * ?n" using r01(2) r23(2) t23(2) n(2) by simp_all
    note sq = square_of_difference [of "bn_val ?a0" "bn_val ?a1", folded t0(2), folded t23(3) r01(3) r23(3)]
    have M: "bn_val r01 + bn_val r23 - bn_val t23 = 2 * (bn_val ?a0 * bn_val ?a1)" using sq by linarith
    have a: "bn_val a = bn_val ?a0 + B64 ^ ?n * bn_val ?a1"
      using bn_val_append [of ?a0 ?a1] len(1) by simp
    have val: "bn_val (r01 @ r23) + B64 ^ ?n * (2 * (bn_val ?a0 * bn_val ?a1)) = bn_val a * bn_val a"
      unfolding bn_val_append l a r01(3) r23(3) mult_2 power_add by (simp add: algebra_simps)
    have "bn_val a * bn_val a < B64 ^ n2 * B64 ^ n2"
      using bn_val_bound [of a] less.prems(2) by (intro mult_strict_mono) auto
    moreover have "4 * ?n = n2 + n2" using n(2) by linarith
    ultimately have total: "bn_val (r01 @ r23) + B64 ^ ?n * (2 * (bn_val ?a0 * bn_val ?a1)) < B64 ^ (4 * ?n)"
      unfolding val by (simp only: power_add)
    have tk: "take (2 * ?n) (r01 @ r23) = r01" "drop (2 * ?n) (r01 @ r23) = r23" using l by simp_all
    have "\<exists>s. karatsuba_combine ?n (r01 @ r23) t23 (word_of_truth True) = Some s \<and> length s = 4 * ?n \<and>
        bn_val s = bn_val (r01 @ r23) + B64 ^ ?n * (2 * (bn_val ?a0 * bn_val ?a1))"
      using karatsuba_combine_val [of "r01 @ r23" ?n t23 True, unfolded tk if_True M] l total sq by simp
    moreover have "bn_sqr_recursive n2 a = karatsuba_combine ?n (r01 @ r23) t23 (- 1)"
      unfolding eq karatsuba_combine_neg [OF l] using False less.prems t23(1) r01(1) r23(1) n(2)
      by (auto simp: Let_def c_assert_def split: prod.splits)
    ultimately show ?thesis unfolding val using n(2) by auto
  qed
qed

subsection \<open>Properties\<close>

text \<open>C7: Karatsuba multiplication. For numbers of \<open>n\<close> to \<open>2 * n - 1\<close> words that differ by at most one word in length, \<open>n\<close> a
  power of two and at least 8 (where \<open>bn_mul_impl\<close> uses it), \<open>bn_mul_part_recursive\<close> returns whatever the result array held, none
  of the assertions of the recursion fails, no carry is lost, and the \<open>4 * n\<close> words of the result are the product; and
  \<open>bn_sqr_recursive\<close> returns the square of every array whose length is a power of two.
\<close>

theorem karatsuba_correct:
  assumes "is_pow2 n" "8 \<le> n" "n \<le> length a" "length a < 2 * n" "n \<le> length b" "length b < 2 * n"
    and "length a \<le> length b + 1" "length b \<le> length a + 1" and "is_pow2 (length c)"
  shows "(\<exists>s. bn_mul_part_recursive r n a b = Some s \<and> length s = 4 * n \<and> bn_val s = bn_val a * bn_val b) \<and>
     (\<exists>s. bn_sqr_recursive (length c) c = Some s \<and> length s = 2 * length c \<and> bn_val s = bn_val c * bn_val c)"
  using bn_mul_part_recursive_val [OF assms(1-8)] bn_sqr_recursive_val [OF assms(9) refl] by blast

lemma karatsuba_correct_witness:
  "(\<exists>s. bn_mul_part_recursive [] 16 (replicate 27 3) (replicate 28 5) = Some s \<and> length s = 64 \<and>
      bn_val s = bn_val (replicate 27 3) * bn_val (replicate 28 5)) \<and>
   (\<exists>s. bn_sqr_recursive 32 (replicate 32 7) = Some s \<and> length s = 64 \<and> bn_val s = bn_val (replicate 32 7) * bn_val (replicate 32 7))"
  using karatsuba_correct [of 16 "replicate 27 3" "replicate 28 5" "replicate 32 7" "[]"]
  by (simp add: is_pow2_def)

text \<open>
  Below eight words the routine clears too little: the length of its \<open>memset\<close> counts words, and \<open>memset\<close> counts bytes, so words
  of the result keep what they held. The product of two zeros is not zero then. \<open>bn_mul_impl\<close> never gets there.
\<close>

lemma part_recursive_short_keeps_words:
  "\<exists>s. bn_mul_part_recursive (replicate 16 1) 4 (replicate 5 0) (replicate 5 0) = Some s \<and> bn_val s \<noteq> 0"
proof -
  have "bn_mul_part_recursive (replicate 16 1) 4 (replicate 5 0) (replicate 5 0) =
      Some (bn_mul_normal (replicate 5 0) (replicate 5 0) @ zero_bytes 6 (replicate 6 1))"
    by (subst bn_mul_part_recursive.simps) (simp add: is_pow2_def Let_def)
  moreover have "replicate 6 (1 :: limb) = [1, 1, 1, 1, 1, 1]" by (simp add: eval_nat_numeral)
  then have "bn_val (zero_bytes 6 (replicate 6 1)) \<noteq> 0" by simp
  ultimately show ?thesis by (simp add: bn_val_append)
qed

end
