(* ===== verification/Bn_Mont.thy ===== *)
theory Bn_Mont
  imports Bn_Karatsuba
begin

text \<open>
  Montgomery arithmetic on word arrays: the inverse of \<open>montgomery_inv.c\<close>, the reduction and the \<open>_small\<close> routines of
  \<open>montgomery.c\<close>. A function that aborts, or whose assertion fails, is \<open>None\<close>; the inputs of the theorems rule that out.
\<close>

subsection \<open>The inverse of the modulus\<close>

definition LG_LITTLE_R :: nat where "LG_LITTLE_R = 64"

definition neg_inv_alpha :: limb where "neg_inv_alpha = push_bit (LG_LITTLE_R - 1) 1"

definition neg_inv_step :: "limb \<Rightarrow> nat \<Rightarrow> limb \<times> limb \<Rightarrow> (limb \<times> limb) option" where
  "neg_inv_step beta i = (\<lambda>(u, v). do {
     _ \<leftarrow> c_assert ((push_bit (LG_LITTLE_R - i) 1 :: dlimb) =
                  ucast u * 2 * ucast neg_inv_alpha - ucast v * ucast beta);
     let u_is_odd = 0 - (u AND 1);
     let beta_if_u_is_odd = beta AND u_is_odd;
     let u = drop_bit 1 (u XOR beta_if_u_is_odd) + (u AND beta_if_u_is_odd);
     let alpha_if_u_is_odd = neg_inv_alpha AND u_is_odd;
     let v = drop_bit 1 v + alpha_if_u_is_odd;
     Some (u, v) })"

fun neg_inv_loop :: "limb \<Rightarrow> nat \<Rightarrow> nat \<Rightarrow> limb \<times> limb \<Rightarrow> (limb \<times> limb) option" where
  "neg_inv_loop beta i 0 uv = Some uv"
| "neg_inv_loop beta i (Suc k) uv = Option.bind (neg_inv_step beta i uv) (neg_inv_loop beta (i + 1) k)"

definition bn_neg_inv_mod_r_u64 :: "limb \<Rightarrow> limb option" where
  "bn_neg_inv_mod_r_u64 n = do {
     _ \<leftarrow> c_assert (n mod 2 = 1);
     (u, v) \<leftarrow> neg_inv_loop n 0 LG_LITTLE_R (1, 0);
     _ \<leftarrow> c_assert ((1 :: dlimb) = ucast u * 2 * ucast neg_inv_alpha - ucast v * ucast n);
     Some v }"

lemma dietz: "unat (drop_bit 1 (x XOR y) + (x AND y)) = (unat x + unat y) div 2" for x y :: limb
proof -
  have or: "x OR y = (x XOR y) + (x AND y)" for x y :: nat
    by (subst disjunctive_add_eq_or) (auto simp: bit_eq_iff bit_simps)
  have sum: "unat x + unat y = unat (x XOR y) + 2 * unat (x AND y)"
  proof -
    have "int (unat x AND unat y) + int (unat x OR unat y) = int (unat x + unat y)"
      using plus_and_or [of "int (unat x)" "int (unat y)"] by (simp only: of_nat_and_eq of_nat_or_eq of_nat_add)
    then have "unat x + unat y = (unat x AND unat y) + (unat x OR unat y)" by linarith
    then show ?thesis unfolding or [of "unat x" "unat y"] by (simp add: unsigned_xor_eq unsigned_and_eq)
  qed
  have half: "unat (drop_bit 1 (x XOR y)) = unat (x XOR y) div 2" by (simp add: drop_bit_eq_div unat_div_distrib)
  have "unat (x XOR y) div 2 + unat (x AND y) = (unat x + unat y) div 2" unfolding sum by simp
  moreover have "(unat x + unat y) div 2 < B64" using unat_limb [of x] unat_limb [of y] by simp
  ultimately show ?thesis using half by (simp add: unat_word_ariths)
qed

text \<open>The invariant that the comment of the source states.\<close>

definition neg_inv_inv :: "limb \<Rightarrow> nat \<Rightarrow> limb \<times> limb \<Rightarrow> bool" where
  "neg_inv_inv n i = (\<lambda>(u, v). unat u \<le> unat n \<and> B64 * unat u = 2 ^ (64 - i) + unat v * unat n)"

lemma alpha_val: "unat neg_inv_alpha = 9223372036854775808" "(ucast neg_inv_alpha :: dlimb) = 9223372036854775808"
  by (simp_all add: neg_inv_alpha_def LG_LITTLE_R_def)

lemma limb_parity: "u AND 1 = (if odd (unat u) then 1 else 0)" for u :: limb
  by (simp add: word_unat_eq_iff unsigned_and_eq and_one_eq odd_iff_mod_2_eq_one unat_mod_distrib)

lemma limb_mod_2: "odd (unat u) \<Longrightarrow> u mod 2 = 1" for u :: limb
  by (simp add: word_unat_eq_iff unat_mod_distrib odd_iff_mod_2_eq_one)

lemma neg_inv_assert:
  assumes "neg_inv_inv n i (u, v)"
  shows "(push_bit (LG_LITTLE_R - i) 1 :: dlimb) = ucast u * 2 * ucast neg_inv_alpha - ucast v * ucast n"
proof -
  have *: "ucast u * 2 * ucast neg_inv_alpha = (of_nat (B64 * unat u) :: dlimb)"
    "ucast v * ucast n = (of_nat (unat v * unat n) :: dlimb)"
    using alpha_val by (simp_all add: mult.commute)
  show ?thesis using assms unfolding * neg_inv_inv_def by (simp add: LG_LITTLE_R_def push_bit_eq_mult)
qed

lemma neg_inv_step_inv:
  assumes inv: "neg_inv_inv n i (u, v)" and n: "odd (unat n)" and i: "i < 64"
  shows "\<exists>uv. neg_inv_step n i (u, v) = Some uv \<and> neg_inv_inv n (Suc i) uv"
proof -
  let ?m = "0 - (u AND 1)"
  have m: "?m = word_of_truth (odd (unat u))"
    unfolding limb_parity by simp
  let ?b = "n AND ?m" and ?al = "neg_inv_alpha AND ?m"
  let ?u = "drop_bit 1 (u XOR ?b) + (u AND ?b)" and ?v = "drop_bit 1 v + ?al"
  have u: "unat ?u = (if odd (unat u) then (unat u + unat n) div 2 else unat u div 2)" unfolding dietz m by simp
  have e: "B64 * unat u = 2 * 2 ^ (63 - i) + unat v * unat n"
  proof -
    have "64 - i = Suc (63 - i)" using i by simp
    then show ?thesis using inv by (simp add: neg_inv_inv_def)
  qed
  then have "even (unat v * unat n)" by (metis dvd_add_right_iff dvd_triv_left even_mult_iff even_numeral)
  then have "even (unat v)" using n by simp
  have al: "unat neg_inv_alpha = 2 ^ 63" using alpha_val by simp
  have half: "unat (drop_bit 1 v) = unat v div 2" by (simp add: drop_bit_eq_div unat_div_distrib)
  have v: "unat ?v = unat v div 2 + (if odd (unat u) then 2 ^ 63 else 0)"
    unfolding m using unat_limb [of v] al half by (auto simp: unat_word_ariths)
  obtain w where w: "unat v = 2 * w" using \<open>even (unat v)\<close> by blast
  have "neg_inv_inv n (Suc i) (?u, ?v)"
  proof (cases "odd (unat u)")
    case True
    then obtain x where x: "unat u + unat n = 2 * x" using n by (metis evenE odd_even_add)
    have "2 * (B64 * x) = 2 * (2 ^ (63 - i) + (w + 2 ^ 63) * unat n)"
      using e w arg_cong [OF x, of "(*) B64"] by (simp add: algebra_simps)
    then show ?thesis using True u v w x inv by (simp add: neg_inv_inv_def)
  next
    case False
    then obtain x where x: "unat u = 2 * x" by blast
    then show ?thesis using False u v w e inv by (simp add: neg_inv_inv_def)
  qed
  then show ?thesis using neg_inv_assert [OF inv] by (simp add: neg_inv_step_def Let_def)
qed

lemma neg_inv_loop_inv:
  "neg_inv_inv n i uv \<Longrightarrow> odd (unat n) \<Longrightarrow> i + k \<le> 64 \<Longrightarrow>
     \<exists>uv'. neg_inv_loop n i k uv = Some uv' \<and> neg_inv_inv n (i + k) uv'"
proof (induction k arbitrary: i uv)
  case (Suc k)
  obtain u v where uv: "uv = (u, v)" by (cases uv)
  obtain uv1 where s: "neg_inv_step n i uv = Some uv1" "neg_inv_inv n (Suc i) uv1"
    using neg_inv_step_inv [of n i u v] Suc.prems uv by auto
  then show ?case using Suc.IH [OF s(2)] Suc.prems by simp
qed simp

lemma bn_neg_inv_mod_r_u64_ok: "odd (unat n) \<Longrightarrow> \<exists>v. bn_neg_inv_mod_r_u64 n = Some v \<and> v * n = - 1"
proof -
  assume n: "odd (unat n)"
  then have "0 < unat n" by (rule odd_pos)
  then have "neg_inv_inv n 0 (1, 0)" by (simp add: neg_inv_inv_def)
  from neg_inv_loop_inv [OF this n, of 64] obtain u v where
    l: "neg_inv_loop n 0 64 (1, 0) = Some (u, v)" "neg_inv_inv n 64 (u, v)" by auto
  have "n mod 2 = 1" using n by (rule limb_mod_2)
  then have r: "bn_neg_inv_mod_r_u64 n = Some v"
    using l neg_inv_assert [OF l(2)] by (simp add: bn_neg_inv_mod_r_u64_def LG_LITTLE_R_def)
  have "(of_nat (1 + unat v * unat n) :: limb) = of_nat (B64 * unat u)"
    using l(2) by (simp add: neg_inv_inv_def)
  moreover have "(of_nat B64 :: limb) = 0" by simp
  ultimately have "1 + v * n = 0" by (simp only: of_nat_add of_nat_mult of_nat_1 of_nat_unat ucast_id mult_zero_left)
  then have "v * n = - 1" by (simp add: add_eq_0_iff)
  then show ?thesis using r by blast
qed

subsection \<open>Reduction\<close>

record bn_mont_ctx =
  mont_RR :: "limb list"
  mont_N :: "limb list"
  mont_n0 :: limb

definition mont_step :: "limb list \<Rightarrow> limb \<Rightarrow> limb list \<times> limb \<Rightarrow> nat \<Rightarrow> limb list \<times> limb" where
  "mont_step n n0 = (\<lambda>(a, carry) i.
     let num_n = length n in
     case bn_mul_add_words (take num_n (drop i a)) n (a ! i * n0) of (w, v) \<Rightarrow>
       let a = take i a @ w @ drop (i + num_n) a;
           v = v + (carry + a ! (i + num_n));
           carry = carry OR (if v \<noteq> a ! (i + num_n) then 1 else 0);
           carry = carry AND (if v \<le> a ! (i + num_n) then 1 else 0)
       in (a[i + num_n := v], carry))"

definition bn_from_montgomery_in_place :: "nat \<Rightarrow> limb list \<Rightarrow> bn_mont_ctx \<Rightarrow> (nat \<times> limb list) option" where
  "bn_from_montgomery_in_place num_r a mont =
     (let n = mont_N mont; num_n = length n in
      if num_r \<noteq> num_n \<or> length a \<noteq> 2 * num_n then Some (0, [])
      else case foldl (mont_step n (mont_n0 mont)) (a, 0) [0..<num_n] of (a, carry) \<Rightarrow> do {
        (r, _) \<leftarrow> bn_reduce_once (drop num_n a) carry n;
        Some (1, r) })"

text \<open>The product of the factor with the lowest word cancels the word it is for.\<close>

lemma cancel_word:
  fixes a n n0 :: limb
  assumes "n0 * n = - 1"
  shows "(unat a + unat (a * n0) * unat n) mod B64 = 0"
proof -
  have "a * n0 * n = - a" using assms by (simp add: mult.assoc)
  then have "a + a * n0 * n = 0" by simp
  then have "(of_nat (unat a + unat (a * n0) * unat n) :: limb) = 0" by simp
  then show ?thesis unfolding word_of_nat_eq_0_iff by (simp add: dvd_eq_mod_eq_0)
qed

lemma carry_nat:
  fixes x y k w :: nat
  assumes "x < B64" "y < B64" "k \<le> 1" "w = (if x + k + y < B64 then x + k + y else x + k + y - B64)"
  shows "w + B64 * (if w \<le> y \<and> (k = 1 \<or> w \<noteq> y) then 1 else 0) = x + k + y"
proof (cases "x + k + y < B64")
  case True
  then have w: "w = x + k + y" using assms(4) by simp
  have "\<not> (w \<le> y \<and> (k = 1 \<or> w \<noteq> y))" using w by arith
  then show ?thesis using w by simp
next
  case False
  then have w: "w = x + k + y - B64" using assms(4) by simp
  have "w \<le> y \<and> (k = 1 \<or> w \<noteq> y)" using w False assms(1-3) by linarith
  then show ?thesis using w False by simp
qed

lemma mont_carry:
  fixes v old c :: limb
  assumes "unat c \<le> 1"
  defines "w \<equiv> v + (c + old)"
  defines "c' \<equiv> (c OR (if w \<noteq> old then 1 else 0)) AND (if w \<le> old then 1 else 0)"
  shows "unat w + B64 * unat c' = unat v + unat c + unat old \<and> unat c' \<le> 1"
proof -
  have c: "c = 0 \<or> c = 1" using assms(1) by (auto simp: word_unat_eq_iff)
  have w: "unat w = (unat v + unat c + unat old) mod B64"
  proof -
    have "unat w = (unat v + (unat c + unat old) mod B64) mod B64" unfolding w_def by (simp only: unat_word_ariths) simp
    then show ?thesis by (simp only: mod_add_right_eq add.assoc)
  qed
  have c': "c' = (if w \<le> old \<and> (c = 1 \<or> w \<noteq> old) then 1 else 0)"
    using c unfolding c'_def by (elim disjE; cases "w \<le> old"; cases "w = old"; simp)
  have "unat v < B64" "unat old < B64" by (rule unat_limb)+
  then have "unat v + unat c + unat old < B64 + B64" using assms(1) by linarith
  then have w2: "unat w = (if unat v + unat c + unat old < B64 then unat v + unat c + unat old else unat v + unat c + unat old - B64)"
    unfolding w by (auto simp: not_less le_mod_geq)
  have "unat c' = (if unat w \<le> unat old \<and> (unat c = 1 \<or> unat w \<noteq> unat old) then 1 else 0)"
    unfolding c' using c by (auto simp: word_le_nat_alt word_unat_eq_iff)
  then show ?thesis
    using carry_nat [OF \<open>unat v < B64\<close> \<open>unat old < B64\<close> assms(1) w2] by simp
qed

definition mont_inv :: "limb list \<Rightarrow> nat \<Rightarrow> nat \<Rightarrow> limb list \<times> limb \<Rightarrow> bool" where
  "mont_inv n V i = (\<lambda>(a, carry).
     length a = 2 * length n \<and> unat carry \<le> 1 \<and> bn_val (take i a) = 0 \<and>
     (\<exists>q < B64 ^ i. bn_val a + B64 ^ (i + length n) * unat carry = V + q * bn_val n))"

lemma mont_step_inv:
  assumes inv: "mont_inv n V i (a, carry)" and n0: "n0 * n ! 0 = - 1" and i: "i < length n"
  shows "mont_inv n V (Suc i) (mont_step n n0 (a, carry) i)"
proof -
  let ?k = "length n" and ?f = "a ! i * n0"
  obtain q where len: "length a = 2 * ?k" and c: "unat carry \<le> 1" and z: "bn_val (take i a) = 0" and q: "q < B64 ^ i"
    and V: "bn_val a + B64 ^ (i + ?k) * unat carry = V + q * bn_val n"
    using inv by (auto simp: mont_inv_def)
  obtain w v where m: "bn_mul_add_words (take ?k (drop i a)) n ?f = (w, v)" by (metis surj_pair)
  have lw: "length w = ?k" and mv: "bn_val w + B64 ^ ?k * unat v = bn_val (take ?k (drop i a)) + bn_val n * unat ?f"
    using bn_mul_add_words_val [OF _ m] len i by auto
  let ?a1 = "take i a @ w @ drop (i + ?k) a" and ?old = "a ! (i + ?k)"
  have old: "?a1 ! (i + ?k) = ?old" using len lw i by (simp add: nth_append min_def)
  let ?v = "v + (carry + ?old)"
  let ?c = "(carry OR (if ?v \<noteq> ?old then 1 else 0)) AND (if ?v \<le> ?old then 1 else 0)"
  note mc = mont_carry [OF c, of v ?old]
  have step: "mont_step n n0 (a, carry) i = (?a1[i + ?k := ?v], ?c)"
    by (simp only: mont_step_def Let_def prod.case m old)
  have dr: "drop (i + ?k) a = ?old # drop (Suc (i + ?k)) a" using len i by (simp add: Cons_nth_drop_Suc)
  have a': "?a1[i + ?k := ?v] = take i a @ w @ ?v # drop (Suc (i + ?k)) a"
    unfolding dr using len lw i by (simp add: list_update_append min_def)
  let ?D = "bn_val (drop (Suc (i + ?k)) a)"
  have va: "bn_val a = B64 ^ i * (bn_val (take ?k (drop i a)) + B64 ^ ?k * (unat ?old + B64 * ?D))"
  proof -
    have "a = take i a @ take ?k (drop i a) @ drop (i + ?k) a"
      by (metis append_take_drop_id drop_drop add.commute)
    then have "bn_val a = bn_val (take i a @ take ?k (drop i a) @ ?old # drop (Suc (i + ?k)) a)" unfolding dr by simp
    moreover have "length (take i a) = i" "length (take ?k (drop i a)) = ?k" using len i by auto
    ultimately show ?thesis using z by (simp only: bn_val_append bn_val.simps)
  qed
  have tot: "bn_val (?a1[i + ?k := ?v]) + B64 ^ (Suc i + ?k) * unat ?c = V + (q + B64 ^ i * unat ?f) * bn_val n"
  proof -
    have "bn_val (?a1[i + ?k := ?v]) + B64 ^ (Suc i + ?k) * unat ?c =
        B64 ^ i * (bn_val w + B64 ^ ?k * ((unat ?v + B64 * unat ?c) + B64 * ?D))"
      unfolding a' using z len lw i by (simp add: bn_val_append min_def power_add algebra_simps)
    also have "\<dots> = B64 ^ i * ((bn_val w + B64 ^ ?k * unat v) + B64 ^ ?k * (unat carry + unat ?old + B64 * ?D))"
      using mc by (simp add: algebra_simps)
    also have "\<dots> = bn_val a + B64 ^ (i + ?k) * unat carry + B64 ^ i * unat ?f * bn_val n"
      unfolding mv va by (simp add: power_add algebra_simps)
    finally show ?thesis unfolding V by (simp add: algebra_simps)
  qed
  have "q + B64 ^ i * unat ?f < B64 ^ Suc i"
  proof -
    have "B64 ^ i * unat ?f \<le> B64 ^ i * (B64 - 1)" using unat_limb [of ?f] by (intro mult_le_mono2) linarith
    moreover have "B64 ^ i * (B64 - 1) + B64 ^ i = B64 ^ Suc i" by simp
    ultimately show ?thesis using q by linarith
  qed
  moreover have "bn_val (take (Suc i) (?a1[i + ?k := ?v])) = 0"
  proof -
    obtain w0 ws where w: "w = w0 # ws" using lw i by (cases w) auto
    obtain m0 ms where n: "n = m0 # ms" using i by (cases n) auto
    have di: "take ?k (drop i a) = a ! i # take (length ms) (drop (Suc i) a)"
      using n len i by (simp add: Cons_nth_drop_Suc [symmetric])
    have mw: "unat w0 + B64 * bn_val ws + B64 ^ ?k * unat v = unat (a ! i) + B64 * bn_val (take (length ms) (drop (Suc i) a)) + (unat m0 + B64 * bn_val ms) * unat ?f"
      using mv unfolding di unfolding w n bn_val.simps .
    have "(unat w0 + B64 * (bn_val ws + B64 ^ length ms * unat v)) mod B64 =
        (unat (a ! i) + unat ?f * unat m0 + B64 * (bn_val (take (length ms) (drop (Suc i) a)) + bn_val ms * unat ?f)) mod B64"
      using arg_cong [OF mw, of "\<lambda>x. x mod B64"] unfolding n by (simp only: length_Cons power_Suc distrib_left distrib_right ac_simps)
    then have "unat w0 mod B64 = (unat (a ! i) + unat ?f * unat m0) mod B64" by (simp only: mod_mult_self2)
    also have "\<dots> = 0" using cancel_word [of n0 m0 "a ! i"] n0 n by simp
    finally have "unat w0 = 0" using unat_limb [of w0] by simp
    then show ?thesis unfolding a' using w z len i by (simp add: bn_val_append min_def)
  qed
  ultimately show ?thesis using step tot mc len lw i by (auto simp: mont_inv_def)
qed

lemma mont_steps_inv:
  "mont_inv n V 0 s \<Longrightarrow> n0 * n ! 0 = - 1 \<Longrightarrow> k \<le> length n \<Longrightarrow> mont_inv n V k (foldl (mont_step n n0) s [0..<k])"
proof (induction k)
  case (Suc k)
  then show ?case using mont_step_inv [of n V k _ _ n0] by (cases "foldl (mont_step n n0) s [0..<k]") simp
qed simp

lemma bn_from_montgomery_in_place_val:
  assumes "length a = 2 * length (mont_N mont)" "num_r = length (mont_N mont)"
    and "mont_n0 mont * mont_N mont ! 0 = - 1" and "bn_val a < bn_val (mont_N mont) * B64 ^ num_r"
  shows "\<exists>r. bn_from_montgomery_in_place num_r a mont = Some (1, r) \<and> length r = num_r \<and>
     bn_val r < bn_val (mont_N mont) \<and> (bn_val r * B64 ^ num_r) mod bn_val (mont_N mont) = bn_val a mod bn_val (mont_N mont)"
proof -
  let ?n = "mont_N mont" and ?k = num_r
  obtain a' c where f: "foldl (mont_step ?n (mont_n0 mont)) (a, 0) [0..<?k] = (a', c)" by (metis surj_pair)
  have "mont_inv ?n (bn_val a) 0 (a, 0)" using assms by (auto simp: mont_inv_def)
  from mont_steps_inv [OF this assms(3), of ?k] obtain q where i: "length a' = 2 * ?k" "unat c \<le> 1" "bn_val (take ?k a') = 0"
    "q < B64 ^ ?k" "bn_val a' + B64 ^ (?k + ?k) * unat c = bn_val a + q * bn_val ?n"
    using f assms(2) by (auto simp: mont_inv_def)
  let ?U = "bn_val (drop ?k a') + B64 ^ ?k * unat c"
  have U: "B64 ^ ?k * ?U = bn_val a + q * bn_val ?n"
    using i(3,5) bn_val_drop [of a' ?k] i(1) by (simp add: min_def power_add algebra_simps)
  have n: "0 < bn_val ?n" using assms(4) by (cases "bn_val ?n") simp_all
  have "B64 ^ ?k * ?U < B64 ^ ?k * (2 * bn_val ?n)"
  proof -
    have "q * bn_val ?n < B64 ^ ?k * bn_val ?n" using i(4) n by simp
    moreover have "B64 ^ ?k * (2 * bn_val ?n) = bn_val ?n * B64 ^ ?k + B64 ^ ?k * bn_val ?n" by simp
    ultimately show ?thesis unfolding U using assms(4) by linarith
  qed
  then have lt: "bn_val (drop ?k a') + B64 ^ length ?n * unat c < 2 * bn_val ?n" using assms(2) by simp
  obtain r x where r: "bn_reduce_once (drop ?k a') c ?n = Some (r, x)" "length r = ?k" "bn_val r = ?U mod bn_val ?n"
    using bn_reduce_once_val [OF _ lt] i(1) assms(2) by auto
  have "(bn_val r * B64 ^ ?k) mod bn_val ?n = (B64 ^ ?k * ?U) mod bn_val ?n"
    unfolding r(3) mult.commute [of "?U mod bn_val ?n"] by (rule mod_mult_right_eq)
  also have "\<dots> = bn_val a mod bn_val ?n" unfolding U by simp
  finally show ?thesis
    using f r n assms by (simp add: bn_from_montgomery_in_place_def Let_def)
qed

subsection \<open>Small moduli\<close>

text \<open>The arrays have \<open>num\<close> words. \<open>same\<close> says that \<open>a\<close> and \<open>b\<close> are the same pointer, which selects the squaring.\<close>

definition bn_mod_mul_montgomery_small :: "bool \<Rightarrow> limb list \<Rightarrow> limb list \<Rightarrow> nat \<Rightarrow> bn_mont_ctx \<Rightarrow> limb list option" where
  "bn_mod_mul_montgomery_small same a b num mont =
     (if num \<noteq> length (mont_N mont) \<or> num > BN_SMALL_MAX_WORDS then None
      else do {
        tmp \<leftarrow> (if same then bn_sqr_small (2 * num) a else bn_mul_small (2 * num) a b);
        (ok, r) \<leftarrow> bn_from_montgomery_in_place num tmp mont;
        if ok = 0 then None else Some r })"

definition bn_to_montgomery_small :: "limb list \<Rightarrow> nat \<Rightarrow> bn_mont_ctx \<Rightarrow> limb list option" where
  "bn_to_montgomery_small a num mont = bn_mod_mul_montgomery_small False a (mont_RR mont) num mont"

definition bn_from_montgomery_small :: "limb list \<Rightarrow> nat \<Rightarrow> bn_mont_ctx \<Rightarrow> limb list option" where
  "bn_from_montgomery_small a num mont =
     (if num \<noteq> length (mont_N mont) \<or> num > BN_SMALL_MAX_WORDS then None
      else do {
        (ok, r) \<leftarrow> bn_from_montgomery_in_place num (a @ replicate num 0) mont;
        if ok = 0 then None else Some r })"

text \<open>
  What \<open>BN_MONT_CTX_set\<close> establishes, for a modulus that the \<open>_small\<close> routines take: the factor of the reduction and the
  square of \<open>R\<close>. \<open>mont_form mont x r\<close>: the words \<open>r\<close> are \<open>x\<close> in Montgomery form, fully reduced.
\<close>

definition mont_ok :: "bn_mont_ctx \<Rightarrow> bool" where
  "mont_ok mont \<longleftrightarrow> odd (bn_val (mont_N mont)) \<and> mont_n0 mont * mont_N mont ! 0 = - 1 \<and>
     length (mont_N mont) \<le> BN_SMALL_MAX_WORDS \<and> length (mont_RR mont) = length (mont_N mont) \<and>
     bn_val (mont_RR mont) = B64 ^ length (mont_N mont) * B64 ^ length (mont_N mont) mod bn_val (mont_N mont)"

definition mont_form :: "bn_mont_ctx \<Rightarrow> nat \<Rightarrow> limb list \<Rightarrow> bool" where
  "mont_form mont x r \<longleftrightarrow> length r = length (mont_N mont) \<and> bn_val r = x * B64 ^ length (mont_N mont) mod bn_val (mont_N mont)"

lemma coprime_R: "odd N \<Longrightarrow> coprime (B64 ^ k) (N :: nat)"
proof -
  assume "odd N"
  then have "coprime (2 ^ (64 * k)) N" by (simp add: coprime_power_left_iff)
  then show ?thesis by (simp add: power_mult)
qed

lemma cancel_R:
  assumes "odd N" "x * B64 ^ k mod N = y * B64 ^ k mod (N :: nat)"
  shows "x mod N = y mod N"
proof -
  have "int (x * B64 ^ k) mod int N = int (y * B64 ^ k) mod int N" using assms(2) by (metis zmod_int)
  then have "int N dvd (int x - int y) * int (B64 ^ k)" by (simp add: mod_eq_dvd_iff left_diff_distrib)
  moreover have "coprime (int N) (int (B64 ^ k))"
    using coprime_R [OF assms(1), of k] by (simp only: coprime_int_iff coprime_commute)
  ultimately have "int N dvd int x - int y" by (simp add: coprime_dvd_mult_left_iff)
  then have "int x mod int N = int y mod int N" by (simp add: mod_eq_dvd_iff)
  then show ?thesis by (metis of_nat_eq_iff zmod_int)
qed

lemma mont_form_bounds: "mont_ok mont \<Longrightarrow> mont_form mont x r \<Longrightarrow> bn_val r < bn_val (mont_N mont) \<and> bn_val r < B64 ^ length (mont_N mont)"
  using bn_val_bound [of r] by (auto simp: mont_ok_def mont_form_def intro!: mod_less_divisor odd_pos)

lemma in_place_form:
  assumes ok: "mont_ok mont" and len: "length a = 2 * length (mont_N mont)"
    and a: "bn_val a < bn_val (mont_N mont) * B64 ^ length (mont_N mont)"
    and form: "bn_val a mod bn_val (mont_N mont) = x * B64 ^ length (mont_N mont) * B64 ^ length (mont_N mont) mod bn_val (mont_N mont)"
  shows "\<exists>r. bn_from_montgomery_in_place (length (mont_N mont)) a mont = Some (1, r) \<and> mont_form mont x r"
proof -
  let ?N = "bn_val (mont_N mont)" and ?R = "B64 ^ length (mont_N mont)"
  obtain r where r: "bn_from_montgomery_in_place (length (mont_N mont)) a mont = Some (1, r)" "length r = length (mont_N mont)"
    "bn_val r < ?N" "(bn_val r * ?R) mod ?N = bn_val a mod ?N"
    using bn_from_montgomery_in_place_val [OF len refl _ a] ok by (auto simp: mont_ok_def)
  have "odd ?N" using ok by (simp add: mont_ok_def)
  from cancel_R [OF this, of "bn_val r" _ "x * ?R"] have "bn_val r mod ?N = x * ?R mod ?N" using r(4) form by simp
  then show ?thesis using r by (auto simp: mont_form_def)
qed

lemma bn_mod_mul_montgomery_small_form:
  assumes ok: "mont_ok mont" and a: "mont_form mont x a" and b: "mont_form mont y b" and same: "same \<Longrightarrow> a = b"
  shows "\<exists>r. bn_mod_mul_montgomery_small same a b (length (mont_N mont)) mont = Some r \<and> mont_form mont (x * y) r"
proof -
  let ?N = "bn_val (mont_N mont)" and ?k = "length (mont_N mont)"
  have l: "length a = ?k" "length b = ?k" "?k \<le> BN_SMALL_MAX_WORDS" using ok a b by (simp_all add: mont_form_def mont_ok_def)
  obtain t where t: "(if same then bn_sqr_small (2 * ?k) a else bn_mul_small (2 * ?k) a b) = Some t" "length t = 2 * ?k"
    "bn_val t = bn_val a * bn_val b"
    using bn_sqr_small_val [of "2 * ?k" a] bn_mul_small_val [of "2 * ?k" a b] l same by (cases same) auto
  have "bn_val t < ?N * B64 ^ ?k"
    unfolding t(3) using mont_form_bounds [OF ok a] mont_form_bounds [OF ok b] by (intro mult_strict_mono) auto
  moreover have "bn_val t mod ?N = (x * y) * B64 ^ ?k * B64 ^ ?k mod ?N"
    using a b unfolding t(3) mont_form_def by (simp add: mod_mult_eq ac_simps)
  ultimately obtain r where "bn_from_montgomery_in_place ?k t mont = Some (1, r)" "mont_form mont (x * y) r"
    using in_place_form [OF ok t(2)] by blast
  then show ?thesis using t(1) l by (simp add: bn_mod_mul_montgomery_small_def)
qed

lemma bn_to_montgomery_small_form:
  assumes ok: "mont_ok mont" and a: "length a = length (mont_N mont)" "bn_val a < bn_val (mont_N mont)"
  shows "\<exists>r. bn_to_montgomery_small a (length (mont_N mont)) mont = Some r \<and> mont_form mont (bn_val a) r"
proof -
  let ?N = "bn_val (mont_N mont)" and ?k = "length (mont_N mont)" and ?RR = "mont_RR mont"
  have l: "length ?RR = ?k" "?k \<le> BN_SMALL_MAX_WORDS" "bn_val ?RR = B64 ^ ?k * B64 ^ ?k mod ?N" using ok by (simp_all add: mont_ok_def)
  obtain t where t: "bn_mul_small (2 * ?k) a ?RR = Some t" "length t = 2 * ?k" "bn_val t = bn_val a * bn_val ?RR"
    using bn_mul_small_val [of "2 * ?k" a ?RR] l a by auto
  have "bn_val t < ?N * B64 ^ ?k"
    unfolding t(3) using a(2) bn_val_bound [of ?RR] l(1) by (intro mult_strict_mono) auto
  moreover have "bn_val t mod ?N = bn_val a * B64 ^ ?k * B64 ^ ?k mod ?N"
    unfolding t(3) l(3) by (simp add: mod_mult_right_eq ac_simps)
  ultimately obtain r where "bn_from_montgomery_in_place ?k t mont = Some (1, r)" "mont_form mont (bn_val a) r"
    using in_place_form [OF ok t(2)] by blast
  then show ?thesis using t(1) l by (simp add: bn_to_montgomery_small_def bn_mod_mul_montgomery_small_def)
qed

lemma bn_from_montgomery_small_val:
  assumes ok: "mont_ok mont" and a: "length a = length (mont_N mont)"
  shows "\<exists>r. bn_from_montgomery_small a (length (mont_N mont)) mont = Some r \<and> length r = length (mont_N mont) \<and>
    bn_val r < bn_val (mont_N mont) \<and>
    (bn_val r * B64 ^ length (mont_N mont)) mod bn_val (mont_N mont) = bn_val a mod bn_val (mont_N mont)"
proof -
  let ?N = "bn_val (mont_N mont)" and ?k = "length (mont_N mont)"
  have "0 < ?N" using ok by (simp add: mont_ok_def odd_pos)
  then have "1 * B64 ^ ?k \<le> ?N * B64 ^ ?k" by (intro mult_le_mono1) linarith
  then have "bn_val a < ?N * B64 ^ ?k" using bn_val_bound [of a] unfolding a mult_1 by (rule less_le_trans [rotated])
  then have "bn_val (a @ replicate ?k 0) < ?N * B64 ^ ?k" by (simp add: bn_val_append)
  then obtain r where "bn_from_montgomery_in_place ?k (a @ replicate ?k 0) mont = Some (1, r)" "length r = ?k" "bn_val r < ?N"
    "(bn_val r * B64 ^ ?k) mod ?N = bn_val a mod ?N"
    using bn_from_montgomery_in_place_val [of "a @ replicate ?k 0" mont ?k] ok a by (auto simp: mont_ok_def bn_val_append)
  then show ?thesis using ok by (simp add: bn_from_montgomery_small_def mont_ok_def)
qed

text \<open>Into Montgomery form and back.\<close>

lemma montgomery_roundtrip:
  assumes ok: "mont_ok mont" and r: "mont_form mont x r"
  shows "\<exists>s. bn_from_montgomery_small r (length (mont_N mont)) mont = Some s \<and> length s = length (mont_N mont) \<and>
     bn_val s = x mod bn_val (mont_N mont)"
proof -
  obtain s where s: "bn_from_montgomery_small r (length (mont_N mont)) mont = Some s" "length s = length (mont_N mont)"
    "bn_val s < bn_val (mont_N mont)"
    "(bn_val s * B64 ^ length (mont_N mont)) mod bn_val (mont_N mont) = bn_val r mod bn_val (mont_N mont)"
    using bn_from_montgomery_small_val [OF ok, of r] r by (auto simp: mont_form_def)
  have "bn_val s mod bn_val (mont_N mont) = x mod bn_val (mont_N mont)"
    by (rule cancel_R) (use ok s(4) r in \<open>auto simp: mont_ok_def mont_form_def\<close>)
  then show ?thesis using s by simp
qed

text \<open>\<open>RR\<close> reduces to the one of the Montgomery form.\<close>

lemma mont_one: "mont_ok mont \<Longrightarrow>
   \<exists>r. bn_from_montgomery_small (mont_RR mont) (length (mont_N mont)) mont = Some r \<and> mont_form mont 1 r"
proof -
  assume ok: "mont_ok mont"
  let ?N = "bn_val (mont_N mont)" and ?k = "length (mont_N mont)"
  obtain r where r: "bn_from_montgomery_small (mont_RR mont) ?k mont = Some r" "length r = ?k" "bn_val r < ?N"
    "(bn_val r * B64 ^ ?k) mod ?N = bn_val (mont_RR mont) mod ?N"
    using bn_from_montgomery_small_val [OF ok, of "mont_RR mont"] ok by (auto simp: mont_ok_def)
  have "bn_val r mod ?N = B64 ^ ?k mod ?N"
    by (rule cancel_R [of _ _ ?k]) (use ok r(4) in \<open>auto simp: mont_ok_def\<close>)
  then show ?thesis using r by (auto simp: mont_form_def)
qed

end
