(* ===== verification/Bn_Exp.thy ===== *)
theory Bn_Exp
  imports Bn_Mont
begin

text \<open>
  Exponentiation on word arrays: the bit counts of \<open>bn.c\<close> and \<open>shift.c\<close>, and the sliding windows of
  \<open>exponentiation.c\<close> over the Montgomery products.
\<close>

subsection \<open>Bits\<close>

text \<open>\<open>bn.c\<close>: one round of the count, at half the width. The last round leaves the word as it is.\<close>

definition num_bits_mask :: "limb \<Rightarrow> limb" where
  "num_bits_mask x = (let m = 0 - x in 0 - drop_bit 63 m)"

definition num_bits_step :: "nat \<Rightarrow> u32 \<times> limb \<Rightarrow> u32 \<times> limb" where
  "num_bits_step k = (\<lambda>(bits, l).
     let x = drop_bit k l;
         m = num_bits_mask x;
         bits = bits + ucast (of_nat k AND m)
     in (bits, l XOR ((x XOR l) AND m)))"

definition BN_num_bits_word :: "limb \<Rightarrow> u32" where
  "BN_num_bits_word l = fst (foldl (\<lambda>s k. num_bits_step k s) (if l \<noteq> 0 then 1 else 0, l) [32, 16, 8, 4, 2, 1])"

definition bn_is_bit_set_words :: "limb list \<Rightarrow> nat \<Rightarrow> bool" where
  "bn_is_bit_set_words a n =
     (let i = n div 64; j = n mod 64 in
      if i \<ge> length a then False else drop_bit j (a ! i) AND 1 \<noteq> 0)"

lemma bit_bn_val: "bit (bn_val (w # ws)) n = (if n < 64 then bit w n else bit (bn_val ws) (n - 64))"
proof -
  have "bit (unat w + B64 * bn_val ws) n = bit (unat w OR push_bit 64 (bn_val ws)) n"
  proof (subst disjunctive_add_eq_or [symmetric])
    show "unat w AND push_bit 64 (bn_val ws) = 0"
      by (rule bit_eqI) (auto simp: bit_simps dest: bit_imp_le_length)
  qed (simp add: push_bit_eq_mult mult.commute)
  then show ?thesis by (auto simp: bit_simps dest: bit_imp_le_length)
qed

lemma bn_is_bit_set_words_bit: "bn_is_bit_set_words a n = bit (bn_val a) n"
proof (induction a arbitrary: n)
  case (Cons w ws)
  have one: "(x AND 1 \<noteq> 0) = bit x 0" for x :: limb by (simp add: bit_0 and_one_eq odd_iff_mod_2_eq_one)
  show ?case
  proof (cases "n < 64")
    case True
    then show ?thesis by (simp add: bn_is_bit_set_words_def bit_bn_val one bit_simps del: bn_val.simps)
  next
    case False
    then have "n div 64 = Suc ((n - 64) div 64)" "n mod 64 = (n - 64) mod 64" by (simp_all add: le_div_geq le_mod_geq)
    then show ?thesis using Cons.IH [of "n - 64"] False
      by (cases "length ws \<le> (n - 64) div 64") (simp_all add: bn_is_bit_set_words_def bit_bn_val Let_def del: bn_val.simps)
  qed
qed (simp add: bn_is_bit_set_words_def)

text \<open>The number of bits.\<close>

definition has_bits :: "nat \<Rightarrow> nat \<Rightarrow> bool" where
  "has_bits n b \<longleftrightarrow> n < 2 ^ b \<and> (b \<noteq> 0 \<longrightarrow> 2 ^ (b - 1) \<le> n)"

lemma num_bits_mask_truth: "unat x < 2 ^ 32 \<Longrightarrow> num_bits_mask x = word_of_truth (x \<noteq> 0)"
proof (cases "x = 0")
  case False
  assume x: "unat x < 2 ^ 32"
  have "0 < unat x" using False by (simp add: unat_gt_0)
  have "0 - x = of_nat (B64 - unat x)" using unat_limb [of x] by (simp add: of_nat_diff)
  then have "unat (0 - x) = (B64 - unat x) mod B64" by (simp add: unat_of_nat)
  then have "unat (0 - x) = B64 - unat x" using \<open>0 < unat x\<close> by simp
  then have "unat (drop_bit 63 (0 - x)) = 1" using x \<open>0 < unat x\<close> by (simp add: drop_bit_eq_div unat_div_distrib)
  then have "drop_bit 63 (0 - x) = 1" by (simp add: word_unat_eq_iff)
  then show ?thesis using False by (simp add: num_bits_mask_def)
qed (simp add: num_bits_mask_def)

lemma num_bits_step_val:
  assumes "unat l < 2 ^ (2 * k)" "k \<le> 32" "has_bits (unat l) c" "0 < k" "num_bits_step k (bits, l) = (bits', l')"
  shows "unat l' < 2 ^ k \<and> (\<exists>c'. has_bits (unat l') c' \<and> c = (if 2 ^ k \<le> unat l then c' + k else c') \<and>
     bits' = bits + (if 2 ^ k \<le> unat l then of_nat k else 0)) \<and> (l' = 0) = (l = 0)"
proof -
  let ?x = "drop_bit k l"
  have x: "unat ?x = unat l div 2 ^ k" by (simp only: unat_drop_bit_eq) (simp only: drop_bit_eq_div)
  have lt: "unat ?x < 2 ^ k" unfolding x using assms(1) by (simp add: less_mult_imp_div_less mult_2 power_add)
  have m: "num_bits_mask ?x = word_of_truth (2 ^ k \<le> unat l)"
  proof -
    have "(2::nat) ^ k \<le> 2 ^ 32" using assms(2) by (intro power_increasing) auto
    then have "unat ?x < 2 ^ 32" using lt by (rule less_le_trans [rotated])
    moreover have "?x \<noteq> 0 \<longleftrightarrow> 2 ^ k \<le> unat l" unfolding word_unat_eq_iff x by (simp add: div_eq_0_iff not_less)
    ultimately show ?thesis by (simp only: num_bits_mask_truth)
  qed
  show ?thesis
  proof (cases "2 ^ k \<le> unat l")
    case True
    have "l XOR (?x XOR l) = ?x" by (simp add: bit_eq_iff bit_simps) blast
    moreover have "ucast (of_nat k :: limb) = (of_nat k :: u32)"
      using assms(2) by (simp add: word_unat_eq_iff unsigned_ucast_eq unsigned_of_nat take_bit_eq_mod)
    ultimately have r: "l' = ?x" "bits' = bits + of_nat k"
      using assms(5) True by (simp_all add: num_bits_step_def m Let_def)
    have "k < c"
    proof (rule ccontr)
      assume "\<not> k < c"
      then have "(2::nat) ^ c \<le> 2 ^ k" by (intro power_increasing) auto
      moreover have "unat l < 2 ^ c" using assms(3) by (simp add: has_bits_def)
      ultimately show False using True by linarith
    qed
    then obtain d where d: "c = Suc d + k" by (metis add.commute add_Suc_right less_imp_Suc_add)
    have "has_bits (unat ?x) (Suc d)"
      using assms(3) unfolding has_bits_def d x
      by (simp add: less_mult_imp_div_less power_add less_eq_div_iff_mult_less_eq mult.assoc)
    moreover have "0 < unat l" using True by (rule less_le_trans [rotated]) simp
    then have "?x \<noteq> 0" "l \<noteq> 0" using True x by (auto simp: word_unat_eq_iff div_eq_0_iff)
    ultimately show ?thesis using r lt d True by auto
  next
    case False
    then have "l' = l" "bits' = bits" using assms(5) by (simp_all add: num_bits_step_def m Let_def)
    then show ?thesis using False assms(3) by auto
  qed
qed

fun halves :: "nat \<Rightarrow> nat list \<Rightarrow> bool" where
  "halves w [] = (w = 1)"
| "halves w (k # ks) = (w = 2 * k \<and> 0 < k \<and> halves k ks)"

lemma has_bits_0: "has_bits n b \<Longrightarrow> (b = 0) = (n = 0)"
  by (cases b) (auto simp: has_bits_def)

lemma has_bits_unique: "has_bits n b \<Longrightarrow> n < 2 \<Longrightarrow> b = n"
proof (cases "b \<le> 1")
  case False
  assume h: "has_bits n b" "n < 2"
  have "(2::nat) ^ 1 \<le> 2 ^ (b - 1)" using False by (intro power_increasing) auto
  then show ?thesis using h False by (simp add: has_bits_def)
qed (auto simp: has_bits_def le_Suc_eq)

lemma num_bits_fold:
  "halves w ks \<Longrightarrow> w \<le> 64 \<Longrightarrow> unat l < 2 ^ w \<Longrightarrow> has_bits (unat l) c \<Longrightarrow>
     fst (foldl (\<lambda>s k. num_bits_step k s) (bits, l) ks) + (if l \<noteq> 0 then 1 else 0) = bits + of_nat c"
proof (induction ks arbitrary: w bits l c)
  case Nil
  then have "c = unat l" using has_bits_unique by simp
  moreover have "l = 0 \<or> l = 1" using Nil by (auto simp: word_unat_eq_iff)
  ultimately show ?case using Nil by auto
next
  case (Cons k ks)
  obtain bits' l' where s: "num_bits_step k (bits, l) = (bits', l')" by (metis surj_pair)
  have k: "w = 2 * k" "0 < k" "k \<le> 32" "halves k ks" using Cons.prems by auto
  obtain c' where c': "unat l' < 2 ^ k" "has_bits (unat l') c'" "c = (if 2 ^ k \<le> unat l then c' + k else c')"
    "bits' = bits + (if 2 ^ k \<le> unat l then of_nat k else 0)" "(l' = 0) = (l = 0)"
    using num_bits_step_val [OF _ k(3) Cons.prems(4) k(2) s] Cons.prems(3) k(1) by auto
  have "k \<le> 64" using k(3) by simp
  from Cons.IH [OF k(4) this c'(1,2), of bits'] show ?case using s c'(3-5) by (auto split: if_splits)
qed

lemma has_bits_ex: "\<exists>c. has_bits n c"
proof (induction n rule: less_induct)
  case (less n)
  show ?case
  proof (cases "n = 0")
    case False
    then obtain c where c: "has_bits (n div 2) c" using less [of "n div 2"] by auto
    have "has_bits n (Suc c)" using c False by (cases c) (auto simp: has_bits_def)
    then show ?thesis by blast
  qed (auto simp: has_bits_def intro: exI [of _ 0])
qed

lemma has_bits_le: "has_bits n c \<Longrightarrow> n < 2 ^ k \<Longrightarrow> c \<le> k"
proof (rule ccontr)
  assume h: "has_bits n c" "n < 2 ^ k" "\<not> c \<le> k"
  then have "(2::nat) ^ k \<le> 2 ^ (c - 1)" by (intro power_increasing) auto
  moreover have "2 ^ (c - 1) \<le> n" using h by (auto simp: has_bits_def)
  ultimately show False using h(2) by linarith
qed

lemma BN_num_bits_word_bits: "has_bits (unat l) (unat (BN_num_bits_word l))"
proof -
  obtain c where c: "has_bits (unat l) c" using has_bits_ex by blast
  have lt: "unat l < 2 ^ 64" using unat_limb [of l] by simp
  have "halves 64 [32, 16, 8, 4, 2, 1]" by simp
  from num_bits_fold [OF this _ lt c, of "if l \<noteq> 0 then 1 else 0"] have "BN_num_bits_word l = of_nat c"
    unfolding BN_num_bits_word_def by (auto split: if_splits)
  then show ?thesis using c has_bits_le [OF c lt] by (simp add: unsigned_of_nat take_bit_eq_mod)
qed

subsection \<open>Exponentiation\<close>

definition BN_window_bits_for_exponent_size :: "int \<Rightarrow> nat" where
  "BN_window_bits_for_exponent_size b =
     (if b > 671 then 6 else if b > 239 then 5 else if b > 79 then 4 else if b > 23 then 3 else 1)"

definition TABLE_BITS_SMALL :: nat where "TABLE_BITS_SMALL = 5"

text \<open>\<open>val[i] = a^(2 * i + 1)\<close>: the odd powers, \<open>d\<close> being the square.\<close>

fun odd_powers :: "bn_mont_ctx \<Rightarrow> nat \<Rightarrow> limb list \<Rightarrow> nat \<Rightarrow> limb list \<Rightarrow> limb list list option" where
  "odd_powers mont num d 0 v = Some [v]"
| "odd_powers mont num d (Suc k) v = do {
     w \<leftarrow> bn_mod_mul_montgomery_small False v d num mont;
     vs \<leftarrow> odd_powers mont num d k w;
     Some (v # vs) }"

text \<open>The scan for the largest window: \<open>(wvalue, wsize)\<close>.\<close>

definition window_step :: "limb list \<Rightarrow> nat \<Rightarrow> nat \<times> nat \<Rightarrow> nat \<Rightarrow> nat \<times> nat" where
  "window_step p wstart = (\<lambda>(wvalue, wsize) i.
     if bn_is_bit_set_words p (wstart - i) then (push_bit (i - wsize) wvalue OR 1, i) else (wvalue, wsize))"

fun square_times :: "bn_mont_ctx \<Rightarrow> nat \<Rightarrow> nat \<Rightarrow> limb list \<Rightarrow> limb list option" where
  "square_times mont num 0 r = Some r"
| "square_times mont num (Suc k) r = Option.bind (bn_mod_mul_montgomery_small True r r num mont) (square_times mont num k)"

text \<open>The state of the loop is \<open>r_is_one\<close> and \<open>r\<close>, which has no value of its own before the first window.\<close>

function exp_loop :: "bn_mont_ctx \<Rightarrow> nat \<Rightarrow> limb list \<Rightarrow> nat \<Rightarrow> limb list list \<Rightarrow> nat \<Rightarrow> bool \<Rightarrow> limb list \<Rightarrow> (bool \<times> limb list) option" where
  "exp_loop mont num p window val wstart r_is_one r =
     (if \<not> bn_is_bit_set_words p wstart then do {
        r \<leftarrow> (if \<not> r_is_one then bn_mod_mul_montgomery_small True r r num mont else Some r);
        if wstart = 0 then Some (r_is_one, r)
        else exp_loop mont num p window val (wstart - 1) r_is_one r }
      else do {
        let (wvalue, wsize) = foldl (window_step p wstart) (1, 0) [1..<min window (wstart + 1)];
        r \<leftarrow> (if \<not> r_is_one then square_times mont num (wsize + 1) r else Some r);
        _ \<leftarrow> c_assert (odd wvalue);
        _ \<leftarrow> c_assert (wvalue < push_bit window 1);
        r \<leftarrow> (if r_is_one then Some (val ! (wvalue div 2))
              else bn_mod_mul_montgomery_small False r (val ! (wvalue div 2)) num mont);
        if wstart = wsize then Some (False, r)
        else exp_loop mont num p window val (wstart - (wsize + 1)) False r })"
  by auto
termination
proof (relation "measure (\<lambda>(_, _, _, _, _, wstart, _). wstart)", goal_cases)
  case (3 mont num p window val wstart r_is_one r x wvalue wsize)
  have "wstart \<noteq> 0"
  proof
    assume "wstart = 0"
    then show False using 3 by (simp add: min_def split: if_splits)
  qed
  then show ?case by simp
qed auto

declare exp_loop.simps [simp del]

definition BN_is_odd :: "limb list \<Rightarrow> bool" where
  "BN_is_odd d \<longleftrightarrow> length d > 0 \<and> d ! 0 AND 1 = 1"

definition bn_mod_exp_mont_small :: "limb list \<Rightarrow> nat \<Rightarrow> limb list \<Rightarrow> bn_mont_ctx \<Rightarrow> limb list option" where
  "bn_mod_exp_mont_small a num p mont =
     (if num \<noteq> length (mont_N mont) \<or> num > BN_SMALL_MAX_WORDS then None
      else do {
        _ \<leftarrow> c_assert (BN_is_odd (mont_N mont));
        let p = rev (dropWhile (\<lambda>w. w = 0) (rev p));
        let num_p = length p;
        if num_p = 0 then bn_from_montgomery_small (mont_RR mont) num mont
        else do {
          let bits = (ucast ((ucast (BN_num_bits_word (p ! (num_p - 1))) :: u64) + (of_nat num_p - 1) * 64) :: u32);
          _ \<leftarrow> c_assert (bits \<noteq> 0);
          let window = BN_window_bits_for_exponent_size (sint bits);
          let window = (if window > TABLE_BITS_SMALL then TABLE_BITS_SMALL else window);
          val \<leftarrow> (if window > 1 then do {
                    d \<leftarrow> bn_mod_mul_montgomery_small True a a num mont;
                    odd_powers mont num d (push_bit (window - 1) 1 - 1) a }
                  else Some [a]);
          (r_is_one, r) \<leftarrow> exp_loop mont num p window val (unat bits - 1) True [];
          _ \<leftarrow> c_assert (\<not> r_is_one);
          Some r } })"

text \<open>\<open>p - 2\<close>, with the borrow of the lowest word.\<close>

fun dec_words :: "limb list \<Rightarrow> limb list" where
  "dec_words (w # ws) = (w - 1) # (if w \<noteq> 0 then ws else dec_words ws)"
| "dec_words [] = []"

definition words_minus_two :: "limb list \<Rightarrow> limb list" where
  "words_minus_two p =
     (case p of w # ws \<Rightarrow> if w \<ge> 2 then (w - 2) # ws else (w - 2) # dec_words ws | [] \<Rightarrow> [])"

definition bn_mod_inverse_prime_mont_small :: "limb list \<Rightarrow> nat \<Rightarrow> bn_mont_ctx \<Rightarrow> limb list option" where
  "bn_mod_inverse_prime_mont_small a num mont =
     (if num \<noteq> length (mont_N mont) \<or> num > BN_SMALL_MAX_WORDS then None
      else bn_mod_exp_mont_small a num (words_minus_two (mont_N mont)) mont)"

lemma BN_is_odd_val: "BN_is_odd d = odd (bn_val d)"
  by (cases d) (simp_all add: BN_is_odd_def limb_parity)

lemma square_times_form:
  "mont_ok mont \<Longrightarrow> mont_form mont x r \<Longrightarrow>
     \<exists>s. square_times mont (length (mont_N mont)) k r = Some s \<and> mont_form mont (x ^ (2 ^ k)) s"
proof (induction k arbitrary: x r)
  case (Suc k)
  obtain t where t: "bn_mod_mul_montgomery_small True r r (length (mont_N mont)) mont = Some t" "mont_form mont (x * x) t"
    using bn_mod_mul_montgomery_small_form [OF Suc.prems Suc.prems(2)] by blast
  have "x ^ (2 ^ Suc k) = (x * x) ^ (2 ^ k)" by (simp add: power_mult power2_eq_square)
  then show ?case using Suc.IH [OF Suc.prems(1) t(2)] t(1) by simp
qed simp

lemma odd_powers_form:
  "mont_ok mont \<Longrightarrow> mont_form mont y d \<Longrightarrow> mont_form mont x v \<Longrightarrow>
     \<exists>vs. odd_powers mont (length (mont_N mont)) d k v = Some vs \<and> length vs = Suc k \<and> (\<forall>i\<le>k. mont_form mont (x * y ^ i) (vs ! i))"
proof (induction k arbitrary: x v)
  case (Suc k)
  obtain w where w: "bn_mod_mul_montgomery_small False v d (length (mont_N mont)) mont = Some w" "mont_form mont (x * y) w"
    using bn_mod_mul_montgomery_small_form [OF Suc.prems(1,3,2), of False] by blast
  obtain vs where vs: "odd_powers mont (length (mont_N mont)) d k w = Some vs" "length vs = Suc k"
    "\<forall>i\<le>k. mont_form mont (x * y * y ^ i) (vs ! i)"
    using Suc.IH [OF Suc.prems(1,2) w(2)] by blast
  have "mont_form mont (x * y ^ i) ((v # vs) ! i)" if "i \<le> Suc k" for i
    using that vs(3) Suc.prems(3) by (cases i) (auto simp: mult.assoc)
  then show ?case using w vs by simp
qed auto

text \<open>The bits of \<open>e\<close> from \<open>t\<close> down to \<open>t - i\<close>.\<close>

definition win :: "nat \<Rightarrow> nat \<Rightarrow> nat \<Rightarrow> nat" where
  "win e t i = (e div 2 ^ (t - i)) mod 2 ^ (i + 1)"

lemma win_Suc: "Suc i \<le> t \<Longrightarrow> win e t (Suc i) = 2 * win e t i + of_bool (bit e (t - Suc i))"
proof -
  assume i: "Suc i \<le> t"
  let ?q = "e div 2 ^ (t - Suc i)"
  have "t - i = Suc (t - Suc i)" using i by simp
  then have "e div 2 ^ (t - i) = ?q div 2" by (simp only: power_Suc2 div_mult2_eq)
  moreover have "?q mod (2 * 2 ^ (i + 1)) = 2 * (?q div 2 mod 2 ^ (i + 1)) + ?q mod 2" by (rule mod_mult2_eq)
  ultimately show ?thesis by (simp add: win_def bit_iff_odd mod_2_eq_odd)
qed

lemma win_prefix: "i \<le> t \<Longrightarrow> e div 2 ^ (t - i) = (e div 2 ^ (t + 1)) * 2 ^ (i + 1) + win e t i"
proof -
  assume i: "i \<le> t"
  then have "(2::nat) ^ (t + 1) = 2 ^ (t - i) * 2 ^ (i + 1)" by (simp flip: power_add)
  then have "e div 2 ^ (t + 1) = e div 2 ^ (t - i) div 2 ^ (i + 1)" by (simp only: div_mult2_eq)
  then show ?thesis by (simp only: win_def div_mult_mod_eq)
qed

definition scan_inv :: "nat \<Rightarrow> nat \<Rightarrow> nat \<Rightarrow> nat \<times> nat \<Rightarrow> bool" where
  "scan_inv e t i = (\<lambda>(v, s). s \<le> i \<and> odd v \<and> v = win e t s \<and> win e t i = v * 2 ^ (i - s))"

lemma window_scan:
  "bit (bn_val p) t \<Longrightarrow> k \<le> t \<Longrightarrow> scan_inv (bn_val p) t k (foldl (window_step p t) (1, 0) [1..<Suc k])"
proof (induction k)
  case 0
  then show ?case by (simp add: scan_inv_def win_def bit_iff_odd odd_iff_mod_2_eq_one)
next
  case (Suc k)
  obtain v s where f: "foldl (window_step p t) (1, 0) [1..<Suc k] = (v, s)" by (metis surj_pair)
  then have inv: "s \<le> k" "odd v" "v = win (bn_val p) t s" "win (bn_val p) t k = v * 2 ^ (k - s)"
    using Suc by (auto simp: scan_inv_def)
  have e: "Suc k - s = Suc (k - s)" using inv(1) by simp
  note w = win_Suc [OF Suc.prems(2), of "bn_val p"]
  have "push_bit (Suc k - s) v OR 1 = push_bit (Suc k - s) v + 1"
    by (subst disjunctive_add_eq_or) (auto simp: e and_one_eq)
  then have "push_bit (Suc k - s) v OR 1 = 2 * (v * 2 ^ (k - s)) + 1" by (simp add: e push_bit_eq_mult)
  then show ?case
    using f inv w by (auto simp: scan_inv_def window_step_def bn_is_bit_set_words_bit e)
qed

lemma exp_loop_form:
  assumes ok: "mont_ok mont" and win: "1 \<le> window"
    and val: "\<And>i. i < 2 ^ (window - 1) \<Longrightarrow> mont_form mont (x ^ (2 * i + 1)) (val ! i)"
  shows "(if one then bn_val p div 2 ^ (t + 1) = 0 else mont_form mont (x ^ (bn_val p div 2 ^ (t + 1))) r) \<Longrightarrow>
     \<exists>one' r'. exp_loop mont (length (mont_N mont)) p window val t one r = Some (one', r') \<and>
       (if one' then bn_val p = 0 else mont_form mont (x ^ bn_val p) r')"
proof (induction t arbitrary: one r rule: less_induct)
  case (less t)
  let ?e = "bn_val p" and ?num = "length (mont_N mont)"
  note eq = exp_loop.simps [of mont ?num p window val t one r]
  show ?case
  proof (cases "bit ?e t")
    case False
    have "even (?e div 2 ^ t)" using False by (simp add: bit_iff_odd)
    moreover have "?e div 2 ^ (t + 1) = ?e div 2 ^ t div 2" by (simp only: power_add power_one_right div_mult2_eq)
    ultimately have e: "?e div 2 ^ t = 2 * (?e div 2 ^ (t + 1))" by simp
    have "\<exists>s. (if \<not> one then bn_mod_mul_montgomery_small True r r ?num mont else Some r) = Some s \<and>
        (if one then ?e div 2 ^ t = 0 else mont_form mont (x ^ (?e div 2 ^ t)) s)"
      using bn_mod_mul_montgomery_small_form [OF ok, of _ r _ r True] less.prems e by (auto simp: power_add mult_2)
    then obtain s where s: "(if \<not> one then bn_mod_mul_montgomery_small True r r ?num mont else Some r) = Some s"
      "if one then ?e div 2 ^ t = 0 else mont_form mont (x ^ (?e div 2 ^ t)) s" by blast
    show ?thesis
    proof (cases "t = 0")
      case True
      have "exp_loop mont ?num p window val t one r = Some (one, s)"
        unfolding eq using s(1) False True by (simp add: bn_is_bit_set_words_bit)
      then show ?thesis using s(2) True by auto
    next
      case t: False
      have u: "exp_loop mont ?num p window val t one r = exp_loop mont ?num p window val (t - 1) one s"
        unfolding eq using s(1) False t by (simp add: bn_is_bit_set_words_bit)
      have "t - 1 + 1 = t" using t by simp
      with less.IH [of "t - 1" one s] s(2) t show ?thesis unfolding u by simp
    qed
  next
    case True
    let ?m = "min window (t + 1) - 1"
    have m: "[1..<min window (t + 1)] = [1..<Suc ?m]" "?m \<le> t" "?m < window" using win by auto
    obtain v s where f: "foldl (window_step p t) (1, 0) [1..<min window (t + 1)] = (v, s)" by (metis surj_pair)
    have inv: "s \<le> ?m" "odd v" "v = win ?e t s"
      using window_scan [OF True m(2)] f unfolding m(1) by (auto simp: scan_inv_def)
    have st: "s \<le> t" "s < window" using inv(1) m by linarith+
    have "v < 2 ^ (s + 1)" unfolding inv(3) win_def by simp
    also have "\<dots> \<le> 2 ^ window" using st(2) by (intro power_increasing) auto
    finally have v: "v < 2 ^ window" .
    then have "v div 2 < 2 ^ (window - 1)"
      using win by (metis Suc_pred' add_diff_cancel_left' le_add_diff_inverse less_mult_imp_div_less mult.commute plus_1_eq_Suc power_Suc)
    moreover have "2 * (v div 2) + 1 = v" using inv(2) by presburger
    ultimately have vv: "mont_form mont (x ^ v) (val ! (v div 2))" using val [of "v div 2"] by simp
    have n: "?e div 2 ^ (t - s) = (?e div 2 ^ (t + 1)) * 2 ^ (s + 1) + v" using win_prefix [OF st(1), of ?e] inv(3) by simp
    have "\<exists>q. Option.bind (if \<not> one then square_times mont ?num (s + 1) r else Some r)
        (\<lambda>r. if one then Some (val ! (v div 2)) else bn_mod_mul_montgomery_small False r (val ! (v div 2)) ?num mont) = Some q \<and>
        mont_form mont (x ^ (?e div 2 ^ (t - s))) q"
    proof (cases one)
      case True
      then show ?thesis using less.prems vv unfolding n by simp
    next
      case False
      then obtain y where y: "square_times mont ?num (s + 1) r = Some y" "mont_form mont ((x ^ (?e div 2 ^ (t + 1))) ^ (2 ^ (s + 1))) y"
        using square_times_form [OF ok, of "x ^ (?e div 2 ^ (t + 1))" r "s + 1"] less.prems by auto
      obtain q where "bn_mod_mul_montgomery_small False y (val ! (v div 2)) ?num mont = Some q"
        "mont_form mont ((x ^ (?e div 2 ^ (t + 1))) ^ (2 ^ (s + 1)) * x ^ v) q"
        using bn_mod_mul_montgomery_small_form [OF ok y(2) vv, of False] by blast
      then show ?thesis using y(1) False unfolding n power_add power_mult by simp
    qed
    then obtain q where q: "Option.bind (if \<not> one then square_times mont ?num (s + 1) r else Some r)
        (\<lambda>r. if one then Some (val ! (v div 2)) else bn_mod_mul_montgomery_small False r (val ! (v div 2)) ?num mont) = Some q"
      "mont_form mont (x ^ (?e div 2 ^ (t - s))) q" by blast
    have u: "exp_loop mont ?num p window val t one r =
        (if t = s then Some (False, q) else exp_loop mont ?num p window val (t - (s + 1)) False q)"
      unfolding eq f using True inv(2) v q(1)
      by (auto simp: bn_is_bit_set_words_bit push_bit_eq_mult bind_eq_Some_conv simp del: square_times.simps)
    show ?thesis
    proof (cases "t = s")
      case True
      then show ?thesis using u q(2) by auto
    next
      case False
      then have "t - (s + 1) + 1 = t - s" "t - (s + 1) < t" using st(1) by linarith+
      then have "\<exists>one' r'. exp_loop mont ?num p window val (t - (s + 1)) False q = Some (one', r') \<and>
          (if one' then bn_val p = 0 else mont_form mont (x ^ bn_val p) r')"
        using q(2) by (intro less.IH) (simp_all only: if_False)
      then show ?thesis using False unfolding u by (simp only: if_False)
    qed
  qed
qed

definition trim :: "limb list \<Rightarrow> limb list" where
  "trim p = rev (dropWhile (\<lambda>w. w = 0) (rev p))"

lemma bn_val_zeros: "\<forall>w \<in> set xs. w = 0 \<Longrightarrow> bn_val xs = 0"
  by (induction xs) auto

lemma bn_val_trim: "bn_val (trim p) = bn_val p" "length (trim p) \<le> length p"
proof -
  let ?z = "takeWhile (\<lambda>w. w = 0) (rev p)"
  have "rev p = ?z @ dropWhile (\<lambda>w. w = 0) (rev p)" by simp
  then have "rev (rev p) = trim p @ rev ?z" unfolding trim_def by (metis rev_append)
  then have p: "p = trim p @ rev ?z" by simp
  have "bn_val (rev ?z) = 0" by (rule bn_val_zeros) (auto dest: set_takeWhileD)
  then have "bn_val (trim p @ rev ?z) = bn_val (trim p)" by (simp add: bn_val_append)
  then show "bn_val (trim p) = bn_val p" by (simp flip: p)
  show "length (trim p) \<le> length p" using length_dropWhile_le [of "\<lambda>w. w = 0" "rev p"] by (simp add: trim_def)
qed

lemma trim_last: "trim p \<noteq> [] \<Longrightarrow> trim p ! (length (trim p) - 1) \<noteq> 0"
proof -
  assume n: "trim p \<noteq> []"
  then have "hd (dropWhile (\<lambda>w. w = 0) (rev p)) \<noteq> 0" using hd_dropWhile [of "\<lambda>w. w = 0" "rev p"] by (simp add: trim_def)
  moreover have "trim p ! (length (trim p) - 1) = last (trim p)" using n by (simp add: last_conv_nth)
  ultimately show ?thesis by (metis trim_def last_rev)
qed

lemma has_bits_words:
  assumes "has_bits (unat (last ws)) b" "ws \<noteq> []" "0 < b"
  shows "has_bits (bn_val ws) (b + (length ws - 1) * 64)"
proof -
  let ?k = "length ws - 1"
  have ws: "ws = butlast ws @ [last ws]" using assms(2) by simp
  have "bn_val ws = bn_val (butlast ws) + B64 ^ ?k * unat (last ws)"
    by (subst ws) (simp only: bn_val_append length_butlast bn_val.simps mult_0_right add_0_right)
  moreover have B: "(B64::nat) ^ ?k = 2 ^ (?k * 64)" by (simp only: mult.commute [of ?k] power_mult) simp
  moreover have "bn_val (butlast ws) < 2 ^ (?k * 64)" using bn_val_bound [of "butlast ws"] unfolding B [symmetric] by simp
  moreover have "unat (last ws) + 1 \<le> 2 ^ b" "2 ^ (b - 1) \<le> unat (last ws)" using assms by (auto simp: has_bits_def)
  moreover have "(2::nat) ^ (?k * 64) * (unat (last ws) + 1) \<le> 2 ^ (?k * 64) * 2 ^ b"
    "(2::nat) ^ (?k * 64) * 2 ^ (b - 1) \<le> 2 ^ (?k * 64) * unat (last ws)"
    using calculation by (simp_all only: mult_le_mono2)
  moreover have "(2::nat) ^ (b + ?k * 64) = 2 ^ (?k * 64) * 2 ^ b" "(2::nat) ^ (b + ?k * 64 - 1) = 2 ^ (?k * 64) * 2 ^ (b - 1)"
    using assms(3) by (simp_all flip: power_add add: add.commute)
  ultimately show ?thesis unfolding has_bits_def by (simp only: distrib_left mult_1_right) linarith
qed

lemma unat_of_nat_u32: "b < 2 ^ 32 \<Longrightarrow> unat (ucast (of_nat b :: u64) :: u32) = b"
  by (simp add: unsigned_ucast_eq unsigned_of_nat take_bit_eq_mod)

lemma window_bits: "BN_window_bits_for_exponent_size b \<in> {1, 3, 4, 5, 6}"
  by (simp add: BN_window_bits_for_exponent_size_def)

lemma bn_mod_exp_mont_small_form:
  assumes ok: "mont_ok mont" and a: "mont_form mont x a" and p: "length p < 2 ^ 26"
  shows "\<exists>r. bn_mod_exp_mont_small a (length (mont_N mont)) p mont = Some r \<and> mont_form mont (x ^ bn_val p) r"
proof -
  let ?num = "length (mont_N mont)" and ?p = "trim p"
  have nn: "?num \<le> BN_SMALL_MAX_WORDS" "BN_is_odd (mont_N mont)" using ok by (simp_all add: mont_ok_def BN_is_odd_val)
  show ?thesis
  proof (cases "?p = []")
    case True
    then have "bn_mod_exp_mont_small a ?num p mont = bn_from_montgomery_small (mont_RR mont) ?num mont"
      using nn by (simp add: bn_mod_exp_mont_small_def Let_def trim_def)
    moreover have "bn_val p = 0" using bn_val_trim(1) [of p] True by simp
    ultimately show ?thesis using mont_one [OF ok] by simp
  next
    case False
    let ?top = "?p ! (length ?p - 1)"
    let ?bits = "ucast ((ucast (BN_num_bits_word ?top) :: u64) + (of_nat (length ?p) - 1) * 64) :: u32"
    have top: "?top = last ?p" using False by (simp add: last_conv_nth)
    have hb: "has_bits (unat (last ?p)) (unat (BN_num_bits_word ?top))" using BN_num_bits_word_bits [of ?top] top by simp
    have b0: "0 < unat (BN_num_bits_word ?top)"
    proof -
      have "unat (last ?p) \<noteq> 0" using trim_last [OF False] unfolding top by (simp add: unat_eq_0)
      then show ?thesis using has_bits_0 [OF hb] by linarith
    qed
    have b64: "unat (BN_num_bits_word ?top) \<le> 64" using has_bits_le [OF hb, of 64] unat_limb [of "last ?p"] by simp
    let ?B = "unat (BN_num_bits_word ?top) + (length ?p - 1) * 64"
    have "length ?p < 2 ^ 26" using bn_val_trim(2) [of p] p by simp
    then have Blt: "?B < 2 ^ 32" using b64 False by (cases "length ?p") simp_all
    have len1: "of_nat (length ?p) - 1 = (of_nat (length ?p - 1) :: u64)" using False by (cases ?p) simp_all
    have "(ucast (BN_num_bits_word ?top) :: u64) + (of_nat (length ?p) - 1) * 64 = of_nat ?B"
      unfolding len1 by (simp add: of_nat_unat)
    then have bits: "unat ?bits = ?B" using unat_of_nat_u32 [OF Blt] by (simp only:)
    have e: "has_bits (bn_val p) ?B" using has_bits_words [OF hb False b0] by (simp only: bn_val_trim)
    let ?w = "BN_window_bits_for_exponent_size (sint ?bits)"
    let ?win = "if ?w > TABLE_BITS_SMALL then TABLE_BITS_SMALL else ?w"
    have win: "1 \<le> ?win" using window_bits [of "sint ?bits"] by (auto simp: TABLE_BITS_SMALL_def)
    let ?val = "if ?win > 1 then do {
                    d \<leftarrow> bn_mod_mul_montgomery_small True a a ?num mont;
                    odd_powers mont ?num d (push_bit (?win - 1) 1 - 1) a }
                  else Some [a]"
    have "\<exists>val. ?val = Some val \<and> (\<forall>i < 2 ^ (?win - 1). mont_form mont (x ^ (2 * i + 1)) (val ! i))"
    proof (cases "?win > 1")
      case True
      obtain d where d: "bn_mod_mul_montgomery_small True a a ?num mont = Some d" "mont_form mont (x * x) d"
        using bn_mod_mul_montgomery_small_form [OF ok a a] by blast
      obtain vs where vs: "odd_powers mont ?num d (2 ^ (?win - 1) - 1) a = Some vs"
        "\<forall>i \<le> 2 ^ (?win - 1) - 1. mont_form mont (x * (x * x) ^ i) (vs ! i)"
        using odd_powers_form [OF ok d(2) a] by blast
      have "x ^ (2 * i + 1) = x * (x * x) ^ i" for i by (simp add: power_mult power2_eq_square)
      moreover have "i \<le> 2 ^ (?win - 1) - 1" if "i < 2 ^ (?win - 1)" for i :: nat using that by linarith
      ultimately show ?thesis using True d(1) vs by (auto simp only: push_bit_eq_mult mult_1 if_True Option.bind.bind_lunit)
    next
      case one: False
      then have "?win = 1" using win by linarith
      then show ?thesis using a by simp
    qed
    then obtain val where val: "?val = Some val" "\<And>i. i < 2 ^ (?win - 1) \<Longrightarrow> mont_form mont (x ^ (2 * i + 1)) (val ! i)" by blast
    have "bn_val ?p div 2 ^ (?B - 1 + 1) = 0"
    proof -
      have "?B - 1 + 1 = ?B" using b0 by simp
      then show ?thesis using e by (simp only:) (simp add: has_bits_def bn_val_trim)
    qed
    with exp_loop_form [OF ok win val(2), of True ?p "?B - 1" "[]"] obtain one r where
      r: "exp_loop mont ?num ?p ?win val (?B - 1) True [] = Some (one, r)"
      "if one then bn_val ?p = 0 else mont_form mont (x ^ bn_val ?p) r" by auto
    have "bn_val p \<noteq> 0" using has_bits_0 [OF e] b0 by simp
    then have "\<not> one" using r(2) bn_val_trim(1) [of p] by auto
    have "?bits \<noteq> 0" using bits b0 by (metis add_is_0 neq0_conv unat_0)
    have "bn_mod_exp_mont_small a ?num p mont = Some r"
      unfolding bn_mod_exp_mont_small_def trim_def [symmetric] Let_def bits val(1) r(1) Option.bind.bind_lunit prod.case
      using nn False \<open>?bits \<noteq> 0\<close> \<open>\<not> one\<close> by simp
    then show ?thesis using r(2) \<open>\<not> one\<close> bn_val_trim(1) [of p] by simp
  qed
qed

lemma dec_words_val: "0 < bn_val ws \<Longrightarrow> length (dec_words ws) = length ws \<and> bn_val (dec_words ws) = bn_val ws - 1"
proof (induction ws)
  case (Cons w ws)
  show ?case
  proof (cases "w = 0")
    case True
    then have "bn_val (dec_words ws) = bn_val ws - 1" "length (dec_words ws) = length ws" "0 < bn_val ws" using Cons by auto
    moreover have "unat (- 1 :: limb) = B64 - 1" by (simp add: unsigned_minus_1_eq_mask mask_eq_exp_minus_1)
    ultimately show ?thesis using True by (simp add: diff_mult_distrib2)
  next
    case False
    then have "0 < unat w" by (simp add: unat_gt_0)
    moreover have "unat (w - 1) = unat w - 1"
      using False by (rule unat_minus_one)
    ultimately show ?thesis using False by simp
  qed
qed simp

lemma words_minus_two_val: "2 \<le> bn_val p \<Longrightarrow> length (words_minus_two p) = length p \<and> bn_val (words_minus_two p) = bn_val p - 2"
proof (cases p)
  case (Cons w ws)
  assume p: "2 \<le> bn_val p"
  show ?thesis
  proof (cases "2 \<le> w")
    case True
    then have "unat (w - 2) = unat w - 2" "2 \<le> unat w" by (simp_all add: unat_sub word_le_nat_alt)
    then show ?thesis using True Cons by (simp add: words_minus_two_def)
  next
    case False
    then have w: "unat w < 2" by (simp add: word_le_nat_alt)
    then have ws: "0 < bn_val ws" using p Cons by (cases "bn_val ws") simp_all
    have "w = 0 \<or> w = 1" using w by (auto simp: word_unat_eq_iff)
    moreover have "unat (- 1 :: limb) = B64 - 1" "unat (- 2 :: limb) = B64 - 2"
      by (simp_all add: unsigned_minus_1_eq_mask mask_eq_exp_minus_1)
    ultimately have "unat (w - 2) + B64 * (bn_val ws - 1) = unat w + B64 * bn_val ws - 2"
      using ws by (cases "bn_val ws") (auto simp: algebra_simps)
    then show ?thesis using False Cons dec_words_val [OF ws] by (simp add: words_minus_two_def)
  qed
qed simp

subsection \<open>Properties\<close>

text \<open>C13: the modular multiplication of Montgomery forms. For a context as \<open>BN_MONT_CTX_set\<close> leaves it,
  \<open>bn_mod_mul_montgomery_small\<close> does not abort, and takes the forms of \<open>x\<close> and \<open>y\<close> to the form of \<open>x * y\<close>; bringing two
  reduced numbers into the form, multiplying and bringing the result back gives their product modulo the modulus.
\<close>

theorem montgomery_mul_correct:
  assumes "mont_ok mont" "length a = length (mont_N mont)" "length b = length (mont_N mont)"
    "bn_val a < bn_val (mont_N mont)" "bn_val b < bn_val (mont_N mont)"
  shows "\<exists>am bm pm r. bn_to_montgomery_small a (length (mont_N mont)) mont = Some am \<and>
     bn_to_montgomery_small b (length (mont_N mont)) mont = Some bm \<and>
     bn_mod_mul_montgomery_small False am bm (length (mont_N mont)) mont = Some pm \<and>
     bn_from_montgomery_small pm (length (mont_N mont)) mont = Some r \<and>
     length r = length (mont_N mont) \<and> bn_val r = bn_val a * bn_val b mod bn_val (mont_N mont)"
proof -
  obtain am where am: "bn_to_montgomery_small a (length (mont_N mont)) mont = Some am" "mont_form mont (bn_val a) am"
    using bn_to_montgomery_small_form [OF assms(1,2,4)] by blast
  obtain bm where bm: "bn_to_montgomery_small b (length (mont_N mont)) mont = Some bm" "mont_form mont (bn_val b) bm"
    using bn_to_montgomery_small_form [OF assms(1,3,5)] by blast
  obtain pm where pm: "bn_mod_mul_montgomery_small False am bm (length (mont_N mont)) mont = Some pm"
    "mont_form mont (bn_val a * bn_val b) pm"
    using bn_mod_mul_montgomery_small_form [OF assms(1) am(2) bm(2), of False] by blast
  show ?thesis using am(1) bm(1) pm(1) montgomery_roundtrip [OF assms(1) pm(2)] by blast
qed

text \<open>C8: the sliding-window exponentiation. \<open>bn_mod_exp_mont_small\<close> returns for every exponent of fewer than \<open>2 ^ 26\<close> words,
  leading zeros included, and takes the form of \<open>x\<close> to the form of \<open>x ^ p\<close>; none of its assertions fails, and every read of
  the table of odd powers is inside it.
\<close>

theorem bn_mod_exp_mont_small_correct:
  assumes "mont_ok mont" "mont_form mont x a" "length p < 2 ^ 26"
  shows "\<exists>r. bn_mod_exp_mont_small a (length (mont_N mont)) p mont = Some r \<and> mont_form mont (x ^ bn_val p) r"
  using assms by (rule bn_mod_exp_mont_small_form)

text \<open>C14: the inverse by the power \<open>N - 2\<close>. Where the power \<open>N - 1\<close> of \<open>x\<close> is one, as Fermat's theorem says it is for every
  prime \<open>N\<close> and every \<open>x\<close> that it does not divide, \<open>bn_mod_inverse_prime_mont_small\<close> returns the form of an inverse.
\<close>

theorem bn_mod_inverse_prime_mont_small_correct:
  assumes "mont_ok mont" "mont_form mont x a" "2 \<le> bn_val (mont_N mont)"
    "x ^ (bn_val (mont_N mont) - 1) mod bn_val (mont_N mont) = 1"
  shows "\<exists>r y. bn_mod_inverse_prime_mont_small a (length (mont_N mont)) mont = Some r \<and> mont_form mont y r \<and>
     x * y mod bn_val (mont_N mont) = 1"
proof -
  let ?N = "bn_val (mont_N mont)" and ?p = "words_minus_two (mont_N mont)"
  have num: "length (mont_N mont) \<le> BN_SMALL_MAX_WORDS" using assms(1) by (simp add: mont_ok_def)
  have p: "length ?p < 2 ^ 26" "bn_val ?p = ?N - 2"
    using words_minus_two_val [OF assms(3)] num by (simp_all add: BN_SMALL_MAX_WORDS_def)
  obtain r where "bn_mod_exp_mont_small a (length (mont_N mont)) ?p mont = Some r" "mont_form mont (x ^ (?N - 2)) r"
    using bn_mod_exp_mont_small_form [OF assms(1,2) p(1)] unfolding p(2) by blast
  moreover have "?N - 1 = Suc (?N - 2)" using assms(3) by linarith
  then have "x * x ^ (?N - 2) mod ?N = 1" using assms(4) by (simp only: power_Suc)
  ultimately show ?thesis using num by (auto simp: bn_mod_inverse_prime_mont_small_def)
qed

text \<open>A context for the modulus 101.\<close>

definition mont_101 :: bn_mont_ctx where
  "mont_101 = \<lparr>mont_RR = [80], mont_N = [101], mont_n0 = 14246000373755891347\<rparr>"

lemma mont_101_ok: "mont_ok mont_101"
  by (simp add: mont_ok_def mont_101_def BN_SMALL_MAX_WORDS_def)

lemma mont_101_simps: "mont_N mont_101 = [101]"
  by (simp add: mont_101_def)

lemma form_7: "mont_form mont_101 7 [48]"
  by (simp add: mont_form_def mont_101_def)

lemma montgomery_mul_correct_witness:
  "\<exists>am bm pm r. bn_to_montgomery_small [7] 1 mont_101 = Some am \<and> bn_to_montgomery_small [30] 1 mont_101 = Some bm \<and>
     bn_mod_mul_montgomery_small False am bm 1 mont_101 = Some pm \<and>
     bn_from_montgomery_small pm 1 mont_101 = Some r \<and> length r = 1 \<and> bn_val r = 8"
  using montgomery_mul_correct [OF mont_101_ok, of "[7]" "[30]"] by (simp add: mont_101_simps)

lemma bn_mod_exp_mont_small_correct_witness:
  "\<exists>r. bn_mod_exp_mont_small [48] 1 [100, 0] mont_101 = Some r \<and> mont_form mont_101 (7 ^ 100) r"
  using bn_mod_exp_mont_small_correct [OF mont_101_ok form_7, of "[100, 0]"] by (simp add: mont_101_simps)

lemma bn_mod_inverse_prime_mont_small_correct_witness:
  "\<exists>r y. bn_mod_inverse_prime_mont_small [48] 1 mont_101 = Some r \<and> mont_form mont_101 y r \<and> 7 * y mod 101 = 1"
  using bn_mod_inverse_prime_mont_small_correct [OF mont_101_ok form_7] by (simp add: mont_101_simps)

text \<open>C40: \<open>bn_neg_inv_mod_r_u64\<close> returns for every odd word, with no assertion failing in any of its 64 rounds, and its result
  times the word is minus one.
\<close>

theorem bn_neg_inv_mod_r_u64_correct:
  "odd (unat n) \<Longrightarrow> \<exists>v. bn_neg_inv_mod_r_u64 n = Some v \<and> v * n = - 1"
  by (rule bn_neg_inv_mod_r_u64_ok)

lemma bn_neg_inv_mod_r_u64_correct_witness: "\<exists>v. bn_neg_inv_mod_r_u64 101 = Some v \<and> v * 101 = - 1"
  using bn_neg_inv_mod_r_u64_correct [of 101] by simp

end
