(* ===== verification/Poly1305.thy ===== *)
theory Poly1305
  imports Mem
begin

text \<open>
  Poly1305 (\<open>crypto/poly1305/poly1305.c\<close>), the implementation used where the processor is not x86-64 with a 128-bit integer
  type, so on the devices: the accumulator is five limbs of 26 bits, reduced only as far as the next product needs. The
  reference is the polynomial of RFC 8439 modulo \<open>2 ^ 130 - 5\<close>. Every update keeps the limbs in bounds in which no 64-bit sum
  overflows and adds whole blocks to the polynomial, whatever the division of the message; the last reduction is exact
  but for one carry, which \<open>CRYPTO_poly1305_finish\<close> loses (\<open>lost_carry\<close>, \<open>carry_lost\<close>).
\<close>

subsection \<open>Operations\<close>

definition U8TO32_LE :: "u8 list \<Rightarrow> u32" where
  "U8TO32_LE m = ucast (m ! 0) OR push_bit 8 (ucast (m ! 1)) OR push_bit 16 (ucast (m ! 2)) OR push_bit 24 (ucast (m ! 3))"

definition U32TO8_LE :: "u32 \<Rightarrow> u8 list" where
  "U32TO8_LE v = [ucast v, ucast (drop_bit 8 v), ucast (drop_bit 16 v), ucast (drop_bit 24 v)]"

definition mul32x32_64 :: "u32 \<Rightarrow> u32 \<Rightarrow> u64" where
  "mul32x32_64 a b = ucast a * ucast b"

record poly1305_state =
  ps_r0 :: u32
  ps_r1 :: u32
  ps_r2 :: u32
  ps_r3 :: u32
  ps_r4 :: u32
  ps_s1 :: u32
  ps_s2 :: u32
  ps_s3 :: u32
  ps_s4 :: u32
  ps_h0 :: u32
  ps_h1 :: u32
  ps_h2 :: u32
  ps_h3 :: u32
  ps_h4 :: u32
  ps_buf :: "u8 list"
  ps_buf_used :: nat
  ps_key :: "u8 list"

text \<open>The 16 bytes are added to the limbs, \<open>hibit\<close> to the highest.\<close>

definition poly1305_add :: "u8 list \<Rightarrow> u32 \<Rightarrow> poly1305_state \<Rightarrow> poly1305_state" where
  "poly1305_add inp hibit st =
     (let t0 = U8TO32_LE inp;
          t1 = U8TO32_LE (drop 4 inp);
          t2 = U8TO32_LE (drop 8 inp);
          t3 = U8TO32_LE (drop 12 inp)
      in st\<lparr>ps_h0 := ps_h0 st + (t0 AND 0x3ffffff),
            ps_h1 := ps_h1 st + (ucast (drop_bit 26 ((push_bit 32 (ucast t1) OR ucast t0) :: u64) AND 0x3ffffff)),
            ps_h2 := ps_h2 st + (ucast (drop_bit 20 ((push_bit 32 (ucast t2) OR ucast t1) :: u64) AND 0x3ffffff)),
            ps_h3 := ps_h3 st + (ucast (drop_bit 14 ((push_bit 32 (ucast t3) OR ucast t2) :: u64) AND 0x3ffffff)),
            ps_h4 := ps_h4 st + (drop_bit 8 t3 OR hibit)\<rparr>)"

definition poly1305_mul :: "poly1305_state \<Rightarrow> poly1305_state" where
  "poly1305_mul st =
     (let m = mul32x32_64; h0 = ps_h0 st; h1 = ps_h1 st; h2 = ps_h2 st; h3 = ps_h3 st; h4 = ps_h4 st;
          t0 = m h0 (ps_r0 st) + m h1 (ps_s4 st) + m h2 (ps_s3 st) + m h3 (ps_s2 st) + m h4 (ps_s1 st);
          t1 = m h0 (ps_r1 st) + m h1 (ps_r0 st) + m h2 (ps_s4 st) + m h3 (ps_s3 st) + m h4 (ps_s2 st);
          t2 = m h0 (ps_r2 st) + m h1 (ps_r1 st) + m h2 (ps_r0 st) + m h3 (ps_s4 st) + m h4 (ps_s3 st);
          t3 = m h0 (ps_r3 st) + m h1 (ps_r2 st) + m h2 (ps_r1 st) + m h3 (ps_r0 st) + m h4 (ps_s4 st);
          t4 = m h0 (ps_r4 st) + m h1 (ps_r3 st) + m h2 (ps_r2 st) + m h3 (ps_r1 st) + m h4 (ps_r0 st);
          h0 = (ucast t0 :: u32) AND 0x3ffffff;
          c = drop_bit 26 t0;
          t1 = t1 + c;
          h1 = (ucast t1 :: u32) AND 0x3ffffff;
          b = (ucast (drop_bit 26 t1) :: u32);
          t2 = t2 + ucast b;
          h2 = (ucast t2 :: u32) AND 0x3ffffff;
          b = (ucast (drop_bit 26 t2) :: u32);
          t3 = t3 + ucast b;
          h3 = (ucast t3 :: u32) AND 0x3ffffff;
          b = (ucast (drop_bit 26 t3) :: u32);
          t4 = t4 + ucast b;
          h4 = (ucast t4 :: u32) AND 0x3ffffff;
          b = (ucast (drop_bit 26 t4) :: u32);
          h0 = h0 + b * 5
      in st\<lparr>ps_h0 := h0, ps_h1 := h1, ps_h2 := h2, ps_h3 := h3, ps_h4 := h4\<rparr>)"

function poly1305_update :: "u8 list \<Rightarrow> poly1305_state \<Rightarrow> poly1305_state" where
  "poly1305_update inp st =
     (if 16 \<le> length inp then
        poly1305_update (drop 16 inp) (poly1305_mul (poly1305_add (take 16 inp) (push_bit 24 1) st))
      else if inp = [] then st
      else let mp = inp @ 1 # replicate (16 - (length inp + 1)) 0
           in poly1305_mul (poly1305_add mp 0 st))"
  by auto
termination by (relation "measure (\<lambda>(inp, _). length inp)") auto

declare poly1305_update.simps [simp del]

definition CRYPTO_poly1305_init :: "u8 list \<Rightarrow> poly1305_state" where
  "CRYPTO_poly1305_init key =
     (let t0 = U8TO32_LE key;
          t1 = U8TO32_LE (drop 4 key);
          t2 = U8TO32_LE (drop 8 key);
          t3 = U8TO32_LE (drop 12 key);
          r0 = t0 AND 0x3ffffff;
          t0 = drop_bit 26 t0;
          t0 = t0 OR push_bit 6 t1;
          r1 = t0 AND 0x3ffff03;
          t1 = drop_bit 20 t1;
          t1 = t1 OR push_bit 12 t2;
          r2 = t1 AND 0x3ffc0ff;
          t2 = drop_bit 14 t2;
          t2 = t2 OR push_bit 18 t3;
          r3 = t2 AND 0x3f03fff;
          t3 = drop_bit 8 t3;
          r4 = t3 AND 0x00fffff
      in \<lparr>ps_r0 = r0, ps_r1 = r1, ps_r2 = r2, ps_r3 = r3, ps_r4 = r4,
          ps_s1 = r1 * 5, ps_s2 = r2 * 5, ps_s3 = r3 * 5, ps_s4 = r4 * 5,
          ps_h0 = 0, ps_h1 = 0, ps_h2 = 0, ps_h3 = 0, ps_h4 = 0,
          ps_buf = replicate 16 0, ps_buf_used = 0, ps_key = take 16 (drop 16 key)\<rparr>)"

text \<open>The bytes of \<open>buf\<close> behind \<open>buf_used\<close> are never read.\<close>

definition buf_store :: "u8 list \<Rightarrow> nat \<Rightarrow> u8 list \<Rightarrow> u8 list" where
  "buf_store buf i xs = take i buf @ xs @ drop (i + length xs) buf"

text \<open>The whole blocks of the input, then the rest.\<close>

definition poly1305_rest :: "u8 list \<Rightarrow> poly1305_state \<Rightarrow> poly1305_state" where
  "poly1305_rest inp st =
     (let (st, inp) =
        (if 16 \<le> length inp then
           let todo = 16 * (length inp div 16) in (poly1305_update (take todo inp) st, drop todo inp)
         else (st, inp))
      in if inp \<noteq> [] then st\<lparr>ps_buf := buf_store (ps_buf st) 0 inp, ps_buf_used := length inp\<rparr> else st)"

definition CRYPTO_poly1305_update :: "u8 list \<Rightarrow> poly1305_state \<Rightarrow> poly1305_state" where
  "CRYPTO_poly1305_update inp st =
     (if ps_buf_used st \<noteq> 0 then
        let todo = 16 - ps_buf_used st;
            todo = (if todo > length inp then length inp else todo);
            st = st\<lparr>ps_buf := buf_store (ps_buf st) (ps_buf_used st) (take todo inp), ps_buf_used := ps_buf_used st + todo\<rparr>;
            inp = drop todo inp;
            st = (if ps_buf_used st = 16 then (poly1305_update (take 16 (ps_buf st)) st)\<lparr>ps_buf_used := 0\<rparr> else st)
        in poly1305_rest inp st
      else poly1305_rest inp st)"

definition CRYPTO_poly1305_finish :: "poly1305_state \<Rightarrow> u8 list" where
  "CRYPTO_poly1305_finish st =
     (let st = (if ps_buf_used st \<noteq> 0 then poly1305_update (take (ps_buf_used st) (ps_buf st)) st else st);
          h0 = ps_h0 st; h1 = ps_h1 st; h2 = ps_h2 st; h3 = ps_h3 st; h4 = ps_h4 st;
          b = drop_bit 26 h0; h0 = h0 AND 0x3ffffff; h1 = h1 + b;
          b = drop_bit 26 h1; h1 = h1 AND 0x3ffffff; h2 = h2 + b;
          b = drop_bit 26 h2; h2 = h2 AND 0x3ffffff; h3 = h3 + b;
          b = drop_bit 26 h3; h3 = h3 AND 0x3ffffff; h4 = h4 + b;
          b = drop_bit 26 h4; h4 = h4 AND 0x3ffffff; h0 = h0 + b * 5;
          g0 = h0 + 5;
          b = drop_bit 26 g0; g0 = g0 AND 0x3ffffff; g1 = h1 + b;
          b = drop_bit 26 g1; g1 = g1 AND 0x3ffffff; g2 = h2 + b;
          b = drop_bit 26 g2; g2 = g2 AND 0x3ffffff; g3 = h3 + b;
          b = drop_bit 26 g3; g3 = g3 AND 0x3ffffff; g4 = h4 + b - push_bit 26 1;
          b = drop_bit 31 g4 - 1;
          nb = NOT b;
          h0 = (h0 AND nb) OR (g0 AND b);
          h1 = (h1 AND nb) OR (g1 AND b);
          h2 = (h2 AND nb) OR (g2 AND b);
          h3 = (h3 AND nb) OR (g3 AND b);
          h4 = (h4 AND nb) OR (g4 AND b);
          key = ps_key st;
          f0 = (ucast (h0 OR push_bit 26 h1) :: u64) + ucast (U8TO32_LE key);
          f1 = (ucast (drop_bit 6 h1 OR push_bit 20 h2) :: u64) + ucast (U8TO32_LE (drop 4 key));
          f2 = (ucast (drop_bit 12 h2 OR push_bit 14 h3) :: u64) + ucast (U8TO32_LE (drop 8 key));
          f3 = (ucast (drop_bit 18 h3 OR push_bit 8 h4) :: u64) + ucast (U8TO32_LE (drop 12 key));
          f1 = f1 + drop_bit 32 f0;
          f2 = f2 + drop_bit 32 f1;
          f3 = f3 + drop_bit 32 f2
      in U32TO8_LE (ucast f0) @ U32TO8_LE (ucast f1) @ U32TO8_LE (ucast f2) @ U32TO8_LE (ucast f3))"

subsection \<open>The tag of RFC 8439\<close>

primrec le_val :: "u8 list \<Rightarrow> nat" where
  "le_val [] = 0"
| "le_val (x # xs) = unat x + 256 * le_val xs"

abbreviation P1305 :: nat where "P1305 \<equiv> 1361129467683753853853498429727072845819"

function poly_eval :: "nat \<Rightarrow> u8 list \<Rightarrow> nat \<Rightarrow> nat" where
  "poly_eval r msg a =
     (if msg = [] then a else poly_eval r (drop 16 msg) ((a + le_val (take 16 msg @ [1])) * r mod P1305))"
  by auto
termination by (relation "measure (\<lambda>(_, msg, _). length msg)") auto

declare poly_eval.simps [simp del]

definition clamp :: "u8 list \<Rightarrow> u8 list" where
  "clamp r = map2 (AND) r [255, 255, 255, 15, 252, 255, 255, 15, 252, 255, 255, 15, 252, 255, 255, 15]"

fun nat_bytes :: "nat \<Rightarrow> nat \<Rightarrow> u8 list" where
  "nat_bytes 0 n = []"
| "nat_bytes (Suc k) n = of_nat n # nat_bytes k (n div 256)"

definition poly_acc :: "u8 list \<Rightarrow> u8 list \<Rightarrow> nat" where
  "poly_acc key msg = poly_eval (le_val (clamp (take 16 key))) msg 0"

definition poly1305_tag :: "u8 list \<Rightarrow> u8 list \<Rightarrow> u8 list" where
  "poly1305_tag key msg = nat_bytes 16 (poly_acc key msg + le_val (take 16 (drop 16 key)))"

subsection \<open>Words and numbers\<close>

lemma le_val_append: "le_val (xs @ ys) = le_val xs + 256 ^ length xs * le_val ys"
  by (induction xs) (simp_all add: algebra_simps)

lemma le_val_bound: "le_val xs < 256 ^ length xs"
proof (induction xs)
  case (Cons x xs)
  have "unat x < 256" using unsigned_less [of x, where ?'a = nat] by simp
  then obtain k where k: "unat x = k" "k < 256" by blast
  then show ?case using Cons unfolding le_val.simps length_Cons power_Suc k(1) by linarith
qed simp

lemma low_high_disjoint: "unat a < 2 ^ k \<Longrightarrow> a AND push_bit k b = 0" for a b :: "'a::len word"
proof (rule bit_word_eqI)
  fix n assume a: "unat a < 2 ^ k"
  show "bit (a AND push_bit k b) n = bit 0 n"
  proof (cases "n < k")
    case False
    have "\<not> bit (unat a) n"
    proof
      assume "bit (unat a) n"
      then have "2 ^ n \<le> unat a" by (metis bit_iff_odd div_less even_zero linorder_not_less)
      moreover have "(2::nat) ^ k \<le> 2 ^ n" using False by (intro power_increasing) auto
      ultimately show False using a by linarith
    qed
    then show ?thesis by (simp add: bit_simps bit_unsigned_iff)
  qed (simp add: bit_simps)
qed

lemma unat_push_small: "unat b < 2 ^ (LENGTH('a) - k) \<Longrightarrow> k \<le> LENGTH('a) \<Longrightarrow> unat (push_bit k b) = 2 ^ k * unat b"
  for b :: "'a::len word"
proof -
  assume b: "unat b < 2 ^ (LENGTH('a) - k)" and k: "k \<le> LENGTH('a)"
  have "2 ^ k * unat b < 2 ^ k * 2 ^ (LENGTH('a) - k)" using b by simp
  also have "\<dots> = 2 ^ LENGTH('a)" using k by (simp flip: power_add)
  finally have "unat b * 2 ^ k < 2 ^ LENGTH('a)" by (simp add: mult.commute)
  then show ?thesis by (simp only: unsigned_push_bit_eq) (simp only: push_bit_eq_mult take_bit_eq_mod mod_less mult.commute)
qed

lemma unat_or_push: "unat a < 2 ^ k \<Longrightarrow> unat (a OR push_bit k b) = unat a + unat (push_bit k b)" for a b :: "'a::len word"
  by (rule unat_or_disjoint) (rule low_high_disjoint)

lemma unat_push_byte: "unat y < 256 \<Longrightarrow> k \<le> 24 \<Longrightarrow> unat (push_bit k y) = 2 ^ k * unat y" for y :: u32
proof (rule unat_push_small)
  assume y: "unat y < 256" and k: "k \<le> 24"
  have "(2::nat) ^ 8 \<le> 2 ^ (32 - k)" using k by (intro power_increasing) auto
  then show "unat y < 2 ^ (LENGTH(32) - k)" using y by simp
qed simp

lemma unat_U8TO32_LE: "4 \<le> length m \<Longrightarrow> unat (U8TO32_LE m) = le_val (take 4 m)"
proof -
  assume "4 \<le> length m"
  then obtain a b c d ms where m: "m = a # b # c # d # ms" by (auto simp: Suc_le_length_iff eval_nat_numeral)
  have u: "unat (ucast x :: u32) = unat x" "unat x < 256" for x :: u8
  proof -
    show "unat x < 256" using unsigned_less [of x, where ?'a = nat] by simp
    then have "unat x < 4294967296" by linarith
    then show "unat (ucast x :: u32) = unat x" by (simp add: unsigned_ucast_eq take_bit_eq_mod)
  qed
  let ?a = "ucast a :: u32" and ?b = "ucast b :: u32" and ?c = "ucast c :: u32" and ?d = "ucast d :: u32"
  have p: "unat (push_bit 8 ?b) = 256 * unat b" "unat (push_bit 16 ?c) = 65536 * unat c" "unat (push_bit 24 ?d) = 16777216 * unat d"
    using unat_push_byte [of ?b 8] unat_push_byte [of ?c 16] unat_push_byte [of ?d 24] u by simp_all
  have 1: "unat (?a OR push_bit 8 ?b) = unat a + 256 * unat b" using unat_or_push [of ?a 8 ?b] u [of a] p by simp
  have 2: "unat (?a OR push_bit 8 ?b OR push_bit 16 ?c) = unat a + 256 * unat b + 65536 * unat c"
    using unat_or_push [of "?a OR push_bit 8 ?b" 16 ?c] 1 u [of a] u [of b] p by (simp add: or.assoc)
  have 3: "unat (?a OR push_bit 8 ?b OR push_bit 16 ?c OR push_bit 24 ?d) = unat a + 256 * unat b + 65536 * unat c + 16777216 * unat d"
    using unat_or_push [of "?a OR push_bit 8 ?b OR push_bit 16 ?c" 24 ?d] 2 u [of a] u [of b] u [of c] p by (simp add: or.assoc)
  show ?thesis using 3 by (simp add: U8TO32_LE_def m or.assoc)
qed

lemma le_val_16: "length m = 16 \<Longrightarrow>
   le_val m = unat (U8TO32_LE m) + 2 ^ 32 * unat (U8TO32_LE (drop 4 m)) + 2 ^ 64 * unat (U8TO32_LE (drop 8 m)) +
     2 ^ 96 * unat (U8TO32_LE (drop 12 m))"
proof -
  assume m: "length m = 16"
  have split: "le_val xs = le_val (take 4 xs) + 2 ^ 32 * le_val (drop 4 xs)" if "4 \<le> length xs" for xs
    using le_val_append [of "take 4 xs" "drop 4 xs"] that by simp
  show ?thesis
    using m split [of m] split [of "drop 4 m"] split [of "drop 8 m"] by (simp add: unat_U8TO32_LE)
qed

lemma mask26: "unat (x AND 0x3ffffff) = unat x mod 2 ^ 26" for x :: u32
proof -
  have "(0x3ffffff :: u32) = mask 26" by (simp add: mask_eq_exp_minus_1)
  then show ?thesis by (simp only: unsigned_take_bit_eq flip: take_bit_eq_mask) (simp only: take_bit_eq_mod)
qed

lemma mask26_64: "unat (x AND 0x3ffffff) = unat x mod 2 ^ 26" for x :: u64
proof -
  have "(0x3ffffff :: u64) = mask 26" by (simp add: mask_eq_exp_minus_1)
  then show ?thesis by (simp only: unsigned_take_bit_eq flip: take_bit_eq_mask) (simp only: take_bit_eq_mod)
qed

text \<open>The limbs of a block.\<close>

lemma limb_piece:
  fixes x y :: nat
  assumes "x < p * q" "0 < q"
  shows "((p * q * y + x) div q) mod (p * s) = x div q + p * (y mod s)"
proof -
  have "(p * q * y + x) div q = x div q + p * y"
    using div_mult_self2 [of q x "p * y"] assms(2) by (simp add: ac_simps)
  moreover have "x div q < p" using assms(1) by (simp add: less_mult_imp_div_less)
  ultimately show ?thesis by (simp add: mod_mult2_eq)
qed

lemma limb_pieces:
  fixes t0 t1 t2 t3 :: nat
  shows "t0 < 2 ^ 32 \<Longrightarrow> ((2 ^ 32 * t1 + t0) div 2 ^ 26) mod 2 ^ 26 = t0 div 2 ^ 26 + 2 ^ 6 * (t1 mod 2 ^ 20)"
    and "t1 < 2 ^ 32 \<Longrightarrow> ((2 ^ 32 * t2 + t1) div 2 ^ 20) mod 2 ^ 26 = t1 div 2 ^ 20 + 2 ^ 12 * (t2 mod 2 ^ 14)"
    and "t2 < 2 ^ 32 \<Longrightarrow> ((2 ^ 32 * t3 + t2) div 2 ^ 14) mod 2 ^ 26 = t2 div 2 ^ 14 + 2 ^ 18 * (t3 mod 2 ^ 8)"
  using limb_piece [of t0 "2 ^ 6" "2 ^ 26" t1 "2 ^ 20"] limb_piece [of t1 "2 ^ 12" "2 ^ 20" t2 "2 ^ 14"]
    limb_piece [of t2 "2 ^ 18" "2 ^ 14" t3 "2 ^ 8"]
  by (simp_all del: div_mult_self1 div_mult_self2)

lemma limb_sum:
  "a0 + 2 ^ 26 * (a1 + 2 ^ 6 * b0) + 2 ^ 52 * (b1 + 2 ^ 12 * c0) + 2 ^ 78 * (c1 + 2 ^ 18 * d0) + 2 ^ 104 * d1 =
   (a0 + 2 ^ 26 * a1) + 2 ^ 32 * (b0 + 2 ^ 20 * b1) + 2 ^ 64 * (c0 + 2 ^ 14 * c1) + 2 ^ 96 * (d0 + 2 ^ 8 * d1)"
  for a0 :: nat
  by simp

lemma limb_split:
  fixes t0 t1 t2 t3 :: nat
  assumes "t0 < 2 ^ 32" "t1 < 2 ^ 32" "t2 < 2 ^ 32" "t3 < 2 ^ 32"
  shows "t0 mod 2 ^ 26 + 2 ^ 26 * (((2 ^ 32 * t1 + t0) div 2 ^ 26) mod 2 ^ 26) + 2 ^ 52 * (((2 ^ 32 * t2 + t1) div 2 ^ 20) mod 2 ^ 26) +
      2 ^ 78 * (((2 ^ 32 * t3 + t2) div 2 ^ 14) mod 2 ^ 26) + 2 ^ 104 * (t3 div 2 ^ 8) =
    t0 + 2 ^ 32 * t1 + 2 ^ 64 * t2 + 2 ^ 96 * t3"
  unfolding limb_pieces [OF assms(1)] limb_pieces [OF assms(2)] limb_pieces [OF assms(3)] limb_sum
  by (simp only: mod_mult_div_eq)

subsection \<open>One product\<close>

abbreviation "L26 \<equiv> (67108864 :: nat)"

definition limbs_val :: "nat \<Rightarrow> nat \<Rightarrow> nat \<Rightarrow> nat \<Rightarrow> nat \<Rightarrow> nat" where
  "limbs_val a b c d e = a + 2 ^ 26 * b + 2 ^ 52 * c + 2 ^ 78 * d + 2 ^ 104 * e"

text \<open>The products that wrap around \<open>2 ^ 130\<close> come back with the factor 5.\<close>

lemma limbs_product:
  "limbs_val h0 h1 h2 h3 h4 * limbs_val r0 r1 r2 r3 r4 =
     limbs_val (h0 * r0 + h1 * (5 * r4) + h2 * (5 * r3) + h3 * (5 * r2) + h4 * (5 * r1))
       (h0 * r1 + h1 * r0 + h2 * (5 * r4) + h3 * (5 * r3) + h4 * (5 * r2))
       (h0 * r2 + h1 * r1 + h2 * r0 + h3 * (5 * r4) + h4 * (5 * r3))
       (h0 * r3 + h1 * r2 + h2 * r1 + h3 * r0 + h4 * (5 * r4))
       (h0 * r4 + h1 * r3 + h2 * r2 + h3 * r1 + h4 * r0) +
     P1305 * ((h1 * r4 + h2 * r3 + h3 * r2 + h4 * r1) + 2 ^ 26 * (h2 * r4 + h3 * r3 + h4 * r2) +
       2 ^ 52 * (h3 * r4 + h4 * r3) + 2 ^ 78 * (h4 * r4))"
  by (simp add: limbs_val_def algebra_simps)

text \<open>The carries.\<close>

lemma carry_chain:
  fixes t0 t1 t2 t3 t4 :: nat
  assumes "u1 = t1 + t0 div L26" "u2 = t2 + u1 div L26" "u3 = t3 + u2 div L26" "u4 = t4 + u3 div L26"
  shows "limbs_val t0 t1 t2 t3 t4 =
     limbs_val (t0 mod L26 + u4 div L26 * 5) (u1 mod L26) (u2 mod L26) (u3 mod L26) (u4 mod L26) + P1305 * (u4 div L26)"
proof -
  have d: "\<exists>q m. t div L26 = q \<and> t mod L26 = m \<and> t = L26 * q + m" for t by simp
  obtain q0 m0 where 0: "t0 div L26 = q0" "t0 mod L26 = m0" "t0 = L26 * q0 + m0" using d [of t0] by blast
  obtain q1 m1 where 1: "u1 div L26 = q1" "u1 mod L26 = m1" "u1 = L26 * q1 + m1" using d [of u1] by blast
  obtain q2 m2 where 2: "u2 div L26 = q2" "u2 mod L26 = m2" "u2 = L26 * q2 + m2" using d [of u2] by blast
  obtain q3 m3 where 3: "u3 div L26 = q3" "u3 mod L26 = m3" "u3 = L26 * q3 + m3" using d [of u3] by blast
  obtain q4 m4 where 4: "u4 div L26 = q4" "u4 mod L26 = m4" "u4 = L26 * q4 + m4" using d [of u4] by blast
  have "t1 + q0 = L26 * q1 + m1" "t2 + q1 = L26 * q2 + m2" "t3 + q2 = L26 * q3 + m3" "t4 + q3 = L26 * q4 + m4"
    unfolding 0(1) [symmetric] 1(1) [symmetric] 2(1) [symmetric] 3(1) [symmetric] assms [symmetric]
    unfolding 1(1) 2(1) 3(1) by (rule 1(3) 2(3) 3(3) 4(3))+
  then show ?thesis unfolding 0(1,2) 1(1,2) 2(1,2) 3(1,2) 4(1,2) limbs_val_def using 0(3) by simp
qed

text \<open>The bounds between products: the lowest limb is the only one above 26 bits.\<close>

definition hinv :: "poly1305_state \<Rightarrow> bool" where
  "hinv st \<longleftrightarrow> unat (ps_h0 st) \<le> 2850000000 \<and> unat (ps_h1 st) < L26 \<and> unat (ps_h2 st) < L26 \<and> unat (ps_h3 st) < L26 \<and>
     unat (ps_h4 st) < L26"

definition hval :: "poly1305_state \<Rightarrow> nat" where
  "hval st = limbs_val (unat (ps_h0 st)) (unat (ps_h1 st)) (unat (ps_h2 st)) (unat (ps_h3 st)) (unat (ps_h4 st))"

definition rval :: "poly1305_state \<Rightarrow> nat" where
  "rval st = limbs_val (unat (ps_r0 st)) (unat (ps_r1 st)) (unat (ps_r2 st)) (unat (ps_r3 st)) (unat (ps_r4 st))"

definition rinv :: "poly1305_state \<Rightarrow> bool" where
  "rinv st \<longleftrightarrow> unat (ps_r0 st) \<le> 67108863 \<and> unat (ps_r1 st) \<le> 67108611 \<and> unat (ps_r2 st) \<le> 67092735 \<and>
     unat (ps_r3 st) \<le> 66076671 \<and> unat (ps_r4 st) \<le> 1048575 \<and>
     unat (ps_s1 st) = 5 * unat (ps_r1 st) \<and> unat (ps_s2 st) = 5 * unat (ps_r2 st) \<and> unat (ps_s3 st) = 5 * unat (ps_r3 st) \<and>
     unat (ps_s4 st) = 5 * unat (ps_r4 st)"

text \<open>The state between an addition and the product.\<close>

definition ainv :: "poly1305_state \<Rightarrow> bool" where
  "ainv st \<longleftrightarrow> unat (ps_h0 st) \<le> 2850000000 + 67108863 \<and> unat (ps_h1 st) \<le> 134217726 \<and> unat (ps_h2 st) \<le> 134217726 \<and>
     unat (ps_h3 st) \<le> 134217726 \<and> unat (ps_h4 st) \<le> 100663294"

lemma mul_bounds:
  fixes h0 h1 h2 h3 h4 r0 r1 r2 r3 r4 :: nat
  assumes h: "h0 \<le> 2917108863" "h1 \<le> 134217726" "h2 \<le> 134217726" "h3 \<le> 134217726" "h4 \<le> 100663294"
    and r: "r0 \<le> 67108863" "r1 \<le> 67108611" "r2 \<le> 67092735" "r3 \<le> 66076671" "r4 \<le> 1048575"
  shows "h0 * r0 + h1 * (5 * r4) + h2 * (5 * r3) + h3 * (5 * r2) + h4 * (5 * r1) < 323000000000000000"
    and "h0 * r1 + h1 * r0 + h2 * (5 * r4) + h3 * (5 * r3) + h4 * (5 * r2) < 286000000000000000"
    and "h0 * r2 + h1 * r1 + h2 * r0 + h3 * (5 * r4) + h4 * (5 * r3) < 286000000000000000"
    and "h0 * r3 + h1 * r2 + h2 * r1 + h3 * r0 + h4 * (5 * r4) < 286000000000000000"
    and "h0 * r4 + h1 * r3 + h2 * r2 + h3 * r1 + h4 * r0 < 37000000000000000"
proof -
  note m = mult_le_mono
  have s: "5 * r1 \<le> 335543055" "5 * r2 \<le> 335463675" "5 * r3 \<le> 330383355" "5 * r4 \<le> 5242875" using r by linarith+
  show "h0 * r0 + h1 * (5 * r4) + h2 * (5 * r3) + h3 * (5 * r2) + h4 * (5 * r1) < 323000000000000000"
    using m [OF h(1) r(1)] m [OF h(2) s(4)] m [OF h(3) s(3)] m [OF h(4) s(2)] m [OF h(5) s(1)] by linarith
  show "h0 * r1 + h1 * r0 + h2 * (5 * r4) + h3 * (5 * r3) + h4 * (5 * r2) < 286000000000000000"
    using m [OF h(1) r(2)] m [OF h(2) r(1)] m [OF h(3) s(4)] m [OF h(4) s(3)] m [OF h(5) s(2)] by linarith
  show "h0 * r2 + h1 * r1 + h2 * r0 + h3 * (5 * r4) + h4 * (5 * r3) < 286000000000000000"
    using m [OF h(1) r(3)] m [OF h(2) r(2)] m [OF h(3) r(1)] m [OF h(4) s(4)] m [OF h(5) s(3)] by linarith
  show "h0 * r3 + h1 * r2 + h2 * r1 + h3 * r0 + h4 * (5 * r4) < 286000000000000000"
    using m [OF h(1) r(4)] m [OF h(2) r(3)] m [OF h(3) r(2)] m [OF h(4) r(1)] m [OF h(5) s(4)] by linarith
  show "h0 * r4 + h1 * r3 + h2 * r2 + h3 * r1 + h4 * r0 < 37000000000000000"
    using m [OF h(1) r(5)] m [OF h(2) r(4)] m [OF h(3) r(3)] m [OF h(4) r(2)] m [OF h(5) r(1)] by linarith
qed

lemma mul_of_nat: "mul32x32_64 a b = of_nat (unat a * unat b)"
  by (simp add: mul32x32_64_def)

lemma unat_of_nat_64: "n < 2 ^ 64 \<Longrightarrow> unat (of_nat n :: u64) = n"
  by (simp add: unat_of_nat)

lemma low26: "n < 2 ^ 64 \<Longrightarrow> unat ((ucast (of_nat n :: u64) :: u32) AND 0x3ffffff) = n mod L26"
proof -
  assume n: "n < 2 ^ 64"
  have "unat (ucast (of_nat n :: u64) :: u32) = n mod 2 ^ 32"
    using unat_of_nat_64 [OF n] by (simp only: unsigned_ucast_eq) (simp add: take_bit_eq_mod)
  moreover have "n mod 2 ^ 32 mod 2 ^ 26 = n mod 2 ^ 26" by (rule mod_mod_cancel) (simp add: le_imp_power_dvd)
  ultimately show ?thesis unfolding mask26 by simp
qed

lemma high26: "n < 2 ^ 64 \<Longrightarrow> unat (drop_bit 26 (of_nat n :: u64)) = n div L26"
  using unat_of_nat_64 [of n] by (simp only: unat_drop_bit_eq) (simp add: drop_bit_eq_div)

lemma high26_32: "n < 2 ^ 58 \<Longrightarrow> unat (ucast (drop_bit 26 (of_nat n :: u64)) :: u32) = n div L26"
proof -
  assume n: "n < 2 ^ 58"
  then have "n div L26 < 2 ^ 32" by (simp add: div_less_iff_less_mult)
  then show ?thesis using high26 [of n] n by (simp only: unsigned_ucast_eq) (simp add: take_bit_eq_mod)
qed

lemma ucast_nat_64: "unat w = n \<Longrightarrow> (ucast w :: u64) = of_nat n" for w :: u32
  by (metis of_nat_unat)

lemma div26: "n < 400000000000000000 \<Longrightarrow> n div L26 < 6000000000"
  by (rule less_mult_imp_div_less) simp

lemma sel_h:
  "ps_h0 (st\<lparr>ps_h0 := a, ps_h1 := b, ps_h2 := c, ps_h3 := d, ps_h4 := e\<rparr>) = a"
  "ps_h1 (st\<lparr>ps_h0 := a, ps_h1 := b, ps_h2 := c, ps_h3 := d, ps_h4 := e\<rparr>) = b"
  "ps_h2 (st\<lparr>ps_h0 := a, ps_h1 := b, ps_h2 := c, ps_h3 := d, ps_h4 := e\<rparr>) = c"
  "ps_h3 (st\<lparr>ps_h0 := a, ps_h1 := b, ps_h2 := c, ps_h3 := d, ps_h4 := e\<rparr>) = d"
  "ps_h4 (st\<lparr>ps_h0 := a, ps_h1 := b, ps_h2 := c, ps_h3 := d, ps_h4 := e\<rparr>) = e"
  by simp_all

lemma poly1305_mul_val:
  assumes a: "ainv st" and r: "rinv st"
  shows "hinv (poly1305_mul st) \<and> hval (poly1305_mul st) mod P1305 = hval st * rval st mod P1305 \<and>
     (\<exists>h0 h1 h2 h3 h4. poly1305_mul st = st\<lparr>ps_h0 := h0, ps_h1 := h1, ps_h2 := h2, ps_h3 := h3, ps_h4 := h4\<rparr>)"
proof -
  let ?h0 = "unat (ps_h0 st)" and ?h1 = "unat (ps_h1 st)" and ?h2 = "unat (ps_h2 st)" and ?h3 = "unat (ps_h3 st)" and ?h4 = "unat (ps_h4 st)"
  let ?r0 = "unat (ps_r0 st)" and ?r1 = "unat (ps_r1 st)" and ?r2 = "unat (ps_r2 st)" and ?r3 = "unat (ps_r3 st)" and ?r4 = "unat (ps_r4 st)"
  have hb: "?h0 \<le> 2917108863" "?h1 \<le> 134217726" "?h2 \<le> 134217726" "?h3 \<le> 134217726" "?h4 \<le> 100663294"
    using a by (auto simp: ainv_def)
  have rb: "?r0 \<le> 67108863" "?r1 \<le> 67108611" "?r2 \<le> 67092735" "?r3 \<le> 66076671" "?r4 \<le> 1048575"
    and s: "unat (ps_s1 st) = 5 * ?r1" "unat (ps_s2 st) = 5 * ?r2" "unat (ps_s3 st) = 5 * ?r3" "unat (ps_s4 st) = 5 * ?r4"
    using r by (auto simp: rinv_def)
  obtain t0 t1 t2 t3 t4 where t:
    "t0 = ?h0 * ?r0 + ?h1 * (5 * ?r4) + ?h2 * (5 * ?r3) + ?h3 * (5 * ?r2) + ?h4 * (5 * ?r1)"
    "t1 = ?h0 * ?r1 + ?h1 * ?r0 + ?h2 * (5 * ?r4) + ?h3 * (5 * ?r3) + ?h4 * (5 * ?r2)"
    "t2 = ?h0 * ?r2 + ?h1 * ?r1 + ?h2 * ?r0 + ?h3 * (5 * ?r4) + ?h4 * (5 * ?r3)"
    "t3 = ?h0 * ?r3 + ?h1 * ?r2 + ?h2 * ?r1 + ?h3 * ?r0 + ?h4 * (5 * ?r4)"
    "t4 = ?h0 * ?r4 + ?h1 * ?r3 + ?h2 * ?r2 + ?h3 * ?r1 + ?h4 * ?r0" by blast
  have tb: "t0 < 323000000000000000" "t1 < 286000000000000000" "t2 < 286000000000000000" "t3 < 286000000000000000"
    "t4 < 37000000000000000"
    using mul_bounds [OF hb rb, folded t] by blast+
  obtain u1 u2 u3 u4 where u: "u1 = t1 + t0 div L26" "u2 = t2 + u1 div L26" "u3 = t3 + u2 div L26" "u4 = t4 + u3 div L26" by blast
  have b0: "t0 < 2 ^ 64" using tb(1) by simp
  have b1: "u1 < 287000000000000000" unfolding u(1) using tb(1,2) div26 [of t0] by simp
  have b2: "u2 < 287000000000000000" unfolding u(2) using tb(3) b1 div26 [of u1] by simp
  have b3: "u3 < 287000000000000000" unfolding u(3) using tb(4) b2 div26 [of u2] by simp
  have b4: "u4 < 37005000000000000" unfolding u(4) using tb(5) b3 div26 [of u3] by simp
  have b: "u1 < 2 ^ 64" "u2 < 2 ^ 64" "u3 < 2 ^ 64" "u4 < 2 ^ 64" "u1 < 2 ^ 58" "u2 < 2 ^ 58" "u3 < 2 ^ 58" "u4 < 2 ^ 58"
    using b1 b2 b3 b4 by simp_all
  note w = mul_of_nat s
  have p: "mul32x32_64 (ps_h0 st) (ps_r0 st) + mul32x32_64 (ps_h1 st) (ps_s4 st) + mul32x32_64 (ps_h2 st) (ps_s3 st) +
      mul32x32_64 (ps_h3 st) (ps_s2 st) + mul32x32_64 (ps_h4 st) (ps_s1 st) = of_nat t0"
    "mul32x32_64 (ps_h0 st) (ps_r1 st) + mul32x32_64 (ps_h1 st) (ps_r0 st) + mul32x32_64 (ps_h2 st) (ps_s4 st) +
      mul32x32_64 (ps_h3 st) (ps_s3 st) + mul32x32_64 (ps_h4 st) (ps_s2 st) = of_nat t1"
    "mul32x32_64 (ps_h0 st) (ps_r2 st) + mul32x32_64 (ps_h1 st) (ps_r1 st) + mul32x32_64 (ps_h2 st) (ps_r0 st) +
      mul32x32_64 (ps_h3 st) (ps_s4 st) + mul32x32_64 (ps_h4 st) (ps_s3 st) = of_nat t2"
    "mul32x32_64 (ps_h0 st) (ps_r3 st) + mul32x32_64 (ps_h1 st) (ps_r2 st) + mul32x32_64 (ps_h2 st) (ps_r1 st) +
      mul32x32_64 (ps_h3 st) (ps_r0 st) + mul32x32_64 (ps_h4 st) (ps_s4 st) = of_nat t3"
    "mul32x32_64 (ps_h0 st) (ps_r4 st) + mul32x32_64 (ps_h1 st) (ps_r3 st) + mul32x32_64 (ps_h2 st) (ps_r2 st) +
      mul32x32_64 (ps_h3 st) (ps_r1 st) + mul32x32_64 (ps_h4 st) (ps_r0 st) = of_nat t4"
    unfolding w t of_nat_add by (rule refl)+
  have c1: "of_nat t1 + drop_bit 26 (of_nat t0 :: u64) = of_nat u1"
    unfolding u(1) of_nat_add high26 [OF b0, symmetric] of_nat_unat ucast_id by (rule refl)
  have c2: "of_nat t2 + (ucast (ucast (drop_bit 26 (of_nat u1 :: u64)) :: u32) :: u64) = of_nat u2"
    unfolding u(2) of_nat_add ucast_nat_64 [OF high26_32 [OF b(5)]] by (rule refl)
  have c3: "of_nat t3 + (ucast (ucast (drop_bit 26 (of_nat u2 :: u64)) :: u32) :: u64) = of_nat u3"
    unfolding u(3) of_nat_add ucast_nat_64 [OF high26_32 [OF b(6)]] by (rule refl)
  have c4: "of_nat t4 + (ucast (ucast (drop_bit 26 (of_nat u3 :: u64)) :: u32) :: u64) = of_nat u4"
    unfolding u(4) of_nat_add ucast_nat_64 [OF high26_32 [OF b(7)]] by (rule refl)
  let ?m = "\<lambda>n. (ucast (of_nat n :: u64) :: u32) AND 0x3ffffff" and ?b = "ucast (drop_bit 26 (of_nat u4 :: u64)) :: u32"
  have e: "poly1305_mul st = st\<lparr>ps_h0 := ?m t0 + ?b * 5, ps_h1 := ?m u1, ps_h2 := ?m u2, ps_h3 := ?m u3, ps_h4 := ?m u4\<rparr>"
    unfolding poly1305_mul_def Let_def p c1 c2 c3 c4 by (rule refl)
  have h0: "unat (?m t0 + ?b * 5) = t0 mod L26 + u4 div L26 * 5"
  proof -
    have "u4 div L26 \<le> 551417828" using b4 by (simp add: less_eq_div_iff_mult_less_eq div_le_mono) 
    then have "t0 mod L26 + u4 div L26 * 5 < 2 ^ 32" by (simp add: mod_less_divisor) 
    then show ?thesis using low26 [OF b0] high26_32 [OF b(8)] by (simp add: unat_word_ariths)
  qed
  have m: "unat (?m u1) = u1 mod L26" "unat (?m u2) = u2 mod L26" "unat (?m u3) = u3 mod L26" "unat (?m u4) = u4 mod L26"
    using low26 b(1-4) by blast+
  have "hval (poly1305_mul st) = limbs_val (t0 mod L26 + u4 div L26 * 5) (u1 mod L26) (u2 mod L26) (u3 mod L26) (u4 mod L26)"
    unfolding e hval_def sel_h h0 m by (rule refl)
  then have T: "limbs_val t0 t1 t2 t3 t4 = hval (poly1305_mul st) + P1305 * (u4 div L26)"
    using carry_chain [OF u] by simp
  have "hval st * rval st mod P1305 = limbs_val t0 t1 t2 t3 t4 mod P1305"
    unfolding hval_def rval_def limbs_product t [symmetric] by (rule mod_mult_self2)
  then have v: "hval (poly1305_mul st) mod P1305 = hval st * rval st mod P1305"
    unfolding T by simp
  have "hinv (poly1305_mul st)"
  proof -
    have "u4 div L26 < 551417829" using b4 by (intro less_mult_imp_div_less) simp
    moreover have "t0 mod L26 < L26" by simp
    ultimately have "t0 mod L26 + u4 div L26 * 5 \<le> 2850000000" by linarith
    then show ?thesis unfolding e hinv_def sel_h h0 m by simp
  qed
  then show ?thesis using v e by blast
qed

text \<open>Adding a block.\<close>

lemma limbs_add: "limbs_val (a + a') (b + b') (c + c') (d + d') (e + (e' + k)) =
   limbs_val a b c d e + limbs_val a' b' c' d' e' + 2 ^ 104 * k"
  by (simp add: limbs_val_def algebra_simps)

lemma poly1305_add_val:
  assumes h: "hinv st" and len: "length inp = 16" and hib: "hibit = 0 \<or> hibit = push_bit 24 1"
  shows "ainv (poly1305_add inp hibit st) \<and> hval (poly1305_add inp hibit st) = hval st + le_val inp + 2 ^ 104 * unat hibit \<and>
     (\<exists>h0 h1 h2 h3 h4. poly1305_add inp hibit st = st\<lparr>ps_h0 := h0, ps_h1 := h1, ps_h2 := h2, ps_h3 := h3, ps_h4 := h4\<rparr>)"
proof -
  let ?t0 = "U8TO32_LE inp" and ?t1 = "U8TO32_LE (drop 4 inp)" and ?t2 = "U8TO32_LE (drop 8 inp)" and ?t3 = "U8TO32_LE (drop 12 inp)"
  have lim: "unat w < 2 ^ 32" for w :: u32 using unsigned_less [of w, where ?'a = nat] by simp
  have piece: "unat (ucast (drop_bit k ((push_bit 32 (ucast y) OR ucast x) :: u64) AND 0x3ffffff) :: u32) =
      (2 ^ 32 * unat y + unat x) div 2 ^ k mod 2 ^ 26" for k and x y :: u32
  proof -
    have x: "unat (ucast x :: u64) = unat x" and y: "unat (ucast y :: u64) = unat y" for x y :: u32
      using unsigned_less [of x, where ?'a = nat] unsigned_less [of y, where ?'a = nat]
      by (simp_all add: unsigned_ucast_eq take_bit_eq_mod)
    have "unat (push_bit 32 (ucast y :: u64)) = 2 ^ 32 * unat y" using unat_push_small [of "ucast y :: u64" 32] y lim [of y] by simp
    moreover have "unat (ucast x :: u64) < 2 ^ 32" using x lim [of x] by simp
    ultimately have "unat (push_bit 32 (ucast y) OR ucast x :: u64) = 2 ^ 32 * unat y + unat x"
      using unat_or_push [of "ucast x :: u64" 32 "ucast y"] x by (simp add: or.commute)
    then have v: "unat (drop_bit k ((push_bit 32 (ucast y) OR ucast x) :: u64) AND 0x3ffffff) = (2 ^ 32 * unat y + unat x) div 2 ^ k mod 2 ^ 26"
      unfolding mask26_64 by (simp only: unat_drop_bit_eq) (simp only: drop_bit_eq_div)
    have "(2 ^ 32 * unat y + unat x) div 2 ^ k mod 2 ^ 26 < 2 ^ 32" by (rule less_trans [OF mod_less_divisor]) simp_all
    then show ?thesis unfolding unsigned_ucast_eq using v by (simp add: take_bit_eq_mod)
  qed
  have t3: "unat (drop_bit 8 ?t3) = unat ?t3 div 2 ^ 8" by (simp only: unat_drop_bit_eq) (simp only: drop_bit_eq_div)
  have t3lt: "unat (drop_bit 8 ?t3) < 2 ^ 24" unfolding t3 using lim [of ?t3] by (intro less_mult_imp_div_less) simp
  have hb: "unat (drop_bit 8 ?t3 OR hibit) = unat ?t3 div 2 ^ 8 + unat hibit \<and> unat hibit \<le> 2 ^ 24"
    using hib
  proof
    assume "hibit = push_bit 24 1"
    then show ?thesis using unat_or_push [OF t3lt, of 1] t3 by (simp add: unat_push_small)
  qed (use t3 in simp)
  have small: "unat (a + b) = unat a + unat b" if "unat a + unat b < 2 ^ 32" for a b :: u32
    using that by (simp add: unat_word_ariths)
  obtain l0 l1 l2 l3 l4 where l: "l0 = unat ?t0 mod 2 ^ 26" "l1 = (2 ^ 32 * unat ?t1 + unat ?t0) div 2 ^ 26 mod 2 ^ 26"
    "l2 = (2 ^ 32 * unat ?t2 + unat ?t1) div 2 ^ 20 mod 2 ^ 26" "l3 = (2 ^ 32 * unat ?t3 + unat ?t2) div 2 ^ 14 mod 2 ^ 26"
    "l4 = unat ?t3 div 2 ^ 8" by blast
  have "n mod 2 ^ 26 < L26" for n by simp
  then have lb: "l0 < L26" "l1 < L26" "l2 < L26" "l3 < L26" unfolding l by blast+
  have lb4: "l4 < 16777216" using t3lt unfolding l t3 by simp
  have sum: "limbs_val l0 l1 l2 l3 l4 = le_val inp"
    unfolding le_val_16 [OF len] limbs_val_def l by (rule limb_split) (rule lim)+
  obtain p0 p1 p2 p3 p4 where p: "p0 = ?t0 AND 0x3ffffff"
    "p1 = (ucast (drop_bit 26 ((push_bit 32 (ucast ?t1) OR ucast ?t0) :: u64) AND 0x3ffffff) :: u32)"
    "p2 = (ucast (drop_bit 20 ((push_bit 32 (ucast ?t2) OR ucast ?t1) :: u64) AND 0x3ffffff) :: u32)"
    "p3 = (ucast (drop_bit 14 ((push_bit 32 (ucast ?t3) OR ucast ?t2) :: u64) AND 0x3ffffff) :: u32)"
    "p4 = drop_bit 8 ?t3 OR hibit" by blast
  have pv: "unat p0 = l0" "unat p1 = l1" "unat p2 = l2" "unat p3 = l3" "unat p4 = l4 + unat hibit"
    unfolding p piece l mask26 using hb by simp_all
  have e: "poly1305_add inp hibit st = st\<lparr>ps_h0 := ps_h0 st + p0, ps_h1 := ps_h1 st + p1, ps_h2 := ps_h2 st + p2,
      ps_h3 := ps_h3 st + p3, ps_h4 := ps_h4 st + p4\<rparr>"
    unfolding poly1305_add_def Let_def p by (rule refl)
  obtain h0 h1 h2 h3 h4 where hh: "unat (ps_h0 st) = h0" "unat (ps_h1 st) = h1" "unat (ps_h2 st) = h2" "unat (ps_h3 st) = h3"
    "unat (ps_h4 st) = h4" by blast
  have b: "h0 \<le> 2850000000" "h1 < L26" "h2 < L26" "h3 < L26" "h4 < L26" using h unfolding hinv_def hh by blast+
  obtain hb' where hb': "unat hibit = hb'" "hb' \<le> 16777216" using hb by simp
  have s: "unat (ps_h0 st + p0) = h0 + l0" "unat (ps_h1 st + p1) = h1 + l1" "unat (ps_h2 st + p2) = h2 + l2"
    "unat (ps_h3 st + p3) = h3 + l3" "unat (ps_h4 st + p4) = h4 + (l4 + hb')"
    using small [of "ps_h0 st" p0] small [of "ps_h1 st" p1] small [of "ps_h2 st" p2] small [of "ps_h3 st" p3] small [of "ps_h4 st" p4]
      b lb lb4 hb'(2) unfolding hh pv hb'(1) by simp_all
  have "ainv (poly1305_add inp hibit st)"
    unfolding e ainv_def sel_h s using b lb lb4 hb'(2) by simp
  moreover have "hval (poly1305_add inp hibit st) = hval st + le_val inp + 2 ^ 104 * unat hibit"
    unfolding e hval_def sel_h s sum [symmetric] hh hb'(1) by (rule limbs_add)
  ultimately show ?thesis using e by blast
qed

subsection \<open>Messages in pieces\<close>

definition pinv :: "nat \<Rightarrow> u8 list \<Rightarrow> poly1305_state \<Rightarrow> bool" where
  "pinv R key st \<longleftrightarrow> hinv st \<and> rinv st \<and> rval st = R \<and> ps_key st = key"

lemma le_val_one: "le_val (xs @ 1 # replicate k 0) = le_val (xs @ [1])"
proof -
  have "le_val (replicate k 0) = 0" by (induction k) simp_all
  then show ?thesis by (simp add: le_val_append)
qed

lemma mod_add_mult: "(x + v) * r mod p = (x mod p + v) * r mod (p :: nat)"
  by (metis mod_add_left_eq mod_mult_left_eq)

lemma product_step:
  assumes p: "pinv R key st" and len: "length inp = 16" and hib: "hibit = 0 \<or> hibit = push_bit 24 1"
    and v: "le_val inp + 2 ^ 104 * unat hibit = v"
  shows "pinv R key (poly1305_mul (poly1305_add inp hibit st)) \<and>
     hval (poly1305_mul (poly1305_add inp hibit st)) mod P1305 = (hval st mod P1305 + v) * R mod P1305 \<and>
     ps_buf (poly1305_mul (poly1305_add inp hibit st)) = ps_buf st \<and>
     ps_buf_used (poly1305_mul (poly1305_add inp hibit st)) = ps_buf_used st"
proof -
  have h: "hinv st" using p by (simp add: pinv_def)
  obtain a b c d e where add: "poly1305_add inp hibit st = st\<lparr>ps_h0 := a, ps_h1 := b, ps_h2 := c, ps_h3 := d, ps_h4 := e\<rparr>"
    "ainv (poly1305_add inp hibit st)" "hval (poly1305_add inp hibit st) = hval st + le_val inp + 2 ^ 104 * unat hibit"
    using poly1305_add_val [OF h len hib] by blast
  let ?st = "poly1305_add inp hibit st"
  have r: "rinv ?st" "rval ?st = R" "ps_key ?st = key" "ps_buf ?st = ps_buf st" "ps_buf_used ?st = ps_buf_used st"
    unfolding add(1) using p by (simp_all add: pinv_def rinv_def rval_def)
  obtain a' b' c' d' e' where mul: "poly1305_mul ?st = ?st\<lparr>ps_h0 := a', ps_h1 := b', ps_h2 := c', ps_h3 := d', ps_h4 := e'\<rparr>"
    "hinv (poly1305_mul ?st)" "hval (poly1305_mul ?st) mod P1305 = hval ?st * rval ?st mod P1305"
    using poly1305_mul_val [OF add(2) r(1)] by blast
  have "rinv (poly1305_mul ?st)" "rval (poly1305_mul ?st) = R" "ps_key (poly1305_mul ?st) = key"
    "ps_buf (poly1305_mul ?st) = ps_buf st" "ps_buf_used (poly1305_mul ?st) = ps_buf_used st"
    unfolding mul(1) using r by (simp_all add: rinv_def rval_def)
  moreover have "hval (poly1305_mul ?st) mod P1305 = (hval st mod P1305 + v) * R mod P1305"
  proof -
    have "hval ?st = hval st + v" using add(3) v by simp
    then show ?thesis unfolding mul(3) r(2) by (metis mod_add_mult)
  qed
  ultimately show ?thesis using mul(2) by (simp add: pinv_def)
qed

lemma poly1305_update_val:
  "pinv R key st \<Longrightarrow> hval st mod P1305 = a \<Longrightarrow>
     pinv R key (poly1305_update inp st) \<and> hval (poly1305_update inp st) mod P1305 = poly_eval R inp a \<and>
     ps_buf (poly1305_update inp st) = ps_buf st \<and> ps_buf_used (poly1305_update inp st) = ps_buf_used st"
proof (induction inp st arbitrary: a rule: poly1305_update.induct)
  case (1 inp st)
  note eq = poly1305_update.simps [of inp st] and pe = poly_eval.simps [of R inp a]
  consider "16 \<le> length inp" | "inp = []" | "inp \<noteq> []" "length inp < 16" by linarith
  then show ?case
  proof cases
    case 1
    let ?st = "poly1305_mul (poly1305_add (take 16 inp) (push_bit 24 1) st)"
    have v: "le_val (take 16 inp) + 2 ^ 104 * unat (push_bit 24 1 :: u32) = le_val (take 16 inp @ [1])"
      using 1 by (simp add: le_val_append)
    have st: "pinv R key ?st" "hval ?st mod P1305 = (a + le_val (take 16 inp @ [1])) * R mod P1305" "ps_buf ?st = ps_buf st"
      "ps_buf_used ?st = ps_buf_used st"
      using product_step [OF "1.prems"(1) _ _ v] 1 "1.prems"(2) by auto
    have "inp \<noteq> []" using 1 by auto
    then show ?thesis unfolding eq pe using "1.IH" [OF 1 st(1,2)] st(3,4) 1 by simp
  next
    case 2
    then show ?thesis unfolding eq pe using "1.prems" by simp
  next
    case 3
    let ?mp = "inp @ 1 # replicate (16 - (length inp + 1)) 0"
    have "le_val ?mp + 2 ^ 104 * unat (0 :: u32) = le_val (inp @ [1])" by (simp add: le_val_one)
    note s = product_step [OF "1.prems"(1) _ _ this]
    have t: "take 16 inp = inp" "drop 16 inp = []" using 3 by simp_all
    have "poly_eval R inp a = (a + le_val (inp @ [1])) * R mod P1305"
      unfolding pe t using 3 by (simp add: poly_eval.simps [of R "[]"])
    then show ?thesis unfolding eq using s 3 "1.prems"(2) by (simp add: Let_def)
  qed
qed

lemma poly_eval_append: "16 dvd length xs \<Longrightarrow> poly_eval r (xs @ ys) a = poly_eval r ys (poly_eval r xs a)"
proof (induction r xs a rule: poly_eval.induct)
  case (1 r xs a)
  show ?case
  proof (cases "xs = []")
    case False
    then have l: "16 \<le> length xs" "16 dvd length (drop 16 xs)" using "1.prems" by (auto dest: dvd_imp_le)
    then have t: "drop 16 (xs @ ys) = drop 16 xs @ ys" "take 16 (xs @ ys) = take 16 xs" "xs @ ys \<noteq> []" using False by simp_all
    have "poly_eval r (xs @ ys) a = poly_eval r (drop 16 xs @ ys) ((a + le_val (take 16 xs @ [1])) * r mod P1305)"
      using poly_eval.simps [of r "xs @ ys" a] t(3) unfolding t(1,2) by (simp only: if_False)
    moreover have "poly_eval r xs a = poly_eval r (drop 16 xs) ((a + le_val (take 16 xs @ [1])) * r mod P1305)"
      using poly_eval.simps [of r xs a] False by (simp only: if_False)
    ultimately show ?thesis using "1.IH" [OF False l(2)] by (simp only:)
  qed (simp add: poly_eval.simps [of r "[]"])
qed

text \<open>The state has poly_absorbed \<open>m\<close>: whole blocks in the limbs, the rest in the buffer.\<close>

definition poly_absorbed :: "nat \<Rightarrow> u8 list \<Rightarrow> u8 list \<Rightarrow> poly1305_state \<Rightarrow> bool" where
  "poly_absorbed R key m st \<longleftrightarrow> pinv R key st \<and> length (ps_buf st) = 16 \<and>
     (\<exists>full tail. m = full @ tail \<and> 16 dvd length full \<and> length tail < 16 \<and> ps_buf_used st = length tail \<and>
        take (length tail) (ps_buf st) = tail \<and> hval st mod P1305 = poly_eval R full 0)"

lemma pinv_buf [simp]: "pinv R key (st\<lparr>ps_buf := b, ps_buf_used := u\<rparr>) = pinv R key st"
  "pinv R key (st\<lparr>ps_buf_used := u\<rparr>) = pinv R key st" "pinv R key (st\<lparr>ps_buf := b\<rparr>) = pinv R key st"
  by (simp_all add: pinv_def hinv_def rinv_def rval_def)

lemma hval_buf [simp]: "hval (st\<lparr>ps_buf := b, ps_buf_used := u\<rparr>) = hval st" "hval (st\<lparr>ps_buf_used := u\<rparr>) = hval st"
  "hval (st\<lparr>ps_buf := b\<rparr>) = hval st"
  by (simp_all add: hval_def)

lemma buf_store_simps:
  assumes "length buf = 16" "i + length xs \<le> 16"
  shows "length (buf_store buf i xs) = 16" "take (i + length xs) (buf_store buf i xs) = take i buf @ xs"
proof -
  have "i \<le> 16" using assms(2) by linarith
  then show "length (buf_store buf i xs) = 16" "take (i + length xs) (buf_store buf i xs) = take i buf @ xs"
    using assms by (simp_all add: buf_store_def min_absorb2)
qed

text \<open>From a block boundary: the whole blocks, then the rest.\<close>

lemma absorb_blocks:
  assumes p: "pinv R key st" "length (ps_buf st) = 16" and full: "16 dvd length full" "hval st mod P1305 = poly_eval R full 0"
    and used: "ps_buf_used st = 0"
  shows "poly_absorbed R key (full @ inp) (poly1305_rest inp st)"
proof -
  let ?todo = "16 * (length inp div 16)"
  let ?st = "poly1305_update (take ?todo inp) st" and ?inp = "drop ?todo inp"
  have s: "pinv R key ?st" "hval ?st mod P1305 = poly_eval R (take ?todo inp) (poly_eval R full 0)" "ps_buf ?st = ps_buf st"
    "ps_buf_used ?st = 0"
    using poly1305_update_val [OF p(1) full(2), of "take ?todo inp"] used by simp_all
  have e: "poly1305_rest inp st = (if ?inp \<noteq> [] then ?st\<lparr>ps_buf := buf_store (ps_buf ?st) 0 ?inp, ps_buf_used := length ?inp\<rparr> else ?st)"
  proof (cases "16 \<le> length inp")
    case False
    then have "?todo = 0" by simp
    then have "take ?todo inp = []" "?inp = inp" by simp_all
    then show ?thesis using False unfolding poly1305_rest_def Let_def
      by (simp only: if_False prod.case poly1305_update.simps [of "[]"]) simp
  qed (simp add: poly1305_rest_def Let_def)
  have td: "?todo \<le> length inp" "length ?inp < 16" by simp_all
  have f: "full @ inp = (full @ take ?todo inp) @ ?inp" by simp
  have "16 dvd length (full @ take ?todo inp)" using full(1) td(1) by (simp add: min_absorb2)
  moreover have "hval ?st mod P1305 = poly_eval R (full @ take ?todo inp) 0" using s(2) poly_eval_append [OF full(1)] by simp
  moreover have "length (ps_buf ?st) = 16" using s(3) p(2) by simp
  ultimately have blocks: "16 dvd length (full @ take ?todo inp)" "hval ?st mod P1305 = poly_eval R (full @ take ?todo inp) 0"
    "length (ps_buf ?st) = 16" by blast+
  obtain st1 rest where st1: "st1 = ?st" and rest: "rest = ?inp" by blast
  have "poly_absorbed R key ((full @ take ?todo inp) @ rest)
      (if rest \<noteq> [] then st1\<lparr>ps_buf := buf_store (ps_buf st1) 0 rest, ps_buf_used := length rest\<rparr> else st1)"
    unfolding poly_absorbed_def using s(1,4) td(2) blocks buf_store_simps [of "ps_buf st1" 0 rest]
    unfolding st1 [symmetric] rest [symmetric]
    by (intro conjI exI [of _ "full @ take ?todo inp"] exI [of _ rest]) simp_all
  then show ?thesis unfolding e f st1 rest .
qed

lemma CRYPTO_poly1305_update_absorbed:
  assumes "poly_absorbed R key m st"
  shows "poly_absorbed R key (m @ inp) (CRYPTO_poly1305_update inp st)"
proof -
  obtain full tail where a: "pinv R key st" "length (ps_buf st) = 16" "m = full @ tail" "16 dvd length full" "length tail < 16"
    "ps_buf_used st = length tail" "take (length tail) (ps_buf st) = tail" "hval st mod P1305 = poly_eval R full 0"
    using assms by (auto simp: poly_absorbed_def)
  show ?thesis
  proof (cases "tail = []")
    case True
    then show ?thesis
      using absorb_blocks [OF a(1,2,4,8), of inp] a(3,6) by (simp add: CRYPTO_poly1305_update_def)
  next
    case ne: False
    obtain todo where todo: "todo = (if 16 - length tail > length inp then length inp else 16 - length tail)" by blast
    let ?buf = "buf_store (ps_buf st) (length tail) (take todo inp)"
    let ?st = "st\<lparr>ps_buf := ?buf, ps_buf_used := length tail + todo\<rparr>"
    have td: "todo \<le> length inp" "length tail + todo \<le> 16" using todo a(5) by auto
    then have lt: "length (take todo inp) = todo" by simp
    have b: "length ?buf = 16" "take (length tail + todo) ?buf = tail @ take todo inp"
      using buf_store_simps [OF a(2), of "length tail" "take todo inp"] a(7) td(2) unfolding lt by simp_all
    have e: "CRYPTO_poly1305_update inp st = poly1305_rest (drop todo inp)
        (if length tail + todo = 16 then (poly1305_update (take 16 ?buf) ?st)\<lparr>ps_buf_used := 0\<rparr> else ?st)"
      using ne a(6) todo by (simp add: CRYPTO_poly1305_update_def Let_def)
    have m: "m @ inp = (full @ tail @ take todo inp) @ drop todo inp" using a(3) by simp
    show ?thesis
    proof (cases "length tail + todo = 16")
      case full: True
      then have blk: "take 16 ?buf = tail @ take todo inp" using b(2) by simp
      have st: "pinv R key ?st" "hval ?st mod P1305 = poly_eval R full 0" using a by simp_all
      let ?st1 = "(poly1305_update (tail @ take todo inp) ?st)\<lparr>ps_buf_used := 0\<rparr>"
      have s1: "pinv R key ?st1" "hval ?st1 mod P1305 = poly_eval R (full @ tail @ take todo inp) 0" "length (ps_buf ?st1) = 16" "ps_buf_used ?st1 = 0"
        using poly1305_update_val [OF st, of "tail @ take todo inp"] poly_eval_append [OF a(4)] b(1) by simp_all
      have "16 dvd length (full @ tail @ take todo inp)" using a(4) full lt by simp
      from absorb_blocks [OF s1(1,3) this s1(2,4), of "drop todo inp"] show ?thesis
        unfolding e m using full by (simp add: blk)
    next
      case False
      then have all: "todo = length inp" using todo a(5) by (auto split: if_splits)
      have "poly1305_rest [] ?st = ?st" by (simp add: poly1305_rest_def)
      then have e2: "CRYPTO_poly1305_update inp st = ?st" using e False all by simp
      show ?thesis
        unfolding e2 poly_absorbed_def using a b td False all
        by (intro conjI exI [of _ full] exI [of _ "tail @ inp"]) auto
    qed
  qed
qed

subsection \<open>The key\<close>

lemma bit_U8TO32_LE: "n < 32 \<Longrightarrow> bit (U8TO32_LE m) n = bit (m ! (n div 8)) (n mod 8)"
proof -
  assume n: "n < 32"
  have b: "bit (x :: u8) k = False" if "8 \<le> k" for x k using that by (auto dest: bit_imp_le_length)
  have n8: "n - 8 < 32" "n - 16 < 32" "n - 24 < 32" using n by auto
  consider "n < 8" | "8 \<le> n" "n < 16" | "16 \<le> n" "n < 24" | "24 \<le> n" by linarith
  then show ?thesis
  proof cases
    case 1
    then show ?thesis using n by (simp add: U8TO32_LE_def bit_simps)
  next
    case 2
    then have "n div 8 = 1" "n mod 8 = n - 8" by (simp_all add: div_nat_eqI mod_nat_eqI)
    then show ?thesis using 2 n b [of n] n8 by (simp add: U8TO32_LE_def bit_simps)
  next
    case 3
    then have "n div 8 = 2" "n mod 8 = n - 16" by (simp_all add: div_nat_eqI mod_nat_eqI)
    then show ?thesis using 3 n b [of n] b [of "n - 8"] n8 by (simp add: U8TO32_LE_def bit_simps)
  next
    case 4
    then have "n div 8 = 3" "n mod 8 = n - 24" using n by (simp_all add: div_nat_eqI mod_nat_eqI)
    then show ?thesis using 4 n b [of n] b [of "n - 8"] b [of "n - 16"] n8 by (simp add: U8TO32_LE_def bit_simps)
  qed
qed

lemma U8TO32_LE_and: "4 \<le> length a \<Longrightarrow> 4 \<le> length b \<Longrightarrow> U8TO32_LE (map2 (AND) a b) = U8TO32_LE a AND U8TO32_LE b"
proof (rule bit_word_eqI)
  fix n assume l: "4 \<le> length a" "4 \<le> length b" and n: "n < LENGTH(32)"
  then have "n div 8 < 4" by (simp add: less_mult_imp_div_less)
  then show "bit (U8TO32_LE (map2 (AND) a b)) n = bit (U8TO32_LE a AND U8TO32_LE b) n"
    using l n by (simp add: bit_U8TO32_LE bit_and_iff)
qed

lemma clamp_masks:
  "(0x3ffffff :: u32) = mask 26" "(0x0fffffff :: u32) = mask 28" "(0x0ffffffc :: u32) = mask 28 AND NOT (mask 2)"
  "(0x3ffff03 :: u32) = mask 26 AND NOT (push_bit 2 (mask 6))" "(0x3ffc0ff :: u32) = mask 26 AND NOT (push_bit 8 (mask 6))"
  "(0x3f03fff :: u32) = mask 26 AND NOT (push_bit 14 (mask 6))" "(0x00fffff :: u32) = mask 20"
  by (simp_all add: mask_eq_exp_minus_1)

lemma clamp_pieces:
  fixes t0 t1 t2 t3 :: u32
  defines "u0 \<equiv> t0 AND 0x0fffffff" and "u1 \<equiv> t1 AND 0x0ffffffc" and "u2 \<equiv> t2 AND 0x0ffffffc" and "u3 \<equiv> t3 AND 0x0ffffffc"
  shows "t0 AND 0x3ffffff = u0 AND mask 26"
    and "(drop_bit 26 t0 OR push_bit 6 t1) AND 0x3ffff03 = drop_bit 26 u0 OR push_bit 6 (u1 AND mask 20)"
    and "(drop_bit 20 t1 OR push_bit 12 t2) AND 0x3ffc0ff = drop_bit 20 u1 OR push_bit 12 (u2 AND mask 14)"
    and "(drop_bit 14 t2 OR push_bit 18 t3) AND 0x3f03fff = drop_bit 14 u2 OR push_bit 18 (u3 AND mask 8)"
    and "drop_bit 8 t3 AND 0x00fffff = drop_bit 8 u3"
proof -
  have b: "bit (x :: u32) k = False" if "32 \<le> k" for x k using that by (auto dest: bit_imp_le_length)
  note d = u0_def u1_def u2_def u3_def clamp_masks
  show "t0 AND 0x3ffffff = u0 AND mask 26"
    unfolding d by (rule bit_word_eqI) (auto simp: bit_simps)
  show "(drop_bit 26 t0 OR push_bit 6 t1) AND 0x3ffff03 = drop_bit 26 u0 OR push_bit 6 (u1 AND mask 20)"
    unfolding d
  proof (rule bit_word_eqI)
    fix n :: nat assume "n < LENGTH(32)"
    show "bit ((drop_bit 26 t0 OR push_bit 6 t1) AND (mask 26 AND NOT (push_bit 2 (mask 6)))) n =
        bit (drop_bit 26 (t0 AND mask 28) OR push_bit 6 ((t1 AND (mask 28 AND NOT (mask 2))) AND mask 20)) n"
      using b [of "26 + n" t0] \<open>n < LENGTH(32)\<close> by (auto simp: bit_simps less_diff_conv2)
  qed
  show "(drop_bit 20 t1 OR push_bit 12 t2) AND 0x3ffc0ff = drop_bit 20 u1 OR push_bit 12 (u2 AND mask 14)"
    unfolding d
  proof (rule bit_word_eqI)
    fix n :: nat assume "n < LENGTH(32)"
    show "bit ((drop_bit 20 t1 OR push_bit 12 t2) AND (mask 26 AND NOT (push_bit 8 (mask 6)))) n =
        bit (drop_bit 20 (t1 AND (mask 28 AND NOT (mask 2))) OR push_bit 12 ((t2 AND (mask 28 AND NOT (mask 2))) AND mask 14)) n"
      using b [of "20 + n" t1] \<open>n < LENGTH(32)\<close> by (auto simp: bit_simps less_diff_conv2)
  qed
  show "(drop_bit 14 t2 OR push_bit 18 t3) AND 0x3f03fff = drop_bit 14 u2 OR push_bit 18 (u3 AND mask 8)"
    unfolding d
  proof (rule bit_word_eqI)
    fix n :: nat assume "n < LENGTH(32)"
    show "bit ((drop_bit 14 t2 OR push_bit 18 t3) AND (mask 26 AND NOT (push_bit 14 (mask 6)))) n =
        bit (drop_bit 14 (t2 AND (mask 28 AND NOT (mask 2))) OR push_bit 18 ((t3 AND (mask 28 AND NOT (mask 2))) AND mask 8)) n"
      using b [of "14 + n" t2] \<open>n < LENGTH(32)\<close> by (auto simp: bit_simps less_diff_conv2)
  qed
  show "drop_bit 8 t3 AND 0x00fffff = drop_bit 8 u3"
    unfolding d
  proof (rule bit_word_eqI)
    fix n :: nat assume "n < LENGTH(32)"
    show "bit (drop_bit 8 t3 AND mask 20) n = bit (drop_bit 8 (t3 AND (mask 28 AND NOT (mask 2)))) n"
      using b [of "8 + n" t3] \<open>n < LENGTH(32)\<close> by (auto simp: bit_simps less_diff_conv2)
  qed
qed

lemma unat_or_push_mask:
  fixes x y :: u32
  assumes "unat x < 2 ^ a" "a + k = 26"
  shows "unat (x OR push_bit a (y AND mask k)) = unat x + 2 ^ a * (unat y mod 2 ^ k)"
proof -
  have y: "unat (y AND mask k) = unat y mod 2 ^ k"
    by (simp only: unsigned_take_bit_eq flip: take_bit_eq_mask) (simp only: take_bit_eq_mod)
  have "(2::nat) ^ k \<le> 2 ^ (32 - a)" using assms(2) by (intro power_increasing) auto
  then have "unat (y AND mask k) < 2 ^ (LENGTH(32) - a)" unfolding y by (simp add: order_less_le_trans [OF mod_less_divisor])
  then have "unat (push_bit a (y AND mask k)) = 2 ^ a * (unat y mod 2 ^ k)"
    using unat_push_small [of "y AND mask k" a] assms(2) y by simp
  then show ?thesis using unat_or_push [OF assms(1), of "y AND mask k"] by simp
qed

lemma unat_drop_bit_less: "k + a = 32 \<Longrightarrow> unat (drop_bit k x) < 2 ^ a" for x :: u32
proof -
  assume "k + a = 32"
  then have "(2::nat) ^ 32 = 2 ^ a * 2 ^ k" by (simp flip: power_add add: add.commute)
  then have "unat x < 2 ^ a * 2 ^ k" using unsigned_less [of x, where ?'a = nat] by simp
  then show ?thesis unfolding unat_drop_bit by (rule less_mult_imp_div_less)
qed

lemma unat_and_le: "unat (x AND c) \<le> unat c" for x c :: u32
  using word_and_le1 [of x c] by (simp add: word_le_nat_alt)

text \<open>The limbs of the key are those of the clamped number.\<close>

lemma clamp_limbs:
  fixes t0 t1 t2 t3 :: u32
  defines "u0 \<equiv> t0 AND 0x0fffffff" and "u1 \<equiv> t1 AND 0x0ffffffc" and "u2 \<equiv> t2 AND 0x0ffffffc" and "u3 \<equiv> t3 AND 0x0ffffffc"
  shows "limbs_val (unat (t0 AND 0x3ffffff)) (unat ((drop_bit 26 t0 OR push_bit 6 t1) AND 0x3ffff03))
      (unat ((drop_bit 20 t1 OR push_bit 12 t2) AND 0x3ffc0ff)) (unat ((drop_bit 14 t2 OR push_bit 18 t3) AND 0x3f03fff))
      (unat (drop_bit 8 t3 AND 0x00fffff)) =
    unat u0 + 2 ^ 32 * unat u1 + 2 ^ 64 * unat u2 + 2 ^ 96 * unat u3"
proof -
  have b: "unat x < 2 ^ 32" for x :: u32 using unsigned_less [of x, where ?'a = nat] by simp
  have m: "unat (u0 AND mask 26) = unat u0 mod 2 ^ 26"
    by (simp only: unsigned_take_bit_eq flip: take_bit_eq_mask) (simp only: take_bit_eq_mod)
  have p: "unat (drop_bit 26 u0 OR push_bit 6 (u1 AND mask 20)) = unat (drop_bit 26 u0) + 2 ^ 6 * (unat u1 mod 2 ^ 20)"
    "unat (drop_bit 20 u1 OR push_bit 12 (u2 AND mask 14)) = unat (drop_bit 20 u1) + 2 ^ 12 * (unat u2 mod 2 ^ 14)"
    "unat (drop_bit 14 u2 OR push_bit 18 (u3 AND mask 8)) = unat (drop_bit 14 u2) + 2 ^ 18 * (unat u3 mod 2 ^ 8)"
    by (rule unat_or_push_mask [OF unat_drop_bit_less]; simp)+
  have "limbs_val (unat (t0 AND 0x3ffffff)) (unat ((drop_bit 26 t0 OR push_bit 6 t1) AND 0x3ffff03))
      (unat ((drop_bit 20 t1 OR push_bit 12 t2) AND 0x3ffc0ff)) (unat ((drop_bit 14 t2 OR push_bit 18 t3) AND 0x3f03fff))
      (unat (drop_bit 8 t3 AND 0x00fffff)) =
    limbs_val (unat u0 mod 2 ^ 26) (unat u0 div 2 ^ 26 + 2 ^ 6 * (unat u1 mod 2 ^ 20)) (unat u1 div 2 ^ 20 + 2 ^ 12 * (unat u2 mod 2 ^ 14))
      (unat u2 div 2 ^ 14 + 2 ^ 18 * (unat u3 mod 2 ^ 8)) (unat u3 div 2 ^ 8)"
    unfolding clamp_pieces u0_def [symmetric] u1_def [symmetric] u2_def [symmetric] u3_def [symmetric] m p
    unfolding unat_drop_bit ..
  also have "\<dots> = unat u0 + 2 ^ 32 * unat u1 + 2 ^ 64 * unat u2 + 2 ^ 96 * unat u3"
    using limb_split [OF b [of u0] b [of u1] b [of u2] b [of u3]]
    unfolding limb_pieces [OF b] limbs_val_def .
  finally show ?thesis .
qed

lemma U8TO32_LE_take: "4 \<le> k \<Longrightarrow> U8TO32_LE (take k xs) = U8TO32_LE xs"
  by (simp add: U8TO32_LE_def)

lemma clamped_key: "32 \<le> length key \<Longrightarrow>
   le_val (clamp (take 16 key)) = unat (U8TO32_LE key AND 0x0fffffff) + 2 ^ 32 * unat (U8TO32_LE (drop 4 key) AND 0x0ffffffc) +
     2 ^ 64 * unat (U8TO32_LE (drop 8 key) AND 0x0ffffffc) + 2 ^ 96 * unat (U8TO32_LE (drop 12 key) AND 0x0ffffffc)"
proof -
  assume len: "32 \<le> length key"
  let ?c = "[255, 255, 255, 15, 252, 255, 255, 15, 252, 255, 255, 15, 252, 255, 255, 15] :: u8 list"
  have c: "U8TO32_LE ?c = 0x0fffffff" "U8TO32_LE (drop 4 ?c) = 0x0ffffffc" "U8TO32_LE (drop 8 ?c) = 0x0ffffffc"
    "U8TO32_LE (drop 12 ?c) = 0x0ffffffc"
    by (simp_all add: U8TO32_LE_def)
  have d: "U8TO32_LE (drop k (clamp (take 16 key))) = U8TO32_LE (drop k (take 16 key)) AND U8TO32_LE (drop k ?c)" if "k \<le> 12" for k
    using U8TO32_LE_and [of "drop k (take 16 key)" "drop k ?c"] len that by (simp add: clamp_def drop_map drop_zip)
  have t: "U8TO32_LE (drop k (take 16 key)) = U8TO32_LE (drop k key)" if "k \<le> 12" for k
    using that by (simp add: drop_take U8TO32_LE_take)
  have l: "length (clamp (take 16 key)) = 16" using len by (simp add: clamp_def)
  show ?thesis
    unfolding le_val_16 [OF l] using d [of 0] d [of 4] d [of 8] d [of 12] t [of 0] t [of 4] t [of 8] t [of 12] c by simp
qed

lemma unat_mult_5: "unat r \<le> 67108863 \<Longrightarrow> unat (r * 5) = 5 * unat r" for r :: u32
  by (simp add: unat_word_ariths)

lemma CRYPTO_poly1305_init_absorbed:
  assumes "32 \<le> length key"
  shows "poly_absorbed (le_val (clamp (take 16 key))) (take 16 (drop 16 key)) [] (CRYPTO_poly1305_init key)"
proof -
  let ?st = "CRYPTO_poly1305_init key"
  let ?t0 = "U8TO32_LE key" and ?t1 = "U8TO32_LE (drop 4 key)" and ?t2 = "U8TO32_LE (drop 8 key)" and ?t3 = "U8TO32_LE (drop 12 key)"
  have r: "ps_r0 ?st = ?t0 AND 0x3ffffff" "ps_r1 ?st = (drop_bit 26 ?t0 OR push_bit 6 ?t1) AND 0x3ffff03"
    "ps_r2 ?st = (drop_bit 20 ?t1 OR push_bit 12 ?t2) AND 0x3ffc0ff" "ps_r3 ?st = (drop_bit 14 ?t2 OR push_bit 18 ?t3) AND 0x3f03fff"
    "ps_r4 ?st = drop_bit 8 ?t3 AND 0x00fffff" "ps_s1 ?st = ps_r1 ?st * 5" "ps_s2 ?st = ps_r2 ?st * 5" "ps_s3 ?st = ps_r3 ?st * 5"
    "ps_s4 ?st = ps_r4 ?st * 5" "ps_key ?st = take 16 (drop 16 key)" "ps_buf ?st = replicate 16 0" "ps_buf_used ?st = 0"
    by (simp_all only: CRYPTO_poly1305_init_def Let_def poly1305_state.simps)
  have h: "ps_h0 ?st = 0" "ps_h1 ?st = 0" "ps_h2 ?st = 0" "ps_h3 ?st = 0" "ps_h4 ?st = 0"
    by (simp_all only: CRYPTO_poly1305_init_def Let_def poly1305_state.simps)
  have rv: "rval ?st = le_val (clamp (take 16 key))"
    unfolding rval_def r clamped_key [OF assms] clamp_limbs ..
  have le: "unat (ps_r0 ?st) \<le> 67108863" "unat (ps_r1 ?st) \<le> 67108611" "unat (ps_r2 ?st) \<le> 67092735" "unat (ps_r3 ?st) \<le> 66076671"
    "unat (ps_r4 ?st) \<le> 1048575"
    unfolding r(1-5) by (rule order_trans [OF unat_and_le], simp)+
  have s: "unat (ps_s1 ?st) = 5 * unat (ps_r1 ?st)" "unat (ps_s2 ?st) = 5 * unat (ps_r2 ?st)" "unat (ps_s3 ?st) = 5 * unat (ps_r3 ?st)"
    "unat (ps_s4 ?st) = 5 * unat (ps_r4 ?st)"
    unfolding r(6-9) using le by (auto intro!: unat_mult_5)
  have "rinv ?st" using le s by (simp add: rinv_def)
  moreover have "hinv ?st" "hval ?st = 0" by (simp_all add: hinv_def hval_def h limbs_val_def)
  ultimately show ?thesis using rv by (simp add: poly_absorbed_def pinv_def r poly_eval.simps [of _ "[]"])
qed

subsection \<open>The final reduction\<close>

lemma add32: "unat a + unat b < 2 ^ 32 \<Longrightarrow> unat (a + b) = unat a + unat b" for a b :: u32
  using unat_add_lem [of a b] by simp

lemma add26: "unat b = n \<Longrightarrow> unat a + n \<le> 134217728 \<Longrightarrow> unat (a + b) = unat a + n" for a b :: u32
  by (simp add: add32)

lemma fin_carry_nat:
  fixes h0 h1 h2 h3 h4 :: nat
  assumes h: "h0 \<le> 2850000000" "h1 < L26" "h2 < L26" "h3 < L26" "h4 < L26"
    and u: "u1 = h1 + h0 div L26" "u2 = h2 + u1 div L26" "u3 = h3 + u2 div L26" "u4 = h4 + u3 div L26"
  shows "u1 < 2 * L26" "u2 \<le> L26" "u3 \<le> L26" "u4 \<le> L26"
    and "L26 \<le> h0 mod L26 + u4 div L26 * 5 \<Longrightarrow>
      h0 mod L26 + u4 div L26 * 5 < L26 + 5 \<and> u1 mod L26 < 63 \<and> u2 mod L26 = 0 \<and> u3 mod L26 = 0 \<and> u4 mod L26 = 0"
proof -
  have b0: "h0 div L26 \<le> 42" using div_le_mono [OF h(1), of L26] by simp
  show u1: "u1 < 2 * L26" using b0 h(2) unfolding u(1) by linarith
  have one: "n div L26 \<le> 1" if "n < 2 * L26" for n using less_mult_imp_div_less [OF that] by simp
  show u2: "u2 \<le> L26" using one [OF u1] h(3) unfolding u(2) by linarith
  show u3: "u3 \<le> L26" using one [of u2] u2 h(4) unfolding u(3) by linarith
  show u4: "u4 \<le> L26" using one [of u3] u3 h(5) unfolding u(4) by linarith
  assume big: "L26 \<le> h0 mod L26 + u4 div L26 * 5"
  have small: "n div L26 = 0" if "n < L26" for n using that by simp
  have m: "h0 mod L26 < L26" by simp
  have "u4 = L26" using big m small [of u4] u4 by (cases "u4 < L26") simp_all
  then have "u3 = L26" using u(4) h(5) small [of u3] u3 by (cases "u3 < L26") simp_all
  then have "u2 = L26" using u(3) h(4) small [of u2] u2 by (cases "u2 < L26") simp_all
  then have "L26 \<le> u1" using u(2) h(3) small [of u1] by (cases "u1 < L26") simp_all
  then have "u1 mod L26 = u1 - L26" using u1 by (simp add: le_mod_geq)
  then have "u1 mod L26 < 63" using u(1) b0 h(2) by linarith
  moreover have "h0 mod L26 + u4 div L26 * 5 < L26 + 5" unfolding \<open>u4 = L26\<close> using m by simp
  ultimately show "h0 mod L26 + u4 div L26 * 5 < L26 + 5 \<and> u1 mod L26 < 63 \<and> u2 mod L26 = 0 \<and> u3 mod L26 = 0 \<and> u4 mod L26 = 0"
    using \<open>u4 = L26\<close> \<open>u3 = L26\<close> \<open>u2 = L26\<close> by simp
qed

definition fin_carry :: "u32 \<Rightarrow> u32 \<Rightarrow> u32 \<Rightarrow> u32 \<Rightarrow> u32 \<Rightarrow> u32 \<times> u32 \<times> u32 \<times> u32 \<times> u32" where
  "fin_carry h0 h1 h2 h3 h4 =
     (let b = drop_bit 26 h0; h0 = h0 AND 0x3ffffff; h1 = h1 + b;
          b = drop_bit 26 h1; h1 = h1 AND 0x3ffffff; h2 = h2 + b;
          b = drop_bit 26 h2; h2 = h2 AND 0x3ffffff; h3 = h3 + b;
          b = drop_bit 26 h3; h3 = h3 AND 0x3ffffff; h4 = h4 + b;
          b = drop_bit 26 h4; h4 = h4 AND 0x3ffffff; h0 = h0 + b * 5
      in (h0, h1, h2, h3, h4))"

lemma drop26: "unat (drop_bit 26 x) = unat x div L26" for x :: u32
  unfolding unat_drop_bit by simp

lemma mask26_nat: "unat (x AND 0x3ffffff) = unat x mod L26" for x :: u32
  unfolding mask26 by simp

text \<open>The limbs after the carries: their number is the accumulator, and the lowest limb may have a carry left.\<close>

lemma fin_carry_val:
  assumes h: "unat h0 \<le> 2850000000" "unat h1 < L26" "unat h2 < L26" "unat h3 < L26" "unat h4 < L26"
    and x: "fin_carry h0 h1 h2 h3 h4 = (x0, x1, x2, x3, x4)"
  shows "limbs_val (unat x0) (unat x1) (unat x2) (unat x3) (unat x4) mod P1305 =
      limbs_val (unat h0) (unat h1) (unat h2) (unat h3) (unat h4) mod P1305"
    and "unat x1 < L26" "unat x2 < L26" "unat x3 < L26" "unat x4 < L26"
    and "unat x0 < L26 \<or> unat x0 < L26 + 5 \<and> L26 \<le> unat x0 \<and> unat x1 < 63 \<and> x2 = 0 \<and> x3 = 0 \<and> x4 = 0"
proof -
  obtain w1 w2 w3 w4 where w: "w1 = h1 + drop_bit 26 h0" "w2 = h2 + drop_bit 26 w1" "w3 = h3 + drop_bit 26 w2"
    "w4 = h4 + drop_bit 26 w3" by blast
  obtain u1 u2 u3 u4 where u: "u1 = unat h1 + unat h0 div L26" "u2 = unat h2 + u1 div L26" "u3 = unat h3 + u2 div L26"
    "u4 = unat h4 + u3 div L26" by blast
  note b = fin_carry_nat [OF h u]
  have s1: "unat w1 = u1" unfolding w(1) u(1) by (rule add26 [OF drop26]) (use b(1) u(1) in linarith)
  have s2: "unat w2 = u2" unfolding w(2) u(2) s1 [symmetric] by (rule add26 [OF drop26]) (use b(2) u(2) s1 in linarith)
  have s3: "unat w3 = u3" unfolding w(3) u(3) s2 [symmetric] by (rule add26 [OF drop26]) (use b(3) u(3) s2 in linarith)
  have s4: "unat w4 = u4" unfolding w(4) u(4) s3 [symmetric] by (rule add26 [OF drop26]) (use b(4) u(4) s3 in linarith)
  have c: "u4 div L26 \<le> 1" using div_le_mono [OF b(4), of L26] by simp
  have c5: "unat (drop_bit 26 w4 * 5) = u4 div L26 * 5"
  proof -
    have "unat (drop_bit 26 w4) * unat (5 :: u32) < 2 ^ LENGTH(32)" using c unfolding drop26 s4 by simp
    then have "unat (drop_bit 26 w4 * 5) = unat (drop_bit 26 w4) * unat (5 :: u32)" by (simp only: unat_mult_lem)
    then show ?thesis unfolding drop26 s4 by simp
  qed
  have s0: "unat ((h0 AND 0x3ffffff) + drop_bit 26 w4 * 5) = unat h0 mod L26 + u4 div L26 * 5"
  proof -
    have "unat h0 mod L26 < L26" "(2 :: nat) ^ 32 = 4294967296" by simp_all
    then have "unat (h0 AND 0x3ffffff) + unat (drop_bit 26 w4 * 5) < 2 ^ 32" unfolding mask26_nat c5 using c by linarith
    then show ?thesis using add32 mask26_nat c5 by metis
  qed
  have eqs: "x0 = (h0 AND 0x3ffffff) + drop_bit 26 w4 * 5" "x1 = w1 AND 0x3ffffff" "x2 = w2 AND 0x3ffffff"
    "x3 = w3 AND 0x3ffffff" "x4 = w4 AND 0x3ffffff"
    using x unfolding w by (simp_all only: fin_carry_def Let_def prod.inject)
  have v: "unat x0 = unat h0 mod L26 + u4 div L26 * 5" "unat x1 = u1 mod L26" "unat x2 = u2 mod L26" "unat x3 = u3 mod L26"
    "unat x4 = u4 mod L26"
    unfolding eqs mask26_nat s0 s1 s2 s3 s4 by (rule refl)+
  have "limbs_val (unat h0) (unat h1) (unat h2) (unat h3) (unat h4) =
      limbs_val (unat x0) (unat x1) (unat x2) (unat x3) (unat x4) + P1305 * (u4 div L26)"
    unfolding v by (rule carry_chain [OF u])
  then show "limbs_val (unat x0) (unat x1) (unat x2) (unat x3) (unat x4) mod P1305 =
      limbs_val (unat h0) (unat h1) (unat h2) (unat h3) (unat h4) mod P1305"
    by (simp only: mod_mult_self2)
  show "unat x1 < L26" "unat x2 < L26" "unat x3 < L26" "unat x4 < L26" unfolding v by simp_all
  show "unat x0 < L26 \<or> unat x0 < L26 + 5 \<and> L26 \<le> unat x0 \<and> unat x1 < 63 \<and> x2 = 0 \<and> x3 = 0 \<and> x4 = 0"
    using b(5) unfolding v(1,2) [symmetric] v(3-5) [symmetric] unat_eq_0 by (meson linorder_not_less)
qed

definition fin_select :: "u32 \<Rightarrow> u32 \<Rightarrow> u32 \<Rightarrow> u32 \<Rightarrow> u32 \<Rightarrow> u32 \<times> u32 \<times> u32 \<times> u32 \<times> u32" where
  "fin_select h0 h1 h2 h3 h4 =
     (let g0 = h0 + 5;
          b = drop_bit 26 g0; g0 = g0 AND 0x3ffffff; g1 = h1 + b;
          b = drop_bit 26 g1; g1 = g1 AND 0x3ffffff; g2 = h2 + b;
          b = drop_bit 26 g2; g2 = g2 AND 0x3ffffff; g3 = h3 + b;
          b = drop_bit 26 g3; g3 = g3 AND 0x3ffffff; g4 = h4 + b - push_bit 26 1;
          b = drop_bit 31 g4 - 1;
          nb = NOT b
      in ((h0 AND nb) OR (g0 AND b), (h1 AND nb) OR (g1 AND b), (h2 AND nb) OR (g2 AND b), (h3 AND nb) OR (g3 AND b),
          (h4 AND nb) OR (g4 AND b)))"

lemma select_mask:
  fixes w4 :: u32
  assumes "unat w4 \<le> L26"
  shows "L26 \<le> unat w4 \<Longrightarrow> drop_bit 31 (w4 - push_bit 26 1) - 1 = - 1 \<and> w4 - push_bit 26 1 = 0"
    and "unat w4 < L26 \<Longrightarrow> drop_bit 31 (w4 - push_bit 26 1) - 1 = 0"
proof -
  have p: "(push_bit 26 1 :: u32) = 67108864" by simp
  show "drop_bit 31 (w4 - push_bit 26 1) - 1 = - 1 \<and> w4 - push_bit 26 1 = 0" if "L26 \<le> unat w4"
  proof -
    have "unat w4 = unat (67108864 :: u32)" using assms that by simp
    then have "w4 = 67108864" by (simp only: word_unat_eq_iff)
    then show ?thesis unfolding p by simp
  qed
  show "drop_bit 31 (w4 - push_bit 26 1) - 1 = 0" if "unat w4 < L26"
  proof -
    have "unat (w4 - 67108864) = unat w4 + 4294967296 - 67108864"
      using that unat_sub_if' [of w4 67108864] by simp
    then have "unat (w4 - 67108864) div 2147483648 = 1" using that by (intro div_nat_eqI) simp_all
    then have "unat (drop_bit 31 (w4 - 67108864)) = 1" unfolding unat_drop_bit by simp
    then have "drop_bit 31 (w4 - 67108864) = 1" by (simp only: word_unat_eq_iff) simp
    then show ?thesis unfolding p by simp
  qed
qed

text \<open>Adding 5 carries out of the highest limb exactly when the number is at least the modulus.\<close>

lemma plus5_chain:
  fixes x0 x1 x2 x3 x4 :: nat
  assumes "v0 = x0 + 5" "v1 = x1 + v0 div L26" "v2 = x2 + v1 div L26" "v3 = x3 + v2 div L26" "v4 = x4 + v3 div L26"
  shows "limbs_val x0 x1 x2 x3 x4 + 5 = limbs_val (v0 mod L26) (v1 mod L26) (v2 mod L26) (v3 mod L26) v4"
proof -
  have d: "\<exists>q m. t div L26 = q \<and> t mod L26 = m \<and> t = L26 * q + m" for t by simp
  obtain q0 m0 where 0: "v0 div L26 = q0" "v0 mod L26 = m0" "v0 = L26 * q0 + m0" using d [of v0] by blast
  obtain q1 m1 where 1: "v1 div L26 = q1" "v1 mod L26 = m1" "v1 = L26 * q1 + m1" using d [of v1] by blast
  obtain q2 m2 where 2: "v2 div L26 = q2" "v2 mod L26 = m2" "v2 = L26 * q2 + m2" using d [of v2] by blast
  obtain q3 m3 where 3: "v3 div L26 = q3" "v3 mod L26 = m3" "v3 = L26 * q3 + m3" using d [of v3] by blast
  have "x0 + 5 = L26 * q0 + m0" "x1 + q0 = L26 * q1 + m1" "x2 + q1 = L26 * q2 + m2" "x3 + q2 = L26 * q3 + m3" "v4 = x4 + q3"
    using assms(1) 0(3) assms(2) [unfolded 0(1)] 1(3) assms(3) [unfolded 1(1)] 2(3) assms(4) [unfolded 2(1)] 3(3)
      assms(5) [unfolded 3(1)] by simp_all
  then show ?thesis unfolding 0(2) 1(2) 2(2) 3(2) limbs_val_def by simp
qed

lemma limbs_low:
  fixes a b c d :: nat
  assumes "a < L26" "b < L26" "c < L26" "d < L26"
  shows "a + 2 ^ 26 * b + 2 ^ 52 * c + 2 ^ 78 * d < 2 ^ 104"
  using assms by simp

lemma fin_select_val:
  assumes x: "unat x0 < L26 + 5" "unat x1 < L26" "unat x2 < L26" "unat x3 < L26" "unat x4 < L26"
    and y: "fin_select x0 x1 x2 x3 x4 = (y0, y1, y2, y3, y4)"
    and V: "V = limbs_val (unat x0) (unat x1) (unat x2) (unat x3) (unat x4)"
  shows "if P1305 \<le> V then limbs_val (unat y0) (unat y1) (unat y2) (unat y3) (unat y4) = V - P1305 \<and>
      unat y0 < L26 \<and> unat y1 < L26 \<and> unat y2 < L26 \<and> unat y3 < L26 \<and> unat y4 < L26
    else y0 = x0 \<and> y1 = x1 \<and> y2 = x2 \<and> y3 = x3 \<and> y4 = x4"
proof -
  obtain w0 w1 w2 w3 w4 where w: "w0 = x0 + 5" "w1 = x1 + drop_bit 26 w0" "w2 = x2 + drop_bit 26 w1" "w3 = x3 + drop_bit 26 w2"
    "w4 = x4 + drop_bit 26 w3" by blast
  have s0: "unat w0 = unat x0 + 5" unfolding w(1) by (rule add26) (use x(1) in simp_all)
  have one: "n div L26 \<le> 1" if "n < 2 * L26" for n using less_mult_imp_div_less [OF that] by simp
  have s1: "unat w1 = unat x1 + unat w0 div L26" "unat w1 \<le> L26"
    unfolding w(2) using one [of "unat w0"] s0 x(1,2) add26 [OF drop26, of x1 w0] by linarith+
  have s2: "unat w2 = unat x2 + unat w1 div L26" "unat w2 \<le> L26"
    unfolding w(3) using one [of "unat w1"] s1(2) x(3) add26 [OF drop26, of x2 w1] by linarith+
  have s3: "unat w3 = unat x3 + unat w2 div L26" "unat w3 \<le> L26"
    unfolding w(4) using one [of "unat w2"] s2(2) x(4) add26 [OF drop26, of x3 w2] by linarith+
  have s4: "unat w4 = unat x4 + unat w3 div L26" "unat w4 \<le> L26"
    unfolding w(5) using one [of "unat w3"] s3(2) x(5) add26 [OF drop26, of x4 w3] by linarith+
  let ?b = "drop_bit 31 (w4 - push_bit 26 1) - 1"
  have ys: "y0 = (x0 AND NOT ?b) OR ((w0 AND 0x3ffffff) AND ?b)" "y1 = (x1 AND NOT ?b) OR ((w1 AND 0x3ffffff) AND ?b)"
    "y2 = (x2 AND NOT ?b) OR ((w2 AND 0x3ffffff) AND ?b)" "y3 = (x3 AND NOT ?b) OR ((w3 AND 0x3ffffff) AND ?b)"
    "y4 = (x4 AND NOT ?b) OR ((w4 - push_bit 26 1) AND ?b)"
    using y unfolding w by (simp_all only: fin_select_def Let_def prod.inject)
  have sum: "V + 5 = limbs_val (unat w0 mod L26) (unat w1 mod L26) (unat w2 mod L26) (unat w3 mod L26) (unat w4)"
    unfolding V by (rule plus5_chain [OF s0 s1(1) s2(1) s3(1) s4(1)])
  obtain lo where lo: "unat w0 mod L26 + 2 ^ 26 * (unat w1 mod L26) + 2 ^ 52 * (unat w2 mod L26) + 2 ^ 78 * (unat w3 mod L26) = lo"
    "lo < 2 ^ 104" using limbs_low [of "unat w0 mod L26" "unat w1 mod L26" "unat w2 mod L26" "unat w3 mod L26"] by simp
  have V5: "V + 5 = lo + 2 ^ 104 * unat w4" using sum lo(1) unfolding limbs_val_def by linarith
  show ?thesis
  proof (cases "L26 \<le> unat w4")
    case True
    note m = select_mask(1) [OF s4(2) True]
    have "unat w4 = L26" using True s4(2) by simp
    then have ge: "P1305 \<le> V" "lo = V - P1305" using V5 by simp_all
    have y: "y0 = w0 AND 0x3ffffff" "y1 = w1 AND 0x3ffffff" "y2 = w2 AND 0x3ffffff" "y3 = w3 AND 0x3ffffff" "y4 = 0"
      unfolding ys using m by simp_all
    have "limbs_val (unat y0) (unat y1) (unat y2) (unat y3) (unat y4) = V - P1305"
      unfolding y mask26_nat limbs_val_def using lo(1) ge(2) by simp
    then show ?thesis using ge(1) unfolding y mask26_nat by simp
  next
    case False
    then have b: "?b = 0" using select_mask(2) [OF s4(2)] by simp
    have "unat w4 \<le> L26 - 1" using False by simp
    then have "2 ^ 104 * unat w4 \<le> 2 ^ 104 * (L26 - 1)" by (rule mult_le_mono2)
    then have lt: "\<not> P1305 \<le> V" using V5 lo(2) by simp
    show ?thesis unfolding ys b using lt by simp
  qed
qed

subsection \<open>The tag\<close>

lemma nat_bytes_mod: "k \<le> j \<Longrightarrow> nat_bytes k (n mod 256 ^ j) = nat_bytes k n"
proof (induction k arbitrary: j n)
  case (Suc k)
  then obtain i where j: "j = Suc i" "k \<le> i" by (cases j) auto
  have "n mod 256 ^ j div 256 = n div 256 mod 256 ^ i" unfolding j power_Suc by (simp add: mod_mult2_eq)
  moreover have "(of_nat (n mod 256 ^ j) :: u8) = of_nat n"
    unfolding j power_Suc by (simp add: word_of_nat_eq_iff take_bit_eq_mod mod_mod_cancel)
  ultimately show ?case using Suc.IH [OF j(2), of "n div 256"] by simp
qed simp

lemma nat_bytes_add: "nat_bytes (j + k) n = nat_bytes j n @ nat_bytes k (n div 256 ^ j)"
  by (induction j arbitrary: n) (simp_all add: div_mult2_eq)

lemma nat_bytes_word: "nat_bytes (4 + k) (a + 2 ^ 32 * b) = nat_bytes 4 a @ nat_bytes k (a div 2 ^ 32 + b)"
proof -
  have "nat_bytes 4 (a + 2 ^ 32 * b) = nat_bytes 4 a"
    using nat_bytes_mod [of 4 4 "a + 2 ^ 32 * b"] nat_bytes_mod [of 4 4 a] by simp
  moreover have "(a + 2 ^ 32 * b) div 256 ^ 4 = a div 2 ^ 32 + b" by (simp add: add.commute)
  ultimately show ?thesis unfolding nat_bytes_add by (simp only:)
qed

lemma U32TO8_LE_bytes: "unat f = n \<Longrightarrow> U32TO8_LE (ucast f) = nat_bytes 4 n" for f :: u64
proof -
  assume n: "unat f = n"
  have e: "ucast (drop_bit k (ucast f :: u32)) = (of_nat (n div 2 ^ k) :: u8)" if "k \<le> 24" for k
  proof (rule bit_word_eqI)
    fix i assume i: "i < LENGTH(8)"
    have "bit (ucast (drop_bit k (ucast f :: u32)) :: u8) i = bit f (k + i)" using i that by (simp add: bit_simps)
    also have "\<dots> = bit (n div 2 ^ k) i" unfolding n [symmetric] by (simp add: bit_unsigned_iff bit_simps flip: drop_bit_eq_div)
    finally show "bit (ucast (drop_bit k (ucast f :: u32)) :: u8) i = bit (of_nat (n div 2 ^ k) :: u8) i"
      using i by (simp add: bit_simps)
  qed
  have 4: "(4 :: nat) = Suc (Suc (Suc (Suc 0)))" by simp
  have "nat_bytes 4 n = [of_nat n, of_nat (n div 2 ^ 8), of_nat (n div 2 ^ 16), of_nat (n div 2 ^ 24)]"
    unfolding 4 by (simp flip: div_mult2_eq)
  then show ?thesis using e [of 0] e [of 8] e [of 16] e [of 24] by (simp add: U32TO8_LE_def)
qed

definition fin_out :: "u32 \<Rightarrow> u32 \<Rightarrow> u32 \<Rightarrow> u32 \<Rightarrow> u32 \<Rightarrow> u8 list \<Rightarrow> u8 list" where
  "fin_out h0 h1 h2 h3 h4 key =
     (let f0 = (ucast (h0 OR push_bit 26 h1) :: u64) + ucast (U8TO32_LE key);
          f1 = (ucast (drop_bit 6 h1 OR push_bit 20 h2) :: u64) + ucast (U8TO32_LE (drop 4 key));
          f2 = (ucast (drop_bit 12 h2 OR push_bit 14 h3) :: u64) + ucast (U8TO32_LE (drop 8 key));
          f3 = (ucast (drop_bit 18 h3 OR push_bit 8 h4) :: u64) + ucast (U8TO32_LE (drop 12 key));
          f1 = f1 + drop_bit 32 f0;
          f2 = f2 + drop_bit 32 f1;
          f3 = f3 + drop_bit 32 f2
      in U32TO8_LE (ucast f0) @ U32TO8_LE (ucast f1) @ U32TO8_LE (ucast f2) @ U32TO8_LE (ucast f3))"

lemma CRYPTO_poly1305_finish_parts:
  assumes "st' = (if ps_buf_used st \<noteq> 0 then poly1305_update (take (ps_buf_used st) (ps_buf st)) st else st)"
    and "fin_carry (ps_h0 st') (ps_h1 st') (ps_h2 st') (ps_h3 st') (ps_h4 st') = (x0, x1, x2, x3, x4)"
    and "fin_select x0 x1 x2 x3 x4 = (y0, y1, y2, y3, y4)"
  shows "CRYPTO_poly1305_finish st = fin_out y0 y1 y2 y3 y4 (ps_key st')"
proof -
  have c: "(case fin_carry (ps_h0 st') (ps_h1 st') (ps_h2 st') (ps_h3 st') (ps_h4 st') of (x0, x1, x2, x3, x4) \<Rightarrow>
      case fin_select x0 x1 x2 x3 x4 of (y0, y1, y2, y3, y4) \<Rightarrow> fin_out y0 y1 y2 y3 y4 (ps_key st')) =
    CRYPTO_poly1305_finish st"
    unfolding assms(1) by (simp only: CRYPTO_poly1305_finish_def fin_carry_def fin_select_def fin_out_def Let_def prod.case)
  show ?thesis unfolding c [symmetric] assms(2,3) prod.case ..
qed

text \<open>The words of the result.\<close>

lemma unat_or_push_low:
  fixes x y :: u32
  assumes "unat x < 2 ^ a" "a + k = 32"
  shows "unat (x OR push_bit a y) = unat x + 2 ^ a * (unat y mod 2 ^ k)"
proof -
  have e: "(2 :: nat) ^ LENGTH(32) = 2 ^ a * 2 ^ k" using assms(2) by (simp flip: power_add)
  have "unat (push_bit a y) = (2 ^ a * unat y) mod 2 ^ LENGTH(32)"
    by (simp only: unsigned_push_bit_eq) (simp only: push_bit_eq_mult take_bit_eq_mod mult.commute)
  also have "\<dots> = 2 ^ a * (unat y mod 2 ^ k)" unfolding e by (rule mult_mod_right [symmetric])
  finally show ?thesis using unat_or_push [OF assms(1), of y] by simp
qed

lemma out_words:
  fixes a b c d e :: nat
  shows "(a + 2 ^ 26 * (b mod 2 ^ 6)) + 2 ^ 32 * ((b div 2 ^ 6 + 2 ^ 20 * (c mod 2 ^ 12)) + 2 ^ 32 * ((c div 2 ^ 12 + 2 ^ 14 * (d mod 2 ^ 18)) +
      2 ^ 32 * (d div 2 ^ 18 + 2 ^ 8 * (e mod 2 ^ 24)))) + 2 ^ 128 * (e div 2 ^ 24) = limbs_val a b c d e"
proof -
  have s: "\<exists>q m. t div k = q \<and> t mod k = m \<and> t = k * q + m" for t k :: nat by simp
  obtain q1 m1 where 1: "b div 2 ^ 6 = q1" "b mod 2 ^ 6 = m1" "b = 2 ^ 6 * q1 + m1" using s [of b "2 ^ 6"] by blast
  obtain q2 m2 where 2: "c div 2 ^ 12 = q2" "c mod 2 ^ 12 = m2" "c = 2 ^ 12 * q2 + m2" using s [of c "2 ^ 12"] by blast
  obtain q3 m3 where 3: "d div 2 ^ 18 = q3" "d mod 2 ^ 18 = m3" "d = 2 ^ 18 * q3 + m3" using s [of d "2 ^ 18"] by blast
  obtain q4 m4 where 4: "e div 2 ^ 24 = q4" "e mod 2 ^ 24 = m4" "e = 2 ^ 24 * q4 + m4" using s [of e "2 ^ 24"] by blast
  show ?thesis unfolding 1(1,2) 2(1,2) 3(1,2) 4(1,2) limbs_val_def by (simp add: 1(3) 2(3) 3(3) 4(3))
qed

lemma add64: "unat a + unat b < 2 ^ 64 \<Longrightarrow> unat (a + b) = unat a + unat b" for a b :: u64
  using unat_add_lem [of a b] by simp

lemma unat_ucast64: "unat (ucast w :: u64) = unat w" for w :: u32
  by (simp add: unsigned_ucast_eq take_bit_nat_eq_self order_less_trans [OF unsigned_less])

lemma fin_out_bytes:
  fixes y0 y1 y2 y3 y4 :: u32
  assumes y: "unat y0 < L26" "unat y1 < L26" "unat y2 < L26" "unat y3 < L26" and key: "length key = 16"
  shows "fin_out y0 y1 y2 y3 y4 key = nat_bytes 16 (limbs_val (unat y0) (unat y1) (unat y2) (unat y3) (unat y4) + le_val key)"
proof -
  obtain k0 k1 k2 k3 where k: "k0 = unat (U8TO32_LE key)" "k1 = unat (U8TO32_LE (drop 4 key))" "k2 = unat (U8TO32_LE (drop 8 key))"
    "k3 = unat (U8TO32_LE (drop 12 key))" by blast
  obtain w0 w1 w2 w3 where w: "w0 = unat (y0 OR push_bit 26 y1)" "w1 = unat (drop_bit 6 y1 OR push_bit 20 y2)"
    "w2 = unat (drop_bit 12 y2 OR push_bit 14 y3)" "w3 = unat (drop_bit 18 y3 OR push_bit 8 y4)" by blast
  have u: "unat (x :: u32) < 2 ^ 32" for x using unsigned_less [of x, where ?'a = nat] by simp
  have wb: "w0 < 2 ^ 32" "w1 < 2 ^ 32" "w2 < 2 ^ 32" "w3 < 2 ^ 32" "k0 < 2 ^ 32" "k1 < 2 ^ 32" "k2 < 2 ^ 32" "k3 < 2 ^ 32"
    unfolding w k by (rule u)+
  obtain f0 f1 f2 f3 :: u64 where f: "f0 = ucast (y0 OR push_bit 26 y1) + ucast (U8TO32_LE key)"
    "f1 = ucast (drop_bit 6 y1 OR push_bit 20 y2) + ucast (U8TO32_LE (drop 4 key)) + drop_bit 32 f0"
    "f2 = ucast (drop_bit 12 y2 OR push_bit 14 y3) + ucast (U8TO32_LE (drop 8 key)) + drop_bit 32 f1"
    "f3 = ucast (drop_bit 18 y3 OR push_bit 8 y4) + ucast (U8TO32_LE (drop 12 key)) + drop_bit 32 f2" by blast
  have out: "fin_out y0 y1 y2 y3 y4 key = U32TO8_LE (ucast f0) @ U32TO8_LE (ucast f1) @ U32TO8_LE (ucast f2) @ U32TO8_LE (ucast f3)"
    unfolding f by (simp only: fin_out_def Let_def)
  have sum: "unat (ucast a + ucast b :: u64) = unat a + unat b" for a b :: u32
    using add64 [of "ucast a" "ucast b"] u [of a] u [of b] unfolding unat_ucast64 by simp
  have step: "unat (g + drop_bit 32 h) = unat g + unat h div 2 ^ 32" if "unat g < 2 ^ 33" for g h :: u64
  proof -
    have "unat h < 2 ^ 32 * 2 ^ 32" using unsigned_less [of h, where ?'a = nat] by simp
    then have "unat h div 2 ^ 32 < 2 ^ 32" by (rule less_mult_imp_div_less)
    then show ?thesis using add64 [of g "drop_bit 32 h"] that unfolding unat_drop_bit by simp
  qed
  have b33: "a + b < 2 ^ 33" if "a < 2 ^ 32" "b < 2 ^ 32" for a b :: nat using that by simp
  have v0: "unat f0 = w0 + k0" unfolding f(1) sum w k ..
  have v1: "unat f1 = w1 + k1 + unat f0 div 2 ^ 32"
    unfolding f(2) by (subst step) (simp_all only: sum w [symmetric] k [symmetric] b33 wb)
  have v2: "unat f2 = w2 + k2 + unat f1 div 2 ^ 32"
    unfolding f(3) by (subst step) (simp_all only: sum w [symmetric] k [symmetric] b33 wb)
  have v3: "unat f3 = w3 + k3 + unat f2 div 2 ^ 32"
    unfolding f(4) by (subst step) (simp_all only: sum w [symmetric] k [symmetric] b33 wb)
  obtain A1 A2 A3 where A: "A1 = w1 + k1" "A2 = w2 + k2" "A3 = w3 + k3" by blast
  have "nat_bytes (4 + (4 + (4 + 4))) (unat f0 + 2 ^ 32 * (A1 + 2 ^ 32 * (A2 + 2 ^ 32 * A3))) =
      nat_bytes 4 (unat f0) @ nat_bytes (4 + (4 + 4)) (unat f1 + 2 ^ 32 * (A2 + 2 ^ 32 * A3))"
    using nat_bytes_word [of "4 + (4 + 4)" "unat f0" "A1 + 2 ^ 32 * (A2 + 2 ^ 32 * A3)"] unfolding v1 A(1) by (simp only: ac_simps)
  also have "nat_bytes (4 + (4 + 4)) (unat f1 + 2 ^ 32 * (A2 + 2 ^ 32 * A3)) =
      nat_bytes 4 (unat f1) @ nat_bytes (4 + 4) (unat f2 + 2 ^ 32 * A3)"
    using nat_bytes_word [of "4 + 4" "unat f1" "A2 + 2 ^ 32 * A3"] unfolding v2 A(2) by (simp only: ac_simps)
  also have "nat_bytes (4 + 4) (unat f2 + 2 ^ 32 * A3) = nat_bytes 4 (unat f2) @ nat_bytes 4 (unat f3)"
    using nat_bytes_word [of 4 "unat f2" A3] unfolding v3 A(3) by (simp only: ac_simps)
  finally have bytes: "fin_out y0 y1 y2 y3 y4 key = nat_bytes 16 (unat f0 + 2 ^ 32 * (A1 + 2 ^ 32 * (A2 + 2 ^ 32 * A3)))"
    unfolding out by (simp add: U32TO8_LE_bytes)
  have dl: "unat (drop_bit j x) < 2 ^ a" if "unat x < L26" "j + a = 26" for j a and x :: u32
  proof -
    have "L26 = 2 ^ a * 2 ^ j" using that(2) by (simp flip: power_add add: add.commute)
    then show ?thesis unfolding unat_drop_bit using that(1) by (metis less_mult_imp_div_less)
  qed
  have wv: "w0 = unat y0 + 2 ^ 26 * (unat y1 mod 2 ^ 6)" "w1 = unat y1 div 2 ^ 6 + 2 ^ 20 * (unat y2 mod 2 ^ 12)"
    "w2 = unat y2 div 2 ^ 12 + 2 ^ 14 * (unat y3 mod 2 ^ 18)" "w3 = unat y3 div 2 ^ 18 + 2 ^ 8 * (unat y4 mod 2 ^ 24)"
    unfolding w unat_drop_bit [symmetric]
    using unat_or_push_low [of y0 26 6 y1] y(1) unat_or_push_low [OF dl [OF y(2), of 6 20], of 12 y2]
      unat_or_push_low [OF dl [OF y(3), of 12 14], of 18 y3] unat_or_push_low [OF dl [OF y(4), of 18 8], of 24 y4]
    by simp_all
  have K: "le_val key = k0 + 2 ^ 32 * k1 + 2 ^ 64 * k2 + 2 ^ 96 * k3" unfolding k by (rule le_val_16 [OF key])
  obtain Q where Q: "Q = unat y4 div 2 ^ 24" by blast
  have lv: "limbs_val (unat y0) (unat y1) (unat y2) (unat y3) (unat y4) = w0 + 2 ^ 32 * (w1 + 2 ^ 32 * (w2 + 2 ^ 32 * w3)) + 2 ^ 128 * Q"
    unfolding wv Q by (rule out_words [symmetric])
  have "limbs_val (unat y0) (unat y1) (unat y2) (unat y3) (unat y4) + le_val key =
      (unat f0 + 2 ^ 32 * (A1 + 2 ^ 32 * (A2 + 2 ^ 32 * A3))) + 2 ^ 128 * Q"
    unfolding lv K v0 A by simp
  moreover have "nat_bytes 16 (N + 2 ^ 128 * Q) = nat_bytes 16 N" for N
    using nat_bytes_mod [of 16 16 "N + 2 ^ 128 * Q"] nat_bytes_mod [of 16 16 N] by simp
  ultimately show ?thesis unfolding bytes by (simp only:)
qed

text \<open>A carry left in the lowest limb is lost only behind an odd second limb.\<close>

lemma or_carry:
  fixes y0 y1 :: u32
  assumes "L26 \<le> unat y0" "unat y0 < L26 + 5" "even (unat y1)"
  shows "y0 OR push_bit 26 y1 = (y0 - push_bit 26 1) OR push_bit 26 (y1 + 1)"
proof -
  have p: "unat (push_bit 26 1 :: u32) = L26" by simp
  have d: "unat (y0 - push_bit 26 1) = unat y0 - L26" using unat_sub_if' [of y0 "push_bit 26 1"] assms(1) unfolding p by simp
  have "unat ((y0 - push_bit 26 1) OR push_bit 26 1) = unat y0"
    using unat_or_push [of "y0 - push_bit 26 1" 26 1] assms(1,2) unfolding d p by simp
  then have y0: "y0 = (y0 - push_bit 26 1) OR push_bit 26 1" by (simp only: word_unat_eq_iff)
  obtain m where "unat y1 = 2 * m" using assms(3) by blast
  moreover have "y1 = of_nat (unat y1)" by simp
  ultimately have "y1 = 2 * of_nat m" by simp
  then have "even y1" by simp
  then have "y1 + 1 = 1 OR y1" by (simp add: one_or_eq)
  then show ?thesis by (subst y0) (simp only: push_bit_or or.assoc)
qed

lemma fin_out_carry:
  fixes y0 y1 :: u32
  assumes y: "L26 \<le> unat y0" "unat y0 < L26 + 5" "even (unat y1)" "unat y1 < 63" and key: "length key = 16"
  shows "fin_out y0 y1 0 0 0 key = nat_bytes 16 (limbs_val (unat y0) (unat y1) 0 0 0 + le_val key)"
proof -
  have d: "unat (y0 - push_bit 26 1) = unat y0 - L26" using unat_sub_if' [of y0 "push_bit 26 1"] y(1) by simp
  have s: "unat (y1 + 1) = unat y1 + 1" using add32 [of y1 1] y(4) by simp
  have z: "drop_bit 6 y1 = 0" "drop_bit 6 (y1 + 1) = 0"
    unfolding word_unat_eq_iff unat_drop_bit s using y(4) by simp_all
  have "fin_out y0 y1 0 0 0 key = fin_out (y0 - push_bit 26 1) (y1 + 1) 0 0 0 key"
    unfolding fin_out_def or_carry [OF y(1-3)] z ..
  also have "\<dots> = nat_bytes 16 (limbs_val (unat (y0 - push_bit 26 1)) (unat (y1 + 1)) 0 0 0 + le_val key)"
    using fin_out_bytes [of "y0 - push_bit 26 1" "y1 + 1" 0 0 key 0] key y unfolding d s by simp
  also have "limbs_val (unat (y0 - push_bit 26 1)) (unat (y1 + 1)) 0 0 0 = limbs_val (unat y0) (unat y1) 0 0 0"
    unfolding d s limbs_val_def using y(1) by simp
  finally show ?thesis .
qed

subsection \<open>The whole computation\<close>

lemma limbs_bound:
  fixes a b c d e :: nat
  assumes "a < L26 + 5" "b < L26" "c < L26" "d < L26" "e < L26"
  shows "limbs_val a b c d e < 2 * P1305"
  using assms unfolding limbs_val_def by simp

text \<open>The accumulators whose tag the code computes wrongly, if their limbs came out that way.\<close>

definition lost_carry :: "nat \<Rightarrow> bool" where
  "lost_carry a \<longleftrightarrow> 2 ^ 27 \<le> a \<and> a < 2 ^ 32 \<and> a mod 2 ^ 27 < 5"

lemma odd_carry_lost:
  fixes x0 x1 :: nat
  assumes "L26 \<le> x0" "x0 < L26 + 5" "x1 < 63" "odd x1"
  shows "lost_carry (limbs_val x0 x1 0 0 0)"
proof -
  obtain m where m: "x1 = 2 * m + 1" using assms(4) by (auto elim: oddE)
  obtain d where d: "x0 = L26 + d" "d < 5" using assms(1,2) by (metis add_diff_inverse_nat add_less_cancel_left linorder_not_less)
  have v: "limbs_val x0 x1 0 0 0 = d + 2 ^ 27 * (m + 1)" unfolding limbs_val_def m d(1) by simp
  have "(d + 2 ^ 27 * (m + 1)) mod 2 ^ 27 = d" unfolding mod_mult_self2 using d(2) by simp
  moreover have "m + 1 \<le> 31" using assms(3) m by simp
  ultimately show ?thesis unfolding lost_carry_def v using d(2) by simp
qed

lemma finish_value:
  assumes p: "pinv R key st" and A: "hval st mod P1305 = A" "\<not> lost_carry A" and key: "length key = 16"
    and x: "fin_carry (ps_h0 st) (ps_h1 st) (ps_h2 st) (ps_h3 st) (ps_h4 st) = (x0, x1, x2, x3, x4)"
    and y: "fin_select x0 x1 x2 x3 x4 = (y0, y1, y2, y3, y4)"
  shows "fin_out y0 y1 y2 y3 y4 key = nat_bytes 16 (A + le_val key)"
proof -
  have h: "unat (ps_h0 st) \<le> 2850000000" "unat (ps_h1 st) < L26" "unat (ps_h2 st) < L26" "unat (ps_h3 st) < L26"
    "unat (ps_h4 st) < L26" using p by (simp_all add: pinv_def hinv_def)
  note c = fin_carry_val [OF h x]
  obtain V where V: "V = limbs_val (unat x0) (unat x1) (unat x2) (unat x3) (unat x4)" by blast
  have x0: "unat x0 < L26 + 5" using c(6) by auto
  have VA: "V mod P1305 = A" using c(1) A(1) unfolding V hval_def by (simp only:)
  have V2: "V < 2 * P1305" unfolding V by (rule limbs_bound [OF x0 c(2-5)])
  note s = fin_select_val [OF x0 c(2-5) y V]
  show ?thesis
  proof (cases "P1305 \<le> V")
    case True
    then have "A = V - P1305" using VA V2 by (simp add: le_mod_geq)
    then show ?thesis using s fin_out_bytes [of y0 y1 y2 y3 key y4] key True by simp
  next
    case False
    then have AV: "A = V" using VA by simp
    have yx: "y0 = x0" "y1 = x1" "y2 = x2" "y3 = x3" "y4 = x4" using s False by simp_all
    show ?thesis
    proof (cases "unat x0 < L26")
      case True
      then show ?thesis unfolding yx AV V using fin_out_bytes [of x0 x1 x2 x3 key x4] key c(2-4) by simp
    next
      case big: False
      then have b: "L26 \<le> unat x0" "unat x1 < 63" "x2 = 0" "x3 = 0" "x4 = 0" using c(6) by auto
      have "even (unat x1)"
        using odd_carry_lost [OF b(1) x0 b(2)] A(2) unfolding AV V b by auto
      then show ?thesis
        using fin_out_carry [OF b(1) x0 _ b(2) key] unfolding yx AV V b by simp
    qed
  qed
qed

lemma absorbed_updates:
  "poly_absorbed R key m st \<Longrightarrow> poly_absorbed R key (m @ concat ds) (foldl (\<lambda>st d. CRYPTO_poly1305_update d st) st ds)"
proof (induction ds arbitrary: m st)
  case (Cons d ds)
  show ?case using Cons.IH [OF CRYPTO_poly1305_update_absorbed [OF Cons.prems, of d]] by simp
qed simp

lemma finish_absorbed:
  assumes a: "poly_absorbed R key m st" and A: "\<not> lost_carry (poly_eval R m 0)" and key: "length key = 16"
  shows "CRYPTO_poly1305_finish st = nat_bytes 16 (poly_eval R m 0 + le_val key)"
proof -
  obtain full tail where s: "pinv R key st" "m = full @ tail" "16 dvd length full" "ps_buf_used st = length tail"
    "take (length tail) (ps_buf st) = tail" "hval st mod P1305 = poly_eval R full 0"
    using a by (auto simp: poly_absorbed_def)
  obtain st' where st': "st' = (if ps_buf_used st \<noteq> 0 then poly1305_update (take (ps_buf_used st) (ps_buf st)) st else st)"
    by blast
  have t: "pinv R key st' \<and> hval st' mod P1305 = poly_eval R m 0"
  proof (cases "tail = []")
    case True
    then show ?thesis using s st' by simp
  next
    case False
    then show ?thesis
      unfolding st' using poly1305_update_val [OF s(1) s(6), of tail] s(2,4,5) poly_eval_append [OF s(3), of R tail 0] by simp
  qed
  then have k: "ps_key st' = key" by (simp add: pinv_def)
  obtain x0 x1 x2 x3 x4 where x: "fin_carry (ps_h0 st') (ps_h1 st') (ps_h2 st') (ps_h3 st') (ps_h4 st') = (x0, x1, x2, x3, x4)"
    by (metis prod_cases5)
  obtain y0 y1 y2 y3 y4 where y: "fin_select x0 x1 x2 x3 x4 = (y0, y1, y2, y3, y4)" by (metis prod_cases5)
  show ?thesis
    unfolding CRYPTO_poly1305_finish_parts [OF st' x y] k
    by (rule finish_value [OF conjunct1 [OF t] conjunct2 [OF t] A key x y])
qed

text \<open>C39: Poly1305. For every key, every message and every division of it into updates, the tag is that of RFC 8439, the
  clamped key's polynomial modulo \<open>2 ^ 130 - 5\<close> plus the second half of the key, unless the value of the polynomial is at
  most 4 above a multiple of \<open>2 ^ 27\<close> from \<open>2 ^ 27\<close> to below \<open>2 ^ 32\<close>: \<open>CRYPTO_poly1305_finish\<close> does not propagate the last
  carry out of the lowest limb.\<close>

theorem CRYPTO_poly1305_correct:
  assumes "length key = 32" "\<not> lost_carry (poly_acc key (concat ds))"
  shows "CRYPTO_poly1305_finish (foldl (\<lambda>st d. CRYPTO_poly1305_update d st) (CRYPTO_poly1305_init key) ds) =
    poly1305_tag key (concat ds)"
proof -
  have k: "32 \<le> length key" "length (take 16 (drop 16 key)) = 16" using assms(1) by simp_all
  show ?thesis
    using finish_absorbed [OF absorbed_updates [OF CRYPTO_poly1305_init_absorbed [OF k(1)]], of ds] k(2) assms(2)
    by (simp add: poly1305_tag_def poly_acc_def)
qed

text \<open>The first test of RFC 8439, section 2.5.2, in two updates.\<close>

definition rfc8439_key :: "u8 list" where
  "rfc8439_key = [0x85, 0xd6, 0xbe, 0x78, 0x57, 0x55, 0x6d, 0x33, 0x7f, 0x44, 0x52, 0xfe, 0x42, 0xd5, 0x06, 0xa8,
     0x01, 0x03, 0x80, 0x8a, 0xfb, 0x0d, 0xb2, 0xfd, 0x4a, 0xbf, 0xf6, 0xaf, 0x41, 0x49, 0xf5, 0x1b]"

definition rfc8439_msg :: "u8 list list" where
  "rfc8439_msg = [[0x43, 0x72, 0x79, 0x70, 0x74, 0x6f, 0x67, 0x72, 0x61, 0x70],
     [0x68, 0x69, 0x63, 0x20, 0x46, 0x6f, 0x72, 0x75, 0x6d, 0x20, 0x52, 0x65, 0x73, 0x65, 0x61, 0x72, 0x63, 0x68, 0x20,
      0x47, 0x72, 0x6f, 0x75, 0x70]]"

lemma rfc8439_r: "le_val (clamp (take 16 rfc8439_key)) = 0x806d5400e52447c036d555408bed685"
  by (simp add: rfc8439_key_def clamp_def)

lemma rfc8439_acc: "poly_acc rfc8439_key (concat rfc8439_msg) = 0x28d31b7caff946c77c8844335369d03a7"
  unfolding poly_acc_def rfc8439_r by (simp add: rfc8439_msg_def poly_eval.simps)

lemma nat_bytes_numeral: "nat_bytes (numeral k) n = of_nat n # nat_bytes (pred_numeral k) (n div 256)"
  by (simp only: numeral_eq_Suc [of k] nat_bytes.simps)

lemma rfc8439_tag: "poly1305_tag rfc8439_key (concat rfc8439_msg) =
   [0xa8, 0x06, 0x1d, 0xc1, 0x30, 0x51, 0x36, 0xc6, 0xc2, 0x2b, 0x8b, 0xaf, 0x0c, 0x01, 0x27, 0xa9]"
  unfolding poly1305_tag_def rfc8439_acc by (simp add: rfc8439_key_def nat_bytes_numeral)

theorem CRYPTO_poly1305_correct_witness:
  "CRYPTO_poly1305_finish (foldl (\<lambda>st d. CRYPTO_poly1305_update d st) (CRYPTO_poly1305_init rfc8439_key) rfc8439_msg) =
   [0xa8, 0x06, 0x1d, 0xc1, 0x30, 0x51, 0x36, 0xc6, 0xc2, 0x2b, 0x8b, 0xaf, 0x0c, 0x01, 0x27, 0xa9]"
proof -
  have "length rfc8439_key = 32" "\<not> lost_carry (poly_acc rfc8439_key (concat rfc8439_msg))"
    by (simp add: rfc8439_key_def) (simp add: rfc8439_acc lost_carry_def)
  then show ?thesis using CRYPTO_poly1305_correct [of rfc8439_key rfc8439_msg] rfc8439_tag by simp
qed

text \<open>A key and a message of one block whose tag is wrong: the value of the polynomial is \<open>2 ^ 27\<close>.\<close>

definition carry_key :: "u8 list" where
  "carry_key = [0x58, 0xcd, 0xa7, 0x5e, 0xb0, 0x08, 0xf5, 0x53, 0x01, 0x3b, 0x9f, 0xfe, 0x53, 0x19, 0x79, 0x19,
     0, 0, 0, 0, 0, 0, 0, 0, 0, 0, 0, 0, 0, 0, 0, 0]"

definition carry_msg :: "u8 list" where
  "carry_msg = [0xe2, 0x4e, 0x3e, 0xbd, 0x1e, 0x41, 0x01, 0xc9, 0xdb, 0xd4, 0x48, 0x30, 0x76, 0x8b, 0x72, 0x20]"

lemma carry_acc: "poly_acc carry_key carry_msg = 0x8000002"
  unfolding poly_acc_def by (simp add: carry_key_def carry_msg_def clamp_def poly_eval.simps)

lemma carry_tag: "poly1305_tag carry_key carry_msg = [2, 0, 0, 8, 0, 0, 0, 0, 0, 0, 0, 0, 0, 0, 0, 0]"
  unfolding poly1305_tag_def carry_acc by (simp add: carry_key_def nat_bytes_numeral)

lemma carry_lost: "CRYPTO_poly1305_finish (CRYPTO_poly1305_update carry_msg (CRYPTO_poly1305_init carry_key)) =
   [2, 0, 0, 4, 0, 0, 0, 0, 0, 0, 0, 0, 0, 0, 0, 0]"
  by code_simp

end
