(* ===== verification/Spec2Isabelle.thy ===== *)
theory Spec2Isabelle
  imports C_Prelude Pb_Stream Pb_Wire Pb_Iter Pb_Encode Mem Cbs Cbs_Asn1 Cbb Cbb_Oid Digest Md5 Sha Sha512
    Pb_Decode Pb_Decode_Safe Pb_Required Pb_Roundtrip Bio Bio_Mem Bio_Pair Bio_Ring Bio_Duplex Pipe Bio_Fifo Lhash Lhash_Map
    Const_Time Base64 Base64_Stream Evp_Digest Hmac Kdf Tls_Cbc Tls_Cbc_Digest Tls_Cbc_Mac
    Bn_Words Bn_Mul Bn_Karatsuba Bn_Mont Bn_Exp Poly1305
begin

text \<open>
  A verification library for the C code that the Pledge iOS application ships. The application itself is Swift and calls
  Firebase, gRPC and Stripe; the C code below them is \<open>nanopb\<close> (protocol buffers: \<open>Lend/Pods/nanopb\<close>) and \<open>BoringSSL\<close>
  (\<open>Lend/Pods/BoringSSL-GRPC/src/crypto\<close>). The build is 64-bit, without assembly (\<open>OPENSSL_NO_ASM\<close>), with a 128-bit integer
  type, and nanopb is configured with \<open>PB_FIELD_32BIT\<close> and \<open>PB_ENABLE_MALLOC\<close>.

  Conventions. \<open>C_Prelude\<close> fixes the machine types: \<open>size_t\<close> is \<open>nat\<close> below \<open>SIZE_LIMIT = 2 ^ 64\<close> with the wrap-around
  written out (\<open>size_add\<close>, \<open>size_sub\<close>), bytes and the fixed-width integers are words. \<open>None\<close> as the result of an operation
  stands for what C gives no result: a failed assertion, an abort, an access outside a buffer, a loop that does not end. A
  theorem whose conclusion is \<open>Some\<close> excludes all of these. An error return of the code is a value (\<open>False\<close>, 0, -1). The C
  library's \<open>malloc\<close>, and callbacks, hash functions and comparison functions of the caller, are parameters. Loops that may
  run forever are \<open>partial_function\<close>, and that they return is proved.

  nanopb.
  \<^item> \<open>Pb_Stream\<close>: the streams and their buffer and sizing callbacks (\<open>pb_encode.c\<close>, \<open>pb_decode.c\<close>).
  \<^item> \<open>Pb_Wire\<close>: varints, zig-zag and fixed-width integers, tags, strings, skipping, substreams. The varint coder refines the
    mathematical one, the round trip holds for every 64-bit value, a skipped field takes exactly its bytes.
  \<^item> \<open>Pb_Iter\<close>: descriptors, the field iterator, the search for a field (\<open>pb_common.c\<close>).
  \<^item> \<open>Pb_Encode\<close>: the message encoder. A sizing pass returns the number of bytes that the writing pass writes, framing and
    packed arrays are exact.
  \<^item> \<open>Pb_Decode\<close>: the message decoder on a byte memory. \<open>Pb_Decode_Safe\<close>: for message types without pointers and callbacks it
    returns, reads only the stream and writes only the message, whatever the input. \<open>Pb_Required\<close>: it
    accepts a message exactly when every required field was there. \<open>Pb_Roundtrip\<close>: what the encoder of a field wrote, the decoder stores.
  The recursion over nested messages takes a depth as fuel; the theorems require that the nesting of the message type is at
  most the fuel, and for a type of finite nesting its depth is enough.

  Memory, byte strings, containers.
  \<^item> \<open>Mem\<close>: the allocation wrappers with their size prefix and the C string functions (\<open>mem.c\<close>).
  \<^item> \<open>Cbs\<close>, \<open>Cbs_Asn1\<close>: the parser (\<open>cbs.c\<close>): what each operation accepts is stated as an equivalence with the DER rules.
    The comment in \<open>parse_asn1_tag\<close> rules out tag numbers from 31 on, which the code parses: the lemmas cover both forms, the
    property only the tag numbers below 31.
  \<^item> \<open>Cbb\<close>, \<open>Cbb_Oid\<close>: the builder with its pending children (\<open>cbb.c\<close>): flushing refines the nested structure that the calls
    describe, integers and object identifiers survive the way out and back, SET OF is sorted.
  \<^item> \<open>Lhash\<close>, \<open>Lhash_Map\<close>: the hash table (\<open>lhash.c\<close>), and that every sequence of calls behaves like a finite map (locale
    \<open>map_table\<close>, interpreted on the table), with the load kept in its bounds.

  Input and output.
  \<^item> \<open>Bio\<close>, \<open>Bio_Mem\<close>, \<open>Bio_Pair\<close>: the BIO heap and its method tables (\<open>bio.c\<close>, \<open>bio_mem.c\<close>, \<open>buf.c\<close>, \<open>pair.c\<close>).
  \<^item> \<open>Bio_Ring\<close>, \<open>Bio_Duplex\<close>: the ring buffer as a queue, a connected pair as two channels. \<open>Pipe\<close> is the contract of a byte
    pipe (locale \<open>byte_pipe\<close>): order, no loss, progress under a fair schedule. \<open>Bio_Fifo\<close> interprets it on the pair.

  Digests, MACs, key derivation.
  \<^item> \<open>Digest\<close>: the block collector of \<open>md32_common.h\<close> (locales \<open>md_block\<close> and \<open>md32\<close>): over any division of a message into
    updates the blocks are those of the padded message. \<open>Md5\<close>, \<open>Sha\<close>, \<open>Sha512\<close> interpret them on MD4, MD5, SHA-1, SHA-2.
  \<^item> \<open>Evp_Digest\<close>: the method tables and contexts (\<open>digest.c\<close>, \<open>digests.c\<close>; locale \<open>digest_algorithm\<close>). \<open>Hmac\<close>: HMAC is the
    function of RFC 2104 for every digest. \<open>Kdf\<close>: HKDF is RFC 5869, the TLS function is RFC 5246 and RFC 2246.
  \<^item> \<open>Const_Time\<close>: the masks of \<open>internal.h\<close>. \<open>Base64\<close>, \<open>Base64_Stream\<close>: the coder with its line buffers, and the round trip.
  \<^item> \<open>Tls_Cbc\<close>, \<open>Tls_Cbc_Digest\<close>, \<open>Tls_Cbc_Mac\<close>: the record functions of \<open>tls_cbc.c\<close>: constant-time padding check and MAC
    extraction, and the MAC over data of secret length (locale \<open>tls_digest\<close>, interpreted on SHA-1, SHA-256, SHA-384).
  \<^item> \<open>Poly1305\<close>: the authenticator on limbs of 26 bits (\<open>poly1305.c\<close>) is that of RFC 8439 for every division of the message, but
    for accumulators on which the last reduction loses a carry; a key and a message with a wrong tag are given.

  Big numbers (\<open>fipsmodule/bn\<close>).
  \<^item> \<open>Bn_Words\<close>: word arrays, least significant word first; \<open>bn_val\<close> is their number. Addition, subtraction, products by a word,
    comparison, reductions (\<open>generic.c\<close>, \<open>cmp.c\<close>, \<open>div.c\<close>). A turn of a model loop is one word where the source unrolls four.
  \<^item> \<open>Bn_Mul\<close>: Comba columns as data, schoolbook product and square. \<open>Bn_Karatsuba\<close>: the recursive routines; every carry that
    the source asserts to vanish does.
  \<^item> \<open>Bn_Mont\<close>: the inverse of the modulus and Montgomery reduction. \<open>Bn_Exp\<close>: sliding-window exponentiation and the inverse
    modulo a prime.
  How the lemmas are organised. Each component theory has its operations first, then an invariant (\<open>chan_ok\<close>, \<open>pair_inv\<close>, \<open>cbb_inv\<close>,
  \<open>lhash_ok\<close>, \<open>ctx_ok\<close>, \<open>mont_ok\<close>), lemmas that every operation keeps it and what it computes in terms of it, and last the properties,
  numbered C1, C2, ..., in the order of their importance, each with a witness where it has hypotheses. Contracts between
  components are locales; every locale is interpreted on the definitions that model the code.

  Not modelled. Everything that is not C: the Swift application, Firebase, gRPC, abseil, leveldb, the TLS state machine in
  \<open>ssl/\<close>. Of BoringSSL: the block ciphers and their modes, the AEADs and ChaCha20, the elliptic curves, RSA, DH and DSA, the ASN.1
  templates with X.509 and PEM, the EVP keys, configuration files and object tables, BIOs over files and sockets, the random
  generator, threads, reference counts and the buffer pool. They are state of the operating system, generated tables, or
  table-driven code over the modelled parts. Of the big numbers, the \<open>BIGNUM\<close> records (sign, allocation) and long division. Across the modelled parts: the error queue, the clearing of memory before it is released, and
  timing; a definition that follows constant-time code has the code's values, and the absence of branches on secrets can only
  be read off its text. Aliasing of arguments is modelled where the code depends on it (\<open>same\<close> in the Montgomery product, the
  overlap rules of the buffers); elsewhere arguments are read before the result is written.
\<close>

end
